(* ===== verification/CF_Prelude.thy ===== *)
theory CF_Prelude
  imports Main "HOL-Library.Word" "HOL-Library.Multiset"
begin

text \<open>
  Shared vocabulary of the development: how a C function that can trap is represented, how a block
  of memory is read and written, the pointer type, the C constants every component uses
  (\<open>CFBase.h\<close>), and the generic facts on lists that the component proofs share.
\<close>

section \<open>Results of C functions\<close>

text \<open>
  A C function of the library returns a value, stops the process (\<open>HALT\<close>), or does something the
  C language gives no meaning to. The last two are errors of the model: an access outside a block
  (\<open>OutOfBounds\<close>) and an integer operation without a defined result (\<open>BadShift\<close>: a shift whose
  result does not fit in \<open>int\<close>), or a null pointer that is dereferenced (\<open>NullPointer\<close>).
\<close>

datatype cf_error = Halt | OutOfBounds | NullPointer | BadShift

type_synonym 'a cf = "cf_error + 'a"

definition ebind :: "'a cf \<Rightarrow> ('a \<Rightarrow> 'b cf) \<Rightarrow> 'b cf" where
  "ebind m f = (case m of Inl e \<Rightarrow> Inl e | Inr x \<Rightarrow> f x)"

lemma ebind_simps [simp]:
  "ebind (Inl e) f = Inl e"
  "ebind (Inr x) f = f x"
  by (simp_all add: ebind_def)

lemma ebind_eq_Inr [simp]: "ebind m f = Inr y \<longleftrightarrow> (\<exists>x. m = Inr x \<and> f x = Inr y)"
  by (cases m) auto

lemma ebind_assoc [simp]: "ebind (ebind m f) g = ebind m (\<lambda>x. ebind (f x) g)"
  by (cases m) auto

lemma ebind_cong [fundef_cong]:
  "m = m' \<Longrightarrow> (\<And>x. m' = Inr x \<Longrightarrow> f x = f' x) \<Longrightarrow> ebind m f = ebind m' f'"
  by (cases m) auto

section \<open>Blocks of memory\<close>

text \<open>A block is the list of its cells; reads and writes outside it are errors.\<close>

definition rd :: "'a list \<Rightarrow> nat \<Rightarrow> 'a cf" where
  "rd bs i = (if i < length bs then Inr (bs ! i) else Inl OutOfBounds)"

definition wr :: "'a list \<Rightarrow> nat \<Rightarrow> 'a \<Rightarrow> 'a list cf" where
  "wr bs i v = (if i < length bs then Inr (bs[i := v]) else Inl OutOfBounds)"

lemma rd_simps [simp]:
  "i < length bs \<Longrightarrow> rd bs i = Inr (bs ! i)"
  "\<not> i < length bs \<Longrightarrow> rd bs i = Inl OutOfBounds"
  by (simp_all add: rd_def)

lemma wr_simps [simp]:
  "i < length bs \<Longrightarrow> wr bs i v = Inr (bs[i := v])"
  "\<not> i < length bs \<Longrightarrow> wr bs i v = Inl OutOfBounds"
  by (simp_all add: wr_def)

lemma rd_eq_Inr: "rd bs i = Inr x \<longleftrightarrow> i < length bs \<and> x = bs ! i"
  by (auto simp: rd_def)

lemma wr_eq_Inr: "wr bs i v = Inr bs' \<longleftrightarrow> i < length bs \<and> bs' = bs[i := v]"
  by (auto simp: wr_def)

text \<open>A read at an index that is an integer of the code.\<close>

definition rd_at :: "'a list \<Rightarrow> int \<Rightarrow> 'a cf" where
  "rd_at xs i = (if i < 0 then Inl OutOfBounds else rd xs (nat i))"

lemma rd_at_nat: "0 \<le> i \<Longrightarrow> i < int (length xs) \<Longrightarrow> rd_at xs i = Inr (xs ! nat i)"
  by (simp add: rd_at_def nat_less_iff)

text \<open>
  \<open>memmove\<close> inside one block (\<open>move_within\<close>), from another block (\<open>copy_into\<close>), and \<open>memset\<close>
  (\<open>fill\<close>): cell counts, not bytes. All three fail when they would leave a block.
\<close>

definition copy_into :: "'a list \<Rightarrow> nat \<Rightarrow> 'a list \<Rightarrow> 'a list cf" where
  "copy_into bs dst src =
     (if dst + length src \<le> length bs
      then Inr (take dst bs @ src @ drop (dst + length src) bs) else Inl OutOfBounds)"

definition slice :: "'a list \<Rightarrow> nat \<Rightarrow> nat \<Rightarrow> 'a list cf" where
  "slice bs src n =
     (if src + n \<le> length bs then Inr (take n (drop src bs)) else Inl OutOfBounds)"

definition move_within :: "'a list \<Rightarrow> nat \<Rightarrow> nat \<Rightarrow> nat \<Rightarrow> 'a list cf" where
  "move_within bs dst src n = ebind (slice bs src n) (copy_into bs dst)"

definition fill :: "'a list \<Rightarrow> nat \<Rightarrow> nat \<Rightarrow> 'a \<Rightarrow> 'a list cf" where
  "fill bs dst n v = copy_into bs dst (replicate n v)"

section \<open>Pointers and constants\<close>

text \<open>
  A \<open>void *\<close> is a 64-bit address and compares unsigned; \<open>NULL\<close> is 0. Callbacks are addresses of
  code as well, so that the library can compare them, and what the code at an address does is a
  parameter (\<open>env\<close> records of the components).
\<close>

type_synonym ptr = "64 word"

abbreviation NULL :: ptr where "NULL \<equiv> 0"

text \<open>The retain and release calls a container makes are recorded in order.\<close>

datatype ref_event = Retained ptr | Released ptr

definition kCFCompareLessThan :: int where "kCFCompareLessThan = -1"
definition kCFCompareEqualTo :: int where "kCFCompareEqualTo = 0"
definition kCFCompareGreaterThan :: int where "kCFCompareGreaterThan = 1"
definition kCFNotFound :: int where "kCFNotFound = -1"

lemmas CFComparisonResult_defs =
  kCFCompareLessThan_def kCFCompareEqualTo_def kCFCompareGreaterThan_def

text \<open>
  \<open>flsl\<close>: the position, counted from 1, of the highest bit set; 0 for 0
  (\<open>CoreFoundation_Prefix.h\<close>). \<open>int_shift_1\<close> is the C expression \<open>1 << n\<close> at type \<open>int\<close>, which has
  a defined, non-negative result for \<open>n < 31\<close> only.
\<close>

fun flsl :: "nat \<Rightarrow> nat" where
  "flsl n = (if n = 0 then 0 else Suc (flsl (n div 2)))"

declare flsl.simps [simp del]

definition int_shift_1 :: "nat \<Rightarrow> nat cf" where
  "int_shift_1 n = (if n < 31 then Inr (2 ^ n) else Inl BadShift)"

lemma flsl_0 [simp]: "flsl 0 = 0"
  by (simp add: flsl.simps)

lemma flsl_upper: "n < 2 ^ flsl n"
proof (induction n rule: flsl.induct)
  case (1 n)
  then show ?case
    by (cases "n = 0") (auto simp: flsl.simps [of n])
qed

lemma flsl_lower: "n \<noteq> 0 \<Longrightarrow> 2 ^ (flsl n - 1) \<le> n"
proof (induction n rule: flsl.induct)
  case (1 n)
  show ?case
  proof (cases "n div 2 = 0")
    case True
    then have "n = 1" using "1.prems" by auto
    then show ?thesis by (simp add: flsl.simps)
  next
    case False
    with 1 have IH: "2 ^ (flsl (n div 2) - 1) \<le> n div 2" by simp
    from False have "flsl (n div 2) \<noteq> 0" by (subst flsl.simps) simp
    with IH "1.prems" show ?thesis
      by (cases "flsl (n div 2)") (auto simp: flsl.simps [of n])
  qed
qed

lemma flsl_le: "n < 2 ^ k \<Longrightarrow> flsl n \<le> k"
proof (rule ccontr)
  assume n: "n < 2 ^ k" and "\<not> flsl n \<le> k"
  then have k: "k \<le> flsl n - 1" and "n \<noteq> 0" by (auto intro: gr0I)
  then have "2 ^ (flsl n - 1) \<le> n" by (intro flsl_lower)
  moreover have "(2::nat) ^ k \<le> 2 ^ (flsl n - 1)" using k by simp
  ultimately show False using n by linarith
qed

section \<open>Lists\<close>

lemma mset_take_Suc:
  "i < length xs \<Longrightarrow> mset (take (Suc i) xs) = add_mset (xs ! i) (mset (take i xs))"
  by (simp add: take_Suc_conv_app_nth)

lemma mset_update_move:
  "i < length xs \<Longrightarrow> add_mset (xs ! i) (mset (xs[i := x])) = add_mset x (mset xs)"
  by (simp add: mset_update)

lemma take_update_swap_mset:
  assumes "i < n" and "n \<le> length xs"
  shows "add_mset (xs ! i) (mset (take n (xs[i := x]))) = add_mset x (mset (take n xs))"
  using assms mset_update_move [of i "take n xs" x] by (simp add: take_update_swap)

text \<open>A hole that moves from slot \<open>i\<close> to slot \<open>j\<close> does not change the contents.\<close>

lemma mset_take_move_hole:
  assumes "i \<noteq> j" and "i < n" and "j < n" and "n \<le> length xs"
  shows "mset (take n (xs[i := xs ! j, j := s])) = mset (take n (xs[i := s]))"
proof -
  let ?ys = "(take n xs)[i := s]"
  have "take n (xs[i := xs ! j, j := s]) = ?ys[i := ?ys ! j, j := ?ys ! i]"
    using assms by (simp add: take_update_swap)
  also have "mset \<dots> = mset ?ys"
    using assms by (intro mset_swap) simp_all
  finally show ?thesis
    using assms by (simp add: take_update_swap)
qed

lemma sorted_wrt_snoc:
  "sorted_wrt P (xs @ [x]) \<longleftrightarrow> sorted_wrt P xs \<and> (\<forall>y\<in>set xs. P y x)"
  by (auto simp: sorted_wrt_append)

end
