(* ===== verification/CF_UTF8.thy ===== *)
theory CF_UTF8
  imports CF_Prelude
begin

text \<open>
  The UTF-8 converter of \<open>CFBuiltinConverters.c\<close>: \<open>__CFToUTF8\<close>, \<open>__CFFromUTF8\<close> and the two functions
  that only count, statement by statement. Characters are UTF-16 code units (\<open>16 word\<close>), code points
  \<open>32 word\<close>, bytes \<open>8 word\<close>; a pointer into a buffer is an offset, and every access of a buffer
  is checked against the block it belongs to. A limit of 0 (\<open>maxByteLen\<close>, \<open>maxCharLen\<close>) means that the
  function only counts and must not write. The decomposition tables of \<open>CFUniChar.c\<close>, which the
  library maps from data files, are a parameter (\<open>uni_env\<close>).
\<close>

unbundle bit_operations_syntax

type_synonym byte = "8 word"
type_synonym unichar = "16 word"
type_synonym utf32 = "32 word"

section \<open>Flags of a conversion\<close>

definition kCFStringEncodingAllowLossyConversion :: utf32 where
  "kCFStringEncodingAllowLossyConversion = push_bit 0 1"

definition kCFStringEncodingUseCanonical :: utf32 where
  "kCFStringEncodingUseCanonical = push_bit 6 1"

definition kCFStringEncodingUseHFSPlusCanonical :: utf32 where
  "kCFStringEncodingUseHFSPlusCanonical = push_bit 7 1"

definition kCFStringEncodingLenientUTF8Conversion :: utf32 where
  "kCFStringEncodingLenientUTF8Conversion = push_bit 11 1"

definition flag_set :: "utf32 \<Rightarrow> utf32 \<Rightarrow> bool" where
  "flag_set flags f \<longleftrightarrow> flags AND f \<noteq> 0"

section \<open>Constants\<close>

definition kReplacementCharacter :: utf32 where "kReplacementCharacter = 0xFFFD"
definition kMaximumUCS2 :: utf32 where "kMaximumUCS2 = 0xFFFF"
definition kMaximumUTF16 :: utf32 where "kMaximumUTF16 = 0x10FFFF"
definition kMaximumUCS4 :: utf32 where "kMaximumUCS4 = 0x7FFFFFFF"
definition halfShift :: nat where "halfShift = 10"
definition halfBase :: utf32 where "halfBase = 0x10000"
definition halfMask :: utf32 where "halfMask = 0x3FF"
definition kSurrogateHighStart :: utf32 where "kSurrogateHighStart = 0xD800"
definition kSurrogateHighEnd :: utf32 where "kSurrogateHighEnd = 0xDBFF"
definition kSurrogateLowStart :: utf32 where "kSurrogateLowStart = 0xDC00"
definition kSurrogateLowEnd :: utf32 where "kSurrogateLowEnd = 0xDFFF"

lemmas utf_constants =
  kReplacementCharacter_def kMaximumUCS2_def kMaximumUTF16_def kMaximumUCS4_def halfShift_def
  halfBase_def halfMask_def kSurrogateHighStart_def kSurrogateHighEnd_def kSurrogateLowStart_def
  kSurrogateLowEnd_def

definition trailingBytesForUTF8 :: "nat list" where
  "trailingBytesForUTF8 =
     replicate 192 0 @ replicate 32 1 @ replicate 16 2 @ replicate 8 3 @ replicate 4 4 @ replicate 4 5"

definition offsetsFromUTF8 :: "utf32 list" where
  "offsetsFromUTF8 = [0x00000000, 0x00003080, 0x000E2080, 0x03C82080, 0xFA082080, 0x82082080]"

definition firstByteMark :: "byte list" where
  "firstByteMark = [0x00, 0x00, 0xC0, 0xE0, 0xF0, 0xF8, 0xFC]"

section \<open>From UTF-16 to UTF-8\<close>

definition CFUTF8BytesToWriteForCharacter :: "utf32 \<Rightarrow> nat" where
  "CFUTF8BytesToWriteForCharacter ch =
     (if ch < 0x80 then 1
      else if ch < 0x800 then 2
      else if ch < 0x10000 then 3
      else if ch < 0x200000 then 4
      else if ch < 0x4000000 then 5
      else if ch \<le> kMaximumUCS4 then 6
      else 0)"

text \<open>The switch of \<open>__CFToUTF8Core\<close>, entered at one of its cases, each falling through to the next.\<close>

fun utf8_cases :: "nat \<Rightarrow> byte list \<Rightarrow> nat \<Rightarrow> nat \<Rightarrow> utf32 \<Rightarrow> byte list cf" where
  "utf8_cases bytesToWrite bytes off 0 ch = Inr bytes"
| "utf8_cases bytesToWrite bytes off (Suc 0) ch =
     wr bytes off (ucast (ch OR ucast (firstByteMark ! bytesToWrite)))"
| "utf8_cases bytesToWrite bytes off (Suc (Suc k)) ch =
     ebind (wr bytes (off + Suc k) (ucast ((ch OR 0x80) AND 0xBF))) (\<lambda>bytes.
     utf8_cases bytesToWrite bytes off (Suc k) (drop_bit 6 ch))"

definition CFToUTF8Core :: "utf32 \<Rightarrow> byte list \<Rightarrow> nat \<Rightarrow> utf32 \<Rightarrow> (nat \<times> byte list) cf" where
  "CFToUTF8Core ch bytes off maxByteLen =
     (let bytesToWrite = CFUTF8BytesToWriteForCharacter ch;
          (bytesToWrite, ch) =
            (if bytesToWrite = 0 then (2, kReplacementCharacter) else (bytesToWrite, ch))
      in if unat maxByteLen < bytesToWrite then Inr (0, bytes)
         else ebind (utf8_cases bytesToWrite bytes off bytesToWrite ch) (\<lambda>bytes.
              Inr (bytesToWrite, bytes)))"

text \<open>
  What the loop of \<open>__CFToUTF8\<close> makes of a unit that is not ASCII: the code point and the place after
  it, or the end of the loop at a surrogate that is not half of a pair.
\<close>

definition is_low_surrogate :: "unichar \<Rightarrow> bool" where
  "is_low_surrogate c \<longleftrightarrow> kSurrogateLowStart \<le> ucast c \<and> ucast c \<le> kSurrogateLowEnd"

definition surrogate_pair :: "utf32 \<Rightarrow> utf32 \<Rightarrow> utf32" where
  "surrogate_pair hi lo =
     push_bit halfShift (hi - kSurrogateHighStart) + (lo - kSurrogateLowStart) + halfBase"

definition next_code_point :: "bool \<Rightarrow> unichar list \<Rightarrow> nat \<Rightarrow> utf32 \<Rightarrow> (utf32 \<times> nat) option" where
  "next_code_point isStrict characters i ch =
     (if ch \<ge> kSurrogateHighStart then
        if ch \<le> kSurrogateHighEnd then
          if i < length characters \<and> is_low_surrogate (characters ! i)
          then Some (surrogate_pair ch (ucast (characters ! i)), Suc i)
          else if isStrict then None else Some (ch, i)
        else if isStrict \<and> ch \<le> kSurrogateLowEnd then None else Some (ch, i)
      else Some (ch, i))"

lemma next_code_point_progress: "next_code_point s cs i ch = Some (ch', i') \<Longrightarrow> i \<le> i'"
  by (auto simp: next_code_point_def split: if_splits)

function to_utf8_loop ::
  "bool \<Rightarrow> unichar list \<Rightarrow> nat \<Rightarrow> nat \<Rightarrow> byte list \<Rightarrow> nat \<Rightarrow> (nat \<times> nat \<times> byte list) cf" where
  "to_utf8_loop isStrict characters maxByteLen i bytes j =
     (if i < length characters \<and> (maxByteLen = 0 \<or> j < maxByteLen) then
        (let ch = ucast (characters ! i) in
         if ch < 0x80 then
           ebind (if maxByteLen \<noteq> 0 then wr bytes j (ucast ch) else Inr bytes) (\<lambda>bytes.
           to_utf8_loop isStrict characters maxByteLen (Suc i) bytes (Suc j))
         else
           (case next_code_point isStrict characters (Suc i) ch of
              None \<Rightarrow> Inr (i, j, bytes)
            | Some (ch, i') \<Rightarrow>
                ebind (if maxByteLen \<noteq> 0 then CFToUTF8Core ch bytes j (of_nat (maxByteLen - j))
                       else Inr (CFUTF8BytesToWriteForCharacter ch, bytes)) (\<lambda>(bytesWritten, bytes).
                if bytesWritten = 0 then Inr (i' - (if ch < 0x10000 then 1 else 2), j, bytes)
                else to_utf8_loop isStrict characters maxByteLen i' bytes (j + bytesWritten))))
      else Inr (i, j, bytes))"
  by pat_completeness auto
termination
  by (relation "measure (\<lambda>(s, cs, m, i, bs, j). length cs - i)")
    (auto dest!: next_code_point_progress)

declare to_utf8_loop.simps [simp del]

text \<open>The result: the characters converted, the bytes made, and the buffer.\<close>

definition CFToUTF8 :: "utf32 \<Rightarrow> unichar list \<Rightarrow> nat \<Rightarrow> byte list \<Rightarrow> (nat \<times> nat \<times> byte list) cf" where
  "CFToUTF8 flags characters maxByteLen bytes =
     to_utf8_loop (\<not> flag_set flags kCFStringEncodingUseHFSPlusCanonical)
       characters maxByteLen 0 bytes 0"

fun to_utf8_len :: "unichar list \<Rightarrow> utf32 \<Rightarrow> utf32" where
  "to_utf8_len [] bytesToWrite = bytesToWrite"
| "to_utf8_len (c # characters) bytesToWrite =
     (case characters of
        d # characters' \<Rightarrow>
          if kSurrogateHighStart \<le> ucast c \<and> ucast c \<le> kSurrogateHighEnd \<and> is_low_surrogate d
          then to_utf8_len characters'
                 (bytesToWrite
                  + of_nat (CFUTF8BytesToWriteForCharacter (surrogate_pair (ucast c) (ucast d))))
          else to_utf8_len characters
                 (bytesToWrite + of_nat (CFUTF8BytesToWriteForCharacter (ucast c)))
      | [] \<Rightarrow> bytesToWrite + of_nat (CFUTF8BytesToWriteForCharacter (ucast c)))"

definition CFToUTF8Len :: "unichar list \<Rightarrow> nat" where
  "CFToUTF8Len characters = unat (to_utf8_len characters 0)"

section \<open>From UTF-8 to UTF-16\<close>

text \<open>
  What the converter asks the tables of \<open>CFUniChar.c\<close>: whether a code point from 0x80 on is a member of
  the set \<open>kCFUniCharHFSPlusDecomposableCharacterSet\<close>, and what \<open>CFUniCharDecomposeCharacter\<close> writes
  for it.
\<close>

record uni_env =
  hfs_decomposable :: "utf32 \<Rightarrow> bool"
  decomposition :: "utf32 \<Rightarrow> utf32 list"

definition CFUniCharIsDecomposableCharacter :: "uni_env \<Rightarrow> utf32 \<Rightarrow> bool" where
  "CFUniCharIsDecomposableCharacter env character =
     (if character < 0x80 then False else hfs_decomposable env character)"

text \<open>
  \<open>CFUniCharFillDestinationBuffer\<close> for UTF-16: the buffer, and the new place in it with the new length,
  or nothing when the room ran out. What was written before that stays in the buffer.
\<close>

fun fill_utf16 ::
  "utf32 list \<Rightarrow> unichar list \<Rightarrow> nat \<Rightarrow> nat \<Rightarrow> nat \<Rightarrow> (unichar list \<times> (nat \<times> nat) option) cf" where
  "fill_utf16 [] buf dst dstLength usedLength = Inr (buf, Some (dst, usedLength))"
| "fill_utf16 (currentChar # src) buf dst dstLength usedLength =
     (if currentChar > 0xFFFF then
        (let usedLength = usedLength + 2 in
         if dstLength \<noteq> 0 then
           if usedLength > dstLength then Inr (buf, None)
           else
             let currentChar = currentChar - 0x10000 in
             ebind (wr buf dst (ucast (drop_bit 10 currentChar + 0xD800))) (\<lambda>buf.
             ebind (wr buf (dst + 1) (ucast ((currentChar AND 0x3FF) + 0xDC00))) (\<lambda>buf.
             fill_utf16 src buf (dst + 2) dstLength usedLength))
         else fill_utf16 src buf dst dstLength usedLength)
      else
        (let usedLength = usedLength + 1 in
         if dstLength \<noteq> 0 then
           if usedLength > dstLength then Inr (buf, None)
           else ebind (wr buf dst (ucast currentChar)) (\<lambda>buf.
                fill_utf16 src buf (dst + 1) dstLength usedLength)
         else fill_utf16 src buf dst dstLength usedLength))"

text \<open>
  \<open>__CFIsLegalUTF8\<close>: the bytes after the first one are read from the last to the second, then the range
  of the first byte and, for four of its values, of the second one is checked.
\<close>

fun utf8_continued :: "byte list \<Rightarrow> nat \<Rightarrow> nat \<Rightarrow> bool cf" where
  "utf8_continued bytes source 0 = Inr True"
| "utf8_continued bytes source (Suc k) =
     ebind (rd bytes (source + Suc k)) (\<lambda>b.
     if b AND 0xC0 \<noteq> 0x80 then Inr False else utf8_continued bytes source k)"

definition second_byte_is :: "byte list \<Rightarrow> nat \<Rightarrow> (byte \<Rightarrow> bool) \<Rightarrow> bool cf" where
  "second_byte_is bytes source p = ebind (rd bytes (source + 1)) (\<lambda>b. Inr (p b))"

definition CFIsLegalUTF8 :: "byte list \<Rightarrow> nat \<Rightarrow> nat \<Rightarrow> bool cf" where
  "CFIsLegalUTF8 bytes source len =
     (if len > 4 then Inr False
      else
        ebind (rd bytes source) (\<lambda>head.
        ebind (utf8_continued bytes source (len - 1)) (\<lambda>continued.
        if \<not> continued then Inr False
        else if 0x80 \<le> head \<and> head < 0xC2 \<or> head > 0xF4 then Inr False
        else
          ebind (if head = 0xE0 then second_byte_is bytes source (\<lambda>b. b < 0xA0)
                 else if head = 0xED then second_byte_is bytes source (\<lambda>b. b > 0x9F)
                 else if head = 0xF0 then second_byte_is bytes source (\<lambda>b. b < 0x90)
                 else if head = 0xF4 then second_byte_is bytes source (\<lambda>b. b > 0x8F)
                 else Inr False) (\<lambda>out_of_range.
          Inr (\<not> out_of_range)))))"

text \<open>The switch that adds up the bytes of a sequence, entered at the number of bytes that follow.\<close>

fun gather_bytes :: "byte list \<Rightarrow> nat \<Rightarrow> nat \<Rightarrow> utf32 \<Rightarrow> (utf32 \<times> nat) cf" where
  "gather_bytes bytes source 0 ch = ebind (rd bytes source) (\<lambda>b. Inr (ch + ucast b, source + 1))"
| "gather_bytes bytes source (Suc k) ch =
     ebind (rd bytes source) (\<lambda>b. gather_bytes bytes (source + 1) k (push_bit 6 (ch + ucast b)))"

text \<open>
  What follows the decoding of one code point: the loop goes on with the buffer, the place in it and the
  count of characters, or it ends, with \<open>source\<close> set back to the start of the sequence or not.
\<close>

datatype decoded = Going "unichar list" nat nat | Ended bool "unichar list"

definition put_unit :: "nat \<Rightarrow> unichar list \<Rightarrow> nat \<Rightarrow> unichar \<Rightarrow> (unichar list \<times> nat) cf" where
  "put_unit maxCharLen buf characters u =
     (if maxCharLen \<noteq> 0 then ebind (wr buf characters u) (\<lambda>buf. Inr (buf, characters + 1))
      else Inr (buf, characters))"

definition put_decomposed ::
  "uni_env \<Rightarrow> nat \<Rightarrow> unichar list \<Rightarrow> nat \<Rightarrow> nat \<Rightarrow> utf32 \<Rightarrow> nat \<Rightarrow> decoded cf" where
  "put_decomposed env maxCharLen buf characters theUsedCharLen ch counted =
     (if maxCharLen \<noteq> 0 then
        ebind (fill_utf16 (decomposition env ch) buf characters maxCharLen theUsedCharLen)
          (\<lambda>(buf, filled).
        Inr (case filled of None \<Rightarrow> Ended False buf
                          | Some (characters, used) \<Rightarrow> Going buf characters used))
      else Inr (Going buf characters (theUsedCharLen + counted)))"

definition emit_code_point ::
  "uni_env \<Rightarrow> utf32 \<Rightarrow> nat \<Rightarrow> unichar list \<Rightarrow> nat \<Rightarrow> nat \<Rightarrow> utf32 \<Rightarrow> decoded cf" where
  "emit_code_point env flags maxCharLen buf characters theUsedCharLen ch =
     (let isHFSPlus = flag_set flags kCFStringEncodingUseHFSPlusCanonical;
          needsToDecompose = flag_set flags kCFStringEncodingUseCanonical \<or> isHFSPlus;
          isStrict = (\<not> isHFSPlus)
      in if ch \<le> kMaximumUCS2 then
           if isStrict \<and> ch \<ge> kSurrogateHighStart \<and> ch \<le> kSurrogateLowEnd
           then Inr (Ended True buf)
           else if needsToDecompose \<and> CFUniCharIsDecomposableCharacter env ch
           then put_decomposed env maxCharLen buf characters theUsedCharLen ch
                  (length (decomposition env ch))
           else ebind (put_unit maxCharLen buf characters (ucast ch)) (\<lambda>(buf, characters).
                Inr (Going buf characters (theUsedCharLen + 1)))
         else if ch > kMaximumUTF16 then
           if isStrict then Inr (Ended True buf)
           else ebind (put_unit maxCharLen buf characters (ucast kReplacementCharacter))
                  (\<lambda>(buf, characters). Inr (Going buf characters (theUsedCharLen + 1)))
         else
           if needsToDecompose \<and> CFUniCharIsDecomposableCharacter env ch
           then put_decomposed env maxCharLen buf characters theUsedCharLen ch
                  (\<Sum>d\<leftarrow>decomposition env ch. if d < 0x10000 then 1 else 2)
           else if maxCharLen \<noteq> 0 then
             if theUsedCharLen + 2 > maxCharLen then Inr (Ended False buf)
             else
               let ch = ch - halfBase in
               ebind (wr buf characters (ucast (drop_bit halfShift ch + kSurrogateHighStart))) (\<lambda>buf.
               ebind (wr buf (characters + 1) (ucast ((ch AND halfMask) + kSurrogateLowStart))) (\<lambda>buf.
               Inr (Going buf (characters + 2) (theUsedCharLen + 2))))
           else Inr (Going buf characters (theUsedCharLen + 2)))"

declare decoded.case_cong [fundef_cong]

function from_utf8_loop ::
  "uni_env \<Rightarrow> utf32 \<Rightarrow> byte list \<Rightarrow> nat \<Rightarrow> nat \<Rightarrow> nat \<Rightarrow> unichar list \<Rightarrow> nat \<Rightarrow> nat
   \<Rightarrow> (nat \<times> nat \<times> unichar list) cf" where
  "from_utf8_loop env flags bytes maxCharLen source numBytes buf characters theUsedCharLen =
     (if numBytes \<noteq> 0 \<and> (maxCharLen = 0 \<or> theUsedCharLen < maxCharLen) then
        ebind (rd bytes source) (\<lambda>head.
        let extraBytesToRead = trailingBytesForUTF8 ! unat head in
        if extraBytesToRead > numBytes - 1 then Inr (source, theUsedCharLen, buf)
        else
          ebind (if extraBytesToRead > 3 then Inr True
                 else if \<not> flag_set flags kCFStringEncodingLenientUTF8Conversion
                 then ebind (CFIsLegalUTF8 bytes source (extraBytesToRead + 1)) (\<lambda>legal. Inr (\<not> legal))
                 else Inr False) (\<lambda>rejected.
          if rejected then
            if head = 0xA9 \<or> flag_set flags kCFStringEncodingAllowLossyConversion
            then ebind (put_unit maxCharLen buf characters (ucast kReplacementCharacter))
                   (\<lambda>(buf, characters).
                 from_utf8_loop env flags bytes maxCharLen (source + 1) (numBytes - 1) buf characters
                   (theUsedCharLen + 1))
            else Inr (source, theUsedCharLen, buf)
          else
            ebind (gather_bytes bytes source extraBytesToRead 0) (\<lambda>(ch, source).
            let ch = ch - offsetsFromUTF8 ! extraBytesToRead in
            ebind (emit_code_point env flags maxCharLen buf characters theUsedCharLen ch) (\<lambda>d.
            case d of
              Ended rewind buf \<Rightarrow>
                Inr (if rewind then source - (extraBytesToRead + 1) else source, theUsedCharLen, buf)
            | Going buf characters theUsedCharLen \<Rightarrow>
                from_utf8_loop env flags bytes maxCharLen source (numBytes - 1 - extraBytesToRead)
                  buf characters theUsedCharLen))))
      else Inr (source, theUsedCharLen, buf))"
  by pat_completeness auto
termination
  by (relation "measure (\<lambda>(e, f, bs, m, s, n, b, c, u). n)") auto

declare from_utf8_loop.simps [simp del]

text \<open>The result: the bytes converted, the characters made, and the buffer.\<close>

definition CFFromUTF8 ::
  "uni_env \<Rightarrow> utf32 \<Rightarrow> byte list \<Rightarrow> nat \<Rightarrow> unichar list \<Rightarrow> (nat \<times> nat \<times> unichar list) cf" where
  "CFFromUTF8 env flags bytes maxCharLen buf =
     from_utf8_loop env flags bytes maxCharLen 0 (length bytes) buf 0 0"

text \<open>\<open>__CFFromUTF8Len\<close> has a loop of its own, which only counts.\<close>

definition count_code_point :: "uni_env \<Rightarrow> utf32 \<Rightarrow> utf32 \<Rightarrow> nat option" where
  "count_code_point env flags ch =
     (let isHFSPlus = flag_set flags kCFStringEncodingUseHFSPlusCanonical;
          needsToDecompose = flag_set flags kCFStringEncodingUseCanonical \<or> isHFSPlus;
          isStrict = (\<not> isHFSPlus)
      in if ch \<le> kMaximumUCS2 then
           if isStrict \<and> ch \<ge> kSurrogateHighStart \<and> ch \<le> kSurrogateLowEnd then None
           else if needsToDecompose \<and> CFUniCharIsDecomposableCharacter env ch
           then Some (length (decomposition env ch))
           else Some 1
         else if ch > kMaximumUTF16 then Some 1
         else if needsToDecompose \<and> CFUniCharIsDecomposableCharacter env ch
         then Some (\<Sum>d\<leftarrow>decomposition env ch. if d < 0x10000 then 1 else 2)
         else Some 2)"

function from_utf8_len ::
  "uni_env \<Rightarrow> utf32 \<Rightarrow> byte list \<Rightarrow> nat \<Rightarrow> nat \<Rightarrow> nat \<Rightarrow> nat cf" where
  "from_utf8_len env flags bytes source numBytes theUsedCharLen =
     (if numBytes \<noteq> 0 then
        ebind (rd bytes source) (\<lambda>head.
        let extraBytesToRead = trailingBytesForUTF8 ! unat head in
        if extraBytesToRead > numBytes - 1 then Inr theUsedCharLen
        else
          ebind (if extraBytesToRead > 3 then Inr True
                 else if \<not> flag_set flags kCFStringEncodingLenientUTF8Conversion
                 then ebind (CFIsLegalUTF8 bytes source (extraBytesToRead + 1)) (\<lambda>legal. Inr (\<not> legal))
                 else Inr False) (\<lambda>rejected.
          if rejected then
            if head = 0xA9 \<or> flag_set flags kCFStringEncodingAllowLossyConversion
            then from_utf8_len env flags bytes (source + 1) (numBytes - 1) (theUsedCharLen + 1)
            else Inr theUsedCharLen
          else
            ebind (gather_bytes bytes source extraBytesToRead 0) (\<lambda>(ch, source).
            case count_code_point env flags (ch - offsetsFromUTF8 ! extraBytesToRead) of
              None \<Rightarrow> Inr theUsedCharLen
            | Some k \<Rightarrow>
                from_utf8_len env flags bytes source (numBytes - 1 - extraBytesToRead)
                  (theUsedCharLen + k))))
      else Inr theUsedCharLen)"
  by pat_completeness auto
termination
  by (relation "measure (\<lambda>(e, f, bs, s, n, u). n)") auto

declare from_utf8_len.simps [simp del]

definition CFFromUTF8Len :: "uni_env \<Rightarrow> utf32 \<Rightarrow> byte list \<Rightarrow> nat cf" where
  "CFFromUTF8Len env flags bytes = from_utf8_len env flags bytes 0 (length bytes) 0"

end
