(* ===== verification/CF_UTF8Spec.thy ===== *)
theory CF_UTF8Spec
  imports CF_UTF8
begin

unbundle bit_operations_syntax

text \<open>
  What the converter of \<open>CF_UTF8\<close> computes, against the encoding forms of the Unicode standard: \<open>utf16\<close>
  and \<open>utf8\<close> are the two encodings of a scalar value, written with division and remainder, and
  \<open>utf16_scan\<close> splits a text into the scalar values at its start and the rest, which starts with a
  surrogate that is not part of a pair.
\<close>

section \<open>The encoding forms\<close>

definition scalar :: "nat \<Rightarrow> bool" where
  "scalar n \<longleftrightarrow> n < 0xD800 \<or> 0xE000 \<le> n \<and> n < 0x110000"

definition utf16 :: "nat \<Rightarrow> unichar list" where
  "utf16 n =
     (if n < 0x10000 then [of_nat n]
      else [of_nat (0xD800 + (n - 0x10000) div 0x400), of_nat (0xDC00 + (n - 0x10000) mod 0x400)])"

definition utf8 :: "nat \<Rightarrow> byte list" where
  "utf8 n =
     (if n < 0x80 then [of_nat n]
      else if n < 0x800 then [of_nat (0xC0 + n div 64), of_nat (0x80 + n mod 64)]
      else if n < 0x10000
      then [of_nat (0xE0 + n div 4096), of_nat (0x80 + n div 64 mod 64), of_nat (0x80 + n mod 64)]
      else [of_nat (0xF0 + n div 262144), of_nat (0x80 + n div 4096 mod 64),
            of_nat (0x80 + n div 64 mod 64), of_nat (0x80 + n mod 64)])"

fun utf16_scan :: "unichar list \<Rightarrow> nat list \<times> unichar list" where
  "utf16_scan [] = ([], [])"
| "utf16_scan (c # cs) =
     (if unat c < 0xD800 \<or> 0xE000 \<le> unat c
      then apfst (Cons (unat c)) (utf16_scan cs)
      else case cs of
             d # ds \<Rightarrow>
               if unat c < 0xDC00 \<and> 0xDC00 \<le> unat d \<and> unat d < 0xE000
               then apfst (Cons (0x10000 + (unat c - 0xD800) * 0x400 + (unat d - 0xDC00)))
                      (utf16_scan ds)
               else ([], c # cs)
           | [] \<Rightarrow> ([], c # cs))"

abbreviation utf16s :: "nat list \<Rightarrow> unichar list" where "utf16s ss \<equiv> concat (map utf16 ss)"
abbreviation utf8s :: "nat list \<Rightarrow> byte list" where "utf8s ss \<equiv> concat (map utf8 ss)"

text \<open>The scalar values whose bytes all fit into the room, from the start of the list.\<close>

fun fitting :: "nat \<Rightarrow> nat list \<Rightarrow> nat list" where
  "fitting room [] = []"
| "fitting room (n # ns) =
     (if length (utf8 n) \<le> room then n # fitting (room - length (utf8 n)) ns else [])"

lemma unat16_bound: "unat (c :: unichar) < 0x10000"
proof -
  have "unat c < 2 ^ LENGTH(16)"
    by (rule unsigned_less)
  then show ?thesis
    by simp
qed

lemma unat8_bound: "unat (b :: byte) < 0x100"
proof -
  have "unat b < 2 ^ LENGTH(8)"
    by (rule unsigned_less)
  then show ?thesis
    by simp
qed

lemma utf16_supplementary:
  assumes "hi < 0x400" "lo < 0x400"
  shows "utf16 (0x10000 + hi * 0x400 + lo) = [of_nat (0xD800 + hi), of_nat (0xDC00 + lo)]"
proof -
  have "(hi * 0x400 + lo) div 0x400 = hi" "(hi * 0x400 + lo) mod 0x400 = lo"
    using assms by simp_all
  then show ?thesis
    by (simp add: utf16_def del: of_nat_add)
qed

lemma utf16_of_pair:
  assumes "0xD800 \<le> unat c" "unat c < 0xDC00" "0xDC00 \<le> unat d" "unat d < 0xE000"
  shows "utf16 (0x10000 + (unat c - 0xD800) * 0x400 + (unat d - 0xDC00)) = [c, d]"
  using assms by (subst utf16_supplementary) (simp_all del: of_nat_add)

lemma utf16_scan_cases:
  obtains
    (bmp) "unat c < 0xD800 \<or> 0xE000 \<le> unat c"
          "utf16_scan (c # cs) = apfst (Cons (unat c)) (utf16_scan cs)"
  | (pair) d ds where "cs = d # ds" "0xD800 \<le> unat c" "unat c < 0xDC00" "0xDC00 \<le> unat d"
        "unat d < 0xE000"
        "utf16_scan (c # cs) =
           apfst (Cons (0x10000 + (unat c - 0xD800) * 0x400 + (unat d - 0xDC00))) (utf16_scan ds)"
  | (lone) "0xD800 \<le> unat c" "unat c < 0xE000"
        "\<not> (unat c < 0xDC00 \<and> cs \<noteq> [] \<and> 0xDC00 \<le> unat (hd cs) \<and> unat (hd cs) < 0xE000)"
        "utf16_scan (c # cs) = ([], c # cs)"
proof -
  consider "unat c < 0xD800 \<or> 0xE000 \<le> unat c"
    | d ds where "\<not> (unat c < 0xD800 \<or> 0xE000 \<le> unat c)" "cs = d # ds"
        "unat c < 0xDC00 \<and> 0xDC00 \<le> unat d \<and> unat d < 0xE000"
    | "\<not> (unat c < 0xD800 \<or> 0xE000 \<le> unat c)"
      "\<not> (unat c < 0xDC00 \<and> cs \<noteq> [] \<and> 0xDC00 \<le> unat (hd cs) \<and> unat (hd cs) < 0xE000)"
    by (cases cs) force+
  then show thesis
  proof cases
    case 1
    then show thesis
      by (intro bmp) simp_all
  next
    case (2 d ds)
    then show thesis
      by (intro pair [of d ds]) simp_all
  next
    case 3
    then show thesis
      by (intro lone; cases cs) (simp_all del: add_diff_assoc, blast?)
  qed
qed

lemma utf16_scan_splits:
  "cs = utf16s (fst (utf16_scan cs)) @ snd (utf16_scan cs)"
proof (induction cs rule: utf16_scan.induct)
  case (2 c cs)
  show ?case
  proof (cases rule: utf16_scan_cases [of c cs])
    case bmp
    then show ?thesis
      using 2(1) unat16_bound [of c] by (simp add: utf16_def)
  next
    case (pair d ds)
    have "utf16 (0x10000 + (unat c - 0xD800) * 0x400 + (unat d - 0xDC00)) = [c, d]"
      using pair by (intro utf16_of_pair) auto
    moreover have "ds = utf16s (fst (utf16_scan ds)) @ snd (utf16_scan ds)"
      using pair by (intro 2(2)) auto
    ultimately show ?thesis
      using pair by simp
  qed simp
qed simp

lemma utf16_scan_scalars: "\<forall>n\<in>set (fst (utf16_scan cs)). scalar n"
proof (induction cs rule: utf16_scan.induct)
  case (2 c cs)
  show ?case
  proof (cases rule: utf16_scan_cases [of c cs])
    case bmp
    then show ?thesis
      using 2(1) unat16_bound [of c] by (auto simp: scalar_def)
  next
    case (pair d ds)
    have "\<forall>n\<in>set (fst (utf16_scan ds)). scalar n"
      using pair by (intro 2(2)) auto
    moreover have "scalar (0x10000 + (unat c - 0xD800) * 0x400 + (unat d - 0xDC00))"
      using pair by (simp add: scalar_def)
    ultimately show ?thesis
      using pair by simp
  qed simp
qed simp

section \<open>Bytes of a code point\<close>

lemma less_6: "n < (6::nat) \<longleftrightarrow> n = 0 \<or> n = 1 \<or> n = 2 \<or> n = 3 \<or> n = 4 \<or> n = 5"
  by auto

lemma less_8:
  "n < (8::nat) \<longleftrightarrow> n = 0 \<or> n = 1 \<or> n = 2 \<or> n = 3 \<or> n = 4 \<or> n = 5 \<or> n = 6 \<or> n = 7"
  by auto

lemma trailing_byte:
  "ucast ((ch OR 0x80) AND 0xBF) = (of_nat (0x80 + unat ch mod 64) :: byte)" for ch :: utf32
proof -
  have "ucast ((ch OR 0x80) AND 0xBF) = (0x80 OR ucast (take_bit 6 ch) :: byte)"
    by (rule bit_word_eqI) (auto simp: bit_simps less_8)
  also have "\<dots> = 0x80 + ucast (take_bit 6 ch)"
    by (rule disjunctive_add [symmetric]) (auto simp: bit_simps less_6 less_8)
  also have "ucast (take_bit 6 ch) = (of_nat (unat ch mod 64) :: byte)"
    by (simp add: take_bit_eq_mod unat_mod unsigned_ucast_eq word_unat_eq_iff unat_of_nat)
  finally show ?thesis
    by simp
qed

lemma or_eq_add:
  fixes ch mark :: "'a::len word"
  assumes "take_bit m mark = 0" "unat ch < 2 ^ m"
  shows "ch OR mark = ch + mark"
proof -
  have ch: "take_bit m ch = ch"
    by (metis assms(2) take_bit_nat_eq_self unsigned_take_bit_eq word_unat_eq_iff)
  have "\<not> bit ch n \<or> \<not> bit mark n" for n
  proof (cases "n < m")
    case True
    with assms(1) show ?thesis
      by (metis bit_0_eq bit_take_bit_iff bot_apply bot_bool_def)
  next
    case False
    then show ?thesis
      using ch by (metis bit_take_bit_iff)
  qed
  then show ?thesis
    by (simp add: disjunctive_add)
qed

lemma ucast_byte_add: "ucast (a + b) = (ucast a + ucast b :: byte)" for a b :: utf32
proof -
  have "take_bit 8 (x + y) = take_bit 8 (take_bit 32 x + take_bit 32 y)" for x y :: int
    using take_bit_add [of 8 "take_bit 32 x" "take_bit 32 y"] take_bit_add [of 8 x y]
    by (simp add: take_bit_take_bit)
  then show ?thesis
    by transfer simp
qed

lemma head_byte:
  fixes ch :: utf32
  shows "unat ch < 32 \<Longrightarrow> ucast (ch OR 0xC0) = (of_nat (0xC0 + unat ch) :: byte)"
    and "unat ch < 16 \<Longrightarrow> ucast (ch OR 0xE0) = (of_nat (0xE0 + unat ch) :: byte)"
    and "unat ch < 8 \<Longrightarrow> ucast (ch OR 0xF0) = (of_nat (0xF0 + unat ch) :: byte)"
  by (simp_all add: or_eq_add [of 5] or_eq_add [of 4] or_eq_add [of 3] ucast_byte_add)

section \<open>Overlays\<close>

definition overlay :: "'a list \<Rightarrow> nat \<Rightarrow> 'a list \<Rightarrow> 'a list" where
  "overlay bs off xs = take off bs @ xs @ drop (off + length xs) bs"

lemma overlay_Nil [simp]: "overlay bs off [] = bs"
  by (simp add: overlay_def)

lemma length_overlay [simp]: "off + length xs \<le> length bs \<Longrightarrow> length (overlay bs off xs) = length bs"
  by (simp add: overlay_def)

lemma overlay_append:
  "off + length xs \<le> length bs \<Longrightarrow> 
   overlay (overlay bs off xs) (off + length xs) ys = overlay bs off (xs @ ys)"
  by (cases xs) (simp_all add: overlay_def min_def ac_simps)

lemma overlay_update:
  "off < length bs \<Longrightarrow> bs[off := x] = overlay bs off [x]"
  by (simp add: overlay_def upd_conv_take_nth_drop)

lemma overlay_before:
  "off + Suc (length xs) \<le> length bs \<Longrightarrow> 
   overlay (bs[off + length xs := x]) off xs = overlay bs off (xs @ [x])"
  by (rule nth_equalityI)
    (auto simp: overlay_def nth_append nth_list_update min_def not_less)

lemma nth_overlay:
  "off + length xs \<le> length bs \<Longrightarrow> i < length bs \<Longrightarrow>
   overlay bs off xs ! i = (if off \<le> i \<and> i < off + length xs then xs ! (i - off) else bs ! i)"
  by (auto simp: overlay_def nth_append min_def)

lemma overlay_backwards:
  "off + 2 \<le> length bs \<Longrightarrow> bs[off + 1 := b, off := a] = overlay bs off [a, b]"
  "off + 3 \<le> length bs \<Longrightarrow> bs[off + 2 := c, off + 1 := b, off := a] = overlay bs off [a, b, c]"
  "off + 4 \<le> length bs \<Longrightarrow>
   bs[off + 3 := d, off + 2 := c, off + 1 := b, off := a] = overlay bs off [a, b, c, d]"
  by (intro nth_equalityI; simp add: nth_overlay nth_list_update nth_Cons'; linarith?)+

section \<open>The core of the encoder\<close>

lemma bytes_to_write:
  "unat ch < 0x110000 \<Longrightarrow> CFUTF8BytesToWriteForCharacter ch = length (utf8 (unat ch))"
  by (simp add: CFUTF8BytesToWriteForCharacter_def utf8_def word_less_nat_alt)

lemma length_utf8: "0 < length (utf8 n)" "length (utf8 n) \<le> 4"
  by (simp_all add: utf8_def)

lemma drop_bit_6: "unat (drop_bit 6 ch) = unat ch div 64" for ch :: utf32
  unfolding unat_drop_bit_eq by (simp add: drop_bit_eq_div)

lemma first_byte_marks:
  "ucast (firstByteMark ! 1) = (0 :: utf32)" "ucast (firstByteMark ! 2) = (0xC0 :: utf32)"
  "ucast (firstByteMark ! 3) = (0xE0 :: utf32)" "ucast (firstByteMark ! 4) = (0xF0 :: utf32)"
  by (simp_all add: firstByteMark_def)

lemma utf8_cases_eqs:
  "utf8_cases n bytes off 1 ch = wr bytes off (ucast (ch OR ucast (firstByteMark ! n)))"
  "utf8_cases n bytes off 2 ch =
     ebind (wr bytes (off + 1) (ucast ((ch OR 0x80) AND 0xBF))) (\<lambda>bytes.
     utf8_cases n bytes off 1 (drop_bit 6 ch))"
  "utf8_cases n bytes off 3 ch =
     ebind (wr bytes (off + 2) (ucast ((ch OR 0x80) AND 0xBF))) (\<lambda>bytes.
     utf8_cases n bytes off 2 (drop_bit 6 ch))"
  "utf8_cases n bytes off 4 ch =
     ebind (wr bytes (off + 3) (ucast ((ch OR 0x80) AND 0xBF))) (\<lambda>bytes.
     utf8_cases n bytes off 3 (drop_bit 6 ch))"
  by (simp_all only: numeral_eq_Suc pred_numeral_simps BitM.simps One_nat_def utf8_cases.simps)

lemma utf8_cases_encodes:
  assumes "unat ch < 0x110000" "off + length (utf8 (unat ch)) \<le> length bytes"
  shows "utf8_cases (length (utf8 (unat ch))) bytes off (length (utf8 (unat ch))) ch
         = Inr (overlay bytes off (utf8 (unat ch)))"
proof -
  let ?n = "unat ch"
  have heads: "ucast (drop_bit 6 ch OR 0xC0) = (of_nat (0xC0 + ?n div 64) :: byte)" if "?n < 0x800"
    using that head_byte(1) [of "drop_bit 6 ch"] by (simp add: drop_bit_6)
  have ds: "unat (drop_bit 12 ch) = ?n div 4096" "unat (drop_bit 18 ch) = ?n div 262144"
    unfolding unat_drop_bit_eq by (simp_all add: drop_bit_eq_div)
  have heads3: "ucast (drop_bit 12 ch OR 0xE0) = (of_nat (0xE0 + ?n div 4096) :: byte)" if "?n < 0x10000"
    using that head_byte(2) [of "drop_bit 12 ch"] by (simp add: ds)
  have heads4: "ucast (drop_bit 18 ch OR 0xF0) = (of_nat (0xF0 + ?n div 262144) :: byte)"
    using assms(1) head_byte(3) [of "drop_bit 18 ch"] by (simp add: ds)
  consider "?n < 0x80" | "0x80 \<le> ?n" "?n < 0x800" | "0x800 \<le> ?n" "?n < 0x10000"
    | "0x10000 \<le> ?n" "?n < 0x110000"
    using assms(1) by linarith
  then show ?thesis
  proof cases
    case 1
    then have u: "utf8 ?n = [of_nat ?n]" by (simp add: utf8_def)
    show ?thesis
      using assms(2) unfolding u
      by (simp add: utf8_def firstByteMark_def overlay_update)
  next
    case 2
    then have u: "utf8 ?n = [of_nat (0xC0 + ?n div 64), of_nat (0x80 + ?n mod 64)]" by (simp add: utf8_def)
    then have len: "length (utf8 ?n) = 2" by simp
    show ?thesis
      using assms(2) 2 unfolding len unfolding u
      by (simp add: utf8_cases_eqs first_byte_marks trailing_byte heads overlay_backwards(1)
           del: of_nat_add One_nat_def add_2_eq_Suc')
  next
    case 3
    then have u: "utf8 ?n = [of_nat (0xE0 + ?n div 4096), of_nat (0x80 + ?n div 64 mod 64), of_nat (0x80 + ?n mod 64)]" by (simp add: utf8_def)
    then have len: "length (utf8 ?n) = 3" by simp
    show ?thesis 
      using assms(2) 3 unfolding len unfolding u
      by (simp add: utf8_cases_eqs first_byte_marks trailing_byte heads3 drop_bit_6 overlay_backwards(2)
           del: of_nat_add One_nat_def add_2_eq_Suc')
  next
    case 4
    then have u: "utf8 ?n = [of_nat (0xF0 + ?n div 262144), of_nat (0x80 + ?n div 4096 mod 64),
            of_nat (0x80 + ?n div 64 mod 64), of_nat (0x80 + ?n mod 64)]" by (simp add: utf8_def)
    then have len: "length (utf8 ?n) = 4" by simp
    show ?thesis 
      using assms(2) 4 unfolding len unfolding u
      by (simp add: utf8_cases_eqs first_byte_marks trailing_byte heads4 drop_bit_6 ds overlay_backwards(3)
           del: of_nat_add One_nat_def add_2_eq_Suc')
  qed
qed

section \<open>The encoder\<close>

lemma core_encodes:
  assumes "unat ch < 0x110000" "maxlen < 2 ^ 32" "maxlen \<le> length bytes"
  shows "CFToUTF8Core ch bytes j (of_nat (maxlen - j)) =
         (if maxlen - j < length (utf8 (unat ch)) then Inr (0, bytes)
          else Inr (length (utf8 (unat ch)), overlay bytes j (utf8 (unat ch))))"
proof -
  have "unat (of_nat (maxlen - j) :: utf32) = maxlen - j"
    using assms(2) by (simp add: unat_of_nat)
  moreover have "length (utf8 (unat ch)) \<noteq> 0"
    using length_utf8(1) [of "unat ch"] by simp
  moreover have "j + length (utf8 (unat ch)) \<le> length bytes"
    if "\<not> maxlen - j < length (utf8 (unat ch))"
    using that assms(3) length_utf8(1) [of "unat ch"] by linarith
  ultimately show ?thesis
    using utf8_cases_encodes [OF assms(1), of j bytes]
    by (simp add: CFToUTF8Core_def bytes_to_write [OF assms(1)])
qed

lemma write_code_point:
  assumes "unat ch < 0x110000" "maxlen < 2 ^ 32" "maxlen \<le> length bytes"
  shows "(if maxlen \<noteq> 0 then CFToUTF8Core ch bytes j (of_nat (maxlen - j))
          else Inr (CFUTF8BytesToWriteForCharacter ch, bytes)) =
         (if maxlen = 0 then Inr (length (utf8 (unat ch)), bytes)
          else if maxlen - j < length (utf8 (unat ch)) then Inr (0, bytes)
          else Inr (length (utf8 (unat ch)), overlay bytes j (utf8 (unat ch))))"
  by (simp add: core_encodes [OF assms] bytes_to_write [OF assms(1)])

lemma ucast_unichar: "unat (ucast c :: utf32) = unat c" for c :: unichar
  using unat16_bound [of c] by (simp add: unsigned_ucast_eq take_bit_nat_eq_self)

lemma ucast_minus:
  "n \<le> unat c \<Longrightarrow> ucast c - of_nat n = (of_nat (unat c - n) :: utf32)" for c :: unichar
proof -
  assume "n \<le> unat c"
  moreover have "ucast c = (of_nat (unat c) :: utf32)"
    by (simp add: word_unat_eq_iff ucast_unichar)
  ultimately show ?thesis
    by (simp add: of_nat_diff)
qed

lemma surrogate_pair_value:
  fixes c d :: unichar
  assumes "0xD800 \<le> unat c" "unat c < 0xDC00" "0xDC00 \<le> unat d" "unat d < 0xE000"
  shows "unat (surrogate_pair (ucast c) (ucast d))
         = 0x10000 + (unat c - 0xD800) * 0x400 + (unat d - 0xDC00)"
proof -
  have "surrogate_pair (ucast c) (ucast d)
        = of_nat (0x10000 + (unat c - 0xD800) * 0x400 + (unat d - 0xDC00))"
    using ucast_minus [of "0xD800" c, OF assms(1)] ucast_minus [of "0xDC00" d, OF assms(3)]
    by (simp add: surrogate_pair_def utf_constants push_bit_eq_mult)
  moreover have "0x10000 + (unat c - 0xD800) * 0x400 + (unat d - 0xDC00) < 2 ^ 32"
    using assms by simp
  ultimately show ?thesis
    by (simp only: unat_of_nat len_num1 len_num0 len_bit0 len_bit1) simp
qed

lemma next_code_point_cases:
  fixes c :: unichar
  shows "unat c < 0xD800 \<or> 0xE000 \<le> unat c \<Longrightarrow> 
   next_code_point True cs i (ucast c) = Some (ucast c, i)"
  "0xD800 \<le> unat c \<Longrightarrow> unat c < 0xDC00 \<Longrightarrow> i < length cs \<Longrightarrow> 0xDC00 \<le> unat (cs ! i) \<Longrightarrow>
   unat (cs ! i) < 0xE000 \<Longrightarrow>
   next_code_point True cs i (ucast c) = Some (surrogate_pair (ucast c) (ucast (cs ! i)), Suc i)"
  "0xD800 \<le> unat c \<Longrightarrow> unat c < 0xE000 \<Longrightarrow> 
   \<not> (unat c < 0xDC00 \<and> i < length cs \<and> 0xDC00 \<le> unat (cs ! i) \<and> unat (cs ! i) < 0xE000) \<Longrightarrow>
   next_code_point True cs i (ucast c) = None"
  by (auto simp: next_code_point_def is_low_surrogate_def utf_constants word_le_nat_alt ucast_unichar)

text \<open>The scalar values the encoder takes: all of them without a limit, else those that fit.\<close>

definition taken :: "nat \<Rightarrow> nat \<Rightarrow> nat list \<Rightarrow> nat list" where
  "taken maxlen j ss = (if maxlen = 0 then ss else fitting (maxlen - j) ss)"

definition shown :: "nat \<Rightarrow> 'a list \<Rightarrow> nat \<Rightarrow> 'a list \<Rightarrow> 'a list" where
  "shown maxlen buf j xs = (if maxlen = 0 then buf else overlay buf j xs)"

lemma taken_Cons:
  assumes "maxlen = 0 \<or> length (utf8 n) \<le> maxlen - j"
  shows "taken maxlen j (n # ss) = n # taken maxlen (j + length (utf8 n)) ss"
  using assms by (auto simp: taken_def)

lemma taken_short: "maxlen \<noteq> 0 \<Longrightarrow> maxlen - j < length (utf8 n) \<Longrightarrow> taken maxlen j (n # ss) = []"
  by (simp add: taken_def)

lemma taken_Nil [simp]: "taken maxlen j [] = []"
  by (simp add: taken_def)

lemma taken_full: "maxlen \<noteq> 0 \<Longrightarrow> maxlen \<le> j \<Longrightarrow> taken maxlen j ss = []"
  using length_utf8(1) by (cases ss) (auto simp: taken_def)

lemma shown_append:
  assumes "maxlen = 0 \<or> j + length xs \<le> length buf"
  shows "shown maxlen (shown maxlen buf j xs) (j + length xs) ys = shown maxlen buf j (xs @ ys)"
  using assms by (auto simp: shown_def overlay_append)

lemma length_utf16: "length (utf16 n) = (if n < 0x10000 then 1 else 2)"
  by (simp add: utf16_def)

lemma encode_step:
  assumes "i < length cs" "maxlen = 0 \<or> j < maxlen" "0x80 \<le> unat (cs ! i)"
    "next_code_point True cs (Suc i) (ucast (cs ! i)) = Some (ch, i + length (utf16 (unat ch)))"
    "unat ch < 0x110000" "maxlen < 2 ^ 32" "maxlen \<le> length buf"
  shows "to_utf8_loop True cs maxlen i buf j =
         (if maxlen \<noteq> 0 \<and> maxlen - j < length (utf8 (unat ch)) then Inr (i, j, buf)
          else to_utf8_loop True cs maxlen (i + length (utf16 (unat ch)))
                 (shown maxlen buf j (utf8 (unat ch))) (j + length (utf8 (unat ch))))"
proof -
  have "\<not> (ucast (cs ! i) :: utf32) < 0x80"
    using assms(3) by (simp add: word_less_nat_alt ucast_unichar)
  moreover have "length (utf8 (unat ch)) \<noteq> 0"
    using length_utf8(1) [of "unat ch"] by simp
  ultimately show ?thesis
    using assms(1,2,4)
    by (subst to_utf8_loop.simps, cases "maxlen = 0")
      (simp_all add: bytes_to_write [OF assms(5)] core_encodes [OF assms(5-7)] shown_def length_utf16
         word_less_nat_alt del: of_nat_diff)
qed

lemma ascii_byte: "ucast (ucast c :: utf32) = (of_nat (unat c) :: byte)" for c :: unichar
  unfolding word_unat_eq_iff unsigned_ucast_eq [of "ucast c"] ucast_unichar
  by (simp only: unsigned_of_nat of_nat_id)

lemma encode_ascii:
  assumes "i < length cs" "maxlen = 0 \<or> j < maxlen" "unat (cs ! i) < 0x80" "maxlen \<le> length buf"
  shows "to_utf8_loop True cs maxlen i buf j =
         to_utf8_loop True cs maxlen (i + length (utf16 (unat (cs ! i))))
           (shown maxlen buf j (utf8 (unat (cs ! i)))) (j + length (utf8 (unat (cs ! i))))"
proof -
  have "(ucast (cs ! i) :: utf32) < 0x80"
    using assms(3) by (simp add: word_less_nat_alt ucast_unichar)
  moreover note ascii_byte [of "cs ! i"]
  ultimately show ?thesis
    using assms
    by (subst to_utf8_loop.simps)
      (auto simp: shown_def utf8_def utf16_def overlay_update)
qed

lemma to_utf8_loop_encodes:
  assumes "maxlen < 2 ^ 32" "maxlen \<le> length buf" "maxlen = 0 \<or> j \<le> maxlen"
    "ss = taken maxlen j (fst (utf16_scan (drop i cs)))"
  shows "to_utf8_loop True cs maxlen i buf j
         = Inr (i + length (utf16s ss), j + length (utf8s ss), shown maxlen buf j (utf8s ss))"
  using assms
proof (induction "length cs - i" arbitrary: i buf j ss rule: less_induct)
  case less
  show ?case
  proof (cases "i < length cs \<and> (maxlen = 0 \<or> j < maxlen)")
    case False
    then have "ss = []"
      using less.prems(4) by (auto simp: taken_full)
    with False show ?thesis
      by (subst to_utf8_loop.simps) (auto simp: shown_def)
  next
    case True
    then have i: "i < length cs" and j: "maxlen = 0 \<or> j < maxlen" by auto
    have d: "drop i cs = cs ! i # drop (Suc i) cs"
      using i by (rule Cons_nth_drop_Suc [symmetric])
    have go: ?thesis
      if step: "to_utf8_loop True cs maxlen i buf j = 
           (if maxlen \<noteq> 0 \<and> maxlen - j < length (utf8 n) then Inr (i, j, buf)
            else to_utf8_loop True cs maxlen (i + length (utf16 n)) (shown maxlen buf j (utf8 n))
                   (j + length (utf8 n)))"
        and sc: "fst (utf16_scan (drop i cs)) = n # fst (utf16_scan (drop (i + length (utf16 n)) cs))" 
      for n
    proof (cases "maxlen \<noteq> 0 \<and> maxlen - j < length (utf8 n)")
      case True
      then show ?thesis
        using step less.prems(4) unfolding sc by (simp add: taken_short shown_def)
    next
      case False
      let ?ss = "taken maxlen (j + length (utf8 n)) (fst (utf16_scan (drop (i + length (utf16 n)) cs)))"
      have ss: "ss = n # ?ss"
        using False less.prems(4) unfolding sc by (auto intro: taken_Cons)
      have room: "maxlen = 0 \<or> j + length (utf8 n) \<le> length buf"
        using False less.prems j by auto
      have "to_utf8_loop True cs maxlen (i + length (utf16 n)) (shown maxlen buf j (utf8 n))
                   (j + length (utf8 n)) = 
         Inr (i + length (utf16 n) + length (utf16s ?ss), j + length (utf8 n) + length (utf8s ?ss),
            shown maxlen (shown maxlen buf j (utf8 n)) (j + length (utf8 n)) (utf8s ?ss))"
        using False less.prems j i
        by (intro less.hyps) (auto simp: length_utf16 shown_def)
      moreover have "to_utf8_loop True cs maxlen i buf j = 
          to_utf8_loop True cs maxlen (i + length (utf16 n)) (shown maxlen buf j (utf8 n))
                   (j + length (utf8 n))"
        using step False by (simp only: if_False)
      ultimately show ?thesis
        by (simp add: ss add.assoc shown_append [OF room])
    qed
    show ?thesis
    proof (cases rule: utf16_scan_cases [of "cs ! i" "drop (Suc i) cs"])
      case bmp
      have one: "length (utf16 (unat (cs ! i))) = 1"
        using unat16_bound [of "cs ! i"] by (simp add: length_utf16)
      show ?thesis
      proof (rule go [of "unat (cs ! i)"])
        show "fst (utf16_scan (drop i cs)) = unat (cs ! i) #
              fst (utf16_scan (drop (i + length (utf16 (unat (cs ! i)))) cs))"
          using bmp(2) one by (simp add: d)
        show "to_utf8_loop True cs maxlen i buf j = 
           (if maxlen \<noteq> 0 \<and> maxlen - j < length (utf8 (unat (cs ! i))) then Inr (i, j, buf)
            else to_utf8_loop True cs maxlen (i + length (utf16 (unat (cs ! i)))) (shown maxlen buf j (utf8 (unat (cs ! i))))
                   (j + length (utf8 (unat (cs ! i)))))"
        proof (cases "unat (cs ! i) < 0x80")
          case True
          then have "length (utf8 (unat (cs ! i))) = 1"
            by (simp add: utf8_def)
          then show ?thesis
            using encode_ascii [OF i j True less.prems(2)] j by auto
        next
          case False
          have "next_code_point True cs (Suc i) (ucast (cs ! i)) = Some (ucast (cs ! i), i + 1)"
            using next_code_point_cases(1) [OF bmp(1)] by simp
          then show ?thesis
            using encode_step [of i cs maxlen j "ucast (cs ! i)" buf] i j False less.prems
              unat16_bound [of "cs ! i"] one
            by (simp add: ucast_unichar)
        qed
      qed
    next
      case (pair e ds)
      have i': "Suc i < length cs"
        using pair(1) by (metis drop_eq_Nil2 linorder_not_less list.distinct(1))
      then have e: "cs ! Suc i = e" and ds: "ds = drop (Suc (Suc i)) cs"
        using pair(1) by (simp_all add: Cons_nth_drop_Suc [symmetric])
      let ?ch = "surrogate_pair (ucast (cs ! i)) (ucast e)"
      have v: "unat ?ch = 0x10000 + (unat (cs ! i) - 0xD800) * 0x400 + (unat e - 0xDC00)"
        using pair by (intro surrogate_pair_value) auto
      then have two: "length (utf16 (unat ?ch)) = 2" and b: "unat ?ch < 0x110000"
        using pair by (simp_all add: length_utf16)
      have "next_code_point True cs (Suc i) (ucast (cs ! i)) = Some (?ch, i + 2)"
        using pair i' by (simp add: next_code_point_cases(2) e)
      then show ?thesis
        using encode_step [of i cs maxlen j ?ch buf] i j less.prems pair two b
        by (intro go [of "unat ?ch"]) (auto simp: d v ds)
    next
      case lone
      have "next_code_point True cs (Suc i) (ucast (cs ! i)) = None"
        using lone by (intro next_code_point_cases(3)) (auto simp: hd_drop_conv_nth)
      moreover have "\<not> (ucast (cs ! i) :: utf32) < 0x80"
        using lone(1) by (simp add: word_less_nat_alt ucast_unichar)
      moreover have "ss = []"
        using lone(4) less.prems(4) by (simp add: d)
      ultimately show ?thesis
        using i j by (subst to_utf8_loop.simps) (simp add: shown_def)
    qed
  qed
qed

section \<open>Sequences of bytes that encode a scalar value\<close>

text \<open>The table 3-7 of the Unicode standard, on the values of the bytes, and the value they encode.\<close>

definition continuation :: "nat \<Rightarrow> bool" where
  "continuation b \<longleftrightarrow> 0x80 \<le> b \<and> b < 0xC0"

fun well_formed :: "nat list \<Rightarrow> bool" where
  "well_formed [a] \<longleftrightarrow> a < 0x80"
| "well_formed [a, b] \<longleftrightarrow> 0xC2 \<le> a \<and> a < 0xE0 \<and> continuation b"
| "well_formed [a, b, c] \<longleftrightarrow>
     0xE0 \<le> a \<and> a < 0xF0 \<and> continuation b \<and> continuation c \<and>
     (a = 0xE0 \<longrightarrow> 0xA0 \<le> b) \<and> (a = 0xED \<longrightarrow> b \<le> 0x9F)"
| "well_formed [a, b, c, d] \<longleftrightarrow>
     0xF0 \<le> a \<and> a \<le> 0xF4 \<and> continuation b \<and> continuation c \<and> continuation d \<and>
     (a = 0xF0 \<longrightarrow> 0x90 \<le> b) \<and> (a = 0xF4 \<longrightarrow> b \<le> 0x8F)"
| "well_formed _ \<longleftrightarrow> False"

fun byte_value :: "nat list \<Rightarrow> nat" where
  "byte_value [a] = a"
| "byte_value [a, b] = (a - 0xC0) * 64 + (b - 0x80)"
| "byte_value [a, b, c] = (a - 0xE0) * 4096 + (b - 0x80) * 64 + (c - 0x80)"
| "byte_value [a, b, c, d] = (a - 0xF0) * 262144 + (b - 0x80) * 4096 + (c - 0x80) * 64 + (d - 0x80)"
| "byte_value _ = 0"

lemma unat_byte: "n < 0x100 \<Longrightarrow> unat (of_nat n :: byte) = n"
  by (simp add: unat_of_nat)

lemma digits_64:
  "b < 64 \<Longrightarrow> (a * 64 + b) div 64 = a" "b < 64 \<Longrightarrow> (a * 64 + b) mod 64 = (b :: nat)"
  by simp_all

lemma digits_3: 
  fixes a b c :: nat
  assumes "b < 64" "c < 64"
  shows "(a * 4096 + b * 64 + c) div 4096 = a" "(a * 4096 + b * 64 + c) div 64 mod 64 = b"
    "(a * 4096 + b * 64 + c) mod 64 = c"
proof -
  have e: "a * 4096 + b * 64 + c = (a * 64 + b) * 64 + c" by simp
  have "(a * 4096 + b * 64 + c) div 4096 = (a * 4096 + b * 64 + c) div 64 div 64"
    by (simp add: div_mult2_eq [symmetric])
  then show "(a * 4096 + b * 64 + c) div 4096 = a"
    unfolding e using assms by (simp only: digits_64)
  show "(a * 4096 + b * 64 + c) div 64 mod 64 = b" "(a * 4096 + b * 64 + c) mod 64 = c"
    unfolding e using assms by (simp_all only: digits_64)
qed

lemma digits_4: 
  fixes a b c d :: nat
  assumes "b < 64" "c < 64" "d < 64"
  shows "(a * 262144 + b * 4096 + c * 64 + d) div 262144 = a" 
    "(a * 262144 + b * 4096 + c * 64 + d) div 4096 mod 64 = b"
    "(a * 262144 + b * 4096 + c * 64 + d) div 64 mod 64 = c"
    "(a * 262144 + b * 4096 + c * 64 + d) mod 64 = d"
proof -
  have e: "a * 262144 + b * 4096 + c * 64 + d = (a * 64 + b) * 4096 + c * 64 + d" by simp
  have "(a * 262144 + b * 4096 + c * 64 + d) div 262144 = (a * 262144 + b * 4096 + c * 64 + d) div 4096 div 64"
    by (simp add: div_mult2_eq [symmetric])
  then show "(a * 262144 + b * 4096 + c * 64 + d) div 262144 = a" 
    unfolding e using assms by (simp only: digits_64 digits_3)
  show "(a * 262144 + b * 4096 + c * 64 + d) div 4096 mod 64 = b"
    "(a * 262144 + b * 4096 + c * 64 + d) div 64 mod 64 = c"
    "(a * 262144 + b * 4096 + c * 64 + d) mod 64 = d"
    unfolding e using assms by (simp_all only: digits_64 digits_3)
qed

lemma unats_utf8:
  "n < 0x110000 \<Longrightarrow> map unat (utf8 n) =
     (if n < 0x80 then [n]
      else if n < 0x800 then [0xC0 + n div 64, 0x80 + n mod 64]
      else if n < 0x10000 then [0xE0 + n div 4096, 0x80 + n div 64 mod 64, 0x80 + n mod 64]
      else [0xF0 + n div 262144, 0x80 + n div 4096 mod 64, 0x80 + n div 64 mod 64, 0x80 + n mod 64])"
proof -
  assume "n < 0x110000"
  moreover have "n mod 64 < 64" "n div 64 mod 64 < 64" "n div 4096 mod 64 < 64"
    by simp_all
  ultimately show ?thesis
    by (simp add: utf8_def unat_byte del: of_nat_add)
qed

lemma utf8_well_formed:
  assumes "scalar n"
  shows "well_formed (map unat (utf8 n)) \<and> byte_value (map unat (utf8 n)) = n"
proof -
  have n: "n < 0x110000" "n < 0xD800 \<or> 0xE000 \<le> n"
    using assms by (auto simp: scalar_def)
  have m: "n mod 64 < 64" "n div 64 mod 64 < 64" "n div 4096 mod 64 < 64"
    by simp_all
  have e: "n = n div 64 * 64 + n mod 64" "n div 64 = n div 4096 * 64 + n div 64 mod 64"
    "n div 4096 = n div 262144 * 64 + n div 4096 mod 64"
    using div_mult_mod_eq [of n 64] div_mult_mod_eq [of "n div 64" 64] div_mult_mod_eq [of "n div 4096" 64] 
    by (simp_all add: div_mult2_eq [symmetric])
  have v: "n div 64 * 64 + n mod 64 = n" "n div 4096 * 4096 + n div 64 mod 64 * 64 + n mod 64 = n"
    "n div 262144 * 262144 + n div 4096 mod 64 * 4096 + n div 64 mod 64 * 64 + n mod 64 = n"
    using e by linarith+
  have "well_formed (map unat (utf8 n))"
    unfolding unats_utf8 [OF n(1)] using n m e less_mult_imp_div_less [of n "0x110" 4096]
    by (auto simp: continuation_def)
  moreover have "byte_value (map unat (utf8 n)) = n"
    unfolding unats_utf8 [OF n(1)] using v by auto
  ultimately show ?thesis ..
qed

lemma well_formed_utf8:
  assumes "well_formed (map unat bs)"
  shows "scalar (byte_value (map unat bs)) \<and> utf8 (byte_value (map unat bs)) = bs"
proof -
  consider a where "bs = [a]" | a b where "bs = [a, b]" | a b c where "bs = [a, b, c]" | a b c d where "bs = [a, b, c, d]"
    using assms by (cases "map unat bs" rule: well_formed.cases) (auto simp: map_eq_Cons_conv)
  then show ?thesis
  proof cases
    case 1
    with assms show ?thesis by (simp add: scalar_def utf8_def)
  next
    case 2
    define x y where "x = unat a - 0xC0" and "y = unat b - 0x80"
    have xy: "2 \<le> x" "x < 0x20" "y < 64" and bs: "bs = [of_nat (0xC0 + x), of_nat (0x80 + y)]"
      using assms 2 by (auto simp: x_def y_def continuation_def)
    have v: "byte_value (map unat bs) = x * 64 + y"
      using 2 by (simp add: x_def y_def)
    show ?thesis
      unfolding v unfolding bs using xy by (simp add: scalar_def utf8_def digits_64 del: of_nat_add)
  next
    case 3
    define x y z where "x = unat a - 0xE0" and "y = unat b - 0x80" and "z = unat c - 0x80"
    have xy: "x < 0x10" "y < 64" "z < 64" "x = 0 \<longrightarrow> 0x20 \<le> y" "x = 0xD \<longrightarrow> y < 0x20"
      and bs: "bs = [of_nat (0xE0 + x), of_nat (0x80 + y), of_nat (0x80 + z)]"
      using assms 3 by (auto simp: x_def y_def z_def continuation_def)
    have v: "byte_value (map unat bs) = x * 4096 + y * 64 + z"
      using 3 by (simp add: x_def y_def z_def)
    have "0x800 \<le> x * 4096 + y * 64 + z" "x * 4096 + y * 64 + z < 0x10000" 
      using xy by auto
    moreover have "x * 4096 + y * 64 + z < 0xD800 \<or> 0xE000 \<le> x * 4096 + y * 64 + z"
      using xy by (cases "x < 0xD"; cases "x = 0xD"; simp)
    ultimately show ?thesis
      unfolding v unfolding bs using digits_3 [OF xy(2,3), of x]
      by (simp add: scalar_def utf8_def del: of_nat_add)
  next
    case 4
    define x y z w where "x = unat a - 0xF0" and "y = unat b - 0x80" and "z = unat c - 0x80"
      and "w = unat d - 0x80"
    have xy: "x < 5" "y < 64" "z < 64" "w < 64" "x = 0 \<longrightarrow> 0x10 \<le> y" "x = 4 \<longrightarrow> y < 0x10"
      and bs: "bs = [of_nat (0xF0 + x), of_nat (0x80 + y), of_nat (0x80 + z), of_nat (0x80 + w)]"
      using assms 4 by (auto simp: x_def y_def z_def w_def continuation_def)
    have v: "byte_value (map unat bs) = x * 262144 + y * 4096 + z * 64 + w"
      using 4 by (simp add: x_def y_def z_def w_def)
    have "0x10000 \<le> x * 262144 + y * 4096 + z * 64 + w"
      using xy by (cases "x = 0"; simp)
    moreover have "x * 262144 + y * 4096 + z * 64 + w < 0x110000"
      using xy by (cases "x = 4"; simp)
    ultimately show ?thesis
      unfolding v unfolding bs using digits_4 [OF xy(2-4), of x]
      by (simp add: scalar_def utf8_def del: of_nat_add)
  qed
qed

section \<open>The decoder's checks\<close>

lemma trailing_bytes:
  "trailingBytesForUTF8 ! unat b =
     (if unat b < 0xC0 then 0 else if unat b < 0xE0 then 1 else if unat b < 0xF0 then 2
      else if unat b < 0xF8 then 3 else if unat b < 0xFC then 4 else 5)" for b :: byte
  using unat8_bound [of b] by (auto simp: trailingBytesForUTF8_def nth_append)

lemma continuation_mask: "b AND 0xC0 = 0x80 \<longleftrightarrow> continuation (unat b)" for b :: byte
proof -
  have "list_all (\<lambda>n. (of_nat n AND 0xC0 = (0x80 :: byte)) = (0x80 \<le> n \<and> n < 0xC0)) [0..<256]"
    by code_simp
  then have "(of_nat (unat b) AND 0xC0 = (0x80 :: byte)) = (0x80 \<le> unat b \<and> unat b < 0xC0)"
    using unat8_bound [of b] unfolding list_all_iff by (metis atLeastLessThan_iff bot_nat_0.extremum set_upt)
  then show ?thesis
    by (simp add: continuation_def)
qed

lemma windows:
  "s < length bs \<Longrightarrow> take (Suc 0) (drop s bs) = [bs ! s]"
  "s + 1 < length bs \<Longrightarrow> take 2 (drop s bs) = [bs ! s, bs ! (s + 1)]"
  "s + 2 < length bs \<Longrightarrow> take 3 (drop s bs) = [bs ! s, bs ! (s + 1), bs ! (s + 2)]"
  "s + 3 < length bs \<Longrightarrow> take 4 (drop s bs) = [bs ! s, bs ! (s + 1), bs ! (s + 2), bs ! (s + 3)]"
  by (rule nth_equalityI; auto simp: nth_Cons' less_Suc_eq_0_disj numeral_eq_Suc)+

lemma utf8_continued_eqs:
  "utf8_continued bytes s 1 = ebind (rd bytes (s + 1)) (\<lambda>b. if b AND 0xC0 \<noteq> 0x80 then Inr False else Inr True)"
  "utf8_continued bytes s 2 = 
     ebind (rd bytes (s + 2)) (\<lambda>b. if b AND 0xC0 \<noteq> 0x80 then Inr False else utf8_continued bytes s 1)"
  "utf8_continued bytes s 3 = 
     ebind (rd bytes (s + 3)) (\<lambda>b. if b AND 0xC0 \<noteq> 0x80 then Inr False else utf8_continued bytes s 2)"
  by (simp_all only: numeral_eq_Suc pred_numeral_simps BitM.simps One_nat_def utf8_continued.simps)

lemma head_eqs:
  "b = 0xE0 \<longleftrightarrow> unat b = 0xE0" "b = 0xED \<longleftrightarrow> unat b = 0xED"
  "b = 0xF0 \<longleftrightarrow> unat b = 0xF0" "b = 0xF4 \<longleftrightarrow> unat b = 0xF4" for b :: byte
  by (simp_all add: word_unat_eq_iff)

lemma legal_utf8:
  assumes "s + extra < length bytes" "extra = trailingBytesForUTF8 ! unat (bytes ! s)" "extra \<le> 3"
  shows "CFIsLegalUTF8 bytes s (extra + 1) = Inr (well_formed (map unat (take (extra + 1) (drop s bytes))))"
proof -
  have h: "unat (bytes ! s) < 0x100"
    by (rule unat8_bound)
  consider "extra = 0" "unat (bytes ! s) < 0xC0" | "extra = 1" "0xC0 \<le> unat (bytes ! s)" "unat (bytes ! s) < 0xE0" 
    | "extra = 2" "0xE0 \<le> unat (bytes ! s)" "unat (bytes ! s) < 0xF0" | "extra = 3" "0xF0 \<le> unat (bytes ! s)"
    using assms(2,3) by (auto simp: trailing_bytes split: if_splits)
  then show ?thesis
  proof cases
    case 1
    then show ?thesis
      using assms(1) by (auto simp: CFIsLegalUTF8_def windows(1) word_le_nat_alt word_less_nat_alt head_eqs ex_bool_eq)
  next
    case 2
    then have "CFIsLegalUTF8 bytes s 2 = Inr (well_formed (map unat (take 2 (drop s bytes))))"
      using assms(1) by (simp add: CFIsLegalUTF8_def windows(2) utf8_continued_eqs 
         continuation_mask word_le_nat_alt word_less_nat_alt head_eqs ex_bool_eq)
    then show ?thesis
      unfolding 2(1) one_add_one .
  next
    case 3
    then have "CFIsLegalUTF8 bytes s 3 = Inr (well_formed (map unat (take 3 (drop s bytes))))"
      using assms(1) by (simp add: CFIsLegalUTF8_def windows(3) utf8_continued_eqs second_byte_is_def
         continuation_mask word_le_nat_alt word_less_nat_alt head_eqs ex_bool_eq; auto)
    then show ?thesis using 3 by simp
  next
    case 4
    then have "CFIsLegalUTF8 bytes s 4 = Inr (well_formed (map unat (take 4 (drop s bytes))))"
      using assms(1) h by (simp add: CFIsLegalUTF8_def windows(4) utf8_continued_eqs second_byte_is_def
         continuation_mask word_le_nat_alt word_less_nat_alt head_eqs ex_bool_eq; auto)
    then show ?thesis using 4 by simp
  qed
qed

lemma unat_ucast_byte: "unat (ucast b :: utf32) = unat b" for b :: byte
  using unat8_bound [of b] by (simp add: unsigned_ucast_eq take_bit_nat_eq_self)

lemma ucast_byte: "ucast b = (of_nat (unat b) :: utf32)" for b :: byte
  by (simp add: word_unat_eq_iff unat_ucast_byte)

lemma gather_bytes_eqs:
  "gather_bytes bytes s 0 ch = ebind (rd bytes s) (\<lambda>b. Inr (ch + ucast b, s + 1))"
  "gather_bytes bytes s 1 ch =
     ebind (rd bytes s) (\<lambda>b. gather_bytes bytes (s + 1) 0 (push_bit 6 (ch + ucast b)))"
  "gather_bytes bytes s 2 ch =
     ebind (rd bytes s) (\<lambda>b. gather_bytes bytes (s + 1) 1 (push_bit 6 (ch + ucast b)))"
  "gather_bytes bytes s 3 ch =
     ebind (rd bytes s) (\<lambda>b. gather_bytes bytes (s + 1) 2 (push_bit 6 (ch + ucast b)))"
  by (simp_all only: numeral_eq_Suc pred_numeral_simps BitM.simps One_nat_def gather_bytes.simps)

lemma of_nat_minus:
  "n < 2 ^ 32 \<Longrightarrow> m \<le> n \<Longrightarrow> unat (of_nat n - of_nat m :: utf32) = n - m"
  by (simp add: of_nat_diff [symmetric] unat_of_nat del: of_nat_diff)

lemma well_formed_length: "well_formed xs \<Longrightarrow> 1 \<le> length xs \<and> length xs \<le> 4"
  by (cases xs rule: well_formed.cases) auto

lemma gathered:
  "s < length bytes \<Longrightarrow> gather_bytes bytes s 0 0 = Inr (of_nat (unat (bytes ! s)), s + 1)"
  "s + 1 < length bytes \<Longrightarrow> gather_bytes bytes s 1 0 =
     Inr (of_nat (unat (bytes ! s) * 64 + unat (bytes ! (s + 1))), s + 2)"
  "s + 2 < length bytes \<Longrightarrow> gather_bytes bytes s 2 0 =
     Inr (of_nat (unat (bytes ! s) * 4096 + unat (bytes ! (s + 1)) * 64 + unat (bytes ! (s + 2))), s + 3)"
  "s + 3 < length bytes \<Longrightarrow> gather_bytes bytes s 3 0 =
     Inr (of_nat (unat (bytes ! s) * 262144 + unat (bytes ! (s + 1)) * 4096
                  + unat (bytes ! (s + 2)) * 64 + unat (bytes ! (s + 3))), s + 4)"
  by (simp_all add: gather_bytes_eqs push_bit_eq_mult add.assoc distrib_right mult.assoc 
    del: One_nat_def add_2_eq_Suc')

lemma offsets:
  "offsetsFromUTF8 ! 0 = of_nat 0" "offsetsFromUTF8 ! 1 = of_nat 0x3080"
  "offsetsFromUTF8 ! 2 = of_nat 0xE2080" "offsetsFromUTF8 ! 3 = of_nat 0x3C82080"
  by (simp_all add: offsetsFromUTF8_def)

lemma gather_well_formed:
  assumes "s + extra < length bytes" "well_formed (map unat (take (extra + 1) (drop s bytes)))"
  shows "\<exists>ch. gather_bytes bytes s extra 0 = Inr (ch, s + extra + 1) \<and>
           unat (ch - offsetsFromUTF8 ! extra) = byte_value (map unat (take (extra + 1) (drop s bytes)))"
proof -
  have "extra \<le> 3"
    using well_formed_length [OF assms(2)] assms(1) by simp
  then consider "extra = 0" | "extra = 1" | "extra = 2" | "extra = 3"
    by linarith
  then show ?thesis
  proof cases
    case 1
    then show ?thesis
      using assms by (simp add: windows(1) gathered offsets unat_ucast_byte)
  next
    case 2
    have w: "take (extra + 1) (drop s bytes) = [bytes ! s, bytes ! (s + 1)]"
      unfolding 2 one_add_one using assms(1) 2 by (intro windows(2)) simp
    show ?thesis
      using assms unfolding w unfolding 2 offsets
      by (simp only: gathered) (simp add: continuation_def of_nat_minus del: of_nat_add of_nat_mult of_nat_numeral; elim conjE; linarith)
  next
    case 3
    have w: "take (extra + 1) (drop s bytes) = [bytes ! s, bytes ! (s + 1), bytes ! (s + 2)]"
      using windows(3) [of s bytes] assms(1) 3 by (simp add: numeral_eq_Suc)
    show ?thesis
      using assms unfolding w unfolding 3 offsets
      by (simp only: gathered) (simp add: continuation_def of_nat_minus del: of_nat_add of_nat_mult of_nat_numeral; elim conjE; linarith)
  next
    case 4
    have w: "take (extra + 1) (drop s bytes)
             = [bytes ! s, bytes ! (s + 1), bytes ! (s + 2), bytes ! (s + 3)]"
      using windows(4) [of s bytes] assms(1) 4 by (simp add: numeral_eq_Suc)
    show ?thesis
      using assms unfolding w unfolding 4 offsets
      by (simp only: gathered) (simp add: continuation_def of_nat_minus del: of_nat_add of_nat_mult of_nat_numeral; elim conjE; linarith)
  qed
qed

section \<open>The decoder\<close>

text \<open>
  What the strict decoder takes from the start of its input: a sequence that encodes a scalar value, or
  the single byte 0xA9, which it replaces by U+FFFD whatever the flags say. \<open>utf8_scan\<close> splits the
  input into these and a rest that starts with neither.
\<close>

datatype item = Char nat | Copyright

fun item_units :: "item \<Rightarrow> unichar list" where
  "item_units (Char n) = utf16 n"
| "item_units Copyright = [0xFFFD]"

fun item_bytes :: "item \<Rightarrow> byte list" where
  "item_bytes (Char n) = utf8 n"
| "item_bytes Copyright = [0xA9]"

definition first_item :: "byte list \<Rightarrow> (item \<times> byte list) option" where
  "first_item bs =
     (case find (\<lambda>k. k \<le> length bs \<and> well_formed (map unat (take k bs))) [1, 2, 3, 4] of
        Some k \<Rightarrow> Some (Char (byte_value (map unat (take k bs))), drop k bs)
      | None \<Rightarrow> if bs \<noteq> [] \<and> hd bs = 0xA9 then Some (Copyright, tl bs) else None)"

lemma first_item_Some:
  assumes "first_item bs = Some (it, rest)"
  obtains (char) k where "0 < k" "k \<le> length bs" "well_formed (map unat (take k bs))"
      "it = Char (byte_value (map unat (take k bs)))" "rest = drop k bs"
    | (copyright) "it = Copyright" "bs = 0xA9 # rest"
proof (cases "find (\<lambda>k. k \<le> length bs \<and> well_formed (map unat (take k bs))) [1, 2, 3, 4]")
  case None
  then show thesis
    using assms copyright by (cases bs) (auto simp: first_item_def split: if_splits)
next
  case (Some k)
  then have "k \<in> {1, 2, 3, 4} \<and> k \<le> length bs \<and> well_formed (map unat (take k bs))"
    by (auto simp: find_Some_iff nth_Cons' split: if_splits)
  then show thesis
    using assms Some by (intro char [of k]) (auto simp: first_item_def)
qed

lemma find_only:
  "m \<in> set xs \<Longrightarrow> (\<And>k. k \<in> set xs \<Longrightarrow> P k \<longleftrightarrow> k = m) \<Longrightarrow> find P xs = Some m"
  by (induction xs) auto

lemma first_item_shorter: "first_item bs = Some (it, rest) \<Longrightarrow> length rest < length bs"
  by (erule first_item_Some) auto

function utf8_scan :: "byte list \<Rightarrow> item list \<times> byte list" where
  "utf8_scan bs = (case first_item bs of None \<Rightarrow> ([], bs) | Some (it, rest) \<Rightarrow> apfst (Cons it) (utf8_scan rest))"
  by pat_completeness auto
termination
  by (relation "measure length") (auto dest: first_item_shorter)

declare utf8_scan.simps [simp del]

abbreviation "items_units its \<equiv> concat (map item_units its)"
abbreviation "items_bytes its \<equiv> concat (map item_bytes its)"

lemma well_formed_head:
  "well_formed (unat b # xs) \<Longrightarrow> length xs = trailingBytesForUTF8 ! unat b" for b :: byte
  by (cases "unat b # xs" rule: well_formed.cases) (auto simp: trailing_bytes)

lemma first_item_Cons:
  fixes b :: byte
  assumes "bs = b # bs'" "e = trailingBytesForUTF8 ! unat b"
  shows "first_item bs =
    (if e < length bs \<and> well_formed (map unat (take (e + 1) bs))
     then Some (Char (byte_value (map unat (take (e + 1) bs))), drop (e + 1) bs)
     else if b = 0xA9 then Some (Copyright, bs') else None)"
proof -
  have len: "k = e + 1" if "0 < k" "k \<le> length bs" "well_formed (map unat (take k bs))" for k
  proof -
    have "length (take (k - 1) bs') = e"
      using that assms by (cases k) (auto dest: well_formed_head)
    then show ?thesis
      using that assms(1) by auto
  qed
  show ?thesis
  proof (cases "e < length bs \<and> well_formed (map unat (take (e + 1) bs))")
    case True
    then have "e + 1 \<in> {1, 2, 3, 4}"
      using well_formed_length [of "map unat (take (e + 1) bs)"] by auto
    then have "find (\<lambda>k. k \<le> length bs \<and> well_formed (map unat (take k bs))) [1, 2, 3, 4] = Some (e + 1)"
    proof (intro find_only iffI)
      fix k
      assume "k \<in> set [1, 2, 3, 4]" "k \<le> length bs \<and> well_formed (map unat (take k bs))"
      then show "k = e + 1"
        by (intro len) auto
    next
      show "k \<le> length bs \<and> well_formed (map unat (take k bs))" if "k = e + 1" for k
        using True unfolding that by simp
    qed simp
    then show ?thesis
      using True by (simp add: first_item_def)
  next
    case False
    have "find (\<lambda>k. k \<le> length bs \<and> well_formed (map unat (take k bs))) [1, 2, 3, 4] = None"
      unfolding find_None_iff
    proof
      assume "\<exists>k. k \<in> set [1, 2, 3, 4] \<and> k \<le> length bs \<and> well_formed (map unat (take k bs))"
      then obtain k where k: "k \<in> set [1, 2, 3, 4]" "k \<le> length bs"
          "well_formed (map unat (take k bs))"
        by blast
      then have "0 < k"
        by auto
      with False len [of k] k show False
        by simp
    qed
    then have "first_item bs = (if bs \<noteq> [] \<and> hd bs = 0xA9 then Some (Copyright, tl bs) else None)"
      unfolding first_item_def by (simp only: option.case)
    then show ?thesis
      using assms(1) unfolding if_not_P [OF False] by simp
  qed
qed

lemma first_item_bytes: "first_item bs = Some (it, rest) \<Longrightarrow> bs = item_bytes it @ rest"
  by (erule first_item_Some) (auto simp: well_formed_utf8)

lemma utf8_scan_splits: "bs = items_bytes (fst (utf8_scan bs)) @ snd (utf8_scan bs)"
proof (induction bs rule: utf8_scan.induct)
  case (1 bs)
  show ?case
  proof (cases "first_item bs")
    case None
    then show ?thesis
      by (simp add: utf8_scan.simps [of bs])
  next
    case (Some p)
    obtain it rest where p: "p = (it, rest)" by (cases p)
    have "utf8_scan bs = apfst (Cons it) (utf8_scan rest)"
      by (simp add: utf8_scan.simps [of bs] Some p)
    then show ?thesis
      using 1 [OF Some p [symmetric]] first_item_bytes [of bs it rest] Some p by simp
  qed
qed

lemma first_item_utf8:
  assumes "scalar n"
  shows "first_item (utf8 n @ rest) = Some (Char n, rest)"
proof -
  obtain b bs where u: "utf8 n = b # bs"
    using length_utf8(1) [of n] by (cases "utf8 n") auto
  have e: "length bs = trailingBytesForUTF8 ! unat b"
    using utf8_well_formed [OF assms] well_formed_head [of b "map unat bs"] by (simp add: u)
  show ?thesis
    using utf8_well_formed [OF assms] first_item_Cons [OF refl e, of "bs @ rest"] by (simp add: u)
qed

lemma utf8_scan_utf8s:
  "\<forall>n\<in>set ss. scalar n \<Longrightarrow> utf8_scan (utf8s ss) = (map Char ss, [])"
proof (induction ss)
  case Nil
  then show ?case
    by (simp add: utf8_scan.simps [of "[]"] first_item_def)
next
  case (Cons n ss)
  then show ?case
    by (simp add: utf8_scan.simps [of "utf8 n @ _"] first_item_utf8)
qed

text \<open>Flags of the plain conversion: no decomposition, and the bytes are checked.\<close>

definition plain_flags :: "utf32 \<Rightarrow> bool" where
  "plain_flags flags \<longleftrightarrow>
     \<not> flag_set flags kCFStringEncodingUseHFSPlusCanonical \<and>
     \<not> flag_set flags kCFStringEncodingUseCanonical \<and>
     \<not> flag_set flags kCFStringEncodingLenientUTF8Conversion"

lemma unit_of_nat: "ucast (of_nat n :: utf32) = (of_nat n :: unichar)"
proof -
  have "take_bit 16 (take_bit 32 x) = take_bit 16 x" for x :: int
    by (simp add: take_bit_take_bit)
  then show ?thesis
    by transfer simp
qed

lemma surrogates_of:
  assumes "unat ch = v" "0x10000 \<le> v" "v < 0x110000"
  shows "[ucast (drop_bit halfShift (ch - halfBase) + kSurrogateHighStart),
          ucast ((ch - halfBase AND halfMask) + kSurrogateLowStart)] = utf16 v"
proof -
  have ch: "ch = of_nat v"
    using assms(1) by auto
  have d: "ch - halfBase = of_nat (v - 0x10000)"
    using assms(2) by (simp add: ch utf_constants of_nat_diff)
  have u: "unat (of_nat (v - 0x10000) :: utf32) = v - 0x10000"
    using assms(3) by (simp add: unat_of_nat)
  have "drop_bit halfShift (ch - halfBase) = of_nat ((v - 0x10000) div 0x400)"
    unfolding d word_unat_eq_iff unat_drop_bit_eq u
    using assms(3) by (simp add: halfShift_def drop_bit_eq_div unat_of_nat)
  moreover have "ch - halfBase AND halfMask = take_bit 10 (ch - halfBase)"
    by (simp add: take_bit_eq_mask mask_eq_exp_minus_1 halfMask_def)
  moreover have "take_bit 10 (ch - halfBase) = of_nat ((v - 0x10000) mod 0x400)"
    unfolding d word_unat_eq_iff unsigned_take_bit_eq u
    by (simp add: take_bit_eq_mod unat_of_nat)
  ultimately have "[ucast (drop_bit halfShift (ch - halfBase) + kSurrogateHighStart),
          ucast ((ch - halfBase AND halfMask) + kSurrogateLowStart)] = (
        [ucast (of_nat ((v - 0x10000) div 0x400 + 0xD800) :: utf32), ucast (of_nat ((v - 0x10000) mod 0x400 + 0xDC00) :: utf32)] :: unichar list)"
    by (simp add: utf_constants)
  then show ?thesis
    using assms(2) unfolding unit_of_nat by (simp add: utf16_def add.commute)
qed

lemma overlay_two:
  "Suc u < length buf \<Longrightarrow> overlay (overlay buf u [x]) (Suc u) [y] = overlay buf u [x, y]"
  using overlay_append [of u "[x]" buf "[y]"] by simp

lemma emit_scalar:
  assumes "plain_flags flags" "unat ch = v" "scalar v" 
    "maxlen \<noteq> 0 \<Longrightarrow> c = u \<and> u < maxlen \<and> maxlen \<le> length buf"
  shows "emit_code_point env flags maxlen buf c u ch =
         (if maxlen \<noteq> 0 \<and> maxlen < u + length (utf16 v) then Inr (Ended False buf)
          else Inr (Going (shown maxlen buf u (utf16 v)) (if maxlen = 0 then c else u + length (utf16 v))
                 (u + length (utf16 v))))"
proof (cases "v < 0x10000")
  case True
  have "utf16 v = [ucast ch]"
    using True unit_of_nat [of v] assms(2) by (auto simp: utf16_def)
  then show ?thesis
    using assms True unfolding plain_flags_def scalar_def
    by (auto simp: emit_code_point_def utf_constants word_le_nat_alt put_unit_def shown_def overlay_update)
next
  case False
  have v: "v < 0x110000"
    using assms(3) by (auto simp: scalar_def)
  note s = surrogates_of [OF assms(2) _ v, symmetric]
  show ?thesis
    using assms False v unfolding plain_flags_def
    by (auto simp: emit_code_point_def kMaximumUCS2_def kMaximumUTF16_def Let_def word_le_nat_alt word_less_nat_alt s shown_def
      overlay_two overlay_update)
qed

lemma decode_char:
  assumes "plain_flags flags" "scalar v" "drop s bytes = utf8 v @ rest" "s < length bytes"
    "maxlen \<noteq> 0 \<Longrightarrow> c = u \<and> u < maxlen \<and> maxlen \<le> length buf"
  shows "from_utf8_loop env flags bytes maxlen s (length bytes - s) buf c u =
         (if maxlen \<noteq> 0 \<and> maxlen < u + length (utf16 v) then Inr (s + length (utf8 v), u, buf)
          else from_utf8_loop env flags bytes maxlen (s + length (utf8 v)) (length bytes - (s + length (utf8 v)))
            (shown maxlen buf u (utf16 v)) (if maxlen = 0 then c else u + length (utf16 v)) 
            (u + length (utf16 v)))"
proof -
  define e where "e = trailingBytesForUTF8 ! unat (bytes ! s)"
  have w: "well_formed (map unat (utf8 v))" "byte_value (map unat (utf8 v)) = v"
    using utf8_well_formed [OF assms(2)] by simp_all
  obtain b bs where u8: "utf8 v = b # bs"
    using length_utf8(1) [of v] by (cases "utf8 v") auto
  have b: "bytes ! s = b"
    using assms(3,4) u8 by (metis append_Cons nth_via_drop)
  have len: "length (utf8 v) = e + 1"
    using w(1) well_formed_head [of b "map unat bs"] by (simp add: u8 e_def b)
  have le: "length (utf8 v) \<le> length bytes - s"
    using arg_cong [OF assms(3), of length] by simp
  have tk: "take (e + 1) (drop s bytes) = utf8 v"
    unfolding assms(3) len [symmetric] by simp
  have e3: "e \<le> 3"
    using length_utf8(2) [of v] len by simp
  have se: "s + e < length bytes"
    using le len assms(4) by linarith
  have legal: "CFIsLegalUTF8 bytes s (e + 1) = Inr True"
    using legal_utf8 [OF se e_def e3] w(1) unfolding tk by simp
  obtain ch where ch: "gather_bytes bytes s e 0 = Inr (ch, s + e + 1)" "unat (ch - offsetsFromUTF8 ! e) = v"
    using gather_well_formed [OF se] w unfolding tk by auto
  have rd: "rd bytes s = Inr (bytes ! s)"
    using assms(4) by simp
  have c: "length bytes - s \<noteq> 0 \<and> (maxlen = 0 \<or> u < maxlen)"
    using assms(4,5) by auto
  have n: "\<not> e > length bytes - s - 1"
    using se by linarith
  have r: "length bytes - s - 1 - e = length bytes - (s + length (utf8 v))"
    using len by simp
  have em: "emit_code_point env flags maxlen buf c u (ch - offsetsFromUTF8 ! e) =
      (if maxlen \<noteq> 0 \<and> maxlen < u + length (utf16 v) then Inr (Ended False buf)
       else Inr (Going (shown maxlen buf u (utf16 v)) (if maxlen = 0 then c else u + length (utf16 v))
              (u + length (utf16 v))))"
    by (rule emit_scalar [OF assms(1) ch(2) assms(2)]) (use assms(5) in auto)
  show ?thesis
    unfolding from_utf8_loop.simps [of env flags bytes maxlen s] if_P [OF c] rd ebind_simps Let_def e_def [symmetric]
      if_not_P [OF n] legal ch(1) prod.case em r
    using assms(1) e3 by (simp add: plain_flags_def len)
qed

lemma decode_copyright:
  assumes "drop s bytes = 0xA9 # rest" "s < length bytes" "plain_flags flags"
    "maxlen \<noteq> 0 \<Longrightarrow> c = u \<and> u < maxlen \<and> maxlen \<le> length buf"
  shows "from_utf8_loop env flags bytes maxlen s (length bytes - s) buf c u =
         from_utf8_loop env flags bytes maxlen (s + 1) (length bytes - (s + 1))
            (shown maxlen buf u [0xFFFD]) (if maxlen = 0 then c else u + 1) (u + 1)"
proof -
  have b: "bytes ! s = 0xA9"
    using assms(1,2) by (metis nth_via_drop)
  have e: "trailingBytesForUTF8 ! unat (bytes ! s) = 0"
    unfolding b trailing_bytes by simp
  have legal: "CFIsLegalUTF8 bytes s (0 + 1) = Inr False"
    using legal_utf8 [of s 0 bytes] assms(2) windows(1) [OF assms(2)] e by (simp add: b)
  have c: "length bytes - s \<noteq> 0 \<and> (maxlen = 0 \<or> u < maxlen)"
    using assms(2,4) by auto
  show ?thesis
    unfolding from_utf8_loop.simps [of env flags bytes maxlen s] if_P [OF c]
    using assms e legal b
    by (auto simp: plain_flags_def put_unit_def shown_def overlay_update utf_constants)
qed

lemma decode_stuck:
  assumes "first_item (drop s bytes) = None" "plain_flags flags" 
     "\<not> flag_set flags kCFStringEncodingAllowLossyConversion" "s \<le> length bytes"
  shows "from_utf8_loop env flags bytes maxlen s (length bytes - s) buf c u = Inr (s, u, buf)"
proof (cases "s < length bytes \<and> (maxlen = 0 \<or> u < maxlen)")
  case False
  then show ?thesis
    using assms(4) by (subst from_utf8_loop.simps) auto
next
  case True
  define e where "e = trailingBytesForUTF8 ! unat (bytes ! s)"
  have d: "drop s bytes = bytes ! s # drop (Suc s) bytes"
    using True by (simp add: Cons_nth_drop_Suc)
  have stuck: "\<not> (e < length (drop s bytes) \<and> well_formed (map unat (take (e + 1) (drop s bytes))))" "bytes ! s \<noteq> 0xA9"
    using assms(1) first_item_Cons [OF d e_def] by (simp_all split: if_splits)
  have legal: "CFIsLegalUTF8 bytes s (e + 1) = Inr False" if "e \<le> length bytes - s - 1" "e \<le> 3"
  proof -
    have se: "s + e < length bytes"
      using that(1) True by linarith
    then show ?thesis
      using legal_utf8 [OF se e_def that(2)] stuck(1) by simp
  qed
  show ?thesis
    using assms(2,3) True stuck(2) legal
    by (subst from_utf8_loop.simps) (auto simp: plain_flags_def Let_def e_def [symmetric] not_le)
qed

lemma shown_simps [simp]:
  "shown 0 buf j xs = buf" "shown maxlen buf j [] = buf"
  by (simp_all add: shown_def)

lemma length_shown: "j + length xs \<le> length buf \<Longrightarrow> length (shown maxlen buf j xs) = length buf"
  by (simp add: shown_def)

lemma from_utf8_loop_decodes:
  assumes "plain_flags flags" "\<not> flag_set flags kCFStringEncodingAllowLossyConversion"
    "s \<le> length bytes" "its = fst (utf8_scan (drop s bytes))"
    "maxlen \<noteq> 0 \<Longrightarrow> c = u \<and> u + length (items_units its) \<le> maxlen \<and> maxlen \<le> length buf"
  shows "from_utf8_loop env flags bytes maxlen s (length bytes - s) buf c u =
         Inr (s + length (items_bytes its), u + length (items_units its),
              shown maxlen buf u (items_units its))"
  using assms(3-5)
proof (induction its arbitrary: s c u buf)
  case Nil
  then have "first_item (drop s bytes) = None"
    by (cases "first_item (drop s bytes)") (auto simp: utf8_scan.simps [of "drop s bytes"])
  then show ?case
    using Nil assms(1,2) by (simp add: decode_stuck)
next
  case (Cons it its)
  obtain rest where f: "first_item (drop s bytes) = Some (it, rest)" and its: "its = fst (utf8_scan rest)"
    using Cons.prems(2)
    by (cases "first_item (drop s bytes)") (auto simp: utf8_scan.simps [of "drop s bytes"])
  have d: "drop s bytes = item_bytes it @ rest"
    using first_item_bytes [OF f] .
  have s: "s < length bytes"
    using first_item_shorter [OF f] by auto
  have r: "rest = drop (s + length (item_bytes it)) bytes"
    using arg_cong [OF d, of "drop (length (item_bytes it))"] by (simp add: add.commute)
  have le: "s + length (item_bytes it) \<le> length bytes"
    using arg_cong [OF d, of length] s by simp
  have pos: "0 < length (item_units it)"
    by (cases it) (simp_all add: length_utf16)
  have room: "maxlen \<noteq> 0 \<Longrightarrow> c = u \<and> u < maxlen \<and> maxlen \<le> length buf" 
      "\<not> (maxlen \<noteq> 0 \<and> maxlen < u + length (item_units it))"
    using Cons.prems(3) pos by (auto simp del: length_greater_0_conv)
  have go: "from_utf8_loop env flags bytes maxlen s (length bytes - s) buf c u =
    from_utf8_loop env flags bytes maxlen (s + length (item_bytes it)) (length bytes - (s + length (item_bytes it)))
      (shown maxlen buf u (item_units it)) (if maxlen = 0 then c else u + length (item_units it)) 
      (u + length (item_units it))"
  proof (cases it)
    case (Char v)
    have "scalar v"
      using f well_formed_utf8 by (auto elim!: first_item_Some simp: Char)
    then show ?thesis
      using decode_char [OF assms(1) _ _ s room(1), of v rest] d room(2) by (auto simp: Char)
  next
    case Copyright
    then show ?thesis
      using decode_copyright [OF _ s assms(1) room(1), of rest] d by simp
  qed
  have "length (shown maxlen buf u (item_units it)) = length buf" if "maxlen \<noteq> 0"
    using room that by (intro length_shown) auto
  then have "from_utf8_loop env flags bytes maxlen (s + length (item_bytes it)) (length bytes - (s + length (item_bytes it)))
      (shown maxlen buf u (item_units it)) (if maxlen = 0 then c else u + length (item_units it)) 
      (u + length (item_units it)) = 
     Inr (s + length (item_bytes it) + length (items_bytes its), u + length (item_units it) + length (items_units its),
       shown maxlen (shown maxlen buf u (item_units it)) (u + length (item_units it)) (items_units its))"
    using Cons.prems(3) its r le by (intro Cons.IH) auto
  moreover have "maxlen = 0 \<or> u + length (item_units it) \<le> length buf"
    using room by auto
  ultimately show ?case
    unfolding go by (simp add: shown_append add.assoc)
qed

lemma utf8_len_step:
  "to_utf8_len cs acc = acc + of_nat (length (utf8s (fst (utf16_scan cs))))" if "snd (utf16_scan cs) = []"
  using that
proof (induction cs arbitrary: acc rule: utf16_scan.induct)
  case (2 c cs)
  show ?case
  proof (cases rule: utf16_scan_cases [of c cs])
    case bmp
    have b: "CFUTF8BytesToWriteForCharacter (ucast c) = length (utf8 (unat c))"
      using bytes_to_write [of "ucast c"] unat16_bound [of c] by (simp add: ucast_unichar)
    have h: "(kSurrogateHighStart \<le> ucast c \<and> ucast c \<le> kSurrogateHighEnd \<and> p) = False" for p
      using bmp(1) by (auto simp: utf_constants word_le_nat_alt ucast_unichar)
    then have "to_utf8_len (c # cs) acc = to_utf8_len cs (acc + of_nat (length (utf8 (unat c))))"
      unfolding to_utf8_len.simps(2) [of c cs] h b by (cases cs) simp_all
    then show ?thesis
      using 2(1) [OF bmp(1)] 2(3) bmp(2) by simp
  next
    case (pair d ds)
    have h: "kSurrogateHighStart \<le> ucast c \<and> ucast c \<le> kSurrogateHighEnd \<and> is_low_surrogate d"
      using pair by (simp add: is_low_surrogate_def utf_constants word_le_nat_alt ucast_unichar)
    have "CFUTF8BytesToWriteForCharacter (surrogate_pair (ucast c) (ucast d)) =
        length (utf8 (0x10000 + (unat c - 0xD800) * 0x400 + (unat d - 0xDC00)))"
      using bytes_to_write [of "surrogate_pair (ucast c) (ucast d)"] pair
      by (simp add: surrogate_pair_value)
    then have "to_utf8_len (c # cs) acc = to_utf8_len ds (acc + of_nat (length (utf8 (0x10000 + (unat c - 0xD800) * 0x400 + (unat d - 0xDC00)))))"
      using h pair(1) by simp
    then show ?thesis
      using 2(2) [of d ds] 2(3) pair by simp
  next
    case lone
    then show ?thesis using 2(3) by simp
  qed
qed simp

section \<open>Bounds\<close>

lemma utf8_cases_bounds:
  assumes "off + k \<le> length bytes"
  shows "\<exists>bytes'. utf8_cases n bytes off k ch = Inr bytes' \<and> length bytes' = length bytes"
  using assms
proof (induction n bytes off k ch rule: utf8_cases.induct)
  case (3 n bytes off k ch)
  then show ?case
    by (auto simp: wr_def)
qed (auto simp: wr_def)

lemma core_bounds:
  assumes "maxlen \<le> length bytes" "j < maxlen"
  shows "\<exists>n bytes'. CFToUTF8Core ch bytes j (of_nat (maxlen - j)) = Inr (n, bytes') \<and>
           length bytes' = length bytes \<and> j + n \<le> maxlen"
proof -
  have m: "unat (of_nat (maxlen - j) :: utf32) \<le> maxlen - j"
    by (simp add: unat_of_nat)
  obtain n ch' where n: "(if CFUTF8BytesToWriteForCharacter ch = 0 then (2, kReplacementCharacter)
      else (CFUTF8BytesToWriteForCharacter ch, ch)) = (n, ch')"
    by (cases "CFUTF8BytesToWriteForCharacter ch = 0") auto
  show ?thesis
  proof (cases "unat (of_nat (maxlen - j) :: utf32) < n")
    case True
    then show ?thesis
      using assms(2) unfolding CFToUTF8Core_def Let_def n by simp
  next
    case False
    then have "j + n \<le> maxlen"
      using m assms(2) by linarith
    then show ?thesis
      using False assms utf8_cases_bounds [of j n bytes n ch'] unfolding CFToUTF8Core_def Let_def n by auto
  qed
qed

lemma next_code_point_bound:
  "next_code_point s cs i ch = Some (ch', i') \<Longrightarrow> i \<le> length cs \<Longrightarrow> i' \<le> length cs"
  by (auto simp: next_code_point_def split: if_splits)

lemma to_utf8_loop_bounds:
  assumes "maxlen \<le> length bytes" "i \<le> length cs" "maxlen = 0 \<or> j \<le> maxlen"
  shows "\<exists>i' j' bytes'. to_utf8_loop isStrict cs maxlen i bytes j = Inr (i', j', bytes') \<and>
           i' \<le> length cs \<and> (maxlen = 0 \<or> j' \<le> maxlen) \<and> length bytes' = length bytes"
  using assms
proof (induction isStrict cs maxlen i bytes j rule: to_utf8_loop.induct)
  case (1 isStrict cs maxlen i bytes j)
  show ?case
  proof (cases "i < length cs \<and> (maxlen = 0 \<or> j < maxlen)")
    case False
    then show ?thesis
      using "1.prems" by (subst to_utf8_loop.simps) auto
  next
    case c: True
    define ch where "ch = (ucast (cs ! i) :: utf32)"
    show ?thesis
    proof (cases "ch < 0x80")
      case True
      have "(if maxlen \<noteq> 0 then wr bytes j (ucast ch) else Inr bytes) =
          Inr (if maxlen \<noteq> 0 then bytes[j := ucast ch] else bytes)"
        using c "1.prems"(1) by auto
      with "1.IH"(1) [OF c ch_def True this] "1.prems" c show ?thesis
        by (subst to_utf8_loop.simps) (auto simp: ch_def [symmetric] True)
    next
      case False
      show ?thesis
      proof (cases "next_code_point isStrict cs (Suc i) ch")
        case None
        then show ?thesis
          using c "1.prems" False by (subst to_utf8_loop.simps) (auto simp: ch_def [symmetric])
      next
        case (Some p)
        obtain ch' i' where p: "p = (ch', i')" by (cases p)
        have i': "i' \<le> length cs"
          using next_code_point_bound [of isStrict cs "Suc i" ch ch' i'] Some p c by simp
        obtain n bytes' where w: "(if maxlen \<noteq> 0 then CFToUTF8Core ch' bytes j (of_nat (maxlen - j))
             else Inr (CFUTF8BytesToWriteForCharacter ch', bytes)) = Inr (n, bytes')" 
           "length bytes' = length bytes" "maxlen = 0 \<or> j + n \<le> maxlen"
          using core_bounds [OF "1.prems"(1), of j ch'] c by (cases "maxlen = 0") auto
        have "to_utf8_loop isStrict cs maxlen i bytes j =
           (if n = 0 then Inr (i' - (if ch' < 0x10000 then 1 else 2), j, bytes') 
            else to_utf8_loop isStrict cs maxlen i' bytes' (j + n))"
          using c False Some p w(1) by (subst to_utf8_loop.simps) (simp add: ch_def [symmetric] del: of_nat_diff)
        moreover have "\<exists>i2 j2 bytes2. to_utf8_loop isStrict cs maxlen i' bytes' (j + n) = Inr (i2, j2, bytes2) \<and>
           i2 \<le> length cs \<and> (maxlen = 0 \<or> j2 \<le> maxlen) \<and> length bytes2 = length bytes'" if "n \<noteq> 0"
          using "1.IH"(2) [OF c ch_def False, of p ch' i' "(n, bytes')" n bytes'] Some p w i' "1.prems" that
          by metis
        ultimately show ?thesis
          using w i' "1.prems"(3) by (cases "n = 0") auto
      qed
    qed
  qed
qed

lemma gather_total:
  "s + k < length bytes \<Longrightarrow> \<exists>ch'. gather_bytes bytes s k ch = Inr (ch', s + k + 1)"
proof (induction k arbitrary: s ch)
  case (Suc k)
  then show ?case
    using Suc.IH [of "s + 1"] by auto
qed auto

lemma fill_utf16_bounds:
  assumes "maxlen \<le> length buf" "dst = u" "u \<le> maxlen" "maxlen \<noteq> 0"
  shows "\<exists>buf' r. fill_utf16 src buf dst maxlen u = Inr (buf', r) \<and> length buf' = length buf \<and>
           (\<forall>d u'. r = Some (d, u') \<longrightarrow> d = u' \<and> u' \<le> maxlen)"
  using assms
proof (induction src arbitrary: buf dst u)
  case (Cons x src)
  show ?case
  proof (cases "x > 0xFFFF")
    case True
    then show ?thesis
      using Cons.prems Cons.IH [of "buf[u := a, u + 1 := b]" "u + 2" "u + 2" for a b]
      by (auto simp: wr_def not_less Let_def)
  next
    case False
    then show ?thesis
      using Cons.prems Cons.IH [of "buf[u := a]" "u + 1" "u + 1" for a]
      by (auto simp: wr_def not_less)
  qed
qed auto

definition in_step :: "nat \<Rightarrow> nat \<Rightarrow> decoded \<Rightarrow> bool" where
  "in_step maxlen len d =
     (case d of Ended r buf \<Rightarrow> length buf = len
              | Going buf c u \<Rightarrow> length buf = len \<and> (maxlen = 0 \<or> c = u \<and> u \<le> maxlen))"

lemma put_decomposed_bounds:
  assumes "maxlen \<le> length buf" "maxlen = 0 \<or> c = u \<and> u < maxlen"
  shows "\<exists>d. put_decomposed env maxlen buf c u ch k = Inr d \<and> in_step maxlen (length buf) d"
proof (cases "maxlen = 0")
  case False
  then obtain buf' r where "fill_utf16 (decomposition env ch) buf c maxlen u = Inr (buf', r)"
      "length buf' = length buf" "\<forall>d u'. r = Some (d, u') \<longrightarrow> d = u' \<and> u' \<le> maxlen"
    using fill_utf16_bounds [OF assms(1), of c u "decomposition env ch"] assms(2) by auto
  then show ?thesis
    using False by (cases r) (auto simp: put_decomposed_def in_step_def)
qed (simp add: put_decomposed_def in_step_def)

lemma put_unit_bounds:
  assumes "maxlen \<le> length buf" "maxlen = 0 \<or> c = u \<and> u < maxlen"
  shows "\<exists>buf' c'. put_unit maxlen buf c x = Inr (buf', c') \<and> length buf' = length buf \<and> (maxlen = 0 \<or> c' = u + 1)"
  using assms by (auto simp: put_unit_def)

lemma emit_bounds:
  assumes "maxlen \<le> length buf" "maxlen = 0 \<or> c = u \<and> u < maxlen"
  shows "\<exists>d. emit_code_point env flags maxlen buf c u ch = Inr d \<and> in_step maxlen (length buf) d"
proof -
  have unit: "\<exists>d. ebind (put_unit maxlen buf c x) (\<lambda>(buf, c). Inr (Going buf c (u + 1))) = Inr d \<and>
      in_step maxlen (length buf) d" for x
    using put_unit_bounds [OF assms, of x] assms(2) by (auto simp: in_step_def)
  have pair: "\<exists>d. (if maxlen \<noteq> 0 then
             if u + 2 > maxlen then Inr (Ended False buf)
             else ebind (wr buf c a) (\<lambda>buf. ebind (wr buf (c + 1) b) (\<lambda>buf. Inr (Going buf (c + 2) (u + 2))))
           else Inr (Going buf c (u + 2))) = Inr d \<and> in_step maxlen (length buf) d" for a b
    using assms by (auto simp: in_step_def)
  have ended: "\<exists>d. Inr (Ended r buf) = (Inr d :: decoded cf) \<and> in_step maxlen (length buf) d" for r
    by (simp add: in_step_def)
  have unless: "\<exists>d. (if p then x else y) = Inr d \<and> in_step maxlen (length buf) d"
    if "\<exists>d. x = Inr d \<and> in_step maxlen (length buf) d" "\<exists>d. y = Inr d \<and> in_step maxlen (length buf) d"
    for p :: bool and x y
    using that by simp
  show ?thesis
    unfolding emit_code_point_def Let_def
    by (rule unless [OF unless [OF ended unless [OF put_decomposed_bounds [OF assms] unit]]
               unless [OF unless [OF ended unit] unless [OF put_decomposed_bounds [OF assms] pair]]])
qed

lemma from_utf8_loop_bounds:
  assumes "maxlen \<le> length buf" "s + n \<le> length bytes" "maxlen = 0 \<or> c = u \<and> u \<le> maxlen"
  shows "\<exists>s' u' buf'. from_utf8_loop env flags bytes maxlen s n buf c u = Inr (s', u', buf') \<and>
           s' \<le> length bytes \<and> (maxlen = 0 \<or> u' \<le> maxlen) \<and> length buf' = length buf"
    (is "?ok s n buf c u")
  using assms
proof (induction n arbitrary: s buf c u rule: less_induct)
  case (less n)
  show "?ok s n buf c u"
  proof (cases "n \<noteq> 0 \<and> (maxlen = 0 \<or> u < maxlen)")
    case False
    then show ?thesis
      using less.prems by (subst from_utf8_loop.simps) auto
  next
    case c: True
    define e where "e = trailingBytesForUTF8 ! unat (bytes ! s)"
    have s: "s < length bytes" and u: "maxlen = 0 \<or> c = u \<and> u < maxlen"
      using c less.prems by auto
    show ?thesis
    proof (cases "e > n - 1")
      case True
      then show ?thesis
        using c less.prems s by (subst from_utf8_loop.simps) (auto simp: e_def)
    next
      case e: False
      have se: "s + e < length bytes"
        using e c less.prems(2) by linarith
      obtain rejected where r: "(if e > 3 then Inr True
                 else if \<not> flag_set flags kCFStringEncodingLenientUTF8Conversion
                 then ebind (CFIsLegalUTF8 bytes s (e + 1)) (\<lambda>legal. Inr (\<not> legal))
                 else Inr False) = (Inr rejected :: bool cf)"
        using legal_utf8 [OF se e_def]
        by (cases "e > 3"; cases "flag_set flags kCFStringEncodingLenientUTF8Conversion") auto
      obtain buf1 c1 where put: "put_unit maxlen buf c (ucast kReplacementCharacter) = Inr (buf1, c1)"
          "length buf1 = length buf" "maxlen = 0 \<or> c1 = u + 1"
        using put_unit_bounds [OF less.prems(1) u, of "ucast kReplacementCharacter"] by auto
      obtain ch where ch: "gather_bytes bytes s e 0 = Inr (ch, s + e + 1)"
        using gather_total [OF se] by auto
      obtain d where d: "emit_code_point env flags maxlen buf c u (ch - offsetsFromUTF8 ! e) = Inr d"
          "in_step maxlen (length buf) d"
        using emit_bounds [OF less.prems(1) u] by blast
      have unfold: "from_utf8_loop env flags bytes maxlen s n buf c u =
        (if rejected then
            if bytes ! s = 0xA9 \<or> flag_set flags kCFStringEncodingAllowLossyConversion
            then from_utf8_loop env flags bytes maxlen (s + 1) (n - 1) buf1 c1 (u + 1)
            else Inr (s, u, buf)
         else case d of
                Ended rewind buf \<Rightarrow> Inr (if rewind then s + e + 1 - (e + 1) else s + e + 1, u, buf)
              | Going buf c u \<Rightarrow> from_utf8_loop env flags bytes maxlen (s + e + 1) (n - 1 - e) buf c u)"
        unfolding from_utf8_loop.simps [of env flags bytes maxlen s n] if_P [OF c] rd_simps(1) [OF s] ebind_simps Let_def
          e_def [symmetric] if_not_P [OF e] r put(1) ch d(1) prod.case ..
      define ok where "ok r \<longleftrightarrow> (\<exists>s' u' buf'. r = Inr (s', u', buf') \<and> s' \<le> length bytes \<and>
           (maxlen = 0 \<or> u' \<le> maxlen) \<and> length buf' = length buf)" for r :: "(nat \<times> nat \<times> unichar list) cf"
      have skip: "ok (from_utf8_loop env flags bytes maxlen (s + 1) (n - 1) buf1 c1 (u + 1))"
        using c less.prems put u less.IH [of "n - 1" buf1 "s + 1" c1 "u + 1"] by (auto simp: ok_def)
      have going: "ok (from_utf8_loop env flags bytes maxlen (s + e + 1) (n - 1 - e) buf2 c2 u2)"
        if "d = Going buf2 c2 u2" for buf2 c2 u2
        using c e less.prems d(2) less.IH [of "n - 1 - e" buf2 "s + e + 1" c2 u2] that
        by (auto simp: in_step_def ok_def)
      have ended: "ok (Inr (if r then s + e + 1 - (e + 1) else s + e + 1, u, buf2))"
        if "d = Ended r buf2" for r buf2
        using d(2) u s se that by (auto simp: in_step_def ok_def)
      have stop: "ok (Inr (s, u, buf))"
        using u s by (auto simp: ok_def)
      have "ok (from_utf8_loop env flags bytes maxlen s n buf c u)"
        unfolding unfold using skip going ended stop by (cases d) simp_all
      then show ?thesis
        by (simp add: ok_def)
    qed
  qed
qed

section \<open>Properties\<close>

text \<open>Tables of characters in which nothing is decomposed, for the concrete runs.\<close>

definition plain_env :: uni_env where
  "plain_env = \<lparr>hfs_decomposable = \<lambda>_. False, decomposition = \<lambda>c. [c]\<rparr>"

text \<open>
  C20. \<open>__CFToUTF8\<close> in its strict mode, given any text, with or without a limit on the bytes: it takes
  the longest run of scalar values from the start of the text whose encodings fit, ends before a
  surrogate that is not half of a pair, reports exactly the units taken and the bytes made, and the
  bytes are the UTF-8 form of these scalar values.
\<close>

theorem to_utf8_encodes:
  assumes "\<not> flag_set flags kCFStringEncodingUseHFSPlusCanonical" "maxlen < 2 ^ 32" "maxlen \<le> length buf"
    "ss = taken maxlen 0 (fst (utf16_scan chars))"
  shows "CFToUTF8 flags chars maxlen buf
         = Inr (length (utf16s ss), length (utf8s ss), shown maxlen buf 0 (utf8s ss))"
  using to_utf8_loop_encodes [OF assms(2,3), of 0 ss 0 chars] assms(1,4) by (simp add: CFToUTF8_def)

theorem to_utf8_encodes_witness:
  "CFToUTF8 0 [0x41, 0xD83D, 0xDE00, 0x20AC] 7 [0, 0, 0, 0, 0, 0, 0]
   = Inr (3, 5, [0x41, 0xF0, 0x9F, 0x98, 0x80, 0, 0])"
proof -
  have ss: "[0x41, 0x1F600] = taken 7 0 (fst (utf16_scan [0x41, 0xD83D, 0xDE00, 0x20AC]))"
    by (simp add: taken_def utf8_def)
  have "utf16s [0x41, 0x1F600] = [0x41, 0xD83D, 0xDE00]" "utf8s [0x41, 0x1F600] = [0x41, 0xF0, 0x9F, 0x98, 0x80]"
    by (simp_all add: utf16_def utf8_def)
  then show ?thesis
    using to_utf8_encodes [of 0 7 "[0, 0, 0, 0, 0, 0, 0]", OF _ _ _ ss]
    by (simp add: flag_set_def shown_def overlay_def)
qed

text \<open>
  C13. \<open>__CFFromUTF8\<close> with the checks on and nothing to decompose, given any bytes, when there is no
  limit or room for all characters: it takes the longest run of well-formed sequences (and single
  bytes 0xA9, which become U+FFFD) from the start, ends before the first byte of anything else,
  overlong forms, encoded surrogates and cut sequences included, reports exactly the bytes taken and
  the units made, and the units are the UTF-16 form of the scalar values.
\<close>

theorem from_utf8_decodes:
  assumes "plain_flags flags" "\<not> flag_set flags kCFStringEncodingAllowLossyConversion"
    "its = fst (utf8_scan bytes)"
    "maxlen = 0 \<or> length (items_units its) \<le> maxlen \<and> maxlen \<le> length buf"
  shows "CFFromUTF8 env flags bytes maxlen buf
         = Inr (length (items_bytes its), length (items_units its), shown maxlen buf 0 (items_units its))"
  using from_utf8_loop_decodes [OF assms(1,2), of 0 bytes its maxlen 0 0 buf env] assms(3,4)
  by (auto simp: CFFromUTF8_def)

theorem from_utf8_decodes_witness:
  "CFFromUTF8 plain_env 0 [0x41, 0xF0, 0x9F, 0x98, 0x80, 0xA9, 0xC0, 0x80] 0 [] = Inr (6, 4, []) \<and>
   CFFromUTF8 plain_env 0 [0xE2, 0x82, 0xAC, 0xED, 0xA0, 0x80] 2 [0, 0] = Inr (3, 1, [0x20AC, 0])"
proof -
  have a: "[Char 0x41, Char 0x1F600, Copyright] =
      fst (utf8_scan [0x41, 0xF0, 0x9F, 0x98, 0x80, 0xA9, 0xC0, 0x80])"
    by (simp add: utf8_scan.simps first_item_def continuation_def)
  have b: "[Char 0x20AC] = fst (utf8_scan [0xE2, 0x82, 0xAC, 0xED, 0xA0, 0x80])"
    by (simp add: utf8_scan.simps first_item_def continuation_def)
  have "plain_flags 0" "\<not> flag_set 0 kCFStringEncodingAllowLossyConversion"
    by (simp_all add: plain_flags_def flag_set_def)
  then show ?thesis
    using from_utf8_decodes [OF _ _ a, of 0 0 "[]" plain_env] from_utf8_decodes [OF _ _ b, of 0 2 "[0, 0]" plain_env]
    by (simp add: utf8_def utf16_def shown_def overlay_def)
qed

lemma length_utf8_utf16: "length (utf8 n) \<le> 3 * length (utf16 n)"
  by (simp add: utf8_def utf16_def)

lemma length_utf8s: "length (utf8s ss) \<le> 3 * length (utf16s ss)"
proof (induction ss)
  case (Cons n ss)
  then show ?case
    using length_utf8_utf16 [of n] by simp
qed simp

lemma fitting_all: "length (utf8s ss) \<le> room \<Longrightarrow> fitting room ss = ss"
  by (induction ss arbitrary: room) auto

lemma utf8_inverse:
  assumes "snd (utf16_scan chars) = []" "3 * length chars \<le> maxlen" "0 < maxlen" "maxlen < 2 ^ 32"
    "maxlen \<le> length buf" "ss = fst (utf16_scan chars)"
  shows "CFToUTF8 0 chars maxlen buf = Inr (length chars, length (utf8s ss), overlay buf 0 (utf8s ss))"
    and "CFFromUTF8 env 0 (utf8s ss) (length chars) (replicate (length chars) 0)
         = Inr (length (utf8s ss), length chars, chars)"
    and "take (length (utf8s ss)) (overlay buf 0 (utf8s ss)) = utf8s ss"
proof -
  have chars: "utf16s ss = chars"
    using utf16_scan_splits [of chars] assms(1) by (simp add: assms(6))
  have "taken maxlen 0 ss = ss"
    using length_utf8s [of ss] assms(2,3) by (simp add: taken_def fitting_all chars)
  then show "CFToUTF8 0 chars maxlen buf = Inr (length chars, length (utf8s ss), overlay buf 0 (utf8s ss))"
    using to_utf8_loop_encodes [OF assms(4,5), of 0 ss 0 chars] assms(3)
    by (simp add: CFToUTF8_def flag_set_def shown_def assms(6) [symmetric] chars)
  show "take (length (utf8s ss)) (overlay buf 0 (utf8s ss)) = utf8s ss"
    by (simp add: overlay_def)
  have scan: "utf8_scan (utf8s ss) = (map Char ss, [])"
    using utf16_scan_scalars [of chars] by (intro utf8_scan_utf8s) (simp add: assms(6))
  then show "CFFromUTF8 env 0 (utf8s ss) (length chars) (replicate (length chars) 0)
        = Inr (length (utf8s ss), length chars, chars)"
    using from_utf8_loop_decodes [of 0 0 "utf8s ss" "map Char ss" "length chars" 0 0
        "replicate (length chars) 0" env]
    by (simp add: CFFromUTF8_def plain_flags_def flag_set_def comp_def chars shown_def overlay_def)
qed

text \<open>
  C10. Encoding and decoding are inverse: three bytes of room per unit, which is what the converter's
  record says, are enough for \<open>__CFToUTF8\<close> to convert a whole text without stray surrogates, and
  \<open>__CFFromUTF8\<close> turns the bytes it made into the same text and uses all of them.
\<close>

theorem utf8_roundtrip:
  assumes "snd (utf16_scan chars) = []" "3 * length chars \<le> maxlen" "0 < maxlen" "maxlen < 2 ^ 32"
    "maxlen \<le> length buf"
  shows "\<exists>used bytes. CFToUTF8 0 chars maxlen buf = Inr (length chars, used, bytes) \<and>
           CFFromUTF8 env 0 (take used bytes) (length chars) (replicate (length chars) 0)
           = Inr (used, length chars, chars)"
  using utf8_inverse [OF assms refl] by simp

theorem utf8_roundtrip_witness:
  "\<exists>used bytes. CFToUTF8 0 [0x7A, 0xDF, 0xD83D, 0xDE00] 12 (replicate 12 0) = Inr (4, used, bytes) \<and>
     CFFromUTF8 plain_env 0 (take used bytes) 4
       (replicate 4 0)
     = Inr (used, 4, [0x7A, 0xDF, 0xD83D, 0xDE00])"
proof -
  have "snd (utf16_scan [0x7A, 0xDF, 0xD83D, 0xDE00]) = []"
    by simp
  moreover have four: "length [0x7A, 0xDF, 0xD83D, 0xDE00 :: unichar] = 4"
    by simp
  ultimately show ?thesis
    using utf8_roundtrip [of "[0x7A, 0xDF, 0xD83D, 0xDE00]" 12 "replicate 12 0"
      plain_env]
    unfolding four by simp
qed

text \<open>
  C30. Neither direction ever leaves its buffers, whatever the input, the flags and the decomposition
  tables: the conversion ends without an error, takes no more than it was given, makes no more than
  the limit allows and keeps the size of the buffer.
\<close>

theorem utf8_in_bounds:
  assumes "maxlen \<le> length bytes" "maxlen \<le> length units"
  shows "(\<exists>i j bytes'. CFToUTF8 flags chars maxlen bytes = Inr (i, j, bytes') \<and> i \<le> length chars \<and>
            (maxlen = 0 \<or> j \<le> maxlen) \<and> length bytes' = length bytes) \<and>
         (\<exists>i j units'. CFFromUTF8 env flags input maxlen units = Inr (i, j, units') \<and> i \<le> length input \<and>
            (maxlen = 0 \<or> j \<le> maxlen) \<and> length units' = length units)"
  using to_utf8_loop_bounds [OF assms(1), of 0 chars 0] from_utf8_loop_bounds [OF assms(2), of 0 "length input" input 0 0]
  by (simp add: CFToUTF8_def CFFromUTF8_def)

theorem utf8_in_bounds_witness:
  "(\<exists>i j bytes'. CFToUTF8 0x80 [0xD800, 0x41] 1 [0] = Inr (i, j, bytes') \<and> i \<le> length [0xD800, 0x41 :: unichar] \<and>
      (1 = (0 :: nat) \<or> j \<le> 1) \<and> length bytes' = length [0 :: byte]) \<and>
   (\<exists>i j units'. CFFromUTF8 plain_env 0x801 [0xF7, 0x80, 0x80, 0x80] 1 [0] = Inr (i, j, units') \<and>
      i \<le> length [0xF7, 0x80, 0x80, 0x80 :: byte] \<and> (1 = (0 :: nat) \<or> j \<le> 1) \<and>
      length units' = length [0 :: unichar])"
  using utf8_in_bounds [of 1 "[0]" "[0]", where chars = "[0xD800, 0x41]" and flags = "0x80"]
    utf8_in_bounds [of 1 "[0]" "[0]", where input = "[0xF7, 0x80, 0x80, 0x80]" and flags = "0x801"]
  by simp

text \<open>
  A character outside the basic plane is lost at the end of a buffer: with room for one unit left,
  \<open>__CFFromUTF8\<close> reads all four bytes of its encoding, writes nothing and does not go back, so that
  the caller who continues after the bytes reported never sees the character.
\<close>

theorem from_utf8_loses_character:
  assumes "plain_flags flags" "scalar n" "0x10000 \<le> n"
  shows "CFFromUTF8 env flags (utf8 n @ rest) 1 [u] = Inr (4, 0, [u])"
  using decode_char [OF assms(1,2), of 0 "utf8 n @ rest" rest 1 0 0 "[u]" env] length_utf8(1) [of n] assms(3)
  by (simp add: CFFromUTF8_def length_utf16 utf8_def)

theorem from_utf8_loses_character_witness:
  "CFFromUTF8 plain_env 0 [0xF0, 0x9F, 0x98, 0x80, 0x41] 1 [0] = Inr (4, 0, [0])"
proof -
  have "plain_flags 0" "scalar 0x1F600" "utf8 0x1F600 @ [0x41] = [0xF0, 0x9F, 0x98, 0x80, 0x41]"
    by (simp_all add: plain_flags_def flag_set_def scalar_def utf8_def)
  with from_utf8_loses_character [of 0 "0x1F600" plain_env "[0x41]" 0] show ?thesis
    by simp
qed

text \<open>
  The two functions that only count agree with the ones that convert, for a text without stray
  surrogates whose encoding has fewer than 2^32 bytes: \<open>__CFToUTF8Len\<close> gives the number of bytes
  \<open>__CFToUTF8\<close> reports without a limit.
\<close>

theorem utf8_len_agrees:
  assumes "snd (utf16_scan chars) = []" "length chars < 2 ^ 30"
  shows "CFToUTF8 0 chars 0 buf = Inr (length chars, CFToUTF8Len chars, buf)"
proof -
  let ?ss = "fst (utf16_scan chars)"
  have chars: "utf16s ?ss = chars"
    using utf16_scan_splits [of chars] assms(1) by simp
  have "length (utf8s ?ss) < 2 ^ 32"
    using length_utf8s [of ?ss] assms(2) unfolding chars by simp
  then have "CFToUTF8Len chars = length (utf8s ?ss)"
    by (simp add: CFToUTF8Len_def utf8_len_step [OF assms(1)] unat_of_nat)
  then show ?thesis
    using to_utf8_loop_encodes [of 0 buf 0 ?ss 0 chars] chars
    by (simp add: CFToUTF8_def flag_set_def taken_def)
qed

theorem utf8_len_agrees_witness: "CFToUTF8 0 [0xE9, 0xD83D, 0xDE00] 0 [] = Inr (3, CFToUTF8Len [0xE9, 0xD83D, 0xDE00], [])"
proof -
  have "snd (utf16_scan [0xE9, 0xD83D, 0xDE00]) = []"
    by simp
  from utf8_len_agrees [OF this, of "[]"] show ?thesis
    by simp
qed

end
