(* ===== verification/CF_EightBit.thy ===== *)
theory CF_EightBit
  imports CF_UTF8
begin

text \<open>
  The five built-in encodings of one byte per character (\<open>CFBuiltinConverters.c\<close>): ASCII, ISO Latin 1,
  Mac Roman, Windows Latin 1 and NEXTSTEP, with their tables, the binary search of
  \<open>CFStringEncodingConverterExt.h\<close>, the composition of a base letter with the accents after it, and the
  three loops of \<open>CFStringEncodingConverter.c\<close> that turn a conversion of one character into one of a
  text. A conversion of one character is an option, \<open>None\<close> where the C function returns false.
\<close>

unbundle bit_operations_syntax

section \<open>Tables\<close>

definition macRoman_from_uni :: "(unichar \<times> byte) list" where
  "macRoman_from_uni = [
     (0x00A0, 0xCA), (0x00A1, 0xC1), (0x00A2, 0xA2), (0x00A3, 0xA3), (0x00A5, 0xB4),
      (0x00A7, 0xA4), (0x00A8, 0xAC), (0x00A9, 0xA9), (0x00AA, 0xBB), (0x00AB, 0xC7),
      (0x00AC, 0xC2), (0x00AE, 0xA8), (0x00AF, 0xF8), (0x00B0, 0xA1), (0x00B1, 0xB1),
      (0x00B4, 0xAB), (0x00B5, 0xB5), (0x00B6, 0xA6), (0x00B7, 0xE1), (0x00B8, 0xFC),
      (0x00BA, 0xBC), (0x00BB, 0xC8), (0x00BF, 0xC0), (0x00C0, 0xCB), (0x00C1, 0xE7),
      (0x00C2, 0xE5), (0x00C3, 0xCC), (0x00C4, 0x80), (0x00C5, 0x81), (0x00C6, 0xAE),
      (0x00C7, 0x82), (0x00C8, 0xE9), (0x00C9, 0x83), (0x00CA, 0xE6), (0x00CB, 0xE8),
      (0x00CC, 0xED), (0x00CD, 0xEA), (0x00CE, 0xEB), (0x00CF, 0xEC), (0x00D1, 0x84),
      (0x00D2, 0xF1), (0x00D3, 0xEE), (0x00D4, 0xEF), (0x00D5, 0xCD), (0x00D6, 0x85),
      (0x00D8, 0xAF), (0x00D9, 0xF4), (0x00DA, 0xF2), (0x00DB, 0xF3), (0x00DC, 0x86),
      (0x00DF, 0xA7), (0x00E0, 0x88), (0x00E1, 0x87), (0x00E2, 0x89), (0x00E3, 0x8B),
      (0x00E4, 0x8A), (0x00E5, 0x8C), (0x00E6, 0xBE), (0x00E7, 0x8D), (0x00E8, 0x8F),
      (0x00E9, 0x8E), (0x00EA, 0x90), (0x00EB, 0x91), (0x00EC, 0x93), (0x00ED, 0x92),
      (0x00EE, 0x94), (0x00EF, 0x95), (0x00F1, 0x96), (0x00F2, 0x98), (0x00F3, 0x97),
      (0x00F4, 0x99), (0x00F5, 0x9B), (0x00F6, 0x9A), (0x00F7, 0xD6), (0x00F8, 0xBF),
      (0x00F9, 0x9D), (0x00FA, 0x9C), (0x00FB, 0x9E), (0x00FC, 0x9F), (0x00FF, 0xD8),
      (0x0131, 0xF5), (0x0152, 0xCE), (0x0153, 0xCF), (0x0178, 0xD9), (0x0192, 0xC4),
      (0x02C6, 0xF6), (0x02C7, 0xFF), (0x02D8, 0xF9), (0x02D9, 0xFA), (0x02DA, 0xFB),
      (0x02DB, 0xFE), (0x02DC, 0xF7), (0x02DD, 0xFD), (0x03A9, 0xBD), (0x03C0, 0xB9),
      (0x2013, 0xD0), (0x2014, 0xD1), (0x2018, 0xD4), (0x2019, 0xD5), (0x201A, 0xE2),
      (0x201C, 0xD2), (0x201D, 0xD3), (0x201E, 0xE3), (0x2020, 0xA0), (0x2021, 0xE0),
      (0x2022, 0xA5), (0x2026, 0xC9), (0x2030, 0xE4), (0x2039, 0xDC), (0x203A, 0xDD),
      (0x2044, 0xDA), (0x20AC, 0xDB), (0x2122, 0xAA), (0x2126, 0xBD), (0x2202, 0xB6),
      (0x2206, 0xC6), (0x220F, 0xB8), (0x2211, 0xB7), (0x221A, 0xC3), (0x221E, 0xB0),
      (0x222B, 0xBA), (0x2248, 0xC5), (0x2260, 0xAD), (0x2264, 0xB2), (0x2265, 0xB3),
      (0x25CA, 0xD7), (0xF8FF, 0xF0), (0xFB01, 0xDE), (0xFB02, 0xDF)]"

definition macRoman_to_uni :: "unichar list" where
  "macRoman_to_uni = [
     0x00C4, 0x00C5, 0x00C7, 0x00C9, 0x00D1, 0x00D6, 0x00DC, 0x00E1, 0x00E0, 0x00E2, 0x00E4,
      0x00E3, 0x00E5, 0x00E7, 0x00E9, 0x00E8, 0x00EA, 0x00EB, 0x00ED, 0x00EC, 0x00EE, 0x00EF,
      0x00F1, 0x00F3, 0x00F2, 0x00F4, 0x00F6, 0x00F5, 0x00FA, 0x00F9, 0x00FB, 0x00FC, 0x2020,
      0x00B0, 0x00A2, 0x00A3, 0x00A7, 0x2022, 0x00B6, 0x00DF, 0x00AE, 0x00A9, 0x2122, 0x00B4,
      0x00A8, 0x2260, 0x00C6, 0x00D8, 0x221E, 0x00B1, 0x2264, 0x2265, 0x00A5, 0x00B5, 0x2202,
      0x2211, 0x220F, 0x03C0, 0x222B, 0x00AA, 0x00BA, 0x03A9, 0x00E6, 0x00F8, 0x00BF, 0x00A1,
      0x00AC, 0x221A, 0x0192, 0x2248, 0x2206, 0x00AB, 0x00BB, 0x2026, 0x00A0, 0x00C0, 0x00C3,
      0x00D5, 0x0152, 0x0153, 0x2013, 0x2014, 0x201C, 0x201D, 0x2018, 0x2019, 0x00F7, 0x25CA,
      0x00FF, 0x0178, 0x2044, 0x20AC, 0x2039, 0x203A, 0xFB01, 0xFB02, 0x2021, 0x00B7, 0x201A,
      0x201E, 0x2030, 0x00C2, 0x00CA, 0x00C1, 0x00CB, 0x00C8, 0x00CD, 0x00CE, 0x00CF, 0x00CC,
      0x00D3, 0x00D4, 0xF8FF, 0x00D2, 0x00DA, 0x00DB, 0x00D9, 0x0131, 0x02C6, 0x02DC, 0x00AF,
      0x02D8, 0x02D9, 0x02DA, 0x00B8, 0x02DD, 0x02DB, 0x02C7]"

definition cp1252_from_uni :: "(unichar \<times> byte) list" where
  "cp1252_from_uni = [
     (0x0152, 0x8C), (0x0153, 0x9C), (0x0160, 0x8A), (0x0161, 0x9A), (0x0178, 0x9F),
      (0x017D, 0x8E), (0x017E, 0x9E), (0x0192, 0x83), (0x02C6, 0x88), (0x02DC, 0x98),
      (0x2013, 0x96), (0x2014, 0x97), (0x2018, 0x91), (0x2019, 0x92), (0x201A, 0x82),
      (0x201C, 0x93), (0x201D, 0x94), (0x201E, 0x84), (0x2020, 0x86), (0x2021, 0x87),
      (0x2022, 0x95), (0x2026, 0x85), (0x2030, 0x89), (0x2039, 0x8B), (0x203A, 0x9B),
      (0x20AC, 0x80), (0x2122, 0x99)]"

definition cp1252_to_uni :: "unichar list" where
  "cp1252_to_uni = [
     0x20AC, 0xFFFD, 0x201A, 0x0192, 0x201E, 0x2026, 0x2020, 0x2021, 0x02C6, 0x2030, 0x0160,
      0x2039, 0x0152, 0xFFFD, 0x017D, 0xFFFD, 0xFFFD, 0x2018, 0x2019, 0x201C, 0x201D, 0x2022,
      0x2013, 0x2014, 0x02DC, 0x2122, 0x0161, 0x203A, 0x0153, 0xFFFD, 0x017E, 0x0178]"

definition nextstep_from_tab :: "(unichar \<times> byte) list" where
  "nextstep_from_tab = [
     (0x00A0, 0x80), (0x00A1, 0xA1), (0x00A2, 0xA2), (0x00A3, 0xA3), (0x00A4, 0xA8),
      (0x00A5, 0xA5), (0x00A6, 0xB5), (0x00A7, 0xA7), (0x00A8, 0xC8), (0x00A9, 0xA0),
      (0x00AA, 0xE3), (0x00AB, 0xAB), (0x00AC, 0xBE), (0x00AE, 0xB0), (0x00AF, 0xC5),
      (0x00B1, 0xD1), (0x00B2, 0xC9), (0x00B3, 0xCC), (0x00B4, 0xC2), (0x00B5, 0x9D),
      (0x00B6, 0xB6), (0x00B7, 0xB4), (0x00B8, 0xCB), (0x00B9, 0xC0), (0x00BA, 0xEB),
      (0x00BB, 0xBB), (0x00BC, 0xD2), (0x00BD, 0xD3), (0x00BE, 0xD4), (0x00BF, 0xBF),
      (0x00C0, 0x81), (0x00C1, 0x82), (0x00C2, 0x83), (0x00C3, 0x84), (0x00C4, 0x85),
      (0x00C5, 0x86), (0x00C6, 0xE1), (0x00C7, 0x87), (0x00C8, 0x88), (0x00C9, 0x89),
      (0x00CA, 0x8A), (0x00CB, 0x8B), (0x00CC, 0x8C), (0x00CD, 0x8D), (0x00CE, 0x8E),
      (0x00CF, 0x8F), (0x00D0, 0x90), (0x00D1, 0x91), (0x00D2, 0x92), (0x00D3, 0x93),
      (0x00D4, 0x94), (0x00D5, 0x95), (0x00D6, 0x96), (0x00D7, 0x9E), (0x00D8, 0xE9),
      (0x00D9, 0x97), (0x00DA, 0x98), (0x00DB, 0x99), (0x00DC, 0x9A), (0x00DD, 0x9B),
      (0x00DE, 0x9C), (0x00DF, 0xFB), (0x00E0, 0xD5), (0x00E1, 0xD6), (0x00E2, 0xD7),
      (0x00E3, 0xD8), (0x00E4, 0xD9), (0x00E5, 0xDA), (0x00E6, 0xF1), (0x00E7, 0xDB),
      (0x00E8, 0xDC), (0x00E9, 0xDD), (0x00EA, 0xDE), (0x00EB, 0xDF), (0x00EC, 0xE0),
      (0x00ED, 0xE2), (0x00EE, 0xE4), (0x00EF, 0xE5), (0x00F0, 0xE6), (0x00F1, 0xE7),
      (0x00F2, 0xEC), (0x00F3, 0xED), (0x00F4, 0xEE), (0x00F5, 0xEF), (0x00F6, 0xF0),
      (0x00F7, 0x9F), (0x00F8, 0xF9), (0x00F9, 0xF2), (0x00FA, 0xF3), (0x00FB, 0xF4),
      (0x00FC, 0xF6), (0x00FD, 0xF7), (0x00FE, 0xFC), (0x00FF, 0xFD), (0x0131, 0xF5),
      (0x0141, 0xE8), (0x0142, 0xF8), (0x0152, 0xEA), (0x0153, 0xFA), (0x0192, 0xA6),
      (0x02C6, 0xC3), (0x02C7, 0xCF), (0x02CB, 0xC1), (0x02D8, 0xC6), (0x02D9, 0xC7),
      (0x02DA, 0xCA), (0x02DB, 0xCE), (0x02DC, 0xC4), (0x02DD, 0xCD), (0x2013, 0xB1),
      (0x2014, 0xD0), (0x2019, 0xA9), (0x201A, 0xB8), (0x201C, 0xAA), (0x201D, 0xBA),
      (0x201E, 0xB9), (0x2020, 0xB2), (0x2021, 0xB3), (0x2022, 0xB7), (0x2026, 0xBC),
      (0x2030, 0xBD), (0x2039, 0xAC), (0x203A, 0xAD), (0x2044, 0xA4), (0xFB01, 0xAE),
      (0xFB02, 0xAF), (0xFFFD, 0xFF)]"

definition NSToPrecompUnicodeTable :: "unichar list" where
  "NSToPrecompUnicodeTable = [
     0x00A0, 0x00C0, 0x00C1, 0x00C2, 0x00C3, 0x00C4, 0x00C5, 0x00C7, 0x00C8, 0x00C9, 0x00CA,
      0x00CB, 0x00CC, 0x00CD, 0x00CE, 0x00CF, 0x00D0, 0x00D1, 0x00D2, 0x00D3, 0x00D4, 0x00D5,
      0x00D6, 0x00D9, 0x00DA, 0x00DB, 0x00DC, 0x00DD, 0x00DE, 0x00B5, 0x00D7, 0x00F7, 0x00A9,
      0x00A1, 0x00A2, 0x00A3, 0x2044, 0x00A5, 0x0192, 0x00A7, 0x00A4, 0x2019, 0x201C, 0x00AB,
      0x2039, 0x203A, 0xFB01, 0xFB02, 0x00AE, 0x2013, 0x2020, 0x2021, 0x00B7, 0x00A6, 0x00B6,
      0x2022, 0x201A, 0x201E, 0x201D, 0x00BB, 0x2026, 0x2030, 0x00AC, 0x00BF, 0x00B9, 0x02CB,
      0x00B4, 0x02C6, 0x02DC, 0x00AF, 0x02D8, 0x02D9, 0x00A8, 0x00B2, 0x02DA, 0x00B8, 0x00B3,
      0x02DD, 0x02DB, 0x02C7, 0x2014, 0x00B1, 0x00BC, 0x00BD, 0x00BE, 0x00E0, 0x00E1, 0x00E2,
      0x00E3, 0x00E4, 0x00E5, 0x00E7, 0x00E8, 0x00E9, 0x00EA, 0x00EB, 0x00EC, 0x00C6, 0x00ED,
      0x00AA, 0x00EE, 0x00EF, 0x00F0, 0x00F1, 0x0141, 0x00D8, 0x0152, 0x00BA, 0x00F2, 0x00F3,
      0x00F4, 0x00F5, 0x00F6, 0x00E6, 0x00F9, 0x00FA, 0x00FB, 0x0131, 0x00FC, 0x00FD, 0x0142,
      0x00F8, 0x0153, 0x00DF, 0x00FE, 0x00FF, 0xFFFD, 0xFFFD]"

section \<open>Searching a table\<close>

function search_char_map :: "(unichar \<times> byte) list \<Rightarrow> unichar \<Rightarrow> int \<Rightarrow> int \<Rightarrow> byte option cf" where
  "search_char_map theTable character p q =
     (if p \<le> q then
        let divider = p + (q - p) div 2 in
        ebind (rd_at theTable divider) (\<lambda>(u, c).
        if character < u then search_char_map theTable character p (divider - 1)
        else if character > u then search_char_map theTable character (divider + 1) q
        else Inr (Some c))
      else Inr None)"
  by pat_completeness auto
termination
  by (relation "measure (\<lambda>(t, c, p, q). nat (q + 1 - p))") auto

declare search_char_map.simps [simp del]

definition CFStringEncodingUnicodeTo8BitEncoding ::
  "(unichar \<times> byte) list \<Rightarrow> int \<Rightarrow> unichar \<Rightarrow> byte option cf" where
  "CFStringEncodingUnicodeTo8BitEncoding theTable numElem character =
     ebind (rd_at theTable 0) (\<lambda>first.
     ebind (rd_at theTable (numElem - 1)) (\<lambda>final.
     if character < fst first \<or> character > fst final then Inr None
     else search_char_map theTable character 0 (numElem - 1)))"

section \<open>Conversions of one character\<close>

text \<open>
  U+2029 is a line feed in some of the encodings if \<open>__CFMapsParagraphSeparator\<close> says so, which the
  conditional \<open>1 ? false : true\<close> sets to false.
\<close>

definition CFMapsParagraphSeparator :: bool where
  "CFMapsParagraphSeparator = (if (1 :: int) \<noteq> 0 then False else True)"

definition CFIsParagraphSeparator :: "unichar \<Rightarrow> bool" where
  "CFIsParagraphSeparator character \<longleftrightarrow> CFMapsParagraphSeparator \<and> 0x2029 = character"

definition CFToASCII :: "unichar \<Rightarrow> byte option cf" where
  "CFToASCII character =
     (if character < 0x80 then Inr (Some (ucast character))
      else if CFIsParagraphSeparator character then Inr (Some 0x0A)
      else Inr None)"

definition CFFromASCII :: "byte \<Rightarrow> unichar option cf" where
  "CFFromASCII b = (if b < 0x80 then Inr (Some (ucast b)) else Inr None)"

definition CFToISOLatin1 :: "unichar \<Rightarrow> byte option cf" where
  "CFToISOLatin1 character =
     (if character \<le> 0xFF then Inr (Some (ucast character))
      else if CFIsParagraphSeparator character then Inr (Some 0x0A)
      else Inr None)"

definition CFFromISOLatin1 :: "byte \<Rightarrow> unichar option cf" where
  "CFFromISOLatin1 b = Inr (Some (ucast b))"

definition CFToMacRoman :: "unichar \<Rightarrow> byte option cf" where
  "CFToMacRoman character =
     (if character < 0x80 then Inr (Some (ucast character))
      else CFStringEncodingUnicodeTo8BitEncoding macRoman_from_uni 129 character)"

definition CFFromMacRoman :: "byte \<Rightarrow> unichar option cf" where
  "CFFromMacRoman b =
     (if b < 0x80 then Inr (Some (ucast b))
      else ebind (rd macRoman_to_uni (unat (b - 0x80))) (\<lambda>c. Inr (Some c)))"

definition CFToWinLatin1 :: "unichar \<Rightarrow> byte option cf" where
  "CFToWinLatin1 character =
     (if character < 0x80 \<or> character > 0x9F \<and> character \<le> 0x00FF
      then Inr (Some (ucast character))
      else CFStringEncodingUnicodeTo8BitEncoding cp1252_from_uni 27 character)"

definition CFFromWinLatin1 :: "byte \<Rightarrow> unichar option cf" where
  "CFFromWinLatin1 b =
     ebind (if b < 0x80 \<or> b > 0x9F then Inr (ucast b) else rd cp1252_to_uni (unat (b - 0x80)))
       (\<lambda>character. Inr (if character \<noteq> 0xFFFD then Some character else None))"

definition CFToNextStepLatin :: "unichar \<Rightarrow> byte option cf" where
  "CFToNextStepLatin character =
     (if character < 0x80 then Inr (Some (ucast character))
      else if CFIsParagraphSeparator character then Inr (Some 0x0A)
      else CFStringEncodingUnicodeTo8BitEncoding nextstep_from_tab 127 character)"

definition CFFromNextStepLatin :: "byte \<Rightarrow> unichar option cf" where
  "CFFromNextStepLatin b =
     ebind (if b < 0x80 then Inr (ucast b) else rd NSToPrecompUnicodeTable (unat (b - 0x80)))
       (\<lambda>character. Inr (if character \<noteq> 0xFFFD then Some character else None))"

section \<open>Composition\<close>

text \<open>
  The accents an encoding may compose, as bits of three words, and the composition: the tables behind
  \<open>CFUniCharIsMemberOf\<close> for the non-base characters and behind \<open>CFUniCharPrecomposeCharacter\<close> are
  parameters. The result is the composed character, or U+FFFD when nothing was composed, and the units
  looked at.
\<close>

definition CFLatin1CombiningCharBitmap :: "utf32 list" where
  "CFLatin1CombiningCharBitmap = [0xFBB94010, 0x01800000, 0x0000000]"

definition CFStringEncodingIsValidCombiningCharacterForLatin1 :: "unichar \<Rightarrow> bool" where
  "CFStringEncodingIsValidCombiningCharacterForLatin1 character \<longleftrightarrow>
     character \<ge> 0x300 \<and> character < 0x360 \<and>
     CFLatin1CombiningCharBitmap ! unat ((character - 0x300) div 32)
       AND push_bit (31 - unat ((character - 0x300) mod 32)) 1 \<noteq> 0"

record latin_env = uni_env +
  non_base :: "utf32 \<Rightarrow> bool"
  precomposition :: "utf32 \<Rightarrow> utf32 \<Rightarrow> utf32"

definition is_surrogate :: "utf32 \<Rightarrow> bool" where
  "is_surrogate ch \<longleftrightarrow> 0xD800 \<le> ch \<and> ch \<le> 0xDBFF \<or> 0xDC00 \<le> ch \<and> ch \<le> 0xDFFF"

function precompose_loop ::
  "latin_env \<Rightarrow> unichar list \<Rightarrow> nat \<Rightarrow> nat \<Rightarrow> nat \<Rightarrow> utf32 \<Rightarrow> (utf32 \<times> nat) cf" where
  "precompose_loop env characters src numChars usedCharLen ch =
     (if usedCharLen < numChars then
        ebind (rd characters (src + usedCharLen)) (\<lambda>c.
        let nextCh = ucast c in
        if is_surrogate nextCh then Inr (ch, usedCharLen)
        else if non_base env nextCh \<and> precomposition env ch nextCh \<noteq> 0xFFFD then
          if precomposition env ch nextCh > 0xFFFF then Inr (ch, usedCharLen)
          else precompose_loop env characters src numChars (usedCharLen + 1)
                 (precomposition env ch nextCh)
        else Inr (ch, usedCharLen))
      else Inr (ch, usedCharLen))"
  by pat_completeness auto
termination
  by (relation "measure (\<lambda>(e, cs, f, n, u, c). n - u)") auto

declare precompose_loop.simps [simp del]

definition CFStringEncodingPrecomposeLatinCharacter ::
  "latin_env \<Rightarrow> unichar list \<Rightarrow> nat \<Rightarrow> nat \<Rightarrow> (unichar \<times> nat) cf" where
  "CFStringEncodingPrecomposeLatinCharacter env characters src numChars =
     (if numChars > 0 then
        ebind (rd characters src) (\<lambda>c.
        if is_surrogate (ucast c) then Inr (c, 1)
        else
          ebind (precompose_loop env characters src numChars 1 (ucast c)) (\<lambda>(ch, usedCharLen).
          Inr (if usedCharLen > 1 then ucast ch else 0xFFFD, usedCharLen)))
      else Inr (0xFFFD, 0))"

text \<open>
  \<open>__CFToISOLatin1Precompose\<close> and its three copies for the other encodings: the units used (0: nothing
  was composed that the encoding has) and the buffer, which gets one byte.
\<close>

definition to_bytes_precompose ::
  "(unichar \<Rightarrow> byte option cf) \<Rightarrow> latin_env \<Rightarrow> unichar list \<Rightarrow> nat \<Rightarrow> nat \<Rightarrow> byte list \<Rightarrow> nat \<Rightarrow> nat
   \<Rightarrow> (nat \<times> byte list) cf" where
  "to_bytes_precompose toBytes env characters src numChars bytes off maxByteLen =
     ebind (CFStringEncodingPrecomposeLatinCharacter env characters src numChars)
       (\<lambda>(composed, usedCharLen).
     ebind (toBytes composed) (\<lambda>r.
     case r of
       Some b \<Rightarrow>
         if b \<noteq> 0 \<and> usedCharLen > 1
         then ebind (if maxByteLen \<noteq> 0 then wr bytes off b else Inr bytes) (\<lambda>bytes.
              Inr (usedCharLen, bytes))
         else Inr (0, bytes)
     | None \<Rightarrow> Inr (0, bytes)))"

definition CFToISOLatin1Precompose ::
  "latin_env \<Rightarrow> unichar list \<Rightarrow> nat \<Rightarrow> nat \<Rightarrow> byte list \<Rightarrow> nat \<Rightarrow> nat \<Rightarrow> (nat \<times> byte list) cf" where
  "CFToISOLatin1Precompose = to_bytes_precompose CFToISOLatin1"

definition CFToMacRomanPrecompose ::
  "latin_env \<Rightarrow> unichar list \<Rightarrow> nat \<Rightarrow> nat \<Rightarrow> byte list \<Rightarrow> nat \<Rightarrow> nat \<Rightarrow> (nat \<times> byte list) cf" where
  "CFToMacRomanPrecompose = to_bytes_precompose CFToMacRoman"

definition CFToWinLatin1Precompose ::
  "latin_env \<Rightarrow> unichar list \<Rightarrow> nat \<Rightarrow> nat \<Rightarrow> byte list \<Rightarrow> nat \<Rightarrow> nat \<Rightarrow> (nat \<times> byte list) cf" where
  "CFToWinLatin1Precompose = to_bytes_precompose CFToWinLatin1"

definition CFToNextStepLatinPrecompose ::
  "latin_env \<Rightarrow> unichar list \<Rightarrow> nat \<Rightarrow> nat \<Rightarrow> byte list \<Rightarrow> nat \<Rightarrow> nat \<Rightarrow> (nat \<times> byte list) cf" where
  "CFToNextStepLatinPrecompose = to_bytes_precompose CFToNextStepLatin"

section \<open>Conversions of a text\<close>

text \<open>
  The wrappers for encodings of the class \<open>kCFStringEncodingConverterCheapEightBit\<close>; the input starts
  at \<open>src\<close> and the output at \<open>off\<close>. \<open>convert_units\<close> is the loop both directions share.
\<close>

fun convert_units ::
  "('a \<Rightarrow> 'b option cf) \<Rightarrow> 'a list \<Rightarrow> nat \<Rightarrow> 'b list \<Rightarrow> nat \<Rightarrow> bool \<Rightarrow> nat \<Rightarrow> nat \<Rightarrow> (nat \<times> 'b list) cf"
where
  "convert_units conv input src buf off write processed 0 = Inr (processed, buf)"
| "convert_units conv input src buf off write processed (Suc n) =
     ebind (rd input (src + processed)) (\<lambda>x.
     ebind (conv x) (\<lambda>r.
     case r of
       None \<Rightarrow> Inr (processed, buf)
     | Some y \<Rightarrow>
         ebind (if write then wr buf (off + processed) y else Inr buf) (\<lambda>buf.
         convert_units conv input src buf off write (processed + 1) n)))"

definition CFToBytesCheapEightBitWrapper ::
  "(unichar \<Rightarrow> byte option cf) \<Rightarrow> unichar list \<Rightarrow> nat \<Rightarrow> nat \<Rightarrow> byte list \<Rightarrow> nat \<Rightarrow> nat
   \<Rightarrow> (nat \<times> byte list) cf" where
  "CFToBytesCheapEightBitWrapper toBytes characters src numChars bytes off maxByteLen =
     (let len = (if maxByteLen \<noteq> 0 \<and> maxByteLen < numChars then maxByteLen else numChars)
      in convert_units toBytes characters src bytes off (maxByteLen \<noteq> 0) 0 len)"

definition CFToUnicodeCheapEightBitWrapper ::
  "(byte \<Rightarrow> unichar option cf) \<Rightarrow> byte list \<Rightarrow> nat \<Rightarrow> nat \<Rightarrow> unichar list \<Rightarrow> nat \<Rightarrow> nat
   \<Rightarrow> (nat \<times> unichar list) cf" where
  "CFToUnicodeCheapEightBitWrapper toUnicode bytes src numBytes characters off maxCharLen =
     (let len = (if maxCharLen \<noteq> 0 \<and> maxCharLen < numBytes then maxCharLen else numBytes)
      in convert_units toUnicode bytes src characters off (maxCharLen \<noteq> 0) 0 len)"

text \<open>
  The wrapper for canonical forms. The units of a decomposition are written one by one; the function
  returns in the middle of them when the room ends, having counted the characters before. It does so at
  once when it should only count (\<open>maxCharLen = 0\<close>).
\<close>

fun put_canonical ::
  "utf32 list \<Rightarrow> unichar list \<Rightarrow> nat \<Rightarrow> nat \<Rightarrow> nat \<Rightarrow> (unichar list \<times> (nat \<times> nat) option) cf" where
  "put_canonical [] buf characters maxCharLen used = Inr (buf, Some (characters, used))"
| "put_canonical (c # charBuffer) buf characters maxCharLen used =
     (if c > 0xFFFF then
        if used + 2 > maxCharLen then Inr (buf, None)
        else if maxCharLen \<noteq> 0 then
          let c = c - 0x10000 in
          ebind (wr buf characters (ucast (drop_bit 10 c) + 0xD800)) (\<lambda>buf.
          ebind (wr buf (characters + 1) (ucast (c AND 0x3FF) + 0xDC00)) (\<lambda>buf.
          put_canonical charBuffer buf (characters + 2) maxCharLen (used + 2)))
        else put_canonical charBuffer buf characters maxCharLen (used + 2)
      else
        if used + 1 > maxCharLen then Inr (buf, None)
        else ebind (wr buf characters (ucast c)) (\<lambda>buf.
             put_canonical charBuffer buf (characters + 1) maxCharLen (used + 1)))"

function canonical_loop ::
  "(byte \<Rightarrow> unichar option cf) \<Rightarrow> uni_env \<Rightarrow> byte list \<Rightarrow> nat \<Rightarrow> nat \<Rightarrow> nat \<Rightarrow> unichar list \<Rightarrow> nat
   \<Rightarrow> nat \<Rightarrow> nat \<Rightarrow> (nat \<times> nat \<times> unichar list) cf" where
  "canonical_loop toUnicode env bytes src numBytes maxCharLen buf characters processed used =
     (if processed < numBytes \<and> (maxCharLen = 0 \<or> used < maxCharLen) then
        ebind (rd bytes (src + processed)) (\<lambda>b.
        ebind (toUnicode b) (\<lambda>r.
        case r of
          None \<Rightarrow> Inr (processed, used, buf)
        | Some character \<Rightarrow>
            if CFUniCharIsDecomposableCharacter env (ucast character) then
              ebind (put_canonical (decomposition env (ucast character)) buf characters maxCharLen used)
                (\<lambda>(buf, r).
              case r of
                None \<Rightarrow> Inr (processed, used, buf)
              | Some (characters, used) \<Rightarrow>
                  canonical_loop toUnicode env bytes src numBytes maxCharLen buf characters
                    (processed + 1) used)
            else
              ebind (put_unit maxCharLen buf characters character) (\<lambda>(buf, characters).
              canonical_loop toUnicode env bytes src numBytes maxCharLen buf characters
                (processed + 1) (used + 1))))
      else Inr (processed, used, buf))"
  by pat_completeness auto
termination
  by (relation "measure (\<lambda>(t, e, bs, f, n, m, b, c, p, u). n - p)") auto

declare canonical_loop.simps [simp del]

definition CFToCanonicalUnicodeCheapEightBitWrapper ::
  "(byte \<Rightarrow> unichar option cf) \<Rightarrow> uni_env \<Rightarrow> byte list \<Rightarrow> nat \<Rightarrow> nat \<Rightarrow> unichar list \<Rightarrow> nat \<Rightarrow> nat
   \<Rightarrow> (nat \<times> nat \<times> unichar list) cf" where
  "CFToCanonicalUnicodeCheapEightBitWrapper toUnicode env bytes src numBytes characters off maxCharLen =
     canonical_loop toUnicode env bytes src numBytes maxCharLen characters off 0 0"

section \<open>The converters\<close>

text \<open>The records \<open>__CFConverterASCII\<close> to \<open>__CFConverterNextStepLatin\<close> of this class, by their names.\<close>

datatype eight_bit = ASCII | ISOLatin1 | MacRoman | WinLatin1 | NextStepLatin

fun to_byte :: "eight_bit \<Rightarrow> unichar \<Rightarrow> byte option cf" where
  "to_byte ASCII = CFToASCII"
| "to_byte ISOLatin1 = CFToISOLatin1"
| "to_byte MacRoman = CFToMacRoman"
| "to_byte WinLatin1 = CFToWinLatin1"
| "to_byte NextStepLatin = CFToNextStepLatin"

fun from_byte :: "eight_bit \<Rightarrow> byte \<Rightarrow> unichar option cf" where
  "from_byte ASCII = CFFromASCII"
| "from_byte ISOLatin1 = CFFromISOLatin1"
| "from_byte MacRoman = CFFromMacRoman"
| "from_byte WinLatin1 = CFFromWinLatin1"
| "from_byte NextStepLatin = CFFromNextStepLatin"

end
