(* ===== verification/CF_Converter.thy ===== *)
theory CF_Converter
  imports CF_EightBit
begin

text \<open>
  The front of the converters (\<open>CFStringEncodingConverter.c\<close>): the record made for a built-in encoding,
  the fallbacks for characters an encoding does not have, and the conversions in both directions with
  their result codes. A converter is chosen by its encoding; the encodings that ICU or the platform
  converts are outside the model. The loops go on as long as the converters and fallbacks they call
  make progress, so they are options, \<open>None\<close> if they do not end.
\<close>

unbundle bit_operations_syntax

section \<open>Constants\<close>

definition kCFStringEncodingSubstituteCombinings :: utf32 where
  "kCFStringEncodingSubstituteCombinings = push_bit 3 1"

definition kCFStringEncodingIgnoreCombinings :: utf32 where
  "kCFStringEncodingIgnoreCombinings = push_bit 5 1"

definition kCFStringEncodingConversionSuccess :: nat where "kCFStringEncodingConversionSuccess = 0"
definition kCFStringEncodingInvalidInputStream :: nat where "kCFStringEncodingInvalidInputStream = 1"
definition kCFStringEncodingInsufficientOutputBufferLength :: nat where
  "kCFStringEncodingInsufficientOutputBufferLength = 2"
definition kCFStringEncodingConverterUnavailable :: nat where
  "kCFStringEncodingConverterUnavailable = 3"

lemmas result_codes =
  kCFStringEncodingConversionSuccess_def kCFStringEncodingInvalidInputStream_def
  kCFStringEncodingInsufficientOutputBufferLength_def kCFStringEncodingConverterUnavailable_def

definition CFStringEncodingMaskToLossyByte :: "utf32 \<Rightarrow> byte" where
  "CFStringEncodingMaskToLossyByte flags = ucast (drop_bit 24 flags)"

section \<open>Fallbacks\<close>

definition isWhitespace :: "utf32 \<Rightarrow> bool" where
  "isWhitespace theChar \<longleftrightarrow>
     theChar = 0x0020 \<or> theChar = 0x0009 \<or> theChar = 0x00A0 \<or> theChar = 0x1680 \<or>
     theChar \<ge> 0x2000 \<and> theChar \<le> 0x200B \<or> theChar = 0x202F \<or> theChar = 0x205F \<or> theChar = 0x3000"

definition isNewline :: "utf32 \<Rightarrow> bool" where
  "isNewline theChar \<longleftrightarrow>
     theChar \<ge> 0x000A \<and> theChar \<le> 0x000D \<or> theChar = 0x0085 \<or> theChar = 0x2028 \<or> theChar = 0x2029"

definition isWhitespaceAndNewline :: "utf32 \<Rightarrow> bool" where
  "isWhitespaceAndNewline theChar \<longleftrightarrow> isWhitespace theChar \<or> isNewline theChar"

text \<open>
  What the fallbacks ask of the tables of \<open>CFUniChar.c\<close>, and \<open>CFUniCharDecompose\<close> with the format UTF-8
  (the flags, the text, the limit and the buffer; the units used, the bytes made and the buffer).
\<close>

record convert_env = latin_env +
  decomposable :: "unichar \<Rightarrow> bool"
  decompose_utf8 :: "bool \<Rightarrow> unichar list \<Rightarrow> nat \<Rightarrow> byte list \<Rightarrow> (nat \<times> nat \<times> byte list) cf"

text \<open>The entries of \<open>_toLossyASCIITable\<close>, from U+00A0 on, without the zeros that fill them up.\<close>

definition toLossyASCIITable :: "byte list list" where
  "toLossyASCIITable =
    [[0x20], [0x21], [0x63], [0x4C], [0x24], [0x59], [0x7C], [], [], [0x28, 0x43, 0x29], [0x61], [0x3C, 0x3C],
     [], [0x2D], [0x28, 0x52, 0x29], [], [], [0x2B, 0x2D], [0x32], [0x33], [], [], [], [], [], [0x31], [0x6F],
     [0x3E, 0x3E], [0x31, 0x2F, 0x34], [0x31, 0x2F, 0x32], [0x33, 0x2F, 0x34], [0x3F],
     [0x41], [0x41], [0x41], [0x41], [0x41], [0x41], [0x41, 0x45], [0x43], [0x45], [0x45], [0x45], [0x45],
     [0x49], [0x49], [0x49], [0x49], [0x54, 0x48], [0x4E], [0x4F], [0x4F], [0x4F], [0x4F], [0x4F], [0x58],
     [0x4F], [0x55], [0x55], [0x55], [0x55], [0x59], [0x74, 0x68], [0x73],
     [0x61], [0x61], [0x61], [0x61], [0x61], [0x61], [0x61, 0x65], [0x63], [0x65], [0x65], [0x65], [0x65],
     [0x69], [0x69], [0x69], [0x69], [0x54, 0x48], [0x6E], [0x6F], [0x6F], [0x6F], [0x6F], [0x6F], [0x2F],
     [0x6F], [0x75], [0x75], [0x75], [0x75], [0x79], [0x74, 0x68], [0x79]]"

text \<open>The bytes of an entry that fit, written from \<open>off\<close> on unless the bytes are only counted.\<close>

fun put_bytes :: "byte list \<Rightarrow> byte list \<Rightarrow> nat \<Rightarrow> byte list cf" where
  "put_bytes bytes [] off = Inr bytes"
| "put_bytes bytes (b # bs) off = ebind (wr bytes off b) (\<lambda>bytes. put_bytes bytes bs (off + 1))"

definition CFToASCIILatin1Fallback :: "unichar \<Rightarrow> byte list \<Rightarrow> nat \<Rightarrow> nat \<Rightarrow> (nat \<times> byte list) cf" where
  "CFToASCIILatin1Fallback character bytes off maxByteLen =
     (let limit = (if maxByteLen \<noteq> 0 \<and> maxByteLen < 4 then maxByteLen else 4) in
      ebind (rd toLossyASCIITable (unat character - 0xA0)) (\<lambda>losChars.
      let losChars = take limit losChars in
      ebind (if maxByteLen \<noteq> 0 then put_bytes bytes losChars off else Inr bytes) (\<lambda>bytes.
      Inr (length losChars, bytes))))"

type_synonym to_bytes =
  "unichar list \<Rightarrow> nat \<Rightarrow> nat \<Rightarrow> byte list \<Rightarrow> nat \<Rightarrow> nat \<Rightarrow> (nat \<times> nat \<times> byte list) cf"
type_synonym to_unicode =
  "byte list \<Rightarrow> nat \<Rightarrow> nat \<Rightarrow> unichar list \<Rightarrow> nat \<Rightarrow> nat \<Rightarrow> (nat \<times> nat \<times> unichar list) cf"
type_synonym to_bytes_fallback =
  "unichar list \<Rightarrow> nat \<Rightarrow> nat \<Rightarrow> byte list \<Rightarrow> nat \<Rightarrow> nat \<Rightarrow> (nat \<times> nat \<times> byte list) cf option"
type_synonym to_unicode_fallback =
  "byte list \<Rightarrow> nat \<Rightarrow> nat \<Rightarrow> unichar list \<Rightarrow> nat \<Rightarrow> nat \<Rightarrow> (nat \<times> nat \<times> unichar list) cf option"

definition put_fallback ::
  "byte list \<Rightarrow> nat \<Rightarrow> nat \<Rightarrow> byte \<Rightarrow> nat \<Rightarrow> nat \<Rightarrow> (nat \<times> nat \<times> byte list) cf" where
  "put_fallback bytes off maxByteLen b filledBytesLen processCharLen =
     ebind (if maxByteLen \<noteq> 0 then wr bytes off b else Inr bytes) (\<lambda>bytes.
     Inr (processCharLen, filledBytesLen, bytes))"

partial_function (option) CFDefaultToBytesFallbackProc :: "'z convert_env_scheme \<Rightarrow> to_bytes_fallback" where
  "CFDefaultToBytesFallbackProc env characters src numChars bytes off maxByteLen =
     (case rd characters src of
        Inl e \<Rightarrow> Some (Inl e)
      | Inr c \<Rightarrow>
          if c < 0xA0 then Some (put_fallback bytes off maxByteLen (ucast (c - 0x80)) 1 1)
          else if c < 0x100 then
            Some (ebind (CFToASCIILatin1Fallback c bytes off maxByteLen) (\<lambda>(used, bytes).
                  Inr (1, used, bytes)))
          else if c \<ge> 0xD800 \<and> c \<le> 0xDFFF then
            Some (ebind (if numChars > 1 \<and> c \<le> 0xDC00
                         then ebind (rd characters (src + 1)) (\<lambda>d. Inr (d \<ge> 0xDC00 \<and> d \<le> 0xDFFF))
                         else Inr False) (\<lambda>pair.
                  put_fallback bytes off maxByteLen 0x3F 1 (if pair then 2 else 1)))
          else if isWhitespace (ucast c) then Some (put_fallback bytes off maxByteLen 0x20 1 1)
          else if isWhitespaceAndNewline (ucast c) then Some (put_fallback bytes off maxByteLen 0x0A 1 1)
          else if c = 0x2026 then
            if maxByteLen = 0 then Some (put_fallback bytes off maxByteLen 0x3F 3 1)
            else if maxByteLen > 2 then
              Some (ebind (put_bytes bytes [0x2E, 0x2E, 0x2E] off) (\<lambda>bytes. Inr (1, 3, bytes)))
            else Some (put_fallback bytes off maxByteLen 0x3F 1 1)
          else if decomposable env c then
            (case rd (decomposition env (ucast c)) 0 of
               Inl e \<Rightarrow> Some (Inl e)
             | Inr d \<Rightarrow>
                 if d < 0x80 then Some (put_fallback bytes off maxByteLen (ucast d) 1 1)
                 else CFDefaultToBytesFallbackProc env [ucast d] 0 1 bytes off maxByteLen)
          else Some (put_fallback bytes off maxByteLen 0x3F 1 1))"

declare CFDefaultToBytesFallbackProc.simps [code]

definition CFDefaultToUnicodeFallbackProc :: to_unicode_fallback where
  "CFDefaultToUnicodeFallbackProc bytes src numBytes characters off maxCharLen =
     Some (ebind (if maxCharLen \<noteq> 0 then wr characters off 0x3F else Inr characters) (\<lambda>characters.
           Inr (1, 1, characters)))"

section \<open>Converters\<close>

text \<open>
  The record of an encoding (\<open>cd_\<close>, the fields of \<open>CFStringEncodingConverter\<close> that are consulted) and
  the converter made from it (\<open>cv_\<close>): \<open>cv_toBytes\<close> and \<open>cv_toUnicode\<close> are what the macros \<open>TO_BYTE\<close> and
  \<open>TO_UNICODE\<close> call, the flags first. A null function pointer is \<open>None\<close>.
\<close>

record converter =
  cd_maxBytesPerChar :: nat
  cd_toBytesLen :: "(unichar list \<Rightarrow> nat) option"
  cd_toUnicodeLen :: "(utf32 \<Rightarrow> byte list \<Rightarrow> nat cf) option"
  cd_toBytesFallback :: "to_bytes_fallback option"
  cd_toUnicodeFallback :: "to_unicode_fallback option"
  cd_toBytesPrecompose ::
    "(unichar list \<Rightarrow> nat \<Rightarrow> nat \<Rightarrow> byte list \<Rightarrow> nat \<Rightarrow> nat \<Rightarrow> (nat \<times> byte list) cf) option"
  cd_isValidCombiningChar :: "(unichar \<Rightarrow> bool) option"
  cv_toBytes :: "utf32 \<Rightarrow> to_bytes"
  cv_toUnicode :: "utf32 \<Rightarrow> to_unicode"
  cv_toBytesFallback :: "to_bytes_fallback option"
  cv_toUnicodeFallback :: "to_unicode_fallback option"

datatype builtin = UTF8 | EightBit eight_bit

definition CFStringEncodingConverterGetDefinition :: "utf32 \<Rightarrow> builtin option" where
  "CFStringEncodingConverterGetDefinition encoding =
     (if encoding = 0x08000100 then Some UTF8
      else if encoding = 0x0000 then Some (EightBit MacRoman)
      else if encoding = 0x0500 then Some (EightBit WinLatin1)
      else if encoding = 0x0600 then Some (EightBit ASCII)
      else if encoding = 0x0201 then Some (EightBit ISOLatin1)
      else if encoding = 0x0B01 then Some (EightBit NextStepLatin)
      else None)"

text \<open>A function on whole blocks, applied from a place in the middle of them.\<close>

definition from_place ::
  "('a list \<Rightarrow> 'b list \<Rightarrow> (nat \<times> nat \<times> 'b list) cf) \<Rightarrow> 'a list \<Rightarrow> nat \<Rightarrow> nat \<Rightarrow> 'b list \<Rightarrow> nat
   \<Rightarrow> (nat \<times> nat \<times> 'b list) cf" where
  "from_place f input src n buf off =
     ebind (f (take n (drop src input)) (drop off buf)) (\<lambda>(i, j, part). Inr (i, j, take off buf @ part))"

fun precompose_of ::
  "eight_bit \<Rightarrow> 'z convert_env_scheme
   \<Rightarrow> (unichar list \<Rightarrow> nat \<Rightarrow> nat \<Rightarrow> byte list \<Rightarrow> nat \<Rightarrow> nat \<Rightarrow> (nat \<times> byte list) cf) option" where
  "precompose_of ASCII env = None"
| "precompose_of ISOLatin1 env = Some (CFToISOLatin1Precompose (latin_env.truncate env))"
| "precompose_of MacRoman env = Some (CFToMacRomanPrecompose (latin_env.truncate env))"
| "precompose_of WinLatin1 env = Some (CFToWinLatin1Precompose (latin_env.truncate env))"
| "precompose_of NextStepLatin env = Some (CFToNextStepLatinPrecompose (latin_env.truncate env))"

definition combining_of :: "eight_bit \<Rightarrow> (unichar \<Rightarrow> bool) option" where
  "combining_of e = (if e = ASCII then None else Some CFStringEncodingIsValidCombiningCharacterForLatin1)"

definition is_canonical :: "utf32 \<Rightarrow> bool" where
  "is_canonical flags \<longleftrightarrow>
     flag_set flags (kCFStringEncodingUseCanonical OR kCFStringEncodingUseHFSPlusCanonical)"

definition counted_twice :: "(nat \<times> 'b) cf \<Rightarrow> (nat \<times> nat \<times> 'b) cf" where
  "counted_twice r = ebind r (\<lambda>(n, buf). Inr (n, n, buf))"

fun CFEncodingConverterFromDefinition :: "'z convert_env_scheme \<Rightarrow> builtin \<Rightarrow> converter" where
  "CFEncodingConverterFromDefinition env UTF8 =
     \<lparr>cd_maxBytesPerChar = 3,
      cd_toBytesLen = Some CFToUTF8Len,
      cd_toUnicodeLen = Some (CFFromUTF8Len (uni_env.truncate env)),
      cd_toBytesFallback = None, cd_toUnicodeFallback = None,
      cd_toBytesPrecompose = None, cd_isValidCombiningChar = None,
      cv_toBytes = (\<lambda>flags characters src n bytes off maxByteLen.
        from_place (\<lambda>cs bs. CFToUTF8 flags cs maxByteLen bs) characters src n bytes off),
      cv_toUnicode = (\<lambda>flags bytes src n characters off maxCharLen.
        from_place (\<lambda>bs cs. CFFromUTF8 (uni_env.truncate env) flags bs maxCharLen cs) bytes src n characters off),
      cv_toBytesFallback = Some (CFDefaultToBytesFallbackProc env),
      cv_toUnicodeFallback = Some CFDefaultToUnicodeFallbackProc\<rparr>"
| "CFEncodingConverterFromDefinition env (EightBit e) =
     \<lparr>cd_maxBytesPerChar = 1,
      cd_toBytesLen = None, cd_toUnicodeLen = None,
      cd_toBytesFallback = None, cd_toUnicodeFallback = None,
      cd_toBytesPrecompose = precompose_of e env, cd_isValidCombiningChar = combining_of e,
      cv_toBytes = (\<lambda>flags characters src n bytes off maxByteLen.
        counted_twice (CFToBytesCheapEightBitWrapper (to_byte e) characters src n bytes off maxByteLen)),
      cv_toUnicode = (\<lambda>flags bytes src n characters off maxCharLen.
        if is_canonical flags
        then CFToCanonicalUnicodeCheapEightBitWrapper (from_byte e) (uni_env.truncate env)
               bytes src n characters off maxCharLen
        else counted_twice
               (CFToUnicodeCheapEightBitWrapper (from_byte e) bytes src n characters off maxCharLen)),
      cv_toBytesFallback = Some (CFDefaultToBytesFallbackProc env),
      cv_toUnicodeFallback = Some CFDefaultToUnicodeFallbackProc\<rparr>"

text \<open>
  \<open>CFStringEncodingRegisterFallbackProcedures\<close>. Without a function it takes the one of the encoding's
  record, which is null in all the records here.
\<close>

definition CFStringEncodingRegisterFallbackProcedures ::
  "converter \<Rightarrow> to_bytes_fallback option \<Rightarrow> to_unicode_fallback option \<Rightarrow> converter" where
  "CFStringEncodingRegisterFallbackProcedures conv toBytes toUnicode =
     conv\<lparr>cv_toBytesFallback := (case toBytes of None \<Rightarrow> cd_toBytesFallback conv | Some f \<Rightarrow> Some f),
          cv_toUnicodeFallback := (case toUnicode of None \<Rightarrow> cd_toUnicodeFallback conv | Some f \<Rightarrow> Some f)\<rparr>"

text \<open>The calls through the pointers \<open>toBytesFallback\<close> and \<open>toUnicodeFallback\<close>.\<close>

definition to_byte_fallback :: "converter \<Rightarrow> to_bytes_fallback" where
  "to_byte_fallback conv =
     (case cv_toBytesFallback conv of
        None \<Rightarrow> (\<lambda>_ _ _ _ _ _. Some (Inl NullPointer))
      | Some f \<Rightarrow> f)"

definition to_unicode_fallback_call :: "converter \<Rightarrow> to_unicode_fallback" where
  "to_unicode_fallback_call conv =
     (case cv_toUnicodeFallback conv of
        None \<Rightarrow> (\<lambda>_ _ _ _ _ _. Some (Inl NullPointer))
      | Some f \<Rightarrow> f)"

section \<open>From bytes\<close>

text \<open>
  The result of a conversion: the code, the input used, the output made and the buffer. A round of a
  loop ends it (\<open>Stop\<close>) or goes on from a state (\<open>Go\<close>).
\<close>

datatype ('s, 'r) round = Go 's | Stop 'r

text \<open>\<open>lim\<close> less what is used, or 0, which stands for no limit.\<close>

definition room_left :: "nat \<Rightarrow> nat \<Rightarrow> nat" where
  "room_left lim used = (if lim \<noteq> 0 then lim - used else 0)"

definition unicode_filled ::
  "converter \<Rightarrow> utf32 \<Rightarrow> byte list \<Rightarrow> nat \<Rightarrow> nat \<Rightarrow> nat \<Rightarrow> bool cf" where
  "unicode_filled conv flags bytes usedLen maxCharLen filled =
     (if maxCharLen = 0 then Inr False
      else if maxCharLen = filled then Inr True
      else if is_canonical flags \<or> maxCharLen = filled + 1 then
        ebind (cv_toUnicode conv flags bytes usedLen (length bytes - usedLen) [] 0 0) (\<lambda>(n, _, _).
        Inr (n \<noteq> 0))
      else Inr False)"

definition bytes_to_unicode_round ::
  "converter \<Rightarrow> utf32 \<Rightarrow> byte list \<Rightarrow> nat \<Rightarrow> nat \<times> nat \<times> unichar list
   \<Rightarrow> (nat \<times> nat \<times> unichar list, nat \<times> nat \<times> nat \<times> unichar list) round cf option" where
  "bytes_to_unicode_round conv flags bytes maxCharLen = (\<lambda>(usedLen, theUsedCharLen, characters).
     let numBytes = length bytes in
     case cv_toUnicode conv flags bytes usedLen (numBytes - usedLen) characters theUsedCharLen
            (room_left maxCharLen theUsedCharLen) of
       Inl e \<Rightarrow> Some (Inl e)
     | Inr (n, localUsedCharLen, characters) \<Rightarrow>
         let usedLen = usedLen + n; filled = theUsedCharLen + localUsedCharLen in
         if usedLen < numBytes then
           case unicode_filled conv flags bytes usedLen maxCharLen filled of
             Inl e \<Rightarrow> Some (Inl e)
           | Inr True \<Rightarrow>
               Some (Inr (Stop (kCFStringEncodingInsufficientOutputBufferLength, usedLen, filled, characters)))
           | Inr False \<Rightarrow>
               if flag_set flags kCFStringEncodingAllowLossyConversion then
                 case to_unicode_fallback_call conv bytes usedLen (numBytes - usedLen) characters filled
                        (room_left maxCharLen filled) of
                   None \<Rightarrow> None
                 | Some (Inl e) \<Rightarrow> Some (Inl e)
                 | Some (Inr (n, localUsedCharLen, characters)) \<Rightarrow>
                     Some (Inr (Go (usedLen + n, filled + localUsedCharLen, characters)))
               else Some (Inr (Stop (kCFStringEncodingInvalidInputStream, usedLen, filled, characters)))
         else Some (Inr (Go (usedLen, filled, characters))))"

partial_function (option) bytes_to_unicode_loop ::
  "converter \<Rightarrow> utf32 \<Rightarrow> byte list \<Rightarrow> nat \<Rightarrow> nat \<times> nat \<times> unichar list
   \<Rightarrow> (nat \<times> nat \<times> nat \<times> unichar list) cf option" where
  "bytes_to_unicode_loop conv flags bytes maxCharLen s =
     (case s of (usedLen, theUsedCharLen, characters) \<Rightarrow>
      if usedLen < length bytes \<and> (maxCharLen = 0 \<or> theUsedCharLen < maxCharLen) then
        case bytes_to_unicode_round conv flags bytes maxCharLen s of
          None \<Rightarrow> None
        | Some (Inl e) \<Rightarrow> Some (Inl e)
        | Some (Inr (Stop r)) \<Rightarrow> Some (Inr r)
        | Some (Inr (Go s)) \<Rightarrow> bytes_to_unicode_loop conv flags bytes maxCharLen s
      else
        Some (Inr (if usedLen < length bytes \<and> maxCharLen \<noteq> 0
                   then kCFStringEncodingInsufficientOutputBufferLength
                   else kCFStringEncodingConversionSuccess, usedLen, theUsedCharLen, characters)))"

declare bytes_to_unicode_loop.simps [code]

text \<open>Without a converter nothing is used or made, and the caller's counters are not set.\<close>

definition CFStringEncodingBytesToUnicode ::
  "converter option \<Rightarrow> utf32 \<Rightarrow> byte list \<Rightarrow> nat \<Rightarrow> unichar list
   \<Rightarrow> (nat \<times> nat \<times> nat \<times> unichar list) cf option" where
  "CFStringEncodingBytesToUnicode converter flags bytes maxCharLen characters =
     (case converter of
        None \<Rightarrow> Some (Inr (kCFStringEncodingConverterUnavailable, 0, 0, characters))
      | Some conv \<Rightarrow> bytes_to_unicode_loop conv flags bytes maxCharLen (0, 0, characters))"

section \<open>To bytes\<close>

text \<open>
  The place \<open>bytes + theUsedByteLen\<close>. A pointer before the block is not formed: that is an access
  outside the block, unless the bytes are only counted and the pointer is not used.
\<close>

definition byte_place :: "nat \<Rightarrow> int \<Rightarrow> nat cf" where
  "byte_place maxByteLen t = (if t < 0 \<and> maxByteLen \<noteq> 0 then Inl OutOfBounds else Inr (nat t))"

definition byte_room :: "nat \<Rightarrow> int \<Rightarrow> nat" where
  "byte_room maxByteLen t = (if maxByteLen \<noteq> 0 then nat (int maxByteLen - t) else 0)"

definition bytes_filled ::
  "converter \<Rightarrow> utf32 \<Rightarrow> unichar list \<Rightarrow> nat \<Rightarrow> nat \<Rightarrow> int \<Rightarrow> bool cf" where
  "bytes_filled conv flags characters usedLen maxByteLen filled =
     (if maxByteLen = 0 then Inr False
      else if int maxByteLen = filled then Inr True
      else
        ebind (cv_toBytes conv flags characters usedLen (length characters - usedLen) [] 0 0) (\<lambda>(n, _, _).
        Inr (n \<noteq> 0)))"

text \<open>The loops that look for the base character before accents, and for the end of the accents.\<close>

fun skip_back :: "(unichar \<Rightarrow> bool) \<Rightarrow> unichar list \<Rightarrow> nat \<Rightarrow> nat cf" where
  "skip_back isValidCombiningChar characters 0 = Inl OutOfBounds"
| "skip_back isValidCombiningChar characters (Suc i) =
     ebind (rd characters i) (\<lambda>c.
     if isValidCombiningChar c then skip_back isValidCombiningChar characters i else Inr i)"

function skip_accents :: "(unichar \<Rightarrow> bool) \<Rightarrow> unichar list \<Rightarrow> nat \<Rightarrow> nat cf" where
  "skip_accents isValidCombiningChar characters i =
     ebind (rd characters (i + 1)) (\<lambda>c.
     if isValidCombiningChar c then skip_accents isValidCombiningChar characters (i + 1) else Inr (i + 1))"
  by pat_completeness auto
termination
  by (relation "measure (\<lambda>(v, cs, i). length cs - i)") (auto simp: rd_eq_Inr)

declare skip_accents.simps [simp del]

function skip_ignored :: "(unichar \<Rightarrow> bool) \<Rightarrow> unichar list \<Rightarrow> nat \<Rightarrow> nat" where
  "skip_ignored isValidCombiningChar characters i =
     (if i + 1 < length characters \<and> isValidCombiningChar (characters ! (i + 1))
      then skip_ignored isValidCombiningChar characters (i + 1) else i + 1)"
  by pat_completeness auto
termination
  by (relation "measure (\<lambda>(v, cs, i). length cs - i)") auto

declare skip_ignored.simps [simp del]

text \<open>The states are the characters used, the bytes made (which can get below zero) and the buffer.\<close>

type_synonym bytes_state = "nat \<times> int \<times> byte list"
type_synonym bytes_round = "(bytes_state, nat \<times> bytes_state) round cf option"

definition put_lossy_byte :: "byte list \<Rightarrow> nat \<Rightarrow> int \<Rightarrow> byte \<Rightarrow> byte list cf" where
  "put_lossy_byte bytes maxByteLen t b =
     (if maxByteLen \<noteq> 0 then ebind (byte_place maxByteLen t) (\<lambda>off. wr bytes off b) else Inr bytes)"

text \<open>One character goes through the fallback; \<open>t\<close> bytes have been made before.\<close>

definition fall_back ::
  "converter \<Rightarrow> unichar list \<Rightarrow> nat \<Rightarrow> bytes_state \<Rightarrow> bytes_round" where
  "fall_back conv characters maxByteLen = (\<lambda>(usedLen, t, bytes).
     case byte_place maxByteLen t of
       Inl e \<Rightarrow> Some (Inl e)
     | Inr off \<Rightarrow>
         (case to_byte_fallback conv characters usedLen (length characters - usedLen) bytes off
                 (byte_room maxByteLen t) of
            None \<Rightarrow> None
          | Some (Inl e) \<Rightarrow> Some (Inl e)
          | Some (Inr (n, l, bytes)) \<Rightarrow> Some (Inr (Go (usedLen + n, t + int l, bytes)))))"

definition substitute ::
  "converter \<Rightarrow> utf32 \<Rightarrow> unichar list \<Rightarrow> nat \<Rightarrow> bytes_state \<Rightarrow> bytes_round" where
  "substitute conv flags characters maxByteLen = (\<lambda>(usedLen, t, bytes).
     let lossyByte = CFStringEncodingMaskToLossyByte flags in
     if lossyByte \<noteq> 0 then
       (case put_lossy_byte bytes maxByteLen t lossyByte of
          Inl e \<Rightarrow> Some (Inl e)
        | Inr bytes \<Rightarrow> Some (Inr (Go (usedLen + 1, t + 1, bytes))))
     else fall_back conv characters maxByteLen (usedLen, t, bytes))"

text \<open>
  The characters after a full buffer are given to the fallback as long as it makes no bytes of them.
\<close>

function drain ::
  "converter \<Rightarrow> unichar list \<Rightarrow> nat \<Rightarrow> nat cf option" where
  "drain conv characters usedLen =
     (if usedLen < length characters then
        case to_byte_fallback conv characters usedLen (length characters - usedLen) [] 0 0 of
          None \<Rightarrow> None
        | Some (Inl e) \<Rightarrow> Some (Inl e)
        | Some (Inr (n, l, _)) \<Rightarrow>
            if n \<noteq> 0 \<and> l = 0 then drain conv characters (usedLen + n) else Some (Inr usedLen)
      else Some (Inr usedLen))"
  by pat_completeness auto
termination
  by (relation "measure (\<lambda>(c, cs, u). length cs - u)") auto

declare drain.simps [simp del]

definition drained ::
  "converter \<Rightarrow> utf32 \<Rightarrow> unichar list \<Rightarrow> nat \<Rightarrow> int \<Rightarrow> byte list
   \<Rightarrow> (nat \<times> bytes_state) cf option" where
  "drained conv flags characters usedLen t bytes =
     (let answer = (\<lambda>usedLen.
            (if usedLen < length characters then kCFStringEncodingInsufficientOutputBufferLength
             else kCFStringEncodingConversionSuccess, usedLen, t, bytes))
      in if flag_set flags kCFStringEncodingAllowLossyConversion \<and> CFStringEncodingMaskToLossyByte flags = 0
         then (case drain conv characters usedLen of
                 None \<Rightarrow> None
               | Some (Inl e) \<Rightarrow> Some (Inl e)
               | Some (Inr usedLen) \<Rightarrow> Some (Inr (answer usedLen)))
         else Some (Inr (answer usedLen)))"

text \<open>
  The branch for accents that may be composed with the character before them. That character's byte
  is taken back (with more than one byte per character, the bytes the converter counts for it); when
  nothing is composed, a lossy conversion replaces it with the accents, and an exact one ends.
\<close>

definition compose_round ::
  "converter \<Rightarrow> utf32 \<Rightarrow> unichar list \<Rightarrow> nat
   \<Rightarrow> (unichar list \<Rightarrow> nat \<Rightarrow> nat \<Rightarrow> byte list \<Rightarrow> nat \<Rightarrow> nat \<Rightarrow> (nat \<times> byte list) cf)
   \<Rightarrow> (unichar \<Rightarrow> bool) \<Rightarrow> nat \<Rightarrow> int \<Rightarrow> nat \<Rightarrow> byte list \<Rightarrow> bytes_round" where
  "compose_round conv flags characters maxByteLen toBytesPrecompose isValidCombiningChar
       usedLen t localUsedByteLen bytes =
     (let numChars = length characters in
      case ebind (skip_back isValidCombiningChar characters usedLen) (\<lambda>base.
           ebind (if cd_maxBytesPerChar conv > 1
                  then ebind (cv_toBytes conv flags characters base (usedLen - base) [] 0 0) (\<lambda>(_, l, _).
                       Inr (t + int localUsedByteLen - int l))
                  else Inr (t + int localUsedByteLen - 1)) (\<lambda>t.
           ebind (byte_place maxByteLen t) (\<lambda>off.
           ebind (toBytesPrecompose characters base (numChars - base) bytes off (byte_room maxByteLen t))
             (\<lambda>(n, bytes).
           Inr (base, t, n, bytes))))) of
        Inl e \<Rightarrow> Some (Inl e)
      | Inr (base, t, n, bytes) \<Rightarrow>
          if n > 0 then
            if base + n < numChars \<and> isValidCombiningChar (characters ! (base + n))
            then Some (Inr (Stop (kCFStringEncodingInvalidInputStream, base + n, t + 1, bytes)))
            else Some (Inr (Go (base + n, t + 1, bytes)))
          else if flag_set flags kCFStringEncodingAllowLossyConversion then
            let lossyByte = CFStringEncodingMaskToLossyByte flags in
            if lossyByte \<noteq> 0 then
              (case ebind (skip_accents isValidCombiningChar characters base) (\<lambda>usedLen.
                    ebind (put_lossy_byte bytes maxByteLen t lossyByte) (\<lambda>bytes.
                    Inr (Go (usedLen, t + 1, bytes)))) of
                 Inl e \<Rightarrow> Some (Inl e)
               | Inr r \<Rightarrow> Some (Inr r))
            else fall_back conv characters maxByteLen (base + 1, t, bytes)
          else Some (Inr (Stop (kCFStringEncodingInvalidInputStream, base, t, bytes))))"

text \<open>
  One round: what the converter takes, and then, when it stopped before the end of the text, what is
  done with the character it stopped at.
\<close>

definition unicode_to_bytes_round ::
  "converter \<Rightarrow> utf32
   \<Rightarrow> (unichar list \<Rightarrow> nat \<Rightarrow> nat \<Rightarrow> byte list \<Rightarrow> nat \<Rightarrow> nat \<Rightarrow> (nat \<times> byte list) cf) option
   \<Rightarrow> (unichar \<Rightarrow> bool) option \<Rightarrow> unichar list \<Rightarrow> nat \<Rightarrow> bytes_state \<Rightarrow> bytes_round" where
  "unicode_to_bytes_round conv flags toBytesPrecompose isValidCombiningChar characters maxByteLen =
     (\<lambda>(usedLen, t, bytes).
      let numChars = length characters in
      case ebind (byte_place maxByteLen t) (\<lambda>off.
           cv_toBytes conv flags characters usedLen (numChars - usedLen) bytes off (byte_room maxByteLen t)) of
        Inl e \<Rightarrow> Some (Inl e)
      | Inr (n, l, bytes) \<Rightarrow>
          let usedLen = usedLen + n; filled = t + int l in
          if \<not> usedLen < numChars then Some (Inr (Go (usedLen, filled, bytes)))
          else
            let combining = (case isValidCombiningChar of
                   None \<Rightarrow> False | Some valid \<Rightarrow> usedLen > 0 \<and> valid (characters ! usedLen))
            in case (if combining then toBytesPrecompose else None) of
                 Some precompose \<Rightarrow>
                   compose_round conv flags characters maxByteLen precompose (the isValidCombiningChar)
                     usedLen t l bytes
               | None \<Rightarrow>
                   (case bytes_filled conv flags characters usedLen maxByteLen filled of
                      Inl e \<Rightarrow> Some (Inl e)
                    | Inr True \<Rightarrow>
                        if combining
                        then Some (Inr (Stop (kCFStringEncodingInsufficientOutputBufferLength,
                               usedLen, filled, bytes)))
                        else (case drained conv flags characters usedLen filled bytes of
                                None \<Rightarrow> None
                              | Some (Inl e) \<Rightarrow> Some (Inl e)
                              | Some (Inr r) \<Rightarrow> Some (Inr (Stop r)))
                    | Inr False \<Rightarrow>
                        if combining then
                          if flag_set flags kCFStringEncodingIgnoreCombinings
                          then Some (Inr (Go (skip_ignored (the isValidCombiningChar) characters usedLen,
                                 filled, bytes)))
                          else substitute conv flags characters maxByteLen (usedLen, filled, bytes)
                        else if flag_set flags kCFStringEncodingAllowLossyConversion
                        then substitute conv flags characters maxByteLen (usedLen, filled, bytes)
                        else Some (Inr (Stop (kCFStringEncodingInvalidInputStream,
                               usedLen, filled, bytes)))))"

partial_function (option) unicode_to_bytes_loop ::
  "converter \<Rightarrow> utf32
   \<Rightarrow> (unichar list \<Rightarrow> nat \<Rightarrow> nat \<Rightarrow> byte list \<Rightarrow> nat \<Rightarrow> nat \<Rightarrow> (nat \<times> byte list) cf) option
   \<Rightarrow> (unichar \<Rightarrow> bool) option \<Rightarrow> unichar list \<Rightarrow> nat \<Rightarrow> bytes_state
   \<Rightarrow> (nat \<times> bytes_state) cf option" where
  "unicode_to_bytes_loop conv flags toBytesPrecompose isValidCombiningChar characters maxByteLen s =
     (case s of (usedLen, t, bytes) \<Rightarrow>
      if usedLen < length characters \<and> (maxByteLen = 0 \<or> t < int maxByteLen) then
        case unicode_to_bytes_round conv flags toBytesPrecompose isValidCombiningChar characters maxByteLen s of
          None \<Rightarrow> None
        | Some (Inl e) \<Rightarrow> Some (Inl e)
        | Some (Inr (Stop r)) \<Rightarrow> Some (Inr r)
        | Some (Inr (Go s)) \<Rightarrow>
            unicode_to_bytes_loop conv flags toBytesPrecompose isValidCombiningChar characters maxByteLen s
      else if usedLen < length characters \<and> maxByteLen \<noteq> 0
      then drained conv flags characters usedLen t bytes
      else Some (Inr (kCFStringEncodingConversionSuccess, usedLen, t, bytes)))"

declare unicode_to_bytes_loop.simps [code]

text \<open>The branch for UTF-8, which does not go through a converter and has no fallbacks.\<close>

definition surrogate_at :: "unichar list \<Rightarrow> nat \<Rightarrow> bool" where
  "surrogate_at characters i \<longleftrightarrow>
     (let c = characters ! i in
      c \<ge> 0xDC00 \<and> c \<le> 0xDFFF \<or>
      c \<ge> 0xD800 \<and> c \<le> 0xDBFF \<and>
        (length characters - i = 1 \<or> characters ! (i + 1) < 0xDC00 \<or> characters ! (i + 1) > 0xDFFF))"

definition utf8_answer :: "unichar list \<Rightarrow> nat \<Rightarrow> nat \<times> nat \<times> byte list \<Rightarrow> nat \<times> bytes_state" where
  "utf8_answer characters maxByteLen = (\<lambda>(convertedCharLen, usedLen, bytes).
     (if convertedCharLen = length characters then kCFStringEncodingConversionSuccess
      else if maxByteLen > 0 \<and> int maxByteLen - int usedLen < 10 then
        if surrogate_at characters convertedCharLen then kCFStringEncodingInvalidInputStream
        else kCFStringEncodingInsufficientOutputBufferLength
      else kCFStringEncodingInvalidInputStream, convertedCharLen, int usedLen, bytes))"

definition unicode_to_utf8 ::
  "'z convert_env_scheme \<Rightarrow> utf32 \<Rightarrow> unichar list \<Rightarrow> nat \<Rightarrow> byte list \<Rightarrow> (nat \<times> bytes_state) cf" where
  "unicode_to_utf8 env flags characters maxByteLen bytes =
     ebind (if flag_set flags kCFStringEncodingUseCanonical \<or> flag_set flags kCFStringEncodingUseHFSPlusCanonical
            then decompose_utf8 env (flag_set flags kCFStringEncodingUseHFSPlusCanonical)
                   characters maxByteLen bytes
            else CFToUTF8 0 characters maxByteLen bytes) (\<lambda>r.
     Inr (utf8_answer characters maxByteLen r))"

definition kCFStringEncodingComposeCombinings :: utf32 where
  "kCFStringEncodingComposeCombinings = push_bit 4 1"

text \<open>
  Whether accents are composed, looked for only, or left alone, and the flags after that choice.
\<close>

definition unicode_to_bytes ::
  "converter \<Rightarrow> utf32 \<Rightarrow> unichar list \<Rightarrow> nat \<Rightarrow> byte list \<Rightarrow> (nat \<times> bytes_state) cf option" where
  "unicode_to_bytes conv flags characters maxByteLen bytes =
     (if flag_set flags kCFStringEncodingSubstituteCombinings then
        unicode_to_bytes_loop conv flags None
          (if flag_set flags kCFStringEncodingAllowLossyConversion then None else cd_isValidCombiningChar conv)
          characters maxByteLen (0, 0, bytes)
      else if flag_set flags kCFStringEncodingIgnoreCombinings then
        unicode_to_bytes_loop conv flags None (cd_isValidCombiningChar conv) characters maxByteLen (0, 0, bytes)
      else
        unicode_to_bytes_loop conv (flags OR kCFStringEncodingComposeCombinings) (cd_toBytesPrecompose conv)
          (cd_isValidCombiningChar conv) characters maxByteLen (0, 0, bytes))"

definition CFStringEncodingUnicodeToBytes ::
  "'z convert_env_scheme \<Rightarrow> builtin option \<Rightarrow> converter option \<Rightarrow> utf32 \<Rightarrow> unichar list \<Rightarrow> nat \<Rightarrow> byte list
   \<Rightarrow> (nat \<times> bytes_state) cf option" where
  "CFStringEncodingUnicodeToBytes env encoding converter flags characters maxByteLen bytes =
     (if encoding = Some UTF8 then Some (unicode_to_utf8 env flags characters maxByteLen bytes)
      else
        case converter of
          None \<Rightarrow> Some (Inr (kCFStringEncodingConverterUnavailable, 0, 0, bytes))
        | Some conv \<Rightarrow> unicode_to_bytes conv flags characters maxByteLen bytes)"

section \<open>Lengths\<close>

text \<open>
  The loop of \<open>CFStringEncodingCharLengthForBytes\<close> for a converter that cannot count, and the two
  functions; 0 stands for failure as well.
\<close>

partial_function (option) char_length_loop ::
  "converter \<Rightarrow> utf32 \<Rightarrow> byte list \<Rightarrow> nat \<Rightarrow> nat \<Rightarrow> nat cf option" where
  "char_length_loop conv flags bytes start totalLength =
     (if start < length bytes then
        case cv_toUnicode conv flags bytes start (length bytes - start) [] 0 0 of
          Inl e \<Rightarrow> Some (Inl e)
        | Inr (n, l, _) \<Rightarrow>
            let start = start + n; totalLength = totalLength + l in
            if start < length bytes then
              if \<not> flag_set flags kCFStringEncodingAllowLossyConversion then Some (Inr 0)
              else
                case to_unicode_fallback_call conv bytes start (length bytes - start) [] 0 0 of
                  None \<Rightarrow> None
                | Some (Inl e) \<Rightarrow> Some (Inl e)
                | Some (Inr (n, l, _)) \<Rightarrow> char_length_loop conv flags bytes (start + n) (totalLength + l)
            else Some (Inr totalLength)
      else Some (Inr totalLength))"

declare char_length_loop.simps [code]

definition CFStringEncodingCharLengthForBytes ::
  "converter option \<Rightarrow> utf32 \<Rightarrow> byte list \<Rightarrow> nat cf option" where
  "CFStringEncodingCharLengthForBytes converter flags bytes =
     (case converter of
        None \<Rightarrow> Some (Inr 0)
      | Some conv \<Rightarrow>
          if cd_maxBytesPerChar conv = 1 then Some (Inr (length bytes))
          else
            case cd_toUnicodeLen conv of
              None \<Rightarrow> char_length_loop conv flags bytes 0 0
            | Some toUnicodeLen \<Rightarrow> Some (toUnicodeLen flags bytes))"

definition CFStringEncodingByteLengthForCharacters ::
  "'z convert_env_scheme \<Rightarrow> builtin option \<Rightarrow> converter option \<Rightarrow> utf32 \<Rightarrow> unichar list \<Rightarrow> int cf option" where
  "CFStringEncodingByteLengthForCharacters env encoding converter flags characters =
     (case converter of
        None \<Rightarrow> Some (Inr 0)
      | Some conv \<Rightarrow>
          if cd_maxBytesPerChar conv = 1 then Some (Inr (int (length characters)))
          else
            case cd_toBytesLen conv of
              Some toBytesLen \<Rightarrow> Some (Inr (int (toBytesLen characters)))
            | None \<Rightarrow>
                (case CFStringEncodingUnicodeToBytes env encoding converter flags characters 0 [] of
                   None \<Rightarrow> None
                 | Some (Inl e) \<Rightarrow> Some (Inl e)
                 | Some (Inr (result, _, usedByteLen, _)) \<Rightarrow>
                     Some (Inr (if result = kCFStringEncodingConversionSuccess then usedByteLen else 0))))"

end
