(* ===== verification/CF_EightBitSpec.thy ===== *)
theory CF_EightBitSpec
  imports CF_EightBit CF_UTF8Spec
begin

text \<open>
  The built-in encodings of one byte per character: the binary search finds what is in a table, each
  conversion is the partial inverse of the other, and the wrappers convert the longest prefix of a text
  that can be converted and fits.
\<close>

unbundle bit_operations_syntax

section \<open>The binary search\<close>

definition char_map :: "(unichar \<times> byte) list \<Rightarrow> bool" where
  "char_map t \<longleftrightarrow> t \<noteq> [] \<and> sorted_wrt (<) (map fst t)"

lemma char_map_order: "char_map t \<Longrightarrow> i < j \<Longrightarrow> j < length t \<Longrightarrow> fst (t ! i) < fst (t ! j)"
  by (auto simp: char_map_def sorted_wrt_iff_nth_less)

lemma char_map_lookup:
  assumes "char_map t"
  shows "map_of t ch = Some c \<longleftrightarrow> (\<exists>i<length t. t ! i = (ch, c))"
proof -
  have "distinct (map fst t)"
    using assms unfolding char_map_def by (metis strict_sorted_iff)
  then show ?thesis
    by (simp add: map_of_eq_Some_iff in_set_conv_nth)
qed

lemma search_char_map_correct:
  assumes "char_map t" "0 \<le> p" "q < int (length t)"
    "\<And>i. i < length t \<Longrightarrow> int i < p \<Longrightarrow> fst (t ! i) < ch"
    "\<And>i. i < length t \<Longrightarrow> q < int i \<Longrightarrow> ch < fst (t ! i)"
  shows "search_char_map t ch p q = Inr (map_of t ch)"
  using assms
proof (induction t ch p q rule: search_char_map.induct)
  case (1 t ch p q)
  show ?case
  proof (cases "p \<le> q")
    case False
    have "map_of t ch = None"
    proof (cases "map_of t ch")
      case (Some c)
      then obtain i where "i < length t" "fst (t ! i) = ch"
        using "1.prems"(1) by (auto simp: char_map_lookup)
      with "1.prems"(4,5) [of i] False show ?thesis
        by (cases "int i < p") auto
    qed
    then show ?thesis
      using False by (subst search_char_map.simps) simp
  next
    case True
    define d where "d = p + (q - p) div 2"
    have d: "p \<le> d" "d \<le> q"
      using True by (auto simp: d_def)
    obtain u c where uc: "t ! nat d = (u, c)"
      by (cases "t ! nat d")
    have read: "rd_at t d = Inr (u, c)"
      using d "1.prems"(2,3) uc by (simp add: rd_at_nat)
    have step: "search_char_map t ch p q =
        (if ch < u then search_char_map t ch p (d - 1)
         else if u < ch then search_char_map t ch (d + 1) q else Inr (Some c))"
      unfolding search_char_map.simps [of t ch p q] if_P [OF True] Let_def d_def [symmetric] read by simp
    have before: "fst (t ! i) \<le> u" if "i < length t" "int i \<le> d" for i
      using char_map_order [OF "1.prems"(1), of i "nat d"] that d "1.prems"(3) uc
      by (cases "int i = d") (auto simp: nat_less_iff zless_nat_eq_int_zless)
    have after: "u \<le> fst (t ! i)" if "i < length t" "d \<le> int i" for i
      using char_map_order [OF "1.prems"(1), of "nat d" i] that d "1.prems"(2) uc
      by (cases "int i = d") (auto simp: nat_less_iff)
    consider "ch < u" | "u < ch" | "ch = u"
      by (rule linorder_cases)
    then show ?thesis
    proof cases
      case 1
      have "search_char_map t ch p (d - 1) = Inr (map_of t ch)"
      proof (rule "1.IH"(1) [OF True d_def read refl 1])
        show "ch < fst (t ! i)" if "i < length t" "d - 1 < int i" for i
          using after [of i] that 1 by simp
      qed (use "1.prems" d 1 in auto)
      with 1 step show ?thesis
        by simp
    next
      case 2
      have "search_char_map t ch (d + 1) q = Inr (map_of t ch)"
      proof (rule "1.IH"(2) [OF True d_def read refl less_not_sym [OF 2] 2])
        show "fst (t ! i) < ch" if "i < length t" "int i < d + 1" for i
          using before [of i] that 2 by simp
      qed (use "1.prems" d 2 in auto)
      with 2 step less_not_sym [OF 2] show ?thesis
        by simp
    next
      case 3
      have "map_of t ch = Some c"
        unfolding char_map_lookup [OF "1.prems"(1)]
        using uc 3 d "1.prems"(2,3) by (intro exI [of _ "nat d"]) (simp add: nat_less_iff)
      with 3 step show ?thesis
        by simp
    qed
  qed
qed

lemma lookup_correct:
  assumes "char_map t" "n = int (length t)"
  shows "CFStringEncodingUnicodeTo8BitEncoding t n ch = Inr (map_of t ch)"
proof -
  have t: "0 < length t"
    using assms(1) by (simp add: char_map_def)
  have reads: "rd_at t 0 = Inr (t ! 0)" "rd_at t (n - 1) = Inr (t ! (length t - 1))"
    using t assms(2) nat_diff_distrib [of 1 n] by (simp_all add: rd_at_nat Suc_le_eq)
  have full: "search_char_map t ch 0 (n - 1) = Inr (map_of t ch)"
    using assms by (intro search_char_map_correct) auto
  have "map_of t ch = None" if out: "ch < fst (t ! 0) \<or> fst (t ! (length t - 1)) < ch"
  proof (cases "map_of t ch")
    case (Some c)
    then obtain i where i: "i < length t" "fst (t ! i) = ch"
      using assms(1) by (auto simp: char_map_lookup)
    have "fst (t ! 0) \<le> ch" "ch \<le> fst (t ! (length t - 1))"
      using char_map_order [OF assms(1), of 0 i] char_map_order [OF assms(1), of i "length t - 1"] i
      by (cases "i = 0"; cases "i = length t - 1"; force)+
    with out show ?thesis
      by auto
  qed
  with full show ?thesis
    by (auto simp: CFStringEncodingUnicodeTo8BitEncoding_def reads)
qed

section \<open>The tables\<close>

lemma char_mapI: "t \<noteq> [] \<Longrightarrow> successively (<) (map fst t) \<Longrightarrow> char_map t"
  by (simp add: char_map_def successively_conv_sorted_wrt)

lemma char_maps: "char_map macRoman_from_uni" "char_map cp1252_from_uni" "char_map nextstep_from_tab"
  by (rule char_mapI; simp add: macRoman_from_uni_def cp1252_from_uni_def nextstep_from_tab_def)+

lemma lengths:
 "length macRoman_from_uni = 129" "length cp1252_from_uni = 27" "length nextstep_from_tab = 127"
  by (simp_all add: macRoman_from_uni_def cp1252_from_uni_def nextstep_from_tab_def)

text \<open>
  A table from characters to bytes whose entries the table from bytes to characters turns back, and
  which has as many entries as that table has characters, is its inverse. The second entry for one
  byte of Mac Roman is left out by \<open>keep\<close>.
\<close>

lemma inverse_table:
  fixes from_uni :: "(unichar \<times> byte) list" and to_uni :: "unichar list"
  assumes "char_map from_uni"
    "list_all (\<lambda>(c, b). 0x80 \<le> unat b \<and> unat b - 0x80 < length to_uni \<and> to_uni ! (unat b - 0x80) = c
                \<and> c \<noteq> 0xFFFD) (filter keep from_uni)"
    "length (filter keep from_uni) = length (filter (\<lambda>c. c \<noteq> 0xFFFD) to_uni)"
    "k < length to_uni" "to_uni ! k \<noteq> 0xFFFD"
  shows "map_of from_uni (to_uni ! k) = Some (of_nat (0x80 + k))"
proof -
  let ?E = "set (filter keep from_uni)" and ?K = "{k. k < length to_uni \<and> to_uni ! k \<noteq> 0xFFFD}"
  let ?f = "\<lambda>(c :: unichar, b :: byte). unat b - 0x80"
  have E: "0x80 \<le> unat b \<and> unat b - 0x80 < length to_uni \<and> to_uni ! (unat b - 0x80) = c \<and> c \<noteq> 0xFFFD"
    if "(c, b) \<in> ?E" for c b
    using assms(2) that by (auto simp: list_all_iff)
  have "distinct (map fst from_uni)"
    using assms(1) unfolding char_map_def by (metis strict_sorted_iff)
  then have "distinct (filter keep from_uni)"
    by (simp add: distinct_map)
  then have "card ?E = length (filter keep from_uni)"
    by (rule distinct_card)
  also have "\<dots> = card ?K"
    unfolding assms(3) by (rule length_filter_conv_card)
  finally have card: "card ?E = card ?K" .
  have "inj_on ?f ?E"
  proof (rule inj_onI; clarify)
    fix c b d e
    assume in_E: "(c, b) \<in> ?E" "(d, e) \<in> ?E" and eq: "unat b - 0x80 = unat e - 0x80"
    have "unat b = unat e"
      using E [OF in_E(1)] E [OF in_E(2)] eq by linarith
    then show "c = d \<and> b = e"
      using E [OF in_E(1)] E [OF in_E(2)] by (auto simp: word_unat_eq_iff)
  qed
  then have "card (?f ` ?E) = card ?K"
    using card by (simp only: card_image)
  moreover have "?f ` ?E \<subseteq> ?K"
    using E by auto
  ultimately have "?f ` ?E = ?K"
    by (intro card_subset_eq) auto
  then have "k \<in> ?f ` ?E"
    using assms(4,5) by simp
  then obtain c b where cb: "(c, b) \<in> ?E" "unat b - 0x80 = k"
    by (elim imageE) (simp only: split_paired_all prod.case)
  have c: "c = to_uni ! k" and b: "unat b = 0x80 + k"
    using E [OF cb(1)] cb(2) by auto
  have "b = of_nat (0x80 + k)"
    unfolding b [symmetric] by simp
  moreover have "map_of from_uni c = Some b"
    using cb(1) \<open>distinct (map fst from_uni)\<close> by (intro map_of_is_SomeI) simp_all
  ultimately show ?thesis
    by (simp only: c)
qed

lemma to_from_tables:
  "list_all (\<lambda>(c, b). 0x80 \<le> unat b \<and> unat b - 0x80 < 128 \<and> macRoman_to_uni ! (unat b - 0x80) = c \<and>
     c \<noteq> 0xFFFD) (filter (\<lambda>(c, b). c \<noteq> 0x2126) macRoman_from_uni)"
  "list_all (\<lambda>(c, b). 0x80 \<le> unat b \<and> unat b - 0x80 < 32 \<and> cp1252_to_uni ! (unat b - 0x80) = c \<and>
     c \<noteq> 0xFFFD) (filter (\<lambda>_. True) cp1252_from_uni)"
  "list_all (\<lambda>(c, b). 0x80 \<le> unat b \<and> unat b - 0x80 < 128 \<and> NSToPrecompUnicodeTable ! (unat b - 0x80) = c \<and>
     c \<noteq> 0xFFFD) (filter (\<lambda>(c, b). c \<noteq> 0xFFFD) nextstep_from_tab)"
  by (simp_all add: macRoman_from_uni_def macRoman_to_uni_def cp1252_from_uni_def cp1252_to_uni_def
    nextstep_from_tab_def NSToPrecompUnicodeTable_def)

lemma to_uni_lengths [simp]: 
  "length macRoman_to_uni = 128" "length cp1252_to_uni = 32" "length NSToPrecompUnicodeTable = 128"
  by (simp_all add: macRoman_to_uni_def cp1252_to_uni_def NSToPrecompUnicodeTable_def)

lemma from_to_tables:
  "k < 128 \<Longrightarrow> map_of macRoman_from_uni (macRoman_to_uni ! k) = Some (of_nat (0x80 + k))"
  "k < 32 \<Longrightarrow> cp1252_to_uni ! k \<noteq> 0xFFFD \<Longrightarrow> map_of cp1252_from_uni (cp1252_to_uni ! k) = Some (of_nat (0x80 + k))"
  "k < 128 \<Longrightarrow> NSToPrecompUnicodeTable ! k \<noteq> 0xFFFD \<Longrightarrow> 
   map_of nextstep_from_tab (NSToPrecompUnicodeTable ! k) = Some (of_nat (0x80 + k))"
proof -
  have "0xFFFD \<notin> set macRoman_to_uni"
    by (simp add: macRoman_to_uni_def)
  then have "macRoman_to_uni ! k \<noteq> 0xFFFD" if "k < 128"
    using that nth_mem [of k macRoman_to_uni] by (metis to_uni_lengths(1))
  moreover have "length (filter (\<lambda>(c, b). c \<noteq> 0x2126) macRoman_from_uni) = length (filter (\<lambda>c. c \<noteq> 0xFFFD) macRoman_to_uni)"
    by (simp add: macRoman_from_uni_def macRoman_to_uni_def)
  ultimately show "k < 128 \<Longrightarrow> map_of macRoman_from_uni (macRoman_to_uni ! k) = Some (of_nat (0x80 + k))"
    using to_from_tables(1) by (intro inverse_table [OF char_maps(1)]) simp_all
  have "length (filter (\<lambda>_. True) cp1252_from_uni) = length (filter (\<lambda>c. c \<noteq> 0xFFFD) cp1252_to_uni)"
    by (simp add: cp1252_from_uni_def cp1252_to_uni_def)
  then show "k < 32 \<Longrightarrow> cp1252_to_uni ! k \<noteq> 0xFFFD \<Longrightarrow> map_of cp1252_from_uni (cp1252_to_uni ! k) = Some (of_nat (0x80 + k))"
    using to_from_tables(2) by (intro inverse_table [where keep = "\<lambda>_. True", OF char_maps(2)]) simp_all
  have "length (filter (\<lambda>(c, b). c \<noteq> 0xFFFD) nextstep_from_tab) = length (filter (\<lambda>c. c \<noteq> 0xFFFD) NSToPrecompUnicodeTable)"
    by (simp add: nextstep_from_tab_def NSToPrecompUnicodeTable_def)
  then show "k < 128 \<Longrightarrow> NSToPrecompUnicodeTable ! k \<noteq> 0xFFFD \<Longrightarrow> 
   map_of nextstep_from_tab (NSToPrecompUnicodeTable ! k) = Some (of_nat (0x80 + k))"
    using to_from_tables(3) by (intro inverse_table [OF char_maps(3)]) simp_all
qed

section \<open>One character\<close>

lemma to_byte_forms:
  "to_byte ASCII c = Inr (if c < 0x80 then Some (ucast c) else None)"
  "to_byte ISOLatin1 c = Inr (if c \<le> 0xFF then Some (ucast c) else None)"
  "to_byte MacRoman c = Inr (if c < 0x80 then Some (ucast c) else map_of macRoman_from_uni c)"
  "to_byte WinLatin1 c =
     Inr (if c < 0x80 \<or> c > 0x9F \<and> c \<le> 0xFF then Some (ucast c) else map_of cp1252_from_uni c)"
  "to_byte NextStepLatin c = Inr (if c < 0x80 then Some (ucast c) else map_of nextstep_from_tab c)"
  by (auto simp: CFToASCII_def CFToISOLatin1_def CFToMacRoman_def CFToWinLatin1_def
      CFToNextStepLatin_def CFIsParagraphSeparator_def CFMapsParagraphSeparator_def
      lookup_correct [OF char_maps(1)] lookup_correct [OF char_maps(2)] lookup_correct [OF char_maps(3)] lengths)

lemma unat_minus_80: "\<not> b < 0x80 \<Longrightarrow> unat (b - 0x80) = unat b - 0x80" for b :: byte
  by (simp add: unat_sub word_less_nat_alt word_le_nat_alt)

lemma high_index: "\<not> b < 0x80 \<Longrightarrow> unat (b - 0x80) < 128" "\<not> b < 0x80 \<Longrightarrow> \<not> b > 0x9F \<Longrightarrow> unat (b - 0x80) < 32" for b :: byte
  using unat8_bound [of b] by (simp_all add: unat_minus_80 word_less_nat_alt)

lemma unat_byte_char: "unat (ucast b :: unichar) = unat b" for b :: byte
  using unat8_bound [of b] by (simp add: unsigned_ucast_eq take_bit_nat_eq_self)

lemma ucast_char: "unat c < 256 \<Longrightarrow> unat (ucast c :: byte) = unat c" for c :: unichar
  by (simp add: unsigned_ucast_eq take_bit_nat_eq_self)

lemma from_byte_forms:
  "from_byte ASCII b = Inr (if b < 0x80 then Some (ucast b) else None)"
  "from_byte ISOLatin1 b = Inr (Some (ucast b))"
  "from_byte MacRoman b = Inr (Some (if b < 0x80 then ucast b else macRoman_to_uni ! (unat b - 0x80)))"
  "from_byte WinLatin1 b =
     Inr (if b < 0x80 \<or> b > 0x9F then Some (ucast b)
          else if cp1252_to_uni ! (unat b - 0x80) = 0xFFFD then None else Some (cp1252_to_uni ! (unat b - 0x80)))"
  "from_byte NextStepLatin b =
     Inr (if b < 0x80 then Some (ucast b)
          else if NSToPrecompUnicodeTable ! (unat b - 0x80) = 0xFFFD then None
          else Some (NSToPrecompUnicodeTable ! (unat b - 0x80)))"
proof -
  have neq: "(ucast b :: unichar) \<noteq> 0xFFFD"
  proof
    assume "(ucast b :: unichar) = 0xFFFD"
    then have "unat (ucast b :: unichar) = 0xFFFD"
      by simp
    then show False
      using unat8_bound [of b] by (simp add: unat_byte_char)
  qed
  show "from_byte ASCII b = Inr (if b < 0x80 then Some (ucast b) else None)"
    "from_byte ISOLatin1 b = Inr (Some (ucast b))"
    by (simp_all add: CFFromASCII_def CFFromISOLatin1_def)
  show "from_byte MacRoman b = Inr (Some (if b < 0x80 then ucast b else macRoman_to_uni ! (unat b - 0x80)))"
    using high_index(1) [of b] by (cases "b < 0x80") (simp_all add: CFFromMacRoman_def unat_minus_80)
  show "from_byte NextStepLatin b =
     Inr (if b < 0x80 then Some (ucast b)
          else if NSToPrecompUnicodeTable ! (unat b - 0x80) = 0xFFFD then None
          else Some (NSToPrecompUnicodeTable ! (unat b - 0x80)))"
    using high_index(1) [of b] neq by (cases "b < 0x80") (simp_all add: CFFromNextStepLatin_def unat_minus_80)
  show "from_byte WinLatin1 b =
     Inr (if b < 0x80 \<or> b > 0x9F then Some (ucast b)
          else if cp1252_to_uni ! (unat b - 0x80) = 0xFFFD then None else Some (cp1252_to_uni ! (unat b - 0x80)))"
    using high_index(2) [of b] neq
    by (cases "b < 0x80"; cases "b > 0x9F") (simp_all add: CFFromWinLatin1_def unat_minus_80)
qed

lemma ascii_bytes: "b < 0x80 \<and> ucast b = c \<longleftrightarrow> c < 0x80 \<and> ucast c = b" for b :: byte and c :: unichar
proof
  assume b: "b < 0x80 \<and> ucast b = c"
  then have c: "unat c = unat b"
    using unat_byte_char [of b] by simp
  with b show "c < 0x80 \<and> ucast c = b"
    using ucast_char [of c] by (simp add: word_less_nat_alt word_unat_eq_iff)
next
  assume c: "c < 0x80 \<and> ucast c = b"
  then have b: "unat b = unat c"
    using ucast_char [of c] by (simp add: word_less_nat_alt)
  with c show "b < 0x80 \<and> ucast b = c"
    using unat_byte_char [of b] by (simp add: word_less_nat_alt word_unat_eq_iff)
qed

lemma latin_bytes: "ucast b = c \<longleftrightarrow> c \<le> 0xFF \<and> ucast c = b" for b :: byte and c :: unichar
proof
  assume b: "ucast b = c"
  then have c: "unat c = unat b"
    using unat_byte_char [of b] by simp
  with b show "c \<le> 0xFF \<and> ucast c = b"
    using ucast_char [of c] unat8_bound [of b] by (simp add: word_le_nat_alt word_unat_eq_iff)
next
  assume c: "c \<le> 0xFF \<and> ucast c = b"
  then have b: "unat b = unat c"
    using ucast_char [of c] by (simp add: word_le_nat_alt)
  with c show "ucast b = c"
    using unat_byte_char [of b] by (simp add: word_le_nat_alt word_unat_eq_iff)
qed

lemma win_bytes:
  "(b < 0x80 \<or> b > 0x9F) \<and> ucast b = c \<longleftrightarrow> (c < 0x80 \<or> c > 0x9F \<and> c \<le> 0xFF) \<and> ucast c = b"
  for b :: byte and c :: unichar
proof -
  have "(b < 0x80 \<or> b > 0x9F) \<longleftrightarrow> (c < 0x80 \<or> c > 0x9F)" if "ucast b = c"
    using unat_byte_char [of b] that by (auto simp: word_less_nat_alt)
  then show ?thesis
    using latin_bytes [of b c] by (auto simp: word_le_nat_alt word_less_nat_alt)
qed

lemma high_bytes:
  fixes from_uni :: "(unichar \<times> byte) list" and direct ok :: "unichar \<Rightarrow> bool" and c :: unichar and b :: byte
  assumes "list_all (\<lambda>(c, b). 0x80 \<le> unat b \<and> unat b - 0x80 < length to_uni \<and> to_uni ! (unat b - 0x80) = c
                \<and> c \<noteq> 0xFFFD) (filter (\<lambda>(c, b). ok c) from_uni)"
    "\<And>k. k < length to_uni \<Longrightarrow> to_uni ! k \<noteq> 0xFFFD \<Longrightarrow> map_of from_uni (to_uni ! k) = Some (of_nat (0x80 + k))"
    "list_all (\<lambda>c. c \<noteq> 0xFFFD \<longrightarrow> \<not> direct c \<and> ok c) to_uni"
  shows "0x80 \<le> unat b \<and> unat b - 0x80 < length to_uni \<and> to_uni ! (unat b - 0x80) = c \<and> c \<noteq> 0xFFFD \<longleftrightarrow>
         \<not> direct c \<and> map_of from_uni c = Some b \<and> ok c" (is "?L \<longleftrightarrow> ?R")
proof
  assume L: ?L
  then have "map_of from_uni c = Some (of_nat (0x80 + (unat b - 0x80)))"
    using assms(2) [of "unat b - 0x80"] by auto
  with L have "map_of from_uni c = Some b"
    by simp
  with L show ?R
    using assms(3) nth_mem [of "unat b - 0x80" to_uni] by (auto simp: list_all_iff)
next
  assume ?R
  then have "(c, b) \<in> set (filter (\<lambda>(c, b). ok c) from_uni)"
    using map_of_SomeD [of from_uni c b] by simp
  then show ?L
    using assms(1) by (auto simp: list_all_iff)
qed

lemma table_characters:
  "list_all (\<lambda>c. c \<noteq> 0xFFFD \<longrightarrow> \<not> c < 0x80 \<and> c \<noteq> 0x2126) macRoman_to_uni"
  "list_all (\<lambda>c. c \<noteq> 0xFFFD \<longrightarrow> \<not> (c < 0x80 \<or> c > 0x9F \<and> c \<le> 0xFF) \<and> True) cp1252_to_uni"
  "list_all (\<lambda>c. c \<noteq> 0xFFFD \<longrightarrow> \<not> c < 0x80 \<and> c \<noteq> 0xFFFD) NSToPrecompUnicodeTable"
  "0xFFFD \<notin> set macRoman_to_uni" "map_of macRoman_from_uni 0xFFFD = None"  "map_of cp1252_from_uni 0xFFFD = None"
  by (simp_all add: macRoman_to_uni_def cp1252_to_uni_def NSToPrecompUnicodeTable_def macRoman_from_uni_def cp1252_from_uni_def)

lemma high_index_bytes: "0x80 \<le> unat b \<longleftrightarrow> \<not> b < 0x80" "unat b - 0x80 < 128" "unat b - 0x80 < 32 \<longleftrightarrow> \<not> b > 0x9F" for b :: byte
  using unat8_bound [of b] by (auto simp: word_less_nat_alt)

lemma mac_bytes:
  "\<not> b < 0x80 \<and> macRoman_to_uni ! (unat b - 0x80) = c \<longleftrightarrow>
   \<not> c < 0x80 \<and> map_of macRoman_from_uni c = Some b \<and> c \<noteq> 0x2126" for b :: byte and c :: unichar
proof -
  have "macRoman_to_uni ! (unat b - 0x80) \<noteq> 0xFFFD"
    using table_characters(4) nth_mem [of "unat b - 0x80" macRoman_to_uni] high_index_bytes(2) [of b]
    by (metis to_uni_lengths(1))
  then show ?thesis
    using high_bytes [of macRoman_to_uni "\<lambda>c. c \<noteq> 0x2126" macRoman_from_uni "\<lambda>c. c < 0x80" b c]
      to_from_tables(1) from_to_tables(1) table_characters(1)
    by (auto simp: high_index_bytes)
qed

lemma win_high_bytes:
  "\<not> b < 0x80 \<and> \<not> b > 0x9F \<and> cp1252_to_uni ! (unat b - 0x80) = c \<and> c \<noteq> 0xFFFD \<longleftrightarrow>
   \<not> (c < 0x80 \<or> c > 0x9F \<and> c \<le> 0xFF) \<and> map_of cp1252_from_uni c = Some b" for b :: byte and c :: unichar
proof -
  have "(\<lambda>_. True) = (\<lambda>(c :: unichar, b :: byte). True)"
    by auto
  then show ?thesis
    using high_bytes [of cp1252_to_uni "\<lambda>_. True" cp1252_from_uni "\<lambda>c. c < 0x80 \<or> c > 0x9F \<and> c \<le> 0xFF" b c]
      to_from_tables(2) from_to_tables(2) table_characters(2)
    by (simp add: high_index_bytes)
qed

lemma nextstep_bytes:
  "\<not> b < 0x80 \<and> NSToPrecompUnicodeTable ! (unat b - 0x80) = c \<and> c \<noteq> 0xFFFD \<longleftrightarrow>
   \<not> c < 0x80 \<and> map_of nextstep_from_tab c = Some b \<and> c \<noteq> 0xFFFD" for b :: byte and c :: unichar
  using high_bytes [of NSToPrecompUnicodeTable "\<lambda>c. c \<noteq> 0xFFFD" nextstep_from_tab "\<lambda>c. c < 0x80" b c]
      to_from_tables(3) from_to_tables(3) table_characters(3)
    by (simp add: high_index_bytes)

lemma conversions_inverse:
  "from_byte e b = Inr (Some c) \<longleftrightarrow>
   to_byte e c = Inr (Some b) \<and> \<not> (e = MacRoman \<and> c = 0x2126) \<and> \<not> (e = NextStepLatin \<and> c = 0xFFFD)"
proof (cases e)
  case ASCII
  then show ?thesis
    using ascii_bytes [of b c] by (auto simp: from_byte_forms to_byte_forms simp del: from_byte.simps to_byte.simps)
next
  case ISOLatin1
  then show ?thesis
    using latin_bytes [of b c] by (auto simp: from_byte_forms to_byte_forms simp del: from_byte.simps to_byte.simps)
next
  case MacRoman
  have "c \<noteq> 0x2126" if "c < 0x80"
    using that by (auto simp: word_less_nat_alt)
  with MacRoman show ?thesis
    using ascii_bytes [of b c] mac_bytes [of b c] by (auto simp: from_byte_forms to_byte_forms simp del: from_byte.simps to_byte.simps)
next
  case WinLatin1
  then show ?thesis
    using win_bytes [of b c] win_high_bytes [of b c] by (auto simp: from_byte_forms to_byte_forms simp del: from_byte.simps to_byte.simps)
next
  case NextStepLatin
  have "c \<noteq> 0xFFFD" if "c < 0x80"
    using that by (auto simp: word_less_nat_alt)
  with NextStepLatin show ?thesis
    using ascii_bytes [of b c] nextstep_bytes [of b c] by (auto simp: from_byte_forms to_byte_forms simp del: from_byte.simps to_byte.simps)
qed


text \<open>
  C24. Every conversion of one byte has its inverse, for all five encodings, all bytes and all
  characters: a byte becomes a character exactly when the character becomes this byte, but for the two
  characters that share the byte of another one, the ohm sign U+2126 in Mac Roman and U+FFFD in
  NEXTSTEP, which become a byte that is not converted back to them.
\<close>

theorem eight_bit_roundtrip:
  "from_byte e b = Inr (Some c) \<longleftrightarrow>
   to_byte e c = Inr (Some b) \<and> \<not> (e = MacRoman \<and> c = 0x2126) \<and> \<not> (e = NextStepLatin \<and> c = 0xFFFD)"
  by (rule conversions_inverse)

section \<open>A text\<close>

text \<open>What a conversion of single items makes of a list: it stops at the first item it cannot convert.\<close>

fun converted :: "('a \<Rightarrow> 'b option) \<Rightarrow> 'a list \<Rightarrow> 'b list" where
  "converted f [] = []"
| "converted f (x # xs) = (case f x of None \<Rightarrow> [] | Some y \<Rightarrow> y # converted f xs)"

lemma length_converted: "length (converted f xs) \<le> length xs"
  by (induction xs) (auto split: option.split)

lemma convert_units_converts:
  assumes "\<And>x. conv x = Inr (f x)" "drop (src + p) input = xs @ rest"
    "write \<longrightarrow> off + p + length xs \<le> length buf"
  shows "convert_units conv input src buf off write p (length xs) =
         Inr (p + length (converted f xs), if write then overlay buf (off + p) (converted f xs) else buf)"
proof -
  have conv: "conv = (\<lambda>x. Inr (f x))"
    by (rule ext) (rule assms(1))
  from assms(2,3) show ?thesis
  proof (induction xs arbitrary: p buf)
    case (Cons x xs)
    have at_p: "src + p < length input" "input ! (src + p) = x" "drop (src + (p + 1)) input = xs @ rest"
    proof -
      show less: "src + p < length input"
        using Cons.prems(1) by (cases "src + p < length input") simp_all
      show "input ! (src + p) = x" "drop (src + (p + 1)) input = xs @ rest"
        using Cons.prems(1) Cons_nth_drop_Suc [OF less] by simp_all
    qed
    show ?case
    proof (cases "f x")
      case None
      with at_p show ?thesis
        by (simp add: conv)
    next
      case (Some y)
      have "convert_units conv input src (if write then buf[off + p := y] else buf) off write (p + 1) (length xs) =
        Inr (p + 1 + length (converted f xs),
          if write then overlay (buf[off + p := y]) (off + (p + 1)) (converted f xs) else buf)"
        using Cons.IH [OF at_p(3)] Cons.prems(2) by (cases "write") simp_all
      moreover have "overlay (buf[off + p := y]) (off + (p + 1)) (converted f xs) = overlay buf (off + p) (y # converted f xs)" if "write"
        using overlay_append [of "off + p" "[y]" buf "converted f xs"] that Cons.prems(2)
        by (simp add: overlay_update)
      ultimately show ?thesis
        using at_p Some Cons.prems(2) by (cases "write") (simp_all add: conv)
    qed
  qed simp
qed

text \<open>Both wrappers take the longest prefix of the text that can be converted and fits.\<close>

lemma cheap_wrapper_converts:
  fixes input :: "'a list"
  assumes "\<And>x. conv x = Inr (f x)" "src + n \<le> length input" "room = 0 \<or> off + room \<le> length buf"
    "ys = converted f (take (if room = 0 then n else min room n) (drop src input))"
  shows "convert_units conv input src buf off (room \<noteq> 0) 0 (if room \<noteq> 0 \<and> room < n then room else n)
         = Inr (length ys, shown room buf off ys)"
proof -
  define xs where "xs = take (if room = 0 then n else min room n) (drop src input)"
  have len: "length xs = (if room \<noteq> 0 \<and> room < n then room else n)"
    using assms(2) by (auto simp: xs_def)
  have "drop (src + 0) input = xs @ drop (length xs) (drop src input)"
  proof -
    have "xs = take (length xs) (drop src input)"
      using assms(2) by (auto simp: xs_def)
    then have "drop src input = xs @ drop (length xs) (drop src input)"
      by (metis append_take_drop_id)
    then show ?thesis
      by simp
  qed
  from convert_units_converts [of conv f src 0 input xs, OF assms(1) this, of "room \<noteq> 0" off buf]
  show ?thesis
    using assms(3) len by (auto simp: shown_def assms(4) xs_def)
qed

lemma to_bytes_wrapper:
  assumes "\<And>c. toBytes c = Inr (f c)" "src + n \<le> length chars" "room = 0 \<or> off + room \<le> length buf"
    "ys = converted f (take (if room = 0 then n else min room n) (drop src chars))"
  shows "CFToBytesCheapEightBitWrapper toBytes chars src n buf off room = Inr (length ys, shown room buf off ys)"
  unfolding CFToBytesCheapEightBitWrapper_def Let_def by (rule cheap_wrapper_converts [OF assms])

lemma to_unicode_wrapper:
  assumes "\<And>c. toUnicode c = Inr (f c)" "src + n \<le> length bytes" "room = 0 \<or> off + room \<le> length buf"
    "ys = converted f (take (if room = 0 then n else min room n) (drop src bytes))"
  shows "CFToUnicodeCheapEightBitWrapper toUnicode bytes src n buf off room = Inr (length ys, shown room buf off ys)"
  unfolding CFToUnicodeCheapEightBitWrapper_def Let_def by (rule cheap_wrapper_converts [OF assms])

text \<open>The conversions never leave a table, so they are functions to options.\<close>

definition byte_of :: "eight_bit \<Rightarrow> unichar \<Rightarrow> byte option" where
  "byte_of e c = (case to_byte e c of Inr r \<Rightarrow> r | Inl _ \<Rightarrow> None)"

definition char_of_byte :: "eight_bit \<Rightarrow> byte \<Rightarrow> unichar option" where
  "char_of_byte e b = (case from_byte e b of Inr r \<Rightarrow> r | Inl _ \<Rightarrow> None)"

lemma conversions_total: "to_byte e c = Inr (byte_of e c)" "from_byte e b = Inr (char_of_byte e b)"
  by (cases e; simp add: byte_of_def to_byte_forms del: to_byte.simps)
    (cases e; simp add: char_of_byte_def from_byte_forms del: from_byte.simps)

end
