(* ===== verification/CF_ConverterSpec.thy ===== *)
theory CF_ConverterSpec
  imports CF_Converter CF_EightBitSpec
begin

text \<open>
  What the front of the converters does: exact and lossy conversions of texts without accents, the
  round trip for every built-in encoding, and the cases in which the treatment of accents, the reset of
  the fallbacks and the end of a buffer go wrong.
\<close>

unbundle bit_operations_syntax

section \<open>One round without accents\<close>

abbreviation eight_bit_converter :: "'z convert_env_scheme \<Rightarrow> eight_bit \<Rightarrow> converter" where
  "eight_bit_converter env e \<equiv> CFEncodingConverterFromDefinition env (EightBit e)"

lemma converted_stops:
  "length (converted f xs) < length xs \<Longrightarrow> f (xs ! length (converted f xs)) = None"
  by (induction xs) (auto split: option.splits)

lemma converted_nth:
  "i < length (converted f xs) \<Longrightarrow> f (xs ! i) = Some (converted f xs ! i)"
proof (induction xs arbitrary: i)
  case (Cons x xs)
  then show ?case
    by (cases i) (auto split: option.splits)
qed simp

lemma converted_none: "xs \<noteq> [] \<Longrightarrow> f (hd xs) = None \<Longrightarrow> converted f xs = []"
  by (cases xs) auto

lemma shown_room: "shown (room_left lim u) buf u ys = (if lim \<noteq> 0 \<and> u < lim then overlay buf u ys else buf)"
  by (auto simp: shown_def room_left_def)

lemma eight_bit_to_bytes:
  assumes "u \<le> length cs" "maxlen = 0 \<or> u < maxlen" "maxlen \<le> length bytes"
    "ys = converted (byte_of e) (take (if maxlen = 0 then length cs - u else min (maxlen - u) (length cs - u)) (drop u cs))"
  shows "cv_toBytes (eight_bit_converter env e) flags cs u (length cs - u) bytes u (byte_room maxlen (int u)) =
         Inr (length ys, length ys, shown maxlen bytes u ys)"
proof -
  have room: "byte_room maxlen (int u) = (if maxlen = 0 then 0 else maxlen - u)"
    by (auto simp: byte_room_def nat_diff_distrib)
  have "CFToBytesCheapEightBitWrapper (to_byte e) cs u (length cs - u) bytes u (byte_room maxlen (int u)) =
      Inr (length ys, shown (byte_room maxlen (int u)) bytes u ys)"
    using assms by (intro to_bytes_wrapper [where f = "byte_of e"]) (auto simp: conversions_total room)
  then show ?thesis
    using assms(2) by (auto simp: counted_twice_def room shown_def)
qed

lemma no_bytes_for_unmapped:
  assumes "u < length cs" "byte_of e (cs ! u) = None"
  shows "cv_toBytes (eight_bit_converter env e) flags cs u (length cs - u) [] 0 0 = Inr (0, 0, [])"
proof -
  have "converted (byte_of e) (take (length cs - u) (drop u cs)) = []"
    using assms by (intro converted_none) (auto simp: hd_drop_conv_nth)
  then have "CFToBytesCheapEightBitWrapper (to_byte e) cs u (length cs - u) [] 0 0 = Inr (0, [])"
    using to_bytes_wrapper [of "to_byte e" "byte_of e" u "length cs - u" cs 0 0 "[]" "[]"] assms(1)
    by (simp add: conversions_total shown_def)
  then show ?thesis
    by (simp add: counted_twice_def)
qed

definition no_accents :: "(unichar \<Rightarrow> bool) option \<Rightarrow> unichar list \<Rightarrow> bool" where
  "no_accents valid cs \<longleftrightarrow> (case valid of None \<Rightarrow> True | Some v \<Rightarrow> list_all (\<lambda>c. \<not> v c) cs)"

lemma round_no_accents:
  fixes cs :: "unichar list"
  assumes "no_accents valid cs" "u < length cs" "maxlen = 0 \<or> u < maxlen" "maxlen \<le> length bytes"
    "ys = converted (byte_of e) (take (if maxlen = 0 then length cs - u else min (maxlen - u) (length cs - u)) (drop u cs))"
    "k = u + length ys" "bytes' = shown maxlen bytes u ys"
  shows "unicode_to_bytes_round (eight_bit_converter env e) flags pre valid cs maxlen (u, int u, bytes) =
    (if k = length cs then Some (Inr (Go (k, int k, bytes')))
     else if maxlen \<noteq> 0 \<and> k = maxlen
     then (case drained (eight_bit_converter env e) flags cs k (int k) bytes' of
             None \<Rightarrow> None | Some (Inl e) \<Rightarrow> Some (Inl e) | Some (Inr r) \<Rightarrow> Some (Inr (Stop r)))
     else if flag_set flags kCFStringEncodingAllowLossyConversion
     then substitute (eight_bit_converter env e) flags cs maxlen (k, int k, bytes')
     else Some (Inr (Stop (kCFStringEncodingInvalidInputStream, k, int k, bytes'))))"
proof -
  let ?xs = "take (if maxlen = 0 then length cs - u else min (maxlen - u) (length cs - u)) (drop u cs)"
  have ys: "length ys \<le> length ?xs"
    unfolding assms(5) by (rule length_converted)
  then have k: "k \<le> length cs" "maxlen = 0 \<or> k \<le> maxlen"
    using assms(2,3,6) by (auto split: if_splits)
  have conv: "cv_toBytes (eight_bit_converter env e) flags cs u (length cs - u) bytes u (byte_room maxlen (int u)) =
         Inr (length ys, length ys, bytes')"
    unfolding assms(7) using assms(2-5) by (intro eight_bit_to_bytes) auto
  have accent: "(case valid of None \<Rightarrow> False | Some v \<Rightarrow> k > 0 \<and> v (cs ! k)) = False" if "k < length cs"
    using assms(1) that by (auto simp: no_accents_def list_all_length split: option.splits)
  have filled: "bytes_filled (eight_bit_converter env e) flags cs k maxlen (int k) = Inr (maxlen \<noteq> 0 \<and> k = maxlen)"
    if "k < length cs"
  proof (cases "maxlen \<noteq> 0 \<and> k \<noteq> maxlen")
    case True
    then have "length ys < length ?xs"
      using ys k that assms(6) by auto
    then have "byte_of e (?xs ! length ys) = None"
      unfolding assms(5) by (rule converted_stops)
    then have "byte_of e (cs ! k) = None"
      using \<open>length ys < length ?xs\<close> assms(2,6) by simp
    then show ?thesis
      using True that no_bytes_for_unmapped [of k cs e env flags]
      by (simp add: bytes_filled_def del: CFEncodingConverterFromDefinition.simps)
  qed (auto simp: bytes_filled_def)
  have call: "ebind (byte_place maxlen (int u)) (\<lambda>off. cv_toBytes (eight_bit_converter env e) flags cs u
      (length cs - u) bytes off (byte_room maxlen (int u))) = Inr (length ys, length ys, bytes')"
    using conv by (simp add: byte_place_def del: CFEncodingConverterFromDefinition.simps)
  have sum: "int u + int (length ys) = int k" "u + length ys = k"
    using assms(6) by simp_all
  show ?thesis
  proof (cases "k = length cs")
    case True
    then show ?thesis
      unfolding unicode_to_bytes_round_def Let_def prod.case call sum.case sum by simp
  next
    case False
    then have less: "k < length cs"
      using k by simp
    show ?thesis
      unfolding unicode_to_bytes_round_def Let_def prod.case call sum.case sum accent [OF less] filled [OF less]
      using False less by (simp del: CFEncodingConverterFromDefinition.simps)
  qed
qed

section \<open>Whole texts\<close>

text \<open>The characters within the limit, and the code for a text of which \<open>k\<close> characters were used.\<close>

definition within :: "nat \<Rightarrow> 'a list \<Rightarrow> 'a list" where
  "within maxlen xs = (if maxlen = 0 then xs else take maxlen xs)"

definition code_after :: "nat \<Rightarrow> nat \<Rightarrow> nat \<Rightarrow> nat" where
  "code_after maxlen n k =
     (if k = n then kCFStringEncodingConversionSuccess
      else if maxlen \<noteq> 0 \<and> k = maxlen then kCFStringEncodingInsufficientOutputBufferLength
      else kCFStringEncodingInvalidInputStream)"

lemma within_take: "take (if maxlen = 0 then length xs else min maxlen (length xs)) xs = within maxlen xs"
  by (auto simp: within_def min_def)

lemma within_Nil [simp]: "within maxlen [] = []"
  by (simp add: within_def)

lemma drained_exact:
  "\<not> flag_set flags kCFStringEncodingAllowLossyConversion \<or> CFStringEncodingMaskToLossyByte flags \<noteq> 0 \<Longrightarrow>
   drained conv flags cs u t bytes =
   Some (Inr (if u < length cs then kCFStringEncodingInsufficientOutputBufferLength
              else kCFStringEncodingConversionSuccess, u, t, bytes))"
  by (auto simp: drained_def Let_def)

lemma unicode_loop_steps:
  assumes "u < length cs" "maxlen = 0 \<or> t < int maxlen"
  shows "unicode_to_bytes_round conv flags pre valid cs maxlen (u, t, bytes) = Some (Inr (Go s)) \<Longrightarrow>
    unicode_to_bytes_loop conv flags pre valid cs maxlen (u, t, bytes) =
    unicode_to_bytes_loop conv flags pre valid cs maxlen s"
    and "unicode_to_bytes_round conv flags pre valid cs maxlen (u, t, bytes) = Some (Inr (Stop r)) \<Longrightarrow>
    unicode_to_bytes_loop conv flags pre valid cs maxlen (u, t, bytes) = Some (Inr r)"
    and "unicode_to_bytes_round conv flags pre valid cs maxlen (u, t, bytes) = Some (Inl err) \<Longrightarrow>
    unicode_to_bytes_loop conv flags pre valid cs maxlen (u, t, bytes) = Some (Inl err)"
  using assms by (simp_all add: unicode_to_bytes_loop.simps [of conv flags pre valid cs maxlen "(u, t, bytes)"])

lemma unicode_loop_end:
  "length cs \<le> u \<Longrightarrow>
   unicode_to_bytes_loop conv flags pre valid cs maxlen (u, t, bytes) =
   Some (Inr (kCFStringEncodingConversionSuccess, u, t, bytes))"
  "u < length cs \<Longrightarrow> maxlen \<noteq> 0 \<Longrightarrow> int maxlen \<le> t \<Longrightarrow>
   unicode_to_bytes_loop conv flags pre valid cs maxlen (u, t, bytes) = drained conv flags cs u t bytes"
  by (simp_all add: unicode_to_bytes_loop.simps [of conv flags pre valid cs maxlen "(u, t, bytes)"])

lemma exact_loop:
  assumes "no_accents valid cs" "maxlen \<le> length bytes" "\<not> flag_set flags kCFStringEncodingAllowLossyConversion"
    "ys = converted (byte_of e) (within maxlen cs)"
  shows "unicode_to_bytes_loop (eight_bit_converter env e) flags pre valid cs maxlen (0, 0, bytes) =
    Some (Inr (code_after maxlen (length cs) (length ys), length ys, int (length ys), shown maxlen bytes 0 ys))"
proof (cases "cs = []")
  case True
  then show ?thesis
    using assms(4)
    by (subst unicode_to_bytes_loop.simps) (simp add: code_after_def shown_def del: CFEncodingConverterFromDefinition.simps)
next
  case False
  have ys: "ys = converted (byte_of e) (take (if maxlen = 0 then length cs - 0 else min (maxlen - 0) (length cs - 0)) (drop 0 cs))"
    unfolding assms(4) by (auto simp: within_def min_def)
  have bound: "length ys \<le> length cs"
    using length_converted [of "byte_of e" "within maxlen cs"] assms(4) by (simp add: within_def split: if_splits)
  have len: "0 < length cs" "maxlen = 0 \<or> 0 < maxlen"
    using False by auto
  note round = round_no_accents [OF assms(1) len assms(2) ys refl refl, of env flags pre, unfolded of_nat_0 add_0]
  have steps: "maxlen = 0 \<or> 0 < int maxlen"
    by auto
  show ?thesis
  proof (cases "length ys = length cs")
    case True
    with round have "unicode_to_bytes_round (eight_bit_converter env e) flags pre valid cs maxlen (0, 0, bytes) =
        Some (Inr (Go (length ys, int (length ys), shown maxlen bytes 0 ys)))"
      by (simp del: CFEncodingConverterFromDefinition.simps)
    from unicode_loop_steps(1) [OF len(1) steps this] show ?thesis
      using True by (simp add: unicode_loop_end code_after_def del: CFEncodingConverterFromDefinition.simps)
  next
    case less: False
    with round assms(3) bound
    have "unicode_to_bytes_round (eight_bit_converter env e) flags pre valid cs maxlen (0, 0, bytes) =
        Some (Inr (Stop (code_after maxlen (length cs) (length ys), length ys, int (length ys), shown maxlen bytes 0 ys)))"
      by (simp add: code_after_def drained_exact del: CFEncodingConverterFromDefinition.simps)
    from unicode_loop_steps(2) [OF len(1) steps this] show ?thesis .
  qed
qed

definition with_substitute :: "('a \<Rightarrow> 'b option) \<Rightarrow> 'b \<Rightarrow> 'a \<Rightarrow> 'b" where
  "with_substitute f b x = (case f x of Some y \<Rightarrow> y | None \<Rightarrow> b)"

lemma converted_substitute:
  "k \<le> length (converted f xs) \<Longrightarrow> take k (converted f xs) = map (with_substitute f b) (take k xs)"
proof (induction xs arbitrary: k)
  case (Cons x xs)
  then show ?case
    by (cases k) (auto simp: with_substitute_def split: option.splits)
qed simp

lemma shown_continued:
  "maxlen = 0 \<or> u + length xs \<le> length buf \<Longrightarrow>
   shown maxlen (shown maxlen buf u xs) (u + length xs) ys = shown maxlen buf u (xs @ ys)"
  by (auto simp: shown_def overlay_append)

lemma substitute_byte:
  assumes "CFStringEncodingMaskToLossyByte flags = b" "b \<noteq> 0" "maxlen = 0 \<or> k < maxlen" "maxlen \<le> length buf"
  shows "substitute conv flags cs maxlen (k, int k, buf) = Some (Inr (Go (k + 1, int (k + 1), shown maxlen buf k [b])))"
proof -
  have "put_lossy_byte buf maxlen (int k) b = Inr (shown maxlen buf k [b])"
    using assms(3,4) by (auto simp: put_lossy_byte_def byte_place_def shown_def overlay_update)
  with assms(1,2) show ?thesis
    by (simp add: substitute_def)
qed

text \<open>One round of a lossy conversion takes characters up to \<open>k'\<close> and makes one byte of each.\<close>

lemma lossy_round:
  fixes cs :: "unichar list"
  assumes "no_accents valid cs" "u < length cs" "maxlen = 0 \<or> u < maxlen" "maxlen \<le> length bytes"
    "flag_set flags kCFStringEncodingAllowLossyConversion" "CFStringEncodingMaskToLossyByte flags = b" "b \<noteq> 0"
    "m = (if maxlen = 0 then length cs else min maxlen (length cs))"
    "g = with_substitute (byte_of e) b"
  obtains (full) k where "k < length cs" "k = m"
      "unicode_to_bytes_round (eight_bit_converter env e) flags pre valid cs maxlen (u, int u, bytes) =
         Some (Inr (Stop (kCFStringEncodingInsufficientOutputBufferLength, k, int k,
           shown maxlen bytes u (map g (drop u (take k cs))))))"
  | (more) k where "u < k" "k \<le> m"
      "unicode_to_bytes_round (eight_bit_converter env e) flags pre valid cs maxlen (u, int u, bytes) =
         Some (Inr (Go (k, int k, shown maxlen bytes u (map g (drop u (take k cs))))))"
proof -
  define xs where "xs = take (if maxlen = 0 then length cs - u else min (maxlen - u) (length cs - u)) (drop u cs)"
  define ys where "ys = converted (byte_of e) xs"
  define k where "k = u + length ys"
  have bound: "length ys \<le> length xs"
    unfolding ys_def by (rule length_converted)
  have m: "u + length xs = m"
    using assms(2,3,8) by (auto simp: xs_def)
  have prefix: "take i xs = drop u (take (u + i) cs)" if "i \<le> length xs" for i
    using that by (auto simp: xs_def drop_take)
  have ys_map: "ys = map g (drop u (take k cs))"
    using converted_substitute [of "length ys" "byte_of e" xs b] prefix [OF bound] by (simp add: ys_def assms(9) k_def)
  note round = round_no_accents [OF assms(1-4) ys_def [unfolded xs_def] k_def refl, of env flags pre]
  have km: "u \<le> k" "k \<le> m" "m \<le> length cs" "maxlen = 0 \<or> m \<le> maxlen" "u + length ys = k"
    using bound m assms(8) by (auto simp: k_def)
  consider "k = length cs" | "k < length cs" "maxlen \<noteq> 0" "k = maxlen" | "k < length cs" "\<not> (maxlen \<noteq> 0 \<and> k = maxlen)"
    using km by linarith
  then show thesis
  proof cases
    case 1
    then have "unicode_to_bytes_round (eight_bit_converter env e) flags pre valid cs maxlen (u, int u, bytes) =
        Some (Inr (Go (k, int k, shown maxlen bytes u ys)))"
      unfolding round by simp
    then show thesis
      using 1 km assms(2) unfolding ys_map by (intro more [of k]) simp_all
  next
    case 2
    then have "unicode_to_bytes_round (eight_bit_converter env e) flags pre valid cs maxlen (u, int u, bytes) =
        Some (Inr (Stop (kCFStringEncodingInsufficientOutputBufferLength, k, int k, shown maxlen bytes u ys)))"
      unfolding round using assms(6,7) by (simp add: drained_exact del: CFEncodingConverterFromDefinition.simps)
    then show thesis
      using 2 km unfolding ys_map by (intro full [of k]) simp_all
  next
    case 3
    have short: "length ys < length xs"
      using 3 km m assms(8) by (auto split: if_splits)
    then have "byte_of e (xs ! length ys) = None"
      unfolding ys_def by (rule converted_stops)
    moreover have "xs ! length ys = cs ! k"
      using short assms(2) by (simp add: xs_def k_def)
    ultimately have "map g (drop u (take (k + 1) cs)) = map g (drop u (take k cs)) @ [b]"
      using 3 km(1) by (simp add: take_Suc_conv_app_nth assms(9) with_substitute_def)
    then have ext: "map g (drop u (take (k + 1) cs)) = ys @ [b]"
      using ys_map by simp
    have "shown maxlen (shown maxlen bytes u ys) k [b] = shown maxlen bytes u (ys @ [b])"
      unfolding k_def using assms(4) km by (intro shown_continued) auto
    moreover have "substitute (eight_bit_converter env e) flags cs maxlen (k, int k, shown maxlen bytes u ys) =
        Some (Inr (Go (k + 1, int (k + 1), shown maxlen (shown maxlen bytes u ys) k [b])))"
      using assms(4) km short m by (intro substitute_byte [OF assms(6,7)]) (auto simp: shown_def)
    ultimately have "unicode_to_bytes_round (eight_bit_converter env e) flags pre valid cs maxlen (u, int u, bytes) =
        Some (Inr (Go (k + 1, int (k + 1), shown maxlen bytes u (ys @ [b]))))"
      unfolding round using 3 assms(5) by (auto simp del: CFEncodingConverterFromDefinition.simps)
    then show thesis
      unfolding ext [symmetric] using km short m by (intro more [of "k + 1"]) simp_all
  qed
qed

lemma lossy_loop:
  assumes "no_accents valid cs" "maxlen \<le> length bytes" "flag_set flags kCFStringEncodingAllowLossyConversion"
    "CFStringEncodingMaskToLossyByte flags = b" "b \<noteq> 0"
    "m = (if maxlen = 0 then length cs else min maxlen (length cs))" "u \<le> m"
    "g = with_substitute (byte_of e) b"
  shows "unicode_to_bytes_loop (eight_bit_converter env e) flags pre valid cs maxlen (u, int u, bytes) =
    Some (Inr (if m = length cs then kCFStringEncodingConversionSuccess
               else kCFStringEncodingInsufficientOutputBufferLength,
               m, int m, shown maxlen bytes u (map g (drop u (take m cs)))))"
  using assms(2,7)
proof (induction "m - u" arbitrary: u bytes rule: less_induct)
  case less
  have m: "m \<le> length cs" "maxlen = 0 \<or> m \<le> maxlen"
    using assms(6) by auto
  show ?case
  proof (cases "u = m")
    case True
    then show ?thesis
      using m assms(4-6) by (auto simp: unicode_loop_end drained_exact shown_def simp del: CFEncodingConverterFromDefinition.simps)
  next
    case False
    then have u: "u < length cs" "maxlen = 0 \<or> u < maxlen" "maxlen = 0 \<or> int u < int maxlen"
      using less.prems(2) m by auto
    from assms(1) u(1,2) less.prems(1) assms(3-6,8) show ?thesis
    proof (cases rule: lossy_round [where env = env and pre = pre])
      case (full k)
      then show ?thesis
        using unicode_loop_steps(2) [OF u(1,3) full(3)] by (simp del: CFEncodingConverterFromDefinition.simps)
    next
      case (more k)
      have "unicode_to_bytes_loop (eight_bit_converter env e) flags pre valid cs maxlen
          (k, int k, shown maxlen bytes u (map g (drop u (take k cs)))) =
        Some (Inr (if m = length cs then kCFStringEncodingConversionSuccess
               else kCFStringEncodingInsufficientOutputBufferLength,
               m, int m, shown maxlen (shown maxlen bytes u (map g (drop u (take k cs)))) k (map g (drop k (take m cs)))))"
        using less.prems(1) more m by (intro less.hyps) (auto simp: shown_def)
      moreover have "shown maxlen (shown maxlen bytes u (map g (drop u (take k cs)))) k (map g (drop k (take m cs))) =
          shown maxlen bytes u (map g (drop u (take m cs)))"
      proof -
        have len: "u + length (map g (drop u (take k cs))) = k"
          using more m by simp
        have "take m cs = take k cs @ drop k (take m cs)"
          using append_take_drop_id [of k "take m cs"] more by (simp add: min_absorb1)
        then have "drop u (take m cs) = drop u (take k cs @ drop k (take m cs))"
          by (rule arg_cong)
        then have "drop u (take k cs) @ drop k (take m cs) = drop u (take m cs)"
          using more m by simp
        then show ?thesis
          using shown_continued [of maxlen u "map g (drop u (take k cs))" bytes "map g (drop k (take m cs))"]
            less.prems(1) more m unfolding len by (auto simp flip: map_append)
      qed
      ultimately show ?thesis
        using unicode_loop_steps(1) [OF u(1,3) more(3)] by simp
    qed
  qed
qed

section \<open>From bytes\<close>

lemma eight_bit_to_unicode:
  assumes "u \<le> length bs" "maxlen = 0 \<or> u < maxlen" "maxlen \<le> length buf" "\<not> is_canonical flags"
    "ys = converted (char_of_byte e) (take (if maxlen = 0 then length bs - u else min (maxlen - u) (length bs - u)) (drop u bs))"
  shows "cv_toUnicode (eight_bit_converter env e) flags bs u (length bs - u) buf u (room_left maxlen u) =
         Inr (length ys, length ys, shown maxlen buf u ys)"
proof -
  have room: "room_left maxlen u = (if maxlen = 0 then 0 else maxlen - u)"
    by (auto simp: room_left_def)
  have "CFToUnicodeCheapEightBitWrapper (from_byte e) bs u (length bs - u) buf u (room_left maxlen u) =
      Inr (length ys, shown (room_left maxlen u) buf u ys)"
    using assms by (intro to_unicode_wrapper [where f = "char_of_byte e"]) (auto simp: conversions_total room)
  then show ?thesis
    using assms(2,4) by (auto simp: counted_twice_def room shown_def)
qed

lemma no_characters_for_unmapped:
  assumes "u < length bs" "char_of_byte e (bs ! u) = None" "\<not> is_canonical flags"
  shows "cv_toUnicode (eight_bit_converter env e) flags bs u (length bs - u) [] 0 0 = Inr (0, 0, [])"
proof -
  have "converted (char_of_byte e) (take (length bs - u) (drop u bs)) = []"
    using assms by (intro converted_none) (auto simp: hd_drop_conv_nth)
  then have "CFToUnicodeCheapEightBitWrapper (from_byte e) bs u (length bs - u) [] 0 0 = Inr (0, [])"
    using to_unicode_wrapper [of "from_byte e" "char_of_byte e" u "length bs - u" bs 0 0 "[]" "[]"] assms(1)
    by (simp add: conversions_total shown_def)
  then show ?thesis
    using assms(3) by (simp add: counted_twice_def)
qed

lemma bytes_loop_steps:
  assumes "u < length bs" "maxlen = 0 \<or> t < maxlen"
  shows "bytes_to_unicode_round conv flags bs maxlen (u, t, buf) = Some (Inr (Go s)) \<Longrightarrow>
    bytes_to_unicode_loop conv flags bs maxlen (u, t, buf) = bytes_to_unicode_loop conv flags bs maxlen s"
    and "bytes_to_unicode_round conv flags bs maxlen (u, t, buf) = Some (Inr (Stop r)) \<Longrightarrow>
    bytes_to_unicode_loop conv flags bs maxlen (u, t, buf) = Some (Inr r)"
    and "bytes_to_unicode_round conv flags bs maxlen (u, t, buf) = Some (Inl err) \<Longrightarrow>
    bytes_to_unicode_loop conv flags bs maxlen (u, t, buf) = Some (Inl err)"
  using assms by (simp_all add: bytes_to_unicode_loop.simps [of conv flags bs maxlen "(u, t, buf)"])

lemma bytes_loop_end:
  "length bs \<le> u \<Longrightarrow> bytes_to_unicode_loop conv flags bs maxlen (u, t, buf) =
     Some (Inr (kCFStringEncodingConversionSuccess, u, t, buf))"
  by (simp add: bytes_to_unicode_loop.simps [of conv flags bs maxlen "(u, t, buf)"])

lemma exact_bytes_loop:
  assumes "maxlen \<le> length buf" "\<not> is_canonical flags" "\<not> flag_set flags kCFStringEncodingAllowLossyConversion"
    "ys = converted (char_of_byte e) (within maxlen bs)"
  shows "bytes_to_unicode_loop (eight_bit_converter env e) flags bs maxlen (0, 0, buf) =
    Some (Inr (code_after maxlen (length bs) (length ys), length ys, length ys, shown maxlen buf 0 ys))"
proof (cases "bs = []")
  case True
  then show ?thesis
    using assms(4) by (simp add: bytes_loop_end code_after_def shown_def del: CFEncodingConverterFromDefinition.simps)
next
  case False
  have ys: "ys = converted (char_of_byte e) (take (if maxlen = 0 then length bs - 0 else min (maxlen - 0) (length bs - 0)) (drop 0 bs))"
    unfolding assms(4) by (auto simp: within_def min_def)
  have bound: "length ys \<le> length (within maxlen bs)"
    unfolding assms(4) by (rule length_converted)
  have len: "0 < length bs" "maxlen = 0 \<or> 0 < maxlen"
    using False by auto
  have conv: "cv_toUnicode (eight_bit_converter env e) flags bs 0 (length bs - 0) buf 0 (room_left maxlen 0) =
      Inr (length ys, length ys, shown maxlen buf 0 ys)"
    using assms(1) len by (intro eight_bit_to_unicode [OF _ _ _ assms(2) ys]) auto
  show ?thesis
  proof (cases "length ys = length bs")
    case True
    with conv have "bytes_to_unicode_round (eight_bit_converter env e) flags bs maxlen (0, 0, buf) =
        Some (Inr (Go (length ys, length ys, shown maxlen buf 0 ys)))"
      by (simp add: bytes_to_unicode_round_def Let_def del: CFEncodingConverterFromDefinition.simps)
    from bytes_loop_steps(1) [OF len this] show ?thesis
      using True by (simp add: bytes_loop_end code_after_def del: CFEncodingConverterFromDefinition.simps)
  next
    case less: False
    have filled: "unicode_filled (eight_bit_converter env e) flags bs (length ys) maxlen (length ys) =
        Inr (maxlen \<noteq> 0 \<and> length ys = maxlen)"
    proof (cases "maxlen \<noteq> 0 \<and> length ys \<noteq> maxlen")
      case True
      then have short: "length ys < length (within maxlen bs)"
        using bound less by (auto simp: within_def min_def split: if_splits)
      then have "char_of_byte e (within maxlen bs ! length ys) = None"
        unfolding assms(4) by (rule converted_stops)
      then have "char_of_byte e (bs ! length ys) = None" "length ys < length bs"
        using short by (auto simp: within_def split: if_splits)
      then show ?thesis
        using True no_characters_for_unmapped [of "length ys" bs e flags env] assms(2)
        by (auto simp: unicode_filled_def simp del: CFEncodingConverterFromDefinition.simps)
    qed (auto simp: unicode_filled_def)
    have "length ys < length bs"
      using bound less by (auto simp: within_def split: if_splits)
    with conv filled have "bytes_to_unicode_round (eight_bit_converter env e) flags bs maxlen (0, 0, buf) =
        Some (Inr (Stop (code_after maxlen (length bs) (length ys), length ys, length ys, shown maxlen buf 0 ys)))"
      using assms(3) less
      by (auto simp: bytes_to_unicode_round_def code_after_def Let_def simp del: CFEncodingConverterFromDefinition.simps)
    from bytes_loop_steps(2) [OF len this] show ?thesis .
  qed
qed

section \<open>The properties\<close>

definition convertible :: "eight_bit \<Rightarrow> unichar \<Rightarrow> bool" where
  "convertible e c \<longleftrightarrow> byte_of e c \<noteq> None \<and> \<not> (e = MacRoman \<and> c = 0x2126) \<and> \<not> (e = NextStepLatin \<and> c = 0xFFFD)"

text \<open>The texts an encoding can express without loss.\<close>

fun expressible :: "builtin \<Rightarrow> unichar list \<Rightarrow> bool" where
  "expressible UTF8 chars \<longleftrightarrow> snd (utf16_scan chars) = []"
| "expressible (EightBit e) chars \<longleftrightarrow> list_all (convertible e) chars"

lemma converted_back:
  assumes "list_all (convertible e) chars" "ys = converted (byte_of e) chars"
  shows "length ys = length chars" "converted (char_of_byte e) ys = chars"
proof -
  have "length (converted (byte_of e) chars) = length chars \<and>
        converted (char_of_byte e) (converted (byte_of e) chars) = chars"
    using assms(1)
  proof (induction chars)
    case (Cons c chars)
    then obtain b where b: "byte_of e c = Some b" "convertible e c"
      by (auto simp: convertible_def)
    then have "from_byte e b = Inr (Some c)"
      unfolding conversions_inverse by (simp add: convertible_def conversions_total)
    then have "char_of_byte e b = Some c"
      by (simp add: conversions_total)
    with b Cons show ?case
      by simp
  qed simp
  then show "length ys = length chars" "converted (char_of_byte e) ys = chars"
    by (simp_all add: assms(2))
qed

lemma no_flags [simp]: "\<not> flag_set 0 f" "\<not> is_canonical 0"
  by (simp_all add: flag_set_def is_canonical_def)

lemma compose_flag:
  "flag_set (flags OR kCFStringEncodingComposeCombinings) kCFStringEncodingAllowLossyConversion =
   flag_set flags kCFStringEncodingAllowLossyConversion"
proof -
  have "(flags OR push_bit 4 1) AND push_bit 0 1 = flags AND push_bit 0 1"
    by (simp add: bit.conj_disj_distrib2)
  then show ?thesis
    by (simp only: flag_set_def kCFStringEncodingComposeCombinings_def kCFStringEncodingAllowLossyConversion_def)
qed

lemma compose_lossy_byte:
  "CFStringEncodingMaskToLossyByte (flags OR kCFStringEncodingComposeCombinings) = CFStringEncodingMaskToLossyByte flags"
  by (simp add: CFStringEncodingMaskToLossyByte_def kCFStringEncodingComposeCombinings_def drop_bit_or)


lemma eight_bit_front:
  "CFStringEncodingUnicodeToBytes env (Some (EightBit e)) (Some conv) flags cs maxlen buf =
   unicode_to_bytes conv flags cs maxlen buf"
  by (simp add: CFStringEncodingUnicodeToBytes_def)

lemma no_accents_cases:
  "list_all (\<lambda>c. \<not> CFStringEncodingIsValidCombiningCharacterForLatin1 c) cs \<Longrightarrow>
   no_accents (cd_isValidCombiningChar (eight_bit_converter env e)) cs"
  "no_accents None cs"
  by (simp_all add: no_accents_def combining_of_def)

text \<open>No encoding has a byte for an accent.\<close>

lemma no_accents_in_tables:
  "list_all (\<lambda>(c, b). \<not> (0x300 \<le> c \<and> c < 0x360)) macRoman_from_uni"
  "list_all (\<lambda>(c, b). \<not> (0x300 \<le> c \<and> c < 0x360)) cp1252_from_uni"
  "list_all (\<lambda>(c, b). \<not> (0x300 \<le> c \<and> c < 0x360)) nextstep_from_tab"
  by (simp_all add: macRoman_from_uni_def cp1252_from_uni_def nextstep_from_tab_def)

lemma accents_unmapped:
  assumes "CFStringEncodingIsValidCombiningCharacterForLatin1 c"
  shows "byte_of e c = None"
proof -
  have c: "0x300 \<le> c" "c < 0x360"
    using assms by (simp_all add: CFStringEncodingIsValidCombiningCharacterForLatin1_def)
  then have not_direct: "\<not> c < 0x80" "\<not> c \<le> 0xFF" "\<not> (c > 0x9F \<and> c \<le> 0xFF)"
    by (auto simp: word_less_nat_alt word_le_nat_alt)
  have none: "map_of t c = None" if "list_all (\<lambda>(c, b). \<not> (0x300 \<le> c \<and> c < 0x360)) t" for t :: "(unichar \<times> byte) list"
    using that c by (auto simp: map_of_eq_None_iff list_all_iff)
  have "to_byte e c = Inr None"
    using not_direct none no_accents_in_tables by (cases e) (auto simp: to_byte_forms simp del: to_byte.simps)
  then show ?thesis
    by (simp add: byte_of_def)
qed

lemma convertible_no_accents:
  "list_all (convertible e) chars \<Longrightarrow> list_all (\<lambda>c. \<not> CFStringEncodingIsValidCombiningCharacterForLatin1 c) chars"
  using accents_unmapped by (auto simp: list_all_iff convertible_def)

text \<open>
  C17. A conversion to an encoding of one byte per character that does not allow losses, of any text
  without accents to compose and with any other flags: it takes the longest prefix the encoding has and
  the limit allows, makes one byte of each character, leaves the rest of the buffer alone and says
  whether it came to the end, the buffer was full, or the next character is not in the encoding.
\<close>

theorem unicode_to_bytes_exact:
  assumes "list_all (\<lambda>c. \<not> CFStringEncodingIsValidCombiningCharacterForLatin1 c) chars" "maxlen \<le> length buf"
    "\<not> flag_set flags kCFStringEncodingAllowLossyConversion" "ys = converted (byte_of e) (within maxlen chars)"
  shows "CFStringEncodingUnicodeToBytes env (Some (EightBit e)) (Some (eight_bit_converter env e)) flags chars maxlen buf
    = Some (Inr (code_after maxlen (length chars) (length ys), length ys, int (length ys), shown maxlen buf 0 ys))"
  using exact_loop [where e = e and env = env, OF no_accents_cases(1) [OF assms(1), where env = env and e = e] assms(2) _ assms(4)]
    exact_loop [where e = e and env = env, OF no_accents_cases(2) assms(2) _ assms(4)] assms(3)
  by (simp add: eight_bit_front unicode_to_bytes_def compose_flag del: CFEncodingConverterFromDefinition.simps)

text \<open>
  C27. A lossy conversion with a substitute byte, of a text without accents to compose, ends and does not fail: every character within the
  limit becomes its byte or the substitute, and the only other code is that of a full buffer. For texts with accents this is not so: see
  \<open>accents_leave_text\<close> for an accent at the end, which makes the same call read past the text.
\<close>

theorem unicode_to_bytes_lossy:
  assumes "list_all (\<lambda>c. \<not> CFStringEncodingIsValidCombiningCharacterForLatin1 c) chars" "maxlen \<le> length buf"
    "flag_set flags kCFStringEncodingAllowLossyConversion" "CFStringEncodingMaskToLossyByte flags = b" "b \<noteq> 0"
    "ys = map (with_substitute (byte_of e) b) (within maxlen chars)"
  shows "CFStringEncodingUnicodeToBytes env (Some (EightBit e)) (Some (eight_bit_converter env e)) flags chars maxlen buf
    = Some (Inr (if length ys = length chars then kCFStringEncodingConversionSuccess
                 else kCFStringEncodingInsufficientOutputBufferLength,
                 length ys, int (length ys), shown maxlen buf 0 ys))"
proof -
  have ys: "ys = map (with_substitute (byte_of e) b)
      (drop 0 (take (if maxlen = 0 then length chars else min maxlen (length chars)) chars))"
    "length ys = (if maxlen = 0 then length chars else min maxlen (length chars))"
    by (auto simp: assms(6) within_def min_def)
  have loop: "unicode_to_bytes_loop (eight_bit_converter env e) fl pre valid chars maxlen (0, 0, buf) =
      Some (Inr (if length ys = length chars then kCFStringEncodingConversionSuccess
                 else kCFStringEncodingInsufficientOutputBufferLength,
                 length ys, int (length ys), shown maxlen buf 0 ys))"
    if "no_accents valid chars" "flag_set fl kCFStringEncodingAllowLossyConversion"
      "CFStringEncodingMaskToLossyByte fl = b" for fl pre valid
    using lossy_loop [where u = 0 and e = e and env = env and pre = pre, OF that(1) assms(2) that(2,3) assms(5) refl _ refl] ys by simp
  show ?thesis
    using loop [OF no_accents_cases(1) [OF assms(1), where env = env and e = e]] loop [OF no_accents_cases(2)] assms(3,4)
    by (simp add: eight_bit_front unicode_to_bytes_def compose_flag compose_lossy_byte
        del: CFEncodingConverterFromDefinition.simps)
qed

text \<open>
  The same for bytes: without losses and canonical forms, the conversion to Unicode takes the
  longest prefix of bytes that are characters of the encoding and fit, and says how it ended.
\<close>

lemma bytes_to_unicode_exact:
  assumes "maxlen \<le> length buf" "\<not> is_canonical flags" "\<not> flag_set flags kCFStringEncodingAllowLossyConversion"
    "ys = converted (char_of_byte e) (within maxlen bytes)"
  shows "CFStringEncodingBytesToUnicode (Some (eight_bit_converter env e)) flags bytes maxlen buf
    = Some (Inr (code_after maxlen (length bytes) (length ys), length ys, length ys, shown maxlen buf 0 ys))"
  using exact_bytes_loop [where env = env, OF assms] by (simp add: CFStringEncodingBytesToUnicode_def del: CFEncodingConverterFromDefinition.simps)

text \<open>
  C9. Whatever the built-in encoding, a text it can express comes back: with the room the converter's
  record asks for, \<open>CFStringEncodingUnicodeToBytes\<close> succeeds and uses the whole text, and
  \<open>CFStringEncodingBytesToUnicode\<close> makes the same text of the bytes, uses all of them and succeeds.
\<close>

theorem converter_roundtrip:
  assumes "expressible encoding chars" "conv = CFEncodingConverterFromDefinition env encoding"
    "cd_maxBytesPerChar conv * length chars \<le> maxlen" "0 < maxlen" "maxlen < 2 ^ 32" "maxlen \<le> length buf"
  shows "\<exists>used bytes.
    CFStringEncodingUnicodeToBytes env (Some encoding) (Some conv) 0 chars maxlen buf
      = Some (Inr (kCFStringEncodingConversionSuccess, length chars, int used, bytes)) \<and>
    CFStringEncodingBytesToUnicode (Some conv) 0 (take used bytes) (length chars) (replicate (length chars) 0)
      = Some (Inr (kCFStringEncodingConversionSuccess, used, length chars, chars))"
proof (cases encoding)
  case UTF8
  let ?bs = "utf8s (fst (utf16_scan chars))" and ?buf = "replicate (length chars) (0 :: unichar)"
  have enc: "snd (utf16_scan chars) = []" "3 * length chars \<le> maxlen"
    using assms(1-3) UTF8 by simp_all
  note inverse = utf8_inverse [OF enc assms(4-6) refl]
  have to: "CFStringEncodingUnicodeToBytes env (Some encoding) (Some conv) 0 chars maxlen buf
      = Some (Inr (kCFStringEncodingConversionSuccess, length chars, int (length ?bs), overlay buf 0 ?bs))"
    using inverse(1) UTF8 by (simp add: CFStringEncodingUnicodeToBytes_def unicode_to_utf8_def utf8_answer_def)
  have "CFStringEncodingBytesToUnicode (Some conv) 0 ?bs (length chars) ?buf
      = Some (Inr (kCFStringEncodingConversionSuccess, length ?bs, length chars, chars))"
  proof (cases "chars = []")
    case True
    then show ?thesis
      by (simp add: CFStringEncodingBytesToUnicode_def bytes_loop_end)
  next
    case False
    then obtain n ss where "fst (utf16_scan chars) = n # ss"
      using utf16_scan_splits [of chars] enc(1) by (cases "fst (utf16_scan chars)") auto
    then have len: "0 < length ?bs" "length chars = 0 \<or> 0 < length chars"
      by (auto simp: utf8_def)
    have "cv_toUnicode conv 0 ?bs 0 (length ?bs - 0) ?buf 0 (room_left (length chars) 0) = Inr (length ?bs, length chars, chars)"
      using inverse(2) [of "uni_env.truncate env"] False by (simp add: assms(2) UTF8 from_place_def room_left_def)
    then have "bytes_to_unicode_round conv 0 ?bs (length chars) (0, 0, ?buf) = Some (Inr (Go (length ?bs, length chars, chars)))"
      by (simp add: bytes_to_unicode_round_def Let_def)
    from bytes_loop_steps(1) [OF len this] show ?thesis
      by (simp add: CFStringEncodingBytesToUnicode_def bytes_loop_end)
  qed
  with to show ?thesis
    by (intro exI [of _ "length ?bs"] exI [of _ "overlay buf 0 ?bs"]) (simp add: inverse(3))
next
  case (EightBit e)
  let ?ys = "converted (byte_of e) chars"
  have conv: "conv = eight_bit_converter env e" and fits: "within maxlen chars = chars" "length chars \<le> maxlen"
    using assms(2,3) EightBit by (auto simp: within_def)
  note chars = assms(1) [unfolded EightBit expressible.simps]
  note inverse = converted_back [OF chars refl]
  have "CFStringEncodingUnicodeToBytes env (Some encoding) (Some conv) 0 chars maxlen buf
      = Some (Inr (kCFStringEncodingConversionSuccess, length chars, int (length chars), overlay buf 0 ?ys))"
    using exact_loop [where e = e and env = env and ys = "?ys",
        OF no_accents_cases(1) [OF convertible_no_accents [OF chars], where env = env and e = e] assms(6)]
      fits assms(4) inverse(1) compose_flag [of 0]
    by (simp add: EightBit conv eight_bit_front unicode_to_bytes_def compose_flag code_after_def shown_def
        del: CFEncodingConverterFromDefinition.simps)
  moreover have "CFStringEncodingBytesToUnicode (Some conv) 0 ?ys (length chars) (replicate (length chars) 0)
      = Some (Inr (kCFStringEncodingConversionSuccess, length chars, length chars, chars))"
    using exact_bytes_loop [where env = env and e = e and maxlen = "length chars" and flags = "0" and bs = "?ys"
      and buf = "replicate (length chars) 0", OF _ _ _ refl] inverse
    by (simp add: CFStringEncodingBytesToUnicode_def conv within_def code_after_def shown_def overlay_def
        del: CFEncodingConverterFromDefinition.simps)
  moreover have "take (length chars) (overlay buf 0 ?ys) = ?ys"
    using inverse(1) by (simp add: overlay_def)
  ultimately show ?thesis
    by (intro exI [of _ "length chars"] exI [of _ "overlay buf 0 ?ys"]) simp
qed

lemma compose_nothing:
  assumes "e \<noteq> ASCII" "precomposition env (ucast c) (ucast m) = 0xFFFD"
  shows "\<exists>pre. precompose_of e env = Some pre \<and> (\<forall>bytes off room. pre (c # m # cs) 0 (Suc 1 + length cs) bytes off room = Inr (0, bytes))"
proof -
  let ?env = "latin_env.truncate env"
  have pre: "\<exists>r. CFStringEncodingPrecomposeLatinCharacter ?env (c # m # cs) 0 (Suc 1 + length cs) = Inr (r, 1)"
    using assms(2)
    by (simp add: CFStringEncodingPrecomposeLatinCharacter_def latin_env.defs precompose_loop.simps [of _ _ _ _ "Suc 0"]
        precompose_loop.simps [of _ _ _ _ 1] is_surrogate_def Let_def)
  have "to_bytes_precompose (to_byte e) ?env (c # m # cs) 0 (Suc 1 + length cs) bytes off room = Inr (0, bytes)" for bytes off room
    using pre by (auto simp: to_bytes_precompose_def conversions_total split: option.splits)
  with assms(1) show ?thesis
    by (cases e)
      (simp_all add: CFToISOLatin1Precompose_def CFToMacRomanPrecompose_def CFToWinLatin1Precompose_def
        CFToNextStepLatinPrecompose_def)
qed

lemma accent_flags:
  assumes "\<not> flag_set flags kCFStringEncodingSubstituteCombinings" "\<not> flag_set flags kCFStringEncodingIgnoreCombinings"
    "e \<noteq> ASCII" "precompose_of e env = Some pre"
  shows "CFStringEncodingUnicodeToBytes env (Some (EightBit e)) (Some (eight_bit_converter env e)) flags cs maxlen buf =
    unicode_to_bytes_loop (eight_bit_converter env e) (flags OR kCFStringEncodingComposeCombinings) (Some pre)
      (Some CFStringEncodingIsValidCombiningCharacterForLatin1) cs maxlen (0, 0, buf)"
  using assms by (simp add: eight_bit_front unicode_to_bytes_def combining_of_def)

text \<open>The converter stops before an accent.\<close>

lemma to_bytes_before_accent:
  assumes "CFStringEncodingIsValidCombiningCharacterForLatin1 (cs ! u)" "u < length cs" "maxlen = 0 \<or> u < maxlen"
    "maxlen \<le> length bytes"
  shows "cv_toBytes (eight_bit_converter env e) flags cs u (length cs - u) bytes u (byte_room maxlen (int u)) =
         Inr (0, 0, bytes)"
proof -
  have "converted (byte_of e) (take (if maxlen = 0 then length cs - u else min (maxlen - u) (length cs - u)) (drop u cs)) = []"
    using assms(2,3) accents_unmapped [OF assms(1)] by (intro converted_none) (auto simp: hd_drop_conv_nth hd_take)
  then show ?thesis
    using eight_bit_to_bytes [where env = env and e = e and flags = flags and cs = cs, OF _ assms(3,4) refl] assms(2)
    by (auto simp: shown_def simp del: CFEncodingConverterFromDefinition.simps)
qed

lemma accent_reads_before:
  assumes "CFStringEncodingIsValidCombiningCharacterForLatin1 m"
    "flag_set flags kCFStringEncodingAllowLossyConversion" "CFStringEncodingMaskToLossyByte flags \<noteq> 0"
    "2 \<le> maxlen" "maxlen \<le> length buf"
  shows "unicode_to_bytes_loop (eight_bit_converter env e) flags (Some pre)
      (Some CFStringEncodingIsValidCombiningCharacterForLatin1) [m, m] maxlen (0, 0, buf) = Some (Inl OutOfBounds)"
proof -
  let ?conv = "eight_bit_converter env e" and ?v = "Some CFStringEncodingIsValidCombiningCharacterForLatin1"
  let ?b = "CFStringEncodingMaskToLossyByte flags"
  have none: "bytes_filled ?conv flags [m, m] 0 maxlen 0 = Inr False"
    using no_bytes_for_unmapped [of 0 "[m, m]" e env flags] accents_unmapped [OF assms(1)] assms(4)
    by (simp add: bytes_filled_def del: CFEncodingConverterFromDefinition.simps)
  have "unicode_to_bytes_round ?conv flags (Some pre) ?v [m, m] maxlen (0, 0, buf) =
      substitute ?conv flags [m, m] maxlen (0, 0, buf)"
    using to_bytes_before_accent [of "[m, m]" 0 maxlen buf env e flags] assms none
    by (simp add: unicode_to_bytes_round_def byte_place_def del: CFEncodingConverterFromDefinition.simps)
  also have "\<dots> = Some (Inr (Go (1, 1, shown maxlen buf 0 [?b])))"
    using substitute_byte [OF refl assms(3), of maxlen 0 buf ?conv "[m, m]"] assms(4,5) by simp
  finally have "unicode_to_bytes_loop ?conv flags (Some pre) ?v [m, m] maxlen (0, 0, buf) =
      unicode_to_bytes_loop ?conv flags (Some pre) ?v [m, m] maxlen (1, 1, shown maxlen buf 0 [?b])"
    using assms(4) by (intro unicode_loop_steps(1)) auto
  also have "\<dots> = Some (Inl OutOfBounds)"
  proof (rule unicode_loop_steps(3))
    have "maxlen \<le> length (shown maxlen buf 0 [?b])"
      using assms(4,5) by (simp add: shown_def)
    then show "unicode_to_bytes_round ?conv flags (Some pre) ?v [m, m] maxlen (1, 1, shown maxlen buf 0 [?b]) =
        Some (Inl OutOfBounds)"
      using to_bytes_before_accent [of "[m, m]" 1 maxlen "shown maxlen buf 0 [?b]" env e flags] assms(1,4)
      by (simp add: unicode_to_bytes_round_def byte_place_def compose_round_def
          del: CFEncodingConverterFromDefinition.simps)
  qed (use assms(4) in auto)
  finally show ?thesis .
qed

lemma accent_reads_beyond:
  assumes "CFStringEncodingIsValidCombiningCharacterForLatin1 m" "byte_of e c = Some b"
    "\<And>bytes off room. pre [c, m] 0 2 bytes off room = Inr (0, bytes)"
    "flag_set flags kCFStringEncodingAllowLossyConversion" "CFStringEncodingMaskToLossyByte flags \<noteq> 0"
    "2 \<le> maxlen" "maxlen \<le> length buf"
  shows "unicode_to_bytes_loop (eight_bit_converter env e) flags (Some pre)
      (Some CFStringEncodingIsValidCombiningCharacterForLatin1) [c, m] maxlen (0, 0, buf) = Some (Inl OutOfBounds)"
proof (rule unicode_loop_steps(3))
  have "\<not> CFStringEncodingIsValidCombiningCharacterForLatin1 c"
    using assms(2) accents_unmapped [of c e] by auto
  then have before: "skip_back CFStringEncodingIsValidCombiningCharacterForLatin1 [c, m] 1 = Inr 0"
    by simp
  have forth: "skip_accents CFStringEncodingIsValidCombiningCharacterForLatin1 [c, m] 0 = Inl OutOfBounds"
    using assms(1) by (simp add: skip_accents.simps)
  have "converted (byte_of e) (take (min maxlen 2) [c, m]) = [b]"
    using assms(2,6) accents_unmapped [OF assms(1), of e] by (simp add: min_def numeral_2_eq_2)
  then have "cv_toBytes (eight_bit_converter env e) flags [c, m] 0 2 buf 0 (byte_room maxlen 0) =
      Inr (1, 1, shown maxlen buf 0 [b])"
    using eight_bit_to_bytes [of 0 "[c, m]" maxlen buf _ e env flags] assms(6,7)
    by (simp add: numeral_2_eq_2 del: CFEncodingConverterFromDefinition.simps)
  then show "unicode_to_bytes_round (eight_bit_converter env e) flags (Some pre)
      (Some CFStringEncodingIsValidCombiningCharacterForLatin1) [c, m] maxlen (0, 0, buf) = Some (Inl OutOfBounds)"
    using assms(1,3-5) before forth
    by (simp add: unicode_to_bytes_round_def byte_place_def compose_round_def numeral_2_eq_2)
qed (use assms(6) in auto)

text \<open>A round that comes back to its state never ends.\<close>

lemma unicode_loop_never_ends:
  assumes "u < length cs" "maxlen = 0 \<or> t < int maxlen"
    "unicode_to_bytes_round conv flags pre valid cs maxlen (u, t, buf) = Some (Inr (Go (u, t, buf)))"
  shows "unicode_to_bytes_loop conv flags pre valid cs maxlen (u, t, buf) = None"
proof (rule ccontr)
  assume "unicode_to_bytes_loop conv flags pre valid cs maxlen (u, t, buf) \<noteq> None"
  then obtain r where ret: "unicode_to_bytes_loop conv flags pre valid cs maxlen (u, t, buf) = Some r"
    by auto
  define P where "P conv' flags' pre' valid' cs' maxlen' s (r :: (nat \<times> bytes_state) cf) \<longleftrightarrow>
    \<not> (conv' = conv \<and> flags' = flags \<and> pre' = pre \<and> valid' = valid \<and> cs' = cs \<and> maxlen' = maxlen \<and> s = (u, t, buf))"
    for conv' flags' pre' valid' cs' maxlen' s r
  have "P conv flags pre valid cs maxlen (u, t, buf) r"
  proof (rule unicode_to_bytes_loop.raw_induct [where P = P, OF _ ret])
    fix f conv' flags' pre' valid' cs' maxlen' s r
    assume IH: "\<And>conv' flags' pre' valid' cs' maxlen' s r. f conv' flags' pre' valid' cs' maxlen' s = Some r \<Longrightarrow>
        P conv' flags' pre' valid' cs' maxlen' s r"
      and body: "(case s of (usedLen, t, bytes) \<Rightarrow>
        if usedLen < length cs' \<and> (maxlen' = 0 \<or> t < int maxlen') then
          case unicode_to_bytes_round conv' flags' pre' valid' cs' maxlen' s of
            None \<Rightarrow> None
          | Some (Inl e) \<Rightarrow> Some (Inl e)
          | Some (Inr (Stop r)) \<Rightarrow> Some (Inr r)
          | Some (Inr (Go s)) \<Rightarrow> f conv' flags' pre' valid' cs' maxlen' s
        else if usedLen < length cs' \<and> maxlen' \<noteq> 0 then drained conv' flags' cs' usedLen t bytes
        else Some (Inr (kCFStringEncodingConversionSuccess, usedLen, t, bytes))) = Some r"
    show "P conv' flags' pre' valid' cs' maxlen' s r"
      unfolding P_def
    proof
      assume eq: "conv' = conv \<and> flags' = flags \<and> pre' = pre \<and> valid' = valid \<and> cs' = cs \<and> maxlen' = maxlen \<and> s = (u, t, buf)"
      then have "f conv flags pre valid cs maxlen (u, t, buf) = Some r"
        using body assms by simp
      from IH [OF this] show False
        by (simp add: P_def)
    qed
  qed
  then show False
    by (simp add: P_def)
qed

text \<open>The default fallback makes a question mark of an accent that is not decomposable.\<close>

lemma accent_range:
  assumes "CFStringEncodingIsValidCombiningCharacterForLatin1 m"
  shows "0x300 \<le> unat m" "unat m < 0x360"
  using assms by (simp_all add: CFStringEncodingIsValidCombiningCharacterForLatin1_def word_le_nat_alt word_less_nat_alt)

lemma fallback_of_accent:
  assumes "CFStringEncodingIsValidCombiningCharacterForLatin1 m" "\<not> decomposable env m"
    "cs ! u = m" "u < length cs" "off < room" "room \<le> length buf"
  shows "to_byte_fallback (eight_bit_converter env e) cs u n buf off room = Some (Inr (1, 1, buf[off := 0x3F]))"
proof -
  have m: "0x300 \<le> unat m" "unat m < 0x360"
    by (rule accent_range [OF assms(1)])+
  have u: "unat (ucast m :: utf32) = unat m"
    using m by (simp add: unsigned_ucast_eq take_bit_nat_eq_self)
  have "\<not> isWhitespace (ucast m)" "\<not> isWhitespaceAndNewline (ucast m)"
    using m u
    by (auto simp: isWhitespaceAndNewline_def isWhitespace_def isNewline_def word_le_nat_alt word_unat_eq_iff)
  moreover have "\<not> m < 0xA0" "\<not> m < 0x100" "\<not> 0xD800 \<le> m" "m \<noteq> 0x2026"
    using m by (auto simp: word_less_nat_alt word_le_nat_alt)
  moreover have "room \<noteq> 0" "off < length buf"
    using assms(5,6) by auto
  ultimately show ?thesis
    using assms(2-4)
    by (subst CFEncodingConverterFromDefinition.simps)
      (simp add: to_byte_fallback_def CFDefaultToBytesFallbackProc.simps put_fallback_def)
qed

lemma accent_round_repeats:
  assumes "CFStringEncodingIsValidCombiningCharacterForLatin1 m" "\<not> decomposable env m"
    "\<not> CFStringEncodingIsValidCombiningCharacterForLatin1 c"
    "\<And>bytes off room. pre [c, m, m] 0 3 bytes off room = Inr (0, bytes)"
    "flag_set flags kCFStringEncodingAllowLossyConversion" "CFStringEncodingMaskToLossyByte flags = 0"
    "1 < maxlen" "maxlen \<le> length buf" "k = 1 \<and> t = 0 \<or> k = 2 \<and> t = 1"
  shows "compose_round (eight_bit_converter env e) flags [c, m, m] maxlen pre
      CFStringEncodingIsValidCombiningCharacterForLatin1 k (int t) (1 - t) buf =
    Some (Inr (Go (2, 1, buf[0 := 0x3F])))"
proof -
  have before: "skip_back CFStringEncodingIsValidCombiningCharacterForLatin1 [c, m, m] k = Inr 0"
    using assms(1,3,9) by (auto simp: numeral_2_eq_2)
  have t: "int t + int (1 - t) - 1 = 0"
    using assms(9) by auto
  have "byte_room maxlen 0 \<le> length buf" "0 < byte_room maxlen 0"
    using assms(7,8) by (auto simp: byte_room_def)
  then have "fall_back (eight_bit_converter env e) [c, m, m] maxlen (1, 0, buf) = Some (Inr (Go (2, 1, buf[0 := 0x3F])))"
    using fallback_of_accent [OF assms(1,2), of "[c, m, m]" 1 0 "byte_room maxlen 0" buf e]
    by (simp add: fall_back_def byte_place_def numeral_2_eq_2 del: CFEncodingConverterFromDefinition.simps)
  then show ?thesis
    using assms(4,5,6) before t
    by (simp add: compose_round_def byte_place_def numeral_3_eq_3)
qed

lemma accents_loop_forever:
  assumes "CFStringEncodingIsValidCombiningCharacterForLatin1 m" "\<not> decomposable env m" "byte_of e c = Some b"
    "\<And>bytes off room. pre [c, m, m] 0 3 bytes off room = Inr (0, bytes)"
    "flag_set flags kCFStringEncodingAllowLossyConversion" "CFStringEncodingMaskToLossyByte flags = 0"
    "1 < maxlen" "maxlen \<le> length buf"
  shows "unicode_to_bytes_loop (eight_bit_converter env e) flags (Some pre)
      (Some CFStringEncodingIsValidCombiningCharacterForLatin1) [c, m, m] maxlen (0, 0, buf) = None"
proof -
  let ?conv = "eight_bit_converter env e" and ?v = "Some CFStringEncodingIsValidCombiningCharacterForLatin1"
  let ?buf = "buf[0 := 0x3F]"
  note [simp del] = CFEncodingConverterFromDefinition.simps
  have c: "\<not> CFStringEncodingIsValidCombiningCharacterForLatin1 c"
    using assms(3) accents_unmapped [of c e] by auto
  have first_byte: "converted (byte_of e) (take (min maxlen 3) [c, m, m]) = [b]"
    using assms(3,7) accents_unmapped [OF assms(1), of e] by (auto simp: min_def take_Cons')
  have conv: "cv_toBytes ?conv flags [c, m, m] 0 3 buf 0 (byte_room maxlen 0) = Inr (1, 1, buf[0 := b])"
  proof -
    have "0 < length buf"
      using assms(7,8) by linarith
    then show ?thesis
      using first_byte eight_bit_to_bytes [of 0 "[c, m, m]" maxlen buf _ e env flags] assms(7,8)
      by (simp add: shown_def overlay_update numeral_3_eq_3)
  qed
  have start: "compose_round ?conv flags [c, m, m] maxlen pre CFStringEncodingIsValidCombiningCharacterForLatin1
      1 0 1 (buf[0 := b]) = Some (Inr (Go (2, 1, ?buf)))"
    using accent_round_repeats [where pre = pre and e = e and buf = "buf[0 := b]" and k = "1" and t = "0",
        OF assms(1,2) c assms(4-7)] assms(8) by simp
  have first: "unicode_to_bytes_round ?conv flags (Some pre) ?v [c, m, m] maxlen (0, 0, buf) = Some (Inr (Go (2, 1, ?buf)))"
    using conv start assms(1) by (simp add: unicode_to_bytes_round_def byte_place_def numeral_3_eq_3)
  have stay: "compose_round ?conv flags [c, m, m] maxlen pre CFStringEncodingIsValidCombiningCharacterForLatin1
      2 1 0 ?buf = Some (Inr (Go (2, 1, ?buf)))"
    using accent_round_repeats [where pre = pre and e = e and buf = "?buf" and k = "2" and t = "1",
        OF assms(1,2) c assms(4-7)] assms(8) by simp
  have "cv_toBytes ?conv flags [c, m, m] 2 1 ?buf 1 (byte_room maxlen 1) = Inr (0, 0, ?buf)"
  proof -
    have "converted (byte_of e) (take (if maxlen - 1 = 0 then 1 else min (maxlen - 1) 1) [m]) = []"
      using accents_unmapped [OF assms(1)] by (intro converted_none) auto
    then have "CFToBytesCheapEightBitWrapper (to_byte e) [c, m, m] 2 1 ?buf 1 (byte_room maxlen 1) = Inr (0, ?buf)"
      using to_bytes_wrapper [of "to_byte e" "byte_of e" 2 1 "[c, m, m]" "maxlen - 1" 1 ?buf "[]"] assms(7,8)
      by (simp add: conversions_total byte_room_def nat_diff_distrib shown_def numeral_2_eq_2)
    then show ?thesis
      by (simp add: counted_twice_def CFEncodingConverterFromDefinition.simps)
  qed
  then have again: "unicode_to_bytes_round ?conv flags (Some pre) ?v [c, m, m] maxlen (2, 1, ?buf) =
      Some (Inr (Go (2, 1, ?buf)))"
    using stay assms(1) by (simp add: unicode_to_bytes_round_def byte_place_def numeral_2_eq_2)
  have "unicode_to_bytes_loop ?conv flags (Some pre) ?v [c, m, m] maxlen (2, 1, ?buf) = None"
    using assms(7) by (intro unicode_loop_never_ends [OF _ _ again]) auto
  then show ?thesis
    using unicode_loop_steps(1) [OF _ _ first] assms(7) by simp
qed

text \<open>
  C29. A lossy conversion may not end. When two accents follow a character they cannot be composed with
  and no substitute byte is given, each round takes back the byte made before, starts again at the
  first accent and gets to where it was: the conversion of three characters runs forever.
\<close>

theorem accents_hang:
  assumes "e \<noteq> ASCII" "CFStringEncodingIsValidCombiningCharacterForLatin1 m" "\<not> decomposable env m"
    "byte_of e c = Some b" "precomposition env (ucast c) (ucast m) = 0xFFFD"
    "flag_set flags kCFStringEncodingAllowLossyConversion" "CFStringEncodingMaskToLossyByte flags = 0"
    "\<not> flag_set flags kCFStringEncodingSubstituteCombinings" "\<not> flag_set flags kCFStringEncodingIgnoreCombinings"
    "1 < maxlen" "maxlen \<le> length buf"
  shows "CFStringEncodingUnicodeToBytes env (Some (EightBit e)) (Some (eight_bit_converter env e)) flags
           [c, m, m] maxlen buf = None"
proof -
  obtain pre where pre: "precompose_of e env = Some pre" "\<And>bytes off room. pre (c # m # [m]) 0 (Suc 1 + length [m]) bytes off room = Inr (0, bytes)"
    using compose_nothing [OF assms(1,5), of "[m]"] by auto
  have "unicode_to_bytes_loop (eight_bit_converter env e) (flags OR kCFStringEncodingComposeCombinings) (Some pre)
      (Some CFStringEncodingIsValidCombiningCharacterForLatin1) [c, m, m] maxlen (0, 0, buf) = None"
    using assms(2-4,6,7,10,11) pre(2) by (intro accents_loop_forever) (simp_all add: compose_flag compose_lossy_byte numeral_3_eq_3)
  then show ?thesis
    unfolding accent_flags [OF assms(8,9,1) pre(1)] .
qed

text \<open>
  C31. A lossy conversion to NEXTSTEP may write before its buffer. The default fallback makes no byte of
  a degree sign; when an accent follows, the byte of the character before the accent is taken back
  although there is none, and the next byte goes to the place before the first.
\<close>

theorem lossy_underruns_buffer:
  assumes "CFStringEncodingIsValidCombiningCharacterForLatin1 m"
    "flag_set flags kCFStringEncodingAllowLossyConversion" "CFStringEncodingMaskToLossyByte flags = 0"
    "\<not> flag_set flags kCFStringEncodingSubstituteCombinings" "\<not> flag_set flags kCFStringEncodingIgnoreCombinings"
    "0 < maxlen" "maxlen \<le> length buf"
  shows "CFStringEncodingUnicodeToBytes env (Some (EightBit NextStepLatin))
           (Some (eight_bit_converter env NextStepLatin)) flags [0xB0, m] maxlen buf = Some (Inl OutOfBounds)"
proof -
  let ?conv = "eight_bit_converter env NextStepLatin" and ?fl = "flags OR kCFStringEncodingComposeCombinings"
  let ?v = "Some CFStringEncodingIsValidCombiningCharacterForLatin1"
  note [simp del] = CFEncodingConverterFromDefinition.simps
  obtain pre where pre: "precompose_of NextStepLatin env = Some pre"
    by simp
  have degree: "byte_of NextStepLatin 0xB0 = None"
    by (simp add: byte_of_def to_byte_forms nextstep_from_tab_def del: to_byte.simps)
  have "converted (byte_of NextStepLatin) (take (min maxlen 2) [0xB0, m]) = []"
    using degree assms(6) by (intro converted_none) (auto simp: hd_take)
  then have conv: "cv_toBytes ?conv ?fl [0xB0, m] 0 2 buf 0 (byte_room maxlen 0) = Inr (0, 0, buf)"
    using eight_bit_to_bytes [of 0 "[0xB0, m]" maxlen buf _ NextStepLatin env ?fl] assms(6,7)
    by (simp add: shown_def numeral_2_eq_2)
  have none: "bytes_filled ?conv ?fl [0xB0, m] 0 maxlen 0 = Inr False"
    using no_bytes_for_unmapped [of 0 "[0xB0, m]" NextStepLatin env ?fl] degree assms(6)
    by (simp add: bytes_filled_def numeral_2_eq_2)
  have "to_byte_fallback ?conv [0xB0, m] 0 2 buf 0 (byte_room maxlen 0) = Some (Inr (1, 0, buf))"
    by (simp add: to_byte_fallback_def CFEncodingConverterFromDefinition.simps CFDefaultToBytesFallbackProc.simps
        CFToASCIILatin1Fallback_def toLossyASCIITable_def)
  then have "substitute ?conv ?fl [0xB0, m] maxlen (0, 0, buf) = Some (Inr (Go (1, 0, buf)))"
    using assms(3) by (simp add: substitute_def fall_back_def byte_place_def compose_lossy_byte numeral_2_eq_2)
  with conv none assms(2)
  have first: "unicode_to_bytes_round ?conv ?fl (Some pre) ?v [0xB0, m] maxlen (0, 0, buf) = Some (Inr (Go (1, 0, buf)))"
    by (simp add: unicode_to_bytes_round_def byte_place_def numeral_2_eq_2 compose_flag)
  have "CFToBytesCheapEightBitWrapper (to_byte NextStepLatin) [0xB0, m] 1 1 buf 0 (byte_room maxlen 0) = Inr (0, buf)"
    using accents_unmapped [OF assms(1)] assms(6,7)
      to_bytes_wrapper [where toBytes = "to_byte NextStepLatin" and f = "byte_of NextStepLatin" and src = 1 and n = 1
        and chars = "[0xB0, m]" and off = 0 and room = "byte_room maxlen 0" and buf = buf and ys = "[]"]
    by (simp add: conversions_total byte_room_def shown_def del: to_byte.simps)
  then have "unicode_to_bytes_round ?conv ?fl (Some pre) ?v [0xB0, m] maxlen (1, 0, buf) = Some (Inl OutOfBounds)"
    using assms(1,6)
    by (simp add: unicode_to_bytes_round_def byte_place_def compose_round_def counted_twice_def
        CFEncodingConverterFromDefinition.simps CFStringEncodingIsValidCombiningCharacterForLatin1_def [of "0xB0"])
  then have "unicode_to_bytes_loop ?conv ?fl (Some pre) ?v [0xB0, m] maxlen (1, 0, buf) = Some (Inl OutOfBounds)"
    using assms(6) by (intro unicode_loop_steps(3)) auto
  then have "unicode_to_bytes_loop ?conv ?fl (Some pre) ?v [0xB0, m] maxlen (0, 0, buf) = Some (Inl OutOfBounds)"
    using unicode_loop_steps(1) [OF _ _ first] assms(6) by simp
  then show ?thesis
    using accent_flags [OF assms(4,5) _ pre] by simp
qed

text \<open>
  Registering no fallbacks, which the header says brings the default ones back, takes the fallbacks
  of the encoding's record, which are null: the next character that needs one stops the process.
\<close>

lemma reset_fallbacks_crash:
  assumes "byte_of e c = None" "\<not> CFStringEncodingIsValidCombiningCharacterForLatin1 c"
    "flag_set flags kCFStringEncodingAllowLossyConversion" "CFStringEncodingMaskToLossyByte flags = 0"
    "0 < maxlen" "maxlen \<le> length buf"
  shows "CFStringEncodingUnicodeToBytes env (Some (EightBit e))
    (Some (CFStringEncodingRegisterFallbackProcedures (eight_bit_converter env e) None None)) flags [c] maxlen buf
    = Some (Inl NullPointer)"
proof -
  let ?reset = "CFStringEncodingRegisterFallbackProcedures (eight_bit_converter env e) None None"
  have conv: "cv_toBytes ?reset = cv_toBytes (eight_bit_converter env e)"
    "cd_isValidCombiningChar ?reset = combining_of e"  "cv_toBytesFallback ?reset = None"
    by (simp_all add: CFStringEncodingRegisterFallbackProcedures_def)
  have loop: "unicode_to_bytes_loop ?reset fl pre valid [c] maxlen (0, 0, buf) = Some (Inl NullPointer)"
    if "flag_set fl kCFStringEncodingAllowLossyConversion" "CFStringEncodingMaskToLossyByte fl = 0" for fl pre valid
  proof (rule unicode_loop_steps(3))
    have "converted (byte_of e) (take (min maxlen 1) [c]) = []"
      using assms(1,5) by (intro converted_none) (auto simp: hd_take)
    then have "cv_toBytes (eight_bit_converter env e) fl [c] 0 1 buf 0 (byte_room maxlen 0) = Inr (0, 0, buf)"
      using eight_bit_to_bytes [of 0 "[c]" maxlen buf _ e env fl] assms(5,6)
      by (simp add: shown_def del: CFEncodingConverterFromDefinition.simps)
    moreover have "cv_toBytes (eight_bit_converter env e) fl [c] 0 1 [] 0 0 = Inr (0, 0, [])"
      using no_bytes_for_unmapped [of 0 "[c]" e env fl] assms(1) by simp
    ultimately show "unicode_to_bytes_round ?reset fl pre valid [c] maxlen (0, 0, buf) = Some (Inl NullPointer)"
      using that assms(5)
      by (simp add: unicode_to_bytes_round_def byte_place_def bytes_filled_def conv substitute_def fall_back_def
          to_byte_fallback_def del: CFEncodingConverterFromDefinition.simps split: option.split)
  qed (use assms(5) in auto)
  show ?thesis
    using loop assms(3,4) by (simp add: eight_bit_front unicode_to_bytes_def compose_flag compose_lossy_byte)
qed

text \<open>
  A conversion from UTF-8 may lose a character and report success: with one unit of room, the four
  bytes of a character outside the basic plane are used, nothing is made of them, and the code is that
  of success.
\<close>

theorem utf8_character_lost:
  assumes "scalar n" "0x10000 \<le> n"
  shows "CFStringEncodingBytesToUnicode (Some (CFEncodingConverterFromDefinition env UTF8)) 0 (utf8 n) 1 [u]
         = Some (Inr (kCFStringEncodingConversionSuccess, 4, 0, [u]))"
proof -
  have flags: "plain_flags 0"
    by (simp add: plain_flags_def flag_set_def)
  have len: "length (utf8 n) = 4"
    using length_utf8(1) [of n] assms(2) by (simp add: utf8_def)
  have "CFFromUTF8 (uni_env.truncate env) 0 (utf8 n) 1 [u] = Inr (4, 0, [u])"
    using from_utf8_loses_character [OF flags assms, of "uni_env.truncate env" "[]" u] by simp
  then have "bytes_to_unicode_round (CFEncodingConverterFromDefinition env UTF8) 0 (utf8 n) 1 (0, 0, [u]) =
      Some (Inr (Go (4, 0, [u])))"
    using len by (simp add: bytes_to_unicode_round_def Let_def from_place_def room_left_def)
  then have "bytes_to_unicode_loop (CFEncodingConverterFromDefinition env UTF8) 0 (utf8 n) 1 (0, 0, [u]) =
      bytes_to_unicode_loop (CFEncodingConverterFromDefinition env UTF8) 0 (utf8 n) 1 (4, 0, [u])"
    using len by (intro bytes_loop_steps(1)) auto
  then show ?thesis
    using len by (simp add: CFStringEncodingBytesToUnicode_def bytes_loop_end)
qed

text \<open>An accent at the end or at the start of a text, in a lossy conversion with a substitute byte.\<close>

lemma accents_leave_text:
  assumes "e \<noteq> ASCII" "CFStringEncodingIsValidCombiningCharacterForLatin1 m" "byte_of e c = Some b"
    "precomposition env (ucast c) (ucast m) = 0xFFFD"
    "flag_set flags kCFStringEncodingAllowLossyConversion" "CFStringEncodingMaskToLossyByte flags \<noteq> 0"
    "\<not> flag_set flags kCFStringEncodingSubstituteCombinings" "\<not> flag_set flags kCFStringEncodingIgnoreCombinings"
    "2 \<le> maxlen" "maxlen \<le> length buf"
  shows "CFStringEncodingUnicodeToBytes env (Some (EightBit e)) (Some (eight_bit_converter env e)) flags
           [c, m] maxlen buf = Some (Inl OutOfBounds)"
    and "CFStringEncodingUnicodeToBytes env (Some (EightBit e)) (Some (eight_bit_converter env e)) flags
           [m, m] maxlen buf = Some (Inl OutOfBounds)"
proof -
  obtain pre where pre: "precompose_of e env = Some pre"
    "\<And>bytes off room. pre (c # m # []) 0 (Suc 1 + length []) bytes off room = Inr (0, bytes)"
    using compose_nothing [OF assms(1,4), of "[]"] by auto
  have flags: "flag_set (flags OR kCFStringEncodingComposeCombinings) kCFStringEncodingAllowLossyConversion"
    "CFStringEncodingMaskToLossyByte (flags OR kCFStringEncodingComposeCombinings) \<noteq> 0"
    using assms(5,6) by (simp_all add: compose_flag compose_lossy_byte)
  show "CFStringEncodingUnicodeToBytes env (Some (EightBit e)) (Some (eight_bit_converter env e)) flags
           [c, m] maxlen buf = Some (Inl OutOfBounds)"
    unfolding accent_flags [OF assms(7,8,1) pre(1)]
    using pre(2) by (intro accent_reads_beyond [OF assms(2,3) _ flags assms(9,10)]) (simp add: numeral_2_eq_2)
  show "CFStringEncodingUnicodeToBytes env (Some (EightBit e)) (Some (eight_bit_converter env e)) flags
           [m, m] maxlen buf = Some (Inl OutOfBounds)"
    unfolding accent_flags [OF assms(7,8,1) pre(1)] by (rule accent_reads_before [OF assms(2) flags assms(9,10)])
qed

section \<open>Concrete runs\<close>

text \<open>Tables with one composition, of e and the acute accent.\<close>

definition acute_env :: convert_env where
  "acute_env = \<lparr>hfs_decomposable = (\<lambda>_. False), decomposition = (\<lambda>c. [c]), non_base = (\<lambda>c. c = 0x301),
     precomposition = (\<lambda>a b. if a = 0x65 \<and> b = 0x301 then 0xE9 else 0xFFFD), decomposable = (\<lambda>_. False),
     decompose_utf8 = (\<lambda>_ _ _ bytes. Inr (0, 0, bytes))\<rparr>"

lemma acute: "CFStringEncodingIsValidCombiningCharacterForLatin1 0x301"
  by (simp add: CFStringEncodingIsValidCombiningCharacterForLatin1_def CFLatin1CombiningCharBitmap_def)

theorem unicode_to_bytes_exact_witness:
  "CFStringEncodingUnicodeToBytes acute_env (Some (EightBit MacRoman)) (Some (eight_bit_converter acute_env MacRoman)) 0
     [0x41, 0xE9, 0x4E00] 5 [0, 0, 0, 0, 0] = Some (Inr (1, 2, 2, [0x41, 0x8E, 0, 0, 0]))"
proof -
  have ys: "[0x41, 0x8E] = converted (byte_of MacRoman) (within 5 [0x41, 0xE9, 0x4E00])"
    by (simp add: byte_of_def to_byte_forms macRoman_from_uni_def within_def del: to_byte.simps)
  show ?thesis
    using unicode_to_bytes_exact [OF _ _ _ ys, of "[0, 0, 0, 0, 0]" 0 acute_env]
    by (simp add: CFStringEncodingIsValidCombiningCharacterForLatin1_def code_after_def result_codes shown_def overlay_def
        del: CFEncodingConverterFromDefinition.simps)
qed

theorem unicode_to_bytes_lossy_witness:
  "CFStringEncodingUnicodeToBytes acute_env (Some (EightBit ASCII)) (Some (eight_bit_converter acute_env ASCII)) 0x3F000001
     [0x41, 0xE9, 0x42] 2 [0, 0] = Some (Inr (2, 2, 2, [0x41, 0x3F]))"
proof -
  have ys: "[0x41, 0x3F] = map (with_substitute (byte_of ASCII) 0x3F) (within 2 [0x41, 0xE9, 0x42])"
    by (simp add: byte_of_def to_byte_forms within_def with_substitute_def del: to_byte.simps)
  show ?thesis
    using unicode_to_bytes_lossy [OF _ _ _ _ _ ys, of "[0, 0]" "0x3F000001" acute_env]
    by (simp add: CFStringEncodingIsValidCombiningCharacterForLatin1_def result_codes shown_def overlay_def flag_set_def
        kCFStringEncodingAllowLossyConversion_def CFStringEncodingMaskToLossyByte_def
        del: CFEncodingConverterFromDefinition.simps)
qed

theorem converter_roundtrip_witness:
  "\<exists>used bytes.
    CFStringEncodingUnicodeToBytes acute_env (Some (EightBit WinLatin1))
      (Some (CFEncodingConverterFromDefinition acute_env (EightBit WinLatin1))) 0 [0x20AC, 0xE9] 2 [0, 0]
      = Some (Inr (kCFStringEncodingConversionSuccess, length [0x20AC, 0xE9 :: unichar], int used, bytes)) \<and>
    CFStringEncodingBytesToUnicode (Some (CFEncodingConverterFromDefinition acute_env (EightBit WinLatin1))) 0
      (take used bytes) (length [0x20AC, 0xE9 :: unichar]) (replicate (length [0x20AC, 0xE9 :: unichar]) 0)
      = Some (Inr (kCFStringEncodingConversionSuccess, used, length [0x20AC, 0xE9 :: unichar], [0x20AC, 0xE9]))"
proof (rule converter_roundtrip)
  show "expressible (EightBit WinLatin1) [0x20AC, 0xE9]"
    by (simp add: convertible_def byte_of_def to_byte_forms cp1252_from_uni_def del: to_byte.simps)
qed simp_all

theorem accents_hang_witness:
  "CFStringEncodingUnicodeToBytes acute_env (Some (EightBit ISOLatin1))
     (Some (eight_bit_converter acute_env ISOLatin1)) 1 [0x71, 0x301, 0x301] 4 [0, 0, 0, 0] = None"
proof (rule accents_hang [where b = "0x71"])
  show "CFStringEncodingIsValidCombiningCharacterForLatin1 0x301"
    by (rule acute)
  show "byte_of ISOLatin1 0x71 = Some 0x71"
    by (simp add: byte_of_def to_byte_forms del: to_byte.simps)
qed (simp_all add: acute_env_def flag_set_def kCFStringEncodingAllowLossyConversion_def CFStringEncodingMaskToLossyByte_def
    kCFStringEncodingSubstituteCombinings_def kCFStringEncodingIgnoreCombinings_def)

theorem lossy_underruns_buffer_witness:
  "CFStringEncodingUnicodeToBytes acute_env (Some (EightBit NextStepLatin))
     (Some (eight_bit_converter acute_env NextStepLatin)) 1 [0xB0, 0x301] 4 [0, 0, 0, 0] = Some (Inl OutOfBounds)"
proof (rule lossy_underruns_buffer)
  show "CFStringEncodingIsValidCombiningCharacterForLatin1 0x301"
    by (rule acute)
qed (simp_all add: flag_set_def kCFStringEncodingAllowLossyConversion_def CFStringEncodingMaskToLossyByte_def
    kCFStringEncodingSubstituteCombinings_def kCFStringEncodingIgnoreCombinings_def)

theorem utf8_character_lost_witness:
  "CFStringEncodingBytesToUnicode (Some (CFEncodingConverterFromDefinition acute_env UTF8)) 0 [0xF0, 0x9F, 0x98, 0x80] 1 [0]
   = Some (Inr (0, 4, 0, [0]))"
proof -
  have "scalar 0x1F600" "utf8 0x1F600 = [0xF0, 0x9F, 0x98, 0x80]"
    by (simp_all add: scalar_def utf8_def)
  with utf8_character_lost [of "0x1F600" acute_env 0] show ?thesis
    by (simp add: result_codes del: CFEncodingConverterFromDefinition.simps)
qed

end
