(* ===== verification/CF_BasicHash.thy ===== *)
theory CF_BasicHash
  imports CF_Prelude
begin

unbundle bit_operations_syntax

text \<open>
  \<open>CFBasicHash.c\<close> with the bucket search of \<open>CFBasicHashFindBucket.m\<close>: the open-addressing hash table
  under the sets, bags and dictionaries, as compiled for 64-bit Mac OS X. The arrays of values, keys, counts and
  cached hashes are lists, empty before the first allocation; a table without keys, counts or cached
  hashes has \<open>None\<close> there. The record holds the callbacks themselves where the C structure holds
  their indexes in a table of all callbacks. Memory probes, collectable memory and the description texts are left out.
\<close>

section \<open>State\<close>

record CFBasicHashCallbacks =
  hcb_retainValue :: ptr
  hcb_retainKey :: ptr
  hcb_releaseValue :: ptr
  hcb_releaseKey :: ptr
  hcb_equateValues :: ptr
  hcb_equateKeys :: ptr
  hcb_hashKey :: ptr
  hcb_getIndirectKey :: ptr

record CFBasicHash =
  bh_mutable :: bool
  bh_mutations :: "16 word"
  bh_hash_style :: nat
  bh_counts_width :: nat
  bh_indirect_keys :: bool
  bh_used_buckets :: nat
  bh_deleted :: "16 word"
  bh_num_buckets_idx :: nat
  bh_null_rc :: bool
  bh_fast_grow :: bool
  bh_finalized :: bool
  bh_callbacks :: CFBasicHashCallbacks
  bh_values :: "ptr list"
  bh_keys :: "ptr list option"
  bh_counts :: "nat list option"
  bh_hashes :: "ptr list option"

text \<open>What the code at an address does, whether an allocation of some bytes succeeds, and whether the object is made.\<close>

record hash_env =
  he_retain :: "ptr \<Rightarrow> ptr \<Rightarrow> ptr"
  he_equal :: "ptr \<Rightarrow> ptr \<Rightarrow> ptr \<Rightarrow> bool"
  he_hash :: "ptr \<Rightarrow> ptr \<Rightarrow> ptr"
  he_indirect :: "ptr \<Rightarrow> ptr \<Rightarrow> ptr"
  he_alloc :: "nat \<Rightarrow> bool"
  he_create :: bool

record CFBasicHashBucket =
  bk_idx :: int
  bk_weak_key :: ptr
  bk_weak_value :: ptr
  bk_count :: nat

text \<open>The key and the value of a bucket that was not found are not set by the code, and not read: 0 here.\<close>

definition absent_bucket :: "int \<Rightarrow> CFBasicHashBucket" where
  "absent_bucket idx = \<lparr>bk_idx = idx, bk_weak_key = 0, bk_weak_value = 0, bk_count = 0\<rparr>"

definition CFBasicHashTableSizes :: "nat list" where
  "CFBasicHashTableSizes =
     [0, 3, 7, 13, 23, 41, 71, 127, 191, 251, 383, 631, 1087, 1723,
      2803, 4523, 7351, 11959, 19447, 31231, 50683, 81919, 132607,
      214519, 346607, 561109, 907759, 1468927, 2376191, 3845119,
      6221311, 10066421, 16287743, 26354171, 42641881, 68996069,
      111638519, 180634607, 292272623, 472907251,
      765180413, 1238087663, 2003267557, 3241355263, 5244622819] @ replicate 19 0"

definition CFBasicHashTableCapacities :: "nat list" where
  "CFBasicHashTableCapacities =
     [0, 3, 6, 11, 19, 32, 52, 85, 118, 155, 237, 390, 672, 1065,
      1732, 2795, 4543, 7391, 12019, 19302, 31324, 50629, 81956,
      132580, 214215, 346784, 561026, 907847, 1468567, 2376414,
      3844982, 6221390, 10066379, 16287773, 26354132, 42641916,
      68996399, 111638327, 180634415, 292272755,
      472907503, 765180257, 1238087439, 2003267722, 3241355160] @ replicate 19 0"

definition CFBasicHashPrimitiveRoots :: "nat list" where
  "CFBasicHashPrimitiveRoots =
     [0, 2, 3, 2, 5, 6, 7, 3, 19, 6, 5, 3, 3, 3,
      2, 5, 6, 3, 3, 6, 2, 3, 3,
      3, 5, 10, 3, 3, 22, 3,
      3, 3, 5, 2, 22, 2,
      11, 5, 5, 2,
      3, 10, 2, 3, 10,
      2, 3, 5, 3,
      3, 2, 7, 2,
      3, 3, 3, 2,
      3, 5, 5,
      2, 3, 2] @ [0]"

definition hash_size :: "nat \<Rightarrow> nat" where
  "hash_size idx = (if idx < 64 then CFBasicHashTableSizes ! idx else 0)"

definition CFBasicHashGetCapacityForNumBuckets :: "nat \<Rightarrow> nat" where
  "CFBasicHashGetCapacityForNumBuckets idx = (if idx < 64 then CFBasicHashTableCapacities ! idx else 0)"

definition CFBasicHashGetNumBucketsIndexForCapacity :: "nat \<Rightarrow> nat cf" where
  "CFBasicHashGetNumBucketsIndexForCapacity capacity =
     (case List.find (\<lambda>idx. capacity \<le> CFBasicHashGetCapacityForNumBuckets idx) [0..<64] of
        None \<Rightarrow> Inl Halt | Some idx \<Rightarrow> Inr idx)"

definition CFBasicHashGetNumBuckets :: "CFBasicHash \<Rightarrow> nat" where
  "CFBasicHashGetNumBuckets ht = hash_size (bh_num_buckets_idx ht)"

definition CFBasicHashGetCapacity :: "CFBasicHash \<Rightarrow> nat" where
  "CFBasicHashGetCapacity ht = CFBasicHashGetCapacityForNumBuckets (bh_num_buckets_idx ht)"

section \<open>Callbacks\<close>

definition calls :: "CFBasicHash \<Rightarrow> ptr \<Rightarrow> bool" where
  "calls ht func \<longleftrightarrow> func \<noteq> NULL \<and> \<not> bh_null_rc ht"

definition CFBasicHashImportValue :: "hash_env \<Rightarrow> CFBasicHash \<Rightarrow> ptr \<Rightarrow> ptr \<times> ref_event list" where
  "CFBasicHashImportValue env ht v =
     (let func = hcb_retainValue (bh_callbacks ht)
      in if calls ht func then (he_retain env func v, [Retained v]) else (v, []))"

definition CFBasicHashImportKey :: "hash_env \<Rightarrow> CFBasicHash \<Rightarrow> ptr \<Rightarrow> ptr \<times> ref_event list" where
  "CFBasicHashImportKey env ht k =
     (let func = hcb_retainKey (bh_callbacks ht)
      in if calls ht func then (he_retain env func k, [Retained k]) else (k, []))"

definition CFBasicHashEjectValue :: "CFBasicHash \<Rightarrow> ptr \<Rightarrow> ref_event list" where
  "CFBasicHashEjectValue ht v = (if calls ht (hcb_releaseValue (bh_callbacks ht)) then [Released v] else [])"

definition CFBasicHashEjectKey :: "CFBasicHash \<Rightarrow> ptr \<Rightarrow> ref_event list" where
  "CFBasicHashEjectKey ht k = (if calls ht (hcb_releaseKey (bh_callbacks ht)) then [Released k] else [])"

definition CFBasicHashTestEqualValue :: "hash_env \<Rightarrow> CFBasicHash \<Rightarrow> ptr \<Rightarrow> ptr \<Rightarrow> bool" where
  "CFBasicHashTestEqualValue env ht a b =
     (let func = hcb_equateValues (bh_callbacks ht) in if func = NULL then a = b else he_equal env func a b)"

definition CFBasicHashTestEqualKey :: "hash_env \<Rightarrow> CFBasicHash \<Rightarrow> ptr \<Rightarrow> ptr \<Rightarrow> bool" where
  "CFBasicHashTestEqualKey env ht a b =
     (let func = hcb_equateKeys (bh_callbacks ht) in if func = NULL then a = b else he_equal env func a b)"

definition CFBasicHashHashKey :: "hash_env \<Rightarrow> CFBasicHash \<Rightarrow> ptr \<Rightarrow> ptr" where
  "CFBasicHashHashKey env ht k =
     (let func = hcb_hashKey (bh_callbacks ht) in if func = NULL then k else he_hash env func k)"

definition CFBasicHashGetIndirectKey :: "hash_env \<Rightarrow> CFBasicHash \<Rightarrow> ptr \<Rightarrow> ptr" where
  "CFBasicHashGetIndirectKey env ht v =
     (let func = hcb_getIndirectKey (bh_callbacks ht) in if func = NULL then v else he_indirect env func v)"

section \<open>Cells\<close>

text \<open>
  A cell of the value and key arrays is 0 when it has never been used and all ones when it has been vacated; the two
  values themselves are stored as two other numbers.
\<close>

definition CFBasicHashSubABZero :: ptr where "CFBasicHashSubABZero = 0xa7baadb1"
definition CFBasicHashSubABOne :: ptr where "CFBasicHashSubABOne = 0xa5baadb9"

definition cell_encode :: "ptr \<Rightarrow> ptr" where
  "cell_encode x = (if x = 0 then CFBasicHashSubABZero else if x = - 1 then CFBasicHashSubABOne else x)"

definition cell_decode :: "ptr \<Rightarrow> ptr" where
  "cell_decode x = (if x = CFBasicHashSubABZero then 0 else if x = CFBasicHashSubABOne then - 1 else x)"

definition cell_index :: "int \<Rightarrow> nat cf" where
  "cell_index idx = (if idx < 0 then Inl OutOfBounds else Inr (nat idx))"

definition rdi :: "'a list \<Rightarrow> int \<Rightarrow> 'a cf" where
  "rdi xs idx = ebind (cell_index idx) (rd xs)"

definition wri :: "'a list \<Rightarrow> int \<Rightarrow> 'a \<Rightarrow> 'a list cf" where
  "wri xs idx x = ebind (cell_index idx) (\<lambda>i. wr xs i x)"

text \<open>An array that a table may not have.\<close>

definition the_array :: "'a option \<Rightarrow> 'a cf" where
  "the_array a = (case a of None \<Rightarrow> Inl NullPointer | Some x \<Rightarrow> Inr x)"

definition CFBasicHashGetValue :: "CFBasicHash \<Rightarrow> int \<Rightarrow> ptr cf" where
  "CFBasicHashGetValue ht idx = ebind (rdi (bh_values ht) idx) (\<lambda>v. Inr (cell_decode v))"

definition eject_old :: "ptr \<Rightarrow> (ptr \<Rightarrow> ref_event list) \<Rightarrow> ref_event list" where
  "eject_old old eject = (if old = 0 \<or> old = - 1 then [] else eject (cell_decode old))"

definition CFBasicHashSetValue_cell ::
  "CFBasicHash \<Rightarrow> int \<Rightarrow> ptr \<Rightarrow> bool \<Rightarrow> bool \<Rightarrow> (CFBasicHash \<times> ref_event list) cf" where
  "CFBasicHashSetValue_cell ht idx stack_value ignoreOld literal =
     ebind (if ignoreOld then Inr 0 else rdi (bh_values ht) idx) (\<lambda>old_value.
     ebind (wri (bh_values ht) idx (if literal then stack_value else cell_encode stack_value)) (\<lambda>values.
     Inr (ht\<lparr>bh_values := values\<rparr>, if ignoreOld then [] else eject_old old_value (CFBasicHashEjectValue ht))))"

definition CFBasicHashGetKey :: "hash_env \<Rightarrow> CFBasicHash \<Rightarrow> int \<Rightarrow> ptr cf" where
  "CFBasicHashGetKey env ht idx =
     (case bh_keys ht of
        Some keys \<Rightarrow> ebind (rdi keys idx) (\<lambda>k. Inr (cell_decode k))
      | None \<Rightarrow>
          ebind (CFBasicHashGetValue ht idx) (\<lambda>v.
          Inr (if bh_indirect_keys ht then CFBasicHashGetIndirectKey env ht v else v)))"

definition CFBasicHashSetKey_cell ::
  "CFBasicHash \<Rightarrow> int \<Rightarrow> ptr \<Rightarrow> bool \<Rightarrow> bool \<Rightarrow> (CFBasicHash \<times> ref_event list) cf" where
  "CFBasicHashSetKey_cell ht idx stack_key ignoreOld literal =
     (case bh_keys ht of
        None \<Rightarrow> Inl Halt
      | Some keys \<Rightarrow>
          ebind (if ignoreOld then Inr 0 else rdi keys idx) (\<lambda>old_key.
          ebind (wri keys idx (if literal then stack_key else cell_encode stack_key)) (\<lambda>keys.
          Inr (ht\<lparr>bh_keys := Some keys\<rparr>, if ignoreOld then [] else eject_old old_key (CFBasicHashEjectKey ht)))))"

definition CFBasicHashIsEmptyOrDeleted :: "CFBasicHash \<Rightarrow> int \<Rightarrow> bool cf" where
  "CFBasicHashIsEmptyOrDeleted ht idx = ebind (rdi (bh_values ht) idx) (\<lambda>v. Inr (v = 0 \<or> v = - 1))"

definition CFBasicHashIsDeleted :: "CFBasicHash \<Rightarrow> int \<Rightarrow> bool cf" where
  "CFBasicHashIsDeleted ht idx = ebind (rdi (bh_values ht) idx) (\<lambda>v. Inr (v = - 1))"

section \<open>Slot counts\<close>

text \<open>
  The counts are unsigned numbers of \<open>2 ^ width\<close> bytes; a count that would leave the signed range of its width
  makes the whole array wider.
\<close>

definition CFBasicHashGetSlotCount :: "CFBasicHash \<Rightarrow> int \<Rightarrow> nat cf" where
  "CFBasicHashGetSlotCount ht idx = ebind (the_array (bh_counts ht)) (\<lambda>counts. rdi counts idx)"

definition count_max :: "nat \<Rightarrow> nat" where "count_max width = 2 ^ (8 * 2 ^ width - 1) - 1"

definition CFBasicHashBumpCounts :: "hash_env \<Rightarrow> CFBasicHash \<Rightarrow> CFBasicHash cf" where
  "CFBasicHashBumpCounts env ht =
     (if bh_counts_width ht < 3 then
        (let width = bh_counts_width ht + 1 in
         if he_alloc env (CFBasicHashGetNumBuckets ht * 2 ^ width) then Inr (ht\<lparr>bh_counts_width := width\<rparr>) else Inl Halt)
      else Inl Halt)"

function CFBasicHashIncSlotCount :: "hash_env \<Rightarrow> CFBasicHash \<Rightarrow> int \<Rightarrow> CFBasicHash cf" where
  "CFBasicHashIncSlotCount env ht idx =
     ebind (the_array (bh_counts ht)) (\<lambda>counts.
     ebind (rdi counts idx) (\<lambda>val.
     if val < count_max (bh_counts_width ht) then
       ebind (wri counts idx (val + 1)) (\<lambda>counts. Inr (ht\<lparr>bh_counts := Some counts\<rparr>))
     else
       ebind (CFBasicHashBumpCounts env ht) (\<lambda>ht. CFBasicHashIncSlotCount env ht idx)))"
  by pat_completeness auto
termination
  by (relation "measure (\<lambda>(env, ht, idx). 4 - bh_counts_width ht)")
    (auto simp: CFBasicHashBumpCounts_def Let_def split: if_splits)

declare CFBasicHashIncSlotCount.simps [simp del]

definition CFBasicHashDecSlotCount :: "CFBasicHash \<Rightarrow> int \<Rightarrow> CFBasicHash cf" where
  "CFBasicHashDecSlotCount ht idx =
     ebind (the_array (bh_counts ht)) (\<lambda>counts.
     ebind (rdi counts idx) (\<lambda>val.
     ebind (wri counts idx (if val = 0 then 2 ^ (8 * 2 ^ bh_counts_width ht) - 1 else val - 1)) (\<lambda>counts.
     Inr (ht\<lparr>bh_counts := Some counts\<rparr>))))"

definition CFBasicHashGetBucket :: "hash_env \<Rightarrow> CFBasicHash \<Rightarrow> int \<Rightarrow> CFBasicHashBucket cf" where
  "CFBasicHashGetBucket env ht idx =
     ebind (CFBasicHashIsEmptyOrDeleted ht idx) (\<lambda>vacant.
     if vacant then Inr (absent_bucket idx)
     else
       ebind (if bh_counts ht \<noteq> None then CFBasicHashGetSlotCount ht idx else Inr 1) (\<lambda>cnt.
       ebind (CFBasicHashGetValue ht idx) (\<lambda>v.
       ebind (CFBasicHashGetKey env ht idx) (\<lambda>k.
       Inr \<lparr>bk_idx = idx, bk_weak_key = k, bk_weak_value = v, bk_count = cnt\<rparr>))))"

section \<open>The search for a bucket\<close>

text \<open>
  The probe sequences of the three hash styles: where the search starts, and the step from one probe, with the power of
  the primitive root that exponential hashing keeps, to the next.
\<close>

definition hash_h1 :: "nat \<Rightarrow> ptr \<Rightarrow> nat" where "hash_h1 num_buckets hash_code = unat hash_code mod num_buckets"

definition hash_h2 :: "nat \<Rightarrow> ptr \<Rightarrow> nat" where
  "hash_h2 num_buckets hash_code =
     (let h2 = (unat hash_code div num_buckets) mod num_buckets in if h2 = 0 then num_buckets - 1 else h2)"

definition next_probe :: "nat \<Rightarrow> nat \<Rightarrow> nat \<Rightarrow> nat \<Rightarrow> nat \<Rightarrow> nat \<times> nat \<Rightarrow> nat \<times> nat" where
  "next_probe style num_buckets h1 h2 pr = (\<lambda>(probe, acc).
     if style = 3 then
       (let probe = (h1 + h2 * acc) mod 2 ^ 64;
            acc = acc * pr mod 2 ^ 64
        in (if num_buckets \<le> probe then probe mod num_buckets else probe,
            if num_buckets \<le> acc then acc mod num_buckets else acc))
     else
       (let probe = probe + (if style = 2 then h2 else 1)
        in (if num_buckets \<le> probe then probe - num_buckets else probe, acc)))"

definition bucket_keys :: "CFBasicHash \<Rightarrow> ptr list" where
  "bucket_keys ht = (case bh_keys ht of Some keys \<Rightarrow> keys | None \<Rightarrow> bh_values ht)"

fun find_loop ::
  "hash_env \<Rightarrow> CFBasicHash \<Rightarrow> ptr \<Rightarrow> ptr \<Rightarrow> (nat \<times> nat \<Rightarrow> nat \<times> nat) \<Rightarrow> nat \<times> nat \<Rightarrow> int \<Rightarrow> nat \<Rightarrow> CFBasicHashBucket cf" where
  "find_loop env ht stack_key hash_code step (probe, acc) deleted_idx 0 = Inr (absent_bucket deleted_idx)"
| "find_loop env ht stack_key hash_code step (probe, acc) deleted_idx (Suc k) =
     ebind (rd (bucket_keys ht) probe) (\<lambda>curr_key.
     if curr_key = 0 then Inr (absent_bucket (if deleted_idx = kCFNotFound then int probe else deleted_idx))
     else if curr_key = - 1 then
       find_loop env ht stack_key hash_code step (step (probe, acc))
         (if deleted_idx = kCFNotFound then int probe else deleted_idx) k
     else
       (let curr_key = cell_decode curr_key;
            curr_key = (if bh_indirect_keys ht then CFBasicHashGetIndirectKey env ht curr_key else curr_key)
        in
        ebind (case bh_hashes ht of None \<Rightarrow> Inr True | Some hashes \<Rightarrow> ebind (rd hashes probe) (\<lambda>h. Inr (h = hash_code))) (\<lambda>same_hash.
        if curr_key = stack_key \<or> same_hash \<and> CFBasicHashTestEqualKey env ht curr_key stack_key then
          ebind (CFBasicHashGetValue ht (int probe)) (\<lambda>v.
          ebind (if bh_counts ht \<noteq> None then CFBasicHashGetSlotCount ht (int probe) else Inr 1) (\<lambda>cnt.
          Inr \<lparr>bk_idx = int probe, bk_weak_key = curr_key, bk_weak_value = v, bk_count = cnt\<rparr>))
        else find_loop env ht stack_key hash_code step (step (probe, acc)) deleted_idx k)))"

text \<open>While rehashing, every cell in use is known to hold another key, and none is vacated.\<close>

fun find_free_loop :: "ptr list \<Rightarrow> (nat \<times> nat \<Rightarrow> nat \<times> nat) \<Rightarrow> nat \<times> nat \<Rightarrow> nat \<Rightarrow> int cf" where
  "find_free_loop keys step (probe, acc) 0 = Inr kCFNotFound"
| "find_free_loop keys step (probe, acc) (Suc k) =
     ebind (rd keys probe) (\<lambda>curr_key.
     if curr_key = 0 then Inr (int probe) else find_free_loop keys step (step (probe, acc)) k)"

definition probe_start :: "nat \<Rightarrow> ptr \<Rightarrow> nat \<times> nat" where
  "probe_start idx hash_code = (hash_h1 (hash_size idx) hash_code, CFBasicHashPrimitiveRoots ! idx)"

definition probe_step :: "nat \<Rightarrow> nat \<Rightarrow> ptr \<Rightarrow> nat \<times> nat \<Rightarrow> nat \<times> nat" where
  "probe_step style idx hash_code =
     next_probe style (hash_size idx) (hash_h1 (hash_size idx) hash_code) (hash_h2 (hash_size idx) hash_code)
       (CFBasicHashPrimitiveRoots ! idx)"

definition CFBasicHashFindBucket_any :: "hash_env \<Rightarrow> CFBasicHash \<Rightarrow> ptr \<Rightarrow> CFBasicHashBucket cf" where
  "CFBasicHashFindBucket_any env ht stack_key =
     (let idx = bh_num_buckets_idx ht in
      if idx = 0 then Inr (absent_bucket kCFNotFound)
      else if bh_hash_style ht \<in> {1, 2, 3} then
        (let hash_code = CFBasicHashHashKey env ht stack_key
         in find_loop env ht stack_key hash_code (probe_step (bh_hash_style ht) idx hash_code)
              (probe_start idx hash_code) kCFNotFound (hash_size idx))
      else Inl Halt)"

definition CFBasicHashFindBucket_NoCollision :: "hash_env \<Rightarrow> CFBasicHash \<Rightarrow> ptr \<Rightarrow> ptr \<Rightarrow> int cf" where
  "CFBasicHashFindBucket_NoCollision env ht stack_key key_hash =
     (let idx = bh_num_buckets_idx ht in
      if idx = 0 then Inr kCFNotFound
      else if bh_hash_style ht \<in> {1, 2, 3} then
        (let hash_code = (if key_hash \<noteq> 0 then key_hash else CFBasicHashHashKey env ht stack_key)
         in find_free_loop (bucket_keys ht) (probe_step (bh_hash_style ht) idx hash_code) (probe_start idx hash_code) (hash_size idx))
      else Inl Halt)"

definition CFBasicHashFindBucket :: "hash_env \<Rightarrow> CFBasicHash \<Rightarrow> ptr \<Rightarrow> CFBasicHashBucket cf" where
  "CFBasicHashFindBucket env ht stack_key =
     (if stack_key = CFBasicHashSubABZero \<or> stack_key = CFBasicHashSubABOne then Inr (absent_bucket kCFNotFound)
      else CFBasicHashFindBucket_any env ht stack_key)"

section \<open>Reading\<close>

fun sum_slots :: "CFBasicHash \<Rightarrow> nat \<Rightarrow> nat \<Rightarrow> nat \<Rightarrow> nat cf" where
  "sum_slots ht acc idx 0 = Inr acc"
| "sum_slots ht acc idx (Suc k) =
     ebind (CFBasicHashGetSlotCount ht (int idx)) (\<lambda>c. sum_slots ht (acc + c) (idx + 1) k)"

definition CFBasicHashGetCount :: "CFBasicHash \<Rightarrow> nat cf" where
  "CFBasicHashGetCount ht =
     (if bh_counts ht \<noteq> None then sum_slots ht 0 0 (CFBasicHashGetNumBuckets ht) else Inr (bh_used_buckets ht))"

definition CFBasicHashGetCountOfKey :: "hash_env \<Rightarrow> CFBasicHash \<Rightarrow> ptr \<Rightarrow> nat cf" where
  "CFBasicHashGetCountOfKey env ht stack_key =
     (if stack_key = CFBasicHashSubABZero \<or> stack_key = CFBasicHashSubABOne \<or> bh_used_buckets ht = 0 then Inr 0
      else ebind (CFBasicHashFindBucket_any env ht stack_key) (\<lambda>bkt. Inr (bk_count bkt)))"

text \<open>The block is given its state and says whether to go on.\<close>

fun apply_loop ::
  "hash_env \<Rightarrow> CFBasicHash \<Rightarrow> (CFBasicHashBucket \<Rightarrow> 's \<Rightarrow> ('s \<times> bool) cf) \<Rightarrow> 's \<Rightarrow> nat \<Rightarrow> nat \<Rightarrow> nat \<Rightarrow> 's cf" where
  "apply_loop env ht block s used idx 0 = Inr s"
| "apply_loop env ht block s used idx (Suc k) =
     (if used = 0 then Inr s
      else
        ebind (CFBasicHashGetBucket env ht (int idx)) (\<lambda>bkt.
        if 0 < bk_count bkt then
          ebind (block bkt s) (\<lambda>(s, go_on). if go_on then apply_loop env ht block s (used - 1) (idx + 1) k else Inr s)
        else apply_loop env ht block s used (idx + 1) k))"

definition CFBasicHashApply ::
  "hash_env \<Rightarrow> CFBasicHash \<Rightarrow> (CFBasicHashBucket \<Rightarrow> 's \<Rightarrow> ('s \<times> bool) cf) \<Rightarrow> 's \<Rightarrow> 's cf" where
  "CFBasicHashApply env ht block s = apply_loop env ht block s (bh_used_buckets ht) 0 (CFBasicHashGetNumBuckets ht)"

fun apply_indexed_loop ::
  "hash_env \<Rightarrow> CFBasicHash \<Rightarrow> (CFBasicHashBucket \<Rightarrow> 's \<Rightarrow> ('s \<times> bool) cf) \<Rightarrow> 's \<Rightarrow> int \<Rightarrow> nat \<Rightarrow> 's cf" where
  "apply_indexed_loop env ht block s idx 0 = Inr s"
| "apply_indexed_loop env ht block s idx (Suc k) =
     ebind (CFBasicHashGetBucket env ht idx) (\<lambda>bkt.
     if 0 < bk_count bkt then
       ebind (block bkt s) (\<lambda>(s, go_on). if go_on then apply_indexed_loop env ht block s (idx + 1) k else Inr s)
     else apply_indexed_loop env ht block s (idx + 1) k)"

definition CFBasicHashApplyIndexed ::
  "hash_env \<Rightarrow> CFBasicHash \<Rightarrow> int \<Rightarrow> int \<Rightarrow> (CFBasicHashBucket \<Rightarrow> 's \<Rightarrow> ('s \<times> bool) cf) \<Rightarrow> 's \<Rightarrow> 's cf" where
  "CFBasicHashApplyIndexed env ht location len block s =
     (if len < 0 then Inl Halt
      else if len = 0 then Inr s
      else if int (CFBasicHashGetNumBuckets ht) < location + len then Inl Halt
      else apply_indexed_loop env ht block s location (nat len))"

definition CFBasicHashGetCountOfValue :: "hash_env \<Rightarrow> CFBasicHash \<Rightarrow> ptr \<Rightarrow> nat cf" where
  "CFBasicHashGetCountOfValue env ht stack_value =
     (if stack_value = CFBasicHashSubABZero \<or> bh_used_buckets ht = 0 then Inr 0
      else if bh_keys ht = None then ebind (CFBasicHashFindBucket_any env ht stack_value) (\<lambda>bkt. Inr (bk_count bkt))
      else
        CFBasicHashApply env ht (\<lambda>bkt total.
          Inr (if stack_value = bk_weak_value bkt \<or> CFBasicHashTestEqualValue env ht (bk_weak_value bkt) stack_value
               then total + bk_count bkt else total, True)) 0)"

definition CFBasicHashesAreEqual :: "hash_env \<Rightarrow> CFBasicHash \<Rightarrow> CFBasicHash \<Rightarrow> bool cf" where
  "CFBasicHashesAreEqual env ht1 ht2 =
     ebind (CFBasicHashGetCount ht1) (\<lambda>cnt1.
     ebind (CFBasicHashGetCount ht2) (\<lambda>cnt2.
     if cnt1 \<noteq> cnt2 then Inr False
     else if cnt1 = 0 then Inr True
     else
       CFBasicHashApply env ht1 (\<lambda>bkt1 equal.
         ebind (CFBasicHashFindBucket_any env ht2 (bk_weak_key bkt1)) (\<lambda>bkt2.
         if bk_count bkt1 \<noteq> bk_count bkt2 then Inr (False, False)
         else if bh_keys ht1 \<noteq> None \<and> bk_weak_value bkt1 \<noteq> bk_weak_value bkt2 \<and>
                 \<not> CFBasicHashTestEqualValue env ht1 (bk_weak_value bkt1) (bk_weak_value bkt2)
              then Inr (False, False)
         else Inr (equal, True))) True))"

definition CFBasicHashHash :: "CFBasicHash \<Rightarrow> nat cf" where "CFBasicHashHash ht = CFBasicHashGetCount ht"

text \<open>The elements, at most \<open>bufferslen\<close> of them, as pairs of a value and a key; a bucket counts as often as its count says.\<close>

fun get_elements_loop ::
  "hash_env \<Rightarrow> CFBasicHash \<Rightarrow> nat \<Rightarrow> nat \<Rightarrow> nat \<Rightarrow> nat \<Rightarrow> (ptr \<times> ptr) list cf" where
  "get_elements_loop env ht room used idx 0 = Inr []"
| "get_elements_loop env ht room used idx (Suc k) =
     (if used = 0 \<or> room = 0 then Inr []
      else
        ebind (CFBasicHashGetBucket env ht (int idx)) (\<lambda>bkt.
        if 0 < bk_count bkt then
          (let n = min (bk_count bkt) room in
           ebind (get_elements_loop env ht (room - n) (used - 1) (idx + 1) k) (\<lambda>rest.
           Inr (replicate n (bk_weak_value bkt, bk_weak_key bkt) @ rest)))
        else get_elements_loop env ht room used (idx + 1) k))"

definition CFBasicHashGetElements :: "hash_env \<Rightarrow> CFBasicHash \<Rightarrow> nat \<Rightarrow> (ptr \<times> ptr) list cf" where
  "CFBasicHashGetElements env ht bufferslen =
     get_elements_loop env ht bufferslen (bh_used_buckets ht) 0 (CFBasicHashGetNumBuckets ht)"

text \<open>Fast enumeration from bucket \<open>state\<close> on: the keys found and the bucket to go on from.\<close>

fun enumerate_loop :: "hash_env \<Rightarrow> CFBasicHash \<Rightarrow> nat \<Rightarrow> nat \<Rightarrow> nat \<Rightarrow> nat \<Rightarrow> (nat \<times> ptr list) cf" where
  "enumerate_loop env ht room used idx 0 = Inr (idx, [])"
| "enumerate_loop env ht room used idx (Suc k) =
     (if used = 0 \<or> room = 0 then Inr (idx, [])
      else
        ebind (CFBasicHashGetBucket env ht (int idx)) (\<lambda>bkt.
        if 0 < bk_count bkt then
          ebind (enumerate_loop env ht (room - 1) (used - 1) (idx + 1) k) (\<lambda>(state, items).
          Inr (state, bk_weak_key bkt # items))
        else enumerate_loop env ht room used (idx + 1) k))"

definition CFBasicHashFastEnumeration :: "hash_env \<Rightarrow> CFBasicHash \<Rightarrow> nat \<Rightarrow> nat \<Rightarrow> (nat \<times> ptr list) cf" where
  "CFBasicHashFastEnumeration env ht state cnt =
     enumerate_loop env ht cnt (bh_used_buckets ht) state (CFBasicHashGetNumBuckets ht - state)"

section \<open>Emptying and rehashing\<close>

fun drain_loop :: "CFBasicHash \<Rightarrow> ptr list \<Rightarrow> ptr list option \<Rightarrow> nat \<Rightarrow> nat \<Rightarrow> ref_event list cf" where
  "drain_loop ht old_values old_keys idx 0 = Inr []"
| "drain_loop ht old_values old_keys idx (Suc k) =
     ebind (rd old_values idx) (\<lambda>v.
     ebind (if v \<noteq> 0 \<and> v \<noteq> - 1 then
              (case old_keys of
                 None \<Rightarrow> Inr (CFBasicHashEjectValue ht (cell_decode v))
               | Some keys \<Rightarrow>
                   ebind (rd keys idx) (\<lambda>key.
                   Inr (CFBasicHashEjectValue ht (cell_decode v) @ CFBasicHashEjectKey ht (cell_decode key))))
            else Inr []) (\<lambda>evs.
     ebind (drain_loop ht old_values old_keys (idx + 1) k) (\<lambda>rest. Inr (evs @ rest))))"

definition CFBasicHashDrain :: "CFBasicHash \<Rightarrow> (CFBasicHash \<times> ref_event list) cf" where
  "CFBasicHashDrain ht =
     (let ht' = ht\<lparr>bh_values := [], bh_keys := map_option (\<lambda>_. []) (bh_keys ht), bh_counts := map_option (\<lambda>_. []) (bh_counts ht),
                   bh_hashes := map_option (\<lambda>_. []) (bh_hashes ht), bh_mutations := bh_mutations ht + 1,
                   bh_num_buckets_idx := 0, bh_used_buckets := 0, bh_deleted := 0\<rparr>
      in ebind (drain_loop ht' (bh_values ht) (bh_keys ht) 0 (CFBasicHashGetNumBuckets ht)) (\<lambda>evs. Inr (ht', evs)))"

text \<open>One bucket of the old table goes to its place in the new one.\<close>

definition rehash_bucket :: "hash_env \<Rightarrow> CFBasicHash \<Rightarrow> CFBasicHash \<Rightarrow> nat \<Rightarrow> (CFBasicHash \<times> ref_event list) cf" where
  "rehash_bucket env old ht idx =
     ebind (rd (bh_values old) idx) (\<lambda>v.
     if v \<noteq> 0 \<and> v \<noteq> - 1 then
       (let stack_value = cell_decode v in
        ebind (case bh_keys old of None \<Rightarrow> Inr stack_value | Some keys \<Rightarrow> ebind (rd keys idx) (\<lambda>k. Inr (cell_decode k))) (\<lambda>k.
        let stack_key = (if bh_indirect_keys ht then CFBasicHashGetIndirectKey env ht stack_value else k) in
        ebind (case bh_hashes old of None \<Rightarrow> Inr 0 | Some hashes \<Rightarrow> rd hashes idx) (\<lambda>old_hash.
        ebind (CFBasicHashFindBucket_NoCollision env ht stack_key old_hash) (\<lambda>bkt_idx.
        ebind (CFBasicHashSetValue_cell ht bkt_idx stack_value False False) (\<lambda>(ht, evs1).
        ebind (if bh_keys old \<noteq> None then CFBasicHashSetKey_cell ht bkt_idx stack_key False False else Inr (ht, [])) (\<lambda>(ht, evs2).
        ebind (case bh_counts old of
                 None \<Rightarrow> Inr ht
               | Some counts \<Rightarrow>
                   ebind (rd counts idx) (\<lambda>c. ebind (the_array (bh_counts ht)) (\<lambda>new.
                   ebind (wri new bkt_idx c) (\<lambda>new. Inr (ht\<lparr>bh_counts := Some new\<rparr>))))) (\<lambda>ht.
        ebind (case bh_hashes old of
                 None \<Rightarrow> Inr ht
               | Some hashes \<Rightarrow>
                   ebind (the_array (bh_hashes ht)) (\<lambda>new.
                   ebind (wri new bkt_idx old_hash) (\<lambda>new. Inr (ht\<lparr>bh_hashes := Some new\<rparr>)))) (\<lambda>ht.
        Inr (ht, evs1 @ evs2)))))))))
     else Inr (ht, []))"

fun rehash_loop :: "hash_env \<Rightarrow> CFBasicHash \<Rightarrow> CFBasicHash \<Rightarrow> nat \<Rightarrow> nat \<Rightarrow> (CFBasicHash \<times> ref_event list) cf" where
  "rehash_loop env old ht idx 0 = Inr (ht, [])"
| "rehash_loop env old ht idx (Suc k) =
     ebind (rehash_bucket env old ht idx) (\<lambda>(ht, evs).
     ebind (rehash_loop env old ht (idx + 1) k) (\<lambda>(ht, rest). Inr (ht, evs @ rest)))"

definition CFBasicHashRehash :: "hash_env \<Rightarrow> CFBasicHash \<Rightarrow> int \<Rightarrow> (CFBasicHash \<times> ref_event list) cf" where
  "CFBasicHashRehash env ht newItemCount =
     ebind (if newItemCount \<noteq> 0 then
              (let items = (if newItemCount < 0 then 0 else nat newItemCount) in
               ebind (CFBasicHashGetNumBucketsIndexForCapacity (bh_used_buckets ht + items)) (\<lambda>idx.
               Inr (if items = 1 \<and> bh_fast_grow ht then idx + 1 else idx)))
            else Inr (bh_num_buckets_idx ht)) (\<lambda>new_idx.
     let n = hash_size new_idx in
     if 0 < n \<and> \<not> (he_alloc env (n * 8) \<and> (bh_counts ht \<noteq> None \<longrightarrow> he_alloc env (n * 2 ^ bh_counts_width ht)))
     then Inl Halt
     else
       rehash_loop env ht
         (ht\<lparr>bh_num_buckets_idx := new_idx, bh_deleted := 0, bh_values := replicate n 0,
             bh_keys := map_option (\<lambda>_. replicate n 0) (bh_keys ht), bh_counts := map_option (\<lambda>_. replicate n 0) (bh_counts ht),
             bh_hashes := map_option (\<lambda>_. replicate n 0) (bh_hashes ht)\<rparr>) 0 (CFBasicHashGetNumBuckets ht))"

definition CFBasicHashSetCapacity :: "hash_env \<Rightarrow> CFBasicHash \<Rightarrow> int \<Rightarrow> (CFBasicHash \<times> ref_event list) cf" where
  "CFBasicHashSetCapacity env ht capacity =
     (if \<not> bh_mutable ht then Inl Halt
      else if int (bh_used_buckets ht) < capacity then
        CFBasicHashRehash env (ht\<lparr>bh_mutations := bh_mutations ht + 1\<rparr>) (capacity - int (bh_used_buckets ht))
      else Inr (ht, []))"

section \<open>Adding, replacing and removing\<close>

text \<open>\<open>when_array\<close> runs an update of an array the table may not have.\<close>

definition when_array :: "'a option \<Rightarrow> 'b \<Rightarrow> 'b cf \<Rightarrow> 'b cf" where
  "when_array a x m = (if a = None then Inr x else m)"

definition set_hash_cell :: "CFBasicHash \<Rightarrow> int \<Rightarrow> ptr \<Rightarrow> CFBasicHash cf" where
  "set_hash_cell ht idx h =
     ebind (the_array (bh_hashes ht)) (\<lambda>hashes. ebind (wri hashes idx h) (\<lambda>hashes. Inr (ht\<lparr>bh_hashes := Some hashes\<rparr>)))"

definition CFBasicHashAddValue_bucket ::
  "hash_env \<Rightarrow> CFBasicHash \<Rightarrow> int \<Rightarrow> ptr \<Rightarrow> ptr \<Rightarrow> (CFBasicHash \<times> ref_event list) cf" where
  "CFBasicHashAddValue_bucket env ht bkt_idx stack_key stack_value =
     (let ht = ht\<lparr>bh_mutations := bh_mutations ht + 1\<rparr> in
      ebind (if CFBasicHashGetCapacity ht < (bh_used_buckets ht + 1) mod 2 ^ 32 then
               ebind (CFBasicHashRehash env ht 1) (\<lambda>(ht, evs).
               ebind (CFBasicHashFindBucket_NoCollision env ht stack_key 0) (\<lambda>idx. Inr (ht, evs, idx)))
             else
               ebind (CFBasicHashIsDeleted ht bkt_idx) (\<lambda>deleted.
               Inr (if deleted then ht\<lparr>bh_deleted := bh_deleted ht - 1\<rparr> else ht, [], bkt_idx))) (\<lambda>(ht, evs0, bkt_idx).
      let key_hash = (if bh_hashes ht \<noteq> None then CFBasicHashHashKey env ht stack_key else 0);
          (v, evs1) = CFBasicHashImportValue env ht stack_value;
          (k, evs2) = (if bh_keys ht \<noteq> None then CFBasicHashImportKey env ht stack_key else (stack_key, []))
      in
      ebind (CFBasicHashSetValue_cell ht bkt_idx v False False) (\<lambda>(ht, evs3).
      ebind (when_array (bh_keys ht) (ht, []) (CFBasicHashSetKey_cell ht bkt_idx k False False)) (\<lambda>(ht, evs4).
      ebind (when_array (bh_counts ht) ht (CFBasicHashIncSlotCount env ht bkt_idx)) (\<lambda>ht.
      ebind (when_array (bh_hashes ht) ht (set_hash_cell ht bkt_idx key_hash)) (\<lambda>ht.
      Inr (ht\<lparr>bh_used_buckets := (bh_used_buckets ht + 1) mod 2 ^ 32\<rparr>, evs0 @ evs1 @ evs2 @ evs3 @ evs4)))))))"

definition CFBasicHashReplaceValue_bucket ::
  "hash_env \<Rightarrow> CFBasicHash \<Rightarrow> int \<Rightarrow> ptr \<Rightarrow> ptr \<Rightarrow> (CFBasicHash \<times> ref_event list) cf" where
  "CFBasicHashReplaceValue_bucket env ht bkt_idx stack_key stack_value =
     (let ht = ht\<lparr>bh_mutations := bh_mutations ht + 1\<rparr>;
          (v, evs1) = CFBasicHashImportValue env ht stack_value;
          (k, evs2) = (if bh_keys ht \<noteq> None then CFBasicHashImportKey env ht stack_key else (stack_key, []))
      in
      ebind (CFBasicHashSetValue_cell ht bkt_idx v False False) (\<lambda>(ht, evs3).
      ebind (when_array (bh_keys ht) (ht, []) (CFBasicHashSetKey_cell ht bkt_idx k False False)) (\<lambda>(ht, evs4).
      Inr (ht, evs1 @ evs2 @ evs3 @ evs4))))"

definition shrinks :: "CFBasicHash \<Rightarrow> bool" where
  "shrinks ht =
     (let idx = bh_num_buckets_idx ht in
      if bh_fast_grow ht then 5 < idx \<and> bh_used_buckets ht < CFBasicHashGetCapacityForNumBuckets (idx - 5)
      else 2 < idx \<and> bh_used_buckets ht < CFBasicHashGetCapacityForNumBuckets (idx - 2))"

definition CFBasicHashRemoveValue_bucket :: "hash_env \<Rightarrow> CFBasicHash \<Rightarrow> int \<Rightarrow> (CFBasicHash \<times> ref_event list) cf" where
  "CFBasicHashRemoveValue_bucket env ht bkt_idx =
     ebind (CFBasicHashSetValue_cell (ht\<lparr>bh_mutations := bh_mutations ht + 1\<rparr>) bkt_idx (- 1) False True) (\<lambda>(ht, evs1).
     ebind (when_array (bh_keys ht) (ht, []) (CFBasicHashSetKey_cell ht bkt_idx (- 1) False True)) (\<lambda>(ht, evs2).
     ebind (when_array (bh_counts ht) ht (CFBasicHashDecSlotCount ht bkt_idx)) (\<lambda>ht.
     ebind (when_array (bh_hashes ht) ht (set_hash_cell ht bkt_idx 0)) (\<lambda>ht.
     let ht = ht\<lparr>bh_used_buckets := (if bh_used_buckets ht = 0 then 2 ^ 32 - 1 else bh_used_buckets ht - 1),
                 bh_deleted := bh_deleted ht + 1\<rparr>;
         num_buckets = CFBasicHashGetNumBuckets ht
     in
     ebind (if shrinks ht then CFBasicHashRehash env ht (- 1)
            else if bh_deleted ht = 0 \<or> 20 \<le> num_buckets \<and> num_buckets div 4 \<le> unat (bh_deleted ht)
            then CFBasicHashRehash env ht 0
            else Inr (ht, [])) (\<lambda>(ht, evs3).
     Inr (ht, evs1 @ evs2 @ evs3))))))"

definition is_sentinel :: "ptr \<Rightarrow> bool" where
  "is_sentinel x \<longleftrightarrow> x = CFBasicHashSubABZero \<or> x = CFBasicHashSubABOne"

definition bump_mutations :: "CFBasicHash \<Rightarrow> CFBasicHash" where
  "bump_mutations ht = ht\<lparr>bh_mutations := bh_mutations ht + 1\<rparr>"

definition LONG_MAX :: nat where "LONG_MAX = 2 ^ 63 - 1"

definition CFBasicHashAddValue :: "hash_env \<Rightarrow> CFBasicHash \<Rightarrow> ptr \<Rightarrow> ptr \<Rightarrow> (bool \<times> CFBasicHash \<times> ref_event list) cf" where
  "CFBasicHashAddValue env ht stack_key stack_value =
     (if \<not> bh_mutable ht \<or> is_sentinel stack_key \<or> is_sentinel stack_value then Inl Halt
      else
        ebind (CFBasicHashFindBucket_any env ht stack_key) (\<lambda>bkt.
        if 0 < bk_count bkt then
          (if bh_counts ht \<noteq> None \<and> bk_count bkt < LONG_MAX then
             ebind (CFBasicHashIncSlotCount env (bump_mutations ht) (bk_idx bkt)) (\<lambda>ht. Inr (True, ht, []))
           else Inr (False, bump_mutations ht, []))
        else
          ebind (CFBasicHashAddValue_bucket env ht (bk_idx bkt) stack_key stack_value) (\<lambda>(ht, evs). Inr (True, ht, evs))))"

definition CFBasicHashReplaceValue :: "hash_env \<Rightarrow> CFBasicHash \<Rightarrow> ptr \<Rightarrow> ptr \<Rightarrow> (CFBasicHash \<times> ref_event list) cf" where
  "CFBasicHashReplaceValue env ht stack_key stack_value =
     (if \<not> bh_mutable ht \<or> is_sentinel stack_key \<or> is_sentinel stack_value then Inl Halt
      else
        ebind (CFBasicHashFindBucket_any env ht stack_key) (\<lambda>bkt.
        if 0 < bk_count bkt then CFBasicHashReplaceValue_bucket env ht (bk_idx bkt) stack_key stack_value else Inr (ht, [])))"

definition CFBasicHashSetValue :: "hash_env \<Rightarrow> CFBasicHash \<Rightarrow> ptr \<Rightarrow> ptr \<Rightarrow> (CFBasicHash \<times> ref_event list) cf" where
  "CFBasicHashSetValue env ht stack_key stack_value =
     (if \<not> bh_mutable ht \<or> is_sentinel stack_key \<or> is_sentinel stack_value then Inl Halt
      else
        ebind (CFBasicHashFindBucket_any env ht stack_key) (\<lambda>bkt.
        if 0 < bk_count bkt then CFBasicHashReplaceValue_bucket env ht (bk_idx bkt) stack_key stack_value
        else CFBasicHashAddValue_bucket env ht (bk_idx bkt) stack_key stack_value))"

text \<open>What removing does with the bucket it finds; the result is the count the bucket had.\<close>

definition remove_found :: "hash_env \<Rightarrow> CFBasicHash \<Rightarrow> CFBasicHashBucket \<Rightarrow> (nat \<times> CFBasicHash \<times> ref_event list) cf" where
  "remove_found env ht bkt =
     ebind (if 1 < bk_count bkt then
              (if bh_counts ht \<noteq> None \<and> bk_count bkt < LONG_MAX
               then ebind (CFBasicHashDecSlotCount (bump_mutations ht) (bk_idx bkt)) (\<lambda>ht. Inr (ht, []))
               else Inr (bump_mutations ht, []))
            else if 0 < bk_count bkt then CFBasicHashRemoveValue_bucket env ht (bk_idx bkt)
            else Inr (ht, [])) (\<lambda>(ht, evs).
     Inr (bk_count bkt, ht, evs))"

definition CFBasicHashRemoveValue :: "hash_env \<Rightarrow> CFBasicHash \<Rightarrow> ptr \<Rightarrow> (nat \<times> CFBasicHash \<times> ref_event list) cf" where
  "CFBasicHashRemoveValue env ht stack_key =
     (if \<not> bh_mutable ht then Inl Halt
      else if is_sentinel stack_key then Inr (0, ht, [])
      else ebind (CFBasicHashFindBucket_any env ht stack_key) (remove_found env ht))"

definition CFBasicHashRemoveValueAtIndex :: "hash_env \<Rightarrow> CFBasicHash \<Rightarrow> int \<Rightarrow> (nat \<times> CFBasicHash \<times> ref_event list) cf" where
  "CFBasicHashRemoveValueAtIndex env ht idx =
     (if \<not> bh_mutable ht then Inl Halt else ebind (CFBasicHashGetBucket env ht idx) (remove_found env ht))"

definition CFBasicHashRemoveAllValues :: "CFBasicHash \<Rightarrow> (CFBasicHash \<times> ref_event list) cf" where
  "CFBasicHashRemoveAllValues ht =
     (if \<not> bh_mutable ht then Inl Halt
      else if bh_num_buckets_idx ht = 0 then Inr (ht, [])
      else CFBasicHashDrain ht)"

definition CFBasicHashDeallocate :: "CFBasicHash \<Rightarrow> (CFBasicHash \<times> ref_event list) cf" where
  "CFBasicHashDeallocate ht = (if bh_finalized ht then Inl Halt else CFBasicHashDrain (ht\<lparr>bh_finalized := True\<rparr>))"

definition CFBasicHashSuppressRC :: "CFBasicHash \<Rightarrow> CFBasicHash" where
  "CFBasicHashSuppressRC ht = ht\<lparr>bh_null_rc := True\<rparr>"

definition CFBasicHashUnsuppressRC :: "CFBasicHash \<Rightarrow> CFBasicHash" where
  "CFBasicHashUnsuppressRC ht = ht\<lparr>bh_null_rc := False\<rparr>"

definition CFBasicHashMakeImmutable :: "CFBasicHash \<Rightarrow> CFBasicHash" where
  "CFBasicHashMakeImmutable ht = ht\<lparr>bh_mutable := False\<rparr>"

section \<open>Numbered values\<close>

text \<open>Tables that number their keys: adding at a number moves the numbers from there on up, removing moves them down.\<close>

fun renumber_loop :: "CFBasicHash \<Rightarrow> (ptr \<Rightarrow> ptr option) \<Rightarrow> nat \<Rightarrow> nat \<Rightarrow> CFBasicHash cf" where
  "renumber_loop ht f idx 0 = Inr ht"
| "renumber_loop ht f idx (Suc k) =
     ebind (CFBasicHashIsEmptyOrDeleted ht (int idx)) (\<lambda>vacant.
     if vacant then renumber_loop ht f (idx + 1) k
     else
       ebind (CFBasicHashGetValue ht (int idx)) (\<lambda>v.
       case f v of
         None \<Rightarrow> renumber_loop ht f (idx + 1) k
       | Some w \<Rightarrow>
           ebind (CFBasicHashSetValue_cell ht (int idx) w True False) (\<lambda>(ht, _).
           renumber_loop (bump_mutations ht) f (idx + 1) k)))"

definition CFBasicHashAddIntValueAndInc ::
  "hash_env \<Rightarrow> CFBasicHash \<Rightarrow> ptr \<Rightarrow> ptr \<Rightarrow> (bool \<times> CFBasicHash \<times> ref_event list) cf" where
  "CFBasicHashAddIntValueAndInc env ht stack_key int_value =
     (if \<not> bh_mutable ht \<or> is_sentinel stack_key \<or> is_sentinel int_value then Inl Halt
      else
        ebind (CFBasicHashFindBucket_any env ht stack_key) (\<lambda>bkt.
        if 0 < bk_count bkt then Inr (False, bump_mutations ht, [])
        else
          ebind (if CFBasicHashGetCapacity ht < (bh_used_buckets ht + 1) mod 2 ^ 32 then
                   ebind (CFBasicHashRehash env ht 1) (\<lambda>(ht, evs).
                   ebind (CFBasicHashFindBucket_NoCollision env ht stack_key 0) (\<lambda>idx. Inr (ht, evs, idx)))
                 else Inr (ht, [], bk_idx bkt)) (\<lambda>(ht, evs0, idx).
          ebind (renumber_loop ht (\<lambda>v. if int_value \<le> v then Some (v + 1) else None) 0 (CFBasicHashGetNumBuckets ht)) (\<lambda>ht.
          ebind (CFBasicHashAddValue_bucket env ht idx stack_key int_value) (\<lambda>(ht, evs). Inr (True, ht, evs0 @ evs))))))"

fun last_bucket_with :: "ptr list \<Rightarrow> ptr \<Rightarrow> int \<Rightarrow> nat \<Rightarrow> nat \<Rightarrow> int cf" where
  "last_bucket_with values int_value found idx 0 = Inr found"
| "last_bucket_with values int_value found idx (Suc k) =
     ebind (rd values idx) (\<lambda>v.
     last_bucket_with values int_value (if v \<noteq> 0 \<and> v \<noteq> - 1 \<and> cell_decode v = int_value then int idx else found) (idx + 1) k)"

text \<open>The loop of the code finds the bucket and renumbers in one pass; it looks at every cell once, before changing it.\<close>

definition CFBasicHashRemoveIntValueAndDec :: "hash_env \<Rightarrow> CFBasicHash \<Rightarrow> ptr \<Rightarrow> (CFBasicHash \<times> ref_event list) cf" where
  "CFBasicHashRemoveIntValueAndDec env ht int_value =
     (if \<not> bh_mutable ht \<or> is_sentinel int_value then Inl Halt
      else
        ebind (last_bucket_with (bh_values ht) int_value (- 1) 0 (CFBasicHashGetNumBuckets ht)) (\<lambda>bkt_idx.
        ebind (renumber_loop ht (\<lambda>v. if int_value < v then Some (v - 1) else None) 0 (CFBasicHashGetNumBuckets ht)) (\<lambda>ht.
        CFBasicHashRemoveValue_bucket env ht bkt_idx)))"

section \<open>Creation\<close>

definition kCFBasicHashHasKeys :: "64 word" where "kCFBasicHashHasKeys = 1"
definition kCFBasicHashHasCounts :: "64 word" where "kCFBasicHashHasCounts = 2"
definition kCFBasicHashHasHashCache :: "64 word" where "kCFBasicHashHasHashCache = 4"
definition kCFBasicHashIntegerValues :: "64 word" where "kCFBasicHashIntegerValues = 0x40"
definition kCFBasicHashIntegerKeys :: "64 word" where "kCFBasicHashIntegerKeys = 0x80"
definition kCFBasicHashStrongValues :: "64 word" where "kCFBasicHashStrongValues = 0x100"
definition kCFBasicHashStrongKeys :: "64 word" where "kCFBasicHashStrongKeys = 0x200"
definition kCFBasicHashWeakValues :: "64 word" where "kCFBasicHashWeakValues = 0x400"
definition kCFBasicHashWeakKeys :: "64 word" where "kCFBasicHashWeakKeys = 0x800"
definition kCFBasicHashIndirectKeys :: "64 word" where "kCFBasicHashIndirectKeys = 0x1000"
definition kCFBasicHashLinearHashing :: "64 word" where "kCFBasicHashLinearHashing = 0x2000"
definition kCFBasicHashAggressiveGrowth :: "64 word" where "kCFBasicHashAggressiveGrowth = 0x8000"

lemmas kCFBasicHash_flag_defs =
  kCFBasicHashHasKeys_def kCFBasicHashHasCounts_def kCFBasicHashHasHashCache_def kCFBasicHashIntegerValues_def
  kCFBasicHashIntegerKeys_def kCFBasicHashStrongValues_def kCFBasicHashStrongKeys_def kCFBasicHashWeakValues_def
  kCFBasicHashWeakKeys_def kCFBasicHashIndirectKeys_def kCFBasicHashLinearHashing_def kCFBasicHashAggressiveGrowth_def

definition has_flag :: "64 word \<Rightarrow> 64 word \<Rightarrow> bool" where "has_flag flags f \<longleftrightarrow> flags AND f \<noteq> 0"

definition flags_clash :: "64 word \<Rightarrow> bool" where
  "flags_clash flags \<longleftrightarrow>
     (has_flag flags kCFBasicHashStrongValues \<and> has_flag flags kCFBasicHashWeakValues) \<or>
     (has_flag flags kCFBasicHashStrongValues \<and> has_flag flags kCFBasicHashIntegerValues) \<or>
     (has_flag flags kCFBasicHashStrongKeys \<and> has_flag flags kCFBasicHashWeakKeys) \<or>
     (has_flag flags kCFBasicHashStrongKeys \<and> has_flag flags kCFBasicHashIntegerKeys) \<or>
     (has_flag flags kCFBasicHashWeakValues \<and> has_flag flags kCFBasicHashIntegerValues) \<or>
     (has_flag flags kCFBasicHashWeakKeys \<and> has_flag flags kCFBasicHashIntegerKeys) \<or>
     (has_flag flags kCFBasicHashIndirectKeys \<and> has_flag flags kCFBasicHashStrongKeys) \<or>
     (has_flag flags kCFBasicHashIndirectKeys \<and> has_flag flags kCFBasicHashWeakKeys) \<or>
     (has_flag flags kCFBasicHashIndirectKeys \<and> has_flag flags kCFBasicHashIntegerKeys)"

definition CFBasicHashCreate :: "hash_env \<Rightarrow> 64 word \<Rightarrow> CFBasicHashCallbacks \<Rightarrow> CFBasicHash option cf" where
  "CFBasicHashCreate env flags cb =
     (if \<not> he_create env then Inr None
      else if flags_clash flags then Inl Halt
      else
        Inr (Some
          \<lparr>bh_mutable = True, bh_mutations = 1, bh_hash_style = unat (drop_bit 13 flags AND 3), bh_counts_width = 0,
           bh_indirect_keys = has_flag flags kCFBasicHashIndirectKeys, bh_used_buckets = 0, bh_deleted = 0,
           bh_num_buckets_idx = 0, bh_null_rc = False, bh_fast_grow = has_flag flags kCFBasicHashAggressiveGrowth,
           bh_finalized = False, bh_callbacks = cb, bh_values = [],
           bh_keys = (if has_flag flags kCFBasicHashHasKeys then Some [] else None),
           bh_counts = (if has_flag flags kCFBasicHashHasCounts then Some [] else None),
           bh_hashes = (if has_flag flags kCFBasicHashHasHashCache then Some [] else None)\<rparr>))"

text \<open>The cells of a copy: what is in use is retained, the rest is copied as it is.\<close>

fun copy_loop :: "hash_env \<Rightarrow> CFBasicHash \<Rightarrow> CFBasicHash \<Rightarrow> nat \<Rightarrow> nat \<Rightarrow> (CFBasicHash \<times> ref_event list) cf" where
  "copy_loop env src ht idx 0 = Inr (ht, [])"
| "copy_loop env src ht idx (Suc k) =
     ebind (rd (bh_values src) idx) (\<lambda>stack_value.
     ebind (if stack_value \<noteq> 0 \<and> stack_value \<noteq> - 1 then
              (let (v, evs1) = CFBasicHashImportValue env ht (cell_decode stack_value) in
               ebind (CFBasicHashSetValue_cell ht (int idx) v True False) (\<lambda>(ht, _).
               case bh_keys src of
                 None \<Rightarrow> Inr (ht, evs1)
               | Some keys \<Rightarrow>
                   ebind (rd keys idx) (\<lambda>old_key.
                   let (k, evs2) = CFBasicHashImportKey env ht (cell_decode old_key) in
                   ebind (CFBasicHashSetKey_cell ht (int idx) k True False) (\<lambda>(ht, _). Inr (ht, evs1 @ evs2)))))
            else
              ebind (CFBasicHashSetValue_cell ht (int idx) stack_value True True) (\<lambda>(ht, _).
              if bh_keys src = None then Inr (ht, [])
              else ebind (CFBasicHashSetKey_cell ht (int idx) stack_value True True) (\<lambda>(ht, _). Inr (ht, [])))) (\<lambda>(ht, evs).
     ebind (copy_loop env src ht (idx + 1) k) (\<lambda>(ht, rest). Inr (ht, evs @ rest))))"

definition CFBasicHashCreateCopy :: "hash_env \<Rightarrow> CFBasicHash \<Rightarrow> (CFBasicHash \<times> ref_event list) option cf" where
  "CFBasicHashCreateCopy env src =
     (let n = CFBasicHashGetNumBuckets src in
      if 0 < n \<and> \<not> (he_alloc env (n * 8) \<and> (bh_counts src \<noteq> None \<longrightarrow> he_alloc env (n * 2 ^ bh_counts_width src)))
      then Inr None
      else if \<not> he_create env then Inr None
      else
        (let ht = src\<lparr>bh_mutable := True, bh_finalized := False, bh_mutations := 1\<rparr> in
         if n = 0 then Inr (Some (ht\<lparr>bh_values := [], bh_keys := map_option (\<lambda>_. []) (bh_keys src),
           bh_counts := map_option (\<lambda>_. []) (bh_counts src), bh_hashes := map_option (\<lambda>_. []) (bh_hashes src)\<rparr>, []))
         else
           ebind (copy_loop env src (ht\<lparr>bh_values := replicate n 0, bh_keys := map_option (\<lambda>_. replicate n 0) (bh_keys src)\<rparr>) 0 n)
             (\<lambda>(ht, evs). Inr (Some (ht, evs)))))"

section \<open>The tables of sizes\<close>

lemma sizes_length: "length CFBasicHashTableSizes = 64" "length CFBasicHashTableCapacities = 64"
  by (simp_all add: CFBasicHashTableSizes_def CFBasicHashTableCapacities_def)

lemma capacities_below_sizes: "list_all2 (\<le>) CFBasicHashTableCapacities CFBasicHashTableSizes"
  by (simp add: CFBasicHashTableSizes_def CFBasicHashTableCapacities_def list_all2_append2 list_all2_refl list_all2_Cons2)

lemma capacity_le_size: "CFBasicHashGetCapacityForNumBuckets idx \<le> hash_size idx"
  using list_all2_nthD [OF capacities_below_sizes, of idx]
  by (simp add: CFBasicHashGetCapacityForNumBuckets_def hash_size_def sizes_length)

lemma capacities_bound: "\<forall>c \<in> set CFBasicHashTableCapacities. c \<le> 3241355160"
  by (simp add: CFBasicHashTableCapacities_def)

lemma capacity_bound: "CFBasicHashGetCapacityForNumBuckets idx \<le> 3241355160"
  using capacities_bound nth_mem [of idx CFBasicHashTableCapacities]
  by (simp add: CFBasicHashGetCapacityForNumBuckets_def sizes_length)

lemma capacities_end: "drop 45 CFBasicHashTableCapacities = replicate 19 0" "CFBasicHashTableCapacities ! 44 = 3241355160"
    "CFBasicHashTableCapacities ! 43 = 2003267722" "CFBasicHashTableCapacities ! 0 = 0"
  by (simp_all add: CFBasicHashTableCapacities_def)

lemma capacity_zero: "44 < idx \<Longrightarrow> CFBasicHashGetCapacityForNumBuckets idx = 0"
  using nth_drop [of 45 CFBasicHashTableCapacities "idx - 45"] capacities_end(1)
  by (auto simp: CFBasicHashGetCapacityForNumBuckets_def sizes_length)

lemma capacity_0 [simp]: "CFBasicHashGetCapacityForNumBuckets 0 = 0" "hash_size 0 = 0"
  by (simp_all add: CFBasicHashGetCapacityForNumBuckets_def hash_size_def capacities_end CFBasicHashTableSizes_def)

lemma capacities_sorted: "sorted (take 45 CFBasicHashTableCapacities)"
  by (simp add: CFBasicHashTableCapacities_def)

lemma capacity_mono:
  assumes "i \<le> j" "j \<le> 44"
  shows "CFBasicHashGetCapacityForNumBuckets i \<le> CFBasicHashGetCapacityForNumBuckets j"
  using sorted_nth_mono [OF capacities_sorted, of i j] assms
  by (simp add: CFBasicHashGetCapacityForNumBuckets_def sizes_length)

lemma sizes_positive: "list_all (\<lambda>n. 2 < n) (take 44 (drop 1 CFBasicHashTableSizes))"
  by (simp add: CFBasicHashTableSizes_def)

lemma hash_size_positive: "0 < idx \<Longrightarrow> idx \<le> 44 \<Longrightarrow> 2 < hash_size idx"
  using sizes_positive sizes_length
  by (cases idx) (auto simp: hash_size_def list_all_length)

text \<open>The index found for a capacity is the first that has it.\<close>

lemma NumBucketsIndex_find:
  assumes "CFBasicHashGetNumBucketsIndexForCapacity c = Inr idx"
  shows "c \<le> CFBasicHashGetCapacityForNumBuckets idx" "idx \<le> 44"
proof -
  from assms have f: "List.find (\<lambda>idx. c \<le> CFBasicHashGetCapacityForNumBuckets idx) [0..<64] = Some idx"
    by (auto simp: CFBasicHashGetNumBucketsIndexForCapacity_def split: option.splits)
  then obtain i where i: "i < 64" "c \<le> CFBasicHashGetCapacityForNumBuckets i" "idx = i"
      "\<forall>j<i. \<not> c \<le> CFBasicHashGetCapacityForNumBuckets j"
    by (auto simp: find_Some_iff)
  then show "c \<le> CFBasicHashGetCapacityForNumBuckets idx" by simp
  show "idx \<le> 44"
  proof (rule ccontr)
    assume "\<not> idx \<le> 44"
    then have "c = 0" using i capacity_zero by simp
    then have "i = 0" using i(4) by (cases i) auto
    then show False using \<open>\<not> idx \<le> 44\<close> i(3) by simp
  qed
qed

lemma NumBucketsIndex_exists:
  assumes "c \<le> CFBasicHashGetCapacityForNumBuckets j"
  shows "\<exists>idx \<le> j. CFBasicHashGetNumBucketsIndexForCapacity c = Inr idx"
proof -
  have "j < 64 \<or> c = 0" using assms by (cases "j < 64") (simp_all add: CFBasicHashGetCapacityForNumBuckets_def)
  then obtain j' where j': "j' \<le> j" "j' < 64" "c \<le> CFBasicHashGetCapacityForNumBuckets j'"
    using assms by (metis le0 zero_less_numeral order_refl)
  let ?P = "\<lambda>idx. c \<le> CFBasicHashGetCapacityForNumBuckets idx"
  obtain i where i: "List.find ?P [0..<64] = Some i"
    using j'(2,3) by (cases "List.find ?P [0..<64]") (auto simp: find_None_iff)
  then have "i \<le> j'" using j'(2,3) by (auto simp: find_Some_iff not_less [symmetric])
  then show ?thesis using i j'(1) by (auto simp: CFBasicHashGetNumBucketsIndexForCapacity_def)
qed

section \<open>Probe sequences\<close>

definition probe_state :: "nat \<Rightarrow> nat \<Rightarrow> ptr \<Rightarrow> nat \<Rightarrow> nat \<times> nat" where
  "probe_state style idx h m = (probe_step style idx h ^^ m) (probe_start idx h)"

definition probe_at :: "nat \<Rightarrow> nat \<Rightarrow> ptr \<Rightarrow> nat \<Rightarrow> nat" where
  "probe_at style idx h m = fst (probe_state style idx h m)"

text \<open>The first probes, as many as there are buckets, reach every bucket.\<close>

definition probing_covers :: "nat \<Rightarrow> bool" where
  "probing_covers style \<longleftrightarrow>
     (\<forall>idx h j. 0 < idx \<and> idx \<le> 44 \<and> j < hash_size idx \<longrightarrow> (\<exists>m < hash_size idx. probe_at style idx h m = j))"

lemma covers_bucket:
  "probing_covers style \<Longrightarrow> 0 < idx \<Longrightarrow> idx \<le> 44 \<Longrightarrow> j < hash_size idx \<Longrightarrow> \<exists>m < hash_size idx. probe_at style idx h m = j"
  unfolding probing_covers_def by blast

lemma probe_state_Suc: "probe_state style idx h (Suc m) = probe_step style idx h (probe_state style idx h m)"
  by (simp add: probe_state_def)

lemma probe_at_less:
  assumes "0 < idx" "idx \<le> 44"
  shows "probe_at style idx h m < hash_size idx"
proof (induction m)
  case 0
  then show ?case using hash_size_positive [OF assms]
    by (simp add: probe_at_def probe_state_def probe_start_def hash_h1_def)
next
  case (Suc m)
  obtain p a where s: "probe_state style idx h m = (p, a)" by force
  have "hash_h2 (hash_size idx) h < hash_size idx"
    using hash_size_positive [OF assms] by (auto simp: hash_h2_def Let_def)
  then show ?case
    using Suc hash_size_positive [OF assms]
    by (auto simp: probe_at_def probe_state_Suc s probe_step_def next_probe_def Let_def)
qed

lemma linear_probe_at:
  assumes "0 < idx" "idx \<le> 44"
  shows "probe_at 1 idx h m = (unat h + m) mod hash_size idx"
proof (induction m)
  case 0
  then show ?case by (simp add: probe_at_def probe_state_def probe_start_def hash_h1_def)
next
  case (Suc m)
  obtain p a where s: "probe_state 1 idx h m = (p, a)" by force
  have n: "2 < hash_size idx" by (rule hash_size_positive [OF assms])
  have "p = (unat h + m) mod hash_size idx" using Suc s by (simp add: probe_at_def)
  then show ?case using n mod_less_divisor [of "hash_size idx" "unat h + m"]
    by (auto simp: probe_at_def probe_state_Suc s [unfolded One_nat_def] probe_step_def next_probe_def mod_Suc
        simp del: mod_less_divisor)
qed

lemma linear_probing_covers: "probing_covers 1"
  unfolding probing_covers_def
proof (intro allI impI, elim conjE)
  fix idx :: nat and h :: ptr and j
  assume a: "0 < idx" "idx \<le> 44" and j: "j < hash_size idx"
  let ?n = "hash_size idx"
  have n: "2 < ?n" by (rule hash_size_positive [OF a])
  define m where "m = (j + ?n - unat h mod ?n) mod ?n"
  have "unat h mod ?n \<le> j + ?n" using n by (simp add: less_imp_le trans_le_add2)
  then have "(unat h mod ?n + (j + ?n - unat h mod ?n)) mod ?n = j" using j by simp
  then have "(unat h + m) mod ?n = j" by (simp add: m_def mod_add_left_eq mod_add_right_eq)
  moreover have "m < ?n" using n by (simp add: m_def)
  ultimately show "\<exists>m<?n. probe_at 1 idx h m = j" using linear_probe_at [OF a] by auto
qed

end
