(* ===== verification/CF_HashCells.thy ===== *)
theory CF_HashCells
  imports CF_BasicHash
begin

text \<open>
  The contents of a table of \<open>CF_BasicHash\<close> and its invariant: which cells agree on what, where a key may sit, what the
  search finds, and what writing the cells of one bucket does to the contents.
\<close>

section \<open>Contents and invariant\<close>

text \<open>A bucket in use, its key, value and count, and the contents of a table as a multiset of these.\<close>

definition in_use :: "ptr \<Rightarrow> bool" where "in_use x \<longleftrightarrow> x \<noteq> 0 \<and> x \<noteq> - 1"

definition live :: "CFBasicHash \<Rightarrow> nat set" where
  "live ht = {i. i < length (bh_values ht) \<and> in_use (bh_values ht ! i)}"

definition key_at :: "CFBasicHash \<Rightarrow> nat \<Rightarrow> ptr" where "key_at ht i = cell_decode (bucket_keys ht ! i)"
definition val_at :: "CFBasicHash \<Rightarrow> nat \<Rightarrow> ptr" where "val_at ht i = cell_decode (bh_values ht ! i)"

definition cnt_at :: "CFBasicHash \<Rightarrow> nat \<Rightarrow> nat" where
  "cnt_at ht i = (case bh_counts ht of None \<Rightarrow> 1 | Some counts \<Rightarrow> counts ! i)"

definition entry_at :: "CFBasicHash \<Rightarrow> nat \<Rightarrow> ptr \<times> ptr \<times> nat" where
  "entry_at ht i = (key_at ht i, val_at ht i, cnt_at ht i)"

definition entries :: "CFBasicHash \<Rightarrow> (ptr \<times> ptr \<times> nat) multiset" where
  "entries ht = image_mset (entry_at ht) (mset_set (live ht))"

lemma finite_live [simp]: "finite (live ht)"
  by (simp add: live_def)

text \<open>
  Where a key can sit: at a probe of its hash code that no empty bucket comes before.
\<close>

definition reaches :: "CFBasicHash \<Rightarrow> ptr \<Rightarrow> nat \<Rightarrow> bool" where
  "reaches ht h i \<longleftrightarrow>
     (\<exists>m < hash_size (bh_num_buckets_idx ht). probe_at (bh_hash_style ht) (bh_num_buckets_idx ht) h m = i \<and>
        (\<forall>l<m. bucket_keys ht ! probe_at (bh_hash_style ht) (bh_num_buckets_idx ht) h l \<noteq> 0))"

text \<open>
  The shape of a table: arrays of the size of its index, cells of all arrays that agree on what is in use, counts in the
  range of their width, cached hashes that are those of the keys.
\<close>

definition array_fits :: "nat \<Rightarrow> 'a list option \<Rightarrow> bool" where
  "array_fits n a \<longleftrightarrow> (\<forall>xs. a = Some xs \<longrightarrow> length xs = n)"

definition hash_shape :: "CFBasicHash \<Rightarrow> bool" where
  "hash_shape ht \<longleftrightarrow>
     bh_hash_style ht \<in> {1, 2, 3} \<and> probing_covers (bh_hash_style ht) \<and> \<not> bh_indirect_keys ht \<and>
     bh_num_buckets_idx ht \<le> 44 \<and> bh_counts_width ht \<le> 3 \<and>
     length (bh_values ht) = hash_size (bh_num_buckets_idx ht) \<and>
     array_fits (length (bh_values ht)) (bh_keys ht) \<and> array_fits (length (bh_values ht)) (bh_counts ht) \<and>
     array_fits (length (bh_values ht)) (bh_hashes ht)"

definition cells_agree :: "hash_env \<Rightarrow> ptr set \<Rightarrow> CFBasicHash \<Rightarrow> bool" where
  "cells_agree env K ht \<longleftrightarrow>
     (\<forall>i < length (bh_values ht).
        (bucket_keys ht ! i = 0 \<longleftrightarrow> bh_values ht ! i = 0) \<and> (bucket_keys ht ! i = - 1 \<longleftrightarrow> bh_values ht ! i = - 1)) \<and>
     (\<forall>i < length (bh_values ht). bh_counts ht \<noteq> None \<longrightarrow>
        (if i \<in> live ht then 0 < cnt_at ht i \<and> cnt_at ht i \<le> count_max (bh_counts_width ht) else cnt_at ht i = 0)) \<and>
     (\<forall>i \<in> live ht. key_at ht i \<in> K \<and> reaches ht (CFBasicHashHashKey env ht (key_at ht i)) i) \<and>
     (\<forall>hashes i. bh_hashes ht = Some hashes \<and> i \<in> live ht \<longrightarrow> hashes ! i = CFBasicHashHashKey env ht (key_at ht i)) \<and>
     (\<forall>i \<in> live ht. \<forall>j \<in> live ht. CFBasicHashTestEqualKey env ht (key_at ht i) (key_at ht j) \<longrightarrow> i = j)"

definition hash_wf :: "hash_env \<Rightarrow> ptr set \<Rightarrow> CFBasicHash \<Rightarrow> bool" where
  "hash_wf env K ht \<longleftrightarrow>
     hash_shape ht \<and> cells_agree env K ht \<and> bh_used_buckets ht = card (live ht) \<and>
     bh_used_buckets ht \<le> CFBasicHashGetCapacity ht \<and>
     bh_deleted ht = of_nat (card {i. i < length (bh_values ht) \<and> bh_values ht ! i = - 1})"

text \<open>
  The contract of the key callbacks on the keys in use: equality is an equivalence, equal keys have equal hash
  codes, and no key is one of the two numbers that stand for 0 and all ones.
\<close>

locale hashed_keys =
  fixes same :: "ptr \<Rightarrow> ptr \<Rightarrow> bool" and hash :: "ptr \<Rightarrow> ptr" and K :: "ptr set"
  assumes same_refl: "a \<in> K \<Longrightarrow> same a a"
    and same_sym: "a \<in> K \<Longrightarrow> b \<in> K \<Longrightarrow> same a b \<Longrightarrow> same b a"
    and same_trans: "a \<in> K \<Longrightarrow> b \<in> K \<Longrightarrow> c \<in> K \<Longrightarrow> same a b \<Longrightarrow> same b c \<Longrightarrow> same a c"
    and same_hash: "a \<in> K \<Longrightarrow> b \<in> K \<Longrightarrow> same a b \<Longrightarrow> hash a = hash b"
    and key_codes: "a \<in> K \<Longrightarrow> \<not> is_sentinel a"

definition key_laws :: "hash_env \<Rightarrow> CFBasicHash \<Rightarrow> ptr set \<Rightarrow> bool" where
  "key_laws env ht K \<longleftrightarrow> hashed_keys (CFBasicHashTestEqualKey env ht) (CFBasicHashHashKey env ht) K"

context hashed_keys
begin

lemma same_left: "a \<in> K \<Longrightarrow> b \<in> K \<Longrightarrow> c \<in> K \<Longrightarrow> same a b \<Longrightarrow> same a c \<longleftrightarrow> same b c"
  by (meson same_sym same_trans)

lemma same_right: "a \<in> K \<Longrightarrow> b \<in> K \<Longrightarrow> c \<in> K \<Longrightarrow> same a b \<Longrightarrow> same c a \<longleftrightarrow> same c b"
  by (meson same_sym same_trans)

end

lemmas same_key_refl = hashed_keys.same_refl
  [where same = "CFBasicHashTestEqualKey env ht" and hash = "CFBasicHashHashKey env ht" for env ht, folded key_laws_def]
lemmas same_key_hash = hashed_keys.same_hash
  [where same = "CFBasicHashTestEqualKey env ht" and hash = "CFBasicHashHashKey env ht" for env ht, folded key_laws_def]
lemmas same_key_sym = hashed_keys.same_sym
  [where same = "CFBasicHashTestEqualKey env ht" and hash = "CFBasicHashHashKey env ht" for env ht, folded key_laws_def]
lemmas same_key_left = hashed_keys.same_left
  [where same = "CFBasicHashTestEqualKey env ht" and hash = "CFBasicHashHashKey env ht" for env ht, folded key_laws_def]
lemmas same_key_right = hashed_keys.same_right
  [where same = "CFBasicHashTestEqualKey env ht" and hash = "CFBasicHashHashKey env ht" for env ht, folded key_laws_def]
lemmas same_key_codes = hashed_keys.key_codes
  [where same = "CFBasicHashTestEqualKey env ht" and hash = "CFBasicHashHashKey env ht" for env ht, folded key_laws_def]

section \<open>Cells\<close>

lemma cell_codes: "in_use (cell_encode x)" "in_use x \<Longrightarrow> \<not> is_sentinel x \<Longrightarrow> cell_decode x = x"
    "\<not> is_sentinel x \<Longrightarrow> cell_decode (cell_encode x) = x"
  by (auto simp: in_use_def cell_encode_def cell_decode_def is_sentinel_def CFBasicHashSubABZero_def CFBasicHashSubABOne_def)

lemma cell_encode_neq [simp]: "cell_encode x \<noteq> 0" "cell_encode x \<noteq> - 1"
  using cell_codes(1) [of x] by (auto simp: in_use_def)

lemma rdi_nat [simp]: "rdi xs (int i) = rd xs i"
  by (simp add: rdi_def cell_index_def)

lemma wri_nat [simp]: "wri xs (int i) x = wr xs i x"
  by (simp add: wri_def cell_index_def)

lemma shape_length:
  assumes "hash_shape ht"
  shows "length (bh_values ht) = hash_size (bh_num_buckets_idx ht)" "length (bucket_keys ht) = length (bh_values ht)"
    "bh_counts ht = Some counts \<Longrightarrow> length counts = length (bh_values ht)"
    "bh_hashes ht = Some hashes \<Longrightarrow> length hashes = length (bh_values ht)"
    "bh_keys ht = Some keys \<Longrightarrow> length keys = length (bh_values ht)"
  using assms by (auto simp: hash_shape_def array_fits_def bucket_keys_def split: option.splits)

lemma cells_agreeD:
  assumes "cells_agree env K ht"
  shows "i < length (bh_values ht) \<Longrightarrow> bucket_keys ht ! i = 0 \<longleftrightarrow> bh_values ht ! i = 0"
    and "i < length (bh_values ht) \<Longrightarrow> bucket_keys ht ! i = - 1 \<longleftrightarrow> bh_values ht ! i = - 1"
    and "i \<in> live ht \<Longrightarrow> bh_counts ht \<noteq> None \<Longrightarrow> 0 < cnt_at ht i \<and> cnt_at ht i \<le> count_max (bh_counts_width ht)"
    and "i < length (bh_values ht) \<Longrightarrow> i \<notin> live ht \<Longrightarrow> bh_counts ht \<noteq> None \<Longrightarrow> cnt_at ht i = 0"
    and "i \<in> live ht \<Longrightarrow> key_at ht i \<in> K"
    and "i \<in> live ht \<Longrightarrow> reaches ht (CFBasicHashHashKey env ht (key_at ht i)) i"
    and "bh_hashes ht = Some hashes \<Longrightarrow> i \<in> live ht \<Longrightarrow> hashes ! i = CFBasicHashHashKey env ht (key_at ht i)"
    and "i \<in> live ht \<Longrightarrow> j \<in> live ht \<Longrightarrow> CFBasicHashTestEqualKey env ht (key_at ht i) (key_at ht j) \<Longrightarrow> i = j"
proof -
  note parts = assms [unfolded cells_agree_def]
  have live: "i \<in> live ht \<Longrightarrow> i < length (bh_values ht)" by (simp add: live_def)
  show "i < length (bh_values ht) \<Longrightarrow> bucket_keys ht ! i = 0 \<longleftrightarrow> bh_values ht ! i = 0"
    "i < length (bh_values ht) \<Longrightarrow> bucket_keys ht ! i = - 1 \<longleftrightarrow> bh_values ht ! i = - 1"
    using parts [THEN conjunct1] by blast+
  show "i \<in> live ht \<Longrightarrow> bh_counts ht \<noteq> None \<Longrightarrow> 0 < cnt_at ht i \<and> cnt_at ht i \<le> count_max (bh_counts_width ht)"
    "i < length (bh_values ht) \<Longrightarrow> i \<notin> live ht \<Longrightarrow> bh_counts ht \<noteq> None \<Longrightarrow> cnt_at ht i = 0"
    using parts [THEN conjunct2, THEN conjunct1] live by meson+
  note rest = parts [THEN conjunct2, THEN conjunct2]
  show "i \<in> live ht \<Longrightarrow> key_at ht i \<in> K"
    "i \<in> live ht \<Longrightarrow> reaches ht (CFBasicHashHashKey env ht (key_at ht i)) i"
    using rest [THEN conjunct1] by blast+
  show "bh_hashes ht = Some hashes \<Longrightarrow> i \<in> live ht \<Longrightarrow> hashes ! i = CFBasicHashHashKey env ht (key_at ht i)"
    using rest [THEN conjunct2, THEN conjunct1] by blast
  show "i \<in> live ht \<Longrightarrow> j \<in> live ht \<Longrightarrow> CFBasicHashTestEqualKey env ht (key_at ht i) (key_at ht j) \<Longrightarrow> i = j"
    using rest [THEN conjunct2, THEN conjunct2] by blast
qed

lemma live_key_raw:
  assumes "cells_agree env K ht" "i < length (bh_values ht)"
  shows "i \<in> live ht \<longleftrightarrow> in_use (bucket_keys ht ! i)"
  using cells_agreeD(1,2) [OF assms] assms(2) by (simp add: live_def in_use_def)

lemma live_less: "i \<in> live ht \<Longrightarrow> i < length (bh_values ht)"
  by (simp add: live_def)

lemma GetValue_at: "i < length (bh_values ht) \<Longrightarrow> CFBasicHashGetValue ht (int i) = Inr (val_at ht i)"
  by (simp add: CFBasicHashGetValue_def val_at_def)

lemma GetKey_at:
  assumes "hash_shape ht" "i < length (bh_values ht)"
  shows "CFBasicHashGetKey env ht (int i) = Inr (key_at ht i)"
proof (cases "bh_keys ht")
  case None
  have "\<not> bh_indirect_keys ht" using assms(1) by (simp add: hash_shape_def)
  then show ?thesis using assms(2) None by (simp add: CFBasicHashGetKey_def GetValue_at key_at_def val_at_def bucket_keys_def)
next
  case (Some keys)
  then show ?thesis using assms(2) shape_length(5) [OF assms(1) Some] by (simp add: CFBasicHashGetKey_def key_at_def bucket_keys_def)
qed

lemma SlotCount_at:
  assumes "hash_shape ht" "i < length (bh_values ht)"
  shows "(if bh_counts ht \<noteq> None then CFBasicHashGetSlotCount ht (int i) else Inr 1) = Inr (cnt_at ht i)"
  using assms(2) shape_length(3) [OF assms(1)]
  by (cases "bh_counts ht") (simp_all add: CFBasicHashGetSlotCount_def the_array_def cnt_at_def)

lemma GetBucket_live:
  assumes "hash_shape ht" "i \<in> live ht"
  shows "CFBasicHashGetBucket env ht (int i) =
    Inr \<lparr>bk_idx = int i, bk_weak_key = key_at ht i, bk_weak_value = val_at ht i, bk_count = cnt_at ht i\<rparr>"
proof -
  have i: "i < length (bh_values ht)" using assms(2) by (rule live_less)
  have "CFBasicHashIsEmptyOrDeleted ht (int i) = Inr False"
    using assms(2) by (simp add: CFBasicHashIsEmptyOrDeleted_def live_def in_use_def)
  then show ?thesis
    using GetValue_at [OF i] GetKey_at [OF assms(1) i] SlotCount_at [OF assms(1) i] by (simp add: CFBasicHashGetBucket_def)
qed

lemma GetBucket_vacant:
  assumes "i < length (bh_values ht)" "i \<notin> live ht"
  shows "CFBasicHashGetBucket env ht (int i) = Inr (absent_bucket (int i))"
  using assms by (auto simp: CFBasicHashGetBucket_def CFBasicHashIsEmptyOrDeleted_def live_def in_use_def)

section \<open>The search finds what is there\<close>

text \<open>What one probe at bucket \<open>i\<close> takes for the key looked for.\<close>

definition probe_matches :: "hash_env \<Rightarrow> CFBasicHash \<Rightarrow> ptr \<Rightarrow> ptr \<Rightarrow> nat \<Rightarrow> bool" where
  "probe_matches env ht key h i \<longleftrightarrow>
     in_use (bucket_keys ht ! i) \<and>
     (key_at ht i = key \<or>
      (\<forall>hashes. bh_hashes ht = Some hashes \<longrightarrow> hashes ! i = h) \<and> CFBasicHashTestEqualKey env ht (key_at ht i) key)"

abbreviation bucket_at :: "CFBasicHash \<Rightarrow> nat \<Rightarrow> CFBasicHashBucket" where
  "bucket_at ht i \<equiv> \<lparr>bk_idx = int i, bk_weak_key = key_at ht i, bk_weak_value = val_at ht i, bk_count = cnt_at ht i\<rparr>"

lemma find_loop_step:
  assumes shape: "hash_shape ht" and p: "probe < length (bh_values ht)"
  shows "find_loop env ht key h step (probe, acc) d (Suc k) =
    (if bucket_keys ht ! probe = 0 then Inr (absent_bucket (if d = kCFNotFound then int probe else d))
     else if bucket_keys ht ! probe = - 1 then
       find_loop env ht key h step (step (probe, acc)) (if d = kCFNotFound then int probe else d) k
     else if probe_matches env ht key h probe then Inr (bucket_at ht probe)
     else find_loop env ht key h step (step (probe, acc)) d k)"
proof -
  have ind: "\<not> bh_indirect_keys ht" using shape by (simp add: hash_shape_def)
  have hashes: "(case bh_hashes ht of None \<Rightarrow> Inr True | Some hashes \<Rightarrow> ebind (rd hashes probe) (\<lambda>x. Inr (x = h))) =
      Inr (\<forall>hashes. bh_hashes ht = Some hashes \<longrightarrow> hashes ! probe = h)"
    using shape_length(4) [OF shape] p by (cases "bh_hashes ht") simp_all
  show ?thesis
    using p shape_length(2) [OF shape]
    by (auto simp: Let_def ind hashes GetValue_at [OF p] SlotCount_at [OF shape p] probe_matches_def key_at_def in_use_def
        simp del: not_None_eq)
qed

text \<open>
  The loop from probe \<open>m\<close> on either meets a match before any empty bucket, or ends at a place where the key may go:
  the first vacated bucket seen, else the first empty one.
\<close>

definition free_spot :: "CFBasicHash \<Rightarrow> (nat \<Rightarrow> nat) \<Rightarrow> nat \<Rightarrow> int \<Rightarrow> bool" where
  "free_spot ht path n d \<longleftrightarrow>
     (\<exists>m<n. d = int (path m) \<and> \<not> in_use (bucket_keys ht ! path m) \<and> (\<forall>l<m. bucket_keys ht ! path l \<noteq> 0))"

lemma free_spot_mono: "m \<le> n \<Longrightarrow> free_spot ht path m d \<Longrightarrow> free_spot ht path n d"
  unfolding free_spot_def using less_le_trans by blast

lemma find_loop_spec:
  assumes shape: "hash_shape ht" and path: "\<And>m. path m < length (bh_values ht)" "\<And>m. state m = (path m, snd (state m))"
    and step: "\<And>m. state (Suc m) = step (state m)"
    and seen: "\<forall>l<m. bucket_keys ht ! path l \<noteq> 0 \<and> \<not> probe_matches env ht key h (path l)"
    and d: "if d = kCFNotFound then \<forall>l<m. in_use (bucket_keys ht ! path l) else free_spot ht path m d"
  shows "(\<exists>l < m + k. find_loop env ht key h step (state m) d k = Inr (bucket_at ht (path l)) \<and>
        probe_matches env ht key h (path l)) \<or>
      (\<exists>d' e. find_loop env ht key h step (state m) d k = Inr (absent_bucket d') \<and> e \<le> m + k \<and>
        (\<forall>l<e. bucket_keys ht ! path l \<noteq> 0 \<and> \<not> probe_matches env ht key h (path l)) \<and>
        (e < m + k \<longrightarrow> bucket_keys ht ! path e = 0) \<and>
        (if d' = kCFNotFound then \<forall>l < m + k. in_use (bucket_keys ht ! path l) else free_spot ht path (m + k) d'))"
  using seen d
proof (induction k arbitrary: m d)
  case 0
  have "find_loop env ht key h step (state m) d 0 = Inr (absent_bucket d)" by (subst path(2)) simp
  then show ?case using 0 by (intro disjI2 exI [of _ d] exI [of _ m]) simp
next
  case (Suc k)
  let ?raw = "bucket_keys ht ! path m"
  have s: "state m = (path m, snd (state m))" by (rule path(2))
  have nxt: "step (path m, snd (state m)) = state (Suc m)" using step s by simp
  note loop = find_loop_step [OF shape path(1) [of m], of env key h step "snd (state m)", folded s, unfolded nxt [folded s]]
  have nonneg: "int (path m) \<noteq> kCFNotFound" by (simp add: kCFNotFound_def)
  consider "?raw = 0" | "?raw = - 1" | "in_use ?raw" "probe_matches env ht key h (path m)"
    | "in_use ?raw" "\<not> probe_matches env ht key h (path m)" by (auto simp: in_use_def)
  then show ?case
  proof cases
    case 1
    let ?d = "if d = kCFNotFound then int (path m) else d"
    have "free_spot ht path (m + Suc k) ?d"
      using Suc.prems 1 by (auto simp: free_spot_def in_use_def split: if_splits) (metis less_add_Suc1 less_trans)+
    then show ?thesis
      using 1 Suc.prems nonneg loop [of d k]
      by (intro disjI2 exI [of _ ?d] exI [of _ m]) auto
  next
    case 2
    let ?d = "if d = kCFNotFound then int (path m) else d"
    have "\<not> probe_matches env ht key h (path m)" using 2 by (simp add: probe_matches_def in_use_def)
    then have "\<forall>l<Suc m. bucket_keys ht ! path l \<noteq> 0 \<and> \<not> probe_matches env ht key h (path l)"
      using 2 Suc.prems(1) by (auto simp: less_Suc_eq)
    moreover have "if ?d = kCFNotFound then \<forall>l<Suc m. in_use (bucket_keys ht ! path l) else free_spot ht path (Suc m) ?d"
    proof (cases "d = kCFNotFound")
      case True
      then have "free_spot ht path (Suc m) (int (path m))"
        using Suc.prems 2 unfolding free_spot_def in_use_def by (intro exI [of _ m]) auto
      then show ?thesis using True nonneg by simp
    next
      case False
      then show ?thesis using Suc.prems(2) free_spot_mono [of m "Suc m" ht path d] by simp
    qed
    moreover have "find_loop env ht key h step (state m) d (Suc k) = find_loop env ht key h step (state (Suc m)) ?d k"
      using loop [of d k] 2 by simp
    ultimately show ?thesis using Suc.IH [of "Suc m" ?d] by (simp only: add_Suc add_Suc_right)
  next
    case 3
    then show ?thesis using loop [of d k] by (intro disjI1 exI [of _ m]) (auto simp: in_use_def)
  next
    case 4
    then have "\<forall>l<Suc m. bucket_keys ht ! path l \<noteq> 0 \<and> \<not> probe_matches env ht key h (path l)"
      using Suc.prems(1) by (auto simp: less_Suc_eq in_use_def)
    moreover have "if d = kCFNotFound then \<forall>l<Suc m. in_use (bucket_keys ht ! path l) else free_spot ht path (Suc m) d"
      using Suc.prems(2) 4 by (auto simp: free_spot_def less_Suc_eq split: if_splits)
    moreover have "find_loop env ht key h step (state m) d (Suc k) = find_loop env ht key h step (state (Suc m)) d k"
      using loop [of d k] 4 by (simp add: in_use_def)
    ultimately show ?thesis using Suc.IH [of "Suc m" d] by (simp only: add_Suc add_Suc_right)
  qed
qed

lemma find_free_loop_spec:
  assumes path: "\<And>m. path m < length keys" "\<And>m. state m = (path m, snd (state m))"
    and step: "\<And>m. state (Suc m) = step (state m)"
    and l: "m \<le> l" "l < m + k" "keys ! path l = 0"
  shows "\<exists>l \<ge> m. l < m + k \<and> find_free_loop keys step (state m) k = Inr (int (path l)) \<and> keys ! path l = 0 \<and>
    (\<forall>j. m \<le> j \<and> j < l \<longrightarrow> keys ! path j \<noteq> 0)"
  using l
proof (induction k arbitrary: m)
  case (Suc k)
  have s: "state m = (path m, snd (state m))" by (rule path(2))
  have nxt: "step (path m, snd (state m)) = state (Suc m)" using step s by simp
  have loop: "find_free_loop keys step (state m) (Suc k) =
      (if keys ! path m = 0 then Inr (int (path m)) else find_free_loop keys step (state (Suc m)) k)"
    by (subst s) (simp add: path(1) nxt)
  show ?case
  proof (cases "keys ! path m = 0")
    case True
    then show ?thesis using loop by (intro exI [of _ m]) auto
  next
    case False
    then have "m \<noteq> l" using Suc.prems(3) by auto
    then obtain l' where l': "Suc m \<le> l'" "l' < Suc m + k" "find_free_loop keys step (state (Suc m)) k = Inr (int (path l'))"
        "keys ! path l' = 0" "\<forall>j. Suc m \<le> j \<and> j < l' \<longrightarrow> keys ! path j \<noteq> 0"
      using Suc.IH [of "Suc m"] Suc.prems by auto
    have "keys ! path j \<noteq> 0" if "m \<le> j" "j < l'" for j
      using that l'(5) False by (cases "j = m") auto
    then show ?thesis using l' loop False by (intro exI [of _ l']) auto
  qed
qed simp

lemma probe_path:
  assumes "hash_shape ht" "bh_num_buckets_idx ht \<noteq> 0"
  shows "probe_at (bh_hash_style ht) (bh_num_buckets_idx ht) h m < length (bh_values ht)"
    and "probe_state style idx h n = (probe_at style idx h n, snd (probe_state style idx h n))"
  using assms probe_at_less [of "bh_num_buckets_idx ht" "bh_hash_style ht" h m]
  by (simp_all add: hash_shape_def probe_at_def)

lemma live_idx: "hash_shape ht \<Longrightarrow> i < length (bh_values ht) \<Longrightarrow> bh_num_buckets_idx ht \<noteq> 0"
  using shape_length(1) [of ht] by (cases "bh_num_buckets_idx ht = 0") auto

lemma probe_matches_same:
  assumes laws: "key_laws env ht K" and cells: "cells_agree env K ht" and key: "key \<in> K" and i: "i < length (bh_values ht)"
  shows "probe_matches env ht key (CFBasicHashHashKey env ht key) i \<longleftrightarrow>
    i \<in> live ht \<and> CFBasicHashTestEqualKey env ht (key_at ht i) key"
proof -
  show ?thesis
    using live_key_raw [OF cells i] cells_agreeD(5,7) [OF cells] key
      same_key_hash [OF laws, of "key_at ht i" key] same_key_refl [OF laws, of key]
    by (auto simp: probe_matches_def)
qed

text \<open>The search finds the bucket of an equal key, or says where the key may go if there is room.\<close>

lemma FindBucket_spec:
  assumes shape: "hash_shape ht" and cells: "cells_agree env K ht" and laws: "key_laws env ht K" and key: "key \<in> K"
  defines "same \<equiv> \<lambda>i. CFBasicHashTestEqualKey env ht (key_at ht i) key"
  shows "i \<in> live ht \<Longrightarrow> same i \<Longrightarrow> CFBasicHashFindBucket_any env ht key = Inr (bucket_at ht i)"
    and "\<forall>i \<in> live ht. \<not> same i \<Longrightarrow>
      \<exists>d. CFBasicHashFindBucket_any env ht key = Inr (absent_bucket d) \<and>
        (live ht \<noteq> {..<length (bh_values ht)} \<longrightarrow>
         (\<exists>p. d = int p \<and> p < length (bh_values ht) \<and> p \<notin> live ht \<and> reaches ht (CFBasicHashHashKey env ht key) p))"
proof -
  let ?h = "CFBasicHashHashKey env ht key" and ?idx = "bh_num_buckets_idx ht" and ?style = "bh_hash_style ht"
  let ?path = "probe_at ?style ?idx ?h" and ?n = "hash_size ?idx"
  have n: "length (bh_values ht) = ?n" by (rule shape_length(1) [OF shape])
  have style: "?style \<in> {1, 2, 3}" "?idx \<le> 44" "probing_covers ?style" using shape by (simp_all add: hash_shape_def)
  have find: "CFBasicHashFindBucket_any env ht key =
      find_loop env ht key ?h (probe_step ?style ?idx ?h) (probe_state ?style ?idx ?h 0) kCFNotFound ?n" if "?idx \<noteq> 0"
    using that style(1) by (simp add: CFBasicHashFindBucket_any_def Let_def probe_state_def)
  have spec: "(\<exists>l < ?n. CFBasicHashFindBucket_any env ht key = Inr (bucket_at ht (?path l)) \<and>
        probe_matches env ht key ?h (?path l)) \<or>
      (\<exists>d e. CFBasicHashFindBucket_any env ht key = Inr (absent_bucket d) \<and> e \<le> ?n \<and>
        (\<forall>l<e. bucket_keys ht ! ?path l \<noteq> 0 \<and> \<not> probe_matches env ht key ?h (?path l)) \<and>
        (e < ?n \<longrightarrow> bucket_keys ht ! ?path e = 0) \<and>
        (if d = kCFNotFound then \<forall>l < ?n. in_use (bucket_keys ht ! ?path l) else free_spot ht ?path ?n d))" if "?idx \<noteq> 0"
    unfolding find [OF that]
    by (rule find_loop_spec [OF shape, where path = ?path and m = 0, unfolded add_0])
      (use probe_path [OF shape that] probe_state_Suc [of ?style ?idx ?h] in auto)
  note matches = probe_matches_same [OF laws cells key]
  show "CFBasicHashFindBucket_any env ht key = Inr (bucket_at ht i)" if i: "i \<in> live ht" "same i"
  proof -
    have idx: "?idx \<noteq> 0" by (rule live_idx [OF shape live_less [OF i(1)]])
    have "CFBasicHashHashKey env ht (key_at ht i) = ?h"
      using same_key_hash [OF laws cells_agreeD(5) [OF cells i(1)] key] i(2) by (simp add: same_def)
    then obtain m where m: "m < ?n" "?path m = i" "\<forall>l<m. bucket_keys ht ! ?path l \<noteq> 0"
      using cells_agreeD(6) [OF cells i(1)] by (auto simp: reaches_def)
    have unique: "?path l = i" if "probe_matches env ht key ?h (?path l)" for l
    proof -
      have l: "?path l \<in> live ht" "same (?path l)" using that matches [OF probe_path(1) [OF shape idx]] by (simp_all add: same_def)
      then have "CFBasicHashTestEqualKey env ht (key_at ht (?path l)) (key_at ht i)"
        using i same_key_sym [OF laws] same_key_right [OF laws] cells_agreeD(5) [OF cells] key by (metis same_def)
      then show ?thesis using cells_agreeD(8) [OF cells l(1) i(1)] by simp
    qed
    have "probe_matches env ht key ?h (?path m)"
      using matches [OF live_less [OF i(1)]] i m(2) by (simp add: same_def)
    moreover from this have "bucket_keys ht ! ?path m \<noteq> 0" by (simp add: probe_matches_def in_use_def)
    ultimately have stop: "\<not> (e \<le> ?n \<and> (\<forall>l<e. \<not> probe_matches env ht key ?h (?path l)) \<and>
        (e < ?n \<longrightarrow> bucket_keys ht ! ?path e = 0))" for e
      using m(1,3) by (cases e m rule: linorder_cases) auto
    then have "\<exists>l < ?n. CFBasicHashFindBucket_any env ht key = Inr (bucket_at ht (?path l)) \<and>
        probe_matches env ht key ?h (?path l)"
      using spec [OF idx] by blast
    then show ?thesis using unique by auto
  qed
  show "\<exists>d. CFBasicHashFindBucket_any env ht key = Inr (absent_bucket d) \<and>
      (live ht \<noteq> {..<length (bh_values ht)} \<longrightarrow>
       (\<exists>p. d = int p \<and> p < length (bh_values ht) \<and> p \<notin> live ht \<and> reaches ht ?h p))"
    if none: "\<forall>i \<in> live ht. \<not> same i"
  proof (cases "?idx = 0")
    case True
    then have "bh_values ht = []" using n by simp
    then show ?thesis using True by (intro exI [of _ kCFNotFound]) (simp add: CFBasicHashFindBucket_any_def live_def)
  next
    case False
    have "\<not> probe_matches env ht key ?h (?path l)" for l
      using none matches [OF probe_path(1) [OF shape False]] by (auto simp: same_def)
    then obtain d where d: "CFBasicHashFindBucket_any env ht key = Inr (absent_bucket d)"
      "if d = kCFNotFound then \<forall>l < ?n. in_use (bucket_keys ht ! ?path l) else free_spot ht ?path ?n d"
      using spec [OF False] by blast
    have "\<exists>p. d = int p \<and> p < length (bh_values ht) \<and> p \<notin> live ht \<and> reaches ht ?h p"
      if room: "live ht \<noteq> {..<length (bh_values ht)}"
    proof -
      obtain j where j: "j < length (bh_values ht)" "j \<notin> live ht" using room by (auto simp: live_def)
      then obtain m where "m < ?n" "?path m = j"
        using covers_bucket [OF style(3) _ style(2)] False n by auto
      then have "d \<noteq> kCFNotFound" using d(2) j live_key_raw [OF cells j(1)] by auto
      then obtain m' where "m' < ?n" "d = int (?path m')" "\<not> in_use (bucket_keys ht ! ?path m')"
          "\<forall>l<m'. bucket_keys ht ! ?path l \<noteq> 0"
        using d(2) by (auto simp: free_spot_def)
      then show ?thesis
        using probe_path(1) [OF shape False, of ?h m'] live_key_raw [OF cells] by (auto simp: reaches_def)
    qed
    then show ?thesis using d(1) by blast
  qed
qed

lemma NoCollision_spec:
  assumes shape: "hash_shape ht" and cells: "cells_agree env K ht" and h: "h = 0 \<or> h = CFBasicHashHashKey env ht key"
    and fresh: "\<forall>i < length (bh_values ht). bh_values ht ! i \<noteq> - 1" and room: "live ht \<noteq> {..<length (bh_values ht)}"
  shows "\<exists>p. CFBasicHashFindBucket_NoCollision env ht key h = Inr (int p) \<and> p < length (bh_values ht) \<and> p \<notin> live ht \<and>
    reaches ht (CFBasicHashHashKey env ht key) p"
proof -
  let ?h = "CFBasicHashHashKey env ht key" and ?idx = "bh_num_buckets_idx ht" and ?style = "bh_hash_style ht"
  let ?path = "probe_at ?style ?idx ?h" and ?n = "hash_size ?idx"
  have n: "length (bh_values ht) = ?n" by (rule shape_length(1) [OF shape])
  have style: "?style \<in> {1, 2, 3}" "?idx \<le> 44" "probing_covers ?style" using shape by (simp_all add: hash_shape_def)
  obtain j where j: "j < length (bh_values ht)" "j \<notin> live ht" using room by (auto simp: live_def)
  have idx: "?idx \<noteq> 0" by (rule live_idx [OF shape j(1)])
  have empty: "bucket_keys ht ! i = 0 \<longleftrightarrow> i \<notin> live ht" if "i < length (bh_values ht)" for i
    using that fresh cells_agreeD(1,2) [OF cells that] by (auto simp: live_def in_use_def)
  have hash: "(if h \<noteq> 0 then h else ?h) = ?h" using h by auto
  obtain m where m: "m < ?n" "?path m = j" using covers_bucket [OF style(3) _ style(2)] idx n j(1) by auto
  have zero: "bucket_keys ht ! ?path m = 0" using empty j m(2) by simp
  obtain l where l: "l < ?n" "find_free_loop (bucket_keys ht) (probe_step ?style ?idx ?h) (probe_state ?style ?idx ?h 0) ?n = Inr (int (?path l))"
      "bucket_keys ht ! ?path l = 0" "\<forall>j<l. bucket_keys ht ! ?path j \<noteq> 0"
    using find_free_loop_spec [of ?path "bucket_keys ht" "probe_state ?style ?idx ?h" "probe_step ?style ?idx ?h" 0 m ?n]
      probe_path [OF shape idx] probe_state_Suc [of ?style ?idx ?h] shape_length(2) [OF shape] m(1) zero by auto
  have "CFBasicHashFindBucket_NoCollision env ht key h = Inr (int (?path l))"
    using l(2) idx style(1) hash by (simp add: CFBasicHashFindBucket_NoCollision_def Let_def probe_state_def)
  moreover have "?path l < length (bh_values ht)" by (rule probe_path(1) [OF shape idx])
  ultimately show ?thesis using l empty [of "?path l"] by (auto simp: reaches_def)
qed

section \<open>Writing the cells of one bucket\<close>

definition put_cells :: "CFBasicHash \<Rightarrow> nat \<Rightarrow> ptr \<Rightarrow> ptr \<Rightarrow> nat \<Rightarrow> ptr \<Rightarrow> CFBasicHash" where
  "put_cells ht p k v c h =
     ht\<lparr>bh_values := (bh_values ht)[p := v], bh_keys := map_option (\<lambda>xs. xs[p := k]) (bh_keys ht),
        bh_counts := map_option (\<lambda>xs. xs[p := c]) (bh_counts ht), bh_hashes := map_option (\<lambda>xs. xs[p := h]) (bh_hashes ht)\<rparr>"

lemma put_cells_simps [simp]:
  "bh_values (put_cells ht p k v c h) = (bh_values ht)[p := v]"
  "bh_hash_style (put_cells ht p k v c h) = bh_hash_style ht"
  "bh_num_buckets_idx (put_cells ht p k v c h) = bh_num_buckets_idx ht"
  "bh_counts_width (put_cells ht p k v c h) = bh_counts_width ht"
  "bh_indirect_keys (put_cells ht p k v c h) = bh_indirect_keys ht"
  "bh_used_buckets (put_cells ht p k v c h) = bh_used_buckets ht"
  "bh_deleted (put_cells ht p k v c h) = bh_deleted ht"
  "bh_callbacks (put_cells ht p k v c h) = bh_callbacks ht"
  "bh_mutable (put_cells ht p k v c h) = bh_mutable ht"
  "bh_null_rc (put_cells ht p k v c h) = bh_null_rc ht"
  "bh_fast_grow (put_cells ht p k v c h) = bh_fast_grow ht"
  "bh_keys (put_cells ht p k v c h) = map_option (\<lambda>xs. xs[p := k]) (bh_keys ht)"
  "bh_counts (put_cells ht p k v c h) = map_option (\<lambda>xs. xs[p := c]) (bh_counts ht)"
  "bh_hashes (put_cells ht p k v c h) = map_option (\<lambda>xs. xs[p := h]) (bh_hashes ht)"
  by (simp_all add: put_cells_def)

lemma put_cells_callbacks [simp]:
  "CFBasicHashHashKey env (put_cells ht p k v c h) = CFBasicHashHashKey env ht"
  "CFBasicHashTestEqualKey env (put_cells ht p k v c h) = CFBasicHashTestEqualKey env ht"
  by (simp_all add: fun_eq_iff CFBasicHashHashKey_def CFBasicHashTestEqualKey_def)

lemma bucket_keys_put: "bucket_keys (put_cells ht p k v c h) = (bucket_keys ht)[p := if bh_keys ht = None then v else k]"
  by (simp add: bucket_keys_def split: option.splits)

lemma put_shape: "hash_shape ht \<Longrightarrow> hash_shape (put_cells ht p k v c h)"
  by (auto simp: hash_shape_def array_fits_def)

lemma put_live: "p < length (bh_values ht) \<Longrightarrow> live (put_cells ht p k v c h) = (if in_use v then insert p (live ht) else live ht - {p})"
  by (auto simp: live_def nth_list_update)

lemma put_entry_other: "i \<noteq> p \<Longrightarrow> entry_at (put_cells ht p k v c h) i = entry_at ht i"
  by (simp add: entry_at_def key_at_def val_at_def cnt_at_def bucket_keys_put split: option.splits)

lemmas put_entry_parts = put_entry_other [unfolded entry_at_def prod.inject, THEN conjunct1]
  put_entry_other [unfolded entry_at_def prod.inject, THEN conjunct2, THEN conjunct2]

lemma put_entry_same:
  assumes "hash_shape ht" "p < length (bh_values ht)"
  shows "entry_at (put_cells ht p k v c h) p =
    (cell_decode (if bh_keys ht = None then v else k), cell_decode v, if bh_counts ht = None then 1 else c)"
  using assms(2) shape_length(2,3) [OF assms(1)]
  by (cases "bh_counts ht") (simp_all add: entry_at_def key_at_def val_at_def cnt_at_def bucket_keys_put)

lemma put_reaches:
  assumes "reaches ht x i" "(if bh_keys ht = None then v else k) \<noteq> 0"
  shows "reaches (put_cells ht p k v c h) x i"
proof -
  have "bucket_keys ht ! j \<noteq> 0 \<Longrightarrow> bucket_keys (put_cells ht p k v c h) ! j \<noteq> 0" for j
    using assms(2) by (cases "j = p \<and> p < length (bucket_keys ht)") (auto simp: bucket_keys_put nth_list_update list_update_beyond)
  then show ?thesis using assms(1) unfolding reaches_def by (simp, blast)
qed

lemma entries_remove: "p \<in> live ht \<Longrightarrow> image_mset (entry_at ht) (mset_set (live ht - {p})) = entries ht - {#entry_at ht p#}"
  by (simp add: entries_def mset_set.remove)

lemma entries_put:
  assumes "hash_shape ht" "p < length (bh_values ht)"
  shows "entries (put_cells ht p k v c h) =
    (if in_use v then add_mset (entry_at (put_cells ht p k v c h) p) else id)
      (entries ht - (if p \<in> live ht then {#entry_at ht p#} else {#}))"
proof -
  let ?ht = "put_cells ht p k v c h"
  have rest: "image_mset (entry_at ?ht) (mset_set (live ht - {p})) = image_mset (entry_at ht) (mset_set (live ht - {p}))"
    by (rule image_mset_cong) (auto simp: put_entry_other)
  also have "\<dots> = entries ht - (if p \<in> live ht then {#entry_at ht p#} else {#})"
    using entries_remove [of p ht] by (cases "p \<in> live ht") (simp_all add: entries_def)
  finally have rest': "image_mset (entry_at ?ht) (mset_set (live ht - {p})) =
      entries ht - (if p \<in> live ht then {#entry_at ht p#} else {#})" .
  have "insert p (live ht) = insert p (live ht - {p})" by auto
  then show ?thesis
    using rest' by (simp add: entries_def [of ?ht] put_live [OF assms(2)] mset_set.insert_remove)
qed

lemma cells_agreeI:
  assumes "\<And>i. i < length (bh_values ht) \<Longrightarrow>
      (bucket_keys ht ! i = 0 \<longleftrightarrow> bh_values ht ! i = 0) \<and> (bucket_keys ht ! i = - 1 \<longleftrightarrow> bh_values ht ! i = - 1)"
    and "\<And>i. i \<in> live ht \<Longrightarrow> bh_counts ht \<noteq> None \<Longrightarrow> 0 < cnt_at ht i \<and> cnt_at ht i \<le> count_max (bh_counts_width ht)"
    and "\<And>i. i < length (bh_values ht) \<Longrightarrow> i \<notin> live ht \<Longrightarrow> bh_counts ht \<noteq> None \<Longrightarrow> cnt_at ht i = 0"
    and "\<And>i. i \<in> live ht \<Longrightarrow> key_at ht i \<in> K"
    and "\<And>i. i \<in> live ht \<Longrightarrow> reaches ht (CFBasicHashHashKey env ht (key_at ht i)) i"
    and "\<And>hashes i. bh_hashes ht = Some hashes \<Longrightarrow> i \<in> live ht \<Longrightarrow> hashes ! i = CFBasicHashHashKey env ht (key_at ht i)"
    and "\<And>i j. i \<in> live ht \<Longrightarrow> j \<in> live ht \<Longrightarrow> CFBasicHashTestEqualKey env ht (key_at ht i) (key_at ht j) \<Longrightarrow> i = j"
  shows "cells_agree env K ht"
  unfolding cells_agree_def
proof (intro conjI)
  show "\<forall>i<length (bh_values ht). bh_counts ht \<noteq> None \<longrightarrow>
      (if i \<in> live ht then 0 < cnt_at ht i \<and> cnt_at ht i \<le> count_max (bh_counts_width ht) else cnt_at ht i = 0)"
    using assms(2,3) by presburger
qed (use assms(1,4,5,6,7) in blast)+

text \<open>What it takes for bucket \<open>p\<close> to hold \<open>key\<close>: it is on the way of the key, and no other bucket has an equal one.\<close>

definition place_for :: "hash_env \<Rightarrow> ptr set \<Rightarrow> CFBasicHash \<Rightarrow> ptr \<Rightarrow> nat \<Rightarrow> bool" where
  "place_for env K ht key p \<longleftrightarrow>
     p < length (bh_values ht) \<and> key \<in> K \<and> reaches ht (CFBasicHashHashKey env ht key) p \<and>
     (\<forall>i \<in> live ht - {p}. \<not> CFBasicHashTestEqualKey env ht (key_at ht i) key)"

abbreviation store :: "CFBasicHash \<Rightarrow> nat \<Rightarrow> ptr \<Rightarrow> ptr \<Rightarrow> nat \<Rightarrow> ptr \<Rightarrow> CFBasicHash" where
  "store ht p k v c h \<equiv> put_cells ht p (cell_encode k) (cell_encode v) c h"

text \<open>A table without keys takes the value for the key.\<close>

definition value_fits :: "CFBasicHash \<Rightarrow> ptr \<Rightarrow> ptr \<Rightarrow> bool" where
  "value_fits ht key v \<longleftrightarrow> \<not> is_sentinel v \<and> (bh_keys ht = None \<longrightarrow> v = key)"

lemma store_entry:
  assumes "hash_shape ht" "p < length (bh_values ht)" "\<not> is_sentinel key" "value_fits ht key v"
  shows "entry_at (store ht p key v c h) p = (key, v, if bh_counts ht = None then 1 else c)"
  using put_entry_same [OF assms(1,2)] assms(3,4) cell_codes(3) by (auto simp: value_fits_def)

lemma store_agrees:
  assumes shape: "hash_shape ht" and cells: "cells_agree env K ht" and laws: "key_laws env ht K"
    and place: "place_for env K ht key p" and v: "value_fits ht key v"
    and c: "0 < c" "c \<le> count_max (bh_counts_width ht)"
    and h: "bh_hashes ht \<noteq> None \<Longrightarrow> h = CFBasicHashHashKey env ht key"
  shows "cells_agree env K (store ht p key v c h)"
proof -
  let ?ht = "store ht p key v c h"
  have p: "p < length (bh_values ht)" "key \<in> K" "reaches ht (CFBasicHashHashKey env ht key) p"
    and only: "\<And>i. i \<in> live ht \<Longrightarrow> i \<noteq> p \<Longrightarrow> \<not> CFBasicHashTestEqualKey env ht (key_at ht i) key"
    using place by (auto simp: place_for_def)
  have live: "live ?ht = insert p (live ht)" using put_live [OF p(1)] cell_codes(1) by simp
  have at_p: "key_at ?ht p = key" "cnt_at ?ht p = (if bh_counts ht = None then 1 else c)"
    using store_entry [OF shape p(1) same_key_codes [OF laws p(2)] v, of c h] by (simp_all add: entry_at_def)
  have other: "key_at ?ht i = key_at ht i" "cnt_at ?ht i = cnt_at ht i" if "i \<noteq> p" for i
    using put_entry_parts [OF that] by simp_all
  note D = cells_agreeD [OF cells]
  have width: "length (bucket_keys ht) = length (bh_values ht)" by (rule shape_length(2) [OF shape])
  show ?thesis
  proof (rule cells_agreeI)
    show "(bucket_keys ?ht ! i = 0 \<longleftrightarrow> bh_values ?ht ! i = 0) \<and> (bucket_keys ?ht ! i = - 1 \<longleftrightarrow> bh_values ?ht ! i = - 1)"
      if "i < length (bh_values ?ht)" for i
      using that D(1,2) [of i] width p(1) by (cases "i = p") (simp_all add: bucket_keys_put)
    show "0 < cnt_at ?ht i \<and> cnt_at ?ht i \<le> count_max (bh_counts_width ?ht)" if "i \<in> live ?ht" "bh_counts ?ht \<noteq> None" for i
      using that live at_p(2) other(2) D(3) [of i] c by (cases "i = p") auto
    show "cnt_at ?ht i = 0" if "i < length (bh_values ?ht)" "i \<notin> live ?ht" "bh_counts ?ht \<noteq> None" for i
      using that live other(2) [of i] D(4) [of i] by auto
    show "key_at ?ht i \<in> K" if "i \<in> live ?ht" for i
      using that live at_p(1) other(1) D(5) [of i] p(2) by (cases "i = p") auto
    show "reaches ?ht (CFBasicHashHashKey env ?ht (key_at ?ht i)) i" if "i \<in> live ?ht" for i
      using that live at_p(1) other(1) D(6) [of i] p(3) by (cases "i = p") (auto intro!: put_reaches split: if_splits)
    show "hashes ! i = CFBasicHashHashKey env ?ht (key_at ?ht i)" if "bh_hashes ?ht = Some hashes" "i \<in> live ?ht" for hashes i
      using that live at_p(1) other(1) D(7) [of _ i] h p(1) shape_length(4) [OF shape] by (cases "i = p") auto
    show "i = j" if "i \<in> live ?ht" "j \<in> live ?ht" "CFBasicHashTestEqualKey env ?ht (key_at ?ht i) (key_at ?ht j)" for i j
    proof (cases "i = p \<or> j = p")
      case False
      then show ?thesis using that live other(1) D(8) [of i j] by simp
    next
      case True
      have "\<not> CFBasicHashTestEqualKey env ht key (key_at ht l)" if "l \<in> live ht" "l \<noteq> p" for l
        using only [OF that] D(5) [OF that(1)] same_key_sym [OF laws p(2)] by blast
      then show ?thesis
        using True that live at_p(1) other(1) only by (cases "i = p"; cases "j = p") auto
    qed
  qed
qed

lemma vacate_agrees:
  assumes shape: "hash_shape ht" and cells: "cells_agree env K ht" and p: "p < length (bh_values ht)"
  shows "cells_agree env K (put_cells ht p (- 1) (- 1) 0 h)"
proof -
  let ?ht = "put_cells ht p (- 1) (- 1) 0 h"
  have live: "live ?ht = live ht - {p}" using put_live [OF p] by (simp add: in_use_def)
  have at_p: "bh_counts ht \<noteq> None \<Longrightarrow> cnt_at ?ht p = 0"
    using put_entry_same [OF shape p, of "- 1" "- 1" 0 h] by (auto simp: entry_at_def)
  have other: "key_at ?ht i = key_at ht i" "cnt_at ?ht i = cnt_at ht i" if "i \<noteq> p" for i
    using put_entry_parts [OF that] by simp_all
  note D = cells_agreeD [OF cells]
  have width: "length (bucket_keys ht) = length (bh_values ht)" by (rule shape_length(2) [OF shape])
  show ?thesis
  proof (rule cells_agreeI)
    show "(bucket_keys ?ht ! i = 0 \<longleftrightarrow> bh_values ?ht ! i = 0) \<and> (bucket_keys ?ht ! i = - 1 \<longleftrightarrow> bh_values ?ht ! i = - 1)"
      if "i < length (bh_values ?ht)" for i
      using that D(1,2) [of i] width p by (cases "i = p") (simp_all add: bucket_keys_put)
    show "0 < cnt_at ?ht i \<and> cnt_at ?ht i \<le> count_max (bh_counts_width ?ht)" if "i \<in> live ?ht" "bh_counts ?ht \<noteq> None" for i
      using that live other(2) [of i] D(3) [of i] by auto
    show "cnt_at ?ht i = 0" if "i < length (bh_values ?ht)" "i \<notin> live ?ht" "bh_counts ?ht \<noteq> None" for i
      using that live at_p other(2) [of i] D(4) [of i] by (cases "i = p") auto
    show "key_at ?ht i \<in> K" if "i \<in> live ?ht" for i
      using that live other(1) [of i] D(5) [of i] by auto
    show "reaches ?ht (CFBasicHashHashKey env ?ht (key_at ?ht i)) i" if "i \<in> live ?ht" for i
    proof -
      have i: "i \<in> live ht" "key_at ?ht i = key_at ht i" using that live other(1) [of i] by auto
      show ?thesis unfolding i(2) put_cells_callbacks by (rule put_reaches [OF D(6) [OF i(1)]]) simp
    qed
    show "hashes ! i = CFBasicHashHashKey env ?ht (key_at ?ht i)" if "bh_hashes ?ht = Some hashes" "i \<in> live ?ht" for hashes i
      using that live other(1) [of i] D(7) [of _ i] by auto
    show "i = j" if "i \<in> live ?ht" "j \<in> live ?ht" "CFBasicHashTestEqualKey env ?ht (key_at ?ht i) (key_at ?ht j)" for i j
      using that live other(1) [of i] other(1) [of j] D(8) [of i j] by auto
  qed
qed

section \<open>What the steps of the code do to the cells\<close>

lemma SetValue_at:
  assumes "p < length (bh_values ht)"
  shows "CFBasicHashSetValue_cell ht (int p) v ignoreOld literal =
    Inr (ht\<lparr>bh_values := (bh_values ht)[p := if literal then v else cell_encode v]\<rparr>,
      if ignoreOld then [] else eject_old (bh_values ht ! p) (CFBasicHashEjectValue ht))"
  using assms by (simp add: CFBasicHashSetValue_cell_def)

lemma SetKey_at:
  assumes "p < length keys" "bh_keys ht = Some keys"
  shows "CFBasicHashSetKey_cell ht (int p) k ignoreOld literal =
    Inr (ht\<lparr>bh_keys := Some (keys[p := if literal then k else cell_encode k])\<rparr>,
      if ignoreOld then [] else eject_old (keys ! p) (CFBasicHashEjectKey ht))"
  using assms by (simp add: CFBasicHashSetKey_cell_def)

lemma IncSlotCount_at:
  assumes "p < length counts" "bh_counts ht = Some counts" "counts ! p < count_max (bh_counts_width ht)"
  shows "CFBasicHashIncSlotCount env ht (int p) = Inr (ht\<lparr>bh_counts := Some (counts[p := counts ! p + 1])\<rparr>)"
  using assms by (subst CFBasicHashIncSlotCount.simps) (simp add: the_array_def)

lemma DecSlotCount_at:
  assumes "p < length counts" "bh_counts ht = Some counts" "0 < counts ! p"
  shows "CFBasicHashDecSlotCount ht (int p) = Inr (ht\<lparr>bh_counts := Some (counts[p := counts ! p - 1])\<rparr>)"
  using assms by (simp add: CFBasicHashDecSlotCount_def the_array_def)

lemma set_hash_at:
  assumes "p < length hashes" "bh_hashes ht = Some hashes"
  shows "set_hash_cell ht (int p) h = Inr (ht\<lparr>bh_hashes := Some (hashes[p := h])\<rparr>)"
  using assms by (simp add: set_hash_cell_def the_array_def)

lemma count_max_pos: "0 < count_max w"
proof -
  have "(2::nat) ^ 1 \<le> 2 ^ (8 * 2 ^ w - 1)" using one_le_power [of "2::nat" w] by (intro power_increasing) linarith+
  then show ?thesis by (simp add: count_max_def)
qed

lemma eject_old_vacant: "\<not> in_use x \<Longrightarrow> eject_old x f = []"
  by (auto simp: eject_old_def in_use_def)

lemma eject_old_live: "in_use x \<Longrightarrow> eject_old x f = f (cell_decode x)"
  by (auto simp: eject_old_def in_use_def)

text \<open>Nothing is written to an array the table does not have.\<close>

lemma absent_arrays:
  "bh_keys ht = None \<Longrightarrow> ht\<lparr>bh_keys := None\<rparr> = ht"
  "bh_counts ht = None \<Longrightarrow> ht\<lparr>bh_counts := None\<rparr> = ht"
  "bh_hashes ht = None \<Longrightarrow> ht\<lparr>bh_hashes := None\<rparr> = ht"
  by simp_all

text \<open>Writing the cells of a vacant bucket.\<close>

lemma fill_cells:
  assumes shape: "hash_shape ht" and cells: "cells_agree env K ht" and p: "p < length (bh_values ht)" "p \<notin> live ht"
  shows "ebind (CFBasicHashSetValue_cell ht (int p) v False False) (\<lambda>(ht, evs3).
      ebind (when_array (bh_keys ht) (ht, []) (CFBasicHashSetKey_cell ht (int p) k False False)) (\<lambda>(ht, evs4).
      ebind (when_array (bh_counts ht) ht (CFBasicHashIncSlotCount env ht (int p))) (\<lambda>ht.
      ebind (when_array (bh_hashes ht) ht (set_hash_cell ht (int p) h)) (\<lambda>ht. Inr (g ht evs3 evs4))))) =
    Inr (g (store ht p k v 1 h) [] [])"
proof -
  have old: "\<not> in_use (bh_values ht ! p)" "\<not> in_use (bucket_keys ht ! p)"
    using p live_key_raw [OF cells p(1)] by (auto simp: live_def)
  have count: "counts ! p = 0" if "bh_counts ht = Some counts" for counts
    using cells_agreeD(4) [OF cells p] that by (simp add: cnt_at_def)
  have keys: "CFBasicHashSetKey_cell (ht\<lparr>bh_values := vs\<rparr>) (int p) k False False =
      Inr (ht\<lparr>bh_values := vs, bh_keys := Some (keys[p := cell_encode k])\<rparr>, [])" if "bh_keys ht = Some keys" for keys vs
    using SetKey_at [of p keys "ht\<lparr>bh_values := vs\<rparr>" k False False] that p(1) shape_length(5) [OF shape that] old(2)
    by (simp add: bucket_keys_def eject_old_vacant)
  have inc: "CFBasicHashIncSlotCount env ht' (int p) = Inr (ht'\<lparr>bh_counts := Some (counts[p := 1])\<rparr>)"
    if "bh_counts ht = Some counts" "bh_counts ht' = Some counts" for counts ht'
    using IncSlotCount_at [of p counts ht' env] that p(1) shape_length(3) [OF shape that(1)] count [OF that(1)] count_max_pos
    by simp
  have hash: "set_hash_cell ht' (int p) h = Inr (ht'\<lparr>bh_hashes := Some (hashes[p := h])\<rparr>)"
    if "bh_hashes ht = Some hashes" "bh_hashes ht' = Some hashes" for hashes ht'
    using set_hash_at [of p hashes ht' h] that p(1) shape_length(4) [OF shape that(1)] by simp
  show ?thesis
    using SetValue_at [OF p(1), of v False False] old(1) keys inc hash
    by (cases "bh_keys ht"; cases "bh_counts ht"; cases "bh_hashes ht")
      (simp_all add: when_array_def eject_old_vacant put_cells_def absent_arrays)
qed

end
