(* ===== verification/CF_HashOps.thy ===== *)
theory CF_HashOps
  imports CF_HashCells
begin

text \<open>
  The operations of \<open>CF_BasicHash\<close> against the contents of the table: rehashing, adding, replacing and removing keep the
  invariant and do to the multiset of entries what they promise.
\<close>

section \<open>Rehashing keeps the contents\<close>

text \<open>Everything of a table but the cells.\<close>

definition frame :: "CFBasicHash \<Rightarrow> CFBasicHash" where
  "frame ht = ht\<lparr>bh_values := [], bh_keys := map_option (\<lambda>_. []) (bh_keys ht), bh_counts := map_option (\<lambda>_. []) (bh_counts ht),
     bh_hashes := map_option (\<lambda>_. []) (bh_hashes ht)\<rparr>"

lemma frame_put [simp]: "frame (put_cells ht p k v c h) = frame ht"
  by (simp add: frame_def put_cells_def option.map_comp comp_def)

lemma frame_parts:
  "bh_callbacks (frame ht) = bh_callbacks ht" "bh_used_buckets (frame ht) = bh_used_buckets ht"
  "bh_num_buckets_idx (frame ht) = bh_num_buckets_idx ht" "bh_deleted (frame ht) = bh_deleted ht"
  "bh_mutable (frame ht) = bh_mutable ht" "bh_null_rc (frame ht) = bh_null_rc ht"
  "bh_indirect_keys (frame ht) = bh_indirect_keys ht" "bh_hash_style (frame ht) = bh_hash_style ht"
  "bh_counts_width (frame ht) = bh_counts_width ht" "bh_fast_grow (frame ht) = bh_fast_grow ht"
  "bh_keys (frame ht) = None \<longleftrightarrow> bh_keys ht = None" "bh_counts (frame ht) = None \<longleftrightarrow> bh_counts ht = None"
  "bh_hashes (frame ht) = None \<longleftrightarrow> bh_hashes ht = None"
  by (simp_all add: frame_def)

lemma frameD:
  assumes "frame a = frame b"
  shows "bh_callbacks a = bh_callbacks b" "bh_used_buckets a = bh_used_buckets b" "bh_num_buckets_idx a = bh_num_buckets_idx b"
    "bh_deleted a = bh_deleted b" "bh_mutable a = bh_mutable b" "bh_null_rc a = bh_null_rc b" "bh_indirect_keys a = bh_indirect_keys b"
    "bh_hash_style a = bh_hash_style b" "bh_counts_width a = bh_counts_width b" "bh_fast_grow a = bh_fast_grow b"
    "bh_keys a = None \<longleftrightarrow> bh_keys b = None" "bh_counts a = None \<longleftrightarrow> bh_counts b = None" "bh_hashes a = None \<longleftrightarrow> bh_hashes b = None"
  using assms frame_parts [of a] frame_parts [of b] by simp_all

lemma frame_callbacks:
  assumes "bh_callbacks a = bh_callbacks b"
  shows "CFBasicHashHashKey env a = CFBasicHashHashKey env b" "CFBasicHashTestEqualKey env a = CFBasicHashTestEqualKey env b"
    "key_laws env a K = key_laws env b K"
proof -
  show *: "CFBasicHashHashKey env a = CFBasicHashHashKey env b" "CFBasicHashTestEqualKey env a = CFBasicHashTestEqualKey env b"
    using assms by (simp_all add: fun_eq_iff CFBasicHashHashKey_def CFBasicHashTestEqualKey_def)
  show "key_laws env a K = key_laws env b K" by (simp add: key_laws_def *)
qed

definition empty_table :: "CFBasicHash \<Rightarrow> nat \<Rightarrow> CFBasicHash" where
  "empty_table ht idx =
     (let n = hash_size idx in
      ht\<lparr>bh_num_buckets_idx := idx, bh_deleted := 0, bh_values := replicate n 0, bh_keys := map_option (\<lambda>_. replicate n 0) (bh_keys ht),
         bh_counts := map_option (\<lambda>_. replicate n 0) (bh_counts ht), bh_hashes := map_option (\<lambda>_. replicate n 0) (bh_hashes ht)\<rparr>)"

lemma empty_table_facts:
  assumes "hash_shape ht" "idx \<le> 44"
  shows "hash_shape (empty_table ht idx)" "cells_agree env K (empty_table ht idx)" "live (empty_table ht idx) = {}"
    "frame (empty_table ht idx) = frame (ht\<lparr>bh_num_buckets_idx := idx, bh_deleted := 0\<rparr>)"
proof -
  show "hash_shape (empty_table ht idx)"
    using assms by (auto simp: hash_shape_def empty_table_def Let_def array_fits_def)
  show live: "live (empty_table ht idx) = {}" by (auto simp: live_def empty_table_def Let_def in_use_def)
  show "frame (empty_table ht idx) = frame (ht\<lparr>bh_num_buckets_idx := idx, bh_deleted := 0\<rparr>)"
    by (simp add: frame_def empty_table_def Let_def option.map_comp comp_def)
  have cells: "bh_values (empty_table ht idx) = replicate (hash_size idx) 0" "bucket_keys (empty_table ht idx) = replicate (hash_size idx) 0"
    by (cases "bh_keys ht"; simp add: empty_table_def Let_def bucket_keys_def)+
  have "cnt_at (empty_table ht idx) i = 0" if "i < hash_size idx" "bh_counts (empty_table ht idx) \<noteq> None" for i
    using that by (cases "bh_counts ht") (simp_all add: empty_table_def Let_def cnt_at_def)
  then show "cells_agree env K (empty_table ht idx)"
    by (intro cells_agreeI) (simp_all add: live cells)
qed

lemma cell_decode_code: "\<not> is_sentinel (cell_decode x)"
  by (auto simp: cell_decode_def is_sentinel_def CFBasicHashSubABZero_def CFBasicHashSubABOne_def)

lemma card_live_room: "card (live ht) < length (bh_values ht) \<Longrightarrow> live ht \<noteq> {..<length (bh_values ht)}"
  by (metis card_lessThan less_irrefl)

lemma entry_members: "i \<in> live ht \<Longrightarrow> entry_at ht i \<in># entries ht"
  by (auto simp: entries_def)

lemma store_fresh:
  assumes shape: "hash_shape ht" and cells: "cells_agree env K ht" and laws: "key_laws env ht K"
    and place: "place_for env K ht key p" and p: "p \<notin> live ht" and v: "value_fits ht key v"
    and c: "0 < c" "c \<le> count_max (bh_counts_width ht)"
    and h: "bh_hashes ht \<noteq> None \<Longrightarrow> h = CFBasicHashHashKey env ht key"
  shows "hash_shape (store ht p key v c h)" "cells_agree env K (store ht p key v c h)"
    "entries (store ht p key v c h) = add_mset (key, v, if bh_counts ht = None then 1 else c) (entries ht)"
    "live (store ht p key v c h) = insert p (live ht)" "card (live (store ht p key v c h)) = Suc (card (live ht))"
proof -
  have len: "p < length (bh_values ht)" "key \<in> K" using place by (simp_all add: place_for_def)
  show "hash_shape (store ht p key v c h)" by (rule put_shape [OF shape])
  show "cells_agree env K (store ht p key v c h)" by (rule store_agrees [OF shape cells laws place v c h])
  show "entries (store ht p key v c h) = add_mset (key, v, if bh_counts ht = None then 1 else c) (entries ht)"
    using entries_put [OF shape len(1), of "cell_encode key" "cell_encode v" c h]
      store_entry [OF shape len(1) same_key_codes [OF laws len(2)] v, of c h] p cell_codes(1) by simp
  show "live (store ht p key v c h) = insert p (live ht)" using put_live [OF len(1)] cell_codes(1) by simp
  then show "card (live (store ht p key v c h)) = Suc (card (live ht))" using p by simp
qed

text \<open>The new table while the first \<open>j\<close> buckets of the old one have been moved into it.\<close>

definition moved_into :: "hash_env \<Rightarrow> ptr set \<Rightarrow> CFBasicHash \<Rightarrow> CFBasicHash \<Rightarrow> nat \<Rightarrow> nat \<Rightarrow> bool" where
  "moved_into env K old ht idx j \<longleftrightarrow>
     hash_shape ht \<and> cells_agree env K ht \<and> frame ht = frame (old\<lparr>bh_num_buckets_idx := idx, bh_deleted := 0\<rparr>) \<and>
     (\<forall>i < length (bh_values ht). bh_values ht ! i \<noteq> - 1) \<and>
     entries ht = image_mset (entry_at old) (mset_set (live old \<inter> {..<j})) \<and>
     card (live ht) = card (live old \<inter> {..<j})"

lemma moved_step:
  assumes "j \<in> live old"
  shows "mset_set (live old \<inter> {..<Suc j}) = add_mset j (mset_set (live old \<inter> {..<j}))"
    "card (live old \<inter> {..<Suc j}) = Suc (card (live old \<inter> {..<j}))"
proof -
  have "live old \<inter> {..<Suc j} = insert j (live old \<inter> {..<j})" using assms by auto
  then show "mset_set (live old \<inter> {..<Suc j}) = add_mset j (mset_set (live old \<inter> {..<j}))"
    "card (live old \<inter> {..<Suc j}) = Suc (card (live old \<inter> {..<j}))" by simp_all
qed

lemma key_values: "bh_keys ht = None \<Longrightarrow> val_at ht i = key_at ht i"
  by (simp add: key_at_def val_at_def bucket_keys_def)

lemma rehash_bucket_moves:
  assumes old: "hash_shape old" "cells_agree env K old" "key_laws env old K"
    and moved: "moved_into env K old ht idx j" and j: "j \<in> live old" and room: "card (live old) \<le> hash_size idx"
  shows "\<exists>ht'. rehash_bucket env old ht j = Inr (ht', []) \<and> moved_into env K old ht' idx (Suc j)"
proof -
  from moved have shape: "hash_shape ht" and cells: "cells_agree env K ht"
    and fr: "frame ht = frame (old\<lparr>bh_num_buckets_idx := idx, bh_deleted := 0\<rparr>)"
    and fresh: "\<forall>i < length (bh_values ht). bh_values ht ! i \<noteq> - 1"
    and ents: "entries ht = image_mset (entry_at old) (mset_set (live old \<inter> {..<j}))"
    and card: "card (live ht) = card (live old \<inter> {..<j})"
    by (simp_all add: moved_into_def)
  note F = frameD [OF fr, simplified]
  note cb = frame_callbacks [OF F(1)]
  have laws: "key_laws env ht K" using old(3) cb by simp
  have jl: "j < length (bh_values old)" by (rule live_less [OF j])
  let ?key = "key_at old j" and ?v = "val_at old j"
  have key: "?key \<in> K" by (rule cells_agreeD(5) [OF old(2) j])
  have "length (bh_values ht) = hash_size idx" using shape_length(1) [OF shape] F(3) by simp
  moreover have "card (live old \<inter> {..<Suc j}) \<le> card (live old)" by (rule card_mono) auto
  ultimately have free: "live ht \<noteq> {..<length (bh_values ht)}"
    using card_live_room [of ht] card moved_step(2) [OF j] room by simp
  let ?h = "case bh_hashes old of None \<Rightarrow> 0 | Some hashes \<Rightarrow> hashes ! j"
  have h: "?h = 0 \<or> ?h = CFBasicHashHashKey env ht ?key" "bh_hashes ht \<noteq> None \<Longrightarrow> ?h = CFBasicHashHashKey env ht ?key"
    using cells_agreeD(7) [OF old(2) _ j] cb(1) F(13) by (auto split: option.splits)
  obtain p where p: "CFBasicHashFindBucket_NoCollision env ht ?key ?h = Inr (int p)" "p < length (bh_values ht)" "p \<notin> live ht"
      "reaches ht (CFBasicHashHashKey env ht ?key) p"
    using NoCollision_spec [OF shape cells h(1) fresh free] by blast
  have "\<not> CFBasicHashTestEqualKey env ht (key_at ht i) ?key" if i: "i \<in> live ht" for i
  proof -
    obtain l where "l \<in> live old" "l < j" "entry_at ht i = entry_at old l"
      using entry_members [OF i] ents by auto
    then show ?thesis using cells_agreeD(8) [OF old(2) _ j, of l] cb(2) by (auto simp: entry_at_def)
  qed
  then have place: "place_for env K ht ?key p" using p key by (simp add: place_for_def)
  have v: "value_fits ht ?key ?v" using cell_decode_code F(11) by (auto simp: value_fits_def val_at_def key_values [symmetric])
  let ?c = "case bh_counts old of None \<Rightarrow> 1 | Some counts \<Rightarrow> counts ! j"
  have c: "0 < ?c" "?c \<le> count_max (bh_counts_width ht)"
    using cells_agreeD(3) [OF old(2) j] F(9) count_max_pos [of "bh_counts_width old"]
    by (auto simp: cnt_at_def Suc_le_eq split: option.splits)
  note new = store_fresh [OF shape cells laws place p(3) v c h(2)]
  have vacant: "\<not> in_use (bh_values ht ! p)" "\<not> in_use (bucket_keys ht ! p)"
    using p(2,3) live_key_raw [OF cells p(2)] by (auto simp: live_def)
  have "rehash_bucket env old ht j = Inr (store ht p ?key ?v ?c ?h, [])"
  proof -
    have v0: "bh_values old ! j \<noteq> 0" "bh_values old ! j \<noteq> - 1" using j by (simp_all add: live_def in_use_def)
    have key_read: "(case bh_keys old of None \<Rightarrow> Inr ?v | Some keys \<Rightarrow> ebind (rd keys j) (\<lambda>k. Inr (cell_decode k))) = Inr ?key"
      using shape_length(5) [OF old(1)] jl by (cases "bh_keys old") (simp_all add: key_at_def bucket_keys_def val_at_def)
    have hash_read: "(case bh_hashes old of None \<Rightarrow> Inr 0 | Some hashes \<Rightarrow> rd hashes j) = Inr ?h"
      using shape_length(4) [OF old(1)] jl by (cases "bh_hashes old") simp_all
    have ind: "\<not> bh_indirect_keys ht" using shape by (simp add: hash_shape_def)
    let ?ht1 = "ht\<lparr>bh_values := (bh_values ht)[p := cell_encode ?v]\<rparr>"
    let ?ht2 = "?ht1\<lparr>bh_keys := map_option (\<lambda>xs. xs[p := cell_encode ?key]) (bh_keys ht)\<rparr>"
    let ?ht3 = "?ht2\<lparr>bh_counts := map_option (\<lambda>xs. xs[p := ?c]) (bh_counts ht)\<rparr>"
    let ?ht4 = "?ht3\<lparr>bh_hashes := map_option (\<lambda>xs. xs[p := ?h]) (bh_hashes ht)\<rparr>"
    have set_value: "CFBasicHashSetValue_cell ht (int p) ?v False False = Inr (?ht1, [])"
      using SetValue_at [OF p(2), of ?v False False] vacant(1) by (simp add: eject_old_vacant)
    have set_key: "(if bh_keys old \<noteq> None then CFBasicHashSetKey_cell ?ht1 (int p) ?key False False else Inr (?ht1, [])) = Inr (?ht2, [])"
    proof (cases "bh_keys ht")
      case None
      then show ?thesis using F(11) by (simp add: absent_arrays)
    next
      case (Some keys)
      then show ?thesis
        using SetKey_at [of p keys ?ht1 ?key False False] p(2) shape_length(5) [OF shape Some] vacant(2) F(11)
        by (auto simp: bucket_keys_def eject_old_vacant)
    qed
    have set_count: "(case bh_counts old of None \<Rightarrow> Inr ?ht2
        | Some counts \<Rightarrow> ebind (rd counts j) (\<lambda>c. ebind (the_array (bh_counts ?ht2)) (\<lambda>new.
            ebind (wri new (int p) c) (\<lambda>new. Inr (?ht2\<lparr>bh_counts := Some new\<rparr>))))) = Inr ?ht3"
    proof (cases "bh_counts old")
      case None
      then show ?thesis using F(12) by (simp add: absent_arrays)
    next
      case (Some counts)
      then obtain new where "bh_counts ht = Some new" using F(12) by auto
      then show ?thesis
        using Some p(2) jl shape_length(3) [OF shape] shape_length(3) [OF old(1) Some] by (simp add: the_array_def)
    qed
    have set_hash: "(case bh_hashes old of None \<Rightarrow> Inr ?ht3
        | Some hashes \<Rightarrow> ebind (the_array (bh_hashes ?ht3)) (\<lambda>new.
            ebind (wri new (int p) ?h) (\<lambda>new. Inr (?ht3\<lparr>bh_hashes := Some new\<rparr>)))) = Inr ?ht4"
    proof (cases "bh_hashes old")
      case None
      then show ?thesis using F(13) by (simp add: absent_arrays)
    next
      case (Some hashes)
      then obtain new where "bh_hashes ht = Some new" using F(13) by auto
      then show ?thesis using Some p(2) shape_length(4) [OF shape] by (simp add: the_array_def)
    qed
    have "rehash_bucket env old ht j = Inr (?ht4, [])"
      unfolding rehash_bucket_def using v0 jl
      by (simp only: Let_def rd_simps ebind_simps val_at_def [symmetric] key_read hash_read ind if_False p(1) set_value
          prod.case set_key set_count set_hash append_Nil simp_thms not_False_eq_True if_True)
    then show ?thesis by (simp add: put_cells_def)
  qed
  moreover have "moved_into env K old (store ht p ?key ?v ?c ?h) idx (Suc j)"
    unfolding moved_into_def
  proof (intro conjI)
    show "\<forall>i<length (bh_values (store ht p ?key ?v ?c ?h)). bh_values (store ht p ?key ?v ?c ?h) ! i \<noteq> - 1"
      using fresh p(2) by (simp add: nth_list_update)
    show "entries (store ht p ?key ?v ?c ?h) = image_mset (entry_at old) (mset_set (live old \<inter> {..<Suc j}))"
      using new(3) ents F(12) by (simp add: moved_step(1) [OF j] entry_at_def cnt_at_def split: option.splits)
    show "card (live (store ht p ?key ?v ?c ?h)) = card (live old \<inter> {..<Suc j})"
      using new(5) card moved_step(2) [OF j] by simp
  qed (use new(1,2) fr in simp_all)
  ultimately show ?thesis by blast
qed

lemma rehash_loop_moves:
  assumes old: "hash_shape old" "cells_agree env K old" "key_laws env old K" and room: "card (live old) \<le> hash_size idx"
  shows "moved_into env K old ht idx j \<Longrightarrow> j + k = length (bh_values old) \<Longrightarrow>
    \<exists>ht'. rehash_loop env old ht j k = Inr (ht', []) \<and> moved_into env K old ht' idx (length (bh_values old))"
proof (induction k arbitrary: ht j)
  case (Suc k)
  have j: "j < length (bh_values old)" using Suc.prems(2) by simp
  have "\<exists>ht'. rehash_bucket env old ht j = Inr (ht', []) \<and> moved_into env K old ht' idx (Suc j)"
  proof (cases "j \<in> live old")
    case True
    show ?thesis by (rule rehash_bucket_moves [OF old Suc.prems(1) True room])
  next
    case False
    then have "live old \<inter> {..<Suc j} = live old \<inter> {..<j}" by (auto simp: less_Suc_eq)
    moreover have "rehash_bucket env old ht j = Inr (ht, [])"
      using False j by (auto simp: rehash_bucket_def live_def in_use_def)
    ultimately show ?thesis using Suc.prems(1) by (simp add: moved_into_def)
  qed
  then obtain ht' where ht': "rehash_bucket env old ht j = Inr (ht', [])" "moved_into env K old ht' idx (Suc j)" by blast
  then show ?case using Suc.IH [OF ht'(2)] Suc.prems(2) by auto
qed simp

text \<open>What a rehash to the size \<open>idx\<close> makes of a table.\<close>

definition rehashed :: "hash_env \<Rightarrow> ptr set \<Rightarrow> CFBasicHash \<Rightarrow> nat \<Rightarrow> CFBasicHash \<Rightarrow> bool" where
  "rehashed env K old idx ht \<longleftrightarrow>
     hash_wf env K ht \<and> entries ht = entries old \<and> frame ht = frame (old\<lparr>bh_num_buckets_idx := idx, bh_deleted := 0\<rparr>) \<and>
     (\<forall>i < length (bh_values ht). bh_values ht ! i \<noteq> - 1) \<and> card (live ht) = card (live old)"

lemma rehash_to:
  assumes old: "hash_shape old" "cells_agree env K old" "key_laws env old K"
    and used: "bh_used_buckets old = card (live old)" and idx: "idx \<le> 44" "bh_used_buckets old \<le> CFBasicHashGetCapacityForNumBuckets idx"
  shows "\<exists>ht. rehash_loop env old (empty_table old idx) 0 (CFBasicHashGetNumBuckets old) = Inr (ht, []) \<and> rehashed env K old idx ht"
proof -
  have n: "CFBasicHashGetNumBuckets old = length (bh_values old)"
    using shape_length(1) [OF old(1)] by (simp add: CFBasicHashGetNumBuckets_def)
  have room: "card (live old) \<le> hash_size idx" using idx(2) capacity_le_size [of idx] used by simp
  have "moved_into env K old (empty_table old idx) idx 0"
    using empty_table_facts [OF old(1) idx(1)]
    by (auto simp: moved_into_def entries_def) (simp add: empty_table_def Let_def)
  then obtain ht where ht: "rehash_loop env old (empty_table old idx) 0 (CFBasicHashGetNumBuckets old) = Inr (ht, [])"
      "moved_into env K old ht idx (length (bh_values old))"
    using rehash_loop_moves [OF old room, of "empty_table old idx" 0 "length (bh_values old)"] n by auto
  have all: "live old \<inter> {..<length (bh_values old)} = live old" by (auto simp: live_def)
  note moved = ht(2) [unfolded moved_into_def all]
  then have "frame ht = frame (old\<lparr>bh_num_buckets_idx := idx, bh_deleted := 0\<rparr>)" by simp
  note F = frameD [OF this, simplified]
  have none: "{i. i < length (bh_values ht) \<and> bh_values ht ! i = - 1} = {}" using moved by auto
  have "hash_wf env K ht"
    unfolding hash_wf_def none using moved F used idx(2) by (simp add: CFBasicHashGetCapacity_def)
  then show ?thesis using ht(1) moved unfolding rehashed_def by (auto simp: entries_def)
qed

definition allocates :: "hash_env \<Rightarrow> bool" where "allocates env \<longleftrightarrow> (\<forall>n. he_alloc env n)"

lemma Rehash_same_size:
  assumes wf: "hash_shape old" "cells_agree env K old" "key_laws env old K" "bh_used_buckets old = card (live old)"
      "bh_used_buckets old \<le> CFBasicHashGetCapacity old" and env: "allocates env"
  shows "\<exists>ht. CFBasicHashRehash env old 0 = Inr (ht, []) \<and> rehashed env K old (bh_num_buckets_idx old) ht"
proof -
  have "bh_num_buckets_idx old \<le> 44" using wf(1) by (simp add: hash_shape_def)
  then obtain ht where ht: "rehash_loop env old (empty_table old (bh_num_buckets_idx old)) 0 (CFBasicHashGetNumBuckets old) = Inr (ht, [])"
      "rehashed env K old (bh_num_buckets_idx old) ht"
    using rehash_to [OF wf(1-4), of "bh_num_buckets_idx old"] wf(5) by (auto simp: CFBasicHashGetCapacity_def)
  have "CFBasicHashRehash env old 0 = Inr (ht, [])"
    using ht(1) env unfolding CFBasicHashRehash_def empty_table_def Let_def allocates_def by simp
  then show ?thesis using ht(2) by blast
qed

lemma Rehash_resizes:
  assumes wf: "hash_shape old" "cells_agree env K old" "key_laws env old K" "bh_used_buckets old = card (live old)"
    and env: "allocates env" and n: "n \<noteq> 0"
    and room: "bh_used_buckets old + nat n \<le> CFBasicHashGetCapacityForNumBuckets (if bh_fast_grow old then 43 else 44)"
  shows "\<exists>ht idx. CFBasicHashRehash env old n = Inr (ht, []) \<and> rehashed env K old idx ht \<and>
    bh_used_buckets old + nat n \<le> CFBasicHashGetCapacityForNumBuckets idx"
proof -
  let ?c = "bh_used_buckets old + nat n"
  obtain i where i: "i \<le> (if bh_fast_grow old then 43 else 44)" "CFBasicHashGetNumBucketsIndexForCapacity ?c = Inr i"
    using NumBucketsIndex_exists [OF room] by auto
  have c: "?c \<le> CFBasicHashGetCapacityForNumBuckets i" by (rule NumBucketsIndex_find(1) [OF i(2)])
  let ?i = "if nat n = 1 \<and> bh_fast_grow old then i + 1 else i"
  have "i \<le> 43 \<Longrightarrow> CFBasicHashGetCapacityForNumBuckets i \<le> CFBasicHashGetCapacityForNumBuckets (i + 1)"
    by (rule capacity_mono) simp_all
  then have idx: "?i \<le> 44" "?c \<le> CFBasicHashGetCapacityForNumBuckets ?i" using i(1) c by (auto split: if_splits)
  then obtain ht where ht: "rehash_loop env old (empty_table old ?i) 0 (CFBasicHashGetNumBuckets old) = Inr (ht, [])"
      "rehashed env K old ?i ht"
    using rehash_to [OF wf, of ?i] by auto
  have "CFBasicHashRehash env old n = Inr (ht, [])"
    using ht(1) i(2) n env
    by (cases "nat n = 1 \<and> bh_fast_grow old")
      (auto simp: CFBasicHashRehash_def Let_def allocates_def empty_table_def nat_eq_iff2 not_less)
  then show ?thesis using ht(2) idx(2) by blast
qed

section \<open>Tables that differ in their counters\<close>

text \<open>The contents and the invariant on the cells do not depend on the counters of a table.\<close>

lemma counters_live [simp]:
  "live (ht\<lparr>bh_mutations := m\<rparr>) = live ht" "live (ht\<lparr>bh_used_buckets := n\<rparr>) = live ht" "live (ht\<lparr>bh_deleted := d\<rparr>) = live ht"
  "live (ht\<lparr>bh_counts_width := w\<rparr>) = live ht"
  by (simp_all add: live_def)

lemma counters_keys [simp]:
  "bucket_keys (ht\<lparr>bh_mutations := m\<rparr>) = bucket_keys ht" "bucket_keys (ht\<lparr>bh_used_buckets := n\<rparr>) = bucket_keys ht"
  "bucket_keys (ht\<lparr>bh_deleted := d\<rparr>) = bucket_keys ht" "bucket_keys (ht\<lparr>bh_counts_width := w\<rparr>) = bucket_keys ht"
  by (simp_all add: bucket_keys_def split: option.splits)

lemma counters_entry_at [simp]:
  "entry_at (ht\<lparr>bh_mutations := m\<rparr>) = entry_at ht" "entry_at (ht\<lparr>bh_used_buckets := n\<rparr>) = entry_at ht"
  "entry_at (ht\<lparr>bh_deleted := d\<rparr>) = entry_at ht" "entry_at (ht\<lparr>bh_counts_width := w\<rparr>) = entry_at ht"
  by (simp_all add: fun_eq_iff entry_at_def key_at_def val_at_def cnt_at_def)

lemma counters_parts [simp]:
  "key_at (ht\<lparr>bh_mutations := m\<rparr>) = key_at ht" "key_at (ht\<lparr>bh_used_buckets := n\<rparr>) = key_at ht"
  "key_at (ht\<lparr>bh_deleted := d\<rparr>) = key_at ht" "key_at (ht\<lparr>bh_counts_width := w\<rparr>) = key_at ht"
  "val_at (ht\<lparr>bh_mutations := m\<rparr>) = val_at ht" "val_at (ht\<lparr>bh_used_buckets := n\<rparr>) = val_at ht"
  "val_at (ht\<lparr>bh_deleted := d\<rparr>) = val_at ht" "val_at (ht\<lparr>bh_counts_width := w\<rparr>) = val_at ht"
  "cnt_at (ht\<lparr>bh_mutations := m\<rparr>) = cnt_at ht" "cnt_at (ht\<lparr>bh_used_buckets := n\<rparr>) = cnt_at ht"
  "cnt_at (ht\<lparr>bh_deleted := d\<rparr>) = cnt_at ht" "cnt_at (ht\<lparr>bh_counts_width := w\<rparr>) = cnt_at ht"
  by (simp_all add: fun_eq_iff key_at_def val_at_def cnt_at_def)

lemma counters_entries [simp]:
  "entries (ht\<lparr>bh_mutations := m\<rparr>) = entries ht" "entries (ht\<lparr>bh_used_buckets := n\<rparr>) = entries ht"
  "entries (ht\<lparr>bh_deleted := d\<rparr>) = entries ht" "entries (ht\<lparr>bh_counts_width := w\<rparr>) = entries ht"
  by (simp_all add: entries_def)

lemma counters_reaches [simp]:
  "reaches (ht\<lparr>bh_mutations := m\<rparr>) = reaches ht" "reaches (ht\<lparr>bh_used_buckets := n\<rparr>) = reaches ht"
  "reaches (ht\<lparr>bh_deleted := d\<rparr>) = reaches ht" "reaches (ht\<lparr>bh_counts_width := w\<rparr>) = reaches ht"
  by (simp_all add: fun_eq_iff reaches_def)

lemma counters_shape [simp]:
  "hash_shape (ht\<lparr>bh_mutations := m\<rparr>) = hash_shape ht" "hash_shape (ht\<lparr>bh_used_buckets := n\<rparr>) = hash_shape ht"
  "hash_shape (ht\<lparr>bh_deleted := d\<rparr>) = hash_shape ht"
  by (simp_all add: hash_shape_def)

lemma counters_callbacks [simp]:
  "CFBasicHashHashKey env (ht\<lparr>bh_mutations := m\<rparr>) = CFBasicHashHashKey env ht"
  "CFBasicHashHashKey env (ht\<lparr>bh_used_buckets := n\<rparr>) = CFBasicHashHashKey env ht"
  "CFBasicHashHashKey env (ht\<lparr>bh_deleted := d\<rparr>) = CFBasicHashHashKey env ht"
  "CFBasicHashHashKey env (ht\<lparr>bh_counts_width := w\<rparr>) = CFBasicHashHashKey env ht"
  "CFBasicHashTestEqualKey env (ht\<lparr>bh_mutations := m\<rparr>) = CFBasicHashTestEqualKey env ht"
  "CFBasicHashTestEqualKey env (ht\<lparr>bh_used_buckets := n\<rparr>) = CFBasicHashTestEqualKey env ht"
  "CFBasicHashTestEqualKey env (ht\<lparr>bh_deleted := d\<rparr>) = CFBasicHashTestEqualKey env ht"
  "CFBasicHashTestEqualKey env (ht\<lparr>bh_counts_width := w\<rparr>) = CFBasicHashTestEqualKey env ht"
  by (simp_all add: fun_eq_iff CFBasicHashHashKey_def CFBasicHashTestEqualKey_def)

lemma counters_laws [simp]:
  "key_laws env (ht\<lparr>bh_mutations := m\<rparr>) K = key_laws env ht K" "key_laws env (ht\<lparr>bh_used_buckets := n\<rparr>) K = key_laws env ht K"
  "key_laws env (ht\<lparr>bh_deleted := d\<rparr>) K = key_laws env ht K" "key_laws env (ht\<lparr>bh_counts_width := w\<rparr>) K = key_laws env ht K"
  by (simp_all add: key_laws_def)

lemma counters_agree [simp]:
  "cells_agree env K (ht\<lparr>bh_mutations := m\<rparr>) = cells_agree env K ht"
  "cells_agree env K (ht\<lparr>bh_used_buckets := n\<rparr>) = cells_agree env K ht"
  "cells_agree env K (ht\<lparr>bh_deleted := d\<rparr>) = cells_agree env K ht"
  by (simp_all add: cells_agree_def)

lemma counters_size [simp]:
  "CFBasicHashGetCapacity (ht\<lparr>bh_mutations := m\<rparr>) = CFBasicHashGetCapacity ht"
  "CFBasicHashGetCapacity (ht\<lparr>bh_used_buckets := n\<rparr>) = CFBasicHashGetCapacity ht"
  "CFBasicHashGetCapacity (ht\<lparr>bh_deleted := d\<rparr>) = CFBasicHashGetCapacity ht"
  by (simp_all add: CFBasicHashGetCapacity_def)

text \<open>What an operation on the contents leaves alone: the callbacks, the flags, and which arrays there are.\<close>

definition config :: "CFBasicHash \<Rightarrow> CFBasicHash" where
  "config ht = frame (ht\<lparr>bh_mutations := 0, bh_counts_width := 0, bh_used_buckets := 0, bh_deleted := 0, bh_num_buckets_idx := 0\<rparr>)"

lemma config_counters [simp]:
  "config (ht\<lparr>bh_mutations := m\<rparr>) = config ht" "config (ht\<lparr>bh_used_buckets := n\<rparr>) = config ht"
  "config (ht\<lparr>bh_deleted := d\<rparr>) = config ht" "config (ht\<lparr>bh_counts_width := w\<rparr>) = config ht"
  "config (ht\<lparr>bh_num_buckets_idx := i\<rparr>) = config ht"
  by (simp_all add: config_def frame_def)

lemma config_put [simp]: "config (put_cells ht p k v c h) = config ht"
  by (simp add: config_def frame_def put_cells_def option.map_comp comp_def)

lemma config_frame: "frame a = frame b \<Longrightarrow> config a = config b"
  by (cases a; cases b) (simp add: config_def frame_def)

lemma configD:
  assumes "config a = config b"
  shows "bh_callbacks a = bh_callbacks b" "bh_mutable a = bh_mutable b" "bh_null_rc a = bh_null_rc b"
    "bh_indirect_keys a = bh_indirect_keys b" "bh_hash_style a = bh_hash_style b" "bh_fast_grow a = bh_fast_grow b"
    "bh_finalized a = bh_finalized b"
    "bh_keys a = None \<longleftrightarrow> bh_keys b = None" "bh_counts a = None \<longleftrightarrow> bh_counts b = None" "bh_hashes a = None \<longleftrightarrow> bh_hashes b = None"
  using assms by (cases a; cases b; auto simp: config_def frame_def map_option_case split: option.splits; fail)+

lemmas config_callbacks = frame_callbacks [OF configD(1)]

section \<open>Adding to a table that does not have the key\<close>

text \<open>What a table keeps when a key and a value are given to it: the retained pointers.\<close>

definition kept_value :: "hash_env \<Rightarrow> CFBasicHash \<Rightarrow> ptr \<Rightarrow> ptr" where
  "kept_value env ht value = fst (CFBasicHashImportValue env ht value)"

definition kept_key :: "hash_env \<Rightarrow> CFBasicHash \<Rightarrow> ptr \<Rightarrow> ptr \<Rightarrow> ptr" where
  "kept_key env ht key value =
     (if bh_keys ht = None then kept_value env ht value else fst (CFBasicHashImportKey env ht key))"

definition retains :: "hash_env \<Rightarrow> CFBasicHash \<Rightarrow> ptr \<Rightarrow> ptr \<Rightarrow> ref_event list" where
  "retains env ht key value =
     snd (CFBasicHashImportValue env ht value) @ (if bh_keys ht = None then [] else snd (CFBasicHashImportKey env ht key))"

definition keeps_key :: "hash_env \<Rightarrow> ptr set \<Rightarrow> CFBasicHash \<Rightarrow> ptr \<Rightarrow> ptr \<Rightarrow> bool" where
  "keeps_key env K ht key value \<longleftrightarrow>
     key \<in> K \<and> kept_key env ht key value \<in> K \<and> CFBasicHashTestEqualKey env ht (kept_key env ht key value) key \<and>
     \<not> is_sentinel (kept_value env ht value)"

lemma import_config:
  assumes "config a = config b"
  shows "CFBasicHashImportValue env a = CFBasicHashImportValue env b" "CFBasicHashImportKey env a = CFBasicHashImportKey env b"
    "kept_value env a = kept_value env b" "kept_key env a = kept_key env b" "retains env a = retains env b"
    "CFBasicHashEjectValue a = CFBasicHashEjectValue b" "CFBasicHashEjectKey a = CFBasicHashEjectKey b"
proof -
  note C = configD(1,3,8) [OF assms]
  show *: "CFBasicHashImportValue env a = CFBasicHashImportValue env b" "CFBasicHashImportKey env a = CFBasicHashImportKey env b"
    using C by (simp_all add: fun_eq_iff CFBasicHashImportValue_def CFBasicHashImportKey_def calls_def)
  show "kept_value env a = kept_value env b" "kept_key env a = kept_key env b" "retains env a = retains env b"
    using C by (simp_all add: fun_eq_iff kept_value_def kept_key_def retains_def * del: not_None_eq)
  show "CFBasicHashEjectValue a = CFBasicHashEjectValue b" "CFBasicHashEjectKey a = CFBasicHashEjectKey b"
    using C by (simp_all add: fun_eq_iff CFBasicHashEjectValue_def CFBasicHashEjectKey_def calls_def)
qed

lemma keeps_key_config:
  assumes "config a = config b"
  shows "keeps_key env K a = keeps_key env K b"
  using import_config [OF assms] config_callbacks [OF assms] by (simp add: fun_eq_iff keeps_key_def)

lemma store_keyless: "bh_keys ht = None \<Longrightarrow> store ht p k v c h = store ht p k' v c h"
  by (simp add: put_cells_def)

lemma deleted_after_store:
  assumes "p < length (bh_values ht)" "p \<notin> live ht"
  shows "{i. i < length (bh_values (store ht p k v c h)) \<and> bh_values (store ht p k v c h) ! i = - 1} =
      {i. i < length (bh_values ht) \<and> bh_values ht ! i = - 1} - {p}"
  using assms by (auto simp: nth_list_update split: if_splits)

text \<open>The contents of two tables with the same entries have the same keys.\<close>

lemma same_entries_keys:
  assumes "entries a = entries b" "\<forall>i \<in> live b. P (key_at b i)"
  shows "\<forall>i \<in> live a. P (key_at a i)"
proof
  fix i assume "i \<in> live a"
  then have "entry_at a i \<in># entries b" using entry_members assms(1) by metis
  then obtain j where "j \<in> live b" "entry_at b j = entry_at a i" by (auto simp: entries_def)
  then show "P (key_at a i)" using assms(2) by (auto simp: entry_at_def)
qed

text \<open>Filling a vacant place of the key, with the counters the code leaves.\<close>

lemma filled_table:
  assumes shape: "hash_shape ht" and cells: "cells_agree env K ht" and laws: "key_laws env ht K"
    and p: "p < length (bh_values ht)" "p \<notin> live ht" "reaches ht (CFBasicHashHashKey env ht key) p"
    and fresh: "\<forall>i \<in> live ht. \<not> CFBasicHashTestEqualKey env ht (key_at ht i) key"
    and keep: "keeps_key env K ht key value"
    and used: "bh_used_buckets ht = card (live ht)" "card (live ht) + 1 \<le> CFBasicHashGetCapacity ht"
    and del: "bh_deleted ht = of_nat (card ({i. i < length (bh_values ht) \<and> bh_values ht ! i = - 1} - {p}))"
    and h: "bh_hashes ht \<noteq> None \<Longrightarrow> h = CFBasicHashHashKey env ht key"
    and new: "new = (store ht p (fst (if bh_keys ht \<noteq> None then CFBasicHashImportKey env ht key else (key, []))) (kept_value env ht value) 1 h)
      \<lparr>bh_used_buckets := (bh_used_buckets ht + 1) mod 2 ^ 32\<rparr>"
  shows "hash_wf env K new" "entries new = add_mset (kept_key env ht key value, kept_value env ht value, 1) (entries ht)"
    "config new = config ht" "bh_mutations new = bh_mutations ht"
proof -
  let ?k = "kept_key env ht key value" and ?v = "kept_value env ht value"
  note K = keep [unfolded keeps_key_def]
  have "store ht p (fst (if bh_keys ht \<noteq> None then CFBasicHashImportKey env ht key else (key, []))) ?v 1 h = store ht p ?k ?v 1 h"
    by (cases "bh_keys ht = None") (auto simp: kept_key_def intro: store_keyless)
  then have eq: "new = (store ht p ?k ?v 1 h)\<lparr>bh_used_buckets := (bh_used_buckets ht + 1) mod 2 ^ 32\<rparr>" using new by simp
  have same_hash: "CFBasicHashHashKey env ht ?k = CFBasicHashHashKey env ht key"
    using same_key_hash [OF laws] K by blast
  have "\<not> CFBasicHashTestEqualKey env ht (key_at ht i) ?k" if "i \<in> live ht" for i
    using same_key_right [OF laws] K cells_agreeD(5) [OF cells that] fresh that by blast
  then have place: "place_for env K ht ?k p" using p K same_hash by (simp add: place_for_def)
  have fits: "value_fits ht ?k ?v" using K by (auto simp: value_fits_def kept_key_def)
  have bound: "card (live ht) + 1 < 2 ^ 32"
    using used(2) capacity_bound [of "bh_num_buckets_idx ht"] by (simp add: CFBasicHashGetCapacity_def)
  note F = store_fresh [OF shape cells laws place p(2) fits, of 1 h] 
  have one: "(1::nat) \<le> count_max (bh_counts_width ht)" using count_max_pos [of "bh_counts_width ht"] by simp
  have hh: "bh_hashes ht \<noteq> None \<Longrightarrow> h = CFBasicHashHashKey env ht ?k" using h same_hash by simp
  note F = F [OF _ one hh, simplified]
  show "entries new = add_mset (?k, ?v, 1) (entries ht)" using F(3) eq by simp
  show "config new = config ht" "bh_mutations new = bh_mutations ht" by (simp_all add: eq put_cells_def [of ht p]) 
     (simp add: config_def frame_def option.map_comp comp_def)
  show "hash_wf env K new"
    using F used bound del deleted_after_store [OF p(1,2), of ?k ?v 1 h]
    unfolding eq hash_wf_def by (simp add: CFBasicHashGetCapacity_def)
qed

text \<open>Where the key goes: the place the search found, or the one it gets in a larger table.\<close>

lemma place_to_add:
  assumes wf: "hash_wf env K ht" and laws: "key_laws env ht K" and env: "allocates env" and key: "key \<in> K"
    and fresh: "\<forall>i \<in> live ht. \<not> CFBasicHashTestEqualKey env ht (key_at ht i) key"
    and room: "bh_used_buckets ht + 1 \<le> CFBasicHashGetCapacityForNumBuckets (if bh_fast_grow ht then 43 else 44)"
    and found: "live ht \<noteq> {..<length (bh_values ht)} \<Longrightarrow>
      \<exists>p. d = int p \<and> p < length (bh_values ht) \<and> p \<notin> live ht \<and> reaches ht (CFBasicHashHashKey env ht key) p"
  shows "\<exists>ht1 p. (if CFBasicHashGetCapacity ht < (bh_used_buckets ht + 1) mod 2 ^ 32 then
         ebind (CFBasicHashRehash env ht 1) (\<lambda>(ht, evs).
         ebind (CFBasicHashFindBucket_NoCollision env ht key 0) (\<lambda>idx. Inr (ht, evs, idx)))
       else
         ebind (CFBasicHashIsDeleted ht d) (\<lambda>deleted.
         Inr (if deleted then ht\<lparr>bh_deleted := bh_deleted ht - 1\<rparr> else ht, [], d))) = Inr (ht1, [], int p) \<and>
      hash_shape ht1 \<and> cells_agree env K ht1 \<and> p < length (bh_values ht1) \<and> p \<notin> live ht1 \<and>
      reaches ht1 (CFBasicHashHashKey env ht key) p \<and> bh_used_buckets ht1 = card (live ht1) \<and>
      card (live ht1) + 1 \<le> CFBasicHashGetCapacity ht1 \<and>
      bh_deleted ht1 = of_nat (card ({i. i < length (bh_values ht1) \<and> bh_values ht1 ! i = - 1} - {p})) \<and>
      entries ht1 = entries ht \<and> config ht1 = config ht \<and> bh_mutations ht1 = bh_mutations ht"
proof -
  note W = wf [unfolded hash_wf_def]
  have small: "(bh_used_buckets ht + 1) mod 2 ^ 32 = bh_used_buckets ht + 1"
    using room capacity_bound [of "if bh_fast_grow ht then 43 else 44"] by simp
  show ?thesis
  proof (cases "CFBasicHashGetCapacity ht < bh_used_buckets ht + 1")
    case True
    obtain ht1 idx where ht1: "CFBasicHashRehash env ht 1 = Inr (ht1, [])" "rehashed env K ht idx ht1"
        "bh_used_buckets ht + 1 \<le> CFBasicHashGetCapacityForNumBuckets idx"
      using Rehash_resizes [of ht env K 1] W laws env room by auto
    note R = ht1(2) [unfolded rehashed_def hash_wf_def]
    have frame: "frame ht1 = frame (ht\<lparr>bh_num_buckets_idx := idx, bh_deleted := 0\<rparr>)" using R by simp
    have conf: "config ht1 = config ht" using config_frame [OF frame] by simp
    have "bh_mutations (frame ht1) = bh_mutations (frame (ht\<lparr>bh_num_buckets_idx := idx, bh_deleted := 0\<rparr>))" using frame by simp
    then have mut: "bh_mutations ht1 = bh_mutations ht" by (simp add: frame_def)
    have idx: "bh_num_buckets_idx ht1 = idx" using frameD(3) [OF frame] by simp
    have cap: "card (live ht1) + 1 \<le> CFBasicHashGetCapacity ht1"
      using ht1(3) R W idx by (simp add: CFBasicHashGetCapacity_def)
    have len: "length (bh_values ht1) = hash_size idx" using shape_length(1) [of ht1] R idx by simp
    have "card (live ht1) < length (bh_values ht1)"
      using cap capacity_le_size [of idx] unfolding len CFBasicHashGetCapacity_def idx by simp
    then obtain p where p: "CFBasicHashFindBucket_NoCollision env ht1 key 0 = Inr (int p)" "p < length (bh_values ht1)"
        "p \<notin> live ht1" "reaches ht1 (CFBasicHashHashKey env ht1 key) p"
      using NoCollision_spec [of ht1 env K 0 key] card_live_room R by blast
    have none: "{i. i < length (bh_values ht1) \<and> bh_values ht1 ! i = - 1} = {}" using R by auto
    have del: "bh_deleted ht1 = of_nat (card ({i. i < length (bh_values ht1) \<and> bh_values ht1 ! i = - 1} - {p}))"
      using R unfolding none by simp
    have used: "bh_used_buckets ht1 = card (live ht1)" "hash_shape ht1" "cells_agree env K ht1" "entries ht1 = entries ht" using R by simp_all
    have reach: "reaches ht1 (CFBasicHashHashKey env ht key) p" using p(4) config_callbacks(1) [OF conf] by simp
    have step: "(if CFBasicHashGetCapacity ht < (bh_used_buckets ht + 1) mod 2 ^ 32 then
         ebind (CFBasicHashRehash env ht 1) (\<lambda>(ht, evs).
         ebind (CFBasicHashFindBucket_NoCollision env ht key 0) (\<lambda>idx. Inr (ht, evs, idx)))
       else
         ebind (CFBasicHashIsDeleted ht d) (\<lambda>deleted.
         Inr (if deleted then ht\<lparr>bh_deleted := bh_deleted ht - 1\<rparr> else ht, [], d))) = Inr (ht1, [], int p)"
      unfolding small using True ht1(1) p(1) by simp
    show ?thesis
      by (intro exI [of _ ht1] exI [of _ p] conjI) (rule step used(2) used(3) p(2,3) reach used(1) cap del used(4) conf mut)+
  next
    case False
    then have cap: "card (live ht) + 1 \<le> CFBasicHashGetCapacity ht" using W by simp
    have "card (live ht) < length (bh_values ht)"
      using cap capacity_le_size [of "bh_num_buckets_idx ht"] shape_length(1) [of ht] W by (simp add: CFBasicHashGetCapacity_def)
    then obtain p where p: "d = int p" "p < length (bh_values ht)" "p \<notin> live ht" "reaches ht (CFBasicHashHashKey env ht key) p"
      using found card_live_room by blast
    let ?D = "{i. i < length (bh_values ht) \<and> bh_values ht ! i = - 1}"
    let ?ht1 = "if bh_values ht ! p = - 1 then ht\<lparr>bh_deleted := bh_deleted ht - 1\<rparr> else ht"
    have "of_nat (card ?D) - (if p \<in> ?D then 1 else 0) = (of_nat (card (?D - {p})) :: 16 word)"
      using card_gt_0_iff [of ?D] by (auto simp: card_Diff_singleton of_nat_diff)
    then have del: "bh_deleted ?ht1 = of_nat (card (?D - {p}))" using W p(2) by auto
    have deleted: "CFBasicHashIsDeleted ht (int p) = Inr (bh_values ht ! p = - 1)"
      using p(2) by (simp add: CFBasicHashIsDeleted_def)
    show ?thesis
      using False p deleted del W cap small by (intro exI [of _ ?ht1] exI [of _ p]) simp
  qed
qed

lemma AddValue_bucket_adds:
  assumes wf: "hash_wf env K ht" and laws: "key_laws env ht K" and env: "allocates env" and keep: "keeps_key env K ht key value"
    and fresh: "\<forall>i \<in> live ht. \<not> CFBasicHashTestEqualKey env ht (key_at ht i) key"
    and room: "bh_used_buckets ht + 1 \<le> CFBasicHashGetCapacityForNumBuckets (if bh_fast_grow ht then 43 else 44)"
    and found: "live ht \<noteq> {..<length (bh_values ht)} \<Longrightarrow>
      \<exists>p. d = int p \<and> p < length (bh_values ht) \<and> p \<notin> live ht \<and> reaches ht (CFBasicHashHashKey env ht key) p"
  shows "\<exists>ht'. CFBasicHashAddValue_bucket env ht d key value = Inr (ht', retains env ht key value) \<and> hash_wf env K ht' \<and>
    entries ht' = add_mset (kept_key env ht key value, kept_value env ht value, 1) (entries ht) \<and>
    config ht' = config ht \<and> bh_mutations ht' = bh_mutations ht + 1"
proof -
  let ?ht = "ht\<lparr>bh_mutations := bh_mutations ht + 1\<rparr>"
  have key: "key \<in> K" using keep by (simp add: keeps_key_def)
  have wf': "hash_wf env K ?ht" using wf by (simp add: hash_wf_def)
  obtain ht1 p where ht1: "(if CFBasicHashGetCapacity ?ht < (bh_used_buckets ?ht + 1) mod 2 ^ 32 then
         ebind (CFBasicHashRehash env ?ht 1) (\<lambda>(ht, evs).
         ebind (CFBasicHashFindBucket_NoCollision env ht key 0) (\<lambda>idx. Inr (ht, evs, idx)))
       else
         ebind (CFBasicHashIsDeleted ?ht d) (\<lambda>deleted.
         Inr (if deleted then ?ht\<lparr>bh_deleted := bh_deleted ?ht - 1\<rparr> else ?ht, [], d))) = Inr (ht1, [], int p)"
      and inv: "hash_shape ht1" "cells_agree env K ht1" "p < length (bh_values ht1)" "p \<notin> live ht1"
      "reaches ht1 (CFBasicHashHashKey env ht key) p" "bh_used_buckets ht1 = card (live ht1)"
      "card (live ht1) + 1 \<le> CFBasicHashGetCapacity ht1"
      "bh_deleted ht1 = of_nat (card ({i. i < length (bh_values ht1) \<and> bh_values ht1 ! i = - 1} - {p}))"
      "entries ht1 = entries ht" "config ht1 = config ht" "bh_mutations ht1 = bh_mutations ht + 1"
    using place_to_add [OF wf' _ env key, of d] laws fresh room found by auto
  let ?h = "if bh_hashes ht1 \<noteq> None then CFBasicHashHashKey env ht1 key else 0"
  let ?kk = "if bh_keys ht1 \<noteq> None then CFBasicHashImportKey env ht1 key else (key, [])"
  let ?new = "(store ht1 p (fst ?kk) (kept_value env ht1 value) 1 ?h)\<lparr>bh_used_buckets := (bh_used_buckets ht1 + 1) mod 2 ^ 32\<rparr>"
  have fresh1: "\<forall>i \<in> live ht1. \<not> CFBasicHashTestEqualKey env ht1 (key_at ht1 i) key"
    using same_entries_keys [OF inv(9), of "\<lambda>k. \<not> CFBasicHashTestEqualKey env ht k key"] fresh config_callbacks(2) [OF inv(10)] by simp
  note C = config_callbacks [OF inv(10)] import_config [OF inv(10)] keeps_key_config [OF inv(10)]
  have laws1: "key_laws env ht1 K" and reach1: "reaches ht1 (CFBasicHashHashKey env ht1 key) p" and keep1: "keeps_key env K ht1 key value"
    using laws inv(5) keep by (simp_all add: C)
  note F = filled_table [OF inv(1,2) laws1 inv(3,4) reach1 fresh1 keep1 inv(6,7,8), of ?h ?new]
  obtain v evs1 where v: "CFBasicHashImportValue env ht1 value = (v, evs1)" by fastforce
  obtain k evs2 where k: "?kk = (k, evs2)" by fastforce
  have parts: "kept_value env ht1 value = v" "fst ?kk = k" "retains env ht1 key value = evs1 @ evs2"
    using v k by (auto simp: kept_value_def retains_def split: if_splits)
  have "CFBasicHashAddValue_bucket env ht d key value = Inr (?new, retains env ht1 key value)"
    unfolding CFBasicHashAddValue_bucket_def Let_def ht1 ebind_simps prod.case v k parts
    by (subst fill_cells [OF inv(1,2,3,4)]) simp
  then show ?thesis using F inv(9,10,11) by (auto simp: C)
qed

section \<open>Changing the bucket of a key\<close>

text \<open>The operations on the contents: a change of the entry of a key, and its removal.\<close>

definition has_key :: "(ptr \<Rightarrow> ptr \<Rightarrow> bool) \<Rightarrow> ptr \<Rightarrow> (ptr \<times> ptr \<times> nat) multiset \<Rightarrow> bool" where
  "has_key same key E \<longleftrightarrow> (\<exists>e \<in># E. same (fst e) key)"

definition on_key ::
  "(ptr \<Rightarrow> ptr \<Rightarrow> bool) \<Rightarrow> ptr \<Rightarrow> (ptr \<times> ptr \<times> nat \<Rightarrow> ptr \<times> ptr \<times> nat) \<Rightarrow> (ptr \<times> ptr \<times> nat) multiset \<Rightarrow> (ptr \<times> ptr \<times> nat) multiset" where
  "on_key same key f E = image_mset (\<lambda>e. if same (fst e) key then f e else e) E"

definition without_key :: "(ptr \<Rightarrow> ptr \<Rightarrow> bool) \<Rightarrow> ptr \<Rightarrow> (ptr \<times> ptr \<times> nat) multiset \<Rightarrow> (ptr \<times> ptr \<times> nat) multiset" where
  "without_key same key E = filter_mset (\<lambda>e. \<not> same (fst e) key) E"

lemma has_key_live: "has_key (CFBasicHashTestEqualKey env ht) key (entries ht) \<longleftrightarrow> (\<exists>i \<in> live ht. CFBasicHashTestEqualKey env ht (key_at ht i) key)"
  by (auto simp: has_key_def entries_def entry_at_def)

text \<open>The bucket of a key is the only one.\<close>

lemma only_bucket:
  assumes "cells_agree env K ht" "key_laws env ht K" "key \<in> K" "p \<in> live ht" "CFBasicHashTestEqualKey env ht (key_at ht p) key"
    "i \<in> live ht" "CFBasicHashTestEqualKey env ht (key_at ht i) key"
  shows "i = p"
  using assms cells_agreeD(5,8) [OF assms(1)] same_key_sym [OF assms(2)] same_key_right [OF assms(2)] by metis

lemma split_entries:
  assumes "p \<in> live ht"
  shows "entries ht = add_mset (entry_at ht p) (image_mset (entry_at ht) (mset_set (live ht - {p})))"
  using entries_remove [OF assms] entry_members [OF assms] by simp

lemma change_entry:
  assumes cells: "cells_agree env K ht" and laws: "key_laws env ht K" and key: "key \<in> K"
    and p: "p \<in> live ht" "CFBasicHashTestEqualKey env ht (key_at ht p) key"
  shows "on_key (CFBasicHashTestEqualKey env ht) key f (entries ht) = add_mset (f (entry_at ht p)) (entries ht - {#entry_at ht p#})"
    and "without_key (CFBasicHashTestEqualKey env ht) key (entries ht) = entries ht - {#entry_at ht p#}"
proof -
  let ?same = "CFBasicHashTestEqualKey env ht" and ?rest = "image_mset (entry_at ht) (mset_set (live ht - {p}))"
  have rest: "entries ht - {#entry_at ht p#} = ?rest" using entries_remove [OF p(1)] by simp
  have other: "\<not> ?same (fst e) key" if "e \<in># ?rest" for e
    using that only_bucket [OF cells laws key p] by (auto simp: entry_at_def)
  have "image_mset (\<lambda>e. if ?same (fst e) key then f e else e) ?rest = image_mset id ?rest"
    using other by (intro image_mset_cong) (metis id_apply)
  then show "on_key ?same key f (entries ht) = add_mset (f (entry_at ht p)) (entries ht - {#entry_at ht p#})"
    unfolding rest on_key_def split_entries [OF p(1)] using p(2) by (simp add: entry_at_def)
  have "filter_mset (\<lambda>e. \<not> ?same (fst e) key) ?rest = filter_mset (\<lambda>_. True) ?rest"
    using other by (intro filter_mset_cong) auto
  then show "without_key ?same key (entries ht) = entries ht - {#entry_at ht p#}"
    unfolding rest without_key_def split_entries [OF p(1)] using p(2) by (simp add: entry_at_def)
qed

text \<open>Storing again, at the bucket of a key, an equal key with some value and some count.\<close>

lemma restored:
  assumes shape: "hash_shape ht" and cells: "cells_agree env K ht" and laws: "key_laws env ht K"
    and p: "p \<in> live ht" and key: "k \<in> K" "CFBasicHashTestEqualKey env ht (key_at ht p) k" and v: "value_fits ht k v"
    and c: "0 < c" "c \<le> count_max (bh_counts_width ht)" and h: "bh_hashes ht \<noteq> None \<Longrightarrow> h = CFBasicHashHashKey env ht (key_at ht p)"
  shows "hash_shape (store ht p k v c h)" "cells_agree env K (store ht p k v c h)" "live (store ht p k v c h) = live ht"
    "entries (store ht p k v c h) = add_mset (k, v, if bh_counts ht = None then 1 else c) (entries ht - {#entry_at ht p#})"
    "{i. i < length (bh_values (store ht p k v c h)) \<and> bh_values (store ht p k v c h) ! i = - 1} =
       {i. i < length (bh_values ht) \<and> bh_values ht ! i = - 1}"
proof -
  have len: "p < length (bh_values ht)" by (rule live_less [OF p])
  have hash: "CFBasicHashHashKey env ht (key_at ht p) = CFBasicHashHashKey env ht k"
    by (rule same_key_hash [OF laws cells_agreeD(5) [OF cells p] key])
  have "\<not> CFBasicHashTestEqualKey env ht (key_at ht i) k" if "i \<in> live ht" "i \<noteq> p" for i
    using only_bucket [OF cells laws key(1) p key(2) that(1)] that(2) by blast
  then have place: "place_for env K ht k p"
    using len key(1) cells_agreeD(6) [OF cells p] by (simp add: place_for_def hash)
  show "hash_shape (store ht p k v c h)" by (rule put_shape [OF shape])
  show "cells_agree env K (store ht p k v c h)" using store_agrees [OF shape cells laws place v c] h hash by simp
  show "live (store ht p k v c h) = live ht" using put_live [OF len] p cell_codes(1) by auto
  show "entries (store ht p k v c h) = add_mset (k, v, if bh_counts ht = None then 1 else c) (entries ht - {#entry_at ht p#})"
    using entries_put [OF shape len, of "cell_encode k" "cell_encode v" c h] store_entry [OF shape len same_key_codes [OF laws key(1)] v, of c h]
      p cell_codes(1) by simp
  show "{i. i < length (bh_values (store ht p k v c h)) \<and> bh_values (store ht p k v c h) ! i = - 1} =
      {i. i < length (bh_values ht) \<and> bh_values ht ! i = - 1}"
    using p by (auto simp: nth_list_update live_def in_use_def split: if_splits)
qed

text \<open>The cells of a bucket as they are.\<close>

definition hash_cell :: "CFBasicHash \<Rightarrow> nat \<Rightarrow> ptr" where
  "hash_cell ht p = (case bh_hashes ht of None \<Rightarrow> 0 | Some hashes \<Rightarrow> hashes ! p)"

lemma hash_cell_at:
  assumes "cells_agree env K ht" "p \<in> live ht"
  shows "bh_hashes ht \<noteq> None \<Longrightarrow> hash_cell ht p = CFBasicHashHashKey env ht (key_at ht p)"
  using cells_agreeD(7) [OF assms(1) _ assms(2)] by (auto simp: hash_cell_def)

lemma ejects_at:
  assumes "cells_agree env K ht" "p \<in> live ht"
  shows "eject_old (bh_values ht ! p) f = f (val_at ht p)" "eject_old (bucket_keys ht ! p) f = f (key_at ht p)"
  using assms live_key_raw [OF assms(1) live_less [OF assms(2)]]
  by (simp_all add: eject_old_live val_at_def key_at_def live_def)

definition releases :: "CFBasicHash \<Rightarrow> nat \<Rightarrow> ref_event list" where
  "releases ht p = CFBasicHashEjectValue ht (val_at ht p) @ (if bh_keys ht = None then [] else CFBasicHashEjectKey ht (key_at ht p))"

lemma eject_values [simp]: "CFBasicHashEjectKey (ht\<lparr>bh_values := xs\<rparr>) = CFBasicHashEjectKey ht"
  by (simp add: fun_eq_iff CFBasicHashEjectKey_def calls_def)

text \<open>The writes to the value and the key of a bucket in use.\<close>

lemma overwrite_cells:
  assumes shape: "hash_shape ht" and cells: "cells_agree env K ht" and p: "p \<in> live ht"
  shows "ebind (CFBasicHashSetValue_cell ht (int p) v False literal) (\<lambda>(ht, evs3).
      ebind (when_array (bh_keys ht) (ht, []) (CFBasicHashSetKey_cell ht (int p) k False literal)) (\<lambda>(ht, evs4). g ht evs3 evs4)) =
    g (put_cells ht p (if literal then k else cell_encode k) (if literal then v else cell_encode v) (cnt_at ht p) (hash_cell ht p))
      (CFBasicHashEjectValue ht (val_at ht p)) (if bh_keys ht = None then [] else CFBasicHashEjectKey ht (key_at ht p))"
proof -
  note E = ejects_at [OF cells p]
  have same: "map_option (\<lambda>xs. xs[p := cnt_at ht p]) (bh_counts ht) = bh_counts ht"
      "map_option (\<lambda>xs. xs[p := hash_cell ht p]) (bh_hashes ht) = bh_hashes ht"
    by (cases "bh_counts ht"; simp add: cnt_at_def; fail) (cases "bh_hashes ht"; simp add: hash_cell_def; fail)
  have put: "put_cells ht p k' v' (cnt_at ht p) (hash_cell ht p) =
      ht\<lparr>bh_values := (bh_values ht)[p := v'], bh_keys := map_option (\<lambda>xs. xs[p := k']) (bh_keys ht)\<rparr>" for k' v'
    unfolding put_cells_def same by simp
  note V = SetValue_at [OF live_less [OF p], of v False literal]
  show ?thesis
  proof (cases "bh_keys ht")
    case None
    then have keyless: "ht\<lparr>bh_values := xs, bh_keys := None\<rparr> = ht\<lparr>bh_values := xs\<rparr>" for xs by (cases ht) simp
    show ?thesis using V E(1) None by (simp add: when_array_def put keyless)
  next
    case (Some keys)
    have "keys ! p = bucket_keys ht ! p" using Some by (simp add: bucket_keys_def)
    then show ?thesis
      using V E same Some live_less [OF p] shape_length(5) [OF shape Some]
        SetKey_at [of p keys "ht\<lparr>bh_values := (bh_values ht)[p := if literal then v else cell_encode v]\<rparr>" k False literal]
      by (simp add: when_array_def put)
  qed
qed

lemma ReplaceValue_bucket_replaces:
  assumes wf: "hash_wf env K ht" and laws: "key_laws env ht K" and keep: "keeps_key env K ht key value"
    and p: "p \<in> live ht" "CFBasicHashTestEqualKey env ht (key_at ht p) key"
  shows "\<exists>ht'. CFBasicHashReplaceValue_bucket env ht (int p) key value = Inr (ht', retains env ht key value @ releases ht p) \<and>
    hash_wf env K ht' \<and>
    entries ht' = on_key (CFBasicHashTestEqualKey env ht) key (\<lambda>e. (kept_key env ht key value, kept_value env ht value, snd (snd e))) (entries ht) \<and>
    config ht' = config ht \<and> bh_mutations ht' = bh_mutations ht + 1"
proof -
  note W = wf [unfolded hash_wf_def] and K = keep [unfolded keeps_key_def]
  have shape: "hash_shape ht" and cells: "cells_agree env K ht" using W by simp_all
  let ?htm = "ht\<lparr>bh_mutations := bh_mutations ht + 1\<rparr>" and ?k = "kept_key env ht key value" and ?v = "kept_value env ht value"
  let ?kk = "if bh_keys ht \<noteq> None then CFBasicHashImportKey env ht key else (key, [])"
  let ?st = "\<lambda>k. store ?htm p k ?v (cnt_at ht p) (hash_cell ht p)"
  obtain v evs1 where v: "CFBasicHashImportValue env ht value = (v, evs1)" by fastforce
  obtain k evs2 where k: "?kk = (k, evs2)" by fastforce
  have parts: "?v = v" "fst ?kk = k" "retains env ht key value = evs1 @ evs2"
    using v k by (auto simp: kept_value_def retains_def split: if_splits)
  have conf: "config ?htm = config ht" by simp
  note C = import_config [OF conf]
  have htm: "bh_keys ?htm = bh_keys ht" "hash_cell ?htm p = hash_cell ht p" by (simp_all add: hash_cell_def)
  have "cell_encode k = cell_encode ?k \<or> bh_keys ht = None"
    using k by (auto simp: kept_key_def split: if_splits)
  then have st: "?st k = ?st ?k" by (auto intro: store_keyless)
  have "CFBasicHashReplaceValue_bucket env ht (int p) key value = Inr (?st ?k, retains env ht key value @ releases ht p)"
    unfolding CFBasicHashReplaceValue_bucket_def Let_def C htm v k prod.case
    by (subst overwrite_cells [where K = K and env = env])
      (simp_all add: shape cells p(1) releases_def C parts(3) htm st [unfolded parts(1)] parts(1) del: not_None_eq)
  moreover have "CFBasicHashTestEqualKey env ht (key_at ht p) ?k"
    using K p(2) cells_agreeD(5) [OF cells p(1)] same_key_sym [OF laws] same_key_right [OF laws] by blast
  moreover have "0 < cnt_at ht p \<and> cnt_at ht p \<le> count_max (bh_counts_width ht)"
    using cells_agreeD(3) [OF cells p(1)] count_max_pos [of "bh_counts_width ht"] by (cases "bh_counts ht") (auto simp: cnt_at_def)
  moreover have "value_fits ?htm ?k ?v" using K by (auto simp: value_fits_def kept_key_def)
  ultimately have R: "hash_shape (?st ?k)" "cells_agree env K (?st ?k)" "live (?st ?k) = live ht"
      "entries (?st ?k) = add_mset (?k, ?v, if bh_counts ht = None then 1 else cnt_at ht p) (entries ht - {#entry_at ht p#})"
      "{i. i < length (bh_values (?st ?k)) \<and> bh_values (?st ?k) ! i = - 1} = {i. i < length (bh_values ht) \<and> bh_values ht ! i = - 1}"
      and step: "CFBasicHashReplaceValue_bucket env ht (int p) key value = Inr (?st ?k, retains env ht key value @ releases ht p)"
    using restored [of ?htm env K p ?k ?v "cnt_at ht p" "hash_cell ht p"] shape cells laws p(1) K hash_cell_at [OF cells p(1)] by simp_all
  have "hash_wf env K (?st ?k)"
    unfolding hash_wf_def R(5) using R(1-3) W by (simp add: CFBasicHashGetCapacity_def)
  moreover have "entries (?st ?k) = on_key (CFBasicHashTestEqualKey env ht) key (\<lambda>e. (?k, ?v, snd (snd e))) (entries ht)"
    unfolding R(4) using change_entry(1) [OF cells laws _ p] K by (auto simp: entry_at_def cnt_at_def split: option.splits)
  moreover have "config (?st ?k) = config ht" by simp
  moreover have "bh_mutations (?st ?k) = bh_mutations ht + 1" by (simp add: put_cells_def)
  ultimately show ?thesis using step by blast
qed

text \<open>Counting one more or one less of a key in the table.\<close>

lemma cell_encode_decode: "in_use x \<Longrightarrow> cell_encode (cell_decode x) = x"
  by (auto simp: cell_encode_def cell_decode_def in_use_def)

lemma recounted:
  assumes shape: "hash_shape ht" and cells: "cells_agree env K ht" and p: "p \<in> live ht" and counts: "bh_counts ht = Some counts"
  shows "store ht p (key_at ht p) (val_at ht p) c (hash_cell ht p) = ht\<lparr>bh_counts := Some (counts[p := c])\<rparr>"
proof -
  have in_use: "in_use (bh_values ht ! p)" "in_use (bucket_keys ht ! p)"
    using p live_key_raw [OF cells live_less [OF p]] by (simp_all add: live_def)
  have "map_option (\<lambda>xs. xs[p := cell_encode (key_at ht p)]) (bh_keys ht) = bh_keys ht"
    using in_use(2) by (cases "bh_keys ht") (simp_all add: key_at_def cell_encode_decode bucket_keys_def)
  moreover have "map_option (\<lambda>xs. xs[p := hash_cell ht p]) (bh_hashes ht) = bh_hashes ht"
    by (cases "bh_hashes ht") (simp_all add: hash_cell_def)
  moreover have "(bh_values ht)[p := cell_encode (val_at ht p)] = bh_values ht"
    using in_use(1) by (simp add: val_at_def cell_encode_decode)
  ultimately show ?thesis unfolding put_cells_def using counts by simp
qed

lemma recounted_table:
  assumes wf: "hash_wf env K ht" and laws: "key_laws env ht K" and p: "p \<in> live ht" and counts: "bh_counts ht = Some counts"
    and key: "key \<in> K" "CFBasicHashTestEqualKey env ht (key_at ht p) key"
    and c: "0 < c" "c \<le> count_max (bh_counts_width ht)" "f (entry_at ht p) = (key_at ht p, val_at ht p, c)"
  shows "hash_wf env K (ht\<lparr>bh_counts := Some (counts[p := c])\<rparr>)"
    "entries (ht\<lparr>bh_counts := Some (counts[p := c])\<rparr>) = on_key (CFBasicHashTestEqualKey env ht) key f (entries ht)"
    "config (ht\<lparr>bh_counts := Some (counts[p := c])\<rparr>) = config ht"
proof -
  note W = wf [unfolded hash_wf_def]
  have shape: "hash_shape ht" and cells: "cells_agree env K ht" using W by simp_all
  let ?new = "store ht p (key_at ht p) (val_at ht p) c (hash_cell ht p)"
  have eq: "ht\<lparr>bh_counts := Some (counts[p := c])\<rparr> = ?new" by (rule recounted [OF shape cells p counts, symmetric])
  have kp: "key_at ht p \<in> K" by (rule cells_agreeD(5) [OF cells p])
  have fits: "value_fits ht (key_at ht p) (val_at ht p)"
    using key_values [of ht p] by (simp add: value_fits_def val_at_def cell_decode_code)
  note R = restored [OF shape cells laws p kp same_key_refl [OF laws kp] fits c(1,2) hash_cell_at [OF cells p], simplified]
  show "hash_wf env K (ht\<lparr>bh_counts := Some (counts[p := c])\<rparr>)"
    unfolding eq hash_wf_def R(5) [simplified] using R(1-3,5) W by (simp add: CFBasicHashGetCapacity_def)
  show "entries (ht\<lparr>bh_counts := Some (counts[p := c])\<rparr>) = on_key (CFBasicHashTestEqualKey env ht) key f (entries ht)"
    unfolding eq using R(4) change_entry(1) [OF cells laws key(1) p key(2), of f] c(3) counts by simp
  show "config (ht\<lparr>bh_counts := Some (counts[p := c])\<rparr>) = config ht" unfolding eq by simp
qed

lemma count_max_values: "count_max 0 = 127" "count_max 1 = 32767" "count_max 2 = 2147483647" "count_max 3 = 9223372036854775807"
  by (simp_all add: count_max_def)

lemma count_max_step: "w < 3 \<Longrightarrow> count_max w < count_max (w + 1)"
proof -
  assume "w < 3"
  then consider "w = 0" | "w = 1" | "w = 2" by linarith
  then show ?thesis by cases (simp_all add: count_max_def)
qed

lemma wider_counts:
  assumes wf: "hash_wf env K ht" and w: "bh_counts_width ht < 3"
  shows "hash_wf env K (ht\<lparr>bh_counts_width := bh_counts_width ht + 1\<rparr>)"
proof -
  note W = wf [unfolded hash_wf_def]
  have "cells_agree env K (ht\<lparr>bh_counts_width := bh_counts_width ht + 1\<rparr>)"
  proof (rule cells_agreeI)
    note D = cells_agreeD [of env K ht]
    have cells: "cells_agree env K ht" using W by simp
    show "0 < cnt_at (ht\<lparr>bh_counts_width := bh_counts_width ht + 1\<rparr>) i \<and>
        cnt_at (ht\<lparr>bh_counts_width := bh_counts_width ht + 1\<rparr>) i \<le> count_max (bh_counts_width (ht\<lparr>bh_counts_width := bh_counts_width ht + 1\<rparr>))"
      if "i \<in> live (ht\<lparr>bh_counts_width := bh_counts_width ht + 1\<rparr>)"
        "bh_counts (ht\<lparr>bh_counts_width := bh_counts_width ht + 1\<rparr>) \<noteq> None" for i
      using that D(3) [OF cells, of i] count_max_step [OF w] by auto
  qed (use W cells_agreeD [of env K ht] in auto)
  moreover have "hash_shape (ht\<lparr>bh_counts_width := bh_counts_width ht + 1\<rparr>)" using W w by (auto simp: hash_shape_def)
  ultimately show ?thesis unfolding hash_wf_def using W by (simp add: CFBasicHashGetCapacity_def)
qed

lemma IncSlotCount_counts:
  assumes wf: "hash_wf env K ht" and laws: "key_laws env ht K" and env: "allocates env"
    and key: "key \<in> K" "CFBasicHashTestEqualKey env ht (key_at ht p) key"
    and p: "p \<in> live ht" and counts: "bh_counts ht \<noteq> None" and small: "cnt_at ht p < LONG_MAX"
  shows "\<exists>ht'. CFBasicHashIncSlotCount env ht (int p) = Inr ht' \<and> hash_wf env K ht' \<and>
    entries ht' = on_key (CFBasicHashTestEqualKey env ht) key (\<lambda>(a, v, c). (a, v, c + 1)) (entries ht) \<and>
    config ht' = config ht \<and> bh_mutations ht' = bh_mutations ht"
proof -
  obtain cs where cs: "bh_counts ht = Some cs" using counts by auto
  note W = wf [unfolded hash_wf_def]
  have len: "p < length cs" using live_less [OF p] shape_length(3) [of ht cs] W cs by simp
  have at: "cs ! p = cnt_at ht p" using cs by (simp add: cnt_at_def)
  show ?thesis
  proof (cases "cs ! p < count_max (bh_counts_width ht)")
    case True
    let ?new = "ht\<lparr>bh_counts := Some (cs[p := cs ! p + 1])\<rparr>"
    have le: "cs ! p + 1 \<le> count_max (bh_counts_width ht)" using True by simp
    have "CFBasicHashIncSlotCount env ht (int p) = Inr ?new" by (rule IncSlotCount_at [OF len cs True])
    then show ?thesis
      using recounted_table [OF wf laws p cs key _ le, where f = "\<lambda>(a, v, c). (a, v, c + 1)"] at by (simp add: entry_at_def)
  next
    case False
    have w: "bh_counts_width ht < 3"
    proof (rule ccontr)
      assume "\<not> bh_counts_width ht < 3"
      then have "bh_counts_width ht = 3" using W by (simp add: hash_shape_def)
      then show False using False small at by (simp add: count_max_values LONG_MAX_def)
    qed
    let ?wide = "ht\<lparr>bh_counts_width := bh_counts_width ht + 1\<rparr>"
    let ?new = "?wide\<lparr>bh_counts := Some (cs[p := cs ! p + 1])\<rparr>"
    have wide: "hash_wf env K ?wide" by (rule wider_counts [OF wf w])
    have "cs ! p \<le> count_max (bh_counts_width ht)" using cells_agreeD(3) [of env K ht p] W p cs at by simp
    then have lt: "cs ! p < count_max (bh_counts_width ?wide)" using count_max_step [OF w] by simp
    have "CFBasicHashIncSlotCount env ht (int p) = CFBasicHashIncSlotCount env ?wide (int p)"
      using False w cs len env
      by (subst CFBasicHashIncSlotCount.simps) (simp add: the_array_def CFBasicHashBumpCounts_def Let_def allocates_def)
    also have "\<dots> = Inr ?new" using IncSlotCount_at [OF len _ lt] cs by simp
    finally have step: "CFBasicHashIncSlotCount env ht (int p) = Inr ?new" .
    have le: "cs ! p + 1 \<le> count_max (bh_counts_width ?wide)" using lt by simp
    show ?thesis
      using recounted_table [OF wide _ _ _ key(1) _ _ le, where p = p and f = "\<lambda>(a, v, c). (a, v, c + 1)"] laws p cs key(2) at step
      by (simp add: entry_at_def)
  qed
qed

lemma DecSlotCount_counts:
  assumes wf: "hash_wf env K ht" and laws: "key_laws env ht K"
    and key: "key \<in> K" "CFBasicHashTestEqualKey env ht (key_at ht p) key"
    and p: "p \<in> live ht" and counts: "bh_counts ht \<noteq> None" and more: "1 < cnt_at ht p"
  shows "\<exists>ht'. CFBasicHashDecSlotCount ht (int p) = Inr ht' \<and> hash_wf env K ht' \<and>
    entries ht' = on_key (CFBasicHashTestEqualKey env ht) key (\<lambda>(a, v, c). (a, v, c - 1)) (entries ht) \<and>
    config ht' = config ht \<and> bh_mutations ht' = bh_mutations ht"
proof -
  obtain cs where cs: "bh_counts ht = Some cs" using counts by auto
  note W = wf [unfolded hash_wf_def]
  have len: "p < length cs" using live_less [OF p] shape_length(3) [of ht cs] W cs by simp
  have at: "cs ! p = cnt_at ht p" using cs by (simp add: cnt_at_def)
  let ?new = "ht\<lparr>bh_counts := Some (cs[p := cs ! p - 1])\<rparr>"
  have "cs ! p \<le> count_max (bh_counts_width ht)" using cells_agreeD(3) [of env K ht p] W p cs at by simp
  then have le: "cs ! p - 1 \<le> count_max (bh_counts_width ht)" by simp
  have "CFBasicHashDecSlotCount ht (int p) = Inr ?new" using DecSlotCount_at [OF len cs] more at by simp
  then show ?thesis
    using recounted_table [OF wf laws p cs key _ le, where f = "\<lambda>(a, v, c). (a, v, c - 1)"] at more by (simp add: entry_at_def)
qed

section \<open>Vacating the bucket of a key\<close>

text \<open>The counts and the cached hash of a bucket that has just been marked as deleted.\<close>

lemma clear_cells:
  assumes shape: "hash_shape ht" and p: "p \<in> live ht" and one: "cnt_at ht p = 1"
  defines "gone \<equiv> put_cells ht p (- 1) (- 1) (cnt_at ht p) (hash_cell ht p)"
  shows "ebind (when_array (bh_counts gone) gone (CFBasicHashDecSlotCount gone (int p))) (\<lambda>ht.
      ebind (when_array (bh_hashes ht) ht (set_hash_cell ht (int p) 0)) f) = f (put_cells ht p (- 1) (- 1) 0 0)"
proof -
  have len: "p < length (bh_values ht)" by (rule live_less [OF p])
  let ?mid = "put_cells ht p (- 1) (- 1) 0 (hash_cell ht p)"
  have dec: "when_array (bh_counts gone) gone (CFBasicHashDecSlotCount gone (int p)) = Inr ?mid"
  proof (cases "bh_counts ht")
    case None
    then show ?thesis by (simp add: when_array_def gone_def put_cells_def)
  next
    case (Some cs)
    have "CFBasicHashDecSlotCount gone (int p) = Inr (gone\<lparr>bh_counts := Some ((cs[p := 1])[p := (cs[p := 1]) ! p - 1])\<rparr>)"
      using Some one len shape_length(3) [OF shape Some] by (intro DecSlotCount_at) (simp_all add: gone_def)
    then show ?thesis
      using Some len shape_length(3) [OF shape Some] one by (simp add: when_array_def gone_def put_cells_def)
  qed
  have clear: "when_array (bh_hashes ?mid) ?mid (set_hash_cell ?mid (int p) 0) = Inr (put_cells ht p (- 1) (- 1) 0 0)"
  proof (cases "bh_hashes ht")
    case None
    then show ?thesis by (simp add: when_array_def put_cells_def)
  next
    case (Some hs)
    then show ?thesis
      using set_hash_at [of p "hs[p := hash_cell ht p]" ?mid 0] len shape_length(4) [OF shape Some]
      by (simp add: when_array_def put_cells_def)
  qed
  show ?thesis unfolding dec ebind_simps clear ..
qed

lemma vacated_table:
  assumes wf: "hash_wf env K ht" and laws: "key_laws env ht K"
    and p: "p \<in> live ht" and key: "key \<in> K" "CFBasicHashTestEqualKey env ht (key_at ht p) key"
  defines "new \<equiv> (put_cells ht p (- 1) (- 1) 0 0)\<lparr>bh_used_buckets := bh_used_buckets ht - 1, bh_deleted := bh_deleted ht + 1\<rparr>"
  shows "hash_wf env K new" "entries new = without_key (CFBasicHashTestEqualKey env ht) key (entries ht)" "config new = config ht"
    "bh_mutations new = bh_mutations ht"
proof -
  note W = wf [unfolded hash_wf_def]
  have shape: "hash_shape ht" and cells: "cells_agree env K ht" using W by simp_all
  have len: "p < length (bh_values ht)" by (rule live_less [OF p])
  let ?put = "put_cells ht p (- 1) (- 1) 0 0"
  have live: "live ?put = live ht - {p}" using put_live [OF len] by (simp add: in_use_def)
  have "{i. i < length (bh_values ?put) \<and> bh_values ?put ! i = - 1} = insert p {i. i < length (bh_values ht) \<and> bh_values ht ! i = - 1}"
    using len by (auto simp: nth_list_update)
  moreover have "p \<notin> {i. i < length (bh_values ht) \<and> bh_values ht ! i = - 1}" using p by (simp add: live_def in_use_def)
  ultimately have "card {i. i < length (bh_values ?put) \<and> bh_values ?put ! i = - 1} =
      Suc (card {i. i < length (bh_values ht) \<and> bh_values ht ! i = - 1})" by simp
  then have del: "bh_deleted new = of_nat (card {i. i < length (bh_values new) \<and> bh_values new ! i = - 1})"
    using W by (simp add: new_def)
  have "hash_shape new" "cells_agree env K new"
    using put_shape [OF shape] vacate_agrees [OF shape cells len] by (simp_all add: new_def)
  moreover have "bh_used_buckets new = card (live new)" using W p live by (simp add: new_def)
  moreover have "bh_used_buckets new \<le> CFBasicHashGetCapacity new" using W by (auto simp: new_def CFBasicHashGetCapacity_def)
  ultimately show "hash_wf env K new" unfolding hash_wf_def using del by blast
  show "entries new = without_key (CFBasicHashTestEqualKey env ht) key (entries ht)"
    using entries_put [OF shape len, of "- 1" "- 1" 0 0] change_entry(2) [OF cells laws key(1) p key(2)] p
    by (simp add: new_def in_use_def)
  show "config new = config ht" by (simp add: new_def)
  show "bh_mutations new = bh_mutations ht" by (simp add: new_def put_cells_def)
qed

text \<open>What happens to the size of the table after a bucket has been vacated.\<close>

lemma frame_mutations: "frame a = frame b \<Longrightarrow> bh_mutations a = bh_mutations b"
  by (cases a; cases b) (simp add: frame_def)

lemma rehashed_keeps:
  assumes "rehashed env K ht idx ht'"
  shows "hash_wf env K ht'" "entries ht' = entries ht" "config ht' = config ht" "bh_mutations ht' = bh_mutations ht"
proof -
  have frame: "frame ht' = frame (ht\<lparr>bh_num_buckets_idx := idx, bh_deleted := 0\<rparr>)" using assms by (simp add: rehashed_def)
  show "hash_wf env K ht'" "entries ht' = entries ht" using assms by (simp_all add: rehashed_def)
  show "config ht' = config ht" using config_frame [OF frame] by simp
  show "bh_mutations ht' = bh_mutations ht" using frame_mutations [OF frame] by simp
qed

lemma resized_after_removal:
  assumes wf: "hash_wf env K ht" and laws: "key_laws env ht K" and env: "allocates env"
  shows "\<exists>ht'. (if shrinks ht then CFBasicHashRehash env ht (- 1)
      else if bh_deleted ht = 0 \<or> 20 \<le> CFBasicHashGetNumBuckets ht \<and> CFBasicHashGetNumBuckets ht div 4 \<le> unat (bh_deleted ht)
      then CFBasicHashRehash env ht 0 else Inr (ht, [])) = Inr (ht', []) \<and>
    hash_wf env K ht' \<and> entries ht' = entries ht \<and> config ht' = config ht \<and> bh_mutations ht' = bh_mutations ht"
proof -
  note W = wf [unfolded hash_wf_def]
  show ?thesis
  proof (cases "shrinks ht")
    case True
    let ?top = "if bh_fast_grow ht then 43 else (44::nat)"
    define i where "i = bh_num_buckets_idx ht - (if bh_fast_grow ht then 5 else 2)"
    have "bh_num_buckets_idx ht \<le> 44" using W by (simp add: hash_shape_def)
    then have i: "i \<le> ?top" "bh_used_buckets ht \<le> CFBasicHashGetCapacityForNumBuckets i"
      using True by (auto simp: i_def shrinks_def Let_def split: if_splits)
    have "CFBasicHashGetCapacityForNumBuckets i \<le> CFBasicHashGetCapacityForNumBuckets ?top"
      using i(1) by (intro capacity_mono) (auto split: if_splits)
    then have "bh_used_buckets ht + nat (- 1) \<le> CFBasicHashGetCapacityForNumBuckets ?top" using i(2) by simp
    then obtain ht' idx where "CFBasicHashRehash env ht (- 1) = Inr (ht', [])" "rehashed env K ht idx ht'"
      using Rehash_resizes [of ht env K "- 1"] W laws env by auto
    then show ?thesis using True rehashed_keeps by auto
  next
    case False
    obtain ht' where "CFBasicHashRehash env ht 0 = Inr (ht', [])" "rehashed env K ht (bh_num_buckets_idx ht) ht'"
      using Rehash_same_size [of ht env K] W laws env by auto
    then show ?thesis using False wf rehashed_keeps [of env K ht _ ht'] by auto
  qed
qed

lemma RemoveValue_bucket_removes:
  assumes wf: "hash_wf env K ht" and laws: "key_laws env ht K" and env: "allocates env"
    and p: "p \<in> live ht" and key: "key \<in> K" "CFBasicHashTestEqualKey env ht (key_at ht p) key" and one: "cnt_at ht p = 1"
  shows "\<exists>ht'. CFBasicHashRemoveValue_bucket env ht (int p) = Inr (ht', releases ht p) \<and> hash_wf env K ht' \<and>
    entries ht' = without_key (CFBasicHashTestEqualKey env ht) key (entries ht) \<and>
    config ht' = config ht \<and> bh_mutations ht' = bh_mutations ht + 1"
proof -
  let ?htm = "ht\<lparr>bh_mutations := bh_mutations ht + 1\<rparr>"
  let ?new = "(put_cells ?htm p (- 1) (- 1) 0 0)\<lparr>bh_used_buckets := bh_used_buckets ?htm - 1, bh_deleted := bh_deleted ?htm + 1\<rparr>"
  note W = wf [unfolded hash_wf_def]
  have wf': "hash_wf env K ?htm" using wf by (simp add: hash_wf_def)
  have shape: "hash_shape ?htm" and cells: "cells_agree env K ?htm" and pm: "p \<in> live ?htm" and one': "cnt_at ?htm p = 1"
    using W p one by simp_all
  have laws': "key_laws env ?htm K" using laws by simp
  have key': "CFBasicHashTestEqualKey env ?htm (key_at ?htm p) key" using key(2) by simp
  note V = vacated_table [OF wf' laws' pm key(1) key']
  have lawsn: "key_laws env ?new K" using laws config_callbacks(3) [OF V(3)] by simp
  obtain ht' where ht': "(if shrinks ?new then CFBasicHashRehash env ?new (- 1)
      else if bh_deleted ?new = 0 \<or> 20 \<le> CFBasicHashGetNumBuckets ?new \<and> CFBasicHashGetNumBuckets ?new div 4 \<le> unat (bh_deleted ?new)
      then CFBasicHashRehash env ?new 0 else Inr (?new, [])) = Inr (ht', [])"
    "hash_wf env K ht'" "entries ht' = entries ?new" "config ht' = config ?new" "bh_mutations ht' = bh_mutations ?new"
    using resized_after_removal [OF V(1) lawsn env] by blast
  have "live ht \<noteq> {}" using p by auto
  then have used: "(if bh_used_buckets (put_cells ?htm p (- 1) (- 1) 0 0) = 0 then 2 ^ 32 - 1 else bh_used_buckets (put_cells ?htm p (- 1) (- 1) 0 0) - 1)
      = bh_used_buckets ?htm - 1" using W by simp
  have del: "bh_deleted (put_cells ?htm p (- 1) (- 1) 0 0) = bh_deleted ?htm" by simp
  have rel: "CFBasicHashEjectValue ?htm (val_at ?htm p) @ (if bh_keys ?htm = None then [] else CFBasicHashEjectKey ?htm (key_at ?htm p)) = releases ht p"
    using import_config(6,7) [of ?htm ht] by (simp add: releases_def)
  have "CFBasicHashRemoveValue_bucket env ht (int p) = Inr (ht', releases ht p)"
    unfolding CFBasicHashRemoveValue_bucket_def overwrite_cells [OF shape cells pm] if_True
    by (subst clear_cells [OF shape pm one']) (simp only: Let_def used del ht'(1) ebind_simps prod.case append_Nil2 rel [symmetric] append_assoc)
  then show ?thesis using ht'(2-5) V by auto
qed

section \<open>The operations on the contents\<close>

text \<open>What the operations do to the contents of a table.\<close>

definition count_up :: "ptr \<times> ptr \<times> nat \<Rightarrow> ptr \<times> ptr \<times> nat" where
  "count_up = (\<lambda>(k, v, c). (k, v, if c < LONG_MAX then c + 1 else c))"

definition count_down :: "ptr \<times> ptr \<times> nat \<Rightarrow> ptr \<times> ptr \<times> nat" where
  "count_down = (\<lambda>(k, v, c). (k, v, if c < LONG_MAX then c - 1 else c))"

definition room_for_one :: "CFBasicHash \<Rightarrow> bool" where
  "room_for_one ht \<longleftrightarrow> bh_used_buckets ht + 1 \<le> CFBasicHashGetCapacityForNumBuckets (if bh_fast_grow ht then 43 else 44)"

text \<open>The tables and keys the operations are specified for.\<close>

definition table_ok :: "hash_env \<Rightarrow> ptr set \<Rightarrow> CFBasicHash \<Rightarrow> bool" where
  "table_ok env K ht \<longleftrightarrow> hash_wf env K ht \<and> key_laws env ht K \<and> allocates env"

lemma table_okD:
  assumes "table_ok env K ht"
  shows "hash_wf env K ht" "key_laws env ht K" "allocates env" "hash_shape ht" "cells_agree env K ht" "bh_used_buckets ht = card (live ht)"
  using assms by (simp_all add: table_ok_def hash_wf_def)

lemma table_ok_same:
  "table_ok env K ht \<Longrightarrow> hash_wf env K ht' \<Longrightarrow> config ht' = config ht \<Longrightarrow> table_ok env K ht'"
  using config_callbacks(3) [of ht' ht env K] by (simp add: table_ok_def)

lemma table_ok_bump [simp]: "table_ok env K (bump_mutations ht) = table_ok env K ht"
  by (simp add: table_ok_def bump_mutations_def hash_wf_def)

lemma bump_mutations_simps [simp]:
  "live (bump_mutations ht) = live ht" "entries (bump_mutations ht) = entries ht" "config (bump_mutations ht) = config ht"
  "key_at (bump_mutations ht) = key_at ht" "cnt_at (bump_mutations ht) = cnt_at ht" "bh_counts (bump_mutations ht) = bh_counts ht"
  "CFBasicHashTestEqualKey env (bump_mutations ht) = CFBasicHashTestEqualKey env ht" "bh_mutations (bump_mutations ht) = bh_mutations ht + 1"
  by (simp_all add: bump_mutations_def)

lemma find_cases:
  assumes ok: "table_ok env K ht" and key: "key \<in> K"
  obtains (found) p where "p \<in> live ht" "CFBasicHashTestEqualKey env ht (key_at ht p) key"
      "CFBasicHashFindBucket_any env ht key = Inr (bucket_at ht p)" "has_key (CFBasicHashTestEqualKey env ht) key (entries ht)"
  | (absent) d where "\<forall>i \<in> live ht. \<not> CFBasicHashTestEqualKey env ht (key_at ht i) key"
      "CFBasicHashFindBucket_any env ht key = Inr (absent_bucket d)" "\<not> has_key (CFBasicHashTestEqualKey env ht) key (entries ht)"
      "live ht \<noteq> {..<length (bh_values ht)} \<Longrightarrow>
         \<exists>p. d = int p \<and> p < length (bh_values ht) \<and> p \<notin> live ht \<and> reaches ht (CFBasicHashHashKey env ht key) p"
  using FindBucket_spec [OF table_okD(4,5,2) [OF ok] key] has_key_live [of env ht key] by metis

lemma live_count:
  assumes "table_ok env K ht" "p \<in> live ht"
  shows "0 < cnt_at ht p" "bh_counts ht = None \<Longrightarrow> cnt_at ht p = 1"
  using cells_agreeD(3) [OF table_okD(5) [OF assms(1)] assms(2)] by (cases "bh_counts ht"; simp add: cnt_at_def)+

lemma absent_bucket_parts [simp]: "bk_count (absent_bucket d) = 0" "bk_idx (absent_bucket d) = d"
  by (simp_all add: absent_bucket_def)

lemma add_cases:
  assumes ok: "table_ok env K ht" and mut: "bh_mutable ht" and keep: "keeps_key env K ht key value" "\<not> is_sentinel value"
    and room: "has_key (CFBasicHashTestEqualKey env ht) key (entries ht) \<or> room_for_one ht"
  defines "same \<equiv> CFBasicHashTestEqualKey env ht"
  shows "\<exists>added ht' evs. CFBasicHashAddValue env ht key value = Inr (added, ht', evs) \<and> table_ok env K ht' \<and> config ht' = config ht \<and>
    bh_mutations ht' = bh_mutations ht + 1 \<and>
    entries ht' =
      (if \<not> has_key same key (entries ht) then add_mset (kept_key env ht key value, kept_value env ht value, 1) (entries ht)
       else if bh_counts ht = None then entries ht else on_key same key count_up (entries ht)) \<and>
    (\<not> has_key same key (entries ht) \<longrightarrow> added \<and> evs = retains env ht key value) \<and>
    (has_key same key (entries ht) \<longrightarrow> evs = [] \<and> (bh_counts ht = None \<longrightarrow> \<not> added))"
proof -
  have key: "key \<in> K" using keep by (simp add: keeps_key_def)
  have codes: "\<not> is_sentinel key" by (rule same_key_codes [OF table_okD(2) [OF ok] key])
  show ?thesis
    using ok key
  proof (cases rule: find_cases)
    case (found p)
    let ?b = "bump_mutations ht"
    show ?thesis
    proof (cases "bh_counts ht \<noteq> None \<and> cnt_at ht p < LONG_MAX")
      case True
      then obtain ht' where ht': "CFBasicHashIncSlotCount env ?b (int p) = Inr ht'" "hash_wf env K ht'"
          "entries ht' = on_key same key (\<lambda>(a, v, c). (a, v, c + 1)) (entries ht)" "config ht' = config ht" "bh_mutations ht' = bh_mutations ht + 1"
        using IncSlotCount_counts [of env K ?b key p] table_okD [of env K ?b] ok key found(1,2) same_def by auto
      have "on_key same key (\<lambda>(a, v, c). (a, v, c + 1)) (entries ht) = on_key same key count_up (entries ht)"
        using change_entry(1) [OF table_okD(5,2) [OF ok] key found(1,2)] True by (simp add: same_def entry_at_def count_up_def)
      moreover obtain counts where "bh_counts ht = Some counts" using True by blast
      moreover have "CFBasicHashAddValue env ht key value = Inr (True, ht', [])"
        using ht'(1) True found(3) mut keep(2) codes live_count(1) [OF ok found(1)] by (simp add: CFBasicHashAddValue_def)
      ultimately show ?thesis
        using ht'(3,4,5) found(4) table_ok_same [OF ok ht'(2,4)] by (simp add: same_def ex_bool_eq)
    next
      case False
      have "on_key same key count_up (entries ht) = entries ht" if "bh_counts ht \<noteq> None"
        using change_entry(1) [OF table_okD(5,2) [OF ok] key found(1,2), of count_up] False that entry_members [OF found(1)]
        by (simp add: same_def entry_at_def count_up_def)
      then show ?thesis
        using False found mut keep codes live_count(1) [OF ok found(1)] ok
        by (auto simp: CFBasicHashAddValue_def same_def)
    qed
  next
    case (absent d)
    obtain ht' where ht': "CFBasicHashAddValue_bucket env ht d key value = Inr (ht', retains env ht key value)" "hash_wf env K ht'"
        "entries ht' = add_mset (kept_key env ht key value, kept_value env ht value, 1) (entries ht)"
        "config ht' = config ht" "bh_mutations ht' = bh_mutations ht + 1"
      using AddValue_bucket_adds [OF table_okD(1,2,3) [OF ok] keep(1) absent(1) _ absent(4)] room absent(3) by (auto simp: room_for_one_def)
    then show ?thesis
      using absent(2,3) mut keep codes table_ok_same [OF ok ht'(2,4)]
      by (simp add: CFBasicHashAddValue_def same_def ex_bool_eq)
  qed
qed

lemma set_cases:
  assumes ok: "table_ok env K ht" and mut: "bh_mutable ht" and keep: "keeps_key env K ht key value" "\<not> is_sentinel value"
    and room: "has_key (CFBasicHashTestEqualKey env ht) key (entries ht) \<or> room_for_one ht"
  defines "same \<equiv> CFBasicHashTestEqualKey env ht"
  shows "\<exists>ht' evs. CFBasicHashSetValue env ht key value = Inr (ht', evs) \<and> table_ok env K ht' \<and> config ht' = config ht \<and>
    bh_mutations ht' = bh_mutations ht + 1 \<and>
    entries ht' =
      (if has_key same key (entries ht) then on_key same key (\<lambda>e. (kept_key env ht key value, kept_value env ht value, snd (snd e))) (entries ht)
       else add_mset (kept_key env ht key value, kept_value env ht value, 1) (entries ht)) \<and>
    (\<not> has_key same key (entries ht) \<longrightarrow> evs = retains env ht key value \<and> CFBasicHashReplaceValue env ht key value = Inr (ht, [])) \<and>
    (has_key same key (entries ht) \<longrightarrow>
       (\<exists>p \<in> live ht. same (key_at ht p) key \<and> evs = retains env ht key value @ releases ht p) \<and>
       CFBasicHashReplaceValue env ht key value = Inr (ht', evs))"
proof -
  have key: "key \<in> K" using keep by (simp add: keeps_key_def)
  have codes: "\<not> is_sentinel key" by (rule same_key_codes [OF table_okD(2) [OF ok] key])
  show ?thesis
    using ok key
  proof (cases rule: find_cases)
    case (found p)
    obtain ht' where ht': "CFBasicHashReplaceValue_bucket env ht (int p) key value = Inr (ht', retains env ht key value @ releases ht p)"
        "hash_wf env K ht'" "entries ht' = on_key same key (\<lambda>e. (kept_key env ht key value, kept_value env ht value, snd (snd e))) (entries ht)"
        "config ht' = config ht" "bh_mutations ht' = bh_mutations ht + 1"
      using ReplaceValue_bucket_replaces [OF table_okD(1,2) [OF ok] keep(1) found(1,2)] unfolding same_def by blast
    moreover have "CFBasicHashSetValue env ht key value = CFBasicHashReplaceValue_bucket env ht (int p) key value"
        "CFBasicHashReplaceValue env ht key value = CFBasicHashReplaceValue_bucket env ht (int p) key value"
      using found(3) mut keep(2) codes live_count(1) [OF ok found(1)]
      by (simp_all add: CFBasicHashSetValue_def CFBasicHashReplaceValue_def)
    ultimately show ?thesis
      using found(1,2,4) table_ok_same [OF ok ht'(2,4)] by (auto simp: same_def)
  next
    case (absent d)
    obtain ht' where ht': "CFBasicHashAddValue_bucket env ht d key value = Inr (ht', retains env ht key value)" "hash_wf env K ht'"
        "entries ht' = add_mset (kept_key env ht key value, kept_value env ht value, 1) (entries ht)"
        "config ht' = config ht" "bh_mutations ht' = bh_mutations ht + 1"
      using AddValue_bucket_adds [OF table_okD(1,2,3) [OF ok] keep(1) absent(1) _ absent(4)] room absent(3) by (auto simp: room_for_one_def)
    then show ?thesis
      using absent(2,3) mut keep codes table_ok_same [OF ok ht'(2,4)] by (simp add: CFBasicHashSetValue_def CFBasicHashReplaceValue_def same_def)
  qed
qed

lemma remove_cases:
  assumes ok: "table_ok env K ht" and mut: "bh_mutable ht" and key: "key \<in> K"
  defines "same \<equiv> CFBasicHashTestEqualKey env ht"
  shows "\<exists>n ht' evs. CFBasicHashRemoveValue env ht key = Inr (n, ht', evs) \<and> table_ok env K ht' \<and> config ht' = config ht \<and>
    (\<not> has_key same key (entries ht) \<longrightarrow> n = 0 \<and> ht' = ht \<and> evs = []) \<and>
    (has_key same key (entries ht) \<longrightarrow>
       (\<exists>p \<in> live ht. same (key_at ht p) key \<and> n = cnt_at ht p \<and> evs = (if n = 1 then releases ht p else [])) \<and>
       bh_mutations ht' = bh_mutations ht + 1 \<and>
       entries ht' = (if n = 1 then without_key same key (entries ht) else on_key same key count_down (entries ht)))"
proof -
  have codes: "\<not> is_sentinel key" by (rule same_key_codes [OF table_okD(2) [OF ok] key])
  show ?thesis
    using ok key
  proof (cases rule: find_cases)
    case (found p)
    let ?b = "bump_mutations ht"
    note change = change_entry [OF table_okD(5,2) [OF ok] key found(1,2)]
    consider (one) "cnt_at ht p = 1" | (less) "1 < cnt_at ht p" "cnt_at ht p < LONG_MAX" | (full) "1 < cnt_at ht p" "\<not> cnt_at ht p < LONG_MAX"
      using live_count(1) [OF ok found(1)] by linarith
    then show ?thesis
    proof cases
      case one
      obtain ht' where ht': "CFBasicHashRemoveValue_bucket env ht (int p) = Inr (ht', releases ht p)" "hash_wf env K ht'"
          "entries ht' = without_key same key (entries ht)" "config ht' = config ht" "bh_mutations ht' = bh_mutations ht + 1"
        using RemoveValue_bucket_removes [OF table_okD(1,2,3) [OF ok] found(1) key found(2) one] unfolding same_def by blast
      then have "CFBasicHashRemoveValue env ht key = Inr (1, ht', releases ht p)"
        using found(3) mut codes one by (simp add: CFBasicHashRemoveValue_def remove_found_def)
      then show ?thesis using ht'(3,5) one found(1,2,4) table_ok_same [OF ok ht'(2,4)] ht'(4) by (auto simp: same_def)
    next
      case less
      have counts: "bh_counts ht \<noteq> None" using live_count(2) [OF ok found(1)] less by auto
      obtain ht' where ht': "CFBasicHashDecSlotCount ?b (int p) = Inr ht'" "hash_wf env K ht'"
          "entries ht' = on_key same key (\<lambda>(a, v, c). (a, v, c - 1)) (entries ht)" "config ht' = config ht" "bh_mutations ht' = bh_mutations ht + 1"
        using DecSlotCount_counts [of env K ?b key p] table_okD [of env K ?b] ok key found(1,2) counts less by (auto simp: same_def)
      have "CFBasicHashRemoveValue env ht key = Inr (cnt_at ht p, ht', [])"
        using ht'(1) found(3) mut codes less counts by (simp add: CFBasicHashRemoveValue_def remove_found_def)
      moreover have "on_key same key (\<lambda>(a, v, c). (a, v, c - 1)) (entries ht) = on_key same key count_down (entries ht)"
        using change(1) less(2) by (simp add: same_def entry_at_def count_down_def)
      ultimately show ?thesis
        using ht'(3,4,5) less(1) found(1,2,4) table_ok_same [OF ok ht'(2,4)] by (auto simp: same_def)
    next
      case full
      have counts: "bh_counts ht \<noteq> None" using live_count(2) [OF ok found(1)] full by auto
      have "CFBasicHashRemoveValue env ht key = Inr (cnt_at ht p, ?b, [])"
        using found(3) mut codes full by (simp add: CFBasicHashRemoveValue_def remove_found_def)
      moreover have "on_key same key count_down (entries ht) = entries ht"
        using change(1) [of count_down] full(2) entry_members [OF found(1)] by (simp add: same_def entry_at_def count_down_def)
      ultimately show ?thesis using ok full(1) found(1,2,4) by (auto simp: same_def)
    qed
  next
    case (absent d)
    then show ?thesis using ok mut codes by (simp add: CFBasicHashRemoveValue_def remove_found_def same_def)
  qed
qed

section \<open>Counting the elements\<close>

text \<open>A bucket that is not in use counts 0.\<close>

lemma sum_slots_total:
  assumes counts: "bh_counts ht = Some cs"
  shows "idx + n \<le> length cs \<Longrightarrow> sum_slots ht acc idx n = Inr (acc + sum_list (take n (drop idx cs)))"
proof (induction n arbitrary: acc idx)
  case (Suc n)
  then show ?case
    using counts by (simp add: CFBasicHashGetSlotCount_def the_array_def take_Suc_conv_app_nth Cons_nth_drop_Suc [symmetric])
qed simp

lemma sum_list_counts: "sum_list (cs :: nat list) = (\<Sum>i < length cs. cs ! i)"
  by (simp add: sum_list_sum_nth atLeast0LessThan)

definition total :: "(ptr \<times> ptr \<times> nat) multiset \<Rightarrow> nat" where
  "total E = \<Sum>\<^sub># (image_mset (\<lambda>(k, v, c). c) E)"

lemma GetCount_total:
  assumes wf: "hash_wf env K ht"
  shows "CFBasicHashGetCount ht = Inr (total (entries ht))"
proof -
  note W = wf [unfolded hash_wf_def]
  have "total (entries ht) = (\<Sum>i \<in> live ht. cnt_at ht i)"
    by (simp add: total_def entries_def entry_at_def image_mset.compositionality comp_def sum_unfold_sum_mset)
  also have "CFBasicHashGetCount ht = Inr \<dots>"
  proof (cases "bh_counts ht")
    case None
    then show ?thesis using W by (simp add: CFBasicHashGetCount_def cnt_at_def)
  next
    case (Some cs)
    have len: "length cs = length (bh_values ht)" using shape_length(3) [of ht cs] W Some by simp
    have "(\<Sum>i < length cs. cs ! i) = (\<Sum>i \<in> live ht. cs ! i)"
    proof (rule sum.mono_neutral_right)
      show "live ht \<subseteq> {..<length cs}" using len by (auto simp: live_def)
      show "\<forall>i \<in> {..<length cs} - live ht. cs ! i = 0"
        using cells_agreeD(4) [of env K ht] W Some len by (auto simp: cnt_at_def)
    qed simp
    then show ?thesis
      using Some sum_slots_total [OF Some, of 0 "length cs" 0] W len shape_length(1) [of ht]
      by (simp add: CFBasicHashGetCount_def CFBasicHashGetNumBuckets_def sum_list_counts cnt_at_def)
  qed
  finally show ?thesis .
qed

section \<open>New and emptied tables\<close>

lemma created_table:
  assumes "he_create env" "\<not> flags_clash flags" "\<not> has_flag flags kCFBasicHashIndirectKeys" "unat (drop_bit 13 flags AND 3) = 1"
  shows "\<exists>ht. CFBasicHashCreate env flags cb = Inr (Some ht) \<and> hash_wf env K ht \<and> entries ht = {#} \<and> bh_callbacks ht = cb \<and>
    bh_mutable ht \<and> \<not> bh_null_rc ht \<and> (bh_keys ht = None \<longleftrightarrow> \<not> has_flag flags kCFBasicHashHasKeys) \<and>
    (bh_counts ht = None \<longleftrightarrow> \<not> has_flag flags kCFBasicHashHasCounts) \<and> bh_fast_grow ht = has_flag flags kCFBasicHashAggressiveGrowth"
proof -
  obtain ht where new: "CFBasicHashCreate env flags cb = Inr (Some ht)" using assms by (simp add: CFBasicHashCreate_def)
  have ht: "bh_values ht = []" "bh_hash_style ht = 1" "bh_counts_width ht = 0"
      "\<not> bh_indirect_keys ht" "bh_used_buckets ht = 0" "bh_deleted ht = 0" "bh_num_buckets_idx ht = 0"
      "array_fits 0 (bh_keys ht)" "array_fits 0 (bh_counts ht)" "array_fits 0 (bh_hashes ht)"
      "bh_callbacks ht = cb" "bh_mutable ht" "\<not> bh_null_rc ht" "(bh_keys ht = None) = (\<not> has_flag flags kCFBasicHashHasKeys)"
      "(bh_counts ht = None) = (\<not> has_flag flags kCFBasicHashHasCounts)" "bh_fast_grow ht = has_flag flags kCFBasicHashAggressiveGrowth"
    using assms new by (auto simp: CFBasicHashCreate_def array_fits_def split: if_splits)
  have live: "live ht = {}" using ht(1) by (simp add: live_def)
  have "hash_shape ht" using ht linear_probing_covers by (simp add: hash_shape_def)
  moreover have "cells_agree env K ht" using ht(1) by (intro cells_agreeI) (simp_all add: live)
  ultimately have "hash_wf env K ht" using ht by (simp add: hash_wf_def live CFBasicHashGetCapacity_def)
  moreover have "entries ht = {#}" by (simp add: entries_def live)
  ultimately show ?thesis using new ht(11-) by (intro exI [of _ ht]) simp
qed

lemma drained_table:
  assumes wf: "hash_wf env K ht"
  shows "\<exists>ht' evs. CFBasicHashDrain ht = Inr (ht', evs) \<and> hash_wf env K ht' \<and> entries ht' = {#} \<and> config ht' = config ht"
proof -
  note W = wf [unfolded hash_wf_def]
  let ?new = "ht\<lparr>bh_values := [], bh_keys := map_option (\<lambda>_. []) (bh_keys ht), bh_counts := map_option (\<lambda>_. []) (bh_counts ht),
    bh_hashes := map_option (\<lambda>_. []) (bh_hashes ht), bh_mutations := bh_mutations ht + 1,
    bh_num_buckets_idx := 0, bh_used_buckets := 0, bh_deleted := 0\<rparr>"
  have keys: "length ks = length (bh_values ht)" if "bh_keys ht = Some ks" for ks
    using shape_length(5) [of ht ks] W that by simp
  have drain: "idx + n \<le> length (bh_values ht) \<Longrightarrow> \<exists>evs. drain_loop ?new (bh_values ht) (bh_keys ht) idx n = Inr evs" for idx n
  proof (induction n arbitrary: idx)
    case (Suc n)
    obtain rest where rest: "drain_loop ?new (bh_values ht) (bh_keys ht) (Suc idx) n = Inr rest" using Suc.IH [of "Suc idx"] Suc.prems by auto
    show ?case using Suc.prems rest keys by (cases "bh_keys ht") auto
  qed simp
  have live: "live ?new = {}" by (simp add: live_def)
  have "hash_shape ?new" using W by (auto simp: hash_shape_def array_fits_def)
  moreover have "cells_agree env K ?new" by (intro cells_agreeI) (simp_all add: live_def)
  ultimately have "hash_wf env K ?new" by (simp add: hash_wf_def live_def CFBasicHashGetCapacity_def)
  moreover have "entries ?new = {#}" unfolding entries_def live by simp
  moreover have "config ?new = config ht" by (simp add: config_def frame_def option.map_comp comp_def)
  moreover obtain evs where "CFBasicHashDrain ht = Inr (?new, evs)"
    using drain [of 0 "CFBasicHashGetNumBuckets ht"] shape_length(1) [of ht] W
    by (auto simp: CFBasicHashDrain_def Let_def CFBasicHashGetNumBuckets_def)
  ultimately show ?thesis by blast
qed

section \<open>Copying\<close>

definition retains_in_place :: "hash_env \<Rightarrow> CFBasicHash \<Rightarrow> bool" where
  "retains_in_place env ht \<longleftrightarrow>
     (\<forall>x. fst (CFBasicHashImportValue env ht x) = x) \<and> (\<forall>x. fst (CFBasicHashImportKey env ht x) = x)"

lemma grow_prefix:
  "i < length xs \<Longrightarrow> n = length xs \<Longrightarrow> (take i xs @ replicate (n - i) z)[i := xs ! i] = take (Suc i) xs @ replicate (n - Suc i) z"
  by (simp add: list_update_append take_Suc_conv_app_nth Suc_diff_Suc [symmetric])

lemma copied_prefix:
  assumes shape: "hash_shape src" and cells: "cells_agree env K src" and place: "retains_in_place env base"
    and cb: "bh_callbacks base = bh_callbacks src"
  defines "n \<equiv> length (bh_values src)"
  defines "st \<equiv> \<lambda>i. base\<lparr>bh_values := take i (bh_values src) @ replicate (n - i) 0,
    bh_keys := map_option (\<lambda>ks. take i ks @ replicate (n - i) 0) (bh_keys src)\<rparr>"
  shows "i + k = n \<Longrightarrow> \<exists>evs. copy_loop env src (st i) i k = Inr (st n, evs)"
proof (induction k arbitrary: i)
  case (Suc k)
  have i: "i < length (bh_values src)" using Suc.prems by (simp add: n_def)
  have import_same: "fst (CFBasicHashImportValue env (st i) x) = x" "fst (CFBasicHashImportKey env (st j\<lparr>bh_values := vs\<rparr>) x) = x" for x j vs
    using place by (simp_all add: retains_in_place_def st_def CFBasicHashImportValue_def CFBasicHashImportKey_def calls_def)
  have vals: "(bh_values (st i))[i := bh_values src ! i] = bh_values (st (Suc i))"
    using grow_prefix [OF i, of n 0] by (simp add: st_def n_def)
  have len: "i < length (bh_values (st i))" using i by (simp add: st_def n_def)
  have "\<exists>evs. ebind (if bh_values src ! i \<noteq> 0 \<and> bh_values src ! i \<noteq> - 1 then
              (let (v, evs1) = CFBasicHashImportValue env (st i) (cell_decode (bh_values src ! i)) in
               ebind (CFBasicHashSetValue_cell (st i) (int i) v True False) (\<lambda>(ht, _).
               case bh_keys src of
                 None \<Rightarrow> Inr (ht, evs1)
               | Some keys \<Rightarrow>
                   ebind (rd keys i) (\<lambda>old_key.
                   let (k, evs2) = CFBasicHashImportKey env ht (cell_decode old_key) in
                   ebind (CFBasicHashSetKey_cell ht (int i) k True False) (\<lambda>(ht, _). Inr (ht, evs1 @ evs2)))))
            else
              ebind (CFBasicHashSetValue_cell (st i) (int i) (bh_values src ! i) True True) (\<lambda>(ht, _).
              if bh_keys src = None then Inr (ht, [])
              else ebind (CFBasicHashSetKey_cell ht (int i) (bh_values src ! i) True True) (\<lambda>(ht, _). Inr (ht, [])))) (\<lambda>(ht, evs).
            Inr (ht, evs)) = Inr (st (Suc i), evs)" (is "\<exists>evs. ?step = _")
  proof (cases "bh_keys src")
    case None
    have next_state: "st i\<lparr>bh_values := bh_values (st (Suc i))\<rparr> = st (Suc i)" by (simp add: st_def None)
    show ?thesis
    proof (cases "i \<in> live src")
      case True
      then have use: "in_use (bh_values src ! i)" by (simp add: live_def)
      obtain v evs1 where v: "CFBasicHashImportValue env (st i) (cell_decode (bh_values src ! i)) = (v, evs1)" by fastforce
      have "cell_encode v = bh_values src ! i" using import_same(1) [of "cell_decode (bh_values src ! i)"] v cell_encode_decode [OF use] by simp
      then show ?thesis using use v None SetValue_at [OF len] vals next_state by (simp add: in_use_def)
    next
      case False
      then have skip: "\<not> (bh_values src ! i \<noteq> 0 \<and> bh_values src ! i \<noteq> - 1)" using i by (simp add: live_def in_use_def)
      show ?thesis unfolding if_not_P [OF skip] by (simp add: None SetValue_at [OF len] vals next_state)
    qed
  next
    case (Some keys)
    have keys: "i < length keys" "length keys = n" using shape_length(5) [OF shape Some] i by (simp_all add: n_def)
    let ?vs = "st i\<lparr>bh_values := bh_values (st (Suc i))\<rparr>"
    have stk: "bh_keys ?vs = Some (take i keys @ replicate (n - i) 0)" by (simp add: st_def Some)
    have next_state: "?vs\<lparr>bh_keys := Some ((take i keys @ replicate (n - i) 0)[i := keys ! i])\<rparr> = st (Suc i)"
      using grow_prefix [OF keys(1), of n 0] keys(2) by (simp add: st_def Some)
    have setkey: "CFBasicHashSetKey_cell ?vs (int i) x True l =
        Inr (?vs\<lparr>bh_keys := Some ((take i keys @ replicate (n - i) 0)[i := if l then x else cell_encode x])\<rparr>, [])" for x l
      using SetKey_at [OF _ stk, of i x True l] keys by simp
    have raw: "keys ! i = bucket_keys src ! i" using Some by (simp add: bucket_keys_def)
    show ?thesis
    proof (cases "i \<in> live src")
      case True
      then have use: "in_use (bh_values src ! i)" "in_use (keys ! i)" using live_key_raw [OF cells i] raw by (simp_all add: live_def)
      obtain v evs1 where v: "CFBasicHashImportValue env (st i) (cell_decode (bh_values src ! i)) = (v, evs1)" by fastforce
      obtain w evs2 where w: "CFBasicHashImportKey env ?vs (cell_decode (keys ! i)) = (w, evs2)" by fastforce
      have enc: "cell_encode v = bh_values src ! i" "cell_encode w = keys ! i"
        using import_same(1) [of "cell_decode (bh_values src ! i)"] import_same(2) [of _ i "cell_decode (keys ! i)"] v w
          cell_encode_decode [OF use(1)] cell_encode_decode [OF use(2)] by (metis fst_conv)+
      then show ?thesis
        using use(1) v w Some SetValue_at [OF len] vals next_state setkey keys(1) by (simp add: in_use_def)
    next
      case False
      then have skip: "\<not> (bh_values src ! i \<noteq> 0 \<and> bh_values src ! i \<noteq> - 1)" using i by (simp add: live_def in_use_def)
      then have cell: "bh_values src ! i = keys ! i" using cells_agreeD(1,2) [OF cells i] raw by auto
      show ?thesis unfolding if_not_P [OF skip]
        using next_state by (simp add: Some SetValue_at [OF len] vals [unfolded cell] cell setkey [unfolded cell])
    qed
  qed
  then obtain evs where evs: "?step = Inr (st (Suc i), evs)" by blast
  obtain rest where rest: "copy_loop env src (st (Suc i)) (Suc i) k = Inr (st n, rest)" using Suc.IH [of "Suc i"] Suc.prems by auto
  show ?case using evs rest i by simp
qed simp

lemma CreateCopy_copies:
  assumes wf: "hash_wf env K src" and env: "allocates env" "he_create env" and place: "retains_in_place env src"
  shows "\<exists>evs. CFBasicHashCreateCopy env src = Inr (Some (src\<lparr>bh_mutable := True, bh_finalized := False, bh_mutations := 1\<rparr>, evs))"
proof -
  note W = wf [unfolded hash_wf_def]
  let ?ht = "src\<lparr>bh_mutable := True, bh_finalized := False, bh_mutations := 1\<rparr>"
  have n: "CFBasicHashGetNumBuckets src = length (bh_values src)" using shape_length(1) [of src] W by (simp add: CFBasicHashGetNumBuckets_def)
  have keys: "length ks = length (bh_values src)" if "bh_keys src = Some ks" for ks using shape_length(5) [of src ks] W that by simp
  show ?thesis
  proof (cases "bh_values src = []")
    case True
    have "map_option (\<lambda>_. []) (bh_keys src) = bh_keys src" using keys True by (cases "bh_keys src") auto
    moreover have "map_option (\<lambda>_. []) (bh_counts src) = bh_counts src"
      using shape_length(3) [of src] W True by (cases "bh_counts src") auto
    moreover have "map_option (\<lambda>_. []) (bh_hashes src) = bh_hashes src"
      using shape_length(4) [of src] W True by (cases "bh_hashes src") auto
    ultimately show ?thesis using True n env by (cases src) (simp add: CFBasicHashCreateCopy_def)
  next
    case False
    have place': "retains_in_place env ?ht"
      using place by (simp add: retains_in_place_def CFBasicHashImportValue_def CFBasicHashImportKey_def calls_def)
    obtain evs where evs: "copy_loop env src (?ht\<lparr>bh_values := replicate (length (bh_values src)) 0,
        bh_keys := map_option (\<lambda>ks. replicate (length (bh_values src)) 0) (bh_keys src)\<rparr>) 0 (length (bh_values src)) =
        Inr (?ht\<lparr>bh_values := bh_values src, bh_keys := map_option (\<lambda>ks. take (length (bh_values src)) ks) (bh_keys src)\<rparr>, evs)"
      using copied_prefix [of src env K ?ht 0 "length (bh_values src)"] W place' by auto
    have "map_option (\<lambda>ks. take (length (bh_values src)) ks) (bh_keys src) = bh_keys src" using keys by (cases "bh_keys src") auto
    then have "?ht\<lparr>bh_values := bh_values src, bh_keys := map_option (\<lambda>ks. take (length (bh_values src)) ks) (bh_keys src)\<rparr> = ?ht" by simp
    then show ?thesis using False evs n env by (simp add: CFBasicHashCreateCopy_def Let_def allocates_def)
  qed
qed

end
