(* ===== verification/CF_HashSpec.thy ===== *)
theory CF_HashSpec
  imports CF_HashOps
begin

text \<open>
  What the operations of the hash table promise: the contents of the table as a multiset of entries (key, value, count),
  what a search finds in it, and what each operation of \<open>CFBasicHash.c\<close> does to it. The clients
  (\<open>CF_HashContainers\<close>) rely on the search only through the locale \<open>keyed_table\<close>.
\<close>

section \<open>What a search finds\<close>

text \<open>
  A table whose contents a search by key reads: it finds the entry of the key, or none. The lemmas say what a search finds after
  the three kinds of change.
\<close>

locale keyed_table =
  fixes ok :: "'t \<Rightarrow> bool" and K :: "ptr set" and same :: "'t \<Rightarrow> ptr \<Rightarrow> ptr \<Rightarrow> bool"
    and contents :: "'t \<Rightarrow> (ptr \<times> ptr \<times> nat) multiset" and search :: "'t \<Rightarrow> ptr \<Rightarrow> (ptr \<times> ptr \<times> nat) option"
  assumes search_present: "ok t \<Longrightarrow> key \<in> K \<Longrightarrow> e \<in># contents t \<Longrightarrow> same t (fst e) key \<Longrightarrow> search t key = Some e"
    and search_absent: "ok t \<Longrightarrow> key \<in> K \<Longrightarrow> \<not> has_key (same t) key (contents t) \<Longrightarrow> search t key = None"
    and contents_keys: "ok t \<Longrightarrow> e \<in># contents t \<Longrightarrow> fst e \<in> K"
    and same_sym: "ok t \<Longrightarrow> a \<in> K \<Longrightarrow> b \<in> K \<Longrightarrow> same t a b \<Longrightarrow> same t b a"
    and same_trans: "ok t \<Longrightarrow> a \<in> K \<Longrightarrow> b \<in> K \<Longrightarrow> c \<in> K \<Longrightarrow> same t a b \<Longrightarrow> same t b c \<Longrightarrow> same t a c"
begin

lemma search_cases:
  assumes "ok t" "key \<in> K"
  obtains e where "e \<in># contents t" "same t (fst e) key" "search t key = Some e" "has_key (same t) key (contents t)"
  | "\<not> has_key (same t) key (contents t)" "search t key = None"
  using assms search_present search_absent by (metis has_key_def)

lemma search_iff: "ok t \<Longrightarrow> key \<in> K \<Longrightarrow> has_key (same t) key (contents t) \<longleftrightarrow> search t key \<noteq> None"
  by (erule (1) search_cases) simp_all

lemma search_after_add:
  assumes ok: "ok t" "ok t'" "same t' = same t" and add: "contents t' = add_mset (k, v, c) (contents t)"
    and keys: "k \<in> K" "key \<in> K"
  shows "search t' key = (if same t k key then Some (k, v, c) else search t key)"
proof (cases "same t k key")
  case True
  then show ?thesis using search_present [OF ok(2) keys(2), of "(k, v, c)"] ok(3) add by simp
next
  case False
  show ?thesis
    using ok(1) keys(2)
  proof (cases rule: search_cases)
    case (1 e)
    then show ?thesis using False search_present [OF ok(2) keys(2), of e] ok(3) add by simp
  next
    case 2
    then show ?thesis using False search_absent [OF ok(2) keys(2)] ok(3) add by (simp add: has_key_def)
  qed
qed

lemma search_after_change:
  assumes ok: "ok t" "ok t'" "same t' = same t" and change: "contents t' = on_key (same t) k f (contents t)"
    and f: "\<And>e. e \<in># contents t \<Longrightarrow> same t (fst e) k \<Longrightarrow> fst (f e) \<in> K \<and> same t (fst (f e)) k" and keys: "k \<in> K" "key \<in> K"
  shows "search t' key = (if same t k key then map_option f (search t key) else search t key)"
proof -
  have swap: "same t a k \<longleftrightarrow> same t a key" if "same t k key" "a \<in> K" for a
    using that keys same_sym [OF ok(1)] same_trans [OF ok(1)] by metis
  show ?thesis
    using ok(1) keys(2)
  proof (cases rule: search_cases)
    case (1 e)
    note e = contents_keys [OF ok(1) 1(1)]
    show ?thesis
    proof (cases "same t k key")
      case True
      then have "same t (fst e) k" using swap [OF True e] 1(2) by simp
      then have "f e \<in># contents t'" "same t (fst (f e)) key" using f [OF 1(1)] 1(1) swap [OF True] by (auto simp: change on_key_def image_iff)
      then show ?thesis using search_present [OF ok(2) keys(2), of "f e"] ok(3) True 1(3) by simp
    next
      case False
      have "\<not> same t (fst e) k" using False 1(2) e keys same_sym [OF ok(1)] same_trans [OF ok(1)] by metis
      then have "e \<in># contents t'" using 1(1) by (force simp: change on_key_def image_iff)
      then show ?thesis using search_present [OF ok(2) keys(2), of e] ok(3) 1(2,3) False by simp
    qed
  next
    case 2
    have "\<not> has_key (same t) key (contents t')"
    proof
      assume "has_key (same t) key (contents t')"
      then obtain e where e: "e \<in># contents t" "same t (fst (if same t (fst e) k then f e else e)) key"
        by (auto simp: has_key_def change on_key_def)
      have ek: "fst e \<in> K" by (rule contents_keys [OF ok(1) e(1)])
      have "same t (fst e) key"
      proof (cases "same t (fst e) k")
        case True
        then have fe: "fst (f e) \<in> K" "same t (fst (f e)) k" "same t (fst (f e)) key" using f [OF e(1)] e(2) by simp_all
        then have "same t k key" using keys same_sym [OF ok(1)] same_trans [OF ok(1)] by metis
        then show ?thesis using True ek keys same_trans [OF ok(1)] by metis
      qed (use e(2) in simp)
      then show False using 2(1) e(1) by (auto simp: has_key_def)
    qed
    then show ?thesis using 2(2) search_absent [OF ok(2) keys(2)] ok(3) by simp
  qed
qed

lemma search_after_removal:
  assumes ok: "ok t" "ok t'" "same t' = same t" and removal: "contents t' = without_key (same t) k (contents t)"
    and keys: "k \<in> K" "key \<in> K"
  shows "search t' key = (if same t k key then None else search t key)"
  using ok(1) keys(2)
proof (cases rule: search_cases)
  case (1 e)
  note e = contents_keys [OF ok(1) 1(1)]
  show ?thesis
  proof (cases "same t k key")
    case True
    have "\<not> has_key (same t) key (contents t')"
    proof
      assume "has_key (same t) key (contents t')"
      then obtain d where d: "d \<in># contents t" "\<not> same t (fst d) k" "same t (fst d) key" by (auto simp: has_key_def removal without_key_def)
      then show False using contents_keys [OF ok(1) d(1)] True keys same_sym [OF ok(1)] same_trans [OF ok(1)] by metis
    qed
    then show ?thesis using True search_absent [OF ok(2) keys(2)] ok(3) by simp
  next
    case False
    have "\<not> same t (fst e) k" using False 1(2) e keys same_sym [OF ok(1)] same_trans [OF ok(1)] by metis
    then have "e \<in># contents t'" using 1(1) by (simp add: removal without_key_def)
    then show ?thesis using search_present [OF ok(2) keys(2), of e] ok(3) 1(2,3) False by simp
  qed
next
  case 2
  then have "\<not> has_key (same t) key (contents t')" by (auto simp: has_key_def removal without_key_def)
  then show ?thesis using 2(2) search_absent [OF ok(2) keys(2)] ok(3) by simp
qed

end

text \<open>The search of the code.\<close>

definition found_entry :: "hash_env \<Rightarrow> CFBasicHash \<Rightarrow> ptr \<Rightarrow> (ptr \<times> ptr \<times> nat) option" where
  "found_entry env ht key =
     (case CFBasicHashFindBucket env ht key of
        Inr bkt \<Rightarrow> if 0 < bk_count bkt then Some (bk_weak_key bkt, bk_weak_value bkt, bk_count bkt) else None
      | Inl _ \<Rightarrow> None)"

lemma FindBucket_any_key:
  assumes "table_ok env K ht" "key \<in> K"
  shows "CFBasicHashFindBucket env ht key = CFBasicHashFindBucket_any env ht key"
  using same_key_codes [OF table_okD(2) [OF assms(1)] assms(2)] by (simp add: CFBasicHashFindBucket_def is_sentinel_def)

lemma found_entry_present:
  assumes ok: "table_ok env K ht" and key: "key \<in> K" and e: "e \<in># entries ht" "CFBasicHashTestEqualKey env ht (fst e) key"
  shows "found_entry env ht key = Some e"
  using ok key
proof (cases rule: find_cases)
  case (found p)
  obtain i where i: "i \<in> live ht" "e = entry_at ht i" using e(1) by (auto simp: entries_def)
  then have "i = p" using only_bucket [OF table_okD(5,2) [OF ok] key found(1,2) i(1)] e(2) by (simp add: entry_at_def)
  then show ?thesis using i(2) found live_count(1) [OF ok found(1)] FindBucket_any_key [OF ok key] by (simp add: found_entry_def entry_at_def)
next
  case (absent d)
  then show ?thesis using e by (auto simp: has_key_def)
qed

interpretation hash_search: keyed_table "table_ok env K" K "CFBasicHashTestEqualKey env" entries "found_entry env" for env K
proof unfold_locales
  fix ht key e a b c
  assume ok: "table_ok env K ht"
  note L = table_okD(2) [OF ok]
  show "key \<in> K \<Longrightarrow> e \<in># entries ht \<Longrightarrow> CFBasicHashTestEqualKey env ht (fst e) key \<Longrightarrow> found_entry env ht key = Some e"
    by (rule found_entry_present [OF ok])
  show "\<not> has_key (CFBasicHashTestEqualKey env ht) key (entries ht) \<Longrightarrow> found_entry env ht key = None" if key: "key \<in> K"
    using ok key FindBucket_any_key [OF ok key] by (cases rule: find_cases) (simp_all add: found_entry_def)
  show "fst e \<in> K" if "e \<in># entries ht"
    using that cells_agreeD(5) [OF table_okD(5) [OF ok]] by (auto simp: entries_def entry_at_def)
  show "a \<in> K \<Longrightarrow> b \<in> K \<Longrightarrow> CFBasicHashTestEqualKey env ht a b \<Longrightarrow> CFBasicHashTestEqualKey env ht b a"
    by (rule same_key_sym [OF L])
  show "a \<in> K \<Longrightarrow> b \<in> K \<Longrightarrow> c \<in> K \<Longrightarrow> CFBasicHashTestEqualKey env ht a b \<Longrightarrow> CFBasicHashTestEqualKey env ht b c \<Longrightarrow>
      CFBasicHashTestEqualKey env ht a c"
    using hashed_keys.same_trans [OF L [unfolded key_laws_def]] by blast
qed

section \<open>Tables of pointers\<close>

text \<open>Without callbacks, keys are compared and hashed as the pointers they are.\<close>

definition no_callbacks :: CFBasicHashCallbacks where
  "no_callbacks = \<lparr>hcb_retainValue = NULL, hcb_retainKey = NULL, hcb_releaseValue = NULL, hcb_releaseKey = NULL,
     hcb_equateValues = NULL, hcb_equateKeys = NULL, hcb_hashKey = NULL, hcb_getIndirectKey = NULL\<rparr>"

definition pointers :: "ptr set" where "pointers = {x. \<not> is_sentinel x}"

interpretation pointer_keys:
  hashed_keys "CFBasicHashTestEqualKey env (ht\<lparr>bh_callbacks := no_callbacks\<rparr>)" "CFBasicHashHashKey env (ht\<lparr>bh_callbacks := no_callbacks\<rparr>)" pointers
  for env ht
  by unfold_locales (auto simp: CFBasicHashTestEqualKey_def CFBasicHashHashKey_def no_callbacks_def pointers_def)

lemma pointer_laws: "bh_callbacks ht = no_callbacks \<Longrightarrow> key_laws env ht pointers"
  using frame_callbacks(3) [of ht "ht\<lparr>bh_callbacks := no_callbacks\<rparr>" env pointers] pointer_keys.hashed_keys_axioms
  by (simp add: key_laws_def)

definition plain_env :: hash_env where
  "plain_env = \<lparr>he_retain = (\<lambda>_ x. x), he_equal = (\<lambda>_ a b. a = b), he_hash = (\<lambda>_ x. x), he_indirect = (\<lambda>_ x. x),
     he_alloc = (\<lambda>_. True), he_create = True\<rparr>"

lemma plain_allocates [simp]: "allocates plain_env" "he_create plain_env"
  by (simp_all add: allocates_def plain_env_def)

text \<open>A dictionary of three buckets that maps 7 to 9, and a bag that has 7 twice.\<close>

definition sample :: "ptr list option \<Rightarrow> nat list option \<Rightarrow> CFBasicHash" where
  "sample ks cs = \<lparr>bh_mutable = True, bh_mutations = 1, bh_hash_style = 1, bh_counts_width = 0, bh_indirect_keys = False,
     bh_used_buckets = 1, bh_deleted = 0, bh_num_buckets_idx = 1, bh_null_rc = False, bh_fast_grow = False, bh_finalized = False,
     bh_callbacks = no_callbacks, bh_values = [0, if ks = None then 7 else 9, 0], bh_keys = ks, bh_counts = cs, bh_hashes = None\<rparr>"

abbreviation sample_dictionary :: CFBasicHash where "sample_dictionary \<equiv> sample (Some [0, 7, 0]) None"
abbreviation sample_bag :: CFBasicHash where "sample_bag \<equiv> sample None (Some [0, 2, 0])"

lemma three_indexes: "i < Suc (Suc (Suc 0)) \<longleftrightarrow> i = 0 \<or> i = 1 \<or> i = 2"
  by auto

lemma sample_live: "live (sample ks cs) = {1}"
  by (auto simp: live_def sample_def in_use_def three_indexes)

lemma sample_parts:
  "key_at (sample None cs) 1 = 7" "key_at (sample (Some [0, 7, 0]) cs) 1 = 7"
  "entry_at sample_dictionary 1 = (7, 9, 1)" "entry_at sample_bag 1 = (7, 7, 2)"
  by (simp_all add: entry_at_def key_at_def val_at_def cnt_at_def bucket_keys_def sample_def
      cell_decode_def CFBasicHashSubABZero_def CFBasicHashSubABOne_def)

lemma sample_entries: "entries sample_dictionary = {#(7, 9, 1)#}" "entries sample_bag = {#(7, 7, 2)#}"
  using sample_parts(3,4) by (simp_all add: entries_def sample_live)

lemma sample_size: "hash_size 1 = 3" "CFBasicHashGetCapacityForNumBuckets 1 = 3"
  by (simp_all add: hash_size_def CFBasicHashTableSizes_def CFBasicHashGetCapacityForNumBuckets_def CFBasicHashTableCapacities_def)

lemma sample_codes: "7 \<in> pointers" "8 \<in> pointers" "9 \<in> pointers" "\<not> is_sentinel 7" "\<not> is_sentinel 8" "\<not> is_sentinel 9"
  by (simp_all add: pointers_def is_sentinel_def CFBasicHashSubABZero_def CFBasicHashSubABOne_def)

lemma sample_ok:
  assumes ks: "ks = None \<or> ks = Some [0, 7, 0]" and cs: "cs = None \<or> cs = Some [0, 2, 0]"
  shows "table_ok plain_env pointers (sample ks cs)"
proof -
  let ?ht = "sample ks cs"
  have sizes: "length (bh_values ?ht) = 3" "bh_num_buckets_idx ?ht = 1" "bh_hash_style ?ht = 1" by (simp_all add: sample_def)
  have shape: "hash_shape ?ht"
    using ks cs linear_probing_covers sample_size by (auto simp: hash_shape_def sample_def array_fits_def)
  have key: "key_at ?ht 1 = 7" using ks sample_parts(1,2) by auto
  have hash: "CFBasicHashHashKey plain_env ?ht 7 = 7" by (simp add: CFBasicHashHashKey_def sample_def no_callbacks_def)
  have "probe_at 1 1 7 0 = 1" using sample_size by (simp add: probe_at_def probe_state_def probe_start_def hash_h1_def)
  then have reach: "reaches ?ht 7 1"
    unfolding reaches_def sizes sample_size by (intro exI [of _ 0]) simp
  have cells: "cells_agree plain_env pointers ?ht"
  proof (rule cells_agreeI)
    show "(bucket_keys ?ht ! i = 0 \<longleftrightarrow> bh_values ?ht ! i = 0) \<and> (bucket_keys ?ht ! i = - 1 \<longleftrightarrow> bh_values ?ht ! i = - 1)"
      if "i < length (bh_values ?ht)" for i
      using that ks by (auto simp: sample_def bucket_keys_def three_indexes)
    show "cnt_at ?ht i = 0" if "i < length (bh_values ?ht)" "i \<notin> live ?ht" "bh_counts ?ht \<noteq> None" for i
      using that cs by (auto simp: sample_live sizes numeral_3_eq_3 three_indexes) (auto simp: sample_def cnt_at_def)
    show "0 < cnt_at ?ht i \<and> cnt_at ?ht i \<le> count_max (bh_counts_width ?ht)" if "i \<in> live ?ht" "bh_counts ?ht \<noteq> None" for i
      using that cs by (auto simp: sample_live) (auto simp: sample_def cnt_at_def count_max_def)
  qed (use key hash reach sample_codes in \<open>auto simp: sample_live\<close>, auto simp: sample_def)
  have none: "{i. i < length (bh_values ?ht) \<and> bh_values ?ht ! i = - 1} = {}"
    unfolding sizes(1) by (simp add: sample_def numeral_3_eq_3 All_less_Suc)
  have "bh_used_buckets ?ht = 1" "bh_deleted ?ht = 0" "bh_callbacks ?ht = no_callbacks" by (simp_all add: sample_def)
  then show ?thesis
    using shape cells sample_size pointer_laws
    by (simp add: table_ok_def hash_wf_def sample_live none [unfolded sizes(1)] CFBasicHashGetCapacity_def sizes)
qed

lemmas sample_dictionary_ok = sample_ok [of "Some [0, 7, 0]" None, simplified]
lemmas sample_bag_ok = sample_ok [of None "Some [0, 2, 0]", simplified]

lemma sample_keeps:
  "key \<in> pointers \<Longrightarrow> \<not> is_sentinel value \<Longrightarrow> ks \<noteq> None \<or> value = key \<Longrightarrow> keeps_key plain_env pointers (sample ks cs) key value"
  by (auto simp: keeps_key_def kept_key_def kept_value_def CFBasicHashImportValue_def CFBasicHashImportKey_def calls_def sample_def
      no_callbacks_def CFBasicHashTestEqualKey_def)

lemma sample_same: "CFBasicHashTestEqualKey env (sample ks cs) = (=)"
  by (simp add: fun_eq_iff CFBasicHashTestEqualKey_def sample_def no_callbacks_def)

lemma sample_kept: "kept_value env (sample ks cs) v = v" "kept_key env (sample (Some xs) cs) key v = key"
  by (simp_all add: kept_value_def kept_key_def CFBasicHashImportValue_def CFBasicHashImportKey_def calls_def sample_def no_callbacks_def)

lemma sample_has_7:
  "has_key (CFBasicHashTestEqualKey env sample_dictionary) 7 (entries sample_dictionary)"
  "has_key (CFBasicHashTestEqualKey env sample_bag) 7 (entries sample_bag)"
  "\<not> has_key (CFBasicHashTestEqualKey env sample_dictionary) 8 (entries sample_dictionary)"
  by (simp_all add: has_key_def sample_same sample_entries)

lemma sample_room: "room_for_one (sample ks cs)"
  using capacities_end(2) by (simp add: room_for_one_def sample_def CFBasicHashGetCapacityForNumBuckets_def)

section \<open>What the operations promise\<close>

text \<open>
  C7. A search finds the bucket of the entry with an equal key: its key, value and count are those of the entry. A search for a key the
  table does not have finds a bucket of count 0, and the count of a key is that of the bucket found.
\<close>
theorem hash_find:
  assumes "table_ok env K ht" "key \<in> K"
  shows "\<exists>bkt. CFBasicHashFindBucket env ht key = Inr bkt \<and> CFBasicHashGetCountOfKey env ht key = Inr (bk_count bkt) \<and>
    (if has_key (CFBasicHashTestEqualKey env ht) key (entries ht)
     then (bk_weak_key bkt, bk_weak_value bkt, bk_count bkt) \<in># entries ht \<and> 0 < bk_count bkt \<and>
       CFBasicHashTestEqualKey env ht (bk_weak_key bkt) key
     else bk_count bkt = 0)"
proof -
  have codes: "key \<noteq> CFBasicHashSubABZero" "key \<noteq> CFBasicHashSubABOne"
    using same_key_codes [OF table_okD(2) [OF assms(1)] assms(2)] by (simp_all add: is_sentinel_def)
  note used = table_okD(6) [OF assms(1)]
  show ?thesis
    using assms
  proof (cases rule: find_cases)
    case (found p)
    then have "bh_used_buckets ht \<noteq> 0" using used by auto
    then show ?thesis
      using found live_count(1) [OF assms(1) found(1)] codes entry_members [OF found(1)]
      by (simp add: CFBasicHashFindBucket_def CFBasicHashGetCountOfKey_def entry_at_def)
  next
    case (absent d)
    then show ?thesis using codes by (simp add: CFBasicHashFindBucket_def CFBasicHashGetCountOfKey_def)
  qed
qed

theorem hash_find_witness:
  "\<exists>bkt. CFBasicHashFindBucket plain_env sample_dictionary 7 = Inr bkt \<and> CFBasicHashGetCountOfKey plain_env sample_dictionary 7 = Inr (bk_count bkt) \<and>
    (if has_key (CFBasicHashTestEqualKey plain_env sample_dictionary) 7 (entries sample_dictionary)
     then (bk_weak_key bkt, bk_weak_value bkt, bk_count bkt) \<in># entries sample_dictionary \<and> 0 < bk_count bkt \<and>
       CFBasicHashTestEqualKey plain_env sample_dictionary (bk_weak_key bkt) 7
     else bk_count bkt = 0)"
  by (rule hash_find [OF sample_dictionary_ok sample_codes(1)])

text \<open>
  C5. Adding a value for a key that is not in the table puts in exactly one new entry, with the retained key and value and count 1,
  whether or not the table had to be rehashed into a larger one; for a key that is in the table nothing changes but the count of its
  entry, in a table with counts. The table stays well-formed, is otherwise the same, and counts one mutation.
\<close>
theorem hash_add_value:
  assumes "table_ok env K ht" "bh_mutable ht" "keeps_key env K ht key value" "\<not> is_sentinel value"
    "has_key (CFBasicHashTestEqualKey env ht) key (entries ht) \<or> room_for_one ht"
  shows "\<exists>added ht' evs. CFBasicHashAddValue env ht key value = Inr (added, ht', evs) \<and> table_ok env K ht' \<and> config ht' = config ht \<and>
    bh_mutations ht' = bh_mutations ht + 1 \<and>
    entries ht' =
      (if \<not> has_key (CFBasicHashTestEqualKey env ht) key (entries ht)
       then add_mset (kept_key env ht key value, kept_value env ht value, 1) (entries ht)
       else if bh_counts ht = None then entries ht else on_key (CFBasicHashTestEqualKey env ht) key count_up (entries ht))"
  using add_cases [OF assms] by blast

theorem hash_add_value_witness:
  "\<exists>added ht' evs. CFBasicHashAddValue plain_env sample_dictionary 8 9 = Inr (added, ht', evs) \<and> table_ok plain_env pointers ht' \<and>
    entries ht' = {#(8, 9, 1), (7, 9, 1)#}"
proof -
  have mut: "bh_mutable sample_dictionary" by (simp add: sample_def)
  have keep: "keeps_key plain_env pointers sample_dictionary 8 9" by (rule sample_keeps [OF sample_codes(2,6)]) simp
  show ?thesis
    using hash_add_value [OF sample_dictionary_ok mut keep sample_codes(6) disjI2 [OF sample_room]]
    unfolding if_P [OF sample_has_7(3)] unfolding sample_kept sample_entries by blast
qed



text \<open>
  C8. Removing a key takes its entry away when its count is 1, releasing its value and key, and lowers the count otherwise; the result is
  the count before. A key that is not in the table leaves it as it was. The table stays well-formed also when the removal makes it
  smaller or rebuilds it to get rid of the places that were vacated.
\<close>
theorem hash_remove_value:
  assumes "table_ok env K ht" "bh_mutable ht" "key \<in> K"
  shows "\<exists>n ht' evs. CFBasicHashRemoveValue env ht key = Inr (n, ht', evs) \<and> table_ok env K ht' \<and> config ht' = config ht \<and>
    (\<not> has_key (CFBasicHashTestEqualKey env ht) key (entries ht) \<longrightarrow> n = 0 \<and> ht' = ht \<and> evs = []) \<and>
    (has_key (CFBasicHashTestEqualKey env ht) key (entries ht) \<longrightarrow>
       (\<exists>p \<in> live ht. CFBasicHashTestEqualKey env ht (key_at ht p) key \<and> n = cnt_at ht p \<and> evs = (if n = 1 then releases ht p else [])) \<and>
       entries ht' = (if n = 1 then without_key (CFBasicHashTestEqualKey env ht) key (entries ht)
                      else on_key (CFBasicHashTestEqualKey env ht) key count_down (entries ht)))"
  using remove_cases [OF assms] by blast

theorem hash_remove_value_witness:
  "\<exists>ht' evs. CFBasicHashRemoveValue plain_env sample_bag 7 = Inr (2, ht', evs) \<and> table_ok plain_env pointers ht' \<and>
    entries ht' = {#(7, 7, 1)#}"
proof -
  have mut: "bh_mutable sample_bag" and two: "cnt_at sample_bag 1 = 2" by (simp_all add: sample_def cnt_at_def)
  show ?thesis
    using hash_remove_value [OF sample_bag_ok mut sample_codes(1)] sample_has_7(2) two sample_live [of None "Some [0, 2, 0]"]
    by (simp only: simp_thms) (auto simp: sample_entries on_key_def sample_same count_down_def LONG_MAX_def)
qed

lemma set_capacity_keeps:
  assumes ok: "table_ok env K ht" and mut: "bh_mutable ht"
    and cap: "cap \<le> int (CFBasicHashGetCapacityForNumBuckets (if bh_fast_grow ht then 43 else 44))"
  shows "\<exists>ht' evs. CFBasicHashSetCapacity env ht cap = Inr (ht', evs) \<and> table_ok env K ht' \<and> config ht' = config ht \<and>
    entries ht' = entries ht \<and> cap \<le> int (CFBasicHashGetCapacity ht')"
proof (cases "int (bh_used_buckets ht) < cap")
  case True
  let ?ht = "ht\<lparr>bh_mutations := bh_mutations ht + 1\<rparr>" and ?n = "cap - int (bh_used_buckets ht)"
  have sum: "bh_used_buckets ?ht + nat ?n = nat cap" using True by simp
  have parts: "hash_shape ?ht" "cells_agree env K ?ht" "key_laws env ?ht K" "bh_used_buckets ?ht = card (live ?ht)"
    using table_okD [OF ok] by simp_all
  have "bh_used_buckets ?ht + nat ?n \<le> CFBasicHashGetCapacityForNumBuckets (if bh_fast_grow ?ht then 43 else 44)"
    unfolding sum using cap by simp
  then obtain ht' idx where ht': "CFBasicHashRehash env ?ht ?n = Inr (ht', [])" "rehashed env K ?ht idx ht'"
      "bh_used_buckets ?ht + nat ?n \<le> CFBasicHashGetCapacityForNumBuckets idx"
    using Rehash_resizes [OF parts table_okD(3) [OF ok], of ?n] True by auto
  have "frame ht' = frame (?ht\<lparr>bh_num_buckets_idx := idx, bh_deleted := 0\<rparr>)" using ht'(2) by (simp add: rehashed_def)
  from frameD(3) [OF this] have "bh_num_buckets_idx ht' = idx" by simp
  then have "cap \<le> int (CFBasicHashGetCapacity ht')" using ht'(3) unfolding sum by (simp add: CFBasicHashGetCapacity_def)
  moreover note keeps = rehashed_keeps [OF ht'(2), simplified]
  ultimately show ?thesis
    using ht'(1) True mut keeps table_ok_same [OF ok keeps(1,3)] by (simp add: CFBasicHashSetCapacity_def)
next
  case False
  have "bh_used_buckets ht \<le> CFBasicHashGetCapacity ht" using table_okD(1) [OF ok] by (simp add: hash_wf_def)
  then show ?thesis using False mut ok by (simp add: CFBasicHashSetCapacity_def)
qed

text \<open>
  Setting the capacity keeps the contents of the table, and leaves room for that many entries.
\<close>
theorem hash_set_capacity:
  assumes ok: "table_ok env K ht" and mut: "bh_mutable ht"
    and cap: "cap \<le> int (CFBasicHashGetCapacityForNumBuckets (if bh_fast_grow ht then 43 else 44))"
  shows "\<exists>ht' evs. CFBasicHashSetCapacity env ht cap = Inr (ht', evs) \<and> table_ok env K ht' \<and> config ht' = config ht \<and>
    entries ht' = entries ht \<and> cap \<le> int (CFBasicHashGetCapacity ht')"
  by (rule set_capacity_keeps [OF assms])

theorem hash_set_capacity_witness:
  "\<exists>ht' evs. CFBasicHashSetCapacity plain_env sample_dictionary 5 = Inr (ht', evs) \<and> table_ok plain_env pointers ht' \<and>
    config ht' = config sample_dictionary \<and> entries ht' = entries sample_dictionary \<and> 5 \<le> int (CFBasicHashGetCapacity ht')"
  by (rule hash_set_capacity [OF sample_dictionary_ok])
    (simp_all add: sample_def CFBasicHashGetCapacityForNumBuckets_def capacities_end(2))

text \<open>
  A copy of a table whose retain callbacks return what they are given has the
  contents of the original, is mutable, and differs in nothing else but the counter of mutations.
\<close>
theorem hash_copy_keeps:
  assumes ok: "table_ok env K ht" and env: "he_create env" and same: "retains_in_place env ht"
  shows "\<exists>ht' evs. CFBasicHashCreateCopy env ht = Inr (Some (ht', evs)) \<and> table_ok env K ht' \<and> entries ht' = entries ht \<and>
    bh_mutable ht' \<and> config (ht'\<lparr>bh_mutable := bh_mutable ht, bh_finalized := bh_finalized ht\<rparr>) = config ht"
proof -
  let ?ht = "ht\<lparr>bh_mutable := True, bh_finalized := False, bh_mutations := 1\<rparr>"
  obtain evs where evs: "CFBasicHashCreateCopy env ht = Inr (Some (?ht, evs))"
    using CreateCopy_copies [OF table_okD(1,3) [OF ok] env same] by blast
  have cells: "live ?ht = live ht" "key_at ?ht = key_at ht" "cnt_at ?ht = cnt_at ht" "bucket_keys ?ht = bucket_keys ht"
      "entry_at ?ht = entry_at ht" "reaches ?ht = reaches ht"
    by (simp_all add: fun_eq_iff live_def key_at_def cnt_at_def bucket_keys_def entry_at_def val_at_def reaches_def split: option.splits)
  have calls: "CFBasicHashHashKey env ?ht = CFBasicHashHashKey env ht" "CFBasicHashTestEqualKey env ?ht = CFBasicHashTestEqualKey env ht"
    using frame_callbacks(1,2) [of ?ht ht env] by simp_all
  have "hash_shape ?ht = hash_shape ht" by (simp add: hash_shape_def)
  moreover have "cells_agree env K ?ht = cells_agree env K ht"
    unfolding cells_agree_def cells calls by simp
  ultimately have "table_ok env K ?ht"
    using ok frame_callbacks(3) [of ?ht ht env K] unfolding table_ok_def hash_wf_def cells CFBasicHashGetCapacity_def by simp
  moreover have "entries ?ht = entries ht" unfolding entries_def cells ..
  moreover have "config (?ht\<lparr>bh_mutable := bh_mutable ht, bh_finalized := bh_finalized ht\<rparr>) = config ht"
    by (simp add: config_def frame_def)
  ultimately show ?thesis using evs by auto
qed

lemma sample_in_place: "retains_in_place plain_env (sample ks cs)"
  by (simp add: retains_in_place_def CFBasicHashImportValue_def CFBasicHashImportKey_def calls_def sample_def no_callbacks_def)

theorem hash_copy_keeps_witness:
  "\<exists>ht' evs. CFBasicHashCreateCopy plain_env sample_bag = Inr (Some (ht', evs)) \<and> table_ok plain_env pointers ht' \<and>
    entries ht' = entries sample_bag \<and> bh_mutable ht' \<and>
    config (ht'\<lparr>bh_mutable := bh_mutable sample_bag, bh_finalized := bh_finalized sample_bag\<rparr>) = config sample_bag"
  by (rule hash_copy_keeps [OF sample_bag_ok plain_allocates(2) sample_in_place])

text \<open>
  The count of a table is the sum of the counts of its entries; in a table without counts it is the number of entries.
\<close>
theorem hash_get_count:
  assumes "table_ok env K ht"
  shows "CFBasicHashGetCount ht = Inr (total (entries ht)) \<and> (bh_counts ht = None \<longrightarrow> total (entries ht) = size (entries ht))"
proof -
  have "total (entries ht) = size (entries ht)" if "bh_counts ht = None"
    using that GetCount_total [OF table_okD(1) [OF assms]] table_okD(6) [OF assms] by (simp add: CFBasicHashGetCount_def entries_def)
  then show ?thesis using GetCount_total [OF table_okD(1) [OF assms]] by blast
qed

theorem hash_get_count_witness:
  "CFBasicHashGetCount sample_bag = Inr (total (entries sample_bag)) \<and>
    (bh_counts sample_bag = None \<longrightarrow> total (entries sample_bag) = size (entries sample_bag))"
  by (rule hash_get_count [OF sample_bag_ok])

text \<open>
  C32. The search of a table of the right shape always returns and never reads outside an array, for any key and any callbacks: the bucket it
  names is one of the table, or none.
\<close>
theorem hash_find_in_bounds:
  assumes shape: "hash_shape ht"
  shows "\<exists>bkt. CFBasicHashFindBucket env ht key = Inr bkt \<and>
    (bk_idx bkt = kCFNotFound \<or> (0 \<le> bk_idx bkt \<and> bk_idx bkt < int (CFBasicHashGetNumBuckets ht)))"
proof -
  let ?idx = "bh_num_buckets_idx ht" and ?h = "CFBasicHashHashKey env ht key"
  let ?n = "hash_size ?idx"
  note len = shape_length [OF shape]
  have style: "bh_hash_style ht \<in> {1, 2, 3}" using shape by (simp add: hash_shape_def)
  have loop: "\<exists>bkt. find_loop env ht key ?h (probe_step (bh_hash_style ht) ?idx ?h) (probe_state (bh_hash_style ht) ?idx ?h m) d k = Inr bkt \<and>
      (bk_idx bkt = kCFNotFound \<or> (0 \<le> bk_idx bkt \<and> bk_idx bkt < int ?n))"
    if idx: "?idx \<noteq> 0" and "d = kCFNotFound \<or> (0 \<le> d \<and> d < int ?n)" for m d k
    using that(2)
  proof (induction k arbitrary: m d)
    case 0
    then show ?case by (cases "probe_state (bh_hash_style ht) ?idx ?h m") simp
  next
    case (Suc k)
    obtain p a where pa: "probe_state (bh_hash_style ht) ?idx ?h m = (p, a)" by fastforce
    have p: "p < length (bh_values ht)" using probe_path(1) [OF shape idx, of ?h m] pa by (simp add: probe_at_def)
    have step: "probe_step (bh_hash_style ht) ?idx ?h (p, a) = probe_state (bh_hash_style ht) ?idx ?h (Suc m)"
      using pa by (simp add: probe_state_Suc)
    have hashes: "\<exists>b. (case bh_hashes ht of None \<Rightarrow> Inr True | Some hashes \<Rightarrow> ebind (rd hashes p) (\<lambda>h. Inr (h = ?h))) = Inr b"
      using p len(4) by (cases "bh_hashes ht") auto
    have counts: "\<exists>c. (if bh_counts ht \<noteq> None then CFBasicHashGetSlotCount ht (int p) else Inr 1) = Inr c"
      using p len(3) by (cases "bh_counts ht") (auto simp: CFBasicHashGetSlotCount_def the_array_def)
    obtain b where b: "(case bh_hashes ht of None \<Rightarrow> Inr True | Some hashes \<Rightarrow> ebind (rd hashes p) (\<lambda>h. Inr (h = ?h))) = Inr b"
      using hashes by blast
    obtain c where c: "(if bh_counts ht \<noteq> None then CFBasicHashGetSlotCount ht (int p) else Inr 1) = Inr c" using counts by blast
    have d': "(if d = kCFNotFound then int p else d) = kCFNotFound \<or>
        (0 \<le> (if d = kCFNotFound then int p else d) \<and> (if d = kCFNotFound then int p else d) < int ?n)"
      using Suc.prems p len(1) by auto
    show ?case
      unfolding pa find_loop.simps step rd_simps(1) [OF p [folded len(2)]] ebind_simps Let_def b c GetValue_at [OF p]
      using Suc.IH [OF Suc.prems] Suc.IH [OF d'] d' p len(1) by auto
  qed
  have "\<exists>bkt. CFBasicHashFindBucket_any env ht key = Inr bkt \<and> (bk_idx bkt = kCFNotFound \<or> (0 \<le> bk_idx bkt \<and> bk_idx bkt < int ?n))"
    using style loop [of kCFNotFound 0] by (auto simp: CFBasicHashFindBucket_any_def Let_def probe_state_def)
  then show ?thesis by (simp add: CFBasicHashFindBucket_def CFBasicHashGetNumBuckets_def)
qed

theorem hash_find_in_bounds_witness:
  "\<exists>bkt. CFBasicHashFindBucket plain_env sample_dictionary 8 = Inr bkt \<and>
    (bk_idx bkt = kCFNotFound \<or> (0 \<le> bk_idx bkt \<and> bk_idx bkt < int (CFBasicHashGetNumBuckets sample_dictionary)))"
  by (rule hash_find_in_bounds [OF table_okD(4) [OF sample_dictionary_ok]])

text \<open>
  A new table with linear hashing and flags that do not contradict each other is well-formed, mutable and empty, has the callbacks it was
  given, and has keys and counts as the flags say.
\<close>
theorem hash_create_empty:
  assumes "he_create env" "\<not> flags_clash flags" "\<not> has_flag flags kCFBasicHashIndirectKeys" "unat (drop_bit 13 flags AND 3) = 1"
  shows "\<exists>ht. CFBasicHashCreate env flags cb = Inr (Some ht) \<and> hash_wf env K ht \<and> entries ht = {#} \<and> bh_callbacks ht = cb \<and>
    bh_mutable ht \<and> (bh_keys ht = None \<longleftrightarrow> \<not> has_flag flags kCFBasicHashHasKeys) \<and>
    (bh_counts ht = None \<longleftrightarrow> \<not> has_flag flags kCFBasicHashHasCounts)"
  using created_table [OF assms, of cb K] by (elim exE conjE) (intro exI conjI, assumption+)

theorem hash_create_empty_witness:
  "\<exists>ht. CFBasicHashCreate plain_env 0x2001 no_callbacks = Inr (Some ht) \<and> hash_wf plain_env pointers ht \<and> entries ht = {#} \<and>
    bh_callbacks ht = no_callbacks \<and> bh_mutable ht \<and> (bh_keys ht = None \<longleftrightarrow> \<not> has_flag 0x2001 kCFBasicHashHasKeys) \<and>
    (bh_counts ht = None \<longleftrightarrow> \<not> has_flag 0x2001 kCFBasicHashHasCounts)"
  by (rule hash_create_empty) (simp_all add: flags_clash_def has_flag_def kCFBasicHash_flag_defs)

text \<open>
  The two numbers that stand for 0 and all ones in the cells cannot be keys or values: adding, setting or replacing one stops the program,
  and so does any change to an immutable table, while no key of either number is ever found.
\<close>
theorem hash_guards_halt:
  assumes "\<not> bh_mutable ht \<or> is_sentinel key \<or> is_sentinel value"
  shows "CFBasicHashAddValue env ht key value = Inl Halt \<and> CFBasicHashSetValue env ht key value = Inl Halt \<and>
    CFBasicHashReplaceValue env ht key value = Inl Halt \<and>
    (is_sentinel key \<longrightarrow> CFBasicHashGetCountOfKey env ht key = Inr 0 \<and> CFBasicHashFindBucket env ht key = Inr (absent_bucket kCFNotFound)) \<and>
    (\<not> bh_mutable ht \<longrightarrow> CFBasicHashRemoveValue env ht key = Inl Halt \<and> CFBasicHashRemoveAllValues ht = Inl Halt \<and>
       CFBasicHashSetCapacity env ht cap = Inl Halt)"
  using assms
  by (auto simp: CFBasicHashAddValue_def CFBasicHashSetValue_def CFBasicHashReplaceValue_def CFBasicHashGetCountOfKey_def
      CFBasicHashFindBucket_def CFBasicHashRemoveValue_def CFBasicHashRemoveAllValues_def CFBasicHashSetCapacity_def is_sentinel_def)

theorem hash_guards_halt_witness:
  "CFBasicHashAddValue plain_env sample_dictionary CFBasicHashSubABZero 9 = Inl Halt \<and>
    CFBasicHashGetCountOfKey plain_env sample_dictionary CFBasicHashSubABZero = Inr 0 \<and>
    CFBasicHashRemoveValue plain_env (CFBasicHashMakeImmutable sample_dictionary) 7 = Inl Halt"
proof -
  have "\<not> bh_mutable sample_dictionary \<or> is_sentinel CFBasicHashSubABZero \<or> is_sentinel 9" by (simp add: is_sentinel_def)
  moreover have imm: "\<not> bh_mutable (CFBasicHashMakeImmutable sample_dictionary)" by (simp add: CFBasicHashMakeImmutable_def)
  ultimately show ?thesis
    using hash_guards_halt [of sample_dictionary CFBasicHashSubABZero 9 plain_env]
      hash_guards_halt [OF disjI1 [OF imm], of plain_env 7 9] by (simp add: is_sentinel_def)
qed

lemma last_bucket_absent:
  "idx + k \<le> length xs \<Longrightarrow> \<forall>i < length xs. in_use (xs ! i) \<longrightarrow> cell_decode (xs ! i) \<noteq> n \<Longrightarrow> last_bucket_with xs n d idx k = Inr d"
proof (induction k arbitrary: idx)
  case (Suc k)
  have other: "\<not> (xs ! idx \<noteq> 0 \<and> xs ! idx \<noteq> - 1 \<and> cell_decode (xs ! idx) = n)"
    using Suc.prems(1) Suc.prems(2) [rule_format, of idx] by (auto simp: in_use_def)
  show ?case using Suc.IH [of "Suc idx"] Suc.prems by (simp add: if_not_P [OF other])
qed simp

lemma renumber_returns:
  "idx + k \<le> length (bh_values ht) \<Longrightarrow> \<exists>ht'. renumber_loop ht f idx k = Inr ht' \<and> length (bh_values ht') = length (bh_values ht)"
proof (induction k arbitrary: ht idx)
  case (Suc k)
  have i: "idx < length (bh_values ht)" using Suc.prems by simp
  have go: "\<exists>ht'. renumber_loop h f (Suc idx) k = Inr ht' \<and> length (bh_values ht') = length (bh_values ht)"
    if "length (bh_values h) = length (bh_values ht)" for h using Suc.IH [of "Suc idx" h] Suc.prems that by simp
  show ?case
    using i go [of ht] go [of "bump_mutations (ht\<lparr>bh_values := (bh_values ht)[idx := cell_encode w]\<rparr>)" for w]
    by (cases "f (val_at ht idx)")
      (auto simp: CFBasicHashIsEmptyOrDeleted_def GetValue_at [OF i] SetValue_at [OF i] bump_mutations_def)
qed simp

text \<open>
  Removing a number from a numbered table that does not have it does not leave the table alone: the code goes on with bucket number all
  ones and writes outside the arrays.
\<close>
theorem hash_remove_int_absent:
  assumes "hash_shape ht" "bh_mutable ht" "\<not> is_sentinel n" "\<forall>i \<in> live ht. val_at ht i \<noteq> n"
  shows "CFBasicHashRemoveIntValueAndDec env ht n = Inl OutOfBounds"
proof -
  have len: "CFBasicHashGetNumBuckets ht = length (bh_values ht)"
    using shape_length(1) [OF assms(1)] by (simp add: CFBasicHashGetNumBuckets_def)
  have "last_bucket_with (bh_values ht) n (- 1) 0 (CFBasicHashGetNumBuckets ht) = Inr (- 1)"
    unfolding len using assms(4) by (intro last_bucket_absent) (auto simp: live_def val_at_def)
  moreover obtain ht' where "renumber_loop ht (\<lambda>v. if n < v then Some (v - 1) else None) 0 (CFBasicHashGetNumBuckets ht) = Inr ht'"
    using renumber_returns [of 0 "CFBasicHashGetNumBuckets ht" ht] len by auto
  moreover have "CFBasicHashRemoveValue_bucket env ht' (- 1) = Inl OutOfBounds"
    by (simp add: CFBasicHashRemoveValue_bucket_def CFBasicHashSetValue_cell_def rdi_def cell_index_def)
  ultimately show ?thesis using assms(2,3) by (simp add: CFBasicHashRemoveIntValueAndDec_def)
qed

theorem hash_remove_int_absent_witness: "CFBasicHashRemoveIntValueAndDec plain_env sample_dictionary 8 = Inl OutOfBounds"
  by (rule hash_remove_int_absent [OF table_okD(4) [OF sample_dictionary_ok] _ sample_codes(5)])
    (simp add: sample_def, use sample_parts(3) in \<open>simp add: sample_live entry_at_def\<close>)

text \<open>A table that is made immutable has the same contents and searches.\<close>

lemma immutable_table:
  "table_ok env K (CFBasicHashMakeImmutable ht) = table_ok env K ht" "\<not> bh_mutable (CFBasicHashMakeImmutable ht)"
  "found_entry env (CFBasicHashMakeImmutable ht) = found_entry env ht" "entries (CFBasicHashMakeImmutable ht) = entries ht"
proof -
  let ?ht = "CFBasicHashMakeImmutable ht"
  have cells: "live ?ht = live ht" "key_at ?ht = key_at ht" "cnt_at ?ht = cnt_at ht" "bucket_keys ?ht = bucket_keys ht"
      "entry_at ?ht = entry_at ht" "reaches ?ht = reaches ht"
    by (simp_all add: CFBasicHashMakeImmutable_def fun_eq_iff live_def key_at_def cnt_at_def bucket_keys_def entry_at_def val_at_def
        reaches_def split: option.splits)
  have calls: "CFBasicHashHashKey env ?ht = CFBasicHashHashKey env ht" "CFBasicHashTestEqualKey env ?ht = CFBasicHashTestEqualKey env ht"
    "key_laws env ?ht K = key_laws env ht K"
    using frame_callbacks(1,2) [of ?ht ht env] frame_callbacks(3) [of ?ht ht env K] by (simp_all add: CFBasicHashMakeImmutable_def)
  have "hash_shape ?ht = hash_shape ht" by (simp add: CFBasicHashMakeImmutable_def hash_shape_def)
  moreover have "cells_agree env K ?ht = cells_agree env K ht"
    unfolding cells_agree_def cells calls by (simp add: CFBasicHashMakeImmutable_def)
  ultimately show "table_ok env K ?ht = table_ok env K ht"
    unfolding table_ok_def hash_wf_def cells calls by (simp add: CFBasicHashMakeImmutable_def CFBasicHashGetCapacity_def)
  show "entries ?ht = entries ht" unfolding entries_def cells ..
  show "\<not> bh_mutable ?ht" by (simp add: CFBasicHashMakeImmutable_def)
  have "find_loop env ?ht key h step pr d k = find_loop env ht key h step pr d k" for key h step pr d k
  proof (induction k arbitrary: pr d)
    case 0
    then show ?case by (cases pr) simp
  next
    case (Suc k)
    have reads: "bh_indirect_keys ?ht = bh_indirect_keys ht" "bh_hashes ?ht = bh_hashes ht" "bh_counts ?ht = bh_counts ht"
      "CFBasicHashGetIndirectKey env ?ht = CFBasicHashGetIndirectKey env ht" "CFBasicHashGetValue ?ht = CFBasicHashGetValue ht"
      "CFBasicHashGetSlotCount ?ht = CFBasicHashGetSlotCount ht"
      by (simp_all add: CFBasicHashMakeImmutable_def fun_eq_iff CFBasicHashGetIndirectKey_def CFBasicHashGetValue_def CFBasicHashGetSlotCount_def)
    obtain p a where "pr = (p, a)" by fastforce
    then show ?case by (simp only: find_loop.simps Suc.IH reads cells calls)
  qed
  then show "found_entry env ?ht = found_entry env ht"
    by (simp add: fun_eq_iff found_entry_def CFBasicHashFindBucket_def CFBasicHashFindBucket_any_def calls Let_def)
      (simp add: CFBasicHashMakeImmutable_def)
qed

end
