(* ===== verification/CF_HashTemplate.thy ===== *)
theory CF_HashTemplate
  imports CF_HashSpec
begin

unbundle bit_operations_syntax

text \<open>
  The part of \<open>CFDictionary.c\<close>, \<open>CFSet.c\<close> and \<open>CFBag.c\<close> that is longer than a call to the hash table. The three
  files are generated from one template, in which macros say what the file is for: here an argument does. The functions
  take the hash table that the object is; type registration, logging, key-value observing and the hand-over to
  Objective-C objects are left out.
\<close>

section \<open>Creation\<close>

datatype container = DictionaryKind | SetKind | BagKind

record CFHashKeyCallBacks =
  kcb_version :: int
  kcb_retain :: ptr
  kcb_release :: ptr
  kcb_copyDescription :: ptr
  kcb_equal :: ptr
  kcb_hash :: ptr

record CFHashValueCallBacks =
  vcb_version :: int
  vcb_retain :: ptr
  vcb_release :: ptr
  vcb_copyDescription :: ptr
  vcb_equal :: ptr

text \<open>The addresses of the standard callbacks: \<open>__CFTypeCollectionRetain\<close>, \<open>__CFTypeCollectionRelease\<close>, \<open>CFCopyDescription\<close>, \<open>CFEqual\<close>, \<open>CFHash\<close>.\<close>

record std_callbacks =
  std_retain :: ptr
  std_release :: ptr
  std_copyDescription :: ptr
  std_equal :: ptr
  std_hash :: ptr

definition kCFTypeKeyCallBacks :: "std_callbacks \<Rightarrow> CFHashKeyCallBacks" where
  "kCFTypeKeyCallBacks std = \<lparr>kcb_version = 0, kcb_retain = std_retain std, kcb_release = std_release std,
     kcb_copyDescription = std_copyDescription std, kcb_equal = std_equal std, kcb_hash = std_hash std\<rparr>"

definition kCFTypeValueCallBacks :: "std_callbacks \<Rightarrow> CFHashValueCallBacks" where
  "kCFTypeValueCallBacks std = \<lparr>vcb_version = 0, vcb_retain = std_retain std, vcb_release = std_release std,
     vcb_copyDescription = std_copyDescription std, vcb_equal = std_equal std\<rparr>"

text \<open>A field of a structure that may not be there, as the code reads it.\<close>

definition field :: "('cb \<Rightarrow> ptr) \<Rightarrow> 'cb option \<Rightarrow> ptr" where
  "field f cb = (case cb of None \<Rightarrow> NULL | Some c \<Rightarrow> f c)"

definition kind_flags :: "container \<Rightarrow> 64 word" where
  "kind_flags kind =
     kCFBasicHashLinearHashing OR
     ((if kind = DictionaryKind then kCFBasicHashHasKeys else 0) OR (if kind = BagKind then kCFBasicHashHasCounts else 0))"

text \<open>The flags for strong memory of a collectable allocator.\<close>

definition strong_flags ::
  "std_callbacks \<Rightarrow> CFHashKeyCallBacks option \<Rightarrow> CFHashValueCallBacks option \<Rightarrow> bool \<Rightarrow> 64 word" where
  "strong_flags std keyCallBacks valueCallBacks useValueCB =
     (let plain = (case keyCallBacks of None \<Rightarrow> True | Some c \<Rightarrow> kcb_version c = 0) \<and>
            (\<not> useValueCB \<or> (case valueCallBacks of None \<Rightarrow> True | Some c \<Rightarrow> vcb_version c = 0));
          keyRetainNull = field kcb_retain keyCallBacks = NULL;
          keyReleaseNull = field kcb_release keyCallBacks = NULL;
          keyEquateNull = field kcb_equal keyCallBacks = NULL;
          keyHashNull = field kcb_hash keyCallBacks = NULL;
          keyDescribeNull = field kcb_copyDescription keyCallBacks = NULL;
          valueRetainNull = (if useValueCB then field vcb_retain valueCallBacks = NULL else keyRetainNull);
          valueReleaseNull = (if useValueCB then field vcb_release valueCallBacks = NULL else keyReleaseNull);
          valueEquateNull = (if useValueCB then field vcb_equal valueCallBacks = NULL else keyEquateNull);
          valueDescribeNull = (if useValueCB then field vcb_copyDescription valueCallBacks = NULL else keyDescribeNull);
          keyRetainStd = keyRetainNull \<or> field kcb_retain keyCallBacks = std_retain std;
          keyReleaseStd = keyReleaseNull \<or> field kcb_release keyCallBacks = std_release std;
          keyEquateStd = keyEquateNull \<or> field kcb_equal keyCallBacks = std_equal std;
          keyHashStd = keyHashNull \<or> field kcb_hash keyCallBacks = std_hash std;
          keyDescribeStd = keyDescribeNull \<or> field kcb_copyDescription keyCallBacks = std_copyDescription std;
          valueRetainStd = (if useValueCB then valueRetainNull \<or> field vcb_retain valueCallBacks = std_retain std else keyRetainStd);
          valueReleaseStd = (if useValueCB then valueReleaseNull \<or> field vcb_release valueCallBacks = std_release std else keyReleaseStd);
          valueEquateStd = (if useValueCB then valueEquateNull \<or> field vcb_equal valueCallBacks = std_equal std else keyEquateStd);
          valueDescribeStd =
            (if useValueCB then valueDescribeNull \<or> field vcb_copyDescription valueCallBacks = std_copyDescription std else keyDescribeStd);
          set_cb = plain \<and> keyRetainStd \<and> keyReleaseStd \<and> keyEquateStd \<and> keyHashStd \<and> keyDescribeStd \<and>
            valueRetainStd \<and> valueReleaseStd \<and> valueEquateStd \<and> valueDescribeStd;
          std_cb = set_cb \<and> \<not> (keyRetainNull \<or> keyReleaseNull \<or> keyEquateNull \<or> keyHashNull \<or> keyDescribeNull \<or>
            valueRetainNull \<or> valueReleaseNull \<or> valueEquateNull \<or> valueDescribeNull);
          key_retain = (if std_cb then NULL else field kcb_retain keyCallBacks);
          key_release = (if std_cb then NULL else field kcb_release keyCallBacks);
          value_retain = (if std_cb then NULL else if useValueCB then field vcb_retain valueCallBacks else key_retain);
          value_release = (if std_cb then NULL else if useValueCB then field vcb_release valueCallBacks else key_release)
      in (if std_cb \<or> value_retain \<noteq> NULL \<or> value_release \<noteq> NULL then kCFBasicHashStrongValues else 0) OR
         (if std_cb \<or> key_retain \<noteq> NULL \<or> key_release \<noteq> NULL then kCFBasicHashStrongKeys else 0))"

definition hash_callbacks ::
  "CFHashKeyCallBacks option \<Rightarrow> CFHashValueCallBacks option \<Rightarrow> bool \<Rightarrow> CFBasicHashCallbacks" where
  "hash_callbacks keyCallBacks valueCallBacks useValueCB =
     \<lparr>hcb_retainValue = (if useValueCB then field vcb_retain valueCallBacks else field kcb_retain keyCallBacks),
      hcb_retainKey = field kcb_retain keyCallBacks,
      hcb_releaseValue = (if useValueCB then field vcb_release valueCallBacks else field kcb_release keyCallBacks),
      hcb_releaseKey = field kcb_release keyCallBacks,
      hcb_equateValues = (if useValueCB then field vcb_equal valueCallBacks else field kcb_equal keyCallBacks),
      hcb_equateKeys = field kcb_equal keyCallBacks,
      hcb_hashKey = field kcb_hash keyCallBacks,
      hcb_getIndirectKey = NULL\<rparr>"

definition container_create_generic ::
  "hash_env \<Rightarrow> std_callbacks \<Rightarrow> bool \<Rightarrow> container \<Rightarrow> CFHashKeyCallBacks option \<Rightarrow> CFHashValueCallBacks option \<Rightarrow> bool \<Rightarrow>
     CFBasicHash option cf" where
  "container_create_generic env std collectable kind keyCallBacks valueCallBacks useValueCB =
     CFBasicHashCreate env
       (kind_flags kind OR (if collectable then strong_flags std keyCallBacks valueCallBacks useValueCB else 0))
       (hash_callbacks keyCallBacks valueCallBacks useValueCB)"

text \<open>Adding the values of two C arrays in order.\<close>

fun add_all :: "hash_env \<Rightarrow> CFBasicHash \<Rightarrow> ptr list \<Rightarrow> ptr list \<Rightarrow> nat \<Rightarrow> nat \<Rightarrow> (CFBasicHash \<times> ref_event list) cf" where
  "add_all env ht klist vlist idx 0 = Inr (ht, [])"
| "add_all env ht klist vlist idx (Suc n) =
     ebind (rd klist idx) (\<lambda>k.
     ebind (rd vlist idx) (\<lambda>v.
     ebind (CFBasicHashAddValue env ht k v) (\<lambda>(_, ht, evs).
     ebind (add_all env ht klist vlist (idx + 1) n) (\<lambda>(ht, rest). Inr (ht, evs @ rest)))))"

definition fill_table :: "hash_env \<Rightarrow> CFBasicHash \<Rightarrow> ptr list \<Rightarrow> ptr list \<Rightarrow> int \<Rightarrow> (CFBasicHash \<times> ref_event list) cf" where
  "fill_table env ht klist vlist numValues =
     ebind (if 0 < numValues then CFBasicHashSetCapacity env ht numValues else Inr (ht, [])) (\<lambda>(ht, evs0).
     ebind (add_all env ht klist vlist 0 (nat numValues)) (\<lambda>(ht, evs). Inr (ht, evs0 @ evs)))"

definition container_create_transfer ::
  "hash_env \<Rightarrow> std_callbacks \<Rightarrow> container \<Rightarrow> ptr list \<Rightarrow> ptr list \<Rightarrow> int \<Rightarrow> (CFBasicHash \<times> ref_event list) cf" where
  "container_create_transfer env std kind klist vlist numValues =
     ebind (CFBasicHashCreate env (kind_flags kind)
              (hash_callbacks (Some (kCFTypeKeyCallBacks std)) (Some (kCFTypeValueCallBacks std)) (kind = DictionaryKind))) (\<lambda>ht.
     case ht of
       None \<Rightarrow> Inl NullPointer
     | Some ht \<Rightarrow>
         ebind (fill_table env (CFBasicHashSuppressRC ht) klist vlist numValues) (\<lambda>(ht, evs).
         Inr (CFBasicHashMakeImmutable (CFBasicHashUnsuppressRC ht), evs)))"

definition container_create ::
  "hash_env \<Rightarrow> std_callbacks \<Rightarrow> bool \<Rightarrow> container \<Rightarrow> ptr list \<Rightarrow> ptr list \<Rightarrow> int \<Rightarrow> CFHashKeyCallBacks option \<Rightarrow>
     CFHashValueCallBacks option \<Rightarrow> (CFBasicHash \<times> ref_event list) option cf" where
  "container_create env std collectable kind klist vlist numValues keyCallBacks valueCallBacks =
     ebind (container_create_generic env std collectable kind keyCallBacks valueCallBacks (kind = DictionaryKind)) (\<lambda>ht.
     case ht of
       None \<Rightarrow> Inr None
     | Some ht \<Rightarrow>
         ebind (fill_table env ht klist vlist numValues) (\<lambda>(ht, evs). Inr (Some (CFBasicHashMakeImmutable ht, evs))))"

definition container_create_copy :: "hash_env \<Rightarrow> CFBasicHash \<Rightarrow> (CFBasicHash \<times> ref_event list) option cf" where
  "container_create_copy env other =
     ebind (CFBasicHashCreateCopy env other) (\<lambda>ht. Inr (map_option (\<lambda>(ht, evs). (CFBasicHashMakeImmutable ht, evs)) ht))"

section \<open>Reading\<close>

definition found_value :: "hash_env \<Rightarrow> CFBasicHash \<Rightarrow> ptr \<Rightarrow> ptr option cf" where
  "found_value env hc key =
     ebind (CFBasicHashFindBucket env hc key) (\<lambda>bkt. Inr (if 0 < bk_count bkt then Some (bk_weak_value bkt) else None))"

definition found_key :: "hash_env \<Rightarrow> CFBasicHash \<Rightarrow> ptr \<Rightarrow> ptr option cf" where
  "found_key env hc key =
     ebind (CFBasicHashFindBucket env hc key) (\<lambda>bkt. Inr (if 0 < bk_count bkt then Some (bk_weak_key bkt) else None))"

fun apply_times :: "('s \<Rightarrow> 's cf) \<Rightarrow> nat \<Rightarrow> 's \<Rightarrow> 's cf" where
  "apply_times f 0 s = Inr s"
| "apply_times f (Suc n) s = ebind (f s) (apply_times f n)"

text \<open>An operation of the table that returns more than the container's own.\<close>

definition forget :: "('a \<times> CFBasicHash \<times> ref_event list) cf \<Rightarrow> (CFBasicHash \<times> ref_event list) cf" where
  "forget m = ebind m (\<lambda>(_, ht, evs). Inr (ht, evs))"

section \<open>What adding in order does to a search\<close>

text \<open>What a search for \<open>key\<close> finds after one more pair has been added, from what it found before.\<close>

fun note_pair :: "(ptr \<Rightarrow> ptr \<Rightarrow> bool) \<Rightarrow> bool \<Rightarrow> ptr \<Rightarrow> ptr \<times> ptr \<Rightarrow> (ptr \<times> ptr \<times> nat) option \<Rightarrow> (ptr \<times> ptr \<times> nat) option" where
  "note_pair same counted key (k, v) r =
     (if same k key then (case r of None \<Rightarrow> Some (k, v, 1) | Some e \<Rightarrow> Some (if counted then count_up e else e)) else r)"

lemma keeps_plain:
  assumes "table_ok env K ht" "retains_in_place env ht" "key \<in> K" "\<not> is_sentinel v" "bh_keys ht = None \<Longrightarrow> v = key"
  shows "keeps_key env K ht key v" "kept_key env ht key v = key" "kept_value env ht v = v"
  using assms same_key_refl [OF table_okD(2) [OF assms(1)] assms(3)]
  by (auto simp: keeps_key_def kept_key_def kept_value_def retains_in_place_def)

lemma size_entries: "table_ok env K ht \<Longrightarrow> bh_used_buckets ht = size (entries ht)"
  using table_okD(6) by (simp add: entries_def)

lemma add_step:
  assumes ok: "table_ok env K ht" and mut: "bh_mutable ht" and plain: "retains_in_place env ht"
    and key: "key \<in> K" "\<not> is_sentinel v" "bh_keys ht = None \<Longrightarrow> v = key" and room: "room_for_one ht"
  shows "\<exists>added ht' evs. CFBasicHashAddValue env ht key v = Inr (added, ht', evs) \<and> table_ok env K ht' \<and> config ht' = config ht \<and>
    size (entries ht') \<le> size (entries ht) + 1 \<and>
    (\<forall>k' \<in> K. found_entry env ht' k' =
       note_pair (CFBasicHashTestEqualKey env ht) (bh_counts ht \<noteq> None) k' (key, v) (found_entry env ht k'))"
proof -
  let ?same = "CFBasicHashTestEqualKey env ht"
  note keep = keeps_plain [OF ok plain key]
  obtain added ht' evs where add: "CFBasicHashAddValue env ht key v = Inr (added, ht', evs)" "table_ok env K ht'" "config ht' = config ht"
      "entries ht' = (if \<not> has_key ?same key (entries ht) then add_mset (key, v, 1) (entries ht)
         else if bh_counts ht = None then entries ht else on_key ?same key count_up (entries ht))"
    using add_cases [OF ok mut keep(1) key(2)] room keep(2,3) by auto
  have same: "CFBasicHashTestEqualKey env ht' = ?same" by (rule config_callbacks(2) [OF add(3)])
  have size: "size (entries ht') \<le> size (entries ht) + 1" using add(4) by (simp add: on_key_def)
  have "found_entry env ht' k' = note_pair ?same (bh_counts ht \<noteq> None) k' (key, v) (found_entry env ht k')" if k': "k' \<in> K" for k'
  proof (cases "has_key ?same key (entries ht)")
    case False
    have "found_entry env ht k' = None" if "?same key k'"
    proof -
      have "\<not> has_key ?same k' (entries ht)"
      proof
        assume "has_key ?same k' (entries ht)"
        then obtain e where e: "e \<in># entries ht" "?same (fst e) k'" by (auto simp: has_key_def)
        have "?same (fst e) key"
          using e that hash_search.same_trans [OF ok hash_search.contents_keys [OF ok e(1)] k' key(1)] hash_search.same_sym [OF ok key(1) k'] by blast
        then show False using False e(1) by (auto simp: has_key_def)
      qed
      then show ?thesis using hash_search.search_iff [OF ok k'] by blast
    qed
    then show ?thesis
      using hash_search.search_after_add [OF ok add(2) same, of key v 1 k'] add(4) False key(1) k' by simp
  next
    case True
    have some: "found_entry env ht k' \<noteq> None" if "?same key k'"
    proof -
      obtain e where e: "e \<in># entries ht" "?same (fst e) key" using True by (auto simp: has_key_def)
      have "has_key ?same k' (entries ht)"
        using e that hash_search.same_trans [OF ok hash_search.contents_keys [OF ok e(1)] key(1) k'] by (auto simp: has_key_def)
      then show ?thesis using hash_search.search_iff [OF ok k'] by simp
    qed
    show ?thesis
    proof (cases "bh_counts ht = None")
      case False
      have up: "fst (count_up e) = fst e" for e by (cases e) (simp add: count_up_def)
      have "found_entry env ht' k' = (if ?same key k' then map_option count_up (found_entry env ht k') else found_entry env ht k')"
        using hash_search.search_after_change [OF ok add(2) same _ _ key(1) k', of count_up] add(4) True False
          hash_search.contents_keys [OF ok] up by simp
      then show ?thesis using some False by auto
    next
      case unc: True
      have "found_entry env ht' k' = found_entry env ht k'"
      proof (cases "found_entry env ht k'")
        case None
        then have "\<not> has_key ?same k' (entries ht')" using hash_search.search_iff [OF ok k'] add(4) True unc by simp
        then show ?thesis unfolding None using hash_search.search_iff [OF add(2) k', unfolded same] by blast
      next
        case (Some e)
        have "found_entry env ht' k' = Some e"
          using ok k' by (rule hash_search.search_cases)
            (use hash_search.search_present [OF add(2) k'] same Some add(4) True unc in auto)
        then show ?thesis using Some by simp
      qed
      then show ?thesis using some unc by auto
    qed
  qed
  then show ?thesis using add(1-3) size by blast
qed

lemma room_config: "config a = config b \<Longrightarrow> bh_fast_grow a = bh_fast_grow b"
  by (rule configD(6))

lemma in_place_config: "config a = config b \<Longrightarrow> retains_in_place env a = retains_in_place env b"
  using import_config(1,2) [of a b env] by (simp add: retains_in_place_def)

text \<open>The most entries a table without aggressive growth can have.\<close>

definition hash_limit :: nat where "hash_limit = CFBasicHashGetCapacityForNumBuckets 44"

lemma add_all_search:
  assumes "table_ok env K ht" "bh_mutable ht" "retains_in_place env ht" "\<not> bh_fast_grow ht"
    and "set klist \<subseteq> K" "\<forall>v \<in> set vlist. \<not> is_sentinel v" "bh_keys ht = None \<Longrightarrow> vlist = klist"
    and "idx + n = length klist" "length vlist = length klist" "size (entries ht) + n \<le> hash_limit"
  shows "\<exists>ht' evs. add_all env ht klist vlist idx n = Inr (ht', evs) \<and> table_ok env K ht' \<and> config ht' = config ht \<and>
    (\<forall>k' \<in> K. found_entry env ht' k' =
       fold (note_pair (CFBasicHashTestEqualKey env ht) (bh_counts ht \<noteq> None) k') (drop idx (zip klist vlist)) (found_entry env ht k'))"
  using assms
proof (induction n arbitrary: ht idx)
  case (Suc n)
  note P = Suc.prems
  have i: "idx < length klist" using P(8) by simp
  have k: "klist ! idx \<in> K" "\<not> is_sentinel (vlist ! idx)" "bh_keys ht = None \<Longrightarrow> vlist ! idx = klist ! idx"
    using P(5,6,7,9) i by auto
  have room: "room_for_one ht" using P(4,10) size_entries [OF P(1)] by (simp add: room_for_one_def hash_limit_def)
  obtain added ht1 evs where step: "CFBasicHashAddValue env ht (klist ! idx) (vlist ! idx) = Inr (added, ht1, evs)" "table_ok env K ht1"
      "config ht1 = config ht" "size (entries ht1) \<le> size (entries ht) + 1"
      "\<forall>k' \<in> K. found_entry env ht1 k' = note_pair (CFBasicHashTestEqualKey env ht) (bh_counts ht \<noteq> None) k' (klist ! idx, vlist ! idx) (found_entry env ht k')"
    using add_step [OF P(1-3) k room] by blast
  note C = configD(2,6,8,9) [OF step(3)]
  have plain: "retains_in_place env ht1" using P(3) in_place_config [OF step(3)] by simp
  have less: "size (entries ht1) + n \<le> hash_limit" using P(10) step(4) by simp
  obtain ht' rest where rest: "add_all env ht1 klist vlist (Suc idx) n = Inr (ht', rest)" "table_ok env K ht'" "config ht' = config ht1"
      "\<forall>k' \<in> K. found_entry env ht' k' = fold (note_pair (CFBasicHashTestEqualKey env ht1) (bh_counts ht1 \<noteq> None) k')
         (drop (Suc idx) (zip klist vlist)) (found_entry env ht1 k')"
    using Suc.IH [OF step(2) _ plain _ P(5,6) _ _ P(9) less, of "Suc idx"] C P(2,4,7,8) by (auto simp del: not_None_eq)
  have drop: "drop idx (zip klist vlist) = (klist ! idx, vlist ! idx) # drop (Suc idx) (zip klist vlist)"
    using i P(9) by (simp add: Cons_nth_drop_Suc [symmetric])
  have same: "CFBasicHashTestEqualKey env ht1 = CFBasicHashTestEqualKey env ht" by (rule config_callbacks(2) [OF step(3)])
  have "(bh_counts ht1 \<noteq> None) = (bh_counts ht \<noteq> None)" using C(4) by simp
  then have found: "\<forall>k' \<in> K. found_entry env ht' k' = fold (note_pair (CFBasicHashTestEqualKey env ht) (bh_counts ht \<noteq> None) k')
      (drop idx (zip klist vlist)) (found_entry env ht k')"
    unfolding drop using rest(4) step(5) same by simp
  have "add_all env ht klist vlist idx (Suc n) = Inr (ht', evs @ rest)" using i P(9) step(1) rest(1) by simp
  moreover have "config ht' = config ht" using rest(3) step(3) by simp
  ultimately show ?case using rest(2) found by blast
qed auto

section \<open>New containers\<close>

lemma strong_choice: "((if a then x else 0) OR (if b then y else 0) :: 64 word) \<in> {0, x, y, x OR y}"
  by auto

lemma strong_flags_values: "strong_flags std kcb vcb use \<in> {0, 0x100, 0x200, 0x300}"
  using strong_choice [of _ kCFBasicHashStrongValues _ kCFBasicHashStrongKeys]
  unfolding strong_flags_def Let_def by (simp add: kCFBasicHashStrongValues_def kCFBasicHashStrongKeys_def)

lemma container_flags:
  fixes kind :: container
  assumes "s \<in> {0, 0x100, 0x200, 0x300}"
  defines "fl \<equiv> kind_flags kind OR s"
  shows "\<not> flags_clash fl" "\<not> has_flag fl kCFBasicHashIndirectKeys" "unat (drop_bit 13 fl AND 3) = 1"
    "has_flag fl kCFBasicHashHasKeys \<longleftrightarrow> kind = DictionaryKind" "has_flag fl kCFBasicHashHasCounts \<longleftrightarrow> kind = BagKind"
    "\<not> has_flag fl kCFBasicHashAggressiveGrowth"
  using assms(1) unfolding fl_def
  by (cases kind; auto simp: kind_flags_def flags_clash_def has_flag_def kCFBasicHash_flag_defs)+

text \<open>The callbacks of a container: what they do, and when they hand on what they are given.\<close>

definition container_keys :: "hash_env \<Rightarrow> CFBasicHashCallbacks \<Rightarrow> ptr set \<Rightarrow> bool" where
  "container_keys env cb K \<longleftrightarrow>
     hashed_keys (\<lambda>a b. if hcb_equateKeys cb = NULL then a = b else he_equal env (hcb_equateKeys cb) a b)
       (\<lambda>k. if hcb_hashKey cb = NULL then k else he_hash env (hcb_hashKey cb) k) K"

definition container_same :: "hash_env \<Rightarrow> CFBasicHashCallbacks \<Rightarrow> ptr \<Rightarrow> ptr \<Rightarrow> bool" where
  "container_same env cb a b = (if hcb_equateKeys cb = NULL then a = b else he_equal env (hcb_equateKeys cb) a b)"

definition hands_on :: "hash_env \<Rightarrow> CFBasicHashCallbacks \<Rightarrow> bool" where
  "hands_on env cb \<longleftrightarrow>
     (hcb_retainValue cb = NULL \<or> (\<forall>x. he_retain env (hcb_retainValue cb) x = x)) \<and>
     (hcb_retainKey cb = NULL \<or> (\<forall>x. he_retain env (hcb_retainKey cb) x = x))"

lemma container_of_callbacks:
  assumes "bh_callbacks ht = cb"
  shows "CFBasicHashTestEqualKey env ht = container_same env cb" "key_laws env ht K \<longleftrightarrow> container_keys env cb K"
    "hands_on env cb \<Longrightarrow> retains_in_place env ht"
proof -
  show same: "CFBasicHashTestEqualKey env ht = container_same env cb"
    using assms by (auto simp: fun_eq_iff CFBasicHashTestEqualKey_def container_same_def)
  have hash: "CFBasicHashHashKey env ht = (\<lambda>k. if hcb_hashKey cb = NULL then k else he_hash env (hcb_hashKey cb) k)"
    using assms by (auto simp: fun_eq_iff CFBasicHashHashKey_def)
  show "key_laws env ht K \<longleftrightarrow> container_keys env cb K"
    unfolding key_laws_def container_keys_def same hash container_same_def ..
  show "hands_on env cb \<Longrightarrow> retains_in_place env ht"
    using assms by (auto simp: retains_in_place_def hands_on_def CFBasicHashImportValue_def CFBasicHashImportKey_def calls_def Let_def)
qed

lemma generic_container:
  assumes env: "allocates env" "he_create env" and keys: "container_keys env (hash_callbacks kcb vcb use) K"
  shows "\<exists>ht. container_create_generic env std collectable kind kcb vcb use = Inr (Some ht) \<and> table_ok env K ht \<and> bh_mutable ht \<and>
    entries ht = {#} \<and> \<not> bh_fast_grow ht \<and> bh_callbacks ht = hash_callbacks kcb vcb use \<and>
    (bh_keys ht = None \<longleftrightarrow> kind \<noteq> DictionaryKind) \<and> (bh_counts ht = None \<longleftrightarrow> kind \<noteq> BagKind)"
proof -
  let ?s = "if collectable then strong_flags std kcb vcb use else 0"
  have "?s \<in> {0, 0x100, 0x200, 0x300}" using strong_flags_values [of std kcb vcb use] by auto
  note F = container_flags [OF this, of kind]
  obtain ht where ht: "CFBasicHashCreate env (kind_flags kind OR ?s) (hash_callbacks kcb vcb use) = Inr (Some ht)" "hash_wf env K ht"
      "entries ht = {#}" "bh_callbacks ht = hash_callbacks kcb vcb use" "bh_mutable ht" "bh_keys ht = None \<longleftrightarrow> kind \<noteq> DictionaryKind"
      "bh_counts ht = None \<longleftrightarrow> kind \<noteq> BagKind" "\<not> bh_fast_grow ht"
    using created_table [OF env(2) F(1-3), of "hash_callbacks kcb vcb use" K] F(4-6) by auto
  have "table_ok env K ht" using ht(2,4) env(1) keys container_of_callbacks(2) by (simp add: table_ok_def)
  then show ?thesis using ht unfolding container_create_generic_def by (intro exI [of _ ht]) simp
qed

text \<open>A container made from C arrays: the search finds what adding the pairs in order gives.\<close>

lemma created_container:
  fixes kcb :: "CFHashKeyCallBacks option" and vcb :: "CFHashValueCallBacks option" and kind :: container
  assumes env: "allocates env" "he_create env"
  defines "cb \<equiv> hash_callbacks kcb vcb (kind = DictionaryKind)"
  assumes keys: "container_keys env cb K" and cb: "hands_on env cb"
    and pairs: "set klist \<subseteq> K" "\<forall>v \<in> set vlist. \<not> is_sentinel v" "kind \<noteq> DictionaryKind \<Longrightarrow> vlist = klist" "length vlist = length klist"
    and limit: "length klist \<le> hash_limit"
  shows "\<exists>ht evs. container_create env std collectable kind klist vlist (int (length klist)) kcb vcb = Inr (Some (ht, evs)) \<and>
    table_ok env K ht \<and> \<not> bh_mutable ht \<and>
    (\<forall>key \<in> K. found_entry env ht key = fold (note_pair (container_same env cb) (kind = BagKind) key) (zip klist vlist) None)"
proof -
  obtain h0 where h0: "container_create_generic env std collectable kind kcb vcb (kind = DictionaryKind) = Inr (Some h0)"
      "table_ok env K h0" "bh_mutable h0" "entries h0 = {#}" "\<not> bh_fast_grow h0" "bh_callbacks h0 = cb"
      "bh_keys h0 = None \<longleftrightarrow> kind \<noteq> DictionaryKind" "bh_counts h0 = None \<longleftrightarrow> kind \<noteq> BagKind"
    using generic_container [OF env keys [unfolded cb_def], of std collectable kind, folded cb_def]
    by (elim exE conjE) (rule that)
  obtain h1 evs0 where h1: "(if 0 < int (length klist) then CFBasicHashSetCapacity env h0 (int (length klist)) else Inr (h0, [])) = Inr (h1, evs0)"
      "table_ok env K h1" "config h1 = config h0" "entries h1 = {#}"
  proof (cases "0 < int (length klist)")
    case True
    have cap: "int (length klist) \<le> int (CFBasicHashGetCapacityForNumBuckets (if bh_fast_grow h0 then 43 else 44))"
      using limit h0(5) by (simp add: hash_limit_def)
    obtain h evs where "CFBasicHashSetCapacity env h0 (int (length klist)) = Inr (h, evs)" "table_ok env K h" "config h = config h0"
        "entries h = entries h0"
      using set_capacity_keeps [OF h0(2,3) cap] by (elim exE conjE) (rule that)
    then show ?thesis using that True h0(4) by simp
  next
    case False
    then show ?thesis using that h0(2,4) by simp
  qed
  note C = configD(1,2,6,8,9) [OF h1(3)]
  have plain: "retains_in_place env h1" using container_of_callbacks(3) [OF _ cb] C(1) h0(6) by simp
  obtain h2 evs where h2: "add_all env h1 klist vlist 0 (length klist) = Inr (h2, evs)" "table_ok env K h2" "config h2 = config h1"
      "\<forall>key \<in> K. found_entry env h2 key = fold (note_pair (CFBasicHashTestEqualKey env h1) (bh_counts h1 \<noteq> None) key)
         (drop 0 (zip klist vlist)) (found_entry env h1 key)"
    using add_all_search [OF h1(2) _ plain _ pairs(1,2) _ _ pairs(4), of 0 "length klist"] C h0(3,5,7) pairs(3) limit h1(4) by auto
  let ?ht = "CFBasicHashMakeImmutable h2"
  have none: "found_entry env h1 key = None" if "key \<in> K" for key
    using hash_search.search_absent [OF h1(2) that] h1(4) by (simp add: has_key_def)
  have same: "CFBasicHashTestEqualKey env h1 = container_same env cb" using container_of_callbacks(1) C(1) h0(6) by simp
  have counted: "(bh_counts h1 \<noteq> None) = (kind = BagKind)" using C(5) h0(8) by simp
  have imm: "table_ok env K ?ht" "\<not> bh_mutable ?ht" "found_entry env ?ht = found_entry env h2"
    using h2(2) by (simp_all add: immutable_table)
  have "container_create env std collectable kind klist vlist (int (length klist)) kcb vcb = Inr (Some (?ht, evs0 @ evs))"
    using h0(1) h1(1) h2(1) by (simp add: container_create_def fill_table_def)
  then show ?thesis using imm h2(4) none same counted by auto
qed

section \<open>Reading through the search\<close>

definition entry_count :: "(ptr \<times> ptr \<times> nat) option \<Rightarrow> nat" where
  "entry_count r = (case r of None \<Rightarrow> 0 | Some (k, v, c) \<Rightarrow> c)"

lemma find_bucket:
  assumes "table_ok env K ht" "key \<in> K"
  shows "\<exists>bkt. CFBasicHashFindBucket env ht key = Inr bkt \<and> CFBasicHashGetCountOfKey env ht key = Inr (bk_count bkt)"
proof -
  have "\<not> is_sentinel key" by (rule same_key_codes [OF table_okD(2) [OF assms(1)] assms(2)])
  then have codes: "key \<noteq> CFBasicHashSubABZero" "key \<noteq> CFBasicHashSubABOne" by (simp_all add: is_sentinel_def)
  show ?thesis
    using assms
  proof (cases rule: find_cases)
    case (found p)
    then have "bh_used_buckets ht \<noteq> 0" using table_okD(6) [OF assms(1)] by auto
    then show ?thesis using found(3) codes by (simp add: CFBasicHashFindBucket_def CFBasicHashGetCountOfKey_def)
  next
    case (absent d)
    then show ?thesis using codes by (simp add: CFBasicHashFindBucket_def CFBasicHashGetCountOfKey_def)
  qed
qed

lemma read_search:
  assumes "table_ok env K ht" "key \<in> K"
  shows "found_value env ht key = Inr (map_option (\<lambda>(k, v, c). v) (found_entry env ht key))"
    "CFBasicHashGetCountOfKey env ht key = Inr (entry_count (found_entry env ht key))"
  using find_bucket [OF assms] by (auto simp: found_value_def found_entry_def entry_count_def)

lemma first_noted:
  "fold (note_pair same False key) ps r =
     (case r of Some e \<Rightarrow> Some e | None \<Rightarrow> map_option (\<lambda>(k, v). (k, v, 1)) (List.find (\<lambda>(k, v). same k key) ps))"
  by (induction ps arbitrary: r) (auto split: option.splits)

lemma all_noted:
  "entry_count r + length ps < LONG_MAX \<Longrightarrow>
     entry_count (fold (note_pair same True key) ps r) = entry_count r + length (filter (\<lambda>(k, v). same k key) ps)"
proof (induction ps arbitrary: r)
  case (Cons p ps)
  obtain k v where p: "p = (k, v)" by fastforce
  have one: "entry_count (note_pair same True key p r) = entry_count r + (if same k key then 1 else 0)"
    using Cons.prems p by (auto simp: entry_count_def count_up_def split: option.splits)
  have "entry_count (note_pair same True key p r) + length ps < LONG_MAX" using Cons.prems one by (simp split: if_splits)
  then show ?case using Cons.IH [of "note_pair same True key p r"] one p by simp
qed simp

lemma found_at_live:
  assumes "table_ok env K ht" "key \<in> K" "p \<in> live ht" "CFBasicHashTestEqualKey env ht (key_at ht p) key"
  shows "found_entry env ht key = Some (entry_at ht p)"
  using found_entry_present [OF assms(1,2) entry_members [OF assms(3)]] assms(4) by (simp add: entry_at_def)

text \<open>What a search finds after a removal.\<close>

lemma search_after_remove_value:
  assumes ok: "table_ok env K ht" and mut: "bh_mutable ht" and key: "key \<in> K"
  shows "\<exists>n ht' evs. CFBasicHashRemoveValue env ht key = Inr (n, ht', evs) \<and> table_ok env K ht' \<and> config ht' = config ht \<and>
    (\<forall>k' \<in> K. found_entry env ht' k' =
       (if CFBasicHashTestEqualKey env ht key k'
        then (case found_entry env ht k' of None \<Rightarrow> None | Some e \<Rightarrow> if snd (snd e) = 1 then None else Some (count_down e))
        else found_entry env ht k'))"
proof -
  let ?same = "CFBasicHashTestEqualKey env ht"
  obtain n ht' evs where rem: "CFBasicHashRemoveValue env ht key = Inr (n, ht', evs)" "table_ok env K ht'" "config ht' = config ht"
      "\<not> has_key ?same key (entries ht) \<longrightarrow> ht' = ht"
      "has_key ?same key (entries ht) \<longrightarrow> (\<exists>p \<in> live ht. ?same (key_at ht p) key \<and> n = cnt_at ht p) \<and>
         entries ht' = (if n = 1 then without_key ?same key (entries ht) else on_key ?same key count_down (entries ht))"
    using remove_cases [OF ok mut key] by blast
  have same: "CFBasicHashTestEqualKey env ht' = ?same" by (rule config_callbacks(2) [OF rem(3)])
  have "found_entry env ht' k' = (if ?same key k'
      then (case found_entry env ht k' of None \<Rightarrow> None | Some e \<Rightarrow> if snd (snd e) = 1 then None else Some (count_down e))
      else found_entry env ht k')" if k': "k' \<in> K" for k'
  proof (cases "has_key ?same key (entries ht)")
    case False
    have "found_entry env ht k' = None" if "?same key k'"
    proof -
      have "\<not> ?same (fst e) k'" if "e \<in># entries ht" for e
        using False that \<open>?same key k'\<close> hash_search.same_sym [OF ok key k']
          hash_search.same_trans [OF ok hash_search.contents_keys [OF ok that] k' key] by (auto simp: has_key_def)
      then show ?thesis by (intro hash_search.search_absent [OF ok k']) (auto simp: has_key_def)
    qed
    then show ?thesis using rem(4) False by simp
  next
    case True
    obtain p where p: "p \<in> live ht" "?same (key_at ht p) key" "n = cnt_at ht p" using rem(5) True by blast
    have kp: "key_at ht p \<in> K" by (rule cells_agreeD(5) [OF table_okD(5) [OF ok] p(1)])
    have at: "found_entry env ht k' = Some (entry_at ht p)" if "?same key k'"
      using found_at_live [OF ok k' p(1)] hash_search.same_trans [OF ok kp key k' p(2) that] by simp
    show ?thesis
    proof (cases "n = 1")
      case True
      then have "found_entry env ht' k' = (if ?same key k' then None else found_entry env ht k')"
        using hash_search.search_after_removal [OF ok rem(2) same _ key k'] rem(5) \<open>has_key ?same key (entries ht)\<close> by simp
      then show ?thesis using at p(3) True by (auto simp: entry_at_def)
    next
      case False
      have down: "fst (count_down e) = fst e" for e by (cases e) (simp add: count_down_def)
      have "found_entry env ht' k' = (if ?same key k' then map_option count_down (found_entry env ht k') else found_entry env ht k')"
        using hash_search.search_after_change [OF ok rem(2) same _ _ key k', of count_down] rem(5) True False
          hash_search.contents_keys [OF ok] down by simp
      then show ?thesis using at p(3) False by (auto simp: entry_at_def)
    qed
  qed
  then show ?thesis using rem(1-3) by blast
qed

section \<open>Containers of pointers\<close>

lemma pointer_container:
  "hash_callbacks None None use = no_callbacks" "container_keys env no_callbacks pointers" "hands_on env no_callbacks"
  "container_same env no_callbacks = (=)"
proof -
  show "hash_callbacks None None use = no_callbacks" by (simp add: hash_callbacks_def no_callbacks_def field_def)
  show "container_keys env no_callbacks pointers"
    using container_of_callbacks(2) [of "undefined\<lparr>bh_callbacks := no_callbacks\<rparr>" no_callbacks env pointers]
      pointer_laws [of "undefined\<lparr>bh_callbacks := no_callbacks\<rparr>" env] by simp
  show "hands_on env no_callbacks" by (simp add: hands_on_def no_callbacks_def)
  show "container_same env no_callbacks = (=)" by (simp add: fun_eq_iff container_same_def no_callbacks_def)
qed

abbreviation sample_std :: std_callbacks where
  "sample_std \<equiv> \<lparr>std_retain = 1, std_release = 2, std_copyDescription = 3, std_equal = 4, std_hash = 5\<rparr>"

lemma two_pointers: "set [7, 8] \<subseteq> pointers" "\<forall>v \<in> set [8, 9]. \<not> is_sentinel v" "\<forall>v \<in> set [7, 8]. \<not> is_sentinel v" "length [7, 8 :: ptr] \<le> hash_limit"
  using sample_codes capacities_end(2) by (simp_all add: hash_limit_def CFBasicHashGetCapacityForNumBuckets_def)

end
