(* ===== verification/CF_Dictionary.thy ===== *)
theory CF_Dictionary
  imports CF_HashTemplate
begin

text \<open>
  \<open>CFDictionary.c\<close>: a hash table with keys and values.
  A call that may fail to make the object returns \<open>None\<close> for \<open>NULL\<close>.
\<close>

section \<open>Operations\<close>

definition CFDictionaryEqual :: "hash_env \<Rightarrow> CFBasicHash \<Rightarrow> CFBasicHash \<Rightarrow> bool cf" where
  "CFDictionaryEqual env cf1 cf2 = CFBasicHashesAreEqual env cf1 cf2"

definition CFDictionaryHash :: "CFBasicHash \<Rightarrow> nat cf" where
  "CFDictionaryHash cf = CFBasicHashHash cf"

definition CFDictionaryDeallocate :: "CFBasicHash \<Rightarrow> (CFBasicHash \<times> ref_event list) cf" where
  "CFDictionaryDeallocate cf = CFBasicHashDeallocate cf"

definition CFDictionaryCreateGeneric :: "hash_env \<Rightarrow> std_callbacks \<Rightarrow> bool \<Rightarrow> CFHashKeyCallBacks option \<Rightarrow> CFHashValueCallBacks option \<Rightarrow> bool \<Rightarrow> CFBasicHash option cf" where
  "CFDictionaryCreateGeneric env std collectable keyCallBacks valueCallBacks useValueCB = 
     container_create_generic env std collectable DictionaryKind keyCallBacks valueCallBacks useValueCB"

definition CFDictionaryCreateTransfer :: "hash_env \<Rightarrow> std_callbacks \<Rightarrow> ptr list \<Rightarrow> ptr list \<Rightarrow> int \<Rightarrow> (CFBasicHash \<times> ref_event list) cf" where
  "CFDictionaryCreateTransfer env std klist vlist numValues = container_create_transfer env std DictionaryKind klist vlist numValues"

definition CFDictionaryCreate :: "
  hash_env \<Rightarrow> std_callbacks \<Rightarrow> bool \<Rightarrow> ptr list \<Rightarrow> ptr list \<Rightarrow> int \<Rightarrow> CFHashKeyCallBacks option \<Rightarrow> CFHashValueCallBacks option \<Rightarrow>
     (CFBasicHash \<times> ref_event list) option cf" where
  "CFDictionaryCreate env std collectable klist vlist numValues keyCallBacks valueCallBacks = 
     container_create env std collectable DictionaryKind klist vlist numValues keyCallBacks valueCallBacks"

definition CFDictionaryCreateMutable :: "
  hash_env \<Rightarrow> std_callbacks \<Rightarrow> bool \<Rightarrow> int \<Rightarrow> CFHashKeyCallBacks option \<Rightarrow> CFHashValueCallBacks option \<Rightarrow> CFBasicHash option cf" where
  "CFDictionaryCreateMutable env std collectable capacity keyCallBacks valueCallBacks = 
     CFDictionaryCreateGeneric env std collectable keyCallBacks valueCallBacks True"

definition CFDictionaryCreateCopy :: "hash_env \<Rightarrow> CFBasicHash \<Rightarrow> (CFBasicHash \<times> ref_event list) option cf" where
  "CFDictionaryCreateCopy env other = container_create_copy env other"

definition CFDictionaryCreateMutableCopy :: "hash_env \<Rightarrow> int \<Rightarrow> CFBasicHash \<Rightarrow> (CFBasicHash \<times> ref_event list) option cf" where
  "CFDictionaryCreateMutableCopy env capacity other = CFBasicHashCreateCopy env other"

definition CFDictionaryGetCount :: "CFBasicHash \<Rightarrow> nat cf" where
  "CFDictionaryGetCount hc = CFBasicHashGetCount hc"

definition CFDictionaryGetCountOfKey :: "hash_env \<Rightarrow> CFBasicHash \<Rightarrow> ptr \<Rightarrow> nat cf" where
  "CFDictionaryGetCountOfKey env hc key = CFBasicHashGetCountOfKey env hc key"

definition CFDictionaryContainsKey :: "hash_env \<Rightarrow> CFBasicHash \<Rightarrow> ptr \<Rightarrow> bool cf" where
  "CFDictionaryContainsKey env hc key = 
     ebind (CFBasicHashGetCountOfKey env hc key) (\<lambda>c. Inr (0 < c))"

definition CFDictionaryGetValueIfPresent :: "hash_env \<Rightarrow> CFBasicHash \<Rightarrow> ptr \<Rightarrow> ptr option cf" where
  "CFDictionaryGetValueIfPresent env hc key = found_value env hc key"

definition CFDictionaryGetValue :: "hash_env \<Rightarrow> CFBasicHash \<Rightarrow> ptr \<Rightarrow> ptr cf" where
  "CFDictionaryGetValue env hc key = 
     ebind (found_value env hc key) (\<lambda>v. Inr (case v of Some x \<Rightarrow> x | None \<Rightarrow> 0))"

definition CFDictionaryGetCountOfValue :: "hash_env \<Rightarrow> CFBasicHash \<Rightarrow> ptr \<Rightarrow> nat cf" where
  "CFDictionaryGetCountOfValue env hc v = CFBasicHashGetCountOfValue env hc v"

definition CFDictionaryContainsValue :: "hash_env \<Rightarrow> CFBasicHash \<Rightarrow> ptr \<Rightarrow> bool cf" where
  "CFDictionaryContainsValue env hc v = 
     ebind (CFBasicHashGetCountOfValue env hc v) (\<lambda>c. Inr (0 < c))"

definition CFDictionaryGetKeyIfPresent :: "hash_env \<Rightarrow> CFBasicHash \<Rightarrow> ptr \<Rightarrow> ptr option cf" where
  "CFDictionaryGetKeyIfPresent env hc key = found_key env hc key"

text \<open>The key buffer and the value buffer, in the order of the buckets.\<close>

definition CFDictionaryGetKeysAndValues :: "hash_env \<Rightarrow> CFBasicHash \<Rightarrow> (ptr list \<times> ptr list) cf" where
  "CFDictionaryGetKeysAndValues env hc = 
     ebind (CFDictionaryGetCount hc) (\<lambda>n.
     ebind (CFBasicHashGetElements env hc n) (\<lambda>vks. Inr (map snd vks, map fst vks)))"

definition CFDictionaryApplyFunction :: "hash_env \<Rightarrow> CFBasicHash \<Rightarrow> (ptr \<Rightarrow> ptr \<Rightarrow> 's \<Rightarrow> 's cf) \<Rightarrow> 's \<Rightarrow> 's cf" where
  "CFDictionaryApplyFunction env hc applier s = 
     CFBasicHashApply env hc (\<lambda>bkt s. ebind (applier (bk_weak_key bkt) (bk_weak_value bkt) s) (\<lambda>s. Inr (s, True))) s"

definition CFDictionaryFastEnumeration :: "hash_env \<Rightarrow> CFBasicHash \<Rightarrow> nat \<Rightarrow> nat \<Rightarrow> (nat \<times> ptr list) cf" where
  "CFDictionaryFastEnumeration env hc state cnt = CFBasicHashFastEnumeration env hc state cnt"

definition CFDictionaryIsMutable :: "CFBasicHash \<Rightarrow> bool" where
  "CFDictionaryIsMutable hc = bh_mutable hc"

definition CFDictionarySetCapacity :: "hash_env \<Rightarrow> CFBasicHash \<Rightarrow> int \<Rightarrow> (CFBasicHash \<times> ref_event list) cf" where
  "CFDictionarySetCapacity env hc cap = CFBasicHashSetCapacity env hc cap"

definition CFDictionaryAddValue :: "hash_env \<Rightarrow> CFBasicHash \<Rightarrow> ptr \<Rightarrow> ptr \<Rightarrow> (CFBasicHash \<times> ref_event list) cf" where
  "CFDictionaryAddValue env hc key v = forget (CFBasicHashAddValue env hc key v)"

definition CFDictionaryReplaceValue :: "hash_env \<Rightarrow> CFBasicHash \<Rightarrow> ptr \<Rightarrow> ptr \<Rightarrow> (CFBasicHash \<times> ref_event list) cf" where
  "CFDictionaryReplaceValue env hc key v = CFBasicHashReplaceValue env hc key v"

definition CFDictionarySetValue :: "hash_env \<Rightarrow> CFBasicHash \<Rightarrow> ptr \<Rightarrow> ptr \<Rightarrow> (CFBasicHash \<times> ref_event list) cf" where
  "CFDictionarySetValue env hc key v = CFBasicHashSetValue env hc key v"

definition CFDictionaryRemoveValue :: "hash_env \<Rightarrow> CFBasicHash \<Rightarrow> ptr \<Rightarrow> (CFBasicHash \<times> ref_event list) cf" where
  "CFDictionaryRemoveValue env hc key = forget (CFBasicHashRemoveValue env hc key)"

definition CFDictionaryRemoveAllValues :: "CFBasicHash \<Rightarrow> (CFBasicHash \<times> ref_event list) cf" where
  "CFDictionaryRemoveAllValues hc = CFBasicHashRemoveAllValues hc"

section \<open>A dictionary maps keys to values\<close>

lemma dictionary_value:
  "table_ok env K ht \<Longrightarrow> key \<in> K \<Longrightarrow>
     CFDictionaryGetValueIfPresent env ht key = Inr (map_option (\<lambda>(k, v, c). v) (found_entry env ht key))"
  by (simp add: CFDictionaryGetValueIfPresent_def read_search(1))

lemma search_after_set_value:
  assumes ok: "table_ok env K ht" and mut: "bh_mutable ht" and keep: "keeps_key env K ht key v" "\<not> is_sentinel v" and room: "room_for_one ht"
  shows "\<exists>ht' evs. CFBasicHashSetValue env ht key v = Inr (ht', evs) \<and> table_ok env K ht' \<and> config ht' = config ht \<and>
    (\<forall>k' \<in> K. map_option (\<lambda>(k, v, c). v) (found_entry env ht' k') =
       (if CFBasicHashTestEqualKey env ht key k' then Some (kept_value env ht v) else map_option (\<lambda>(k, v, c). v) (found_entry env ht k')))"
proof -
  let ?same = "CFBasicHashTestEqualKey env ht" and ?k = "kept_key env ht key v" and ?v = "kept_value env ht v"
  have key: "key \<in> K" "?k \<in> K" "?same ?k key" using keep(1) by (simp_all add: keeps_key_def)
  obtain ht' evs where set: "CFBasicHashSetValue env ht key v = Inr (ht', evs)" "table_ok env K ht'" "config ht' = config ht"
      "entries ht' = (if has_key ?same key (entries ht) then on_key ?same key (\<lambda>e. (?k, ?v, snd (snd e))) (entries ht)
         else add_mset (?k, ?v, 1) (entries ht))"
    using set_cases [OF ok mut keep disjI2 [OF room]] by blast
  have same: "CFBasicHashTestEqualKey env ht' = ?same" by (rule config_callbacks(2) [OF set(3)])
  have "map_option (\<lambda>(k, v, c). v) (found_entry env ht' k') =
      (if ?same key k' then Some ?v else map_option (\<lambda>(k, v, c). v) (found_entry env ht k'))" if k': "k' \<in> K" for k'
  proof -
    have eq: "?same ?k k' \<longleftrightarrow> ?same key k'"
      using key k' hash_search.same_sym [OF ok] hash_search.same_trans [OF ok] by metis
    show ?thesis
    proof (cases "has_key ?same key (entries ht)")
      case False
      then show ?thesis using hash_search.search_after_add [OF ok set(2) same, of ?k ?v 1 k'] set(4) key k' eq by simp
    next
      case True
      then obtain e where e: "e \<in># entries ht" "?same (fst e) key" by (auto simp: has_key_def)
      have "found_entry env ht k' = Some e" if "?same key k'"
        using found_entry_present [OF ok k' e(1)] hash_search.same_trans [OF ok hash_search.contents_keys [OF ok e(1)] key(1) k' e(2) that] by simp
      moreover have "found_entry env ht' k' = (if ?same key k' then map_option (\<lambda>e. (?k, ?v, snd (snd e))) (found_entry env ht k')
          else found_entry env ht k')"
        using hash_search.search_after_change [OF ok set(2) same _ _ key(1) k', of "\<lambda>e. (?k, ?v, snd (snd e))"] set(4) True key by simp
      ultimately show ?thesis by simp
    qed
  qed
  then show ?thesis using set(1-3) by blast
qed

text \<open>
  C3. After a value has been set for a key, the dictionary has that value for every equal key, and for every other key what it had before.
\<close>
theorem dictionary_get_after_set:
  assumes "table_ok env K ht" "bh_mutable ht" "keeps_key env K ht key v" "\<not> is_sentinel v" "room_for_one ht"
  shows "\<exists>ht' evs. CFDictionarySetValue env ht key v = Inr (ht', evs) \<and> table_ok env K ht' \<and>
    (\<forall>k' \<in> K. CFDictionaryGetValueIfPresent env ht' k' =
       (if CFBasicHashTestEqualKey env ht key k' then Inr (Some (kept_value env ht v)) else CFDictionaryGetValueIfPresent env ht k'))"
proof -
  obtain ht' evs where set: "CFBasicHashSetValue env ht key v = Inr (ht', evs)" "table_ok env K ht'"
      "\<forall>k' \<in> K. map_option (\<lambda>(k, v, c). v) (found_entry env ht' k') =
       (if CFBasicHashTestEqualKey env ht key k' then Some (kept_value env ht v) else map_option (\<lambda>(k, v, c). v) (found_entry env ht k'))"
    using search_after_set_value [OF assms] by blast
  then show ?thesis using dictionary_value [OF assms(1)] dictionary_value [OF set(2)] by (auto simp: CFDictionarySetValue_def)
qed

theorem dictionary_get_after_set_witness:
  "\<exists>ht' evs. CFDictionarySetValue plain_env sample_dictionary 8 9 = Inr (ht', evs) \<and> table_ok plain_env pointers ht' \<and>
    CFDictionaryGetValueIfPresent plain_env ht' 8 = Inr (Some 9) \<and>
    CFDictionaryGetValueIfPresent plain_env ht' 7 = CFDictionaryGetValueIfPresent plain_env sample_dictionary 7"
proof -
  have mut: "bh_mutable sample_dictionary" by (simp add: sample_def)
  have keep: "keeps_key plain_env pointers sample_dictionary 8 9" by (rule sample_keeps [OF sample_codes(2,6)]) simp
  show ?thesis
    using dictionary_get_after_set [OF sample_dictionary_ok mut keep sample_codes(6) sample_room] sample_codes(1,2)
    by (fastforce simp: sample_same sample_kept)
qed

text \<open>
  After a key has been removed, the dictionary has no value for any equal key, and for every other key what it had before.
\<close>
theorem dictionary_remove_forgets:
  assumes "table_ok env K ht" "bh_mutable ht" "key \<in> K" "bh_counts ht = None"
  shows "\<exists>ht' evs. CFDictionaryRemoveValue env ht key = Inr (ht', evs) \<and> table_ok env K ht' \<and>
    (\<forall>k' \<in> K. CFDictionaryGetValueIfPresent env ht' k' =
       (if CFBasicHashTestEqualKey env ht key k' then Inr None else CFDictionaryGetValueIfPresent env ht k'))"
proof -
  obtain n ht' evs where rem: "CFBasicHashRemoveValue env ht key = Inr (n, ht', evs)" "table_ok env K ht'"
      "\<forall>k' \<in> K. found_entry env ht' k' =
       (if CFBasicHashTestEqualKey env ht key k'
        then (case found_entry env ht k' of None \<Rightarrow> None | Some e \<Rightarrow> if snd (snd e) = 1 then None else Some (count_down e))
        else found_entry env ht k')"
    using search_after_remove_value [OF assms(1-3)] by blast
  have one: "snd (snd e) = 1" if "found_entry env ht k' = Some e" "k' \<in> K" for e k'
  proof -
    have "e \<in># entries ht" using assms(1) that(2) by (rule hash_search.search_cases) (use that(1) in auto)
    then show ?thesis using live_count(2) [OF assms(1) _ assms(4)] by (auto simp: entries_def entry_at_def)
  qed
  have "CFDictionaryGetValueIfPresent env ht' k' =
      (if CFBasicHashTestEqualKey env ht key k' then Inr None else CFDictionaryGetValueIfPresent env ht k')" if "k' \<in> K" for k'
    using rem(3) that one [OF _ that] dictionary_value [OF assms(1) that] dictionary_value [OF rem(2) that]
    by (cases "found_entry env ht k'") auto
  then show ?thesis using rem(1,2) by (auto simp: CFDictionaryRemoveValue_def forget_def)
qed

theorem dictionary_remove_forgets_witness:
  "\<exists>ht' evs. CFDictionaryRemoveValue plain_env sample_dictionary 7 = Inr (ht', evs) \<and> table_ok plain_env pointers ht' \<and>
    CFDictionaryGetValueIfPresent plain_env ht' 7 = Inr None"
proof -
  have "bh_mutable sample_dictionary" "bh_counts sample_dictionary = None" by (simp_all add: sample_def)
  then show ?thesis
    using dictionary_remove_forgets [OF sample_dictionary_ok _ sample_codes(1)] sample_codes(1) by (fastforce simp: sample_same)
qed

text \<open>
  A dictionary made from an array of keys and one of values is immutable and has for a key the value of the first equal key of the array;
  it has none for a key that is not equal to one of the array.
\<close>
theorem dictionary_create_first:
  assumes "allocates env" "he_create env" "container_keys env (hash_callbacks kcb vcb True) K" "hands_on env (hash_callbacks kcb vcb True)"
    and "set klist \<subseteq> K" "\<forall>v \<in> set vlist. \<not> is_sentinel v" "length vlist = length klist" "length klist \<le> hash_limit"
  shows "\<exists>ht evs. CFDictionaryCreate env std collectable klist vlist (int (length klist)) kcb vcb = Inr (Some (ht, evs)) \<and>
    table_ok env K ht \<and> \<not> CFDictionaryIsMutable ht \<and>
    (\<forall>key \<in> K. CFDictionaryGetValueIfPresent env ht key =
       Inr (map_option snd (List.find (\<lambda>(k, v). container_same env (hash_callbacks kcb vcb True) k key) (zip klist vlist))))"
proof -
  obtain ht evs where ht: "container_create env std collectable DictionaryKind klist vlist (int (length klist)) kcb vcb = Inr (Some (ht, evs))"
      "table_ok env K ht" "\<not> bh_mutable ht"
      "\<forall>key \<in> K. found_entry env ht key = fold (note_pair (container_same env (hash_callbacks kcb vcb True)) False key) (zip klist vlist) None"
    using created_container [of env kcb vcb DictionaryKind K klist vlist std collectable] assms by auto
  have "CFDictionaryGetValueIfPresent env ht key =
      Inr (map_option snd (List.find (\<lambda>(k, v). container_same env (hash_callbacks kcb vcb True) k key) (zip klist vlist)))" if "key \<in> K" for key
    unfolding dictionary_value [OF ht(2) that] bspec [OF ht(4) that] first_noted
    by (simp add: option.map_comp comp_def case_prod_unfold)
  then show ?thesis using ht(1-3) by (auto simp: CFDictionaryCreate_def CFDictionaryIsMutable_def)
qed

theorem dictionary_create_first_witness:
  "\<exists>ht evs. CFDictionaryCreate plain_env sample_std False [7, 8] [8, 9] 2 None None = Inr (Some (ht, evs)) \<and>
    table_ok plain_env pointers ht \<and> \<not> CFDictionaryIsMutable ht \<and> CFDictionaryGetValueIfPresent plain_env ht 8 = Inr (Some 9)"
proof -
  have "\<exists>ht evs. CFDictionaryCreate plain_env sample_std False [7, 8] [8, 9] (int (length [7, 8 :: ptr])) None None = Inr (Some (ht, evs)) \<and>
      table_ok plain_env pointers ht \<and> \<not> CFDictionaryIsMutable ht \<and>
      (\<forall>key \<in> pointers. CFDictionaryGetValueIfPresent plain_env ht key =
         Inr (map_option snd (List.find (\<lambda>(k, v). container_same plain_env (hash_callbacks None None True) k key) (zip [7, 8] [8, 9]))))"
    by (rule dictionary_create_first)
      (simp_all only: pointer_container plain_allocates two_pointers, simp_all add: sample_codes)
  then show ?thesis using sample_codes(2) by (fastforce simp: pointer_container)
qed

end
