(* ===== verification/CF_UUID.thy ===== *)
theory CF_UUID
  imports CF_Dictionary
begin

unbundle bit_operations_syntax

text \<open>
  \<open>CFUUID.c\<close>: objects of 16 bytes, at most one for each value, which a dictionary from the address of an object's bytes to
  the object makes sure of, and their text. \<open>CFHashBytes\<close> of \<open>CFUtilities.c\<close> is the hash function of the dictionary.
  The weak set for collectable memory, the lock, and description texts are left out.
\<close>

section \<open>State\<close>

type_synonym byte = "8 word"
type_synonym unichar = "16 word"

record CFUUIDBytes =
  byte0 :: byte
  byte1 :: byte
  byte2 :: byte
  byte3 :: byte
  byte4 :: byte
  byte5 :: byte
  byte6 :: byte
  byte7 :: byte
  byte8 :: byte
  byte9 :: byte
  byte10 :: byte
  byte11 :: byte
  byte12 :: byte
  byte13 :: byte
  byte14 :: byte
  byte15 :: byte

text \<open>
  The objects there are, by their address, the dictionary, once it has been made, and the two flags that \<open>CFUUIDCreate\<close>
  remembers.
\<close>

record uuid_state =
  us_objects :: "ptr \<Rightarrow> CFUUIDBytes option"
  us_uniquedUUIDs :: "CFBasicHash option"
  us_useV1UUIDs :: bool
  us_checked :: bool

text \<open>
  What lies outside the file: the address a new object gets, or none; the address of the local variable \<open>bytes\<close>; the addresses of
  the functions in the callbacks; what the dictionary asks of its surroundings; the number in the environment variable
  \<open>CFUUIDVersionNumber\<close>; the two generators of the system; and what the array \<open>chars\<close> holds before it is filled.
\<close>

record uuid_env =
  ue_create :: "(ptr \<Rightarrow> CFUUIDBytes option) \<Rightarrow> ptr option"
  ue_stack :: ptr
  ue_isEqual :: ptr
  ue_hashBytes :: ptr
  ue_hash :: hash_env
  ue_std :: std_callbacks
  ue_version :: "nat option"
  ue_generate_time :: CFUUIDBytes
  ue_generate_random :: CFUUIDBytes
  ue_chars :: "unichar list"

section \<open>Equality and hash\<close>

definition CFisEqualUUIDBytes :: "CFUUIDBytes \<Rightarrow> CFUUIDBytes \<Rightarrow> bool" where
  "CFisEqualUUIDBytes p1 p2 \<longleftrightarrow>
     byte0 p1 = byte0 p2 \<and> byte1 p1 = byte1 p2 \<and> byte2 p1 = byte2 p2 \<and> byte3 p1 = byte3 p2 \<and>
     byte4 p1 = byte4 p2 \<and> byte5 p1 = byte5 p2 \<and> byte6 p1 = byte6 p2 \<and> byte7 p1 = byte7 p2 \<and>
     byte8 p1 = byte8 p2 \<and> byte9 p1 = byte9 p2 \<and> byte10 p1 = byte10 p2 \<and> byte11 p1 = byte11 p2 \<and>
     byte12 p1 = byte12 p2 \<and> byte13 p1 = byte13 p2 \<and> byte14 p1 = byte14 p2 \<and> byte15 p1 = byte15 p2"

definition ELF_STEP :: "byte \<Rightarrow> 32 word \<Rightarrow> 32 word" where
  "ELF_STEP B H =
     (let T1 = push_bit 4 H + ucast B;
          T2 = T1 AND 0xF0000000;
          T1 = (if T2 \<noteq> 0 then T1 XOR drop_bit 24 T2 else T1)
      in T1 AND NOT T2)"

text \<open>The loop takes four bytes at a time, and the cases of the switch fall through.\<close>

fun hash_bytes :: "byte list \<Rightarrow> 32 word \<Rightarrow> 32 word" where
  "hash_bytes (a # b # c # d # bytes) H =
     hash_bytes bytes (ELF_STEP d (ELF_STEP c (ELF_STEP b (ELF_STEP a H))))"
| "hash_bytes [a, b, c] H = ELF_STEP c (ELF_STEP b (ELF_STEP a H))"
| "hash_bytes [a, b] H = ELF_STEP b (ELF_STEP a H)"
| "hash_bytes [a] H = ELF_STEP a H"
| "hash_bytes [] H = H"

definition CFHashBytes :: "byte list \<Rightarrow> 64 word" where
  "CFHashBytes bytes = ucast (hash_bytes bytes 0)"

definition CFhashUUIDBytes :: "CFUUIDBytes \<Rightarrow> 64 word" where
  "CFhashUUIDBytes p =
     CFHashBytes [byte0 p, byte1 p, byte2 p, byte3 p, byte4 p, byte5 p, byte6 p, byte7 p,
       byte8 p, byte9 p, byte10 p, byte11 p, byte12 p, byte13 p, byte14 p, byte15 p]"

section \<open>One object for each value\<close>

text \<open>The address of \<open>uuid->_bytes\<close>, which \<open>CFRuntimeBase\<close> comes before.\<close>

definition bytes_address :: "ptr \<Rightarrow> ptr" where
  "bytes_address uuid = uuid + 16"

text \<open>The bytes at an address; the local variable \<open>bytes\<close> is there in some calls.\<close>

definition uuid_bytes_at :: "uuid_env \<Rightarrow> uuid_state \<Rightarrow> CFUUIDBytes option \<Rightarrow> ptr \<Rightarrow> CFUUIDBytes option" where
  "uuid_bytes_at env st bytes a = (if a = ue_stack env then bytes else us_objects st (a - 16))"

text \<open>What the callbacks of the dictionary do in a state; no call meets an address without a UUID there.\<close>

definition uuid_hash_env :: "uuid_env \<Rightarrow> uuid_state \<Rightarrow> CFUUIDBytes option \<Rightarrow> hash_env" where
  "uuid_hash_env env st bytes = (ue_hash env)
     \<lparr>he_equal := (\<lambda>func a b.
        if func = ue_isEqual env
        then (case uuid_bytes_at env st bytes a of None \<Rightarrow> False
              | Some p1 \<Rightarrow> (case uuid_bytes_at env st bytes b of None \<Rightarrow> False | Some p2 \<Rightarrow> CFisEqualUUIDBytes p1 p2))
        else he_equal (ue_hash env) func a b),
      he_hash := (\<lambda>func a.
        if func = ue_hashBytes env
        then (case uuid_bytes_at env st bytes a of None \<Rightarrow> 0 | Some p \<Rightarrow> CFhashUUIDBytes p)
        else he_hash (ue_hash env) func a)\<rparr>"

definition CFUUIDBytesDictionaryKeyCallBacks :: "uuid_env \<Rightarrow> CFHashKeyCallBacks" where
  "CFUUIDBytesDictionaryKeyCallBacks env =
     \<lparr>kcb_version = 0, kcb_retain = NULL, kcb_release = NULL, kcb_copyDescription = NULL,
      kcb_equal = ue_isEqual env, kcb_hash = ue_hashBytes env\<rparr>"

definition CFnonRetainedUUIDDictionaryValueCallBacks :: "uuid_env \<Rightarrow> CFHashValueCallBacks" where
  "CFnonRetainedUUIDDictionaryValueCallBacks env =
     \<lparr>vcb_version = 0, vcb_retain = NULL, vcb_release = NULL, vcb_copyDescription = std_copyDescription (ue_std env),
      vcb_equal = std_equal (ue_std env)\<rparr>"

definition CFUUIDAddUniqueUUIDHasLock ::
  "uuid_env \<Rightarrow> uuid_state \<Rightarrow> CFUUIDBytes \<Rightarrow> ptr \<Rightarrow> (uuid_state \<times> ref_event list) cf" where
  "CFUUIDAddUniqueUUIDHasLock env st bytes uuid =
     ebind (case us_uniquedUUIDs st of
              Some d \<Rightarrow> Inr (Some d)
            | None \<Rightarrow> CFDictionaryCreateMutable (uuid_hash_env env st (Some bytes)) (ue_std env) False 0
                       (Some (CFUUIDBytesDictionaryKeyCallBacks env))
                       (Some (CFnonRetainedUUIDDictionaryValueCallBacks env))) (\<lambda>d.
     case d of
       None \<Rightarrow> Inl NullPointer
     | Some d \<Rightarrow>
         ebind (CFDictionarySetValue (uuid_hash_env env st (Some bytes)) d (bytes_address uuid) uuid) (\<lambda>(d, evs).
         Inr (st\<lparr>us_uniquedUUIDs := Some d\<rparr>, evs)))"

definition CFUUIDRemoveUniqueUUIDHasLock ::
  "uuid_env \<Rightarrow> uuid_state \<Rightarrow> ptr \<Rightarrow> (uuid_state \<times> ref_event list) cf" where
  "CFUUIDRemoveUniqueUUIDHasLock env st uuid =
     (case us_uniquedUUIDs st of
        None \<Rightarrow> Inr (st, [])
      | Some d \<Rightarrow>
          ebind (CFDictionaryRemoveValue (uuid_hash_env env st None) d (bytes_address uuid)) (\<lambda>(d, evs).
          Inr (st\<lparr>us_uniquedUUIDs := Some d\<rparr>, evs)))"

definition CFUUIDGetUniquedUUIDHasLock :: "uuid_env \<Rightarrow> uuid_state \<Rightarrow> CFUUIDBytes \<Rightarrow> ptr cf" where
  "CFUUIDGetUniquedUUIDHasLock env st bytes =
     (case us_uniquedUUIDs st of
        None \<Rightarrow> Inr NULL
      | Some d \<Rightarrow> CFDictionaryGetValue (uuid_hash_env env st (Some bytes)) d (ue_stack env))"

text \<open>The object is removed from the dictionary; the runtime releases its memory after that.\<close>

definition CFUUIDDeallocate :: "uuid_env \<Rightarrow> uuid_state \<Rightarrow> ptr \<Rightarrow> (uuid_state \<times> ref_event list) cf" where
  "CFUUIDDeallocate env st uuid = CFUUIDRemoveUniqueUUIDHasLock env st uuid"

section \<open>Creation\<close>

definition CFUUIDCreateWithBytesPrimitive ::
  "uuid_env \<Rightarrow> uuid_state \<Rightarrow> CFUUIDBytes \<Rightarrow> bool \<Rightarrow> (uuid_state \<times> ptr \<times> ref_event list) cf" where
  "CFUUIDCreateWithBytesPrimitive env st bytes isConst =
     ebind (CFUUIDGetUniquedUUIDHasLock env st bytes) (\<lambda>uuid.
     if uuid = NULL then
       case ue_create env (us_objects st) of
         None \<Rightarrow> Inr (st, NULL, [])
       | Some uuid \<Rightarrow>
           ebind (CFUUIDAddUniqueUUIDHasLock env (st\<lparr>us_objects := (us_objects st)(uuid \<mapsto> bytes)\<rparr>) bytes uuid) (\<lambda>(st, evs).
           Inr (st, uuid, evs))
     else Inr (st, uuid, if isConst then [] else [Retained uuid]))"

definition CFUUIDCreate :: "uuid_env \<Rightarrow> uuid_state \<Rightarrow> (uuid_state \<times> ptr \<times> ref_event list) cf" where
  "CFUUIDCreate env st =
     (let st = (if \<not> us_checked st
                then st\<lparr>us_useV1UUIDs := us_useV1UUIDs st \<or> ue_version env = Some 1, us_checked := True\<rparr> else st);
          bytes = (if us_useV1UUIDs st then ue_generate_time env else ue_generate_random env)
      in CFUUIDCreateWithBytesPrimitive env st bytes False)"

definition CFUUIDCreateWithBytes ::
  "uuid_env \<Rightarrow> uuid_state \<Rightarrow> byte \<Rightarrow> byte \<Rightarrow> byte \<Rightarrow> byte \<Rightarrow> byte \<Rightarrow> byte \<Rightarrow> byte \<Rightarrow> byte \<Rightarrow> byte \<Rightarrow> byte \<Rightarrow> byte \<Rightarrow> byte
   \<Rightarrow> byte \<Rightarrow> byte \<Rightarrow> byte \<Rightarrow> byte \<Rightarrow> (uuid_state \<times> ptr \<times> ref_event list) cf" where
  "CFUUIDCreateWithBytes env st b0 b1 b2 b3 b4 b5 b6 b7 b8 b9 b10 b11 b12 b13 b14 b15 =
     (let bytes = \<lparr>byte0 = b0, byte1 = b1, byte2 = b2, byte3 = b3, byte4 = b4, byte5 = b5, byte6 = b6, byte7 = b7,
        byte8 = b8, byte9 = b9, byte10 = b10, byte11 = b11, byte12 = b12, byte13 = b13, byte14 = b14, byte15 = b15\<rparr>
      in CFUUIDCreateWithBytesPrimitive env st bytes False)"

definition CFUUIDGetConstantUUIDWithBytes ::
  "uuid_env \<Rightarrow> uuid_state \<Rightarrow> byte \<Rightarrow> byte \<Rightarrow> byte \<Rightarrow> byte \<Rightarrow> byte \<Rightarrow> byte \<Rightarrow> byte \<Rightarrow> byte \<Rightarrow> byte \<Rightarrow> byte \<Rightarrow> byte \<Rightarrow> byte
   \<Rightarrow> byte \<Rightarrow> byte \<Rightarrow> byte \<Rightarrow> byte \<Rightarrow> (uuid_state \<times> ptr \<times> ref_event list) cf" where
  "CFUUIDGetConstantUUIDWithBytes env st b0 b1 b2 b3 b4 b5 b6 b7 b8 b9 b10 b11 b12 b13 b14 b15 =
     (let bytes = \<lparr>byte0 = b0, byte1 = b1, byte2 = b2, byte3 = b3, byte4 = b4, byte5 = b5, byte6 = b6, byte7 = b7,
        byte8 = b8, byte9 = b9, byte10 = b10, byte11 = b11, byte12 = b12, byte13 = b13, byte14 = b14, byte15 = b15\<rparr>
      in CFUUIDCreateWithBytesPrimitive env st bytes True)"

definition CFUUIDGetUUIDBytes :: "uuid_state \<Rightarrow> ptr \<Rightarrow> CFUUIDBytes cf" where
  "CFUUIDGetUUIDBytes st uuid = (case us_objects st uuid of None \<Rightarrow> Inl NullPointer | Some bytes \<Rightarrow> Inr bytes)"

definition CFUUIDCreateFromUUIDBytes ::
  "uuid_env \<Rightarrow> uuid_state \<Rightarrow> CFUUIDBytes \<Rightarrow> (uuid_state \<times> ptr \<times> ref_event list) cf" where
  "CFUUIDCreateFromUUIDBytes env st bytes = CFUUIDCreateWithBytesPrimitive env st bytes False"

section \<open>Text\<close>

text \<open>The digits written from the highest; the callers ask for two, within what a shift of 32 bits allows.\<close>

fun intToHexChars :: "32 word \<Rightarrow> nat \<Rightarrow> unichar list" where
  "intToHexChars input 0 = []"
| "intToHexChars input (Suc digits) =
     (let shift = 4 * digits; d = 0x0F AND drop_bit shift input
      in (if d \<le> 9 then 0x30 + ucast d else 0x41 + ucast (d - 10)) # intToHexChars input digits)"

text \<open>The value of a digit, or \<open>None\<close> where the loop returns 0 at once.\<close>

definition hexCharValue :: "unichar \<Rightarrow> unichar option" where
  "hexCharValue c =
     (if 0x30 \<le> c \<and> c \<le> 0x39 then Some (c - 0x30)
      else if 0x61 \<le> c \<and> c \<le> 0x66 then Some (c - (0x61 - 10))
      else if 0x41 \<le> c \<and> c \<le> 0x46 then Some (c - (0x41 - 10)) else None)"

definition byteFromHexChars :: "unichar list \<Rightarrow> nat \<Rightarrow> byte cf" where
  "byteFromHexChars chars i =
     ebind (rd chars i) (\<lambda>c.
     case hexCharValue c of
       None \<Rightarrow> Inr 0
     | Some d \<Rightarrow>
         let result = ucast d :: byte
         in ebind (rd chars (i + 1)) (\<lambda>c.
            case hexCharValue c of None \<Rightarrow> Inr 0 | Some d \<Rightarrow> Inr (push_bit 4 result OR ucast d)))"

definition isHexChar :: "unichar \<Rightarrow> bool" where
  "isHexChar c \<longleftrightarrow> 0x30 \<le> c \<and> c \<le> 0x39 \<or> 0x61 \<le> c \<and> c \<le> 0x66 \<or> 0x41 \<le> c \<and> c \<le> 0x46"

text \<open>The loop that skips what comes before the first digit looks at the character before it looks at the index.\<close>

function skip_start :: "unichar list \<Rightarrow> nat \<Rightarrow> nat \<Rightarrow> nat cf" where
  "skip_start chars len i =
     ebind (rd chars i) (\<lambda>c. if \<not> isHexChar c \<and> i < len then skip_start chars len (i + 1) else Inr i)"
  by pat_completeness auto
termination by (relation "measure (\<lambda>(chars, len, i). len - i)") (auto simp: rd_eq_Inr)

declare skip_start.simps [simp del]

text \<open>\<open>READ_A_BYTE\<close>: the byte, which stays 0 when the text ends, and the index after it.\<close>

definition READ_A_BYTE :: "unichar list \<Rightarrow> nat \<Rightarrow> nat \<Rightarrow> (byte \<times> nat) cf" where
  "READ_A_BYTE chars len i =
     (if i + 1 < len then ebind (byteFromHexChars chars i) (\<lambda>b. Inr (b, i + 2)) else Inr (0, i))"

definition CFUUIDCreateFromString ::
  "uuid_env \<Rightarrow> uuid_state \<Rightarrow> unichar list option \<Rightarrow> (uuid_state \<times> ptr \<times> ref_event list) cf" where
  "CFUUIDCreateFromString env st uuidStr =
     (case uuidStr of
        None \<Rightarrow> Inr (st, NULL, [])
      | Some str \<Rightarrow>
          let len = (if 100 < length str then 100 else length str)
          in if len = 0 then Inr (st, NULL, [])
             else ebind (copy_into (ue_chars env) 0 (take len str)) (\<lambda>chars.
                  ebind (skip_start chars len 0) (\<lambda>i.
                  ebind (READ_A_BYTE chars len i) (\<lambda>(b0, i).
                  ebind (READ_A_BYTE chars len i) (\<lambda>(b1, i).
                  ebind (READ_A_BYTE chars len i) (\<lambda>(b2, i).
                  ebind (READ_A_BYTE chars len i) (\<lambda>(b3, i).
                  ebind (READ_A_BYTE chars len (i + 1)) (\<lambda>(b4, i).
                  ebind (READ_A_BYTE chars len i) (\<lambda>(b5, i).
                  ebind (READ_A_BYTE chars len (i + 1)) (\<lambda>(b6, i).
                  ebind (READ_A_BYTE chars len i) (\<lambda>(b7, i).
                  ebind (READ_A_BYTE chars len (i + 1)) (\<lambda>(b8, i).
                  ebind (READ_A_BYTE chars len i) (\<lambda>(b9, i).
                  ebind (READ_A_BYTE chars len (i + 1)) (\<lambda>(b10, i).
                  ebind (READ_A_BYTE chars len i) (\<lambda>(b11, i).
                  ebind (READ_A_BYTE chars len i) (\<lambda>(b12, i).
                  ebind (READ_A_BYTE chars len i) (\<lambda>(b13, i).
                  ebind (READ_A_BYTE chars len i) (\<lambda>(b14, i).
                  ebind (READ_A_BYTE chars len i) (\<lambda>(b15, i).
                  CFUUIDCreateWithBytesPrimitive env st
                    \<lparr>byte0 = b0, byte1 = b1, byte2 = b2, byte3 = b3, byte4 = b4, byte5 = b5, byte6 = b6, byte7 = b7,
                     byte8 = b8, byte9 = b9, byte10 = b10, byte11 = b11, byte12 = b12, byte13 = b13, byte14 = b14,
                     byte15 = b15\<rparr> False)))))))))))))))))))"

text \<open>
  One segment of the text: the bytes written into the buffer of 12 characters, two characters each, a dash after them but for
  the last segment, and the part of the buffer that is appended.
\<close>

fun put_segment :: "byte list \<Rightarrow> unichar list \<Rightarrow> nat \<Rightarrow> unichar list cf" where
  "put_segment [] buff i = Inr buff"
| "put_segment (b # bs) buff i = ebind (copy_into buff i (intToHexChars (ucast b) 2)) (\<lambda>buff. put_segment bs buff (i + 2))"

definition uuid_segment :: "byte list \<Rightarrow> bool \<Rightarrow> unichar list \<Rightarrow> (unichar list \<times> unichar list) cf" where
  "uuid_segment bs dash buff =
     ebind (put_segment bs buff 0) (\<lambda>buff.
     ebind (if dash then wr buff (2 * length bs) 0x2D else Inr buff) (\<lambda>buff.
     ebind (slice buff 0 (2 * length bs + (if dash then 1 else 0))) (\<lambda>out. Inr (out, buff))))"

definition CFUUIDCreateString :: "uuid_state \<Rightarrow> ptr \<Rightarrow> unichar list \<Rightarrow> unichar list cf" where
  "CFUUIDCreateString st uuid buff =
     ebind (CFUUIDGetUUIDBytes st uuid) (\<lambda>b.
     ebind (uuid_segment [byte0 b, byte1 b, byte2 b, byte3 b] True buff) (\<lambda>(s1, buff).
     ebind (uuid_segment [byte4 b, byte5 b] True buff) (\<lambda>(s2, buff).
     ebind (uuid_segment [byte6 b, byte7 b] True buff) (\<lambda>(s3, buff).
     ebind (uuid_segment [byte8 b, byte9 b] True buff) (\<lambda>(s4, buff).
     ebind (uuid_segment [byte10 b, byte11 b, byte12 b, byte13 b, byte14 b, byte15 b] False buff) (\<lambda>(s5, buff).
     Inr (s1 @ s2 @ s3 @ s4 @ s5)))))))"

end
