(* ===== verification/CF_UUIDSpec.thy ===== *)
theory CF_UUIDSpec
  imports CF_UUID
begin

unbundle bit_operations_syntax

text \<open>
  What \<open>CFUUID.c\<close> promises: there is at most one object with given bytes, and creation returns it when it is there; deallocation keeps this;
  the text of a UUID leads back to its object. The first part rests on the dictionary of \<open>CF_Dictionary\<close>, whose callbacks see the objects
  there are and a local variable.
\<close>

section \<open>Changing the surroundings of a table\<close>

lemma key_in_entries: "i \<in> live ht \<Longrightarrow> \<exists>e \<in># entries ht. fst e = key_at ht i"
  by (force simp: entries_def entry_at_def)

text \<open>A table stays well-formed when callbacks do the same as before on the keys it has.\<close>

lemma table_ok_transfer:
  assumes ok: "table_ok env K ht" and env: "allocates env'" "key_laws env' ht K'"
    and keys: "\<And>e. e \<in># entries ht \<Longrightarrow> fst e \<in> K' \<and> CFBasicHashHashKey env' ht (fst e) = CFBasicHashHashKey env ht (fst e)"
    and same: "\<And>e f. e \<in># entries ht \<Longrightarrow> f \<in># entries ht \<Longrightarrow>
      CFBasicHashTestEqualKey env' ht (fst e) (fst f) = CFBasicHashTestEqualKey env ht (fst e) (fst f)"
  shows "table_ok env' K' ht"
proof -
  have live: "key_at ht i \<in> K'" "CFBasicHashHashKey env' ht (key_at ht i) = CFBasicHashHashKey env ht (key_at ht i)" if "i \<in> live ht" for i
    using key_in_entries [OF that] keys by auto
  have eq: "CFBasicHashTestEqualKey env' ht (key_at ht i) (key_at ht j) = CFBasicHashTestEqualKey env ht (key_at ht i) (key_at ht j)"
    if "i \<in> live ht" "j \<in> live ht" for i j
    using key_in_entries [OF that(1)] key_in_entries [OF that(2)] same by metis
  have "cells_agree env' K' ht"
    using table_okD(5) [OF ok] live eq unfolding cells_agree_def by auto
  then show ?thesis using ok env by (simp add: table_ok_def hash_wf_def)
qed

section \<open>The callbacks\<close>

definition uuid_callbacks :: "uuid_env \<Rightarrow> CFBasicHashCallbacks" where
  "uuid_callbacks env = hash_callbacks (Some (CFUUIDBytesDictionaryKeyCallBacks env))
     (Some (CFnonRetainedUUIDDictionaryValueCallBacks env)) True"

lemma isEqual_iff: "CFisEqualUUIDBytes p q \<longleftrightarrow> p = q"
  by (cases p; cases q) (simp add: CFisEqualUUIDBytes_def)

text \<open>What the documentation of the system promises: memory for the dictionary, and for new objects at addresses not in use.\<close>

definition uuid_laws :: "uuid_env \<Rightarrow> bool" where
  "uuid_laws env \<longleftrightarrow>
     allocates (ue_hash env) \<and> he_create (ue_hash env) \<and> ue_isEqual env \<noteq> NULL \<and> ue_hashBytes env \<noteq> NULL \<and>
     \<not> is_sentinel (ue_stack env) \<and>
     (\<forall>m p. ue_create env m = Some p \<longrightarrow>
        m p = None \<and> p \<noteq> NULL \<and> \<not> is_sentinel p \<and> \<not> is_sentinel (bytes_address p) \<and> bytes_address p \<noteq> ue_stack env)"

lemma uuid_lawsD:
  assumes "uuid_laws env"
  shows "allocates (uuid_hash_env env st l)" "he_create (uuid_hash_env env st l)" "ue_isEqual env \<noteq> NULL" "ue_hashBytes env \<noteq> NULL"
    "\<not> is_sentinel (ue_stack env)"
  using assms by (auto simp: uuid_laws_def allocates_def uuid_hash_env_def)

lemma uuid_test:
  assumes "uuid_laws env" "bh_callbacks d = uuid_callbacks env"
  shows "CFBasicHashTestEqualKey (uuid_hash_env env st l) d a b \<longleftrightarrow>
      uuid_bytes_at env st l a \<noteq> None \<and> uuid_bytes_at env st l a = uuid_bytes_at env st l b"
    "CFBasicHashHashKey (uuid_hash_env env st l) d a =
      (case uuid_bytes_at env st l a of None \<Rightarrow> 0 | Some p \<Rightarrow> CFhashUUIDBytes p)"
  using assms uuid_lawsD(3,4) [OF assms(1)]
  by (auto simp: CFBasicHashTestEqualKey_def CFBasicHashHashKey_def uuid_callbacks_def hash_callbacks_def field_def
      CFUUIDBytesDictionaryKeyCallBacks_def uuid_hash_env_def isEqual_iff split: option.splits)

lemma uuid_key_laws:
  assumes "uuid_laws env" "bh_callbacks d = uuid_callbacks env"
    and "\<And>a. a \<in> K \<Longrightarrow> uuid_bytes_at env st l a \<noteq> None \<and> \<not> is_sentinel a"
  shows "key_laws (uuid_hash_env env st l) d K"
  unfolding key_laws_def
  by (unfold_locales) (use assms(3) in \<open>auto simp: uuid_test [OF assms(1,2)]\<close>)

lemma uuid_kept:
  assumes "bh_callbacks d = uuid_callbacks env"
  shows "kept_value e d v = v" "kept_key e d key v = (if bh_keys d = None then v else key)"
  using assms by (simp_all add: kept_value_def kept_key_def CFBasicHashImportValue_def CFBasicHashImportKey_def calls_def Let_def
      uuid_callbacks_def hash_callbacks_def field_def CFUUIDBytesDictionaryKeyCallBacks_def CFnonRetainedUUIDDictionaryValueCallBacks_def)

section \<open>The invariant\<close>

definition uuid_entries :: "(ptr \<Rightarrow> CFUUIDBytes option) \<Rightarrow> (ptr \<times> ptr \<times> nat) multiset" where
  "uuid_entries m = image_mset (\<lambda>p. (bytes_address p, p, 1)) (mset_set (dom m))"

definition uuid_dictionary :: "uuid_env \<Rightarrow> uuid_state \<Rightarrow> CFBasicHash \<Rightarrow> bool" where
  "uuid_dictionary env st d \<longleftrightarrow>
     bh_mutable d \<and> \<not> bh_fast_grow d \<and> bh_keys d \<noteq> None \<and> bh_counts d = None \<and> bh_callbacks d = uuid_callbacks env \<and>
     table_ok (uuid_hash_env env st None) (bytes_address ` dom (us_objects st)) d \<and> entries d = uuid_entries (us_objects st)"

text \<open>
  No two objects have the same bytes, no object is at an address with another meaning, and the dictionary has exactly the objects.
\<close>

definition uuid_ok :: "uuid_env \<Rightarrow> uuid_state \<Rightarrow> bool" where
  "uuid_ok env st \<longleftrightarrow>
     inj_on (us_objects st) (dom (us_objects st)) \<and>
     (\<forall>p \<in> dom (us_objects st).
        p \<noteq> NULL \<and> \<not> is_sentinel p \<and> \<not> is_sentinel (bytes_address p) \<and> bytes_address p \<noteq> ue_stack env) \<and>
     (case us_uniquedUUIDs st of None \<Rightarrow> us_objects st = Map.empty | Some d \<Rightarrow> uuid_dictionary env st d)"

definition no_uuids :: uuid_state where
  "no_uuids = \<lparr>us_objects = Map.empty, us_uniquedUUIDs = None, us_useV1UUIDs = False, us_checked = False\<rparr>"

lemma no_uuids_ok: "uuid_ok env no_uuids"
  by (simp add: uuid_ok_def no_uuids_def)

lemma mem_uuid_entries [simp]: "e \<in># uuid_entries m \<longleftrightarrow> (\<exists>p. m p \<noteq> None \<and> e = (bytes_address p, p, 1))"
  by (auto simp: uuid_entries_def)

lemma bytes_at_object: "bytes_address p \<noteq> ue_stack env \<Longrightarrow> uuid_bytes_at env st l (bytes_address p) = us_objects st p"
  by (simp add: uuid_bytes_at_def bytes_address_def)

lemma bytes_at_stack [simp]: "uuid_bytes_at env st l (ue_stack env) = l"
  by (simp add: uuid_bytes_at_def)

lemma bytes_address_inj: "inj bytes_address"
  by (simp add: inj_def bytes_address_def)

text \<open>A dictionary with these objects, seen with a local variable in play and perhaps more objects.\<close>

lemma uuid_table_transfer:
  assumes laws: "uuid_laws env" and cb: "bh_callbacks d = uuid_callbacks env"
    and ok: "table_ok (uuid_hash_env env st l) K d" "entries d = uuid_entries m"
    and apart: "\<And>p. m p \<noteq> None \<Longrightarrow> bytes_address p \<noteq> ue_stack env \<and> us_objects st p = m p \<and> us_objects st' p = m p"
    and K': "\<And>a. a \<in> K' \<Longrightarrow> uuid_bytes_at env st' l' a \<noteq> None \<and> \<not> is_sentinel a" "bytes_address ` dom m \<subseteq> K'"
  shows "table_ok (uuid_hash_env env st' l') K' d"
proof (rule table_ok_transfer [OF ok(1) uuid_lawsD(1) [OF laws] uuid_key_laws [OF laws cb K'(1)]])
  fix e assume "e \<in># entries d"
  then obtain p where p: "m p \<noteq> None" "e = (bytes_address p, p, 1)" using ok(2) by auto
  then show "fst e \<in> K' \<and> CFBasicHashHashKey (uuid_hash_env env st' l') d (fst e) = CFBasicHashHashKey (uuid_hash_env env st l) d (fst e)"
    using K'(2) apart [OF p(1)] by (auto simp: uuid_test [OF laws cb] bytes_at_object)
next
  fix e f assume "e \<in># entries d" "f \<in># entries d"
  then obtain p q where p: "m p \<noteq> None" "e = (bytes_address p, p, 1)" and q: "m q \<noteq> None" "f = (bytes_address q, q, 1)"
    using ok(2) by auto
  show "CFBasicHashTestEqualKey (uuid_hash_env env st' l') d (fst e) (fst f) = CFBasicHashTestEqualKey (uuid_hash_env env st l) d (fst e) (fst f)"
    using p q apart [OF p(1)] apart [OF q(1)] by (simp add: uuid_test [OF laws cb] bytes_at_object)
qed simp

lemma uuid_okD:
  assumes "uuid_ok env st" "us_objects st p = Some b"
  shows "p \<noteq> NULL" "\<not> is_sentinel p" "\<not> is_sentinel (bytes_address p)" "bytes_address p \<noteq> ue_stack env"
    "us_objects st q = Some b \<Longrightarrow> q = p"
  using assms unfolding uuid_ok_def inj_on_def dom_def by auto

text \<open>The dictionary is searched with the address of the local variable.\<close>

lemma get_uniqued:
  assumes laws: "uuid_laws env" and ok: "uuid_ok env st"
  shows "\<exists>p. CFUUIDGetUniquedUUIDHasLock env st b = Inr p \<and>
    (p = NULL \<and> (\<forall>q. us_objects st q \<noteq> Some b) \<or> us_objects st p = Some b)"
proof (cases "us_uniquedUUIDs st")
  case None
  then show ?thesis using ok by (simp add: uuid_ok_def CFUUIDGetUniquedUUIDHasLock_def)
next
  case (Some d)
  let ?e = "uuid_hash_env env st (Some b)" and ?K = "insert (ue_stack env) (bytes_address ` dom (us_objects st))"
  have d: "bh_callbacks d = uuid_callbacks env" "table_ok (uuid_hash_env env st None) (bytes_address ` dom (us_objects st)) d"
      "entries d = uuid_entries (us_objects st)"
    using ok Some by (simp_all add: uuid_ok_def uuid_dictionary_def)
  have T: "table_ok ?e ?K d"
    by (rule uuid_table_transfer [where m = "us_objects st", OF laws d])
      (use uuid_okD [OF ok] uuid_lawsD(5) [OF laws] in \<open>auto simp: bytes_at_object\<close>)
  have get: "CFUUIDGetUniquedUUIDHasLock env st b =
      Inr (case map_option (\<lambda>(k, v, c). v) (found_entry ?e d (ue_stack env)) of Some x \<Rightarrow> x | None \<Rightarrow> 0)"
    using dictionary_value [OF T, of "ue_stack env"] Some
    by (simp add: CFUUIDGetUniquedUUIDHasLock_def CFDictionaryGetValue_def CFDictionaryGetValueIfPresent_def)
  show ?thesis
  proof (cases "\<exists>p. us_objects st p = Some b")
    case True
    then obtain p where p: "us_objects st p = Some b" by blast
    have "found_entry ?e d (ue_stack env) = Some (bytes_address p, p, 1)"
      using found_entry_present [OF T, of "ue_stack env" "(bytes_address p, p, 1)"] p d(3) uuid_okD(4) [OF ok p]
      by (simp add: uuid_test [OF laws d(1)] bytes_at_object)
    then show ?thesis using get p by simp
  next
    case False
    have "\<not> has_key (CFBasicHashTestEqualKey ?e d) (ue_stack env) (entries d)"
      using False d(3) uuid_okD(4) [OF ok] by (auto simp: has_key_def uuid_test [OF laws d(1)] bytes_at_object)
    then have "found_entry ?e d (ue_stack env) = None" using hash_search.search_absent [OF T] by simp
    then show ?thesis using get False by simp
  qed
qed

section \<open>Creation\<close>

lemma used_entries: "finite (dom m) \<Longrightarrow> size (uuid_entries m) = card (dom m)"
  by (simp add: uuid_entries_def)

lemma uuid_entries_update:
  fixes m :: "ptr \<Rightarrow> CFUUIDBytes option"
  assumes "m p = None"
  shows "uuid_entries (m(p \<mapsto> b)) = add_mset (bytes_address p, p, 1) (uuid_entries m)"
  using assms by (simp add: uuid_entries_def domIff)

text \<open>A new object is entered in the dictionary, which is made when there is none.\<close>

lemma add_unique:
  assumes laws: "uuid_laws env" and ok: "uuid_ok env st" and new: "us_objects st p = None" "\<forall>q. us_objects st q \<noteq> Some b"
    and p: "p \<noteq> NULL" "\<not> is_sentinel p" "\<not> is_sentinel (bytes_address p)" "bytes_address p \<noteq> ue_stack env"
    and room: "card (dom (us_objects st)) < hash_limit"
  defines "st1 \<equiv> st\<lparr>us_objects := (us_objects st)(p \<mapsto> b)\<rparr>"
  shows "\<exists>st' evs. CFUUIDAddUniqueUUIDHasLock env st1 b p = Inr (st', evs) \<and> uuid_ok env st' \<and> us_objects st' = us_objects st1"
proof -
  let ?e = "uuid_hash_env env st1 (Some b)" and ?m = "us_objects st" and ?cb = "uuid_callbacks env"
  let ?K = "insert (bytes_address p) (bytes_address ` dom ?m)"
  have K: "uuid_bytes_at env st1 (Some b) a \<noteq> None \<and> \<not> is_sentinel a" if "a \<in> ?K" for a
    using that uuid_okD [OF ok] p by (auto simp: bytes_at_object st1_def)
  obtain d where d: "(case us_uniquedUUIDs st1 of Some d \<Rightarrow> Inr (Some d)
        | None \<Rightarrow> CFDictionaryCreateMutable ?e (ue_std env) False 0 (Some (CFUUIDBytesDictionaryKeyCallBacks env))
            (Some (CFnonRetainedUUIDDictionaryValueCallBacks env))) = Inr (Some d)"
      "table_ok ?e ?K d" "bh_mutable d" "entries d = uuid_entries ?m" "\<not> bh_fast_grow d" "bh_callbacks d = ?cb"
      "bh_keys d \<noteq> None" "bh_counts d = None"
  proof (cases "us_uniquedUUIDs st")
    case (Some d)
    have d: "bh_callbacks d = ?cb" "table_ok (uuid_hash_env env st None) (bytes_address ` dom ?m) d" "entries d = uuid_entries ?m"
      using ok Some by (simp_all add: uuid_ok_def uuid_dictionary_def)
    have "table_ok ?e ?K d"
      by (rule uuid_table_transfer [where m = ?m, OF laws d])
        (use K new(1) uuid_okD(4) [OF ok] in \<open>auto simp: st1_def\<close>)
    then show ?thesis using that ok Some by (simp add: uuid_ok_def uuid_dictionary_def st1_def)
  next
    case None
    have none: "?m = Map.empty" using ok None by (simp add: uuid_ok_def)
    obtain d where d: "container_create_generic ?e (ue_std env) False DictionaryKind (Some (CFUUIDBytesDictionaryKeyCallBacks env))
          (Some (CFnonRetainedUUIDDictionaryValueCallBacks env)) True = Inr (Some d)"
        "bh_mutable d" "entries d = {#}" "\<not> bh_fast_grow d" "bh_callbacks d = ?cb" "bh_keys d \<noteq> None" "bh_counts d = None"
        "table_ok ?e {} d"
      using generic_container [where kcb = "Some (CFUUIDBytesDictionaryKeyCallBacks env)" and kind = DictionaryKind and K = "{}"
          and vcb = "Some (CFnonRetainedUUIDDictionaryValueCallBacks env)" and std = "ue_std env" and collectable = False and use = True,
          OF uuid_lawsD(1,2) [OF laws], of st1 "Some b"]
      by (auto simp: uuid_callbacks_def container_keys_def hashed_keys_def)
    have "table_ok ?e ?K d"
      by (rule table_ok_transfer [OF d(8) uuid_lawsD(1) [OF laws] uuid_key_laws [OF laws d(5) K]]) (simp_all add: d(3))
    then show ?thesis
      using that [of d] d None none by (simp add: st1_def CFDictionaryCreateMutable_def CFDictionaryCreateGeneric_def uuid_entries_def)
  qed
  have keep: "keeps_key ?e ?K d (bytes_address p) p"
    using p d(7) by (auto simp: keeps_key_def uuid_kept [OF d(6)] uuid_test [OF laws d(6)] bytes_at_object st1_def)
  have room: "room_for_one d"
    using room d(5) size_entries [OF d(2)] d(4) used_entries [of ?m] by (simp add: room_for_one_def hash_limit_def)
  have unknown: "\<not> has_key (CFBasicHashTestEqualKey ?e d) (bytes_address p) (entries d)"
    using new uuid_okD(4) [OF ok] p(4) d(4)
    by (auto simp: has_key_def uuid_test [OF laws d(6)] bytes_at_object st1_def split: if_splits)
  obtain d' evs where d': "CFBasicHashSetValue ?e d (bytes_address p) p = Inr (d', evs)" "table_ok ?e ?K d'" "config d' = config d"
      "entries d' = add_mset (bytes_address p, p, 1) (entries d)"
    using set_cases [OF d(2,3) keep p(2) disjI2 [OF room]] unknown d(7) by (auto simp: uuid_kept [OF d(6)])
  note C = configD(1,2,6,8,9) [OF d'(3)]
  define st' where "st' = st1\<lparr>us_uniquedUUIDs := Some d'\<rparr>"
  have ents: "entries d' = uuid_entries (us_objects st')" using d'(4) d(4) new(1) by (simp add: st'_def st1_def uuid_entries_update)
  have cb: "bh_callbacks d' = ?cb" using C(1) d(6) by simp
  have "table_ok (uuid_hash_env env st' None) (bytes_address ` dom (us_objects st')) d'"
    by (rule uuid_table_transfer [where m = "us_objects st'", OF laws cb d'(2) ents])
      (use uuid_okD [OF ok] p in \<open>auto simp: st'_def st1_def bytes_at_object split: if_splits\<close>)
  then have "uuid_dictionary env st' d'" using C d ents by (simp add: uuid_dictionary_def)
  moreover have "inj_on (us_objects st') (dom (us_objects st'))"
    using uuid_okD(5) [OF ok] new by (auto simp: inj_on_def st'_def st1_def)
  ultimately have "uuid_ok env st'" using uuid_okD [OF ok] p by (auto simp: uuid_ok_def st'_def st1_def)
  moreover have "CFUUIDAddUniqueUUIDHasLock env st1 b p = Inr (st', evs)"
    using d(1) d'(1) by (simp add: CFUUIDAddUniqueUUIDHasLock_def CFDictionarySetValue_def st'_def)
  ultimately show ?thesis by (auto simp: st'_def)
qed

text \<open>
  C11. An object is made from bytes: when there already is one with these bytes, it is that one, retained unless it is to be a constant; otherwise it is a new one.
  Either way the other objects stay as they are, and there is exactly one object with these bytes.
\<close>
theorem uuid_unique:
  assumes "uuid_laws env" "uuid_ok env st" "ue_create env (us_objects st) = Some new" "card (dom (us_objects st)) < hash_limit"
  shows "\<exists>st' p evs. CFUUIDCreateWithBytesPrimitive env st b isConst = Inr (st', p, evs) \<and> uuid_ok env st' \<and>
    (if \<exists>q. us_objects st q = Some b
     then st' = st \<and> us_objects st p = Some b \<and> evs = (if isConst then [] else [Retained p])
     else p = new \<and> us_objects st' = (us_objects st)(p \<mapsto> b)) \<and>
    (\<forall>q. us_objects st' q = Some b \<longleftrightarrow> q = p)"
proof -
  obtain p where get: "CFUUIDGetUniquedUUIDHasLock env st b = Inr p"
      "p = NULL \<and> (\<forall>q. us_objects st q \<noteq> Some b) \<or> us_objects st p = Some b"
    using get_uniqued [OF assms(1,2)] by blast
  from get(2) show ?thesis
  proof
    assume there: "us_objects st p = Some b"
    note D = uuid_okD [OF assms(2) there]
    have "CFUUIDCreateWithBytesPrimitive env st b isConst = Inr (st, p, if isConst then [] else [Retained p])"
      using get(1) D(1) by (simp add: CFUUIDCreateWithBytesPrimitive_def)
    moreover have "\<forall>q. us_objects st q = Some b \<longleftrightarrow> q = p" using there D(5) by blast
    moreover have "\<exists>q. us_objects st q = Some b" using there by blast
    ultimately show ?thesis using assms(2) there
      by (intro exI [of _ st] exI [of _ p] exI [of _ "if isConst then [] else [Retained p]"]) (simp only: if_True simp_thms)
  next
    assume none: "p = NULL \<and> (\<forall>q. us_objects st q \<noteq> Some b)"
    have fresh: "us_objects st new = None" "new \<noteq> NULL" "\<not> is_sentinel new" "\<not> is_sentinel (bytes_address new)"
        "bytes_address new \<noteq> ue_stack env"
      using assms(1,3) by (auto simp: uuid_laws_def)
    obtain st' evs where add: "CFUUIDAddUniqueUUIDHasLock env (st\<lparr>us_objects := (us_objects st)(new \<mapsto> b)\<rparr>) b new = Inr (st', evs)"
        "uuid_ok env st'" "us_objects st' = (us_objects st)(new \<mapsto> b)"
      using add_unique [OF assms(1,2) fresh(1) _ fresh(2-5) assms(4)] none by fastforce
    have "CFUUIDCreateWithBytesPrimitive env st b isConst = Inr (st', new, evs)"
      using get(1) none assms(3) add(1) by (simp add: CFUUIDCreateWithBytesPrimitive_def)
    moreover have "\<forall>q. us_objects st' q = Some b \<longleftrightarrow> q = new" using add(3) none by simp
    moreover have "\<not> (\<exists>q. us_objects st q = Some b)" using none by simp
    ultimately show ?thesis using add(2,3) by (intro exI [of _ st'] exI [of _ new] exI [of _ evs]) (simp only: if_False simp_thms)
  qed
qed

text \<open>An object that goes away is removed from the dictionary, and the next one with its bytes is a new one.\<close>

lemma uuid_entries_forget:
  assumes ok: "uuid_ok env st" and p: "us_objects st p = Some b"
  shows "filter_mset (\<lambda>e. \<not> (uuid_bytes_at env st None (fst e) \<noteq> None \<and>
      uuid_bytes_at env st None (fst e) = uuid_bytes_at env st None (bytes_address p))) (uuid_entries (us_objects st)) =
    uuid_entries ((us_objects st)(p := None))"
proof -
  let ?m = "us_objects st"
  have "{q \<in> dom ?m. \<not> (uuid_bytes_at env st None (bytes_address q) \<noteq> None \<and>
      uuid_bytes_at env st None (bytes_address q) = uuid_bytes_at env st None (bytes_address p))} = dom (?m(p := None))"
    using uuid_okD(4,5) [OF ok] p by (auto simp: bytes_at_object)
  then show ?thesis by (simp add: uuid_entries_def filter_mset_image_mset filter_mset_mset_set comp_def del: dom_fun_upd)
qed

theorem uuid_deallocate:
  assumes laws: "uuid_laws env" and ok: "uuid_ok env st" and p: "us_objects st p = Some b"
  shows "\<exists>st' evs. CFUUIDDeallocate env st p = Inr (st', evs) \<and> us_objects st' = us_objects st \<and>
    uuid_ok env (st'\<lparr>us_objects := (us_objects st)(p := None)\<rparr>)"
proof -
  let ?e = "uuid_hash_env env st None" and ?K = "bytes_address ` dom (us_objects st)"
  obtain d where d: "us_uniquedUUIDs st = Some d"
    using ok p by (cases "us_uniquedUUIDs st") (auto simp: uuid_ok_def)
  then have D: "bh_callbacks d = uuid_callbacks env" "table_ok ?e ?K d" "entries d = uuid_entries (us_objects st)"
      "bh_mutable d" "\<not> bh_fast_grow d" "bh_keys d \<noteq> None" "bh_counts d = None"
    using ok by (simp_all add: uuid_ok_def uuid_dictionary_def)
  have has: "has_key (CFBasicHashTestEqualKey ?e d) (bytes_address p) (entries d)"
    using p D(3) uuid_okD(4) [OF ok p] unfolding has_key_def
    by (intro bexI [of _ "(bytes_address p, p, 1)"]) (simp_all add: uuid_test [OF laws D(1)] bytes_at_object)
  obtain n d' evs where rem: "CFBasicHashRemoveValue ?e d (bytes_address p) = Inr (n, d', evs)" "table_ok ?e ?K d'" "config d' = config d"
      "\<exists>i \<in> live d. n = cnt_at d i"
      "entries d' = (if n = 1 then without_key (CFBasicHashTestEqualKey ?e d) (bytes_address p) (entries d)
         else on_key (CFBasicHashTestEqualKey ?e d) (bytes_address p) count_down (entries d))"
    using remove_cases [OF D(2,4), of "bytes_address p"] has p by (auto simp: domI)
  have one: "n = 1" using rem(4) D(7) by (auto simp: cnt_at_def)
  note C = configD(1,2,6,8,9) [OF rem(3)]
  define st' where "st' = st\<lparr>us_uniquedUUIDs := Some d'\<rparr>"
  let ?st = "st'\<lparr>us_objects := (us_objects st)(p := None)\<rparr>"
  have ents: "entries d' = uuid_entries (us_objects ?st)"
    using rem(5) one D(3) uuid_entries_forget [OF ok p] by (simp add: without_key_def uuid_test [OF laws D(1)])
  have cb: "bh_callbacks d' = uuid_callbacks env" using C(1) D(1) by simp
  have "table_ok (uuid_hash_env env ?st None) (bytes_address ` dom (us_objects ?st)) d'"
    by (rule uuid_table_transfer [where m = "us_objects ?st", OF laws cb rem(2) ents])
      (use uuid_okD [OF ok] in \<open>auto simp: st'_def bytes_at_object split: if_splits\<close>)
  then have "uuid_dictionary env ?st d'" using C D ents by (simp add: uuid_dictionary_def)
  moreover have "inj_on (us_objects ?st) (dom (us_objects ?st))"
    using uuid_okD(5) [OF ok] by (auto simp: inj_on_def)
  ultimately have "uuid_ok env ?st" using uuid_okD [OF ok] by (auto simp: uuid_ok_def st'_def)
  moreover have "CFUUIDDeallocate env st p = Inr (st', evs)"
    using d rem(1) by (simp add: CFUUIDDeallocate_def CFUUIDRemoveUniqueUUIDHasLock_def CFDictionaryRemoveValue_def forget_def st'_def)
  ultimately show ?thesis by (intro exI [of _ st'] exI [of _ evs]) (simp add: st'_def)
qed

section \<open>Text\<close>

definition hex_char :: "32 word \<Rightarrow> unichar" where
  "hex_char d = (if d \<le> 9 then 0x30 + ucast d else 0x41 + ucast (d - 10))"

text \<open>The same digit, perhaps with a small letter for a capital one.\<close>

definition same_digit :: "unichar \<Rightarrow> unichar \<Rightarrow> bool" where
  "same_digit c e \<longleftrightarrow> c = e \<or> 0x41 \<le> e \<and> e \<le> 0x46 \<and> c = e + 0x20"

lemma nibble_cases:
  fixes d :: "32 word"
  assumes "d \<le> 15"
  shows "d \<in> {0, 1, 2, 3, 4, 5, 6, 7, 8, 9, 10, 11, 12, 13, 14, 15}"
proof -
  have "unat d < 16" using assms by (simp add: word_le_nat_alt)
  then have "unat d = 0 \<or> unat d = 1 \<or> unat d = 2 \<or> unat d = 3 \<or> unat d = 4 \<or> unat d = 5 \<or> unat d = 6 \<or> unat d = 7 \<or>
      unat d = 8 \<or> unat d = 9 \<or> unat d = 10 \<or> unat d = 11 \<or> unat d = 12 \<or> unat d = 13 \<or> unat d = 14 \<or> unat d = 15"
    by presburger
  then show ?thesis by (simp add: word_unat_eq_iff)
qed

lemma hex_value:
  assumes "d \<le> 15" "same_digit c (hex_char d)"
  shows "hexCharValue c = Some (ucast d)" "isHexChar c"
proof -
  have "hexCharValue c = Some (ucast d) \<and> isHexChar c"
    using nibble_cases [OF assms(1)] assms(2)
    by (elim insertE emptyE; simp add: same_digit_def hex_char_def; auto simp: hexCharValue_def isHexChar_def)
  then show "hexCharValue c = Some (ucast d)" "isHexChar c" by simp_all
qed

definition hex_pair :: "byte \<Rightarrow> unichar list" where
  "hex_pair b = [hex_char (15 AND drop_bit 4 (ucast b)), hex_char (15 AND ucast b)]"

lemma int_to_hex [simp]: "intToHexChars (ucast b) 2 = hex_pair b"
  by (simp add: hex_pair_def hex_char_def Let_def numeral_2_eq_2)

lemma bit_15: "bit (15 :: 'a::len word) n \<longleftrightarrow> n < 4 \<and> n < LENGTH('a)"
  using bit_mask_iff [of 4 n, where 'a = "'a word"] by (auto simp: mask_eq_exp_minus_1)

lemma bit_15_int: "bit (15 :: int) n \<longleftrightarrow> n < 4"
  using bit_mask_iff [of 4 n, where 'a = int] by (simp add: mask_eq_exp_minus_1)

lemma bit_15_nat: "bit (15 :: nat) n \<longleftrightarrow> n < 4"
  using bit_mask_iff [of 4 n, where 'a = nat] by (simp add: mask_eq_exp_minus_1)

lemma nibbles:
  fixes b :: byte
  defines "hi \<equiv> 15 AND drop_bit 4 (ucast b) :: 32 word" and "lo \<equiv> 15 AND ucast b :: 32 word"
  shows "hi \<le> 15" "lo \<le> 15" "push_bit 4 (ucast (ucast hi :: unichar)) OR ucast (ucast lo :: unichar) = b"
proof -
  show "hi \<le> 15" "lo \<le> 15" unfolding hi_def lo_def by (rule word_and_le2)+
  show "push_bit 4 (ucast (ucast hi :: unichar)) OR ucast (ucast lo :: unichar) = b"
    by (rule bit_eqI) (auto simp: hi_def lo_def bit_simps bit_15 bit_15_int bit_15_nat)
qed

text \<open>Two characters that are the digits of a byte are read as that byte.\<close>

lemma read_pair:
  assumes "list_all2 same_digit [c, e] (hex_pair b)" "i + 1 < len" "len \<le> length chars" "chars ! i = c" "chars ! (i + 1) = e"
  shows "READ_A_BYTE chars len i = Inr (b, i + 2)"
proof -
  have d: "hexCharValue c = Some (ucast (15 AND drop_bit 4 (ucast b) :: 32 word))" "hexCharValue e = Some (ucast (15 AND ucast b :: 32 word))"
    using assms(1) hex_value(1) [OF nibbles(1)] hex_value(1) [OF nibbles(2)] by (simp_all add: hex_pair_def)
  have "byteFromHexChars chars i = Inr b"
    using assms(2-5) d nibbles(3) [of b] by (simp add: byteFromHexChars_def Let_def)
  then show ?thesis using assms(2) by (simp add: READ_A_BYTE_def)
qed

definition uuid_text :: "CFUUIDBytes \<Rightarrow> unichar list" where
  "uuid_text b =
     hex_pair (byte0 b) @ hex_pair (byte1 b) @ hex_pair (byte2 b) @ hex_pair (byte3 b) @ [0x2D] @
     hex_pair (byte4 b) @ hex_pair (byte5 b) @ [0x2D] @ hex_pair (byte6 b) @ hex_pair (byte7 b) @ [0x2D] @
     hex_pair (byte8 b) @ hex_pair (byte9 b) @ [0x2D] @
     hex_pair (byte10 b) @ hex_pair (byte11 b) @ hex_pair (byte12 b) @ hex_pair (byte13 b) @ hex_pair (byte14 b) @ hex_pair (byte15 b)"

lemma length_hex_pair [simp]: "length (hex_pair b) = 2"
  by (simp add: hex_pair_def)

lemma put_segment_text:
  "i + 2 * length bs \<le> length buff \<Longrightarrow>
     put_segment bs buff i = Inr (take i buff @ concat (map hex_pair bs) @ drop (i + 2 * length bs) buff)"
proof (induction bs arbitrary: buff i)
  case (Cons b bs)
  let ?buff = "take i buff @ hex_pair b @ drop (i + 2) buff"
  have "copy_into buff i (intToHexChars (ucast b) 2) = Inr ?buff" using Cons.prems by (simp add: copy_into_def)
  moreover have "put_segment bs ?buff (i + 2) =
      Inr (take (i + 2) ?buff @ concat (map hex_pair bs) @ drop (i + 2 + 2 * length bs) ?buff)"
    using Cons.prems by (intro Cons.IH) simp
  ultimately show ?case using Cons.prems by (simp add: algebra_simps)
qed simp

lemma uuid_segment_text:
  assumes "2 * length bs + (if dash then 1 else 0) \<le> length buff"
  shows "\<exists>buff'. uuid_segment bs dash buff = Inr (concat (map hex_pair bs) @ (if dash then [0x2D] else []), buff') \<and>
    length buff' = length buff"
proof -
  let ?h = "concat (map hex_pair bs)"
  have len: "length ?h = 2 * length bs" by (simp add: length_concat comp_def sum_list_triv)
  have put: "put_segment bs buff 0 = Inr (?h @ drop (2 * length bs) buff)"
    using put_segment_text [of 0 bs buff] assms by simp
  show ?thesis
  proof (cases dash)
    case True
    then have "\<exists>x rest. drop (2 * length bs) buff = x # rest" using assms by (cases "drop (2 * length bs) buff") auto
    then obtain x rest where rest: "drop (2 * length bs) buff = x # rest" by blast
    then have "length (drop (2 * length bs) buff) = Suc (length rest)" by (simp only: list.size add_0_right add_Suc_right)
    then have "length buff = 2 * length bs + Suc (length rest)" by simp
    then show ?thesis using True put rest len by (simp add: uuid_segment_def slice_def list_update_append)
  next
    case False
    then show ?thesis using put len assms by (simp add: uuid_segment_def slice_def)
  qed
qed

lemma create_string:
  assumes "us_objects st p = Some b" "length buff = 12"
  shows "CFUUIDCreateString st p buff = Inr (uuid_text b)"
proof -
  have seg: "\<exists>buff'. uuid_segment bs dash buff = Inr (concat (map hex_pair bs) @ (if dash then [0x2D] else []), buff') \<and> length buff' = 12"
    if "length buff = 12" "length bs \<le> 5 \<or> length bs \<le> 6 \<and> \<not> dash" for bs dash and buff :: "unichar list"
    using uuid_segment_text [of bs dash buff] that by auto
  obtain f1 where f1: "uuid_segment [byte0 b, byte1 b, byte2 b, byte3 b] True buff =
      Inr (concat (map hex_pair [byte0 b, byte1 b, byte2 b, byte3 b]) @ [0x2D], f1)" "length f1 = 12"
    using seg [OF assms(2), of "[byte0 b, byte1 b, byte2 b, byte3 b]" True] by auto
  obtain f2 where f2: "uuid_segment [byte4 b, byte5 b] True f1 = Inr (concat (map hex_pair [byte4 b, byte5 b]) @ [0x2D], f2)" "length f2 = 12"
    using seg [OF f1(2), of "[byte4 b, byte5 b]" True] by auto
  obtain f3 where f3: "uuid_segment [byte6 b, byte7 b] True f2 = Inr (concat (map hex_pair [byte6 b, byte7 b]) @ [0x2D], f3)" "length f3 = 12"
    using seg [OF f2(2), of "[byte6 b, byte7 b]" True] by auto
  obtain f4 where f4: "uuid_segment [byte8 b, byte9 b] True f3 = Inr (concat (map hex_pair [byte8 b, byte9 b]) @ [0x2D], f4)" "length f4 = 12"
    using seg [OF f3(2), of "[byte8 b, byte9 b]" True] by auto
  obtain f5 where f5: "uuid_segment [byte10 b, byte11 b, byte12 b, byte13 b, byte14 b, byte15 b] False f4 =
      Inr (concat (map hex_pair [byte10 b, byte11 b, byte12 b, byte13 b, byte14 b, byte15 b]), f5)"
    using seg [OF f4(2), of "[byte10 b, byte11 b, byte12 b, byte13 b, byte14 b, byte15 b]" False] by auto
  show ?thesis
    using assms(1) f1(1) f2(1) f3(1) f4(1) f5(1) by (simp add: CFUUIDCreateString_def CFUUIDGetUUIDBytes_def uuid_text_def)
qed

text \<open>The start that is skipped.\<close>

lemma skip_start_to:
  assumes "i \<le> n" "n < length chars" "n \<le> len" "\<forall>k. i \<le> k \<and> k < n \<longrightarrow> \<not> isHexChar (chars ! k)" "isHexChar (chars ! n) \<or> n = len"
  shows "skip_start chars len i = Inr n"
  using assms
proof (induction "n - i" arbitrary: i)
  case 0
  then show ?case by (subst skip_start.simps) auto
next
  case (Suc m)
  then have "skip_start chars len (i + 1) = Inr n" "\<not> isHexChar (chars ! i)" by simp_all
  then show ?case using Suc.hyps(2) Suc.prems by (subst skip_start.simps) simp
qed

lemma skip_start_out:
  assumes "\<forall>k < len. \<not> isHexChar (chars ! k)" "length chars = len" "i \<le> len"
  shows "skip_start chars len i = Inl OutOfBounds"
  using assms(3)
proof (induction "len - i" arbitrary: i)
  case 0
  then show ?case using assms(2) by (subst skip_start.simps) simp
next
  case (Suc m)
  then have "skip_start chars len (i + 1) = Inl OutOfBounds" by simp
  then show ?case using Suc.hyps(2) Suc.prems assms by (subst skip_start.simps) simp
qed

text \<open>Reading the text of a UUID, in either case, from a place in the array.\<close>

lemma length_uuid_text [simp]: "length (uuid_text b) = 36"
  by (simp add: uuid_text_def)

lemma read_at:
  assumes t: "list_all2 same_digit t (uuid_text b)" and len: "length junk + 36 \<le> len" "len \<le> length (junk @ t @ rest)"
    and k: "take 2 (drop k (uuid_text b)) = hex_pair v" "k + 2 \<le> 36"
  shows "READ_A_BYTE (junk @ t @ rest) len (length junk + k) = Inr (v, length junk + (k + 2))"
proof -
  have lt: "length t = 36" using list_all2_lengthD [OF t] by simp
  have "take 2 (drop k t) = [t ! k, t ! (k + 1)]"
    using k(2) lt by (intro nth_equalityI) (auto simp: less_Suc_eq numeral_2_eq_2)
  moreover have "list_all2 same_digit (take 2 (drop k t)) (hex_pair v)"
    unfolding k(1) [symmetric] using t by (intro list_all2_takeI list_all2_dropI)
  ultimately have "list_all2 same_digit [t ! k, t ! (k + 1)] (hex_pair v)" by simp
  then have "READ_A_BYTE (junk @ t @ rest) len (length junk + k) = Inr (v, length junk + k + 2)"
    by (rule read_pair) (use len k(2) lt in \<open>simp_all add: nth_append\<close>)
  then show ?thesis by (simp add: add.assoc)
qed

lemma uuid_places:
  "take 2 (drop 0 (uuid_text b)) = hex_pair (byte0 b)" "take 2 (drop 2 (uuid_text b)) = hex_pair (byte1 b)"
  "take 2 (drop 4 (uuid_text b)) = hex_pair (byte2 b)" "take 2 (drop 6 (uuid_text b)) = hex_pair (byte3 b)"
  "take 2 (drop 9 (uuid_text b)) = hex_pair (byte4 b)" "take 2 (drop 11 (uuid_text b)) = hex_pair (byte5 b)"
  "take 2 (drop 14 (uuid_text b)) = hex_pair (byte6 b)" "take 2 (drop 16 (uuid_text b)) = hex_pair (byte7 b)"
  "take 2 (drop 19 (uuid_text b)) = hex_pair (byte8 b)" "take 2 (drop 21 (uuid_text b)) = hex_pair (byte9 b)"
  "take 2 (drop 24 (uuid_text b)) = hex_pair (byte10 b)" "take 2 (drop 26 (uuid_text b)) = hex_pair (byte11 b)"
  "take 2 (drop 28 (uuid_text b)) = hex_pair (byte12 b)" "take 2 (drop 30 (uuid_text b)) = hex_pair (byte13 b)"
  "take 2 (drop 32 (uuid_text b)) = hex_pair (byte14 b)" "take 2 (drop 34 (uuid_text b)) = hex_pair (byte15 b)"
  by (simp_all add: uuid_text_def hex_pair_def)

lemma starts_with_digit:
  assumes "list_all2 same_digit t (uuid_text b)"
  shows "isHexChar (t ! 0)"
proof -
  have "same_digit (t ! 0) (hex_char (15 AND drop_bit 4 (ucast (byte0 b))))"
    using list_all2_nthD2 [OF assms, of 0] by (simp add: uuid_text_def hex_pair_def)
  then show ?thesis by (rule hex_value(2) [OF nibbles(1)])
qed

lemma create_from_text:
  assumes t: "list_all2 same_digit t (uuid_text b)" and junk: "\<forall>c \<in> set junk. \<not> isHexChar c" "length junk \<le> 64"
    and chars: "length (ue_chars env) = 100"
  shows "CFUUIDCreateFromString env st (Some (junk @ t @ tail)) = CFUUIDCreateWithBytesPrimitive env st b False"
proof -
  define len where "len = min 100 (length (junk @ t @ tail))"
  have lt: "length t = 36" using list_all2_lengthD [OF t] by simp
  have len: "len = (if 100 < length (junk @ t @ tail) then 100 else length (junk @ t @ tail))" "len \<noteq> 0" "length junk + 36 \<le> len" "len \<le> 100"
    using lt junk(2) by (auto simp: len_def)
  define rest where "rest = take (len - (length junk + 36)) tail @ drop len (ue_chars env)"
  have cs: "copy_into (ue_chars env) 0 (take len (junk @ t @ tail)) = Inr (junk @ t @ rest)"
    using len chars lt junk(2) by (auto simp: copy_into_def rest_def min_def)
  have l: "len \<le> length (junk @ t @ rest)" using len chars lt by (simp add: rest_def)
  have skip: "skip_start (junk @ t @ rest) len 0 = Inr (length junk + 0)"
    by (rule skip_start_to) (use junk(1) lt len(3) starts_with_digit [OF t] in \<open>auto simp: nth_append\<close>)
  note read = read_at [OF t len(3) l]
  have R: "READ_A_BYTE (junk @ t @ rest) len (length junk + k) = Inr (v, length junk + (k + 2))"
    if "take 2 (drop k (uuid_text b)) = hex_pair v" for k v
    using read [OF that] arg_cong [OF that, of length] by simp
  have R0: "READ_A_BYTE (junk @ t @ rest) len (length junk) = Inr (byte0 b, length junk + 2)"
    using R [OF uuid_places(1)] by simp
  note R16 = uuid_places(2-16) [of b, THEN R]
  have fields: "\<lparr>byte0 = byte0 b, byte1 = byte1 b, byte2 = byte2 b, byte3 = byte3 b, byte4 = byte4 b, byte5 = byte5 b, byte6 = byte6 b,
      byte7 = byte7 b, byte8 = byte8 b, byte9 = byte9 b, byte10 = byte10 b, byte11 = byte11 b, byte12 = byte12 b, byte13 = byte13 b,
      byte14 = byte14 b, byte15 = byte15 b\<rparr> = b"
    by simp
  show ?thesis
    unfolding CFUUIDCreateFromString_def option.case Let_def len(1) [symmetric] cs if_not_P [OF len(2)]
    by (simp only: skip add_0_right ebind_simps prod.case R0 R16 add.assoc numeral_plus_one numeral_plus_numeral add_num_simps fields)
qed

text \<open>
  C21. The text of a UUID, in small or capital letters, after at most 64 characters that are no digits and before any others,
  makes the very same object, retained once more.
\<close>
theorem uuid_string_roundtrip:
  assumes "uuid_laws env" "uuid_ok env st" "us_objects st p = Some b" "length buff = 12" "length (ue_chars env) = 100"
  shows "\<exists>t0. CFUUIDCreateString st p buff = Inr t0 \<and>
    (\<forall>junk t tail. list_all2 same_digit t t0 \<and> (\<forall>c \<in> set junk. \<not> isHexChar c) \<and> length junk \<le> 64 \<longrightarrow>
       CFUUIDCreateFromString env st (Some (junk @ t @ tail)) = Inr (st, p, [Retained p]))"
proof -
  obtain q where "CFUUIDGetUniquedUUIDHasLock env st b = Inr q" "us_objects st q = Some b"
    using get_uniqued [OF assms(1,2), of b] assms(3) by blast
  then have "CFUUIDCreateWithBytesPrimitive env st b False = Inr (st, p, [Retained p])"
    using uuid_okD(1,5) [OF assms(2,3)] by (simp add: CFUUIDCreateWithBytesPrimitive_def)
  then show ?thesis
    using create_string [OF assms(3,4)] create_from_text assms(5) by auto
qed

text \<open>
  C36. A text with 100 characters or more of which the first 100 are no digits makes the function read behind its array.
\<close>
theorem uuid_reads_behind:
  assumes "100 \<le> length str" "\<forall>c \<in> set (take 100 str). \<not> isHexChar c" "length (ue_chars env) = 100"
  shows "CFUUIDCreateFromString env st (Some str) = Inl OutOfBounds"
proof -
  have len: "(if 100 < length str then 100 else length str) = 100" using assms(1) by simp
  have cs: "copy_into (ue_chars env) 0 (take 100 str) = Inr (take 100 str)"
    using assms(1,3) by (simp add: copy_into_def)
  have "skip_start (take 100 str) 100 0 = Inl OutOfBounds"
    by (rule skip_start_out) (use assms(1,2) in \<open>auto simp: set_conv_nth\<close>)
  then show ?thesis
    unfolding CFUUIDCreateFromString_def option.case Let_def len cs by simp
qed

section \<open>Instances\<close>

definition sample_uuid_env :: uuid_env where
  "sample_uuid_env = \<lparr>ue_create = (\<lambda>m. if m 0x1000 = None then Some 0x1000 else None), ue_stack = 0x2000, ue_isEqual = 0x100, ue_hashBytes = 0x200,
     ue_hash = plain_env, ue_std = sample_std, ue_version = None, ue_generate_time = undefined, ue_generate_random = undefined,
     ue_chars = replicate 100 0\<rparr>"

definition sample_uuid :: CFUUIDBytes where
  "sample_uuid = \<lparr>byte0 = 0x68, byte1 = 0x75, byte2 = 0x3A, byte3 = 0x44, byte4 = 0x4D, byte5 = 0x6F, byte6 = 0x12, byte7 = 0x26,
     byte8 = 0x9C, byte9 = 0x60, byte10 = 0x00, byte11 = 0x50, byte12 = 0xE4, byte13 = 0xC0, byte14 = 0x00, byte15 = 0x67\<rparr>"

lemma sample_uuid_laws: "uuid_laws sample_uuid_env"
  by (auto simp: uuid_laws_def sample_uuid_env_def bytes_address_def is_sentinel_def CFBasicHashSubABZero_def CFBasicHashSubABOne_def
      split: if_splits)

lemma hash_limit_positive: "0 < hash_limit"
  by (simp add: hash_limit_def CFBasicHashGetCapacityForNumBuckets_def CFBasicHashTableCapacities_def)

lemma sample_uuid_state: "\<exists>st. uuid_ok sample_uuid_env st \<and> us_objects st = [0x1000 \<mapsto> sample_uuid]"
proof -
  have "\<exists>st' evs. CFUUIDAddUniqueUUIDHasLock sample_uuid_env (no_uuids\<lparr>us_objects := (us_objects no_uuids)(0x1000 \<mapsto> sample_uuid)\<rparr>) sample_uuid 0x1000 =
      Inr (st', evs) \<and> uuid_ok sample_uuid_env st' \<and> us_objects st' = us_objects (no_uuids\<lparr>us_objects := (us_objects no_uuids)(0x1000 \<mapsto> sample_uuid)\<rparr>)"
    by (rule add_unique [OF sample_uuid_laws no_uuids_ok])
      (simp_all add: no_uuids_def sample_uuid_env_def bytes_address_def is_sentinel_def CFBasicHashSubABZero_def CFBasicHashSubABOne_def hash_limit_positive)
  then show ?thesis by (auto simp: no_uuids_def)
qed

theorem uuid_unique_witness:
  "\<exists>st' evs. CFUUIDCreateWithBytesPrimitive sample_uuid_env no_uuids sample_uuid False = Inr (st', 0x1000, evs) \<and>
    uuid_ok sample_uuid_env st' \<and> us_objects st' = [0x1000 \<mapsto> sample_uuid]"
proof -
  have "ue_create sample_uuid_env (us_objects no_uuids) = Some 0x1000" "card (dom (us_objects no_uuids)) < hash_limit"
    by (simp_all add: sample_uuid_env_def no_uuids_def hash_limit_positive)
  from uuid_unique [OF sample_uuid_laws no_uuids_ok this, of sample_uuid False] show ?thesis
    by (auto simp: no_uuids_def)
qed

theorem uuid_deallocate_witness:
  "\<exists>st st' evs. us_objects st = [0x1000 \<mapsto> sample_uuid] \<and> CFUUIDDeallocate sample_uuid_env st 0x1000 = Inr (st', evs) \<and>
    uuid_ok sample_uuid_env (st'\<lparr>us_objects := Map.empty\<rparr>)"
proof -
  obtain st where st: "uuid_ok sample_uuid_env st" "us_objects st = [0x1000 \<mapsto> sample_uuid]" using sample_uuid_state by blast
  have "(us_objects st)(0x1000 := None) = Map.empty" using st(2) by simp
  then show ?thesis using uuid_deallocate [OF sample_uuid_laws st(1), of "0x1000" sample_uuid] st(2) by auto
qed

theorem uuid_string_roundtrip_witness:
  "\<exists>st t0. us_objects st = [0x1000 \<mapsto> sample_uuid] \<and> CFUUIDCreateString st 0x1000 (replicate 12 0) = Inr t0 \<and>
    CFUUIDCreateFromString sample_uuid_env st (Some ([0x7B] @ t0 @ [0x7D])) = Inr (st, 0x1000, [Retained 0x1000])"
proof -
  obtain st where st: "uuid_ok sample_uuid_env st" "us_objects st = [0x1000 \<mapsto> sample_uuid]" using sample_uuid_state by blast
  have env: "length (ue_chars sample_uuid_env) = 100" "length (replicate 12 (0 :: unichar)) = 12" by (simp_all add: sample_uuid_env_def)
  have obj: "us_objects st 0x1000 = Some sample_uuid" using st(2) by simp
  obtain t0 where t0: "CFUUIDCreateString st 0x1000 (replicate 12 0) = Inr t0"
      "\<forall>junk t tail. list_all2 same_digit t t0 \<and> (\<forall>c \<in> set junk. \<not> isHexChar c) \<and> length junk \<le> 64 \<longrightarrow>
        CFUUIDCreateFromString sample_uuid_env st (Some (junk @ t @ tail)) = Inr (st, 0x1000, [Retained 0x1000])"
    using uuid_string_roundtrip [OF sample_uuid_laws st(1) obj env(2,1)] by blast
  have "list_all2 same_digit t0 t0" by (simp add: list_all2_refl same_digit_def)
  moreover have "\<forall>c \<in> set [0x7B]. \<not> isHexChar c" by (simp add: isHexChar_def)
  ultimately have "CFUUIDCreateFromString sample_uuid_env st (Some ([0x7B] @ t0 @ [0x7D])) = Inr (st, 0x1000, [Retained 0x1000])"
    by (intro t0(2) [rule_format] conjI) simp_all
  then show ?thesis using st(2) t0(1) by blast
qed

theorem uuid_reads_behind_witness:
  "CFUUIDCreateFromString sample_uuid_env no_uuids (Some (replicate 100 0x2D)) = Inl OutOfBounds"
  by (rule uuid_reads_behind) (simp_all add: isHexChar_def sample_uuid_env_def)

end
