(* ===== verification/CF_Scanner.thy ===== *)
theory CF_Scanner
  imports CF_Prelude
begin

unbundle bit_operations_syntax

text \<open>
  \<open>CFStringScanner.c\<close>: reading an integer, a hexadecimal or a floating-point number from a text; the windows on a text it reads through
  (\<open>CFStringInlineBuffer\<close> of \<open>CFString.h\<close>, \<open>ForFoundationOnly.h\<close>); and the two callers in \<open>CFString.c\<close>. The text of a string object is a
  list of UTF-16 units. Signed values are integers, and every sum that the code computes in a signed type, for a result as well as for the index and the
  counts of characters, which are of type \<open>SInt32\<close>, is checked to fit it (\<open>fits\<close>); C gives no meaning to one that does not.
\<close>

section \<open>Windows on a text\<close>

type_synonym byte = "8 word"
type_synonym unichar = "16 word"

definition kCFStringInlineBufferLength :: nat where "kCFStringInlineBufferLength = 64"

record CFStringInlineBuffer =
  ib_buffer :: "unichar list"
  ib_theString :: "unichar list"
  ib_directUniCharBuffer :: "unichar list option"
  ib_directCStringBuffer :: "byte list option"
  ib_rangeLocation :: int
  ib_rangeLength :: int
  ib_bufferedRangeStart :: int
  ib_bufferedRangeEnd :: int

text \<open>
  The window before its first use: what \<open>CFStringGetCharactersPtr\<close> and \<open>CFStringGetCStringPtr\<close> return for the string are arguments, as is
  what the buffer on the stack holds.
\<close>

definition CFStringInitInlineBuffer ::
  "unichar list option \<Rightarrow> byte list option \<Rightarrow> unichar list \<Rightarrow> unichar list \<Rightarrow> int \<Rightarrow> int \<Rightarrow> CFStringInlineBuffer" where
  "CFStringInitInlineBuffer charactersPtr cStringPtr stack str location len =
     \<lparr>ib_buffer = stack, ib_theString = str, ib_directUniCharBuffer = charactersPtr,
      ib_directCStringBuffer = (if charactersPtr \<noteq> None then None else cStringPtr),
      ib_rangeLocation = location, ib_rangeLength = len, ib_bufferedRangeStart = 0, ib_bufferedRangeEnd = 0\<rparr>"

text \<open>A character of the window, and the window after it has been moved to have the character.\<close>

definition inline_move :: "CFStringInlineBuffer \<Rightarrow> int \<Rightarrow> CFStringInlineBuffer cf" where
  "inline_move buf idx =
     (if idx \<ge> ib_bufferedRangeEnd buf \<or> idx < ib_bufferedRangeStart buf then
        let start = (if idx - 4 < 0 then 0 else idx - 4);
            finish = (if start + int kCFStringInlineBufferLength > ib_rangeLength buf then ib_rangeLength buf
                      else start + int kCFStringInlineBufferLength)
        in if ib_rangeLocation buf + start < 0 then Inl OutOfBounds
           else
           ebind (slice (ib_theString buf) (nat (ib_rangeLocation buf + start)) (nat (finish - start))) (\<lambda>chars.
           ebind (copy_into (ib_buffer buf) 0 chars) (\<lambda>b.
           Inr (buf\<lparr>ib_buffer := b, ib_bufferedRangeStart := start, ib_bufferedRangeEnd := finish\<rparr>)))
      else Inr buf)"

definition CFStringGetCharacterFromInlineBufferQuick ::
  "CFStringInlineBuffer \<Rightarrow> int \<Rightarrow> (unichar \<times> CFStringInlineBuffer) cf" where
  "CFStringGetCharacterFromInlineBufferQuick buf idx =
     (case ib_directUniCharBuffer buf of
        Some chars \<Rightarrow> ebind (rd_at chars (idx + ib_rangeLocation buf)) (\<lambda>c. Inr (c, buf))
      | None \<Rightarrow>
          (case ib_directCStringBuffer buf of
             Some bytes \<Rightarrow> ebind (rd_at bytes (idx + ib_rangeLocation buf)) (\<lambda>b. Inr (scast b, buf))
           | None \<Rightarrow>
               ebind (inline_move buf idx) (\<lambda>buf.
               ebind (rd_at (ib_buffer buf) (idx - ib_bufferedRangeStart buf)) (\<lambda>c. Inr (c, buf)))))"

definition CFStringGetCharacterFromInlineBufferAux ::
  "CFStringInlineBuffer \<Rightarrow> int \<Rightarrow> (unichar \<times> CFStringInlineBuffer) cf" where
  "CFStringGetCharacterFromInlineBufferAux buf idx =
     (if idx < 0 \<or> idx \<ge> ib_rangeLength buf then Inr (0xFFFF, buf)
      else CFStringGetCharacterFromInlineBufferQuick buf idx)"

definition CFStringGetCharacterFromInlineBuffer ::
  "CFStringInlineBuffer \<Rightarrow> int \<Rightarrow> (unichar \<times> CFStringInlineBuffer) cf" where
  "CFStringGetCharacterFromInlineBuffer buf idx =
     (if idx < 0 \<or> idx \<ge> ib_rangeLength buf then Inr (0, buf)
      else CFStringGetCharacterFromInlineBufferQuick buf idx)"

section \<open>Signed arithmetic\<close>

definition INT_MAX :: int where "INT_MAX = 2 ^ 31 - 1"
definition INT_MIN :: int where "INT_MIN = - (2 ^ 31)"
definition LLONG_MAX :: int where "LLONG_MAX = 2 ^ 63 - 1"
definition LLONG_MIN :: int where "LLONG_MIN = - (2 ^ 63)"
definition UINT_MAX :: "32 word" where "UINT_MAX = - 1"

text \<open>A result of signed arithmetic at a type with this maximum, and a step of the index; C leaves undefined what does not fit.\<close>

definition fits :: "int \<Rightarrow> int \<Rightarrow> int cf" where
  "fits greatest x = (if - greatest - 1 \<le> x \<and> x \<le> greatest then Inr x else Inl BadShift)"

definition index_add :: "int \<Rightarrow> int \<Rightarrow> int cf" where
  "index_add index n = fits INT_MAX (index + n)"

lemma index_add_result [simp]: "index_add index n = Inr i \<longleftrightarrow> i = index + n \<and> - (2 ^ 31) \<le> index + n \<and> index + n < 2 ^ 31"
  by (auto simp: index_add_def fits_def INT_MAX_def)

section \<open>Characters\<close>

definition CFIsWhitespace :: "unichar \<Rightarrow> bool" where
  "CFIsWhitespace theChar \<longleftrightarrow>
     theChar < 0x21 \<or> theChar > 0x7E \<and> theChar < 0xA1 \<or> theChar \<ge> 0x2000 \<and> theChar \<le> 0x200B \<or> theChar = 0x3000"

definition CFCharacterIsADigit :: "unichar \<Rightarrow> bool" where
  "CFCharacterIsADigit ch \<longleftrightarrow> ch \<ge> 0x30 \<and> ch \<le> 0x39"

definition CFCharacterNumericOrHexValue :: "unichar \<Rightarrow> int" where
  "CFCharacterNumericOrHexValue ch =
     (if ch \<ge> 0x30 \<and> ch \<le> 0x39 then uint ch - 0x30
      else if ch \<ge> 0x41 \<and> ch \<le> 0x46 then uint ch + 10 - 0x41
      else if ch \<ge> 0x61 \<and> ch \<le> 0x66 then uint ch + 10 - 0x61
      else - 1)"

definition CFCharacterNumericValue :: "unichar \<Rightarrow> int" where
  "CFCharacterNumericValue ch = (if ch \<ge> 0x30 \<and> ch \<le> 0x39 then uint ch - 0x30 else - 1)"

text \<open>A character that is not the one for the end of the text is inside the range.\<close>

lemma move_range: "inline_move buf i = Inr buf' \<Longrightarrow> ib_rangeLength buf' = ib_rangeLength buf"
  by (auto simp: inline_move_def Let_def split: if_splits)

lemma aux_inside:
  assumes "CFStringGetCharacterFromInlineBufferAux buf i = Inr (c, buf')" "c \<noteq> 0xFFFF"
  shows "0 \<le> i" "i < ib_rangeLength buf" "ib_rangeLength buf' = ib_rangeLength buf"
  using assms
  by (auto simp: CFStringGetCharacterFromInlineBufferAux_def CFStringGetCharacterFromInlineBufferQuick_def
      dest!: move_range split: if_splits option.splits)

lemma aux_range:
  assumes "CFStringGetCharacterFromInlineBufferAux buf i = Inr (c, buf')" "c \<noteq> 0xFFFF"
  shows "0 \<le> i \<and> i < ib_rangeLength buf \<and> ib_rangeLength buf' = ib_rangeLength buf"
  using aux_inside [OF assms] by simp

lemma end_is_no_digit: "CFIsWhitespace c \<Longrightarrow> c \<noteq> 0xFFFF" "CFCharacterIsADigit c \<Longrightarrow> c \<noteq> 0xFFFF"
    "CFCharacterNumericOrHexValue c \<noteq> - 1 \<Longrightarrow> c \<noteq> 0xFFFF"
  by (auto simp: CFIsWhitespace_def CFCharacterIsADigit_def CFCharacterNumericOrHexValue_def)

function CFStringGetFirstNonSpaceCharacterFromInlineBuffer ::
  "CFStringInlineBuffer \<Rightarrow> int \<Rightarrow> (unichar \<times> CFStringInlineBuffer \<times> int) cf" where
  "CFStringGetFirstNonSpaceCharacterFromInlineBuffer buf index =
     ebind (CFStringGetCharacterFromInlineBufferAux buf index) (\<lambda>(ch, buf).
     if CFIsWhitespace ch
     then ebind (index_add index 1) (\<lambda>index. CFStringGetFirstNonSpaceCharacterFromInlineBuffer buf index)
     else Inr (ch, buf, index))"
  by pat_completeness auto
termination
  by (relation "measure (\<lambda>(buf, index). nat (ib_rangeLength buf - index))")
    (auto dest!: end_is_no_digit(1) aux_range)

declare CFStringGetFirstNonSpaceCharacterFromInlineBuffer.simps [simp del]

section \<open>Integers\<close>

text \<open>The guard of the two branches; its last difference is evaluated for one value of \<open>result\<close> only, for which it fits.\<close>

definition digit_overflows :: "int \<Rightarrow> int \<Rightarrow> unichar \<Rightarrow> bool \<Rightarrow> bool" where
  "digit_overflows greatest result ch neg \<longleftrightarrow>
     result \<ge> greatest div 10 \<and>
     (result > greatest div 10 \<or> CFCharacterNumericValue ch - (if neg then 1 else 0) \<ge> greatest - result * 10)"

text \<open>\<open>result * 10 + digit\<close>\<close>

definition add_digit :: "int \<Rightarrow> int \<Rightarrow> unichar \<Rightarrow> int cf" where
  "add_digit greatest result ch =
     ebind (fits greatest (result * 10)) (\<lambda>r. fits greatest (r + CFCharacterNumericValue ch))"

record integer_scan =
  is_doingLonglong :: bool
  is_neg :: bool
  is_intResult :: int
  is_longlongResult :: int

text \<open>The loop that skips the digits left after an overflow.\<close>

function skip_digits :: "CFStringInlineBuffer \<Rightarrow> int \<Rightarrow> (unichar \<times> CFStringInlineBuffer \<times> int) cf" where
  "skip_digits buf index =
     ebind (index_add index 1) (\<lambda>index.
     ebind (CFStringGetCharacterFromInlineBufferAux buf index) (\<lambda>(ch, buf).
     if CFCharacterIsADigit ch then skip_digits buf index else Inr (ch, buf, index)))"
  by pat_completeness auto
termination
  by (relation "measure (\<lambda>(buf, index). nat (ib_rangeLength buf - index))")
    (auto dest!: end_is_no_digit(2) aux_range)

declare skip_digits.simps [simp del]

text \<open>One round of the loop over the digits.\<close>

definition integer_round ::
  "bool \<Rightarrow> integer_scan \<Rightarrow> CFStringInlineBuffer \<Rightarrow> int \<Rightarrow> unichar
   \<Rightarrow> (integer_scan \<times> CFStringInlineBuffer \<times> int \<times> unichar) cf" where
  "integer_round doLonglong s buf index ch =
     (if is_doingLonglong s then
        if digit_overflows LLONG_MAX (is_longlongResult s) ch (is_neg s) then
          let s = s\<lparr>is_longlongResult := (if is_neg s then LLONG_MIN else LLONG_MAX), is_neg := False\<rparr>
          in ebind (skip_digits buf index) (\<lambda>(ch, buf, index). Inr (s, buf, index, ch))
        else
          ebind (add_digit LLONG_MAX (is_longlongResult s) ch) (\<lambda>r.
          ebind (index_add index 1) (\<lambda>index.
          ebind (CFStringGetCharacterFromInlineBufferAux buf index) (\<lambda>(ch, buf).
          Inr (s\<lparr>is_longlongResult := r\<rparr>, buf, index, ch))))
      else
        if digit_overflows INT_MAX (is_intResult s) ch (is_neg s) then
          if doLonglong then Inr (s\<lparr>is_longlongResult := is_intResult s, is_doingLonglong := True\<rparr>, buf, index, ch)
          else
            let s = s\<lparr>is_intResult := (if is_neg s then INT_MIN else INT_MAX), is_neg := False\<rparr>
            in ebind (skip_digits buf index) (\<lambda>(ch, buf, index). Inr (s, buf, index, ch))
        else
          ebind (add_digit INT_MAX (is_intResult s) ch) (\<lambda>r.
          ebind (index_add index 1) (\<lambda>index.
          ebind (CFStringGetCharacterFromInlineBufferAux buf index) (\<lambda>(ch, buf).
          Inr (s\<lparr>is_intResult := r\<rparr>, buf, index, ch)))))"

text \<open>A round that is followed by another has read a digit or gone over to the larger type.\<close>

lemma skip_digits_ends: "skip_digits buf i = Inr (c, buf', j) \<Longrightarrow> \<not> CFCharacterIsADigit c"
proof (induction buf i rule: skip_digits.induct)
  case (1 buf i)
  show ?case
    using 1(2) 1(1) by (simp add: skip_digits.simps [of buf i] split: prod.splits if_splits) blast
qed

definition integer_measure :: "integer_scan \<Rightarrow> CFStringInlineBuffer \<Rightarrow> int \<Rightarrow> nat \<times> nat" where
  "integer_measure s buf i = (nat (ib_rangeLength buf - i), if is_doingLonglong s then 0 else 1)"

lemma integer_round_progress:
  assumes "integer_round doLonglong s buf i c = Inr (s', buf', j, c')" "CFCharacterIsADigit c'"
  shows "(integer_measure s' buf' j, integer_measure s buf i) \<in> less_than <*lex*> less_than"
  using assms(1) end_is_no_digit(2) [OF assms(2)] assms(2)
  by (auto simp: integer_round_def Let_def integer_measure_def dest!: aux_range dest: skip_digits_ends split: if_splits prod.splits)

function integer_loop ::
  "bool \<Rightarrow> integer_scan \<Rightarrow> CFStringInlineBuffer \<Rightarrow> int \<Rightarrow> unichar \<Rightarrow> (integer_scan \<times> CFStringInlineBuffer \<times> int) cf" where
  "integer_loop doLonglong s buf index ch =
     ebind (integer_round doLonglong s buf index ch) (\<lambda>(s, buf, index, ch).
     if CFCharacterIsADigit ch then integer_loop doLonglong s buf index ch else Inr (s, buf, index))"
  by pat_completeness auto
termination
  by (relation "inv_image (less_than <*lex*> less_than) (\<lambda>(doLonglong, s, buf, index, ch). integer_measure s buf index)")
    (auto simp del: in_lex_prod intro: integer_round_progress)

declare integer_loop.simps [simp del]

text \<open>
  Whether there was a number, the window, the index, and the number, which is an \<open>int\<close> or an \<open>int64_t\<close>.
\<close>

definition CFStringScanInteger ::
  "CFStringInlineBuffer \<Rightarrow> int \<Rightarrow> bool \<Rightarrow> (int option \<times> CFStringInlineBuffer \<times> int) cf" where
  "CFStringScanInteger buf index doLonglong =
     ebind (CFStringGetFirstNonSpaceCharacterFromInlineBuffer buf index) (\<lambda>(ch, buf, index).
     ebind (if ch = 0x2D \<or> ch = 0x2B
            then ebind (index_add index 1) (\<lambda>index.
                 ebind (CFStringGetFirstNonSpaceCharacterFromInlineBuffer buf index) (\<lambda>(ch', buf, index).
                 Inr (ch = 0x2D, ch', buf, index)))
            else Inr (False, ch, buf, index)) (\<lambda>(neg, ch, buf, index).
     if \<not> CFCharacterIsADigit ch then Inr (None, buf, index)
     else
       ebind (integer_loop doLonglong
                \<lparr>is_doingLonglong = False, is_neg = neg, is_intResult = 0, is_longlongResult = 0\<rparr> buf index ch) (\<lambda>(s, buf, index).
       if doLonglong then
         let longlongResult = (if \<not> is_doingLonglong s then is_intResult s else is_longlongResult s)
         in ebind (if is_neg s then fits LLONG_MAX (- longlongResult) else Inr longlongResult) (\<lambda>r.
            Inr (Some r, buf, index))
       else
         ebind (if is_neg s then fits INT_MAX (- is_intResult s) else Inr (is_intResult s)) (\<lambda>r.
         Inr (Some r, buf, index)))))"

text \<open>\<open>CFStringGetIntValue\<close> of \<open>CFString.c\<close>, for a string with these pointers to its characters.\<close>

definition CFStringGetIntValue :: "unichar list option \<Rightarrow> byte list option \<Rightarrow> unichar list \<Rightarrow> unichar list \<Rightarrow> int cf" where
  "CFStringGetIntValue charactersPtr cStringPtr stack str =
     ebind (CFStringScanInteger (CFStringInitInlineBuffer charactersPtr cStringPtr stack str 0 (int (length str))) 0 False)
       (\<lambda>(r, buf, idx). Inr (case r of Some result \<Rightarrow> result | None \<Rightarrow> 0))"

section \<open>Hexadecimal numbers\<close>

function hex_loop :: "CFStringInlineBuffer \<Rightarrow> int \<Rightarrow> 32 word \<Rightarrow> int \<Rightarrow> (32 word \<times> CFStringInlineBuffer \<times> int) cf" where
  "hex_loop buf index val curDigit =
     (let val = (if val > drop_bit 4 UINT_MAX then UINT_MAX else push_bit 4 val + word_of_int curDigit)
      in ebind (index_add index 1) (\<lambda>index.
         ebind (CFStringGetCharacterFromInlineBufferAux buf index) (\<lambda>(ch, buf).
         let curDigit = CFCharacterNumericOrHexValue ch
         in if curDigit \<noteq> - 1 then hex_loop buf index val curDigit else Inr (val, buf, index))))"
  by pat_completeness auto
termination
  by (relation "measure (\<lambda>(buf, index, val, curDigit). nat (ib_rangeLength buf - index))")
    (auto dest!: end_is_no_digit(3) aux_range)

declare hex_loop.simps [simp del]

definition CFStringScanHex :: "CFStringInlineBuffer \<Rightarrow> int \<Rightarrow> (32 word option \<times> CFStringInlineBuffer \<times> int) cf" where
  "CFStringScanHex buf index =
     ebind (CFStringGetFirstNonSpaceCharacterFromInlineBuffer buf index) (\<lambda>(ch, buf, index).
     if ch = 0x30 then
       ebind (index_add index 1) (\<lambda>index.
       ebind (CFStringGetCharacterFromInlineBufferAux buf index) (\<lambda>(ch, buf).
       ebind (if ch = 0x78 \<or> ch = 0x58
              then ebind (index_add index 1) (\<lambda>index.
                   ebind (CFStringGetCharacterFromInlineBufferAux buf index) (\<lambda>(ch, buf). Inr (ch, buf, index)))
              else Inr (ch, buf, index)) (\<lambda>(ch, buf, index).
       let curDigit = CFCharacterNumericOrHexValue ch
       in if curDigit = - 1 then ebind (index_add index (- 1)) (\<lambda>index. Inr (Some 0, buf, index))
          else ebind (hex_loop buf index 0 curDigit) (\<lambda>(val, buf, index). Inr (Some val, buf, index)))))
     else
       let curDigit = CFCharacterNumericOrHexValue ch
       in if curDigit = - 1 then Inr (None, buf, index)
          else ebind (hex_loop buf index 0 curDigit) (\<lambda>(val, buf, index). Inr (Some val, buf, index)))"

section \<open>Floating-point numbers\<close>

definition CFNumberSet :: "byte list" where
  "CFNumberSet = [0x00, 0x00, 0x00, 0x00, 0x00, 0x68, 0xFF, 0x03, 0x20, 0x00, 0x00, 0x00, 0x20, 0x00, 0x00, 0x00]"

text \<open>Whether the character is below 128 and its bit is set.\<close>

definition in_number_set :: "unichar \<Rightarrow> bool cf" where
  "in_number_set ch =
     (if ch < 128 then ebind (rd CFNumberSet (unat (drop_bit 3 ch))) (\<lambda>b. Inr (bit b (unat (ch AND 7)))) else Inr False)"

lemma in_set_inside: "in_number_set c = Inr True \<Longrightarrow> c \<noteq> 0xFFFF"
  by (auto simp: in_number_set_def)

text \<open>
  What the scanner calls: the allocator, which returns a block with some contents or none, and \<open>strtod_l\<close>, which takes the characters
  up to the first null byte and returns a value and how many of them it used.
\<close>

record 'd double_env =
  de_allocate :: "nat \<Rightarrow> byte list option"
  de_strtod :: "byte list \<Rightarrow> 'd \<times> nat"

definition STACK_BUFFER_SIZE :: nat where "STACK_BUFFER_SIZE = 256"
definition ALLOC_CHUNK_SIZE :: nat where "ALLOC_CHUNK_SIZE = 256"

text \<open>A larger block with the characters so far; both ways of getting one keep them at its start.\<close>

definition grow_chars :: "('d, 'z) double_env_scheme \<Rightarrow> byte list \<Rightarrow> nat \<Rightarrow> nat \<Rightarrow> byte list cf" where
  "grow_chars env chars kept capacity =
     (case de_allocate env capacity of
        None \<Rightarrow> Inl NullPointer
      | Some block \<Rightarrow> ebind (slice chars 0 kept) (copy_into block 0))"

text \<open>The loop over the characters: the block, how many are in it, its size, whether it is on the heap.\<close>

function double_loop ::
  "('d, 'z) double_env_scheme \<Rightarrow> CFStringInlineBuffer \<Rightarrow> int \<Rightarrow> unichar \<Rightarrow> byte list \<Rightarrow> nat \<Rightarrow> nat \<Rightarrow> bool
   \<Rightarrow> (byte list \<times> nat \<times> CFStringInlineBuffer) cf" where
  "double_loop env buf index ch chars numChars capacity heap =
     ebind (in_number_set ch) (\<lambda>inside.
     if inside then
       ebind (if numChars \<ge> capacity - 1
              then ebind (index_add (int capacity) (int ALLOC_CHUNK_SIZE)) (\<lambda>capacity.
                   ebind (grow_chars env chars (if heap then length chars else numChars) (nat capacity)) (\<lambda>chars.
                   Inr (chars, nat capacity, True)))
              else Inr (chars, capacity, heap)) (\<lambda>(chars, capacity, heap).
       ebind (wr chars numChars (ucast ch)) (\<lambda>chars.
       ebind (index_add (int numChars) 1) (\<lambda>n.
       ebind (index_add index n) (\<lambda>i.
       ebind (CFStringGetCharacterFromInlineBufferAux buf i) (\<lambda>(ch, buf).
       double_loop env buf index ch chars (nat n) capacity heap)))))
     else Inr (chars, numChars, buf))"
  by pat_completeness auto
termination
  by (relation "measure (\<lambda>(env, buf, index, ch, chars, numChars, capacity, heap).
       if in_number_set ch = Inr True then Suc (nat (ib_rangeLength buf - (index + int numChars))) else 0)")
    (auto dest!: aux_range dest: in_set_inside split: if_splits)

declare double_loop.simps [simp del]

text \<open>
  The value found, if there is one, and the index; on the way to \<open>strtod_l\<close> the text ends at the first null byte. The difference of
  the two pointers is a \<open>long\<close>, and the new index is cut to 32 bits.
\<close>

definition CFStringScanDouble ::
  "('d, 'z) double_env_scheme \<Rightarrow> byte list \<Rightarrow> CFStringInlineBuffer \<Rightarrow> int \<Rightarrow> ('d option \<times> CFStringInlineBuffer \<times> int) cf" where
  "CFStringScanDouble env localCharBuffer buf index =
     ebind (CFStringGetFirstNonSpaceCharacterFromInlineBuffer buf index) (\<lambda>(ch, buf, index).
     ebind (double_loop env buf index ch localCharBuffer 0 STACK_BUFFER_SIZE False) (\<lambda>(chars, numChars, buf).
     ebind (wr chars numChars 0) (\<lambda>chars.
     let (result, used) = de_strtod env (takeWhile (\<lambda>b. b \<noteq> 0) chars)
     in if used = 0 then Inr (None, buf, index) else Inr (Some result, buf, signed_take_bit 31 (index + int used)))))"

definition CFStringGetDoubleValue ::
  "('d::zero, 'z) double_env_scheme \<Rightarrow> byte list \<Rightarrow> unichar list option \<Rightarrow> byte list option \<Rightarrow> unichar list \<Rightarrow> unichar list \<Rightarrow> 'd cf" where
  "CFStringGetDoubleValue env localCharBuffer charactersPtr cStringPtr stack str =
     ebind (CFStringScanDouble env localCharBuffer
              (CFStringInitInlineBuffer charactersPtr cStringPtr stack str 0 (int (length str))) 0)
       (\<lambda>(r, buf, idx). Inr (case r of Some result \<Rightarrow> result | None \<Rightarrow> 0))"

end
