(* ===== verification/CF_ScannerSpec.thy ===== *)
theory CF_ScannerSpec
  imports CF_Scanner
begin

unbundle bit_operations_syntax

text \<open>
  What the scanner reads: a window shows a text whatever way its characters are reached; the three scans are functions of the text and the index.
  Integers are clamped to their type, exactly at its ends; hexadecimal numbers are clamped too; the characters of a floating-point number all
  reach \<open>strtod_l\<close>. A lone zero leaves the hexadecimal scan where it was.
\<close>

section \<open>Windows\<close>

text \<open>The text a window shows, and when what it holds is right.\<close>

definition inline_text :: "CFStringInlineBuffer \<Rightarrow> unichar list" where
  "inline_text buf = take (nat (ib_rangeLength buf)) (drop (nat (ib_rangeLocation buf)) (ib_theString buf))"

definition inline_ok :: "CFStringInlineBuffer \<Rightarrow> bool" where
  "inline_ok buf \<longleftrightarrow>
     0 \<le> ib_rangeLocation buf \<and> 0 \<le> ib_rangeLength buf \<and>
     ib_rangeLocation buf + ib_rangeLength buf \<le> int (length (ib_theString buf)) \<and>
     length (ib_buffer buf) = kCFStringInlineBufferLength \<and>
     (case ib_directUniCharBuffer buf of
        Some chars \<Rightarrow> chars = ib_theString buf
      | None \<Rightarrow>
          (case ib_directCStringBuffer buf of
             Some bytes \<Rightarrow> length (ib_theString buf) \<le> length bytes \<and> (\<forall>k < length (ib_theString buf). scast (bytes ! k) = ib_theString buf ! k)
           | None \<Rightarrow>
               0 \<le> ib_bufferedRangeStart buf \<and> ib_bufferedRangeEnd buf - ib_bufferedRangeStart buf \<le> int kCFStringInlineBufferLength \<and>
               (\<forall>k. ib_bufferedRangeStart buf \<le> k \<and> k < ib_bufferedRangeEnd buf \<longrightarrow>
                  ib_buffer buf ! nat (k - ib_bufferedRangeStart buf) = ib_theString buf ! nat (ib_rangeLocation buf + k))))"

text \<open>A character of a text, as the scanner sees it.\<close>

definition text_char :: "unichar list \<Rightarrow> int \<Rightarrow> unichar" where
  "text_char t i = (if 0 \<le> i \<and> i < int (length t) then t ! nat i else 0xFFFF)"

lemma inline_okD:
  assumes "inline_ok buf"
  shows "0 \<le> ib_rangeLocation buf" "0 \<le> ib_rangeLength buf"
    "ib_rangeLocation buf + ib_rangeLength buf \<le> int (length (ib_theString buf))" "length (ib_buffer buf) = 64"
  using assms by (simp_all add: inline_ok_def kCFStringInlineBufferLength_def)

lemma length_inline_text: "inline_ok buf \<Longrightarrow> int (length (inline_text buf)) = ib_rangeLength buf"
  by (auto simp: inline_ok_def inline_text_def)

lemma nth_inline_text:
  assumes "inline_ok buf" "0 \<le> i" "i < ib_rangeLength buf"
  shows "inline_text buf ! nat i = ib_theString buf ! nat (ib_rangeLocation buf + i)"
proof -
  have "nat (ib_rangeLocation buf) + nat i = nat (ib_rangeLocation buf + i)" using inline_okD(1) [OF assms(1)] assms(2) by (simp add: nat_add_distrib)
  moreover have "nat (ib_rangeLocation buf) \<le> length (ib_theString buf)" using inline_okD [OF assms(1)] by simp
  ultimately show ?thesis using assms by (simp add: inline_text_def)
qed

text \<open>What the window moves to holds the character asked for.\<close>

lemma inline_move_ok:
  assumes ok: "inline_ok buf" "ib_directUniCharBuffer buf = None" "ib_directCStringBuffer buf = None"
    and i: "0 \<le> i" "i < ib_rangeLength buf"
  shows "\<exists>buf'. inline_move buf i = Inr buf' \<and> inline_ok buf' \<and> inline_text buf' = inline_text buf \<and>
    ib_directUniCharBuffer buf' = None \<and> ib_directCStringBuffer buf' = None \<and>
    ib_rangeLocation buf' = ib_rangeLocation buf \<and> ib_theString buf' = ib_theString buf \<and>
    ib_bufferedRangeStart buf' \<le> i \<and> i < ib_bufferedRangeEnd buf'"
proof (cases "i \<ge> ib_bufferedRangeEnd buf \<or> i < ib_bufferedRangeStart buf")
  case True
  define start where "start = (if i - 4 < 0 then 0 else i - 4)"
  define fin where "fin = (if start + int kCFStringInlineBufferLength > ib_rangeLength buf then ib_rangeLength buf
    else start + int kCFStringInlineBufferLength)"
  let ?loc = "ib_rangeLocation buf"
  define chars where "chars = take (nat (fin - start)) (drop (nat (?loc + start)) (ib_theString buf))"
  have R: "0 \<le> start" "start \<le> i" "i < fin" "fin \<le> ib_rangeLength buf" "fin - start \<le> 64" "0 \<le> ?loc"
      "?loc + ib_rangeLength buf \<le> int (length (ib_theString buf))" "length (ib_buffer buf) = 64"
    using inline_okD [OF ok(1)] i by (simp_all add: start_def fin_def kCFStringInlineBufferLength_def)
  have len: "length chars = nat (fin - start)" using R by (simp add: chars_def)
  let ?buf = "buf\<lparr>ib_buffer := chars @ drop (length chars) (ib_buffer buf), ib_bufferedRangeStart := start, ib_bufferedRangeEnd := fin\<rparr>"
  have cells: "(chars @ drop (length chars) (ib_buffer buf)) ! nat (k - start) = ib_theString buf ! nat (?loc + k)"
    if "start \<le> k" "k < fin" for k
  proof -
    have "nat (k - start) < length chars" using that R len by simp
    moreover have "nat (?loc + start) + nat (k - start) = nat (?loc + k)" using that R by simp
    moreover have "nat (?loc + start) \<le> length (ib_theString buf)" using R by simp
    ultimately show ?thesis using that R by (simp add: nth_append chars_def)
  qed
  have sl: "slice (ib_theString buf) (nat (?loc + start)) (nat (fin - start)) = Inr chars"
    using R by (simp add: slice_def chars_def)
  have cp: "copy_into (ib_buffer buf) 0 chars = Inr (chars @ drop (length chars) (ib_buffer buf))"
    using R len by (simp add: copy_into_def)
  have "\<not> ?loc + start < 0" using R by simp
  then have "inline_move buf i = Inr ?buf"
    unfolding inline_move_def Let_def start_def [symmetric] fin_def [symmetric] if_P [OF True] by (simp add: sl cp)
  moreover have "inline_ok ?buf"
    unfolding inline_ok_def using ok(2,3) R len cells inline_okD(2) [OF ok(1)] by (simp add: kCFStringInlineBufferLength_def)
  ultimately show ?thesis using R ok(2,3) by (intro exI [of _ ?buf]) (simp add: inline_text_def)
next
  case False
  then show ?thesis using ok by (simp add: inline_move_def)
qed

lemma inline_read:
  assumes ok: "inline_ok buf" "inline_text buf = t"
  obtains buf' where "CFStringGetCharacterFromInlineBufferAux buf i = Inr (text_char t i, buf')" "inline_ok buf'" "inline_text buf' = t"
proof (cases "0 \<le> i \<and> i < ib_rangeLength buf")
  case False
  then have "CFStringGetCharacterFromInlineBufferAux buf i = Inr (text_char t i, buf)"
    using length_inline_text [OF ok(1)] ok(2) by (auto simp: CFStringGetCharacterFromInlineBufferAux_def text_char_def)
  then show ?thesis using that ok by blast
next
  case True
  then have ch: "text_char t i = ib_theString buf ! nat (ib_rangeLocation buf + i)"
    using length_inline_text [OF ok(1)] nth_inline_text [OF ok(1)] ok(2) by (auto simp: text_char_def)
  have place: "0 \<le> i + ib_rangeLocation buf" "i + ib_rangeLocation buf < int (length (ib_theString buf))"
    using True ok(1) by (auto simp: inline_ok_def)
  have quick: "CFStringGetCharacterFromInlineBufferAux buf i = CFStringGetCharacterFromInlineBufferQuick buf i"
    using True by (simp add: CFStringGetCharacterFromInlineBufferAux_def)
  show ?thesis
  proof (cases "ib_directUniCharBuffer buf")
    case (Some chars)
    then have "chars = ib_theString buf" using ok(1) by (simp add: inline_ok_def)
    then have "CFStringGetCharacterFromInlineBufferQuick buf i = Inr (text_char t i, buf)"
      using Some ch place by (simp add: CFStringGetCharacterFromInlineBufferQuick_def rd_at_nat add.commute)
    then show ?thesis using that quick ok by simp
  next
    case none: None
    show ?thesis
    proof (cases "ib_directCStringBuffer buf")
      case (Some bytes)
      then have "length (ib_theString buf) \<le> length bytes" "\<forall>k < length (ib_theString buf). scast (bytes ! k) = ib_theString buf ! k"
        using ok(1) none by (simp_all add: inline_ok_def)
      then have "CFStringGetCharacterFromInlineBufferQuick buf i = Inr (text_char t i, buf)"
        using Some none ch place by (simp add: CFStringGetCharacterFromInlineBufferQuick_def rd_at_nat add.commute nat_less_iff)
      then show ?thesis using that quick ok by simp
    next
      case None
      obtain buf' where b: "inline_move buf i = Inr buf'" "inline_ok buf'" "inline_text buf' = inline_text buf"
          "ib_directUniCharBuffer buf' = None" "ib_directCStringBuffer buf' = None"
          "ib_rangeLocation buf' = ib_rangeLocation buf" "ib_theString buf' = ib_theString buf"
          "ib_bufferedRangeStart buf' \<le> i" "i < ib_bufferedRangeEnd buf'"
        using inline_move_ok [OF ok(1) none None] True by blast
      have w: "0 \<le> i - ib_bufferedRangeStart buf'" "i - ib_bufferedRangeStart buf' < int (length (ib_buffer buf'))"
          "ib_buffer buf' ! nat (i - ib_bufferedRangeStart buf') = text_char t i"
        using b(2,4-9) ch by (simp_all add: inline_ok_def)
      then have "CFStringGetCharacterFromInlineBufferQuick buf i = Inr (text_char t i, buf')"
        using none None b(1) by (simp add: CFStringGetCharacterFromInlineBufferQuick_def rd_at_nat)
      then show ?thesis using that quick b(2,3) ok(2) by simp
    qed
  qed
qed

section \<open>Runs of characters\<close>

definition run_from :: "(unichar \<Rightarrow> bool) \<Rightarrow> unichar list \<Rightarrow> nat \<Rightarrow> unichar list" where
  "run_from P t n = takeWhile P (drop n t)"

definition ends_run :: "(unichar \<Rightarrow> bool) \<Rightarrow> bool" where
  "ends_run P \<longleftrightarrow> \<not> P 0xFFFF"

lemma run_Nil: "ends_run P \<Longrightarrow> run_from P t n = [] \<longleftrightarrow> \<not> P (text_char t (int n))"
  by (cases "n < length t") (simp_all add: ends_run_def run_from_def text_char_def Cons_nth_drop_Suc [symmetric])

lemma run_Cons:
  assumes "ends_run P" "P (text_char t (int n))"
  shows "run_from P t n = text_char t (int n) # run_from P t (Suc n)" "n < length t"
  using assms
  by (auto simp: ends_run_def run_from_def text_char_def Cons_nth_drop_Suc [symmetric] not_less split: if_splits)

lemma run_step:
  assumes "ends_run P" "run_from P t n = c # cs"
  shows "text_char t (int n) = c" "P c" "run_from P t (Suc n) = cs" "n < length t"
proof -
  have "P (text_char t (int n))" using assms run_Nil [OF assms(1), of t n] by auto
  then show "text_char t (int n) = c" "P c" "run_from P t (Suc n) = cs" "n < length t"
    using run_Cons [OF assms(1), of t n] assms(2) by auto
qed

text \<open>In a text whose length fits the type of the index, the index can always step behind a character of the text.\<close>

lemma index_step: "n < length t \<Longrightarrow> length t < 2 ^ 31 \<Longrightarrow> index_add (int n) 1 = Inr (int n + 1)"
  by simp

lemma char_inside: "text_char t (int n) \<noteq> 0xFFFF \<Longrightarrow> n < length t"
  by (auto simp: text_char_def split: if_splits)

lemma no_end: "ends_run CFIsWhitespace" "ends_run CFCharacterIsADigit" "ends_run (\<lambda>c. CFCharacterNumericOrHexValue c \<noteq> - 1)"
  by (auto simp: ends_run_def CFIsWhitespace_def CFCharacterIsADigit_def CFCharacterNumericOrHexValue_def)

text \<open>Where the first character that is no space is.\<close>

definition after_spaces :: "unichar list \<Rightarrow> nat \<Rightarrow> nat" where
  "after_spaces t n = n + length (run_from CFIsWhitespace t n)"

lemma skip_spaces:
  assumes "inline_ok buf" "inline_text buf = t" "length t < 2 ^ 31"
  shows "\<exists>buf'. CFStringGetFirstNonSpaceCharacterFromInlineBuffer buf (int n) =
      Inr (text_char t (int (after_spaces t n)), buf', int (after_spaces t n)) \<and> inline_ok buf' \<and> inline_text buf' = t"
  using assms
proof (induction "run_from CFIsWhitespace t n" arbitrary: n buf)
  case Nil
  obtain b where b: "CFStringGetCharacterFromInlineBufferAux buf (int n) = Inr (text_char t (int n), b)" "inline_ok b" "inline_text b = t"
    using Nil.prems(1,2) by (rule inline_read)
  have "\<not> CFIsWhitespace (text_char t (int n))" using Nil.hyps run_Nil [OF no_end(1), of t n] by simp
  then show ?case
    using b Nil.hyps by (subst CFStringGetFirstNonSpaceCharacterFromInlineBuffer.simps) (simp add: after_spaces_def)
next
  case (Cons c cs)
  note R = run_step [OF no_end(1) Cons.hyps(2) [symmetric]]
  obtain b where b: "CFStringGetCharacterFromInlineBufferAux buf (int n) = Inr (text_char t (int n), b)" "inline_ok b" "inline_text b = t"
    using Cons.prems(1,2) by (rule inline_read)
  have "after_spaces t (Suc n) = after_spaces t n" using R(3) Cons.hyps(2) by (simp add: after_spaces_def flip: Cons.hyps(2))
  then show ?case
    using Cons.hyps(1) [OF R(3) [symmetric] b(2,3) Cons.prems(3)] b(1) R(1,2) index_step [OF R(4) Cons.prems(3)]
    by (subst CFStringGetFirstNonSpaceCharacterFromInlineBuffer.simps) (simp add: add.commute del: index_add_result)
qed

section \<open>Decimal numbers\<close>

abbreviation digits_from :: "unichar list \<Rightarrow> nat \<Rightarrow> unichar list" where
  "digits_from \<equiv> run_from CFCharacterIsADigit"

definition decimal :: "int \<Rightarrow> unichar list \<Rightarrow> int" where
  "decimal r ds = foldl (\<lambda>v c. 10 * v + CFCharacterNumericValue c) r ds"

lemma decimal_simps [simp]: "decimal r [] = r" "decimal r (d # ds) = decimal (10 * r + CFCharacterNumericValue d) ds"
  by (simp_all add: decimal_def)

lemma digit_value: "CFCharacterIsADigit c \<Longrightarrow> 0 \<le> CFCharacterNumericValue c \<and> CFCharacterNumericValue c \<le> 9"
  by (auto simp: CFCharacterIsADigit_def CFCharacterNumericValue_def word_le_def)

lemma decimal_grows: "0 \<le> r \<Longrightarrow> \<forall>c \<in> set ds. CFCharacterIsADigit c \<Longrightarrow> r \<le> decimal r ds"
proof (induction ds arbitrary: r)
  case (Cons d ds)
  then have "r \<le> 10 * r + CFCharacterNumericValue d" "0 \<le> 10 * r + CFCharacterNumericValue d" using digit_value [of d] by auto
  then show ?case using Cons.IH [of "10 * r + CFCharacterNumericValue d"] Cons.prems by simp
qed simp

text \<open>What reading digits does to a value of a type with this maximum, and to the sign.\<close>

fun read_digits :: "int \<Rightarrow> bool \<Rightarrow> int \<Rightarrow> unichar list \<Rightarrow> int \<times> bool" where
  "read_digits g neg r [] = (r, neg)"
| "read_digits g neg r (d # ds) =
     (if digit_overflows g r d neg then (if neg then - g - 1 else g, False)
      else read_digits g neg (10 * r + CFCharacterNumericValue d) ds)"

lemma overflow_iff:
  assumes "g mod 10 = 7" "0 \<le> r" "CFCharacterIsADigit d"
  shows "digit_overflows g r d neg \<longleftrightarrow> 10 * r + CFCharacterNumericValue d \<ge> g + (if neg then 1 else 0)"
proof -
  have "g = 10 * (g div 10) + 7" using assms(1) by presburger
  then show ?thesis using assms(2) digit_value [OF assms(3)] unfolding digit_overflows_def by (cases neg) (simp_all, presburger+)
qed

text \<open>Both signs are clamped to the range of the type, and the smallest value is read exactly.\<close>

lemma read_digits_value:
  assumes "g mod 10 = 7" "0 < g" "0 \<le> r" "r \<le> g" "\<forall>c \<in> set ds. CFCharacterIsADigit c" "read_digits g neg r ds = (r', neg')"
  shows "(if neg' then - r' else r') = (if neg then max (- g - 1) (- decimal r ds) else min g (decimal r ds))"
    "- g - 1 \<le> r'" "r' \<le> g" "neg' \<Longrightarrow> 0 \<le> r'"
proof -
  have "(if neg' then - r' else r') = (if neg then max (- g - 1) (- decimal r ds) else min g (decimal r ds)) \<and>
      - g - 1 \<le> r' \<and> r' \<le> g \<and> (neg' \<longrightarrow> 0 \<le> r')"
    using assms(3-6)
  proof (induction ds arbitrary: r)
    case Nil
    then show ?case using assms(2) by auto
  next
    case (Cons d ds)
    let ?r = "10 * r + CFCharacterNumericValue d"
    have d: "CFCharacterIsADigit d" using Cons.prems(3) by simp
    note over = overflow_iff [OF assms(1) Cons.prems(1) d, of neg]
    have r: "0 \<le> ?r" using Cons.prems(1) digit_value [OF d] by simp
    show ?case
    proof (cases "digit_overflows g r d neg")
      case True
      then have "g + (if neg then 1 else 0) \<le> ?r" using over by simp
      also have "\<dots> \<le> decimal ?r ds" using decimal_grows [OF r] Cons.prems(3) by simp
      finally show ?thesis using True Cons.prems(4) assms(2) by (auto split: if_splits)
    next
      case False
      then have "?r \<le> g" using over by (cases neg) simp_all
      then show ?thesis using Cons.IH [OF r] Cons.prems(3,4) False by simp
    qed
  qed
  then show "(if neg' then - r' else r') = (if neg then max (- g - 1) (- decimal r ds) else min g (decimal r ds))"
    "- g - 1 \<le> r'" "r' \<le> g" "neg' \<Longrightarrow> 0 \<le> r'" by blast+
qed

text \<open>The loops of the code, in one type or in both.\<close>

lemma skip_digits_run:
  assumes "inline_ok buf" "inline_text buf = t" "length t < 2 ^ 31" "n < length t"
  shows "\<exists>buf'. skip_digits buf (int n) =
      Inr (text_char t (int (Suc n + length (digits_from t (Suc n)))), buf', int (Suc n + length (digits_from t (Suc n)))) \<and>
    inline_ok buf' \<and> inline_text buf' = t"
  using assms
proof (induction "digits_from t (Suc n)" arbitrary: n buf)
  case Nil
  obtain b where b: "CFStringGetCharacterFromInlineBufferAux buf (int n + 1) = Inr (text_char t (int n + 1), b)" "inline_ok b" "inline_text b = t"
    using Nil.prems(1,2) by (rule inline_read)
  have "\<not> CFCharacterIsADigit (text_char t (int n + 1))"
    using Nil.hyps run_Nil [OF no_end(2), of t "Suc n"] by (simp add: add.commute)
  then show ?case
    using b Nil.hyps [symmetric] index_step [OF Nil.prems(4,3)] by (subst skip_digits.simps) (simp add: add.commute del: index_add_result)
next
  case (Cons c cs)
  note R = run_step [OF no_end(2) Cons.hyps(2) [symmetric]]
  obtain b where b: "CFStringGetCharacterFromInlineBufferAux buf (int n + 1) = Inr (text_char t (int n + 1), b)" "inline_ok b" "inline_text b = t"
    using Cons.prems(1,2) by (rule inline_read)
  show ?case
    using Cons.hyps(1) [OF R(3) [symmetric] b(2,3) Cons.prems(3) R(4)] b(1) R(1-3) Cons.hyps(2) [symmetric] index_step [OF Cons.prems(4,3)]
    by (subst skip_digits.simps) (simp add: add.commute del: index_add_result)
qed

lemma end_no_digit: "\<not> CFCharacterIsADigit (text_char t (int (n + length (digits_from t n))))"
proof (induction "digits_from t n" arbitrary: n)
  case Nil
  then show ?case using run_Nil [OF no_end(2), of t n] by simp
next
  case (Cons c cs)
  note R = run_step [OF no_end(2) Cons.hyps(2) [symmetric]]
  show ?case using Cons.hyps(1) [OF R(3) [symmetric]] R(3) Cons.hyps(2) [symmetric] by simp
qed

lemma add_digit_fits:
  assumes "g mod 10 = 7" "0 < g" "0 \<le> r" "CFCharacterIsADigit d" "\<not> digit_overflows g r d neg"
  shows "add_digit g r d = Inr (10 * r + CFCharacterNumericValue d)"
proof -
  have "10 * r + CFCharacterNumericValue d \<le> g" using overflow_iff [OF assms(1,3,4)] assms(5) by (cases neg) simp_all
  moreover have "10 * r \<le> g" using calculation digit_value [OF assms(4)] by simp
  ultimately show ?thesis using assms(2,3) digit_value [OF assms(4)] by (simp add: add_digit_def fits_def mult.commute)
qed

lemma maxima: "INT_MAX mod 10 = 7" "LLONG_MAX mod 10 = 7" "0 < INT_MAX" "0 < LLONG_MAX" "INT_MIN = - INT_MAX - 1" "LLONG_MIN = - LLONG_MAX - 1"
    "INT_MAX < LLONG_MAX"
  by (simp_all add: INT_MAX_def LLONG_MAX_def INT_MIN_def LLONG_MIN_def)

text \<open>What a loop leaves: the value and the sign, in the field of the type in use.\<close>

definition scan_result :: "bool \<Rightarrow> integer_scan \<Rightarrow> int \<times> bool" where
  "scan_result doLonglong s =
     (if doLonglong \<and> is_doingLonglong s then is_longlongResult s else is_intResult s, is_neg s)"

text \<open>The loop in one type: \<open>int\<close> when only that is wanted, \<open>int64_t\<close> when it has gone over to it.\<close>

lemma integer_loop_one_type:
  assumes "inline_ok buf" "inline_text buf = t" "digits_from t n = ds" "ds \<noteq> []"
    and "is_doingLonglong s = doLonglong" "0 \<le> fst (scan_result doLonglong s)" "length t < 2 ^ 31"
  defines "g \<equiv> (if doLonglong then LLONG_MAX else INT_MAX)"
  shows "\<exists>s' buf'. integer_loop doLonglong s buf (int n) (text_char t (int n)) = Inr (s', buf', int (n + length ds)) \<and>
    inline_ok buf' \<and> inline_text buf' = t \<and> is_doingLonglong s' = doLonglong \<and>
    scan_result doLonglong s' = read_digits g (is_neg s) (fst (scan_result doLonglong s)) ds"
  using assms(1-7)
proof (induction ds arbitrary: n buf s)
  case (Cons d ds)
  let ?r = "fst (scan_result doLonglong s)"
  note R = run_step [OF no_end(2) Cons.prems(3)]
  have g: "g mod 10 = 7" "0 < g" using maxima by (simp_all add: g_def)
  show ?case
  proof (cases "digit_overflows g ?r d (is_neg s)")
    case True
    obtain b where b: "skip_digits buf (int n) = Inr (text_char t (int (Suc n + length ds)), b, int (Suc n + length ds))"
        "inline_ok b" "inline_text b = t"
      using skip_digits_run [OF Cons.prems(1,2,7) R(4)] R(3) by auto
    have last: "\<not> CFCharacterIsADigit (text_char t (int (Suc n + length ds)))" using end_no_digit [of t "Suc n"] R(3) by simp
    show ?thesis
      using True b last R(1) Cons.prems(5) maxima
      by (subst integer_loop.simps) (cases doLonglong; simp add: integer_round_def scan_result_def g_def Let_def)
  next
    case False
    have add: "add_digit g ?r d = Inr (10 * ?r + CFCharacterNumericValue d)"
      by (rule add_digit_fits [OF g Cons.prems(6) R(2) False])
    have r: "0 \<le> 10 * ?r + CFCharacterNumericValue d" using Cons.prems(6) digit_value [OF R(2)] by simp
    obtain b where b: "CFStringGetCharacterFromInlineBufferAux buf (int n + 1) = Inr (text_char t (int n + 1), b)" "inline_ok b" "inline_text b = t"
      using Cons.prems(1,2) by (rule inline_read)
    let ?s = "if doLonglong then s\<lparr>is_longlongResult := 10 * ?r + CFCharacterNumericValue d\<rparr> else s\<lparr>is_intResult := 10 * ?r + CFCharacterNumericValue d\<rparr>"
    have round: "integer_round doLonglong s buf (int n) d = Inr (?s, b, int n + 1, text_char t (int n + 1))"
      using False add b(1) Cons.prems(5) index_step [OF R(4) Cons.prems(7)]
      by (cases doLonglong; simp add: integer_round_def scan_result_def g_def del: index_add_result)
    have s: "is_doingLonglong ?s = doLonglong" "fst (scan_result doLonglong ?s) = 10 * ?r + CFCharacterNumericValue d" "is_neg ?s = is_neg s"
      using Cons.prems(5) by (cases doLonglong; simp add: scan_result_def)+
    show ?thesis
    proof (cases "ds = []")
      case True
      then have "\<not> CFCharacterIsADigit (text_char t (int n + 1))" using run_Nil [OF no_end(2), of t "Suc n"] R(3) by (simp add: add.commute)
      then have "integer_loop doLonglong s buf (int n) d = Inr (?s, b, int n + 1)"
        by (subst integer_loop.simps) (simp add: round del: if_split)
      moreover have "scan_result doLonglong ?s = read_digits g (is_neg s) ?r (d # ds)"
        using s(2,3) True False by (cases doLonglong; simp add: scan_result_def)
      ultimately show ?thesis using b(2,3) R(1) True s(1)
        by (intro exI [of _ ?s] exI [of _ b]) (simp add: add.commute del: if_split)
    next
      case more: False
      then have "CFCharacterIsADigit (text_char t (int n + 1))" using run_Nil [OF no_end(2), of t "Suc n"] R(3) by (simp add: add.commute)
      then have "integer_loop doLonglong s buf (int n) d = integer_loop doLonglong ?s b (int (Suc n)) (text_char t (int (Suc n)))"
        by (subst integer_loop.simps) (simp add: round add.commute del: if_split)
      then show ?thesis
        using Cons.IH [OF b(2,3) R(3) more s(1)] s(2,3) r R(1) False Cons.prems(7) by (simp del: if_split)
    qed
  qed
qed simp

text \<open>The loop that starts in \<open>int\<close> and goes over to \<open>int64_t\<close> reads as if it had been in \<open>int64_t\<close> all along.\<close>

lemma integer_loop_both_types:
  assumes "inline_ok buf" "inline_text buf = t" "digits_from t n = ds" "ds \<noteq> []"
    and "\<not> is_doingLonglong s" "0 \<le> is_intResult s" "length t < 2 ^ 31"
  shows "\<exists>s' buf'. integer_loop True s buf (int n) (text_char t (int n)) = Inr (s', buf', int (n + length ds)) \<and>
    inline_ok buf' \<and> inline_text buf' = t \<and>
    scan_result True s' = read_digits LLONG_MAX (is_neg s) (is_intResult s) ds"
  using assms
proof (induction ds arbitrary: n buf s)
  case (Cons d ds)
  let ?r = "is_intResult s" and ?v = "10 * is_intResult s + CFCharacterNumericValue d"
  note R = run_step [OF no_end(2) Cons.prems(3)]
  show ?case
  proof (cases "digit_overflows INT_MAX ?r d (is_neg s)")
    case True
    let ?s = "s\<lparr>is_longlongResult := ?r, is_doingLonglong := True\<rparr>"
    have "integer_loop True s buf (int n) d = integer_loop True ?s buf (int n) d"
      using True Cons.prems(5) R(2) by (subst integer_loop.simps) (simp add: integer_round_def)
    then show ?thesis
      using integer_loop_one_type [OF Cons.prems(1-3), of ?s True] Cons.prems(6,7) R(1) by (auto simp: scan_result_def)
  next
    case False
    have add: "add_digit INT_MAX ?r d = Inr ?v" by (rule add_digit_fits [OF maxima(1,3) Cons.prems(6) R(2) False])
    have "?v \<le> INT_MAX" using overflow_iff [OF maxima(1) Cons.prems(6) R(2)] False by (cases "is_neg s") simp_all
    then have small: "\<not> digit_overflows LLONG_MAX ?r d (is_neg s)"
      using overflow_iff [OF maxima(2) Cons.prems(6) R(2)] maxima(7) by simp
    have v: "0 \<le> ?v" using Cons.prems(6) digit_value [OF R(2)] by simp
    obtain b where b: "CFStringGetCharacterFromInlineBufferAux buf (int n + 1) = Inr (text_char t (int n + 1), b)" "inline_ok b" "inline_text b = t"
      using Cons.prems(1,2) by (rule inline_read)
    let ?s = "s\<lparr>is_intResult := ?v\<rparr>"
    have round: "integer_round True s buf (int n) d = Inr (?s, b, int n + 1, text_char t (int n + 1))"
      using False add b(1) Cons.prems(5) index_step [OF R(4) Cons.prems(7)] by (simp add: integer_round_def del: index_add_result)
    show ?thesis
    proof (cases "ds = []")
      case True
      then have "\<not> CFCharacterIsADigit (text_char t (int n + 1))" using run_Nil [OF no_end(2), of t "Suc n"] R(3) by (simp add: add.commute)
      then have "integer_loop True s buf (int n) d = Inr (?s, b, int n + 1)"
        by (subst integer_loop.simps) (simp add: round)
      then show ?thesis using b(2,3) R(1) True small Cons.prems(5)
        by (intro exI [of _ ?s] exI [of _ b]) (simp add: add.commute scan_result_def)
    next
      case more: False
      then have "CFCharacterIsADigit (text_char t (int n + 1))" using run_Nil [OF no_end(2), of t "Suc n"] R(3) by (simp add: add.commute)
      then have "integer_loop True s buf (int n) d = integer_loop True ?s b (int (Suc n)) (text_char t (int (Suc n)))"
        by (subst integer_loop.simps) (simp add: round add.commute)
      then show ?thesis
        using Cons.IH [OF b(2,3) R(3) more, of ?s] Cons.prems(5,7) v R(1) small by simp
    qed
  qed
qed simp

section \<open>Integers\<close>

text \<open>Where the number starts, and whether it has a minus sign.\<close>

definition sign_at :: "unichar list \<Rightarrow> nat \<Rightarrow> bool \<times> nat" where
  "sign_at t n =
     (let m = after_spaces t n
      in if text_char t (int m) = 0x2D \<or> text_char t (int m) = 0x2B
         then (text_char t (int m) = 0x2D, after_spaces t (Suc m)) else (False, m))"

definition clamp :: "int \<Rightarrow> int \<Rightarrow> int" where
  "clamp g v = max (- g - 1) (min g v)"

lemma clamp_read:
  assumes "g mod 10 = 7" "0 < g" "\<forall>c \<in> set ds. CFCharacterIsADigit c" "read_digits g neg 0 ds = (r', neg')"
  shows "(if neg' then fits g (- r') else Inr r') = Inr (clamp g (if neg then - decimal 0 ds else decimal 0 ds))"
proof -
  note V = read_digits_value [OF assms(1,2) order_refl _ assms(3,4)]
  have g: "0 \<le> g" using assms(2) by simp
  have "0 \<le> decimal 0 ds" by (rule decimal_grows [OF order_refl assms(3)])
  then have "(if neg' then - r' else r') = clamp g (if neg then - decimal 0 ds else decimal 0 ds)"
    using V(1) [OF g] g by (auto simp: clamp_def)
  then show ?thesis using V(2-4) [OF g] by (auto simp: fits_def)
qed

text \<open>
  C14. Scanning an integer skips spaces, takes a sign, skips spaces again and takes all the digits; the value is the number, clamped to the range of the type,
  which holds for the smallest numbers too. Without a digit there is no value and the index is after the sign and the spaces. For a text whose length
  fits the type of the index, no step of the arithmetic, of the index or of the value, overflows.
\<close>
theorem scan_integer_value:
  fixes t :: "unichar list" and n :: nat
  assumes "inline_ok buf" "inline_text buf = t" "length t < 2 ^ 31"
  defines "neg \<equiv> fst (sign_at t n)" and "m \<equiv> snd (sign_at t n)"
  defines "ds \<equiv> digits_from t m"
  shows "\<exists>buf'. CFStringScanInteger buf (int n) doLonglong =
      Inr (if ds = [] then None
           else Some (clamp (if doLonglong then LLONG_MAX else INT_MAX) (if neg then - decimal 0 ds else decimal 0 ds)),
           buf', int (m + length ds)) \<and>
    inline_ok buf' \<and> inline_text buf' = t"
proof -
  let ?k = "after_spaces t n"
  obtain b1 where b1: "CFStringGetFirstNonSpaceCharacterFromInlineBuffer buf (int n) = Inr (text_char t (int ?k), b1, int ?k)"
      "inline_ok b1" "inline_text b1 = t"
    using skip_spaces [OF assms(1-3)] by blast
  obtain b2 where b2: "CFStringGetFirstNonSpaceCharacterFromInlineBuffer b1 (int ?k + 1) =
        Inr (text_char t (int (after_spaces t (Suc ?k))), b2, int (after_spaces t (Suc ?k)))" "inline_ok b2" "inline_text b2 = t"
    using skip_spaces [OF b1(2,3) assms(3), of "Suc ?k"] by (auto simp: add.commute)
  let ?ch = "text_char t (int ?k)"
  have after: "index_add (int ?k) 1 = Inr (int ?k + 1)" if "?ch = 0x2D \<or> ?ch = 0x2B"
    using that by (intro index_step [OF char_inside assms(3)]) auto
  obtain b where b: "(if ?ch = 0x2D \<or> ?ch = 0x2B
        then ebind (index_add (int ?k) 1) (\<lambda>index. ebind (CFStringGetFirstNonSpaceCharacterFromInlineBuffer b1 index)
               (\<lambda>(ch', buf, index). Inr (?ch = 0x2D, ch', buf, index)))
        else Inr (False, ?ch, b1, int ?k)) = Inr (neg, text_char t (int m), b, int m)" "inline_ok b" "inline_text b = t"
    using b1(2,3) b2 after unfolding neg_def m_def sign_at_def Let_def
    by (cases "?ch = 0x2D \<or> ?ch = 0x2B") (simp_all del: index_add_result)
  show ?thesis
  proof (cases "ds = []")
    case True
    then have "\<not> CFCharacterIsADigit (text_char t (int m))" using run_Nil [OF no_end(2), of t m] by (simp add: ds_def)
    then show ?thesis using True b1(1) b by (simp add: CFStringScanInteger_def)
  next
    case False
    then have digit: "CFCharacterIsADigit (text_char t (int m))" using run_Nil [OF no_end(2), of t m] by (simp add: ds_def)
    have digits: "\<forall>c \<in> set ds. CFCharacterIsADigit c" by (auto simp: ds_def run_from_def dest: set_takeWhileD)
    have run: "digits_from t m = ds" by (simp add: ds_def)
    let ?s = "\<lparr>is_doingLonglong = False, is_neg = neg, is_intResult = 0, is_longlongResult = 0\<rparr>"
    let ?g = "if doLonglong then LLONG_MAX else INT_MAX"
    obtain s' b' where s': "integer_loop doLonglong ?s b (int m) (text_char t (int m)) = Inr (s', b', int (m + length ds))"
        "inline_ok b'" "inline_text b' = t" "scan_result doLonglong s' = read_digits ?g neg 0 ds"
      using integer_loop_one_type [OF b(2,3) run False, of ?s doLonglong] assms(3)
        integer_loop_both_types [OF b(2,3) run False, of ?s]
      by (cases doLonglong) (auto simp: scan_result_def)
    have rd: "read_digits ?g neg 0 ds = (fst (scan_result doLonglong s'), is_neg s')"
      unfolding s'(4) [symmetric] by (simp add: scan_result_def)
    have signed: "(if is_neg s' then fits ?g (- fst (scan_result doLonglong s')) else Inr (fst (scan_result doLonglong s'))) =
        Inr (clamp ?g (if neg then - decimal 0 ds else decimal 0 ds))"
      by (rule clamp_read [OF _ _ digits rd]) (use maxima in simp_all)
    then show ?thesis using False digit b1(1) b(1) s'(1-3) signed
      by (cases doLonglong; cases "is_neg s'"; cases "is_doingLonglong s'"; simp add: CFStringScanInteger_def scan_result_def)
  qed
qed

section \<open>Hexadecimal numbers\<close>

abbreviation is_hex :: "unichar \<Rightarrow> bool" where
  "is_hex \<equiv> (\<lambda>c. CFCharacterNumericOrHexValue c \<noteq> - 1)"

definition hexadecimal :: "int \<Rightarrow> unichar list \<Rightarrow> int" where
  "hexadecimal r ds = foldl (\<lambda>v c. 16 * v + CFCharacterNumericOrHexValue c) r ds"

lemma hexadecimal_simps [simp]: "hexadecimal r [] = r" "hexadecimal r (d # ds) = hexadecimal (16 * r + CFCharacterNumericOrHexValue d) ds"
  by (simp_all add: hexadecimal_def)

lemma hex_digit_value: "is_hex c \<Longrightarrow> 0 \<le> CFCharacterNumericOrHexValue c \<and> CFCharacterNumericOrHexValue c \<le> 15"
  by (auto simp: CFCharacterNumericOrHexValue_def word_le_def split: if_splits)

lemma hexadecimal_grows: "0 \<le> r \<Longrightarrow> \<forall>c \<in> set ds. is_hex c \<Longrightarrow> r \<le> hexadecimal r ds"
proof (induction ds arbitrary: r)
  case (Cons d ds)
  then have "r \<le> 16 * r + CFCharacterNumericOrHexValue d" "0 \<le> 16 * r + CFCharacterNumericOrHexValue d" using hex_digit_value [of d] by auto
  then show ?case using Cons.IH [of "16 * r + CFCharacterNumericOrHexValue d"] Cons.prems by simp
qed simp

text \<open>A number too large for 32 bits is read as the largest.\<close>

definition hex_word :: "int \<Rightarrow> 32 word" where
  "hex_word v = (if v < 2 ^ 32 then word_of_int v else UINT_MAX)"

lemma run_all: "\<forall>c \<in> set (run_from P t n). P c"
  by (auto simp: run_from_def dest: set_takeWhileD)

lemma hex_step:
  assumes "is_hex d"
  defines "w \<equiv> \<lambda>val. if val > drop_bit 4 UINT_MAX then UINT_MAX else push_bit 4 val + word_of_int (CFCharacterNumericOrHexValue d)"
  shows "16 * uint val + CFCharacterNumericOrHexValue d < 2 ^ 32 \<Longrightarrow> uint (w val) = 16 * uint val + CFCharacterNumericOrHexValue d"
    "\<not> 16 * uint val + CFCharacterNumericOrHexValue d < 2 ^ 32 \<Longrightarrow> w val = UINT_MAX"
proof -
  have big: "val > drop_bit 4 UINT_MAX \<longleftrightarrow> 16 * uint val \<ge> 2 ^ 32"
  proof -
    have "drop_bit 4 UINT_MAX = 0x0FFFFFFF" by (simp add: UINT_MAX_def mask_eq_exp_minus_1)
    then have "val > drop_bit 4 UINT_MAX \<longleftrightarrow> 0x0FFFFFFF < uint val" by (simp add: word_less_def)
    also have "\<dots> \<longleftrightarrow> 16 * uint val \<ge> 2 ^ 32" by (simp, presburger)
    finally show ?thesis .
  qed
  have shift: "push_bit 4 val = val * 16" by (simp add: push_bit_eq_mult)
  show "uint (w val) = 16 * uint val + CFCharacterNumericOrHexValue d" if small: "16 * uint val + CFCharacterNumericOrHexValue d < 2 ^ 32"
  proof -
    have "\<not> val > drop_bit 4 UINT_MAX" using big small hex_digit_value [OF assms(1)] by simp
    then have wv: "w val = word_of_int (16 * uint val + CFCharacterNumericOrHexValue d)" by (simp add: w_def shift mult.commute)
    show ?thesis
      unfolding wv uint_word_of_int by (rule mod_pos_pos_trivial) (use small hex_digit_value [OF assms(1)] in simp_all)
  qed
  show "w val = UINT_MAX" if "\<not> 16 * uint val + CFCharacterNumericOrHexValue d < 2 ^ 32"
  proof -
    have step: "2 ^ 32 \<le> 16 * u" if "\<not> 16 * u + d < 2 ^ 32" "d \<le> 15" for u d :: int
      using that by simp
    have "16 * uint val \<ge> 2 ^ 32" using step [OF that] hex_digit_value [OF assms(1)] by blast
    then show ?thesis using big by (simp add: w_def)
  qed
qed

lemma uint_UINT_MAX: "uint UINT_MAX = 2 ^ 32 - 1"
  by (simp add: UINT_MAX_def unsigned_minus_1_eq_mask mask_eq_exp_minus_1)

lemma hex_step_word:
  assumes "is_hex d"
  shows "(if val > drop_bit 4 UINT_MAX then UINT_MAX else push_bit 4 val + word_of_int (CFCharacterNumericOrHexValue d)) =
    hex_word (16 * uint val + CFCharacterNumericOrHexValue d)" (is "?w = _")
proof (cases "16 * uint val + CFCharacterNumericOrHexValue d < 2 ^ 32")
  case True
  have "?w = word_of_int (uint ?w)" by (rule word_of_int_uint [symmetric])
  also have "\<dots> = hex_word (16 * uint val + CFCharacterNumericOrHexValue d)"
    unfolding hex_step(1) [OF assms True] hex_word_def if_P [OF True] ..
  finally show ?thesis .
next
  case False
  show ?thesis unfolding hex_step(2) [OF assms False] hex_word_def if_not_P [OF False] ..
qed

lemma hex_loop_value:
  assumes "inline_ok buf" "inline_text buf = t" "run_from is_hex t n = d # ds" "length t < 2 ^ 31"
  shows "\<exists>buf'. hex_loop buf (int n) val (CFCharacterNumericOrHexValue d) =
      Inr (hex_word (hexadecimal (uint val) (d # ds)), buf', int (n + length (d # ds))) \<and> inline_ok buf' \<and> inline_text buf' = t"
  using assms
proof (induction ds arbitrary: n buf d val)
  case Nil
  note R = run_step [OF no_end(3) Nil.prems(3)]
  obtain b where b: "CFStringGetCharacterFromInlineBufferAux buf (int n + 1) = Inr (text_char t (int n + 1), b)" "inline_ok b" "inline_text b = t"
    using Nil.prems(1,2) by (rule inline_read)
  have "CFCharacterNumericOrHexValue (text_char t (int n + 1)) = - 1" using run_Nil [OF no_end(3), of t "Suc n"] R(3) by (simp add: add.commute)
  then show ?case using b index_step [OF R(4) Nil.prems(4)]
    by (subst hex_loop.simps) (simp add: Let_def hex_step_word [OF R(2)] add.commute del: if_split index_add_result)
next
  case (Cons e es)
  note R = run_step [OF no_end(3) Cons.prems(3)]
  note R' = run_step [OF no_end(3) R(3)]
  let ?w = "if val > drop_bit 4 UINT_MAX then UINT_MAX else push_bit 4 val + word_of_int (CFCharacterNumericOrHexValue d)"
  let ?v = "16 * uint val + CFCharacterNumericOrHexValue d"
  obtain b where b: "CFStringGetCharacterFromInlineBufferAux buf (int n + 1) = Inr (text_char t (int n + 1), b)" "inline_ok b" "inline_text b = t"
    using Cons.prems(1,2) by (rule inline_read)
  obtain b' where b': "hex_loop b (int (Suc n)) ?w (CFCharacterNumericOrHexValue e) =
      Inr (hex_word (hexadecimal (uint ?w) (e # es)), b', int (Suc n + length (e # es)))" "inline_ok b'" "inline_text b' = t"
    using Cons.IH [OF b(2,3) R(3) Cons.prems(4)] by blast
  have "hex_word (hexadecimal (uint ?w) (e # es)) = hex_word (hexadecimal ?v (e # es))"
  proof (cases "?v < 2 ^ 32")
    case True
    then show ?thesis using hex_step(1) [OF R(2)] by simp
  next
    case False
    have large: "2 ^ 32 \<le> hexadecimal u (e # es)" if "2 ^ 32 - 1 \<le> u" for u
    proof -
      have "2 ^ 32 \<le> 16 * u + CFCharacterNumericOrHexValue e" "0 \<le> 16 * u + CFCharacterNumericOrHexValue e"
        using that hex_digit_value [OF R'(2)] by simp_all
      moreover have "\<forall>c \<in> set es. is_hex c" using run_all [of is_hex t n] Cons.prems(3) by simp
      ultimately show ?thesis using hexadecimal_grows [of "16 * u + CFCharacterNumericOrHexValue e" es] by simp
    qed
    have "uint ?w = 2 ^ 32 - 1" using hex_step(2) [OF R(2) False] uint_UINT_MAX by simp
    then have "\<not> hexadecimal (uint ?w) (e # es) < 2 ^ 32" "\<not> hexadecimal ?v (e # es) < 2 ^ 32" using large [of "uint ?w"] large [of ?v] False by simp_all
    then show ?thesis unfolding hex_word_def by (simp only: if_False)
  qed
  moreover have "hex_loop buf (int n) val (CFCharacterNumericOrHexValue d) = hex_loop b (int (Suc n)) ?w (CFCharacterNumericOrHexValue e)"
    using b(1) R'(1,2) index_step [OF R(4) Cons.prems(4)]
    by (subst hex_loop.simps) (simp add: Let_def add.commute del: if_split index_add_result)
  moreover have "hexadecimal (uint val) (d # e # es) = hexadecimal ?v (e # es)" "n + length (d # e # es) = Suc n + length (e # es)" by simp_all
  ultimately show ?case using b' by (intro exI [of _ b']) (simp only: simp_thms)
qed

text \<open>How much of a prefix \<open>0\<close>, \<open>0x\<close> or \<open>0X\<close> there is.\<close>

definition hex_prefix :: "unichar list \<Rightarrow> nat \<Rightarrow> nat" where
  "hex_prefix t m =
     (if text_char t (int m) = 0x30
      then (if text_char t (int (Suc m)) = 0x78 \<or> text_char t (int (Suc m)) = 0x58 then 2 else 1) else 0)"

text \<open>
  C33. Scanning a hexadecimal number skips spaces and a prefix and takes all the digits after it; a number too large for 32 bits becomes the largest.
  Without a digit and without a prefix there is no value; with a prefix the value is 0 and the index is on the last character of the prefix. The length of the text
  has to fit the type of the index.
\<close>
theorem scan_hex_value:
  fixes t :: "unichar list" and n :: nat
  assumes "inline_ok buf" "inline_text buf = t" "length t < 2 ^ 31"
  defines "m \<equiv> after_spaces t n"
  defines "k \<equiv> hex_prefix t m"
  defines "ds \<equiv> run_from is_hex t (m + k)"
  shows "\<exists>buf'. CFStringScanHex buf (int n) =
      Inr (if ds \<noteq> [] then Some (hex_word (hexadecimal 0 ds)) else if k = 0 then None else Some 0, buf',
           int (if ds \<noteq> [] then m + k + length ds else m + (k - 1))) \<and>
    inline_ok buf' \<and> inline_text buf' = t"
proof -
  obtain b1 where b1: "CFStringGetFirstNonSpaceCharacterFromInlineBuffer buf (int n) = Inr (text_char t (int m), b1, int m)"
      "inline_ok b1" "inline_text b1 = t"
    using skip_spaces [OF assms(1-3)] unfolding m_def by blast
  obtain b2 where b2: "CFStringGetCharacterFromInlineBufferAux b1 (int m + 1) = Inr (text_char t (int (Suc m)), b2)" "inline_ok b2" "inline_text b2 = t"
    using inline_read [OF b1(2,3), of "int m + 1"] by (metis of_nat_Suc add.commute)
  obtain b3 where b3: "CFStringGetCharacterFromInlineBufferAux b2 (int m + 1 + 1) = Inr (text_char t (int m + 1 + 1), b3)" "inline_ok b3" "inline_text b3 = t"
    using b2(2,3) by (rule inline_read)
  have c3: "text_char t (int m + 1 + 1) = text_char t (int (m + 2))" by (simp add: algebra_simps)
  define tail where "tail = (\<lambda>(b, i). let curDigit = CFCharacterNumericOrHexValue (text_char t (int i))
    in if curDigit = - 1 then Inr (if k = 0 then None else Some 0, b, if k = 0 then int i else int i - 1)
       else ebind (hex_loop b (int i) 0 curDigit) (\<lambda>(val, buf, index). Inr (Some val, buf, index)))"
  have after: "\<exists>buf'. tail (b, m + k) =
      Inr (if ds \<noteq> [] then Some (hex_word (hexadecimal 0 ds)) else if k = 0 then None else Some 0, buf',
           int (if ds \<noteq> [] then m + k + length ds else m + (k - 1))) \<and> inline_ok buf' \<and> inline_text buf' = t"
    if b: "inline_ok b" "inline_text b = t" for b
  proof (cases ds)
    case Nil
    then have "CFCharacterNumericOrHexValue (text_char t (int (m + k))) = - 1" using run_Nil [OF no_end(3), of t "m + k"] by (simp add: ds_def)
    then show ?thesis using Nil b by (auto simp: tail_def of_nat_diff)
  next
    case (Cons d es)
    then have run: "run_from is_hex t (m + k) = d # es" by (simp add: ds_def)
    note R = run_step [OF no_end(3) run]
    obtain b' where "hex_loop b (int (m + k)) 0 (CFCharacterNumericOrHexValue d) =
        Inr (hex_word (hexadecimal (uint (0 :: 32 word)) (d # es)), b', int (m + k + length (d # es)))" "inline_ok b'" "inline_text b' = t"
      using hex_loop_value [OF b run assms(3)] by blast
    then show ?thesis using R(1,2) Cons by (simp add: tail_def Let_def del: hexadecimal_simps)
  qed
  have "\<exists>b. inline_ok b \<and> inline_text b = t \<and> CFStringScanHex buf (int n) = tail (b, m + k)"
  proof (cases "text_char t (int m) = 0x30")
    case False
    then have "CFStringScanHex buf (int n) = tail (b1, m + k)"
      using b1(1) by (simp add: CFStringScanHex_def tail_def k_def hex_prefix_def Let_def)
    then show ?thesis using b1 by blast
  next
    case zero: True
    then have in_m: "m < length t" by (intro char_inside) simp
    show ?thesis
    proof (cases "text_char t (int (Suc m)) = 0x78 \<or> text_char t (int (Suc m)) = 0x58")
      case True
      then have k: "k = 2" using zero by (simp add: k_def hex_prefix_def)
      have "Suc m < length t" using True by (intro char_inside) auto
      have "CFStringScanHex buf (int n) = tail (b3, m + k)"
        using zero True b1(1) b2(1) b3(1) assms(3) \<open>Suc m < length t\<close> unfolding c3
        by (simp add: CFStringScanHex_def tail_def k Let_def index_add_def fits_def INT_MAX_def algebra_simps)
      then show ?thesis using b3 by blast
    next
      case False
      then have k: "k = 1" using zero by (simp add: k_def hex_prefix_def)
      have "CFStringScanHex buf (int n) = tail (b2, m + k)"
        using zero False b1(1) b2(1) assms(3) in_m
        by (simp add: CFStringScanHex_def tail_def k Let_def index_add_def fits_def INT_MAX_def algebra_simps)
      then show ?thesis using b2 by blast
    qed
  qed
  then show ?thesis using after by metis
qed

text \<open>
  A zero with neither a digit nor a letter x after it is scanned with success, and the index stays on it: a caller that scans number after number never
  gets past it. (The code increments the index before it takes the step back, so that it must not be the largest one.)
\<close>
theorem scan_hex_stays:
  assumes "inline_ok buf" "text_char (inline_text buf) (int n) = 0x30" "n < 2 ^ 31 - 1"
    "\<not> is_hex (text_char (inline_text buf) (int (Suc n)))"
    "text_char (inline_text buf) (int (Suc n)) \<noteq> 0x78" "text_char (inline_text buf) (int (Suc n)) \<noteq> 0x58"
  shows "\<exists>buf'. CFStringScanHex buf (int n) = Inr (Some 0, buf', int n) \<and> inline_ok buf' \<and> inline_text buf' = inline_text buf"
proof -
  obtain b1 where b1: "CFStringGetCharacterFromInlineBufferAux buf (int n) = Inr (0x30, b1)" "inline_ok b1" "inline_text b1 = inline_text buf"
    using inline_read [OF assms(1) refl, of "int n"] assms(2) by metis
  then have first: "CFStringGetFirstNonSpaceCharacterFromInlineBuffer buf (int n) = Inr (0x30, b1, int n)"
    by (subst CFStringGetFirstNonSpaceCharacterFromInlineBuffer.simps) (simp add: CFIsWhitespace_def)
  obtain b2 where b2: "CFStringGetCharacterFromInlineBufferAux b1 (int n + 1) = Inr (text_char (inline_text buf) (int (Suc n)), b2)"
      "inline_ok b2" "inline_text b2 = inline_text buf"
    using inline_read [OF b1(2,3), of "int n + 1"] by (metis of_nat_Suc add.commute)
  show ?thesis
    using first b2 assms(3-6) by (intro exI [of _ b2]) (simp add: CFStringScanHex_def Let_def index_add_def fits_def INT_MAX_def)
qed

section \<open>Floating-point numbers\<close>

definition number_char :: "unichar \<Rightarrow> bool" where
  "number_char c \<longleftrightarrow> in_number_set c = Inr True"

lemma in_set_total: "in_number_set c = Inr (number_char c)"
proof (cases "c < 128")
  case True
  then have "unat c < 128" by (simp add: word_less_nat_alt)
  moreover have "unat (drop_bit 3 c) = unat c div 8" by (simp add: drop_bit_eq_div unat_div)
  ultimately have "unat (drop_bit 3 c) < 16" by simp
  then have "unat (drop_bit 3 c) < length CFNumberSet" by (simp add: CFNumberSet_def)
  then show ?thesis using True by (simp add: number_char_def in_number_set_def)
qed (simp add: number_char_def in_number_set_def)

lemma number_char_ends: "ends_run number_char"
  by (simp add: ends_run_def number_char_def in_number_set_def)

lemma number_char_codes: "number_char c \<Longrightarrow> ucast c \<noteq> (0 :: byte)"
proof -
  assume c: "number_char c"
  then have small: "c < 128" by (auto simp: number_char_def in_number_set_def split: if_splits)
  have "c \<noteq> 0" using c by (auto simp: number_char_def in_number_set_def CFNumberSet_def)
  then show "ucast c \<noteq> (0 :: byte)"
    using small by (simp add: word_less_nat_alt word_unat_eq_iff unsigned_ucast_eq take_bit_nat_eq_self)
qed

text \<open>The allocator has a block of every size.\<close>

definition allocates_blocks :: "('d, 'z) double_env_scheme \<Rightarrow> bool" where
  "allocates_blocks env \<longleftrightarrow> (\<forall>size. \<exists>block. de_allocate env size = Some block \<and> length block = size)"

lemma grow_keeps:
  assumes "allocates_blocks env" "kept \<le> length chars" "kept \<le> capacity"
  shows "\<exists>chars'. grow_chars env chars kept capacity = Inr chars' \<and> length chars' = capacity \<and> take kept chars' = take kept chars"
proof -
  obtain block where "de_allocate env capacity = Some block" "length block = capacity" using assms(1) by (auto simp: allocates_blocks_def)
  then show ?thesis using assms(2,3) by (simp add: grow_chars_def slice_def copy_into_def)
qed

text \<open>\<open>strtod_l\<close> uses at most the characters it is given.\<close>

definition strtod_stays :: "('d, 'z) double_env_scheme \<Rightarrow> bool" where
  "strtod_stays env \<longleftrightarrow> (\<forall>chars. snd (de_strtod env chars) \<le> length chars)"

lemma double_loop_collects:
  assumes "allocates_blocks env" "inline_ok buf" "inline_text buf = t" "run_from number_char t (m + numChars) = cs"
    and "length chars = capacity" "numChars < capacity" "256 \<le> capacity" "length t + 256 < 2 ^ 31"
  shows "\<exists>chars' buf'. double_loop env buf (int m) (text_char t (int (m + numChars))) chars numChars capacity heap =
      Inr (chars', numChars + length cs, buf') \<and> inline_ok buf' \<and> inline_text buf' = t \<and>
    numChars + length cs < length chars' \<and> take (numChars + length cs) chars' = take numChars chars @ map ucast cs"
  using assms
proof (induction cs arbitrary: numChars buf chars capacity heap)
  case Nil
  then have "\<not> number_char (text_char t (int (m + numChars)))" using run_Nil [OF number_char_ends] by metis
  then show ?case using Nil.prems by (subst double_loop.simps) (simp add: in_set_total)
next
  case (Cons c cs)
  note R = run_step [OF number_char_ends Cons.prems(4)]
  obtain chars1 capacity1 heap1 where grown: "(if numChars \<ge> capacity - 1
        then ebind (index_add (int capacity) (int ALLOC_CHUNK_SIZE)) (\<lambda>capacity.
             ebind (grow_chars env chars (if heap then length chars else numChars) (nat capacity)) (\<lambda>chars.
             Inr (chars, nat capacity, True)))
        else Inr (chars, capacity, heap)) = Inr (chars1, capacity1, heap1)"
      "length chars1 = capacity1" "numChars + 1 < capacity1" "256 \<le> capacity1" "take numChars chars1 = take numChars chars"
  proof (cases "numChars \<ge> capacity - 1")
    case True
    let ?kept = "if heap then length chars else numChars"
    have kept: "?kept \<le> length chars" "?kept \<le> capacity + ALLOC_CHUNK_SIZE" using Cons.prems(5,6) by auto
    obtain chars' where c: "grow_chars env chars ?kept (capacity + ALLOC_CHUNK_SIZE) = Inr chars'" "length chars' = capacity + ALLOC_CHUNK_SIZE"
        "take ?kept chars' = take ?kept chars"
      using grow_keeps [OF Cons.prems(1) kept] by blast
    have "index_add (int capacity) (int ALLOC_CHUNK_SIZE) = Inr (int (capacity + ALLOC_CHUNK_SIZE))"
      using True R(4) Cons.prems(8) by (simp add: ALLOC_CHUNK_SIZE_def)
    note c = c this
    have "take numChars (take ?kept chars') = take numChars (take ?kept chars)" using c(3) by simp
    then have "take numChars chars' = take numChars chars" using Cons.prems(5,6) by (auto simp: min_def split: if_splits)
    have grown: "(if numChars \<ge> capacity - 1
        then ebind (index_add (int capacity) (int ALLOC_CHUNK_SIZE)) (\<lambda>capacity.
             ebind (grow_chars env chars (if heap then length chars else numChars) (nat capacity)) (\<lambda>chars.
             Inr (chars, nat capacity, True)))
        else Inr (chars, capacity, heap)) = Inr (chars', capacity + ALLOC_CHUNK_SIZE, True)"
      unfolding c(4) ebind_simps nat_int c(1) using True by simp
    show ?thesis
      by (rule that [OF grown]) (use c(2) Cons.prems(6,7) \<open>take numChars chars' = take numChars chars\<close> in \<open>simp_all add: ALLOC_CHUNK_SIZE_def\<close>)
  next
    case False
    then show ?thesis using that Cons.prems(5-7) by simp
  qed
  let ?chars = "chars1[numChars := ucast c]"
  obtain b where b: "CFStringGetCharacterFromInlineBufferAux buf (int m + int (numChars + 1)) = Inr (text_char t (int m + int (numChars + 1)), b)"
      "inline_ok b" "inline_text b = t"
    using Cons.prems(2,3) by (rule inline_read)
  have idx: "int m + int (numChars + 1) = int (m + (numChars + 1))" by simp
  have next_run: "run_from number_char t (m + (numChars + 1)) = cs" using R(3) by simp
  obtain chars' buf' where rest: "double_loop env b (int m) (text_char t (int (m + (numChars + 1)))) ?chars (numChars + 1) capacity1 heap1 =
        Inr (chars', numChars + 1 + length cs, buf')" "inline_ok buf'" "inline_text buf' = t"
      "numChars + 1 + length cs < length chars'" "take (numChars + 1 + length cs) chars' = take (numChars + 1) ?chars @ map ucast cs"
    using Cons.IH [OF Cons.prems(1) b(2,3) next_run, of ?chars capacity1 heap1] grown(2-4) Cons.prems(8) by auto
  have "double_loop env buf (int m) c chars numChars capacity heap =
      double_loop env b (int m) (text_char t (int (m + (numChars + 1)))) ?chars (numChars + 1) capacity1 heap1"
  proof -
    have steps: "index_add (int numChars) 1 = Inr (int (numChars + 1))"
        "index_add (int m) (int (numChars + 1)) = Inr (int (m + (numChars + 1)))"
      using R(4) Cons.prems(8) by simp_all
    show ?thesis
      using R(2) grown(1-3) b(1) unfolding idx
      by (subst double_loop.simps) (simp only: in_set_total steps ebind_simps if_True prod.case nat_int, simp)
  qed
  moreover have "take (numChars + 1) ?chars = take numChars chars @ [ucast c]"
    using grown(2,3,5) by (simp add: take_Suc_conv_app_nth)
  ultimately show ?case using rest R(1) by (intro exI [of _ chars'] exI [of _ buf']) simp
qed

text \<open>
  C34. Scanning a floating-point number skips spaces and hands all the characters that can be part of a number to \<open>strtod_l\<close>, however many there are:
  the buffer grows as needed and is never left. When characters were used the index moves behind them. The length of the text has
  to leave room for one more step of growth in the type of the counts.
\<close>
theorem scan_double_value:
  fixes t :: "unichar list" and n :: nat
  assumes "allocates_blocks env" "length localCharBuffer = 256" "inline_ok buf" "inline_text buf = t" "length t + 256 < 2 ^ 31" "strtod_stays env"
  defines "m \<equiv> after_spaces t n"
  defines "used \<equiv> snd (de_strtod env (map ucast (run_from number_char t m)))"
  shows "\<exists>buf'. CFStringScanDouble env localCharBuffer buf (int n) =
      Inr (if used = 0 then None else Some (fst (de_strtod env (map ucast (run_from number_char t m)))), buf', int (m + used)) \<and>
    inline_ok buf' \<and> inline_text buf' = t"
proof -
  let ?cs = "run_from number_char t m"
  obtain b1 where b1: "CFStringGetFirstNonSpaceCharacterFromInlineBuffer buf (int n) = Inr (text_char t (int m), b1, int m)"
      "inline_ok b1" "inline_text b1 = t"
    using skip_spaces [OF assms(3,4)] assms(5) unfolding m_def by auto
  obtain chars buf' where loop: "double_loop env b1 (int m) (text_char t (int m)) localCharBuffer 0 STACK_BUFFER_SIZE False = Inr (chars, length ?cs, buf')"
      "inline_ok buf'" "inline_text buf' = t" "length ?cs < length chars" "take (length ?cs) chars = map ucast ?cs"
    using double_loop_collects [OF assms(1) b1(2,3), of m 0 ?cs localCharBuffer STACK_BUFFER_SIZE False] assms(2,5)
    by (auto simp: STACK_BUFFER_SIZE_def)
  have split: "chars[length ?cs := 0] = map ucast ?cs @ 0 # drop (Suc (length ?cs)) chars"
    using loop(4,5) by (simp add: upd_conv_take_nth_drop)
  have "takeWhile (\<lambda>b. b \<noteq> 0) (chars[length ?cs := 0]) = map ucast ?cs"
    unfolding split using number_char_codes run_all [of number_char t m] by (auto simp: takeWhile_append takeWhile_tail)
  moreover have "signed_take_bit 31 (int m + int used) = int m + int used" if "used \<noteq> 0"
  proof (rule signed_take_bit_int_eq_self)
    have "used \<le> length ?cs" using assms(6) unfolding strtod_stays_def used_def by (metis length_map)
    moreover have "length ?cs \<le> length (drop m t)" by (simp only: run_from_def length_takeWhile_le)
    ultimately show "int m + int used < 2 ^ 31" using assms(5) that by simp
  qed simp
  ultimately show ?thesis
    using b1(1) loop by (auto simp: CFStringScanDouble_def used_def split: prod.splits)
qed

section \<open>Instances\<close>

text \<open>A window on a text in memory, and one that goes through its buffer.\<close>

definition direct_window :: "unichar list \<Rightarrow> CFStringInlineBuffer" where
  "direct_window str = CFStringInitInlineBuffer (Some str) None (replicate 64 0) str 0 (int (length str))"

definition buffered_window :: "unichar list \<Rightarrow> CFStringInlineBuffer" where
  "buffered_window str = CFStringInitInlineBuffer None None (replicate 64 0) str 0 (int (length str))"

lemma windows_ok:
  "inline_ok (direct_window str)" "inline_text (direct_window str) = str" "inline_ok (buffered_window str)" "inline_text (buffered_window str) = str"
  by (auto simp: direct_window_def buffered_window_def CFStringInitInlineBuffer_def inline_ok_def inline_text_def kCFStringInlineBufferLength_def)

theorem scan_integer_value_witness:
  "\<exists>buf'. CFStringScanInteger (buffered_window [0x20, 0x2D, 0x39, 0x38, 0x37, 0x36, 0x35, 0x34, 0x33, 0x32, 0x31, 0x30, 0x2E]) 0 False =
    Inr (Some INT_MIN, buf', 12)"
proof -
  let ?t = "[0x20, 0x2D, 0x39, 0x38, 0x37, 0x36, 0x35, 0x34, 0x33, 0x32, 0x31, 0x30, 0x2E] :: unichar list"
  have "sign_at ?t 0 = (True, 2)" "digits_from ?t 2 = [0x39, 0x38, 0x37, 0x36, 0x35, 0x34, 0x33, 0x32, 0x31, 0x30]"
    by (simp_all add: sign_at_def after_spaces_def run_from_def text_char_def CFIsWhitespace_def CFCharacterIsADigit_def Let_def)
  moreover have "decimal 0 [0x39, 0x38, 0x37, 0x36, 0x35, 0x34, 0x33, 0x32, 0x31, 0x30] = 9876543210"
    by (simp add: CFCharacterNumericValue_def)
  moreover have "clamp INT_MAX (- 9876543210) = INT_MIN" by (simp add: clamp_def INT_MAX_def INT_MIN_def)
  ultimately show ?thesis using scan_integer_value [OF windows_ok(3,4), of ?t 0 False] by auto
qed

theorem scan_hex_value_witness:
  "\<exists>buf'. CFStringScanHex (direct_window [0x30, 0x78, 0x31, 0x46, 0x67]) 0 = Inr (Some 31, buf', 4)"
proof -
  let ?t = "[0x30, 0x78, 0x31, 0x46, 0x67] :: unichar list"
  have at: "after_spaces ?t 0 = 0" "hex_prefix ?t 0 = 2" "run_from is_hex ?t 2 = [0x31, 0x46]"
    by (simp_all add: after_spaces_def hex_prefix_def run_from_def text_char_def CFIsWhitespace_def CFCharacterNumericOrHexValue_def)
  have "hex_word (hexadecimal 0 [0x31, 0x46]) = 31" by (simp add: hex_word_def CFCharacterNumericOrHexValue_def)
  then show ?thesis
    using scan_hex_value [OF windows_ok(1,2), of ?t 0] unfolding at(1,2) add_0 at(3) by (auto simp del: hexadecimal_simps)
qed

theorem scan_hex_stays_witness:
  "\<exists>buf'. CFStringScanHex (direct_window [0x30, 0x20, 0x31]) 0 = Inr (Some 0, buf', 0) \<and> inline_ok buf' \<and> inline_text buf' = [0x30, 0x20, 0x31]"
  using scan_hex_stays [OF windows_ok(1), of "[0x30, 0x20, 0x31]" 0]
  by (simp add: windows_ok(2) text_char_def CFCharacterNumericOrHexValue_def)

definition count_env :: "nat double_env" where
  "count_env = \<lparr>de_allocate = (\<lambda>size. Some (replicate size 0)), de_strtod = (\<lambda>chars. (length chars, length chars))\<rparr>"

theorem scan_double_value_witness:
  "\<exists>buf'. CFStringScanDouble count_env (replicate 256 0) (direct_window (replicate 1000 0x31)) 0 = Inr (Some 1000, buf', 1000)"
proof -
  let ?t = "replicate 1000 0x31 :: unichar list"
  have env: "allocates_blocks count_env" "length (replicate 256 (0 :: byte)) = 256" by (simp_all add: allocates_blocks_def count_env_def)
  have "number_char 0x31" by (simp add: number_char_def in_number_set_def CFNumberSet_def)
  then have run: "run_from number_char ?t 0 = ?t" by (simp add: run_from_def takeWhile_eq_all_conv)
  have "after_spaces ?t 0 = 0" by (simp add: after_spaces_def run_from_def CFIsWhitespace_def takeWhile_eq_Nil_iff)
  moreover have "strtod_stays count_env" by (simp add: strtod_stays_def count_env_def)
  ultimately show ?thesis
    using scan_double_value [OF env windows_ok(1,2), of ?t 0] run by (auto simp: count_env_def)
qed

end
