(* ===== verification/CF_BinaryHeap.thy ===== *)
theory CF_BinaryHeap
  imports CF_Prelude
begin

text \<open>
  \<open>CFBinaryHeap.c\<close>: the array-based binary heap. First the state and the operations in the order of
  the source, then heap order and its preservation, then the priority-queue interface and what its
  clients (\<open>CFBinaryHeapGetValues\<close>, \<open>CFBinaryHeapApplyFunction\<close>) obtain from it.

  The operations that run client callbacks return, beside the new heap, the list of the retain and
  release calls they made, in order. The callbacks themselves and the allocator are the \<open>env\<close>
  argument. The collectable (garbage-collected) allocator variants are not modelled.
\<close>

section \<open>State\<close>

record CFBinaryHeapCallBacks =
  cb_retain :: ptr
  cb_release :: ptr
  cb_copyDescription :: ptr
  cb_compare :: ptr

record CFBinaryHeap =
  hp_count :: nat
  hp_capacity :: nat
  hp_callbacks :: CFBinaryHeapCallBacks
  hp_info :: ptr
  hp_buckets :: "ptr list"
  hp_variety :: nat

text \<open>
  The outside world: whether an object can be created, what a fresh block of \<open>n\<close> slots holds (or
  \<open>None\<close> for a failed allocation), and what the code at a callback address does.
\<close>

record heap_env =
  he_create :: bool
  he_alloc :: "nat \<Rightarrow> (nat \<Rightarrow> ptr) option"
  he_retain :: "ptr \<Rightarrow> ptr \<Rightarrow> ptr"
  he_compare :: "ptr \<Rightarrow> ptr \<Rightarrow> ptr \<Rightarrow> ptr \<Rightarrow> int"

definition kCFBinaryHeapMutable :: nat where "kCFBinaryHeapMutable = 1"

section \<open>Operations\<close>

definition CFBinaryHeapRoundUpCapacity :: "nat \<Rightarrow> nat cf" where
  "CFBinaryHeapRoundUpCapacity capacity =
     (if capacity < 4 then Inr 4 else int_shift_1 (flsl capacity))"

definition CFBinaryHeapMutableVarietyFromFlags :: "nat \<Rightarrow> nat" where
  "CFBinaryHeapMutableVarietyFromFlags flags = flags mod 4"

text \<open>
  The test the sift loops make: \<open>item\<close> goes after \<open>value\<close>. Without a compare callback the pointers
  themselves are compared.
\<close>

definition heap_gt :: "heap_env \<Rightarrow> CFBinaryHeapCallBacks \<Rightarrow> ptr \<Rightarrow> ptr \<Rightarrow> ptr \<Rightarrow> bool" where
  "heap_gt env cb info a b =
     (if cb_compare cb = NULL then a > b
      else he_compare env (cb_compare cb) a b info = kCFCompareGreaterThan)"

abbreviation hp_gt :: "heap_env \<Rightarrow> CFBinaryHeap \<Rightarrow> ptr \<Rightarrow> ptr \<Rightarrow> bool" where
  "hp_gt env h \<equiv> heap_gt env (hp_callbacks h) (hp_info h)"

definition heap_retain :: "heap_env \<Rightarrow> CFBinaryHeapCallBacks \<Rightarrow> ptr \<Rightarrow> ptr" where
  "heap_retain env cb v = (if cb_retain cb = NULL then v else he_retain env (cb_retain cb) v)"

definition heap_retain_event :: "CFBinaryHeapCallBacks \<Rightarrow> ptr \<Rightarrow> ref_event list" where
  "heap_retain_event cb v = (if cb_retain cb = NULL then [] else [Retained v])"

definition heap_release_event :: "CFBinaryHeapCallBacks \<Rightarrow> ptr \<Rightarrow> ref_event list" where
  "heap_release_event cb v = (if cb_release cb = NULL then [] else [Released v])"

text \<open>\<open>realloc\<close>: the fresh block keeps the old cells that fit, the others are unspecified.\<close>

definition heap_realloc :: "heap_env \<Rightarrow> ptr list \<Rightarrow> nat \<Rightarrow> ptr list option" where
  "heap_realloc env bs n =
     map_option (\<lambda>junk. take n bs @ map junk [length bs..<n]) (he_alloc env n)"

definition CFBinaryHeapGrow :: "heap_env \<Rightarrow> CFBinaryHeap \<Rightarrow> nat \<Rightarrow> CFBinaryHeap cf" where
  "CFBinaryHeapGrow env heap numNewValues =
     ebind (CFBinaryHeapRoundUpCapacity (hp_count heap + numNewValues)) (\<lambda>capacity.
     case heap_realloc env (hp_buckets heap) capacity of
       None \<Rightarrow> Inl Halt
     | Some bs \<Rightarrow> Inr (heap\<lparr>hp_capacity := capacity, hp_buckets := bs\<rparr>))"

text \<open>The loop of \<open>CFBinaryHeapAddValue\<close>: moves the hole at \<open>idx\<close> towards the root.\<close>

function heap_up :: "(ptr \<Rightarrow> ptr \<Rightarrow> bool) \<Rightarrow> ptr list \<Rightarrow> nat \<Rightarrow> ptr \<Rightarrow> (ptr list \<times> nat) cf" where
  "heap_up gt bs idx value =
     (if 0 < idx then
        (let pidx = (idx - 1) div 2 in
         ebind (rd bs pidx) (\<lambda>item.
           if \<not> gt item value then Inr (bs, idx)
           else ebind (wr bs idx item) (\<lambda>bs'. heap_up gt bs' pidx value)))
      else Inr (bs, idx))"
  by pat_completeness auto
termination
  by (relation "measure (\<lambda>(gt, bs, idx, value). idx)") auto

definition CFBinaryHeapAddValue ::
  "heap_env \<Rightarrow> CFBinaryHeap \<Rightarrow> ptr \<Rightarrow> (CFBinaryHeap \<times> ref_event list) cf" where
  "CFBinaryHeapAddValue env heap value =
     ebind (if hp_variety heap = kCFBinaryHeapMutable \<and> hp_count heap = hp_capacity heap
            then CFBinaryHeapGrow env heap 1 else Inr heap) (\<lambda>heap.
     let cnt = hp_count heap in
     ebind (heap_up (hp_gt env heap) (hp_buckets heap) cnt value) (\<lambda>(bs, idx).
     ebind (wr bs idx (heap_retain env (hp_callbacks heap) value)) (\<lambda>bs.
     Inr (heap\<lparr>hp_count := cnt + 1, hp_buckets := bs\<rparr>,
          heap_retain_event (hp_callbacks heap) value))))"

text \<open>
  The loop of \<open>CFBinaryHeapRemoveMinimumValue\<close>: moves the hole at \<open>idx\<close> to where \<open>val\<close> belongs
  among the first \<open>n\<close> slots.
\<close>

definition heap_child :: "(ptr \<Rightarrow> ptr \<Rightarrow> bool) \<Rightarrow> ptr list \<Rightarrow> nat \<Rightarrow> nat \<Rightarrow> (nat \<times> ptr) cf" where
  "heap_child gt bs n cidx =
     ebind (rd bs cidx) (\<lambda>item.
       if cidx + 1 < n then
         ebind (rd bs (cidx + 1)) (\<lambda>item2.
           if gt item item2 then Inr (cidx + 1, item2) else Inr (cidx, item))
       else Inr (cidx, item))"

lemma heap_child_index: "heap_child gt bs n cidx = Inr (c, item) \<Longrightarrow> c = cidx \<or> c = cidx + 1"
  by (auto simp: heap_child_def split: if_splits)

function heap_down ::
  "(ptr \<Rightarrow> ptr \<Rightarrow> bool) \<Rightarrow> ptr list \<Rightarrow> nat \<Rightarrow> nat \<Rightarrow> ptr \<Rightarrow> (ptr list \<times> nat) cf" where
  "heap_down gt bs n idx val =
     (let cidx = 2 * idx + 1 in
      if cidx < n then
        ebind (heap_child gt bs n cidx) (\<lambda>(c, item).
          if gt item val then Inr (bs, idx)
          else ebind (wr bs idx item) (\<lambda>bs'. heap_down gt bs' n c val))
      else Inr (bs, idx))"
  by pat_completeness auto
termination
  by (relation "measure (\<lambda>(gt, bs, n, idx, val). n - idx)") (auto dest: heap_child_index)

declare heap_up.simps [simp del] heap_down.simps [simp del]

definition CFBinaryHeapRemoveMinimumValue ::
  "heap_env \<Rightarrow> CFBinaryHeap \<Rightarrow> (CFBinaryHeap \<times> ref_event list) cf" where
  "CFBinaryHeapRemoveMinimumValue env heap =
     (let cnt = hp_count heap in
      if cnt = 0 then Inr (heap, [])
      else
        ebind (rd (hp_buckets heap) 0) (\<lambda>root.
        ebind (rd (hp_buckets heap) (cnt - 1)) (\<lambda>val.
        ebind (heap_down (hp_gt env heap) (hp_buckets heap) (cnt - 1) 0 val) (\<lambda>(bs, idx).
        ebind (wr bs idx val) (\<lambda>bs.
        Inr (heap\<lparr>hp_count := cnt - 1, hp_buckets := bs\<rparr>,
             heap_release_event (hp_callbacks heap) root))))))"

fun heap_release_all :: "CFBinaryHeap \<Rightarrow> nat \<Rightarrow> nat \<Rightarrow> ref_event list cf" where
  "heap_release_all heap idx 0 = Inr []"
| "heap_release_all heap idx (Suc n) =
     ebind (rd (hp_buckets heap) idx) (\<lambda>item.
     ebind (heap_release_all heap (idx + 1) n) (\<lambda>evs. Inr (Released item # evs)))"

definition CFBinaryHeapRemoveAllValues :: "CFBinaryHeap \<Rightarrow> (CFBinaryHeap \<times> ref_event list) cf" where
  "CFBinaryHeapRemoveAllValues heap =
     ebind (if cb_release (hp_callbacks heap) \<noteq> NULL
            then heap_release_all heap 0 (hp_count heap) else Inr []) (\<lambda>evs.
     Inr (heap\<lparr>hp_count := 0\<rparr>, evs))"

text \<open>Deallocation releases the values; the heap object and its buckets are gone afterwards.\<close>

definition CFBinaryHeapDeallocate :: "CFBinaryHeap \<Rightarrow> ref_event list cf" where
  "CFBinaryHeapDeallocate heap = ebind (CFBinaryHeapRemoveAllValues heap) (\<lambda>(_, evs). Inr evs)"

fun heap_add_all ::
  "heap_env \<Rightarrow> CFBinaryHeap \<Rightarrow> ptr list \<Rightarrow> (CFBinaryHeap \<times> ref_event list) cf" where
  "heap_add_all env heap [] = Inr (heap, [])"
| "heap_add_all env heap (v # vs) =
     ebind (CFBinaryHeapAddValue env heap v) (\<lambda>(heap, evs).
     ebind (heap_add_all env heap vs) (\<lambda>(heap, evs'). Inr (heap, evs @ evs')))"

text \<open>
  \<open>__CFBinaryHeapInit\<close>; the result \<open>None\<close> is the \<open>NULL\<close> of a failed allocation. The \<open>capacity\<close>
  argument is not used by the code. \<open>callBacks\<close> and \<open>compareContext\<close> may be absent.
\<close>

definition CFBinaryHeapInit ::
  "heap_env \<Rightarrow> nat \<Rightarrow> nat \<Rightarrow> ptr list \<Rightarrow> CFBinaryHeapCallBacks option \<Rightarrow> ptr option \<Rightarrow>
   (CFBinaryHeap \<times> ref_event list) option cf" where
  "CFBinaryHeapInit env flags capacity values callBacks compareContext =
     (if \<not> he_create env then Inr None
      else
        ebind (CFBinaryHeapRoundUpCapacity 1) (\<lambda>cap.
        case he_alloc env cap of
          None \<Rightarrow> Inr None
        | Some junk \<Rightarrow>
            (let memory =
               \<lparr>hp_count = 0, hp_capacity = cap,
                hp_callbacks =
                  (case callBacks of Some cb \<Rightarrow> cb
                   | None \<Rightarrow> \<lparr>cb_retain = NULL, cb_release = NULL, cb_copyDescription = NULL,
                              cb_compare = NULL\<rparr>),
                hp_info = (case compareContext of Some i \<Rightarrow> i | None \<Rightarrow> NULL),
                hp_buckets = map junk [0..<cap],
                hp_variety = kCFBinaryHeapMutable\<rparr> in
             ebind (heap_add_all env memory values) (\<lambda>(memory, evs).
             Inr (Some (memory\<lparr>hp_variety := CFBinaryHeapMutableVarietyFromFlags flags\<rparr>, evs))))))"

definition CFBinaryHeapCreate ::
  "heap_env \<Rightarrow> nat \<Rightarrow> CFBinaryHeapCallBacks option \<Rightarrow> ptr option \<Rightarrow>
   (CFBinaryHeap \<times> ref_event list) option cf" where
  "CFBinaryHeapCreate env capacity callBacks compareContext =
     CFBinaryHeapInit env kCFBinaryHeapMutable capacity [] callBacks compareContext"

definition CFBinaryHeapCreateCopy ::
  "heap_env \<Rightarrow> nat \<Rightarrow> CFBinaryHeap \<Rightarrow> (CFBinaryHeap \<times> ref_event list) option cf" where
  "CFBinaryHeapCreateCopy env capacity heap =
     ebind (slice (hp_buckets heap) 0 (hp_count heap)) (\<lambda>values.
     CFBinaryHeapInit env kCFBinaryHeapMutable capacity values
       (Some (hp_callbacks heap)) (Some (hp_info heap)))"

definition CFBinaryHeapGetCount :: "CFBinaryHeap \<Rightarrow> nat" where
  "CFBinaryHeapGetCount heap = hp_count heap"

definition CFBinaryHeapHash :: "CFBinaryHeap \<Rightarrow> nat" where
  "CFBinaryHeapHash heap = hp_count heap"

text \<open>\<open>heap_same\<close> is the test of the two search loops.\<close>

definition heap_same :: "heap_env \<Rightarrow> CFBinaryHeap \<Rightarrow> ptr \<Rightarrow> ptr \<Rightarrow> bool" where
  "heap_same env heap value item \<longleftrightarrow>
     value = item \<or>
     (cb_compare (hp_callbacks heap) \<noteq> NULL \<and>
      kCFCompareEqualTo = he_compare env (cb_compare (hp_callbacks heap)) value item (hp_info heap))"

fun heap_count_from :: "heap_env \<Rightarrow> CFBinaryHeap \<Rightarrow> ptr \<Rightarrow> nat \<Rightarrow> nat \<Rightarrow> nat \<Rightarrow> nat cf" where
  "heap_count_from env heap value idx 0 cnt = Inr cnt"
| "heap_count_from env heap value idx (Suc n) cnt =
     ebind (rd (hp_buckets heap) idx) (\<lambda>item.
     heap_count_from env heap value (idx + 1) n
       (if heap_same env heap value item then cnt + 1 else cnt))"

definition CFBinaryHeapGetCountOfValue :: "heap_env \<Rightarrow> CFBinaryHeap \<Rightarrow> ptr \<Rightarrow> nat cf" where
  "CFBinaryHeapGetCountOfValue env heap value = heap_count_from env heap value 0 (hp_count heap) 0"

fun heap_search_from :: "heap_env \<Rightarrow> CFBinaryHeap \<Rightarrow> ptr \<Rightarrow> nat \<Rightarrow> nat \<Rightarrow> bool cf" where
  "heap_search_from env heap value idx 0 = Inr False"
| "heap_search_from env heap value idx (Suc n) =
     ebind (rd (hp_buckets heap) idx) (\<lambda>item.
     if heap_same env heap value item then Inr True
     else heap_search_from env heap value (idx + 1) n)"

definition CFBinaryHeapContainsValue :: "heap_env \<Rightarrow> CFBinaryHeap \<Rightarrow> ptr \<Rightarrow> bool cf" where
  "CFBinaryHeapContainsValue env heap value = heap_search_from env heap value 0 (hp_count heap)"

definition CFBinaryHeapGetMinimum :: "CFBinaryHeap \<Rightarrow> ptr cf" where
  "CFBinaryHeapGetMinimum heap = (if 0 < hp_count heap then rd (hp_buckets heap) 0 else Inr NULL)"

text \<open>The result \<open>None\<close> is the answer \<open>false\<close>; \<open>Some v\<close> is \<open>true\<close> with \<open>v\<close> stored through \<open>value\<close>.\<close>

definition CFBinaryHeapGetMinimumIfPresent :: "CFBinaryHeap \<Rightarrow> ptr option cf" where
  "CFBinaryHeapGetMinimumIfPresent heap =
     (if hp_count heap = 0 then Inr None else ebind (rd (hp_buckets heap) 0) (\<lambda>v. Inr (Some v)))"

lemma RemoveMinimumValue_count:
  "CFBinaryHeapRemoveMinimumValue env heap = Inr (heap', evs) \<Longrightarrow> hp_count heap' = hp_count heap - 1"
  by (auto simp: CFBinaryHeapRemoveMinimumValue_def Let_def split: if_splits)

text \<open>
  The loop of \<open>CFBinaryHeapGetValues\<close> and \<open>CFBinaryHeapApplyFunction\<close>: read the minimum, remove it,
  hand it over, until the copy is empty.
\<close>

function heap_drain :: "heap_env \<Rightarrow> CFBinaryHeap \<Rightarrow> (CFBinaryHeap \<times> ptr list \<times> ref_event list) cf" where
  "heap_drain env heap =
     (if 0 < hp_count heap then
        ebind (CFBinaryHeapGetMinimum heap) (\<lambda>value.
        ebind (CFBinaryHeapRemoveMinimumValue env heap) (\<lambda>(heap', evs).
        ebind (heap_drain env heap') (\<lambda>(heap'', values, evs').
        Inr (heap'', value # values, evs @ evs'))))
      else Inr (heap, [], []))"
  by pat_completeness auto
termination
  by (relation "measure (\<lambda>(env, heap). hp_count heap)") (auto dest: RemoveMinimumValue_count)

declare heap_drain.simps [simp del]

definition CFBinaryHeapGetValues ::
  "heap_env \<Rightarrow> CFBinaryHeap \<Rightarrow> (ptr list \<times> ref_event list) cf" where
  "CFBinaryHeapGetValues env heap =
     (let cnt = hp_count heap in
      if cnt = 0 then Inr ([], [])
      else
        ebind (CFBinaryHeapCreateCopy env cnt heap) (\<lambda>r.
        case r of
          None \<Rightarrow> Inl NullPointer
        | Some (heapCopy, evs1) \<Rightarrow>
            ebind (heap_drain env heapCopy) (\<lambda>(heapCopy, values, evs2).
            ebind (CFBinaryHeapDeallocate heapCopy) (\<lambda>evs3.
            Inr (values, evs1 @ evs2 @ evs3)))))"

text \<open>The applier is a client function with an effect on a client state \<open>'s\<close> (its context).\<close>

definition CFBinaryHeapApplyFunction ::
  "heap_env \<Rightarrow> CFBinaryHeap \<Rightarrow> (ptr \<Rightarrow> 's \<Rightarrow> 's) \<Rightarrow> 's \<Rightarrow> ('s \<times> ref_event list) cf" where
  "CFBinaryHeapApplyFunction env heap applier context =
     (if hp_count heap = 0 then Inr (context, [])
      else
        ebind (CFBinaryHeapCreateCopy env (hp_count heap) heap) (\<lambda>r.
        case r of
          None \<Rightarrow> Inl NullPointer
        | Some (heapCopy, evs1) \<Rightarrow>
            ebind (heap_drain env heapCopy) (\<lambda>(heapCopy, values, evs2).
            ebind (CFBinaryHeapDeallocate heapCopy) (\<lambda>evs3.
            Inr (fold applier values context, evs1 @ evs2 @ evs3)))))"

text \<open>
  \<open>__CFBinaryHeapEqual\<close>. The loop answers \<open>false\<close> when the compare callback returns zero, as the
  source does: \<open>if (!compare(val1, val2, info)) return false\<close>.
\<close>

fun heap_equal_loop :: "heap_env \<Rightarrow> CFBinaryHeapCallBacks \<Rightarrow> ptr \<Rightarrow> ptr list \<Rightarrow> ptr list \<Rightarrow> bool" where
  "heap_equal_loop env cb info (val1 # list1) (val2 # list2) =
     (if val1 \<noteq> val2 \<and> cb_compare cb = NULL then False
      else if val1 \<noteq> val2 \<and> he_compare env (cb_compare cb) val1 val2 info = 0 then False
      else heap_equal_loop env cb info list1 list2)"
| "heap_equal_loop env cb info _ _ = True"

definition CFBinaryHeapEqual ::
  "heap_env \<Rightarrow> CFBinaryHeap \<Rightarrow> CFBinaryHeap \<Rightarrow> (bool \<times> ref_event list) cf" where
  "CFBinaryHeapEqual env heap1 heap2 =
     (if hp_count heap1 \<noteq> hp_count heap2 then Inr (False, [])
      else if cb_compare (hp_callbacks heap1) \<noteq> cb_compare (hp_callbacks heap2) then Inr (False, [])
      else if hp_count heap1 = 0 then Inr (True, [])
      else
        ebind (CFBinaryHeapGetValues env heap1) (\<lambda>(list1, evs1).
        ebind (CFBinaryHeapGetValues env heap2) (\<lambda>(list2, evs2).
        Inr (heap_equal_loop env (hp_callbacks heap1) (hp_info heap1) list1 list2, evs1 @ evs2))))"

section \<open>Heap order\<close>

text \<open>
  The contract of the comparison the heap is created with: \<open>gt\<close> (``goes after'') is a strict weak
  order. Inside it, the first \<open>n\<close> slots are in heap order when no slot goes before its parent, and
  the two sift loops restore that order around the hole they move.
\<close>

definition heap_ordered :: "(ptr \<Rightarrow> ptr \<Rightarrow> bool) \<Rightarrow> ptr list \<Rightarrow> nat \<Rightarrow> bool" where
  "heap_ordered gt bs n \<longleftrightarrow> (\<forall>i. 0 < i \<longrightarrow> i < n \<longrightarrow> \<not> gt (bs ! ((i - 1) div 2)) (bs ! i))"

definition up_hole :: "(ptr \<Rightarrow> ptr \<Rightarrow> bool) \<Rightarrow> ptr list \<Rightarrow> nat \<Rightarrow> nat \<Rightarrow> ptr \<Rightarrow> bool" where
  "up_hole gt bs n h v \<longleftrightarrow> h < n \<and> n \<le> length bs \<and>
     (\<forall>i. 0 < i \<longrightarrow> i < n \<longrightarrow> i \<noteq> h \<longrightarrow> (i - 1) div 2 \<noteq> h \<longrightarrow> \<not> gt (bs ! ((i - 1) div 2)) (bs ! i)) \<and>
     (\<forall>i. 0 < i \<longrightarrow> i < n \<longrightarrow> (i - 1) div 2 = h \<longrightarrow>
        \<not> gt v (bs ! i) \<and> (0 < h \<longrightarrow> \<not> gt (bs ! ((h - 1) div 2)) (bs ! i)))"

definition down_hole :: "(ptr \<Rightarrow> ptr \<Rightarrow> bool) \<Rightarrow> ptr list \<Rightarrow> nat \<Rightarrow> nat \<Rightarrow> ptr \<Rightarrow> bool" where
  "down_hole gt bs n h v \<longleftrightarrow> n < length bs \<and> (h < n \<or> n = 0 \<and> h = 0) \<and>
     (\<forall>i. 0 < i \<longrightarrow> i < n \<longrightarrow> i \<noteq> h \<longrightarrow> (i - 1) div 2 \<noteq> h \<longrightarrow> \<not> gt (bs ! ((i - 1) div 2)) (bs ! i)) \<and>
     (\<forall>i. 0 < i \<longrightarrow> i < n \<longrightarrow> (i - 1) div 2 = h \<longrightarrow> 0 < h \<longrightarrow> \<not> gt (bs ! ((h - 1) div 2)) (bs ! i)) \<and>
     (0 < h \<longrightarrow> \<not> gt (bs ! ((h - 1) div 2)) v)"

lemma parent_less: "0 < (i::nat) \<Longrightarrow> (i - 1) div 2 < i"
  by auto

lemma parent_child: "0 < (i::nat) \<Longrightarrow> (i - 1) div 2 = h \<longleftrightarrow> i = 2 * h + 1 \<or> i = 2 * h + 2"
  by auto

locale heap_ordering =
  fixes gt :: "ptr \<Rightarrow> ptr \<Rightarrow> bool"
  assumes gt_asym: "gt a b \<Longrightarrow> \<not> gt b a"
    and gt_negtrans: "\<not> gt a b \<Longrightarrow> \<not> gt b c \<Longrightarrow> \<not> gt a c"
begin

lemma up_hole_fill:
  assumes hole: "up_hole gt bs n h v" and stop: "0 < h \<Longrightarrow> \<not> gt (bs ! ((h - 1) div 2)) v"
    and s: "\<And>x. gt x s = gt x v" "\<And>x. gt s x = gt v x"
  shows "heap_ordered gt (bs[h := s]) n"
  unfolding heap_ordered_def
proof (intro allI impI)
  fix i assume i: "0 < i" "i < n"
  have "(i - 1) div 2 < i" using i by simp
  then show "\<not> gt (bs[h := s] ! ((i - 1) div 2)) (bs[h := s] ! i)"
    using hole stop s i unfolding up_hole_def
    by (cases "i = h"; cases "(i - 1) div 2 = h") (auto simp: nth_list_update)
qed

lemma up_hole_move:
  assumes hole: "up_hole gt bs n h v" and h: "0 < h" and go: "gt (bs ! ((h - 1) div 2)) v"
  shows "up_hole gt (bs[h := bs ! ((h - 1) div 2)]) n ((h - 1) div 2) v"
proof -
  let ?p = "(h - 1) div 2" and ?bs = "bs[h := bs ! ((h - 1) div 2)]"
  have p: "?p < h" using h by simp
  have hn: "h < n" "n \<le> length bs" using hole by (auto simp: up_hole_def)
  have par: "\<not> gt v (bs ! i) \<and> \<not> gt (bs ! ?p) (bs ! i)"
    if "0 < i" "i < n" "(i - 1) div 2 = h" for i
    using hole that h by (auto simp: up_hole_def)
  have rest: "\<not> gt (bs ! ((i - 1) div 2)) (bs ! i)"
    if "0 < i" "i < n" "i \<noteq> h" "(i - 1) div 2 \<noteq> h" for i
    using hole that by (auto simp: up_hole_def)
  have one: "\<not> gt (?bs ! ((i - 1) div 2)) (?bs ! i)"
    if i: "0 < i" "i < n" "i \<noteq> ?p" "(i - 1) div 2 \<noteq> ?p" for i
  proof (cases "(i - 1) div 2 = h")
    case True
    then show ?thesis using par [of i] i hn parent_less [of i] by auto
  next
    case False
    then have "i \<noteq> h" using i by auto
    with False show ?thesis using rest [of i] i hn by auto
  qed
  have two: "\<not> gt v (?bs ! i) \<and> (0 < ?p \<longrightarrow> \<not> gt (?bs ! ((?p - 1) div 2)) (?bs ! i))"
    if i: "0 < i" "i < n" "(i - 1) div 2 = ?p" for i
  proof -
    have pp: "(?p - 1) div 2 \<noteq> h" "?p \<noteq> h" using p by auto
    have up: "0 < ?p \<Longrightarrow> \<not> gt (bs ! ((?p - 1) div 2)) (bs ! ?p)"
      using rest [of ?p] pp p hn by auto
    show ?thesis
    proof (cases "i = h")
      case True
      then show ?thesis using gt_asym [OF go] up pp hn by auto
    next
      case False
      have pi: "\<not> gt (bs ! ?p) (bs ! i)" using rest [of i] i False pp by auto
      have v: "\<not> gt v (bs ! i)" using gt_negtrans [OF gt_asym [OF go] pi] .
      have g: "\<not> gt (bs ! ((?p - 1) div 2)) (bs ! i)" if "0 < ?p"
        using gt_negtrans [OF up [OF that] pi] .
      show ?thesis using False pp v g by (simp add: nth_list_update)
    qed
  qed
  show ?thesis
    unfolding up_hole_def using one two hn p by auto
qed

lemma heap_up_correct:
  assumes "up_hole gt bs n h v" and s: "\<And>x. gt x s = gt x v" "\<And>x. gt s x = gt v x"
  shows "\<exists>bs' h'. heap_up gt bs h v = Inr (bs', h') \<and> h' < n \<and> length bs' = length bs \<and>
           heap_ordered gt (bs'[h' := s]) n \<and>
           mset (take n (bs'[h' := s])) = mset (take n (bs[h := s]))"
  using assms(1)
proof (induction h arbitrary: bs rule: less_induct)
  case (less h)
  let ?p = "(h - 1) div 2"
  have hn: "h < n" "n \<le> length bs" using less.prems by (auto simp: up_hole_def)
  show ?case
  proof (cases "0 < h \<and> gt (bs ! ?p) v")
    case False
    then have "heap_ordered gt (bs[h := s]) n"
      using up_hole_fill [OF less.prems _ s] by blast
    moreover have "heap_up gt bs h v = Inr (bs, h)"
      using False hn by (subst heap_up.simps) (auto simp: Let_def)
    ultimately show ?thesis using hn by simp
  next
    case True
    let ?bs = "bs[h := bs ! ?p]"
    have p: "?p < h" using True parent_less by blast
    obtain bs' h' where r: "heap_up gt ?bs ?p v = Inr (bs', h')" "h' < n"
        "length bs' = length bs" "heap_ordered gt (bs'[h' := s]) n"
        "mset (take n (bs'[h' := s])) = mset (take n (?bs[?p := s]))"
      using less.IH [OF p up_hole_move [OF less.prems]] True by auto
    have "mset (take n (?bs[?p := s])) = mset (take n (bs[h := s]))"
      using mset_take_move_hole [of h ?p n bs s] p hn by simp
    moreover have "heap_up gt bs h v = Inr (bs', h')"
      using True r(1) hn p by (subst heap_up.simps) (simp add: Let_def)
    ultimately show ?thesis using r by auto
  qed
qed

lemma heap_child_correct:
  assumes "2 * h + 1 < n" and "n \<le> length bs"
  obtains c where "heap_child gt bs n (2 * h + 1) = Inr (c, bs ! c)" "c < n" "0 < c" "(c - 1) div 2 = h"
    "\<And>i. 0 < i \<Longrightarrow> i < n \<Longrightarrow> (i - 1) div 2 = h \<Longrightarrow> i \<noteq> c \<Longrightarrow> \<not> gt (bs ! c) (bs ! i)"
proof (cases "2 * h + 2 < n \<and> gt (bs ! (2 * h + 1)) (bs ! (2 * h + 2))")
  case True
  have "\<not> gt (bs ! (2 * h + 2)) (bs ! i)"
    if "0 < i" "i < n" "(i - 1) div 2 = h" "i \<noteq> 2 * h + 2" for i
    using that gt_asym True parent_child [of i h] by auto
  then show thesis
    using that [of "2 * h + 2"] True assms by (auto simp: heap_child_def)
next
  case False
  have "\<not> gt (bs ! (2 * h + 1)) (bs ! i)"
    if "0 < i" "i < n" "(i - 1) div 2 = h" "i \<noteq> 2 * h + 1" for i
    using that False parent_child [of i h] by auto
  then show thesis
    using that [of "2 * h + 1"] False assms by (auto simp: heap_child_def)
qed

lemma down_hole_fill:
  assumes hole: "down_hole gt bs n h v"
    and stop: "\<And>i. 0 < i \<Longrightarrow> i < n \<Longrightarrow> (i - 1) div 2 = h \<Longrightarrow> \<not> gt v (bs ! i)"
  shows "heap_ordered gt (bs[h := v]) n"
  unfolding heap_ordered_def
proof (intro allI impI)
  fix i assume i: "0 < i" "i < n"
  have "(i - 1) div 2 < i" using i by simp
  then show "\<not> gt (bs[h := v] ! ((i - 1) div 2)) (bs[h := v] ! i)"
    using hole stop [OF i] i unfolding down_hole_def
    by (cases "i = h"; cases "(i - 1) div 2 = h") (auto simp: nth_list_update)
qed

lemma down_hole_move:
  assumes hole: "down_hole gt bs n h v" and c: "0 < c" "c < n" "(c - 1) div 2 = h"
    and least: "\<And>i. 0 < i \<Longrightarrow> i < n \<Longrightarrow> (i - 1) div 2 = h \<Longrightarrow> i \<noteq> c \<Longrightarrow> \<not> gt (bs ! c) (bs ! i)"
    and go: "\<not> gt (bs ! c) v"
  shows "down_hole gt (bs[h := bs ! c]) n c v"
proof -
  let ?bs = "bs[h := bs ! c]"
  have hc: "h < c" using parent_less [OF c(1)] c(3) by simp
  have len: "n < length bs" using hole by (simp add: down_hole_def)
  have rest: "\<not> gt (bs ! ((i - 1) div 2)) (bs ! i)"
    if "0 < i" "i < n" "i \<noteq> h" "(i - 1) div 2 \<noteq> h" for i
    using hole that by (auto simp: down_hole_def)
  have up: "\<not> gt (bs ! ((h - 1) div 2)) (bs ! i)"
    if "0 < i" "i < n" "(i - 1) div 2 = h" "0 < h" for i
    using hole that by (auto simp: down_hole_def)
  have one: "\<not> gt (?bs ! ((i - 1) div 2)) (?bs ! i)"
    if i: "0 < i" "i < n" "i \<noteq> c" "(i - 1) div 2 \<noteq> c" for i
  proof (cases "i = h")
    case True
    then show ?thesis using up [OF c] i hc len parent_less [of h] by (auto simp: nth_list_update)
  next
    case False
    then show ?thesis
      using least [OF i(1,2)] rest [OF i(1,2)] i hc len
      by (cases "(i - 1) div 2 = h") (auto simp: nth_list_update)
  qed
  have two: "\<not> gt (?bs ! ((c - 1) div 2)) (?bs ! i)"
    if i: "0 < i" "i < n" "(i - 1) div 2 = c" for i
    using rest [of i] i c hc len parent_less [of i] by (auto simp: nth_list_update)
  show ?thesis
    unfolding down_hole_def using one two go c hc len by (auto simp: nth_list_update)
qed

lemma heap_down_correct:
  assumes "down_hole gt bs n h v"
  shows "\<exists>bs' h'. heap_down gt bs n h v = Inr (bs', h') \<and> h' < length bs' \<and> length bs' = length bs \<and>
           heap_ordered gt (bs'[h' := v]) n \<and>
           (h < n \<longrightarrow> mset (take n (bs'[h' := v])) = mset (take n (bs[h := v])))"
  using assms
proof (induction "n - h" arbitrary: bs h rule: less_induct)
  case less
  have len: "n < length bs" "h < length bs" using less.prems by (auto simp: down_hole_def)
  have stop: ?case if "heap_down gt bs n h v = Inr (bs, h)"
    and "\<And>i. 0 < i \<Longrightarrow> i < n \<Longrightarrow> (i - 1) div 2 = h \<Longrightarrow> \<not> gt v (bs ! i)"
    using that down_hole_fill [OF less.prems] len by auto
  show ?case
  proof (cases "2 * h + 1 < n")
    case False
    have "heap_down gt bs n h v = Inr (bs, h)"
      using False by (subst heap_down.simps) (simp add: Let_def)
    then show ?thesis
      by (rule stop) (use False parent_child in auto)
  next
    case True
    obtain c where c: "heap_child gt bs n (2 * h + 1) = Inr (c, bs ! c)" "c < n" "0 < c" "(c - 1) div 2 = h"
      and least: "\<And>i. 0 < i \<Longrightarrow> i < n \<Longrightarrow> (i - 1) div 2 = h \<Longrightarrow> i \<noteq> c \<Longrightarrow> \<not> gt (bs ! c) (bs ! i)"
      using heap_child_correct [OF True, of bs] len by auto
    show ?thesis
    proof (cases "gt (bs ! c) v")
      case gtc: True
      have "heap_down gt bs n h v = Inr (bs, h)"
        using True gtc c by (subst heap_down.simps) (simp add: Let_def)
      then show ?thesis
      proof (rule stop)
        show "\<not> gt v (bs ! i)" if i: "0 < i" "i < n" "(i - 1) div 2 = h" for i
          using gt_asym [OF gtc] least [OF i] gt_negtrans by (cases "i = c") auto
      qed
    next
      case False
      let ?bs = "bs[h := bs ! c]"
      have hc: "h < c" using parent_less [OF c(3)] c(4) by simp
      obtain bs' h' where r: "heap_down gt ?bs n c v = Inr (bs', h')" "h' < length bs'"
          "length bs' = length bs" "heap_ordered gt (bs'[h' := v]) n"
          "mset (take n (bs'[h' := v])) = mset (take n (?bs[c := v]))"
        using less.hyps [of c ?bs, OF _ down_hole_move [OF less.prems c(3,2,4) least False]] c(2) hc
        by (auto simp: diff_less_mono2)
      have "heap_down gt bs n h v = Inr (bs', h')"
        using True False c r(1) len by (subst heap_down.simps) (simp add: Let_def)
      moreover have "mset (take n (?bs[c := v])) = mset (take n (bs[h := v]))"
        using mset_take_move_hole [of h c n bs v] c hc len by simp
      ultimately show ?thesis using r by auto
    qed
  qed
qed

text \<open>The root of an ordered heap goes before every other slot.\<close>

lemma heap_ordered_root:
  assumes "heap_ordered gt bs n" and "i < n"
  shows "\<not> gt (bs ! 0) (bs ! i)"
  using assms(2)
proof (induction i rule: less_induct)
  case (less i)
  show ?case
  proof (cases "i = 0")
    case True
    then show ?thesis using gt_asym by blast
  next
    case False
    then have "\<not> gt (bs ! ((i - 1) div 2)) (bs ! i)" "\<not> gt (bs ! 0) (bs ! ((i - 1) div 2))"
      using assms(1) less by (auto simp: heap_ordered_def)
    then show ?thesis using gt_negtrans by blast
  qed
qed

end

section \<open>The operations keep the heap\<close>

text \<open>
  \<open>heap_wf\<close> is the representation invariant, \<open>hp_items\<close> the abstract contents, a multiset.
  \<open>heap_env_ok\<close> collects what the operations expect of their surroundings: allocation succeeds, the
  comparison is a strict weak order, and retaining a value does not change where it sorts.
\<close>

definition hp_items :: "CFBinaryHeap \<Rightarrow> ptr multiset" where
  "hp_items h = mset (take (hp_count h) (hp_buckets h))"

definition heap_wf :: "heap_env \<Rightarrow> CFBinaryHeap \<Rightarrow> bool" where
  "heap_wf env h \<longleftrightarrow> hp_variety h = kCFBinaryHeapMutable \<and> hp_count h \<le> hp_capacity h \<and>
     length (hp_buckets h) = hp_capacity h \<and> 4 \<le> hp_capacity h \<and>
     heap_ordered (hp_gt env h) (hp_buckets h) (hp_count h)"

definition heap_env_ok :: "heap_env \<Rightarrow> CFBinaryHeapCallBacks \<Rightarrow> ptr \<Rightarrow> bool" where
  "heap_env_ok env cb info \<longleftrightarrow> he_create env \<and> (\<forall>n. he_alloc env n \<noteq> None) \<and>
     heap_ordering (heap_gt env cb info) \<and>
     (\<forall>v x. heap_gt env cb info x (heap_retain env cb v) = heap_gt env cb info x v \<and>
            heap_gt env cb info (heap_retain env cb v) x = heap_gt env cb info v x)"

lemma heap_env_okD:
  assumes "heap_env_ok env cb info"
  shows "he_create env" "\<exists>junk. he_alloc env n = Some junk" "heap_ordering (heap_gt env cb info)"
    "heap_gt env cb info x (heap_retain env cb v) = heap_gt env cb info x v"
    "heap_gt env cb info (heap_retain env cb v) x = heap_gt env cb info v x"
  using assms by (auto simp: heap_env_ok_def)

lemma heap_ordered_cong:
  "(\<And>i. i < n \<Longrightarrow> bs ! i = bs' ! i) \<Longrightarrow> heap_ordered gt bs n = heap_ordered gt bs' n"
  by (auto simp: heap_ordered_def)

lemma RoundUpCapacity_ok:
  assumes "n < 2 ^ 30"
  obtains c where "CFBinaryHeapRoundUpCapacity n = Inr c" "n < c" "4 \<le> c"
proof (cases "n < 4")
  case True
  then show thesis using that [of 4] by (simp add: CFBinaryHeapRoundUpCapacity_def)
next
  case False
  have "4 \<le> (2::nat) ^ flsl n" using flsl_upper [of n] False by linarith
  then show thesis
    using that [of "2 ^ flsl n"] False flsl_le [OF assms] flsl_upper [of n]
    by (simp add: CFBinaryHeapRoundUpCapacity_def int_shift_1_def)
qed

lemma Grow_correct:
  assumes "heap_env_ok env (hp_callbacks h) (hp_info h)" and "heap_wf env h" and "hp_count h + 1 < 2 ^ 30"
    and full: "hp_count h = hp_capacity h"
  obtains h' where "CFBinaryHeapGrow env h 1 = Inr h'" "heap_wf env h'" "hp_count h' < hp_capacity h'"
    "hp_count h' = hp_count h" "hp_items h' = hp_items h"
    "hp_callbacks h' = hp_callbacks h" "hp_info h' = hp_info h"
proof -
  obtain c where c: "CFBinaryHeapRoundUpCapacity (hp_count h + 1) = Inr c" "hp_count h + 1 < c" "4 \<le> c"
    using RoundUpCapacity_ok [OF assms(3)] by blast
  obtain junk where junk: "he_alloc env c = Some junk"
    using heap_env_okD(2) [OF assms(1)] by blast
  let ?bs = "hp_buckets h @ map junk [length (hp_buckets h)..<c]"
  have len: "length (hp_buckets h) = hp_count h" using assms(2) full by (simp add: heap_wf_def)
  have g: "CFBinaryHeapGrow env h 1 = Inr (h\<lparr>hp_capacity := c, hp_buckets := ?bs\<rparr>)"
    using c junk len by (simp add: CFBinaryHeapGrow_def heap_realloc_def)
  show thesis
  proof (rule that [OF g])
    have "heap_ordered (hp_gt env h) (hp_buckets h) (hp_count h) =
        heap_ordered (hp_gt env h) ?bs (hp_count h)"
      by (rule heap_ordered_cong) (simp add: nth_append len)
    then show "heap_wf env (h\<lparr>hp_capacity := c, hp_buckets := ?bs\<rparr>)"
      using assms(2) c len by (auto simp: heap_wf_def)
  qed (use c len in \<open>auto simp: hp_items_def\<close>)
qed

lemma AddValue_correct:
  assumes env: "heap_env_ok env (hp_callbacks h) (hp_info h)" and wf: "heap_wf env h"
    and small: "hp_count h + 1 < 2 ^ 30"
  obtains h' where
    "CFBinaryHeapAddValue env h v = Inr (h', heap_retain_event (hp_callbacks h) v)"
    "heap_wf env h'" "hp_items h' = add_mset (heap_retain env (hp_callbacks h) v) (hp_items h)"
    "hp_count h' = hp_count h + 1" "hp_callbacks h' = hp_callbacks h" "hp_info h' = hp_info h"
proof -
  let ?s = "heap_retain env (hp_callbacks h) v"
  obtain g where g: "(if hp_variety h = kCFBinaryHeapMutable \<and> hp_count h = hp_capacity h
        then CFBinaryHeapGrow env h 1 else Inr h) = Inr g"
    and wfg: "heap_wf env g" "hp_count g < hp_capacity g" "hp_count g = hp_count h"
      "hp_items g = hp_items h" "hp_callbacks g = hp_callbacks h" "hp_info g = hp_info h"
  proof (cases "hp_count h = hp_capacity h")
    case True
    then show thesis
      using Grow_correct [OF env wf small True] wf that by (metis heap_wf_def)
  next
    case False
    then show thesis using that [of h] wf by (auto simp: heap_wf_def)
  qed
  have "up_hole (hp_gt env g) (hp_buckets g) (hp_count g + 1) (hp_count g) v"
    using wfg unfolding heap_wf_def heap_ordered_def up_hole_def by auto
  then obtain bs i where up: "heap_up (hp_gt env g) (hp_buckets g) (hp_count g) v = Inr (bs, i)"
      "i < hp_count g + 1" "length bs = length (hp_buckets g)"
      "heap_ordered (hp_gt env g) (bs[i := ?s]) (hp_count g + 1)"
      "mset (take (hp_count g + 1) (bs[i := ?s])) =
       mset (take (hp_count g + 1) ((hp_buckets g)[hp_count g := ?s]))"
    using heap_ordering.heap_up_correct [of "hp_gt env g" "hp_buckets g" _ _ v ?s] heap_env_okD [OF env] wfg
    by metis
  let ?h = "g\<lparr>hp_count := hp_count g + 1, hp_buckets := bs[i := ?s]\<rparr>"
  have len: "hp_count g < length (hp_buckets g)" using wfg by (simp add: heap_wf_def)
  show thesis
  proof (rule that [of ?h])
    show "CFBinaryHeapAddValue env h v = Inr (?h, heap_retain_event (hp_callbacks h) v)"
      using g up len wfg by (simp add: CFBinaryHeapAddValue_def Let_def)
    show "heap_wf env ?h" using wfg up by (simp add: heap_wf_def)
    show "hp_items ?h = add_mset ?s (hp_items h)"
      using up len wfg(4) by (simp add: hp_items_def take_Suc_conv_app_nth)
  qed (use wfg in auto)
qed

lemma GetMinimum_correct:
  assumes "heap_ordering (hp_gt env h)" and "heap_wf env h" and "0 < hp_count h"
  shows "CFBinaryHeapGetMinimum h = Inr (hp_buckets h ! 0)" "hp_buckets h ! 0 \<in># hp_items h"
    "y \<in># hp_items h \<Longrightarrow> \<not> hp_gt env h (hp_buckets h ! 0) y"
proof -
  have len: "0 < length (hp_buckets h)" "hp_count h \<le> length (hp_buckets h)"
    using assms by (auto simp: heap_wf_def)
  show "CFBinaryHeapGetMinimum h = Inr (hp_buckets h ! 0)"
    using assms len by (simp add: CFBinaryHeapGetMinimum_def)
  show "hp_buckets h ! 0 \<in># hp_items h"
    using assms len by (auto simp: hp_items_def in_set_conv_nth intro!: exI [of _ 0])
  show "\<not> hp_gt env h (hp_buckets h ! 0) y" if "y \<in># hp_items h"
    using that len heap_ordering.heap_ordered_root [OF assms(1)] assms(2)
    by (auto simp: hp_items_def in_set_conv_nth heap_wf_def)
qed

lemma RemoveMinimum_correct:
  assumes ord: "heap_ordering (hp_gt env h)" and wf: "heap_wf env h" and "0 < hp_count h"
  obtains h' where
    "CFBinaryHeapRemoveMinimumValue env h =
       Inr (h', heap_release_event (hp_callbacks h) (hp_buckets h ! 0))"
    "heap_wf env h'" "hp_items h = add_mset (hp_buckets h ! 0) (hp_items h')"
    "hp_count h' = hp_count h - 1" "hp_callbacks h' = hp_callbacks h" "hp_info h' = hp_info h"
proof -
  let ?bs = "hp_buckets h" and ?n = "hp_count h - 1"
  let ?v = "?bs ! ?n"
  have len: "?n < length ?bs" "0 < length ?bs" using assms by (auto simp: heap_wf_def)
  have "down_hole (hp_gt env h) ?bs ?n 0 ?v"
    using assms unfolding heap_wf_def heap_ordered_def down_hole_def by auto
  then obtain bs i where down: "heap_down (hp_gt env h) ?bs ?n 0 ?v = Inr (bs, i)" "i < length bs"
      "length bs = length ?bs" "heap_ordered (hp_gt env h) (bs[i := ?v]) ?n"
      "0 < ?n \<longrightarrow> mset (take ?n (bs[i := ?v])) = mset (take ?n (?bs[0 := ?v]))"
    using heap_ordering.heap_down_correct [OF ord] by blast
  let ?h = "h\<lparr>hp_count := ?n, hp_buckets := bs[i := ?v]\<rparr>"
  have all: "take (hp_count h) ?bs = take ?n ?bs @ [?v]"
    using len assms(3) by (metis Suc_pred' take_Suc_conv_app_nth)
  have items: "hp_items h = add_mset (?bs ! 0) (hp_items ?h)"
  proof (cases "0 < ?n")
    case True
    then show ?thesis
      using take_update_swap_mset [of 0 ?n ?bs ?v] down(5) len all by (simp add: hp_items_def)
  next
    case False
    then show ?thesis using all by (simp add: hp_items_def)
  qed
  show thesis
  proof (rule that [of ?h])
    show "CFBinaryHeapRemoveMinimumValue env h =
        Inr (?h, heap_release_event (hp_callbacks h) (?bs ! 0))"
      using assms down len by (simp add: CFBinaryHeapRemoveMinimumValue_def Let_def)
    show "heap_wf env ?h" using wf down by (auto simp: heap_wf_def)
  qed (use items in auto)
qed

lemma heap_add_all_correct:
  assumes "heap_env_ok env (hp_callbacks h) (hp_info h)" and "heap_wf env h"
    and "hp_count h + length vs < 2 ^ 30"
  shows "\<exists>h'. heap_add_all env h vs = Inr (h', concat (map (heap_retain_event (hp_callbacks h)) vs)) \<and>
    heap_wf env h' \<and>
    hp_items h' = hp_items h + image_mset (heap_retain env (hp_callbacks h)) (mset vs) \<and>
    hp_count h' = hp_count h + length vs \<and> hp_callbacks h' = hp_callbacks h \<and> hp_info h' = hp_info h"
  using assms
proof (induction vs arbitrary: h)
  case Nil
  then show ?case by simp
next
  case (Cons v vs)
  obtain g where g: "CFBinaryHeapAddValue env h v = Inr (g, heap_retain_event (hp_callbacks h) v)"
      "heap_wf env g" "hp_items g = add_mset (heap_retain env (hp_callbacks h) v) (hp_items h)"
      "hp_count g = hp_count h + 1" "hp_callbacks g = hp_callbacks h" "hp_info g = hp_info h"
    using AddValue_correct [OF Cons.prems(1,2), of v] Cons.prems(3) by auto
  have "heap_env_ok env (hp_callbacks g) (hp_info g)" "hp_count g + length vs < 2 ^ 30"
    using Cons.prems(1,3) g by simp_all
  from Cons.IH [OF this(1) g(2) this(2)] obtain h' where
      "heap_add_all env g vs = Inr (h', concat (map (heap_retain_event (hp_callbacks g)) vs))"
      "heap_wf env h'" "hp_items h' = hp_items g + image_mset (heap_retain env (hp_callbacks g)) (mset vs)"
      "hp_count h' = hp_count g + length vs" "hp_callbacks h' = hp_callbacks g" "hp_info h' = hp_info g"
    by blast
  then show ?case
    by (intro exI [of _ h']) (simp add: g)
qed

lemma Init_correct:
  assumes env: "heap_env_ok env cb info" and "length vs < 2 ^ 30"
  obtains h where
    "CFBinaryHeapInit env kCFBinaryHeapMutable cap vs (Some cb) (Some info) =
       Inr (Some (h, concat (map (heap_retain_event cb) vs)))"
    "heap_wf env h" "hp_items h = image_mset (heap_retain env cb) (mset vs)"
    "hp_count h = length vs" "hp_callbacks h = cb" "hp_info h = info"
proof -
  obtain junk where junk: "he_alloc env 4 = Some junk"
    using heap_env_okD(2) [OF env] by blast
  let ?m = "\<lparr>hp_count = 0, hp_capacity = 4, hp_callbacks = cb, hp_info = info,
    hp_buckets = map junk [0..<4], hp_variety = kCFBinaryHeapMutable\<rparr>"
  have m: "heap_wf env ?m" "heap_env_ok env (hp_callbacks ?m) (hp_info ?m)"
      "hp_count ?m + length vs < 2 ^ 30" "hp_items ?m = {#}"
    using assms by (simp_all add: heap_wf_def heap_ordered_def hp_items_def)
  obtain h where h: "heap_add_all env ?m vs = Inr (h, concat (map (heap_retain_event cb) vs))"
      "heap_wf env h" "hp_items h = image_mset (heap_retain env cb) (mset vs)"
      "hp_count h = length vs" "hp_callbacks h = cb" "hp_info h = info"
    using heap_add_all_correct [OF m(2,1,3)] m(4) by fastforce
  have "h\<lparr>hp_variety := kCFBinaryHeapMutable\<rparr> = h"
    using h(2) by (simp add: heap_wf_def)
  moreover have "CFBinaryHeapMutableVarietyFromFlags kCFBinaryHeapMutable = kCFBinaryHeapMutable"
    by (simp add: CFBinaryHeapMutableVarietyFromFlags_def kCFBinaryHeapMutable_def)
  ultimately show thesis
    using that [of h] h junk heap_env_okD(1) [OF env]
    by (simp add: CFBinaryHeapInit_def CFBinaryHeapRoundUpCapacity_def)
qed

section \<open>The priority-queue interface\<close>

text \<open>
  What the clients of a heap rely on: reading the minimum, removing it, and the drain loop built of
  the two. The laws speak about the abstract contents only, so that draining is proved once.
\<close>

locale priority_queue =
  fixes invar :: "'q \<Rightarrow> bool" and items :: "'q \<Rightarrow> 'v multiset" and gt :: "'q \<Rightarrow> 'v \<Rightarrow> 'v \<Rightarrow> bool"
    and minimum :: "'q \<Rightarrow> 'v cf" and remove :: "'q \<Rightarrow> ('q \<times> 'e list) cf"
    and event :: "'q \<Rightarrow> 'v \<Rightarrow> 'e list" and drain :: "'q \<Rightarrow> ('q \<times> 'v list \<times> 'e list) cf"
  assumes minimum_least: "invar q \<Longrightarrow> items q \<noteq> {#} \<Longrightarrow>
      \<exists>x. minimum q = Inr x \<and> x \<in># items q \<and> (\<forall>y\<in>#items q. \<not> gt q x y)"
    and remove_minimum: "invar q \<Longrightarrow> items q \<noteq> {#} \<Longrightarrow> minimum q = Inr x \<Longrightarrow>
      \<exists>q'. remove q = Inr (q', event q x) \<and> invar q' \<and> items q = add_mset x (items q') \<and>
        gt q' = gt q \<and> event q' = event q"
    and drain_empty: "invar q \<Longrightarrow> items q = {#} \<Longrightarrow> drain q = Inr (q, [], [])"
    and drain_step: "invar q \<Longrightarrow> items q \<noteq> {#} \<Longrightarrow> drain q =
      ebind (minimum q) (\<lambda>x. ebind (remove q) (\<lambda>(q', evs).
      ebind (drain q') (\<lambda>(q'', xs, evs'). Inr (q'', x # xs, evs @ evs'))))"
begin

lemma drain_sorts:
  assumes "invar q"
  shows "\<exists>q' xs. drain q = Inr (q', xs, concat (map (event q) xs)) \<and> invar q' \<and> items q' = {#} \<and>
    mset xs = items q \<and> sorted_wrt (\<lambda>x y. \<not> gt q x y) xs"
  using assms
proof (induction "size (items q)" arbitrary: q)
  case 0
  then show ?case using drain_empty [of q] by simp
next
  case (Suc n)
  then have ne: "items q \<noteq> {#}" by auto
  obtain x where x: "minimum q = Inr x" "\<forall>y\<in>#items q. \<not> gt q x y"
    using minimum_least [OF Suc.prems ne] by blast
  obtain q' where q': "remove q = Inr (q', event q x)" "invar q'" "items q = add_mset x (items q')"
      "gt q' = gt q" "event q' = event q"
    using remove_minimum [OF Suc.prems ne x(1)] by blast
  have "n = size (items q')" using Suc.hyps(2) q'(3) by simp
  then obtain q'' xs where r: "drain q' = Inr (q'', xs, concat (map (event q) xs))" "invar q''"
      "items q'' = {#}" "mset xs = items q'" "sorted_wrt (\<lambda>x y. \<not> gt q x y) xs"
    using Suc.hyps(1) [of q'] q' by auto
  have "\<forall>y\<in>set xs. \<not> gt q x y"
    using x(2) q'(3) r(4) by (metis set_mset_mset union_iff add_mset_add_single)
  then show ?case
    using drain_step [OF Suc.prems ne] x q' r by (simp add: add.commute)
qed

end

definition heap_ok :: "heap_env \<Rightarrow> CFBinaryHeap \<Rightarrow> bool" where
  "heap_ok env h \<longleftrightarrow> heap_wf env h \<and> heap_ordering (hp_gt env h)"

lemma heap_items_empty: "heap_wf env h \<Longrightarrow> hp_items h = {#} \<longleftrightarrow> hp_count h = 0"
  by (auto simp: hp_items_def heap_wf_def)

interpretation heap_pq: priority_queue "heap_ok env" hp_items "hp_gt env" CFBinaryHeapGetMinimum
  "CFBinaryHeapRemoveMinimumValue env" "\<lambda>h. heap_release_event (hp_callbacks h)" "heap_drain env"
  for env
proof
  fix q assume q: "heap_ok env q" and ne: "hp_items q \<noteq> {#}"
  then have pos: "0 < hp_count q" by (auto simp: heap_ok_def heap_items_empty)
  show "\<exists>x. CFBinaryHeapGetMinimum q = Inr x \<and> x \<in># hp_items q \<and>
      (\<forall>y\<in>#hp_items q. \<not> hp_gt env q x y)"
    using GetMinimum_correct q pos unfolding heap_ok_def by blast
  show "\<exists>q'. CFBinaryHeapRemoveMinimumValue env q = Inr (q', heap_release_event (hp_callbacks q) x) \<and>
      heap_ok env q' \<and> hp_items q = add_mset x (hp_items q') \<and> hp_gt env q' = hp_gt env q \<and>
      heap_release_event (hp_callbacks q') = heap_release_event (hp_callbacks q)"
    if "CFBinaryHeapGetMinimum q = Inr x" for x
    using RemoveMinimum_correct [of env q] GetMinimum_correct(1) [of env q] q pos that
    unfolding heap_ok_def by (metis sum.inject(2))
  show "heap_drain env q = ebind (CFBinaryHeapGetMinimum q) (\<lambda>x.
      ebind (CFBinaryHeapRemoveMinimumValue env q) (\<lambda>(q', evs).
      ebind (heap_drain env q') (\<lambda>(q'', xs, evs'). Inr (q'', x # xs, evs @ evs'))))"
    using pos by (subst heap_drain.simps) simp
next
  fix q assume "heap_ok env q" and "hp_items q = {#}"
  then have "hp_count q = 0"
    using heap_items_empty [of env q] by (simp add: heap_ok_def)
  then show "heap_drain env q = Inr (q, [], [])"
    by (subst heap_drain.simps) simp
qed

section \<open>The clients\<close>

lemma GetValues_correct:
  assumes env: "heap_env_ok env (hp_callbacks h) (hp_info h)" and wf: "heap_wf env h"
    and small: "hp_count h < 2 ^ 30"
  obtains xs where
    "CFBinaryHeapGetValues env h =
       Inr (xs, concat (map (heap_retain_event (hp_callbacks h)) (take (hp_count h) (hp_buckets h))) @
                concat (map (heap_release_event (hp_callbacks h)) xs))"
    "mset xs = image_mset (heap_retain env (hp_callbacks h)) (hp_items h)"
    "sorted_wrt (\<lambda>x y. \<not> hp_gt env h x y) xs"
proof (cases "hp_count h = 0")
  case True
  then show thesis using that [of "[]"] by (simp add: CFBinaryHeapGetValues_def hp_items_def)
next
  case False
  let ?cb = "hp_callbacks h" and ?vs = "take (hp_count h) (hp_buckets h)"
  have len: "hp_count h \<le> length (hp_buckets h)" using wf by (simp add: heap_wf_def)
  obtain g where g: "CFBinaryHeapInit env kCFBinaryHeapMutable (hp_count h) ?vs (Some ?cb) (Some (hp_info h)) =
      Inr (Some (g, concat (map (heap_retain_event ?cb) ?vs)))" "heap_wf env g"
      "hp_items g = image_mset (heap_retain env ?cb) (mset ?vs)"
      "hp_callbacks g = ?cb" "hp_info g = hp_info h"
    using Init_correct [OF env, of ?vs "hp_count h"] small len by (metis length_take min.absorb2)
  have "heap_ok env g" using g env heap_env_okD(3) [OF env] by (simp add: heap_ok_def)
  then obtain g' xs where d: "heap_drain env g = Inr (g', xs, concat (map (heap_release_event ?cb) xs))"
      "heap_ok env g'" "hp_items g' = {#}" "mset xs = hp_items g" "sorted_wrt (\<lambda>x y. \<not> hp_gt env h x y) xs"
    using heap_pq.drain_sorts [of env g] g by auto
  have "hp_count g' = 0" using d heap_items_empty [of env g'] by (simp add: heap_ok_def)
  then have dealloc: "CFBinaryHeapDeallocate g' = Inr []"
    by (simp add: CFBinaryHeapDeallocate_def CFBinaryHeapRemoveAllValues_def)
  have sl: "slice (hp_buckets h) 0 (hp_count h) = Inr ?vs" using len by (simp add: slice_def)
  show thesis
    using that [of xs] False g d dealloc sl
    by (simp add: CFBinaryHeapGetValues_def CFBinaryHeapCreateCopy_def hp_items_def)
qed

lemma heap_release_all_eq:
  "i + n \<le> length (hp_buckets h) \<Longrightarrow>
   heap_release_all h i n = Inr (map Released (take n (drop i (hp_buckets h))))"
  by (induction h i n rule: heap_release_all.induct) (auto simp: Cons_nth_drop_Suc [symmetric])

lemma heap_count_from_eq:
  "i + n \<le> length (hp_buckets h) \<Longrightarrow>
   heap_count_from env h v i n c =
     Inr (c + length (filter (heap_same env h v) (take n (drop i (hp_buckets h)))))"
  by (induction n arbitrary: i c) (auto simp: Cons_nth_drop_Suc [symmetric])

lemma heap_search_from_eq:
  "i + n \<le> length (hp_buckets h) \<Longrightarrow>
   heap_search_from env h v i n =
     Inr (\<exists>x\<in>set (take n (drop i (hp_buckets h))). heap_same env h v x)"
  by (induction n arbitrary: i) (auto simp: Cons_nth_drop_Suc [symmetric])

section \<open>Properties\<close>

text \<open>A concrete surrounding for the witnesses: pointer order, and memory that is always granted.\<close>

definition plain_heap_env :: heap_env where
  "plain_heap_env = \<lparr>he_create = True, he_alloc = (\<lambda>n. Some (\<lambda>i. 0)), he_retain = (\<lambda>c v. v),
     he_compare = (\<lambda>c a b info. if a = b then kCFCompareEqualTo else kCFCompareLessThan)\<rparr>"

definition no_callbacks :: CFBinaryHeapCallBacks where
  "no_callbacks = \<lparr>cb_retain = NULL, cb_release = NULL, cb_copyDescription = NULL, cb_compare = NULL\<rparr>"

text \<open>A heap without a compare callback orders the pointers themselves.\<close>

interpretation pointer_order: heap_ordering "heap_gt env no_callbacks info" for env info
  by unfold_locales (auto simp: heap_gt_def no_callbacks_def)

definition four_heap :: CFBinaryHeap where
  "four_heap = \<lparr>hp_count = 4, hp_capacity = 4, hp_callbacks = no_callbacks, hp_info = NULL,
     hp_buckets = [16, 48, 32, 64], hp_variety = kCFBinaryHeapMutable\<rparr>"

lemma plain_heap_env_ok: "heap_env_ok plain_heap_env no_callbacks info"
  by (auto simp: heap_env_ok_def plain_heap_env_def heap_gt_def heap_retain_def no_callbacks_def
      heap_ordering_def)

lemma heap_ordered_upt:
  "heap_ordered gt bs n \<longleftrightarrow> (\<forall>i\<in>set [1..<n]. \<not> gt (bs ! ((i - 1) div 2)) (bs ! i))"
  by (auto simp: heap_ordered_def)

lemma four_heap_wf: "heap_wf plain_heap_env four_heap"
  by (simp add: heap_wf_def heap_ordered_upt four_heap_def heap_gt_def no_callbacks_def upt_rec)

lemma four_heap_items: "hp_items four_heap = {#16, 48, 32, 64#}"
  by (simp add: hp_items_def four_heap_def)

text \<open>C22. Adding a value to a well-formed heap (whose comparison callback is a strict weak order and
  whose memory requests are granted) succeeds without leaving any block, grows the buckets when they
  are full, keeps heap order, adds exactly the retained value to the contents, and runs the retain
  callback once.\<close>

theorem heap_add_value:
  assumes "heap_env_ok env (hp_callbacks h) (hp_info h)" and "heap_wf env h"
    and "hp_count h + 1 < 2 ^ 30"
  shows "\<exists>h'. CFBinaryHeapAddValue env h v = Inr (h', heap_retain_event (hp_callbacks h) v) \<and>
    heap_wf env h' \<and> hp_items h' = add_mset (heap_retain env (hp_callbacks h) v) (hp_items h) \<and>
    hp_count h' = hp_count h + 1"
  using AddValue_correct [OF assms] by metis

theorem heap_add_value_witness:
  "\<exists>h'. CFBinaryHeapAddValue plain_heap_env four_heap 8 = Inr (h', []) \<and>
    heap_wf plain_heap_env h' \<and> hp_items h' = {#8, 16, 48, 32, 64#} \<and> hp_count h' = 5"
  using heap_add_value [of plain_heap_env four_heap 8] plain_heap_env_ok [of NULL] four_heap_wf
  by (simp add: four_heap_items heap_retain_event_def heap_retain_def)
    (simp add: four_heap_def no_callbacks_def)

text \<open>C25. On a non-empty well-formed heap the minimum read is a least element of the contents, and
  removing the minimum succeeds, removes exactly that element, keeps heap order, and releases it.\<close>

theorem heap_remove_minimum:
  assumes "heap_ordering (hp_gt env h)" and "heap_wf env h" and "0 < hp_count h"
  shows "\<exists>x h'. CFBinaryHeapGetMinimum h = Inr x \<and> (\<forall>y\<in>#hp_items h. \<not> hp_gt env h x y) \<and>
    CFBinaryHeapRemoveMinimumValue env h = Inr (h', heap_release_event (hp_callbacks h) x) \<and>
    heap_wf env h' \<and> hp_items h = add_mset x (hp_items h')"
proof -
  obtain h' where "CFBinaryHeapRemoveMinimumValue env h =
       Inr (h', heap_release_event (hp_callbacks h) (hp_buckets h ! 0))"
    "heap_wf env h'" "hp_items h = add_mset (hp_buckets h ! 0) (hp_items h')"
    using RemoveMinimum_correct [OF assms] by metis
  then show ?thesis
    using GetMinimum_correct [OF assms] by blast
qed

theorem heap_remove_minimum_witness:
  "\<exists>x h'. CFBinaryHeapGetMinimum four_heap = Inr x \<and>
    (\<forall>y\<in>#hp_items four_heap. \<not> hp_gt plain_heap_env four_heap x y) \<and>
    CFBinaryHeapRemoveMinimumValue plain_heap_env four_heap =
      Inr (h', heap_release_event (hp_callbacks four_heap) x) \<and>
    heap_wf plain_heap_env h' \<and> hp_items four_heap = add_mset x (hp_items h')"
proof (rule heap_remove_minimum)
  show "heap_ordering (hp_gt plain_heap_env four_heap)"
    using heap_env_okD(3) [OF plain_heap_env_ok] by (simp add: four_heap_def)
  show "heap_wf plain_heap_env four_heap" by (rule four_heap_wf)
  show "0 < hp_count four_heap" by (simp add: four_heap_def)
qed

text \<open>\<open>CFBinaryHeapGetValues\<close>, which drains a copy of the heap, lists every value of the heap once
  in ascending order of the comparison, and its callback trace is exactly one retain per stored value
  followed by one release per listed value: no reference is leaked or dropped.\<close>

theorem heap_get_values_sorted:
  assumes "heap_env_ok env (hp_callbacks h) (hp_info h)" and "heap_wf env h" and "hp_count h < 2 ^ 30"
  shows "\<exists>xs. CFBinaryHeapGetValues env h =
      Inr (xs, concat (map (heap_retain_event (hp_callbacks h)) (take (hp_count h) (hp_buckets h))) @
               concat (map (heap_release_event (hp_callbacks h)) xs)) \<and>
    mset xs = image_mset (heap_retain env (hp_callbacks h)) (hp_items h) \<and>
    sorted_wrt (\<lambda>x y. \<not> hp_gt env h x y) xs"
  using GetValues_correct [OF assms] by metis

theorem heap_get_values_sorted_witness:
  "\<exists>xs. CFBinaryHeapGetValues plain_heap_env four_heap =
      Inr (xs, concat (map (heap_retain_event no_callbacks) [16, 48, 32, 64]) @
               concat (map (heap_release_event no_callbacks) xs)) \<and>
    mset xs = image_mset (heap_retain plain_heap_env no_callbacks) (hp_items four_heap) \<and>
    sorted_wrt (\<lambda>x y. \<not> hp_gt plain_heap_env four_heap x y) xs"
  using heap_get_values_sorted [of plain_heap_env four_heap] plain_heap_env_ok [of NULL] four_heap_wf
  by (simp add: four_heap_def)

text \<open>The two linear searches stay inside the buckets and answer for the contents: the count of a
  value is the number of stored values that are the same pointer or compare equal, and the membership
  test is true exactly when that number is positive.\<close>

theorem heap_searches_exact:
  assumes "heap_wf env h"
  shows "CFBinaryHeapGetCountOfValue env h v =
      Inr (size (filter_mset (heap_same env h v) (hp_items h))) \<and>
    CFBinaryHeapContainsValue env h v = Inr (\<exists>x\<in>#hp_items h. heap_same env h v x)"
proof -
  have "hp_count h \<le> length (hp_buckets h)" using assms by (simp add: heap_wf_def)
  then show ?thesis
    by (simp add: CFBinaryHeapGetCountOfValue_def CFBinaryHeapContainsValue_def heap_count_from_eq
        heap_search_from_eq hp_items_def flip: mset_filter)
qed

theorem heap_searches_exact_witness:
  "CFBinaryHeapGetCountOfValue plain_heap_env four_heap 32 =
      Inr (size (filter_mset (heap_same plain_heap_env four_heap 32) (hp_items four_heap))) \<and>
    CFBinaryHeapContainsValue plain_heap_env four_heap 32 =
      Inr (\<exists>x\<in>#hp_items four_heap. heap_same plain_heap_env four_heap 32 x)"
  using heap_searches_exact [OF four_heap_wf] .

text \<open>\<open>CFBinaryHeapEqual\<close> inverts the compare callback: for two one-element heaps with the same
  compare callback and no retain or release callback it answers ``equal'' exactly when the two values
  are the same pointer or the callback reports them as different.\<close>

theorem heap_equal_inverts_compare:
  assumes "heap_env_ok env (hp_callbacks h1) (hp_info h1)" "heap_env_ok env (hp_callbacks h2) (hp_info h2)"
    and "heap_wf env h1" "heap_wf env h2" and "hp_items h1 = {#a#}" "hp_items h2 = {#b#}"
    and "cb_compare (hp_callbacks h1) = c" "cb_compare (hp_callbacks h2) = c" and "c \<noteq> NULL"
    and "cb_retain (hp_callbacks h1) = NULL" "cb_retain (hp_callbacks h2) = NULL"
    and "cb_release (hp_callbacks h1) = NULL" "cb_release (hp_callbacks h2) = NULL"
  shows "CFBinaryHeapEqual env h1 h2 =
    Inr (a = b \<or> he_compare env c a b (hp_info h1) \<noteq> kCFCompareEqualTo, [])"
proof -
  have one: "hp_count h = 1" if "heap_wf env h" "hp_items h = {#x#}" for h x
    using that by (metis heap_wf_def hp_items_def length_take min.absorb2 size_mset size_single)
  have n: "hp_count h1 = 1" "hp_count h2 = 1" using one assms(3-6) by blast+
  have vals: "CFBinaryHeapGetValues env h = Inr ([x], [])"
    if h: "heap_env_ok env (hp_callbacks h) (hp_info h)" "heap_wf env h" "hp_items h = {#x#}" "hp_count h = 1"
      "cb_retain (hp_callbacks h) = NULL" "cb_release (hp_callbacks h) = NULL" for h x
  proof -
    obtain xs where xs: "CFBinaryHeapGetValues env h =
         Inr (xs, concat (map (heap_retain_event (hp_callbacks h)) (take (hp_count h) (hp_buckets h))) @
                  concat (map (heap_release_event (hp_callbacks h)) xs))"
      "mset xs = image_mset (heap_retain env (hp_callbacks h)) (hp_items h)"
      using GetValues_correct [OF h(1,2)] h(4) by auto
    have "xs = [x]" using xs(2) h(3,5) by (simp add: heap_retain_def)
    with xs(1) h(5,6) show ?thesis
      by (simp add: heap_retain_event_def heap_release_event_def concat_eq_Nil_conv)
  qed
  show ?thesis
    using assms n vals [of h1 a] vals [of h2 b]
    by (simp add: CFBinaryHeapEqual_def kCFCompareEqualTo_def)
qed

definition one_heap :: "ptr \<Rightarrow> CFBinaryHeap" where
  "one_heap v = \<lparr>hp_count = 1, hp_capacity = 4, hp_callbacks = no_callbacks\<lparr>cb_compare := 4096\<rparr>,
     hp_info = NULL, hp_buckets = [v, 0, 0, 0], hp_variety = kCFBinaryHeapMutable\<rparr>"

theorem heap_equal_inverts_compare_witness:
  "CFBinaryHeapEqual plain_heap_env (one_heap 16) (one_heap 48) =
    Inr ((16::ptr) = 48 \<or> he_compare plain_heap_env 4096 16 48 NULL \<noteq> kCFCompareEqualTo, [])"
proof -
  have env: "heap_env_ok plain_heap_env (hp_callbacks (one_heap v)) (hp_info (one_heap v))" for v
    by (auto simp: heap_env_ok_def plain_heap_env_def heap_gt_def heap_retain_def no_callbacks_def
        heap_ordering_def one_heap_def CFComparisonResult_defs)
  have wf: "heap_wf plain_heap_env (one_heap v)" for v
    by (simp add: heap_wf_def heap_ordered_upt one_heap_def)
  have items: "hp_items (one_heap v) = {#v#}" for v
    by (simp add: hp_items_def one_heap_def)
  show ?thesis
    using heap_equal_inverts_compare [OF env env wf wf items items, where c = 4096]
    by (simp add: one_heap_def no_callbacks_def)
qed

end
