(* ===== verification/CF_BigNumber.thy ===== *)
theory CF_BigNumber
  imports CF_Prelude
begin

text \<open>
  \<open>CFBigNumber.c\<close>: sign-and-magnitude numbers of five digits to the base \<open>10^9\<close>, as \<open>CFNumber\<close>
  uses them for 128-bit values. The model keeps the machine widths of the source: digits are 32-bit
  words, the intermediate values of the conversions are words of the width the C expression has, and
  negating the most negative value wraps around, as it does on every compiler the library is built
  with. The digit array always has five entries; \<open>bn_normal\<close> says that each entry is a proper digit.
\<close>

section \<open>State\<close>

type_synonym u32 = "32 word"

record CFBigNum =
  bn_digits :: "u32 list"
  bn_sign :: int

definition BIG_DIGITS_LIMIT :: nat where "BIG_DIGITS_LIMIT = 1000000000"

text \<open>The limits as constants of the width they are used at.\<close>

abbreviation LIMIT_1 :: "'a::len word" where "LIMIT_1 \<equiv> 1000000000"
abbreviation LIMIT_2 :: "'a::len word" where "LIMIT_2 \<equiv> 1000000000000000000"
abbreviation LIMIT_3 :: "'a::len word" where "LIMIT_3 \<equiv> 1000000000000000000000000000"
abbreviation LIMIT_4 :: "'a::len word" where "LIMIT_4 \<equiv> 1000000000000000000000000000000000000"

section \<open>Conversions from machine integers\<close>

text \<open>
  The first step of every signed initialiser: the sign and the magnitude, computed by \<open>-1 * inNum\<close>
  in the unsigned type.
\<close>

definition bn_magnitude :: "'a::len word \<Rightarrow> int \<times> 'a word" where
  "bn_magnitude inNum = (if sint inNum < 0 then (-1, - inNum) else (0, inNum))"

definition CFBigNumInitWithUInt8 :: "8 word \<Rightarrow> CFBigNum" where
  "CFBigNumInitWithUInt8 n = \<lparr>bn_digits = [ucast n, 0, 0, 0, 0], bn_sign = 0\<rparr>"

definition CFBigNumInitWithUInt16 :: "16 word \<Rightarrow> CFBigNum" where
  "CFBigNumInitWithUInt16 n = \<lparr>bn_digits = [ucast n, 0, 0, 0, 0], bn_sign = 0\<rparr>"

definition CFBigNumInitWithUInt32 :: "32 word \<Rightarrow> CFBigNum" where
  "CFBigNumInitWithUInt32 n =
     (let dig0 = n div LIMIT_1
      in \<lparr>bn_digits = [n - dig0 * LIMIT_1, dig0, 0, 0, 0], bn_sign = 0\<rparr>)"

definition CFBigNumInitWithUInt64 :: "64 word \<Rightarrow> CFBigNum" where
  "CFBigNumInitWithUInt64 n =
     (let dig2 = ucast (n div LIMIT_2) :: u32;
          n = n - ucast dig2 * LIMIT_2;
          dig1 = ucast (n div LIMIT_1) :: u32
      in \<lparr>bn_digits = [ucast (n - ucast dig1 * LIMIT_1), dig1, dig2, 0, 0], bn_sign = 0\<rparr>)"

definition CFBigNumInitWithUInt128 :: "128 word \<Rightarrow> CFBigNum" where
  "CFBigNumInitWithUInt128 n =
     (let dig4 = ucast (n div LIMIT_4) :: u32;
          n = n - ucast dig4 * LIMIT_4;
          dig3 = ucast (n div LIMIT_3) :: u32;
          n = n - ucast dig3 * LIMIT_3;
          dig2 = ucast (n div LIMIT_2) :: u32;
          n = n - ucast dig2 * LIMIT_2;
          dig1 = ucast (n div LIMIT_1) :: u32
      in \<lparr>bn_digits = [ucast (n - ucast dig1 * LIMIT_1), dig1, dig2, dig3, dig4], bn_sign = 0\<rparr>)"

definition CFBigNumInitWithInt8 :: "8 word \<Rightarrow> CFBigNum" where
  "CFBigNumInitWithInt8 inNum =
     (let (s, u) = bn_magnitude inNum in \<lparr>bn_digits = [ucast u, 0, 0, 0, 0], bn_sign = s\<rparr>)"

definition CFBigNumInitWithInt16 :: "16 word \<Rightarrow> CFBigNum" where
  "CFBigNumInitWithInt16 inNum =
     (let (s, u) = bn_magnitude inNum in \<lparr>bn_digits = [ucast u, 0, 0, 0, 0], bn_sign = s\<rparr>)"

definition CFBigNumInitWithInt32 :: "32 word \<Rightarrow> CFBigNum" where
  "CFBigNumInitWithInt32 inNum =
     (let (s, u) = bn_magnitude inNum;
          dig0 = u div LIMIT_1
      in \<lparr>bn_digits = [u - dig0 * LIMIT_1, dig0, 0, 0, 0], bn_sign = s\<rparr>)"

definition CFBigNumInitWithInt64 :: "64 word \<Rightarrow> CFBigNum" where
  "CFBigNumInitWithInt64 inNum =
     (let (s, u) = bn_magnitude inNum;
          dig2 = ucast (u div LIMIT_2) :: u32;
          u = u - ucast dig2 * LIMIT_2;
          dig1 = ucast (u div LIMIT_1) :: u32
      in \<lparr>bn_digits = [ucast (u - ucast dig1 * LIMIT_1), dig1, dig2, 0, 0], bn_sign = s\<rparr>)"

definition CFBigNumInitWithInt128 :: "128 word \<Rightarrow> CFBigNum" where
  "CFBigNumInitWithInt128 inNum =
     (let (s, u) = bn_magnitude inNum;
          dig4 = ucast (u div LIMIT_4) :: u32;
          u = u - ucast dig4 * LIMIT_4;
          dig3 = ucast (u div LIMIT_3) :: u32;
          u = u - ucast dig3 * LIMIT_3;
          dig2 = ucast (u div LIMIT_2) :: u32;
          u = u - ucast dig2 * LIMIT_2;
          dig1 = ucast (u div LIMIT_1) :: u32
      in \<lparr>bn_digits = [ucast (u - ucast dig1 * LIMIT_1), dig1, dig2, dig3, dig4], bn_sign = s\<rparr>)"

section \<open>Conversions to machine integers\<close>

text \<open>
  The source accumulates in the result type; the arithmetic of the wider type it passes through
  agrees with that of the result type modulo its size.
\<close>

abbreviation bn_digit :: "CFBigNum \<Rightarrow> nat \<Rightarrow> 'a::len word" where
  "bn_digit num i \<equiv> ucast (bn_digits num ! i)"

definition CFBigNumGetUInt8 :: "CFBigNum \<Rightarrow> 8 word" where
  "CFBigNumGetUInt8 num = bn_digit num 0"

definition CFBigNumGetUInt16 :: "CFBigNum \<Rightarrow> 16 word" where
  "CFBigNumGetUInt16 num = bn_digit num 0"

definition CFBigNumGetUInt32 :: "CFBigNum \<Rightarrow> 32 word" where
  "CFBigNumGetUInt32 num = bn_digit num 0 + bn_digit num 1 * LIMIT_1"

definition CFBigNumGetUInt64 :: "CFBigNum \<Rightarrow> 64 word" where
  "CFBigNumGetUInt64 num = bn_digit num 0 + bn_digit num 1 * LIMIT_1 + bn_digit num 2 * LIMIT_2"

definition CFBigNumGetUInt128 :: "CFBigNum \<Rightarrow> 128 word" where
  "CFBigNumGetUInt128 num = bn_digit num 0 + bn_digit num 1 * LIMIT_1 + bn_digit num 2 * LIMIT_2 +
     bn_digit num 3 * LIMIT_3 + bn_digit num 4 * LIMIT_4"

definition CFBigNumGetInt8 :: "CFBigNum \<Rightarrow> 8 word" where
  "CFBigNumGetInt8 num =
     (let result = bn_digit num 0 in if bn_sign num < 0 then -1 * result else result)"

definition CFBigNumGetInt16 :: "CFBigNum \<Rightarrow> 16 word" where
  "CFBigNumGetInt16 num =
     (let result = bn_digit num 0 in if bn_sign num < 0 then -1 * result else result)"

definition CFBigNumGetInt32 :: "CFBigNum \<Rightarrow> 32 word" where
  "CFBigNumGetInt32 num =
     (let result = bn_digit num 0 + bn_digit num 1 * LIMIT_1
      in if bn_sign num < 0 then -1 * result else result)"

definition CFBigNumGetInt64 :: "CFBigNum \<Rightarrow> 64 word" where
  "CFBigNumGetInt64 num =
     (let result = bn_digit num 0 + bn_digit num 1 * LIMIT_1 + bn_digit num 2 * LIMIT_2
      in if bn_sign num < 0 then -1 * result else result)"

definition CFBigNumGetInt128 :: "CFBigNum \<Rightarrow> 128 word" where
  "CFBigNumGetInt128 num =
     (let result = bn_digit num 0 + bn_digit num 1 * LIMIT_1 + bn_digit num 2 * LIMIT_2 +
        bn_digit num 3 * LIMIT_3 + bn_digit num 4 * LIMIT_4
      in if bn_sign num < 0 then -1 * result else result)"

section \<open>Comparison and arithmetic\<close>

text \<open>The loop runs from the most significant digit down.\<close>

fun bn_compare_loop :: "bool \<Rightarrow> u32 list \<Rightarrow> u32 list \<Rightarrow> nat \<Rightarrow> int" where
  "bn_compare_loop negative a b 0 = kCFCompareEqualTo"
| "bn_compare_loop negative a b (Suc i) =
     (if a ! i < b ! i then (if \<not> negative then kCFCompareLessThan else kCFCompareGreaterThan)
      else if a ! i > b ! i then (if negative then kCFCompareLessThan else kCFCompareGreaterThan)
      else bn_compare_loop negative a b i)"

definition CFBigNumCompare :: "CFBigNum \<Rightarrow> CFBigNum \<Rightarrow> int" where
  "CFBigNumCompare a b =
     (if bn_sign a = bn_sign b
      then bn_compare_loop (bn_sign a < 0) (bn_digits a) (bn_digits b) 5
      else if bn_sign a < bn_sign b then kCFCompareLessThan else kCFCompareGreaterThan)"

fun bn_less_loop :: "u32 list \<Rightarrow> u32 list \<Rightarrow> nat \<Rightarrow> bool" where
  "bn_less_loop a b 0 = False"
| "bn_less_loop a b (Suc i) =
     (if a ! i < b ! i then True else if a ! i > b ! i then False else bn_less_loop a b i)"

definition CFBigNumAbsoluteLessThan :: "CFBigNum \<Rightarrow> CFBigNum \<Rightarrow> bool" where
  "CFBigNumAbsoluteLessThan a b = bn_less_loop (bn_digits a) (bn_digits b) 5"

text \<open>The sign is an 8-bit field: \<open>0 * 0 - 1 = -1\<close> and \<open>-1 * -1 - 1 = 0\<close>.\<close>

definition CFBigNumNeg :: "CFBigNum \<Rightarrow> CFBigNum" where
  "CFBigNumNeg a =
     (if \<forall>d\<in>set (bn_digits a). d = 0 then a
      else a\<lparr>bn_sign := signed_take_bit 7 (bn_sign a * bn_sign a - 1)\<rparr>)"

text \<open>The two digit loops of \<open>_CFBigNumAdd\<close>; the carry is the second result.\<close>

fun bn_add_loop :: "u32 list \<Rightarrow> u32 list \<Rightarrow> u32 \<Rightarrow> u32 list \<times> u32" where
  "bn_add_loop (a # as) (b # bs) carry =
     (let result = a + b + carry;
          (digit, carry') = (if result > LIMIT_1 then (result - LIMIT_1, 1) else (result, 0));
          (ds, c) = bn_add_loop as bs carry'
      in (digit # ds, c))"
| "bn_add_loop _ _ carry = ([], carry)"

fun bn_sub_loop :: "u32 list \<Rightarrow> u32 list \<Rightarrow> u32 \<Rightarrow> u32 list \<times> u32" where
  "bn_sub_loop (a # as) (b # bs) carry =
     (let result = ucast a - ucast b - ucast carry :: 64 word;
          (digit, carry') = (if sint result < 0 then (result + LIMIT_1, 1) else (result, 0));
          (ds, c) = bn_sub_loop as bs carry'
      in (ucast digit # ds, c))"
| "bn_sub_loop _ _ carry = ([], carry)"

definition CFBigNumAdd :: "CFBigNum \<Rightarrow> CFBigNum \<Rightarrow> CFBigNum \<times> u32" where
  "CFBigNumAdd a b =
     (if bn_sign a = bn_sign b then
        (let (ds, carry) = bn_add_loop (bn_digits a) (bn_digits b) 0
         in (\<lparr>bn_digits = ds, bn_sign = bn_sign a\<rparr>, carry))
      else
        (let (bigNum, smallNum) = (if CFBigNumAbsoluteLessThan a b then (b, a) else (a, b));
             (ds, carry) = bn_sub_loop (bn_digits bigNum) (bn_digits smallNum) 0
         in (\<lparr>bn_digits = ds, bn_sign = (if bn_sign bigNum < 0 then -1 else 0)\<rparr>, carry)))"

definition CFBigNumSub :: "CFBigNum \<Rightarrow> CFBigNum \<Rightarrow> CFBigNum \<times> u32" where
  "CFBigNumSub a b = CFBigNumAdd a (CFBigNumNeg b)"

section \<open>Conversions with \<open>CFNumber\<close>\<close>

text \<open>
  \<open>_CFBigNumInitWithBytes\<close> reads a little-endian value of the width the type tag names
  (\<open>long\<close>, \<open>CFIndex\<close> and \<open>NSInteger\<close> are 8 bytes); another tag leaves the number as it is.
\<close>

definition le_read :: "nat \<Rightarrow> 8 word list \<Rightarrow> 'a::len word" where
  "le_read n bytes = word_rcat (rev (take n bytes))"

definition CFBigNumInitWithBytes :: "CFBigNum \<Rightarrow> 8 word list \<Rightarrow> nat \<Rightarrow> CFBigNum" where
  "CFBigNumInitWithBytes r bytes type =
     (if type \<in> {1, 7} then CFBigNumInitWithInt8 (le_read 1 bytes)
      else if type \<in> {2, 8} then CFBigNumInitWithInt16 (le_read 2 bytes)
      else if type \<in> {3, 9} then CFBigNumInitWithInt32 (le_read 4 bytes)
      else if type \<in> {4, 10, 11, 14, 15} then CFBigNumInitWithInt64 (le_read 8 bytes)
      else if type = 17 then
        (let high = le_read 8 bytes :: 64 word; low = le_read 8 (drop 8 bytes) :: 64 word
         in CFBigNumInitWithInt128 (ucast low + push_bit 64 (ucast high)))
      else r)"

definition bn_between :: "CFBigNum \<Rightarrow> CFBigNum \<Rightarrow> CFBigNum \<Rightarrow> bool" where
  "bn_between minlimit input maxlimit \<longleftrightarrow>
     (let cr = CFBigNumCompare input maxlimit; crn = CFBigNumCompare input minlimit
      in (kCFCompareLessThan = cr \<or> kCFCompareEqualTo = cr) \<and> kCFCompareLessThan \<noteq> crn)"

section \<open>What a number stands for\<close>

fun bn_mag :: "u32 list \<Rightarrow> nat" where
  "bn_mag [] = 0"
| "bn_mag (d # ds) = unat d + 1000000000 * bn_mag ds"

definition bn_val :: "CFBigNum \<Rightarrow> int" where
  "bn_val n = (if bn_sign n < 0 then - int (bn_mag (bn_digits n)) else int (bn_mag (bn_digits n)))"

text \<open>
  \<open>bn_normal\<close>: five proper digits and a sign of the two forms the code writes. \<open>bn_canonical\<close>
  additionally rules out the negative zero.
\<close>

definition bn_normal :: "CFBigNum \<Rightarrow> bool" where
  "bn_normal n \<longleftrightarrow> length (bn_digits n) = 5 \<and> (\<forall>d\<in>set (bn_digits n). unat d < BIG_DIGITS_LIMIT) \<and>
     (bn_sign n = 0 \<or> bn_sign n = -1)"

definition bn_canonical :: "CFBigNum \<Rightarrow> bool" where
  "bn_canonical n \<longleftrightarrow> bn_normal n \<and> (bn_sign n = -1 \<longrightarrow> bn_mag (bn_digits n) \<noteq> 0)"

lemma bn_mag_append: "bn_mag (xs @ ys) = bn_mag xs + 1000000000 ^ length xs * bn_mag ys"
  by (induction xs) (auto simp: algebra_simps)

lemma bn_mag_bound:
  "\<forall>d\<in>set ds. unat d < BIG_DIGITS_LIMIT \<Longrightarrow> bn_mag ds < 1000000000 ^ length ds"
  by (induction ds) (auto simp: BIG_DIGITS_LIMIT_def)

lemma five_digits:
  assumes "length ds = 5"
  obtains d0 d1 d2 d3 d4 where "ds = [d0, d1, d2, d3, d4]"
proof -
  have "length ds = Suc (Suc (Suc (Suc (Suc 0))))" using assms by simp
  then show thesis using that by (auto simp: length_Suc_conv)
qed

lemma bn_mag_five:
  "bn_mag [d0, d1, d2, d3, d4] = unat d0 + unat d1 * 10 ^ 9 + unat d2 * 10 ^ 18 + unat d3 * 10 ^ 27 +
     unat d4 * 10 ^ 36"
  by simp

subsection \<open>Machine integers in\<close>

lemma sint_pow_bounds:
  fixes n :: "'a::len word"
  shows "- (2 ^ LENGTH('a)) < sint n" and "sint n < 2 ^ LENGTH('a)"
proof -
  have "- (2 ^ (LENGTH('a) - 1)) \<le> sint n" "sint n < 2 ^ (LENGTH('a) - 1)"
    by (rule sint_ge, rule sint_lt)
  moreover have "(2::int) ^ (LENGTH('a) - 1) < 2 ^ LENGTH('a)" by simp
  ultimately show "- (2 ^ LENGTH('a)) < sint n" "sint n < 2 ^ LENGTH('a)" by linarith+
qed

lemma uint_minus_negative:
  fixes n :: "'a::len word"
  assumes "sint n < 0"
  shows "uint (- n) = - sint n"
proof -
  have "uint (- n) = uint (word_of_int (- sint n) :: 'a word)" by simp
  also have "\<dots> = take_bit LENGTH('a) (- sint n)" by (rule uint_word_of_int_eq)
  also have "\<dots> = - sint n"
    using assms sint_pow_bounds(1) [of n] by (simp add: take_bit_int_eq_self)
  finally show ?thesis .
qed

lemma uint_nonneg_sint:
  fixes n :: "'a::len word"
  assumes "0 \<le> sint n"
  shows "uint n = sint n"
proof -
  have "uint n = uint (word_of_int (sint n) :: 'a word)" by simp
  also have "\<dots> = take_bit LENGTH('a) (sint n)" by (rule uint_word_of_int_eq)
  also have "\<dots> = sint n"
    using assms sint_pow_bounds(2) [of n] by (simp add: take_bit_int_eq_self)
  finally show ?thesis .
qed

lemma bn_magnitude_correct:
  assumes "bn_magnitude n = (s, u)"
  shows "(s = 0 \<or> s = -1) \<and> sint n = (if s < 0 then - int (unat u) else int (unat u))"
  using assms uint_minus_negative [of n] uint_nonneg_sint [of n]
  by (auto simp: bn_magnitude_def split: if_splits)

text \<open>Splitting off the leading digit: the quotient fits 32 bits, the rest is the remainder.\<close>

lemma split_digit:
  fixes n l :: "'a::len word"
  assumes "32 \<le> LENGTH('a)" and "unat n div unat l < 2 ^ 32"
  shows "unat (ucast (n div l) :: u32) = unat n div unat l"
    and "unat (n - ucast (ucast (n div l) :: u32) * l) = unat n mod unat l"
proof -
  show q: "unat (ucast (n div l) :: u32) = unat n div unat l"
    using assms by (simp add: unat_div unsigned_ucast_eq take_bit_nat_eq_self)
  have "ucast (ucast (n div l) :: u32) = n div l"
    using assms q by (simp add: unat_div unsigned_ucast_eq take_bit_nat_eq_self word_unat_eq_iff
        unsigned_take_bit_eq)
  then show "unat (n - ucast (ucast (n div l) :: u32) * l) = unat n mod unat l"
    by (simp add: minus_div_mult_eq_mod unat_mod)
qed

lemma split_step: "(N::nat) = (N div L) * L + N mod L"
  by simp

lemma InitWithUInt32_mag:
  "bn_mag (bn_digits (CFBigNumInitWithUInt32 n)) = unat n \<and> bn_normal (CFBigNumInitWithUInt32 n)"
proof -
  have "unat (n div LIMIT_1) = unat n div 1000000000" by (simp add: unat_div)
  moreover have "unat (n - n div LIMIT_1 * LIMIT_1) = unat n mod 1000000000"
    by (simp add: minus_div_mult_eq_mod unat_mod)
  moreover have "unat n < 2 ^ 32" using unsigned_less [of n] by simp
  ultimately show ?thesis
    by (simp add: CFBigNumInitWithUInt32_def bn_normal_def BIG_DIGITS_LIMIT_def Let_def)
qed

lemma InitWithUInt64_mag:
  "bn_mag (bn_digits (CFBigNumInitWithUInt64 n)) = unat n \<and> bn_normal (CFBigNumInitWithUInt64 n)"
proof -
  let ?N = "unat n" and ?m = "n - ucast (ucast (n div LIMIT_2) :: u32) * LIMIT_2"
  have N: "?N < 2 ^ 64" using unsigned_less [of n] by simp
  have q2: "unat (ucast (n div LIMIT_2) :: u32) = ?N div 10 ^ 18" "unat ?m = ?N mod 10 ^ 18"
    using split_digit [of n LIMIT_2] N by simp_all
  have q1: "unat (ucast (?m div LIMIT_1) :: u32) = unat ?m div 10 ^ 9"
      "unat (?m - ucast (ucast (?m div LIMIT_1) :: u32) * LIMIT_1) = unat ?m mod 10 ^ 9"
    using split_digit [of ?m LIMIT_1] q2(2) by simp_all
  have q0: "unat (ucast (?m - ucast (ucast (?m div LIMIT_1) :: u32) * LIMIT_1) :: u32) =
      unat ?m mod 10 ^ 9"
    using q1(2) by (simp add: unsigned_ucast_eq take_bit_nat_eq_self)
  have b: "?N div 10 ^ 18 < 10 ^ 9" "unat ?m div 10 ^ 9 < 10 ^ 9" "unat ?m mod 10 ^ 9 < 10 ^ 9"
    using N q2(2) by simp_all
  have "unat ?m mod 10 ^ 9 + unat ?m div 10 ^ 9 * 10 ^ 9 + ?N div 10 ^ 18 * 10 ^ 18 = ?N"
    using split_step [of "unat ?m" "10 ^ 9"] split_step [of ?N "10 ^ 18"] q2(2) by linarith
  then show ?thesis
    using b by (simp add: CFBigNumInitWithUInt64_def Let_def bn_normal_def BIG_DIGITS_LIMIT_def
        q0 q1(1) q2(1))
qed

lemma InitWithUInt128_mag:
  "bn_mag (bn_digits (CFBigNumInitWithUInt128 n)) = unat n \<and> bn_normal (CFBigNumInitWithUInt128 n)"
proof -
  define q4 where "q4 = (ucast (n div LIMIT_4) :: u32)"
  define m4 where "m4 = n - ucast q4 * LIMIT_4"
  define q3 where "q3 = (ucast (m4 div LIMIT_3) :: u32)"
  define m3 where "m3 = m4 - ucast q3 * LIMIT_3"
  define q2 where "q2 = (ucast (m3 div LIMIT_2) :: u32)"
  define m2 where "m2 = m3 - ucast q2 * LIMIT_2"
  define q1 where "q1 = (ucast (m2 div LIMIT_1) :: u32)"
  define m1 where "m1 = m2 - ucast q1 * LIMIT_1"
  have N: "unat n < 2 ^ 128" using unsigned_less [of n] by simp
  have s4: "unat q4 = unat n div 10 ^ 36" "unat m4 = unat n mod 10 ^ 36"
    using split_digit [of n LIMIT_4] N by (simp_all add: q4_def m4_def)
  have s3: "unat q3 = unat m4 div 10 ^ 27" "unat m3 = unat m4 mod 10 ^ 27"
    using split_digit [of m4 LIMIT_3] s4(2) by (simp_all add: q3_def m3_def)
  have s2: "unat q2 = unat m3 div 10 ^ 18" "unat m2 = unat m3 mod 10 ^ 18"
    using split_digit [of m3 LIMIT_2] s3(2) by (simp_all add: q2_def m2_def)
  have s1: "unat q1 = unat m2 div 10 ^ 9" "unat m1 = unat m2 mod 10 ^ 9"
    using split_digit [of m2 LIMIT_1] s2(2) by (simp_all add: q1_def m1_def)
  have s0: "unat (ucast m1 :: u32) = unat m1"
    using s1(2) by (simp add: unsigned_ucast_eq take_bit_nat_eq_self)
  have d: "CFBigNumInitWithUInt128 n = \<lparr>bn_digits = [ucast m1, q1, q2, q3, q4], bn_sign = 0\<rparr>"
    unfolding CFBigNumInitWithUInt128_def Let_def q4_def m4_def q3_def m3_def q2_def m2_def q1_def m1_def
    by (rule refl)
  have b: "unat q4 < 10 ^ 9" "unat q3 < 10 ^ 9" "unat q2 < 10 ^ 9" "unat q1 < 10 ^ 9" "unat m1 < 10 ^ 9"
    unfolding s4 s3 s2 s1 using N by (simp_all add: less_mult_imp_div_less)
  have "unat m1 + unat q1 * 10 ^ 9 + unat q2 * 10 ^ 18 + unat q3 * 10 ^ 27 + unat q4 * 10 ^ 36 = unat n"
  proof -
    have "unat n = unat q4 * 10 ^ 36 + unat m4" unfolding s4 by (rule split_step)
    moreover have "unat m4 = unat q3 * 10 ^ 27 + unat m3" unfolding s3 by (rule split_step)
    moreover have "unat m3 = unat q2 * 10 ^ 18 + unat m2" unfolding s2 by (rule split_step)
    moreover have "unat m2 = unat q1 * 10 ^ 9 + unat m1" unfolding s1 by (rule split_step)
    ultimately show ?thesis by linarith
  qed
  then show ?thesis
    using b s0 by (simp add: d bn_mag_five bn_normal_def BIG_DIGITS_LIMIT_def del: bn_mag.simps)
qed

text \<open>The narrow unsigned initialisers store one digit.\<close>

lemma InitWithUInt8_mag:
  "bn_mag (bn_digits (CFBigNumInitWithUInt8 n)) = unat n \<and> bn_normal (CFBigNumInitWithUInt8 n)"
  using unsigned_less [of n, where ?'a = nat]
  by (simp add: CFBigNumInitWithUInt8_def bn_normal_def BIG_DIGITS_LIMIT_def unsigned_ucast_eq
      take_bit_nat_eq_self)

lemma InitWithUInt16_mag:
  "bn_mag (bn_digits (CFBigNumInitWithUInt16 n)) = unat n \<and> bn_normal (CFBigNumInitWithUInt16 n)"
  using unsigned_less [of n, where ?'a = nat]
  by (simp add: CFBigNumInitWithUInt16_def bn_normal_def BIG_DIGITS_LIMIT_def unsigned_ucast_eq
      take_bit_nat_eq_self)

text \<open>The signed initialisers are the unsigned ones on the magnitude, with the sign recorded.\<close>

lemma InitWithInt_as_UInt:
  "CFBigNumInitWithInt8 n8 =
     (let (s, u) = bn_magnitude n8 in (CFBigNumInitWithUInt8 u)\<lparr>bn_sign := s\<rparr>)"
  "CFBigNumInitWithInt16 n16 =
     (let (s, u) = bn_magnitude n16 in (CFBigNumInitWithUInt16 u)\<lparr>bn_sign := s\<rparr>)"
  "CFBigNumInitWithInt32 n32 =
     (let (s, u) = bn_magnitude n32 in (CFBigNumInitWithUInt32 u)\<lparr>bn_sign := s\<rparr>)"
  "CFBigNumInitWithInt64 n64 =
     (let (s, u) = bn_magnitude n64 in (CFBigNumInitWithUInt64 u)\<lparr>bn_sign := s\<rparr>)"
  "CFBigNumInitWithInt128 n128 =
     (let (s, u) = bn_magnitude n128 in (CFBigNumInitWithUInt128 u)\<lparr>bn_sign := s\<rparr>)"
  by (simp_all add: Let_def split_beta CFBigNumInitWithInt8_def CFBigNumInitWithInt16_def
      CFBigNumInitWithInt32_def CFBigNumInitWithInt64_def CFBigNumInitWithInt128_def
      CFBigNumInitWithUInt8_def CFBigNumInitWithUInt16_def CFBigNumInitWithUInt32_def
      CFBigNumInitWithUInt64_def CFBigNumInitWithUInt128_def)

lemma signed_init:
  assumes "\<And>u. bn_mag (bn_digits (f u)) = unat u \<and> bn_normal (f u)"
    and "r = (let (s, u) = bn_magnitude n in (f u)\<lparr>bn_sign := s\<rparr>)"
  shows "bn_val r = sint n \<and> bn_canonical r"
proof -
  obtain s u where su: "bn_magnitude n = (s, u)" by (cases "bn_magnitude n")
  then have r: "r = (f u)\<lparr>bn_sign := s\<rparr>" using assms(2) by simp
  have neg: "s < 0 \<Longrightarrow> sint n < 0" using su by (auto simp: bn_magnitude_def split: if_splits)
  show ?thesis
    using bn_magnitude_correct [OF su] assms(1) [of u] neg
    by (auto simp: r bn_val_def bn_canonical_def bn_normal_def unat_gt_0 word_gt_0 word_less_def)
qed

lemmas InitWithInt_correct =
  signed_init [of CFBigNumInitWithUInt8, OF InitWithUInt8_mag InitWithInt_as_UInt(1)]
  signed_init [of CFBigNumInitWithUInt16, OF InitWithUInt16_mag InitWithInt_as_UInt(2)]
  signed_init [of CFBigNumInitWithUInt32, OF InitWithUInt32_mag InitWithInt_as_UInt(3)]
  signed_init [of CFBigNumInitWithUInt64, OF InitWithUInt64_mag InitWithInt_as_UInt(4)]
  signed_init [of CFBigNumInitWithUInt128, OF InitWithUInt128_mag InitWithInt_as_UInt(5)]

subsection \<open>Machine integers out\<close>

text \<open>
  Every reader computes the number modulo the size of its result type, as long as the digits it does
  not look at are zero.
\<close>

lemma signed_read:
  "(if bn_sign num < 0 then -1 * r else r) = word_of_int (bn_val num)"
  if "r = word_of_int (int (bn_mag (bn_digits num)))" for r :: "'a::len word"
  using that by (simp add: bn_val_def)

lemma word_of_mag_five:
  "word_of_int (int (bn_mag [d0, d1, d2, d3, d4])) =
     (ucast d0 + ucast d1 * LIMIT_1 + ucast d2 * LIMIT_2 + ucast d3 * LIMIT_3 + ucast d4 * LIMIT_4
      :: 'a::len word)"
  unfolding bn_mag_five by (simp add: unsigned_ucast_eq)

lemma GetInt_correct:
  assumes "length (bn_digits num) = 5"
  shows "CFBigNumGetInt128 num = word_of_int (bn_val num)"
    and "drop 3 (bn_digits num) = [0, 0] \<Longrightarrow> CFBigNumGetInt64 num = word_of_int (bn_val num)"
    and "drop 2 (bn_digits num) = [0, 0, 0] \<Longrightarrow> CFBigNumGetInt32 num = word_of_int (bn_val num)"
    and "drop 1 (bn_digits num) = [0, 0, 0, 0] \<Longrightarrow> CFBigNumGetInt16 num = word_of_int (bn_val num)"
    and "drop 1 (bn_digits num) = [0, 0, 0, 0] \<Longrightarrow> CFBigNumGetInt8 num = word_of_int (bn_val num)"
proof -
  obtain d0 d1 d2 d3 d4 where d: "bn_digits num = [d0, d1, d2, d3, d4]"
    using five_digits [OF assms] by metis
  note sr = signed_read [of _ num, unfolded d word_of_mag_five, OF refl]
  show "CFBigNumGetInt128 num = word_of_int (bn_val num)"
    unfolding CFBigNumGetInt128_def Let_def using sr [where ?'a = 128]
    by (auto simp: d split: if_splits)
  show "drop 3 (bn_digits num) = [0, 0] \<Longrightarrow> CFBigNumGetInt64 num = word_of_int (bn_val num)"
    unfolding CFBigNumGetInt64_def Let_def using sr [where ?'a = 64]
    by (auto simp: d split: if_splits)
  show "drop 2 (bn_digits num) = [0, 0, 0] \<Longrightarrow> CFBigNumGetInt32 num = word_of_int (bn_val num)"
    unfolding CFBigNumGetInt32_def Let_def using sr [where ?'a = 32]
    by (auto simp: d split: if_splits)
  show "drop 1 (bn_digits num) = [0, 0, 0, 0] \<Longrightarrow> CFBigNumGetInt16 num = word_of_int (bn_val num)"
    unfolding CFBigNumGetInt16_def Let_def using sr [where ?'a = 16]
    by (auto simp: d split: if_splits)
  show "drop 1 (bn_digits num) = [0, 0, 0, 0] \<Longrightarrow> CFBigNumGetInt8 num = word_of_int (bn_val num)"
    unfolding CFBigNumGetInt8_def Let_def using sr [where ?'a = 8]
    by (auto simp: d split: if_splits)
qed

subsection \<open>Comparison\<close>

lemma digit_order:
  assumes "(x::nat) < P" and "a < b"
  shows "x + P * a < y + P * b"
proof -
  have "P * (a + 1) \<le> P * b" using assms(2) by (intro mult_le_mono2) simp
  then show ?thesis using assms(1) by simp
qed

lemma bn_mag_take_Suc:
  "i < length ds \<Longrightarrow> bn_mag (take (Suc i) ds) = bn_mag (take i ds) + 1000000000 ^ i * unat (ds ! i)"
  by (simp add: take_Suc_conv_app_nth bn_mag_append)

lemma bn_mag_take_bound:
  assumes "\<forall>d\<in>set ds. unat d < BIG_DIGITS_LIMIT" and "i \<le> length ds"
  shows "bn_mag (take i ds) < 1000000000 ^ i"
proof -
  have "\<forall>d\<in>set (take i ds). unat d < BIG_DIGITS_LIMIT" using assms(1) by (meson in_set_takeD)
  moreover have "length (take i ds) = i" using assms(2) by simp
  ultimately show ?thesis using bn_mag_bound by metis
qed

text \<open>One round of a comparison loop decides the order of the two prefixes, or leaves it to the rest.\<close>

lemma bn_mag_take_order:
  assumes "\<forall>d\<in>set a. unat d < BIG_DIGITS_LIMIT" "\<forall>d\<in>set b. unat d < BIG_DIGITS_LIMIT"
    and "Suc i \<le> length a" "Suc i \<le> length b"
  shows "a ! i < b ! i \<Longrightarrow> bn_mag (take (Suc i) a) < bn_mag (take (Suc i) b)"
    and "a ! i > b ! i \<Longrightarrow> bn_mag (take (Suc i) b) < bn_mag (take (Suc i) a)"
    and "a ! i = b ! i \<Longrightarrow> bn_mag (take (Suc i) a) < bn_mag (take (Suc i) b) \<longleftrightarrow>
           bn_mag (take i a) < bn_mag (take i b)"
    and "a ! i = b ! i \<Longrightarrow> bn_mag (take (Suc i) a) = bn_mag (take (Suc i) b) \<longleftrightarrow>
           bn_mag (take i a) = bn_mag (take i b)"
  using assms bn_mag_take_bound [of a i] bn_mag_take_bound [of b i]
  by (auto simp: bn_mag_take_Suc word_less_nat_alt intro!: digit_order)

lemma bn_compare_loop_5:
  "bn_compare_loop neg a b 5 = bn_compare_loop neg a b (Suc (Suc (Suc (Suc (Suc 0)))))"
  by (simp add: eval_nat_numeral)

lemma bn_compare_loop_correct:
  assumes "\<forall>d\<in>set a. unat d < BIG_DIGITS_LIMIT" "\<forall>d\<in>set b. unat d < BIG_DIGITS_LIMIT"
    and "n \<le> length a" "n \<le> length b"
  shows "bn_compare_loop neg a b n =
     (if bn_mag (take n a) = bn_mag (take n b) then kCFCompareEqualTo
      else if (bn_mag (take n a) < bn_mag (take n b)) \<noteq> neg then kCFCompareLessThan
      else kCFCompareGreaterThan)"
  using assms(3,4)
proof (induction n)
  case 0
  then show ?case by simp
next
  case (Suc i)
  note order = bn_mag_take_order [OF assms(1,2) Suc.prems]
  have IH: "bn_compare_loop neg a b i =
     (if bn_mag (take i a) = bn_mag (take i b) then kCFCompareEqualTo
      else if (bn_mag (take i a) < bn_mag (take i b)) \<noteq> neg then kCFCompareLessThan
      else kCFCompareGreaterThan)"
    using Suc by simp
  consider "a ! i < b ! i" | "a ! i > b ! i" | "a ! i = b ! i" by fastforce
  then show ?case
  proof cases
    case 1
    then show ?thesis using order(1) by simp
  next
    case 2
    then show ?thesis using order(2) [OF 2] by auto
  next
    case 3
    then show ?thesis unfolding bn_compare_loop.simps IH order(3,4) [OF 3] by simp
  qed
qed

lemma bn_less_loop_correct:
  assumes "\<forall>d\<in>set a. unat d < BIG_DIGITS_LIMIT" "\<forall>d\<in>set b. unat d < BIG_DIGITS_LIMIT"
    and "n \<le> length a" "n \<le> length b"
  shows "bn_less_loop a b n \<longleftrightarrow> bn_mag (take n a) < bn_mag (take n b)"
  using assms(3,4)
proof (induction n)
  case 0
  then show ?case by simp
next
  case (Suc i)
  note order = bn_mag_take_order [OF assms(1,2) Suc.prems]
  consider "a ! i < b ! i" | "a ! i > b ! i" | "a ! i = b ! i" by fastforce
  then show ?case
  proof cases
    case 1
    then show ?thesis using order(1) by simp
  next
    case 2
    then show ?thesis using order(2) [OF 2] by auto
  next
    case 3
    then show ?thesis using Suc order(3) [OF 3] by simp
  qed
qed

lemmas bn_normal_simps = bn_normal_def bn_canonical_def bn_val_def

lemma AbsoluteLessThan_correct:
  assumes "bn_normal a" and "bn_normal b"
  shows "CFBigNumAbsoluteLessThan a b \<longleftrightarrow> bn_mag (bn_digits a) < bn_mag (bn_digits b)"
  using assms bn_less_loop_correct [of "bn_digits a" "bn_digits b" 5]
  by (simp add: CFBigNumAbsoluteLessThan_def bn_normal_def)

lemma Compare_correct:
  assumes "bn_canonical a" and "bn_canonical b"
  shows "CFBigNumCompare a b =
    (if bn_val a < bn_val b then kCFCompareLessThan
     else if bn_val a = bn_val b then kCFCompareEqualTo else kCFCompareGreaterThan)"
proof -
  have "bn_compare_loop neg (bn_digits a) (bn_digits b) 5 =
     (if bn_mag (bn_digits a) = bn_mag (bn_digits b) then kCFCompareEqualTo
      else if (bn_mag (bn_digits a) < bn_mag (bn_digits b)) \<noteq> neg then kCFCompareLessThan
      else kCFCompareGreaterThan)" for neg
    using bn_compare_loop_correct [of "bn_digits a" "bn_digits b" 5 neg] assms
    by (simp add: bn_normal_simps)
  then show ?thesis
    using assms by (auto simp: CFBigNumCompare_def bn_normal_simps)
qed

text \<open>\<open>_CFBigNumCompare\<close> on canonical numbers is the order of the integers they stand for.\<close>

theorem bignum_compare_orders:
  assumes "bn_canonical a" and "bn_canonical b"
  shows "CFBigNumCompare a b =
    (if bn_val a < bn_val b then kCFCompareLessThan
     else if bn_val a = bn_val b then kCFCompareEqualTo else kCFCompareGreaterThan)"
  using assms by (rule Compare_correct)

lemma bn_canonical_small:
  "n < 1000000000 \<Longrightarrow> bn_canonical \<lparr>bn_digits = [of_nat n, 0, 0, 0, 0], bn_sign = 0\<rparr> \<and>
    bn_val \<lparr>bn_digits = [of_nat n, 0, 0, 0, 0], bn_sign = 0\<rparr> = int n"
  by (simp add: bn_normal_simps BIG_DIGITS_LIMIT_def unsigned_of_nat take_bit_nat_eq_self)

theorem bignum_compare_orders_witness:
  "CFBigNumCompare \<lparr>bn_digits = [5, 0, 0, 0, 0], bn_sign = -1\<rparr> \<lparr>bn_digits = [3, 0, 0, 0, 0], bn_sign = -1\<rparr> =
     kCFCompareLessThan"
  using bignum_compare_orders [of "\<lparr>bn_digits = [5, 0, 0, 0, 0], bn_sign = -1\<rparr>"
      "\<lparr>bn_digits = [3, 0, 0, 0, 0], bn_sign = -1\<rparr>"]
  by (simp add: bn_normal_simps BIG_DIGITS_LIMIT_def)

subsection \<open>Negation and addition\<close>

lemma bn_mag_eq_0: "bn_mag ds = 0 \<longleftrightarrow> (\<forall>d\<in>set ds. d = 0)"
  by (induction ds) (auto simp: unat_eq_0)

lemma Neg_correct:
  assumes "bn_canonical a"
  shows "bn_canonical (CFBigNumNeg a) \<and> bn_val (CFBigNumNeg a) = - bn_val a"
  using assms
  by (auto simp: CFBigNumNeg_def bn_normal_simps bn_mag_eq_0 [symmetric] simp del: bn_mag.simps)

lemma digit_sum:
  fixes a b c :: u32
  assumes "unat a < BIG_DIGITS_LIMIT" "unat b < BIG_DIGITS_LIMIT" "unat c \<le> 1"
  shows "unat (a + b + c) = unat a + unat b + unat c"
  using assms by (simp add: unat_word_ariths BIG_DIGITS_LIMIT_def)

lemma bn_add_loop_correct:
  assumes "length as = length bs" and "unat carry \<le> 1"
    and "\<forall>d\<in>set as. unat d < BIG_DIGITS_LIMIT" "\<forall>d\<in>set bs. unat d < BIG_DIGITS_LIMIT"
  shows "case bn_add_loop as bs carry of (ds, c) \<Rightarrow>
     bn_mag ds + 1000000000 ^ length as * unat c = bn_mag as + bn_mag bs + unat carry \<and>
     length ds = length as \<and> unat c \<le> 1 \<and> (\<forall>d\<in>set ds. unat d \<le> BIG_DIGITS_LIMIT)"
  using assms
proof (induction as bs arbitrary: carry rule: list_induct2)
  case (Cons a as b bs)
  let ?r = "a + b + carry"
  define digit carry' where "digit = (if ?r > LIMIT_1 then ?r - LIMIT_1 else ?r)"
    and "carry' = (if ?r > LIMIT_1 then 1 else 0 :: u32)"
  obtain ds c where dsc: "bn_add_loop as bs carry' = (ds, c)" by fastforce
  have loop: "bn_add_loop (a # as) (b # bs) carry = (digit # ds, c)"
    using dsc by (simp add: Let_def digit_def carry'_def split: if_splits)
  have sum: "unat ?r = unat a + unat b + unat carry"
    using Cons.prems by (intro digit_sum) auto
  have gt: "?r > LIMIT_1 \<longleftrightarrow> unat ?r > 1000000000" by (simp add: word_less_nat_alt)
  have digit: "unat digit + 1000000000 * unat carry' = unat a + unat b + unat carry"
    using sum gt by (auto simp: digit_def carry'_def unat_sub word_le_nat_alt)
  have small: "unat digit \<le> BIG_DIGITS_LIMIT"
    using sum gt Cons.prems by (auto simp: digit_def unat_sub word_le_nat_alt BIG_DIGITS_LIMIT_def)
  have "case bn_add_loop as bs carry' of (ds, c) \<Rightarrow>
     bn_mag ds + 1000000000 ^ length as * unat c = bn_mag as + bn_mag bs + unat carry' \<and>
     length ds = length as \<and> unat c \<le> 1 \<and> (\<forall>d\<in>set ds. unat d \<le> BIG_DIGITS_LIMIT)"
    using Cons.prems by (intro Cons.IH) (auto simp: carry'_def)
  then have IH: "bn_mag ds + 1000000000 ^ length as * unat c = bn_mag as + bn_mag bs + unat carry'"
    "length ds = length as" "unat c \<le> 1" "\<forall>d\<in>set ds. unat d \<le> BIG_DIGITS_LIMIT"
    by (simp_all add: dsc)
  have "1000000000 * (bn_mag ds + 1000000000 ^ length as * unat c) =
     1000000000 * (bn_mag as + bn_mag bs + unat carry')"
    using IH(1) by simp
  then show ?case
    unfolding loop using digit small IH(2-4) by (simp add: algebra_simps)
qed auto

lemma digit_difference:
  fixes a b c :: u32
  assumes "unat a < BIG_DIGITS_LIMIT" "unat b < BIG_DIGITS_LIMIT" "unat c \<le> 1"
  shows "sint (ucast a - ucast b - ucast c :: 64 word) = int (unat a) - int (unat b) - int (unat c)"
proof -
  let ?x = "int (unat a) - int (unat b) - int (unat c)"
  have "(ucast a - ucast b - ucast c :: 64 word) = word_of_int ?x" by simp
  then have "sint (ucast a - ucast b - ucast c :: 64 word) = signed_take_bit 63 ?x"
    by (simp only: signed_of_int) simp
  also have "\<dots> = ?x"
  proof (rule signed_take_bit_int_eq_self)
    have "(2::int) ^ 63 = 9223372036854775808" by simp
    then show "- (2 ^ 63) \<le> ?x" "?x < 2 ^ 63"
      using assms unfolding BIG_DIGITS_LIMIT_def by linarith+
  qed
  finally show ?thesis .
qed

lemma bn_sub_loop_correct:
  assumes "length as = length bs" and "unat carry \<le> 1"
    and "\<forall>d\<in>set as. unat d < BIG_DIGITS_LIMIT" "\<forall>d\<in>set bs. unat d < BIG_DIGITS_LIMIT"
  shows "case bn_sub_loop as bs carry of (ds, c) \<Rightarrow>
     bn_mag ds + bn_mag bs + unat carry = bn_mag as + 1000000000 ^ length as * unat c \<and>
     length ds = length as \<and> unat c \<le> 1 \<and> (\<forall>d\<in>set ds. unat d < BIG_DIGITS_LIMIT)"
  using assms
proof (induction as bs arbitrary: carry rule: list_induct2)
  case (Cons a as b bs)
  let ?r = "ucast a - ucast b - ucast carry :: 64 word"
  define digit carry' where "digit = (if sint ?r < 0 then ?r + LIMIT_1 else ?r)"
    and "carry' = (if sint ?r < 0 then 1 else 0 :: u32)"
  obtain ds c where dsc: "bn_sub_loop as bs carry' = (ds, c)" by fastforce
  have loop: "bn_sub_loop (a # as) (b # bs) carry = (ucast digit # ds, c)"
    using dsc by (simp add: Let_def digit_def carry'_def split: if_splits)
  have r: "sint ?r = int (unat a) - int (unat b) - int (unat carry)"
    using Cons.prems by (intro digit_difference) auto
  have digit: "unat (ucast digit :: u32) + unat b + unat carry = unat a + 1000000000 * unat carry' \<and>
      unat (ucast digit :: u32) < BIG_DIGITS_LIMIT"
  proof -
    let ?d = "int (unat a) - int (unat b) - int (unat carry) + 1000000000 * int (unat carry')"
    have small: "unat a < 1000000000" "unat b < 1000000000" "unat carry \<le> 1"
      using Cons.prems by (auto simp: BIG_DIGITS_LIMIT_def)
    have "int (unat carry') = (if int (unat a) - int (unat b) - int (unat carry) < 0 then 1 else 0)"
      unfolding carry'_def r by simp
    then consider "int (unat a) - int (unat b) - int (unat carry) < 0" "int (unat carry') = 1"
      | "int (unat a) - int (unat b) - int (unat carry) \<ge> 0" "int (unat carry') = 0"
      by (cases "int (unat a) - int (unat b) - int (unat carry) < 0") simp_all
    then have d: "0 \<le> ?d \<and> ?d < 1000000000" using small by cases linarith+
    have "digit = word_of_int ?d"
      by (simp add: digit_def carry'_def)
    then have "uint digit = ?d"
      using d by (simp only: uint_word_of_int_eq) (intro take_bit_int_eq_self; simp)
    then have "uint (ucast digit :: u32) = ?d"
      using d by (simp add: unsigned_ucast_eq take_bit_int_eq_self)
    then have "int (unat (ucast digit :: u32)) = ?d" by simp
    then show ?thesis using d small unfolding BIG_DIGITS_LIMIT_def by linarith
  qed
  have "case bn_sub_loop as bs carry' of (ds, c) \<Rightarrow>
     bn_mag ds + bn_mag bs + unat carry' = bn_mag as + 1000000000 ^ length as * unat c \<and>
     length ds = length as \<and> unat c \<le> 1 \<and> (\<forall>d\<in>set ds. unat d < BIG_DIGITS_LIMIT)"
    using Cons.prems by (intro Cons.IH) (auto simp: carry'_def)
  then have IH: "bn_mag ds + bn_mag bs + unat carry' = bn_mag as + 1000000000 ^ length as * unat c"
    "length ds = length as" "unat c \<le> 1" "\<forall>d\<in>set ds. unat d < BIG_DIGITS_LIMIT"
    by (simp_all add: dsc)
  have "1000000000 * (bn_mag ds + bn_mag bs + unat carry') =
     1000000000 * (bn_mag as + 1000000000 ^ length as * unat c)"
    using IH(1) by simp
  then show ?case
    unfolding loop using digit IH(2-4) by (simp add: algebra_simps)
qed auto

text \<open>Taking the smaller magnitude from the larger one leaves no carry.\<close>

lemma bn_sub_loop_exact:
  assumes "bn_normal a" "bn_normal b" and "bn_mag (bn_digits b) \<le> bn_mag (bn_digits a)"
  shows "\<exists>ds. bn_sub_loop (bn_digits a) (bn_digits b) 0 = (ds, 0) \<and>
     bn_mag ds = bn_mag (bn_digits a) - bn_mag (bn_digits b) \<and>
     length ds = 5 \<and> (\<forall>d\<in>set ds. unat d < BIG_DIGITS_LIMIT)"
proof -
  obtain ds c where dsc: "bn_sub_loop (bn_digits a) (bn_digits b) 0 = (ds, c)" by fastforce
  have len: "length (bn_digits a) = 5" using assms(1) by (simp add: bn_normal_def)
  have r: "bn_mag ds + bn_mag (bn_digits b) = bn_mag (bn_digits a) + 1000000000 ^ 5 * unat c"
    "length ds = 5" "unat c \<le> 1" "\<forall>d\<in>set ds. unat d < BIG_DIGITS_LIMIT"
    using bn_sub_loop_correct [of "bn_digits a" "bn_digits b" 0] assms
    by (simp_all add: dsc bn_normal_def)
  have "bn_mag ds < 1000000000 ^ 5" using bn_mag_bound [OF r(4)] r(2) by simp
  then have "unat c = 0" using r(1,3) assms(3) by (cases "unat c = 1") simp_all
  then have "c = 0" by (simp add: unat_eq_0)
  then show ?thesis using dsc r by simp
qed

text \<open>
  C37. \<open>_CFBigNumAdd\<close> is exact addition with an outgoing carry worth \<open>10^45\<close>: on normal operands the
  result and the carry stand for the sum of the operands, the result has five digits of at most
  \<open>10^9\<close>, and when the signs differ there is no carry and every digit is proper.
\<close>

theorem bignum_add_exact:
  assumes "bn_normal a" and "bn_normal b"
  shows "case CFBigNumAdd a b of (r, carry) \<Rightarrow>
    bn_val r + (if bn_sign r < 0 then -1 else 1) * int (unat carry) * 10 ^ 45 = bn_val a + bn_val b \<and>
    length (bn_digits r) = 5 \<and> (\<forall>d\<in>set (bn_digits r). unat d \<le> BIG_DIGITS_LIMIT) \<and>
    (bn_sign a \<noteq> bn_sign b \<longrightarrow> carry = 0 \<and> bn_normal r)"
proof (cases "bn_sign a = bn_sign b")
  case True
  obtain ds c where dsc: "bn_add_loop (bn_digits a) (bn_digits b) 0 = (ds, c)" by fastforce
  have "bn_mag ds + 10 ^ 45 * unat c = bn_mag (bn_digits a) + bn_mag (bn_digits b)"
    "length ds = 5" "\<forall>d\<in>set ds. unat d \<le> BIG_DIGITS_LIMIT"
    using bn_add_loop_correct [of "bn_digits a" "bn_digits b" 0] assms
    by (simp_all add: dsc bn_normal_def)
  moreover from this(1) have "int (bn_mag ds) + 10 ^ 45 * int (unat c) =
      int (bn_mag (bn_digits a)) + int (bn_mag (bn_digits b))"
    by (metis of_nat_add of_nat_mult of_nat_power of_nat_numeral)
  ultimately show ?thesis
    using True by (simp add: CFBigNumAdd_def dsc bn_val_def mult.commute)
next
  case False
  define big small where "big = (if CFBigNumAbsoluteLessThan a b then b else a)"
    and "small = (if CFBigNumAbsoluteLessThan a b then a else b)"
  have norm: "bn_normal big" "bn_normal small" using assms by (simp_all add: big_def small_def)
  have le: "bn_mag (bn_digits small) \<le> bn_mag (bn_digits big)"
    using AbsoluteLessThan_correct [OF assms] by (simp add: big_def small_def)
  obtain ds where ds: "bn_sub_loop (bn_digits big) (bn_digits small) 0 = (ds, 0)"
      "bn_mag ds = bn_mag (bn_digits big) - bn_mag (bn_digits small)"
      "length ds = 5" "\<forall>d\<in>set ds. unat d < BIG_DIGITS_LIMIT"
    using bn_sub_loop_exact [OF norm le] by blast
  have signs: "bn_sign big \<noteq> bn_sign small" "bn_sign big = 0 \<or> bn_sign big = -1"
      "bn_sign small = 0 \<or> bn_sign small = -1"
    using False norm by (auto simp: big_def small_def bn_normal_def)
  have add: "CFBigNumAdd a b = (\<lparr>bn_digits = ds, bn_sign = (if bn_sign big < 0 then -1 else 0)\<rparr>, 0)"
    using False ds(1) by (cases "CFBigNumAbsoluteLessThan a b") (simp_all add: CFBigNumAdd_def big_def small_def)
  have "bn_val a + bn_val b = bn_val big + bn_val small" by (simp add: big_def small_def)
  also have "\<dots> = bn_val \<lparr>bn_digits = ds, bn_sign = (if bn_sign big < 0 then -1 else 0)\<rparr>"
    using signs le by (auto simp: bn_val_def ds(2))
  finally show ?thesis
    using ds(3,4) by (auto simp: add bn_normal_def less_imp_le)
qed

theorem bignum_add_exact_witness:
  "case CFBigNumAdd \<lparr>bn_digits = [999999999, 7, 0, 0, 0], bn_sign = 0\<rparr>
      \<lparr>bn_digits = [5, 8, 0, 0, 0], bn_sign = -1\<rparr> of (r, carry) \<Rightarrow> bn_val r = -6"
  using bignum_add_exact [of "\<lparr>bn_digits = [999999999, 7, 0, 0, 0], bn_sign = 0\<rparr>"
      "\<lparr>bn_digits = [5, 8, 0, 0, 0], bn_sign = -1\<rparr>"]
  by (auto simp: bn_normal_def bn_val_def BIG_DIGITS_LIMIT_def split: prod.splits)

text \<open>
  The carry test of \<open>_CFBigNumAdd\<close> is \<open>result > BIG_DIGITS_LIMIT\<close>: two digits that add up to exactly
  \<open>10^9\<close> leave the improper digit \<open>10^9\<close> and no carry, and \<open>_CFBigNumCompare\<close> then orders the sum below
  the proper representation of the same value.
\<close>

theorem bignum_add_misses_carry:
  assumes "0 < k" and "k < 1000000000"
  shows "case CFBigNumAdd (CFBigNumInitWithUInt32 (of_nat k)) (CFBigNumInitWithUInt32 (of_nat (1000000000 - k))) of
    (r, carry) \<Rightarrow> bn_digits r = [1000000000, 0, 0, 0, 0] \<and> carry = 0 \<and> \<not> bn_normal r \<and>
      bn_val r = bn_val (CFBigNumInitWithUInt32 1000000000) \<and>
      CFBigNumCompare r (CFBigNumInitWithUInt32 1000000000) = kCFCompareLessThan"
proof -
  have init: "CFBigNumInitWithUInt32 (of_nat n) = \<lparr>bn_digits = [of_nat n, 0, 0, 0, 0], bn_sign = 0\<rparr>"
    if "n < 1000000000" for n
  proof -
    have "of_nat n div LIMIT_1 = (0 :: u32)"
      using that by (simp add: word_arith_nat_div unsigned_of_nat take_bit_nat_eq_self)
    then show ?thesis by (simp add: CFBigNumInitWithUInt32_def)
  qed
  have big: "CFBigNumInitWithUInt32 1000000000 = \<lparr>bn_digits = [0, 1, 0, 0, 0], bn_sign = 0\<rparr>"
    by (simp add: CFBigNumInitWithUInt32_def Let_def)
  define j where "j = 1000000000 - k"
  have j: "j < 1000000000" "k + j = 1000000000" using assms by (simp_all add: j_def)
  have "of_nat k + of_nat j = (of_nat (k + j) :: u32)" by simp
  then have sum: "of_nat k + of_nat j = (1000000000 :: u32)" by (simp add: j(2))
  have "CFBigNumAdd (CFBigNumInitWithUInt32 (of_nat k)) (CFBigNumInitWithUInt32 (of_nat j)) =
      (\<lparr>bn_digits = [1000000000, 0, 0, 0, 0], bn_sign = 0\<rparr>, 0)"
    using assms(2) j(1) by (simp add: init CFBigNumAdd_def sum)
  then show ?thesis
    by (simp add: j_def [symmetric] big bn_normal_def bn_val_def BIG_DIGITS_LIMIT_def
        CFBigNumCompare_def bn_compare_loop_5)
qed

theorem bignum_add_misses_carry_witness:
  "bn_digits (fst (CFBigNumAdd (CFBigNumInitWithUInt32 1) (CFBigNumInitWithUInt32 999999999))) =
     [1000000000, 0, 0, 0, 0]"
  using bignum_add_misses_carry [of 1] by (auto split: prod.splits)

text \<open>
  Subtracting a negative number from itself gives the negative zero, which is not canonical, and
  which \<open>_CFBigNumCompare\<close> orders below zero.
\<close>

theorem bignum_sub_negative_zero:
  assumes "bn_canonical a" and "bn_val a < 0"
  shows "CFBigNumSub a a = (\<lparr>bn_digits = [0, 0, 0, 0, 0], bn_sign = -1\<rparr>, 0) \<and>
    CFBigNumCompare (fst (CFBigNumSub a a)) (CFBigNumInitWithUInt32 0) = kCFCompareLessThan"
proof -
  have a: "bn_sign a = -1" "bn_normal a" "bn_mag (bn_digits a) \<noteq> 0"
    using assms by (auto simp: bn_normal_simps split: if_splits)
  then have neg: "CFBigNumNeg a = a\<lparr>bn_sign := 0\<rparr>"
    by (simp add: CFBigNumNeg_def bn_mag_eq_0)
  have "\<exists>ds. bn_sub_loop (bn_digits a) (bn_digits a) 0 = (ds, 0) \<and> bn_mag ds = 0 \<and> length ds = 5"
    using bn_sub_loop_exact [OF a(2) a(2)] by auto
  then obtain ds where ds: "bn_sub_loop (bn_digits a) (bn_digits a) 0 = (ds, 0)" "bn_mag ds = 0" "length ds = 5"
    by blast
  obtain d0 d1 d2 d3 d4 where "ds = [d0, d1, d2, d3, d4]" using five_digits [OF ds(3)] by metis
  then have "ds = [0, 0, 0, 0, 0]" using ds(2) by (simp add: unat_eq_0)
  moreover have "\<not> CFBigNumAbsoluteLessThan a (a\<lparr>bn_sign := 0\<rparr>)"
    using AbsoluteLessThan_correct [of a "a\<lparr>bn_sign := 0\<rparr>"] a(2) by (simp add: bn_normal_def)
  ultimately have "CFBigNumSub a a = (\<lparr>bn_digits = [0, 0, 0, 0, 0], bn_sign = -1\<rparr>, 0)"
    using a(1) ds(1) by (simp add: CFBigNumSub_def CFBigNumAdd_def neg)
  then show ?thesis
    by (simp add: CFBigNumInitWithUInt32_def CFBigNumCompare_def)
qed

theorem bignum_sub_negative_zero_witness:
  "CFBigNumSub (CFBigNumInitWithInt8 (- 5)) (CFBigNumInitWithInt8 (- 5)) =
     (\<lparr>bn_digits = [0, 0, 0, 0, 0], bn_sign = -1\<rparr>, 0)"
  using bignum_sub_negative_zero [of "CFBigNumInitWithInt8 (- 5)"] InitWithInt_correct(1) [of "- 5"] by simp

subsection \<open>Round trips through machine integers\<close>

lemma bn_val_eq_InitWithInt:
  "bn_val (CFBigNumInitWithInt8 n8) = sint n8" "bn_val (CFBigNumInitWithInt16 n16) = sint n16"
  "bn_val (CFBigNumInitWithInt32 n32) = sint n32" "bn_val (CFBigNumInitWithInt64 n64) = sint n64"
  "bn_val (CFBigNumInitWithInt128 n128) = sint n128"
  using InitWithInt_correct by blast+

lemma bn_digits_length:
  "length (bn_digits (CFBigNumInitWithInt8 n8)) = 5" "length (bn_digits (CFBigNumInitWithInt16 n16)) = 5"
  "length (bn_digits (CFBigNumInitWithInt32 n32)) = 5" "length (bn_digits (CFBigNumInitWithInt64 n64)) = 5"
  "length (bn_digits (CFBigNumInitWithInt128 n128)) = 5"
  using InitWithInt_correct by (simp_all add: bn_normal_simps)

lemma InitWithInt_roundtrip:
  "bn_canonical (CFBigNumInitWithInt8 n8) \<and> bn_val (CFBigNumInitWithInt8 n8) = sint n8 \<and>
     CFBigNumGetInt8 (CFBigNumInitWithInt8 n8) = n8"
  "bn_canonical (CFBigNumInitWithInt16 n16) \<and> bn_val (CFBigNumInitWithInt16 n16) = sint n16 \<and>
     CFBigNumGetInt16 (CFBigNumInitWithInt16 n16) = n16"
  "bn_canonical (CFBigNumInitWithInt32 n32) \<and> bn_val (CFBigNumInitWithInt32 n32) = sint n32 \<and>
     CFBigNumGetInt32 (CFBigNumInitWithInt32 n32) = n32"
  "bn_canonical (CFBigNumInitWithInt64 n64) \<and> bn_val (CFBigNumInitWithInt64 n64) = sint n64 \<and>
     CFBigNumGetInt64 (CFBigNumInitWithInt64 n64) = n64"
  "bn_canonical (CFBigNumInitWithInt128 n128) \<and> bn_val (CFBigNumInitWithInt128 n128) = sint n128 \<and>
     CFBigNumGetInt128 (CFBigNumInitWithInt128 n128) = n128"
proof -
  have digits: "drop 1 (bn_digits (CFBigNumInitWithInt8 n8)) = [0, 0, 0, 0]"
    "drop 1 (bn_digits (CFBigNumInitWithInt16 n16)) = [0, 0, 0, 0]"
    "drop 2 (bn_digits (CFBigNumInitWithInt32 n32)) = [0, 0, 0]"
    "drop 3 (bn_digits (CFBigNumInitWithInt64 n64)) = [0, 0]"
    by (simp_all add: CFBigNumInitWithInt8_def CFBigNumInitWithInt16_def CFBigNumInitWithInt32_def
        CFBigNumInitWithInt64_def Let_def split_beta)
  show "bn_canonical (CFBigNumInitWithInt8 n8) \<and> bn_val (CFBigNumInitWithInt8 n8) = sint n8 \<and>
     CFBigNumGetInt8 (CFBigNumInitWithInt8 n8) = n8"
    using InitWithInt_correct(1) [of n8] GetInt_correct(5) [OF bn_digits_length(1) digits(1)] by simp
  show "bn_canonical (CFBigNumInitWithInt16 n16) \<and> bn_val (CFBigNumInitWithInt16 n16) = sint n16 \<and>
     CFBigNumGetInt16 (CFBigNumInitWithInt16 n16) = n16"
    using InitWithInt_correct(2) [of n16] GetInt_correct(4) [OF bn_digits_length(2) digits(2)] by simp
  show "bn_canonical (CFBigNumInitWithInt32 n32) \<and> bn_val (CFBigNumInitWithInt32 n32) = sint n32 \<and>
     CFBigNumGetInt32 (CFBigNumInitWithInt32 n32) = n32"
    using InitWithInt_correct(3) [of n32] GetInt_correct(3) [OF bn_digits_length(3) digits(3)] by simp
  show "bn_canonical (CFBigNumInitWithInt64 n64) \<and> bn_val (CFBigNumInitWithInt64 n64) = sint n64 \<and>
     CFBigNumGetInt64 (CFBigNumInitWithInt64 n64) = n64"
    using InitWithInt_correct(4) [of n64] GetInt_correct(2) [OF bn_digits_length(4) digits(4)] by simp
  show "bn_canonical (CFBigNumInitWithInt128 n128) \<and> bn_val (CFBigNumInitWithInt128 n128) = sint n128 \<and>
     CFBigNumGetInt128 (CFBigNumInitWithInt128 n128) = n128"
    using InitWithInt_correct(5) [of n128] GetInt_correct(1) [OF bn_digits_length(5)] by simp
qed

text \<open>
  Every signed initialiser keeps the value, gives a canonical number, and the reader of the same
  width gives the value back, the most negative one included.
\<close>

theorem bignum_integer_roundtrip:
  "(bn_canonical (CFBigNumInitWithInt8 n8) \<and> bn_val (CFBigNumInitWithInt8 n8) = sint n8 \<and>
     CFBigNumGetInt8 (CFBigNumInitWithInt8 n8) = n8) \<and>
   (bn_canonical (CFBigNumInitWithInt16 n16) \<and> bn_val (CFBigNumInitWithInt16 n16) = sint n16 \<and>
     CFBigNumGetInt16 (CFBigNumInitWithInt16 n16) = n16) \<and>
   (bn_canonical (CFBigNumInitWithInt32 n32) \<and> bn_val (CFBigNumInitWithInt32 n32) = sint n32 \<and>
     CFBigNumGetInt32 (CFBigNumInitWithInt32 n32) = n32) \<and>
   (bn_canonical (CFBigNumInitWithInt64 n64) \<and> bn_val (CFBigNumInitWithInt64 n64) = sint n64 \<and>
     CFBigNumGetInt64 (CFBigNumInitWithInt64 n64) = n64) \<and>
   (bn_canonical (CFBigNumInitWithInt128 n128) \<and> bn_val (CFBigNumInitWithInt128 n128) = sint n128 \<and>
     CFBigNumGetInt128 (CFBigNumInitWithInt128 n128) = n128)"
  by (intro conjI; simp only: InitWithInt_roundtrip)

subsection \<open>Creating a \<open>CFNumber\<close>\<close>

lemma bn_between_correct:
  assumes "bn_canonical lo" "bn_canonical n" "bn_canonical hi"
  shows "bn_between lo n hi \<longleftrightarrow> bn_val lo \<le> bn_val n \<and> bn_val n \<le> bn_val hi"
  using Compare_correct [OF assms(2,1)] Compare_correct [OF assms(2,3)]
  by (auto simp: bn_between_def Let_def CFComparisonResult_defs)

lemma InitWithInt_limits:
  "bn_canonical (CFBigNumInitWithInt32 w32)" "bn_canonical (CFBigNumInitWithInt64 w64)"
  "bn_canonical (CFBigNumInitWithInt128 w128)"
  using InitWithInt_correct by blast+

lemma bn_high_digits_zero:
  assumes "length (bn_digits n) = 5" and "bn_mag (bn_digits n) < 1000000000 ^ k" and "k \<le> i" and "i < 5"
  shows "bn_digits n ! i = 0"
proof (rule ccontr)
  assume "bn_digits n ! i \<noteq> 0"
  then have "1 \<le> unat (bn_digits n ! i)" by (simp add: unat_gt_0 Suc_le_eq)
  then have "1000000000 ^ i * 1 \<le> 1000000000 ^ i * unat (bn_digits n ! i)" by (rule mult_le_mono2)
  moreover have "bn_digits n = take i (bn_digits n) @ bn_digits n ! i # drop (Suc i) (bn_digits n)"
    using assms(1,4) by (simp add: id_take_nth_drop)
  then have "bn_mag (bn_digits n) = bn_mag (take i (bn_digits n) @ bn_digits n ! i # drop (Suc i) (bn_digits n))"
    by (rule arg_cong)
  then have "1000000000 ^ i * unat (bn_digits n ! i) \<le> bn_mag (bn_digits n)"
    using assms(1,4) by (simp add: bn_mag_append algebra_simps)
  moreover have "(1000000000::nat) ^ k \<le> 1000000000 ^ i" using assms(3) by (intro power_increasing) simp_all
  ultimately show False using assms(2) by linarith
qed

text \<open>The guards of the source on the digits, as bounds on the value.\<close>

lemma bn_guard:
  assumes "bn_canonical n" and "unat c < 1000000000"
  shows "bn_digits n ! 4 = 0 \<and> bn_digits n ! 3 = 0 \<and> bn_digits n ! 2 = 0 \<and> bn_digits n ! 1 = 0 \<and>
           bn_digits n ! 0 \<le> c \<longleftrightarrow> \<bar>bn_val n\<bar> \<le> int (unat c)" (is "?G \<longleftrightarrow> _")
proof -
  have len: "length (bn_digits n) = 5" using assms by (simp add: bn_normal_simps)
  have abs: "\<bar>bn_val n\<bar> \<le> int (unat c) \<longleftrightarrow> bn_mag (bn_digits n) \<le> unat c"
    unfolding bn_val_def by (cases "bn_sign n < 0") (simp_all only: if_True if_False abs_minus abs_of_nat of_nat_le_iff)
  have low: "bn_mag (bn_digits n) = unat (bn_digits n ! 0)"
    if "bn_digits n ! 4 = 0 \<and> bn_digits n ! 3 = 0 \<and> bn_digits n ! 2 = 0 \<and> bn_digits n ! 1 = 0"
    using that by (rule_tac five_digits [OF len]) simp
  have zero: "bn_digits n ! 4 = 0 \<and> bn_digits n ! 3 = 0 \<and> bn_digits n ! 2 = 0 \<and> bn_digits n ! 1 = 0"
    if "bn_mag (bn_digits n) \<le> unat c"
    using bn_high_digits_zero [OF len, where k = 1] that assms(2) by simp
  show ?thesis
    unfolding abs using low zero by (metis word_le_nat_alt)
qed

lemma bn_guards:
  assumes "bn_canonical n"
  shows "bn_digits n ! 4 = 0 \<and> bn_digits n ! 3 = 0 \<and> bn_digits n ! 2 = 0 \<and> bn_digits n ! 1 = 0 \<and>
           bn_digits n ! 0 \<le> 127 \<longleftrightarrow> \<bar>bn_val n\<bar> \<le> 127"
    and "bn_digits n ! 4 = 0 \<and> bn_digits n ! 3 = 0 \<and> bn_digits n ! 2 = 0 \<and> bn_digits n ! 1 = 0 \<and>
           bn_digits n ! 0 \<le> 32767 \<longleftrightarrow> \<bar>bn_val n\<bar> \<le> 32767"
  using bn_guard [OF assms, of 127] bn_guard [OF assms, of 32767] by simp_all

lemma bn_wide_guard:
  assumes "bn_canonical n"
  shows "bn_digits n ! 4 = 0 \<and> bn_digits n ! 3 = 0 \<and> bn_digits n ! 2 = 0 \<and>
      bn_between (CFBigNumInitWithInt32 (- (2 ^ 31))) n (CFBigNumInitWithInt32 (2 ^ 31 - 1)) \<longleftrightarrow>
      - 2147483648 \<le> bn_val n \<and> bn_val n \<le> 2147483647" (is ?A)
    and "bn_digits n ! 4 = 0 \<and> bn_digits n ! 3 = 0 \<and>
      bn_between (CFBigNumInitWithInt64 (- (2 ^ 63))) n (CFBigNumInitWithInt64 (2 ^ 63 - 1)) \<longleftrightarrow>
      - 9223372036854775808 \<le> bn_val n \<and> bn_val n \<le> 9223372036854775807" (is ?B)
    and "bn_between (CFBigNumInitWithInt128 (- (2 ^ 127))) n (CFBigNumInitWithInt128 (2 ^ 127 - 1)) \<longleftrightarrow>
      - (2 ^ 127) \<le> bn_val n \<and> bn_val n \<le> 2 ^ 127 - 1" (is ?C)
proof -
  have len: "length (bn_digits n) = 5" using assms by (simp add: bn_normal_simps)
  have mag: "int (bn_mag (bn_digits n)) = \<bar>bn_val n\<bar>" by (simp add: bn_val_def)
  have d2: "bn_digits n ! 4 = 0 \<and> bn_digits n ! 3 = 0 \<and> bn_digits n ! 2 = 0" if "\<bar>bn_val n\<bar> < 1000000000 ^ 2"
  proof -
    have "int (bn_mag (bn_digits n)) < int (1000000000 ^ 2)" using that mag by simp
    then have "bn_mag (bn_digits n) < 1000000000 ^ 2" by (simp only: of_nat_less_iff)
    then show ?thesis using bn_high_digits_zero [OF len, where k = 2] by simp
  qed
  have d3: "bn_digits n ! 4 = 0 \<and> bn_digits n ! 3 = 0" if "\<bar>bn_val n\<bar> < 1000000000 ^ 3"
  proof -
    have "int (bn_mag (bn_digits n)) < int (1000000000 ^ 3)" using that mag by simp
    then have "bn_mag (bn_digits n) < 1000000000 ^ 3" by (simp only: of_nat_less_iff)
    then show ?thesis using bn_high_digits_zero [OF len, where k = 3] by simp
  qed
  show ?A
    using d2 by (auto simp: bn_between_correct [OF InitWithInt_limits(1) assms InitWithInt_limits(1)]
        bn_val_eq_InitWithInt)
  show ?B
    using d3 by (auto simp: bn_between_correct [OF InitWithInt_limits(2) assms InitWithInt_limits(2)]
        bn_val_eq_InitWithInt)
  show ?C
    by (simp add: bn_between_correct [OF InitWithInt_limits(3) assms InitWithInt_limits(3)]
        bn_val_eq_InitWithInt)
qed

lemma bn_drop_digits:
  assumes "length ds = 5"
  shows "drop 3 ds = [0, 0] \<longleftrightarrow> ds ! 4 = 0 \<and> ds ! 3 = 0"
    and "drop 2 ds = [0, 0, 0] \<longleftrightarrow> ds ! 4 = 0 \<and> ds ! 3 = 0 \<and> ds ! 2 = 0"
    and "drop 1 ds = [0, 0, 0, 0] \<longleftrightarrow> ds ! 4 = 0 \<and> ds ! 3 = 0 \<and> ds ! 2 = 0 \<and> ds ! 1 = 0"
  by (rule five_digits [OF assms]; auto)+

section \<open>Conversions to and from decimal strings\<close>

text \<open>
  Characters are HOL's 8-bit \<open>char\<close>; a buffer is the list of characters the code has stored in it, the
  terminating NUL included, and a C string is the part before the first NUL. \<open>atol\<close> and the
  \<open>%09u\<close> conversion are written out after the C standard library; a value beyond the range of \<open>long\<close> is
  clamped, as \<open>strtol\<close> does.
\<close>

definition NUL :: char where "NUL = CHR 0x00"

definition C_string :: "string \<Rightarrow> string" where "C_string buffer = takeWhile (\<lambda>c. c \<noteq> NUL) buffer"

definition isdigit :: "char \<Rightarrow> bool" where
  "isdigit c \<longleftrightarrow> 48 \<le> (of_char c :: nat) \<and> (of_char c :: nat) \<le> 57"

definition isspace :: "char \<Rightarrow> bool" where
  "isspace c \<longleftrightarrow> (of_char c :: nat) = 32 \<or> (9 \<le> (of_char c :: nat) \<and> (of_char c :: nat) \<le> 13)"

definition dec_val :: "string \<Rightarrow> nat" where
  "dec_val s = foldl (\<lambda>acc c. acc * 10 + (of_char c - 48)) 0 s"

fun dec_string :: "nat \<Rightarrow> string" where
  "dec_string n = (if n < 10 then [char_of (48 + n)] else dec_string (n div 10) @ [char_of (48 + n mod 10)])"

declare dec_string.simps [simp del]

definition fmt_09u :: "u32 \<Rightarrow> string" where
  "fmt_09u d = (let s = dec_string (unat d) in replicate (9 - length s) CHR ''0'' @ s)"

definition atol :: "string \<Rightarrow> int" where
  "atol string =
     (let s = dropWhile isspace string;
          (negative, s) = (case s of
             c # r \<Rightarrow> if c = CHR ''-'' then (True, r) else if c = CHR ''+'' then (False, r) else (False, s)
           | [] \<Rightarrow> (False, []));
          v = int (dec_val (takeWhile isdigit s))
      in if negative then max (- (2 ^ 63)) (- v) else min (2 ^ 63 - 1) v)"

text \<open>\<open>snprintf\<close> into \<open>tmp[46]\<close> keeps at most 45 characters and terminates them.\<close>

definition bn_tmp :: "CFBigNum \<Rightarrow> string" where
  "bn_tmp vp = take 45 (concat (map fmt_09u (rev (bn_digits vp)))) @ [NUL]"

definition CFBigNumToCString :: "CFBigNum \<Rightarrow> bool \<Rightarrow> bool \<Rightarrow> nat \<Rightarrow> string cf" where
  "CFBigNumToCString vp leading_zeros leading_plus buflen =
     ebind (if bn_sign vp < 0 then (if buflen = 0 then Inl OutOfBounds else Inr ([CHR ''-''], buflen - 1))
            else if leading_plus then (if buflen = 0 then Inl OutOfBounds else Inr ([CHR ''+''], buflen - 1))
            else Inr ([], buflen))
       (\<lambda>(sign, buflen).
         let tmp = bn_tmp vp in
         if leading_zeros then
           (let tocopy = min 46 buflen
            in Inr (sign @ replicate (buflen - tocopy) CHR ''0'' @ drop (46 - tocopy) tmp))
         else
           (let s = dropWhile (\<lambda>c. c = CHR ''0'') (C_string tmp);
                s = (if s = [] then ''0'' else s)
            in Inr (sign @ (if buflen = 0 then [] else take (buflen - 1) s @ [NUL]))))"

text \<open>
  The chunk loop: the last nine characters of \<open>working\<close> are the next digit while there are more than
  nine and a later digit to hold the rest.
\<close>

fun bn_chunks :: "nat \<Rightarrow> string \<Rightarrow> u32 list" where
  "bn_chunks 0 working = [word_of_int (atol working)]"
| "bn_chunks (Suc k) working =
     (if 9 < length working
      then word_of_int (atol (drop (length working - 9) working)) # bn_chunks k (take (length working - 9) working)
      else [word_of_int (atol working)])"

definition CFBigNumFromCString :: "string \<Rightarrow> CFBigNum" where
  "CFBigNumFromCString string =
     (let (sign, working) = (case string of
            c # r \<Rightarrow> if c = CHR ''-'' then (-1, r) else if c = CHR ''+'' then (0, r) else (0, string)
          | [] \<Rightarrow> (0, []));
          working = dropWhile (\<lambda>c. c = CHR ''0'') working
      in if length working = 0 then \<lparr>bn_digits = replicate 5 0, bn_sign = sign\<rparr>
         else (let ds = bn_chunks 4 working
               in \<lparr>bn_digits = ds @ replicate (5 - length ds) 0, bn_sign = sign\<rparr>))"

subsection \<open>Decimal strings\<close>

lemma dec_val_fold: "foldl (\<lambda>acc c. acc * 10 + (of_char c - 48)) k s = k * 10 ^ length s + dec_val s"
proof (induction s arbitrary: k)
  case (Cons c s)
  show ?case
    using Cons.IH [of "k * 10 + (of_char c - 48)"] Cons.IH [of "of_char c - 48"]
    by (simp add: dec_val_def algebra_simps)
qed (simp add: dec_val_def)

lemma dec_val_Nil: "dec_val [] = 0" by (simp add: dec_val_def)

lemma dec_val_append: "dec_val (s @ t) = dec_val s * 10 ^ length t + dec_val t"
  using dec_val_fold [of "dec_val s" t] by (simp add: dec_val_def)

lemma dec_val_Cons: "dec_val (c # s) = (of_char c - 48) * 10 ^ length s + dec_val s"
  using dec_val_fold [of "of_char c - 48" s] by (simp add: dec_val_def)

lemma isdigit_value: "isdigit c \<Longrightarrow> of_char c - 48 \<le> (9::nat)"
  unfolding isdigit_def by arith

lemma dec_val_bound: "\<forall>c\<in>set s. isdigit c \<Longrightarrow> dec_val s < 10 ^ length s"
proof (induction s)
  case (Cons c s)
  then have "of_char c - 48 \<le> (9::nat)" by (simp add: isdigit_value)
  then have "(of_char c - 48) * 10 ^ length s \<le> 9 * (10::nat) ^ length s" by (rule mult_le_mono1)
  moreover have "dec_val s < 10 ^ length s" using Cons by simp
  ultimately have "dec_val (c # s) < 9 * 10 ^ length s + 10 ^ length s"
    unfolding dec_val_Cons by (rule add_le_less_mono)
  then show ?case by simp
qed (simp add: dec_val_Nil)

lemma dec_val_zeros: "dec_val (replicate k CHR ''0'' @ s) = dec_val s"
  by (induction k) (simp_all add: dec_val_Cons)

lemma dec_val_skip_zeros: "dec_val (dropWhile (\<lambda>c. c = CHR ''0'') s) = dec_val s"
  by (induction s) (simp_all add: dec_val_Cons)

lemma isdigit_char_of: "(n::nat) < 10 \<Longrightarrow> isdigit (char_of (48 + n))"
  by (simp add: isdigit_def)

lemma dec_string_correct:
  "(\<forall>c\<in>set (dec_string n). isdigit c) \<and> dec_val (dec_string n) = n \<and>
   (\<forall>k>0. n < 10 ^ k \<longrightarrow> length (dec_string n) \<le> k)"
proof (induction n rule: dec_string.induct)
  case (1 n)
  show ?case
  proof (cases "n < 10")
    case True
    then show ?thesis
      by (subst (1 2 3) dec_string.simps) (simp add: isdigit_char_of dec_val_Cons dec_val_Nil Suc_le_eq)
  next
    case False
    then have eq: "dec_string n = dec_string (n div 10) @ [char_of (48 + n mod 10)]"
      by (subst dec_string.simps) simp
    have IH: "\<forall>c\<in>set (dec_string (n div 10)). isdigit c" "dec_val (dec_string (n div 10)) = n div 10"
        "\<And>k. 0 < k \<Longrightarrow> n div 10 < 10 ^ k \<Longrightarrow> length (dec_string (n div 10)) \<le> k"
      using 1 [OF False] by blast+
    have len: "length (dec_string n) \<le> k" if k: "0 < k" "n < 10 ^ k" for k
    proof -
      obtain j where j: "k = Suc j" using k(1) gr0_implies_Suc by blast
      have "0 < j" using False k(2) j by (cases j) simp_all
      moreover have "n div 10 < 10 ^ j" using k(2) by (intro less_mult_imp_div_less) (simp add: j)
      ultimately show ?thesis using IH(3) [of j] by (simp add: eq j)
    qed
    have "dec_val (dec_string n) = n"
      by (simp add: eq IH(2) dec_val_append dec_val_Cons dec_val_Nil)
    moreover have "\<forall>c\<in>set (dec_string n). isdigit c"
      using IH(1) by (auto simp: eq isdigit_char_of)
    ultimately show ?thesis using len by blast
  qed
qed

lemma fmt_09u_correct:
  assumes "unat d < BIG_DIGITS_LIMIT"
  shows "length (fmt_09u d) = 9 \<and> dec_val (fmt_09u d) = unat d \<and> (\<forall>c\<in>set (fmt_09u d). isdigit c)"
proof -
  have "length (dec_string (unat d)) \<le> 9"
    using dec_string_correct [of "unat d"] assms by (auto simp: BIG_DIGITS_LIMIT_def)
  then show ?thesis
    using dec_string_correct [of "unat d"] by (auto simp: fmt_09u_def Let_def dec_val_zeros isdigit_def)
qed

lemma concat_fmt_09u:
  assumes "\<forall>d\<in>set ds. unat d < BIG_DIGITS_LIMIT"
  shows "length (concat (map fmt_09u (rev ds))) = 9 * length ds \<and>
    dec_val (concat (map fmt_09u (rev ds))) = bn_mag ds \<and>
    (\<forall>c\<in>set (concat (map fmt_09u (rev ds))). isdigit c)"
  using assms
proof (induction ds)
  case (Cons d ds)
  have "length (fmt_09u d) = 9" "dec_val (fmt_09u d) = unat d" "\<forall>c\<in>set (fmt_09u d). isdigit c"
    using fmt_09u_correct Cons.prems by auto
  then show ?case using Cons by (auto simp: dec_val_append)
qed (simp add: dec_val_Nil)

lemma atol_digits:
  assumes "\<forall>c\<in>set s. isdigit c" and "length s \<le> 18"
  shows "atol s = int (dec_val s)"
proof -
  have sp: "dropWhile isspace s = s"
    using assms(1) by (cases s) (auto simp: isspace_def isdigit_def)
  have sign: "(case s of
             c # r \<Rightarrow> if c = CHR ''-'' then (True, r) else if c = CHR ''+'' then (False, r) else (False, s)
           | [] \<Rightarrow> (False, [])) = (False, s)"
    using assms(1) by (cases s) (auto simp: isdigit_def)
  have "dec_val s < 10 ^ 18"
    using dec_val_bound [OF assms(1)] power_increasing [OF assms(2), of "10::nat"] by simp
  moreover have "takeWhile isdigit s = s" using assms(1) by (simp add: takeWhile_eq_all_conv)
  ultimately show ?thesis by (simp only: atol_def sp sign Let_def split) simp
qed

lemma bn_chunk:
  assumes "\<forall>c\<in>set w. isdigit c" and "length w \<le> 9"
  shows "bn_mag [word_of_int (atol w)] = dec_val w \<and> unat (word_of_int (atol w) :: u32) < BIG_DIGITS_LIMIT"
proof -
  have "dec_val w < 10 ^ 9"
    using dec_val_bound [OF assms(1)] power_increasing [OF assms(2), of "10::nat"] by simp
  then show ?thesis
    using atol_digits [OF assms(1)] assms(2)
    by (simp add: BIG_DIGITS_LIMIT_def unsigned_of_nat take_bit_nat_eq_self)
qed

lemma bn_chunks_correct:
  assumes "\<forall>c\<in>set w. isdigit c" and "length w \<le> 9 * Suc k"
  shows "bn_mag (bn_chunks k w) = dec_val w \<and> length (bn_chunks k w) \<le> Suc k \<and>
    (\<forall>d\<in>set (bn_chunks k w). unat d < BIG_DIGITS_LIMIT)"
  using assms
proof (induction k w rule: bn_chunks.induct)
  case (1 w)
  then show ?case using bn_chunk [of w] by simp
next
  case (2 k w)
  show ?case
  proof (cases "9 < length w")
    case True
    define hi lo where "hi = take (length w - 9) w" and "lo = drop (length w - 9) w"
    have w: "w = hi @ lo" "length lo = 9" "length hi = length w - 9"
      using True by (simp_all add: hi_def lo_def)
    have dig: "\<forall>c\<in>set hi. isdigit c" "\<forall>c\<in>set lo. isdigit c"
      using 2(2) by (auto simp: hi_def lo_def dest: in_set_takeD in_set_dropD)
    have IH: "bn_mag (bn_chunks k hi) = dec_val hi \<and> length (bn_chunks k hi) \<le> Suc k \<and>
        (\<forall>d\<in>set (bn_chunks k hi). unat d < BIG_DIGITS_LIMIT)"
      unfolding hi_def using 2(1) [OF True] 2(3) dig(1) by (simp add: hi_def)
    have "bn_chunks (Suc k) w = word_of_int (atol lo) # bn_chunks k hi"
      using True by (simp add: hi_def lo_def)
    moreover have "dec_val w = dec_val hi * 10 ^ 9 + dec_val lo"
      unfolding w(1) by (simp add: dec_val_append w(2))
    ultimately show ?thesis
      using bn_chunk [OF dig(2)] IH w(2) by simp
  next
    case False
    then show ?thesis using bn_chunk [of w] 2(2) by simp
  qed
qed

lemma bn_mag_inject:
  assumes "length a = length b" and "\<forall>d\<in>set a. unat d < BIG_DIGITS_LIMIT"
    and "\<forall>d\<in>set b. unat d < BIG_DIGITS_LIMIT" and "bn_mag a = bn_mag b"
  shows "a = b"
  using assms
proof (induction a b rule: list_induct2)
  case (Cons x a y b)
  have small: "unat x < 1000000000" "unat y < 1000000000" using Cons.prems by (auto simp: BIG_DIGITS_LIMIT_def)
  have eq: "unat x + 1000000000 * bn_mag a = unat y + 1000000000 * bn_mag b" using Cons.prems by simp
  have "(unat x + 1000000000 * bn_mag a) mod 1000000000 = (unat y + 1000000000 * bn_mag b) mod 1000000000"
    by (simp only: eq)
  then have "unat x = unat y" using small by simp
  then show ?case using Cons eq by (simp add: word_unat_eq_iff)
qed simp

lemma bn_mag_zeros: "bn_mag (replicate k 0) = 0"
  by (induction k) simp_all

text \<open>Reading the digits of a number back, whatever zeros precede them.\<close>

lemma FromCString_digits:
  assumes "bn_normal n" and "all = concat (map fmt_09u (rev (bn_digits n)))"
    and "dropWhile (\<lambda>c. c = CHR ''0'') body = dropWhile (\<lambda>c. c = CHR ''0'') all"
    and "sign = ''-'' \<and> s = -1 \<or> sign = ''+'' \<and> s = 0 \<or> sign = '''' \<and> s = 0 \<and> (\<forall>c\<in>set body. isdigit c)"
  shows "CFBigNumFromCString (sign @ body) = \<lparr>bn_digits = bn_digits n, bn_sign = s\<rparr>"
proof -
  define w where "w = dropWhile (\<lambda>c. c = CHR ''0'') all"
  have n: "length (bn_digits n) = 5" "\<forall>d\<in>set (bn_digits n). unat d < BIG_DIGITS_LIMIT"
    using assms(1) by (simp_all add: bn_normal_def)
  have all: "length all = 45" "dec_val all = bn_mag (bn_digits n)" "\<forall>c\<in>set all. isdigit c"
    using concat_fmt_09u [OF n(2)] n(1) by (simp_all add: assms(2))
  have w: "dec_val w = bn_mag (bn_digits n)" "\<forall>c\<in>set w. isdigit c" "length w \<le> 45"
    using all dec_val_skip_zeros [of all] length_dropWhile_le [of _ all]
    by (auto simp: w_def dest: set_dropWhileD)
  have read: "CFBigNumFromCString (sign @ body) =
     (if length w = 0 then \<lparr>bn_digits = replicate 5 0, bn_sign = s\<rparr>
      else \<lparr>bn_digits = bn_chunks 4 w @ replicate (5 - length (bn_chunks 4 w)) 0, bn_sign = s\<rparr>)"
  proof -
    have sg: "(case sign @ body of
            c # r \<Rightarrow> if c = CHR ''-'' then (-1, r) else if c = CHR ''+'' then (0, r) else (0, sign @ body)
          | [] \<Rightarrow> (0, [])) = (s, body)"
      using assms(4) by (cases body) (auto simp: isdigit_def)
    show ?thesis
      unfolding CFBigNumFromCString_def Let_def by (simp only: sg split assms(3) w_def [symmetric])
  qed
  let ?ds = "bn_chunks 4 w @ replicate (5 - length (bn_chunks 4 w)) 0"
  have chunks: "bn_mag (bn_chunks 4 w) = dec_val w \<and> length (bn_chunks 4 w) \<le> 5 \<and>
      (\<forall>d\<in>set (bn_chunks 4 w). unat d < BIG_DIGITS_LIMIT)"
    using bn_chunks_correct [OF w(2), of 4] w(3) by simp
  have "replicate 5 0 = bn_digits n" if "w = []"
    using that w(1) n by (intro bn_mag_inject) (auto simp: bn_mag_zeros dec_val_Nil BIG_DIGITS_LIMIT_def)
  moreover have "?ds = bn_digits n"
    using chunks w(1) n by (intro bn_mag_inject) (auto simp: bn_mag_append bn_mag_zeros BIG_DIGITS_LIMIT_def)
  ultimately show ?thesis unfolding read by simp
qed

lemma dropWhile_twice: "dropWhile P (dropWhile P xs) = dropWhile P xs"
  by (induction xs) simp_all

lemma dropWhile_zeros: "dropWhile (\<lambda>c. c = x) (replicate k x @ xs) = dropWhile (\<lambda>c. c = x) xs"
  by (induction k) simp_all

lemma C_string_terminated: "\<forall>c\<in>set s. c \<noteq> NUL \<Longrightarrow> C_string (s @ NUL # rest) = s"
  unfolding C_string_def by (induction s) simp_all

lemma isdigit_not_NUL: "\<forall>c\<in>set s. isdigit c \<Longrightarrow> \<forall>c\<in>set s. c \<noteq> NUL"
  by (auto simp: isdigit_def NUL_def)

text \<open>
  C38. Printing a normal number into a buffer of at least 47 bytes, with or without leading zeros and a
  plus sign, gives a terminated string inside the buffer that \<open>_CFBigNumFromCString\<close> reads back as the
  same number.
\<close>

theorem bignum_string_roundtrip:
  assumes "bn_normal n" and "47 \<le> buflen"
  shows "case CFBigNumToCString n leading_zeros leading_plus buflen of
     Inl e \<Rightarrow> False
   | Inr buffer \<Rightarrow> length buffer \<le> buflen \<and> CFBigNumFromCString (C_string buffer) = n"
proof -
  define all where "all = concat (map fmt_09u (rev (bn_digits n)))"
  have n: "length (bn_digits n) = 5" "\<forall>d\<in>set (bn_digits n). unat d < BIG_DIGITS_LIMIT"
    "bn_sign n = 0 \<or> bn_sign n = -1"
    using assms(1) by (simp_all add: bn_normal_def)
  have all: "length all = 45" "\<forall>c\<in>set all. isdigit c"
    using concat_fmt_09u [OF n(2)] n(1) by (simp_all add: all_def)
  have tmp: "bn_tmp n = all @ [NUL]" "C_string (bn_tmp n) = all"
    using all C_string_terminated [OF isdigit_not_NUL [OF all(2)], of "[]"] by (simp_all add: bn_tmp_def all_def)
  define sign where "sign = (if bn_sign n < 0 then ''-'' else if leading_plus then ''+'' else '''')"
  define s where "s = (let s = dropWhile (\<lambda>c. c = CHR ''0'') all in if s = [] then ''0'' else s)"
  define body where "body = (if leading_zeros then replicate (buflen - length sign - 46) CHR ''0'' @ all else s)"
  have len_s: "length s \<le> 45" "\<forall>c\<in>set s. isdigit c"
    using all length_dropWhile_le [of _ all]
    by (auto simp: s_def Let_def isdigit_def split: if_splits dest: set_dropWhileD)
  have body: "\<forall>c\<in>set body. isdigit c"
    using all(2) len_s(2) by (auto simp: body_def isdigit_def)
  have skip: "dropWhile (\<lambda>c. c = CHR ''0'') s = dropWhile (\<lambda>c. c = CHR ''0'') all"
  proof (cases "dropWhile (\<lambda>c. c = CHR ''0'') all = []")
    case True
    then show ?thesis by (simp only: s_def Let_def if_True) simp
  next
    case False
    then show ?thesis by (simp only: s_def Let_def if_False dropWhile_twice)
  qed
  have body_skip: "dropWhile (\<lambda>c. c = CHR ''0'') body = dropWhile (\<lambda>c. c = CHR ''0'') all"
    by (simp add: body_def skip dropWhile_zeros)
  have out: "CFBigNumToCString n leading_zeros leading_plus buflen = Inr (sign @ body @ [NUL])"
  proof -
    have "length sign \<le> 1" by (simp add: sign_def)
    then have fits: "min 46 (buflen - length sign) = 46" "length s \<le> buflen - length sign - 1"
        "buflen - length sign \<noteq> 0"
      using assms(2) len_s(1) by linarith+
    have start: "(if bn_sign n < 0 then (if buflen = 0 then Inl OutOfBounds else Inr ([CHR ''-''], buflen - 1))
            else if leading_plus then (if buflen = 0 then Inl OutOfBounds else Inr ([CHR ''+''], buflen - 1))
            else Inr ([], buflen)) = Inr (sign, buflen - length sign)"
      using assms(2) by (simp add: sign_def)
    show ?thesis
      unfolding CFBigNumToCString_def start ebind_def sum.case split Let_def tmp body_def
      using fits tmp(2) [unfolded tmp(1)]
      by (cases "\<forall>x\<in>set all. x = CHR ''0''") (auto simp: s_def Let_def)
  qed
  have "\<forall>c\<in>set (sign @ body). c \<noteq> NUL"
    using isdigit_not_NUL [OF body] by (auto simp: sign_def NUL_def)
  then have str: "C_string (sign @ body @ [NUL]) = sign @ body"
    using C_string_terminated [of "sign @ body" "[]"] by simp
  have "CFBigNumFromCString (sign @ body) = \<lparr>bn_digits = bn_digits n, bn_sign = bn_sign n\<rparr>"
    by (rule FromCString_digits [OF assms(1) all_def body_skip]) (use n(3) body in \<open>auto simp: sign_def\<close>)
  moreover have "length (sign @ body @ [NUL]) \<le> buflen"
    using assms(2) all(1) len_s(1) by (auto simp: sign_def body_def)
  ultimately show ?thesis by (simp add: out str)
qed

theorem bignum_string_roundtrip_witness:
  "case CFBigNumToCString \<lparr>bn_digits = [7, 0, 12, 0, 0], bn_sign = -1\<rparr> False True 64 of
     Inl e \<Rightarrow> False
   | Inr buffer \<Rightarrow> CFBigNumFromCString (C_string buffer) = \<lparr>bn_digits = [7, 0, 12, 0, 0], bn_sign = -1\<rparr>"
  using bignum_string_roundtrip [of "\<lparr>bn_digits = [7, 0, 12, 0, 0], bn_sign = -1\<rparr>" 64 False True]
  by (simp add: bn_normal_def BIG_DIGITS_LIMIT_def split: sum.splits)

end
