(* ===== verification/CF_Number.thy ===== *)
theory CF_Number
  imports CF_BigNumber
begin

unbundle bit_operations_syntax

text \<open>
  The part of \<open>CFNumber.c\<close> that big numbers rely on: creation with its cache, types, and reading and comparing integers; and the two functions of
  \<open>CFBigNumber.c\<close> that turn a big number into a number object and back. An object is its type and the bytes behind it, in the order of
  a little-endian machine. Left out are conversions from and to floating-point types, texts, and hashes.
\<close>

section \<open>Types and values in memory\<close>

text \<open>The canonical type, whether it is a floating-point type, whether it has the larger storage, and the logarithm of its size.\<close>

definition CFNumberTypeTable :: "(nat \<times> bool \<times> bool \<times> nat) list" where
  "CFNumberTypeTable =
    [(0, False, False, 0),
     (1, False, False, 0), (2, False, False, 1), (3, False, False, 2), (4, False, False, 3), (5, True, False, 2), (6, True, True, 3),
     (1, False, False, 0), (2, False, False, 1), (3, False, False, 2), (4, False, False, 3), (4, False, False, 3), (5, True, False, 2), (6, True, True, 3),
     (4, False, False, 3), (4, False, False, 3), (6, True, True, 3),
     (17, False, True, 4)]"

definition kCFNumberSInt8Type :: nat where "kCFNumberSInt8Type = 1"
definition kCFNumberSInt16Type :: nat where "kCFNumberSInt16Type = 2"
definition kCFNumberSInt32Type :: nat where "kCFNumberSInt32Type = 3"
definition kCFNumberSInt64Type :: nat where "kCFNumberSInt64Type = 4"
definition kCFNumberFloat32Type :: nat where "kCFNumberFloat32Type = 5"
definition kCFNumberFloat64Type :: nat where "kCFNumberFloat64Type = 6"
definition kCFNumberSInt128Type :: nat where "kCFNumberSInt128Type = 17"

lemmas number_types = kCFNumberSInt8Type_def kCFNumberSInt16Type_def kCFNumberSInt32Type_def kCFNumberSInt64Type_def
  kCFNumberFloat32Type_def kCFNumberFloat64Type_def kCFNumberSInt128Type_def

definition canonicalType :: "nat \<Rightarrow> nat" where "canonicalType type = fst (CFNumberTypeTable ! type)"
definition floatBit :: "nat \<Rightarrow> bool" where "floatBit type = fst (snd (CFNumberTypeTable ! type))"
definition storageBit :: "nat \<Rightarrow> bool" where "storageBit type = fst (snd (snd (CFNumberTypeTable ! type)))"
definition lgByteSize :: "nat \<Rightarrow> nat" where "lgByteSize type = snd (snd (snd (CFNumberTypeTable ! type)))"

record CFNumber =
  cn_type :: nat
  cn_pad :: "8 word list"

definition le_bytes :: "'a::len word \<Rightarrow> 8 word list" where
  "le_bytes w = map (\<lambda>i. ucast (drop_bit (8 * i) w)) [0..<LENGTH('a) div 8]"

section \<open>Creation\<close>

text \<open>
  The surroundings of a creation: whether the allocator is the default of the system, whether small numbers are cached, whether there is memory,
  and what another thread has put into a cell of the cache between the two times the code looks at it.
\<close>

record number_env =
  ne_systemDefault :: bool
  ne_caching :: bool
  ne_instance :: bool
  ne_raced :: "int \<Rightarrow> CFNumber option"

definition MinCachedInt :: int where "MinCachedInt = - 1"
definition MaxCachedInt :: int where "MaxCachedInt = 12"
definition NotToBeCached :: int where "NotToBeCached = MinCachedInt - 1"

type_synonym number_cache = "CFNumber option list"

text \<open>The objects for the floating-point values that are not finite.\<close>

definition CFNumberNaN :: CFNumber where
  "CFNumberNaN = \<lparr>cn_type = kCFNumberFloat64Type, cn_pad = le_bytes (0x7FF8000000000000 :: 64 word)\<rparr>"
definition CFNumberNegativeInfinity :: CFNumber where
  "CFNumberNegativeInfinity = \<lparr>cn_type = kCFNumberFloat64Type, cn_pad = le_bytes (0xFFF0000000000000 :: 64 word)\<rparr>"
definition CFNumberPositiveInfinity :: CFNumber where
  "CFNumberPositiveInfinity = \<lparr>cn_type = kCFNumberFloat64Type, cn_pad = le_bytes (0x7FF0000000000000 :: 64 word)\<rparr>"

text \<open>The class of a value of 32 or 64 bits with this many bits of fraction.\<close>

definition special_float :: "nat \<Rightarrow> 'a::len word \<Rightarrow> CFNumber option" where
  "special_float fraction w =
     (let exponent = push_bit fraction (mask (LENGTH('a) - 1 - fraction))
      in if w AND exponent = exponent then
           Some (if w AND mask fraction \<noteq> 0 then CFNumberNaN
                 else if bit w (LENGTH('a) - 1) then CFNumberNegativeInfinity else CFNumberPositiveInfinity)
         else None)"

definition cached_float :: "nat \<Rightarrow> 8 word list \<Rightarrow> CFNumber option" where
  "cached_float type bytes =
     (if \<not> storageBit type then special_float 23 (le_read 4 bytes :: 32 word) else special_float 52 (le_read 8 bytes :: 64 word))"

definition valToBeCached :: "number_env \<Rightarrow> nat \<Rightarrow> 8 word list \<Rightarrow> int" where
  "valToBeCached env type bytes =
     (if \<not> (ne_systemDefault env \<and> ne_caching env) then NotToBeCached
      else
        let type = canonicalType type;
            val = (if type = kCFNumberSInt8Type then sint (le_read 1 bytes :: 8 word)
                   else if type = kCFNumberSInt16Type then sint (le_read 2 bytes :: 16 word)
                   else if type = kCFNumberSInt32Type then sint (le_read 4 bytes :: 32 word)
                   else if type = kCFNumberSInt64Type then sint (le_read 8 bytes :: 64 word)
                   else NotToBeCached)
        in if MinCachedInt \<le> val \<and> val \<le> MaxCachedInt then val else NotToBeCached)"

text \<open>What is stored behind a new object, whose memory is zero at first.\<close>

definition number_pad :: "nat \<Rightarrow> 8 word list \<Rightarrow> 8 word list" where
  "number_pad type bytes =
     (let type = canonicalType type
      in if type = kCFNumberSInt8Type then le_bytes (scast (le_read 1 bytes :: 8 word) :: 64 word)
         else if type = kCFNumberSInt16Type then le_bytes (scast (le_read 2 bytes :: 16 word) :: 64 word)
         else if type = kCFNumberSInt32Type then le_bytes (scast (le_read 4 bytes :: 32 word) :: 64 word)
         else if type = kCFNumberSInt128Type then take 16 bytes
         else if type = kCFNumberFloat32Type then take 4 bytes @ replicate 4 0
         else take 8 bytes)"

text \<open>The object, or none, and the cache.\<close>

definition CFNumberCreate :: "number_env \<Rightarrow> number_cache \<Rightarrow> nat \<Rightarrow> 8 word list \<Rightarrow> CFNumber option \<times> number_cache" where
  "CFNumberCreate env cache type bytes =
     (if floatBit type \<and> cached_float type bytes \<noteq> None then (cached_float type bytes, cache)
      else
        let val = (if floatBit type then NotToBeCached else valToBeCached env type bytes);
            cell = nat (val - MinCachedInt)
        in if val \<noteq> NotToBeCached \<and> cache ! cell \<noteq> None then (cache ! cell, cache)
           else if \<not> ne_instance env then (None, cache)
           else if val \<noteq> NotToBeCached then
             let pad = le_bytes (word_of_int val :: 64 word)
             in (case ne_raced env val of
                   None \<Rightarrow>
                     let result = \<lparr>cn_type = kCFNumberSInt32Type, cn_pad = pad\<rparr>
                     in (Some result, cache[cell := Some result])
                 | Some other \<Rightarrow> (Some \<lparr>cn_type = canonicalType type, cn_pad = pad\<rparr>, cache[cell := Some other]))
           else (Some \<lparr>cn_type = canonicalType type, cn_pad = number_pad type bytes\<rparr>, cache))"

section \<open>Types of objects\<close>

definition CFNumberGetType :: "CFNumber \<Rightarrow> nat" where
  "CFNumberGetType number = (if cn_type number = kCFNumberSInt128Type then kCFNumberSInt64Type else cn_type number)"

definition CFNumberGetType2 :: "CFNumber \<Rightarrow> nat" where
  "CFNumberGetType2 number = cn_type number"

definition CFNumberGetByteSize :: "CFNumber \<Rightarrow> nat" where
  "CFNumberGetByteSize number = push_bit (lgByteSize (CFNumberGetType number)) 1"

definition CFNumberIsFloatType :: "CFNumber \<Rightarrow> bool" where
  "CFNumberIsFloatType number = floatBit (CFNumberGetType number)"

section \<open>Reading integers\<close>

record CFSInt128Struct =
  si_high :: "64 word"
  si_low :: "64 word"

definition read_struct :: "8 word list \<Rightarrow> CFSInt128Struct" where
  "read_struct bytes = \<lparr>si_high = le_read 8 bytes, si_low = le_read 8 (drop 8 bytes)\<rparr>"

definition struct_bytes :: "CFSInt128Struct \<Rightarrow> 8 word list" where
  "struct_bytes i = le_bytes (si_high i) @ le_bytes (si_low i)"

text \<open>A value of 8 bytes as one of the larger type, and the bounds of a type of \<open>n\<close> bytes.\<close>

definition widen :: "64 word \<Rightarrow> CFSInt128Struct" where
  "widen j = \<lparr>si_high = (if j <s 0 then - 1 else 0), si_low = j\<rparr>"

definition DST_MIN :: "nat \<Rightarrow> int" where "DST_MIN n = - (2 ^ (8 * n - 1))"
definition DST_MAX :: "nat \<Rightarrow> int" where "DST_MAX n = 2 ^ (8 * n - 1) - 1"

text \<open>The bytes that are written for a value, and whether it is the one of the object: the two macros of the strict reader.\<close>

definition CVT :: "nat \<Rightarrow> 64 word \<Rightarrow> 8 word list \<times> bool" where
  "CVT n sv =
     (let dv = (if sint sv < DST_MIN n then DST_MIN n else if DST_MAX n < sint sv then DST_MAX n else sint sv)
      in (take n (le_bytes (word_of_int dv :: 64 word)), dv = sint sv))"

definition CVT128ToInt :: "nat \<Rightarrow> CFSInt128Struct \<Rightarrow> 8 word list \<times> bool" where
  "CVT128ToInt n sv =
     (if 0 <s si_high sv \<or> si_high sv = 0 \<and> word_of_int (DST_MAX n) < si_low sv
      then (take n (le_bytes (word_of_int (DST_MAX n) :: 64 word)), False)
      else if si_high sv <s - 1 \<or> si_high sv = - 1 \<and> si_low sv < word_of_int (DST_MIN n)
      then (take n (le_bytes (word_of_int (DST_MIN n) :: 64 word)), False)
      else (take n (le_bytes (si_low sv)), True))"

text \<open>\<open>__CFNumberGetValue\<close> for an integer object and an integer type.\<close>

definition CFNumberGetValue_int :: "CFNumber \<Rightarrow> nat \<Rightarrow> 8 word list \<times> bool" where
  "CFNumberGetValue_int number type =
     (let n = 2 ^ lgByteSize type; large = storageBit (cn_type number); data = cn_pad number
      in if canonicalType type = kCFNumberSInt128Type then
           (if \<not> large then (struct_bytes (widen (le_read 8 data)), True) else (take 16 data, True))
         else if large then CVT128ToInt n (read_struct data)
         else if canonicalType type = kCFNumberSInt64Type then (take 8 data, True)
         else CVT n (le_read 8 data))"

text \<open>The same for the reader with the behaviour of casts; \<open>linked\<close> tells whether the program was linked on Snow Leopard or later.\<close>

definition CVT_COMPAT :: "nat \<Rightarrow> 64 word \<Rightarrow> bool \<Rightarrow> 8 word list \<times> bool" where
  "CVT_COMPAT n sv force = (take n (le_bytes sv), force \<or> signed_take_bit (8 * n - 1) (sint sv) = sint sv)"

definition CVT128ToInt_COMPAT :: "nat \<Rightarrow> CFSInt128Struct \<Rightarrow> 8 word list \<times> bool" where
  "CVT128ToInt_COMPAT n sv =
     (take n (le_bytes (si_low sv)), word_of_int (signed_take_bit (8 * n - 1) (uint (si_low sv))) = si_low sv)"

definition CFNumberGetValueCompat_int :: "bool \<Rightarrow> CFNumber \<Rightarrow> nat \<Rightarrow> 8 word list \<times> bool" where
  "CFNumberGetValueCompat_int linked number type =
     (let n = 2 ^ lgByteSize type; large = storageBit (cn_type number); data = cn_pad number; type = canonicalType type;
          sv = le_read 8 data :: 64 word
      in if type = kCFNumberSInt128Type then
           (if \<not> large then (struct_bytes (widen sv), True) else (take 16 data, True))
         else if large then CVT128ToInt_COMPAT n (read_struct data)
         else if type = kCFNumberSInt8Type \<or> type = kCFNumberSInt16Type then
           CVT_COMPAT n sv (\<not> linked \<or> signed_drop_bit (8 * n) sv = 0)
         else CVT_COMPAT n sv False)"

section \<open>Comparing integers\<close>

definition cmp128 :: "CFSInt128Struct \<Rightarrow> CFSInt128Struct \<Rightarrow> int" where
  "cmp128 in1 in2 =
     (if si_high in1 <s si_high in2 then kCFCompareLessThan
      else if si_high in2 <s si_high in1 then kCFCompareGreaterThan
      else if si_low in1 < si_low in2 then kCFCompareLessThan
      else if si_low in2 < si_low in1 then kCFCompareGreaterThan
      else kCFCompareEqualTo)"

text \<open>The branch of \<open>CFNumberCompare\<close> for two integers.\<close>

definition CFNumberCompare_int :: "CFNumber \<Rightarrow> CFNumber \<Rightarrow> int" where
  "CFNumberCompare_int number1 number2 =
     cmp128 (read_struct (fst (CFNumberGetValue_int number1 kCFNumberSInt128Type)))
       (read_struct (fst (CFNumberGetValue_int number2 kCFNumberSInt128Type)))"

section \<open>Big numbers\<close>

text \<open>
  The bytes of a C integer are handed to \<open>CFNumberCreate\<close> as they are in memory; on the way back they are read into a block of zeros.
\<close>

definition CFNumberCreateWithBigNum :: "number_env \<Rightarrow> number_cache \<Rightarrow> CFBigNum \<Rightarrow> CFNumber option \<times> number_cache" where
  "CFNumberCreateWithBigNum env cache input =
     (let d = bn_digits input in
      if d ! 4 = 0 \<and> d ! 3 = 0 \<and> d ! 2 = 0 \<and> d ! 1 = 0 \<and> d ! 0 \<le> 127 then
        CFNumberCreate env cache kCFNumberSInt8Type (le_bytes (CFBigNumGetInt8 input))
      else if d ! 4 = 0 \<and> d ! 3 = 0 \<and> d ! 2 = 0 \<and> d ! 1 = 0 \<and> d ! 0 \<le> 32767 then
        CFNumberCreate env cache kCFNumberSInt16Type (le_bytes (CFBigNumGetInt16 input))
      else if d ! 4 = 0 \<and> d ! 3 = 0 \<and> d ! 2 = 0 \<and>
          bn_between (CFBigNumInitWithInt32 (- (2 ^ 31))) input (CFBigNumInitWithInt32 (2 ^ 31 - 1)) then
        CFNumberCreate env cache kCFNumberSInt32Type (le_bytes (CFBigNumGetInt32 input))
      else if d ! 4 = 0 \<and> d ! 3 = 0 \<and>
          bn_between (CFBigNumInitWithInt64 (- (2 ^ 63))) input (CFBigNumInitWithInt64 (2 ^ 63 - 1)) then
        CFNumberCreate env cache kCFNumberSInt64Type (le_bytes (CFBigNumGetInt64 input))
      else if bn_between (CFBigNumInitWithInt128 (- (2 ^ 127))) input (CFBigNumInitWithInt128 (2 ^ 127 - 1)) then
        CFNumberCreate env cache kCFNumberSInt128Type (le_bytes (CFBigNumGetInt128 input))
      else (None, cache))"

definition CFBigNumInitWithCFNumber :: "bool \<Rightarrow> CFBigNum \<Rightarrow> CFNumber \<Rightarrow> CFBigNum" where
  "CFBigNumInitWithCFNumber linked r inNum =
     (let type = CFNumberGetType2 inNum; bytes = fst (CFNumberGetValueCompat_int linked inNum type)
      in CFBigNumInitWithBytes r (bytes @ replicate (128 - length bytes) 0) type)"

section \<open>Bytes of words\<close>

lemma length_le_bytes [simp]: "length (le_bytes (w :: 'a::len word)) = LENGTH('a) div 8"
  by (simp add: le_bytes_def)

lemma bit_le_read:
  "bit (le_read n bytes :: 'a::len word) i \<longleftrightarrow> i < LENGTH('a) \<and> i div 8 < min n (length bytes) \<and> bit (bytes ! (i div 8)) (i mod 8)"
  by (auto simp: le_read_def word_rcat_def bit_simps bit_horner_sum_uint_exp_iff [where 'a = 8, simplified])

lemma bit_le_bytes: "j < LENGTH('a) div 8 \<Longrightarrow> bit (le_bytes (w :: 'a::len word) ! j) k \<longleftrightarrow> k < 8 \<and> bit w (8 * j + k)"
  by (auto simp: le_bytes_def bit_simps)

lemma le_read_drop:
  assumes "8 * n = LENGTH('b)" "8 * (m + n) \<le> LENGTH('a)"
  shows "le_read n (drop m (le_bytes (w :: 'a::len word)) @ bs) = (ucast (drop_bit (8 * m) w) :: 'b::len word)"
proof (rule bit_word_eqI)
  fix i assume i: "i < LENGTH('b)"
  have "i div 8 < n" using i assms(1) by linarith
  then have "(m + i div 8 + 1) * 8 \<le> LENGTH('a)" using assms(2) by simp
  then have "m + i div 8 + 1 \<le> LENGTH('a) div 8" by (subst less_eq_div_iff_mult_less_eq) simp_all
  then have j: "i div 8 < n" "m + i div 8 < LENGTH('a) div 8" using \<open>i div 8 < n\<close> by simp_all
  have "8 * (m + i div 8) + i mod 8 = 8 * m + i" by simp
  then show "bit (le_read n (drop m (le_bytes w) @ bs) :: 'b word) i = bit (ucast (drop_bit (8 * m) w) :: 'b word) i"
    using i j by (auto simp: bit_le_read bit_simps nth_append bit_le_bytes add.commute)
qed

lemma le_read_bytes:
  assumes "8 * n = LENGTH('b)" "8 * n \<le> LENGTH('a)"
  shows "le_read n (le_bytes (w :: 'a::len word)) = (ucast w :: 'b::len word)" "le_read n (le_bytes w @ bs) = (ucast w :: 'b word)"
proof -
  have "le_read n (le_bytes w @ bs') = (ucast w :: 'b word)" for bs'
    using le_read_drop [where m = 0 and w = w and bs = bs', OF assms(1)] assms(2) by simp
  from this [of "[]"] this [of bs] show "le_read n (le_bytes w) = (ucast w :: 'b word)" "le_read n (le_bytes w @ bs) = (ucast w :: 'b word)"
    by simp_all
qed

lemma le_read_take: "n \<le> length bs \<Longrightarrow> le_read n (take n bs @ bs') = (le_read n bs :: 'a::len word)"
  by (simp add: le_read_def)

section \<open>What the cache and the objects are\<close>

text \<open>The object of a type for an integer, and the object in a cell of the cache.\<close>

definition number_of :: "nat \<Rightarrow> int \<Rightarrow> CFNumber" where
  "number_of type v =
     \<lparr>cn_type = type,
      cn_pad = (if type = kCFNumberSInt128Type then le_bytes (word_of_int v :: 128 word) else le_bytes (word_of_int v :: 64 word))\<rparr>"

definition cache_ok :: "number_cache \<Rightarrow> bool" where
  "cache_ok cache \<longleftrightarrow> length cache = 14 \<and> (\<forall>i < 14. cache ! i \<in> {None, Some (number_of kCFNumberSInt32Type (int i - 1))})"

text \<open>Other threads put into the cache what this code puts there.\<close>

definition races_ok :: "number_env \<Rightarrow> bool" where
  "races_ok env \<longleftrightarrow> (\<forall>v. ne_raced env v \<in> {None, Some (number_of kCFNumberSInt32Type v)})"

definition small_number :: "number_env \<Rightarrow> int \<Rightarrow> bool" where
  "small_number env v \<longleftrightarrow> ne_systemDefault env \<and> ne_caching env \<and> - 1 \<le> v \<and> v \<le> 12"

text \<open>The type of the object that a creation returns, when it returns one.\<close>

definition type_given :: "number_env \<Rightarrow> number_cache \<Rightarrow> nat \<Rightarrow> int \<Rightarrow> nat" where
  "type_given env cache type v =
     (if small_number env v \<and> (cache ! nat (v + 1) \<noteq> None \<or> ne_raced env v = None) then kCFNumberSInt32Type else type)"

definition created :: "number_env \<Rightarrow> number_cache \<Rightarrow> nat \<Rightarrow> int \<Rightarrow> CFNumber option \<times> number_cache \<Rightarrow> bool" where
  "created env cache type v r \<longleftrightarrow>
     (let found = small_number env v \<and> cache ! nat (v + 1) \<noteq> None
      in fst r = (if found \<or> ne_instance env then Some (number_of (type_given env cache type v) v) else None) \<and>
         snd r = (if small_number env v \<and> ne_instance env then cache[nat (v + 1) := Some (number_of kCFNumberSInt32Type v)] else cache))"

lemma cache_cell:
  assumes "cache_ok cache" "small_number env v"
  shows "cache ! nat (v + 1) = None \<or> cache ! nat (v + 1) = Some (number_of kCFNumberSInt32Type v)" "nat (v + 1) < length cache"
proof -
  have v: "0 \<le> v + 1" "nat (v + 1) < 14" using assms(2) by (auto simp: small_number_def)
  then have "cache ! nat (v + 1) \<in> {None, Some (number_of kCFNumberSInt32Type (int (nat (v + 1)) - 1))}" "length cache = 14"
    using assms(1) unfolding cache_ok_def by blast+
  then show "cache ! nat (v + 1) = None \<or> cache ! nat (v + 1) = Some (number_of kCFNumberSInt32Type v)" "nat (v + 1) < length cache"
    using v by auto
qed


lemma Create_integer:
  assumes "cache_ok cache" "races_ok env" "\<not> floatBit type" "canonicalType type = type" "type \<noteq> kCFNumberSInt128Type"
    and "valToBeCached env type bytes = (if small_number env v then v else NotToBeCached)"
    and "number_pad type bytes = le_bytes (word_of_int v :: 64 word)"
  shows "created env cache type v (CFNumberCreate env cache type bytes)"
proof (cases "small_number env v")
  case True
  then have v: "v \<noteq> NotToBeCached" by (auto simp: small_number_def NotToBeCached_def MinCachedInt_def)
  have race: "ne_raced env v \<in> {None, Some (number_of kCFNumberSInt32Type v)}" using assms(2) by (simp add: races_ok_def)
  have small: "kCFNumberSInt32Type \<noteq> kCFNumberSInt128Type" by (simp add: number_types)
  have val: "valToBeCached env type bytes = v" using assms(6) True by simp
  have cell: "nat (v - MinCachedInt) = nat (v + 1)" by (simp add: MinCachedInt_def)
  let ?x = "number_of kCFNumberSInt32Type v"
  from cache_cell(1) [OF assms(1) True] show ?thesis
  proof
    assume none: "cache ! nat (v + 1) = None"
    show ?thesis
      using assms(3-5) True v race none small
      by (auto simp: CFNumberCreate_def created_def type_given_def number_of_def Let_def val cell)
  next
    assume found: "cache ! nat (v + 1) = Some ?x"
    then have "cache[nat (v + 1) := Some ?x] = cache" by (metis list_update_id)
    then show ?thesis
      using assms(3-5) True v found by (simp add: CFNumberCreate_def created_def type_given_def Let_def val cell)
  qed
next
  case False
  then show ?thesis using assms(3-7) by (simp add: CFNumberCreate_def created_def type_given_def number_of_def Let_def)
qed

lemma type_table:
  "canonicalType kCFNumberSInt8Type = kCFNumberSInt8Type" "canonicalType kCFNumberSInt16Type = kCFNumberSInt16Type"
  "canonicalType kCFNumberSInt32Type = kCFNumberSInt32Type" "canonicalType kCFNumberSInt64Type = kCFNumberSInt64Type"
  "canonicalType kCFNumberSInt128Type = kCFNumberSInt128Type"
  "\<not> floatBit kCFNumberSInt8Type" "\<not> floatBit kCFNumberSInt16Type" "\<not> floatBit kCFNumberSInt32Type" "\<not> floatBit kCFNumberSInt64Type"
  "\<not> floatBit kCFNumberSInt128Type"
  "\<not> storageBit kCFNumberSInt8Type" "\<not> storageBit kCFNumberSInt16Type" "\<not> storageBit kCFNumberSInt32Type"
  "\<not> storageBit kCFNumberSInt64Type" "storageBit kCFNumberSInt128Type"
  "lgByteSize kCFNumberSInt8Type = 0" "lgByteSize kCFNumberSInt16Type = 1" "lgByteSize kCFNumberSInt32Type = 2"
  "lgByteSize kCFNumberSInt64Type = 3" "lgByteSize kCFNumberSInt128Type = 4"
  by (simp_all add: canonicalType_def floatBit_def storageBit_def lgByteSize_def CFNumberTypeTable_def number_types)

text \<open>A value in memory, read at its own width.\<close>

lemma le_read_self: "8 * n = LENGTH('a) \<Longrightarrow> le_read n (le_bytes (w :: 'a::len word)) = w"
  using le_read_bytes(1) [where w = w and 'b = 'a] by simp

lemma sint_in_range: "- (2 ^ (LENGTH('a) - 1)) \<le> v \<Longrightarrow> v < 2 ^ (LENGTH('a) - 1) \<Longrightarrow> sint (word_of_int v :: 'a::len word) = v"
  by (simp add: sint_uint uint_word_of_int_eq signed_take_bit_int_eq_self signed_take_bit_take_bit)

lemma cached_value:
  assumes "- (2 ^ (LENGTH('a) - 1)) \<le> v" "v < 2 ^ (LENGTH('a) - 1)"
  shows "scast (word_of_int v :: 'a::len word) = (word_of_int v :: 64 word)"
  using sint_in_range [OF assms] by (simp add: scast_eq)

lemma types_differ:
  "kCFNumberSInt16Type \<noteq> kCFNumberSInt8Type" "kCFNumberSInt32Type \<noteq> kCFNumberSInt8Type" "kCFNumberSInt64Type \<noteq> kCFNumberSInt8Type"
    "kCFNumberSInt32Type \<noteq> kCFNumberSInt16Type" "kCFNumberSInt64Type \<noteq> kCFNumberSInt16Type" "kCFNumberSInt64Type \<noteq> kCFNumberSInt32Type"
    "kCFNumberSInt64Type \<noteq> kCFNumberSInt128Type" "kCFNumberSInt32Type \<noteq> kCFNumberSInt128Type" "kCFNumberSInt16Type \<noteq> kCFNumberSInt128Type"
    "kCFNumberSInt8Type \<noteq> kCFNumberSInt128Type" "kCFNumberSInt64Type \<noteq> kCFNumberFloat32Type"
  by (simp_all add: number_types)

lemma read_integer:
  assumes "- (2 ^ 7) \<le> v \<and> v < 2 ^ 7 \<and> type = kCFNumberSInt8Type \<and> bytes = le_bytes (word_of_int v :: 8 word) \<or>
    - (2 ^ 15) \<le> v \<and> v < 2 ^ 15 \<and> type = kCFNumberSInt16Type \<and> bytes = le_bytes (word_of_int v :: 16 word) \<or>
    - (2 ^ 31) \<le> v \<and> v < 2 ^ 31 \<and> type = kCFNumberSInt32Type \<and> bytes = le_bytes (word_of_int v :: 32 word) \<or>
    - (2 ^ 63) \<le> v \<and> v < 2 ^ 63 \<and> type = kCFNumberSInt64Type \<and> bytes = le_bytes (word_of_int v :: 64 word)"
  shows "valToBeCached env type bytes = (if small_number env v then v else NotToBeCached)"
    "number_pad type bytes = le_bytes (word_of_int v :: 64 word)"
    "canonicalType type = type" "\<not> floatBit type" "type \<noteq> kCFNumberSInt128Type"
proof -
  have v: "sint (word_of_int v :: 8 word) = v \<and> scast (word_of_int v :: 8 word) = (word_of_int v :: 64 word)" if "- (2 ^ 7) \<le> v" "v < 2 ^ 7"
    using sint_in_range [where 'a = 8 and v = v] cached_value [where 'a = 8 and v = v] that by simp
  have v': "sint (word_of_int v :: 16 word) = v \<and> scast (word_of_int v :: 16 word) = (word_of_int v :: 64 word)" if "- (2 ^ 15) \<le> v" "v < 2 ^ 15"
    using sint_in_range [where 'a = 16 and v = v] cached_value [where 'a = 16 and v = v] that by simp
  have v'': "sint (word_of_int v :: 32 word) = v \<and> scast (word_of_int v :: 32 word) = (word_of_int v :: 64 word)" if "- (2 ^ 31) \<le> v" "v < 2 ^ 31"
    using sint_in_range [where 'a = 32 and v = v] cached_value [where 'a = 32 and v = v] that by simp
  have v''': "sint (word_of_int v :: 64 word) = v" if "- (2 ^ 63) \<le> v" "v < 2 ^ 63"
    using sint_in_range [where 'a = 64 and v = v] that by simp
  have small: "small_number env v \<longleftrightarrow> ne_systemDefault env \<and> ne_caching env \<and> MinCachedInt \<le> v \<and> v \<le> MaxCachedInt"
    by (simp add: small_number_def MinCachedInt_def MaxCachedInt_def)
  show "valToBeCached env type bytes = (if small_number env v then v else NotToBeCached)"
    using assms v v' v'' v''' by (elim disjE) (simp_all add: valToBeCached_def Let_def type_table types_differ small le_read_self)
  show "number_pad type bytes = le_bytes (word_of_int v :: 64 word)"
    using assms v v' v'' v''' by (elim disjE) (simp_all add: number_pad_def Let_def type_table types_differ le_read_self)
  show "canonicalType type = type" "\<not> floatBit type" "type \<noteq> kCFNumberSInt128Type"
    using assms by (elim disjE; simp add: type_table types_differ)+
qed

lemma Create_bytes:
  assumes "cache_ok cache" "races_ok env"
    and "- (2 ^ 7) \<le> v \<and> v < 2 ^ 7 \<and> type = kCFNumberSInt8Type \<and> bytes = le_bytes (word_of_int v :: 8 word) \<or>
    - (2 ^ 15) \<le> v \<and> v < 2 ^ 15 \<and> type = kCFNumberSInt16Type \<and> bytes = le_bytes (word_of_int v :: 16 word) \<or>
    - (2 ^ 31) \<le> v \<and> v < 2 ^ 31 \<and> type = kCFNumberSInt32Type \<and> bytes = le_bytes (word_of_int v :: 32 word) \<or>
    - (2 ^ 63) \<le> v \<and> v < 2 ^ 63 \<and> type = kCFNumberSInt64Type \<and> bytes = le_bytes (word_of_int v :: 64 word)"
  shows "created env cache type v (CFNumberCreate env cache type bytes)"
  by (rule Create_integer [OF assms(1,2) read_integer(4) [OF assms(3)] read_integer(3) [OF assms(3)] read_integer(5) [OF assms(3)]
        read_integer(1) [OF assms(3)] read_integer(2) [OF assms(3)]])

section \<open>Creating and reading back\<close>

text \<open>The type that \<open>_CFNumberCreateWithBigNum\<close> asks for.\<close>

definition type_asked :: "int \<Rightarrow> nat" where
  "type_asked v =
     (if \<bar>v\<bar> \<le> 127 then kCFNumberSInt8Type
      else if \<bar>v\<bar> \<le> 32767 then kCFNumberSInt16Type
      else if - (2 ^ 31) \<le> v \<and> v < 2 ^ 31 then kCFNumberSInt32Type
      else if - (2 ^ 63) \<le> v \<and> v < 2 ^ 63 then kCFNumberSInt64Type
      else kCFNumberSInt128Type)"

lemma Create_large:
  assumes "\<not> small_number env v"
  shows "created env cache kCFNumberSInt128Type v (CFNumberCreate env cache kCFNumberSInt128Type (le_bytes (word_of_int v :: 128 word)))"
proof -
  have "valToBeCached env kCFNumberSInt128Type bytes = NotToBeCached" for bytes
    by (simp add: valToBeCached_def Let_def type_table) (simp add: number_types NotToBeCached_def MinCachedInt_def)
  moreover have "number_pad kCFNumberSInt128Type (le_bytes (word_of_int v :: 128 word)) = le_bytes (word_of_int v :: 128 word)"
    by (simp add: number_pad_def Let_def type_table) (simp add: number_types)
  ultimately show ?thesis
    using assms by (simp add: CFNumberCreate_def created_def type_given_def number_of_def Let_def type_table)
qed

lemma CreateWithBigNum_creates:
  assumes "bn_canonical n" "cache_ok cache" "races_ok env"
  defines "v \<equiv> bn_val n"
  shows "- (2 ^ 127) \<le> v \<and> v < 2 ^ 127 \<Longrightarrow> created env cache (type_asked v) v (CFNumberCreateWithBigNum env cache n)"
    "\<not> (- (2 ^ 127) \<le> v \<and> v < 2 ^ 127) \<Longrightarrow> CFNumberCreateWithBigNum env cache n = (None, cache)"
proof -
  have len: "length (bn_digits n) = 5" using assms(1) by (simp add: bn_normal_simps)
  note guards = bn_guards [OF assms(1), folded v_def] bn_wide_guard [OF assms(1), folded v_def]
  note get = GetInt_correct [OF len, unfolded bn_drop_digits [OF len], folded v_def]
  have 8: "CFBigNumGetInt8 n = word_of_int v" if "\<bar>v\<bar> \<le> 127" using get(5) guards(1) that by blast
  have 16: "CFBigNumGetInt16 n = word_of_int v" if "\<bar>v\<bar> \<le> 32767" using get(4) guards(2) that by blast
  have 32: "CFBigNumGetInt32 n = word_of_int v" if "- 2147483648 \<le> v \<and> v \<le> 2147483647" using get(3) guards(3) that by blast
  have 64: "CFBigNumGetInt64 n = word_of_int v" if "- 9223372036854775808 \<le> v \<and> v \<le> 9223372036854775807" using get(2) guards(4) that by blast
  have run: "CFNumberCreateWithBigNum env cache n =
     (if \<bar>v\<bar> \<le> 127 then CFNumberCreate env cache kCFNumberSInt8Type (le_bytes (word_of_int v :: 8 word))
      else if \<bar>v\<bar> \<le> 32767 then CFNumberCreate env cache kCFNumberSInt16Type (le_bytes (word_of_int v :: 16 word))
      else if - 2147483648 \<le> v \<and> v \<le> 2147483647 then CFNumberCreate env cache kCFNumberSInt32Type (le_bytes (word_of_int v :: 32 word))
      else if - 9223372036854775808 \<le> v \<and> v \<le> 9223372036854775807
        then CFNumberCreate env cache kCFNumberSInt64Type (le_bytes (word_of_int v :: 64 word))
      else if - (2 ^ 127) \<le> v \<and> v \<le> 2 ^ 127 - 1 then CFNumberCreate env cache kCFNumberSInt128Type (le_bytes (word_of_int v :: 128 word))
      else (None, cache))"
    unfolding CFNumberCreateWithBigNum_def Let_def guards using 8 16 32 64 get(1) by simp
  note make = Create_bytes [OF assms(2,3)]
  have make8: "created env cache kCFNumberSInt8Type v (CFNumberCreate env cache kCFNumberSInt8Type (le_bytes (word_of_int v :: 8 word)))"
    if "\<bar>v\<bar> \<le> 127"
    by (rule make) (use that in auto)
  have make16: "created env cache kCFNumberSInt16Type v (CFNumberCreate env cache kCFNumberSInt16Type (le_bytes (word_of_int v :: 16 word)))"
    if "\<bar>v\<bar> \<le> 32767"
    by (rule make) (use that in auto)
  have make32: "created env cache kCFNumberSInt32Type v (CFNumberCreate env cache kCFNumberSInt32Type (le_bytes (word_of_int v :: 32 word)))"
    if "- 2147483648 \<le> v \<and> v \<le> 2147483647"
    by (rule make) (use that in auto)
  have make64: "created env cache kCFNumberSInt64Type v (CFNumberCreate env cache kCFNumberSInt64Type (le_bytes (word_of_int v :: 64 word)))"
    if "- 9223372036854775808 \<le> v \<and> v \<le> 9223372036854775807"
    by (rule make) (use that in auto)
  show "created env cache (type_asked v) v (CFNumberCreateWithBigNum env cache n)" if "- (2 ^ 127) \<le> v \<and> v < 2 ^ 127"
  proof -
    consider "\<bar>v\<bar> \<le> 127" | "\<not> \<bar>v\<bar> \<le> 127" "\<bar>v\<bar> \<le> 32767" | "\<not> \<bar>v\<bar> \<le> 32767" "- 2147483648 \<le> v \<and> v \<le> 2147483647"
      | "\<not> (- 2147483648 \<le> v \<and> v \<le> 2147483647)" "- 9223372036854775808 \<le> v \<and> v \<le> 9223372036854775807"
      | "\<not> (- 9223372036854775808 \<le> v \<and> v \<le> 9223372036854775807)"
      by blast
    then show ?thesis
    proof cases
      case 1
      then show ?thesis unfolding run type_asked_def if_P [OF 1] by (rule make8)
    next
      case 2
      then show ?thesis unfolding run type_asked_def if_not_P [OF 2(1)] if_P [OF 2(2)] by (intro make16)
    next
      case 3
      then have "\<not> \<bar>v\<bar> \<le> 127" by simp
      with 3 make32 [OF 3(2)] show ?thesis unfolding run type_asked_def by simp
    next
      case 4
      then have "\<not> \<bar>v\<bar> \<le> 127" "\<not> \<bar>v\<bar> \<le> 32767" by auto
      with 4 make64 [OF 4(2)] show ?thesis unfolding run type_asked_def by auto
    next
      case 5
      then have "\<not> \<bar>v\<bar> \<le> 127" "\<not> \<bar>v\<bar> \<le> 32767" "\<not> (- 2147483648 \<le> v \<and> v \<le> 2147483647)" and small: "\<not> small_number env v"
        by (auto simp: small_number_def)
      with 5 that Create_large [OF small] show ?thesis unfolding run type_asked_def by auto
    qed
  qed
  show "CFNumberCreateWithBigNum env cache n = (None, cache)" if "\<not> (- (2 ^ 127) \<le> v \<and> v < 2 ^ 127)"
    unfolding run using that by auto
qed

text \<open>The number whose upper 64 bits are the lower ones of the given one, and the other way round.\<close>

definition exchanged_halves :: "int \<Rightarrow> int" where
  "exchanged_halves v = signed_take_bit 127 (v mod 2 ^ 64 * 2 ^ 64 + v div 2 ^ 64 mod 2 ^ 64)"

lemma exchanged_word:
  "ucast (ucast (drop_bit 64 (word_of_int v :: 128 word)) :: 64 word) + push_bit 64 (ucast (ucast (word_of_int v :: 128 word) :: 64 word)) =
   (word_of_int (v mod 2 ^ 64 * 2 ^ 64 + v div 2 ^ 64 mod 2 ^ 64) :: 128 word)"
proof -
  have "ucast (ucast (drop_bit 64 (word_of_int v :: 128 word)) :: 64 word) = (word_of_int (take_bit 64 (drop_bit 64 v)) :: 128 word)"
    by (rule bit_word_eqI) (auto simp: bit_simps)
  moreover have "ucast (ucast (word_of_int v :: 128 word) :: 64 word) = (word_of_int (take_bit 64 v) :: 128 word)"
    by (rule bit_word_eqI) (auto simp: bit_simps)
  ultimately show ?thesis by (simp add: push_bit_eq_mult take_bit_eq_mod drop_bit_eq_div mult.commute add.commute)
qed

lemma ucast_word_of_int: "LENGTH('b) \<le> LENGTH('a) \<Longrightarrow> ucast (word_of_int v :: 'a::len word) = (word_of_int v :: 'b::len word)"
  by (rule bit_word_eqI) (auto simp: bit_simps)

lemma read_back_small:
  assumes "type = kCFNumberSInt8Type \<and> - (2 ^ 7) \<le> v \<and> v < 2 ^ 7 \<or> type = kCFNumberSInt16Type \<and> - (2 ^ 15) \<le> v \<and> v < 2 ^ 15 \<or>
    type = kCFNumberSInt32Type \<and> - (2 ^ 31) \<le> v \<and> v < 2 ^ 31 \<or> type = kCFNumberSInt64Type \<and> - (2 ^ 63) \<le> v \<and> v < 2 ^ 63"
  shows "bn_canonical (CFBigNumInitWithCFNumber linked r (number_of type v)) \<and> bn_val (CFBigNumInitWithCFNumber linked r (number_of type v)) = v"
proof -
  let ?w = "word_of_int v :: 64 word"
  have read: "le_read 1 (take 1 (le_bytes ?w) @ bs) = (word_of_int v :: 8 word)" "le_read 2 (take 2 (le_bytes ?w) @ bs) = (word_of_int v :: 16 word)"
      "le_read 4 (take 4 (le_bytes ?w) @ bs) = (word_of_int v :: 32 word)" "le_read 8 (take 8 (le_bytes ?w) @ bs) = (word_of_int v :: 64 word)" for bs
    by (simp_all add: le_read_take le_read_bytes ucast_word_of_int)
  have other: "type \<noteq> kCFNumberSInt128Type" using assms by (auto simp: number_types)
  have pad: "cn_type (number_of t v) = t" "t \<noteq> kCFNumberSInt128Type \<Longrightarrow> cn_pad (number_of t v) = le_bytes ?w" for t
    by (simp_all add: number_of_def)
  have bytes: "fst (CFNumberGetValueCompat_int linked (number_of type v) type) = take (2 ^ lgByteSize type) (le_bytes ?w)"
    using assms other
    by (elim disjE) (simp_all add: CFNumberGetValueCompat_int_def Let_def pad type_table types_differ le_read_self CVT_COMPAT_def)
  have init: "CFBigNumInitWithCFNumber linked r (number_of type v) =
      (if type = kCFNumberSInt8Type then CFBigNumInitWithInt8 (word_of_int v) else if type = kCFNumberSInt16Type then CFBigNumInitWithInt16 (word_of_int v)
       else if type = kCFNumberSInt32Type then CFBigNumInitWithInt32 (word_of_int v) else CFBigNumInitWithInt64 (word_of_int v))"
    unfolding CFBigNumInitWithCFNumber_def Let_def CFNumberGetType2_def pad(1) bytes using assms
    by (elim disjE) (simp_all add: type_table [unfolded number_types, simplified] CFBigNumInitWithBytes_def number_types read read [simplified])
  show ?thesis
    using assms InitWithInt_correct(1) [of "word_of_int v"] InitWithInt_correct(2) [of "word_of_int v"] InitWithInt_correct(3) [of "word_of_int v"]
      InitWithInt_correct(4) [of "word_of_int v"] sint_in_range [where 'a = 8 and v = v] sint_in_range [where 'a = 16 and v = v]
      sint_in_range [where 'a = 32 and v = v] sint_in_range [where 'a = 64 and v = v]
    unfolding init by (elim disjE) (simp_all add: number_types)
qed

lemma read_back_large:
  "bn_canonical (CFBigNumInitWithCFNumber linked r (number_of kCFNumberSInt128Type v)) \<and>
   bn_val (CFBigNumInitWithCFNumber linked r (number_of kCFNumberSInt128Type v)) = exchanged_halves v"
proof -
  let ?w = "word_of_int v :: 128 word"
  have pad: "cn_type (number_of kCFNumberSInt128Type v) = kCFNumberSInt128Type" "cn_pad (number_of kCFNumberSInt128Type v) = le_bytes ?w"
    by (simp_all add: number_of_def)
  have bytes: "fst (CFNumberGetValueCompat_int linked (number_of kCFNumberSInt128Type v) kCFNumberSInt128Type) = le_bytes ?w"
    by (simp add: CFNumberGetValueCompat_int_def Let_def pad type_table)
  have "le_read 8 (le_bytes ?w @ bs) = (ucast ?w :: 64 word)" "le_read 8 (drop 8 (le_bytes ?w) @ bs) = (ucast (drop_bit 64 ?w) :: 64 word)" for bs
    using le_read_bytes(2) [where w = ?w and n = 8 and 'b = 64] le_read_drop [where w = ?w and n = 8 and m = 8 and 'b = 64] by simp_all
  then have "CFBigNumInitWithCFNumber linked r (number_of kCFNumberSInt128Type v) =
      CFBigNumInitWithInt128 (word_of_int (v mod 2 ^ 64 * 2 ^ 64 + v div 2 ^ 64 mod 2 ^ 64))"
    unfolding CFBigNumInitWithCFNumber_def Let_def CFNumberGetType2_def pad(1) bytes exchanged_word [symmetric]
    by (simp add: CFBigNumInitWithBytes_def number_types Let_def)
  moreover have "sint (word_of_int k :: 128 word) = signed_take_bit 127 k" for k
    by (simp add: sint_uint uint_word_of_int_eq signed_take_bit_take_bit)
  ultimately show ?thesis using InitWithInt_correct(5) by (simp only: exchanged_halves_def simp_thms)
qed

section \<open>What the readers return\<close>

definition struct_value :: "CFSInt128Struct \<Rightarrow> int" where
  "struct_value i = sint (si_high i) * 2 ^ 64 + uint (si_low i)"

definition number_value :: "CFNumber \<Rightarrow> int" where
  "number_value x = (if storageBit (cn_type x) then struct_value (read_struct (cn_pad x)) else sint (le_read 8 (cn_pad x) :: 64 word))"

lemma sint_eq: "sint x = sint y \<longleftrightarrow> x = (y :: 'a::len word)"
  by (auto intro: signed_word_eqI)

lemma struct_order:
  "struct_value i < struct_value j \<longleftrightarrow> si_high i <s si_high j \<or> si_high i = si_high j \<and> si_low i < si_low j"
proof -
  have low: "0 \<le> uint (si_low k)" "uint (si_low k) < 2 ^ 64" for k using uint_lt2p [of "si_low k"] by simp_all
  have parts: "a * 2 ^ 64 + b < c * 2 ^ 64 + d \<longleftrightarrow> a < c \<or> a = c \<and> b < d"
    if "0 \<le> b" "b < 2 ^ 64" "0 \<le> d" "d < 2 ^ 64" for a b c d :: int
  proof -
    have "a * 2 ^ 64 + 2 ^ 64 \<le> c * 2 ^ 64" if "a < c" for a c :: int
      using mult_right_mono [of "a + 1" c "2 ^ 64"] that by (simp add: distrib_right)
    from this [of a c] this [of c a] show ?thesis using that by (cases "a < c"; cases "a = c") auto
  qed
  have "struct_value i < struct_value j \<longleftrightarrow>
      sint (si_high i) < sint (si_high j) \<or> sint (si_high i) = sint (si_high j) \<and> uint (si_low i) < uint (si_low j)"
    unfolding struct_value_def by (rule parts [OF low low])
  then show ?thesis by (simp add: word_sless_alt word_less_def sint_eq)
qed

lemma cmp128_order: "cmp128 i j = (if struct_value i < struct_value j then kCFCompareLessThan
    else if struct_value j < struct_value i then kCFCompareGreaterThan else kCFCompareEqualTo)"
  unfolding cmp128_def struct_order by (auto simp: word_sless_alt sint_eq)

lemma widen_value: "struct_value (widen j) = sint j"
proof -
  have "sint j = uint j - 2 ^ 64 * of_bool (bit (uint j) 63)"
    using signed_take_bit_eq_take_bit_minus [of 63 "uint j"] take_bit_int_eq_self [of "uint j" 64] uint_lt2p [of j] by (simp add: sint_uint)
  moreover have "0 \<le> uint j" "uint j < 18446744073709551616" using uint_lt2p [of j] by simp_all
  ultimately have "sint j = (if sint j < 0 then uint j - 18446744073709551616 else uint j)" by (cases "bit (uint j) 63") simp_all
  then show ?thesis by (cases "sint j < 0") (simp_all add: struct_value_def widen_def word_sless_alt split: if_splits)
qed

lemma read_struct_bytes: "read_struct (struct_bytes i) = i"
  using le_read_bytes(2) [where w = "si_high i" and n = 8 and 'b = 64 and bs = "le_bytes (si_low i)"] le_read_self [where w = "si_low i" and n = 8]
  by (cases i) (simp add: read_struct_def struct_bytes_def)

lemma read_struct_take: "read_struct (take 16 data) = read_struct data"
  by (simp add: read_struct_def le_read_def drop_take)

lemma GetValue_128: "struct_value (read_struct (fst (CFNumberGetValue_int x kCFNumberSInt128Type))) = number_value x"
  by (simp add: CFNumberGetValue_int_def Let_def type_table number_value_def read_struct_bytes read_struct_take widen_value)

text \<open>Comparing two integer objects compares their values.\<close>

theorem number_compare:
  "CFNumberCompare_int x y =
     (if number_value x < number_value y then kCFCompareLessThan
      else if number_value y < number_value x then kCFCompareGreaterThan else kCFCompareEqualTo)"
  unfolding CFNumberCompare_int_def cmp128_order GetValue_128 ..

lemma large_bounds:
  assumes "1 \<le> n" "n \<le> 8"
  shows "0 \<le> DST_MAX n" "DST_MAX n < 2 ^ 63" "- (2 ^ 63) \<le> DST_MIN n" "DST_MIN n < 0"
proof -
  have "(2 :: int) ^ (8 * n - 1) \<le> 2 ^ 63" using assms by (intro power_increasing) auto
  then show "0 \<le> DST_MAX n" "DST_MAX n < 2 ^ 63" "- (2 ^ 63) \<le> DST_MIN n" "DST_MIN n < 0" by (simp_all add: DST_MAX_def DST_MIN_def)
qed

lemma CVT128_clamps:
  assumes "1 \<le> n" "n \<le> 8"
  shows "CVT128ToInt n i = (take n (le_bytes (word_of_int (max (DST_MIN n) (min (DST_MAX n) (struct_value i))) :: 64 word)),
    DST_MIN n \<le> struct_value i \<and> struct_value i \<le> DST_MAX n)"
proof -
  note B = large_bounds [OF assms]
  have wide: "struct_value \<lparr>si_high = (if v < 0 then - 1 else 0), si_low = word_of_int v\<rparr> = v" if "- (2 ^ 63) \<le> v" "v < 2 ^ 63" for v
    using widen_value [of "word_of_int v"] sint_in_range [where 'a = 64 and v = v] that by (simp add: widen_def word_sless_alt)
  have "struct_value \<lparr>si_high = 0, si_low = word_of_int (DST_MAX n)\<rparr> < struct_value i \<longleftrightarrow>
      0 <s si_high i \<or> si_high i = 0 \<and> word_of_int (DST_MAX n) < si_low i"
    unfolding struct_order by auto
  then have over: "DST_MAX n < struct_value i \<longleftrightarrow> 0 <s si_high i \<or> si_high i = 0 \<and> word_of_int (DST_MAX n) < si_low i"
    using wide [of "DST_MAX n"] B by simp
  have "struct_value i < struct_value \<lparr>si_high = - 1, si_low = word_of_int (DST_MIN n)\<rparr> \<longleftrightarrow>
      si_high i <s - 1 \<or> si_high i = - 1 \<and> si_low i < word_of_int (DST_MIN n)"
    unfolding struct_order by auto
  then have under: "struct_value i < DST_MIN n \<longleftrightarrow> si_high i <s - 1 \<or> si_high i = - 1 \<and> si_low i < word_of_int (DST_MIN n)"
    using wide [of "DST_MIN n"] B by simp
  have "(word_of_int (2 ^ 64) :: 64 word) = 0" by (simp add: word_of_int_eq_iff take_bit_eq_mod)
  then have "word_of_int (struct_value i) = si_low i" unfolding struct_value_def of_int_add of_int_mult by (simp only: mult_zero_right add_0_left of_int_uint ucast_id)
  then show ?thesis
    unfolding CVT128ToInt_def over [symmetric] under [symmetric] using B by auto
qed

lemma bytes_of_read: "length bytes = 8 \<Longrightarrow> le_bytes (le_read 8 bytes :: 64 word) = bytes"
  by (intro nth_equalityI bit_word_eqI)
    (auto simp: le_bytes_def bit_ucast_iff bit_drop_bit_eq bit_le_read div_add1_eq)

text \<open>
  Reading an integer object as an integer of at most 64 bits gives its value, or the end of the range that is nearest to it; and it says whether it
  was the value.
\<close>

theorem number_get_value:
  assumes "type \<in> {kCFNumberSInt8Type, kCFNumberSInt16Type, kCFNumberSInt32Type, kCFNumberSInt64Type}" and "length (cn_pad x) = 8 \<or> storageBit (cn_type x)"
  defines "n \<equiv> 2 ^ lgByteSize type"
  shows "CFNumberGetValue_int x type =
    (take n (le_bytes (word_of_int (max (DST_MIN n) (min (DST_MAX n) (number_value x))) :: 64 word)),
     DST_MIN n \<le> number_value x \<and> number_value x \<le> DST_MAX n)"
proof -
  have n: "n \<in> {1, 2, 4, 8}" using assms(1) by (auto simp: n_def type_table)
  show ?thesis
  proof (cases "storageBit (cn_type x)")
    case True
    have "canonicalType type \<noteq> kCFNumberSInt128Type" using assms(1) by (auto simp: type_table types_differ)
    then have "CFNumberGetValue_int x type = CVT128ToInt n (read_struct (cn_pad x))"
      by (simp add: CFNumberGetValue_int_def Let_def True n_def)
    then show ?thesis using CVT128_clamps [of n "read_struct (cn_pad x)"] n True by (auto simp: number_value_def)
  next
    case False
    let ?w = "le_read 8 (cn_pad x) :: 64 word"
    have w: "le_bytes ?w = cn_pad x" using assms(2) False by (intro bytes_of_read) simp
    have in_64: "DST_MIN 8 \<le> sint ?w" "sint ?w \<le> DST_MAX 8" using sint_ge [of ?w] sint_lt [of ?w] by (simp_all add: DST_MIN_def DST_MAX_def)
    show ?thesis
    proof (cases "type = kCFNumberSInt64Type")
      case True
      then show ?thesis using in_64 w False assms(2) by (simp add: CFNumberGetValue_int_def Let_def n_def number_value_def type_table types_differ)
    next
      case False
      then have "CFNumberGetValue_int x type = CVT n ?w"
        using assms(1) \<open>\<not> storageBit (cn_type x)\<close> by (auto simp: CFNumberGetValue_int_def Let_def n_def type_table types_differ)
      moreover have "DST_MIN n \<le> DST_MAX n" using n by (auto simp: DST_MIN_def DST_MAX_def)
      ultimately show ?thesis using \<open>\<not> storageBit (cn_type x)\<close> by (auto simp: CVT_def Let_def number_value_def)
    qed
  qed
qed

section \<open>Properties\<close>


text \<open>
  C39. Reading the object back into a big number gives the number again when it fits 64 bits. A larger number comes back with the two halves of its 128 bits
  exchanged, because the C integer is stored with its low half first, and read as a structure that has its high half first.
\<close>

theorem big_number_read_back:
  assumes "bn_canonical n" and "cache_ok cache" and "races_ok env" and "fst (CFNumberCreateWithBigNum env cache n) = Some x"
  shows "bn_canonical (CFBigNumInitWithCFNumber linked r x) \<and>
    bn_val (CFBigNumInitWithCFNumber linked r x) =
      (if - (2 ^ 63) \<le> bn_val n \<and> bn_val n < 2 ^ 63 then bn_val n else exchanged_halves (bn_val n))"
proof -
  let ?v = "bn_val n" and ?t = "type_given env cache (type_asked (bn_val n)) (bn_val n)"
  have "- (2 ^ 127) \<le> ?v \<and> ?v < 2 ^ 127" using CreateWithBigNum_creates(2) [OF assms(1-3)] assms(4) by fastforce
  then have x: "x = number_of ?t ?v"
    using CreateWithBigNum_creates(1) [OF assms(1-3)] assms(4) by (auto simp: created_def Let_def split: if_splits)
  show ?thesis
  proof (cases "- (2 ^ 63) \<le> ?v \<and> ?v < 2 ^ 63")
    case True
    then have "?t = kCFNumberSInt8Type \<and> - (2 ^ 7) \<le> ?v \<and> ?v < 2 ^ 7 \<or> ?t = kCFNumberSInt16Type \<and> - (2 ^ 15) \<le> ?v \<and> ?v < 2 ^ 15 \<or>
        ?t = kCFNumberSInt32Type \<and> - (2 ^ 31) \<le> ?v \<and> ?v < 2 ^ 31 \<or> ?t = kCFNumberSInt64Type \<and> - (2 ^ 63) \<le> ?v \<and> ?v < 2 ^ 63"
      unfolding type_given_def type_asked_def small_number_def by (auto split: if_split)
    from read_back_small [OF this] show ?thesis unfolding x using True by simp
  next
    case False
    then have "?t = kCFNumberSInt128Type" unfolding type_given_def type_asked_def small_number_def by auto
    then show ?thesis unfolding x if_not_P [OF False] by (simp only: read_back_large simp_thms)
  qed
qed

section \<open>Instances\<close>

definition sample_number_env :: number_env where
  "sample_number_env = \<lparr>ne_systemDefault = True, ne_caching = True, ne_instance = True, ne_raced = (\<lambda>_. None)\<rparr>"

lemma sample_numbers: "cache_ok (replicate 14 None)" "races_ok sample_number_env"
  by (simp_all add: cache_ok_def races_ok_def sample_number_env_def)


theorem big_number_read_back_witness:
  "\<exists>x. fst (CFNumberCreateWithBigNum sample_number_env (replicate 14 None) (CFBigNumInitWithInt128 18446744073709551616)) = Some x \<and>
    bn_val (CFBigNumInitWithInt128 18446744073709551616) = 2 ^ 64 \<and>
    bn_val (CFBigNumInitWithCFNumber True (CFBigNumInitWithInt8 0) x) = 1"
proof -
  let ?n = "CFBigNumInitWithInt128 18446744073709551616"
  have n: "bn_canonical ?n" "bn_val ?n = 18446744073709551616" using InitWithInt_correct(5) [of 18446744073709551616] by simp_all
  have "fst (CFNumberCreateWithBigNum sample_number_env (replicate 14 None) ?n) = Some (number_of kCFNumberSInt128Type 18446744073709551616)"
    using CreateWithBigNum_creates(1) [OF n(1) sample_numbers]
    by (simp add: n(2) created_def type_given_def type_asked_def small_number_def sample_number_env_def)
  moreover have "exchanged_halves 18446744073709551616 = 1" by (simp add: exchanged_halves_def)
  ultimately show ?thesis
    using big_number_read_back [OF n(1) sample_numbers] n(2) by simp
qed

end
