(* ===== verification/CF_Sort.thy ===== *)
theory CF_Sort
  imports CF_Prelude
begin

text \<open>
  \<open>CFSortFunctions.c\<close>: the merge sort behind every sorting call of the library. A \<open>VALUE_TYPE *\<close>
  argument with its count is the list of the cells from that address on; the recursive calls on
  \<open>listp\<close> and \<open>listp + half_cnt\<close> work on the two parts of the list. The comparator block is a function
  argument. The concurrent variant (\<open>__CFSortIndexesN\<close>) is modelled with its \<open>dispatch_apply\<close> rounds as
  rounds over the sections, which is what they compute because the iterations of one round write
  disjoint blocks that no other iteration of the round reads.
\<close>

section \<open>Merging\<close>

text \<open>\<open>while (idx--) listp[idx] = tmp[idx]\<close>\<close>

fun copy_down :: "'v list \<Rightarrow> 'v list \<Rightarrow> nat \<Rightarrow> 'v list cf" where
  "copy_down listp tmp 0 = Inr listp"
| "copy_down listp tmp (Suc idx) =
     ebind (rd tmp idx) (\<lambda>v. ebind (wr listp idx v) (\<lambda>listp. copy_down listp tmp idx))"

text \<open>\<open>for (t = cnt1 + cnt2 - 1; idx <= t; t--) listp[t] = listp[t - cnt2]\<close>, with \<open>n\<close> rounds left\<close>

fun shift_up :: "'v list \<Rightarrow> nat \<Rightarrow> nat \<Rightarrow> nat \<Rightarrow> 'v list cf" where
  "shift_up listp cnt2 idx 0 = Inr listp"
| "shift_up listp cnt2 idx (Suc n) =
     ebind (rd listp (idx + n - cnt2)) (\<lambda>v.
     ebind (wr listp (idx + n) v) (\<lambda>listp. shift_up listp cnt2 idx n))"

function simple_merge_loop ::
  "('v \<Rightarrow> 'v \<Rightarrow> int) \<Rightarrow> 'v list \<Rightarrow> nat \<Rightarrow> nat \<Rightarrow> 'v list \<Rightarrow> nat \<Rightarrow> nat \<Rightarrow> nat \<Rightarrow> ('v list \<times> 'v list) cf" where
  "simple_merge_loop cmp listp cnt1 cnt2 tmp idx idx1 idx2 =
     (if cnt1 \<le> idx1 then ebind (copy_down listp tmp idx) (\<lambda>listp. Inr (listp, tmp))
      else if cnt1 + cnt2 \<le> idx2 then
        ebind (shift_up listp cnt2 idx (cnt1 + cnt2 - idx)) (\<lambda>listp.
        ebind (copy_down listp tmp idx) (\<lambda>listp. Inr (listp, tmp)))
      else
        ebind (rd listp idx1) (\<lambda>v1.
        ebind (rd listp idx2) (\<lambda>v2.
        if cmp v1 v2 \<le> 0 then
          ebind (wr tmp idx v1) (\<lambda>tmp. simple_merge_loop cmp listp cnt1 cnt2 tmp (idx + 1) (idx1 + 1) idx2)
        else
          ebind (wr tmp idx v2) (\<lambda>tmp. simple_merge_loop cmp listp cnt1 cnt2 tmp (idx + 1) idx1 (idx2 + 1)))))"
  by pat_completeness auto
termination
  by (relation "measure (\<lambda>(cmp, listp, cnt1, cnt2, tmp, idx, idx1, idx2). (cnt1 - idx1) + (cnt1 + cnt2 - idx2))") auto

declare simple_merge_loop.simps [simp del]

definition CFSimpleMerge ::
  "('v \<Rightarrow> 'v \<Rightarrow> int) \<Rightarrow> 'v list \<Rightarrow> nat \<Rightarrow> nat \<Rightarrow> 'v list \<Rightarrow> ('v list \<times> 'v list) cf" where
  "CFSimpleMerge cmp listp cnt1 cnt2 tmp =
     (if cnt1 = 0 \<or> cnt2 = 0 then Inr (listp, tmp)
      else if 16 < cnt1 + cnt2 then
        ebind (rd listp (cnt1 - 1)) (\<lambda>a. ebind (rd listp cnt1) (\<lambda>b.
        if cmp a b \<le> 0 then Inr (listp, tmp)
        else simple_merge_loop cmp listp cnt1 cnt2 tmp 0 0 cnt1))
      else simple_merge_loop cmp listp cnt1 cnt2 tmp 0 0 cnt1)"

function CFSimpleMergeSort :: "('v \<Rightarrow> 'v \<Rightarrow> int) \<Rightarrow> 'v list \<Rightarrow> nat \<Rightarrow> 'v list \<Rightarrow> ('v list \<times> 'v list) cf" where
  "CFSimpleMergeSort cmp listp cnt tmp =
     (if cnt < 2 then Inr (listp, tmp)
      else if cnt = 2 then
        ebind (rd listp 0) (\<lambda>v0. ebind (rd listp 1) (\<lambda>v1.
        if 0 < cmp v0 v1 then
          ebind (wr listp 0 v1) (\<lambda>listp. ebind (wr listp 1 v0) (\<lambda>listp. Inr (listp, tmp)))
        else Inr (listp, tmp)))
      else if cnt = 3 then
        ebind (rd listp 0) (\<lambda>v0. ebind (rd listp 1) (\<lambda>v1. ebind (rd listp 2) (\<lambda>v2.
        let (v0, v1) = (if 0 < cmp v0 v1 then (v1, v0) else (v0, v1));
            (v0, v1, v2) =
              (if 0 < cmp v1 v2 then
                 (let (v1, v2) = (v2, v1);
                      (v0, v1) = (if 0 < cmp v0 v1 then (v1, v0) else (v0, v1))
                  in (v0, v1, v2))
               else (v0, v1, v2))
        in ebind (wr listp 0 v0) (\<lambda>listp. ebind (wr listp 1 v1) (\<lambda>listp.
           ebind (wr listp 2 v2) (\<lambda>listp. Inr (listp, tmp)))))))
      else
        (let half_cnt = cnt div 2 in
         ebind (CFSimpleMergeSort cmp (take half_cnt listp) half_cnt tmp) (\<lambda>(left, tmp).
         ebind (CFSimpleMergeSort cmp (drop half_cnt listp) (cnt - half_cnt) tmp) (\<lambda>(right, tmp).
         CFSimpleMerge cmp (left @ right) half_cnt (cnt - half_cnt) tmp))))"
  by pat_completeness auto
termination
  by (relation "measure (\<lambda>(cmp, listp, cnt, tmp). cnt)") auto

declare CFSimpleMergeSort.simps [simp del]

section \<open>The concurrent variant\<close>

text \<open>
  \<open>__CFSortIndexesNMerge\<close> returns the cells it writes to \<open>tmp\<close>: the \<open>cnt1\<close> smallest from the left, or
  the \<open>cnt2\<close> largest from the right. The pointers of the right-hand loop are the numbers \<open>n1\<close> and
  \<open>n2\<close> of cells they still have below them, and \<open>k\<close> cells of \<open>tmp\<close> are still to be written.
\<close>

fun nmerge_right :: "('v \<Rightarrow> 'v \<Rightarrow> int) \<Rightarrow> 'v list \<Rightarrow> 'v list \<Rightarrow> nat \<Rightarrow> nat \<Rightarrow> nat \<Rightarrow> 'v list cf" where
  "nmerge_right cmp listp1 listp2 n1 n2 0 = Inr []"
| "nmerge_right cmp listp1 listp2 n1 n2 (Suc k) =
     (if n2 = 0 then
        (if n1 < 2 then Inl OutOfBounds
         else ebind (rd listp1 (n1 - 2)) (\<lambda>v.
              ebind (nmerge_right cmp listp1 listp2 (n1 - 1) n2 k) (\<lambda>out. Inr (out @ [v]))))
      else if n1 = 0 then
        (if n2 < 2 then Inl OutOfBounds
         else ebind (rd listp2 (n2 - 2)) (\<lambda>v.
              ebind (nmerge_right cmp listp1 listp2 n1 (n2 - 1) k) (\<lambda>out. Inr (out @ [v]))))
      else
        ebind (rd listp1 (n1 - 1)) (\<lambda>v1.
        ebind (rd listp2 (n2 - 1)) (\<lambda>v2.
        if cmp v1 v2 \<le> 0 then
          ebind (nmerge_right cmp listp1 listp2 n1 (n2 - 1) k) (\<lambda>out. Inr (out @ [v2]))
        else
          ebind (nmerge_right cmp listp1 listp2 (n1 - 1) n2 k) (\<lambda>out. Inr (out @ [v1])))))"

fun nmerge_left :: "('v \<Rightarrow> 'v \<Rightarrow> int) \<Rightarrow> 'v list \<Rightarrow> 'v list \<Rightarrow> nat \<Rightarrow> 'v list cf" where
  "nmerge_left cmp listp1 listp2 0 = Inr []"
| "nmerge_left cmp listp1 [] (Suc k) =
     (case listp1 of [] \<Rightarrow> Inl OutOfBounds
      | v # rest \<Rightarrow> ebind (nmerge_left cmp rest [] k) (\<lambda>out. Inr (v # out)))"
| "nmerge_left cmp [] (v # rest) (Suc k) = ebind (nmerge_left cmp [] rest k) (\<lambda>out. Inr (v # out))"
| "nmerge_left cmp (v1 # rest1) (v2 # rest2) (Suc k) =
     (if cmp v1 v2 \<le> 0 then ebind (nmerge_left cmp rest1 (v2 # rest2) k) (\<lambda>out. Inr (v1 # out))
      else ebind (nmerge_left cmp (v1 # rest1) rest2 k) (\<lambda>out. Inr (v2 # out)))"

definition CFSortIndexesNMerge ::
  "('v \<Rightarrow> 'v \<Rightarrow> int) \<Rightarrow> 'v list \<Rightarrow> nat \<Rightarrow> 'v list \<Rightarrow> nat \<Rightarrow> bool \<Rightarrow> 'v list cf" where
  "CFSortIndexesNMerge cmp listp1 cnt1 listp2 cnt2 right =
     (let merge_them = (if right then nmerge_right cmp (take cnt1 listp1) (take cnt2 listp2) cnt1 cnt2 cnt2
                        else nmerge_left cmp (take cnt1 listp1) (take cnt2 listp2) cnt1)
      in if 16 < cnt1 + cnt2 then
           ebind (if cnt1 = 0 then Inl OutOfBounds else rd listp1 (cnt1 - 1)) (\<lambda>a. ebind (rd listp2 0) (\<lambda>b.
           if cmp a b \<le> 0 then (if right then slice listp2 0 cnt2 else slice listp1 0 cnt1)
           else merge_them))
         else merge_them)"

text \<open>
  One round: the sections \<open>i\<close>, \<open>i + 1\<close>, ... of a phase in turn.
\<close>

fun cf_for :: "nat \<Rightarrow> nat \<Rightarrow> (nat \<Rightarrow> 's \<Rightarrow> 's cf) \<Rightarrow> 's \<Rightarrow> 's cf" where
  "cf_for i 0 body s = Inr s"
| "cf_for i (Suc n) body s = ebind (body i s) (\<lambda>s. cf_for (i + 1) n body s)"

text \<open>The state of the sort is the list and the section buffers.\<close>

definition even_step ::
  "('v \<Rightarrow> 'v \<Rightarrow> int) \<Rightarrow> nat \<Rightarrow> nat \<Rightarrow> nat \<Rightarrow> nat \<Rightarrow> 'v list \<times> 'v list list \<Rightarrow> ('v list \<times> 'v list list) cf" where
  "even_step cmp sz num_sect last_sect_len sect = (\<lambda>(listp, tmps).
     let right = (sect mod 2 = 1);
         left_base = sect * sz - (if right then sz else 0);
         right_base = sect * sz + (if right then 0 else sz);
         sect2_len = (if sect + 1 + (if right then 0 else 1) = num_sect then last_sect_len else sz)
     in ebind (CFSortIndexesNMerge cmp (drop left_base listp) sz (drop right_base listp) sect2_len right) (\<lambda>out.
        ebind (rd tmps sect) (\<lambda>tmp.
        ebind (copy_into tmp 0 out) (\<lambda>tmp. Inr (listp, tmps[sect := tmp])))))"

definition odd_step ::
  "('v \<Rightarrow> 'v \<Rightarrow> int) \<Rightarrow> nat \<Rightarrow> nat \<Rightarrow> nat \<Rightarrow> nat \<Rightarrow> 'v list \<times> 'v list list \<Rightarrow> ('v list \<times> 'v list list) cf" where
  "odd_step cmp sz num_sect last_sect_len sect = (\<lambda>(listp, tmps).
     let right = (sect mod 2 = 1);
         sect2_len = (if sect + 1 + (if right then 1 else 2) = num_sect then last_sect_len else sz)
     in ebind (rd tmps (sect + (if right then 0 else 1))) (\<lambda>left_base.
        ebind (rd tmps (sect + (if right then 1 else 2))) (\<lambda>right_base.
        ebind (CFSortIndexesNMerge cmp left_base sz right_base sect2_len right) (\<lambda>out.
        ebind (copy_into listp (sect * sz + sz) out) (\<lambda>listp. Inr (listp, tmps))))))"

definition merge_round ::
  "('v \<Rightarrow> 'v \<Rightarrow> int) \<Rightarrow> nat \<Rightarrow> nat \<Rightarrow> nat \<Rightarrow> 'v list \<times> 'v list list \<Rightarrow> ('v list \<times> 'v list list) cf" where
  "merge_round cmp sz num_sect last_sect_len st =
     ebind (cf_for 0 (num_sect div 2 * 2) (even_step cmp sz num_sect last_sect_len) st) (\<lambda>(listp, tmps).
     ebind (if num_sect mod 2 = 1 then
              ebind (slice listp ((num_sect - 1) * sz) last_sect_len) (\<lambda>cells.
              ebind (rd tmps (num_sect - 1)) (\<lambda>tmp.
              ebind (copy_into tmp 0 cells) (\<lambda>tmp. Inr (tmps[num_sect - 1 := tmp]))))
            else Inr tmps) (\<lambda>tmps.
     ebind (cf_for 0 ((num_sect - 1) div 2 * 2) (odd_step cmp sz num_sect last_sect_len) (listp, tmps)) (\<lambda>(listp, tmps).
     ebind (rd tmps 0) (\<lambda>tmp0.
     ebind (slice tmp0 0 sz) (\<lambda>cells.
     ebind (copy_into listp 0 cells) (\<lambda>listp.
     if num_sect mod 2 = 0 then
       ebind (rd tmps (num_sect - 1)) (\<lambda>tmp.
       ebind (slice tmp 0 last_sect_len) (\<lambda>cells.
       ebind (copy_into listp ((num_sect - 1) * sz) cells) (\<lambda>listp. Inr (listp, tmps))))
     else Inr (listp, tmps)))))))"

definition CFSortIndexesN ::
  "(nat \<Rightarrow> 'v) \<Rightarrow> ('v \<Rightarrow> 'v \<Rightarrow> int) \<Rightarrow> 'v list \<Rightarrow> nat \<Rightarrow> nat \<Rightarrow> 'v list cf" where
  "CFSortIndexesN junk cmp listp cnt ncores =
     (let sz = ((cnt + ncores - 1) div ncores + 15) div 16 * 16;
          num_sect = (cnt + sz - 1) div sz;
          last_sect_len = cnt + sz - sz * num_sect;
          tmps = replicate num_sect (map junk [0..<sz])
      in ebind (cf_for 0 num_sect (\<lambda>sect (listp, tmps).
             let sect_len = (if sect < num_sect - 1 then sz else last_sect_len)
             in ebind (slice listp (sect * sz) sect_len) (\<lambda>cells.
                ebind (rd tmps sect) (\<lambda>tmp.
                ebind (CFSimpleMergeSort cmp cells sect_len tmp) (\<lambda>(cells, tmp).
                ebind (copy_into listp (sect * sz) cells) (\<lambda>listp. Inr (listp, tmps[sect := tmp])))))) (listp, tmps)) (\<lambda>st.
         ebind (cf_for 0 ((num_sect + 1) div 2) (\<lambda>idx. merge_round cmp sz num_sect last_sect_len) st) (\<lambda>(listp, tmps).
         Inr listp)))"

section \<open>Sorting\<close>

text \<open>
  What the sort takes from its surroundings: the number of active processors, whether \<open>malloc\<close> grants
  a block (of the count of cells it is asked for), and what a fresh block holds.
\<close>

record sort_env =
  se_ncores :: nat
  se_malloc :: "nat \<Rightarrow> bool"
  se_junk :: "nat \<Rightarrow> nat"

definition kCFSortConcurrent :: nat where "kCFSortConcurrent = 1"
definition kCFSortStable :: nat where "kCFSortStable = 16"

text \<open>The cores used for \<open>count\<close> values, 0 when the sort is not to be concurrent.\<close>

definition sort_cores :: "nat \<Rightarrow> nat \<Rightarrow> nat \<Rightarrow> nat" where
  "sort_cores active cnt opts =
     (if opts mod 2 = 0 then 0
      else if cnt < 160 \<or> active < 2 then 0
      else min 16 (if cnt < 640 \<and> 2 < active then 2
                   else if cnt < 3200 \<and> 4 < active then 4
                   else if cnt < 16000 \<and> 8 < active then 8
                   else active))"

text \<open>\<open>for (; idx < lim; idx++) indexBuffer[idx] = idx\<close>, with \<open>n\<close> rounds left\<close>

fun fill_indexes :: "nat list \<Rightarrow> nat \<Rightarrow> nat \<Rightarrow> nat list cf" where
  "fill_indexes indexBuffer idx 0 = Inr indexBuffer"
| "fill_indexes indexBuffer idx (Suc n) =
     ebind (wr indexBuffer idx idx) (\<lambda>indexBuffer. fill_indexes indexBuffer (idx + 1) n)"

definition init_indexes :: "nat list \<Rightarrow> nat \<Rightarrow> nat list cf" where
  "init_indexes indexBuffer cnt =
     (if cnt \<le> 65536 then fill_indexes indexBuffer 0 cnt
      else (let sz = (cnt + 15) div 16 * 16 div 8
            in cf_for 0 8 (\<lambda>n buf. let idx = n * sz; lim = min (idx + sz) cnt
                                   in fill_indexes buf idx (lim - idx)) indexBuffer))"

definition alloc_indexes :: "sort_env \<Rightarrow> nat \<Rightarrow> nat list option" where
  "alloc_indexes env cnt =
     (if cnt \<le> 4096 \<or> se_malloc env cnt then Some (map (se_junk env) [0..<cnt]) else None)"

definition CFSortIndexes ::
  "sort_env \<Rightarrow> nat list \<Rightarrow> nat \<Rightarrow> nat \<Rightarrow> (nat \<Rightarrow> nat \<Rightarrow> int) \<Rightarrow> nat list cf" where
  "CFSortIndexes env indexBuffer cnt opts cmp =
     (if cnt < 1 then Inr indexBuffer
      else if (2 ^ 63 - 1) div 8 < cnt then Inr indexBuffer
      else
        ebind (init_indexes indexBuffer cnt) (\<lambda>indexBuffer.
        if sort_cores (se_ncores env) cnt opts \<noteq> 0 then
          CFSortIndexesN (se_junk env) cmp indexBuffer cnt (sort_cores (se_ncores env) cnt opts)
        else
          (case alloc_indexes env cnt of
             None \<Rightarrow> Inl NullPointer
           | Some tmp \<Rightarrow> ebind (CFSimpleMergeSort cmp indexBuffer cnt tmp) (\<lambda>(indexBuffer, tmp). Inr indexBuffer))))"

text \<open>
  The two array sorts. The values are the cells of \<open>list\<close>, each \<open>elementSize\<close> bytes wide; the
  comparator is passed the address of a value, here the value. The sorted values are gathered in
  \<open>store\<close>, which is then copied back over the list.
\<close>

fun gather :: "'v list \<Rightarrow> nat list \<Rightarrow> nat \<Rightarrow> nat \<Rightarrow> 'v list cf" where
  "gather list indexes idx 0 = Inr []"
| "gather list indexes idx (Suc n) =
     ebind (rd indexes idx) (\<lambda>i. ebind (rd list i) (\<lambda>v.
     ebind (gather list indexes (idx + 1) n) (\<lambda>store. Inr (v # store))))"

definition index_cmp :: "('v \<Rightarrow> 'v \<Rightarrow> int) \<Rightarrow> 'v list \<Rightarrow> nat \<Rightarrow> nat \<Rightarrow> int" where
  "index_cmp comparator list a b = comparator (list ! a) (list ! b)"

definition sort_array ::
  "sort_env \<Rightarrow> nat \<Rightarrow> 'v list \<Rightarrow> nat \<Rightarrow> nat \<Rightarrow> ('v \<Rightarrow> 'v \<Rightarrow> int) \<Rightarrow> 'v list cf" where
  "sort_array env opts list cnt elementSize comparator =
     (if cnt < 2 \<or> elementSize < 1 then Inr list
      else
        (case alloc_indexes env cnt of
           None \<Rightarrow> Inl NullPointer
         | Some indexes \<Rightarrow>
             ebind (CFSortIndexes env indexes cnt opts (index_cmp comparator list)) (\<lambda>indexes.
             if cnt \<le> 16 * 1024 div elementSize \<or> se_malloc env (cnt * elementSize) then
               ebind (gather list indexes 0 cnt) (\<lambda>store. copy_into list 0 store)
             else Inl NullPointer)))"

definition CFQSortArray ::
  "sort_env \<Rightarrow> 'v list \<Rightarrow> nat \<Rightarrow> nat \<Rightarrow> ('v \<Rightarrow> 'v \<Rightarrow> int) \<Rightarrow> 'v list cf" where
  "CFQSortArray env = sort_array env 0"

definition CFMergeSortArray ::
  "sort_env \<Rightarrow> 'v list \<Rightarrow> nat \<Rightarrow> nat \<Rightarrow> ('v \<Rightarrow> 'v \<Rightarrow> int) \<Rightarrow> 'v list cf" where
  "CFMergeSortArray env = sort_array env kCFSortStable"

section \<open>Stable sorting\<close>

text \<open>
  What a comparator has to satisfy, and what a stable sort gives: a rearrangement in which no value
  goes before an earlier one and the values equivalent to any \<open>k\<close> keep their order.
\<close>

definition comparator :: "('v \<Rightarrow> 'v \<Rightarrow> int) \<Rightarrow> 'v set \<Rightarrow> bool" where
  "comparator cmp A \<longleftrightarrow>
     (\<forall>a\<in>A. \<forall>b\<in>A. cmp a b \<le> 0 \<or> cmp b a \<le> 0) \<and>
     (\<forall>a\<in>A. \<forall>b\<in>A. \<forall>c\<in>A. cmp a b \<le> 0 \<longrightarrow> cmp b c \<le> 0 \<longrightarrow> cmp a c \<le> 0)"

definition cmp_equiv :: "('v \<Rightarrow> 'v \<Rightarrow> int) \<Rightarrow> 'v \<Rightarrow> 'v \<Rightarrow> bool" where
  "cmp_equiv cmp k x \<longleftrightarrow> cmp k x \<le> 0 \<and> cmp x k \<le> 0"

definition stable_sorted :: "('v \<Rightarrow> 'v \<Rightarrow> int) \<Rightarrow> 'v list \<Rightarrow> 'v list \<Rightarrow> bool" where
  "stable_sorted cmp xs ys \<longleftrightarrow> mset ys = mset xs \<and> sorted_wrt (\<lambda>a b. cmp a b \<le> 0) ys \<and>
     (\<forall>k\<in>set xs. filter (cmp_equiv cmp k) ys = filter (cmp_equiv cmp k) xs)"

lemma comparator_subset: "comparator cmp A \<Longrightarrow> B \<subseteq> A \<Longrightarrow> comparator cmp B"
  unfolding comparator_def by blast

lemma comparator_total: "comparator cmp A \<Longrightarrow> a \<in> A \<Longrightarrow> b \<in> A \<Longrightarrow> 0 < cmp a b \<Longrightarrow> cmp b a \<le> 0"
  unfolding comparator_def by (metis not_le)

lemma comparator_refl: "comparator cmp A \<Longrightarrow> a \<in> A \<Longrightarrow> cmp a a \<le> 0"
  unfolding comparator_def by auto

lemma comparator_trans:
  "comparator cmp A \<Longrightarrow> a \<in> A \<Longrightarrow> b \<in> A \<Longrightarrow> c \<in> A \<Longrightarrow> cmp a b \<le> 0 \<Longrightarrow> cmp b c \<le> 0 \<Longrightarrow> cmp a c \<le> 0"
  unfolding comparator_def by blast

definition stable_perm :: "('v \<Rightarrow> 'v \<Rightarrow> int) \<Rightarrow> 'v set \<Rightarrow> 'v list \<Rightarrow> 'v list \<Rightarrow> bool" where
  "stable_perm cmp A xs ys \<longleftrightarrow> mset ys = mset xs \<and>
     (\<forall>k\<in>A. filter (cmp_equiv cmp k) ys = filter (cmp_equiv cmp k) xs)"

lemma stable_perm_refl [simp]: "stable_perm cmp A xs xs"
  by (simp add: stable_perm_def)

lemma stable_perm_trans: "stable_perm cmp A xs ys \<Longrightarrow> stable_perm cmp A ys zs \<Longrightarrow> stable_perm cmp A xs zs"
  by (simp add: stable_perm_def)

lemma stable_perm_append:
  "stable_perm cmp A xs xs' \<Longrightarrow> stable_perm cmp A ys ys' \<Longrightarrow> stable_perm cmp A (xs @ ys) (xs' @ ys')"
  by (simp add: stable_perm_def)

lemma stable_perm_set: "stable_perm cmp A xs ys \<Longrightarrow> set ys = set xs"
  unfolding stable_perm_def by (metis set_mset_mset)

lemma stable_perm_length: "stable_perm cmp A xs ys \<Longrightarrow> length ys = length xs"
  unfolding stable_perm_def by (metis size_mset)

lemma stable_sorted_iff:
  "stable_sorted cmp xs ys \<longleftrightarrow> stable_perm cmp (set xs) xs ys \<and> sorted_wrt (\<lambda>a b. cmp a b \<le> 0) ys"
  by (auto simp: stable_sorted_def stable_perm_def)

text \<open>Swapping two neighbours that are out of order is stable.\<close>

lemma stable_perm_swap:
  assumes "comparator cmp A" "a \<in> A" "b \<in> A" "0 < cmp a b"
  shows "stable_perm cmp A [a, b] [b, a]"
proof -
  have "\<not> (cmp_equiv cmp k a \<and> cmp_equiv cmp k b)" if "k \<in> A" for k
    using comparator_trans [OF assms(1) assms(2) that assms(3)] assms(4) by (auto simp: cmp_equiv_def)
  then show ?thesis by (auto simp: stable_perm_def)
qed

section \<open>Merging, functionally\<close>

fun smerge :: "('v \<Rightarrow> 'v \<Rightarrow> int) \<Rightarrow> 'v list \<Rightarrow> 'v list \<Rightarrow> 'v list" where
  "smerge cmp [] ys = ys"
| "smerge cmp (x # xs) [] = x # xs"
| "smerge cmp (x # xs) (y # ys) =
     (if cmp x y \<le> 0 then x # smerge cmp xs (y # ys) else y # smerge cmp (x # xs) ys)"

lemma smerge_Nil [simp]: "smerge cmp xs [] = xs"
  by (cases xs) simp_all

lemma smerge_mset [simp]: "mset (smerge cmp xs ys) = mset xs + mset ys"
  by (induction cmp xs ys rule: smerge.induct) simp_all

lemma smerge_set [simp]: "set (smerge cmp xs ys) = set xs \<union> set ys"
  by (metis set_mset_mset set_mset_union smerge_mset)

lemma smerge_length [simp]: "length (smerge cmp xs ys) = length xs + length ys"
  by (metis size_mset size_union smerge_mset)

lemma smerge_sorted:
  assumes "comparator cmp (set xs \<union> set ys)"
    and "sorted_wrt (\<lambda>a b. cmp a b \<le> 0) xs" "sorted_wrt (\<lambda>a b. cmp a b \<le> 0) ys"
  shows "sorted_wrt (\<lambda>a b. cmp a b \<le> 0) (smerge cmp xs ys)"
  using assms
proof (induction cmp xs ys rule: smerge.induct)
  case (3 cmp x xs y ys)
  note cmp = 3(3)
  have IH: "sorted_wrt (\<lambda>a b. cmp a b \<le> 0) (smerge cmp xs (y # ys))" if "cmp x y \<le> 0"
    using 3 that by (intro 3(1)) (auto intro: comparator_subset)
  have IH': "sorted_wrt (\<lambda>a b. cmp a b \<le> 0) (smerge cmp (x # xs) ys)" if "\<not> cmp x y \<le> 0"
    using 3 that by (intro 3(2)) (auto intro: comparator_subset)
  show ?case
  proof (cases "cmp x y \<le> 0")
    case True
    then have "\<forall>z\<in>set (y # ys). cmp x z \<le> 0"
      using 3(5) comparator_trans [OF cmp, of x y] by auto
    then show ?thesis using True IH 3(4) by auto
  next
    case False
    then have "cmp y x \<le> 0" using comparator_total [OF cmp, of x y] by simp
    then have "\<forall>z\<in>set (x # xs). cmp y z \<le> 0"
      using 3(4) comparator_trans [OF cmp, of y x] by auto
    then show ?thesis using False IH' 3(5) by auto
  qed
qed simp_all

lemma smerge_stable:
  assumes "comparator cmp A" "set xs \<union> set ys \<subseteq> A" "k \<in> A" and "sorted_wrt (\<lambda>a b. cmp a b \<le> 0) xs"
  shows "filter (cmp_equiv cmp k) (smerge cmp xs ys) = filter (cmp_equiv cmp k) (xs @ ys)"
  using assms
proof (induction cmp xs ys rule: smerge.induct)
  case (3 cmp x xs y ys)
  show ?case
  proof (cases "cmp x y \<le> 0")
    case True
    then show ?thesis using 3 by simp
  next
    case False
    have later: "filter (cmp_equiv cmp k) (x # xs) = []" if y: "cmp_equiv cmp k y"
    proof -
      have "\<not> cmp_equiv cmp k z" if z: "z \<in> set (x # xs)" for z
      proof
        assume eq: "cmp_equiv cmp k z"
        have A: "x \<in> A" "y \<in> A" "z \<in> A" using 3(4) z by auto
        have "cmp z y \<le> 0"
          using comparator_trans [OF 3(3) A(3) 3(5) A(2)] y eq by (simp add: cmp_equiv_def)
        moreover have "z = x \<or> cmp x z \<le> 0" using z 3(6) by auto
        ultimately have "cmp x y \<le> 0" using comparator_trans [OF 3(3) A(1,3,2)] by auto
        then show False using False by simp
      qed
      then show ?thesis by (auto simp: filter_empty_conv)
    qed
    have "filter (cmp_equiv cmp k) (smerge cmp (x # xs) ys) = filter (cmp_equiv cmp k) ((x # xs) @ ys)"
      using 3 False by auto
    then show ?thesis using False later by (auto split: if_splits)
  qed
qed simp_all

lemma smerge_ordered:
  assumes "\<forall>a\<in>set xs. \<forall>b\<in>set ys. cmp a b \<le> 0"
  shows "smerge cmp xs ys = xs @ ys"
  using assms by (induction cmp xs ys rule: smerge.induct) simp_all

section \<open>The loops compute the merge\<close>

lemma copy_down_correct:
  "idx \<le> length tmp \<Longrightarrow> idx \<le> length listp \<Longrightarrow> copy_down listp tmp idx = Inr (take idx tmp @ drop idx listp)"
proof (induction idx arbitrary: listp)
  case (Suc idx)
  have "drop idx (listp[idx := tmp ! idx]) = tmp ! idx # drop (Suc idx) listp"
    using Suc.prems by (simp add: drop_update_swap Cons_nth_drop_Suc [symmetric])
  then show ?case using Suc by (simp add: take_Suc_conv_app_nth)
qed simp

lemma shift_up_correct:
  assumes "cnt2 \<le> idx" and "idx + n \<le> length listp"
  shows "shift_up listp cnt2 idx n = Inr (take idx listp @ take n (drop (idx - cnt2) listp) @ drop (idx + n) listp)"
  using assms(2)
proof (induction n arbitrary: listp)
  case (Suc n)
  let ?v = "listp ! (idx + n - cnt2)"
  have "take n (drop (idx - cnt2) (listp[idx + n := ?v])) = take n (drop (idx - cnt2) listp)"
    using assms(1) by (simp add: drop_update_swap)
  moreover have "take (Suc n) (drop (idx - cnt2) listp) = take n (drop (idx - cnt2) listp) @ [?v]"
    using Suc.prems assms(1) by (simp add: take_Suc_conv_app_nth)
  moreover have "drop (idx + n) (listp[idx + n := ?v]) = ?v # drop (Suc (idx + n)) listp"
    using Suc.prems by (simp add: drop_update_swap Cons_nth_drop_Suc [symmetric])
  ultimately show ?case using Suc by simp
qed simp

lemma simple_merge_loop_correct:
  assumes "length listp = cnt1 + cnt2" and "cnt1 + cnt2 \<le> length tmp"
    and "idx1 \<le> cnt1" "cnt1 \<le> idx2" "idx2 \<le> cnt1 + cnt2" "idx + cnt1 = idx1 + idx2"
  shows "\<exists>tmp'. simple_merge_loop cmp listp cnt1 cnt2 tmp idx idx1 idx2 =
      Inr (take idx tmp @ smerge cmp (drop idx1 (take cnt1 listp)) (drop idx2 listp), tmp') \<and>
      length tmp' = length tmp"
  using assms
proof (induction "cnt1 - idx1 + (cnt1 + cnt2 - idx2)" arbitrary: tmp idx idx1 idx2 rule: less_induct)
  case less
  consider (left) "cnt1 \<le> idx1" | (right) "idx1 < cnt1" "cnt1 + cnt2 \<le> idx2" | (both) "idx1 < cnt1" "idx2 < cnt1 + cnt2"
    by linarith
  then show ?case
  proof cases
    case left
    then have "idx1 = cnt1" "idx = idx2" using less.prems by simp_all
    then show ?thesis
      using less.prems copy_down_correct [of idx tmp listp] by (simp add: simple_merge_loop.simps)
  next
    case right
    then have idx: "idx2 = cnt1 + cnt2" "idx = idx1 + cnt2" using less.prems by simp_all
    have "shift_up listp cnt2 idx (cnt1 + cnt2 - idx) =
        Inr (take idx listp @ drop idx1 (take cnt1 listp))"
      using shift_up_correct [of cnt2 idx "cnt1 + cnt2 - idx" listp] less.prems idx right
      by (simp add: take_drop)
    then show ?thesis
      using less.prems right idx by (simp add: simple_merge_loop.simps copy_down_correct)
  next
    case both
    let ?v1 = "listp ! idx1" and ?v2 = "listp ! idx2"
    have idx: "idx < length tmp" using both less.prems by linarith
    have split: "drop idx1 (take cnt1 listp) = ?v1 # drop (idx1 + 1) (take cnt1 listp)"
        "drop idx2 listp = ?v2 # drop (idx2 + 1) listp"
      using both less.prems by (simp_all add: Cons_nth_drop_Suc [symmetric])
    have step: "take (idx + 1) (tmp[idx := v]) = take idx tmp @ [v]" for v
      using idx by (simp add: take_Suc_conv_app_nth)
    show ?thesis
    proof (cases "cmp ?v1 ?v2 \<le> 0")
      case True
      have "\<exists>tmp'. simple_merge_loop cmp listp cnt1 cnt2 (tmp[idx := ?v1]) (idx + 1) (idx1 + 1) idx2 =
          Inr (take (idx + 1) (tmp[idx := ?v1]) @ smerge cmp (drop (idx1 + 1) (take cnt1 listp)) (drop idx2 listp), tmp') \<and>
          length tmp' = length (tmp[idx := ?v1])"
        using both less.prems by (intro less.hyps) simp_all
      then show ?thesis
        unfolding step using True both less.prems idx
        by (simp add: simple_merge_loop.simps [of _ _ _ _ tmp] split)
    next
      case False
      have "\<exists>tmp'. simple_merge_loop cmp listp cnt1 cnt2 (tmp[idx := ?v2]) (idx + 1) idx1 (idx2 + 1) =
          Inr (take (idx + 1) (tmp[idx := ?v2]) @ smerge cmp (drop idx1 (take cnt1 listp)) (drop (idx2 + 1) listp), tmp') \<and>
          length tmp' = length (tmp[idx := ?v2])"
        using both less.prems by (intro less.hyps) simp_all
      then show ?thesis
        unfolding step using False both less.prems idx
        by (simp add: simple_merge_loop.simps [of _ _ _ _ tmp] split)
    qed
  qed
qed

lemma last_le_all:
  assumes "comparator cmp (set xs \<union> set ys)"
    and "sorted_wrt (\<lambda>a b. cmp a b \<le> 0) xs" "sorted_wrt (\<lambda>a b. cmp a b \<le> 0) ys"
    and "xs \<noteq> []" "ys \<noteq> []" and le: "cmp (last xs) (hd ys) \<le> 0"
  shows "smerge cmp xs ys = xs @ ys"
proof (intro smerge_ordered ballI)
  fix a b assume ab: "a \<in> set xs" "b \<in> set ys"
  have "a = last xs \<or> cmp a (last xs) \<le> 0"
    using assms(2) ab(1) by (cases xs rule: rev_cases) (auto simp: sorted_wrt_append)
  then have "cmp a (hd ys) \<le> 0"
    using le comparator_trans [OF assms(1), of a "last xs" "hd ys"] ab assms(4,5) by auto
  moreover have "b = hd ys \<or> cmp (hd ys) b \<le> 0" using assms(3) ab(2) by (cases ys) auto
  ultimately show "cmp a b \<le> 0"
    using comparator_trans [OF assms(1), of a "hd ys" b] ab assms(5) by auto
qed

lemma SimpleMerge_correct:
  assumes "comparator cmp (set xs \<union> set ys)"
    and "sorted_wrt (\<lambda>a b. cmp a b \<le> 0) xs" "sorted_wrt (\<lambda>a b. cmp a b \<le> 0) ys"
    and "length xs + length ys \<le> length tmp"
  shows "\<exists>tmp'. CFSimpleMerge cmp (xs @ ys) (length xs) (length ys) tmp = Inr (smerge cmp xs ys, tmp') \<and>
     length tmp' = length tmp"
proof (cases "xs = [] \<or> ys = []")
  case True
  then show ?thesis by (auto simp: CFSimpleMerge_def)
next
  case False
  have loop: "\<exists>tmp'. simple_merge_loop cmp (xs @ ys) (length xs) (length ys) tmp 0 0 (length xs) =
      Inr (smerge cmp xs ys, tmp') \<and> length tmp' = length tmp"
    using simple_merge_loop_correct [of "xs @ ys" "length xs" "length ys" tmp 0 "length xs" 0 cmp] assms(4)
    by simp
  have ordered: "smerge cmp xs ys = xs @ ys" if "cmp (last xs) (hd ys) \<le> 0"
    using last_le_all [OF assms(1-3) _ _ that] False by simp
  have "(xs @ ys) ! (length xs - 1) = last xs" "(xs @ ys) ! length xs = hd ys"
    using False by (simp_all add: nth_append last_conv_nth hd_conv_nth)
  then show ?thesis
    using False loop ordered by (auto simp: CFSimpleMerge_def)
qed

text \<open>Two and three values are sorted by hand.\<close>

lemma stable_perm_swap_Cons:
  assumes "comparator cmp A" "a \<in> A" "b \<in> A" "0 < cmp a b"
  shows "stable_perm cmp A (a # b # xs) (b # a # xs)"
  using stable_perm_append [OF stable_perm_swap [OF assms], of xs xs] by simp

lemma stable_perm_Cons: "stable_perm cmp A xs ys \<Longrightarrow> stable_perm cmp A (x # xs) (x # ys)"
  using stable_perm_append [of cmp A "[x]" "[x]" xs ys] by simp

lemma sort_two:
  assumes "comparator cmp A" "a \<in> A" "b \<in> A"
  shows "\<exists>l tmp'. CFSimpleMergeSort cmp [a, b] 2 tmp = Inr (l, tmp') \<and> stable_perm cmp A [a, b] l \<and>
    sorted_wrt (\<lambda>a b. cmp a b \<le> 0) l \<and> length tmp' = length tmp"
proof (cases "0 < cmp a b")
  case True
  then show ?thesis
    using stable_perm_swap [OF assms] comparator_total [OF assms] by (simp add: CFSimpleMergeSort.simps)
next
  case False
  then show ?thesis by (simp add: CFSimpleMergeSort.simps)
qed

lemma sort_three:
  assumes cmp: "comparator cmp A" and A: "a \<in> A" "b \<in> A" "c \<in> A"
  shows "\<exists>l tmp'. CFSimpleMergeSort cmp [a, b, c] 3 tmp = Inr (l, tmp') \<and> stable_perm cmp A [a, b, c] l \<and>
    sorted_wrt (\<lambda>a b. cmp a b \<le> 0) l \<and> length tmp' = length tmp"
proof -
  define x y where "x = (if 0 < cmp a b then b else a)" and "y = (if 0 < cmp a b then a else b)"
  have xy: "x \<in> A" "y \<in> A" "cmp x y \<le> 0" "stable_perm cmp A [a, b, c] [x, y, c]"
    using A stable_perm_swap_Cons [OF cmp A(1,2), of "[c]"] comparator_total [OF cmp A(1,2)]
    by (auto simp: x_def y_def)
  have run: "CFSimpleMergeSort cmp [a, b, c] 3 tmp =
      Inr (if 0 < cmp y c then (if 0 < cmp x c then [c, x, y] else [x, c, y]) else [x, y, c], tmp)"
    by (simp add: CFSimpleMergeSort.simps Let_def x_def y_def numeral_2_eq_2)
  consider "\<not> 0 < cmp y c" | "0 < cmp y c" "\<not> 0 < cmp x c" | "0 < cmp y c" "0 < cmp x c" by blast
  then show ?thesis
  proof cases
    case 1
    then show ?thesis
      using run xy comparator_trans [OF cmp xy(1,2) A(3)] by auto
  next
    case 2
    then show ?thesis
      using run xy comparator_total [OF cmp xy(2) A(3)]
        stable_perm_trans [OF xy(4) stable_perm_Cons [OF stable_perm_swap [OF cmp xy(2) A(3)]]]
      by auto
  next
    case 3
    have "stable_perm cmp A [a, b, c] [c, x, y]"
      using stable_perm_trans [OF stable_perm_trans [OF xy(4) stable_perm_Cons [OF stable_perm_swap [OF cmp xy(2) A(3) 3(1)]]]
          stable_perm_swap_Cons [OF cmp xy(1) A(3) 3(2)]] .
    then show ?thesis
      using run xy 3 comparator_total [OF cmp xy(2) A(3)] comparator_total [OF cmp xy(1) A(3)] by auto
  qed
qed

lemma SimpleMergeSort_stable:
  assumes "length listp = cnt" "cnt \<le> length tmp" "set listp \<subseteq> A" "comparator cmp A"
  shows "\<exists>l tmp'. CFSimpleMergeSort cmp listp cnt tmp = Inr (l, tmp') \<and> stable_perm cmp A listp l \<and>
    sorted_wrt (\<lambda>a b. cmp a b \<le> 0) l \<and> length tmp' = length tmp"
  using assms(1-3)
proof (induction cnt arbitrary: listp tmp rule: less_induct)
  case (less cnt)
  note cmp = assms(4)
  consider (tiny) "cnt < 2" | (two) "cnt = 2" | (three) "cnt = 3" | (many) "4 \<le> cnt" by linarith
  then show ?case
  proof cases
    case tiny
    then have "sorted_wrt (\<lambda>a b. cmp a b \<le> 0) listp"
      using less.prems(1) by (cases listp) auto
    then show ?thesis using tiny by (simp add: CFSimpleMergeSort.simps)
  next
    case two
    then obtain a b where "listp = [a, b]" using less.prems(1) by (auto simp: numeral_2_eq_2 length_Suc_conv)
    then show ?thesis using sort_two [OF cmp, of a b tmp] less.prems(3) two by simp
  next
    case three
    then obtain a b c where "listp = [a, b, c]" using less.prems(1) by (auto simp: numeral_3_eq_3 length_Suc_conv)
    then show ?thesis using sort_three [OF cmp, of a b c tmp] less.prems(3) three by simp
  next
    case many
    define h where "h = cnt div 2"
    let ?A = "take h listp" and ?B = "drop h listp"
    have h: "h < cnt" "cnt - h < cnt" "h \<le> cnt" using many by (auto simp: h_def)
    have sets: "set ?A \<subseteq> A" "set ?B \<subseteq> A" using less.prems(3) by (auto dest: in_set_takeD in_set_dropD)
    obtain left tmp1 where left: "CFSimpleMergeSort cmp ?A h tmp = Inr (left, tmp1)"
        "stable_perm cmp A ?A left" "sorted_wrt (\<lambda>a b. cmp a b \<le> 0) left" "length tmp1 = length tmp"
      using less.IH [OF h(1), of ?A tmp] less.prems h sets(1) by auto
    obtain right tmp2 where right: "CFSimpleMergeSort cmp ?B (cnt - h) tmp1 = Inr (right, tmp2)"
        "stable_perm cmp A ?B right" "sorted_wrt (\<lambda>a b. cmp a b \<le> 0) right" "length tmp2 = length tmp1"
      using less.IH [OF h(2), of ?B tmp1] less.prems h left(4) sets(2) by auto
    have sub: "set left \<union> set right \<subseteq> A" "length left = h" "length right = cnt - h"
      using stable_perm_set [OF left(2)] stable_perm_set [OF right(2)] stable_perm_length [OF left(2)]
        stable_perm_length [OF right(2)] less.prems(1) h(3) sets
      by simp_all
    obtain tmp3 where merge: "CFSimpleMerge cmp (left @ right) h (cnt - h) tmp2 = Inr (smerge cmp left right, tmp3)"
        "length tmp3 = length tmp2"
      using SimpleMerge_correct [OF comparator_subset [OF cmp sub(1)] left(3) right(3), of tmp2]
        sub(2,3) less.prems left(4) right(4) h(3) by auto
    have "stable_perm cmp A (left @ right) (smerge cmp left right)"
      using smerge_stable [OF cmp sub(1) _ left(3)] by (simp add: stable_perm_def)
    with stable_perm_append [OF left(2) right(2)] have "stable_perm cmp A listp (smerge cmp left right)"
      by (simp add: stable_perm_trans)
    moreover have "CFSimpleMergeSort cmp listp cnt tmp = Inr (smerge cmp left right, tmp3)"
      using many left(1) right(1) merge(1) by (simp add: CFSimpleMergeSort.simps [of cmp listp] Let_def h_def)
    ultimately show ?thesis
      using smerge_sorted [OF comparator_subset [OF cmp sub(1)] left(3) right(3)] merge(2) left(4) right(4)
      by simp
  qed
qed

lemma SimpleMergeSort_correct:
  assumes "length listp = cnt" "cnt \<le> length tmp" "comparator cmp (set listp)"
  shows "\<exists>l tmp'. CFSimpleMergeSort cmp listp cnt tmp = Inr (l, tmp') \<and> stable_sorted cmp listp l \<and>
     length tmp' = length tmp"
  using SimpleMergeSort_stable [OF assms(1,2) order_refl assms(3)] by (auto simp: stable_sorted_iff)

section \<open>Index and array sorts\<close>

lemma fill_indexes_correct:
  "idx + n \<le> length buf \<Longrightarrow> fill_indexes buf idx n = Inr (take idx buf @ [idx..<idx + n] @ drop (idx + n) buf)"
proof (induction n arbitrary: buf idx)
  case (Suc n)
  have "take (idx + 1) (buf[idx := idx]) = take idx buf @ [idx]"
    using Suc.prems by (simp add: take_Suc_conv_app_nth)
  then show ?case using Suc by (simp add: upt_rec)
qed simp

lemma fill_chunks_correct:
  assumes "length buf = cnt" and "take (min (k * sz) cnt) buf = [0..<min (k * sz) cnt]"
  shows "\<exists>buf'. cf_for k n (\<lambda>n buf. let idx = n * sz; lim = min (idx + sz) cnt in fill_indexes buf idx (lim - idx)) buf =
     Inr buf' \<and> length buf' = cnt \<and> take (min ((k + n) * sz) cnt) buf' = [0..<min ((k + n) * sz) cnt]"
  using assms
proof (induction n arbitrary: k buf)
  case (Suc n)
  let ?lim = "min (k * sz + sz) cnt"
  obtain buf1 where buf1: "fill_indexes buf (k * sz) (?lim - k * sz) = Inr buf1" "length buf1 = cnt"
      "take ?lim buf1 = [0..<?lim]"
  proof (cases "k * sz \<le> cnt")
    case True
    let ?buf = "take (k * sz) buf @ [k * sz..<?lim] @ drop ?lim buf"
    have le: "k * sz \<le> ?lim" using True by simp
    have "fill_indexes buf (k * sz) (?lim - k * sz) = Inr ?buf"
      using fill_indexes_correct [of "k * sz" "?lim - k * sz" buf] Suc.prems(1) le by simp
    moreover have "take (k * sz) buf = [0..<k * sz]" using Suc.prems(2) True by (simp add: min_absorb1)
    ultimately have "fill_indexes buf (k * sz) (?lim - k * sz) = Inr ([0..<?lim] @ drop ?lim buf)"
      using upt_add_eq_append [of 0 "k * sz" "?lim - k * sz"] le by simp
    then show ?thesis using that [of "[0..<?lim] @ drop ?lim buf"] Suc.prems(1) by simp
  next
    case False
    then show ?thesis using that [of buf] Suc.prems by (simp add: min_absorb2)
  qed
  have "take (min ((k + 1) * sz) cnt) buf1 = [0..<min ((k + 1) * sz) cnt]"
    using buf1(3) by (simp add: add.commute)
  from Suc.IH [OF buf1(2) this] show ?case
    using buf1(1) by (simp add: Let_def add.commute)
qed simp

lemma init_indexes_correct:
  assumes "length buf = cnt"
  shows "init_indexes buf cnt = Inr [0..<cnt]"
proof (cases "cnt \<le> 65536")
  case True
  then show ?thesis
    using fill_indexes_correct [of 0 cnt buf] assms by (simp add: init_indexes_def)
next
  case False
  let ?sz = "(cnt + 15) div 16 * 16 div 8"
  have "?sz = (cnt + 15) div 16 * 2" by simp
  moreover have "cnt \<le> (cnt + 15) div 16 * 16" by linarith
  ultimately have "min (8 * ?sz) cnt = cnt" by linarith
  then show ?thesis
    using fill_chunks_correct [of buf cnt 0 ?sz 8] assms False by (auto simp: init_indexes_def Let_def)
qed

lemma gather_correct:
  "idx + n \<le> length indexes \<Longrightarrow> \<forall>i\<in>set indexes. i < length list \<Longrightarrow>
     gather list indexes idx n = Inr (map ((!) list) (take n (drop idx indexes)))"
proof (induction n arbitrary: idx)
  case (Suc n)
  then have "drop idx indexes = indexes ! idx # drop (Suc idx) indexes"
    by (simp add: Cons_nth_drop_Suc)
  then show ?case using Suc by (simp add: Suc_le_eq)
qed simp

lemma index_comparator:
  assumes "comparator cmp (set list)"
  shows "comparator (index_cmp cmp list) (set [0..<length list])"
proof -
  have "list ! i \<in> set list" if "i \<in> set [0..<length list]" for i using that by simp
  then show ?thesis
    using assms unfolding comparator_def index_cmp_def by blast
qed

lemma filter_map_nth:
  "filter P (map ((!) list) ixs) = map ((!) list) (filter (\<lambda>i. P (list ! i)) ixs)"
  by (simp add: filter_map comp_def)

text \<open>A stable sort of the indexes gathers to a stable sort of the values.\<close>

lemma gather_stable:
  assumes "stable_sorted (index_cmp cmp list) [0..<length list] ixs"
  shows "stable_sorted cmp list (map ((!) list) ixs)"
proof -
  have eq: "cmp_equiv (index_cmp cmp list) k = (\<lambda>i. cmp_equiv cmp (list ! k) (list ! i))" for k
    by (simp add: cmp_equiv_def index_cmp_def fun_eq_iff)
  have "filter (cmp_equiv cmp x) (map ((!) list) ixs) = filter (cmp_equiv cmp x) list" if x: "x \<in> set list" for x
  proof -
    obtain k where k: "k < length list" "x = list ! k" using x by (auto simp: in_set_conv_nth)
    then have "filter (\<lambda>i. cmp_equiv cmp x (list ! i)) ixs = filter (\<lambda>i. cmp_equiv cmp x (list ! i)) [0..<length list]"
      using assms by (simp add: stable_sorted_def eq)
    then have "filter (cmp_equiv cmp x) (map ((!) list) ixs) = filter (cmp_equiv cmp x) (map ((!) list) [0..<length list])"
      by (simp add: filter_map_nth)
    then show ?thesis by (simp add: map_nth)
  qed
  moreover have "mset (map ((!) list) ixs) = mset list"
    using assms by (metis map_nth mset_map stable_sorted_def)
  ultimately show ?thesis
    using assms by (simp add: stable_sorted_def sorted_wrt_map index_cmp_def)
qed


lemma SortIndexes_correct:
  assumes "length buf = cnt" and "comparator cmp (set [0..<cnt])" and "1 \<le> cnt" "cnt \<le> (2 ^ 63 - 1) div 8"
    and "sort_cores (se_ncores env) cnt opts = 0" and "cnt \<le> 4096 \<or> se_malloc env cnt"
  shows "\<exists>l. CFSortIndexes env buf cnt opts cmp = Inr l \<and> stable_sorted cmp [0..<cnt] l"
proof -
  let ?tmp = "map (se_junk env) [0..<cnt]"
  have "alloc_indexes env cnt = Some ?tmp" using assms(6) by (simp add: alloc_indexes_def)
  moreover obtain l tmp' where "CFSimpleMergeSort cmp [0..<cnt] cnt ?tmp = Inr (l, tmp')" "stable_sorted cmp [0..<cnt] l"
    using SimpleMergeSort_correct [of "[0..<cnt]" cnt ?tmp cmp] assms(2) by auto
  ultimately show ?thesis
    using init_indexes_correct [OF assms(1)] assms(3-5) by (simp add: CFSortIndexes_def)
qed

text \<open>The memory a sort of \<open>cnt\<close> values of the given size needs is granted.\<close>

definition sort_mem_ok :: "sort_env \<Rightarrow> nat \<Rightarrow> nat \<Rightarrow> bool" where
  "sort_mem_ok env cnt elementSize \<longleftrightarrow> cnt \<le> (2 ^ 63 - 1) div 8 \<and> (cnt \<le> 4096 \<or> se_malloc env cnt) \<and>
     (cnt \<le> 16 * 1024 div elementSize \<or> se_malloc env (cnt * elementSize))"

lemma sort_array_correct:
  assumes "comparator cmp (set list)" and "sort_mem_ok env (length list) elementSize" and "0 < elementSize"
    and "even opts"
  shows "\<exists>l. sort_array env opts list (length list) elementSize cmp = Inr l \<and> stable_sorted cmp list l"
proof (cases "length list < 2")
  case True
  then have "sorted_wrt (\<lambda>a b. cmp a b \<le> 0) list" by (cases list) auto
  then show ?thesis using True by (simp add: sort_array_def stable_sorted_def)
next
  case False
  let ?buf = "map (se_junk env) [0..<length list]"
  have buf: "alloc_indexes env (length list) = Some ?buf"
    using assms(2) by (simp add: alloc_indexes_def sort_mem_ok_def)
  have "sort_cores (se_ncores env) (length list) opts = 0" using assms(4) by (simp add: sort_cores_def)
  then obtain ixs where ixs: "CFSortIndexes env ?buf (length list) opts (index_cmp cmp list) = Inr ixs"
      "stable_sorted (index_cmp cmp list) [0..<length list] ixs"
    using SortIndexes_correct [of ?buf "length list" "index_cmp cmp list" env opts]
      index_comparator [OF assms(1)] assms(2) False by (auto simp: sort_mem_ok_def)
  have "set ixs = set [0..<length list]" "length ixs = length list"
    using ixs(2) stable_perm_set stable_perm_length unfolding stable_sorted_iff by fastforce+
  then have "gather list ixs 0 (length list) = Inr (map ((!) list) ixs)"
    using gather_correct [of 0 "length list" "ixs" list] by simp
  moreover have "copy_into list 0 (map ((!) list) ixs) = Inr (map ((!) list) ixs)"
    using \<open>length ixs = length list\<close> by (simp add: copy_into_def)
  ultimately show ?thesis
    using buf ixs gather_stable [OF ixs(2)] assms(2,3) False by (simp add: sort_array_def sort_mem_ok_def)
qed

section \<open>A stable sort is determined by its input\<close>

lemma stable_sorted_unique:
  assumes "comparator cmp (set ys)" and "mset ys = mset zs"
    and "sorted_wrt (\<lambda>a b. cmp a b \<le> 0) ys" "sorted_wrt (\<lambda>a b. cmp a b \<le> 0) zs"
    and "\<forall>k\<in>set ys. filter (cmp_equiv cmp k) ys = filter (cmp_equiv cmp k) zs"
  shows "ys = zs"
  using assms
proof (induction ys arbitrary: zs)
  case (Cons y ys)
  then obtain z zs' where zs: "zs = z # zs'" by (cases zs) auto
  have set: "set (y # ys) = set (z # zs')" using Cons.prems(2) zs by (metis set_mset_mset)
  have refl: "cmp y y \<le> 0" using Cons.prems(1) unfolding comparator_def by auto
  have "cmp y z \<le> 0" using Cons.prems(3) set refl by auto
  moreover have "cmp z y \<le> 0"
  proof -
    have "y = z \<or> y \<in> set zs'" using set by auto
    then show ?thesis using Cons.prems(4) zs refl by auto
  qed
  ultimately have "cmp_equiv cmp y z" "cmp_equiv cmp y y" using refl by (simp_all add: cmp_equiv_def)
  moreover have "filter (cmp_equiv cmp y) (y # ys) = filter (cmp_equiv cmp y) (z # zs')"
    using Cons.prems(5) zs by simp
  ultimately have yz: "y = z" by simp
  have "filter (cmp_equiv cmp k) ys = filter (cmp_equiv cmp k) zs'" if "k \<in> set ys" for k
  proof -
    have "filter (cmp_equiv cmp k) (y # ys) = filter (cmp_equiv cmp k) (z # zs')"
      using Cons.prems(5) zs that by simp
    then show ?thesis using yz by (simp split: if_splits)
  qed
  moreover have "comparator cmp (set ys)" using Cons.prems(1) by (rule comparator_subset) auto
  ultimately have "ys = zs'" using Cons.prems(2-4) zs yz by (intro Cons.IH) auto
  then show ?case using zs yz by simp
qed simp

lemma stable_sorted_same:
  assumes "comparator cmp (set xs)" "stable_sorted cmp xs ys" "stable_sorted cmp xs zs"
  shows "ys = zs"
proof (rule stable_sorted_unique)
  have set: "set ys = set xs" using assms(2) stable_perm_set unfolding stable_sorted_iff by blast
  show "comparator cmp (set ys)" using assms(1) set by simp
  show "mset ys = mset zs" "\<forall>k\<in>set ys. filter (cmp_equiv cmp k) ys = filter (cmp_equiv cmp k) zs"
    using assms(2,3) set by (simp_all add: stable_sorted_def)
  show "sorted_wrt (\<lambda>a b. cmp a b \<le> 0) ys" "sorted_wrt (\<lambda>a b. cmp a b \<le> 0) zs"
    using assms(2,3) by (simp_all add: stable_sorted_def)
qed

section \<open>The interface the other components sort through\<close>

text \<open>
  \<open>usable\<close> says for which lists the provider has the memory it needs.
\<close>

locale sorter =
  fixes sort_values :: "('v \<Rightarrow> 'v \<Rightarrow> int) \<Rightarrow> 'v list \<Rightarrow> 'v list cf"
    and usable :: "'v list \<Rightarrow> bool"
  assumes sorts: "usable xs \<Longrightarrow> comparator cmp (set xs) \<Longrightarrow>
    \<exists>ys. sort_values cmp xs = Inr ys \<and> stable_sorted cmp xs ys"
begin

lemma sort_length:
  assumes "usable xs" "comparator cmp (set xs)" "sort_values cmp xs = Inr ys"
  shows "length ys = length xs" and "set ys = set xs" and "mset ys = mset xs"
  using sorts [OF assms(1,2)] assms(3) stable_perm_set stable_perm_length
  by (auto simp: stable_sorted_iff stable_perm_def dest: mset_eq_length mset_eq_setD)

lemma sort_result:
  assumes "usable xs" "comparator cmp (set xs)" "stable_sorted cmp xs ys"
  shows "sort_values cmp xs = Inr ys"
proof -
  obtain zs where zs: "sort_values cmp xs = Inr zs" "stable_sorted cmp xs zs"
    using sorts [OF assms(1,2)] by blast
  then show ?thesis using stable_sorted_same [OF assms(2,3)] by simp
qed

lemma sort_sorted:
  assumes "usable xs" "comparator cmp (set xs)" "sorted_wrt (\<lambda>a b. cmp a b \<le> 0) xs"
  shows "sort_values cmp xs = Inr xs"
  using assms by (intro sort_result) (simp_all add: stable_sorted_def)

end

interpretation q_sort: sorter "\<lambda>cmp xs. CFQSortArray env xs (length xs) n cmp"
    "\<lambda>xs. 0 < n \<and> sort_mem_ok env (length xs) n" for env n
  by unfold_locales (simp add: CFQSortArray_def sort_array_correct)

interpretation merge_sort: sorter "\<lambda>cmp xs. CFMergeSortArray env xs (length xs) n cmp"
    "\<lambda>xs. 0 < n \<and> sort_mem_ok env (length xs) n" for env n
  by unfold_locales (simp add: CFMergeSortArray_def kCFSortStable_def sort_array_correct)

text \<open>
  C1. With a comparator that is a total preorder on the values and with its memory granted,
  \<open>CFMergeSortArray\<close> and \<open>CFQSortArray\<close> both return the same list: a rearrangement of the input that is
  in order and keeps equivalent values in their original order.
\<close>

theorem array_sorts_stable:
  assumes "comparator cmp (set xs)" and "sort_mem_ok env (length xs) elementSize" and "0 < elementSize"
  shows "\<exists>ys. CFMergeSortArray env xs (length xs) elementSize cmp = Inr ys \<and>
    CFQSortArray env xs (length xs) elementSize cmp = Inr ys \<and>
    mset ys = mset xs \<and> sorted_wrt (\<lambda>a b. cmp a b \<le> 0) ys \<and>
    (\<forall>k\<in>set xs. filter (cmp_equiv cmp k) ys = filter (cmp_equiv cmp k) xs)"
proof -
  obtain ys where ys: "CFMergeSortArray env xs (length xs) elementSize cmp = Inr ys" "stable_sorted cmp xs ys"
    using merge_sort.sorts [of elementSize env xs cmp] assms by auto
  then show ?thesis
    using q_sort.sort_result [of elementSize env xs cmp ys] assms by (auto simp: stable_sorted_def)
qed

definition granted_sort_env :: sort_env where
  "granted_sort_env = \<lparr>se_ncores = 4, se_malloc = (\<lambda>n. True), se_junk = (\<lambda>i. 0)\<rparr>"

theorem array_sorts_stable_witness:
  "\<exists>ys. CFMergeSortArray granted_sort_env [31, 12, 30, 11 :: int] 4 8 (\<lambda>a b. a div 10 - b div 10) = Inr ys \<and>
     mset ys = mset [31, 12, 30, 11] \<and> sorted_wrt (\<lambda>a b. a div 10 - b div 10 \<le> 0) ys"
proof -
  have "length [31, 12, 30, 11 :: int] = 4" by simp
  moreover have "comparator (\<lambda>a b. a div 10 - b div 10) (set [31, 12, 30, 11 :: int])"
    by (auto simp: comparator_def)
  moreover have "sort_mem_ok granted_sort_env 4 8" by (simp add: sort_mem_ok_def)
  ultimately show ?thesis
    using array_sorts_stable [of "\<lambda>a b. a div 10 - b div 10" "[31, 12, 30, 11 :: int]" granted_sort_env 8]
    by (metis zero_less_numeral)
qed

section \<open>The halves of a concurrent merge\<close>

lemma nmerge_left_correct:
  "k \<le> length xs + length ys \<Longrightarrow> nmerge_left cmp xs ys k = Inr (take k (smerge cmp xs ys))"
proof (induction cmp xs ys k rule: nmerge_left.induct)
  case (2 cmp xs k)
  then show ?case by (cases xs) auto
qed auto

text \<open>Merging from the right end: the last value of the merge is the one the right-hand loop picks.\<close>

lemma smerge_snoc:
  assumes "comparator cmp (set (xs @ [x]) \<union> set (ys @ [y]))"
    and "sorted_wrt (\<lambda>a b. cmp a b \<le> 0) (xs @ [x])" "sorted_wrt (\<lambda>a b. cmp a b \<le> 0) (ys @ [y])"
  shows "smerge cmp (xs @ [x]) (ys @ [y]) =
    (if cmp x y \<le> 0 then smerge cmp (xs @ [x]) ys @ [y] else smerge cmp xs (ys @ [y]) @ [x])"
proof -
  let ?A = "set (xs @ [x]) \<union> set (ys @ [y])"
  note cmp = assms(1)
  let ?L = "smerge cmp (xs @ [x]) (ys @ [y])"
  have L: "sorted_wrt (\<lambda>a b. cmp a b \<le> 0) ?L" using smerge_sorted [OF assms] .
  have filt: "filter (cmp_equiv cmp k) ?L = filter (cmp_equiv cmp k) ((xs @ [x]) @ ys @ [y])" if "k \<in> ?A" for k
    using smerge_stable [OF cmp order_refl that assms(2)] .
  show ?thesis
  proof (cases "cmp x y \<le> 0")
    case True
    have "comparator cmp (set (xs @ [x]) \<union> set ys)" using cmp by (rule comparator_subset) auto
    then have s: "sorted_wrt (\<lambda>a b. cmp a b \<le> 0) (smerge cmp (xs @ [x]) ys)"
      using assms(2,3) by (intro smerge_sorted) (auto simp: sorted_wrt_append)
    have "cmp a x \<le> 0" if "a \<in> set (xs @ [x])" for a
      using assms(2) that comparator_refl [OF cmp, of x] by (auto simp: sorted_wrt_append)
    then have "cmp a y \<le> 0" if "a \<in> set (xs @ [x])" for a
      using that comparator_trans [OF cmp, of a x y] True by auto
    then have R: "sorted_wrt (\<lambda>a b. cmp a b \<le> 0) (smerge cmp (xs @ [x]) ys @ [y])"
      using s assms(3) by (auto simp: sorted_wrt_append)
    have "filter (cmp_equiv cmp k) (smerge cmp (xs @ [x]) ys) = filter (cmp_equiv cmp k) ((xs @ [x]) @ ys)" if "k \<in> ?A" for k
      using that by (intro smerge_stable [OF cmp _ _ assms(2)]) auto
    then have "?L = smerge cmp (xs @ [x]) ys @ [y]"
      using cmp L R filt by (intro stable_sorted_unique [of cmp]) (auto simp: Un_commute)
    then show ?thesis using True by simp
  next
    case False
    have "comparator cmp (set xs \<union> set (ys @ [y]))" using cmp by (rule comparator_subset) auto
    then have s: "sorted_wrt (\<lambda>a b. cmp a b \<le> 0) (smerge cmp xs (ys @ [y]))"
      using assms(2,3) by (intro smerge_sorted) (auto simp: sorted_wrt_append)
    have yx: "cmp y x \<le> 0" using comparator_total [OF cmp, of x y] False by simp
    have by_y: "cmp b y \<le> 0" if "b \<in> set (ys @ [y])" for b
      using assms(3) that comparator_refl [OF cmp, of y] by (auto simp: sorted_wrt_append)
    then have "cmp b x \<le> 0" if "b \<in> set (ys @ [y])" for b
      using that comparator_trans [OF cmp, of b y x] yx by auto
    then have R: "sorted_wrt (\<lambda>a b. cmp a b \<le> 0) (smerge cmp xs (ys @ [y]) @ [x])"
      using s assms(2) by (auto simp: sorted_wrt_append)
    have xs: "sorted_wrt (\<lambda>a b. cmp a b \<le> 0) xs" using assms(2) by (simp add: sorted_wrt_append)
    have part: "filter (cmp_equiv cmp k) (smerge cmp xs (ys @ [y])) = filter (cmp_equiv cmp k) (xs @ ys @ [y])" if "k \<in> ?A" for k
      using that by (intro smerge_stable [OF cmp _ _ xs]) auto
    have none: "filter (cmp_equiv cmp k) (ys @ [y]) = []" if k: "k \<in> ?A" "cmp_equiv cmp k x" for k
    proof -
      have "\<not> cmp_equiv cmp k b" if b: "b \<in> set (ys @ [y])" for b
      proof
        assume "cmp_equiv cmp k b"
        then have "cmp x b \<le> 0" using comparator_trans [OF cmp, of x k b] k b by (auto simp: cmp_equiv_def)
        then have "cmp x y \<le> 0" using comparator_trans [OF cmp, of x b y] by_y [OF b] b by auto
        then show False using False by simp
      qed
      then show ?thesis by (auto simp: filter_empty_conv)
    qed
    have "filter (cmp_equiv cmp k) (smerge cmp xs (ys @ [y]) @ [x]) = filter (cmp_equiv cmp k) ?L" if "k \<in> ?A" for k
      unfolding filt [OF that] using part [OF that] none [OF that] by (cases "cmp_equiv cmp k x") auto
    then have "?L = smerge cmp xs (ys @ [y]) @ [x]"
      using cmp L R by (intro stable_sorted_unique [of cmp]) (auto simp: Un_commute)
    then show ?thesis using False by simp
  qed
qed

lemma nmerge_right_correct:
  assumes "comparator cmp (set xs \<union> set ys)"
    and "sorted_wrt (\<lambda>a b. cmp a b \<le> 0) xs" "sorted_wrt (\<lambda>a b. cmp a b \<le> 0) ys"
    and "n1 \<le> length xs" "n2 \<le> length ys" "k \<le> n1" "k \<le> n2"
  shows "nmerge_right cmp xs ys n1 n2 k = Inr (drop (n1 + n2 - k) (smerge cmp (take n1 xs) (take n2 ys)))"
  using assms(4-)
proof (induction k arbitrary: n1 n2)
  case (Suc k)
  let ?x = "xs ! (n1 - 1)" and ?y = "ys ! (n2 - 1)"
  have n: "take n1 xs = take (n1 - 1) xs @ [?x]" "take n2 ys = take (n2 - 1) ys @ [?y]"
    using Suc.prems take_Suc_conv_app_nth [of "n1 - 1" xs] take_Suc_conv_app_nth [of "n2 - 1" ys] by simp_all
  have sub: "set (take (n1 - 1) xs @ [?x]) \<union> set (take (n2 - 1) ys @ [?y]) \<subseteq> set xs \<union> set ys"
    unfolding n [symmetric] by (auto dest: in_set_takeD)
  have sorted: "sorted_wrt (\<lambda>a b. cmp a b \<le> 0) (take (n1 - 1) xs @ [?x])"
    "sorted_wrt (\<lambda>a b. cmp a b \<le> 0) (take (n2 - 1) ys @ [?y])"
    unfolding n [symmetric] using assms(2,3) by (simp_all add: sorted_wrt_take)
  note snoc = smerge_snoc [OF comparator_subset [OF assms(1) sub] sorted]
  show ?case
  proof (cases "cmp ?x ?y \<le> 0")
    case True
    have "nmerge_right cmp xs ys n1 (n2 - 1) k =
        Inr (drop (n1 + (n2 - 1) - k) (smerge cmp (take n1 xs) (take (n2 - 1) ys)))"
      using Suc.prems by (intro Suc.IH) simp_all
    moreover have "smerge cmp (take n1 xs) (take n2 ys) = smerge cmp (take n1 xs) (take (n2 - 1) ys) @ [?y]"
      using snoc True by (simp add: n)
    ultimately show ?thesis using Suc.prems True by simp
  next
    case False
    have "nmerge_right cmp xs ys (n1 - 1) n2 k =
        Inr (drop (n1 - 1 + n2 - k) (smerge cmp (take (n1 - 1) xs) (take n2 ys)))"
      using Suc.prems by (intro Suc.IH) simp_all
    moreover have "smerge cmp (take n1 xs) (take n2 ys) = smerge cmp (take (n1 - 1) xs) (take n2 ys) @ [?x]"
      using snoc False by (simp add: n)
    ultimately show ?thesis using Suc.prems False by simp
  qed
qed simp

text \<open>
  The two calls of \<open>__CFSortIndexesNMerge\<close> for a pair of neighbouring sorted sections, the right one
  at most as long as the left one, deliver the two halves of the one stable merge of both: the \<open>cnt1\<close>
  first values and the \<open>cnt2\<close> last ones. No call reads outside the sections, so the branches of the
  right-hand loop for an exhausted list, which read one cell too low, are never taken.
\<close>

theorem nmerge_halves:
  assumes "comparator cmp (set xs \<union> set ys)"
    and "sorted_wrt (\<lambda>a b. cmp a b \<le> 0) xs" "sorted_wrt (\<lambda>a b. cmp a b \<le> 0) ys"
    and "ys \<noteq> []" "length ys \<le> length xs"
  shows "\<exists>left right. CFSortIndexesNMerge cmp xs (length xs) ys (length ys) False = Inr left \<and>
    CFSortIndexesNMerge cmp xs (length xs) ys (length ys) True = Inr right \<and>
    length left = length xs \<and> length right = length ys \<and> stable_sorted cmp (xs @ ys) (left @ right)"
proof -
  let ?m = "smerge cmp xs ys"
  have xs: "xs \<noteq> []" using assms(4,5) by auto
  have stable: "stable_sorted cmp (xs @ ys) ?m"
    using smerge_sorted [OF assms(1-3)] smerge_stable [OF assms(1) order_refl _ assms(2)]
    by (simp add: stable_sorted_def)
  have "nmerge_left cmp xs ys (length xs) = Inr (take (length xs) ?m)"
    by (simp add: nmerge_left_correct)
  moreover have "nmerge_right cmp xs ys (length xs) (length ys) (length ys) = Inr (drop (length xs) ?m)"
    using nmerge_right_correct [OF assms(1-3), of "length xs" "length ys" "length ys"] assms(5) by simp
  moreover have "xs ! (length xs - 1) = last xs" "ys ! 0 = hd ys"
    using xs assms(4) by (simp_all add: last_conv_nth hd_conv_nth)
  moreover have "?m = xs @ ys" if "cmp (last xs) (hd ys) \<le> 0"
    using last_le_all [OF assms(1-3) xs assms(4) that] .
  ultimately have
    "CFSortIndexesNMerge cmp xs (length xs) ys (length ys) False = Inr (take (length xs) ?m)"
    "CFSortIndexesNMerge cmp xs (length xs) ys (length ys) True = Inr (drop (length xs) ?m)"
    using xs assms(4) by (auto simp: CFSortIndexesNMerge_def slice_def Let_def)
  then show ?thesis using stable by auto
qed

theorem nmerge_halves_witness:
  "\<exists>left right. CFSortIndexesNMerge (-) [1, 5, 9 :: int] 3 [2, 4] 2 False = Inr left \<and>
    CFSortIndexesNMerge (-) [1, 5, 9] 3 [2, 4] 2 True = Inr right \<and>
    stable_sorted (-) [1, 5, 9, 2, 4] (left @ right)"
proof -
  have "length [1, 5, 9 :: int] = 3" "length [2, 4 :: int] = 2" by simp_all
  moreover have "comparator (-) (set [1, 5, 9 :: int] \<union> set [2, 4])" by (auto simp: comparator_def)
  moreover have "sorted_wrt (\<lambda>a b. a - b \<le> (0 :: int)) [1, 5, 9]" "sorted_wrt (\<lambda>a b. a - b \<le> (0 :: int)) [2, 4]"
    by simp_all
  moreover have "[2, 4 :: int] \<noteq> []" "(2 :: nat) \<le> 3" "[1, 5, 9] @ [2, 4] = [1, 5, 9, 2, 4 :: int]" by simp_all
  ultimately obtain left right where
    "CFSortIndexesNMerge (-) [1, 5, 9 :: int] 3 [2, 4] 2 False = Inr left"
    "CFSortIndexesNMerge (-) [1, 5, 9 :: int] 3 [2, 4] 2 True = Inr right"
    "stable_sorted (-) [1, 5, 9, 2, 4 :: int] (left @ right)"
    using nmerge_halves [of "(-)" "[1, 5, 9 :: int]" "[2, 4]"] by metis
  then show ?thesis by blast
qed

end
