(* ===== verification/CF_Array.thy ===== *)
theory CF_Array
  imports CF_Sort
begin

text \<open>
  \<open>CFArray.c\<close>: immutable arrays, whose buckets follow the header, and mutable arrays, whose buckets lie
  in a double-ended store with free room on both sides. The operations that run client callbacks
  return, beside the new array, the retain and release calls they made, in order. The callbacks, the
  allocator and object creation are the \<open>env\<close> argument; the dispatch to Objective-C subclasses and the
  garbage-collected variants are not modelled, and \<open>CFAssert\<close> has no effect (release build).
\<close>

section \<open>State\<close>

record CFArrayCallBacks =
  acb_retain :: ptr
  acb_release :: ptr
  acb_copyDescription :: ptr
  acb_equal :: ptr

definition kCFNullArrayCallBacks :: CFArrayCallBacks where
  "kCFNullArrayCallBacks = \<lparr>acb_retain = NULL, acb_release = NULL, acb_copyDescription = NULL, acb_equal = NULL\<rparr>"

record CFArrayDeque =
  dq_leftIdx :: nat
  dq_capacity :: nat
  dq_buckets :: "ptr list"

datatype CFArrayType = ArrayImmutable | ArrayDeque

record CFArray =
  ar_type :: CFArrayType
  ar_count :: nat
  ar_mutations :: nat
  ar_callbacks :: CFArrayCallBacks
  ar_inline :: "ptr list"
  ar_store :: "CFArrayDeque option"

record array_env =
  ae_create :: bool
  ae_alloc :: "nat \<Rightarrow> (nat \<Rightarrow> ptr) option"
  ae_retain :: "ptr \<Rightarrow> ptr \<Rightarrow> ptr"
  ae_equal :: "ptr \<Rightarrow> ptr \<Rightarrow> ptr \<Rightarrow> bool"

definition CFArrayDequeRoundUpCapacity :: "nat \<Rightarrow> nat cf" where
  "CFArrayDequeRoundUpCapacity capacity =
     (if capacity < 4 then Inr 4
      else ebind (int_shift_1 (flsl capacity)) (\<lambda>n. Inr (min n (2 ^ 63 - 1))))"

section \<open>Buckets\<close>

text \<open>\<open>__CFArrayGetBucketAtIndex\<close> gives an address; here are the read and the write through it.\<close>

definition CFArrayGetBucket :: "CFArray \<Rightarrow> nat \<Rightarrow> ptr cf" where
  "CFArrayGetBucket array idx =
     (case ar_type array of
        ArrayImmutable \<Rightarrow> rd (ar_inline array) idx
      | ArrayDeque \<Rightarrow>
          (case ar_store array of
             None \<Rightarrow> Inl NullPointer
           | Some deque \<Rightarrow> rd (dq_buckets deque) (dq_leftIdx deque + idx)))"

definition CFArraySetBucket :: "CFArray \<Rightarrow> nat \<Rightarrow> ptr \<Rightarrow> CFArray cf" where
  "CFArraySetBucket array idx v =
     (case ar_type array of
        ArrayImmutable \<Rightarrow> ebind (wr (ar_inline array) idx v) (\<lambda>bs. Inr (array\<lparr>ar_inline := bs\<rparr>))
      | ArrayDeque \<Rightarrow>
          (case ar_store array of
             None \<Rightarrow> Inl NullPointer
           | Some deque \<Rightarrow>
               ebind (wr (dq_buckets deque) (dq_leftIdx deque + idx) v) (\<lambda>bs.
               Inr (array\<lparr>ar_store := Some (deque\<lparr>dq_buckets := bs\<rparr>)\<rparr>))))"

definition array_retain :: "array_env \<Rightarrow> CFArrayCallBacks \<Rightarrow> ptr \<Rightarrow> ptr" where
  "array_retain env cb v = (if acb_retain cb = NULL then v else ae_retain env (acb_retain cb) v)"

definition array_retain_event :: "CFArrayCallBacks \<Rightarrow> ptr \<Rightarrow> ref_event list" where
  "array_retain_event cb v = (if acb_retain cb = NULL then [] else [Retained v])"

definition array_release_event :: "CFArrayCallBacks \<Rightarrow> ptr \<Rightarrow> ref_event list" where
  "array_release_event cb v = (if acb_release cb = NULL then [] else [Released v])"

text \<open>The loop of \<open>__CFArrayReleaseValues\<close>: release the value, clear the bucket.\<close>

fun array_release_loop :: "CFArray \<Rightarrow> nat \<Rightarrow> nat \<Rightarrow> nat \<Rightarrow> (CFArray \<times> ref_event list) cf" where
  "array_release_loop array loc idx 0 = Inr (array, [])"
| "array_release_loop array loc idx (Suc n) =
     ebind (CFArrayGetBucket array (idx + loc)) (\<lambda>v.
     ebind (CFArraySetBucket array (idx + loc) NULL) (\<lambda>array.
     ebind (array_release_loop array loc (idx + 1) n) (\<lambda>(array', evs).
     Inr (array', array_release_event (ar_callbacks array) v @ evs))))"

definition CFArrayReleaseValues :: "CFArray \<Rightarrow> nat \<Rightarrow> nat \<Rightarrow> bool \<Rightarrow> (CFArray \<times> ref_event list) cf" where
  "CFArrayReleaseValues array loc len releaseStorageIfPossible =
     (case ar_type array of
        ArrayImmutable \<Rightarrow>
          (if acb_release (ar_callbacks array) \<noteq> NULL \<and> 0 < len then array_release_loop array loc 0 len
           else Inr (array, []))
      | ArrayDeque \<Rightarrow>
          ebind (if 0 < len \<and> ar_store array \<noteq> None then array_release_loop array loc 0 len
                 else Inr (array, [])) (\<lambda>(array, evs).
          if releaseStorageIfPossible \<and> loc = 0 \<and> ar_count array = len
          then Inr (array\<lparr>ar_count := 0, ar_store := None\<rparr>, evs)
          else Inr (array, evs)))"

section \<open>The deque\<close>

text \<open>\<open>memmove(dst + d, src + s, n)\<close> between two blocks, done only when there is something to move\<close>

definition move_if :: "'a list \<Rightarrow> nat \<Rightarrow> 'a list \<Rightarrow> nat \<Rightarrow> nat \<Rightarrow> 'a list cf" where
  "move_if dst d src s n = (if 0 < n then ebind (slice src s n) (copy_into dst d) else Inr dst)"

text \<open>The zeroing of newly exposed room.\<close>

definition zero_if :: "ptr list \<Rightarrow> nat \<Rightarrow> nat \<Rightarrow> ptr list cf" where
  "zero_if bs i n = (if 0 < n then fill bs i n NULL else Inr bs)"

definition CFArrayRepositionDequeRegions :: "array_env \<Rightarrow> CFArray \<Rightarrow> nat \<Rightarrow> nat \<Rightarrow> nat \<Rightarrow> CFArray cf" where
  "CFArrayRepositionDequeRegions env array A B newCount =
     (case ar_store array of
        None \<Rightarrow> Inl NullPointer
      | Some deque \<Rightarrow>
         let buckets = dq_buckets deque;
             cnt = ar_count array;
             futureCnt = cnt - B + newCount;
             L = dq_leftIdx deque;
             C = cnt - B - A;
             R = int (dq_capacity deque) - int cnt - int L;
             numNewElems = int newCount - int B;
             wiggle = max 4 (dq_capacity deque div 2 ^ 17);
             put = (\<lambda>newL bs. array\<lparr>ar_store := Some (deque\<lparr>dq_leftIdx := newL, dq_buckets := bs\<rparr>)\<rparr>)
         in
         if dq_capacity deque < futureCnt mod 2 ^ 32 \<or> (cnt < futureCnt \<and> int L + R < int wiggle) then
           ebind (CFArrayDequeRoundUpCapacity (futureCnt + wiggle)) (\<lambda>capacity.
           case ae_alloc env capacity of
             None \<Rightarrow> Inl NullPointer
           | Some junk \<Rightarrow>
              let newBuckets = map junk [0..<capacity];
                  newL = (capacity - futureCnt) div 2;
                  oldC0 = L + A + B;
                  newC0 = newL + A + newCount
              in ebind (move_if newBuckets newL buckets L A) (\<lambda>newBuckets.
                 ebind (move_if newBuckets newC0 buckets oldC0 C) (\<lambda>newBuckets.
                 Inr (array\<lparr>ar_store := Some \<lparr>dq_leftIdx = newL, dq_capacity = capacity, dq_buckets = newBuckets\<rparr>\<rparr>))))
         else if (numNewElems < 0 \<and> C < A) \<or> (numNewElems \<le> R \<and> C < A) then
           (let oldC0 = L + A + B;
                newC0 = L + A + newCount
            in ebind (move_if buckets newC0 buckets oldC0 C) (\<lambda>buckets.
               ebind (zero_if buckets (newC0 + C) (oldC0 - newC0)) (\<lambda>buckets.
               Inr (put L buckets))))
         else if numNewElems < 0 \<or> (numNewElems \<le> int L \<and> A \<le> C) then
           (let newL = nat (int L - numNewElems)
            in ebind (move_if buckets newL buckets L A) (\<lambda>buckets.
               ebind (zero_if buckets L (newL - L)) (\<lambda>buckets.
               Inr (put newL buckets))))
         else
           (let newL = nat ((int L + R - numNewElems) div 2);
                newL = newL - newL div 2;
                oldC0 = L + A + B;
                newC0 = newL + A + newCount
            in if newL < L then
                 ebind (move_if buckets newL buckets L A) (\<lambda>buckets.
                 ebind (move_if buckets newC0 buckets oldC0 C) (\<lambda>buckets.
                 ebind (zero_if buckets (newC0 + C) (oldC0 - newC0)) (\<lambda>buckets.
                 Inr (put newL buckets))))
               else
                 ebind (move_if buckets newC0 buckets oldC0 C) (\<lambda>buckets.
                 ebind (move_if buckets newL buckets L A) (\<lambda>buckets.
                 ebind (zero_if buckets L (newL - L)) (\<lambda>buckets.
                 Inr (put newL buckets))))))"

text \<open>
  \<open>_CFArraySetCapacity\<close>: the old store is copied into the new one whole, whatever the new capacity is.
  The block holds the header as well; the model counts bucket cells.
\<close>

definition CFArraySetCapacity :: "array_env \<Rightarrow> CFArray \<Rightarrow> nat \<Rightarrow> CFArray cf" where
  "CFArraySetCapacity env array cap =
     (case ar_type array of
        ArrayImmutable \<Rightarrow> Inr array
      | ArrayDeque \<Rightarrow>
          ebind (CFArrayDequeRoundUpCapacity cap) (\<lambda>capacity.
          case ae_alloc env capacity of
            None \<Rightarrow> Inl Halt
          | Some junk \<Rightarrow>
              (case ar_store array of
                 None \<Rightarrow>
                   Inr (array\<lparr>ar_store := Some \<lparr>dq_leftIdx = capacity div 2, dq_capacity = capacity,
                     dq_buckets = map junk [0..<capacity]\<rparr>\<rparr>)
               | Some olddeque \<Rightarrow>
                   ebind (slice (dq_buckets olddeque) 0 (dq_capacity olddeque)) (\<lambda>cells.
                   ebind (copy_into (map junk [0..<capacity]) 0 cells) (\<lambda>buckets.
                   Inr (array\<lparr>ar_store := Some \<lparr>dq_leftIdx = dq_leftIdx olddeque, dq_capacity = capacity,
                     dq_buckets = buckets\<rparr>\<rparr>))))))"

section \<open>Replacing a range\<close>

text \<open>The new values, retained in order; a temporary buffer is needed for more than 256.\<close>

fun retain_values :: "array_env \<Rightarrow> CFArrayCallBacks \<Rightarrow> ptr list \<Rightarrow> nat \<Rightarrow> nat \<Rightarrow> (ptr list \<times> ref_event list) cf" where
  "retain_values env cb newValues idx 0 = Inr ([], [])"
| "retain_values env cb newValues idx (Suc n) =
     ebind (rd newValues idx) (\<lambda>v.
     ebind (retain_values env cb newValues (idx + 1) n) (\<lambda>(vs, evs).
     Inr (array_retain env cb v # vs, array_retain_event cb v @ evs)))"

definition CFArrayReplaceValues ::
  "array_env \<Rightarrow> CFArray \<Rightarrow> nat \<Rightarrow> nat \<Rightarrow> ptr list \<Rightarrow> nat \<Rightarrow> (CFArray \<times> ref_event list) cf" where
  "CFArrayReplaceValues env array loc len newValues newCount =
     (let cnt = ar_count array;
          futureCnt = cnt - len + newCount;
          cb = ar_callbacks array
      in
      ebind (if acb_retain cb \<noteq> NULL then
               (if 256 < newCount \<and> ae_alloc env newCount = None then Inl NullPointer
                else retain_values env cb newValues 0 newCount)
             else ebind (slice newValues 0 newCount) (\<lambda>newv. Inr (newv, []))) (\<lambda>(newv, evs1).
      let array = array\<lparr>ar_mutations := ar_mutations array + 1\<rparr> in
      ebind (if 0 < len then CFArrayReleaseValues array loc len False else Inr (array, [])) (\<lambda>(array, evs2).
      ebind (case ar_store array of
               None \<Rightarrow>
                 ebind (CFArrayDequeRoundUpCapacity futureCnt) (\<lambda>capacity.
                 case ae_alloc env capacity of
                   None \<Rightarrow> Inl NullPointer
                 | Some junk \<Rightarrow>
                     Inr (array\<lparr>ar_store := Some \<lparr>dq_leftIdx = (capacity - newCount) div 2, dq_capacity = capacity,
                       dq_buckets = map junk [0..<capacity]\<rparr>\<rparr>))
             | Some deque \<Rightarrow>
                 if len \<noteq> newCount then CFArrayRepositionDequeRegions env array loc len newCount
                 else Inr array) (\<lambda>array.
      ebind (if 0 < newCount then
               (case ar_store array of
                  None \<Rightarrow> Inl NullPointer
                | Some deque \<Rightarrow>
                    ebind (copy_into (dq_buckets deque) (dq_leftIdx deque + loc) newv) (\<lambda>bs.
                    Inr (array\<lparr>ar_store := Some (deque\<lparr>dq_buckets := bs\<rparr>)\<rparr>)))
             else Inr array) (\<lambda>array.
      Inr (array\<lparr>ar_count := futureCnt\<rparr>, evs1 @ evs2))))))"

section \<open>Creation\<close>

text \<open>\<open>None\<close> as the callbacks is the null pointer, which stands for the null callbacks.\<close>

definition CFArrayInit ::
  "array_env \<Rightarrow> CFArrayType \<Rightarrow> nat \<Rightarrow> CFArrayCallBacks option \<Rightarrow> (nat \<Rightarrow> ptr) \<Rightarrow> CFArray option" where
  "CFArrayInit env type capacity callBacks junk =
     (if ae_create env then
        Some \<lparr>ar_type = type, ar_count = 0, ar_mutations = (if type = ArrayDeque then 1 else 0),
          ar_callbacks = (case callBacks of None \<Rightarrow> kCFNullArrayCallBacks | Some cb \<Rightarrow> cb),
          ar_inline = (if type = ArrayImmutable then map junk [0..<capacity] else []), ar_store = None\<rparr>
      else None)"

text \<open>The copy loops of the immutable creators, cell by cell from the front.\<close>

fun array_fill_loop ::
  "array_env \<Rightarrow> CFArray \<Rightarrow> (nat \<Rightarrow> ptr cf) \<Rightarrow> nat \<Rightarrow> nat \<Rightarrow> (CFArray \<times> ref_event list) cf" where
  "array_fill_loop env result source idx 0 = Inr (result, [])"
| "array_fill_loop env result source idx (Suc n) =
     ebind (source idx) (\<lambda>v.
     ebind (CFArraySetBucket result idx (array_retain env (ar_callbacks result) v)) (\<lambda>result.
     ebind (array_fill_loop env result source (idx + 1) n) (\<lambda>(result', evs).
     Inr (result', array_retain_event (ar_callbacks result) v @ evs))))"

definition CFArrayCreate ::
  "array_env \<Rightarrow> ptr list \<Rightarrow> nat \<Rightarrow> CFArrayCallBacks option \<Rightarrow> (nat \<Rightarrow> ptr) \<Rightarrow> (CFArray \<times> ref_event list) cf" where
  "CFArrayCreate env values numValues callBacks junk =
     (case CFArrayInit env ArrayImmutable numValues callBacks junk of
        None \<Rightarrow> Inl NullPointer
      | Some result \<Rightarrow>
          ebind (array_fill_loop env result (rd values) 0 numValues) (\<lambda>(result, evs).
          Inr (result\<lparr>ar_count := numValues\<rparr>, evs)))"

definition CFArrayCreateMutable :: "array_env \<Rightarrow> nat \<Rightarrow> CFArrayCallBacks option \<Rightarrow> CFArray option" where
  "CFArrayCreateMutable env capacity callBacks = CFArrayInit env ArrayDeque capacity callBacks (\<lambda>i. NULL)"

text \<open>\<open>__CFArrayCreateTransfer\<close> takes the values without retaining them; \<open>types\<close> are the CFType callbacks.\<close>

definition CFArrayCreateTransfer ::
  "array_env \<Rightarrow> CFArrayCallBacks \<Rightarrow> ptr list \<Rightarrow> nat \<Rightarrow> (nat \<Rightarrow> ptr) \<Rightarrow> CFArray option cf" where
  "CFArrayCreateTransfer env types values numValues junk =
     (if ae_create env then
        ebind (slice values 0 numValues) (\<lambda>cells.
        ebind (copy_into (map junk [0..<numValues]) 0 cells) (\<lambda>bs.
        Inr (Some \<lparr>ar_type = ArrayImmutable, ar_count = numValues, ar_mutations = 0, ar_callbacks = types,
          ar_inline = bs, ar_store = None\<rparr>)))
      else Inr None)"

definition CFArrayCreateCopy ::
  "array_env \<Rightarrow> CFArray \<Rightarrow> (nat \<Rightarrow> ptr) \<Rightarrow> (CFArray \<times> ref_event list) cf" where
  "CFArrayCreateCopy env array junk =
     (case CFArrayInit env ArrayImmutable (ar_count array) (Some (ar_callbacks array)) junk of
        None \<Rightarrow> Inl NullPointer
      | Some result \<Rightarrow>
          ebind (array_fill_loop env result (CFArrayGetBucket array) 0 (ar_count array)) (\<lambda>(result, evs).
          Inr (result\<lparr>ar_count := ar_count array\<rparr>, evs)))"

section \<open>Operations on one array\<close>

definition CFArrayGetCount :: "CFArray \<Rightarrow> nat" where "CFArrayGetCount array = ar_count array"

definition CFArrayHash :: "CFArray \<Rightarrow> nat" where "CFArrayHash array = ar_count array"

definition CFArrayGetValueAtIndex :: "CFArray \<Rightarrow> nat \<Rightarrow> ptr cf" where
  "CFArrayGetValueAtIndex array idx = CFArrayGetBucket array idx"

definition CFArrayCheckAndGetValueAtIndex :: "CFArray \<Rightarrow> int \<Rightarrow> ptr cf" where
  "CFArrayCheckAndGetValueAtIndex array idx =
     (if 0 \<le> idx \<and> idx < int (ar_count array) then CFArrayGetBucket array (nat idx) else Inr (- 1))"

definition array_cells :: "CFArray \<Rightarrow> (ptr list \<times> nat) cf" where
  "array_cells array =
     (case ar_type array of
        ArrayImmutable \<Rightarrow> Inr (ar_inline array, 0)
      | ArrayDeque \<Rightarrow>
          (case ar_store array of None \<Rightarrow> Inl NullPointer | Some deque \<Rightarrow> Inr (dq_buckets deque, dq_leftIdx deque)))"

definition CFArrayGetValues :: "CFArray \<Rightarrow> nat \<Rightarrow> nat \<Rightarrow> ptr list cf" where
  "CFArrayGetValues array loc len =
     (if 0 < len then ebind (array_cells array) (\<lambda>(bs, base). slice bs (base + loc) len) else Inr [])"

text \<open>Fast enumeration hands out all values at once, then nothing; the flag is the enumeration state.\<close>

definition CFArrayFastEnumeration :: "CFArray \<Rightarrow> bool \<Rightarrow> (bool \<times> (ptr list \<times> nat) option \<times> nat) cf" where
  "CFArrayFastEnumeration array at_start =
     (if ar_count array = 0 then Inr (at_start, None, 0)
      else if at_start then ebind (array_cells array) (\<lambda>cells. Inr (False, Some cells, ar_count array))
      else Inr (at_start, None, 0))"

definition same_value :: "array_env \<Rightarrow> CFArrayCallBacks \<Rightarrow> ptr \<Rightarrow> ptr \<Rightarrow> bool" where
  "same_value env cb value item \<longleftrightarrow>
     value = item \<or> (acb_equal cb \<noteq> NULL \<and> ae_equal env (acb_equal cb) value item)"

fun array_count_loop :: "array_env \<Rightarrow> CFArray \<Rightarrow> ptr \<Rightarrow> nat \<Rightarrow> nat \<Rightarrow> nat \<Rightarrow> nat \<Rightarrow> nat cf" where
  "array_count_loop env array value loc idx 0 c = Inr c"
| "array_count_loop env array value loc idx (Suc n) c =
     ebind (CFArrayGetValueAtIndex array (loc + idx)) (\<lambda>item.
     array_count_loop env array value loc (idx + 1) n
       (if same_value env (ar_callbacks array) value item then c + 1 else c))"

definition CFArrayGetCountOfValue :: "array_env \<Rightarrow> CFArray \<Rightarrow> nat \<Rightarrow> nat \<Rightarrow> ptr \<Rightarrow> nat cf" where
  "CFArrayGetCountOfValue env array loc len value = array_count_loop env array value loc 0 len 0"

fun array_first_loop :: "array_env \<Rightarrow> CFArray \<Rightarrow> ptr \<Rightarrow> nat \<Rightarrow> nat \<Rightarrow> nat \<Rightarrow> int cf" where
  "array_first_loop env array value loc idx 0 = Inr kCFNotFound"
| "array_first_loop env array value loc idx (Suc n) =
     ebind (CFArrayGetValueAtIndex array (loc + idx)) (\<lambda>item.
     if same_value env (ar_callbacks array) value item then Inr (int (idx + loc))
     else array_first_loop env array value loc (idx + 1) n)"

definition CFArrayGetFirstIndexOfValue :: "array_env \<Rightarrow> CFArray \<Rightarrow> nat \<Rightarrow> nat \<Rightarrow> ptr \<Rightarrow> int cf" where
  "CFArrayGetFirstIndexOfValue env array loc len value = array_first_loop env array value loc 0 len"

definition CFArrayContainsValue :: "array_env \<Rightarrow> CFArray \<Rightarrow> nat \<Rightarrow> nat \<Rightarrow> ptr \<Rightarrow> bool cf" where
  "CFArrayContainsValue env array loc len value =
     ebind (array_first_loop env array value loc 0 len) (\<lambda>r. Inr (r \<noteq> kCFNotFound))"

fun array_last_loop :: "array_env \<Rightarrow> CFArray \<Rightarrow> ptr \<Rightarrow> nat \<Rightarrow> nat \<Rightarrow> int cf" where
  "array_last_loop env array value loc 0 = Inr kCFNotFound"
| "array_last_loop env array value loc (Suc idx) =
     ebind (CFArrayGetValueAtIndex array (loc + idx)) (\<lambda>item.
     if same_value env (ar_callbacks array) value item then Inr (int (idx + loc))
     else array_last_loop env array value loc idx)"

definition CFArrayGetLastIndexOfValue :: "array_env \<Rightarrow> CFArray \<Rightarrow> nat \<Rightarrow> nat \<Rightarrow> ptr \<Rightarrow> int cf" where
  "CFArrayGetLastIndexOfValue env array loc len value = array_last_loop env array value loc len"

text \<open>The applier is a state transformer of its context.\<close>

fun array_apply_loop :: "CFArray \<Rightarrow> (ptr \<Rightarrow> 's \<Rightarrow> 's) \<Rightarrow> nat \<Rightarrow> nat \<Rightarrow> nat \<Rightarrow> 's \<Rightarrow> 's cf" where
  "array_apply_loop array applier loc idx 0 context = Inr context"
| "array_apply_loop array applier loc idx (Suc n) context =
     ebind (CFArrayGetValueAtIndex array (loc + idx)) (\<lambda>item.
     array_apply_loop array applier loc (idx + 1) n (applier item context))"

definition CFArrayApplyFunction :: "CFArray \<Rightarrow> nat \<Rightarrow> nat \<Rightarrow> (ptr \<Rightarrow> 's \<Rightarrow> 's) \<Rightarrow> 's \<Rightarrow> 's cf" where
  "CFArrayApplyFunction array loc len applier context = array_apply_loop array applier loc 0 len context"

fun array_equal_loop :: "array_env \<Rightarrow> CFArray \<Rightarrow> CFArray \<Rightarrow> nat \<Rightarrow> nat \<Rightarrow> bool cf" where
  "array_equal_loop env array1 array2 idx 0 = Inr True"
| "array_equal_loop env array1 array2 idx (Suc n) =
     ebind (CFArrayGetBucket array1 idx) (\<lambda>val1. ebind (CFArrayGetBucket array2 idx) (\<lambda>val2.
     if val1 \<noteq> val2 \<and> acb_equal (ar_callbacks array1) = NULL then Inr False
     else if val1 \<noteq> val2 \<and> \<not> ae_equal env (acb_equal (ar_callbacks array1)) val1 val2 then Inr False
     else array_equal_loop env array1 array2 (idx + 1) n))"

text \<open>\<open>__CFArrayEqual\<close>; the first test of the source, whether both are one object, is \<open>same_object\<close>.\<close>

definition CFArrayEqual :: "array_env \<Rightarrow> bool \<Rightarrow> CFArray \<Rightarrow> CFArray \<Rightarrow> bool cf" where
  "CFArrayEqual env same_object array1 array2 =
     (if same_object then Inr True
      else if ar_count array1 \<noteq> ar_count array2 then Inr False
      else if acb_equal (ar_callbacks array1) \<noteq> acb_equal (ar_callbacks array2) then Inr False
      else array_equal_loop env array1 array2 0 (ar_count array1))"

section \<open>Changing one value\<close>

definition CFArrayAppendValue :: "array_env \<Rightarrow> CFArray \<Rightarrow> ptr \<Rightarrow> (CFArray \<times> ref_event list) cf" where
  "CFArrayAppendValue env array value = CFArrayReplaceValues env array (ar_count array) 0 [value] 1"

definition CFArraySetValueAtIndex :: "array_env \<Rightarrow> CFArray \<Rightarrow> nat \<Rightarrow> ptr \<Rightarrow> (CFArray \<times> ref_event list) cf" where
  "CFArraySetValueAtIndex env array idx value =
     (if idx = ar_count array then CFArrayReplaceValues env array idx 0 [value] 1
      else
        ebind (CFArrayGetBucket array idx) (\<lambda>old_value.
        ebind (CFArraySetBucket array idx (array_retain env (ar_callbacks array) value)) (\<lambda>array'.
        Inr (array'\<lparr>ar_mutations := ar_mutations array' + 1\<rparr>,
             array_retain_event (ar_callbacks array) value @ array_release_event (ar_callbacks array) old_value))))"

definition CFArrayInsertValueAtIndex :: "array_env \<Rightarrow> CFArray \<Rightarrow> nat \<Rightarrow> ptr \<Rightarrow> (CFArray \<times> ref_event list) cf" where
  "CFArrayInsertValueAtIndex env array idx value = CFArrayReplaceValues env array idx 0 [value] 1"

definition CFArrayExchangeValuesAtIndices :: "CFArray \<Rightarrow> nat \<Rightarrow> nat \<Rightarrow> CFArray cf" where
  "CFArrayExchangeValuesAtIndices array idx1 idx2 =
     ebind (CFArrayGetBucket array idx1) (\<lambda>tmp.
     ebind (CFArrayGetBucket array idx2) (\<lambda>v2.
     ebind (CFArraySetBucket array idx1 v2) (\<lambda>array.
     ebind (CFArraySetBucket array idx2 tmp) (\<lambda>array.
     Inr (array\<lparr>ar_mutations := ar_mutations array + 1\<rparr>)))))"

definition CFArrayRemoveValueAtIndex :: "array_env \<Rightarrow> CFArray \<Rightarrow> nat \<Rightarrow> (CFArray \<times> ref_event list) cf" where
  "CFArrayRemoveValueAtIndex env array idx = CFArrayReplaceValues env array idx 1 [] 0"

definition CFArrayRemoveAllValues :: "CFArray \<Rightarrow> (CFArray \<times> ref_event list) cf" where
  "CFArrayRemoveAllValues array =
     ebind (CFArrayReleaseValues array 0 (ar_count array) True) (\<lambda>(array, evs).
     Inr (array\<lparr>ar_count := 0, ar_mutations := ar_mutations array + 1\<rparr>, evs))"

definition CFArrayDeallocate :: "CFArray \<Rightarrow> ref_event list cf" where
  "CFArrayDeallocate array = ebind (CFArrayReleaseValues array 0 (ar_count array) True) (\<lambda>(array, evs). Inr evs)"

text \<open>\<open>CFArrayAppendArray\<close> and the loop of \<open>__CFArrayCreateMutableCopy0\<close>: append the values one by one.\<close>

fun array_append_loop ::
  "array_env \<Rightarrow> CFArray \<Rightarrow> CFArray \<Rightarrow> nat \<Rightarrow> nat \<Rightarrow> (CFArray \<times> ref_event list) cf" where
  "array_append_loop env array otherArray idx 0 = Inr (array, [])"
| "array_append_loop env array otherArray idx (Suc n) =
     ebind (CFArrayGetValueAtIndex otherArray idx) (\<lambda>value.
     ebind (CFArrayAppendValue env array value) (\<lambda>(array, evs1).
     ebind (array_append_loop env array otherArray (idx + 1) n) (\<lambda>(array, evs2).
     Inr (array, evs1 @ evs2))))"

definition CFArrayAppendArray ::
  "array_env \<Rightarrow> CFArray \<Rightarrow> CFArray \<Rightarrow> nat \<Rightarrow> nat \<Rightarrow> (CFArray \<times> ref_event list) cf" where
  "CFArrayAppendArray env array otherArray loc len = array_append_loop env array otherArray loc len"

definition CFArrayCreateMutableCopy ::
  "array_env \<Rightarrow> nat \<Rightarrow> CFArray \<Rightarrow> (CFArray \<times> ref_event list) cf" where
  "CFArrayCreateMutableCopy env capacity array =
     (case CFArrayInit env ArrayDeque capacity (Some (ar_callbacks array)) (\<lambda>i. NULL) of
        None \<Rightarrow> Inl NullPointer
      | Some result \<Rightarrow>
          ebind (if capacity = 0 then CFArraySetCapacity env result (ar_count array) else Inr result) (\<lambda>result.
          array_append_loop env result array 0 (ar_count array)))"

section \<open>Sorting and searching\<close>

text \<open>The bubble sort for arrays that own their values on one side only.\<close>

fun zsort_pass :: "(ptr \<Rightarrow> ptr \<Rightarrow> int) \<Rightarrow> CFArray \<Rightarrow> nat \<Rightarrow> nat \<Rightarrow> CFArray cf" where
  "zsort_pass cmp array idx 0 = Inr array"
| "zsort_pass cmp array idx (Suc n) =
     ebind (CFArrayGetValueAtIndex array idx) (\<lambda>a.
     ebind (CFArrayGetValueAtIndex array (idx + 1)) (\<lambda>b.
     ebind (if cmp b a < 0 then CFArrayExchangeValuesAtIndices array idx (idx + 1) else Inr array) (\<lambda>array.
     zsort_pass cmp array (idx + 1) n)))"

fun CFZSort :: "(ptr \<Rightarrow> ptr \<Rightarrow> int) \<Rightarrow> CFArray \<Rightarrow> nat \<Rightarrow> nat \<Rightarrow> CFArray cf" where
  "CFZSort cmp array loc cnt =
     (if 1 < cnt then ebind (zsort_pass cmp array loc (cnt - 1)) (\<lambda>array. CFZSort cmp array loc (cnt - 1))
      else Inr array)"

declare CFZSort.simps [simp del]

text \<open>
  The values are sorted in a buffer, which is allocated when there are more than 256, and then replace
  the range. \<open>senv\<close> is the surroundings of \<open>CFQSortArray\<close>.
\<close>

definition sort_through_buffer ::
  "array_env \<Rightarrow> sort_env \<Rightarrow> (ptr \<Rightarrow> ptr \<Rightarrow> int) \<Rightarrow> CFArray \<Rightarrow> nat \<Rightarrow> nat \<Rightarrow> bool \<Rightarrow> (CFArray \<times> ref_event list) cf" where
  "sort_through_buffer env senv cmp array loc len immutable =
     (if len < 2 then Inr (array, [])
      else if 256 < len \<and> ae_alloc env len = None then Inl NullPointer
      else
        ebind (CFArrayGetValues array loc len) (\<lambda>values.
        ebind (CFQSortArray senv values len 8 cmp) (\<lambda>values.
        if immutable then Inr (array, []) else CFArrayReplaceValues env array loc len values len)))"

definition CFArraySortAllValues ::
  "array_env \<Rightarrow> sort_env \<Rightarrow> (ptr \<Rightarrow> ptr \<Rightarrow> int) \<Rightarrow> CFArray \<Rightarrow> (CFArray \<times> ref_event list) cf" where
  "CFArraySortAllValues env senv cmp array =
     sort_through_buffer env senv cmp array 0 (ar_count array) False"

definition CFArraySortValues ::
  "array_env \<Rightarrow> sort_env \<Rightarrow> (ptr \<Rightarrow> ptr \<Rightarrow> int) \<Rightarrow> CFArray \<Rightarrow> nat \<Rightarrow> nat \<Rightarrow> (CFArray \<times> ref_event list) cf" where
  "CFArraySortValues env senv cmp array loc len =
     (let immutable = (ar_type array = ArrayImmutable); cb = ar_callbacks array in
      if \<not> immutable \<and> ((acb_retain cb \<noteq> NULL \<and> acb_release cb = NULL) \<or> (acb_retain cb = NULL \<and> acb_release cb \<noteq> NULL))
      then ebind (CFZSort cmp array loc len) (\<lambda>array. Inr (array, []))
      else sort_through_buffer env senv cmp array loc len immutable)"

text \<open>The probe loop of the binary search, with \<open>lg\<close> rounds left; the index starts at \<open>-1\<close>.\<close>

fun bsearch_loop :: "(ptr \<Rightarrow> ptr \<Rightarrow> int) \<Rightarrow> CFArray \<Rightarrow> ptr \<Rightarrow> nat \<Rightarrow> int \<Rightarrow> nat \<Rightarrow> int cf" where
  "bsearch_loop cmp array value loc idx 0 = Inr idx"
| "bsearch_loop cmp array value loc idx (Suc lg) =
     ebind (if int loc + idx + 2 ^ lg < 0 then Inl OutOfBounds
            else CFArrayGetValueAtIndex array (nat (int loc + idx + 2 ^ lg))) (\<lambda>item.
     bsearch_loop cmp array value loc (if cmp item value < 0 then idx + 2 ^ lg else idx) lg)"

definition CFArrayBSearchValues :: "(ptr \<Rightarrow> ptr \<Rightarrow> int) \<Rightarrow> CFArray \<Rightarrow> nat \<Rightarrow> nat \<Rightarrow> ptr \<Rightarrow> nat cf" where
  "CFArrayBSearchValues cmp array loc len value =
     (if len = 0 then Inr loc
      else
        ebind (CFArrayGetValueAtIndex array (loc + len - 1)) (\<lambda>item.
        if cmp item value < 0 then Inr (loc + len)
        else
          ebind (CFArrayGetValueAtIndex array loc) (\<lambda>item.
          if cmp value item < 0 then Inr loc
          else
            (let lg = flsl len - 1 in
             ebind (int_shift_1 lg) (\<lambda>probe.
             ebind (CFArrayGetValueAtIndex array (loc + probe - 1)) (\<lambda>item.
             let idx = (if cmp item value < 0 then int len - int probe else -1)
             in ebind (bsearch_loop cmp array value loc idx lg) (\<lambda>idx.
                Inr (nat (idx + 1 + int loc)))))))))"

section \<open>Well-formed arrays and their values\<close>

definition ar_values :: "CFArray \<Rightarrow> ptr list" where
  "ar_values array =
     (case ar_type array of
        ArrayImmutable \<Rightarrow> take (ar_count array) (ar_inline array)
      | ArrayDeque \<Rightarrow>
          (case ar_store array of
             None \<Rightarrow> []
           | Some deque \<Rightarrow> take (ar_count array) (drop (dq_leftIdx deque) (dq_buckets deque))))"

definition ar_wf :: "CFArray \<Rightarrow> bool" where
  "ar_wf array \<longleftrightarrow>
     (case ar_type array of
        ArrayImmutable \<Rightarrow> ar_count array \<le> length (ar_inline array)
      | ArrayDeque \<Rightarrow>
          (case ar_store array of
             None \<Rightarrow> ar_count array = 0
           | Some deque \<Rightarrow> length (dq_buckets deque) = dq_capacity deque \<and>
               dq_leftIdx deque + ar_count array \<le> dq_capacity deque \<and> dq_capacity deque \<le> 2 ^ 30))"

lemma ar_mutations_update [simp]:
  "ar_wf (array\<lparr>ar_mutations := m\<rparr>) = ar_wf array"
  "ar_values (array\<lparr>ar_mutations := m\<rparr>) = ar_values array"
  by (auto simp: ar_wf_def ar_values_def split: CFArrayType.splits option.splits)

lemma ar_values_length: "ar_wf array \<Longrightarrow> length (ar_values array) = ar_count array"
  by (auto simp: ar_wf_def ar_values_def split: CFArrayType.splits option.splits)

lemma GetBucket_correct:
  "ar_wf array \<Longrightarrow> i < ar_count array \<Longrightarrow> CFArrayGetBucket array i = Inr (ar_values array ! i)"
  by (auto simp: ar_wf_def ar_values_def CFArrayGetBucket_def split: CFArrayType.splits option.splits)

text \<open>What the operations on single buckets leave alone.\<close>

definition ar_shape :: "CFArray \<Rightarrow> CFArrayType \<times> nat \<times> CFArrayCallBacks \<times> (nat \<times> nat) option" where
  "ar_shape array = (ar_type array, ar_count array, ar_callbacks array,
     map_option (\<lambda>deque. (dq_leftIdx deque, dq_capacity deque)) (ar_store array))"

lemma SetBucket_cases:
  assumes "ar_wf array" "i < ar_count array"
  shows "case CFArraySetBucket array i v of Inl e \<Rightarrow> False
    | Inr array' \<Rightarrow> ar_wf array' \<and> ar_values array' = (ar_values array)[i := v] \<and>
        ar_shape array' = ar_shape array \<and> ar_mutations array' = ar_mutations array"
  using assms
  by (auto simp: ar_wf_def ar_values_def ar_shape_def CFArraySetBucket_def take_update_swap drop_update_swap
      split: CFArrayType.splits option.splits)

lemma SetBucket_correct:
  assumes "ar_wf array" "i < ar_count array"
  shows "\<exists>array'. CFArraySetBucket array i v = Inr array' \<and> ar_wf array' \<and>
     ar_values array' = (ar_values array)[i := v] \<and> ar_shape array' = ar_shape array \<and>
     ar_mutations array' = ar_mutations array"
  using SetBucket_cases [OF assms, of v] by (auto split: sum.splits)

lemma ar_shape_eqD:
  "ar_shape a = ar_shape b \<Longrightarrow> ar_type a = ar_type b" "ar_shape a = ar_shape b \<Longrightarrow> ar_count a = ar_count b"
  "ar_shape a = ar_shape b \<Longrightarrow> ar_callbacks a = ar_callbacks b"
  "ar_shape a = ar_shape b \<Longrightarrow> (ar_store a = None) = (ar_store b = None)"
  by (auto simp: ar_shape_def)

lemma release_loop_correct:
  assumes "ar_wf array" "loc + idx + n \<le> ar_count array"
  shows "\<exists>array'. array_release_loop array loc idx n =
      Inr (array', concat (map (array_release_event (ar_callbacks array)) (take n (drop (loc + idx) (ar_values array))))) \<and>
     ar_wf array' \<and> ar_shape array' = ar_shape array \<and> ar_mutations array' = ar_mutations array \<and>
     ar_values array' = take (loc + idx) (ar_values array) @ replicate n NULL @ drop (loc + idx + n) (ar_values array)"
  using assms
proof (induction n arbitrary: array idx)
  case (Suc n)
  let ?i = "idx + loc"
  have i: "?i < ar_count array" using Suc.prems(2) by simp
  obtain array1 where a1: "CFArraySetBucket array ?i NULL = Inr array1" "ar_wf array1"
      "ar_values array1 = (ar_values array)[?i := NULL]" "ar_shape array1 = ar_shape array"
      "ar_mutations array1 = ar_mutations array"
    using SetBucket_correct [OF Suc.prems(1) i] by blast
  note cb = ar_shape_eqD(3) [OF a1(4)] and cnt = ar_shape_eqD(2) [OF a1(4)]
  obtain array2 where a2: "array_release_loop array1 loc (idx + 1) n =
      Inr (array2, concat (map (array_release_event (ar_callbacks array1)) (take n (drop (loc + (idx + 1)) (ar_values array1)))))"
     "ar_wf array2" "ar_shape array2 = ar_shape array1" "ar_mutations array2 = ar_mutations array1"
     "ar_values array2 = take (loc + (idx + 1)) (ar_values array1) @ replicate n NULL @ drop (loc + (idx + 1) + n) (ar_values array1)"
    using Suc.IH [OF a1(2), of "idx + 1"] Suc.prems(2) cnt by auto
  have len: "?i < length (ar_values array)" using i ar_values_length [OF Suc.prems(1)] by simp
  have "take (Suc n) (drop (loc + idx) (ar_values array)) =
      ar_values array ! ?i # take n (drop (loc + (idx + 1)) (ar_values array1))"
    using len by (simp add: a1(3) Cons_nth_drop_Suc [symmetric] add.commute)
  moreover have "take (loc + (idx + 1)) (ar_values array1) = take (loc + idx) (ar_values array) @ [NULL]"
    using len by (simp add: a1(3) take_Suc_conv_app_nth add.commute)
  moreover have "drop (loc + (idx + 1) + n) (ar_values array1) = drop (loc + idx + Suc n) (ar_values array)"
    by (simp add: a1(3) add.commute)
  ultimately show ?case
    using a1 a2 GetBucket_correct [OF Suc.prems(1) i] cb by simp
qed simp

section \<open>Moving the regions of the deque\<close>

definition moved :: "'a list \<Rightarrow> nat \<Rightarrow> 'a list \<Rightarrow> nat \<Rightarrow> nat \<Rightarrow> 'a list" where
  "moved dst d src s n = map (\<lambda>i. if d \<le> i \<and> i < d + n then src ! (s + (i - d)) else dst ! i) [0..<length dst]"

lemma moved_simps [simp]:
  "length (moved dst d src s n) = length dst"
  "i < length dst \<Longrightarrow> moved dst d src s n ! i = (if d \<le> i \<and> i < d + n then src ! (s + (i - d)) else dst ! i)"
  by (simp_all add: moved_def)

lemma move_if_correct:
  "s + n \<le> length src \<Longrightarrow> d + n \<le> length dst \<Longrightarrow> move_if dst d src s n = Inr (moved dst d src s n)"
  by (auto simp: move_if_def slice_def copy_into_def nth_append intro!: nth_equalityI)

lemma zero_if_correct:
  "i + n \<le> length bs \<Longrightarrow> zero_if bs i n = Inr (moved bs i (replicate n NULL) 0 n)"
  by (auto simp: zero_if_def fill_def copy_into_def nth_append intro!: nth_equalityI)

text \<open>
  The counts for which no capacity leaves the range of \<open>1 << n\<close>: the wiggle room of a store of at most
  \<open>2^30\<close> buckets is at most \<open>2^13\<close>.
\<close>

definition array_max :: nat where "array_max = 2 ^ 30 - 2 ^ 13"

lemma RoundUp_correct:
  assumes "n < 2 ^ 30"
  shows "\<exists>capacity. CFArrayDequeRoundUpCapacity n = Inr capacity \<and> n \<le> capacity \<and> 4 \<le> capacity \<and> capacity \<le> 2 ^ 30"
proof (cases "n < 4")
  case True
  then show ?thesis by (simp add: CFArrayDequeRoundUpCapacity_def)
next
  case False
  have le: "flsl n \<le> 30" using flsl_le [OF assms] .
  then have pow: "(2::nat) ^ flsl n \<le> 2 ^ 30" by (rule power_increasing) simp
  have "n < 2 ^ flsl n" by (rule flsl_upper)
  then show ?thesis
    using False le pow by (simp add: CFArrayDequeRoundUpCapacity_def int_shift_1_def)
qed

text \<open>
  What repositioning gives: room for the new count, with the regions before and after the range at the
  places they have once \<open>newCount\<close> values are put between them.
\<close>

definition repositioned :: "ptr list \<Rightarrow> nat \<Rightarrow> nat \<Rightarrow> nat \<Rightarrow> nat \<Rightarrow> CFArrayDeque \<Rightarrow> bool" where
  "repositioned vs A B newCount futureCnt deque \<longleftrightarrow>
     length (dq_buckets deque) = dq_capacity deque \<and> dq_leftIdx deque + futureCnt \<le> dq_capacity deque \<and>
     dq_capacity deque \<le> 2 ^ 30 \<and> (\<forall>i<A. dq_buckets deque ! (dq_leftIdx deque + i) = vs ! i) \<and>
     (\<forall>i<length vs - (A + B). dq_buckets deque ! (dq_leftIdx deque + A + newCount + i) = vs ! (A + B + i))"

lemma Reposition_correct:
  assumes wf: "ar_wf array" and type: "ar_type array = ArrayDeque" and store: "ar_store array = Some deque"
    and range: "A + B \<le> ar_count array" and fut: "futureCnt = ar_count array - B + newCount"
    and small: "futureCnt < array_max" and mem: "\<And>n. ae_alloc env n \<noteq> None"
  shows "\<exists>deque'. CFArrayRepositionDequeRegions env array A B newCount = Inr (array\<lparr>ar_store := Some deque'\<rparr>) \<and>
    repositioned (ar_values array) A B newCount futureCnt deque'"
proof -
  define L cap bs where "L = dq_leftIdx deque" and "cap = dq_capacity deque" and "bs = dq_buckets deque"
  define cnt C where "cnt = ar_count array" and "C = cnt - B - A"
  define wiggle where "wiggle = max 4 (cap div 2 ^ 17)"
  have d: "length bs = cap" "L + cnt \<le> cap" "A + B + C = cnt" "futureCnt = A + newCount + C"
    using wf type store range fut by (auto simp: ar_wf_def L_def cap_def bs_def cnt_def C_def)
  have vs: "length (ar_values array) = cnt" "\<And>i. i < cnt \<Longrightarrow> ar_values array ! i = bs ! (L + i)"
    using ar_values_length [OF wf] type store d(1,2)
    by (auto simp: ar_values_def cnt_def L_def bs_def)
  have cap: "cap \<le> 2 ^ 30" using wf type store by (simp add: ar_wf_def cap_def)
  then have w: "futureCnt + wiggle < 2 ^ 30" using small by (simp add: wiggle_def array_max_def)
  have f32: "futureCnt mod 2 ^ 32 = futureCnt" using small by (simp add: array_max_def)
  define R num where "R = int cap - int cnt - int L" and "num = int newCount - int B"
  note defs = L_def [symmetric] cap_def [symmetric] bs_def [symmetric] cnt_def [symmetric] C_def [symmetric]
    fut [unfolded cnt_def [symmetric], symmetric] wiggle_def [symmetric] R_def [symmetric] num_def [symmetric] f32
  note run = CFArrayRepositionDequeRegions_def [of env array A B newCount, unfolded store option.case Let_def defs]
  have goal: ?thesis if "CFArrayRepositionDequeRegions env array A B newCount =
      Inr (array\<lparr>ar_store := Some \<lparr>dq_leftIdx = l, dq_capacity = c, dq_buckets = bs'\<rparr>\<rparr>)"
    "length bs' = c" "l + futureCnt \<le> c" "c \<le> 2 ^ 30" "\<And>i. i < A \<Longrightarrow> bs' ! (l + i) = bs ! (L + i)"
    "\<And>i. i < C \<Longrightarrow> bs' ! (l + A + newCount + i) = bs ! (L + A + B + i)" for l c bs'
  proof (intro exI conjI)
    show "repositioned (ar_values array) A B newCount futureCnt \<lparr>dq_leftIdx = l, dq_capacity = c, dq_buckets = bs'\<rparr>"
      using that(2-) d vs by (auto simp: repositioned_def add.assoc)
  qed (use that(1) in simp)
  have put: "deque\<lparr>dq_leftIdx := l, dq_buckets := bs'\<rparr> = \<lparr>dq_leftIdx = l, dq_capacity = cap, dq_buckets = bs'\<rparr>" for l bs'
    by (simp add: cap_def)
  consider (grow) "cap < futureCnt \<or> (cnt < futureCnt \<and> int L + R < int wiggle)"
    | (right) "\<not> (cap < futureCnt \<or> (cnt < futureCnt \<and> int L + R < int wiggle))" "(num < 0 \<and> C < A) \<or> (num \<le> R \<and> C < A)"
    | (left) "\<not> (cap < futureCnt \<or> (cnt < futureCnt \<and> int L + R < int wiggle))"
        "\<not> ((num < 0 \<and> C < A) \<or> (num \<le> R \<and> C < A))" "num < 0 \<or> (num \<le> int L \<and> A \<le> C)"
    | (center) "\<not> (cap < futureCnt \<or> (cnt < futureCnt \<and> int L + R < int wiggle))"
        "\<not> ((num < 0 \<and> C < A) \<or> (num \<le> R \<and> C < A))" "\<not> (num < 0 \<or> (num \<le> int L \<and> A \<le> C))"
    by blast
  then show ?thesis
  proof cases
    case grow
    obtain capacity where c: "CFArrayDequeRoundUpCapacity (futureCnt + wiggle) = Inr capacity" "futureCnt + wiggle \<le> capacity"
        "capacity \<le> 2 ^ 30"
      using RoundUp_correct w by metis
    obtain junk where junk: "ae_alloc env capacity = Some junk" using mem by blast
    let ?l = "(capacity - futureCnt) div 2"
    have l: "?l + futureCnt \<le> capacity" using c(2) by simp
    let ?b1 = "moved (map junk [0..<capacity]) ?l bs L A"
    let ?b2 = "moved ?b1 (?l + A + newCount) bs (L + A + B) C"
    have "CFArrayRepositionDequeRegions env array A B newCount =
        Inr (array\<lparr>ar_store := Some \<lparr>dq_leftIdx = ?l, dq_capacity = capacity, dq_buckets = ?b2\<rparr>\<rparr>)"
      unfolding run using grow c junk d l by (simp add: move_if_correct)
    from goal [OF this] show ?thesis using l d c by auto
  next
    case right
    let ?n = "L + A + newCount" and ?o = "L + A + B"
    have fit: "?n + C \<le> cap" using right d by (auto simp: R_def num_def)
    let ?b1 = "moved bs ?n bs ?o C"
    let ?b2 = "moved ?b1 (?n + C) (replicate (?o - ?n) NULL) 0 (?o - ?n)"
    have "move_if bs ?n bs ?o C = Inr ?b1" using d fit by (intro move_if_correct) simp_all
    moreover have "zero_if ?b1 (?n + C) (?o - ?n) = Inr ?b2" using d fit by (intro zero_if_correct) simp
    ultimately have "CFArrayRepositionDequeRegions env array A B newCount =
        Inr (array\<lparr>ar_store := Some \<lparr>dq_leftIdx = L, dq_capacity = cap, dq_buckets = ?b2\<rparr>\<rparr>)"
      unfolding run if_not_P [OF right(1)] if_P [OF right(2)] by (simp add: put)
    from goal [OF this] show ?thesis using fit d cap by auto
  next
    case left
    define l where "l = nat (int L - num)"
    have "int l = int L - num" using left d by (auto simp: num_def R_def l_def)
    then have l: "l + newCount = L + B" using num_def by linarith
    have fit: "l + futureCnt \<le> cap" using l left(1) d by linarith
    let ?b1 = "moved bs l bs L A"
    let ?b2 = "moved ?b1 L (replicate (l - L) NULL) 0 (l - L)"
    have "move_if bs l bs L A = Inr ?b1" using d l fit by (intro move_if_correct) simp_all
    moreover have "zero_if ?b1 L (l - L) = Inr ?b2" using d l fit by (intro zero_if_correct) simp
    ultimately have "CFArrayRepositionDequeRegions env array A B newCount =
        Inr (array\<lparr>ar_store := Some \<lparr>dq_leftIdx = l, dq_capacity = cap, dq_buckets = ?b2\<rparr>\<rparr>)"
      unfolding run if_not_P [OF left(1)] if_not_P [OF left(2)] if_P [OF left(3)] l_def [symmetric]
      by (simp add: put)
    note goal = goal [OF this]
    have "?b2 ! (l + i) = bs ! (L + i)" if "i < A" for i
    proof -
      have "\<not> (L \<le> l + i \<and> l + i < L + (l - L))" by linarith
      then show ?thesis using that l fit d by auto
    qed
    moreover have "?b2 ! (l + A + newCount + i) = bs ! (L + A + B + i)" if "i < C" for i
    proof -
      have eq: "l + A + newCount + i = L + A + B + i" using l by simp
      have "\<not> L + A + B + i < l + A" "\<not> L + A + B + i < L + (l - L)" "L + A + B + i < length bs"
        using that l d by linarith+
      then show ?thesis unfolding eq by simp
    qed
    ultimately show ?thesis using goal fit d cap by simp
  next
    case center
    define x where "x = nat ((int L + R - num) div 2)"
    define l where "l = x - x div 2"
    have x: "x = (cap - futureCnt) div 2" "futureCnt \<le> cap" "B < newCount"
      using center d by (auto simp: x_def R_def num_def nat_div_distrib)
    have l: "l + futureCnt \<le> cap" using x by (simp add: l_def)
    let ?n = "l + A + newCount" and ?o = "L + A + B"
    show ?thesis
    proof (cases "l < L")
      case True
      let ?b1 = "moved bs l bs L A"
      let ?b2 = "moved ?b1 ?n ?b1 ?o C"
      let ?b3 = "moved ?b2 (?n + C) (replicate (?o - ?n) NULL) 0 (?o - ?n)"
      have "move_if bs l bs L A = Inr ?b1" using d l by (intro move_if_correct) simp_all
      moreover have "move_if ?b1 ?n ?b1 ?o C = Inr ?b2" using d l by (intro move_if_correct) simp_all
      moreover have "zero_if ?b2 (?n + C) (?o - ?n) = Inr ?b3" using d l by (intro zero_if_correct) simp
      ultimately have "CFArrayRepositionDequeRegions env array A B newCount =
        Inr (array\<lparr>ar_store := Some \<lparr>dq_leftIdx = l, dq_capacity = cap, dq_buckets = ?b3\<rparr>\<rparr>)"
        unfolding run if_not_P [OF center(1)] if_not_P [OF center(2)] if_not_P [OF center(3)]
          x_def [symmetric] l_def [symmetric] using True by (simp add: put)
      from goal [OF this] show ?thesis using l d cap x(3) True by auto
    next
      case False
      let ?b1 = "moved bs ?n bs ?o C"
      let ?b2 = "moved ?b1 l ?b1 L A"
      let ?b3 = "moved ?b2 L (replicate (l - L) NULL) 0 (l - L)"
      have "move_if bs ?n bs ?o C = Inr ?b1" using d l by (intro move_if_correct) simp_all
      moreover have "move_if ?b1 l ?b1 L A = Inr ?b2" using d l by (intro move_if_correct) simp_all
      moreover have "zero_if ?b2 L (l - L) = Inr ?b3" using d l by (intro zero_if_correct) simp
      ultimately have "CFArrayRepositionDequeRegions env array A B newCount =
        Inr (array\<lparr>ar_store := Some \<lparr>dq_leftIdx = l, dq_capacity = cap, dq_buckets = ?b3\<rparr>\<rparr>)"
        unfolding run if_not_P [OF center(1)] if_not_P [OF center(2)] if_not_P [OF center(3)]
          x_def [symmetric] l_def [symmetric] using False by (simp add: put)
      from goal [OF this] show ?thesis using l d cap x(3) False by auto
    qed
  qed
qed

section \<open>Replacing a range replaces a range\<close>

lemma retain_values_correct:
  "idx + n \<le> length newValues \<Longrightarrow> retain_values env cb newValues idx n =
     Inr (map (array_retain env cb) (take n (drop idx newValues)),
          concat (map (array_retain_event cb) (take n (drop idx newValues))))"
proof (induction n arbitrary: idx)
  case (Suc n)
  then have "drop idx newValues = newValues ! idx # drop (Suc idx) newValues"
    by (simp add: Cons_nth_drop_Suc)
  then show ?case using Suc by simp
qed simp

text \<open>The list that replacing \<open>len\<close> values at \<open>loc\<close> gives, and the calls it makes.\<close>

definition splice :: "'a list \<Rightarrow> nat \<Rightarrow> nat \<Rightarrow> 'a list \<Rightarrow> 'a list" where
  "splice vs loc len new = take loc vs @ new @ drop (loc + len) vs"

definition replace_events :: "CFArrayCallBacks \<Rightarrow> ptr list \<Rightarrow> ptr list \<Rightarrow> ref_event list" where
  "replace_events cb new old =
     concat (map (array_retain_event cb) new) @ concat (map (array_release_event cb) old)"

lemma nth_take_drop: "i < n \<Longrightarrow> k + n \<le> length xs \<Longrightarrow> take n (drop k xs) ! i = xs ! (k + i)"
  by simp

lemma put_values:
  assumes "repositioned vs loc len newCount (length vs - len + newCount) deque" and "loc + len \<le> length vs"
    and "length new = newCount"
  shows "\<exists>bs. copy_into (dq_buckets deque) (dq_leftIdx deque + loc) new = Inr bs \<and>
     length bs = dq_capacity deque \<and>
     take (length vs - len + newCount) (drop (dq_leftIdx deque) bs) = splice vs loc len new"
proof -
  let ?bs = "dq_buckets deque" and ?L = "dq_leftIdx deque"
  have r: "length ?bs = dq_capacity deque" "?L + (length vs - len + newCount) \<le> dq_capacity deque"
    "\<And>i. i < loc \<Longrightarrow> ?bs ! (?L + i) = vs ! i"
    "\<And>i. i < length vs - (loc + len) \<Longrightarrow> ?bs ! (?L + loc + newCount + i) = vs ! (loc + len + i)"
    using assms(1) by (auto simp: repositioned_def)
  let ?new = "take (?L + loc) ?bs @ new @ drop (?L + loc + newCount) ?bs"
  have "copy_into ?bs (?L + loc) new = Inr ?new"
    using r(1,2) assms(2,3) by (simp add: copy_into_def)
  moreover have "length ?new = dq_capacity deque" using r(1,2) assms(2,3) by simp
  moreover have "take (length vs - len + newCount) (drop ?L ?new) = splice vs loc len new"
  proof (rule nth_equalityI)
    show "length (take (length vs - len + newCount) (drop ?L ?new)) = length (splice vs loc len new)"
      using r(1,2) assms(2,3) by (simp add: splice_def)
    fix i assume "i < length (take (length vs - len + newCount) (drop ?L ?new))"
    then have i: "i < length vs - len + newCount" by (simp only: length_take min_less_iff_conj)
    then have "take (length vs - len + newCount) (drop ?L ?new) ! i = ?new ! (?L + i)"
      using r(1,2) assms(2,3) by (intro nth_take_drop) simp_all
    also have "\<dots> = splice vs loc len new ! i"
    proof -
      consider "i < loc" | "loc \<le> i" "i < loc + newCount" | "loc + newCount \<le> i" by linarith
      then show ?thesis
      proof cases
        case 1
        then show ?thesis using r assms(2,3) by (simp add: splice_def nth_append)
      next
        case 2
        then have "i - loc < newCount" by linarith
        with 2 show ?thesis using r assms(2,3) by (simp add: splice_def nth_append)
      next
        case 3
        define j where "j = i - (loc + newCount)"
        have j: "i = loc + newCount + j" "j < length vs - (loc + len)" using 3 i assms(2) by (auto simp: j_def)
        then show ?thesis using r assms(2,3) by (simp add: splice_def nth_append add.assoc)
      qed
    qed
    finally show "take (length vs - len + newCount) (drop ?L ?new) ! i = splice vs loc len new ! i" .
  qed
  ultimately show ?thesis by blast
qed

text \<open>The store the values are put into, whichever way it came about.\<close>

lemma prepare_store:
  assumes "ar_wf array" "ar_type array = ArrayDeque" "loc + len \<le> ar_count array"
    and "futureCnt = ar_count array - len + newCount" "futureCnt < array_max" and "\<And>n. ae_alloc env n \<noteq> None"
  shows "\<exists>deque. (case ar_store array of
               None \<Rightarrow>
                 ebind (CFArrayDequeRoundUpCapacity futureCnt) (\<lambda>capacity.
                 case ae_alloc env capacity of
                   None \<Rightarrow> Inl NullPointer
                 | Some junk \<Rightarrow>
                     Inr (array\<lparr>ar_store := Some \<lparr>dq_leftIdx = (capacity - newCount) div 2, dq_capacity = capacity,
                       dq_buckets = map junk [0..<capacity]\<rparr>\<rparr>))
             | Some deque \<Rightarrow>
                 if len \<noteq> newCount then CFArrayRepositionDequeRegions env array loc len newCount
                 else Inr array) = Inr (array\<lparr>ar_store := Some deque\<rparr>) \<and>
      repositioned (ar_values array) loc len newCount futureCnt deque"
proof (cases "ar_store array")
  case None
  then have none: "ar_count array = 0" "ar_values array = []" "loc = 0" "len = 0" "futureCnt = newCount"
    using assms by (auto simp: ar_wf_def ar_values_def)
  have "futureCnt < 2 ^ 30" using assms(5) by (simp add: array_max_def)
  then obtain capacity where c: "CFArrayDequeRoundUpCapacity futureCnt = Inr capacity" "futureCnt \<le> capacity" "capacity \<le> 2 ^ 30"
    using RoundUp_correct by metis
  obtain junk where "ae_alloc env capacity = Some junk" using assms(6) by blast
  then show ?thesis using None none c by (auto simp: repositioned_def)
next
  case (Some deque)
  show ?thesis
  proof (cases "len = newCount")
    case True
    have "array\<lparr>ar_store := Some deque\<rparr> = array" using Some by simp
    moreover have "repositioned (ar_values array) loc len newCount futureCnt deque"
      using assms(1-4) Some True by (auto simp: repositioned_def ar_wf_def ar_values_def add.assoc)
    ultimately show ?thesis using Some True by (intro exI [of _ deque]) simp
  next
    case False
    then show ?thesis using Reposition_correct [OF assms(1,2) Some assms(3-6)] Some by auto
  qed
qed

lemma ReplaceValues_correct:
  assumes "ar_wf array" and "ar_type array = ArrayDeque" and "loc + len \<le> ar_count array"
    and "newCount \<le> length newValues" and "ar_count array - len + newCount < array_max"
    and "\<And>n. ae_alloc env n \<noteq> None"
  shows "\<exists>array'. CFArrayReplaceValues env array loc len newValues newCount =
      Inr (array', replace_events (ar_callbacks array) (take newCount newValues) (take len (drop loc (ar_values array)))) \<and>
    ar_wf array' \<and> ar_type array' = ArrayDeque \<and> ar_callbacks array' = ar_callbacks array \<and>
    ar_mutations array' = ar_mutations array + 1 \<and> ar_store array' \<noteq> None \<and>
    ar_values array' = splice (ar_values array) loc len (map (array_retain env (ar_callbacks array)) (take newCount newValues))"
proof -
  define cb new where "cb = ar_callbacks array" and "new = map (array_retain env cb) (take newCount newValues)"
  define futureCnt where "futureCnt = ar_count array - len + newCount"
  define array1 where "array1 = array\<lparr>ar_mutations := ar_mutations array + 1\<rparr>"
  have cnt: "length (ar_values array) = ar_count array" using ar_values_length [OF assms(1)] .
  have evs: "(if acb_retain cb \<noteq> NULL then
               (if 256 < newCount \<and> ae_alloc env newCount = None then Inl NullPointer
                else retain_values env cb newValues 0 newCount)
             else ebind (slice newValues 0 newCount) (\<lambda>newv. Inr (newv, []))) =
      Inr (new, concat (map (array_retain_event cb) (take newCount newValues)))"
    using assms(4) assms(6) [of newCount] retain_values_correct [of 0 newCount newValues env cb]
    by (auto simp: new_def array_retain_def array_retain_event_def slice_def map_idI)
  have a1: "ar_wf array1" "ar_type array1 = ArrayDeque" "ar_values array1 = ar_values array"
      "ar_count array1 = ar_count array" "ar_callbacks array1 = cb" "ar_store array1 = ar_store array"
    using assms(1,2) by (simp_all add: array1_def cb_def)
  obtain array2 where a2: "(if 0 < len then CFArrayReleaseValues array1 loc len False else Inr (array1, [])) =
        Inr (array2, concat (map (array_release_event cb) (take len (drop loc (ar_values array)))))"
      "ar_wf array2" "ar_shape array2 = ar_shape array1" "ar_mutations array2 = ar_mutations array1"
      "take loc (ar_values array2) = take loc (ar_values array)"
      "drop (loc + len) (ar_values array2) = drop (loc + len) (ar_values array)"
      "length (ar_values array2) = ar_count array"
  proof (cases "0 < len")
    case False
    then show ?thesis using that [of array1] a1 cnt by simp
  next
    case True
    then have store: "ar_store array1 \<noteq> None"
      using a1 assms(3) by (auto simp: ar_wf_def split: option.splits)
    obtain array2 where r: "array_release_loop array1 loc 0 len =
        Inr (array2, concat (map (array_release_event cb) (take len (drop loc (ar_values array)))))"
       "ar_wf array2" "ar_shape array2 = ar_shape array1" "ar_mutations array2 = ar_mutations array1"
       "ar_values array2 = take loc (ar_values array) @ replicate len NULL @ drop (loc + len) (ar_values array)"
      using release_loop_correct [OF a1(1), of loc 0 len] a1 assms(3) by auto
    have "CFArrayReleaseValues array1 loc len False = Inr (array2, concat (map (array_release_event cb) (take len (drop loc (ar_values array)))))"
      using True store r(1) a1(2) by (simp add: CFArrayReleaseValues_def)
    then show ?thesis using that [of array2] r True assms(3) cnt by simp
  qed
  have a2': "ar_type array2 = ArrayDeque" "ar_count array2 = ar_count array" "ar_callbacks array2 = cb"
    using ar_shape_eqD(1-3) [OF a2(3)] a1 by simp_all
  have "futureCnt < array_max" using assms(5) by (simp add: futureCnt_def)
  then obtain deque where deque: "(case ar_store array2 of
               None \<Rightarrow>
                 ebind (CFArrayDequeRoundUpCapacity futureCnt) (\<lambda>capacity.
                 case ae_alloc env capacity of
                   None \<Rightarrow> Inl NullPointer
                 | Some junk \<Rightarrow>
                     Inr (array2\<lparr>ar_store := Some \<lparr>dq_leftIdx = (capacity - newCount) div 2, dq_capacity = capacity,
                       dq_buckets = map junk [0..<capacity]\<rparr>\<rparr>))
             | Some deque \<Rightarrow>
                 if len \<noteq> newCount then CFArrayRepositionDequeRegions env array2 loc len newCount
                 else Inr array2) = Inr (array2\<lparr>ar_store := Some deque\<rparr>)"
      "repositioned (ar_values array2) loc len newCount futureCnt deque"
    using prepare_store [OF a2(2) a2'(1), of loc len futureCnt newCount env] a2' assms(3,6)
    by (auto simp: futureCnt_def)
  have "length new = newCount" using assms(4) by (simp add: new_def)
  then obtain bs where bs: "copy_into (dq_buckets deque) (dq_leftIdx deque + loc) new = Inr bs"
      "length bs = dq_capacity deque"
      "take futureCnt (drop (dq_leftIdx deque) bs) = splice (ar_values array2) loc len new"
    using put_values [of "ar_values array2" loc len newCount deque new] deque(2) a2(7) assms(3)
    by (auto simp: futureCnt_def)
  have splice: "splice (ar_values array2) loc len new = splice (ar_values array) loc len new"
    by (simp add: splice_def a2(5,6))
  have same: "bs = dq_buckets deque" if "newCount = 0"
    using bs(1) that \<open>length new = newCount\<close> by (auto simp: copy_into_def split: if_splits)
  define array3 where "array3 = array2\<lparr>ar_store := Some (deque\<lparr>dq_buckets := bs\<rparr>), ar_count := futureCnt\<rparr>"
  have put: "(if 0 < newCount then
               (case ar_store (array2\<lparr>ar_store := Some deque\<rparr>) of
                  None \<Rightarrow> Inl NullPointer
                | Some deque' \<Rightarrow>
                    ebind (copy_into (dq_buckets deque') (dq_leftIdx deque' + loc) new) (\<lambda>bs.
                    Inr ((array2\<lparr>ar_store := Some deque\<rparr>)\<lparr>ar_store := Some (deque'\<lparr>dq_buckets := bs\<rparr>)\<rparr>)))
             else Inr (array2\<lparr>ar_store := Some deque\<rparr>)) =
      Inr (array2\<lparr>ar_store := Some (deque\<lparr>dq_buckets := bs\<rparr>)\<rparr>)"
    using bs(1) same by simp
  have "CFArrayReplaceValues env array loc len newValues newCount =
      Inr (array3, concat (map (array_retain_event cb) (take newCount newValues)) @
        concat (map (array_release_event cb) (take len (drop loc (ar_values array)))))"
    unfolding CFArrayReplaceValues_def Let_def cb_def [symmetric] evs ebind_simps split
      array1_def [symmetric] a2(1) futureCnt_def [symmetric] deque(1) put
    by (simp add: array3_def)
  moreover have "ar_values array3 = splice (ar_values array) loc len new"
    using bs(3) splice by (simp add: array3_def ar_values_def a2'(1))
  moreover have "ar_wf array3"
    using deque(2) bs(2) a2'(1) by (simp add: array3_def ar_wf_def repositioned_def)
  ultimately show ?thesis
    using a2' a2(4) by (auto simp: replace_events_def cb_def new_def array3_def array1_def)
qed

section \<open>The interface of an editable sequence\<close>

text \<open>
  Everything that changes the number of values goes through one operation that replaces a range;
  \<open>stored\<close> is what is kept for a value that is put in.
\<close>

locale editable_sequence =
  fixes contents :: "'s \<Rightarrow> ptr list"
    and ok :: "'s \<Rightarrow> bool"
    and replace :: "'s \<Rightarrow> nat \<Rightarrow> nat \<Rightarrow> ptr list \<Rightarrow> nat \<Rightarrow> ('s \<times> ref_event list) cf"
    and stored :: "'s \<Rightarrow> ptr \<Rightarrow> ptr"
    and limit :: nat
  assumes replaces: "ok s \<Longrightarrow> loc + len \<le> length (contents s) \<Longrightarrow> n \<le> length new \<Longrightarrow>
    length (contents s) - len + n < limit \<Longrightarrow>
    \<exists>s' evs. replace s loc len new n = Inr (s', evs) \<and> ok s' \<and> stored s' = stored s \<and>
      contents s' = splice (contents s) loc len (map (stored s) (take n new))"
begin

lemma append_value:
  assumes "ok s" "length (contents s) + 1 < limit"
  shows "\<exists>s' evs. replace s (length (contents s)) 0 [v] 1 = Inr (s', evs) \<and> ok s' \<and> stored s' = stored s \<and>
    contents s' = contents s @ [stored s v]"
  using replaces [of s "length (contents s)" 0 1 "[v]"] assms by (auto simp: splice_def)

lemma insert_value:
  assumes "ok s" "i \<le> length (contents s)" "length (contents s) + 1 < limit"
  shows "\<exists>s' evs. replace s i 0 [v] 1 = Inr (s', evs) \<and> ok s' \<and>
    contents s' = take i (contents s) @ stored s v # drop i (contents s)"
  using replaces [of s i 0 1 "[v]"] assms by (auto simp: splice_def)

lemma remove_value:
  assumes "ok s" "i < length (contents s)" "length (contents s) - 1 < limit"
  shows "\<exists>s' evs. replace s i 1 [] 0 = Inr (s', evs) \<and> ok s' \<and>
    contents s' = take i (contents s) @ drop (Suc i) (contents s)"
  using replaces [of s i 1 0 "[]"] assms by (auto simp: splice_def)

end

definition array_ok :: "array_env \<Rightarrow> CFArray \<Rightarrow> bool" where
  "array_ok env array \<longleftrightarrow> ar_wf array \<and> ar_type array = ArrayDeque \<and> (\<forall>n. ae_alloc env n \<noteq> None)"

interpretation edit: editable_sequence ar_values "array_ok env" "CFArrayReplaceValues env"
    "\<lambda>array. array_retain env (ar_callbacks array)" array_max for env
proof unfold_locales
  fix s loc len n and new :: "ptr list"
  assume s: "array_ok env s" "loc + len \<le> length (ar_values s)" "n \<le> length new"
    "length (ar_values s) - len + n < array_max"
  have "length (ar_values s) = ar_count s" using s(1) by (simp add: array_ok_def ar_values_length)
  then show "\<exists>s' evs. CFArrayReplaceValues env s loc len new n = Inr (s', evs) \<and> array_ok env s' \<and>
      array_retain env (ar_callbacks s') = array_retain env (ar_callbacks s) \<and>
      ar_values s' = splice (ar_values s) loc len (map (array_retain env (ar_callbacks s)) (take n new))"
    using ReplaceValues_correct [of s loc len n new env] s by (auto simp: array_ok_def)
qed

text \<open>
  C2. \<open>_CFArrayReplaceValues\<close> on a mutable array replaces exactly the given range of the values by the
  retained new values, wherever the store has to be grown, shifted or re-centred for it, leaves the
  array well formed, and retains every new value before it releases the replaced ones, in order.
\<close>

theorem array_replace_values:
  assumes "ar_wf array" and "ar_type array = ArrayDeque" and "loc + len \<le> ar_count array"
    and "newCount \<le> length newValues" and "ar_count array - len + newCount < array_max"
    and "\<And>n. ae_alloc env n \<noteq> None"
  shows "\<exists>array'. CFArrayReplaceValues env array loc len newValues newCount =
      Inr (array', replace_events (ar_callbacks array) (take newCount newValues) (take len (drop loc (ar_values array)))) \<and>
    ar_wf array' \<and>
    ar_values array' = take loc (ar_values array) @ map (array_retain env (ar_callbacks array)) (take newCount newValues) @
      drop (loc + len) (ar_values array)"
  using ReplaceValues_correct [OF assms] by (auto simp: splice_def)

definition plain_array_env :: array_env where
  "plain_array_env = \<lparr>ae_create = True, ae_alloc = (\<lambda>n. Some (\<lambda>i. 0)), ae_retain = (\<lambda>c v. v + 1),
     ae_equal = (\<lambda>c a b. a div 16 = b div 16)\<rparr>"

definition owning_callbacks :: CFArrayCallBacks where
  "owning_callbacks = \<lparr>acb_retain = 256, acb_release = 512, acb_copyDescription = NULL, acb_equal = 768\<rparr>"

definition three_array :: CFArray where
  "three_array = \<lparr>ar_type = ArrayDeque, ar_count = 3, ar_mutations = 1, ar_callbacks = owning_callbacks,
     ar_inline = [], ar_store = Some \<lparr>dq_leftIdx = 0, dq_capacity = 4, dq_buckets = [16, 32, 48, 0]\<rparr>\<rparr>"

lemma three_array_simps:
  "ar_wf three_array" "ar_type three_array = ArrayDeque" "ar_values three_array = [16, 32, 48]"
  "ar_count three_array = 3" "ar_callbacks three_array = owning_callbacks"
  by (simp_all add: three_array_def ar_wf_def ar_values_def)

theorem array_replace_values_witness:
  "\<exists>array'. CFArrayReplaceValues plain_array_env three_array 1 1 [64, 80, 96] 3 =
      Inr (array', [Retained 64, Retained 80, Retained 96, Released 32]) \<and>
     ar_values array' = [16, 65, 81, 97, 48]"
  using array_replace_values [of three_array 1 1 3 "[64, 80, 96]" plain_array_env]
  by (auto simp: three_array_simps array_max_def plain_array_env_def replace_events_def array_retain_event_def
      array_release_event_def array_retain_def owning_callbacks_def)

section \<open>Appending an array\<close>

lemma array_append_loop_correct:
  assumes "array_ok env array" "ar_wf otherArray" "idx + n \<le> ar_count otherArray"
    and "length (ar_values array) + n < array_max"
  shows "\<exists>array' evs. array_append_loop env array otherArray idx n = Inr (array', evs) \<and> array_ok env array' \<and>
     ar_values array' = ar_values array @ map (array_retain env (ar_callbacks array)) (take n (drop idx (ar_values otherArray)))"
  using assms(1,3,4)
proof (induction n arbitrary: array idx)
  case (Suc n)
  let ?v = "ar_values otherArray ! idx"
  have get: "CFArrayGetValueAtIndex otherArray idx = Inr ?v"
    using GetBucket_correct [OF assms(2)] Suc.prems(2) by (simp add: CFArrayGetValueAtIndex_def)
  have cnt: "ar_count array = length (ar_values array)"
    using Suc.prems(1) by (simp add: array_ok_def ar_values_length)
  obtain array1 evs1 where a1: "CFArrayAppendValue env array ?v = Inr (array1, evs1)" "array_ok env array1"
      "array_retain env (ar_callbacks array1) = array_retain env (ar_callbacks array)"
      "ar_values array1 = ar_values array @ [array_retain env (ar_callbacks array) ?v]"
    using edit.append_value [OF Suc.prems(1), of ?v] Suc.prems(3) by (auto simp: CFArrayAppendValue_def cnt)
  obtain array2 evs2 where "array_append_loop env array1 otherArray (idx + 1) n = Inr (array2, evs2)" "array_ok env array2"
      "ar_values array2 = ar_values array1 @ map (array_retain env (ar_callbacks array1)) (take n (drop (idx + 1) (ar_values otherArray)))"
    using Suc.IH [OF a1(2), of "idx + 1"] Suc.prems(2,3) a1(4) by auto
  moreover have "drop idx (ar_values otherArray) = ?v # drop (idx + 1) (ar_values otherArray)"
    using Suc.prems(2) ar_values_length [OF assms(2)] by (simp add: Cons_nth_drop_Suc)
  ultimately show ?case using get a1 by simp
qed simp

text \<open>
  A mutable copy of any well-formed array, made without a capacity, is well formed and holds the
  retained values of the original in order.
\<close>

theorem array_mutable_copy:
  assumes "ar_wf array" and "ae_create env" and "\<And>n. ae_alloc env n \<noteq> None" and "ar_count array < array_max"
  shows "\<exists>copy evs. CFArrayCreateMutableCopy env 0 array = Inr (copy, evs) \<and> array_ok env copy \<and>
    ar_values copy = map (array_retain env (ar_callbacks array)) (ar_values array)"
proof -
  define new where "new = \<lparr>ar_type = ArrayDeque, ar_count = 0, ar_mutations = 1, ar_callbacks = ar_callbacks array,
     ar_inline = [], ar_store = None\<rparr>"
  have init: "CFArrayInit env ArrayDeque 0 (Some (ar_callbacks array)) (\<lambda>i. NULL) = Some new"
    using assms(2) by (simp add: CFArrayInit_def new_def)
  have "ar_count array < 2 ^ 30" using assms(4) by (simp add: array_max_def)
  then obtain capacity where c: "CFArrayDequeRoundUpCapacity (ar_count array) = Inr capacity" "capacity \<le> 2 ^ 30"
    using RoundUp_correct by metis
  obtain junk where junk: "ae_alloc env capacity = Some junk" using assms(3) by blast
  define sized where "sized = new\<lparr>ar_store := Some \<lparr>dq_leftIdx = capacity div 2, dq_capacity = capacity,
     dq_buckets = map junk [0..<capacity]\<rparr>\<rparr>"
  have sized: "CFArraySetCapacity env new (ar_count array) = Inr sized"
    using c junk by (simp add: CFArraySetCapacity_def new_def sized_def)
  have "array_ok env sized" "ar_values sized = []" "ar_callbacks sized = ar_callbacks array"
    using assms(3) c(2) by (auto simp: array_ok_def sized_def new_def ar_wf_def ar_values_def)
  then show ?thesis
    using array_append_loop_correct [of env sized array 0 "ar_count array"] assms(1,4) ar_values_length [OF assms(1)]
    by (simp add: CFArrayCreateMutableCopy_def init sized)
qed

theorem array_mutable_copy_witness:
  "\<exists>copy evs. CFArrayCreateMutableCopy plain_array_env 0 three_array = Inr (copy, evs) \<and>
     ar_values copy = [17, 33, 49]"
  using array_mutable_copy [of three_array plain_array_env]
  by (auto simp: three_array_simps array_max_def plain_array_env_def array_retain_def owning_callbacks_def)

section \<open>Searching and sorting\<close>

lemma take_drop_take: "i + n \<le> k \<Longrightarrow> take n (drop i (take k xs)) = take n (drop i xs)"
  by (simp add: drop_take)

lemma array_GetValues_correct:
  assumes "ar_wf array" "loc + len \<le> ar_count array"
  shows "CFArrayGetValues array loc len = Inr (take len (drop loc (ar_values array)))"
proof (cases "0 < len")
  case True
  show ?thesis
  proof (cases "ar_type array")
    case ArrayImmutable
    then show ?thesis
      using True assms by (simp add: CFArrayGetValues_def array_cells_def slice_def ar_wf_def ar_values_def take_drop_take)
  next
    case ArrayDeque
    then obtain deque where "ar_store array = Some deque"
      using True assms by (cases "ar_store array") (simp_all add: ar_wf_def)
    then show ?thesis
      using True assms ArrayDeque
      by (simp add: CFArrayGetValues_def array_cells_def slice_def ar_wf_def ar_values_def take_drop_take add.commute)
  qed
qed (simp add: CFArrayGetValues_def)

lemma array_first_loop_correct:
  assumes "ar_wf array" "loc + idx + n \<le> ar_count array"
  shows "array_first_loop env array value loc idx n =
    (case filter (\<lambda>i. same_value env (ar_callbacks array) value (ar_values array ! i)) [loc + idx..<loc + idx + n] of
       [] \<Rightarrow> Inr kCFNotFound | i # _ \<Rightarrow> Inr (int i))"
  using assms(2)
proof (induction n arbitrary: idx)
  case (Suc n)
  have get: "CFArrayGetValueAtIndex array (loc + idx) = Inr (ar_values array ! (loc + idx))"
    using GetBucket_correct [OF assms(1)] Suc.prems by (simp add: CFArrayGetValueAtIndex_def)
  have "[loc + idx..<loc + idx + Suc n] = (loc + idx) # [loc + (idx + 1)..<loc + (idx + 1) + n]"
    by (simp add: upt_rec)
  then show ?case using Suc get by (simp add: add.commute)
qed simp

lemma array_last_loop_correct:
  assumes "ar_wf array" "loc + n \<le> ar_count array"
  shows "array_last_loop env array value loc n =
    (case rev (filter (\<lambda>i. same_value env (ar_callbacks array) value (ar_values array ! i)) [loc..<loc + n]) of
       [] \<Rightarrow> Inr kCFNotFound | i # _ \<Rightarrow> Inr (int i))"
  using assms(2)
proof (induction n)
  case (Suc n)
  have "CFArrayGetValueAtIndex array (loc + n) = Inr (ar_values array ! (loc + n))"
    using GetBucket_correct [OF assms(1)] Suc.prems by (simp add: CFArrayGetValueAtIndex_def)
  then show ?case using Suc by (simp add: add.commute)
qed simp

lemma array_count_loop_correct:
  assumes "ar_wf array" "loc + idx + n \<le> ar_count array"
  shows "array_count_loop env array value loc idx n c =
    Inr (c + length (filter (\<lambda>i. same_value env (ar_callbacks array) value (ar_values array ! i)) [loc + idx..<loc + idx + n]))"
  using assms(2)
proof (induction n arbitrary: idx c)
  case (Suc n)
  have get: "CFArrayGetValueAtIndex array (loc + idx) = Inr (ar_values array ! (loc + idx))"
    using GetBucket_correct [OF assms(1)] Suc.prems by (simp add: CFArrayGetValueAtIndex_def)
  have "[loc + idx..<loc + idx + Suc n] = (loc + idx) # [loc + (idx + 1)..<loc + (idx + 1) + n]"
    by (simp add: upt_rec)
  then show ?case using Suc get by simp
qed simp

text \<open>
  The linear searches agree with the list of the indexes of a range whose values are the given one
  or equal to it by the callback: its length is the count, its first and last elements are the indexes
  found, \<open>kCFNotFound\<close> and \<open>false\<close> say that it is empty.
\<close>

theorem array_searches:
  assumes "ar_wf array" and "loc + len \<le> ar_count array"
    and "hits = filter (\<lambda>i. same_value env (ar_callbacks array) value (ar_values array ! i)) [loc..<loc + len]"
  shows "CFArrayGetCountOfValue env array loc len value = Inr (length hits) \<and>
    CFArrayContainsValue env array loc len value = Inr (hits \<noteq> []) \<and>
    CFArrayGetFirstIndexOfValue env array loc len value = Inr (if hits = [] then kCFNotFound else int (hd hits)) \<and>
    CFArrayGetLastIndexOfValue env array loc len value = Inr (if hits = [] then kCFNotFound else int (last hits))"
proof -
  note first = array_first_loop_correct [OF assms(1), of loc 0 len env "value", simplified add_0_right, OF assms(2), folded assms(3)]
  note last' = array_last_loop_correct [OF assms(1,2), of env "value", folded assms(3)]
  note counted = array_count_loop_correct [OF assms(1), of loc 0 len env "value" 0, simplified add_0_right, OF assms(2), folded assms(3)]
  have "CFArrayGetFirstIndexOfValue env array loc len value = Inr (if hits = [] then kCFNotFound else int (hd hits))"
    unfolding CFArrayGetFirstIndexOfValue_def first by (cases hits) simp_all
  moreover have "CFArrayContainsValue env array loc len value = Inr (hits \<noteq> [])"
    unfolding CFArrayContainsValue_def first by (cases hits) (simp_all add: kCFNotFound_def)
  moreover have "CFArrayGetLastIndexOfValue env array loc len value = Inr (if hits = [] then kCFNotFound else int (last hits))"
    unfolding CFArrayGetLastIndexOfValue_def last' by (cases hits rule: rev_cases) simp_all
  ultimately show ?thesis using counted by (simp add: CFArrayGetCountOfValue_def)
qed

theorem array_searches_witness:
  "CFArrayGetFirstIndexOfValue plain_array_env three_array 0 3 33 = Inr 1"
  using array_searches [of three_array 0 3 _ plain_array_env 33]
  by (simp add: three_array_simps same_value_def owning_callbacks_def plain_array_env_def upt_rec)

lemma array_retain_null: "acb_retain cb = NULL \<Longrightarrow> array_retain env cb = (\<lambda>v. v)"
  by (simp add: array_retain_def fun_eq_iff)

text \<open>
  C4. \<open>CFArraySortValues\<close> on a mutable array whose callbacks are balanced replaces the range by a stable
  sorted rearrangement of its values (each retained again), for every comparator that is a total
  preorder on them.
\<close>

theorem array_sort_values:
  assumes "array_ok env array" and "loc + len \<le> ar_count array" and "ar_count array < array_max"
    and "(acb_retain (ar_callbacks array) = NULL) = (acb_release (ar_callbacks array) = NULL)"
    and "comparator cmp (set (take len (drop loc (ar_values array))))" and "sort_mem_ok senv len 8"
  shows "\<exists>array' evs ys. CFArraySortValues env senv cmp array loc len = Inr (array', evs) \<and> ar_wf array' \<and>
    stable_sorted cmp (take len (drop loc (ar_values array))) ys \<and>
    ar_values array' = take loc (ar_values array) @
      (if len < 2 then ys else map (array_retain env (ar_callbacks array)) ys) @ drop (loc + len) (ar_values array)"
proof -
  let ?old = "take len (drop loc (ar_values array))"
  have wf: "ar_wf array" "ar_type array = ArrayDeque" "\<And>n. ae_alloc env n \<noteq> None"
    using assms(1) by (simp_all add: array_ok_def)
  have len: "length ?old = len" using ar_values_length [OF wf(1)] assms(2) by simp
  have run: "CFArraySortValues env senv cmp array loc len = sort_through_buffer env senv cmp array loc len False"
    using assms(4) wf(2) by (auto simp: CFArraySortValues_def Let_def)
  show ?thesis
  proof (cases "len < 2")
    case True
    then have "stable_sorted cmp ?old ?old"
      using len by (cases ?old) (auto simp: stable_sorted_def)
    moreover have "ar_values array = take loc (ar_values array) @ ?old @ drop (loc + len) (ar_values array)"
      by (metis append_take_drop_id drop_drop add.commute)
    ultimately show ?thesis
      using True run wf(1) by (auto simp: sort_through_buffer_def)
  next
    case False
    obtain ys where ys: "CFQSortArray senv ?old (length ?old) 8 cmp = Inr ys" "stable_sorted cmp ?old ys"
      using q_sort.sorts [of 8 senv ?old cmp] assms(5,6) len by auto
    have ylen: "length ys = len" using ys(2) len by (metis stable_perm_length stable_sorted_iff)
    obtain array' where a: "CFArrayReplaceValues env array loc len ys len =
        Inr (array', replace_events (ar_callbacks array) (take len ys) ?old)" "ar_wf array'"
        "ar_values array' = splice (ar_values array) loc len (map (array_retain env (ar_callbacks array)) (take len ys))"
      using ReplaceValues_correct [OF wf(1,2) assms(2), of len ys env] ylen assms(2,3) wf(3) by auto
    have "sort_through_buffer env senv cmp array loc len False =
        Inr (array', replace_events (ar_callbacks array) (take len ys) ?old)"
      using False ys(1) a(1) wf(3) [of len] array_GetValues_correct [OF wf(1) assms(2)] len
      by (simp add: sort_through_buffer_def)
    then show ?thesis using run a ys(2) ylen False by (auto simp: splice_def)
  qed
qed

theorem array_sort_values_witness:
  "\<exists>array' evs ys. CFArraySortValues plain_array_env granted_sort_env (\<lambda>a b. uint b - uint a) three_array 0 3 = Inr (array', evs) \<and>
     stable_sorted (\<lambda>a b. uint b - uint a) [16, 32, 48] ys \<and> ar_values array' = map (\<lambda>v. v + 1) ys"
proof -
  have "comparator (\<lambda>a b. uint b - uint a) (set (take 3 (drop 0 (ar_values three_array))))"
    by (auto simp: comparator_def)
  moreover have "array_ok plain_array_env three_array" by (simp add: array_ok_def three_array_simps plain_array_env_def)
  moreover have "array_retain plain_array_env owning_callbacks = (\<lambda>v. v + 1)"
    by (simp add: fun_eq_iff array_retain_def plain_array_env_def owning_callbacks_def)
  moreover have "(acb_retain owning_callbacks = NULL) = (acb_release owning_callbacks = NULL)"
    by (simp add: owning_callbacks_def)
  ultimately show ?thesis
    using array_sort_values [of plain_array_env three_array 0 3 "\<lambda>a b. uint b - uint a" granted_sort_env]
    by (auto simp: three_array_simps array_max_def sort_mem_ok_def)
qed

section \<open>Binary search\<close>

lemma bsearch_loop_correct:
  assumes "ar_wf array" "loc + len \<le> ar_count array"
    and prefix: "\<And>i. i < len \<Longrightarrow> cmp (ar_values array ! (loc + i)) value < 0 \<longleftrightarrow> i < p"
    and "-1 \<le> idx" "idx < int p" "int p \<le> idx + 2 ^ lg" "idx + 2 ^ lg \<le> int len"
  shows "bsearch_loop cmp array value loc idx lg = Inr (int p - 1)"
  using assms(4-)
proof (induction lg arbitrary: idx)
  case (Suc lg)
  let ?i = "nat (idx + 2 ^ lg)"
  have one: "(1::int) \<le> 2 ^ lg" by simp
  have i: "int ?i = idx + 2 ^ lg" "?i < len" using Suc.prems one by auto
  have pos: "nat (int loc + idx + 2 ^ lg) = loc + ?i" "\<not> int loc + idx + 2 ^ lg < 0"
    using i(1) by linarith+
  have get: "CFArrayGetValueAtIndex array (loc + ?i) = Inr (ar_values array ! (loc + ?i))"
    using GetBucket_correct [OF assms(1), of "loc + ?i"] i(2) assms(2) by (simp add: CFArrayGetValueAtIndex_def)
  show ?case
  proof (cases "cmp (ar_values array ! (loc + ?i)) value < 0")
    case True
    then have "idx + 2 ^ lg < int p" using prefix [OF i(2)] i(1) by linarith
    then have "bsearch_loop cmp array value loc (idx + 2 ^ lg) lg = Inr (int p - 1)"
      using Suc.prems one by (intro Suc.IH) auto
    then show ?thesis using True get pos by simp
  next
    case False
    then have "int p \<le> idx + 2 ^ lg" using prefix [OF i(2)] i(1) by linarith
    then have "bsearch_loop cmp array value loc idx lg = Inr (int p - 1)"
      using Suc.prems one by (intro Suc.IH) auto
    then show ?thesis using False get pos by simp
  qed
qed auto

text \<open>
  C6. \<open>CFArrayBSearchValues\<close> on a range of at most \<open>2^31 - 1\<close> values that the comparator divides into
  those below the value sought and the others returns the place where the others begin, with all its
  probes inside the range.
\<close>

theorem array_bsearch:
  assumes "ar_wf array" and "loc + len \<le> ar_count array" and "len < 2 ^ 31" and "p \<le> len"
    and "\<And>i. i < len \<Longrightarrow> cmp (ar_values array ! (loc + i)) value < 0 \<longleftrightarrow> i < p"
    and "0 < len \<Longrightarrow> cmp value (ar_values array ! loc) < 0 \<Longrightarrow> p = 0"
  shows "CFArrayBSearchValues cmp array loc len value = Inr (loc + p)"
proof (cases "len = 0")
  case True
  then show ?thesis using assms(4) by (simp add: CFArrayBSearchValues_def)
next
  case False
  have get: "CFArrayGetValueAtIndex array (loc + i) = Inr (ar_values array ! (loc + i))" if "i < len" for i
    using GetBucket_correct [OF assms(1)] that assms(2) by (simp add: CFArrayGetValueAtIndex_def)
  have last: "CFArrayGetValueAtIndex array (loc + len - 1) = Inr (ar_values array ! (loc + (len - 1)))"
    using get [of "len - 1"] False by simp
  have first: "CFArrayGetValueAtIndex array loc = Inr (ar_values array ! loc)"
    using get [of 0] False by simp
  define lg where "lg = flsl len - 1"
  then have lg: "flsl len - Suc 0 = lg" by simp
  have pow: "2 ^ lg \<le> len" "len < 2 * 2 ^ lg"
  proof -
    show "2 ^ lg \<le> len" using flsl_lower [OF False] by (simp add: lg_def)
    have "flsl len \<noteq> 0" using False by (subst flsl.simps) simp
    then have "flsl len = Suc lg" by (simp add: lg_def)
    then show "len < 2 * 2 ^ lg" using flsl_upper [of len] by simp
  qed
  have "lg < 31" using flsl_le [OF assms(3)] by (simp add: lg_def)
  then have shift: "int_shift_1 lg = Inr (2 ^ lg)" by (simp add: int_shift_1_def)
  let ?probe = "2 ^ lg - 1 :: nat"
  have probe: "CFArrayGetValueAtIndex array (loc + 2 ^ lg - 1) = Inr (ar_values array ! (loc + ?probe))"
    using get [of ?probe] pow by (simp add: Suc_le_lessD)
  have "int (2 ^ lg) \<le> int len" "int len < int (2 * 2 ^ lg)" using pow by (simp_all only: of_nat_le_iff of_nat_less_iff)
  then have pow_int: "(2::int) ^ lg \<le> int len" "int len < 2 * 2 ^ lg" by simp_all
  consider (all) "cmp (ar_values array ! (loc + (len - 1))) value < 0"
    | (none) "\<not> cmp (ar_values array ! (loc + (len - 1))) value < 0" "cmp value (ar_values array ! loc) < 0"
    | (upper) "\<not> cmp (ar_values array ! (loc + (len - 1))) value < 0" "\<not> cmp value (ar_values array ! loc) < 0"
        "cmp (ar_values array ! (loc + ?probe)) value < 0"
    | (lower) "\<not> cmp (ar_values array ! (loc + (len - 1))) value < 0" "\<not> cmp value (ar_values array ! loc) < 0"
        "\<not> cmp (ar_values array ! (loc + ?probe)) value < 0"
    by blast
  then show ?thesis
  proof cases
    case all
    then have "p = len" using assms(5) [of "len - 1"] assms(4) False by auto
    then show ?thesis using all False last by (simp add: CFArrayBSearchValues_def)
  next
    case none
    then show ?thesis using assms(6) False last first by (simp add: CFArrayBSearchValues_def)
  next
    case upper
    have p: "p < len" using assms(5) [of "len - 1"] upper(1) assms(4) False by auto
    have "?probe < p" using assms(5) [of ?probe] upper(3) pow by (auto simp: Suc_le_lessD)
    then have "2 ^ lg \<le> p" by linarith
    then have "int (2 ^ lg) \<le> int p" by (simp only: of_nat_le_iff)
    then have "(2::int) ^ lg \<le> int p" by simp
    with pow_int have "int len - 2 ^ lg < int p" by linarith
    with p have "bsearch_loop cmp array value loc (int len - 2 ^ lg) lg = Inr (int p - 1)"
      using bsearch_loop_correct [of array loc len cmp "value" p "int len - 2 ^ lg" lg] assms(1,2,5) pow_int
      by simp
    then show ?thesis
      using upper False last first shift probe
      by (simp add: CFArrayBSearchValues_def lg Let_def)
  next
    case lower
    have "\<not> ?probe < p" using assms(5) [of ?probe] lower(3) pow by (auto simp: Suc_le_lessD)
    then have "p < 2 ^ lg" using zero_less_power [of "2::nat" lg] by linarith
    then have "int p < int (2 ^ lg)" by (simp only: of_nat_less_iff)
    then have "int p < 2 ^ lg" by simp
    then have "bsearch_loop cmp array value loc (-1) lg = Inr (int p - 1)"
      using bsearch_loop_correct [of array loc len cmp "value" p "-1" lg] assms(1,2,5) pow_int
      by simp
    then show ?thesis
      using lower False last first shift probe
      by (simp add: CFArrayBSearchValues_def lg Let_def)
  qed
qed

theorem array_bsearch_witness:
  "CFArrayBSearchValues (\<lambda>a b. uint a - uint b) three_array 0 3 40 = Inr 2"
proof -
  have "CFArrayBSearchValues (\<lambda>a b. uint a - uint b) three_array 0 3 40 = Inr (0 + 2)"
  proof (rule array_bsearch)
    fix i :: nat
    assume "i < 3"
    then consider "i = 0" | "i = 1" | "i = 2" by linarith
    then show "uint (ar_values three_array ! (0 + i)) - uint (40 :: ptr) < 0 \<longleftrightarrow> i < 2"
      by cases (simp_all add: three_array_simps)
  qed (simp_all add: three_array_simps)
  then show ?thesis by simp
qed

section \<open>Setting the capacity\<close>

text \<open>
  \<open>_CFArraySetCapacity\<close> copies the whole old store into the new one: asked for a capacity that is
  enough for the values but rounds to less than the present capacity, it writes past the end of the new
  block.
\<close>

theorem array_set_capacity_overruns:
  assumes "ar_wf array" and "ar_type array = ArrayDeque" and "ar_store array = Some deque"
    and "ar_count array \<le> cap" and "CFArrayDequeRoundUpCapacity cap = Inr capacity"
    and "capacity < dq_capacity deque" and "ae_alloc env capacity = Some junk"
  shows "CFArraySetCapacity env array cap = Inl OutOfBounds"
  using assms by (simp add: CFArraySetCapacity_def slice_def copy_into_def ar_wf_def)

definition roomy_array :: CFArray where
  "roomy_array = three_array\<lparr>ar_store := Some \<lparr>dq_leftIdx = 0, dq_capacity = 8, dq_buckets = [16, 32, 48, 0, 0, 0, 0, 0]\<rparr>\<rparr>"

theorem array_set_capacity_overruns_witness:
  "CFArraySetCapacity plain_array_env roomy_array 3 = Inl OutOfBounds"
  by (rule array_set_capacity_overruns [where deque = "\<lparr>dq_leftIdx = 0, dq_capacity = 8, dq_buckets = [16, 32, 48, 0, 0, 0, 0, 0]\<rparr>"
        and capacity = 4 and junk = "\<lambda>i. 0"])
    (simp_all add: roomy_array_def three_array_def ar_wf_def CFArrayDequeRoundUpCapacity_def plain_array_env_def)

end
