(* ===== verification/CF_BitVector.thy ===== *)
theory CF_BitVector
  imports CF_Prelude
begin

unbundle bit_operations_syntax

text \<open>
  \<open>CFBitVector.c\<close>: a vector of bits in a block of bytes, bit 0 being the most significant bit of byte
  0. Every operation on a range goes through \<open>__CFBitVectorInternalMap\<close>, which hands the bytes of the
  range with a mask to a mapper; a mapper is a function of the byte, the mask and its context. A
  \<open>CFBit\<close> is a \<open>bool\<close>. Allocation and the contents of fresh memory are the \<open>env\<close> argument.
\<close>

section \<open>State\<close>

type_synonym bucket = "8 word"

datatype CFBitVectorVariety = BitVectorImmutable | BitVectorMutable

record CFBitVector =
  bv_count :: nat
  bv_capacity :: nat
  bv_buckets :: "bucket list"
  bv_variety :: CFBitVectorVariety

record bits_env =
  be_create :: bool
  be_alloc :: "nat \<Rightarrow> (nat \<Rightarrow> bucket) option"

definition CFBitVectorRoundUpCapacity :: "nat \<Rightarrow> nat" where
  "CFBitVectorRoundUpCapacity capacity = ((if capacity = 0 then 1 else capacity) + 63) div 64 * 64"

definition CFBitVectorNumBuckets :: "CFBitVector \<Rightarrow> nat" where
  "CFBitVectorNumBuckets bv = bv_capacity bv div 8 + 1"

section \<open>Bits of a bucket\<close>

definition CFBitBucketMask :: "nat \<Rightarrow> nat \<Rightarrow> bucket" where
  "CFBitBucketMask bottomBit topBit =
     (let shiftL = 8 - topBit + bottomBit - 1 in drop_bit bottomBit (push_bit shiftL (NOT 0)))"

definition CFBitVectorBit :: "bucket list \<Rightarrow> nat \<Rightarrow> bool cf" where
  "CFBitVectorBit buckets idx =
     ebind (rd buckets (idx div 8)) (\<lambda>b. Inr (drop_bit (7 - idx mod 8) b AND 1 \<noteq> 0))"

definition CFSetBitVectorBit :: "bucket list \<Rightarrow> nat \<Rightarrow> bool \<Rightarrow> bucket list cf" where
  "CFSetBitVectorBit buckets idx value =
     ebind (rd buckets (idx div 8)) (\<lambda>b.
     wr buckets (idx div 8) (if value then b OR push_bit (7 - idx mod 8) 1 else b AND NOT (push_bit (7 - idx mod 8) 1)))"

definition CFFlipBitVectorBit :: "bucket list \<Rightarrow> nat \<Rightarrow> bucket list cf" where
  "CFFlipBitVectorBit buckets idx =
     ebind (rd buckets (idx div 8)) (\<lambda>b. wr buckets (idx div 8) (b XOR push_bit (7 - idx mod 8) 1))"

section \<open>Equality, creation\<close>

fun bits_equal_loop :: "bucket list \<Rightarrow> bucket list \<Rightarrow> nat \<Rightarrow> nat \<Rightarrow> bool cf" where
  "bits_equal_loop b1 b2 idx 0 = Inr True"
| "bits_equal_loop b1 b2 idx (Suc n) =
     ebind (rd b1 idx) (\<lambda>val1. ebind (rd b2 idx) (\<lambda>val2.
     if val1 \<noteq> val2 then Inr False else bits_equal_loop b1 b2 (idx + 1) n))"

definition CFBitVectorEqual :: "CFBitVector \<Rightarrow> CFBitVector \<Rightarrow> bool cf" where
  "CFBitVectorEqual bv1 bv2 =
     (let cnt = bv_count bv1 in
      if cnt \<noteq> bv_count bv2 then Inr False
      else if cnt = 0 then Inr True
      else bits_equal_loop (bv_buckets bv1) (bv_buckets bv2) 0 (cnt div 8 + 1))"

definition CFBitVectorHash :: "CFBitVector \<Rightarrow> nat" where "CFBitVectorHash bv = bv_count bv"

definition CFBitVectorGetCount :: "CFBitVector \<Rightarrow> nat" where "CFBitVectorGetCount bv = bv_count bv"

definition CFBitVectorInit ::
  "bits_env \<Rightarrow> CFBitVectorVariety \<Rightarrow> bucket list option \<Rightarrow> nat \<Rightarrow> CFBitVector option cf" where
  "CFBitVectorInit env variety bytes numBits =
     (if \<not> be_create env then Inr None
      else
        (let capacity = CFBitVectorRoundUpCapacity numBits;
             n = capacity div 8 + 1
         in case be_alloc env n of
              None \<Rightarrow> Inr None
            | Some junk \<Rightarrow>
                ebind (fill (map junk [0..<n]) 0 n 0) (\<lambda>buckets.
                ebind (case bytes of
                         None \<Rightarrow> Inr buckets
                       | Some bytes \<Rightarrow>
                           ebind (slice bytes 0 (numBits div 8 + (if numBits mod 8 \<noteq> 0 then 1 else 0))) (\<lambda>cells.
                           copy_into buckets 0 cells)) (\<lambda>buckets.
                Inr (Some \<lparr>bv_count = numBits, bv_capacity = capacity, bv_buckets = buckets, bv_variety = variety\<rparr>)))))"

definition CFBitVectorCreate :: "bits_env \<Rightarrow> bucket list option \<Rightarrow> nat \<Rightarrow> CFBitVector option cf" where
  "CFBitVectorCreate env bytes numBits = CFBitVectorInit env BitVectorImmutable bytes numBits"

definition CFBitVectorCreateMutable :: "bits_env \<Rightarrow> nat \<Rightarrow> CFBitVector option cf" where
  "CFBitVectorCreateMutable env capacity = CFBitVectorInit env BitVectorMutable None 0"

definition CFBitVectorCreateCopy :: "bits_env \<Rightarrow> CFBitVector \<Rightarrow> CFBitVector option cf" where
  "CFBitVectorCreateCopy env bv = CFBitVectorInit env BitVectorImmutable (Some (bv_buckets bv)) (bv_count bv)"

definition CFBitVectorCreateMutableCopy :: "bits_env \<Rightarrow> nat \<Rightarrow> CFBitVector \<Rightarrow> CFBitVector option cf" where
  "CFBitVectorCreateMutableCopy env capacity bv =
     CFBitVectorInit env BitVectorMutable (Some (bv_buckets bv)) (bv_count bv)"

section \<open>The map over a range\<close>

type_synonym 's mapper = "bucket \<Rightarrow> bucket \<Rightarrow> 's \<Rightarrow> (bucket \<times> 's) cf"

text \<open>One bucket with a mask: only the masked bits take the new value.\<close>

definition map_masked :: "'s mapper \<Rightarrow> bucket list \<Rightarrow> nat \<Rightarrow> bucket \<Rightarrow> 's \<Rightarrow> (bucket list \<times> 's) cf" where
  "map_masked mapper buckets bucketIdx bmask context =
     ebind (rd buckets bucketIdx) (\<lambda>b.
     ebind (mapper b bmask context) (\<lambda>(newBucketVal, context).
     ebind (wr buckets bucketIdx ((b AND NOT bmask) OR (newBucketVal AND bmask))) (\<lambda>buckets.
     Inr (buckets, context))))"

fun map_whole :: "'s mapper \<Rightarrow> bucket list \<Rightarrow> nat \<Rightarrow> nat \<Rightarrow> 's \<Rightarrow> (bucket list \<times> 's) cf" where
  "map_whole mapper buckets bucketIdx 0 context = Inr (buckets, context)"
| "map_whole mapper buckets bucketIdx (Suc nBuckets) context =
     ebind (rd buckets bucketIdx) (\<lambda>b.
     ebind (mapper b (NOT 0) context) (\<lambda>(newBucketVal, context).
     ebind (wr buckets bucketIdx newBucketVal) (\<lambda>buckets.
     map_whole mapper buckets (bucketIdx + 1) nBuckets context)))"

definition CFBitVectorInternalMap ::
  "'s mapper \<Rightarrow> bucket list \<Rightarrow> nat \<Rightarrow> nat \<Rightarrow> 's \<Rightarrow> (bucket list \<times> 's) cf" where
  "CFBitVectorInternalMap mapper buckets loc len context =
     (if len = 0 then Inr (buckets, context)
      else
        (let bucketIdx = loc div 8;
             bitOfBucket = loc mod 8;
             (bmask, len) = (if bitOfBucket + len < 8 then (CFBitBucketMask bitOfBucket (bitOfBucket + len - 1), 0)
                            else (CFBitBucketMask bitOfBucket 7, len - (8 - bitOfBucket)))
         in ebind (map_masked mapper buckets bucketIdx bmask context) (\<lambda>(buckets, context).
            let nBuckets = len div 8; rest = len - nBuckets * 8 in
            ebind (map_whole mapper buckets (bucketIdx + 1) nBuckets context) (\<lambda>(buckets, context).
            if rest \<noteq> 0
            then map_masked mapper buckets (bucketIdx + 1 + nBuckets) (CFBitBucketMask 0 (rest - 1)) context
            else Inr (buckets, context)))))"

section \<open>Counting and reading\<close>

definition nibble_bit_count :: "nat list" where
  "nibble_bit_count = [0, 1, 1, 2, 1, 2, 2, 3, 1, 2, 2, 3, 2, 3, 3, 4]"

definition CFBitVectorCountBits :: "bool \<Rightarrow> nat mapper" where
  "CFBitVectorCountBits value bucketValue bmask c =
     (let val = (if value then bucketValue AND bmask else NOT bucketValue AND bmask) in
      ebind (rd nibble_bit_count (unat (val AND 15))) (\<lambda>n0.
      ebind (rd nibble_bit_count (unat (drop_bit 4 val AND 15))) (\<lambda>n1.
      Inr (bucketValue, c + n0 + n1))))"

definition CFBitVectorGetCountOfBit :: "CFBitVector \<Rightarrow> nat \<Rightarrow> nat \<Rightarrow> bool \<Rightarrow> nat cf" where
  "CFBitVectorGetCountOfBit bv loc len value =
     (if len = 0 then Inr 0
      else ebind (CFBitVectorInternalMap (CFBitVectorCountBits value) (bv_buckets bv) loc len 0) (\<lambda>(buckets, c). Inr c))"

definition CFBitVectorContainsBit :: "CFBitVector \<Rightarrow> nat \<Rightarrow> nat \<Rightarrow> bool \<Rightarrow> bool cf" where
  "CFBitVectorContainsBit bv loc len value = ebind (CFBitVectorGetCountOfBit bv loc len value) (\<lambda>c. Inr (c \<noteq> 0))"

definition CFBitVectorGetBitAtIndex :: "CFBitVector \<Rightarrow> nat \<Rightarrow> bool cf" where
  "CFBitVectorGetBitAtIndex bv idx = CFBitVectorBit (bv_buckets bv) idx"

text \<open>
  The context of \<open>__CFBitVectorGetBits\<close>: the bytes written so far with the index of the current one,
  the bits of each bucket that belong to the previous byte, the bits still to come, and the flag that
  the first of them are to be skipped.
\<close>

record getBitsContext =
  gb_bytes :: "bucket list"
  gb_curByte :: nat
  gb_initBits :: nat
  gb_totalBits :: int
  gb_ignoreFirstInitBits :: bool

definition get_bits_front :: "bucket \<Rightarrow> getBitsContext \<Rightarrow> getBitsContext cf" where
  "get_bits_front val context =
     (if 0 < gb_initBits context \<and> \<not> gb_ignoreFirstInitBits context then
        ebind (rd (gb_bytes context) (gb_curByte context)) (\<lambda>b.
        ebind (wr (gb_bytes context) (gb_curByte context) (b OR drop_bit (8 - gb_initBits context) val)) (\<lambda>bytes.
        Inr (context\<lparr>gb_bytes := bytes, gb_curByte := gb_curByte context + 1,
          gb_totalBits := gb_totalBits context - int (gb_initBits context), gb_ignoreFirstInitBits := False\<rparr>)))
      else Inr context)"

definition CFBitVectorGetBitsMapper :: "getBitsContext mapper" where
  "CFBitVectorGetBitsMapper bucketValue bmask context =
     (let val = bucketValue AND bmask;
          nBits = min (8 - int (gb_initBits context)) (gb_totalBits context)
      in ebind (get_bits_front val context) (\<lambda>context.
         let val = (if 0 < gb_initBits context then push_bit (gb_initBits context) val else val) in
         if 8 \<le> nBits then
           ebind (wr (gb_bytes context) (gb_curByte context) val) (\<lambda>bytes.
           let context = context\<lparr>gb_bytes := bytes, gb_curByte := gb_curByte context + 1,
                 gb_totalBits := gb_totalBits context - int (gb_initBits context)\<rparr>
           in if 0 < nBits - 8 then
                ebind (wr (gb_bytes context) (gb_curByte context) 0) (\<lambda>bytes.
                Inr (bucketValue, context\<lparr>gb_bytes := bytes, gb_totalBits := gb_totalBits context - (nBits - 8)\<rparr>))
              else Inr (bucketValue, context))
         else if 0 < nBits then
           ebind (wr (gb_bytes context) (gb_curByte context) val) (\<lambda>bytes.
           Inr (bucketValue, context\<lparr>gb_bytes := bytes, gb_totalBits := gb_totalBits context - nBits\<rparr>))
         else Inr (bucketValue, context)))"

definition CFBitVectorGetBits :: "CFBitVector \<Rightarrow> nat \<Rightarrow> nat \<Rightarrow> bucket list \<Rightarrow> bucket list cf" where
  "CFBitVectorGetBits bv loc len bytes =
     (if len = 0 then Inr bytes
      else ebind (CFBitVectorInternalMap CFBitVectorGetBitsMapper (bv_buckets bv) loc len
             \<lparr>gb_bytes = bytes, gb_curByte = 0, gb_initBits = loc mod 8, gb_totalBits = int len,
              gb_ignoreFirstInitBits = True\<rparr>) (\<lambda>(buckets, context). Inr (gb_bytes context)))"

fun bits_first_loop :: "CFBitVector \<Rightarrow> bool \<Rightarrow> nat \<Rightarrow> nat \<Rightarrow> nat \<Rightarrow> int cf" where
  "bits_first_loop bv value loc idx 0 = Inr kCFNotFound"
| "bits_first_loop bv value loc idx (Suc n) =
     ebind (CFBitVectorGetBitAtIndex bv (loc + idx)) (\<lambda>b.
     if value = b then Inr (int (loc + idx)) else bits_first_loop bv value loc (idx + 1) n)"

definition CFBitVectorGetFirstIndexOfBit :: "CFBitVector \<Rightarrow> nat \<Rightarrow> nat \<Rightarrow> bool \<Rightarrow> int cf" where
  "CFBitVectorGetFirstIndexOfBit bv loc len value = bits_first_loop bv value loc 0 len"

fun bits_last_loop :: "CFBitVector \<Rightarrow> bool \<Rightarrow> nat \<Rightarrow> nat \<Rightarrow> int cf" where
  "bits_last_loop bv value loc 0 = Inr kCFNotFound"
| "bits_last_loop bv value loc (Suc idx) =
     ebind (CFBitVectorGetBitAtIndex bv (loc + idx)) (\<lambda>b.
     if value = b then Inr (int (loc + idx)) else bits_last_loop bv value loc idx)"

definition CFBitVectorGetLastIndexOfBit :: "CFBitVector \<Rightarrow> nat \<Rightarrow> nat \<Rightarrow> bool \<Rightarrow> int cf" where
  "CFBitVectorGetLastIndexOfBit bv loc len value = bits_last_loop bv value loc len"

section \<open>Writing\<close>

definition CFBitVectorGrow :: "bits_env \<Rightarrow> CFBitVector \<Rightarrow> nat \<Rightarrow> CFBitVector cf" where
  "CFBitVectorGrow env bv numNewValues =
     (let capacity = CFBitVectorRoundUpCapacity (bv_count bv + numNewValues);
          n = capacity div 8 + 1
      in case be_alloc env n of
           None \<Rightarrow> Inl Halt
         | Some junk \<Rightarrow> Inr (bv\<lparr>bv_capacity := capacity,
             bv_buckets := take n (bv_buckets bv) @ map junk [length (bv_buckets bv)..<n]\<rparr>))"

definition CFBitVectorZeroBits :: "unit mapper" where
  "CFBitVectorZeroBits bucketValue bmask context = Inr (0, context)"

definition CFBitVectorOneBits :: "unit mapper" where
  "CFBitVectorOneBits bucketValue bmask context = Inr (NOT 0, context)"

definition CFBitVectorFlipBitsMapper :: "unit mapper" where
  "CFBitVectorFlipBitsMapper bucketValue bmask context = Inr (NOT 0 XOR bucketValue, context)"

definition bits_map :: "unit mapper \<Rightarrow> CFBitVector \<Rightarrow> nat \<Rightarrow> nat \<Rightarrow> CFBitVector cf" where
  "bits_map mapper bv loc len =
     ebind (CFBitVectorInternalMap mapper (bv_buckets bv) loc len ()) (\<lambda>(buckets, _). Inr (bv\<lparr>bv_buckets := buckets\<rparr>))"

definition CFBitVectorSetCount :: "bits_env \<Rightarrow> CFBitVector \<Rightarrow> nat \<Rightarrow> CFBitVector cf" where
  "CFBitVectorSetCount env bv newCount =
     (let cnt = bv_count bv in
      ebind (if bv_variety bv = BitVectorMutable \<and> cnt < newCount then CFBitVectorGrow env bv (newCount - cnt) else Inr bv) (\<lambda>bv.
      ebind (if cnt < newCount then bits_map CFBitVectorZeroBits bv cnt (newCount - cnt) else Inr bv) (\<lambda>bv.
      Inr (bv\<lparr>bv_count := newCount\<rparr>))))"

definition CFBitVectorFlipBitAtIndex :: "CFBitVector \<Rightarrow> nat \<Rightarrow> CFBitVector cf" where
  "CFBitVectorFlipBitAtIndex bv idx = ebind (CFFlipBitVectorBit (bv_buckets bv) idx) (\<lambda>bs. Inr (bv\<lparr>bv_buckets := bs\<rparr>))"

definition CFBitVectorFlipBits :: "CFBitVector \<Rightarrow> nat \<Rightarrow> nat \<Rightarrow> CFBitVector cf" where
  "CFBitVectorFlipBits bv loc len = (if len = 0 then Inr bv else bits_map CFBitVectorFlipBitsMapper bv loc len)"

definition CFBitVectorSetBitAtIndex :: "CFBitVector \<Rightarrow> nat \<Rightarrow> bool \<Rightarrow> CFBitVector cf" where
  "CFBitVectorSetBitAtIndex bv idx value =
     ebind (CFSetBitVectorBit (bv_buckets bv) idx value) (\<lambda>bs. Inr (bv\<lparr>bv_buckets := bs\<rparr>))"

definition CFBitVectorSetBits :: "CFBitVector \<Rightarrow> nat \<Rightarrow> nat \<Rightarrow> bool \<Rightarrow> CFBitVector cf" where
  "CFBitVectorSetBits bv loc len value =
     (if len = 0 then Inr bv
      else if value then bits_map CFBitVectorOneBits bv loc len else bits_map CFBitVectorZeroBits bv loc len)"

definition CFBitVectorSetAllBits :: "CFBitVector \<Rightarrow> bool \<Rightarrow> CFBitVector cf" where
  "CFBitVectorSetAllBits bv value =
     (let nBuckets = bv_count bv div 8;
          leftover = bv_count bv - nBuckets * 8
      in ebind (if 0 < leftover then
                  bits_map (if value then CFBitVectorOneBits else CFBitVectorZeroBits) bv (nBuckets * 8) leftover
                else Inr bv) (\<lambda>bv.
         ebind (fill (bv_buckets bv) 0 nBuckets (if value then NOT 0 else 0)) (\<lambda>bs. Inr (bv\<lparr>bv_buckets := bs\<rparr>))))"

section \<open>Bits by position\<close>

definition bits_at :: "bucket list \<Rightarrow> nat \<Rightarrow> bool" where
  "bits_at buckets i = bit (buckets ! (i div 8)) (7 - i mod 8)"

definition bv_wf :: "CFBitVector \<Rightarrow> bool" where
  "bv_wf bv \<longleftrightarrow> length (bv_buckets bv) = bv_capacity bv div 8 + 1 \<and> bv_count bv \<le> bv_capacity bv"

definition bv_bits :: "CFBitVector \<Rightarrow> bool list" where
  "bv_bits bv = map (bits_at (bv_buckets bv)) [0..<bv_count bv]"

lemma and_one_bit: "drop_bit k (b :: bucket) AND 1 \<noteq> 0 \<longleftrightarrow> bit b k"
  by (simp add: bit_iff_odd_drop_bit and_one_eq odd_iff_mod_2_eq_one)

lemma BitVectorBit_correct: "i div 8 < length bs \<Longrightarrow> CFBitVectorBit bs i = Inr (bits_at bs i)"
  by (simp add: CFBitVectorBit_def bits_at_def and_one_bit)

lemma mask_bit:
  assumes "b \<le> t" "t < 8" "j < 8"
  shows "bit (CFBitBucketMask b t) (7 - j) \<longleftrightarrow> b \<le> j \<and> j \<le> t"
  using assms by (auto simp: CFBitBucketMask_def Let_def bit_simps)

text \<open>
  The buckets a map visits, with their masks, and the positions a masked bucket stands for. Together
  they are the range, each position once.
\<close>

definition segments :: "nat \<Rightarrow> nat \<Rightarrow> (nat \<times> bucket) list" where
  "segments loc len =
     (if len = 0 then []
      else if loc mod 8 + len < 8 then [(loc div 8, CFBitBucketMask (loc mod 8) (loc mod 8 + len - 1))]
      else (let more = len - (8 - loc mod 8); n = more div 8; rest = more - n * 8
            in (loc div 8, CFBitBucketMask (loc mod 8) 7) #
               map (\<lambda>k. (loc div 8 + 1 + k, NOT 0)) [0..<n] @
               (if rest \<noteq> 0 then [(loc div 8 + 1 + n, CFBitBucketMask 0 (rest - 1))] else [])))"

definition seg_positions :: "nat \<times> bucket \<Rightarrow> nat list" where
  "seg_positions seg = filter (\<lambda>i. bit (snd seg) (7 - i mod 8)) [8 * fst seg..<8 * fst seg + 8]"

fun map_segments :: "'s mapper \<Rightarrow> bucket list \<Rightarrow> (nat \<times> bucket) list \<Rightarrow> 's \<Rightarrow> (bucket list \<times> 's) cf" where
  "map_segments mapper buckets [] context = Inr (buckets, context)"
| "map_segments mapper buckets ((idx, m) # segs) context =
     ebind (map_masked mapper buckets idx m context) (\<lambda>(buckets, context). map_segments mapper buckets segs context)"

lemma map_segments_append:
  "map_segments mapper buckets (segs @ segs') context =
     ebind (map_segments mapper buckets segs context) (\<lambda>(buckets, context). map_segments mapper buckets segs' context)"
  by (induction mapper buckets segs "context" rule: map_segments.induct)
    (auto simp: ebind_def split: sum.splits)

lemma map_whole_segments:
  "map_whole mapper buckets idx n context = map_segments mapper buckets (map (\<lambda>k. (idx + k, NOT 0)) [0..<n]) context"
proof (induction n arbitrary: buckets idx "context")
  case (Suc n)
  have "map (\<lambda>k. (idx + k, NOT 0 :: bucket)) [0..<Suc n] = (idx, NOT 0) # map (\<lambda>k. (idx + 1 + k, NOT 0)) [0..<n]"
    by (rule nth_equalityI) (auto simp: nth_Cons nth_append split: nat.splits)
  then show ?case
    using Suc by (auto simp: map_masked_def ebind_def split: sum.splits)
qed simp

lemma map_segments_single:
  "map_segments mapper buckets [(idx, m)] context = map_masked mapper buckets idx m context"
  by (simp add: ebind_def split: sum.splits)

lemma ebind_Inr_pair: "ebind m (\<lambda>(a, b). Inr (a, b)) = m" "ebind m Inr = m"
  by (cases m; auto)+

lemma InternalMap_segments:
  "CFBitVectorInternalMap mapper buckets loc len context = map_segments mapper buckets (segments loc len) context"
proof -
  consider "len = 0" | "len \<noteq> 0" "loc mod 8 + len < 8" | "len \<noteq> 0" "\<not> loc mod 8 + len < 8" by blast
  then show ?thesis
  proof cases
    case 1
    then show ?thesis by (simp add: CFBitVectorInternalMap_def segments_def)
  next
    case 2
    then have "segments loc len = [(loc div 8, CFBitBucketMask (loc mod 8) (loc mod 8 + len - 1))]"
      by (simp add: segments_def)
    then show ?thesis
      using 2 by (simp only: CFBitVectorInternalMap_def if_False if_True Let_def split map_segments_single)
        (simp add: ebind_Inr_pair)
  next
    case 3
    define more where "more = len - (8 - loc mod 8)"
    have "segments loc len = (loc div 8, CFBitBucketMask (loc mod 8) 7) #
        map (\<lambda>k. (loc div 8 + 1 + k, NOT 0)) [0..<more div 8] @
        (if more - more div 8 * 8 \<noteq> 0 then [(loc div 8 + 1 + more div 8, CFBitBucketMask 0 (more - more div 8 * 8 - 1))] else [])"
      by (simp only: segments_def 3 if_False Let_def more_def)
    moreover have "CFBitVectorInternalMap mapper buckets loc len context =
        ebind (map_masked mapper buckets (loc div 8) (CFBitBucketMask (loc mod 8) 7) context) (\<lambda>(buckets, context).
        ebind (map_whole mapper buckets (loc div 8 + 1) (more div 8) context) (\<lambda>(buckets, context).
        if more - more div 8 * 8 \<noteq> 0
        then map_masked mapper buckets (loc div 8 + 1 + more div 8) (CFBitBucketMask 0 (more - more div 8 * 8 - 1)) context
        else Inr (buckets, context)))"
      using 3 by (simp only: CFBitVectorInternalMap_def if_False Let_def split more_def)
    moreover have "map_segments mapper b (map (\<lambda>k. (loc div 8 + 1 + k, NOT 0)) [0..<more div 8] @
        (if more - more div 8 * 8 \<noteq> 0 then [(loc div 8 + 1 + more div 8, CFBitBucketMask 0 (more - more div 8 * 8 - 1))] else [])) c =
        ebind (map_whole mapper b (loc div 8 + 1) (more div 8) c) (\<lambda>(buckets, context).
        if more - more div 8 * 8 \<noteq> 0
        then map_masked mapper buckets (loc div 8 + 1 + more div 8) (CFBitBucketMask 0 (more - more div 8 * 8 - 1)) context
        else Inr (buckets, context))" for b c
      unfolding map_whole_segments map_segments_append
      by (rule arg_cong [where f = "ebind (map_segments mapper b (map (\<lambda>k. (loc div 8 + 1 + k, NOT 0)) [0..<more div 8]) c)"],
          rule ext, cases "more - more div 8 * 8 = 0") (auto simp: map_segments_single simp del: map_segments.simps(2) split: prod.splits)
    ultimately show ?thesis
      by (simp only: map_segments.simps(2))
        (auto intro!: ebind_cong split: prod.splits)
  qed
qed

lemma filter_upt_interval:
  assumes "x \<le> a" "c \<le> y"
  shows "filter (\<lambda>i. a \<le> i \<and> i < c) [x..<y] = [a..<c]"
proof (cases "a \<le> c")
  case True
  have "[x..<y] = [x..<a] @ [a..<y]" "[a..<y] = [a..<c] @ [c..<y]"
    using upt_add_eq_append [of x a "y - a"] upt_add_eq_append [of a c "y - c"] assms True by simp_all
  then show ?thesis by (simp add: filter_empty_conv)
next
  case False
  then show ?thesis by (auto simp: filter_empty_conv)
qed

lemma seg_positions_mask:
  assumes "b \<le> t" "t < 8"
  shows "seg_positions (k, CFBitBucketMask b t) = [8 * k + b..<8 * k + t + 1]"
proof -
  have "bit (CFBitBucketMask b t) (7 - i mod 8) \<longleftrightarrow> 8 * k + b \<le> i \<and> i < 8 * k + t + 1"
    if "i \<in> set [8 * k..<8 * k + 8]" for i
  proof -
    have "i mod 8 = i - 8 * k"
      using that by (metis atLeastLessThan_iff atLeastLessThan_upt le_add_diff_inverse mod_less mod_mult_self4 nat_add_left_cancel_less)
    then show ?thesis using mask_bit [OF assms, of "i mod 8"] that by auto
  qed
  then have "seg_positions (k, CFBitBucketMask b t) = filter (\<lambda>i. 8 * k + b \<le> i \<and> i < 8 * k + t + 1) [8 * k..<8 * k + 8]"
    unfolding seg_positions_def fst_conv snd_conv by (rule filter_cong [OF refl])
  then show ?thesis using filter_upt_interval [of "8 * k" "8 * k + b" "8 * k + t + 1" "8 * k + 8"] assms by simp
qed

lemma seg_positions_full: "seg_positions (k, - 1) = [8 * k..<8 * k + 8]"
  by (auto simp: seg_positions_def bit_simps intro!: filter_True)

lemma concat_full_segments:
  "concat (map seg_positions (map (\<lambda>k. (i + k, NOT 0)) [0..<n])) = [8 * i..<8 * (i + n)]"
proof (induction n)
  case (Suc n)
  have "[8 * i..<8 * (i + Suc n)] = [8 * i..<8 * (i + n)] @ [8 * (i + n)..<8 * (i + n) + 8]"
    using upt_add_eq_append [of "8 * i" "8 * (i + n)" 8] by (simp add: algebra_simps)
  then show ?case using Suc by (simp add: seg_positions_full comp_def algebra_simps)
qed simp

lemma segments_cover: "concat (map seg_positions (segments loc len)) = [loc..<loc + len]"
proof -
  have loc: "8 * (loc div 8) + loc mod 8 = loc" by simp
  consider "len = 0" | "len \<noteq> 0" "loc mod 8 + len < 8" | "len \<noteq> 0" "\<not> loc mod 8 + len < 8" by blast
  then show ?thesis
  proof cases
    case 1
    then show ?thesis by (simp add: segments_def)
  next
    case 2
    then show ?thesis
      using seg_positions_mask [of "loc mod 8" "loc mod 8 + len - 1" "loc div 8"] loc
      by (simp add: segments_def)
  next
    case 3
    define more n rest where "more = len - (8 - loc mod 8)" and "n = more div 8" and "rest = more - n * 8"
    have rest: "rest < 8" "more = n * 8 + rest" by (simp_all add: rest_def n_def minus_div_mult_eq_mod)
    have len: "loc + len = 8 * (loc div 8 + 1) + more"
      using 3 loc by (simp add: more_def)
    have first: "seg_positions (loc div 8, CFBitBucketMask (loc mod 8) 7) = [loc..<8 * (loc div 8 + 1)]"
      using seg_positions_mask [of "loc mod 8" 7 "loc div 8"] loc by (simp add: less_Suc_eq_le [symmetric] add.commute)
    have tail: "concat (map seg_positions (if rest \<noteq> 0 then [(loc div 8 + 1 + n, CFBitBucketMask 0 (rest - 1))] else [])) =
        [8 * (loc div 8 + 1 + n)..<loc + len]"
    proof (cases "rest = 0")
      case True
      then show ?thesis using rest len by simp
    next
      case False
      have "loc + len = 8 * (loc div 8 + 1 + n) + rest" using len rest(2) by simp
      then show ?thesis
        using seg_positions_mask [of 0 "rest - 1" "loc div 8 + 1 + n"] rest(1) False by (simp add: add.assoc)
    qed
    have "[loc..<loc + len] = [loc..<8 * (loc div 8 + 1)] @ [8 * (loc div 8 + 1)..<8 * (loc div 8 + 1 + n)] @
        [8 * (loc div 8 + 1 + n)..<loc + len]"
    proof -
      define p q where "p = 8 * (loc div 8 + 1)" and "q = p + 8 * n"
      have "loc mod 8 < 8" by simp
      then have "loc < p" using loc unfolding p_def distrib_left by linarith
      then have p: "loc + (p - loc) = p" by simp
      have q: "8 * (loc div 8 + 1 + n) = q" by (simp add: q_def p_def)
      have end_at: "loc + len = q + rest" using len rest(2) by (simp add: p_def q_def)
      have "[loc..<q + rest] = [loc..<q] @ [q..<q + rest]"
        using upt_add_eq_append [of loc q rest] p by (simp add: q_def)
      moreover have "[loc..<q] = [loc..<p] @ [p..<q]"
        using upt_add_eq_append [of loc p "8 * n"] p by (simp add: q_def)
      ultimately show ?thesis unfolding q end_at p_def [symmetric] by simp
    qed
    moreover have "segments loc len = (loc div 8, CFBitBucketMask (loc mod 8) 7) #
        map (\<lambda>k. (loc div 8 + 1 + k, NOT 0)) [0..<n] @
        (if rest \<noteq> 0 then [(loc div 8 + 1 + n, CFBitBucketMask 0 (rest - 1))] else [])"
      by (simp only: segments_def 3 if_False Let_def more_def n_def rest_def)
    ultimately show ?thesis
      by (simp only: list.map map_append concat.simps concat_append first tail concat_full_segments)
  qed
qed

lemma seg_positions_iff: "i \<in> set (seg_positions (k, m)) \<longleftrightarrow> i div 8 = k \<and> bit m (7 - i mod 8)"
  by (auto simp: seg_positions_def)

text \<open>Mapping a function of single bits over the range changes the bits of the range, and no others.\<close>

lemma map_segments_bits:
  assumes mapper: "\<And>v m. mapper v m () = Inr (g v, ())" and g: "\<And>v k. k < 8 \<Longrightarrow> bit (g v) k = h (bit v k)"
    and "\<forall>seg\<in>set segs. fst seg < length buckets" and "distinct (concat (map seg_positions segs))"
  shows "\<exists>buckets'. map_segments mapper buckets segs () = Inr (buckets', ()) \<and> length buckets' = length buckets \<and>
     (\<forall>i. i div 8 < length buckets \<longrightarrow> bits_at buckets' i =
        (if i \<in> set (concat (map seg_positions segs)) then h (bits_at buckets i) else bits_at buckets i))"
  using assms(3,4)
proof (induction segs arbitrary: buckets)
  case (Cons seg segs)
  obtain k m where seg: "seg = (k, m)" by fastforce
  define buckets1 where "buckets1 = buckets[k := (buckets ! k AND NOT m) OR (g (buckets ! k) AND m)]"
  have k: "k < length buckets" using Cons.prems(1) seg by simp
  have bits1: "bits_at buckets1 i = (if i \<in> set (seg_positions seg) then h (bits_at buckets i) else bits_at buckets i)"
    if "i div 8 < length buckets" for i
  proof (cases "i div 8 = k")
    case True
    have "7 - i mod 8 < 8" by simp
    then show ?thesis
      using True k g [of "7 - i mod 8" "buckets ! k"]
      by (auto simp: bits_at_def buckets1_def seg seg_positions_iff bit_simps)
  next
    case False
    then show ?thesis by (simp add: bits_at_def buckets1_def seg seg_positions_iff)
  qed
  obtain buckets2 where b2: "map_segments mapper buckets1 segs () = Inr (buckets2, ())" "length buckets2 = length buckets1"
      "\<forall>i. i div 8 < length buckets1 \<longrightarrow> bits_at buckets2 i =
        (if i \<in> set (concat (map seg_positions segs)) then h (bits_at buckets1 i) else bits_at buckets1 i)"
    using Cons.IH [of buckets1] Cons.prems by (auto simp: buckets1_def)
  have "map_masked mapper buckets k m () = Inr (buckets1, ())"
    using k mapper by (simp add: map_masked_def buckets1_def)
  moreover have "set (seg_positions seg) \<inter> set (concat (map seg_positions segs)) = {}"
    using Cons.prems(2) by auto
  ultimately show ?case
    using b2 bits1 by (auto simp: seg buckets1_def)
qed simp

section \<open>Range operations\<close>

lemma segments_fst: "seg \<in> set (segments loc len) \<Longrightarrow> 8 * fst seg < loc + len"
proof -
  assume seg: "seg \<in> set (segments loc len)"
  have loc: "8 * (loc div 8) + loc mod 8 = loc" "loc mod 8 < 8" by simp_all
  show ?thesis
  proof (cases "len = 0 \<or> loc mod 8 + len < 8")
    case True
    then show ?thesis using seg loc by (auto simp: segments_def split: if_splits)
  next
    case False
    define more where "more = len - (8 - loc mod 8)"
    have "8 * (more div 8) + (more - more div 8 * 8) = more" by simp
    moreover have "loc + len = 8 * (loc div 8) + 8 + more" using False loc by (simp add: more_def)
    moreover have "fst seg = loc div 8 \<or> (\<exists>k<more div 8. fst seg = loc div 8 + 1 + k) \<or>
        (more - more div 8 * 8 \<noteq> 0 \<and> fst seg = loc div 8 + 1 + more div 8)"
      using seg False by (auto simp: segments_def Let_def more_def split: if_splits)
    ultimately show ?thesis using False loc by (elim disjE exE conjE) linarith+
  qed
qed

lemma bits_map_range:
  assumes mapper: "\<And>v m. mapper v m () = Inr (g v, ())" "\<And>v k. k < 8 \<Longrightarrow> bit (g v) k = h (bit v k)"
    and room: "loc + len \<le> 8 * length (bv_buckets bv)"
  shows "\<exists>bs. bits_map mapper bv loc len = Inr (bv\<lparr>bv_buckets := bs\<rparr>) \<and> length bs = length (bv_buckets bv) \<and>
    (\<forall>i. i div 8 < length bs \<longrightarrow> bits_at bs i =
       (if loc \<le> i \<and> i < loc + len then h (bits_at (bv_buckets bv) i) else bits_at (bv_buckets bv) i))"
proof -
  have "\<forall>seg\<in>set (segments loc len). fst seg < length (bv_buckets bv)"
    using segments_fst room by fastforce
  then obtain bs where "map_segments mapper (bv_buckets bv) (segments loc len) () = Inr (bs, ())"
      "length bs = length (bv_buckets bv)"
      "\<forall>i. i div 8 < length (bv_buckets bv) \<longrightarrow> bits_at bs i =
        (if i \<in> set [loc..<loc + len] then h (bits_at (bv_buckets bv) i) else bits_at (bv_buckets bv) i)"
    using map_segments_bits [of mapper g h "segments loc len" "bv_buckets bv"] mapper unfolding segments_cover by auto
  then show ?thesis by (auto simp: bits_map_def InternalMap_segments)
qed

lemma bit_ones: "k < 8 \<Longrightarrow> bit (NOT 0 :: bucket) k"
  by (simp add: bit_simps)

lemma set_bits_range:
  assumes "loc + len \<le> 8 * length (bv_buckets bv)"
  shows "\<exists>bs. bits_map (if v then CFBitVectorOneBits else CFBitVectorZeroBits) bv loc len = Inr (bv\<lparr>bv_buckets := bs\<rparr>) \<and>
    length bs = length (bv_buckets bv) \<and>
    (\<forall>i. i div 8 < length bs \<longrightarrow> bits_at bs i = (if loc \<le> i \<and> i < loc + len then v else bits_at (bv_buckets bv) i))"
  by (rule bits_map_range [of _ "\<lambda>_. if v then NOT 0 else 0" "\<lambda>_. v" loc len bv])
    (use assms bit_ones in \<open>simp_all add: CFBitVectorOneBits_def CFBitVectorZeroBits_def\<close>)

lemma SetBits_map:
  "CFBitVectorSetBits bv loc len v =
     (if len = 0 then Inr bv else bits_map (if v then CFBitVectorOneBits else CFBitVectorZeroBits) bv loc len)"
  by (simp add: CFBitVectorSetBits_def)

lemma flip_bits_range:
  assumes "loc + len \<le> 8 * length (bv_buckets bv)"
  shows "\<exists>bs. bits_map CFBitVectorFlipBitsMapper bv loc len = Inr (bv\<lparr>bv_buckets := bs\<rparr>) \<and> length bs = length (bv_buckets bv) \<and>
    (\<forall>i. i div 8 < length bs \<longrightarrow> bits_at bs i =
       (if loc \<le> i \<and> i < loc + len then \<not> bits_at (bv_buckets bv) i else bits_at (bv_buckets bv) i))"
  by (rule bits_map_range [of CFBitVectorFlipBitsMapper "\<lambda>v. NOT 0 XOR v" Not loc len bv])
    (use assms in \<open>auto simp: CFBitVectorFlipBitsMapper_def bit_simps\<close>)

lemma bv_wf_in_range: "bv_wf bv \<Longrightarrow> i < bv_count bv \<Longrightarrow> i div 8 < length (bv_buckets bv)"
  by (auto simp: bv_wf_def div_le_mono less_Suc_eq_le)

lemma bv_wf_room: "bv_wf bv \<Longrightarrow> bv_count bv \<le> 8 * length (bv_buckets bv)"
  by (auto simp: bv_wf_def)

text \<open>Setting and flipping a range.\<close>

definition update_range :: "nat \<Rightarrow> nat \<Rightarrow> ('a \<Rightarrow> 'a) \<Rightarrow> 'a list \<Rightarrow> 'a list" where
  "update_range loc len f xs = take loc xs @ map f (take len (drop loc xs)) @ drop (loc + len) xs"

lemma length_update_range [simp]: "loc + len \<le> length xs \<Longrightarrow> length (update_range loc len f xs) = length xs"
  by (simp add: update_range_def)

lemma nth_update_range:
  "loc + len \<le> length xs \<Longrightarrow> i < length xs \<Longrightarrow>
   update_range loc len f xs ! i = (if loc \<le> i \<and> i < loc + len then f (xs ! i) else xs ! i)"
  by (auto simp: update_range_def nth_append)

lemma bv_bits_eqI:
  assumes "bv_count bv = length xs" "\<And>i. i < length xs \<Longrightarrow> bits_at (bv_buckets bv) i = xs ! i"
  shows "bv_bits bv = xs"
  using assms by (auto simp: bv_bits_def intro: nth_equalityI)

lemma length_bv_bits [simp]: "length (bv_bits bv) = bv_count bv"
  by (simp add: bv_bits_def)

lemma bv_bits_nth: "i < bv_count bv \<Longrightarrow> bv_bits bv ! i = bits_at (bv_buckets bv) i"
  by (simp add: bv_bits_def)

lemma set_bits_correct:
  assumes wf: "bv_wf bv" and range: "loc + len \<le> bv_count bv"
  obtains bv' where "CFBitVectorSetBits bv loc len v = Inr bv'" "bv_wf bv'" "bv_count bv' = bv_count bv"
    "bv_bits bv' = update_range loc len (\<lambda>_. v) (bv_bits bv)"
proof (cases "len = 0")
  case True
  then show thesis using that [of bv] wf by (simp add: CFBitVectorSetBits_def update_range_def)
next
  case False
  have "\<exists>bs. CFBitVectorSetBits bv loc len v = Inr (bv\<lparr>bv_buckets := bs\<rparr>) \<and> length bs = length (bv_buckets bv) \<and>
      (\<forall>i. i div 8 < length bs \<longrightarrow> bits_at bs i = (if loc \<le> i \<and> i < loc + len then v else bits_at (bv_buckets bv) i))"
    unfolding SetBits_map if_not_P [OF False] using range bv_wf_room [OF wf] by (intro set_bits_range) simp
  then obtain bs where bs: "CFBitVectorSetBits bv loc len v = Inr (bv\<lparr>bv_buckets := bs\<rparr>)" "length bs = length (bv_buckets bv)"
      "\<And>i. i div 8 < length bs \<Longrightarrow> bits_at bs i = (if loc \<le> i \<and> i < loc + len then v else bits_at (bv_buckets bv) i)"
    by blast
  show thesis
  proof (rule that [OF bs(1)])
    show "bv_bits (bv\<lparr>bv_buckets := bs\<rparr>) = update_range loc len (\<lambda>_. v) (bv_bits bv)"
      using range bs bv_wf_in_range [OF wf] by (intro bv_bits_eqI) (auto simp: nth_update_range bv_bits_nth)
  qed (use wf bs in \<open>simp_all add: bv_wf_def\<close>)
qed

lemma flip_bits_correct:
  assumes wf: "bv_wf bv" and range: "loc + len \<le> bv_count bv"
  obtains bv' where "CFBitVectorFlipBits bv loc len = Inr bv'" "bv_wf bv'" "bv_count bv' = bv_count bv"
    "bv_bits bv' = update_range loc len Not (bv_bits bv)"
proof (cases "len = 0")
  case True
  then show thesis using that [of bv] wf by (simp add: CFBitVectorFlipBits_def update_range_def)
next
  case False
  obtain bs where bs: "bits_map CFBitVectorFlipBitsMapper bv loc len = Inr (bv\<lparr>bv_buckets := bs\<rparr>)" "length bs = length (bv_buckets bv)"
      "\<And>i. i div 8 < length bs \<Longrightarrow> bits_at bs i =
        (if loc \<le> i \<and> i < loc + len then \<not> bits_at (bv_buckets bv) i else bits_at (bv_buckets bv) i)"
    using flip_bits_range [of loc len bv] range bv_wf_room [OF wf] by auto
  show thesis
  proof (rule that [of "bv\<lparr>bv_buckets := bs\<rparr>"])
    show "bv_bits (bv\<lparr>bv_buckets := bs\<rparr>) = update_range loc len Not (bv_bits bv)"
      using range bs bv_wf_in_range [OF wf] by (intro bv_bits_eqI) (auto simp: nth_update_range bv_bits_nth)
  qed (use wf bs False in \<open>simp_all add: bv_wf_def CFBitVectorFlipBits_def\<close>)
qed

section \<open>Counting\<close>

lemma map_segments_unchanged:
  assumes "\<And>v m c. mapper v m c = Inr (v, f v m c)" and "\<forall>seg\<in>set segs. fst seg < length buckets"
  shows "map_segments mapper buckets segs c = Inr (buckets, fold (\<lambda>seg. f (buckets ! fst seg) (snd seg)) segs c)"
  using assms(2)
proof (induction segs arbitrary: c)
  case (Cons seg segs)
  have same: "(b AND NOT m) OR (b AND m) = b" for b m :: bucket
    by (rule bit_eqI) (auto simp: bit_simps)
  obtain k m where seg: "seg = (k, m)" by fastforce
  have "map_masked mapper buckets k m c = Inr (buckets, f (buckets ! k) m c)"
    using Cons.prems seg assms(1) same by (simp add: map_masked_def)
  then show ?case using Cons seg by simp
qed simp

definition popcount8 :: "bucket \<Rightarrow> nat" where
  "popcount8 w = length (filter (bit w) [0..<8])"

lemma eight: "[0..<8] = [0, 1, 2, 3, 4, 5, 6, 7 :: nat]"
  by code_simp

lemma length_filter_Cons: "length (filter P (x # xs)) = of_bool (P x) + length (filter P xs)"
  by simp

lemma popcount8_eq:
  "popcount8 w = of_bool (bit w 0) + of_bool (bit w 1) + of_bool (bit w 2) + of_bool (bit w 3) +
     of_bool (bit w 4) + of_bool (bit w 5) + of_bool (bit w 6) + of_bool (bit w 7)"
  unfolding popcount8_def eight length_filter_Cons by simp

lemma nibble_value:
  "unat (w AND 15 :: bucket) = of_bool (bit w 0) + 2 * (of_bool (bit w 1) + 2 * (of_bool (bit w 2) + 2 * of_bool (bit w 3)))"
proof -
  have "w AND 15 = take_bit 4 w" by (simp add: take_bit_eq_mask mask_eq_exp_minus_1)
  then have "unat (w AND 15) = take_bit 4 (unat w)" by (simp add: unsigned_take_bit_eq)
  also have "\<dots> = horner_sum of_bool 2 (map (bit (unat w)) [0..<4])" by (rule horner_sum_bit_eq_take_bit [symmetric])
  also have "[0..<4] = [0, 1, 2, 3 :: nat]" by code_simp
  finally show ?thesis by (simp add: bit_unsigned_iff)
qed

lemma nibble_count:
  "rd nibble_bit_count (unat (w AND 15 :: bucket)) =
     Inr (of_bool (bit w 0) + of_bool (bit w 1) + of_bool (bit w 2) + of_bool (bit w 3))"
  by (cases "bit w 0"; cases "bit w 1"; cases "bit w 2"; cases "bit w 3")
    (simp_all add: nibble_value nibble_bit_count_def rd_def)

lemma CountBits_eq:
  "CFBitVectorCountBits value v m c = Inr (v, c + popcount8 (if value then v AND m else NOT v AND m))"
  by (simp add: CFBitVectorCountBits_def nibble_count popcount8_eq bit_drop_bit_eq)

text \<open>The set bits of a masked byte are the positions of its segment that carry the value.\<close>

lemma popcount8_segment:
  "popcount8 (if v then b AND m else NOT b AND m) =
     length (filter (\<lambda>i. bit b (7 - i mod 8) = v) (seg_positions (k, m)))"
proof -
  have bytes: "[8 * k..<8 * k + 8] = map (\<lambda>j. 8 * k + j) [0..<8]"
    using map_add_upt [of "8 * k" 8] by (simp add: add.commute)
  have "length (filter (\<lambda>i. bit b (7 - i mod 8) = v) (seg_positions (k, m))) =
      length (filter (\<lambda>j. bit m (7 - j mod 8) \<and> bit b (7 - j mod 8) = v) [0..<8])"
    by (simp only: seg_positions_def fst_conv snd_conv bytes filter_map filter_filter length_map comp_def mod_mult_self4)
  also have "\<dots> = popcount8 (if v then b AND m else NOT b AND m)"
    unfolding popcount8_eq eight length_filter_Cons by (cases v) (simp_all add: bit_simps conj_commute)
  finally show ?thesis ..
qed

lemma fold_count: "fold (\<lambda>x c. c + f x) xs (c :: nat) = c + sum_list (map f xs)"
  by (induction xs arbitrary: c) simp_all

lemma count_bits_correct:
  assumes wf: "bv_wf bv" and range: "loc + len \<le> bv_count bv"
  shows "CFBitVectorGetCountOfBit bv loc len v = Inr (length (filter (\<lambda>b. b = v) (take len (drop loc (bv_bits bv)))))"
proof -
  let ?bs = "bv_buckets bv" and ?segs = "segments loc len"
  have segs: "\<forall>seg\<in>set ?segs. fst seg < length ?bs"
    using segments_fst range bv_wf_room [OF wf] by fastforce
  have "map_segments (CFBitVectorCountBits v) ?bs ?segs 0 = Inr (?bs,
      fold (\<lambda>seg c. c + popcount8 (if v then ?bs ! fst seg AND snd seg else NOT (?bs ! fst seg) AND snd seg)) ?segs 0)"
    by (rule map_segments_unchanged [OF _ segs]) (simp add: CountBits_eq)
  moreover have "popcount8 (if v then ?bs ! fst seg AND snd seg else NOT (?bs ! fst seg) AND snd seg) =
      length (filter (\<lambda>i. bits_at ?bs i = v) (seg_positions seg))" for seg
  proof -
    have "bits_at ?bs i \<longleftrightarrow> bit (?bs ! fst seg) (7 - i mod 8)" if "i \<in> set (seg_positions seg)" for i
      using that seg_positions_iff [of i "fst seg" "snd seg"] by (simp add: bits_at_def)
    then have "filter (\<lambda>i. bits_at ?bs i = v) (seg_positions seg) = filter (\<lambda>i. bit (?bs ! fst seg) (7 - i mod 8) = v) (seg_positions seg)"
      by (intro filter_cong) auto
    then show ?thesis using popcount8_segment [of v "?bs ! fst seg" "snd seg" "fst seg"] by simp
  qed
  ultimately have "map_segments (CFBitVectorCountBits v) ?bs ?segs 0 = Inr (?bs,
      length (filter (\<lambda>i. bits_at ?bs i = v) (concat (map seg_positions ?segs))))"
    by (simp add: fold_count length_concat filter_concat comp_def)
  moreover have "map (bits_at ?bs) [loc..<loc + len] = take len (drop loc (bv_bits bv))"
    using range by (intro nth_equalityI) (auto simp: bv_bits_def)
  ultimately show ?thesis
    by (auto simp: CFBitVectorGetCountOfBit_def InternalMap_segments segments_cover filter_map comp_def
        simp flip: \<open>map (bits_at ?bs) [loc..<loc + len] = take len (drop loc (bv_bits bv))\<close>)
qed

section \<open>Growing, creating, searching\<close>

lemma RoundUpCapacity_bits: "n \<le> CFBitVectorRoundUpCapacity n" "8 dvd CFBitVectorRoundUpCapacity n"
proof -
  show "n \<le> CFBitVectorRoundUpCapacity n"
    using div_mult_mod_eq [of "n + 63" 64] mod_less_divisor [of 64 "n + 63"]
    by (auto simp: CFBitVectorRoundUpCapacity_def)
  have "(8 :: nat) dvd 64" by simp
  then show "8 dvd CFBitVectorRoundUpCapacity n" unfolding CFBitVectorRoundUpCapacity_def by (rule dvd_mult)
qed

lemma bits_at_append: "i div 8 < length xs \<Longrightarrow> bits_at (xs @ ys) i = bits_at xs i"
  by (simp add: bits_at_def nth_append)

lemma bits_at_take: "i div 8 < n \<Longrightarrow> bits_at (take n xs) i = bits_at xs i"
  by (simp add: bits_at_def)

lemma bits_at_zero [simp]: "i div 8 < n \<Longrightarrow> bits_at (replicate n 0) i = False"
  by (simp add: bits_at_def)

lemma set_count_correct:
  assumes wf: "bv_wf bv" and mut: "bv_variety bv = BitVectorMutable" and alloc: "\<And>n. be_alloc env n \<noteq> None"
  obtains bv' where "CFBitVectorSetCount env bv n = Inr bv'" "bv_wf bv'" "bv_count bv' = n" "bv_variety bv' = BitVectorMutable"
    "bv_bits bv' = take n (bv_bits bv) @ replicate (n - bv_count bv) False"
proof (cases "bv_count bv < n")
  case False
  then show thesis
    using that [of "bv\<lparr>bv_count := n\<rparr>"] wf mut
    by (auto simp: CFBitVectorSetCount_def bv_wf_def bv_bits_def take_map)
next
  case True
  let ?cap = "CFBitVectorRoundUpCapacity n"
  obtain junk where junk: "be_alloc env (?cap div 8 + 1) = Some junk" using alloc by fastforce
  define bs where "bs = take (?cap div 8 + 1) (bv_buckets bv) @ map junk [length (bv_buckets bv)..<?cap div 8 + 1]"
  define bv1 where "bv1 = bv\<lparr>bv_capacity := ?cap, bv_buckets := bs\<rparr>"
  have grow: "CFBitVectorGrow env bv (n - bv_count bv) = Inr bv1"
    using True junk by (simp add: CFBitVectorGrow_def Let_def bs_def bv1_def)
  have len: "length bs = ?cap div 8 + 1" by (auto simp: bs_def min_def)
  have old: "bits_at bs i = bits_at (bv_buckets bv) i" if "i < bv_count bv" for i
  proof -
    have "i div 8 \<le> ?cap div 8" using that True RoundUpCapacity_bits(1) [of n] by (intro div_le_mono) simp
    then show ?thesis
      using bv_wf_in_range [OF wf that] by (simp add: bs_def bits_at_append bits_at_take)
  qed
  have "bv_count bv + (n - bv_count bv) \<le> 8 * length (bv_buckets bv1)"
    using True len RoundUpCapacity_bits [of n] by (auto simp: bv1_def)
  from set_bits_range [OF this, of False] obtain bs2 where bs2:
      "bits_map CFBitVectorZeroBits bv1 (bv_count bv) (n - bv_count bv) = Inr (bv1\<lparr>bv_buckets := bs2\<rparr>)"
      "length bs2 = length bs" "\<And>i. i div 8 < length bs2 \<Longrightarrow>
        bits_at bs2 i = (if bv_count bv \<le> i \<and> i < n then False else bits_at bs i)"
    using True by (auto simp: bv1_def)
  have zeroed: "bits_map CFBitVectorZeroBits bv1 (bv_count bv) (n - bv_count bv) = Inr (bv\<lparr>bv_capacity := ?cap, bv_buckets := bs2\<rparr>)"
    using bs2(1) by (simp add: bv1_def)
  show thesis
  proof (rule that [of "bv\<lparr>bv_capacity := ?cap, bv_buckets := bs2, bv_count := n\<rparr>"])
    show "CFBitVectorSetCount env bv n = Inr (bv\<lparr>bv_capacity := ?cap, bv_buckets := bs2, bv_count := n\<rparr>)"
      using True mut zeroed by (simp add: CFBitVectorSetCount_def grow)
    have "i div 8 < length bs2" if "i < n" for i
      using that bs2(2) len RoundUpCapacity_bits(1) [of n] by (simp add: div_le_mono less_Suc_eq_le)
    then show "bv_bits (bv\<lparr>bv_capacity := ?cap, bv_buckets := bs2, bv_count := n\<rparr>) =
        take n (bv_bits bv) @ replicate (n - bv_count bv) False"
      using True old bs2(3) by (intro bv_bits_eqI) (auto simp: nth_append bv_bits_nth)
  qed (use mut bs2 len RoundUpCapacity_bits [of n] in \<open>auto simp: bv_wf_def\<close>)
qed

lemma set_all_bits_correct:
  assumes wf: "bv_wf bv"
  obtains bv' where "CFBitVectorSetAllBits bv v = Inr bv'" "bv_wf bv'" "bv_bits bv' = replicate (bv_count bv) v"
proof -
  let ?n = "bv_count bv div 8"
  have room: "?n * 8 + (bv_count bv - ?n * 8) \<le> 8 * length (bv_buckets bv)" using bv_wf_room [OF wf] by simp
  have n: "?n \<le> length (bv_buckets bv)" using bv_wf_room [OF wf] by linarith
  obtain bs where bs: "(if 0 < bv_count bv - ?n * 8 then
        bits_map (if v then CFBitVectorOneBits else CFBitVectorZeroBits) bv (?n * 8) (bv_count bv - ?n * 8) else Inr bv) =
        Inr (bv\<lparr>bv_buckets := bs\<rparr>)" "length bs = length (bv_buckets bv)"
      "\<And>i. i div 8 < length bs \<Longrightarrow> ?n * 8 \<le> i \<Longrightarrow> i < bv_count bv \<Longrightarrow> bits_at bs i = v"
  proof (cases "0 < bv_count bv - ?n * 8")
    case True
    then show ?thesis using set_bits_range [OF room, of v] that by auto
  next
    case False
    then show ?thesis using that [of "bv_buckets bv"] by auto
  qed
  define bs2 where "bs2 = replicate ?n (if v then NOT 0 else 0) @ drop ?n bs"
  have run: "CFBitVectorSetAllBits bv v = Inr (bv\<lparr>bv_buckets := bs2\<rparr>)"
    unfolding CFBitVectorSetAllBits_def Let_def bs(1) using n bs(2) by (simp add: fill_def copy_into_def bs2_def)
  have "bits_at bs2 i = v" if "i < bv_count bv" for i
  proof (cases "i div 8 < ?n")
    case True
    have "7 - i mod 8 < 8" by simp
    then show ?thesis using True by (auto simp: bs2_def bits_at_def nth_append bit_simps)
  next
    case False
    then have "?n * 8 \<le> i" using that by linarith
    moreover have "bits_at bs2 i = bits_at bs i"
      using False n bs(2) by (simp add: bs2_def bits_at_def nth_append)
    ultimately show ?thesis
      using bs(3) [of i] bv_wf_in_range [OF wf that] bs(2) that by simp
  qed
  then have "bv_bits (bv\<lparr>bv_buckets := bs2\<rparr>) = replicate (bv_count bv) v"
    by (intro bv_bits_eqI) simp_all
  with run show thesis
    using that [of "bv\<lparr>bv_buckets := bs2\<rparr>"] wf n bs(2) by (simp add: bv_wf_def bs2_def)
qed

lemma GetBitAtIndex_correct: "bv_wf bv \<Longrightarrow> i < bv_count bv \<Longrightarrow> CFBitVectorGetBitAtIndex bv i = Inr (bv_bits bv ! i)"
  by (simp add: CFBitVectorGetBitAtIndex_def BitVectorBit_correct bv_wf_in_range bv_bits_nth)

lemma bits_first_loop_correct:
  assumes "bv_wf bv" "loc + idx + n \<le> bv_count bv"
  shows "bits_first_loop bv v loc idx n = Inr (case filter (\<lambda>i. bv_bits bv ! i = v) [loc + idx..<loc + idx + n] of
     [] \<Rightarrow> kCFNotFound | i # _ \<Rightarrow> int i)"
  using assms
proof (induction n arbitrary: idx)
  case (Suc n)
  have "[loc + idx..<loc + idx + Suc n] = (loc + idx) # [loc + (idx + 1)..<loc + (idx + 1) + n]"
    by (simp add: upt_conv_Cons)
  then show ?case using Suc.IH [of "idx + 1"] Suc.prems by (auto simp: GetBitAtIndex_correct)
qed simp

lemma bits_last_loop_correct:
  assumes "bv_wf bv" "loc + n \<le> bv_count bv"
  shows "bits_last_loop bv v loc n = Inr (case rev (filter (\<lambda>i. bv_bits bv ! i = v) [loc..<loc + n]) of
     [] \<Rightarrow> kCFNotFound | i # _ \<Rightarrow> int i)"
  using assms by (induction n) (auto simp: GetBitAtIndex_correct)

lemma create_correct:
  assumes env: "be_create env" "be_alloc env (CFBitVectorRoundUpCapacity n div 8 + 1) \<noteq> None"
    and bytes: "n \<le> 8 * length bytes"
  obtains bv where "CFBitVectorCreate env (Some bytes) n = Inr (Some bv)" "bv_wf bv" "bv_count bv = n"
    "bv_bits bv = map (bits_at bytes) [0..<n]"
    "bv_buckets bv = take ((n + 7) div 8) bytes @ replicate (CFBitVectorRoundUpCapacity n div 8 + 1 - (n + 7) div 8) 0"
proof -
  let ?cap = "CFBitVectorRoundUpCapacity n" and ?k = "(n + 7) div 8"
  have k: "n div 8 + (if n mod 8 \<noteq> 0 then 1 else 0) = ?k" by presburger
  have room: "?k \<le> length bytes" "?k \<le> ?cap div 8 + 1" "n \<le> 8 * ?k"
    using bytes RoundUpCapacity_bits(1) [of n] by linarith+
  obtain junk where junk: "be_alloc env (?cap div 8 + 1) = Some junk" using env(2) by blast
  define bs where "bs = take ?k bytes @ replicate (?cap div 8 + 1 - ?k) 0"
  have run: "CFBitVectorCreate env (Some bytes) n =
      Inr (Some \<lparr>bv_count = n, bv_capacity = ?cap, bv_buckets = bs, bv_variety = BitVectorImmutable\<rparr>)"
    unfolding CFBitVectorCreate_def CFBitVectorInit_def Let_def k option.case
    using env(1) junk room by (simp add: fill_def copy_into_def slice_def bs_def min_def del: replicate.simps(2))
  have "bits_at bs i = bits_at bytes i" if "i < n" for i
    using that room by (simp add: bs_def bits_at_append bits_at_take)
  then show thesis
    using that [OF run] RoundUpCapacity_bits(1) [of n] room
    by (simp add: bv_wf_def bs_def bv_bits_def)
qed

section \<open>Reading bits out\<close>

lemma ones_mask: "CFBitBucketMask 0 7 = NOT 0"
  by code_simp

lemma aligned_segments:
  "segments (8 * q) len = map (\<lambda>j. (q + j, if 8 \<le> len - 8 * j then NOT 0 else CFBitBucketMask 0 (len - 8 * j - 1))) [0..<(len + 7) div 8]"
proof -
  define n r where "n = len div 8" and "r = len mod 8"
  have len: "len = 8 * n + r" "r < 8" by (simp_all add: n_def r_def)
  have count: "(len + 7) div 8 = n + (if r = 0 then 0 else 1)" using len by (auto simp: div_nat_eqI)
  have whole: "map (\<lambda>j. (q + j, if 8 \<le> len - 8 * j then NOT 0 else CFBitBucketMask 0 (len - 8 * j - 1))) [0..<n] =
      map (\<lambda>j. (q + j, NOT 0)) [0..<n]"
    using len by auto
  show ?thesis
  proof (cases n)
    case 0
    then show ?thesis using len count by (auto simp: segments_def)
  next
    case (Suc n1)
    let ?last = "if r \<noteq> 0 then [(q + 1 + n1, CFBitBucketMask 0 (r - 1))] else []"
    have first: "map (\<lambda>j. (q + j, NOT 0 :: bucket)) [0..<Suc n1] = (q, NOT 0) # map (\<lambda>k. (q + 1 + k, NOT 0)) [0..<n1]"
      by (rule nth_equalityI) (auto simp: nth_Cons nth_append split: nat.splits)
    have rest: "(len - 8) div 8 = n1" "len - 8 - n1 * 8 = r" using len Suc by (auto simp: div_nat_eqI)
    have "segments (8 * q) len = ((q, NOT 0) # map (\<lambda>k. (q + 1 + k, NOT 0)) [0..<n1]) @ ?last"
      using len Suc rest by (simp add: segments_def ones_mask Let_def)
    also have "\<dots> = map (\<lambda>j. (q + j, if 8 \<le> len - 8 * j then NOT 0 else CFBitBucketMask 0 (len - 8 * j - 1))) [0..<n] @ ?last"
      unfolding whole using first Suc by simp
    also have "?last = map (\<lambda>j. (q + j, if 8 \<le> len - 8 * j then NOT 0 else CFBitBucketMask 0 (len - 8 * j - 1))) [n..<(len + 7) div 8]"
      unfolding count using len Suc by simp
    finally show ?thesis
      using upt_add_eq_append [of 0 n "(len + 7) div 8 - n"] count by (auto simp flip: map_append)
  qed
qed

lemma get_bits_aligned_step:
  assumes "gb_initBits c = 0" "8 \<le> gb_totalBits c" "gb_curByte c < length (gb_bytes c)"
  shows "CFBitVectorGetBitsMapper b m c =
    Inr (b, c\<lparr>gb_bytes := (gb_bytes c)[gb_curByte c := b AND m], gb_curByte := gb_curByte c + 1\<rparr>)"
  using assms by (simp add: CFBitVectorGetBitsMapper_def get_bits_front_def)

lemma masked_same: "(b AND NOT m) OR (b AND m) = (b :: bucket)"
  by (rule bit_eqI) (auto simp: bit_simps)

lemma get_bits_aligned:
  assumes "gb_initBits c = 0" "8 \<le> gb_totalBits c" "gb_curByte c + length segs \<le> length (gb_bytes c)"
    and "\<forall>seg\<in>set segs. fst seg < length buckets"
  shows "map_segments CFBitVectorGetBitsMapper buckets segs c = Inr (buckets,
    c\<lparr>gb_bytes := take (gb_curByte c) (gb_bytes c) @ map (\<lambda>seg. buckets ! fst seg AND snd seg) segs @
        drop (gb_curByte c + length segs) (gb_bytes c), gb_curByte := gb_curByte c + length segs\<rparr>)"
  using assms
proof (induction segs arbitrary: c)
  case (Cons seg segs)
  obtain k m where seg: "seg = (k, m)" by fastforce
  let ?c = "c\<lparr>gb_bytes := (gb_bytes c)[gb_curByte c := buckets ! k AND m], gb_curByte := gb_curByte c + 1\<rparr>"
  have "map_masked CFBitVectorGetBitsMapper buckets k m c = Inr (buckets, ?c)"
    using Cons.prems seg by (simp add: map_masked_def get_bits_aligned_step masked_same)
  moreover have "map_segments CFBitVectorGetBitsMapper buckets segs ?c = Inr (buckets,
    ?c\<lparr>gb_bytes := take (gb_curByte ?c) (gb_bytes ?c) @ map (\<lambda>seg. buckets ! fst seg AND snd seg) segs @
        drop (gb_curByte ?c + length segs) (gb_bytes ?c), gb_curByte := gb_curByte ?c + length segs\<rparr>)"
    using Cons.prems by (intro Cons.IH) simp_all
  moreover have "take (gb_curByte c + 1) ((gb_bytes c)[gb_curByte c := v]) = take (gb_curByte c) (gb_bytes c) @ [v]" for v
    using Cons.prems(3) by (simp add: take_Suc_conv_app_nth)
  ultimately show ?case by (simp add: seg)
qed simp

text \<open>A range that starts at a byte boundary is copied out whole; the bits after it are zero.\<close>

lemma get_bits_correct:
  assumes wf: "bv_wf bv" and range: "8 * q + len \<le> bv_count bv" and bytes: "(len + 7) div 8 \<le> length bytes"
  shows "CFBitVectorGetBits bv (8 * q) len bytes =
    Inr (map (\<lambda>seg. bv_buckets bv ! fst seg AND snd seg) (segments (8 * q) len) @ drop ((len + 7) div 8) bytes)"
proof -
  let ?c = "\<lparr>gb_bytes = bytes, gb_curByte = 0, gb_initBits = 0, gb_totalBits = int len, gb_ignoreFirstInitBits = True\<rparr>"
  have fst_ok: "\<forall>seg\<in>set (segments (8 * q) len). fst seg < length (bv_buckets bv)"
    using segments_fst range bv_wf_room [OF wf] by fastforce
  consider "len = 0" | "0 < len" "len < 8" | "8 \<le> len" by linarith
  then show ?thesis
  proof cases
    case 1
    then show ?thesis by (simp add: CFBitVectorGetBits_def segments_def)
  next
    case 2
    then have one: "(len + 7) div 8 = 1" by (simp add: div_nat_eqI)
    have "segments (8 * q) len = [(q, CFBitBucketMask 0 (len - 1))]" using 2 by (simp add: segments_def)
    moreover have "wr bytes 0 v = Inr (v # drop 1 bytes)" for v using bytes one by (cases bytes) auto
    ultimately show ?thesis
      using 2 fst_ok bytes one
      by (simp add: CFBitVectorGetBits_def InternalMap_segments map_masked_def CFBitVectorGetBitsMapper_def
          get_bits_front_def masked_same)
  next
    case 3
    have "map_segments CFBitVectorGetBitsMapper (bv_buckets bv) (segments (8 * q) len) ?c = Inr (bv_buckets bv,
      ?c\<lparr>gb_bytes := take (gb_curByte ?c) (gb_bytes ?c) @ map (\<lambda>seg. bv_buckets bv ! fst seg AND snd seg) (segments (8 * q) len) @
        drop (gb_curByte ?c + length (segments (8 * q) len)) (gb_bytes ?c), gb_curByte := gb_curByte ?c + length (segments (8 * q) len)\<rparr>)"
      using 3 bytes fst_ok by (intro get_bits_aligned) (simp_all add: aligned_segments)
    then show ?thesis
      using 3 by (simp add: CFBitVectorGetBits_def InternalMap_segments) (simp add: aligned_segments)
  qed
qed

lemma get_bits_at:
  assumes "i div 8 < (len + 7) div 8"
  shows "bits_at (map (\<lambda>seg. buckets ! fst seg AND snd seg) (segments (8 * q) len) @ rest) i \<longleftrightarrow>
    i < len \<and> bits_at buckets (8 * q + i)"
proof -
  let ?j = "i div 8"
  have pos: "(8 * q + i) div 8 = q + ?j" "(8 * q + i) mod 8 = i mod 8" by simp_all
  have split: "i = 8 * ?j + i mod 8" "i mod 8 < 8" by simp_all
  have "bit (if 8 \<le> len - 8 * ?j then NOT 0 else CFBitBucketMask 0 (len - 8 * ?j - 1)) (7 - i mod 8) \<longleftrightarrow> i < len"
  proof (cases "8 \<le> len - 8 * ?j")
    case True
    moreover have "7 - i mod 8 < 8" by simp
    ultimately show ?thesis using split bit_ones [of "7 - i mod 8"] by auto
  next
    case False
    moreover have "0 < len - 8 * ?j" using assms by linarith
    moreover have "i mod 8 \<le> len - 8 * ?j - 1 \<longleftrightarrow> i < len"
      using \<open>0 < len - 8 * ?j\<close> split(1) by linarith
    ultimately show ?thesis using mask_bit [of 0 "len - 8 * ?j - 1" "i mod 8"] by simp
  qed
  then show ?thesis
    using assms by (simp add: bits_at_def nth_append aligned_segments pos bit_and_iff) blast
qed

lemma get_bits_unaligned:
  assumes "0 < gb_initBits c" "gb_ignoreFirstInitBits c" "gb_curByte c < length (gb_bytes c)" "gb_curByte c = 0"
    and "\<forall>seg\<in>set segs. fst seg < length buckets"
  shows "\<exists>b total. map_segments CFBitVectorGetBitsMapper buckets segs c =
    Inr (buckets, c\<lparr>gb_bytes := (gb_bytes c)[0 := b], gb_totalBits := total\<rparr>)"
  using assms
proof (induction segs arbitrary: c)
  case Nil
  have "c = c\<lparr>gb_bytes := (gb_bytes c)[0 := gb_bytes c ! 0], gb_totalBits := gb_totalBits c\<rparr>" by simp
  then show ?case by (metis map_segments.simps(1))
next
  case (Cons seg segs)
  obtain k m where seg: "seg = (k, m)" by fastforce
  have "\<exists>b total. CFBitVectorGetBitsMapper (buckets ! k) m c =
      Inr (buckets ! k, c\<lparr>gb_bytes := (gb_bytes c)[0 := b], gb_totalBits := total\<rparr>)"
  proof (cases "0 < min (8 - int (gb_initBits c)) (gb_totalBits c)")
    case True
    then show ?thesis
      using Cons.prems by (auto simp: CFBitVectorGetBitsMapper_def get_bits_front_def)
  next
    case False
    have "c = c\<lparr>gb_bytes := (gb_bytes c)[0 := gb_bytes c ! 0], gb_totalBits := gb_totalBits c\<rparr>" by simp
    moreover have "CFBitVectorGetBitsMapper (buckets ! k) m c = Inr (buckets ! k, c)"
      using False Cons.prems by (auto simp: CFBitVectorGetBitsMapper_def get_bits_front_def)
    ultimately show ?thesis by metis
  qed
  then obtain b total where step: "CFBitVectorGetBitsMapper (buckets ! k) m c =
      Inr (buckets ! k, c\<lparr>gb_bytes := (gb_bytes c)[0 := b], gb_totalBits := total\<rparr>)" by blast
  then have "map_masked CFBitVectorGetBitsMapper buckets k m c =
      Inr (buckets, c\<lparr>gb_bytes := (gb_bytes c)[0 := b], gb_totalBits := total\<rparr>)"
    using Cons.prems seg by (simp add: map_masked_def masked_same)
  moreover obtain b' total' where "map_segments CFBitVectorGetBitsMapper buckets segs
      (c\<lparr>gb_bytes := (gb_bytes c)[0 := b], gb_totalBits := total\<rparr>) =
      Inr (buckets, c\<lparr>gb_bytes := (gb_bytes c)[0 := b'], gb_totalBits := total'\<rparr>)"
    using Cons.IH [of "c\<lparr>gb_bytes := (gb_bytes c)[0 := b], gb_totalBits := total\<rparr>"] Cons.prems by auto
  ultimately show ?case by (auto simp: seg)
qed

lemma bits_equal_loop_correct:
  assumes "idx + n \<le> length b1" "idx + n \<le> length b2"
  shows "bits_equal_loop b1 b2 idx n = Inr (take n (drop idx b1) = take n (drop idx b2))"
  using assms
proof (induction n arbitrary: idx)
  case (Suc n)
  then show ?case using Suc.IH [of "idx + 1"]
    by (simp add: Cons_nth_drop_Suc [symmetric, of idx b1] Cons_nth_drop_Suc [symmetric, of idx b2])
qed simp

lemma Equal_correct:
  assumes "bv_wf bv1" "bv_wf bv2"
  shows "CFBitVectorEqual bv1 bv2 = Inr (bv_count bv1 = bv_count bv2 \<and>
    (bv_count bv1 = 0 \<or> take (bv_count bv1 div 8 + 1) (bv_buckets bv1) = take (bv_count bv1 div 8 + 1) (bv_buckets bv2)))"
proof -
  have "bv_count bv1 div 8 + 1 \<le> length (bv_buckets bv1)" "bv_count bv2 div 8 + 1 \<le> length (bv_buckets bv2)"
    using assms by (simp_all add: bv_wf_def div_le_mono)
  then show ?thesis
    using assms bits_equal_loop_correct [of 0 "bv_count bv1 div 8 + 1" "bv_buckets bv1" "bv_buckets bv2"]
    by (cases "bv_count bv1 = bv_count bv2") (simp_all add: CFBitVectorEqual_def Let_def del: bits_equal_loop.simps)
qed

section \<open>Properties\<close>

text \<open>
  C23. Setting or flipping a range of a bit vector changes exactly the bits of the range, whatever bytes
  the range starts and ends in, and setting all bits sets all of them; count and invariant are kept.
\<close>

theorem bits_set_flip:
  assumes "bv_wf bv" and "loc + len \<le> bv_count bv"
  shows "(case CFBitVectorSetBits bv loc len v of Inl _ \<Rightarrow> False
     | Inr bv' \<Rightarrow> bv_wf bv' \<and> bv_bits bv' = update_range loc len (\<lambda>_. v) (bv_bits bv)) \<and>
    (case CFBitVectorFlipBits bv loc len of Inl _ \<Rightarrow> False
     | Inr bv' \<Rightarrow> bv_wf bv' \<and> bv_bits bv' = update_range loc len Not (bv_bits bv)) \<and>
    (case CFBitVectorSetAllBits bv v of Inl _ \<Rightarrow> False
     | Inr bv' \<Rightarrow> bv_wf bv' \<and> bv_bits bv' = replicate (bv_count bv) v)"
  by (rule set_bits_correct [OF assms, of v]; rule flip_bits_correct [OF assms];
      rule set_all_bits_correct [OF assms(1), of v]; simp)

definition twelve_bits :: CFBitVector where
  "twelve_bits = \<lparr>bv_count = 12, bv_capacity = 64, bv_buckets = [0xA5, 0x30, 0, 0, 0, 0, 0, 0, 0], bv_variety = BitVectorMutable\<rparr>"

lemma twelve_bits_wf: "bv_wf twelve_bits" "bv_count twelve_bits = 12"
  by (simp_all add: twelve_bits_def bv_wf_def)

lemma bits_set_flip_witness:
  "(case CFBitVectorFlipBits twelve_bits 5 6 of Inl _ \<Rightarrow> False
    | Inr bv' \<Rightarrow> bv_bits bv' = update_range 5 6 Not (bv_bits twelve_bits))"
  using bits_set_flip [of twelve_bits 5 6 True] twelve_bits_wf by (simp split: sum.splits)

text \<open>
  Counting the occurrences of a bit in a range gives their number, and the searches give the first
  and the last index that holds the bit, or \<open>kCFNotFound\<close>.
\<close>

theorem bits_count_search:
  assumes "bv_wf bv" and "loc + len \<le> bv_count bv"
  shows "CFBitVectorGetCountOfBit bv loc len v = Inr (length (filter (\<lambda>i. bv_bits bv ! i = v) [loc..<loc + len])) \<and>
    CFBitVectorContainsBit bv loc len v = Inr (\<exists>i\<in>{loc..<loc + len}. bv_bits bv ! i = v) \<and>
    CFBitVectorGetFirstIndexOfBit bv loc len v =
      Inr (case filter (\<lambda>i. bv_bits bv ! i = v) [loc..<loc + len] of [] \<Rightarrow> kCFNotFound | i # _ \<Rightarrow> int i) \<and>
    CFBitVectorGetLastIndexOfBit bv loc len v =
      Inr (case rev (filter (\<lambda>i. bv_bits bv ! i = v) [loc..<loc + len]) of [] \<Rightarrow> kCFNotFound | i # _ \<Rightarrow> int i)"
proof -
  have "take len (drop loc (bv_bits bv)) = map (\<lambda>i. bv_bits bv ! i) [loc..<loc + len]"
    using assms(2) by (intro nth_equalityI) auto
  then have "CFBitVectorGetCountOfBit bv loc len v = Inr (length (filter (\<lambda>i. bv_bits bv ! i = v) [loc..<loc + len]))"
    using count_bits_correct [OF assms, of v] by (simp add: filter_map comp_def)
  then show ?thesis
    using assms bits_first_loop_correct [of bv loc 0 len v] bits_last_loop_correct [of bv loc len v]
    by (auto simp: CFBitVectorContainsBit_def CFBitVectorGetFirstIndexOfBit_def CFBitVectorGetLastIndexOfBit_def
        filter_empty_conv)
qed

lemma bits_count_search_witness:
  "CFBitVectorGetCountOfBit twelve_bits 2 9 True = Inr (length (filter (\<lambda>i. bv_bits twelve_bits ! i = True) [2..<2 + 9]))"
  using bits_count_search [of twelve_bits 2 9 True] twelve_bits_wf by simp

text \<open>
  Changing the count of a mutable vector keeps the bits below the new count, and the bits a longer
  vector gains are zero even where an earlier, longer count had left ones.
\<close>

theorem bits_set_count:
  assumes "bv_wf bv" and "bv_variety bv = BitVectorMutable" and "\<And>n. be_alloc env n \<noteq> None"
  shows "case CFBitVectorSetCount env bv n of Inl _ \<Rightarrow> False
    | Inr bv' \<Rightarrow> bv_wf bv' \<and> bv_count bv' = n \<and> bv_variety bv' = BitVectorMutable \<and>
        bv_bits bv' = take n (bv_bits bv) @ replicate (n - bv_count bv) False"
  by (rule set_count_correct [OF assms, of n]) simp

definition granting_bits_env :: bits_env where
  "granting_bits_env = \<lparr>be_create = True, be_alloc = \<lambda>n. Some (\<lambda>i. 0xFF)\<rparr>"

lemma bits_set_count_witness:
  "case CFBitVectorSetCount granting_bits_env twelve_bits 100 of Inl _ \<Rightarrow> False
    | Inr bv' \<Rightarrow> bv_bits bv' = bv_bits twelve_bits @ replicate 88 False"
  using bits_set_count [of twelve_bits granting_bits_env 100] twelve_bits_wf
  by (simp add: granting_bits_env_def twelve_bits_def split: sum.splits)

text \<open>
  A vector created from bytes gives its bits back: reading the whole of it into a buffer stores the
  bits it was created from, clears the padding of the last byte and leaves the rest of the buffer alone.
\<close>

theorem bits_create_get:
  assumes "be_create env" and "be_alloc env (CFBitVectorRoundUpCapacity n div 8 + 1) \<noteq> None"
    and "n \<le> 8 * length bytes" and "(n + 7) div 8 \<le> length out"
  shows "case CFBitVectorCreate env (Some bytes) n of Inl _ \<Rightarrow> False | Inr None \<Rightarrow> False
    | Inr (Some bv) \<Rightarrow> bv_wf bv \<and> bv_bits bv = map (bits_at bytes) [0..<n] \<and>
        (case CFBitVectorGetBits bv 0 n out of Inl _ \<Rightarrow> False
         | Inr out' \<Rightarrow> length out' = length out \<and> drop ((n + 7) div 8) out' = drop ((n + 7) div 8) out \<and>
            (\<forall>i<8 * ((n + 7) div 8). bits_at out' i \<longleftrightarrow> i < n \<and> bits_at bytes i))"
proof (rule create_correct [OF assms(1-3)])
  fix bv
  assume run: "CFBitVectorCreate env (Some bytes) n = Inr (Some bv)" and wf: "bv_wf bv" "bv_count bv = n"
    and bits: "bv_bits bv = map (bits_at bytes) [0..<n]"
  let ?k = "(n + 7) div 8"
  have get: "CFBitVectorGetBits bv 0 n out =
      Inr (map (\<lambda>seg. bv_buckets bv ! fst seg AND snd seg) (segments (8 * 0) n) @ drop ?k out)"
    using get_bits_correct [of bv 0 n out] wf assms(4) by simp
  have len: "length (segments 0 n) = ?k" using aligned_segments [of 0 n] by simp
  have same: "bits_at (bv_buckets bv) i \<longleftrightarrow> bits_at bytes i" if "i < n" for i
    using bv_bits_nth [of i bv] that wf bits by simp
  have "bits_at (map (\<lambda>seg. bv_buckets bv ! fst seg AND snd seg) (segments 0 n) @ drop ?k out) i \<longleftrightarrow> i < n \<and> bits_at bytes i"
    if "i < 8 * ?k" for i
    using get_bits_at [of i n "bv_buckets bv" 0 "drop ?k out"] that same by (auto simp: less_mult_imp_div_less mult.commute)
  then show ?thesis using run wf bits get len assms(4) by simp
qed

lemma bits_create_get_witness:
  "case CFBitVectorCreate granting_bits_env (Some [0xC3, 0x5A]) 13 of Inl _ \<Rightarrow> False | Inr None \<Rightarrow> False
    | Inr (Some bv) \<Rightarrow> bv_wf bv \<and> bv_bits bv = map (bits_at [0xC3, 0x5A]) [0..<13] \<and>
        (case CFBitVectorGetBits bv 0 13 [1, 2, 3] of Inl _ \<Rightarrow> False
         | Inr out' \<Rightarrow> length out' = length [1, 2, 3 :: bucket] \<and> drop ((13 + 7) div 8) out' = drop ((13 + 7) div 8) [1, 2, 3] \<and>
            (\<forall>i<8 * ((13 + 7) div 8). bits_at out' i \<longleftrightarrow> i < 13 \<and> bits_at [0xC3, 0x5A] i))"
  by (rule bits_create_get) (simp_all add: granting_bits_env_def)

text \<open>
  Reading a range that does not start at a byte boundary stores nothing past the first byte of the
  buffer, however long the range is: the flag that skips the first bits is never cleared.
\<close>

theorem bits_get_unaligned_truncates:
  assumes "bv_wf bv" and "loc + len \<le> bv_count bv" and "0 < len" and "loc mod 8 \<noteq> 0" and "out \<noteq> []"
  shows "\<exists>b. CFBitVectorGetBits bv loc len out = Inr (out[0 := b])"
proof -
  have "\<forall>seg\<in>set (segments loc len). fst seg < length (bv_buckets bv)"
    using segments_fst assms(2) bv_wf_room [OF assms(1)] by fastforce
  then show ?thesis
    using get_bits_unaligned [of "\<lparr>gb_bytes = out, gb_curByte = 0, gb_initBits = loc mod 8, gb_totalBits = int len,
      gb_ignoreFirstInitBits = True\<rparr>" "segments loc len" "bv_buckets bv"] assms
    by (auto simp: CFBitVectorGetBits_def InternalMap_segments)
qed

lemma bits_get_unaligned_truncates_witness: "\<exists>b. CFBitVectorGetBits twelve_bits 3 9 [0, 0] = Inr [b, 0]"
  using bits_get_unaligned_truncates [of twelve_bits 3 9 "[0, 0]"] twelve_bits_wf by simp

text \<open>
  Two vectors with the same bits can compare unequal: creation copies the whole last byte and
  \<open>CFBitVectorEqual\<close> compares it whole, so bits past the count decide.
\<close>

theorem bits_equal_reads_padding:
  assumes "be_create env" and "be_alloc env (CFBitVectorRoundUpCapacity n div 8 + 1) \<noteq> None"
    and "0 < n" and "n < 8" and "\<forall>i<n. bits_at [b1] i = bits_at [b2] i" and "b1 \<noteq> b2"
  shows "case (CFBitVectorCreate env (Some [b1]) n, CFBitVectorCreate env (Some [b2]) n) of
      (Inr (Some bv1), Inr (Some bv2)) \<Rightarrow> bv_bits bv1 = bv_bits bv2 \<and> CFBitVectorEqual bv1 bv2 = Inr False
    | _ \<Rightarrow> False"
proof -
  have one: "(n + 7) div 8 = 1" using assms(3,4) by (simp add: div_nat_eqI)
  obtain bv1 where bv1: "CFBitVectorCreate env (Some [b1]) n = Inr (Some bv1)" "bv_wf bv1" "bv_count bv1 = n"
      "bv_bits bv1 = map (bits_at [b1]) [0..<n]" "hd (bv_buckets bv1) = b1" "bv_buckets bv1 \<noteq> []"
    by (rule create_correct [OF assms(1,2), of "[b1]"]) (use assms(4) one in simp_all)
  obtain bv2 where bv2: "CFBitVectorCreate env (Some [b2]) n = Inr (Some bv2)" "bv_wf bv2" "bv_count bv2 = n"
      "bv_bits bv2 = map (bits_at [b2]) [0..<n]" "hd (bv_buckets bv2) = b2" "bv_buckets bv2 \<noteq> []"
    by (rule create_correct [OF assms(1,2), of "[b2]"]) (use assms(4) one in simp_all)
  have "take (n div 8 + 1) (bv_buckets bv1) \<noteq> take (n div 8 + 1) (bv_buckets bv2)"
    using bv1 bv2 assms(6) by (cases "bv_buckets bv1"; cases "bv_buckets bv2") auto
  then have "CFBitVectorEqual bv1 bv2 = Inr False"
    using Equal_correct [OF bv1(2) bv2(2)] bv1(3) bv2(3) assms(3) by simp
  then show ?thesis using bv1 bv2 assms(5) by simp
qed

lemma bits_equal_reads_padding_witness:
  "case (CFBitVectorCreate granting_bits_env (Some [0xF0]) 4, CFBitVectorCreate granting_bits_env (Some [0xFF]) 4) of
      (Inr (Some bv1), Inr (Some bv2)) \<Rightarrow> bv_bits bv1 = bv_bits bv2 \<and> CFBitVectorEqual bv1 bv2 = Inr False
    | _ \<Rightarrow> False"
proof (rule bits_equal_reads_padding)
  show "\<forall>i<4. bits_at [0xF0] i = bits_at [0xFF] i" by code_simp
qed (simp_all add: granting_bits_env_def)

end
