(* ===== verification/CF_Tree.thy ===== *)
theory CF_Tree
  imports CF_Sort
begin

text \<open>
  \<open>CFTree.c\<close>: trees of nodes linked by addresses. A node knows its parent, its next sibling and its first
  and last child; the children of a node are the chain of siblings from its first child. The store
  maps an address to the node there; a walk along links that never ends is the result \<open>None\<close>. The
  callbacks of a context are addresses of code whose behaviour is the \<open>env\<close> argument; the retain and
  release calls a function makes are returned in order.
\<close>

section \<open>Nodes and the store\<close>

record CFTreeCallBacks =
  tcb_retain :: ptr
  tcb_release :: ptr
  tcb_copyDescription :: ptr

record CFTreeContext = CFTreeCallBacks +
  tctx_info :: ptr

datatype CFTreeCallBacksType = TreeNullCallBacks | TreeCFTypeCallBacks | TreeCustomCallBacks

record CFTree =
  tr_parent :: ptr
  tr_sibling :: ptr
  tr_child :: ptr
  tr_rightmostChild :: ptr
  tr_info :: ptr
  tr_cbtype :: CFTreeCallBacksType
  tr_callbacks :: "CFTreeCallBacks option"

type_synonym tree_heap = "ptr \<Rightarrow> CFTree option"

datatype tree_event = TreeRef ref_event | InfoRef ptr ref_event

record tree_env =
  te_retain :: "ptr \<Rightarrow> ptr \<Rightarrow> ptr"
  te_type_callbacks :: CFTreeCallBacks
  te_alloc :: bool

definition tget :: "tree_heap \<Rightarrow> ptr \<Rightarrow> CFTree cf" where
  "tget h t = (case h t of None \<Rightarrow> Inl NullPointer | Some n \<Rightarrow> Inr n)"

definition tset :: "tree_heap \<Rightarrow> ptr \<Rightarrow> (CFTree \<Rightarrow> CFTree) \<Rightarrow> tree_heap cf" where
  "tset h t f = (case h t of None \<Rightarrow> Inl NullPointer | Some n \<Rightarrow> Inr (h(t := Some (f n))))"

section \<open>Contexts and creation\<close>

definition kCFNullTreeCallBacks :: CFTreeCallBacks where
  "kCFNullTreeCallBacks = \<lparr>tcb_retain = NULL, tcb_release = NULL, tcb_copyDescription = NULL\<rparr>"

definition CFTreeGetCallBacks :: "tree_env \<Rightarrow> CFTree \<Rightarrow> CFTreeCallBacks cf" where
  "CFTreeGetCallBacks env tree =
     (case tr_cbtype tree of
        TreeNullCallBacks \<Rightarrow> Inr kCFNullTreeCallBacks
      | TreeCFTypeCallBacks \<Rightarrow> Inr (te_type_callbacks env)
      | TreeCustomCallBacks \<Rightarrow> (case tr_callbacks tree of None \<Rightarrow> Inl NullPointer | Some cb \<Rightarrow> Inr cb))"

definition CFTreeCallBacksMatchNull :: "CFTreeContext \<Rightarrow> bool" where
  "CFTreeCallBacksMatchNull c \<longleftrightarrow> tcb_retain c = NULL \<and> tcb_release c = NULL \<and> tcb_copyDescription c = NULL"

definition CFTreeCallBacksMatchCFType :: "tree_env \<Rightarrow> CFTreeContext \<Rightarrow> bool" where
  "CFTreeCallBacksMatchCFType env c \<longleftrightarrow> CFTreeCallBacks.truncate c = te_type_callbacks env"

definition info_retain :: "tree_env \<Rightarrow> CFTreeCallBacks \<Rightarrow> ptr \<Rightarrow> ptr" where
  "info_retain env cb info = (if tcb_retain cb \<noteq> NULL then te_retain env (tcb_retain cb) info else info)"

definition info_retain_event :: "CFTreeCallBacks \<Rightarrow> ptr \<Rightarrow> tree_event list" where
  "info_retain_event cb info = (if tcb_retain cb \<noteq> NULL then [InfoRef (tcb_retain cb) (Retained info)] else [])"

definition info_release_event :: "CFTreeCallBacks \<Rightarrow> ptr \<Rightarrow> tree_event list" where
  "info_release_event cb info = (if tcb_release cb \<noteq> NULL then [InfoRef (tcb_release cb) (Released info)] else [])"

definition CFTreeSetContext :: "tree_env \<Rightarrow> tree_heap \<Rightarrow> ptr \<Rightarrow> CFTreeContext \<Rightarrow> (tree_heap \<times> tree_event list) cf" where
  "CFTreeSetContext env h t context =
     ebind (tget h t) (\<lambda>tree.
     ebind (CFTreeGetCallBacks env tree) (\<lambda>oldcb.
     ebind (if CFTreeCallBacksMatchNull context then Inr (tree\<lparr>tr_cbtype := TreeNullCallBacks\<rparr>)
            else if CFTreeCallBacksMatchCFType env context then Inr (tree\<lparr>tr_cbtype := TreeCFTypeCallBacks\<rparr>)
            else if te_alloc env
            then Inr (tree\<lparr>tr_cbtype := TreeCustomCallBacks, tr_callbacks := Some (CFTreeCallBacks.truncate context)\<rparr>)
            else Inl NullPointer) (\<lambda>tree'.
     ebind (CFTreeGetCallBacks env tree') (\<lambda>newcb.
     Inr (h(t := Some (tree'\<lparr>tr_info := info_retain env newcb (tctx_info context)\<rparr>)),
       info_retain_event newcb (tctx_info context) @ info_release_event oldcb (tr_info tree))))))"

definition CFTreeGetContext :: "tree_env \<Rightarrow> tree_heap \<Rightarrow> ptr \<Rightarrow> CFTreeContext cf" where
  "CFTreeGetContext env h t =
     ebind (tget h t) (\<lambda>tree.
     ebind (CFTreeGetCallBacks env tree) (\<lambda>cb.
     Inr (CFTreeCallBacks.extend cb (CFTreeContext.fields (tr_info tree)))))"

text \<open>\<open>memory\<close> is the address of the new object, \<open>None\<close> when the runtime has none; its fields start cleared.\<close>

definition CFTreeCreate ::
  "tree_env \<Rightarrow> tree_heap \<Rightarrow> ptr option \<Rightarrow> CFTreeContext \<Rightarrow> (tree_heap \<times> ptr \<times> tree_event list) cf" where
  "CFTreeCreate env h memory context =
     (case memory of
        None \<Rightarrow> Inr (h, NULL, [])
      | Some t \<Rightarrow>
          ebind (CFTreeSetContext env (h(t := Some \<lparr>tr_parent = NULL, tr_sibling = NULL, tr_child = NULL,
              tr_rightmostChild = NULL, tr_info = NULL, tr_cbtype = TreeNullCallBacks, tr_callbacks = None\<rparr>)) t context)
            (\<lambda>(h, evs). Inr (h, t, evs)))"

section \<open>Reading\<close>

definition CFTreeGetParent :: "tree_heap \<Rightarrow> ptr \<Rightarrow> ptr cf" where
  "CFTreeGetParent h t = ebind (tget h t) (\<lambda>n. Inr (tr_parent n))"

definition CFTreeGetNextSibling :: "tree_heap \<Rightarrow> ptr \<Rightarrow> ptr cf" where
  "CFTreeGetNextSibling h t = ebind (tget h t) (\<lambda>n. Inr (tr_sibling n))"

definition CFTreeGetFirstChild :: "tree_heap \<Rightarrow> ptr \<Rightarrow> ptr cf" where
  "CFTreeGetFirstChild h t = ebind (tget h t) (\<lambda>n. Inr (tr_child n))"

text \<open>The count is a \<open>SInt32\<close>: \<open>cnt++\<close> has no defined result at its largest value.\<close>

partial_function (option) child_count_loop :: "tree_heap \<Rightarrow> ptr \<Rightarrow> nat \<Rightarrow> nat cf option" where
  "child_count_loop h t cnt =
     (if t = NULL then Some (Inr cnt)
      else case h t of
             None \<Rightarrow> Some (Inl NullPointer)
           | Some n \<Rightarrow> if cnt = 2 ^ 31 - 1 then Some (Inl BadShift) else child_count_loop h (tr_sibling n) (cnt + 1))"

definition CFTreeGetChildCount :: "tree_heap \<Rightarrow> ptr \<Rightarrow> nat cf option" where
  "CFTreeGetChildCount h t = (case h t of None \<Rightarrow> Some (Inl NullPointer) | Some n \<Rightarrow> child_count_loop h (tr_child n) 0)"

partial_function (option) CFTreeFindRoot :: "tree_heap \<Rightarrow> ptr \<Rightarrow> ptr cf option" where
  "CFTreeFindRoot h t =
     (case h t of
        None \<Rightarrow> Some (Inl NullPointer)
      | Some n \<Rightarrow> if tr_parent n \<noteq> NULL then CFTreeFindRoot h (tr_parent n) else Some (Inr t))"

partial_function (option) child_index_loop :: "tree_heap \<Rightarrow> ptr \<Rightarrow> int \<Rightarrow> ptr cf option" where
  "child_index_loop h t idx =
     (if t = NULL then Some (Inr NULL)
      else if idx = 0 then Some (Inr t)
      else case h t of None \<Rightarrow> Some (Inl NullPointer) | Some n \<Rightarrow> child_index_loop h (tr_sibling n) (idx - 1))"

definition CFTreeGetChildAtIndex :: "tree_heap \<Rightarrow> ptr \<Rightarrow> int \<Rightarrow> ptr cf option" where
  "CFTreeGetChildAtIndex h t idx =
     (case h t of None \<Rightarrow> Some (Inl NullPointer) | Some n \<Rightarrow> child_index_loop h (tr_child n) idx)"

text \<open>\<open>*children++ = tree\<close>: \<open>children\<close> is the buffer of the caller, written from index \<open>i\<close> on.\<close>

partial_function (option) children_loop :: "tree_heap \<Rightarrow> ptr \<Rightarrow> ptr list \<Rightarrow> nat \<Rightarrow> ptr list cf option" where
  "children_loop h t children i =
     (if t = NULL then Some (Inr children)
      else case wr children i t of
             Inl e \<Rightarrow> Some (Inl e)
           | Inr children' \<Rightarrow>
               (case h t of
                  None \<Rightarrow> Some (Inl NullPointer)
                | Some n \<Rightarrow> children_loop h (tr_sibling n) children' (i + 1)))"

definition CFTreeGetChildren :: "tree_heap \<Rightarrow> ptr \<Rightarrow> ptr list \<Rightarrow> ptr list cf option" where
  "CFTreeGetChildren h t children =
     (case h t of None \<Rightarrow> Some (Inl NullPointer) | Some n \<Rightarrow> children_loop h (tr_child n) children 0)"

text \<open>The applier may change the store; the next sibling is read after it ran.\<close>

partial_function (option) apply_children_loop ::
  "(ptr \<Rightarrow> tree_heap \<times> 's \<Rightarrow> tree_heap \<times> 's) \<Rightarrow> ptr \<Rightarrow> tree_heap \<times> 's \<Rightarrow> (tree_heap \<times> 's) cf option" where
  "apply_children_loop applier t s =
     (if t = NULL then Some (Inr s)
      else case fst (applier t s) t of
             None \<Rightarrow> Some (Inl NullPointer)
           | Some n \<Rightarrow> apply_children_loop applier (tr_sibling n) (applier t s))"

definition CFTreeApplyFunctionToChildren ::
  "(ptr \<Rightarrow> tree_heap \<times> 's \<Rightarrow> tree_heap \<times> 's) \<Rightarrow> tree_heap \<Rightarrow> ptr \<Rightarrow> 's \<Rightarrow> (tree_heap \<times> 's) cf option" where
  "CFTreeApplyFunctionToChildren applier h t s =
     (case h t of None \<Rightarrow> Some (Inl NullPointer) | Some n \<Rightarrow> apply_children_loop applier (tr_child n) (h, s))"

section \<open>Linking\<close>

definition CFTreePrependChild :: "tree_heap \<Rightarrow> ptr \<Rightarrow> ptr \<Rightarrow> (tree_heap \<times> tree_event list) cf" where
  "CFTreePrependChild h t newChild =
     ebind (tset h newChild (\<lambda>n. n\<lparr>tr_parent := t\<rparr>)) (\<lambda>h.
     ebind (tget h t) (\<lambda>tree.
     ebind (tset h newChild (\<lambda>n. n\<lparr>tr_sibling := tr_child tree\<rparr>)) (\<lambda>h.
     ebind (tget h t) (\<lambda>tree.
     ebind (if tr_child tree = NULL then tset h t (\<lambda>n. n\<lparr>tr_rightmostChild := newChild\<rparr>) else Inr h) (\<lambda>h.
     ebind (tset h t (\<lambda>n. n\<lparr>tr_child := newChild\<rparr>)) (\<lambda>h.
     Inr (h, [TreeRef (Retained newChild)])))))))"

definition CFTreeAppendChild :: "tree_heap \<Rightarrow> ptr \<Rightarrow> ptr \<Rightarrow> (tree_heap \<times> tree_event list) cf" where
  "CFTreeAppendChild h t newChild =
     ebind (tget h newChild) (\<lambda>n.
     if tr_parent n \<noteq> NULL then Inl Halt
     else
       ebind (tset h newChild (\<lambda>n. n\<lparr>tr_parent := t, tr_sibling := NULL\<rparr>)) (\<lambda>h.
       ebind (tget h t) (\<lambda>tree.
       ebind (if tr_child tree = NULL then tset h t (\<lambda>n. n\<lparr>tr_child := newChild\<rparr>)
              else tset h (tr_rightmostChild tree) (\<lambda>n. n\<lparr>tr_sibling := newChild\<rparr>)) (\<lambda>h.
       ebind (tset h t (\<lambda>n. n\<lparr>tr_rightmostChild := newChild\<rparr>)) (\<lambda>h.
       Inr (h, [TreeRef (Retained newChild)]))))))"

definition CFTreeInsertSibling :: "tree_heap \<Rightarrow> ptr \<Rightarrow> ptr \<Rightarrow> (tree_heap \<times> tree_event list) cf" where
  "CFTreeInsertSibling h t newSibling =
     ebind (tget h t) (\<lambda>tree.
     ebind (tset h newSibling (\<lambda>n. n\<lparr>tr_parent := tr_parent tree\<rparr>)) (\<lambda>h.
     ebind (tget h t) (\<lambda>tree.
     ebind (tset h newSibling (\<lambda>n. n\<lparr>tr_sibling := tr_sibling tree\<rparr>)) (\<lambda>h.
     ebind (tset h t (\<lambda>n. n\<lparr>tr_sibling := newSibling\<rparr>)) (\<lambda>h.
     ebind (tget h t) (\<lambda>tree.
     ebind (if tr_parent tree \<noteq> NULL then
              ebind (tget h (tr_parent tree)) (\<lambda>parent.
              if tr_rightmostChild parent = t then tset h (tr_parent tree) (\<lambda>n. n\<lparr>tr_rightmostChild := newSibling\<rparr>) else Inr h)
            else Inr h) (\<lambda>h.
     Inr (h, [TreeRef (Retained newSibling)]))))))))"

text \<open>The search for the previous sibling; it ends without a change when there is none.\<close>

partial_function (option) unlink_loop :: "tree_heap \<Rightarrow> ptr \<Rightarrow> ptr \<Rightarrow> tree_heap cf option" where
  "unlink_loop h prevSibling t =
     (if prevSibling = NULL then Some (Inr h)
      else case h prevSibling of
             None \<Rightarrow> Some (Inl NullPointer)
           | Some prev \<Rightarrow>
               if tr_sibling prev = t then
                 Some (ebind (tget h t) (\<lambda>tree.
                       ebind (tset h prevSibling (\<lambda>n. n\<lparr>tr_sibling := tr_sibling tree\<rparr>)) (\<lambda>h.
                       ebind (tget h t) (\<lambda>tree.
                       ebind (tget h (tr_parent tree)) (\<lambda>parent.
                       if tr_rightmostChild parent = t
                       then tset h (tr_parent tree) (\<lambda>n. n\<lparr>tr_rightmostChild := prevSibling\<rparr>) else Inr h)))))
               else unlink_loop h (tr_sibling prev) t)"

definition CFTreeRemove :: "tree_heap \<Rightarrow> ptr \<Rightarrow> (tree_heap \<times> tree_event list) cf option" where
  "CFTreeRemove h t =
     (case tget h t of
        Inl e \<Rightarrow> Some (Inl e)
      | Inr tree \<Rightarrow>
          if tr_parent tree = NULL then Some (Inr (h, []))
          else
            (case (case tget h (tr_parent tree) of
                     Inl e \<Rightarrow> Some (Inl e)
                   | Inr parent \<Rightarrow>
                       if tr_child parent = t then
                         Some (ebind (tset h (tr_parent tree) (\<lambda>n. n\<lparr>tr_child := tr_sibling tree\<rparr>)) (\<lambda>h.
                               ebind (tget h t) (\<lambda>tree.
                               if tr_sibling tree = NULL then tset h (tr_parent tree) (\<lambda>n. n\<lparr>tr_rightmostChild := NULL\<rparr>)
                               else Inr h)))
                       else unlink_loop h (tr_child parent) t) of
               None \<Rightarrow> None
             | Some r \<Rightarrow>
                 Some (ebind r (\<lambda>h.
                       ebind (tset h t (\<lambda>n. n\<lparr>tr_parent := NULL, tr_sibling := NULL\<rparr>)) (\<lambda>h.
                       Inr (h, [TreeRef (Released t)]))))))"

partial_function (option) remove_children_loop ::
  "tree_heap \<Rightarrow> ptr \<Rightarrow> tree_event list \<Rightarrow> (tree_heap \<times> tree_event list) cf option" where
  "remove_children_loop h nextChild evs =
     (if nextChild = NULL then Some (Inr (h, evs))
      else case h nextChild of
             None \<Rightarrow> Some (Inl NullPointer)
           | Some n \<Rightarrow>
               remove_children_loop (h(nextChild := Some (n\<lparr>tr_parent := NULL, tr_sibling := NULL\<rparr>))) (tr_sibling n)
                 (evs @ [TreeRef (Released nextChild)]))"

definition CFTreeRemoveAllChildren :: "tree_heap \<Rightarrow> ptr \<Rightarrow> (tree_heap \<times> tree_event list) cf option" where
  "CFTreeRemoveAllChildren h t =
     (case h t of
        None \<Rightarrow> Some (Inl NullPointer)
      | Some tree \<Rightarrow>
          remove_children_loop (h(t := Some (tree\<lparr>tr_child := NULL, tr_rightmostChild := NULL\<rparr>))) (tr_child tree) [])"

text \<open>What the runtime runs when the last reference to a tree is gone.\<close>

definition CFTreeDeallocate :: "tree_env \<Rightarrow> tree_heap \<Rightarrow> ptr \<Rightarrow> (tree_heap \<times> tree_event list) cf option" where
  "CFTreeDeallocate env h t =
     (case CFTreeRemoveAllChildren h t of
        None \<Rightarrow> None
      | Some r \<Rightarrow>
          Some (ebind r (\<lambda>(h, evs).
                ebind (tget h t) (\<lambda>tree.
                ebind (CFTreeGetCallBacks env tree) (\<lambda>cb.
                Inr (h(t := Some (tree\<lparr>tr_callbacks :=
                      if tr_cbtype tree = TreeCustomCallBacks then None else tr_callbacks tree\<rparr>)),
                  evs @ info_release_event cb (tr_info tree)))))))"

section \<open>Sorting the children\<close>

fun relink_loop :: "tree_heap \<Rightarrow> ptr list \<Rightarrow> tree_heap cf" where
  "relink_loop h [] = Inl OutOfBounds"
| "relink_loop h [c] = tset h c (\<lambda>n. n\<lparr>tr_sibling := NULL\<rparr>)"
| "relink_loop h (c # d # list) = ebind (tset h c (\<lambda>n. n\<lparr>tr_sibling := d\<rparr>)) (\<lambda>h. relink_loop h (d # list))"

definition relink_children :: "tree_heap \<Rightarrow> ptr \<Rightarrow> ptr list \<Rightarrow> tree_heap cf" where
  "relink_children h t list =
     ebind (rd list 0) (\<lambda>initial.
     ebind (tset h t (\<lambda>n. n\<lparr>tr_child := initial\<rparr>)) (\<lambda>h.
     ebind (relink_loop h list) (\<lambda>h.
     ebind (rd list (length list - 1)) (\<lambda>final.
     tset h t (\<lambda>n. n\<lparr>tr_rightmostChild := final\<rparr>)))))"

text \<open>\<open>junk\<close> is what the list of \<open>n\<close> children holds at first, \<open>None\<close> when there is no memory for it.\<close>

definition CFTreeSortChildren ::
  "sort_env \<Rightarrow> (nat \<Rightarrow> (nat \<Rightarrow> ptr) option) \<Rightarrow> (ptr \<Rightarrow> ptr \<Rightarrow> int) \<Rightarrow> tree_heap \<Rightarrow> ptr \<Rightarrow> tree_heap cf option" where
  "CFTreeSortChildren senv alloc cmp h t =
     (case CFTreeGetChildCount h t of
        None \<Rightarrow> None
      | Some (Inl e) \<Rightarrow> Some (Inl e)
      | Some (Inr children) \<Rightarrow>
          if children \<le> 1 then Some (Inr h)
          else
            (case alloc children of
               None \<Rightarrow> Some (Inl NullPointer)
             | Some junk \<Rightarrow>
                 (case CFTreeGetChildren h t (map junk [0..<children]) of
                    None \<Rightarrow> None
                  | Some r \<Rightarrow>
                      Some (ebind r (\<lambda>list.
                            ebind (CFQSortArray senv list children 8 cmp) (\<lambda>list. relink_children h t list))))))"

section \<open>Lists of children\<close>

definition first_of :: "ptr list \<Rightarrow> ptr" where
  "first_of xs = (case xs of [] \<Rightarrow> NULL | x # _ \<Rightarrow> x)"

definition last_of :: "ptr list \<Rightarrow> ptr" where
  "last_of xs = (if xs = [] then NULL else last xs)"

fun succ_in :: "ptr list \<Rightarrow> ptr \<Rightarrow> ptr" where
  "succ_in [] c = NULL"
| "succ_in (x # xs) c = (if x = c then first_of xs else succ_in xs c)"

fun insert_after :: "ptr \<Rightarrow> ptr \<Rightarrow> ptr list \<Rightarrow> ptr list" where
  "insert_after t s [] = []"
| "insert_after t s (x # xs) = (if x = t then x # s # xs else x # insert_after t s xs)"

lemma first_of_simps [simp]: "first_of [] = NULL" "first_of (x # xs) = x"
  by (simp_all add: first_of_def)

lemma last_of_simps [simp]: "last_of [] = NULL" "last_of (xs @ [x]) = x" "xs \<noteq> [] \<Longrightarrow> last_of (x # xs) = last_of xs" "last_of [x] = x"
  by (simp_all add: last_of_def)

lemma first_of_append: "first_of (xs @ ys) = (if xs = [] then first_of ys else first_of xs)"
  by (cases xs) simp_all

lemma last_of_append: "last_of (xs @ ys) = (if ys = [] then last_of xs else last_of ys)"
  by (simp add: last_of_def)

lemma first_of_in: "xs \<noteq> [] \<Longrightarrow> first_of xs \<in> set xs"
  by (cases xs) simp_all

lemma last_of_in: "xs \<noteq> [] \<Longrightarrow> last_of xs \<in> set xs"
  by (simp add: last_of_def)

lemma succ_in_notin [simp]: "c \<notin> set xs \<Longrightarrow> succ_in xs c = NULL"
  by (induction xs) auto

lemma succ_in_split: "c \<notin> set pre \<Longrightarrow> succ_in (pre @ c # suf) c = first_of suf"
  by (induction pre) auto

lemma succ_in_append:
  "distinct (xs @ ys) \<Longrightarrow> succ_in (xs @ ys) c =
     (if xs \<noteq> [] \<and> c = last xs then first_of ys else if c \<in> set xs then succ_in xs c else succ_in ys c)"
  by (induction xs) (auto simp: first_of_append last_in_set split: if_splits)

lemma succ_in_last: "distinct xs \<Longrightarrow> xs \<noteq> [] \<Longrightarrow> succ_in xs (last xs) = NULL"
  by (induction xs) auto

lemma succ_in_in: "succ_in xs c \<noteq> NULL \<Longrightarrow> succ_in xs c \<in> set xs"
proof (induction xs)
  case (Cons x xs)
  then show ?case by (cases xs) (auto split: if_splits)
qed simp

lemma insert_after_split: "t \<notin> set pre \<Longrightarrow> insert_after t s (pre @ t # suf) = pre @ t # s # suf"
  by (induction pre) auto

section \<open>Linked stores\<close>

text \<open>
  \<open>K t\<close> is the list of the children of \<open>t\<close>, in order; the links of every node follow from it and from
  the parent links.
\<close>

definition links_ok :: "tree_heap \<Rightarrow> (ptr \<Rightarrow> ptr list) \<Rightarrow> ptr \<Rightarrow> CFTree \<Rightarrow> bool" where
  "links_ok h K x n \<longleftrightarrow> tr_child n = first_of (K x) \<and> tr_rightmostChild n = last_of (K x) \<and> distinct (K x) \<and> tr_parent n \<noteq> x \<and>
     tr_sibling n = (if tr_parent n = NULL then NULL else succ_in (K (tr_parent n)) x) \<and>
     (tr_parent n \<noteq> NULL \<longrightarrow> h (tr_parent n) \<noteq> None \<and> x \<in> set (K (tr_parent n)))"

definition linked :: "tree_heap \<Rightarrow> (ptr \<Rightarrow> ptr list) \<Rightarrow> bool" where
  "linked h K \<longleftrightarrow> h NULL = None \<and> (\<forall>x. h x = None \<longrightarrow> K x = []) \<and>
     (\<forall>x n. h x = Some n \<longrightarrow> links_ok h K x n) \<and>
     (\<forall>x. \<forall>c\<in>set (K x). map_option tr_parent (h c) = Some x)"

lemma linkedD:
  assumes "linked h K"
  shows "h NULL = None" "h x = None \<Longrightarrow> K x = []" "h x = Some n \<Longrightarrow> links_ok h K x n"
    "c \<in> set (K x) \<Longrightarrow> map_option tr_parent (h c) = Some x"
  using assms unfolding linked_def by blast+

lemma linked_child:
  assumes "linked h K" "K x = pre @ c # suf"
  obtains m where "h c = Some m" "c \<noteq> NULL" "tr_parent m = x" "tr_sibling m = first_of suf" "h x \<noteq> None" "x \<noteq> NULL"
proof -
  obtain m where m: "h c = Some m" "tr_parent m = x" using linkedD(4) [OF assms(1), of c x] assms(2) by auto
  have x: "h x \<noteq> None" using linkedD(2) [OF assms(1), of x] assms(2) by auto
  then have "distinct (K x)" "x \<noteq> NULL" using linkedD [OF assms(1)] by (auto simp: links_ok_def)
  moreover have "tr_sibling m = (if x = NULL then NULL else succ_in (K x) c)"
    using linkedD(3) [OF assms(1) m(1)] m(2) by (simp add: links_ok_def)
  moreover have "c \<noteq> NULL" using m(1) linkedD(1) [OF assms(1)] by auto
  ultimately show thesis
    using that [OF m(1)] m x assms(2) succ_in_split [of c pre suf] by auto
qed

lemma linked_node:
  assumes "linked h K" "h x = Some n"
  shows "tr_child n = first_of (K x)" "tr_rightmostChild n = last_of (K x)" "distinct (K x)" "x \<noteq> NULL" "NULL \<notin> set (K x)"
  using linkedD [OF assms(1)] assms(2) unfolding links_ok_def by fastforce+

section \<open>Reading the children\<close>

lemma count_loop_correct:
  assumes "linked h K" "K x = pre @ suf" "cnt + length suf < 2 ^ 31"
  shows "child_count_loop h (first_of suf) cnt = Some (Inr (cnt + length suf))"
  using assms(2,3)
proof (induction suf arbitrary: pre cnt)
  case Nil
  then show ?case by (simp add: child_count_loop.simps)
next
  case (Cons c suf)
  obtain m where "h c = Some m" "c \<noteq> NULL" "tr_sibling m = first_of suf"
    using linked_child [OF assms(1) Cons.prems(1)] by metis
  then show ?case using Cons.IH [of "pre @ [c]" "cnt + 1"] Cons.prems by (subst child_count_loop.simps) simp
qed

lemma index_loop_correct:
  assumes "linked h K" "K x = pre @ suf"
  shows "child_index_loop h (first_of suf) idx =
    Some (Inr (if 0 \<le> idx \<and> idx < int (length suf) then suf ! nat idx else NULL))"
  using assms(2)
proof (induction suf arbitrary: pre idx)
  case Nil
  then show ?case by (auto simp: child_index_loop.simps)
next
  case (Cons c suf)
  obtain m where m: "h c = Some m" "c \<noteq> NULL" "tr_sibling m = first_of suf"
    using linked_child [OF assms(1) Cons.prems(1)] by metis
  show ?case
  proof (cases "idx = 0")
    case True
    then show ?thesis using m by (subst child_index_loop.simps) simp
  next
    case False
    then have "nat idx = Suc (nat (idx - 1))" if "0 \<le> idx" using that by simp
    then show ?thesis using m False Cons.IH [of "pre @ [c]" "idx - 1"] Cons.prems
      by (subst child_index_loop.simps) auto
  qed
qed

lemma children_loop_correct:
  assumes "linked h K" "K x = pre @ suf" "i + length suf \<le> length children"
  shows "children_loop h (first_of suf) children i = Some (Inr (take i children @ suf @ drop (i + length suf) children))"
  using assms(2,3)
proof (induction suf arbitrary: pre i children)
  case Nil
  then show ?case by (simp add: children_loop.simps)
next
  case (Cons c suf)
  obtain m where m: "h c = Some m" "c \<noteq> NULL" "tr_sibling m = first_of suf"
    using linked_child [OF assms(1) Cons.prems(1)] by metis
  moreover have "take (i + 1) (children[i := c]) = take i children @ [c]"
    using Cons.prems by (simp add: take_Suc_conv_app_nth)
  ultimately show ?case
    using Cons.IH [of "pre @ [c]" "i + 1" "children[i := c]"] Cons.prems by (subst children_loop.simps) simp
qed

section \<open>Linking\<close>

lemma linked_root:
  assumes "linked h K" "h c = Some n" "tr_parent n = NULL"
  shows "tr_sibling n = NULL" "c \<notin> set (K x)"
proof -
  show "tr_sibling n = NULL" using linkedD(3) [OF assms(1,2)] assms(3) by (simp add: links_ok_def)
  show "c \<notin> set (K x)"
  proof
    assume c: "c \<in> set (K x)"
    then have "x = NULL" using linkedD(4) [OF assms(1) c] assms(2,3) by simp
    then show False using c linkedD(1,2) [OF assms(1)] by auto
  qed
qed

lemma linked_parent: "linked h K \<Longrightarrow> h t = Some n \<Longrightarrow> t \<in> set (K x) \<Longrightarrow> tr_parent n = x"
  using linkedD(4) [of h K t x] by simp

text \<open>
  A store is linked again when every node has the links its new lists prescribe; the nodes whose links
  a change does not touch need no attention.
\<close>

lemma linkedI:
  assumes "h NULL = None" "\<And>x. h x = None \<Longrightarrow> K x = []" "\<And>x n. h x = Some n \<Longrightarrow> links_ok h K x n"
    "\<And>x c. c \<in> set (K x) \<Longrightarrow> map_option tr_parent (h c) = Some x"
  shows "linked h K"
  using assms unfolding linked_def by blast

lemma prepend_correct:
  assumes L: "linked h K" and t: "h t = Some tree" and c: "h c = Some n" "tr_parent n = NULL" "t \<noteq> c"
  obtains h' where "CFTreePrependChild h t c = Inr (h', [TreeRef (Retained c)])" "linked h' (K(t := c # K t))"
    "dom h' = dom h"
proof -
  note T = linked_node [OF L t] and C = linked_node [OF L c(1)] and R = linked_root [OF L c(1,2)]
  define h' where "h' = h(c := Some (n\<lparr>tr_parent := t, tr_sibling := first_of (K t)\<rparr>),
     t := Some (tree\<lparr>tr_child := c, tr_rightmostChild := last_of (c # K t)\<rparr>))"
  have run: "CFTreePrependChild h t c = Inr (h', [TreeRef (Retained c)])"
    using t c T by (cases "K t") (auto simp: CFTreePrependChild_def tset_def tget_def h'_def fun_upd_twist last_of_def first_of_def)
  have "linked h' (K(t := c # K t))"
  proof (rule linkedI)
    fix x n' assume x: "h' x = Some n'"
    have dom: "h' y = None \<longleftrightarrow> h y = None" for y using t c(1) by (simp add: h'_def)
    consider "x = c" | "x = t" | "x \<noteq> c" "x \<noteq> t" "h x = Some n'"
      using x by (auto simp: h'_def split: if_splits)
    then show "links_ok h' (K(t := c # K t)) x n'"
    proof cases
      case 1
      then have "n' = n\<lparr>tr_parent := t, tr_sibling := first_of (K t)\<rparr>" using x c(3) by (simp add: h'_def split: if_splits)
      then show ?thesis using 1 c(3) T C t by (simp add: links_ok_def dom)
    next
      case 2
      then have "n' = tree\<lparr>tr_child := c, tr_rightmostChild := last_of (c # K t)\<rparr>" using x by (simp add: h'_def)
      then show ?thesis using 2 c(3) T R linkedD(3) [OF L t] by (auto simp: links_ok_def dom)
    next
      case 3
      then show ?thesis using linkedD(3) [OF L 3(3)] by (auto simp: links_ok_def dom)
    qed
  qed (use c L T C R linkedD [OF L] linked_parent [OF L t] in \<open>auto simp: h'_def split: if_splits\<close>)
  with run show thesis using that t c by (auto simp: h'_def)
qed

lemma last_of_child:
  assumes "linked h K" "K x \<noteq> []"
  obtains m where "h (last_of (K x)) = Some m" "tr_parent m = x" "x \<noteq> NULL"
proof -
  have "last_of (K x) \<in> set (K x)" using assms(2) by (rule last_of_in)
  then obtain m where "h (last_of (K x)) = Some m" "tr_parent m = x" using linkedD(4) [OF assms(1)] by fastforce
  moreover have "x \<noteq> NULL" using assms(2) linkedD(1,2) [OF assms(1)] by auto
  ultimately show thesis using that by blast
qed

lemma append_correct:
  assumes L: "linked h K" and t: "h t = Some tree" and c: "h c = Some n" "tr_parent n = NULL" "t \<noteq> c"
  obtains h' where "CFTreeAppendChild h t c = Inr (h', [TreeRef (Retained c)])" "linked h' (K(t := K t @ [c]))"
    "dom h' = dom h"
proof -
  note T = linked_node [OF L t] and C = linked_node [OF L c(1)] and R = linked_root [OF L c(1,2)]
  have first: "first_of (K t) = NULL \<longleftrightarrow> K t = []" using T(5) first_of_in [of "K t"] by (cases "K t") auto
  show thesis
  proof (cases "K t = []")
    case True
    define h' where "h' = h(c := Some (n\<lparr>tr_parent := t, tr_sibling := NULL\<rparr>),
       t := Some (tree\<lparr>tr_child := c, tr_rightmostChild := c\<rparr>))"
    have run: "CFTreeAppendChild h t c = Inr (h', [TreeRef (Retained c)])"
      using t c T True by (simp add: CFTreeAppendChild_def tset_def tget_def h'_def)
    have "linked h' (K(t := K t @ [c]))"
    proof (rule linkedI)
      fix x n' assume x: "h' x = Some n'"
      have dom: "h' y = None \<longleftrightarrow> h y = None" for y using t c(1) by (simp add: h'_def)
      consider "x = c" | "x = t" | "x \<noteq> c" "x \<noteq> t" "h x = Some n'"
        using x by (auto simp: h'_def split: if_splits)
      then show "links_ok h' (K(t := K t @ [c])) x n'"
      proof cases
        case 1
        then have "n' = n\<lparr>tr_parent := t, tr_sibling := NULL\<rparr>" using x c(3) by (simp add: h'_def split: if_splits)
        then show ?thesis using 1 c(3) T C t True by (simp add: links_ok_def dom)
      next
        case 2
        then have "n' = tree\<lparr>tr_child := c, tr_rightmostChild := c\<rparr>" using x by (simp add: h'_def)
        then show ?thesis using 2 c(3) T R True linkedD(3) [OF L t] by (auto simp: links_ok_def dom)
      next
        case 3
        then show ?thesis using linkedD(3) [OF L 3(3)] True by (auto simp: links_ok_def dom)
      qed
    qed (use c L T C R True linkedD [OF L] linked_parent [OF L t] in \<open>auto simp: h'_def split: if_splits\<close>)
    with run show thesis using that t c by (auto simp: h'_def)
  next
    case False
    obtain m where m: "h (last_of (K t)) = Some m" "tr_parent m = t" "t \<noteq> NULL" using last_of_child [OF L False] by metis
    let ?l = "last_of (K t)"
    have l: "?l \<noteq> c" "?l = last (K t)" using R(2) [of t] last_of_in [OF False] False by (auto simp: last_of_def)
    have t_l: "t \<noteq> ?l" using linkedD(3) [OF L m(1)] m(2) by (simp add: links_ok_def)
    define h' where "h' = h(c := Some (n\<lparr>tr_parent := t, tr_sibling := NULL\<rparr>), ?l := Some (m\<lparr>tr_sibling := c\<rparr>),
      t := Some (tree\<lparr>tr_rightmostChild := c\<rparr>))"
    have run: "CFTreeAppendChild h t c = Inr (h', [TreeRef (Retained c)])"
      using t c T m l t_l first False by (simp add: CFTreeAppendChild_def tset_def tget_def h'_def)
    have succ: "succ_in (K t @ [c]) x = (if x = last (K t) then c else if x = c then NULL else succ_in (K t) x)" for x
      using succ_in_append [of "K t" "[c]" x] T(3) R(2) [of t] False by auto
    have "linked h' (K(t := K t @ [c]))"
    proof (rule linkedI)
      fix x n' assume x: "h' x = Some n'"
      consider "x = c" | "x = t" | "x = ?l" | "x \<noteq> c" "x \<noteq> t" "x \<noteq> ?l" "h x = Some n'"
        using x by (auto simp: h'_def split: if_splits)
      then show "links_ok h' (K(t := K t @ [c])) x n'"
      proof cases
        case 1
        then have "n' = n\<lparr>tr_parent := t, tr_sibling := NULL\<rparr>" using x c(3) l by (simp add: h'_def split: if_splits)
        then show ?thesis using 1 c(3) l T C succ by (simp add: h'_def links_ok_def)
      next
        case 2
        then show ?thesis
          using x c(3) l t_l t T False linkedD(3) [OF L t]
          by (auto simp: h'_def links_ok_def first_of_append R(2))
      next
        case 3
        then have "n' = m\<lparr>tr_sibling := c\<rparr>" using x l t_l by (simp add: h'_def)
        then show ?thesis
          using 3 c(3) l t_l m linked_node [OF L m(1)] linkedD(3) [OF L m(1)] succ
          by (simp add: h'_def links_ok_def)
      next
        case 4
        then show ?thesis
          using linkedD(3) [OF L 4(4)] l succ linked_node [OF L 4(4)] by (auto simp: h'_def links_ok_def)
      qed
    next
      fix x c' assume "c' \<in> set ((K(t := K t @ [c])) x)"
      then show "map_option tr_parent (h' c') = Some x"
        using c t m l t_l linkedD(4) [OF L, of c' x] R(2) by (auto simp: h'_def split: if_splits)
    qed (use c t m L linkedD [OF L] T C in \<open>auto simp: h'_def split: if_splits\<close>)
    with run show thesis using that t c m by (auto simp: h'_def)
  qed
qed

lemma insert_sibling_correct:
  assumes L: "linked h K" and t: "h t = Some tree" "tr_parent tree \<noteq> NULL" and c: "h c = Some n" "tr_parent n = NULL"
    and tc: "tr_parent tree \<noteq> c"
  obtains h' where "CFTreeInsertSibling h t c = Inr (h', [TreeRef (Retained c)])"
    "linked h' (K(tr_parent tree := insert_after t c (K (tr_parent tree))))" "dom h' = dom h"
proof -
  let ?p = "tr_parent tree"
  note T = linked_node [OF L t(1)] and C = linked_node [OF L c(1)] and R = linked_root [OF L c(1,2)]
  have tl: "links_ok h K t tree" using linkedD(3) [OF L t(1)] .
  then obtain par where p: "h ?p = Some par" and t_in: "t \<in> set (K ?p)" using t(2) by (auto simp: links_ok_def)
  note P = linked_node [OF L p]
  obtain pre suf where K: "K ?p = pre @ t # suf" "t \<notin> set pre" using split_list_first [OF t_in] by blast
  have t_c: "t \<noteq> c" using t c by auto
  have dist: "distinct (pre @ t # suf)" "c \<notin> set (pre @ t # suf)" "NULL \<notin> set (pre @ t # suf)"
    using P(3,5) R(2) [of ?p] K(1) by auto
  let ?xs = "pre @ t # c # suf"
  have xs: "insert_after t c (K ?p) = ?xs" using K by (simp add: insert_after_split)
  have tsib: "tr_sibling tree = first_of suf" using tl t(2) K dist succ_in_split [of t pre suf] by (simp add: links_ok_def)
  have succ: "succ_in ?xs x = (if x = t then c else if x = c then first_of suf else succ_in (K ?p) x)" for x
    using succ_in_append [of pre "t # c # suf" x] succ_in_append [of pre "t # suf" x] dist K by auto
  have last: "last_of ?xs = (if last_of (K ?p) = t then c else last_of (K ?p))"
    using dist K last_in_set [of suf] by (auto simp: last_of_def)
  have p_t: "?p \<noteq> t" using tl by (simp add: links_ok_def)
  define h1 where "h1 = h(c := Some (n\<lparr>tr_parent := ?p, tr_sibling := first_of suf\<rparr>), t := Some (tree\<lparr>tr_sibling := c\<rparr>))"
  define h' where "h' = (if last_of (K ?p) = t then h1(?p := Some (par\<lparr>tr_rightmostChild := c\<rparr>)) else h1)"
  have run: "CFTreeInsertSibling h t c = Inr (h', [TreeRef (Retained c)])"
    using t c tc p P(2) t_c p_t tsib
    by (simp add: CFTreeInsertSibling_def tset_def tget_def h'_def h1_def)
  have "linked h' (K(?p := ?xs))"
  proof (rule linkedI)
    fix x n' assume x: "h' x = Some n'"
    have same: "h' y \<noteq> None \<longleftrightarrow> h y \<noteq> None" for y using c t p by (auto simp: h'_def h1_def)
    consider "x = c" | "x = t" | "x = ?p" "h' ?p = Some n'" | "x \<noteq> c" "x \<noteq> t" "x \<noteq> ?p" "h x = Some n'"
      using x by (cases "x = ?p") (auto simp: h'_def h1_def split: if_splits)
    then show "links_ok h' (K(?p := ?xs)) x n'"
    proof cases
      case 1
      then have "n' = n\<lparr>tr_parent := ?p, tr_sibling := first_of suf\<rparr>" using x tc t_c by (simp add: h'_def h1_def split: if_splits)
      then show ?thesis using 1 tc C t(2) t_c succ p same [of ?p] by (simp add: links_ok_def)
    next
      case 2
      then have "n' = tree\<lparr>tr_sibling := c\<rparr>" using x p_t t_c by (simp add: h'_def h1_def split: if_splits)
      then show ?thesis using 2 T tl t(2) p_t succ p same [of ?p] by (simp add: links_ok_def)
    next
      case 3
      have "n' = (if last_of (K ?p) = t then par\<lparr>tr_rightmostChild := c\<rparr> else par)"
        using 3 p p_t tc by (simp add: h'_def h1_def split: if_splits)
      then show ?thesis
        using 3 P dist linkedD(3) [OF L p] last same [of "tr_parent par"] K t_c by (auto simp: links_ok_def first_of_append)
    next
      case 4
      then show ?thesis
        using linkedD(3) [OF L 4(4)] succ same [of "tr_parent n'"] linked_node [OF L 4(4)] K(1)
        by (auto simp: links_ok_def)
    qed
  next
    fix x c' assume "c' \<in> set ((K(?p := ?xs)) x)"
    then show "map_option tr_parent (h' c') = Some x"
      using tc t p t_c c K linkedD(4) [OF L, of c' x] R(2) [of x]
      by (auto simp: h'_def h1_def p_t split: if_splits)
  qed (use c t p L T C R linkedD [OF L] in \<open>auto simp: h'_def h1_def split: if_splits\<close>)
  moreover have "dom h' = dom h" using t c p by (auto simp: h'_def h1_def split: if_splits)
  ultimately show thesis using that [of h'] run xs by simp
qed

section \<open>Unlinking\<close>

lemma unlink_loop_correct:
  assumes "linked h K" "K p = pre @ (prev # mid) @ t # suf" "h t = Some tree" "tr_parent tree = p" "h p = Some par"
  shows "unlink_loop h prev t = Some (Inr
     ((h(last (prev # mid) := map_option (\<lambda>n. n\<lparr>tr_sibling := first_of suf\<rparr>) (h (last (prev # mid)))))
       (p := Some (if suf = [] then par\<lparr>tr_rightmostChild := last (prev # mid)\<rparr> else par))))"
  using assms(2)
proof (induction mid arbitrary: pre prev)
  case Nil
  obtain m where m: "h prev = Some m" "prev \<noteq> NULL" "tr_parent m = p" "tr_sibling m = t"
    using linked_child [OF assms(1), of p pre prev "t # suf"] Nil by auto
  obtain m' where t: "h t = Some m'" "t \<noteq> NULL" "tr_sibling m' = first_of suf"
    using linked_child [OF assms(1), of p "pre @ [prev]" t suf] Nil by auto
  have par: "tr_rightmostChild par = last_of (K p)" "distinct (K p)" using linked_node [OF assms(1,5)] by simp_all
  have p: "p \<noteq> prev" "p \<noteq> t"
    using linkedD(3) [OF assms(1) m(1)] linkedD(3) [OF assms(1,3)] m(3) assms(4) by (auto simp: links_ok_def)
  have "tr_rightmostChild par = t \<longleftrightarrow> suf = []"
    using par Nil last_in_set [of suf] by (auto simp: last_of_def)
  moreover have "t \<noteq> prev" using par(2) Nil by auto
  moreover have "tr_sibling tree = first_of suf" using t(1,3) assms(3) by simp
  ultimately show ?case
    using m(1,2,4) p assms(3-5)
    by (subst unlink_loop.simps) (cases "suf = []"; simp add: tget_def tset_def fun_upd_idem)
next
  case (Cons c mid)
  have "K p = pre @ prev # (c # mid @ t # suf)" using Cons.prems by simp
  from linked_child [OF assms(1) this]
  obtain m where m: "h prev = Some m" "prev \<noteq> NULL" "tr_sibling m = c" by (metis first_of_simps(2))
  have "distinct (K p)" using linked_node [OF assms(1,5)] by simp
  then have "c \<noteq> t" using Cons.prems by auto
  then have step: "unlink_loop h prev t = unlink_loop h c t" using m by (subst unlink_loop.simps) simp
  have same_last: "last (prev # c # mid) = last (c # mid)" by simp
  show ?case unfolding step same_last by (rule Cons.IH [of "pre @ [prev]"]) (use Cons.prems in simp)
qed

lemma remove_root: "h t = Some tree \<Longrightarrow> tr_parent tree = NULL \<Longrightarrow> CFTreeRemove h t = Some (Inr (h, []))"
  by (simp add: CFTreeRemove_def tget_def)

lemma remove_correct:
  assumes L: "linked h K" and t: "h t = Some tree" "tr_parent tree \<noteq> NULL"
  obtains h' where "CFTreeRemove h t = Some (Inr (h', [TreeRef (Released t)]))"
    "linked h' (K(tr_parent tree := remove1 t (K (tr_parent tree))))" "dom h' = dom h"
proof -
  let ?p = "tr_parent tree"
  have tl: "links_ok h K t tree" using linkedD(3) [OF L t(1)] .
  then obtain par where p: "h ?p = Some par" and t_in: "t \<in> set (K ?p)" using t(2) by (auto simp: links_ok_def)
  have p_t: "?p \<noteq> t" using tl by (simp add: links_ok_def)
  note P = linked_node [OF L p] and T = linked_node [OF L t(1)]
  obtain pre suf where K: "K ?p = pre @ t # suf" "t \<notin> set pre" using split_list_first [OF t_in] by blast
  have dist: "distinct (pre @ t # suf)" "NULL \<notin> set (pre @ t # suf)" using P K by simp_all
  have rem: "remove1 t (K ?p) = pre @ suf" using K by (simp add: remove1_append)
  have tsib: "tr_sibling tree = first_of suf" using tl t(2) K dist succ_in_split [of t pre suf] by (simp add: links_ok_def)
  let ?l = "last_of pre"
  have l: "pre \<noteq> [] \<Longrightarrow> ?l \<in> set (K ?p) \<and> ?l \<noteq> t" using K dist last_of_in [of pre] by auto
  have suf0: "first_of suf = NULL \<longleftrightarrow> suf = []" using dist by (cases suf) auto
  define par' where "par' = par\<lparr>tr_child := first_of (pre @ suf), tr_rightmostChild := last_of (pre @ suf)\<rparr>"
  define h1 where "h1 = (if pre = [] then h else h(?l := map_option (\<lambda>n. n\<lparr>tr_sibling := first_of suf\<rparr>) (h ?l)))"
  define h' where "h' = h1(?p := Some par', t := Some (tree\<lparr>tr_parent := NULL, tr_sibling := NULL\<rparr>))"
  have run: "CFTreeRemove h t = Some (Inr (h', [TreeRef (Released t)]))"
  proof (cases pre)
    case Nil
    have "par\<lparr>tr_child := first_of suf, tr_rightmostChild := NULL\<rparr> = par'" if "suf = []"
      using that Nil by (simp add: par'_def)
    moreover have "par\<lparr>tr_child := first_of suf\<rparr> = par'" if "suf \<noteq> []"
      using that Nil P(2) K by (simp add: par'_def)
    ultimately show ?thesis
      using Nil K P t p p_t tsib suf0
      by (auto simp: CFTreeRemove_def tget_def tset_def h'_def h1_def)
  next
    case (Cons c mid)
    have "(if suf = [] then par\<lparr>tr_rightmostChild := last (c # mid)\<rparr> else par) = par'"
      using P(1,2) K Cons by (auto simp: par'_def last_of_def)
    then show ?thesis
      using Cons K P(1) t p p_t dist unlink_loop_correct [OF L, of ?p "[]" c mid t suf tree par]
      by (auto simp: CFTreeRemove_def tget_def tset_def h'_def h1_def last_of_def fun_upd_twist)
  qed
  have dom: "dom h' = dom h" using t p by (auto simp: h'_def h1_def split: if_splits)
  have same: "h' y = None \<longleftrightarrow> h y = None" for y using dom by (metis domIff)
  have succ: "succ_in (pre @ suf) x = (if pre \<noteq> [] \<and> x = ?l then first_of suf else succ_in (K ?p) x)" if "x \<noteq> t" for x
    using that succ_in_append [of pre "t # suf" x] succ_in_append [of pre suf x] dist K by (auto simp: last_of_def)
  have "linked h' (K(?p := pre @ suf))"
  proof (rule linkedI)
    fix x n' assume x: "h' x = Some n'"
    consider "x = t" | "x = ?p" | "pre \<noteq> []" "x = ?l" "x \<noteq> t" "x \<noteq> ?p" | "x \<noteq> t" "x \<noteq> ?p" "pre = [] \<or> x \<noteq> ?l" by blast
    then show "links_ok h' (K(?p := pre @ suf)) x n'"
    proof cases
      case 1
      then have "n' = tree\<lparr>tr_parent := NULL, tr_sibling := NULL\<rparr>" using x by (simp add: h'_def)
      then show ?thesis using 1 T p_t by (simp add: links_ok_def)
    next
      case 2
      then have "n' = par'" using x p_t by (simp add: h'_def)
      then show ?thesis using 2 dist linkedD(3) [OF L p] same by (auto simp: links_ok_def par'_def)
    next
      case 3
      obtain m where m: "h ?l = Some m" "tr_parent m = ?p" using linkedD(4) [OF L, of ?l ?p] l [OF 3(1)] by auto
      have "n' = m\<lparr>tr_sibling := first_of suf\<rparr>" using x 3 m by (simp add: h'_def h1_def)
      then show ?thesis
        using 3 m linkedD(3) [OF L m(1)] linked_node [OF L m(1)] same [of ?p] succ [of ?l] t(2) last_of_in [of pre] p
        by (simp add: links_ok_def)
    next
      case 4
      then have n': "h x = Some n'" using x by (auto simp: h'_def h1_def split: if_splits)
      show ?thesis
        using 4 linkedD(3) [OF L n'] linked_node [OF L n'] same [of "tr_parent n'"] succ [of x] K(1) by (auto simp: links_ok_def)
    qed
  next
    fix x c' assume c': "c' \<in> set ((K(?p := pre @ suf)) x)"
    then have c'K: "c' \<in> set (K x)" "c' \<noteq> t" using K dist linked_parent [OF L t(1), of x] by (auto split: if_splits)
    then show "map_option tr_parent (h' c') = Some x"
      using linkedD(4) [OF L c'K(1)] p by (auto simp: h'_def h1_def par'_def)
  qed (use same linkedD [OF L] p K in \<open>auto split: if_splits\<close>)
  then show thesis using that [OF run] dom rem by simp
qed

section \<open>Removing all children\<close>

fun chain :: "tree_heap \<Rightarrow> ptr list \<Rightarrow> bool" where
  "chain h [] = True"
| "chain h (c # cs) = (c \<noteq> NULL \<and> map_option tr_sibling (h c) = Some (first_of cs) \<and> chain h cs)"

lemma chain_update: "x \<notin> set cs \<Longrightarrow> chain (h(x := v)) cs = chain h cs"
  by (induction cs) auto

lemma linked_chain: "linked h K \<Longrightarrow> K x = pre @ cs \<Longrightarrow> chain h cs"
proof (induction cs arbitrary: pre)
  case (Cons c cs)
  obtain m where "h c = Some m" "c \<noteq> NULL" "tr_sibling m = first_of cs"
    using linked_child [OF Cons.prems] by metis
  then show ?case using Cons.IH [of "pre @ [c]"] Cons.prems by simp
qed simp

definition detach :: "tree_heap \<Rightarrow> ptr list \<Rightarrow> tree_heap" where
  "detach h cs = (\<lambda>x. if x \<in> set cs then map_option (\<lambda>n. n\<lparr>tr_parent := NULL, tr_sibling := NULL\<rparr>) (h x) else h x)"

lemma remove_children_loop_correct:
  "chain h cs \<Longrightarrow> distinct cs \<Longrightarrow>
   remove_children_loop h (first_of cs) evs = Some (Inr (detach h cs, evs @ map (\<lambda>c. TreeRef (Released c)) cs))"
proof (induction cs arbitrary: h evs)
  case Nil
  then show ?case by (simp add: remove_children_loop.simps detach_def)
next
  case (Cons c cs)
  obtain m where m: "h c = Some m" "tr_sibling m = first_of cs" "c \<noteq> NULL" using Cons.prems by auto
  let ?h = "h(c := Some (m\<lparr>tr_parent := NULL, tr_sibling := NULL\<rparr>))"
  have "detach ?h cs = detach h (c # cs)" using Cons.prems m by (auto simp: detach_def fun_eq_iff)
  moreover have "chain ?h cs" using Cons.prems by (simp add: chain_update)
  moreover have "remove_children_loop h (first_of (c # cs)) evs = remove_children_loop ?h (first_of cs) (evs @ [TreeRef (Released c)])"
    using m by (subst remove_children_loop.simps) simp
  ultimately show ?case
    using Cons.IH [of ?h "evs @ [TreeRef (Released c)]"] Cons.prems(2) by (simp del: fun_upd_apply)
qed

lemma remove_all_correct:
  assumes L: "linked h K" and t: "h t = Some tree"
  obtains h' where "CFTreeRemoveAllChildren h t = Some (Inr (h', map (\<lambda>c. TreeRef (Released c)) (K t)))"
    "linked h' (K(t := []))" "dom h' = dom h"
proof -
  note T = linked_node [OF L t]
  let ?h = "h(t := Some (tree\<lparr>tr_child := NULL, tr_rightmostChild := NULL\<rparr>))"
  have t_notin: "t \<notin> set (K t)" using linkedD(3) [OF L t] linked_parent [OF L t, of t] by (auto simp: links_ok_def)
  define h' where "h' = detach ?h (K t)"
  have run: "CFTreeRemoveAllChildren h t = Some (Inr (h', map (\<lambda>c. TreeRef (Released c)) (K t)))"
    using t T remove_children_loop_correct [of ?h "K t" "[]"] linked_chain [OF L, of t "[]" "K t"] t_notin
    by (simp add: CFTreeRemoveAllChildren_def h'_def chain_update)
  have dom: "dom h' = dom h" using t by (auto simp: h'_def detach_def split: if_splits)
  then have same: "h' y = None \<longleftrightarrow> h y = None" for y by (metis domIff)
  have "linked h' (K(t := []))"
  proof (rule linkedI)
    fix x n' assume x: "h' x = Some n'"
    then obtain n where n: "h x = Some n" using same [of x] by auto
    have "n' = (let n1 = if x = t then n\<lparr>tr_child := NULL, tr_rightmostChild := NULL\<rparr> else n
                in if x \<in> set (K t) then n1\<lparr>tr_parent := NULL, tr_sibling := NULL\<rparr> else n1)"
      using x n t by (auto simp: h'_def detach_def split: if_splits)
    then show "links_ok h' (K(t := [])) x n'"
      using linkedD(3) [OF L n] linked_node [OF L n] linked_parent [OF L n, of t] same [of "tr_parent n"]
      by (auto simp: links_ok_def Let_def split: if_splits)
  next
    fix x c' assume c': "c' \<in> set ((K(t := [])) x)"
    then have "c' \<in> set (K x)" "x \<noteq> t" by (auto split: if_splits)
    moreover from this have "c' \<notin> set (K t)" using linkedD(4) [OF L, of c' x] linkedD(4) [OF L, of c' t] by auto
    ultimately show "map_option tr_parent (h' c') = Some x"
      using linkedD(4) [OF L, of c' x] t by (auto simp: h'_def detach_def)
  qed (use same linkedD [OF L] in auto)
  then show thesis using that [OF run] dom by simp
qed

section \<open>Sorting\<close>

definition relinked :: "tree_heap \<Rightarrow> ptr list \<Rightarrow> tree_heap" where
  "relinked h ys = (\<lambda>x. if x \<in> set ys then map_option (\<lambda>n. n\<lparr>tr_sibling := succ_in ys x\<rparr>) (h x) else h x)"

lemma relink_loop_correct:
  "distinct ys \<Longrightarrow> ys \<noteq> [] \<Longrightarrow> \<forall>c\<in>set ys. h c \<noteq> None \<Longrightarrow> relink_loop h ys = Inr (relinked h ys)"
proof (induction h ys rule: relink_loop.induct)
  case (3 h c d list)
  obtain m where m: "h c = Some m" using 3(4) by auto
  let ?h = "h(c := Some (m\<lparr>tr_sibling := d\<rparr>))"
  have "relink_loop ?h (d # list) = Inr (relinked ?h (d # list))"
    using 3 m by (auto simp: tset_def)
  moreover have "relinked ?h (d # list) = relinked h (c # d # list)"
    using 3(2) m by (auto simp: relinked_def fun_eq_iff)
  ultimately show ?case using m by (simp add: tset_def)
qed (auto simp: tset_def relinked_def fun_eq_iff)

lemma relink_children_correct:
  assumes L: "linked h K" and t: "h t = Some tree" and ys: "mset ys = mset (K t)" "ys \<noteq> []"
  obtains h' where "relink_children h t ys = Inr h'" "linked h' (K(t := ys))" "dom h' = dom h"
proof -
  note T = linked_node [OF L t]
  have set: "set ys = set (K t)" and dist: "distinct ys"
    using ys(1) T(3) mset_eq_setD mset_eq_imp_distinct_iff by blast+
  have t_notin: "t \<notin> set ys" using linkedD(3) [OF L t] linked_parent [OF L t, of t] set by (auto simp: links_ok_def)
  let ?h = "h(t := Some (tree\<lparr>tr_child := first_of ys\<rparr>))"
  have all: "\<forall>c\<in>set ys. ?h c \<noteq> None" using linkedD(4) [OF L] set by fastforce
  define h' where "h' = (relinked ?h ys)(t := Some (tree\<lparr>tr_child := first_of ys, tr_rightmostChild := last_of ys\<rparr>))"
  have "rd ys 0 = Inr (first_of ys)" "rd ys (length ys - 1) = Inr (last_of ys)"
    using ys(2) by (simp_all add: first_of_def last_of_def last_conv_nth split: list.splits)
  moreover have "relinked ?h ys t = Some (tree\<lparr>tr_child := first_of ys\<rparr>)" using t_notin by (simp add: relinked_def)
  moreover have "tset h t (\<lambda>n. n\<lparr>tr_child := first_of ys\<rparr>) = Inr ?h" using t by (simp add: tset_def)
  moreover note relink_loop_correct [OF dist ys(2) all]
  ultimately have run: "relink_children h t ys = Inr h'"
    unfolding relink_children_def by (simp only: ebind_simps) (simp add: tset_def h'_def)
  have dom: "dom h' = dom h" using t by (auto simp: h'_def relinked_def split: if_splits)
  then have same: "h' y = None \<longleftrightarrow> h y = None" for y by (metis domIff)
  have "linked h' (K(t := ys))"
  proof (rule linkedI)
    fix x n' assume x: "h' x = Some n'"
    then obtain n where n: "h x = Some n" using same [of x] by auto
    have "n' = (if x = t then n\<lparr>tr_child := first_of ys, tr_rightmostChild := last_of ys\<rparr>
                else if x \<in> set ys then n\<lparr>tr_sibling := succ_in ys x\<rparr> else n)"
      using x n t by (auto simp: h'_def relinked_def split: if_splits)
    then show "links_ok h' (K(t := ys)) x n'"
      using linkedD(3) [OF L n] linked_node [OF L n] linked_parent [OF L n, of t] same [of "tr_parent n"] set dist T(4)
      by (auto simp: links_ok_def split: if_splits)
  next
    fix x c' assume "c' \<in> set ((K(t := ys)) x)"
    then have "c' \<in> set (K x)" using set by (auto split: if_splits)
    then show "map_option tr_parent (h' c') = Some x"
      using linkedD(4) [OF L, of c' x] t by (auto simp: h'_def relinked_def)
  qed (use same linkedD [OF L] t in auto)
  then show thesis using that [OF run] dom by simp
qed

lemma sort_children_correct:
  assumes L: "linked h K" and t: "h t = Some tree" and small: "length (K t) < 2 ^ 31"
    and alloc: "\<And>n. alloc n \<noteq> None" and cmp: "comparator cmp (set (K t))" and mem: "sort_mem_ok senv (length (K t)) 8"
  obtains h' ys where "CFTreeSortChildren senv alloc cmp h t = Some (Inr h')" "linked h' (K(t := ys))"
    "stable_sorted cmp (K t) ys" "dom h' = dom h"
proof -
  note T = linked_node [OF L t]
  have count: "CFTreeGetChildCount h t = Some (Inr (length (K t)))"
    using count_loop_correct [OF L, of t "[]" "K t" 0] small t T(1) by (simp add: CFTreeGetChildCount_def)
  show thesis
  proof (cases "length (K t) \<le> 1")
    case True
    then have "sorted_wrt (\<lambda>a b. cmp a b \<le> 0) (K t)" by (cases "K t") auto
    then have "stable_sorted cmp (K t) (K t)" by (simp add: stable_sorted_def)
    moreover have "CFTreeSortChildren senv alloc cmp h t = Some (Inr h)" using True count by (simp add: CFTreeSortChildren_def)
    ultimately show thesis using that [of h "K t"] L by simp
  next
    case False
    obtain junk where junk: "alloc (length (K t)) = Some junk" using alloc by fastforce
    have get: "CFTreeGetChildren h t (map junk [0..<length (K t)]) = Some (Inr (K t))"
      using children_loop_correct [OF L, of t "[]" "K t" 0 "map junk [0..<length (K t)]"] t T(1)
      by (simp add: CFTreeGetChildren_def)
    obtain ys where ys: "CFQSortArray senv (K t) (length (K t)) 8 cmp = Inr ys" "stable_sorted cmp (K t) ys"
      using q_sort.sorts [of 8 senv "K t" cmp] cmp mem by auto
    have "mset ys = mset (K t)" using ys(2) by (simp add: stable_sorted_def)
    moreover from this have "ys \<noteq> []" using False by auto
    ultimately obtain h' where h': "relink_children h t ys = Inr h'" "linked h' (K(t := ys))" "dom h' = dom h"
      using relink_children_correct [OF L t] by metis
    have "CFTreeSortChildren senv alloc cmp h t = Some (Inr h')"
      using False count junk get ys(1) h'(1) by (simp add: CFTreeSortChildren_def)
    then show thesis using that h'(2,3) ys(2) by blast
  qed
qed

section \<open>Properties\<close>

text \<open>
  C15. Linking a parentless tree as the first child, as the last child or after a sibling changes the
  list of children of its new parent accordingly and every other list not at all; the tree is retained
  once, and all links of the store stay consistent.
\<close>

theorem tree_linking:
  assumes "linked h K" and "h t = Some tree" and "h c = Some n" and "tr_parent n = NULL" and "t \<noteq> c" and "tr_parent tree \<noteq> c"
  shows "(case CFTreePrependChild h t c of Inl _ \<Rightarrow> False
     | Inr (h', evs) \<Rightarrow> linked h' (K(t := c # K t)) \<and> evs = [TreeRef (Retained c)]) \<and>
    (case CFTreeAppendChild h t c of Inl _ \<Rightarrow> False
     | Inr (h', evs) \<Rightarrow> linked h' (K(t := K t @ [c])) \<and> evs = [TreeRef (Retained c)]) \<and>
    (tr_parent tree \<noteq> NULL \<longrightarrow> (case CFTreeInsertSibling h t c of Inl _ \<Rightarrow> False
     | Inr (h', evs) \<Rightarrow> linked h' (K(tr_parent tree := insert_after t c (K (tr_parent tree)))) \<and> evs = [TreeRef (Retained c)]))"
proof (intro conjI impI)
  show "case CFTreePrependChild h t c of Inl _ \<Rightarrow> False
     | Inr (h', evs) \<Rightarrow> linked h' (K(t := c # K t)) \<and> evs = [TreeRef (Retained c)]"
    by (rule prepend_correct [OF assms(1-5)]) simp
  show "case CFTreeAppendChild h t c of Inl _ \<Rightarrow> False
     | Inr (h', evs) \<Rightarrow> linked h' (K(t := K t @ [c])) \<and> evs = [TreeRef (Retained c)]"
    by (rule append_correct [OF assms(1-5)]) simp
  assume "tr_parent tree \<noteq> NULL"
  then show "case CFTreeInsertSibling h t c of Inl _ \<Rightarrow> False
     | Inr (h', evs) \<Rightarrow> linked h' (K(tr_parent tree := insert_after t c (K (tr_parent tree)))) \<and> evs = [TreeRef (Retained c)]"
    by (rule insert_sibling_correct [OF assms(1,2) _ assms(3,4,6)]) simp
qed

text \<open>A tree 16 with the children 32 and 48, and a tree 64 on its own.\<close>

definition family_node :: "ptr \<Rightarrow> ptr \<Rightarrow> ptr \<Rightarrow> ptr \<Rightarrow> CFTree" where
  "family_node parent sibling child rightmost = \<lparr>tr_parent = parent, tr_sibling = sibling, tr_child = child,
     tr_rightmostChild = rightmost, tr_info = 7, tr_cbtype = TreeNullCallBacks, tr_callbacks = None\<rparr>"

definition family :: tree_heap where
  "family = [16 \<mapsto> family_node 0 0 32 48, 32 \<mapsto> family_node 16 48 0 0, 48 \<mapsto> family_node 16 0 0 0, 64 \<mapsto> family_node 0 0 0 0]"

definition family_children :: "ptr \<Rightarrow> ptr list" where
  "family_children = (\<lambda>x. if x = 16 then [32, 48] else [])"

lemma family_linked: "linked family family_children"
  by (rule linkedI) (auto simp: family_def family_node_def family_children_def links_ok_def split: if_splits)

lemma tree_linking_witness:
  "case CFTreeInsertSibling family 32 64 of Inl _ \<Rightarrow> False
     | Inr (h', evs) \<Rightarrow> linked h' (family_children(16 := [32, 64, 48])) \<and> evs = [TreeRef (Retained 64)]"
proof -
  have "family 32 = Some (family_node 16 48 0 0)" "family 64 = Some (family_node 0 0 0 0)" by (simp_all add: family_def)
  from tree_linking [OF family_linked this] show ?thesis
    by (simp add: family_node_def family_children_def split: sum.splits prod.splits)
qed

text \<open>
  C18. Removing a tree takes it out of the children of its parent, wherever it stands there, and releases
  it once; removing all children leaves none and releases each in order. Both walks end, and all links
  of the store stay consistent.
\<close>

theorem tree_unlinking:
  assumes "linked h K" and "h t = Some tree"
  shows "(case CFTreeRemove h t of Some (Inr (h', evs)) \<Rightarrow>
       if tr_parent tree = NULL then h' = h \<and> evs = []
       else linked h' (K(tr_parent tree := remove1 t (K (tr_parent tree)))) \<and> evs = [TreeRef (Released t)] | _ \<Rightarrow> False) \<and>
    (case CFTreeRemoveAllChildren h t of Some (Inr (h', evs)) \<Rightarrow>
       linked h' (K(t := [])) \<and> evs = map (\<lambda>c. TreeRef (Released c)) (K t) | _ \<Rightarrow> False)"
proof (rule conjI)
  show "case CFTreeRemove h t of Some (Inr (h', evs)) \<Rightarrow>
       if tr_parent tree = NULL then h' = h \<and> evs = []
       else linked h' (K(tr_parent tree := remove1 t (K (tr_parent tree)))) \<and> evs = [TreeRef (Released t)] | _ \<Rightarrow> False"
  proof (cases "tr_parent tree = NULL")
    case True
    then show ?thesis using remove_root [of h t tree] assms(2) by simp
  next
    case False
    show ?thesis by (rule remove_correct [OF assms False]) (simp add: False)
  qed
  show "case CFTreeRemoveAllChildren h t of Some (Inr (h', evs)) \<Rightarrow>
       linked h' (K(t := [])) \<and> evs = map (\<lambda>c. TreeRef (Released c)) (K t) | _ \<Rightarrow> False"
    by (rule remove_all_correct [OF assms]) simp
qed

lemma tree_unlinking_witness:
  "case CFTreeRemove family 48 of Some (Inr (h', evs)) \<Rightarrow>
     linked h' (family_children(16 := [32])) \<and> evs = [TreeRef (Released 48)] | _ \<Rightarrow> False"
proof -
  have "family 48 = Some (family_node 16 0 0 0)" by (simp add: family_def)
  from tree_unlinking [OF family_linked this] show ?thesis
    by (simp add: family_node_def family_children_def split: option.splits sum.splits prod.splits)
qed

text \<open>
  C26. Sorting the children rearranges their list into a stable sorted order and keeps all links of the
  store consistent, the last-child link included.
\<close>

theorem tree_sort_children:
  assumes "linked h K" and "h t = Some tree" and "length (K t) < 2 ^ 31" and "\<And>n. alloc n \<noteq> None"
    and "comparator cmp (set (K t))" and "sort_mem_ok senv (length (K t)) 8"
  shows "\<exists>h' ys. CFTreeSortChildren senv alloc cmp h t = Some (Inr h') \<and> linked h' (K(t := ys)) \<and>
    stable_sorted cmp (K t) ys \<and> dom h' = dom h"
proof -
  obtain h' ys where "CFTreeSortChildren senv alloc cmp h t = Some (Inr h')" "linked h' (K(t := ys))"
      "stable_sorted cmp (K t) ys" "dom h' = dom h"
    by (rule sort_children_correct [of h K t tree alloc cmp senv]) (use assms in simp_all)
  then show ?thesis by blast
qed

lemma tree_sort_children_witness:
  "\<exists>h' ys. CFTreeSortChildren granted_sort_env (\<lambda>n. Some (\<lambda>i. 0)) (\<lambda>a b. uint b - uint a) family 16 = Some (Inr h') \<and>
     linked h' (family_children(16 := ys)) \<and> stable_sorted (\<lambda>a b. uint b - uint a) [32, 48] ys"
proof -
  have "family 16 = Some (family_node 0 0 32 48)" "family_children 16 = [32, 48]" by (simp_all add: family_def family_children_def)
  moreover have "comparator (\<lambda>a b. uint b - uint a) (set [32, 48 :: ptr])" by (auto simp: comparator_def)
  moreover have "sort_mem_ok granted_sort_env (length (family_children 16)) 8"
    by (simp add: sort_mem_ok_def granted_sort_env_def family_children_def)
  ultimately have "\<exists>h' ys. CFTreeSortChildren granted_sort_env (\<lambda>n. Some (\<lambda>i. 0)) (\<lambda>a b. uint b - uint a) family 16 = Some (Inr h') \<and>
     linked h' (family_children(16 := ys)) \<and> stable_sorted (\<lambda>a b. uint b - uint a) (family_children 16) ys \<and> dom h' = dom family"
    by (intro tree_sort_children [OF family_linked]) (simp_all del: length_Cons)
  then show ?thesis using \<open>family_children 16 = [32, 48]\<close> by auto
qed

text \<open>
  The number of the children, the child at an index, the array of the children and the sibling and
  child links agree with the list of the children; an index outside it gives \<open>NULL\<close>.
\<close>

theorem tree_reads:
  assumes "linked h K" and "h t = Some tree" and "length (K t) < 2 ^ 31" and "length (K t) \<le> length buf"
  shows "CFTreeGetChildCount h t = Some (Inr (length (K t))) \<and>
    CFTreeGetChildAtIndex h t idx = Some (Inr (if 0 \<le> idx \<and> idx < int (length (K t)) then K t ! nat idx else NULL)) \<and>
    CFTreeGetChildren h t buf = Some (Inr (K t @ drop (length (K t)) buf)) \<and>
    CFTreeGetFirstChild h t = Inr (first_of (K t)) \<and>
    (\<forall>i<length (K t). CFTreeGetParent h (K t ! i) = Inr t \<and> CFTreeGetNextSibling h (K t ! i) = Inr (first_of (drop (i + 1) (K t))))"
proof -
  note T = linked_node [OF assms(1,2)]
  have "CFTreeGetParent h (K t ! i) = Inr t \<and> CFTreeGetNextSibling h (K t ! i) = Inr (first_of (drop (i + 1) (K t)))"
    if "i < length (K t)" for i
  proof -
    have "K t = take i (K t) @ K t ! i # drop (i + 1) (K t)" using id_take_nth_drop [OF that] by simp
    then obtain m where "h (K t ! i) = Some m" "tr_parent m = t" "tr_sibling m = first_of (drop (i + 1) (K t))"
      by (rule linked_child [OF assms(1)])
    then show ?thesis by (simp add: CFTreeGetParent_def CFTreeGetNextSibling_def tget_def)
  qed
  then show ?thesis
    using count_loop_correct [OF assms(1), of t "[]" "K t" 0] index_loop_correct [OF assms(1), of t "[]" "K t" idx]
      children_loop_correct [OF assms(1), of t "[]" "K t" 0 buf] assms(2-4) T(1)
    by (simp add: CFTreeGetChildCount_def CFTreeGetChildAtIndex_def CFTreeGetChildren_def CFTreeGetFirstChild_def tget_def)
qed

lemma tree_reads_witness: "CFTreeGetChildAtIndex family 16 1 = Some (Inr 48)"
proof -
  have "family 16 = Some (family_node 0 0 32 48)" "family_children 16 = [32, 48]" by (simp_all add: family_def family_children_def)
  then show ?thesis using tree_reads [OF family_linked, of 16 _ "[0, 0, 0]" 1] by simp
qed

text \<open>
  Setting the context of a tree retains the new information before it releases the old, and the
  context read back is the one set, with the information as the retain callback returned it.
\<close>

theorem tree_context_roundtrip:
  assumes "h t = Some tree" and "CFTreeGetCallBacks env tree = Inr oldcb" and "te_alloc env"
  shows "case CFTreeSetContext env h t ctx of Inl _ \<Rightarrow> False
    | Inr (h', evs) \<Rightarrow> CFTreeGetContext env h' t = Inr (ctx\<lparr>tctx_info := info_retain env (CFTreeCallBacks.truncate ctx) (tctx_info ctx)\<rparr>) \<and>
        evs = info_retain_event (CFTreeCallBacks.truncate ctx) (tctx_info ctx) @ info_release_event oldcb (tr_info tree) \<and>
        (\<forall>x. x \<noteq> t \<longrightarrow> h' x = h x)"
proof -
  have null: "CFTreeCallBacks.truncate ctx = kCFNullTreeCallBacks" if "CFTreeCallBacksMatchNull ctx"
    using that by (simp add: CFTreeCallBacksMatchNull_def kCFNullTreeCallBacks_def CFTreeCallBacks.truncate_def)
  have ext: "CFTreeCallBacks.extend (CFTreeCallBacks.truncate ctx) (CFTreeContext.fields i) = ctx\<lparr>tctx_info := i\<rparr>" for i
    by (simp add: CFTreeCallBacks.extend_def CFTreeContext.fields_def CFTreeCallBacks.truncate_def)
  consider "CFTreeCallBacksMatchNull ctx" | "\<not> CFTreeCallBacksMatchNull ctx" "CFTreeCallBacksMatchCFType env ctx"
    | "\<not> CFTreeCallBacksMatchNull ctx" "\<not> CFTreeCallBacksMatchCFType env ctx" by blast
  then show ?thesis
  proof cases
    case 1
    then show ?thesis
      using assms ext null by (simp add: CFTreeSetContext_def CFTreeGetContext_def CFTreeGetCallBacks_def tget_def)
  next
    case 2
    then have "CFTreeCallBacks.truncate ctx = te_type_callbacks env" by (simp add: CFTreeCallBacksMatchCFType_def)
    then show ?thesis
      using 2 assms ext by (simp add: CFTreeSetContext_def CFTreeGetContext_def CFTreeGetCallBacks_def tget_def)
  next
    case 3
    then show ?thesis
      using assms ext by (simp add: CFTreeSetContext_def CFTreeGetContext_def CFTreeGetCallBacks_def tget_def)
  qed
qed

definition counting_tree_env :: tree_env where
  "counting_tree_env = \<lparr>te_retain = (\<lambda>code info. info + 1),
     te_type_callbacks = \<lparr>tcb_retain = 100, tcb_release = 101, tcb_copyDescription = 102\<rparr>, te_alloc = True\<rparr>"

lemma tree_context_roundtrip_witness:
  "case CFTreeSetContext counting_tree_env family 16
      \<lparr>tcb_retain = 100, tcb_release = 101, tcb_copyDescription = 102, tctx_info = 5\<rparr> of Inl _ \<Rightarrow> False
    | Inr (h', evs) \<Rightarrow> CFTreeGetContext counting_tree_env h' 16 =
        Inr \<lparr>tcb_retain = 100, tcb_release = 101, tcb_copyDescription = 102, tctx_info = 6\<rparr> \<and>
        evs = [InfoRef 100 (Retained 5)]"
proof -
  have fam: "family 16 = Some (family_node 0 0 32 48)" by (simp add: family_def)
  have "CFTreeGetCallBacks counting_tree_env (family_node 0 0 32 48) = Inr kCFNullTreeCallBacks" "te_alloc counting_tree_env"
    by (simp_all add: CFTreeGetCallBacks_def family_node_def counting_tree_env_def)
  then show ?thesis
    using tree_context_roundtrip [of family 16 "family_node 0 0 32 48" counting_tree_env kCFNullTreeCallBacks "\<lparr>tcb_retain = 100, tcb_release = 101, tcb_copyDescription = 102, tctx_info = 5\<rparr>"] fam
    by (simp add: info_retain_def info_retain_event_def info_release_event_def CFTreeCallBacks.truncate_def counting_tree_env_def
        kCFNullTreeCallBacks_def split: sum.splits prod.splits)
qed

end
