(* ===== verification/CF_Date.thy ===== *)
theory CF_Date
  imports CF_Prelude Complex_Main "HOL-Library.Signed_Division" "HOL-Library.Log_Nat"
begin

text \<open>
  The Gregorian calendar of \<open>CFDate.c\<close>. An absolute time is a number of seconds since 1 January 2001,
  here a \<open>real\<close>: the model leaves the rounding of \<open>double\<close> out for times. The number of a day, which \<open>__CFAbsoluteFromYMD\<close> computes in a
  \<open>double\<close> although it is an integer, is rounded at every step (\<open>double_of\<close>). Years count from 2001. \<open>int64_t\<close> and \<open>int32_t\<close>
  are \<open>int\<close>, with an error where a cast or a sum leaves the range; \<open>/\<close> and \<open>%\<close> truncate (\<open>sdiv\<close>, \<open>smod\<close>).
  A time zone is the function \<open>CFTimeZoneGetSecondsFromGMT\<close> of it.
\<close>

section \<open>Days, months and years\<close>

definition rdi :: "int list \<Rightarrow> int \<Rightarrow> int cf" where
  "rdi xs i = (if 0 \<le> i then rd xs (nat i) else Inl OutOfBounds)"

definition i32 :: "int \<Rightarrow> int cf" where
  "i32 x = (if - (2 ^ 31) \<le> x \<and> x < 2 ^ 31 then Inr x else Inl BadShift)"

definition i64 :: "int \<Rightarrow> int cf" where
  "i64 x = (if - (2 ^ 63) \<le> x \<and> x < 2 ^ 63 then Inr x else Inl BadShift)"

definition daysInMonth :: "int list" where
  "daysInMonth = [0, 31, 28, 31, 30, 31, 30, 31, 31, 30, 31, 30, 31, 0, 0, 0]"

definition daysBeforeMonth :: "int list" where
  "daysBeforeMonth = [0, 0, 31, 59, 90, 120, 151, 181, 212, 243, 273, 304, 334, 365, 0, 0]"

definition daysAfterMonth :: "int list" where
  "daysAfterMonth = [365, 334, 306, 275, 245, 214, 184, 153, 122, 92, 61, 31, 0, 0, 0, 0]"

definition isleap :: "int \<Rightarrow> bool" where
  "isleap year = (let y = \<bar>(year + 1) smod 400\<bar> in y mod 4 = 0 \<and> y \<noteq> 100 \<and> y \<noteq> 200 \<and> y \<noteq> 300)"

definition CFDaysInMonth :: "int \<Rightarrow> bool \<Rightarrow> int cf" where
  "CFDaysInMonth month leap = ebind (rdi daysInMonth month) (\<lambda>d. Inr (d + of_bool (month = 2 \<and> leap)))"

definition CFDaysBeforeMonth :: "int \<Rightarrow> bool \<Rightarrow> int cf" where
  "CFDaysBeforeMonth month leap = ebind (rdi daysBeforeMonth month) (\<lambda>d. Inr (d + of_bool (2 < month \<and> leap)))"

definition CFDaysAfterMonth :: "int \<Rightarrow> bool \<Rightarrow> int cf" where
  "CFDaysAfterMonth month leap = ebind (rdi daysAfterMonth month) (\<lambda>d. Inr (d + of_bool (month < 2 \<and> leap)))"

lemma days_after_0 [simp]: "CFDaysAfterMonth 0 leap = Inr (365 + of_bool leap)"
  by (simp add: CFDaysAfterMonth_def rdi_def daysAfterMonth_def)

text \<open>The three loops of \<open>__CFYMDFromAbsolute\<close>: back to a year that starts before the day, on to the year
  of the day, and on to its month.\<close>

function year_down :: "int \<Rightarrow> int \<Rightarrow> (int \<times> int) cf" where
  "year_down y absolute =
     (if absolute < 0 then ebind (CFDaysAfterMonth 0 (isleap (y - 1))) (\<lambda>n. year_down (y - 1) (absolute + n))
      else Inr (y, absolute))"
  by auto
termination by (relation "measure (\<lambda>(y, absolute). nat (- absolute))") auto

function year_up :: "int \<Rightarrow> int \<Rightarrow> (int \<times> int) cf" where
  "year_up y absolute =
     ebind (CFDaysAfterMonth 0 (isleap y)) (\<lambda>ydays.
     if ydays \<le> absolute then year_up (y + 1) (absolute - ydays) else Inr (y, absolute))"
  by auto
termination by (relation "measure (\<lambda>(y, absolute). nat absolute)") (auto simp: of_bool_def split: if_splits)

function month_up :: "int \<Rightarrow> int \<Rightarrow> bool \<Rightarrow> int cf" where
  "month_up m absolute leap =
     ebind (CFDaysBeforeMonth (m + 1) leap) (\<lambda>d. if d \<le> absolute then month_up (m + 1) absolute leap else Inr m)"
  by auto
termination
  by (relation "measure (\<lambda>(m, absolute, leap). nat (16 - m))")
    (auto simp: CFDaysBeforeMonth_def rdi_def daysBeforeMonth_def rd_def split: if_splits)

declare year_down.simps [simp del] year_up.simps [simp del] month_up.simps [simp del]

definition CFYMDFromAbsolute :: "int \<Rightarrow> (int \<times> int \<times> int) cf" where
  "CFYMDFromAbsolute absolute =
     (let b = absolute sdiv 146097 in
      ebind (year_down (b * 400) (absolute - b * 146097)) (\<lambda>(y, absolute).
      ebind (year_up y absolute) (\<lambda>(y, absolute).
      ebind (month_up (absolute sdiv 33 + 1) absolute (isleap y)) (\<lambda>m.
      ebind (CFDaysBeforeMonth m (isleap y)) (\<lambda>d.
      Inr (y, m, absolute - d + 1))))))"

text \<open>
  The \<open>double\<close> nearest to an integer, which is an integer again: 53 significant bits, and a tie goes to the even one.
\<close>

definition double_of :: "int \<Rightarrow> int" where
  "double_of x =
     (let u = 2 ^ nat (bitlen \<bar>x\<bar> - 53); q = x div u; r = x mod u
      in if 2 * r < u \<or> 2 * r = u \<and> even q then q * u else (q + 1) * u)"

fun subtract_years :: "int \<Rightarrow> nat \<Rightarrow> int \<Rightarrow> int cf" where
  "subtract_years idx 0 absolute = Inr absolute"
| "subtract_years idx (Suc n) absolute =
     ebind (CFDaysAfterMonth 0 (isleap idx)) (\<lambda>d. subtract_years (idx + 1) n (double_of (absolute - d)))"

fun add_years :: "int \<Rightarrow> nat \<Rightarrow> int \<Rightarrow> int cf" where
  "add_years idx 0 absolute = Inr absolute"
| "add_years idx (Suc n) absolute =
     ebind (CFDaysAfterMonth 0 (isleap idx)) (\<lambda>d. add_years (idx + 1) n (double_of (absolute + d)))"

definition CFAbsoluteFromYMD :: "int \<Rightarrow> int \<Rightarrow> int \<Rightarrow> int cf" where
  "CFAbsoluteFromYMD year month day =
     (let b = year sdiv 400;
          absolute = double_of (double_of b * 146097);
          year = year - b * 400
      in ebind (if year < 0 then subtract_years year (nat (- year)) absolute else add_years 0 (nat year) absolute) (\<lambda>absolute.
         ebind (CFDaysBeforeMonth month (isleap year)) (\<lambda>d.
         Inr (double_of (absolute + (d + day - 1))))))"

section \<open>Dates and times\<close>

record CFGregorianDate =
  gd_year :: int
  gd_month :: int
  gd_day :: int
  gd_hour :: int
  gd_minute :: int
  gd_second :: real

record CFGregorianUnits =
  gu_years :: int
  gu_months :: int
  gu_days :: int
  gu_hours :: int
  gu_minutes :: int
  gu_seconds :: real

type_synonym time_zone = "(real \<Rightarrow> real) option"

definition gmt_offset :: "time_zone \<Rightarrow> real \<Rightarrow> real" where
  "gmt_offset tz t = (case tz of None \<Rightarrow> 0 | Some f \<Rightarrow> f t)"

definition CFDoubleModToInt :: "real \<Rightarrow> int \<Rightarrow> int" where
  "CFDoubleModToInt d modulus =
     (let result = \<lfloor>d - of_int \<lfloor>d / of_int modulus\<rfloor> * of_int modulus\<rfloor> in if result < 0 then result + modulus else result)"

definition CFDoubleMod :: "real \<Rightarrow> int \<Rightarrow> real" where
  "CFDoubleMod d modulus =
     (let result = d - of_int \<lfloor>d / of_int modulus\<rfloor> * of_int modulus in if result < 0 then result + of_int modulus else result)"

text \<open>\<open>unitFlags\<close> is the set of the units asked for, numbered from 0 for the years to 5 for the seconds.\<close>

definition CFGregorianDateIsValid :: "CFGregorianDate \<Rightarrow> nat set \<Rightarrow> bool cf" where
  "CFGregorianDateIsValid gdate unitFlags =
     (if 0 \<in> unitFlags \<and> gd_year gdate \<le> 0 then Inr False
      else if 1 \<in> unitFlags \<and> (gd_month gdate < 1 \<or> 12 < gd_month gdate) then Inr False
      else if 2 \<in> unitFlags \<and> (gd_day gdate < 1 \<or> 31 < gd_day gdate) then Inr False
      else if 3 \<in> unitFlags \<and> (gd_hour gdate < 0 \<or> 23 < gd_hour gdate) then Inr False
      else if 4 \<in> unitFlags \<and> (gd_minute gdate < 0 \<or> 59 < gd_minute gdate) then Inr False
      else if 5 \<in> unitFlags \<and> (gd_second gdate < 0 \<or> 60 \<le> gd_second gdate) then Inr False
      else if 2 \<in> unitFlags \<and> 1 \<in> unitFlags \<and> 0 \<in> unitFlags then
        ebind (CFDaysInMonth (gd_month gdate) (isleap (gd_year gdate - 2001))) (\<lambda>n. Inr (\<not> n < gd_day gdate))
      else Inr True)"

definition CFGregorianDateGetAbsoluteTime :: "CFGregorianDate \<Rightarrow> time_zone \<Rightarrow> real cf" where
  "CFGregorianDateGetAbsoluteTime gdate tz =
     ebind (CFAbsoluteFromYMD (gd_year gdate - 2001) (gd_month gdate) (gd_day gdate)) (\<lambda>absolute.
     let t = 86400 * of_int absolute + (3600 * of_int (gd_hour gdate) + 60 * of_int (gd_minute gdate) + gd_second gdate)
     in Inr (t - gmt_offset tz (t - gmt_offset tz t)))"

definition local_day :: "real \<Rightarrow> time_zone \<Rightarrow> int cf" where
  "local_day t tz = i64 \<lfloor>(t + gmt_offset tz t) / 86400\<rfloor>"

definition CFAbsoluteTimeGetGregorianDate :: "real \<Rightarrow> time_zone \<Rightarrow> CFGregorianDate cf" where
  "CFAbsoluteTimeGetGregorianDate t tz =
     (let fixedat = t + gmt_offset tz t in
      ebind (local_day t tz) (\<lambda>absolute.
      ebind (CFYMDFromAbsolute absolute) (\<lambda>(year, month, day).
      let year = (if 2 ^ 31 - 1 - 2001 < year then 2 ^ 31 - 1 - 2001 else year)
      in Inr \<lparr>gd_year = signed_take_bit 31 (year + 2001), gd_month = month, gd_day = day,
              gd_hour = CFDoubleModToInt (of_int \<lfloor>fixedat / 3600\<rfloor>) 24,
              gd_minute = CFDoubleModToInt (of_int \<lfloor>fixedat / 60\<rfloor>) 60,
              gd_second = CFDoubleMod fixedat 60\<rparr>)))"

definition CFAbsoluteTimeGetDayOfWeek :: "real \<Rightarrow> time_zone \<Rightarrow> int cf" where
  "CFAbsoluteTimeGetDayOfWeek t tz =
     ebind (local_day t tz) (\<lambda>absolute.
     Inr (if absolute < 0 then (absolute + 1) smod 7 + 7 else absolute smod 7 + 1))"

definition CFAbsoluteTimeGetDayOfYear :: "real \<Rightarrow> time_zone \<Rightarrow> int cf" where
  "CFAbsoluteTimeGetDayOfYear t tz =
     ebind (local_day t tz) (\<lambda>absolute.
     ebind (CFYMDFromAbsolute absolute) (\<lambda>(year, month, day).
     ebind (CFDaysBeforeMonth month (isleap year)) (\<lambda>d. Inr (d + day))))"

definition CFAbsoluteTimeGetWeekOfYear :: "real \<Rightarrow> time_zone \<Rightarrow> int cf" where
  "CFAbsoluteTimeGetWeekOfYear t tz =
     ebind (local_day t tz) (\<lambda>absolute.
     ebind (CFYMDFromAbsolute absolute) (\<lambda>(year, month, day).
     ebind (CFAbsoluteFromYMD year 1 1) (\<lambda>absolute0101.
     let dow0101 = CFDoubleModToInt (of_int absolute0101) 7 + 1 in
     if month = 1 \<and> day < 4 \<and>
        (day < 4 \<and> 5 = dow0101 \<or> day < 3 \<and> 6 = dow0101 \<or> day < 2 \<and> 7 = dow0101) then Inr 53
     else
       ebind (if month = 12 \<and> 28 < day then
                ebind (CFAbsoluteFromYMD (year + 1) 1 1) (\<lambda>absolute20101.
                let dow20101 = CFDoubleModToInt (of_int absolute20101) 7 + 1
                in Inr (28 < day \<and> 4 = dow20101 \<or> 29 < day \<and> 3 = dow20101 \<or> 30 < day \<and> 2 = dow20101))
              else Inr False) (\<lambda>next_year.
       if next_year then Inr 1
       else ebind (CFDaysBeforeMonth month (isleap year)) (\<lambda>d.
            Inr ((d + day + (dow0101 - 11) smod 7 + 2) sdiv 7 + 1))))))"

section \<open>Adding units\<close>

function months_down :: "int \<Rightarrow> int \<Rightarrow> (int \<times> int) cf" where
  "months_down years months =
     (if 12 < months then ebind (i32 (years + 1)) (\<lambda>years. months_down years (months - 12)) else Inr (years, months))"
  by auto
termination by (relation "measure (\<lambda>(years, months). nat months)") auto

function months_up :: "int \<Rightarrow> int \<Rightarrow> (int \<times> int) cf" where
  "months_up years months =
     (if months < 1 then ebind (i32 (years - 1)) (\<lambda>years. months_up years (months + 12)) else Inr (years, months))"
  by auto
termination by (relation "measure (\<lambda>(years, months). nat (12 - months))") auto

declare months_down.simps [simp del] months_up.simps [simp del]

text \<open>The two loops that carry days into months; \<open>monthdays\<close> is the length of the current month.\<close>

partial_function (option) days_down :: "int \<Rightarrow> int \<Rightarrow> int \<Rightarrow> int \<Rightarrow> (int \<times> int \<times> int \<times> int) cf option" where
  "days_down years months days monthdays =
     (if monthdays < days then
        (case i32 (if 12 < months + 1 then years + 1 else years) of
           Inl e \<Rightarrow> Some (Inl e)
         | Inr years' \<Rightarrow>
             (let months' = (if 12 < months + 1 then months + 1 - 12 else months + 1) in
              case CFDaysInMonth months' (isleap (years' - 2001)) of
                Inl e \<Rightarrow> Some (Inl e)
              | Inr monthdays' \<Rightarrow> days_down years' months' (days - monthdays) monthdays'))
      else Some (Inr (years, months, days, monthdays)))"

partial_function (option) days_up :: "int \<Rightarrow> int \<Rightarrow> int \<Rightarrow> (int \<times> int \<times> int) cf option" where
  "days_up years months days =
     (if days < 1 then
        (case i32 (if months - 1 < 1 then years - 1 else years) of
           Inl e \<Rightarrow> Some (Inl e)
         | Inr years' \<Rightarrow>
             (let months' = (if months - 1 < 1 then months - 1 + 12 else months - 1) in
              case CFDaysInMonth months' (isleap (years' - 2001)) of
                Inl e \<Rightarrow> Some (Inl e)
              | Inr monthdays \<Rightarrow> days_up years' months' (days + monthdays)))
      else Some (Inr (years, months, days)))"

definition add_months :: "CFGregorianDate \<Rightarrow> CFGregorianUnits \<Rightarrow> (int \<times> int \<times> int \<times> int) cf" where
  "add_months gdate units =
     ebind (i32 (gd_year gdate + gu_years units)) (\<lambda>years.
     ebind (i32 (gd_month gdate + gu_months units)) (\<lambda>months.
     ebind (months_down years months) (\<lambda>(years, months).
     ebind (months_up years months) (\<lambda>(years, months).
     ebind (CFDaysInMonth months (isleap (years - 2001))) (\<lambda>monthdays.
     let days = (if monthdays < gd_day gdate then monthdays else gd_day gdate)
     in ebind (i32 (days + gu_days units)) (\<lambda>days. Inr (years, months, days, monthdays)))))))"

definition CFAbsoluteTimeAddGregorianUnits :: "real \<Rightarrow> time_zone \<Rightarrow> CFGregorianUnits \<Rightarrow> real cf option" where
  "CFAbsoluteTimeAddGregorianUnits t tz units =
     (case ebind (CFAbsoluteTimeGetGregorianDate t tz) (\<lambda>gdate.
           ebind (add_months gdate units) (\<lambda>working. Inr (gdate, working))) of
        Inl e \<Rightarrow> Some (Inl e)
      | Inr (gdate, years, months, days, monthdays) \<Rightarrow>
          (case days_down years months days monthdays of
             None \<Rightarrow> None
           | Some (Inl e) \<Rightarrow> Some (Inl e)
           | Some (Inr (years, months, days, monthdays)) \<Rightarrow>
               (case days_up years months days of
                  None \<Rightarrow> None
                | Some (Inl e) \<Rightarrow> Some (Inl e)
                | Some (Inr (years, months, days)) \<Rightarrow>
                    Some (ebind (CFGregorianDateGetAbsoluteTime (gdate\<lparr>gd_year := years, gd_month := months, gd_day := days\<rparr>) tz)
                      (\<lambda>candidate_at0. Inr (candidate_at0 + 3600 * of_int (gu_hours units) + 60 * of_int (gu_minutes units) + gu_seconds units))))))"

section \<open>The calendar in closed form\<close>

text \<open>The days before year \<open>y\<close> (counted from 2001), the days before a month, and a day by its date.\<close>

definition year_start :: "int \<Rightarrow> int" where
  "year_start y = 365 * y + y div 4 - y div 100 + y div 400"

definition gregorian_leap :: "int \<Rightarrow> bool" where
  "gregorian_leap g \<longleftrightarrow> 4 dvd g \<and> (\<not> 100 dvd g \<or> 400 dvd g)"

definition year_days :: "int \<Rightarrow> int" where
  "year_days y = 365 + of_bool (isleap y)"

definition month_days :: "int \<Rightarrow> bool \<Rightarrow> int" where
  "month_days m leap = daysInMonth ! nat m + of_bool (m = 2 \<and> leap)"

definition month_start :: "int \<Rightarrow> bool \<Rightarrow> int" where
  "month_start m leap = daysBeforeMonth ! nat m + of_bool (2 < m \<and> leap)"

definition day_number :: "int \<Rightarrow> int \<Rightarrow> int \<Rightarrow> int" where
  "day_number y m d = year_start y + month_start m (isleap y) + d - 1"

definition date_valid :: "int \<Rightarrow> int \<Rightarrow> int \<Rightarrow> bool" where
  "date_valid y m d \<longleftrightarrow> 1 \<le> m \<and> m \<le> 12 \<and> 1 \<le> d \<and> d \<le> month_days m (isleap y)"

declare days_after_0 [simp del]

lemma abs_smod: "\<bar>k smod 400\<bar> = \<bar>k\<bar> mod (400 :: int)"
  by (simp add: signed_modulo_int_def abs_mult sgn_if)

lemma isleap_mod: "isleap y \<longleftrightarrow> 4 dvd (y + 1) \<and> (\<not> 100 dvd (y + 1) \<or> 400 dvd (y + 1))"
proof -
  define r where "r = \<bar>y + 1\<bar> mod 400"
  have r: "0 \<le> r" "r < 400" by (simp_all add: r_def)
  have "4 dvd r \<longleftrightarrow> 4 dvd (y + 1)" "100 dvd r \<longleftrightarrow> 100 dvd (y + 1)" "r = 0 \<longleftrightarrow> 400 dvd (y + 1)"
    unfolding r_def by (simp_all add: dvd_mod_iff flip: dvd_eq_mod_eq_0)
  moreover have "100 dvd r \<longleftrightarrow> r = 0 \<or> r = 100 \<or> r = 200 \<or> r = 300"
  proof
    assume "100 dvd r"
    then obtain k where k: "r = 100 * k" by blast
    then have "0 \<le> k" "k \<le> 3" using r by simp_all
    then have "k = 0 \<or> k = 1 \<or> k = 2 \<or> k = 3" by auto
    then show "r = 0 \<or> r = 100 \<or> r = 200 \<or> r = 300" using k by auto
  qed auto
  ultimately show ?thesis
    by (auto simp: isleap_def abs_smod Let_def r_def [symmetric] dvd_eq_mod_eq_0 [of 4 r])
qed

lemma isleap_gregorian: "isleap y \<longleftrightarrow> gregorian_leap (y + 2001)"
proof -
  have "y + 2001 = (y + 1) + 2000" by simp
  moreover have "n dvd ((y + 1) + 2000) \<longleftrightarrow> n dvd (y + 1)" if "n dvd 2000" for n :: int
    using that by (rule dvd_add_left_iff)
  ultimately show ?thesis by (simp only: gregorian_leap_def isleap_mod) simp
qed

lemma isleap_400: "isleap (y + 400 * k) = isleap y"
proof -
  have "y + 400 * k + 1 = (y + 1) + 400 * k" by simp
  moreover have "n dvd ((y + 1) + 400 * k) \<longleftrightarrow> n dvd (y + 1)" if "n dvd 400" for n :: int
    using that by (intro dvd_add_left_iff dvd_mult2)
  ultimately show ?thesis by (simp only: isleap_mod) simp
qed

lemma div_next:
  assumes "(0 :: int) < n"
  shows "(y + 1) div n = y div n + of_bool (n dvd (y + 1))"
proof (cases "y mod n + 1 = n")
  case True
  then have y: "y + 1 = n * (y div n + 1)" using mult_div_mod_eq [of n y] unfolding distrib_left by linarith
  then have "n dvd (y + 1)" by (metis dvd_triv_left)
  moreover have "(y + 1) div n = y div n + 1" using y assms by (metis less_irrefl nonzero_mult_div_cancel_left)
  ultimately show ?thesis by simp
next
  case False
  have m: "0 \<le> y mod n" "y mod n < n" using assms by simp_all
  have y: "y + 1 = n * (y div n) + (y mod n + 1)" by simp
  have "(y + 1) div n = y div n" using int_div_pos_eq [OF y] m False by simp
  moreover have "(y + 1) mod n = y mod n + 1" using int_mod_pos_eq [OF y] m False by simp
  ultimately show ?thesis using m by (simp add: dvd_eq_mod_eq_0)
qed

lemma year_start_Suc: "year_start (y + 1) = year_start y + year_days y"
proof -
  have "400 dvd (y + 1) \<Longrightarrow> 100 dvd (y + 1)" by (rule dvd_trans [of 100 400]) simp_all
  moreover have "100 dvd (y + 1) \<Longrightarrow> 4 dvd (y + 1)" by (rule dvd_trans [of 4 100]) simp_all
  ultimately have "of_bool (4 dvd (y + 1)) - of_bool (100 dvd (y + 1)) + of_bool (400 dvd (y + 1)) = (of_bool (isleap y) :: int)"
    unfolding isleap_mod by (cases "400 dvd (y + 1)"; cases "100 dvd (y + 1)"; cases "4 dvd (y + 1)") simp_all
  moreover have next_div: "(y + 1) div 4 = y div 4 + of_bool (4 dvd (y + 1))" "(y + 1) div 100 = y div 100 + of_bool (100 dvd (y + 1))"
    "(y + 1) div 400 = y div 400 + of_bool (400 dvd (y + 1))"
    by (rule div_next, rule zero_less_numeral)+
  moreover have "365 * (y + 1) + (a + b4) - (b + b100) + (c + b400) = 365 * y + a - b + c + (365 + l)" if "b4 - b100 + b400 = l"
    for a b c b4 b100 b400 l :: int
    using that by simp
  ultimately show ?thesis unfolding year_start_def year_days_def next_div by blast
qed

lemma year_start_400: "year_start (y + 400 * k) = year_start y + 146097 * k"
proof -
  have "400 * k = 4 * (100 * k)" "400 * k = 100 * (4 * k)" by simp_all
  then have "(y + 400 * k) div 4 = y div 4 + 100 * k" "(y + 400 * k) div 100 = y div 100 + 4 * k"
    by (metis add.commute div_mult_self2 zero_neq_numeral)+
  moreover have "(y + 400 * k) div 400 = y div 400 + k" by simp
  ultimately show ?thesis by (simp add: year_start_def)
qed

lemma year_start_0 [simp]: "year_start 0 = 0"
  by (simp add: year_start_def)

lemma year_days_bounds: "365 \<le> year_days y" "year_days y \<le> 366"
  by (simp_all add: year_days_def)

lemma DaysAfterMonth_0: "CFDaysAfterMonth 0 (isleap y) = Inr (year_days y)"
  by (simp add: year_days_def days_after_0)

lemma month_cases: "1 \<le> m \<Longrightarrow> m \<le> 13 \<Longrightarrow> m \<in> {1, 2, 3, 4, 5, 6, 7, 8, 9, 10, 11, 12, 13 :: int}"
  by (simp only: insert_iff empty_iff) presburger

lemma DaysInMonth_correct: "1 \<le> m \<Longrightarrow> m \<le> 12 \<Longrightarrow> CFDaysInMonth m leap = Inr (month_days m leap)"
  by (simp add: CFDaysInMonth_def month_days_def rdi_def daysInMonth_def)

lemma DaysBeforeMonth_correct: "1 \<le> m \<Longrightarrow> m \<le> 13 \<Longrightarrow> CFDaysBeforeMonth m leap = Inr (month_start m leap)"
  by (simp add: CFDaysBeforeMonth_def month_start_def rdi_def daysBeforeMonth_def)

lemma month_start_Suc: "1 \<le> m \<Longrightarrow> m \<le> 12 \<Longrightarrow> month_start (m + 1) leap = month_start m leap + month_days m leap"
  using month_cases [of m] by (auto simp: month_start_def month_days_def daysBeforeMonth_def daysInMonth_def)

lemma month_start_ends: "month_start 1 leap = 0" "month_start 13 (isleap y) = year_days y"
  by (simp_all add: month_start_def daysBeforeMonth_def year_days_def)

lemma month_days_bounds: "1 \<le> m \<Longrightarrow> m \<le> 12 \<Longrightarrow> 28 \<le> month_days m leap \<and> month_days m leap \<le> 31"
  using month_cases [of m] by (auto simp: month_days_def daysInMonth_def)

lemma month_start_mono: "1 \<le> m \<Longrightarrow> m \<le> n \<Longrightarrow> n \<le> 13 \<Longrightarrow> month_start m leap \<le> month_start n leap"
proof (induction "nat (n - m)" arbitrary: n)
  case (Suc k)
  then have "month_start m leap \<le> month_start (n - 1) leap" by (intro Suc.hyps) auto
  moreover have "month_start n leap = month_start (n - 1) leap + month_days (n - 1) leap"
    using month_start_Suc [of "n - 1" leap] Suc by simp
  moreover have "28 \<le> month_days (n - 1) leap" using month_days_bounds [of "n - 1" leap] Suc by simp
  ultimately show ?case by linarith
qed simp

section \<open>From a day to its date\<close>

lemma year_down_correct:
  "\<exists>y' a'. year_down y a = Inr (y', a') \<and> 0 \<le> a' \<and> year_start y' + a' = year_start y + a"
proof (induction y a rule: year_down.induct)
  case (1 y a)
  show ?case
  proof (cases "a < 0")
    case True
    have "year_start y = year_start (y - 1) + year_days (y - 1)" using year_start_Suc [of "y - 1"] by simp
    then show ?thesis
      using 1 [OF True DaysAfterMonth_0] True by (subst year_down.simps) (simp add: DaysAfterMonth_0 algebra_simps)
  qed (simp add: year_down.simps)
qed

lemma year_up_correct:
  "0 \<le> a \<Longrightarrow> \<exists>y' a'. year_up y a = Inr (y', a') \<and> 0 \<le> a' \<and> a' < year_days y' \<and> year_start y' + a' = year_start y + a"
proof (induction y a rule: year_up.induct)
  case (1 y a)
  show ?case
  proof (cases "year_days y \<le> a")
    case True
    then show ?thesis
      using 1(1) [OF DaysAfterMonth_0 True] year_start_Suc [of y] by (subst year_up.simps) (simp add: DaysAfterMonth_0 algebra_simps)
  next
    case False
    then show ?thesis using 1(2) by (subst year_up.simps) (simp add: DaysAfterMonth_0)
  qed
qed

lemma month_up_correct:
  assumes "1 \<le> m" "m \<le> 12" "month_start m leap \<le> a" "a < month_start 13 leap"
  shows "\<exists>m'. month_up m a leap = Inr m' \<and> 1 \<le> m' \<and> m' \<le> 12 \<and> month_start m' leap \<le> a \<and> a < month_start (m' + 1) leap"
  using assms
proof (induction "nat (12 - m)" arbitrary: m)
  case 0
  then have "m = 12" by simp
  then show ?case using 0 by (subst month_up.simps) (simp add: DaysBeforeMonth_correct)
next
  case (Suc k)
  show ?case
  proof (cases "month_start (m + 1) leap \<le> a")
    case True
    then have "\<exists>m'. month_up (m + 1) a leap = Inr m' \<and> 1 \<le> m' \<and> m' \<le> 12 \<and> month_start m' leap \<le> a \<and> a < month_start (m' + 1) leap"
      using Suc by (intro Suc.hyps) auto
    then show ?thesis using True Suc.prems Suc.hyps(2) by (subst month_up.simps) (simp add: DaysBeforeMonth_correct)
  next
    case False
    then show ?thesis using Suc.prems by (subst month_up.simps) (simp add: DaysBeforeMonth_correct)
  qed
qed

text \<open>The first guess for the month is never too late.\<close>

lemma month_guess:
  assumes "0 \<le> a" "a < month_start 13 leap"
  shows "1 \<le> a div 33 + 1" "a div 33 + 1 \<le> 12" "month_start (a div 33 + 1) leap \<le> a"
proof -
  have "a < 366" using assms(2) by (cases leap) (simp_all add: month_start_def daysBeforeMonth_def)
  then have m: "0 \<le> a div 33" "a div 33 \<le> 11" using assms(1) by linarith+
  then show "1 \<le> a div 33 + 1" "a div 33 + 1 \<le> 12" by simp_all
  then have "a div 33 + 1 \<in> {1, 2, 3, 4, 5, 6, 7, 8, 9, 10, 11, 12, 13}" by (intro month_cases) simp_all
  moreover have "33 * (a div 33) \<le> a" by linarith
  ultimately show "month_start (a div 33 + 1) leap \<le> a"
    by (elim insertE emptyE) (simp_all add: month_start_def daysBeforeMonth_def of_bool_def)
qed

lemma YMDFromAbsolute_correct:
  obtains y m d where "CFYMDFromAbsolute a = Inr (y, m, d)" "date_valid y m d" "day_number y m d = a"
proof -
  let ?b = "a sdiv 146097"
  obtain y1 a1 where 1: "year_down (?b * 400) (a - ?b * 146097) = Inr (y1, a1)" "0 \<le> a1"
      "year_start y1 + a1 = year_start (?b * 400) + (a - ?b * 146097)"
    using year_down_correct by blast
  obtain y a2 where 2: "year_up y1 a1 = Inr (y, a2)" "0 \<le> a2" "a2 < year_days y" "year_start y + a2 = year_start y1 + a1"
    using year_up_correct [OF 1(2)] by blast
  have a: "year_start y + a2 = a" using 1(3) 2(4) year_start_400 [of 0 ?b] by (simp add: mult.commute)
  have a2: "a2 < month_start 13 (isleap y)" using 2(3) by (simp add: month_start_ends)
  obtain m where m: "month_up (a2 div 33 + 1) a2 (isleap y) = Inr m" "1 \<le> m" "m \<le> 12"
      "month_start m (isleap y) \<le> a2" "a2 < month_start (m + 1) (isleap y)"
    using month_up_correct [OF month_guess [OF 2(2) a2] a2] by blast
  have "a2 sdiv 33 = a2 div 33" using 2(2) by (simp add: signed_divide_int_def sgn_if)
  then have "CFYMDFromAbsolute a = Inr (y, m, a2 - month_start m (isleap y) + 1)"
    using 1 2 m by (simp add: CFYMDFromAbsolute_def Let_def DaysBeforeMonth_correct)
  moreover have "date_valid y m (a2 - month_start m (isleap y) + 1)"
    using m month_start_Suc [of m "isleap y"] by (simp add: date_valid_def)
  moreover have "day_number y m (a2 - month_start m (isleap y) + 1) = a" using a by (simp add: day_number_def)
  ultimately show thesis using that by blast
qed

section \<open>From a date to its day\<close>

text \<open>As long as the numbers stay within \<open>2 ^ 53\<close>, no step rounds.\<close>

lemma double_of_exact: "\<bar>x\<bar> \<le> 2 ^ 53 \<Longrightarrow> double_of x = x"
proof -
  assume x: "\<bar>x\<bar> \<le> 2 ^ 53"
  show "double_of x = x"
  proof (cases "\<bar>x\<bar> = 2 ^ 53")
    case True
    have "bitlen (1 * 2 ^ 53) = bitlen 1 + int 53" by (rule bitlen_pow2) simp
    then have "bitlen \<bar>x\<bar> = 54" unfolding True by (simp add: bitlen_def floorlog_def)
    moreover have "x = 2 * 2 ^ 52 \<or> x = - (2 * 2 ^ 52)" using True by (simp add: abs_if split: if_splits)
    ultimately show ?thesis by (auto simp: double_of_def)
  next
    case False
    have "bitlen \<bar>x\<bar> \<le> int 53" using x False by (subst bitlen_le_iff_power) simp
    then have "nat (bitlen \<bar>x\<bar> - 53) = 0" by simp
    then show ?thesis by (simp only: double_of_def Let_def) simp
  qed
qed

lemma year_start_mono: "y < y' \<Longrightarrow> year_start y + year_days y \<le> year_start y'"
proof (induction "nat (y' - y)" arbitrary: y')
  case (Suc k)
  have step: "year_start y' = year_start (y' - 1) + year_days (y' - 1)" using year_start_Suc [of "y' - 1"] by simp
  show ?case
  proof (cases "y' = y + 1")
    case True
    then show ?thesis by (simp add: year_start_Suc)
  next
    case False
    then have "year_start y + year_days y \<le> year_start (y' - 1)" using Suc by (intro Suc.hyps) auto
    then show ?thesis using step year_days_bounds(1) [of "y' - 1"] by linarith
  qed
qed simp

lemma year_start_le: "x \<le> y \<Longrightarrow> year_start x \<le> year_start y"
  using year_start_mono [of x y] year_days_bounds(1) [of x] by (cases "x = y") auto

lemma subtract_years_correct:
  "a \<le> 2 ^ 53 \<Longrightarrow> - (2 ^ 53) \<le> a - (year_start (idx + int n) - year_start idx) \<Longrightarrow>
   subtract_years idx n a = Inr (a - (year_start (idx + int n) - year_start idx))"
proof (induction n arbitrary: idx a)
  case (Suc n)
  have "year_start (idx + 1) \<le> year_start (idx + 1 + int n)" by (rule year_start_le) simp
  then have bounds: "- (2 ^ 53) \<le> a - year_days idx" "a - year_days idx \<le> 2 ^ 53"
    using Suc.prems year_days_bounds(1) [of idx] year_start_Suc [of idx] by (simp_all add: algebra_simps)
  then have d: "double_of (a - year_days idx) = a - year_days idx" by (intro double_of_exact abs_leI) linarith+
  show ?case using Suc.IH [of "a - year_days idx" "idx + 1"] Suc.prems(2) bounds(2) year_start_Suc [of idx]
    by (simp add: DaysAfterMonth_0 d algebra_simps)
qed simp

lemma add_years_correct:
  "- (2 ^ 53) \<le> a \<Longrightarrow> a + (year_start (idx + int n) - year_start idx) \<le> 2 ^ 53 \<Longrightarrow>
   add_years idx n a = Inr (a + (year_start (idx + int n) - year_start idx))"
proof (induction n arbitrary: idx a)
  case (Suc n)
  have "year_start (idx + 1) \<le> year_start (idx + 1 + int n)" by (rule year_start_le) simp
  then have bounds: "- (2 ^ 53) \<le> a + year_days idx" "a + year_days idx \<le> 2 ^ 53"
    using Suc.prems year_days_bounds(1) [of idx] year_start_Suc [of idx] by (simp_all add: algebra_simps)
  then have d: "double_of (a + year_days idx) = a + year_days idx" by (intro double_of_exact abs_leI) linarith+
  show ?case using Suc.IH [of "a + year_days idx" "idx + 1"] Suc.prems(2) bounds(1) year_start_Suc [of idx]
    by (simp add: DaysAfterMonth_0 d algebra_simps)
qed simp

text \<open>The days that are a year or more away from \<open>2 ^ 53\<close>, where the years before them may be rounded.\<close>

definition exact_day :: "int \<Rightarrow> bool" where
  "exact_day a \<longleftrightarrow> \<bar>a\<bar> \<le> 2 ^ 53 - 366"

lemma AbsoluteFromYMD_correct:
  assumes "date_valid y m d" "exact_day (day_number y m d)"
  shows "CFAbsoluteFromYMD y m d = Inr (day_number y m d)"
proof -
  let ?b = "y sdiv 400"
  define r where "r = y - ?b * 400"
  have m: "1 \<le> m" "m \<le> 12" using assms(1) by (simp_all add: date_valid_def)
  have "0 \<le> month_start m (isleap y)" "month_start (m + 1) (isleap y) \<le> year_days y"
    using month_start_mono [of 1 m "isleap y"] month_start_mono [of "m + 1" 13 "isleap y"] m by (simp_all add: month_start_ends)
  then have offset: "0 \<le> month_start m (isleap y) + d - 1" "month_start m (isleap y) + d - 1 < 366"
    using assms(1) month_start_Suc [of m "isleap y"] year_days_bounds(2) [of y] by (auto simp: date_valid_def)
  then have S: "\<bar>year_start y\<bar> \<le> 2 ^ 53" and D: "double_of (day_number y m d) = day_number y m d"
    using assms(2) by (auto simp: exact_day_def day_number_def abs_le_iff intro!: double_of_exact)
  have sum: "?b * 146097 + year_start r = year_start y"
    using year_start_400 [of r ?b] by (simp add: r_def)
  have sign: "r < 0 \<and> ?b \<le> 0 \<or> r = 0 \<or> 0 < r \<and> 0 \<le> ?b"
  proof -
    have "y - sgn y * (\<bar>y\<bar> div 400) * 400 = sgn y * (\<bar>y\<bar> mod 400)"
    proof (cases "0 \<le> y")
      case True
      then show ?thesis by (simp add: sgn_if minus_div_mult_eq_mod)
    next
      case False
      have "- y - - y div 400 * 400 = - y mod 400" by (rule minus_div_mult_eq_mod)
      then show ?thesis using False by (simp add: sgn_if)
    qed
    then show ?thesis by (auto simp: r_def signed_divide_int_def sgn_if pos_imp_zdiv_nonneg_iff)
  qed
  have near: "\<bar>?b * 146097\<bar> \<le> \<bar>year_start y\<bar>" if "r < 0 \<and> ?b \<le> 0 \<or> r = 0 \<or> 0 < r \<and> 0 \<le> ?b"
    using that
  proof (elim disjE conjE)
    assume "r < 0" "?b \<le> 0"
    then have "year_start r \<le> 0" "?b * 146097 \<le> 0" using year_start_le [of r 0] by (simp_all add: mult_le_0_iff)
    then show ?thesis using sum by linarith
  next
    assume "r = 0"
    then show ?thesis using sum by simp
  next
    assume "0 < r" "0 \<le> ?b"
    then have "0 \<le> year_start r" "0 \<le> ?b * 146097" using year_start_le [of 0 r] by simp_all
    then show ?thesis using sum by linarith
  qed
  have start: "double_of (double_of ?b * 146097) = ?b * 146097" "\<bar>?b * 146097\<bar> \<le> 2 ^ 53"
  proof -
    show le: "\<bar>?b * 146097\<bar> \<le> 2 ^ 53" using near [OF sign] S by linarith
    then have "double_of ?b = ?b" by (intro double_of_exact) (simp add: abs_mult)
    then show "double_of (double_of ?b * 146097) = ?b * 146097" using double_of_exact [OF le] by simp
  qed
  have "(if r < 0 then subtract_years r (nat (- r)) (?b * 146097) else add_years 0 (nat r) (?b * 146097)) = Inr (year_start y)"
  proof (cases "r < 0")
    case True
    then show ?thesis using subtract_years_correct [of "?b * 146097" r "nat (- r)"] start(2) S sum by (simp add: abs_le_iff)
  next
    case False
    then show ?thesis using add_years_correct [of "?b * 146097" 0 "nat r"] start(2) S sum by (simp add: abs_le_iff)
  qed
  moreover have "isleap r = isleap y" using isleap_400 [of r ?b] by (simp add: r_def)
  moreover have "year_start y + (month_start m (isleap y) + d - 1) = day_number y m d" by (simp add: day_number_def)
  ultimately show ?thesis
    unfolding CFAbsoluteFromYMD_def Let_def start(1) r_def [symmetric] using m D
    by (simp add: DaysBeforeMonth_correct del: ebind_eq_Inr)
qed

lemma day_number_exact:
  assumes "1 \<le> m" "m \<le> 12" "\<bar>y\<bar> \<le> 2 ^ 44" "\<bar>d\<bar> \<le> 2 ^ 30"
  shows "exact_day (day_number y m d)"
proof -
  have "year_start (- (2 ^ 44)) \<le> year_start y" "year_start y \<le> year_start (2 ^ 44)"
    using assms(3) by (intro year_start_le; simp add: abs_le_iff)+
  moreover have "0 \<le> month_start m (isleap y)" "month_start m (isleap y) \<le> 366"
    using month_start_mono [of 1 m "isleap y"] month_start_mono [of m 13 "isleap y"] year_days_bounds(2) [of y] assms(1,2)
    by (simp_all add: month_start_ends)
  ultimately show ?thesis using assms(4) by (simp add: exact_day_def day_number_def year_start_def abs_le_iff)
qed

lemma first_valid: "date_valid y 1 1"
  by (simp add: date_valid_def month_days_def daysInMonth_def)

lemma year_unique:
  assumes "year_start y \<le> a" "a < year_start (y + 1)" "year_start y' \<le> a" "a < year_start (y' + 1)"
  shows "y = y'"
  using assms year_start_mono [of y y'] year_start_mono [of y' y] unfolding year_start_Suc
  by (cases y y' rule: linorder_cases) linarith+

lemma date_in_year:
  assumes "date_valid y m d"
  shows "0 \<le> month_start m (isleap y) + d - 1" "month_start m (isleap y) + d - 1 < year_days y"
    "year_start y \<le> day_number y m d" "day_number y m d < year_start (y + 1)"
proof -
  have m: "1 \<le> m" "m \<le> 12" "1 \<le> d" "d \<le> month_days m (isleap y)" using assms by (simp_all add: date_valid_def)
  then have "month_start 1 (isleap y) \<le> month_start m (isleap y)" "month_start (m + 1) (isleap y) \<le> month_start 13 (isleap y)"
    by (simp_all add: month_start_mono)
  then show bounds: "0 \<le> month_start m (isleap y) + d - 1" "month_start m (isleap y) + d - 1 < year_days y"
    using m month_start_Suc [of m "isleap y"] by (simp_all add: month_start_ends)
  show "year_start y \<le> day_number y m d" "day_number y m d < year_start (y + 1)"
    using bounds by (simp_all add: day_number_def year_start_Suc)
qed

lemma date_unique:
  assumes "date_valid y m d" "date_valid y' m' d'" "day_number y m d = day_number y' m' d'"
  shows "y = y' \<and> m = m' \<and> d = d'"
proof -
  have y: "y = y'" using date_in_year(3,4) [OF assms(1)] date_in_year(3,4) [OF assms(2)] assms(3) year_unique by metis
  have eq: "month_start m (isleap y) + d = month_start m' (isleap y) + d'" using assms(3) y by (simp add: day_number_def)
  have ms: "month_start n (isleap y) + month_days n (isleap y) \<le> month_start n' (isleap y)"
    if "n < n'" "1 \<le> n" "n' \<le> 12" for n n'
    using month_start_mono [of "n + 1" n' "isleap y"] month_start_Suc [of n "isleap y"] that by simp
  have "m = m'"
  proof (rule ccontr)
    assume "m \<noteq> m'"
    then have "m < m' \<or> m' < m" by auto
    then show False using ms [of m m'] ms [of m' m] eq assms(1,2) y by (auto simp: date_valid_def)
  qed
  then show ?thesis using y eq by simp
qed

lemma YMDFromAbsolute_day_number:
  assumes "date_valid y m d"
  shows "CFYMDFromAbsolute (day_number y m d) = Inr (y, m, d)"
proof -
  obtain y' m' d' where "CFYMDFromAbsolute (day_number y m d) = Inr (y', m', d')" "date_valid y' m' d'"
      "day_number y' m' d' = day_number y m d"
    by (rule YMDFromAbsolute_correct)
  then show ?thesis using date_unique [OF _ assms] by metis
qed

section \<open>Weeks\<close>

lemma DoubleModToInt_int: "0 < n \<Longrightarrow> CFDoubleModToInt (of_int k) n = k mod n"
proof -
  assume n: "0 < n"
  have "real_of_int k - of_int \<lfloor>real_of_int k / of_int n\<rfloor> * of_int n = of_int (k - k div n * n)"
    by (simp add: floor_divide_of_int_eq)
  also have "k - k div n * n = k mod n" by (simp add: minus_div_mult_eq_mod)
  finally have "real_of_int k - of_int \<lfloor>real_of_int k / of_int n\<rfloor> * of_int n = of_int (k mod n)" .
  moreover have "\<not> k mod n < 0" using n by (simp add: not_less)
  ultimately show ?thesis unfolding CFDoubleModToInt_def Let_def by simp
qed

lemma local_day_eq: "i64 \<lfloor>(t + gmt_offset tz t) / 86400\<rfloor> = Inr a \<Longrightarrow> local_day t tz = Inr a"
  by (simp add: local_day_def)

lemma DayOfWeek_correct: "local_day t tz = Inr a \<Longrightarrow> CFAbsoluteTimeGetDayOfWeek t tz = Inr (a mod 7 + 1)"
proof -
  have "(a + 1) smod 7 + 7 = a mod 7 + 1" if "a < 0"
  proof -
    have "(a + 1) smod 7 = - ((- (a + 1)) mod 7)" using that by (simp add: signed_modulo_int_def sgn_if)
    then show ?thesis by presburger
  qed
  moreover have "a smod 7 = a mod 7" if "\<not> a < 0" using that by (simp add: signed_modulo_int_def sgn_if)
  moreover assume "local_day t tz = Inr a"
  ultimately show ?thesis by (simp add: CFAbsoluteTimeGetDayOfWeek_def)
qed

text \<open>The correction term for the weekday of the first of January.\<close>

lemma week_shift:
  assumes "1 \<le> w" "w \<le> (7 :: int)"
  shows "(w - 11) smod 7 = (if w = 4 then 0 else if w < 4 then w - 4 else w - 11)"
proof -
  have "w \<in> {1, 2, 3, 4, 5, 6, 7}" using assms by (simp only: insert_iff empty_iff) presburger
  then show ?thesis by (auto simp: signed_modulo_int_def)
qed

lemma weekdays: "(D :: int) mod 7 \<in> {0, 1, 2, 3, 4, 5, 6}"
proof -
  have "0 \<le> D mod 7" "D mod 7 < 7" by simp_all
  then show ?thesis by (simp only: insert_iff empty_iff) linarith
qed

text \<open>
  The Thursday of the week of day \<open>a\<close> is \<open>a - a mod 7 + 3\<close>: day 0 is a Monday. It falls before the year,
  or after it, on the days the code tests for.
\<close>

lemma thursday_before:
  assumes "1 \<le> doy" "a = D + doy - (1 :: int)"
  shows "a - a mod 7 + 3 < D \<longleftrightarrow> doy < 4 \<and> D mod 7 = 4 \<or> doy < 3 \<and> D mod 7 = 5 \<or> doy < 2 \<and> D mod 7 = 6"
proof (cases "doy < 4")
  case True
  define w where "w = D mod 7"
  have w: "w \<in> {0, 1, 2, 3, 4, 5, 6}" unfolding w_def by (rule weekdays)
  have "a = 7 * (D div 7) + (w + doy - 1)" using assms(2) by (simp add: w_def)
  then have "a mod 7 = (w + doy - 1) mod 7" by (metis mod_mult_self4)
  moreover have "doy = 1 \<or> doy = 2 \<or> doy = 3" using assms(1) True by linarith
  ultimately show ?thesis using w assms(2) by (auto simp flip: w_def)
next
  case False
  have "a mod 7 < 7" by simp
  then show ?thesis using False assms(2) by linarith
qed

lemma thursday_after:
  assumes "0 \<le> e" "a = D - e - (1 :: int)"
  shows "D \<le> a - a mod 7 + 3 \<longleftrightarrow> e < 3 \<and> D mod 7 = 3 \<or> e < 2 \<and> D mod 7 = 2 \<or> e < 1 \<and> D mod 7 = 1"
proof (cases "e < 3")
  case True
  define w where "w = D mod 7"
  have w: "w \<in> {0, 1, 2, 3, 4, 5, 6}" unfolding w_def by (rule weekdays)
  have "a = 7 * (D div 7) + (w - e - 1)" using assms(2) by (simp add: w_def)
  then have "a mod 7 = (w - e - 1) mod 7" by (metis mod_mult_self4)
  moreover have "e = 0 \<or> e = 1 \<or> e = 2" using assms(1) True by linarith
  ultimately show ?thesis using w assms(2) by (auto simp flip: w_def)
next
  case False
  have "0 \<le> a mod 7" by simp
  then show ?thesis using False assms(2) by linarith
qed

lemma week_formula:
  assumes "1 \<le> doy" "a = D + doy - (1 :: int)" "D \<le> a - a mod 7 + 3"
  shows "(doy + (D mod 7 + 1 - 11) smod 7 + 2) sdiv 7 = (a - a mod 7 + 3 - D) div 7"
proof -
  define s where "s = (if D mod 7 = 3 then 0 else if D mod 7 < 3 then D mod 7 - 3 else D mod 7 - 10)"
  have "(D mod 7 + 1 - 11) smod 7 = s"
    using week_shift [of "D mod 7 + 1"] by (simp add: s_def)
  moreover have "0 \<le> doy + s + 2 \<and> (doy + s + 2) div 7 = (a - a mod 7 + 3 - D) div 7"
  proof -
    define w k p where "w = D mod 7" and "k = w + doy - 1" and "p = k div 7"
    have w: "0 \<le> w" "w < 7" by (simp_all add: w_def)
    have k: "k = 7 * p + k mod 7" "0 \<le> k mod 7" "k mod 7 < 7" by (simp_all add: p_def)
    have "a = 7 * (D div 7) + k" using assms(2) by (simp add: k_def w_def)
    then have amod: "a mod 7 = k mod 7" by (metis mod_mult_self4)
    have D: "D = 7 * (D div 7) + w" by (simp add: w_def)
    have th: "a - a mod 7 + 3 - D = 7 * p + (3 - w)"
      using amod \<open>a = 7 * (D div 7) + k\<close> k(1) D by linarith
    show ?thesis
    proof (cases "w \<le> 3")
      case True
      then have "doy + s + 2 = 7 * p + k mod 7" using k(1) w by (auto simp: s_def k_def w_def [symmetric])
      moreover have "0 \<le> p" using assms(3) th w True by linarith
      ultimately show ?thesis using int_div_pos_eq [OF th] True w k int_div_pos_eq [of "doy + s + 2" 7 p "k mod 7"] by simp
    next
      case False
      then have eq: "doy + s + 2 = 7 * (p - 1) + k mod 7" using k(1) w by (auto simp: s_def k_def w_def [symmetric])
      have th': "a - a mod 7 + 3 - D = 7 * (p - 1) + (10 - w)" using th by simp
      moreover have "0 \<le> p - 1" using assms(3) th w False by linarith
      ultimately show ?thesis using int_div_pos_eq [OF th'] False w k int_div_pos_eq [OF eq] by simp
    qed
  qed
  ultimately show ?thesis by (cases "doy + s + 2 = 0") (auto simp: signed_divide_int_def sgn_if)
qed

lemma day_of_year_split:
  assumes "date_valid y m d" "doy = month_start m (isleap y) + d"
  shows "1 \<le> doy" "doy \<le> year_days y" "doy < 4 \<longleftrightarrow> m = 1 \<and> d < 4" "m = 1 \<Longrightarrow> doy = d"
    "year_days y - doy < 3 \<longleftrightarrow> m = 12 \<and> 28 < d" "m = 12 \<Longrightarrow> year_days y - doy = 31 - d"
proof -
  have v: "1 \<le> m" "m \<le> 12" "1 \<le> d" "d \<le> month_days m (isleap y)" using assms(1) by (simp_all add: date_valid_def)
  have m12: "month_start 12 (isleap y) = year_days y - 31"
    by (simp add: month_start_def daysBeforeMonth_def year_days_def)
  show "1 \<le> doy" "doy \<le> year_days y" using date_in_year(1,2) [OF assms(1)] assms(2) by simp_all
  show one: "m = 1 \<Longrightarrow> doy = d" using assms(2) by (simp add: month_start_ends)
  show last: "m = 12 \<Longrightarrow> year_days y - doy = 31 - d" using assms(2) m12 by simp
  have "31 \<le> month_start m (isleap y)" if "m \<noteq> 1"
    using month_start_mono [of 2 m "isleap y"] that v by (simp add: month_start_def daysBeforeMonth_def)
  then show "doy < 4 \<longleftrightarrow> m = 1 \<and> d < 4" using one v assms(2) by fastforce
  have "doy \<le> year_days y - 31" if "m \<noteq> 12"
    using month_start_mono [of "m + 1" 12 "isleap y"] month_start_Suc [of m "isleap y"] that v m12 assms(2) by simp
  then show "year_days y - doy < 3 \<longleftrightarrow> m = 12 \<and> 28 < d" using last v by fastforce
qed

lemma WeekOfYear_correct:
  assumes day: "local_day t tz = Inr (day_number y m d)" and valid: "date_valid y m d"
    and th: "th = day_number y m d - day_number y m d mod 7 + 3" "year_start wy \<le> th" "th < year_start (wy + 1)"
    and small: "\<bar>y\<bar> < 2 ^ 44"
  shows "CFAbsoluteTimeGetWeekOfYear t tz = Inr (if wy < y then 53 else (th - year_start wy) div 7 + 1)"
proof -
  define a D doy where "a = day_number y m d" and "D = year_start y" and "doy = month_start m (isleap y) + d"
  have a: "a = D + doy - 1" by (simp add: a_def D_def doy_def day_number_def)
  have v: "1 \<le> m" "m \<le> 12" using valid by (simp_all add: date_valid_def)
  note doy = day_of_year_split [OF valid doy_def]
  have start: "CFAbsoluteFromYMD y 1 1 = Inr D" "CFAbsoluteFromYMD (y + 1) 1 1 = Inr (D + year_days y)"
    using AbsoluteFromYMD_correct [OF first_valid day_number_exact] small
    by (simp_all add: day_number_def month_start_ends D_def year_start_Suc)
  have a2: "a = (D + year_days y) - (year_days y - doy) - 1" using a by simp
  have before: "th < D \<longleftrightarrow> m = 1 \<and> d < 4 \<and> (d < 4 \<and> D mod 7 = 4 \<or> d < 3 \<and> D mod 7 = 5 \<or> d < 2 \<and> D mod 7 = 6)"
    using thursday_before [OF doy(1) a] doy(3,4) th(1) by (auto simp: a_def)
  have after: "D + year_days y \<le> th \<longleftrightarrow> m = 12 \<and> 28 < d \<and>
      (28 < d \<and> (D + year_days y) mod 7 = 3 \<or> 29 < d \<and> (D + year_days y) mod 7 = 2 \<or> 30 < d \<and> (D + year_days y) mod 7 = 1)"
  proof (cases "m = 12 \<and> 28 < d")
    case True
    then have "year_days y - doy = 31 - d" using doy(6) by blast
    then show ?thesis using thursday_after [OF _ a2] doy(2) True th(1) by (simp add: a_def)
  next
    case False
    then have "\<not> year_days y - doy < 3" using doy(5) by blast
    then show ?thesis using thursday_after [OF _ a2] doy(2) False th(1) by (auto simp: a_def)
  qed
  have week: "CFAbsoluteTimeGetWeekOfYear t tz = Inr (if th < D then 53 else if D + year_days y \<le> th then 1
      else (doy + (D mod 7 + 1 - 11) smod 7 + 2) sdiv 7 + 1)"
  proof -
    have dow: "(i = D mod 7 + 1) = (D mod 7 = i - 1)" "(i = (D + year_days y) mod 7 + 1) = ((D + year_days y) mod 7 = i - 1)" for i
      by auto
    show ?thesis
      using day YMDFromAbsolute_day_number [OF valid] start DaysBeforeMonth_correct [of m "isleap y"] v before after
      by (cases "th < D"; cases "m = 12 \<and> 28 < d")
        (simp_all add: CFAbsoluteTimeGetWeekOfYear_def Let_def DoubleModToInt_int doy_def dow cong: conj_cong if_cong)
  qed
  have th_bounds: "a - 3 \<le> th" "th \<le> a + 3" using th(1) by (simp_all add: a_def)
  consider "th < D" | "D \<le> th" "th < D + year_days y" | "D + year_days y \<le> th" by linarith
  then show ?thesis
  proof cases
    case 1
    then have "wy < y" using th(2) year_start_mono [of y wy] year_days_bounds(1) [of y]
      by (cases wy y rule: linorder_cases) (auto simp: D_def)
    then show ?thesis using week 1 by simp
  next
    case 2
    then have "wy = y" using year_unique [OF th(2,3), of y] by (simp add: D_def year_start_Suc)
    then show ?thesis using week 2 week_formula [OF doy(1) a] th(1) by (simp add: a_def D_def)
  next
    case 3
    have "th < D + year_days y + year_days (y + 1)" using th_bounds a doy(2) year_days_bounds(1) [of "y + 1"] by linarith
    then have "wy = y + 1" using year_unique [OF th(2,3), of "y + 1"] 3 year_start_Suc [of "y + 1"] by (simp add: D_def year_start_Suc)
    moreover have "(th - year_start (y + 1)) div 7 = 0"
      using 3 th_bounds a doy(2) by (simp add: D_def year_start_Suc div_pos_pos_trivial)
    ultimately show ?thesis using week 3 year_days_bounds(1) [of y] by simp
  qed
qed

section \<open>Adding units\<close>

lemma i32_ok: "- (2 ^ 31) \<le> x \<Longrightarrow> x < 2 ^ 31 \<Longrightarrow> i32 x = Inr x"
  by (simp add: i32_def)

lemma months_down_correct:
  assumes "1 \<le> m" "- (2 ^ 31) \<le> y" "y + (m - 1) div 12 < 2 ^ 31"
  shows "months_down y m = Inr (y + (m - 1) div 12, (m - 1) mod 12 + 1)"
  using assms
proof (induction y m rule: months_down.induct)
  case (1 y m)
  show ?case
  proof (cases "12 < m")
    case True
    have shift: "m - 1 = (m - 12 - 1) + 12" by simp
    have m: "(m - 1) div 12 = (m - 12 - 1) div 12 + 1" "(m - 1) mod 12 = (m - 12 - 1) mod 12"
      by (subst shift, rule div_add_self2, simp) (subst shift, rule mod_add_self2)
    have "0 \<le> (m - 12 - 1) div 12" using True by simp
    then have i: "i32 (y + 1) = Inr (y + 1)" using 1(3,4) m(1) by (intro i32_ok) simp_all
    have "months_down (y + 1) (m - 12) = Inr (y + 1 + (m - 12 - 1) div 12, (m - 12 - 1) mod 12 + 1)"
      using 1(1) [OF True i] 1(2-4) True m by simp
    then show ?thesis using True i m by (subst months_down.simps) simp
  next
    case False
    then have "(m - 1) div 12 = 0" "(m - 1) mod 12 = m - 1" using 1(2) by simp_all
    then show ?thesis using False by (subst months_down.simps) simp
  qed
qed

lemma months_up_correct:
  assumes "m \<le> 12" "y < 2 ^ 31" "- (2 ^ 31) \<le> y + (m - 1) div 12"
  shows "months_up y m = Inr (y + (m - 1) div 12, (m - 1) mod 12 + 1)"
  using assms
proof (induction y m rule: months_up.induct)
  case (1 y m)
  show ?case
  proof (cases "m < 1")
    case True
    have m: "(m - 1) div 12 = (m + 12 - 1) div 12 - 1" "(m - 1) mod 12 = (m + 12 - 1) mod 12"
      using mod_add_self2 [of "m - 1" 12] div_add_self2 [of 12 "m - 1"] by (simp_all add: algebra_simps)
    have "(m + 12 - 1) div 12 \<le> 0" using True by linarith
    then have i: "i32 (y - 1) = Inr (y - 1)" using 1(3,4) m(1) by (intro i32_ok) simp_all
    have "months_up (y - 1) (m + 12) = Inr (y - 1 + (m + 12 - 1) div 12, (m + 12 - 1) mod 12 + 1)"
      using 1(1) [OF True i] 1(2-4) True m by simp
    then show ?thesis using True i m by (subst months_up.simps) simp
  next
    case False
    then have "(m - 1) div 12 = 0" "(m - 1) mod 12 = m - 1" using 1(2) by simp_all
    then show ?thesis using False by (subst months_up.simps) simp
  qed
qed

lemma months_normal:
  assumes "- (2 ^ 30) \<le> y" "y \<le> 2 ^ 30" "- (2 ^ 30) \<le> m" "m \<le> 2 ^ 30"
  shows "ebind (months_down y m) (\<lambda>(y, m). months_up y m) = Inr (y + (m - 1) div 12, (m - 1) mod 12 + 1)"
proof (cases "1 \<le> m")
  case True
  have "months_down y m = Inr (y + (m - 1) div 12, (m - 1) mod 12 + 1)"
    using assms True by (intro months_down_correct) auto
  moreover have "\<not> (m - 1) mod 12 + 1 < 1" by simp
  ultimately show ?thesis by (subst months_up.simps) simp
next
  case False
  then have "months_down y m = Inr (y, m)" by (subst months_down.simps) simp
  moreover have "- (2 ^ 30) - 1 \<le> (m - 1) div 12" using assms by simp
  ultimately show ?thesis using months_up_correct [of m y] assms False by simp
qed

text \<open>The day loops move the date without changing the day it stands for.\<close>

lemma day_number_next:
  assumes "1 \<le> m" "m \<le> 12"
  shows "day_number (if 12 < m + 1 then y + 1 else y) (if 12 < m + 1 then m + 1 - 12 else m + 1) d =
    day_number y m (d + month_days m (isleap y))"
proof (cases "m = 12")
  case True
  then show ?thesis
    using month_start_Suc [of 12 "isleap y"] month_start_ends by (simp add: day_number_def year_start_Suc)
next
  case False
  then show ?thesis using assms month_start_Suc [of m "isleap y"] by (simp add: day_number_def)
qed

lemma days_down_correct:
  assumes "1 \<le> m" "m \<le> 12" "1 \<le> d" "\<bar>y\<bar> + d \<le> 2 ^ 31 - 1"
  shows "\<exists>y' m' d'. days_down y m d (month_days m (isleap (y - 2001))) = Some (Inr (y', m', d', month_days m' (isleap (y' - 2001)))) \<and>
    date_valid (y' - 2001) m' d' \<and> day_number (y' - 2001) m' d' = day_number (y - 2001) m d"
  using assms
proof (induction "nat d" arbitrary: y m d rule: less_induct)
  case less
  let ?n = "month_days m (isleap (y - 2001))"
  have n: "28 \<le> ?n" "?n \<le> 31" using month_days_bounds less.prems by simp_all
  show ?case
  proof (cases "?n < d")
    case False
    then show ?thesis using less.prems by (subst days_down.simps) (simp add: date_valid_def)
  next
    case True
    define y' m' where "y' = (if 12 < m + 1 then y + 1 else y)" and "m' = (if 12 < m + 1 then m + 1 - 12 else m + 1)"
    have m': "1 \<le> m'" "m' \<le> 12" using less.prems by (auto simp: m'_def)
    have i: "i32 y' = Inr y'" using less.prems True n by (intro i32_ok) (auto simp: y'_def)
    have "\<exists>y'' m'' d''. days_down y' m' (d - ?n) (month_days m' (isleap (y' - 2001))) =
        Some (Inr (y'', m'', d'', month_days m'' (isleap (y'' - 2001)))) \<and>
        date_valid (y'' - 2001) m'' d'' \<and> day_number (y'' - 2001) m'' d'' = day_number (y' - 2001) m' (d - ?n)"
      using less.prems True n m' by (intro less.hyps) (auto simp: y'_def)
    moreover have "day_number (y' - 2001) m' (d - ?n) = day_number (y - 2001) m d"
      using day_number_next [OF less.prems(1,2), of "y - 2001" "d - ?n"] by (simp add: y'_def m'_def split: if_splits)
    moreover have "days_down y m d ?n = days_down y' m' (d - ?n) (month_days m' (isleap (y' - 2001)))"
      using True i m' by (subst days_down.simps, unfold y'_def [symmetric] m'_def [symmetric]) (simp add: DaysInMonth_correct)
    ultimately show ?thesis by simp
  qed
qed

lemma days_up_correct:
  assumes "1 \<le> m" "m \<le> 12" "d \<le> month_days m (isleap (y - 2001))" "\<bar>y\<bar> - d \<le> 2 ^ 31 - 2"
  shows "\<exists>y' m' d'. days_up y m d = Some (Inr (y', m', d')) \<and>
    date_valid (y' - 2001) m' d' \<and> day_number (y' - 2001) m' d' = day_number (y - 2001) m d"
  using assms
proof (induction "nat (1 - d)" arbitrary: y m d rule: less_induct)
  case less
  show ?case
  proof (cases "d < 1")
    case False
    then show ?thesis using less.prems by (subst days_up.simps) (simp add: date_valid_def)
  next
    case True
    define y' m' where "y' = (if m - 1 < 1 then y - 1 else y)" and "m' = (if m - 1 < 1 then m - 1 + 12 else m - 1)"
    let ?n = "month_days m' (isleap (y' - 2001))"
    have m': "1 \<le> m'" "m' \<le> 12" using less.prems by (auto simp: m'_def)
    have n: "28 \<le> ?n" "?n \<le> 31" using month_days_bounds m' by simp_all
    have i: "i32 y' = Inr y'" using less.prems True by (intro i32_ok) (auto simp: y'_def)
    have y: "\<bar>y'\<bar> \<le> \<bar>y\<bar> + 1" by (auto simp: y'_def)
    have "\<bar>y'\<bar> - (d + ?n) \<le> 2 ^ 31 - 2" using y n less.prems(4) by linarith
    then have "\<exists>y'' m'' d''. days_up y' m' (d + ?n) = Some (Inr (y'', m'', d'')) \<and>
        date_valid (y'' - 2001) m'' d'' \<and> day_number (y'' - 2001) m'' d'' = day_number (y' - 2001) m' (d + ?n)"
      using less.prems True n m' y by (intro less.hyps) auto
    moreover have "day_number (y' - 2001) m' (d + ?n) = day_number (y - 2001) m d"
      using day_number_next [OF m', of "y' - 2001" d] less.prems(1,2) by (auto simp: y'_def m'_def split: if_splits)
    moreover have "days_up y m d = days_up y' m' (d + ?n)"
      using True i m' by (subst days_up.simps, unfold y'_def [symmetric] m'_def [symmetric]) (simp add: DaysInMonth_correct)
    ultimately show ?thesis by simp
  qed
qed

text \<open>The hour, the minute and the second of a time make up its offset into the day.\<close>

lemma time_of_day:
  "3600 * of_int (CFDoubleModToInt (of_int \<lfloor>f / 3600\<rfloor>) 24) + 60 * of_int (CFDoubleModToInt (of_int \<lfloor>f / 60\<rfloor>) 60) +
     CFDoubleMod f 60 = f - 86400 * of_int \<lfloor>f / 86400\<rfloor>"
proof -
  define q where "q = \<lfloor>f / 60\<rfloor>"
  have hour: "\<lfloor>f / 3600\<rfloor> = q div 60" using floor_divide_real_eq_div [of 60 "f / 60"] by (simp add: q_def)
  have day: "\<lfloor>f / 86400\<rfloor> = q div 1440" using floor_divide_real_eq_div [of 1440 "f / 60"] by (simp add: q_def)
  have "\<not> f - of_int \<lfloor>f / 60\<rfloor> * 60 < 0" using of_int_floor_le [of "f / 60"] by linarith
  then have second: "CFDoubleMod f 60 = f - of_int (60 * q)" by (simp add: CFDoubleMod_def q_def Let_def)
  have "q div 1440 = q div 60 div 24" by (simp add: zdiv_zmult2_eq)
  then have "3600 * ((q div 60) mod 24) + 60 * (q mod 60) - 60 * q = - 86400 * (q div 1440)"
    using mult_div_mod_eq [of 60 q] mult_div_mod_eq [of 24 "q div 60"] by linarith
  then have "(of_int (3600 * ((q div 60) mod 24) + 60 * (q mod 60) - 60 * q) :: real) = of_int (- 86400 * (q div 1440))"
    by (simp only:)
  then show ?thesis
    unfolding hour day second by (simp add: DoubleModToInt_int flip: q_def)
qed

text \<open>
  The day a date stands for after adding years, then months, clamping the day to the new month, then
  adding days.
\<close>

definition shifted_day :: "int \<Rightarrow> int \<Rightarrow> int \<Rightarrow> CFGregorianUnits \<Rightarrow> int" where
  "shifted_day y m d units =
     (let k = m + gu_months units - 1;
          y' = y + gu_years units + k div 12;
          m' = k mod 12 + 1
      in day_number y' m' (min d (month_days m' (isleap y')) + gu_days units))"

definition local_time :: "time_zone \<Rightarrow> real \<Rightarrow> real" where
  "local_time tz s = s - gmt_offset tz (s - gmt_offset tz s)"

definition units_small :: "CFGregorianUnits \<Rightarrow> bool" where
  "units_small units \<longleftrightarrow> \<bar>gu_years units\<bar> \<le> 2 ^ 28 \<and> \<bar>gu_months units\<bar> \<le> 2 ^ 28 \<and> \<bar>gu_days units\<bar> \<le> 2 ^ 28"

lemma add_months_correct:
  assumes valid: "date_valid (gd_year g - 2001) (gd_month g) (gd_day g)" and year: "\<bar>gd_year g\<bar> \<le> 2 ^ 28"
    and small: "units_small units"
  obtains y' m' d' where "add_months g units = Inr (y', m', d', month_days m' (isleap (y' - 2001)))"
    "1 \<le> m'" "m' \<le> 12" "\<bar>y'\<bar> \<le> 2 ^ 30" "\<bar>d'\<bar> \<le> 2 ^ 29" "d' \<le> month_days m' (isleap (y' - 2001)) + gu_days units"
    "day_number (y' - 2001) m' d' = shifted_day (gd_year g - 2001) (gd_month g) (gd_day g) units"
proof -
  define k where "k = gd_month g + gu_months units - 1"
  define y' m' where "y' = gd_year g + gu_years units + k div 12" and "m' = k mod 12 + 1"
  define d' where "d' = min (gd_day g) (month_days m' (isleap (y' - 2001))) + gu_days units"
  have v: "1 \<le> gd_month g" "gd_month g \<le> 12" "1 \<le> gd_day g" "gd_day g \<le> 31"
    using valid month_days_bounds [of "gd_month g" "isleap (gd_year g - 2001)"] by (auto simp: date_valid_def)
  have u: "\<bar>gu_years units\<bar> \<le> 2 ^ 28" "\<bar>gu_months units\<bar> \<le> 2 ^ 28" "\<bar>gu_days units\<bar> \<le> 2 ^ 28"
    using small by (simp_all add: units_small_def)
  have m': "1 \<le> m'" "m' \<le> 12" by (simp_all add: m'_def)
  have n: "28 \<le> month_days m' (isleap (y' - 2001))" "month_days m' (isleap (y' - 2001)) \<le> 31"
    using month_days_bounds [OF m'] by simp_all
  have d': "\<bar>d'\<bar> \<le> 2 ^ 29" using u(3) v n by (auto simp: d'_def min_def)
  have norm: "ebind (months_down (gd_year g + gu_years units) (gd_month g + gu_months units)) (\<lambda>(y, m). months_up y m) = Inr (y', m')"
    unfolding y'_def m'_def k_def using v year u by (intro months_normal) auto
  have i: "i32 (gd_year g + gu_years units) = Inr (gd_year g + gu_years units)"
    "i32 (gd_month g + gu_months units) = Inr (gd_month g + gu_months units)" "i32 d' = Inr d'"
    using v year u d' by (auto intro!: i32_ok)
  obtain y1 m1 where down: "months_down (gd_year g + gu_years units) (gd_month g + gu_months units) = Inr (y1, m1)"
      "months_up y1 m1 = Inr (y', m')"
    using norm by auto
  have min: "(if month_days m' (isleap (y' - 2001)) < gd_day g then month_days m' (isleap (y' - 2001)) else gd_day g) =
      min (gd_day g) (month_days m' (isleap (y' - 2001)))" by auto
  have run: "add_months g units = Inr (y', m', d', month_days m' (isleap (y' - 2001)))"
    using i down DaysInMonth_correct [OF m'] by (simp add: add_months_def min flip: d'_def)
  have "\<bar>k div 12\<bar> \<le> 2 ^ 28 + 12" using u(2) v unfolding k_def by linarith
  then have "\<bar>y'\<bar> \<le> 2 ^ 30" using year u(1) by (auto simp: y'_def abs_le_iff)
  moreover have "day_number (y' - 2001) m' d' = shifted_day (gd_year g - 2001) (gd_month g) (gd_day g) units"
  proof -
    have year: "gd_year g - 2001 + gu_years units + k div 12 = y' - 2001" by (simp add: y'_def)
    show ?thesis unfolding shifted_day_def Let_def k_def [symmetric] year m'_def [symmetric] d'_def by (rule refl)
  qed
  ultimately show thesis using that [OF run m'] d' by (simp add: d'_def)
qed

lemma carry_days:
  assumes "1 \<le> m" "m \<le> 12" "\<bar>y\<bar> \<le> 2 ^ 30" "\<bar>d\<bar> \<le> 2 ^ 29"
  shows "\<exists>y1 m1 d1 n1 y2 m2 d2. days_down y m d (month_days m (isleap (y - 2001))) = Some (Inr (y1, m1, d1, n1)) \<and>
    days_up y1 m1 d1 = Some (Inr (y2, m2, d2)) \<and> date_valid (y2 - 2001) m2 d2 \<and>
    day_number (y2 - 2001) m2 d2 = day_number (y - 2001) m d"
proof (cases "month_days m (isleap (y - 2001)) < d")
  case False
  then have "days_down y m d (month_days m (isleap (y - 2001))) = Some (Inr (y, m, d, month_days m (isleap (y - 2001))))"
    by (subst days_down.simps) simp
  moreover have "\<bar>y\<bar> - d \<le> 2 ^ 31 - 2" using assms(3,4) by (auto simp: abs_le_iff)
  ultimately show ?thesis using days_up_correct [of m d y] assms(1,2) False by (metis not_less)
next
  case True
  then have d: "1 \<le> d" using month_days_bounds [OF assms(1,2), of "isleap (y - 2001)"] by linarith
  moreover have "\<bar>y\<bar> + d \<le> 2 ^ 31 - 1" using assms(3,4) by (auto simp: abs_le_iff)
  ultimately obtain y' m' d' where 1: "days_down y m d (month_days m (isleap (y - 2001))) =
      Some (Inr (y', m', d', month_days m' (isleap (y' - 2001))))" "date_valid (y' - 2001) m' d'"
      "day_number (y' - 2001) m' d' = day_number (y - 2001) m d"
    using days_down_correct [of m d y] assms(1,2) by metis
  moreover have "days_up y' m' d' = Some (Inr (y', m', d'))"
    using 1(2) by (subst days_up.simps) (simp add: date_valid_def)
  ultimately show ?thesis by metis
qed

lemma AddGregorianUnits_correct:
  assumes day: "local_day t tz = Inr (day_number y m d)" and valid: "date_valid y m d"
    and year: "\<bar>y\<bar> \<le> 2 ^ 27" and small: "units_small units"
  shows "CFAbsoluteTimeAddGregorianUnits t tz units = Some (Inr (local_time tz
      (86400 * of_int (shifted_day y m d units) + (t + gmt_offset tz t - 86400 * of_int (day_number y m d))) +
      3600 * of_int (gu_hours units) + 60 * of_int (gu_minutes units) + gu_seconds units))"
proof -
  let ?f = "t + gmt_offset tz t"
  have floor: "\<lfloor>?f / 86400\<rfloor> = day_number y m d" using day by (simp add: local_day_def i64_def split: if_splits)
  define g where "g = \<lparr>gd_year = y + 2001, gd_month = m, gd_day = d, gd_hour = CFDoubleModToInt (of_int \<lfloor>?f / 3600\<rfloor>) 24,
    gd_minute = CFDoubleModToInt (of_int \<lfloor>?f / 60\<rfloor>) 60, gd_second = CFDoubleMod ?f 60\<rparr>"
  have "signed_take_bit 31 (y + 2001) = y + 2001" using year by (intro signed_take_bit_int_eq_self) auto
  then have date: "CFAbsoluteTimeGetGregorianDate t tz = Inr g"
    using day YMDFromAbsolute_day_number [OF valid] year by (simp add: CFAbsoluteTimeGetGregorianDate_def g_def Let_def)
  have gd: "gd_year g - 2001 = y" "gd_month g = m" "gd_day g = d" "\<bar>gd_year g\<bar> \<le> 2 ^ 28" using year by (auto simp: g_def)
  obtain y' m' d' where add: "add_months g units = Inr (y', m', d', month_days m' (isleap (y' - 2001)))"
    "1 \<le> m'" "m' \<le> 12" "\<bar>y'\<bar> \<le> 2 ^ 30" "\<bar>d'\<bar> \<le> 2 ^ 29" and
    shifted: "day_number (y' - 2001) m' d' = shifted_day y m d units"
    by (rule add_months_correct [of g units]) (use valid small gd in auto)
  obtain y1 m1 d1 n1 y2 m2 d2 where carry: "days_down y' m' d' (month_days m' (isleap (y' - 2001))) = Some (Inr (y1, m1, d1, n1))"
    "days_up y1 m1 d1 = Some (Inr (y2, m2, d2))" "date_valid (y2 - 2001) m2 d2"
    "day_number (y2 - 2001) m2 d2 = shifted_day y m d units"
    using carry_days [OF add(2-5)] shifted by metis
  have "exact_day (shifted_day y m d units)"
    unfolding shifted [symmetric] using add(2-5) by (intro day_number_exact) auto
  then have "CFAbsoluteFromYMD (y2 - 2001) m2 d2 = Inr (shifted_day y m d units)"
    using carry(3,4) AbsoluteFromYMD_correct [of "y2 - 2001" m2 d2] by simp
  then have "CFGregorianDateGetAbsoluteTime (g\<lparr>gd_year := y2, gd_month := m2, gd_day := d2\<rparr>) tz =
      Inr (local_time tz (86400 * of_int (shifted_day y m d units) + (?f - 86400 * of_int (day_number y m d))))"
    using time_of_day [of ?f] floor by (simp add: CFGregorianDateGetAbsoluteTime_def local_time_def Let_def g_def)
  then show ?thesis
    using date add(1) carry(1,2) by (simp add: CFAbsoluteTimeAddGregorianUnits_def)
qed

section \<open>Properties\<close>

text \<open>
  C12. \<open>__CFYMDFromAbsolute\<close> and \<open>__CFAbsoluteFromYMD\<close> are inverse to each other between days and valid dates of the Gregorian
  calendar, before 2001 as well as after it, as far as the \<open>double\<close> that holds the number of the day holds every integer on the way:
  for days up to a year less than \<open>2 ^ 53\<close>, and dates in the years up to \<open>2 ^ 44\<close>. Both loops over the years end.
\<close>

theorem date_roundtrip:
  assumes "\<bar>a\<bar> \<le> 2 ^ 53 - 366" and "\<bar>y\<bar> \<le> 2 ^ 44" and "date_valid y m d"
  shows "(case CFYMDFromAbsolute a of Inl _ \<Rightarrow> False
     | Inr (y, m, d) \<Rightarrow> date_valid y m d \<and> CFAbsoluteFromYMD y m d = Inr a) \<and>
   (case CFAbsoluteFromYMD y m d of Inl _ \<Rightarrow> False | Inr a \<Rightarrow> CFYMDFromAbsolute a = Inr (y, m, d)) \<and>
   (isleap y \<longleftrightarrow> 4 dvd (y + 2001) \<and> (\<not> 100 dvd (y + 2001) \<or> 400 dvd (y + 2001)))"
proof -
  obtain y1 m1 d1 where 1: "CFYMDFromAbsolute a = Inr (y1, m1, d1)" "date_valid y1 m1 d1" "day_number y1 m1 d1 = a"
    by (rule YMDFromAbsolute_correct)
  then have "CFAbsoluteFromYMD y1 m1 d1 = Inr a"
    using AbsoluteFromYMD_correct [OF 1(2)] assms(1) by (simp add: exact_day_def)
  moreover have "exact_day (day_number y m d)"
    using assms(2,3) month_days_bounds [of m "isleap y"] by (intro day_number_exact) (auto simp: date_valid_def)
  ultimately show ?thesis
    using 1 AbsoluteFromYMD_correct [OF assms(3)] YMDFromAbsolute_day_number [OF assms(3)] isleap_gregorian [of y]
    by (simp add: gregorian_leap_def)
qed

lemma date_roundtrip_witness:
  "(case CFAbsoluteFromYMD (-101) 2 28 of Inl _ \<Rightarrow> False | Inr a \<Rightarrow> CFYMDFromAbsolute a = Inr (-101, 2, 28)) \<and>
   (case CFYMDFromAbsolute 9007199254740626 of Inl _ \<Rightarrow> False
     | Inr (y, m, d) \<Rightarrow> date_valid y m d \<and> CFAbsoluteFromYMD y m d = Inr 9007199254740626)"
proof -
  have "date_valid (-101) 2 28" by (simp add: date_valid_def month_days_def daysInMonth_def)
  then show ?thesis using date_roundtrip [of 9007199254740626 "-101" 2 28] by simp
qed

text \<open>
  The weekday, the day of the year and the week number of a time follow from its local day. The week
  number is that of ISO 8601 (week 1 holds the first Thursday of its year) except on those of the first
  three days of January that belong to the last week of the year before, where the answer is always 53
  (so 1 January 2006 is reported in week 53, though 2005 has 52 weeks).
\<close>

theorem date_week_numbers:
  assumes "local_day t tz = Inr (day_number y m d)" and "date_valid y m d"
    and "th = day_number y m d - day_number y m d mod 7 + 3" and "year_start wy \<le> th" and "th < year_start (wy + 1)"
    and "\<bar>y\<bar> < 2 ^ 44"
  shows "CFAbsoluteTimeGetDayOfWeek t tz = Inr (day_number y m d mod 7 + 1) \<and>
    CFAbsoluteTimeGetDayOfYear t tz = Inr (day_number y m d - year_start y + 1) \<and>
    CFAbsoluteTimeGetWeekOfYear t tz = Inr (if wy < y then 53 else (th - year_start wy) div 7 + 1)"
proof -
  have "CFAbsoluteTimeGetDayOfYear t tz = Inr (day_number y m d - year_start y + 1)"
    using assms(1,2) YMDFromAbsolute_day_number [OF assms(2)] DaysBeforeMonth_correct [of m "isleap y"]
    by (simp add: CFAbsoluteTimeGetDayOfYear_def date_valid_def day_number_def)
  then show ?thesis using DayOfWeek_correct [OF assms(1)] WeekOfYear_correct [OF assms] by simp
qed

text \<open>Sunday, 1 January 2006 falls in week 52 of 2005.\<close>

lemma date_week_numbers_witness:
  "CFAbsoluteTimeGetDayOfWeek (86400 * 1826 + 30000) None = Inr 7 \<and>
   CFAbsoluteTimeGetWeekOfYear (86400 * 1826 + 30000) None = Inr 53 \<and> (1823 - year_start 4) div 7 + 1 = 52"
proof -
  have leap: "\<not> isleap 5" by (simp add: isleap_gregorian gregorian_leap_def)
  have day: "day_number 5 1 1 = 1826" by (simp add: day_number_def year_start_def month_start_def daysBeforeMonth_def)
  have "local_day (86400 * 1826 + 30000) None = Inr 1826"
  proof -
    have "\<lfloor>(86400 * 1826 + 30000) / 86400 :: real\<rfloor> = 1826" by (simp add: floor_eq_iff)
    then show ?thesis by (simp add: local_day_def gmt_offset_def i64_def)
  qed
  moreover have "date_valid 5 1 1" by (simp add: date_valid_def month_days_def daysInMonth_def)
  ultimately show ?thesis
    using date_week_numbers [of "86400 * 1826 + 30000" None 5 1 1 1823 4] by (simp add: day year_start_def)
qed

text \<open>
  C28. Adding years and months and then days to a time moves its local date to the clamped date and then
  by the days, keeps the time of day, and adds the hours, minutes and seconds to the absolute time: the
  carrying loops end, and the result does not depend on how they are nested.
\<close>

theorem date_add_units:
  assumes "local_day t tz = Inr (day_number y m d)" and "date_valid y m d"
    and "\<bar>y\<bar> \<le> 2 ^ 27" and "units_small units"
  shows "CFAbsoluteTimeAddGregorianUnits t tz units = Some (Inr (local_time tz
      (86400 * of_int (shifted_day y m d units) + (t + gmt_offset tz t - 86400 * of_int (day_number y m d))) +
      3600 * of_int (gu_hours units) + 60 * of_int (gu_minutes units) + gu_seconds units))"
  by (rule AddGregorianUnits_correct [OF assms])

text \<open>31 January 2001 and one month is 28 February 2001.\<close>

lemma date_add_units_witness:
  "CFAbsoluteTimeAddGregorianUnits (86400 * 30 + 5) None
     \<lparr>gu_years = 0, gu_months = 1, gu_days = 0, gu_hours = 0, gu_minutes = 0, gu_seconds = 0\<rparr> = Some (Inr (86400 * 58 + 5))"
proof -
  have leap: "\<not> isleap 0" by (simp add: isleap_gregorian gregorian_leap_def)
  have day: "day_number 0 1 31 = 30" by (simp add: day_number_def year_start_def month_start_def daysBeforeMonth_def)
  have "local_day (86400 * 30 + 5) None = Inr 30"
  proof -
    have "\<lfloor>(86400 * 30 + 5) / 86400 :: real\<rfloor> = 30" by (simp add: floor_eq_iff)
    then show ?thesis by (simp add: local_day_def gmt_offset_def i64_def)
  qed
  moreover have "date_valid 0 1 31" by (simp add: date_valid_def month_days_def daysInMonth_def)
  moreover have "shifted_day 0 1 31 \<lparr>gu_years = 0, gu_months = 1, gu_days = 0, gu_hours = 0, gu_minutes = 0, gu_seconds = 0\<rparr> = 58"
    using leap by (simp add: shifted_day_def day_number_def year_start_def month_start_def daysBeforeMonth_def month_days_def daysInMonth_def)
  ultimately show ?thesis
    using date_add_units [of "86400 * 30 + 5" None 0 1 31
        "\<lparr>gu_years = 0, gu_months = 1, gu_days = 0, gu_hours = 0, gu_minutes = 0, gu_seconds = 0\<rparr>"]
    by (simp add: day units_small_def local_time_def gmt_offset_def)
qed

end
