(* ===== verification/CF_Data.thy ===== *)
theory CF_Data
  imports CF_Prelude
begin

text \<open>
  \<open>CFData.c\<close> without its search: blocks of bytes, immutable, mutable with a fixed capacity, or mutable and
  growing. The bytes of an object, inline or not, are a list of \<open>capacity\<close> bytes, \<open>None\<close> for a null
  pointer; one flag tells whether the bytes past the length may hold something other than zero. The
  source of a copy is memory of the caller or lies in the object's own bytes, at an offset from their
  start; an offset outside them that a growth leaves behind is a block of no bytes. The garbage-collected
  variants are not modelled.
\<close>

section \<open>State\<close>

type_synonym byte = "8 word"

datatype CFDataVariety = DataImmutable | DataFixedMutable | DataMutable

record CFData =
  dt_length :: nat
  dt_capacity :: nat
  dt_bytesDeallocator :: "ptr option"
  dt_bytes :: "byte list option"
  dt_variety :: CFDataVariety
  dt_inline :: bool
  dt_useAllocator :: bool
  dt_needsToZero :: bool

record data_env =
  de_create :: bool
  de_alloc :: "nat \<Rightarrow> (nat \<Rightarrow> byte) option"
  de_inline_threshold :: nat
  de_zero_fixed :: bool

datatype byte_source = Outside "byte list" | Within int

definition CFDATA_MAX_SIZE :: nat where "CFDATA_MAX_SIZE = 2 ^ 42 - 1"

definition CFDataRoundUpCapacity :: "nat \<Rightarrow> nat" where
  "CFDataRoundUpCapacity capacity =
     (if capacity < 16 then 16
      else if capacity < 2 ^ 20 then (let idx = flsl capacity in 2 ^ (idx + (if idx mod 2 = 0 then 0 else 1)))
      else if capacity < 2 ^ 32 then 2 ^ flsl capacity
      else min (2 ^ 29 * (1 + capacity div 2 ^ (flsl (2 ^ 29) - 1))) CFDATA_MAX_SIZE)"

section \<open>Moving bytes\<close>

text \<open>\<open>memmove\<close> inside the bytes and from a source into them; nothing is touched when there is nothing to move.\<close>

definition data_move :: "byte list option \<Rightarrow> int \<Rightarrow> int \<Rightarrow> int \<Rightarrow> byte list option cf" where
  "data_move bytes dst src n =
     (if n \<le> 0 then Inr bytes
      else case bytes of
             None \<Rightarrow> Inl NullPointer
           | Some bs \<Rightarrow> if dst < 0 \<or> src < 0 then Inl OutOfBounds
                        else ebind (move_within bs (nat dst) (nat src) (nat n)) (\<lambda>bs. Inr (Some bs)))"

definition data_read :: "byte list option \<Rightarrow> byte_source \<Rightarrow> nat \<Rightarrow> byte list cf" where
  "data_read bytes src n =
     (case src of
        Outside bs \<Rightarrow> slice bs 0 n
      | Within off \<Rightarrow>
          (case bytes of None \<Rightarrow> Inl NullPointer
           | Some bs \<Rightarrow> if off < 0 then Inl OutOfBounds else slice bs (nat off) n))"

definition data_store :: "byte list option \<Rightarrow> int \<Rightarrow> byte list \<Rightarrow> byte list option cf" where
  "data_store bytes dst src =
     (case bytes of
        None \<Rightarrow> Inl NullPointer
      | Some bs \<Rightarrow> if dst < 0 then Inl OutOfBounds else ebind (copy_into bs (nat dst) src) (\<lambda>bs. Inr (Some bs)))"

definition data_zero :: "byte list option \<Rightarrow> nat \<Rightarrow> nat \<Rightarrow> byte list option cf" where
  "data_zero bytes i n =
     (if n = 0 then Inr bytes
      else case bytes of None \<Rightarrow> Inl NullPointer | Some bs \<Rightarrow> ebind (fill bs i n 0) (\<lambda>bs. Inr (Some bs)))"

section \<open>Growing\<close>

definition CFDataShouldAllocateCleared :: "CFData \<Rightarrow> nat \<Rightarrow> bool" where
  "CFDataShouldAllocateCleared data sz \<longleftrightarrow> \<not> dt_useAllocator data \<and> 128 * 1024 < sz"

definition CFDataAllocate :: "data_env \<Rightarrow> CFData \<Rightarrow> nat \<Rightarrow> bool \<Rightarrow> byte list option" where
  "CFDataAllocate env data sz clear =
     map_option (\<lambda>junk. if clear then replicate sz 0 else map junk [0..<sz]) (de_alloc env sz)"

text \<open>The block \<open>calloc\<close> gives for a growth that is worth it, with the old bytes moved in.\<close>

definition grow_cleared :: "data_env \<Rightarrow> CFData \<Rightarrow> nat \<Rightarrow> nat \<Rightarrow> bool \<Rightarrow> byte list option cf" where
  "grow_cleared env data numBytes newLength allocateCleared =
     (let oldLength = dt_length data in
      if allocateCleared \<and> \<not> dt_useAllocator data \<and> (oldLength = 0 \<or> 4 < newLength div oldLength) then
        (case CFDataAllocate env data numBytes True of
           None \<Rightarrow> Inr None
         | Some bytes \<Rightarrow>
             if oldLength = 0 then Inr (Some bytes)
             else case dt_bytes data of
                    None \<Rightarrow> Inl NullPointer
                  | Some old \<Rightarrow> ebind (slice old 0 oldLength) (\<lambda>old. ebind (copy_into bytes 0 old) (\<lambda>bytes. Inr (Some bytes))))
      else Inr None)"

definition CFDataGrow :: "data_env \<Rightarrow> CFData \<Rightarrow> int \<Rightarrow> bool \<Rightarrow> CFData cf" where
  "CFDataGrow env data numNewValues clear =
     (let oldLength = dt_length data;
          newLen = int oldLength + numNewValues
      in if int CFDATA_MAX_SIZE < newLen \<or> newLen < 0 then Inl Halt
         else
           (let newLength = nat newLen;
                capacity = CFDataRoundUpCapacity newLength;
                allocateCleared = (clear \<and> CFDataShouldAllocateCleared data capacity)
            in ebind (grow_cleared env data capacity newLength allocateCleared) (\<lambda>new.
               ebind (case new of
                        Some bytes \<Rightarrow> Inr (bytes, allocateCleared)
                      | None \<Rightarrow>
                          (case de_alloc env capacity of
                             None \<Rightarrow> Inl Halt
                           | Some junk \<Rightarrow>
                               (let old = (case dt_bytes data of None \<Rightarrow> [] | Some bs \<Rightarrow> bs)
                                in Inr (take capacity old @ map junk [length old..<capacity], False)))) (\<lambda>(bytes, allocateCleared).
               ebind (if clear \<and> \<not> allocateCleared \<and> oldLength < newLength
                      then data_zero (Some bytes) oldLength (newLength - oldLength) else Inr (Some bytes)) (\<lambda>bytes.
               Inr (data\<lparr>dt_capacity := capacity, dt_needsToZero := \<not> allocateCleared, dt_bytes := bytes\<rparr>))))))"

section \<open>Changing the bytes\<close>

text \<open>The source a growing replacement reads: a copy when it overlaps the old bytes.\<close>

definition overlapping_source :: "data_env \<Rightarrow> CFData \<Rightarrow> byte_source \<Rightarrow> int \<Rightarrow> byte_source cf" where
  "overlapping_source env data newBytes newLength =
     (case newBytes of
        Within off \<Rightarrow>
          if dt_bytes data \<noteq> None \<and> off < int (dt_capacity data) \<and> 0 < off + newLength then
            (if de_alloc env (nat newLength) = None then Inl NullPointer
             else ebind (data_read (dt_bytes data) newBytes (nat newLength)) (\<lambda>copy. Inr (Outside copy)))
          else Inr (Outside [])
      | Outside _ \<Rightarrow> Inr newBytes)"

definition CFDataReplaceBytes :: "data_env \<Rightarrow> CFData \<Rightarrow> int \<Rightarrow> int \<Rightarrow> byte_source \<Rightarrow> int \<Rightarrow> CFData cf" where
  "CFDataReplaceBytes env data loc len newBytes newLength =
     (let oldLen = int (dt_length data) in
      if len < 0 \<or> newLength < 0 then Inl Halt
      else
        (let newCount = oldLen - len + newLength in
         if newCount < 0 then Inl Halt
         else
           ebind (case dt_variety data of
                    DataMutable \<Rightarrow>
                      if int (dt_capacity data) < newCount then
                        ebind (overlapping_source env data newBytes newLength) (\<lambda>src.
                        ebind (CFDataGrow env data (newLength - len) False) (\<lambda>data. Inr (data, src)))
                      else Inr (data, newBytes)
                  | DataFixedMutable \<Rightarrow> if int (dt_capacity data) < newCount then Inl Halt else Inr (data, newBytes)
                  | DataImmutable \<Rightarrow> Inr (data, newBytes)) (\<lambda>(data, src).
           ebind (if newLength \<noteq> len \<and> loc + len < oldLen
                  then data_move (dt_bytes data) (loc + newLength) (loc + len) (oldLen - loc - len)
                  else Inr (dt_bytes data)) (\<lambda>bytes.
           ebind (if 0 < newLength
                  then ebind (data_read bytes src (nat newLength)) (\<lambda>new. data_store bytes loc new)
                  else Inr bytes) (\<lambda>bytes.
           Inr (data\<lparr>dt_bytes := bytes, dt_length := nat newCount\<rparr>))))))"

definition CFDataAppendBytes :: "data_env \<Rightarrow> CFData \<Rightarrow> byte_source \<Rightarrow> int \<Rightarrow> CFData cf" where
  "CFDataAppendBytes env data bytes n = CFDataReplaceBytes env data (int (dt_length data)) 0 bytes n"

definition CFDataDeleteBytes :: "data_env \<Rightarrow> CFData \<Rightarrow> int \<Rightarrow> int \<Rightarrow> CFData cf" where
  "CFDataDeleteBytes env data loc len = CFDataReplaceBytes env data loc len (Outside []) 0"

definition CFDataSetLength :: "data_env \<Rightarrow> CFData \<Rightarrow> int \<Rightarrow> CFData cf" where
  "CFDataSetLength env data newLength =
     (let oldLength = dt_length data in
      ebind (if dt_variety data = DataImmutable then Inr data
             else if newLength < 0 then Inl Halt
             else if int (dt_capacity data) < newLength then
               (if dt_variety data = DataMutable then CFDataGrow env data (newLength - int oldLength) True else Inr data)
             else if int oldLength < newLength \<and> dt_needsToZero data then
               ebind (data_zero (dt_bytes data) oldLength (nat newLength - oldLength)) (\<lambda>bytes. Inr (data\<lparr>dt_bytes := bytes\<rparr>))
             else if newLength < int oldLength then Inr (data\<lparr>dt_needsToZero := True\<rparr>)
             else Inr data) (\<lambda>data.
      Inr (data\<lparr>dt_length := nat newLength\<rparr>)))"

definition CFDataIncreaseLength :: "data_env \<Rightarrow> CFData \<Rightarrow> int \<Rightarrow> CFData cf" where
  "CFDataIncreaseLength env data extraLength =
     (if extraLength < 0 then Inl Halt else CFDataSetLength env data (int (dt_length data) + extraLength))"

section \<open>Creation and reading\<close>

text \<open>
  \<open>bytes\<close> is the memory to copy \<open>length\<close> bytes from; \<open>deallocator\<close> is given when the object takes the
  caller's bytes over instead.
\<close>

definition CFDataInit ::
  "data_env \<Rightarrow> bool \<Rightarrow> CFDataVariety \<Rightarrow> nat \<Rightarrow> byte list \<Rightarrow> nat \<Rightarrow> ptr option \<Rightarrow> CFData option cf" where
  "CFDataInit env useAllocator variety capacity bytes len deallocator =
     (let noCopy = (deallocator \<noteq> None);
          isMutable = (variety \<noteq> DataImmutable);
          isGrowable = (variety = DataMutable);
          allocateInline = (\<not> isGrowable \<and> \<not> noCopy \<and> capacity < de_inline_threshold env)
      in if \<not> de_create env then Inr None
         else
           (let memory = \<lparr>dt_length = 0, dt_capacity = (if isGrowable then CFDataRoundUpCapacity 1 else capacity),
                  dt_bytesDeallocator = None, dt_bytes = None,
                  dt_variety = (if isGrowable then DataMutable else DataFixedMutable),
                  dt_inline = allocateInline, dt_useAllocator = useAllocator, dt_needsToZero = False\<rparr>
            in ebind (if noCopy then
                        Inr (Some (memory\<lparr>dt_bytes := Some bytes, dt_bytesDeallocator := deallocator, dt_length := len\<rparr>))
                      else
                        ebind (if \<not> allocateInline then
                                 (let cleared = (isMutable \<and> \<not> isGrowable \<and> de_zero_fixed env)
                                  in case CFDataAllocate env memory (dt_capacity memory) cleared of
                                       None \<Rightarrow> Inr None
                                     | Some bs \<Rightarrow> Inr (Some (memory\<lparr>dt_bytes := Some bs, dt_needsToZero := \<not> cleared\<rparr>)))
                               else if len = 0 \<and> \<not> isMutable
                               then Inr (Some (memory\<lparr>dt_bytes := None, dt_inline := False\<rparr>))
                               else Inr (Some (memory\<lparr>dt_bytes := Some (replicate capacity 0)\<rparr>))) (\<lambda>r.
                        case r of
                          None \<Rightarrow> Inr None
                        | Some memory \<Rightarrow>
                            ebind (CFDataReplaceBytes env memory 0 0 (Outside bytes) (int len)) (\<lambda>memory. Inr (Some memory)))) (\<lambda>r.
               Inr (map_option (\<lambda>memory. memory\<lparr>dt_variety := variety\<rparr>) r))))"

definition CFDataCreate :: "data_env \<Rightarrow> bool \<Rightarrow> byte list \<Rightarrow> nat \<Rightarrow> CFData option cf" where
  "CFDataCreate env useAllocator bytes len = CFDataInit env useAllocator DataImmutable len bytes len None"

definition CFDataCreateWithBytesNoCopy :: "data_env \<Rightarrow> bool \<Rightarrow> byte list \<Rightarrow> nat \<Rightarrow> ptr \<Rightarrow> CFData option cf" where
  "CFDataCreateWithBytesNoCopy env useAllocator bytes len deallocator =
     CFDataInit env useAllocator DataImmutable len bytes len (Some deallocator)"

definition CFDataGetLength :: "CFData \<Rightarrow> nat" where "CFDataGetLength data = dt_length data"

definition data_memory :: "CFData \<Rightarrow> byte list" where
  "data_memory data = (case dt_bytes data of None \<Rightarrow> [] | Some bs \<Rightarrow> bs)"

definition CFDataCreateCopy :: "data_env \<Rightarrow> bool \<Rightarrow> CFData \<Rightarrow> CFData option cf" where
  "CFDataCreateCopy env useAllocator data =
     CFDataInit env useAllocator DataImmutable (CFDataGetLength data) (data_memory data) (CFDataGetLength data) None"

definition CFDataCreateMutable :: "data_env \<Rightarrow> bool \<Rightarrow> nat \<Rightarrow> CFData option cf" where
  "CFDataCreateMutable env useAllocator capacity =
     CFDataInit env useAllocator (if capacity = 0 then DataMutable else DataFixedMutable) capacity [] 0 None"

definition CFDataCreateMutableCopy :: "data_env \<Rightarrow> bool \<Rightarrow> nat \<Rightarrow> CFData \<Rightarrow> CFData option cf" where
  "CFDataCreateMutableCopy env useAllocator capacity data =
     CFDataInit env useAllocator (if capacity = 0 then DataMutable else DataFixedMutable) capacity
       (data_memory data) (CFDataGetLength data) None"

definition CFDataGetBytes :: "CFData \<Rightarrow> nat \<Rightarrow> nat \<Rightarrow> byte list \<Rightarrow> byte list cf" where
  "CFDataGetBytes data loc len buffer =
     ebind (slice (data_memory data) loc len) (\<lambda>bs. copy_into buffer 0 bs)"

definition CFDataEqual :: "CFData \<Rightarrow> CFData \<Rightarrow> bool cf" where
  "CFDataEqual data1 data2 =
     (if dt_length data1 \<noteq> dt_length data2 then Inr False
      else ebind (slice (data_memory data1) 0 (dt_length data1)) (\<lambda>b1.
           ebind (slice (data_memory data2) 0 (dt_length data1)) (\<lambda>b2. Inr (b1 = b2))))"

text \<open>What becomes of the bytes when the object dies.\<close>

datatype data_free = FreedByDeallocator ptr | FreedByAllocator | FreedByFree | NotFreed

definition CFDataDeallocate :: "CFData \<Rightarrow> CFData \<times> data_free" where
  "CFDataDeallocate data =
     (if dt_inline data then (data, NotFreed)
      else (data\<lparr>dt_bytes := None\<rparr>,
        case dt_bytesDeallocator data of
          Some deallocator \<Rightarrow> FreedByDeallocator deallocator
        | None \<Rightarrow> if dt_useAllocator data then FreedByAllocator
                  else if dt_bytes data \<noteq> None then FreedByFree else NotFreed))"

section \<open>Contents and invariant\<close>

definition data_content :: "CFData \<Rightarrow> byte list" where
  "data_content data = take (dt_length data) (data_memory data)"

definition data_wf :: "CFData \<Rightarrow> bool" where
  "data_wf data \<longleftrightarrow> length (data_memory data) = dt_capacity data \<and> dt_length data \<le> dt_capacity data \<and>
     (dt_bytes data = None \<longrightarrow> dt_variety data = DataImmutable)"

text \<open>The promise the flag makes: bytes past the length that are not known to be zero are flagged.\<close>

definition data_tail_zero :: "CFData \<Rightarrow> bool" where
  "data_tail_zero data \<longleftrightarrow> dt_needsToZero data \<or> set (drop (dt_length data) (data_memory data)) \<subseteq> {0}"

definition splice_bytes :: "'a list \<Rightarrow> nat \<Rightarrow> nat \<Rightarrow> 'a list \<Rightarrow> 'a list" where
  "splice_bytes xs loc len new = take loc xs @ new @ drop (loc + len) xs"

text \<open>Whether an object can come to hold \<open>n\<close> bytes.\<close>

definition data_room :: "data_env \<Rightarrow> CFData \<Rightarrow> nat \<Rightarrow> bool" where
  "data_room env data n \<longleftrightarrow>
     n \<le> dt_capacity data \<or>
     dt_variety data = DataMutable \<and> n \<le> CFDATA_MAX_SIZE \<and> de_alloc env (CFDataRoundUpCapacity n) \<noteq> None"

lemma data_wf_Some: "data_wf data \<Longrightarrow> dt_variety data \<noteq> DataImmutable \<Longrightarrow> \<exists>bs. dt_bytes data = Some bs \<and> length bs = dt_capacity data"
  by (auto simp: data_wf_def data_memory_def)

lemma length_data_content: "data_wf data \<Longrightarrow> length (data_content data) = dt_length data"
  by (simp add: data_wf_def data_content_def)

lemma power_2_odd_step: "n < 2 ^ k \<Longrightarrow> n < 2 ^ (k + (if k mod 2 = 0 then 0 else 1))" for n :: nat
  by auto

lemma DataRoundUpCapacity_bounds:
  assumes "n \<le> CFDATA_MAX_SIZE"
  shows "n \<le> CFDataRoundUpCapacity n" and "CFDataRoundUpCapacity n \<le> CFDATA_MAX_SIZE"
proof -
  have upper: "n < 2 ^ flsl n" by (rule flsl_upper)
  have small: "flsl n \<le> 20" if "n < 2 ^ 20" using flsl_le [OF that] .
  have mid: "flsl n \<le> 32" if "n < 2 ^ 32" using flsl_le [OF that] .
  have pow: "(2::nat) ^ i \<le> 2 ^ 32" if "i \<le> 32" for i by (rule power_increasing) (use that in simp_all)
  have chunk: "flsl (2 ^ 29) = 30" by (simp add: flsl.simps)
  have "n div 2 ^ 29 * 2 ^ 29 + n mod 2 ^ 29 = n" "n mod 2 ^ 29 < 2 ^ 29" by simp_all
  then have big: "n \<le> 2 ^ 29 * (1 + n div 2 ^ 29)" by (simp add: algebra_simps)
  show "n \<le> CFDataRoundUpCapacity n"
    using upper power_2_odd_step [OF upper] big assms
    by (auto simp: CFDataRoundUpCapacity_def Let_def chunk simp del: power_numeral intro: less_imp_le)
  have "2 ^ (flsl n + (if flsl n mod 2 = 0 then 0 else 1)) \<le> (2 ^ 32 :: nat)" if "n < 2 ^ 20"
    using small [OF that] by (intro pow) simp
  then show "CFDataRoundUpCapacity n \<le> CFDATA_MAX_SIZE"
    using pow [OF mid] by (force simp: CFDataRoundUpCapacity_def CFDATA_MAX_SIZE_def Let_def)
qed

lemma set_replicate_subset: "set (replicate n x) \<subseteq> {x}"
  by auto

lemma length_copy_into: "copy_into bs dst src = Inr bs' \<Longrightarrow> length bs' = length bs"
  by (auto simp: copy_into_def split: if_splits)

lemma DataGrow_correct:
  assumes wf: "data_wf data" and bs: "dt_bytes data = Some bs"
    and new: "int (dt_length data) + n = int newLength" and more: "dt_capacity data < newLength"
    and room: "newLength \<le> CFDATA_MAX_SIZE" "de_alloc env (CFDataRoundUpCapacity newLength) \<noteq> None"
  shows "\<exists>data' bs'. CFDataGrow env data n clear = Inr data' \<and> dt_bytes data' = Some bs' \<and>
    length bs' = CFDataRoundUpCapacity newLength \<and> dt_capacity data' = CFDataRoundUpCapacity newLength \<and>
    take (dt_length data) bs' = data_content data \<and>
    (clear \<longrightarrow> take newLength bs' = data_content data @ replicate (newLength - dt_length data) 0) \<and>
    (dt_needsToZero data' \<or> set (drop (dt_length data) bs') \<subseteq> {0}) \<and>
    data' = data\<lparr>dt_capacity := dt_capacity data', dt_needsToZero := dt_needsToZero data', dt_bytes := dt_bytes data'\<rparr>"
proof -
  let ?cap = "CFDataRoundUpCapacity newLength"
  have old: "length bs = dt_capacity data" "dt_length data \<le> dt_capacity data"
    using wf bs by (auto simp: data_wf_def data_memory_def)
  have cap: "newLength \<le> ?cap" using DataRoundUpCapacity_bounds(1) [OF room(1)] .
  from room(2) obtain junk where junk: "de_alloc env ?cap = Some junk" by blast
  have content: "data_content data = take (dt_length data) bs"
    using bs by (simp add: data_content_def data_memory_def)
  have sl: "slice bs 0 (dt_length data) = Inr (data_content data)"
    using old by (simp add: slice_def content)
  have len: "length (data_content data) = dt_length data" using old by (simp add: content)
  let ?clear = "clear \<and> CFDataShouldAllocateCleared data ?cap"
  let ?zeros = "data_content data @ replicate (?cap - dt_length data) 0"
  have fresh: "CFDataAllocate env data ?cap True = Some (replicate ?cap 0)"
    using junk by (simp add: CFDataAllocate_def)
  have new1: "grow_cleared env data ?cap newLength ?clear = Inr (Some ?zeros) \<and> ?clear \<or>
      grow_cleared env data ?cap newLength ?clear = Inr None"
    using old cap more len
    by (auto simp: grow_cleared_def Let_def fresh bs sl copy_into_def content)
  let ?moved = "bs @ map junk [length bs..<?cap]"
  let ?cleared = "data_content data @ replicate (newLength - dt_length data) 0 @ drop newLength ?moved"
  have zero: "data_zero (Some ?moved) (dt_length data) (newLength - dt_length data) = Inr (Some ?cleared)"
    using old cap more by (simp add: data_zero_def fill_def copy_into_def content)
  let ?result = "\<lambda>b c. data\<lparr>dt_capacity := ?cap, dt_needsToZero := \<not> c, dt_bytes := Some b\<rparr>"
  have "CFDataGrow env data n clear = Inr (?result ?zeros True) \<or>
      CFDataGrow env data n clear = Inr (?result (if clear then ?cleared else ?moved) False)"
    using new1
  proof (elim disjE conjE)
    assume "grow_cleared env data ?cap newLength ?clear = Inr (Some ?zeros)" "clear" "CFDataShouldAllocateCleared data ?cap"
    then show ?thesis using room(1) new by (simp add: CFDataGrow_def Let_def)
  next
    assume "grow_cleared env data ?cap newLength ?clear = Inr None"
    then show ?thesis using room(1) new junk bs zero old cap more
      by (simp add: CFDataGrow_def Let_def)
  qed
  moreover have "take newLength ?zeros = data_content data @ replicate (newLength - dt_length data) 0"
    "take newLength ?cleared = data_content data @ replicate (newLength - dt_length data) 0"
    "take (dt_length data) ?zeros = data_content data" "take (dt_length data) ?cleared = data_content data"
    "take (dt_length data) ?moved = data_content data"
    "drop (dt_length data) ?zeros = replicate (?cap - dt_length data) 0"
    "length ?zeros = ?cap" "length ?cleared = ?cap" "length ?moved = ?cap"
    using old cap more len by (simp_all add: content)
  ultimately show ?thesis
    by (elim disjE) (simp_all add: set_replicate_subset del: length_append take_append drop_append append_assoc)
qed

text \<open>The bytes once the tail of a replacement has been moved to its new place.\<close>

definition moved_tail :: "byte list \<Rightarrow> nat \<Rightarrow> nat \<Rightarrow> nat \<Rightarrow> nat \<Rightarrow> byte list" where
  "moved_tail bs loc len n oldLen =
     (if n \<noteq> len \<and> loc + len < oldLen
      then take (loc + n) bs @ take (oldLen - loc - len) (drop (loc + len) bs) @ drop (oldLen - len + n) bs
      else bs)"

lemma length_moved_tail:
  "oldLen - len + n \<le> length bs \<Longrightarrow> loc + len \<le> oldLen \<Longrightarrow> oldLen \<le> length bs \<Longrightarrow>
   length (moved_tail bs loc len n oldLen) = length bs"
  by (auto simp: moved_tail_def)

lemma move_tail_step:
  assumes "loc + len \<le> oldLen" "oldLen \<le> length bs" "oldLen - len + n \<le> length bs"
  shows "(if int n \<noteq> int len \<and> int loc + int len < int oldLen
      then data_move (Some bs) (int loc + int n) (int loc + int len) (int oldLen - int loc - int len)
      else Inr (Some bs)) = Inr (Some (moved_tail bs loc len n oldLen))"
proof -
  have "nat (int loc + int n) = loc + n" "nat (int loc + int len) = loc + len"
    "nat (int oldLen - int loc - int len) = oldLen - loc - len" by auto
  then show ?thesis
    using assms by (auto simp: data_move_def moved_tail_def move_within_def slice_def copy_into_def add.commute)
qed

lemma split_three: "bs = take i bs @ take r (drop i bs) @ drop (r + i) bs"
  by (metis append_take_drop_id drop_drop)

lemma splice_moved_tail:
  assumes "loc + len \<le> oldLen" "oldLen \<le> length bs" "oldLen - len + n \<le> length bs" "length new = n"
  shows "take (oldLen - len + n) (take loc (moved_tail bs loc len n oldLen) @ new @
       drop (loc + n) (moved_tail bs loc len n oldLen)) = splice_bytes (take oldLen bs) loc len new"
    (is ?content)
    and "drop (oldLen - len + n) (take loc (moved_tail bs loc len n oldLen) @ new @
       drop (loc + n) (moved_tail bs loc len n oldLen)) = drop (oldLen - len + n) bs"
    (is ?rest)
proof -
  obtain r where r: "oldLen = loc + len + r" using assms(1) le_Suc_ex by blast
  have e: "loc + len + r - len + n = loc + n + r" "loc + len + r - loc - len = r" by simp_all
  have moved: "moved_tail bs loc len n (loc + len + r) =
      take (loc + n) bs @ take r (drop (loc + len) bs) @ drop (loc + n + r) bs"
    using assms(2,3) unfolding r e
    using split_three [of bs "loc + len" r] by (cases "n = len") (auto simp: moved_tail_def e add_ac)
  have room: "loc + n + r \<le> length bs" "loc + len + r \<le> length bs" using assms(2,3) unfolding r e by simp_all
  then have len: "length (take loc bs) = loc" "length (take (loc + n) bs) = loc + n" "length (take r (drop (loc + len) bs)) = r"
    by simp_all
  have parts: "take loc (take (loc + n) bs @ xs) = take loc bs" "drop (loc + n) (take (loc + n) bs @ xs) = xs" for xs
    using room by simp_all
  show ?content ?rest
    unfolding r e moved parts splice_bytes_def using len assms(4) room by (simp_all add: drop_take)
qed

lemma data_store_append: 
  "loc + length new \<le> length bs \<Longrightarrow> data_store (Some bs) (int loc) new = Inr (Some (take loc bs @ new @ drop (loc + length new) bs))"
  by (simp add: data_store_def copy_into_def)

text \<open>The part of a replacement after the room for it has been found.\<close>

lemma replace_in_place:
  assumes "loc + len \<le> oldLen" "oldLen \<le> length bs" "oldLen - len + n \<le> length bs"
    and src: "0 < n \<Longrightarrow> data_read (Some (moved_tail bs loc len n oldLen)) src n = Inr new"
    and new: "length new = n"
  shows "\<exists>bs'. ebind (if int n \<noteq> int len \<and> int loc + int len < int oldLen
        then data_move (Some bs) (int loc + int n) (int loc + int len) (int oldLen - int loc - int len)
        else Inr (Some bs)) (\<lambda>bytes.
      ebind (if 0 < int n then ebind (data_read bytes src (nat (int n))) (\<lambda>new. data_store bytes (int loc) new)
        else Inr bytes) Inr) = Inr (Some bs') \<and>
      length bs' = length bs \<and> take (oldLen - len + n) bs' = splice_bytes (take oldLen bs) loc len new \<and>
      drop (oldLen - len + n) bs' = drop (oldLen - len + n) bs"
proof -
  let ?m = "moved_tail bs loc len n oldLen"
  let ?r = "take loc ?m @ new @ drop (loc + n) ?m"
  have len: "length ?m = length bs" using assms by (simp add: length_moved_tail)
  have room: "loc + n \<le> length ?m" using assms(1,3) len by simp
  have "(if 0 < int n then ebind (data_read (Some ?m) src (nat (int n))) (\<lambda>new. data_store (Some ?m) (int loc) new)
        else Inr (Some ?m)) = Inr (Some ?r)"
    using src new room by (cases "n = 0") (auto simp: data_store_append)
  moreover have "length ?r = length bs" using room len new by simp
  ultimately show ?thesis
    unfolding move_tail_step [OF assms(1-3)] using splice_moved_tail [OF assms(1-3) new] by simp
qed

lemma data_read_outside: "n \<le> length bs \<Longrightarrow> data_read b (Outside bs) n = Inr (take n bs)"
  by (simp add: data_read_def slice_def)

lemma DataReplaceBytes_room:
  assumes wf: "data_wf data" and var: "dt_variety data \<noteq> DataImmutable"
    and range: "loc + len \<le> dt_length data" and room: "dt_length data - len + n \<le> dt_capacity data"
    and src: "\<And>bs. dt_bytes data = Some bs \<Longrightarrow> 0 < n \<Longrightarrow>
      data_read (Some (moved_tail bs loc len n (dt_length data))) src n = Inr new"
    and new: "length new = n"
  shows "\<exists>bs'. CFDataReplaceBytes env data (int loc) (int len) src (int n) =
      Inr (data\<lparr>dt_bytes := Some bs', dt_length := dt_length data - len + n\<rparr>) \<and>
    length bs' = dt_capacity data \<and>
    take (dt_length data - len + n) bs' = splice_bytes (data_content data) loc len new \<and>
    drop (dt_length data - len + n) bs' = drop (dt_length data - len + n) (data_memory data)"
proof -
  obtain bs where bs: "dt_bytes data = Some bs" "length bs = dt_capacity data"
    using data_wf_Some [OF wf var] by blast
  have "dt_length data \<le> length bs" using wf bs(2) by (simp add: data_wf_def)
  then obtain bs' where
    *: "ebind (if int n \<noteq> int len \<and> int loc + int len < int (dt_length data)
        then data_move (Some bs) (int loc + int n) (int loc + int len) (int (dt_length data) - int loc - int len)
        else Inr (Some bs)) (\<lambda>bytes.
      ebind (if 0 < int n then ebind (data_read bytes src (nat (int n))) (\<lambda>new. data_store bytes (int loc) new)
        else Inr bytes) Inr) = Inr (Some bs')"
    and **: "length bs' = length bs" 
      "take (dt_length data - len + n) bs' = splice_bytes (take (dt_length data) bs) loc len new"
      "drop (dt_length data - len + n) bs' = drop (dt_length data - len + n) bs"
    using replace_in_place [of loc len "dt_length data" bs n src new] range room src new bs by auto
  obtain m where m: "dt_length data - len + n = m" by blast
  have count: "int (dt_length data) - int len + int n = int m"
    using range m by simp
  have "CFDataReplaceBytes env data (int loc) (int len) src (int n) =
      ebind (Inr (Some bs')) (\<lambda>bytes. Inr (data\<lparr>dt_bytes := bytes, dt_length := m\<rparr>))"
    unfolding * [symmetric] CFDataReplaceBytes_def Let_def count using var room [unfolded m] bs(1)
    by (cases "dt_variety data") simp_all
  then show ?thesis using ** bs m by (auto simp: data_content_def data_memory_def)
qed

lemma DataGrow_wf:
  assumes "data_wf data" and "dt_variety data = DataMutable"
    and new: "int (dt_length data) + n = int newLength" and more: "dt_capacity data < newLength"
    and room: "newLength \<le> CFDATA_MAX_SIZE" "de_alloc env (CFDataRoundUpCapacity newLength) \<noteq> None"
  shows "\<exists>data'. CFDataGrow env data n clear = Inr data' \<and> data_wf data' \<and> data_tail_zero data' \<and>
    newLength \<le> dt_capacity data' \<and> data_content data' = data_content data \<and>
    (clear \<longrightarrow> take newLength (data_memory data') = data_content data @ replicate (newLength - dt_length data) 0) \<and>
    dt_length data' = dt_length data \<and> dt_variety data' = DataMutable"
proof -
  obtain bs where bs: "dt_bytes data = Some bs"
    using data_wf_Some [OF assms(1)] assms(2) by auto
  from DataGrow_correct [OF assms(1) bs new more room, of clear]
  obtain data' bs' where d: "CFDataGrow env data n clear = Inr data'" "dt_bytes data' = Some bs'"
    "length bs' = CFDataRoundUpCapacity newLength" "dt_capacity data' = CFDataRoundUpCapacity newLength"
    "take (dt_length data) bs' = data_content data"
    "clear \<longrightarrow> take newLength bs' = data_content data @ replicate (newLength - dt_length data) 0"
    "dt_needsToZero data' \<or> set (drop (dt_length data) bs') \<subseteq> {0}"
    and eq: "data' = data\<lparr>dt_capacity := dt_capacity data', dt_needsToZero := dt_needsToZero data', dt_bytes := dt_bytes data'\<rparr>"
    by blast
  have same: "dt_length data' = dt_length data" "dt_variety data' = DataMutable"
    by (subst eq, simp add: assms(2))+
  have "dt_length data \<le> dt_capacity data" using assms(1) by (simp add: data_wf_def)
  then show ?thesis
    using d same more DataRoundUpCapacity_bounds(1) [OF room(1)]
    by (simp add: data_wf_def data_tail_zero_def data_memory_def data_content_def)
qed

lemma DataGrow_fails:
  assumes "dt_bytes data \<noteq> None" "int (dt_length data) + n = int newLength"
    and "\<not> (newLength \<le> CFDATA_MAX_SIZE \<and> de_alloc env (CFDataRoundUpCapacity newLength) \<noteq> None)"
  shows "CFDataGrow env data n clear = Inl Halt"
  using assms by (auto simp: CFDataGrow_def Let_def grow_cleared_def CFDataAllocate_def)

text \<open>The source a growing replacement reads from: a source in the old bytes is copied first.\<close>

definition copied_source :: "CFData \<Rightarrow> byte_source \<Rightarrow> nat \<Rightarrow> byte list" where
  "copied_source data src n =
     (case src of Outside bs \<Rightarrow> bs | Within off \<Rightarrow> take n (drop (nat off) (data_memory data)))"

definition source_in_range :: "data_env \<Rightarrow> CFData \<Rightarrow> byte_source \<Rightarrow> nat \<Rightarrow> bool" where
  "source_in_range env data src n \<longleftrightarrow>
     (case src of Outside bs \<Rightarrow> n \<le> length bs
      | Within off \<Rightarrow> 0 \<le> off \<and> nat off + n \<le> dt_capacity data \<and> 0 < n \<and> de_alloc env n \<noteq> None)"

lemma overlapping_source_correct:
  "dt_bytes data = Some bs \<Longrightarrow> length bs = dt_capacity data \<Longrightarrow> source_in_range env data src n \<Longrightarrow>
   overlapping_source env data src (int n) = Inr (Outside (copied_source data src n))"
  by (cases src) (auto simp: overlapping_source_def source_in_range_def copied_source_def data_memory_def
        data_read_def slice_def)

lemma DataReplaceBytes_growing:
  assumes wf: "data_wf data" and var: "dt_variety data = DataMutable" and range: "loc + len \<le> dt_length data"
    and more: "dt_capacity data < dt_length data - len + n" and src: "source_in_range env data src n"
  shows "CFDataGrow env data (int n - int len) False = Inl e \<Longrightarrow>
      CFDataReplaceBytes env data (int loc) (int len) src (int n) = Inl e"
    and "CFDataGrow env data (int n - int len) False = Inr data' \<Longrightarrow> dt_variety data' = DataMutable \<Longrightarrow>
      dt_length data' = dt_length data \<Longrightarrow> dt_length data - len + n \<le> dt_capacity data' \<Longrightarrow>
      CFDataReplaceBytes env data (int loc) (int len) src (int n) =
      CFDataReplaceBytes env data' (int loc) (int len) (Outside (copied_source data src n)) (int n)"
proof -
  obtain bs where bs: "dt_bytes data = Some bs" "length bs = dt_capacity data"
    using data_wf_Some [OF wf] var by auto
  obtain m where m: "dt_length data - len + n = m" by blast
  have count: "int (dt_length data) - int len + int n = int m"
    using range m by simp
  note defs = CFDataReplaceBytes_def Let_def
  show "CFDataReplaceBytes env data (int loc) (int len) src (int n) = Inl e"
    if "CFDataGrow env data (int n - int len) False = Inl e"
    using that more var overlapping_source_correct [OF bs src] unfolding defs count m by simp
  show "CFDataReplaceBytes env data (int loc) (int len) src (int n) =
      CFDataReplaceBytes env data' (int loc) (int len) (Outside (copied_source data src n)) (int n)"
    if "CFDataGrow env data (int n - int len) False = Inr data'" "dt_variety data' = DataMutable"
      "dt_length data' = dt_length data" "dt_length data - len + n \<le> dt_capacity data'"
    using that more var overlapping_source_correct [OF bs src] unfolding defs that(3) count m by simp
qed

section \<open>What the operations do to the contents\<close>

lemma DataReplaceBytes_keeps:
  assumes wf: "data_wf data" and var: "dt_variety data \<noteq> DataImmutable"
    and range: "loc + len \<le> dt_length data" and room: "dt_length data - len + n \<le> dt_capacity data"
    and src: "\<And>bs. dt_bytes data = Some bs \<Longrightarrow> 0 < n \<Longrightarrow>
      data_read (Some (moved_tail bs loc len n (dt_length data))) src n = Inr new"
    and new: "length new = n"
  shows "\<exists>data'. CFDataReplaceBytes env data (int loc) (int len) src (int n) = Inr data' \<and> data_wf data' \<and>
    data_content data' = splice_bytes (data_content data) loc len new \<and> dt_variety data' = dt_variety data"
proof -
  obtain bs' where "CFDataReplaceBytes env data (int loc) (int len) src (int n) =
      Inr (data\<lparr>dt_bytes := Some bs', dt_length := dt_length data - len + n\<rparr>)"
    "length bs' = dt_capacity data"
    "take (dt_length data - len + n) bs' = splice_bytes (data_content data) loc len new"
    using DataReplaceBytes_room [OF assms] by blast
  then show ?thesis using var room by (simp add: data_wf_def data_memory_def data_content_def)
qed

lemma DataReplaceBytes_grows:
  assumes wf: "data_wf data" and var: "dt_variety data = DataMutable"
    and range: "loc + len \<le> dt_length data" and more: "dt_capacity data < dt_length data - len + n"
    and src: "source_in_range env data src n"
    and fits: "dt_length data - len + n \<le> CFDATA_MAX_SIZE" "de_alloc env (CFDataRoundUpCapacity (dt_length data - len + n)) \<noteq> None"
  shows "\<exists>data'. CFDataReplaceBytes env data (int loc) (int len) src (int n) = Inr data' \<and> data_wf data' \<and>
    data_content data' = splice_bytes (data_content data) loc len (take n (copied_source data src n)) \<and>
    dt_variety data' = dt_variety data"
proof -
  have new: "int (dt_length data) + (int n - int len) = int (dt_length data - len + n)" using range by simp
  have source: "n \<le> length (copied_source data src n)"
    using src wf by (cases src) (auto simp: source_in_range_def copied_source_def data_wf_def)
  obtain data' where g: "CFDataGrow env data (int n - int len) False = Inr data'" "data_wf data'"
    "dt_length data - len + n \<le> dt_capacity data'" "data_content data' = data_content data"
    "dt_length data' = dt_length data" "dt_variety data' = DataMutable"
    using DataGrow_wf [OF wf var new more fits, of False] by blast
  have "\<exists>data''. CFDataReplaceBytes env data' (int loc) (int len) (Outside (copied_source data src n)) (int n) = Inr data'' \<and>
      data_wf data'' \<and> data_content data'' = splice_bytes (data_content data') loc len (take n (copied_source data src n)) \<and>
      dt_variety data'' = dt_variety data'"
    using g range source by (intro DataReplaceBytes_keeps) (auto simp: data_read_outside)
  then show ?thesis
    using DataReplaceBytes_growing(2) [OF wf var range more src g(1,6,5,3)] g(4,6) var by simp
qed

lemma DataReplaceBytes_no_room:
  assumes wf: "data_wf data" and var: "dt_variety data \<noteq> DataImmutable"
    and range: "loc + len \<le> dt_length data" and src: "source_in_range env data src n"
    and no: "\<not> data_room env data (dt_length data - len + n)"
  shows "CFDataReplaceBytes env data (int loc) (int len) src (int n) = Inl Halt"
proof -
  obtain bs where bs: "dt_bytes data = Some bs" using data_wf_Some [OF wf var] by blast
  have new: "int (dt_length data) + (int n - int len) = int (dt_length data - len + n)" using range by simp
  have more: "dt_capacity data < dt_length data - len + n" using no by (simp add: data_room_def)
  show ?thesis
  proof (cases "dt_variety data = DataMutable")
    case True
    have "CFDataGrow env data (int n - int len) False = Inl Halt"
      using no True bs by (intro DataGrow_fails [OF _ new]) (auto simp: data_room_def)
    then show ?thesis by (rule DataReplaceBytes_growing(1) [OF wf True range more src])
  next
    case False
    then have "dt_variety data = DataFixedMutable" using var by (cases "dt_variety data") simp_all
    moreover obtain m where m: "dt_length data - len + n = m" by blast
    then have "int (dt_length data) - int len + int n = int m" using range by simp
    ultimately show ?thesis using more m unfolding CFDataReplaceBytes_def Let_def by simp
  qed
qed

lemma DataReplaceBytes_correct:
  assumes "data_wf data" "dt_variety data \<noteq> DataImmutable" "loc + len \<le> dt_length data" "n \<le> length bytes"
  shows "if data_room env data (dt_length data - len + n)
     then \<exists>data'. CFDataReplaceBytes env data (int loc) (int len) (Outside bytes) (int n) = Inr data' \<and> data_wf data' \<and>
       data_content data' = splice_bytes (data_content data) loc len (take n bytes) \<and> dt_variety data' = dt_variety data
     else CFDataReplaceBytes env data (int loc) (int len) (Outside bytes) (int n) = Inl Halt"
proof -
  have src: "source_in_range env data (Outside bytes) n" using assms(4) by (simp add: source_in_range_def)
  show ?thesis
  proof (cases "dt_length data - len + n \<le> dt_capacity data")
    case True
    then show ?thesis
      using DataReplaceBytes_keeps [OF assms(1-3) True, of "Outside bytes" "take n bytes" env] assms(4)
      by (simp add: data_room_def data_read_outside)
  next
    case False
    then show ?thesis
      using DataReplaceBytes_grows [OF assms(1) _ assms(3) _ src] DataReplaceBytes_no_room [OF assms(1-3) src]
      by (auto simp: data_room_def copied_source_def)
  qed
qed

lemma data_tail_zero_longer:
  "data_tail_zero data \<Longrightarrow> dt_length data \<le> n \<Longrightarrow> data_tail_zero (data\<lparr>dt_length := n\<rparr>)"
  using set_drop_subset_set_drop [of "dt_length data" n "data_memory data"]
  by (auto simp: data_tail_zero_def data_memory_def)

lemma zero_list: "set xs \<subseteq> {x} \<Longrightarrow> n = length xs \<Longrightarrow> xs = replicate n x"
  by (induction xs arbitrary: n) auto

lemma DataSetLength_within:
  assumes wf: "data_wf data" and var: "dt_variety data \<noteq> DataImmutable" and zero: "data_tail_zero data"
    and room: "n \<le> dt_capacity data"
  shows "\<exists>data'. CFDataSetLength env data (int n) = Inr data' \<and> data_wf data' \<and> data_tail_zero data' \<and>
    data_content data' = take n (data_content data) @ replicate (n - dt_length data) 0 \<and> dt_variety data' = dt_variety data"
proof -
  obtain bs where bs: "dt_bytes data = Some bs" "length bs = dt_capacity data"
    using data_wf_Some [OF wf var] by blast
  have len: "dt_length data \<le> dt_capacity data" using wf by (simp add: data_wf_def)
  consider "n < dt_length data" | "n = dt_length data" | "dt_length data < n" "dt_needsToZero data"
    | "dt_length data < n" "\<not> dt_needsToZero data" by linarith
  then show ?thesis
  proof cases
    case 1
    then show ?thesis using room len bs var
      by (simp add: CFDataSetLength_def data_wf_def data_content_def data_memory_def data_tail_zero_def min_def)
  next
    case 2
    then show ?thesis using room len bs var wf zero
      by (simp add: CFDataSetLength_def data_wf_def data_content_def data_memory_def data_tail_zero_def)
  next
    case 3
    have "data_zero (dt_bytes data) (dt_length data) (n - dt_length data) =
        Inr (Some (take (dt_length data) bs @ replicate (n - dt_length data) 0 @ drop n bs))"
      using 3 room bs by (simp add: data_zero_def fill_def copy_into_def)
    then show ?thesis using 3 room len bs var
      by (simp add: CFDataSetLength_def Let_def data_wf_def data_content_def data_memory_def data_tail_zero_def min_def)
  next
    case 4
    have "set (drop (dt_length data) bs) \<subseteq> {0}" using 4 zero bs by (simp add: data_tail_zero_def data_memory_def)
    then have "take (n - dt_length data) (drop (dt_length data) bs) = replicate (n - dt_length data) 0"
      using set_take_subset [of "n - dt_length data" "drop (dt_length data) bs"] bs(2) room
      by (intro zero_list) auto
    moreover have "take n bs = take (dt_length data) bs @ take (n - dt_length data) (drop (dt_length data) bs)"
      using 4(1) by (simp flip: take_add)
    ultimately show ?thesis using 4 room len bs var wf zero data_tail_zero_longer [of data n]
      by (simp add: CFDataSetLength_def data_wf_def data_content_def data_memory_def)
  qed
qed

lemma DataSetLength_correct:
  assumes wf: "data_wf data" and var: "dt_variety data \<noteq> DataImmutable" and zero: "data_tail_zero data"
  shows "if data_room env data n
    then \<exists>data'. CFDataSetLength env data (int n) = Inr data' \<and> data_wf data' \<and> data_tail_zero data' \<and>
      data_content data' = take n (data_content data) @ replicate (n - dt_length data) 0 \<and> dt_variety data' = dt_variety data
    else CFDataSetLength env data (int n) =
      (if dt_variety data = DataMutable then Inl Halt else Inr (data\<lparr>dt_length := n\<rparr>))"
proof -
  consider "n \<le> dt_capacity data" | "dt_capacity data < n" "dt_variety data = DataMutable"
    | "dt_capacity data < n" "dt_variety data = DataFixedMutable"
    using var by (cases "dt_variety data") fastforce+
  then show ?thesis
  proof cases
    case 1
    then show ?thesis using DataSetLength_within [OF wf var zero 1] by (simp add: data_room_def)
  next
    case 2
    have new: "int (dt_length data) + (int n - int (dt_length data)) = int n" by simp
    have len: "dt_length data \<le> dt_capacity data" using wf by (simp add: data_wf_def)
    show ?thesis
    proof (cases "n \<le> CFDATA_MAX_SIZE \<and> de_alloc env (CFDataRoundUpCapacity n) \<noteq> None")
      case True
      obtain data' where g: "CFDataGrow env data (int n - int (dt_length data)) True = Inr data'" "data_wf data'"
        "data_tail_zero data'" "n \<le> dt_capacity data'" "dt_length data' = dt_length data" "dt_variety data' = DataMutable"
        "take n (data_memory data') = data_content data @ replicate (n - dt_length data) 0"
        using DataGrow_wf [OF wf 2(2) new 2(1), of env True] True by blast
      moreover have "take n (data_content data) = data_content data"
        using 2 len length_data_content [OF wf] by simp
      moreover have "CFDataSetLength env data (int n) = Inr (data'\<lparr>dt_length := n\<rparr>)"
        using g(1) 2 by (simp add: CFDataSetLength_def)
      moreover have "data_memory (data'\<lparr>dt_length := n\<rparr>) = data_memory data'" by (simp add: data_memory_def)
      ultimately show ?thesis
        using True 2 len data_tail_zero_longer [of data' n]
        by (simp add: data_room_def data_wf_def data_content_def)
    next
      case False
      have "CFDataGrow env data (int n - int (dt_length data)) True = Inl Halt"
        using data_wf_Some [OF wf var] False by (intro DataGrow_fails [OF _ new]) auto
      then show ?thesis using False 2 by (simp add: CFDataSetLength_def data_room_def)
    qed
  next
    case 3
    then show ?thesis by (simp add: CFDataSetLength_def data_room_def)
  qed
qed

lemma DataDeleteBytes_tail:
  assumes wf: "data_wf data" and var: "dt_variety data \<noteq> DataImmutable" and len: "len \<le> dt_length data"
  shows "CFDataDeleteBytes env data (int (dt_length data - len)) (int len) =
    Inr (data\<lparr>dt_length := dt_length data - len\<rparr>)"
proof -
  have "int (dt_length data) - int len = int (dt_length data - len)" using len by simp
  moreover have "dt_length data \<le> dt_capacity data" using wf by (simp add: data_wf_def)
  ultimately show ?thesis using var len
    by (cases "dt_variety data") (auto simp: CFDataDeleteBytes_def CFDataReplaceBytes_def Let_def)
qed

lemma DataSetLength_unflagged:
  "\<not> dt_needsToZero data \<Longrightarrow> dt_length data \<le> n \<Longrightarrow> n \<le> dt_capacity data \<Longrightarrow>
   CFDataSetLength env data (int n) = Inr (data\<lparr>dt_length := n\<rparr>)"
  by (auto simp: CFDataSetLength_def Let_def)

text \<open>A source in the object's own bytes, behind the place it is inserted at.\<close>

lemma moved_tail_behind:
  assumes "loc < oldLen" "oldLen \<le> length bs" "0 < n" "loc + n \<le> off" "off + n \<le> oldLen" "oldLen + n \<le> length bs"
  shows "data_read (Some (moved_tail bs loc 0 n oldLen)) (Within (int off)) n =
    Inr (take n (drop (off - n) (take oldLen bs)))"
proof -
  have "moved_tail bs loc 0 n oldLen = take (loc + n) bs @ take (oldLen - loc) (drop loc bs) @ drop (oldLen + n) bs"
    using assms by (simp add: moved_tail_def)
  moreover have "off - (loc + n) + loc = off - n" "n \<le> oldLen - loc - (off - (loc + n))" "n \<le> oldLen - (off - n)"
    "off \<le> loc + n + (oldLen - loc)"
    using assms by simp_all
  ultimately show ?thesis
    using assms by (simp add: data_read_def slice_def drop_take add.commute min_def)
qed

section \<open>Creating, comparing and reading\<close>

definition allocations_succeed :: "data_env \<Rightarrow> bool" where
  "allocations_succeed env \<longleftrightarrow> de_create env \<and> (\<forall>n. de_alloc env n \<noteq> None)"

lemma DataInit_correct:
  assumes env: "allocations_succeed env" and n: "n \<le> length bytes" "n \<le> CFDATA_MAX_SIZE"
    and cap: "variety = DataImmutable \<longrightarrow> capacity = n" "variety = DataFixedMutable \<longrightarrow> n \<le> capacity"
  shows "\<exists>data. CFDataInit env useAllocator variety capacity bytes n None = Inr (Some data) \<and> data_wf data \<and>
    data_content data = take n bytes \<and> dt_variety data = variety"
proof -
  let ?alloc = "variety = DataMutable \<or> de_inline_threshold env \<le> capacity"
  let ?cap = "if variety = DataMutable then CFDataRoundUpCapacity 1 else capacity"
  let ?var = "if variety = DataMutable then DataMutable else DataFixedMutable"
  have fill: "\<exists>data'. CFDataReplaceBytes env memory 0 0 (Outside bytes) (int n) = Inr data' \<and> data_wf data' \<and>
      data_content data' = take n bytes \<and> dt_variety data' = dt_variety memory"
    if "data_wf memory" "dt_length memory = 0" "dt_variety memory = ?var" "dt_capacity memory = ?cap" for memory
  proof -
    have "data_room env memory n"
      using that env n cap by (cases variety) (auto simp: data_room_def allocations_succeed_def)
    then show ?thesis
      using DataReplaceBytes_correct [of memory 0 0 n bytes env] that n
      by (auto simp: splice_bytes_def data_content_def split: if_splits)
  qed
  have keep: "data_wf (memory\<lparr>dt_variety := variety\<rparr>)" "data_content (memory\<lparr>dt_variety := variety\<rparr>) = data_content memory"
    if "data_wf memory" "dt_variety memory = ?var" for memory
    using that by (auto simp: data_wf_def data_content_def data_memory_def split: if_splits)
  let ?m = "\<lparr>dt_length = 0, dt_capacity = ?cap, dt_bytesDeallocator = None, dt_bytes = None, dt_variety = ?var,
      dt_inline = \<not> ?alloc, dt_useAllocator = useAllocator, dt_needsToZero = False\<rparr>"
  have create: "de_create env" using env by (simp add: allocations_succeed_def)
  show ?thesis
  proof (cases "\<not> ?alloc \<and> n = 0 \<and> variety = DataImmutable")
    case True
    then show ?thesis using cap(1) create
      by (simp add: CFDataInit_def Let_def CFDataReplaceBytes_def data_wf_def data_content_def data_memory_def)
  next
    case False
    let ?cleared = "variety = DataFixedMutable \<and> de_zero_fixed env"
    obtain junk where junk: "de_alloc env ?cap = Some junk" using env by (auto simp: allocations_succeed_def)
    define bs where "bs = (if ?alloc \<and> \<not> ?cleared then map junk [0..<?cap] else replicate ?cap 0)"
    define memory where "memory = ?m\<lparr>dt_bytes := Some bs, dt_needsToZero := ?alloc \<and> \<not> ?cleared\<rparr>"
    have "data_wf memory" "dt_length memory = 0" "dt_variety memory = ?var" "dt_capacity memory = ?cap"
      by (simp_all add: memory_def bs_def data_wf_def data_memory_def)
    then obtain data' where d: "CFDataReplaceBytes env memory 0 0 (Outside bytes) (int n) = Inr data'" "data_wf data'"
      "data_content data' = take n bytes" "dt_variety data' = ?var"
      using fill [of memory] by auto
    have "CFDataInit env useAllocator variety capacity bytes n None = Inr (Some (data'\<lparr>dt_variety := variety\<rparr>))"
      using d(1) False create junk
      by (cases variety) (auto simp: CFDataInit_def Let_def CFDataAllocate_def memory_def bs_def)
    then show ?thesis using keep [OF d(2,4)] d(3) by simp
  qed
qed

lemma DataEqual_correct:
  assumes "data_wf data1" "data_wf data2"
  shows "CFDataEqual data1 data2 = Inr (data_content data1 = data_content data2)"
proof (cases "dt_length data1 = dt_length data2")
  case True
  then show ?thesis using assms by (simp add: CFDataEqual_def slice_def data_wf_def data_content_def)
next
  case False
  then have "data_content data1 \<noteq> data_content data2"
    using length_data_content [OF assms(1)] length_data_content [OF assms(2)] by metis
  then show ?thesis using False by (simp add: CFDataEqual_def)
qed

lemma DataGetBytes_correct:
  assumes "data_wf data" "loc + len \<le> dt_length data" "len \<le> length buffer"
  shows "CFDataGetBytes data loc len buffer = Inr (take len (drop loc (data_content data)) @ drop len buffer)"
proof -
  have "loc + len \<le> length (data_memory data)" "len \<le> dt_length data - loc" "len \<le> length (data_memory data) - loc"
    using assms by (auto simp: data_wf_def)
  then show ?thesis
    using assms(3) by (simp add: CFDataGetBytes_def slice_def copy_into_def data_content_def drop_take min_def)
qed

section \<open>Properties\<close>

text \<open>
  C19. When the new bytes come from outside the object, replacing a range and appending do to the contents of a mutable object what
  they do to a list: the bytes before and after the range stay, the new ones come between them; deleting a range always does. When the result does
  not fit (a fixed capacity, more than \<open>CFDATA_MAX_SIZE\<close>, or no memory) the process is stopped. For new bytes that lie in the object itself see
  \<open>data_insert_own_bytes\<close>: they are the right ones when the object grows, and others when there is room to spare.
\<close>

theorem data_replace_bytes:
  assumes "data_wf data" and "dt_variety data \<noteq> DataImmutable"
    and "loc + len \<le> dt_length data" and "n \<le> length bytes"
  shows "(if data_room env data (dt_length data - len + n)
      then \<exists>data'. CFDataReplaceBytes env data (int loc) (int len) (Outside bytes) (int n) = Inr data' \<and> data_wf data' \<and>
        data_content data' = splice_bytes (data_content data) loc len (take n bytes) \<and> dt_variety data' = dt_variety data
      else CFDataReplaceBytes env data (int loc) (int len) (Outside bytes) (int n) = Inl Halt) \<and>
    (if data_room env data (dt_length data + n)
      then \<exists>data'. CFDataAppendBytes env data (Outside bytes) (int n) = Inr data' \<and> data_wf data' \<and>
        data_content data' = data_content data @ take n bytes
      else CFDataAppendBytes env data (Outside bytes) (int n) = Inl Halt) \<and>
    (\<exists>data'. CFDataDeleteBytes env data (int loc) (int len) = Inr data' \<and> data_wf data' \<and>
      data_content data' = take loc (data_content data) @ drop (loc + len) (data_content data))"
proof -
  have len: "length (data_content data) = dt_length data" by (rule length_data_content [OF assms(1)])
  have room: "data_room env data (dt_length data - len)"
    using assms(1) unfolding data_wf_def data_room_def by linarith
  have append: "splice_bytes (data_content data) (dt_length data) 0 xs = data_content data @ xs" for xs
    by (simp add: splice_bytes_def len)
  show ?thesis
    using DataReplaceBytes_correct [OF assms, of env]
      DataReplaceBytes_correct [OF assms(1,2) _ assms(4), of "dt_length data" 0 env]
      DataReplaceBytes_correct [OF assms(1-3), of 0 "[]" env] room
    by (simp add: CFDataAppendBytes_def CFDataDeleteBytes_def append splice_bytes_def [of _ loc len "[]"] split: if_splits)
      (metis)+
qed

text \<open>
  Setting the length cuts the contents or extends them by zeros, provided the bytes past the length are zero or
  flagged, which the operation keeps. A growing object that cannot grow stops the process; an object of
  fixed capacity silently gets a length above its capacity.
\<close>

theorem data_set_length:
  assumes "data_wf data" and "dt_variety data \<noteq> DataImmutable" and "data_tail_zero data"
  shows "(if data_room env data n
      then \<exists>data'. CFDataSetLength env data (int n) = Inr data' \<and> data_wf data' \<and> data_tail_zero data' \<and>
        data_content data' = take n (data_content data) @ replicate (n - dt_length data) 0 \<and> dt_variety data' = dt_variety data
      else CFDataSetLength env data (int n) =
        (if dt_variety data = DataMutable then Inl Halt else Inr (data\<lparr>dt_length := n\<rparr>))) \<and>
    CFDataIncreaseLength env data (int k) = CFDataSetLength env data (int (dt_length data + k)) \<and>
    (0 < n \<longrightarrow> CFDataSetLength env data (- int n) = Inl Halt \<and> CFDataIncreaseLength env data (- int n) = Inl Halt)"
  using DataSetLength_correct [OF assms, of env n] assms(2)
  by (simp add: CFDataIncreaseLength_def CFDataSetLength_def [of _ _ "- int n"])

text \<open>
  Deleting the last bytes of an object whose spare bytes are known to be zero does not flag the bytes it leaves
  behind: setting the length back brings the deleted bytes to light where zeros are due.
\<close>

theorem data_deleted_bytes_reappear:
  assumes "data_wf data" and "dt_variety data \<noteq> DataImmutable"
    and "\<not> dt_needsToZero data" and "len \<le> dt_length data"
  shows "ebind (CFDataDeleteBytes env data (int (dt_length data - len)) (int len))
      (\<lambda>data'. CFDataIncreaseLength env data' (int len)) = Inr data"
  using DataDeleteBytes_tail [OF assms(1,2,4)] assms
    DataSetLength_unflagged [of "data\<lparr>dt_length := dt_length data - len\<rparr>" "dt_length data" env]
  by (simp add: CFDataIncreaseLength_def data_wf_def of_nat_diff)

text \<open>
  Inserting bytes of the object itself that lie behind the place of insertion: when the insertion makes the
  object grow, the bytes asked for are inserted; when there is room, the tail is moved before the bytes
  are read, and what is inserted are the bytes \<open>n\<close> places before those asked for.
\<close>

theorem data_insert_own_bytes:
  assumes "data_wf data" and "dt_variety data = DataMutable" and "de_alloc env n \<noteq> None"
    and "0 < n" and "loc + n \<le> off" and "off + n \<le> dt_length data" and "data_room env data (dt_length data + n)"
  shows "\<exists>data'. CFDataReplaceBytes env data (int loc) 0 (Within (int off)) (int n) = Inr data' \<and> data_wf data' \<and>
    data_content data' = splice_bytes (data_content data) loc 0
      (take n (drop (if dt_capacity data < dt_length data + n then off else off - n) (data_content data)))"
proof (cases "dt_capacity data < dt_length data + n")
  case True
  have bound: "dt_length data \<le> dt_capacity data" using assms(1) by (simp add: data_wf_def)
  have "copied_source data (Within (int off)) n = take n (drop off (data_content data))"
    using assms(6) by (simp add: copied_source_def data_content_def drop_take min_def)
  moreover have "source_in_range env data (Within (int off)) n"
    using assms bound by (simp add: source_in_range_def)
  ultimately show ?thesis
    using DataReplaceBytes_grows [of data loc 0 n env "Within (int off)"] assms True by (auto simp: data_room_def)
next
  case False
  have "\<exists>data'. CFDataReplaceBytes env data (int loc) (int 0) (Within (int off)) (int n) = Inr data' \<and> data_wf data' \<and>
      data_content data' = splice_bytes (data_content data) loc 0 (take n (drop (off - n) (data_content data))) \<and>
      dt_variety data' = dt_variety data"
  proof (rule DataReplaceBytes_keeps)
    show "data_read (Some (moved_tail bs loc 0 n (dt_length data))) (Within (int off)) n =
        Inr (take n (drop (off - n) (data_content data)))" if "dt_bytes data = Some bs" for bs
      using that assms False moved_tail_behind [of loc "dt_length data" bs n off]
      by (simp add: data_wf_def data_content_def data_memory_def)
  qed (use assms False length_data_content [OF assms(1)] in auto)
  then show ?thesis using False by auto
qed

text \<open>
  Creating an object from bytes and copying it, as an immutable or a mutable object, gives the same
  contents back; the copies compare equal to the original, and reading a range gives its bytes.
\<close>

theorem data_creation_roundtrip:
  assumes "allocations_succeed env" and "n \<le> length bytes" and "n \<le> CFDATA_MAX_SIZE"
    and "capacity = 0 \<or> n \<le> capacity" and "loc + len \<le> n"
  shows "\<exists>data copy mutable. CFDataCreate env u bytes n = Inr (Some data) \<and> CFDataCreateCopy env v data = Inr (Some copy) \<and>
    CFDataCreateMutableCopy env w capacity data = Inr (Some mutable) \<and>
    data_content data = take n bytes \<and> data_wf mutable \<and>
    dt_variety mutable = (if capacity = 0 then DataMutable else DataFixedMutable) \<and>
    CFDataEqual data copy = Inr True \<and> CFDataEqual data mutable = Inr True \<and>
    CFDataGetBytes copy loc len (replicate len 0) = Inr (take len (drop loc bytes))"
proof -
  from DataInit_correct [OF assms(1-3), of DataImmutable n u] obtain data where
    d: "CFDataCreate env u bytes n = Inr (Some data)" "data_wf data" "data_content data = take n bytes"
    by (auto simp: CFDataCreate_def)
  have len: "dt_length data = n" using length_data_content [OF d(2)] d(3) assms(2) by simp
  have mem: "n \<le> length (data_memory data)" "take n (data_memory data) = take n bytes"
    using d(2,3) len by (simp_all add: data_wf_def data_content_def)
  from DataInit_correct [OF assms(1) mem(1) assms(3), of DataImmutable n v] obtain copy where
    c: "CFDataCreateCopy env v data = Inr (Some copy)" "data_wf copy" "data_content copy = take n bytes"
    using mem(2) len by (auto simp: CFDataCreateCopy_def CFDataGetLength_def)
  from DataInit_correct [OF assms(1) mem(1) assms(3), of "if capacity = 0 then DataMutable else DataFixedMutable" capacity w]
  obtain mutable where
    m: "CFDataCreateMutableCopy env w capacity data = Inr (Some mutable)" "data_wf mutable" "data_content mutable = take n bytes"
      "dt_variety mutable = (if capacity = 0 then DataMutable else DataFixedMutable)"
    using mem(2) len assms(4) by (cases "capacity = 0") (auto simp: CFDataCreateMutableCopy_def CFDataGetLength_def)
  have "dt_length copy = n" using length_data_content [OF c(2)] c(3) assms(2) by simp
  moreover have "take len (drop loc (take n bytes)) = take len (drop loc bytes)"
    using assms(5) by (simp add: drop_take min_def)
  ultimately show ?thesis
    using d c m assms(5) DataGetBytes_correct [OF c(2), of loc len "replicate len 0"]
      DataEqual_correct [OF d(2) c(2)] DataEqual_correct [OF d(2) m(2)]
    by auto
qed

section \<open>Witnesses\<close>

definition sample_data_env :: data_env where
  "sample_data_env = \<lparr>de_create = True, de_alloc = (\<lambda>n. Some (\<lambda>i. 170)), de_inline_threshold = 100, de_zero_fixed = False\<rparr>"

text \<open>A growing object holding the sixteen bytes it has room for, and a fixed one with three spare bytes.\<close>

definition full_data :: CFData where
  "full_data = \<lparr>dt_length = 16, dt_capacity = 16, dt_bytesDeallocator = None, dt_bytes = Some (map of_nat [0..<16]),
     dt_variety = DataMutable, dt_inline = False, dt_useAllocator = False, dt_needsToZero = True\<rparr>"

definition spare_data :: CFData where
  "spare_data = \<lparr>dt_length = 5, dt_capacity = 8, dt_bytesDeallocator = None, dt_bytes = Some [1, 2, 3, 4, 5, 0, 0, 0],
     dt_variety = DataFixedMutable, dt_inline = True, dt_useAllocator = False, dt_needsToZero = False\<rparr>"

lemma full_data_wf: "data_wf full_data" "dt_variety full_data = DataMutable" "dt_length full_data = 16"
  by (simp_all add: full_data_def data_wf_def data_memory_def)

lemma spare_data_wf: "data_wf spare_data" "dt_variety spare_data = DataFixedMutable" "dt_length spare_data = 5"
    "dt_capacity spare_data = 8" "\<not> dt_needsToZero spare_data" "data_tail_zero spare_data"
    "data_content spare_data = [1, 2, 3, 4, 5]"
  by (simp_all add: spare_data_def data_wf_def data_memory_def data_tail_zero_def data_content_def)

lemma data_replace_bytes_witness:
  "\<exists>data'. CFDataReplaceBytes sample_data_env spare_data 1 2 (Outside [7, 8, 9]) 3 = Inr data' \<and>
    data_content data' = [1, 7, 8, 9, 4, 5]"
  using data_replace_bytes [of spare_data 1 2 3 "[7, 8, 9]" sample_data_env] spare_data_wf
  by (auto simp: data_room_def splice_bytes_def)

lemma data_set_length_witness:
  "\<exists>data'. CFDataSetLength sample_data_env spare_data 7 = Inr data' \<and> data_content data' = [1, 2, 3, 4, 5, 0, 0]"
  using data_set_length [of spare_data sample_data_env 7] spare_data_wf
  by (auto simp: data_room_def numeral_2_eq_2)

lemma data_deleted_bytes_reappear_witness:
  "ebind (CFDataDeleteBytes sample_data_env spare_data 3 2) (\<lambda>data'. CFDataIncreaseLength sample_data_env data' 2) =
    Inr spare_data"
  using data_deleted_bytes_reappear [of spare_data 2 sample_data_env] spare_data_wf by simp

lemma data_insert_own_bytes_witness:
  "\<exists>data'. CFDataReplaceBytes sample_data_env full_data 2 0 (Within 8) 3 = Inr data' \<and>
    data_content data' = [0, 1, 8, 9, 10, 2, 3, 4, 5, 6, 7, 8, 9, 10, 11, 12, 13, 14, 15]"
proof -
  have room: "data_room sample_data_env full_data (16 + 3)" "de_alloc sample_data_env 3 \<noteq> None"
    by (simp_all add: data_room_def full_data_def CFDATA_MAX_SIZE_def sample_data_env_def)
  have "dt_capacity full_data = 16" "data_content full_data = map of_nat [0..<16]"
    by (simp_all add: full_data_def data_content_def data_memory_def)
  moreover have "splice_bytes (map of_nat [0..<16] :: byte list) 2 0 (take 3 (drop 8 (map of_nat [0..<16]))) =
      [0, 1, 8, 9, 10, 2, 3, 4, 5, 6, 7, 8, 9, 10, 11, 12, 13, 14, 15]"
    by (simp add: splice_bytes_def upt_rec)
  ultimately show ?thesis
    using data_insert_own_bytes [of full_data sample_data_env 3 2 8] full_data_wf room by auto
qed

lemma data_creation_roundtrip_witness:
  "\<exists>data copy. CFDataCreate sample_data_env False [1, 2, 3] 3 = Inr (Some data) \<and>
    CFDataCreateCopy sample_data_env True data = Inr (Some copy) \<and> CFDataEqual data copy = Inr True"
proof -
  have "allocations_succeed sample_data_env" by (simp add: allocations_succeed_def sample_data_env_def)
  then show ?thesis
    using data_creation_roundtrip [where u = False and v = True and w = False and n = 3 and bytes = "[1, 2, 3]"
        and capacity = 0 and loc = 0 and len = 0]
    by (force simp: CFDATA_MAX_SIZE_def)
qed

end
