(* ===== verification/CF_Set.thy ===== *)
theory CF_Set
  imports CF_HashTemplate
begin

text \<open>
  \<open>CFSet.c\<close>: a hash table without keys, whose values are the members.
  A call that may fail to make the object returns \<open>None\<close> for \<open>NULL\<close>.
\<close>

section \<open>Operations\<close>

definition CFSetEqual :: "hash_env \<Rightarrow> CFBasicHash \<Rightarrow> CFBasicHash \<Rightarrow> bool cf" where
  "CFSetEqual env cf1 cf2 = CFBasicHashesAreEqual env cf1 cf2"

definition CFSetHash :: "CFBasicHash \<Rightarrow> nat cf" where
  "CFSetHash cf = CFBasicHashHash cf"

definition CFSetDeallocate :: "CFBasicHash \<Rightarrow> (CFBasicHash \<times> ref_event list) cf" where
  "CFSetDeallocate cf = CFBasicHashDeallocate cf"

definition CFSetCreateGeneric :: "hash_env \<Rightarrow> std_callbacks \<Rightarrow> bool \<Rightarrow> CFHashKeyCallBacks option \<Rightarrow> CFHashValueCallBacks option \<Rightarrow> bool \<Rightarrow> CFBasicHash option cf" where
  "CFSetCreateGeneric env std collectable keyCallBacks valueCallBacks useValueCB = 
     container_create_generic env std collectable SetKind keyCallBacks valueCallBacks useValueCB"

definition CFSetCreateTransfer :: "hash_env \<Rightarrow> std_callbacks \<Rightarrow> ptr list \<Rightarrow> int \<Rightarrow> (CFBasicHash \<times> ref_event list) cf" where
  "CFSetCreateTransfer env std klist numValues = container_create_transfer env std SetKind klist klist numValues"

definition CFSetCreate :: "
  hash_env \<Rightarrow> std_callbacks \<Rightarrow> bool \<Rightarrow> ptr list \<Rightarrow> int \<Rightarrow> CFHashKeyCallBacks option \<Rightarrow> (CFBasicHash \<times> ref_event list) option cf" where
  "CFSetCreate env std collectable klist numValues keyCallBacks = 
     container_create env std collectable SetKind klist klist numValues keyCallBacks None"

definition CFSetCreateMutable :: "hash_env \<Rightarrow> std_callbacks \<Rightarrow> bool \<Rightarrow> int \<Rightarrow> CFHashKeyCallBacks option \<Rightarrow> CFBasicHash option cf" where
  "CFSetCreateMutable env std collectable capacity keyCallBacks = 
     CFSetCreateGeneric env std collectable keyCallBacks None False"

definition CFSetCreateCopy :: "hash_env \<Rightarrow> CFBasicHash \<Rightarrow> (CFBasicHash \<times> ref_event list) option cf" where
  "CFSetCreateCopy env other = container_create_copy env other"

definition CFSetCreateMutableCopy :: "hash_env \<Rightarrow> int \<Rightarrow> CFBasicHash \<Rightarrow> (CFBasicHash \<times> ref_event list) option cf" where
  "CFSetCreateMutableCopy env capacity other = CFBasicHashCreateCopy env other"

definition CFSetGetCount :: "CFBasicHash \<Rightarrow> nat cf" where
  "CFSetGetCount hc = CFBasicHashGetCount hc"

definition CFSetGetCountOfValue :: "hash_env \<Rightarrow> CFBasicHash \<Rightarrow> ptr \<Rightarrow> nat cf" where
  "CFSetGetCountOfValue env hc key = CFBasicHashGetCountOfKey env hc key"

definition CFSetContainsValue :: "hash_env \<Rightarrow> CFBasicHash \<Rightarrow> ptr \<Rightarrow> bool cf" where
  "CFSetContainsValue env hc key = 
     ebind (CFBasicHashGetCountOfKey env hc key) (\<lambda>c. Inr (0 < c))"

definition CFSetGetValueIfPresent :: "hash_env \<Rightarrow> CFBasicHash \<Rightarrow> ptr \<Rightarrow> ptr option cf" where
  "CFSetGetValueIfPresent env hc key = found_value env hc key"

definition CFSetGetValue :: "hash_env \<Rightarrow> CFBasicHash \<Rightarrow> ptr \<Rightarrow> ptr cf" where
  "CFSetGetValue env hc key = 
     ebind (found_value env hc key) (\<lambda>v. Inr (case v of Some x \<Rightarrow> x | None \<Rightarrow> 0))"

text \<open>Without keys, the buffer is filled with the keys of the buckets, which are the values.\<close>

definition CFSetGetValues :: "hash_env \<Rightarrow> CFBasicHash \<Rightarrow> ptr list cf" where
  "CFSetGetValues env hc = 
     ebind (CFSetGetCount hc) (\<lambda>n.
     ebind (CFBasicHashGetElements env hc n) (\<lambda>vks. Inr (map snd vks)))"

definition CFSetApplyFunction :: "hash_env \<Rightarrow> CFBasicHash \<Rightarrow> (ptr \<Rightarrow> 's \<Rightarrow> 's cf) \<Rightarrow> 's \<Rightarrow> 's cf" where
  "CFSetApplyFunction env hc applier s = 
     CFBasicHashApply env hc (\<lambda>bkt s. ebind (applier (bk_weak_value bkt) s) (\<lambda>s. Inr (s, True))) s"

definition CFSetFastEnumeration :: "hash_env \<Rightarrow> CFBasicHash \<Rightarrow> nat \<Rightarrow> nat \<Rightarrow> (nat \<times> ptr list) cf" where
  "CFSetFastEnumeration env hc state cnt = CFBasicHashFastEnumeration env hc state cnt"

definition CFSetIsMutable :: "CFBasicHash \<Rightarrow> bool" where
  "CFSetIsMutable hc = bh_mutable hc"

definition CFSetSetCapacity :: "hash_env \<Rightarrow> CFBasicHash \<Rightarrow> int \<Rightarrow> (CFBasicHash \<times> ref_event list) cf" where
  "CFSetSetCapacity env hc cap = CFBasicHashSetCapacity env hc cap"

definition CFSetAddValue :: "hash_env \<Rightarrow> CFBasicHash \<Rightarrow> ptr \<Rightarrow> (CFBasicHash \<times> ref_event list) cf" where
  "CFSetAddValue env hc key = forget (CFBasicHashAddValue env hc key key)"

definition CFSetReplaceValue :: "hash_env \<Rightarrow> CFBasicHash \<Rightarrow> ptr \<Rightarrow> (CFBasicHash \<times> ref_event list) cf" where
  "CFSetReplaceValue env hc key = CFBasicHashReplaceValue env hc key key"

definition CFSetSetValue :: "hash_env \<Rightarrow> CFBasicHash \<Rightarrow> ptr \<Rightarrow> (CFBasicHash \<times> ref_event list) cf" where
  "CFSetSetValue env hc key = CFBasicHashSetValue env hc key key"

definition CFSetRemoveValue :: "hash_env \<Rightarrow> CFBasicHash \<Rightarrow> ptr \<Rightarrow> (CFBasicHash \<times> ref_event list) cf" where
  "CFSetRemoveValue env hc key = forget (CFBasicHashRemoveValue env hc key)"

definition CFSetRemoveAllValues :: "CFBasicHash \<Rightarrow> (CFBasicHash \<times> ref_event list) cf" where
  "CFSetRemoveAllValues hc = CFBasicHashRemoveAllValues hc"

section \<open>A set has members\<close>

lemma set_contains:
  "table_ok env K ht \<Longrightarrow> key \<in> K \<Longrightarrow> CFSetContainsValue env ht key = Inr (0 < entry_count (found_entry env ht key))"
  by (simp add: CFSetContainsValue_def read_search(2))

lemma found_positive:
  assumes "table_ok env K ht" "key \<in> K"
  shows "0 < entry_count (found_entry env ht key) \<longleftrightarrow> found_entry env ht key \<noteq> None"
proof -
  have "0 < snd (snd e)" if "found_entry env ht key = Some e" for e
  proof -
    have "e \<in># entries ht" using assms by (rule hash_search.search_cases) (use that in auto)
    then show ?thesis using live_count(1) [OF assms(1)] by (auto simp: entries_def entry_at_def)
  qed
  then show ?thesis by (auto simp: entry_count_def split: option.splits)
qed

text \<open>
  After a value has been added to a set, the members are those before and the values equal to the new one; after it has been removed, they are
  those before except the values equal to it.
\<close>
theorem set_members_after_change:
  assumes ok: "table_ok env K ht" and mut: "bh_mutable ht" and plain: "retains_in_place env ht" and shape: "bh_keys ht = None" "bh_counts ht = None"
    and key: "key \<in> K" and room: "room_for_one ht"
  shows "(\<exists>ht' evs. CFSetAddValue env ht key = Inr (ht', evs) \<and> table_ok env K ht' \<and>
      (\<forall>k' \<in> K. \<exists>b. CFSetContainsValue env ht k' = Inr b \<and> CFSetContainsValue env ht' k' = Inr (b \<or> CFBasicHashTestEqualKey env ht key k'))) \<and>
    (\<exists>ht' evs. CFSetRemoveValue env ht key = Inr (ht', evs) \<and> table_ok env K ht' \<and>
      (\<forall>k' \<in> K. \<exists>b. CFSetContainsValue env ht k' = Inr b \<and> CFSetContainsValue env ht' k' = Inr (b \<and> \<not> CFBasicHashTestEqualKey env ht key k')))"
proof
  have codes: "\<not> is_sentinel key" by (rule same_key_codes [OF table_okD(2) [OF ok] key])
  obtain added h1 e1 where add: "CFBasicHashAddValue env ht key key = Inr (added, h1, e1)" "table_ok env K h1"
      "\<forall>k' \<in> K. found_entry env h1 k' =
         note_pair (CFBasicHashTestEqualKey env ht) (bh_counts ht \<noteq> None) k' (key, key) (found_entry env ht k')"
    using add_step [OF ok mut plain key codes _ room] by blast
  have "CFSetContainsValue env h1 k' = Inr (found_entry env ht k' \<noteq> None \<or> CFBasicHashTestEqualKey env ht key k')" if "k' \<in> K" for k'
    using bspec [OF add(3) that] set_contains [OF add(2) that] found_positive [OF add(2) that] shape(2) by (auto split: option.splits)
  then show "\<exists>ht' evs. CFSetAddValue env ht key = Inr (ht', evs) \<and> table_ok env K ht' \<and>
      (\<forall>k' \<in> K. \<exists>b. CFSetContainsValue env ht k' = Inr b \<and> CFSetContainsValue env ht' k' = Inr (b \<or> CFBasicHashTestEqualKey env ht key k'))"
    using add(1,2) set_contains [OF ok] found_positive [OF ok] by (simp add: CFSetAddValue_def forget_def)
  obtain n h2 e2 where rem: "CFBasicHashRemoveValue env ht key = Inr (n, h2, e2)" "table_ok env K h2"
      "\<forall>k' \<in> K. found_entry env h2 k' =
       (if CFBasicHashTestEqualKey env ht key k'
        then (case found_entry env ht k' of None \<Rightarrow> None | Some e \<Rightarrow> if snd (snd e) = 1 then None else Some (count_down e))
        else found_entry env ht k')"
    using search_after_remove_value [OF ok mut key] by blast
  have one: "snd (snd e) = 1" if "found_entry env ht k' = Some e" "k' \<in> K" for e k'
  proof -
    have "e \<in># entries ht" using ok that(2) by (rule hash_search.search_cases) (use that(1) in auto)
    then show ?thesis using live_count(2) [OF ok _ shape(2)] by (auto simp: entries_def entry_at_def)
  qed
  have "CFSetContainsValue env h2 k' = Inr (found_entry env ht k' \<noteq> None \<and> \<not> CFBasicHashTestEqualKey env ht key k')" if "k' \<in> K" for k'
    using bspec [OF rem(3) that] set_contains [OF rem(2) that] found_positive [OF rem(2) that] one [OF _ that]
    by (cases "found_entry env ht k'") auto
  then show "\<exists>ht' evs. CFSetRemoveValue env ht key = Inr (ht', evs) \<and> table_ok env K ht' \<and>
      (\<forall>k' \<in> K. \<exists>b. CFSetContainsValue env ht k' = Inr b \<and> CFSetContainsValue env ht' k' = Inr (b \<and> \<not> CFBasicHashTestEqualKey env ht key k'))"
    using rem(1,2) set_contains [OF ok] found_positive [OF ok] by (simp add: CFSetRemoveValue_def forget_def)
qed

theorem set_members_after_change_witness:
  "\<exists>ht' evs. CFSetAddValue plain_env (sample None None) 8 = Inr (ht', evs) \<and> table_ok plain_env pointers ht' \<and>
    CFSetContainsValue plain_env ht' 8 = Inr True"
proof -
  have "bh_mutable (sample None None)" "bh_keys (sample None None) = None" "bh_counts (sample None None) = None"
    by (simp_all add: sample_def)
  note change = set_members_after_change [OF sample_ok this(1) sample_in_place this(2,3) sample_codes(2) sample_room, simplified, THEN conjunct1]
  show ?thesis using change sample_codes(2) by (fastforce simp: sample_same)
qed

text \<open>
  A set made from an array is immutable and contains exactly the values equal to one of the array.
\<close>
theorem set_create_members:
  assumes "allocates env" "he_create env" "container_keys env (hash_callbacks kcb None False) K" "hands_on env (hash_callbacks kcb None False)"
    and "set klist \<subseteq> K" "length klist \<le> hash_limit"
  shows "\<exists>ht evs. CFSetCreate env std collectable klist (int (length klist)) kcb = Inr (Some (ht, evs)) \<and> table_ok env K ht \<and>
    \<not> CFSetIsMutable ht \<and>
    (\<forall>key \<in> K. CFSetContainsValue env ht key = Inr (\<exists>k \<in> set klist. container_same env (hash_callbacks kcb None False) k key))"
proof -
  have codes: "\<forall>v \<in> set klist. \<not> is_sentinel v"
    using assms(3,5) hashed_keys.key_codes [OF assms(3) [unfolded container_keys_def]] by blast
  obtain ht evs where ht: "container_create env std collectable SetKind klist klist (int (length klist)) kcb None = Inr (Some (ht, evs))"
      "table_ok env K ht" "\<not> bh_mutable ht"
      "\<forall>key \<in> K. found_entry env ht key = fold (note_pair (container_same env (hash_callbacks kcb None False)) False key) (zip klist klist) None"
    using created_container [of env kcb None SetKind K klist klist std collectable] assms codes by auto
  have "CFSetContainsValue env ht key = Inr (\<exists>k \<in> set klist. container_same env (hash_callbacks kcb None False) k key)" if "key \<in> K" for key
  proof -
    have "found_entry env ht key = None \<longleftrightarrow> \<not> (\<exists>k \<in> set klist. container_same env (hash_callbacks kcb None False) k key)"
      unfolding bspec [OF ht(4) that] first_noted by (auto simp: find_None_iff zip_same_conv_map)
    then show ?thesis unfolding set_contains [OF ht(2) that] found_positive [OF ht(2) that] by (simp del: not_None_eq)
  qed
  then show ?thesis using ht(1-3) by (auto simp: CFSetCreate_def CFSetIsMutable_def)
qed

theorem set_create_members_witness:
  "\<exists>ht evs. CFSetCreate plain_env sample_std False [7, 8] 2 None = Inr (Some (ht, evs)) \<and> table_ok plain_env pointers ht \<and>
    \<not> CFSetIsMutable ht \<and> CFSetContainsValue plain_env ht 8 = Inr True \<and> CFSetContainsValue plain_env ht 9 = Inr False"
proof -
  have "\<exists>ht evs. CFSetCreate plain_env sample_std False [7, 8] (int (length [7, 8 :: ptr])) None = Inr (Some (ht, evs)) \<and>
      table_ok plain_env pointers ht \<and> \<not> CFSetIsMutable ht \<and>
      (\<forall>key \<in> pointers. CFSetContainsValue plain_env ht key =
         Inr (\<exists>k \<in> set [7, 8]. container_same plain_env (hash_callbacks None None False) k key))"
    by (rule set_create_members) (simp_all only: pointer_container plain_allocates two_pointers)
  then show ?thesis using sample_codes(2,3) by (fastforce simp: pointer_container)
qed

end
