(* ===== verification/CF_Bag.thy ===== *)
theory CF_Bag
  imports CF_HashTemplate
begin

text \<open>
  \<open>CFBag.c\<close>: a hash table without keys that counts its values.
  A call that may fail to make the object returns \<open>None\<close> for \<open>NULL\<close>.
\<close>

section \<open>Operations\<close>

definition CFBagEqual :: "hash_env \<Rightarrow> CFBasicHash \<Rightarrow> CFBasicHash \<Rightarrow> bool cf" where
  "CFBagEqual env cf1 cf2 = CFBasicHashesAreEqual env cf1 cf2"

definition CFBagHash :: "CFBasicHash \<Rightarrow> nat cf" where
  "CFBagHash cf = CFBasicHashHash cf"

definition CFBagDeallocate :: "CFBasicHash \<Rightarrow> (CFBasicHash \<times> ref_event list) cf" where
  "CFBagDeallocate cf = CFBasicHashDeallocate cf"

definition CFBagCreateGeneric :: "hash_env \<Rightarrow> std_callbacks \<Rightarrow> bool \<Rightarrow> CFHashKeyCallBacks option \<Rightarrow> CFHashValueCallBacks option \<Rightarrow> bool \<Rightarrow> CFBasicHash option cf" where
  "CFBagCreateGeneric env std collectable keyCallBacks valueCallBacks useValueCB = 
     container_create_generic env std collectable BagKind keyCallBacks valueCallBacks useValueCB"

definition CFBagCreateTransfer :: "hash_env \<Rightarrow> std_callbacks \<Rightarrow> ptr list \<Rightarrow> int \<Rightarrow> (CFBasicHash \<times> ref_event list) cf" where
  "CFBagCreateTransfer env std klist numValues = container_create_transfer env std BagKind klist klist numValues"

definition CFBagCreate :: "
  hash_env \<Rightarrow> std_callbacks \<Rightarrow> bool \<Rightarrow> ptr list \<Rightarrow> int \<Rightarrow> CFHashKeyCallBacks option \<Rightarrow> (CFBasicHash \<times> ref_event list) option cf" where
  "CFBagCreate env std collectable klist numValues keyCallBacks = 
     container_create env std collectable BagKind klist klist numValues keyCallBacks None"

definition CFBagCreateMutable :: "hash_env \<Rightarrow> std_callbacks \<Rightarrow> bool \<Rightarrow> int \<Rightarrow> CFHashKeyCallBacks option \<Rightarrow> CFBasicHash option cf" where
  "CFBagCreateMutable env std collectable capacity keyCallBacks = 
     CFBagCreateGeneric env std collectable keyCallBacks None False"

definition CFBagCreateCopy :: "hash_env \<Rightarrow> CFBasicHash \<Rightarrow> (CFBasicHash \<times> ref_event list) option cf" where
  "CFBagCreateCopy env other = container_create_copy env other"

definition CFBagCreateMutableCopy :: "hash_env \<Rightarrow> int \<Rightarrow> CFBasicHash \<Rightarrow> (CFBasicHash \<times> ref_event list) option cf" where
  "CFBagCreateMutableCopy env capacity other = CFBasicHashCreateCopy env other"

definition CFBagGetCount :: "CFBasicHash \<Rightarrow> nat cf" where
  "CFBagGetCount hc = CFBasicHashGetCount hc"

definition CFBagGetCountOfValue :: "hash_env \<Rightarrow> CFBasicHash \<Rightarrow> ptr \<Rightarrow> nat cf" where
  "CFBagGetCountOfValue env hc key = CFBasicHashGetCountOfKey env hc key"

definition CFBagContainsValue :: "hash_env \<Rightarrow> CFBasicHash \<Rightarrow> ptr \<Rightarrow> bool cf" where
  "CFBagContainsValue env hc key = 
     ebind (CFBasicHashGetCountOfKey env hc key) (\<lambda>c. Inr (0 < c))"

definition CFBagGetValueIfPresent :: "hash_env \<Rightarrow> CFBasicHash \<Rightarrow> ptr \<Rightarrow> ptr option cf" where
  "CFBagGetValueIfPresent env hc key = found_value env hc key"

definition CFBagGetValue :: "hash_env \<Rightarrow> CFBasicHash \<Rightarrow> ptr \<Rightarrow> ptr cf" where
  "CFBagGetValue env hc key = 
     ebind (found_value env hc key) (\<lambda>v. Inr (case v of Some x \<Rightarrow> x | None \<Rightarrow> 0))"

text \<open>Without keys, the buffer is filled with the keys of the buckets, which are the values.\<close>

definition CFBagGetValues :: "hash_env \<Rightarrow> CFBasicHash \<Rightarrow> ptr list cf" where
  "CFBagGetValues env hc = 
     ebind (CFBagGetCount hc) (\<lambda>n.
     ebind (CFBasicHashGetElements env hc n) (\<lambda>vks. Inr (map snd vks)))"

definition CFBagApplyFunction :: "hash_env \<Rightarrow> CFBasicHash \<Rightarrow> (ptr \<Rightarrow> 's \<Rightarrow> 's cf) \<Rightarrow> 's \<Rightarrow> 's cf" where
  "CFBagApplyFunction env hc applier s = 
     CFBasicHashApply env hc (\<lambda>bkt s. ebind (apply_times (applier (bk_weak_value bkt)) (bk_count bkt) s) (\<lambda>s. Inr (s, True))) s"

definition CFBagFastEnumeration :: "hash_env \<Rightarrow> CFBasicHash \<Rightarrow> nat \<Rightarrow> nat \<Rightarrow> (nat \<times> ptr list) cf" where
  "CFBagFastEnumeration env hc state cnt = CFBasicHashFastEnumeration env hc state cnt"

definition CFBagIsMutable :: "CFBasicHash \<Rightarrow> bool" where
  "CFBagIsMutable hc = bh_mutable hc"

definition CFBagSetCapacity :: "hash_env \<Rightarrow> CFBasicHash \<Rightarrow> int \<Rightarrow> (CFBasicHash \<times> ref_event list) cf" where
  "CFBagSetCapacity env hc cap = CFBasicHashSetCapacity env hc cap"

definition CFBagAddValue :: "hash_env \<Rightarrow> CFBasicHash \<Rightarrow> ptr \<Rightarrow> (CFBasicHash \<times> ref_event list) cf" where
  "CFBagAddValue env hc key = forget (CFBasicHashAddValue env hc key key)"

definition CFBagReplaceValue :: "hash_env \<Rightarrow> CFBasicHash \<Rightarrow> ptr \<Rightarrow> (CFBasicHash \<times> ref_event list) cf" where
  "CFBagReplaceValue env hc key = CFBasicHashReplaceValue env hc key key"

definition CFBagSetValue :: "hash_env \<Rightarrow> CFBasicHash \<Rightarrow> ptr \<Rightarrow> (CFBasicHash \<times> ref_event list) cf" where
  "CFBagSetValue env hc key = CFBasicHashSetValue env hc key key"

definition CFBagRemoveValue :: "hash_env \<Rightarrow> CFBasicHash \<Rightarrow> ptr \<Rightarrow> (CFBasicHash \<times> ref_event list) cf" where
  "CFBagRemoveValue env hc key = forget (CFBasicHashRemoveValue env hc key)"

definition CFBagRemoveAllValues :: "CFBasicHash \<Rightarrow> (CFBasicHash \<times> ref_event list) cf" where
  "CFBagRemoveAllValues hc = CFBasicHashRemoveAllValues hc"

section \<open>A bag counts\<close>

lemma bag_count:
  "table_ok env K ht \<Longrightarrow> key \<in> K \<Longrightarrow> CFBagGetCountOfValue env ht key = Inr (entry_count (found_entry env ht key))"
  by (simp add: CFBagGetCountOfValue_def read_search(2))

text \<open>
  A bag made from an array is immutable and counts, for every value, how many of the array are equal to it.
\<close>
theorem bag_create_counts:
  assumes "allocates env" "he_create env" "container_keys env (hash_callbacks kcb None False) K" "hands_on env (hash_callbacks kcb None False)"
    and "set klist \<subseteq> K" "length klist \<le> hash_limit"
  shows "\<exists>ht evs. CFBagCreate env std collectable klist (int (length klist)) kcb = Inr (Some (ht, evs)) \<and> table_ok env K ht \<and>
    \<not> CFBagIsMutable ht \<and>
    (\<forall>key \<in> K. CFBagGetCountOfValue env ht key = Inr (length (filter (\<lambda>k. container_same env (hash_callbacks kcb None False) k key) klist)))"
proof -
  have codes: "\<forall>v \<in> set klist. \<not> is_sentinel v"
    using assms(3,5) hashed_keys.key_codes [OF assms(3) [unfolded container_keys_def]] by blast
  obtain ht evs where ht: "container_create env std collectable BagKind klist klist (int (length klist)) kcb None = Inr (Some (ht, evs))"
      "table_ok env K ht" "\<not> bh_mutable ht"
      "\<forall>key \<in> K. found_entry env ht key = fold (note_pair (container_same env (hash_callbacks kcb None False)) True key) (zip klist klist) None"
    using created_container [of env kcb None BagKind K klist klist std collectable] assms codes by auto
  have small: "entry_count None + length (zip klist klist) < LONG_MAX"
    using assms(6) capacity_bound [of 44] by (simp add: entry_count_def hash_limit_def LONG_MAX_def)
  have same: "length (filter (\<lambda>(k, v). P k) (zip xs xs)) = length (filter P xs)" for P and xs :: "ptr list"
    by (induction xs) simp_all
  have "CFBagGetCountOfValue env ht key = Inr (length (filter (\<lambda>k. container_same env (hash_callbacks kcb None False) k key) klist))"
    if "key \<in> K" for key
    unfolding bag_count [OF ht(2) that] bspec [OF ht(4) that] all_noted [OF small] same by (simp add: entry_count_def)
  then show ?thesis using ht(1-3) by (auto simp: CFBagCreate_def CFBagIsMutable_def)
qed

theorem bag_create_counts_witness:
  "\<exists>ht evs. CFBagCreate plain_env sample_std False [7, 7] 2 None = Inr (Some (ht, evs)) \<and> table_ok plain_env pointers ht \<and>
    \<not> CFBagIsMutable ht \<and> CFBagGetCountOfValue plain_env ht 7 = Inr 2"
proof -
  have "\<exists>ht evs. CFBagCreate plain_env sample_std False [7, 7] (int (length [7, 7 :: ptr])) None = Inr (Some (ht, evs)) \<and>
      table_ok plain_env pointers ht \<and> \<not> CFBagIsMutable ht \<and>
      (\<forall>key \<in> pointers. CFBagGetCountOfValue plain_env ht key =
         Inr (length (filter (\<lambda>k. container_same plain_env (hash_callbacks None None False) k key) [7, 7])))"
    by (rule bag_create_counts)
      (simp_all only: pointer_container plain_allocates, use sample_codes(1) two_pointers(4) in simp_all)
  then show ?thesis using sample_codes(1) by (fastforce simp: pointer_container)
qed

text \<open>
  C35. Adding a value to a bag raises the count of the values equal to it by one and no other, and removing it lowers it by one, while counts are
  below the largest.
\<close>
theorem bag_counts_after_change:
  assumes ok: "table_ok env K ht" and mut: "bh_mutable ht" and plain: "retains_in_place env ht" and shape: "bh_keys ht = None" "bh_counts ht \<noteq> None"
    and key: "key \<in> K" and room: "room_for_one ht" and small: "\<forall>k v c. (k, v, c) \<in># entries ht \<longrightarrow> c < LONG_MAX"
  shows "(\<exists>ht' evs. CFBagAddValue env ht key = Inr (ht', evs) \<and> table_ok env K ht' \<and>
      (\<forall>k' \<in> K. \<exists>c. CFBagGetCountOfValue env ht k' = Inr c \<and>
         CFBagGetCountOfValue env ht' k' = Inr (if CFBasicHashTestEqualKey env ht key k' then c + 1 else c))) \<and>
    (\<exists>ht' evs. CFBagRemoveValue env ht key = Inr (ht', evs) \<and> table_ok env K ht' \<and>
      (\<forall>k' \<in> K. \<exists>c. CFBagGetCountOfValue env ht k' = Inr c \<and>
         CFBagGetCountOfValue env ht' k' = Inr (if CFBasicHashTestEqualKey env ht key k' then c - 1 else c)))"
proof
  have codes: "\<not> is_sentinel key" by (rule same_key_codes [OF table_okD(2) [OF ok] key])
  have less: "c < LONG_MAX" if "found_entry env ht k' = Some (a, v, c)" "k' \<in> K" for k' a v c
    using ok that(2) by (rule hash_search.search_cases) (use that(1) small in auto)
  obtain added h1 e1 where add: "CFBasicHashAddValue env ht key key = Inr (added, h1, e1)" "table_ok env K h1"
      "\<forall>k' \<in> K. found_entry env h1 k' =
         note_pair (CFBasicHashTestEqualKey env ht) (bh_counts ht \<noteq> None) k' (key, key) (found_entry env ht k')"
    using add_step [OF ok mut plain key codes _ room] by blast
  have "entry_count (found_entry env h1 k') =
      (if CFBasicHashTestEqualKey env ht key k' then entry_count (found_entry env ht k') + 1 else entry_count (found_entry env ht k'))"
    if "k' \<in> K" for k'
    using bspec [OF add(3) that] shape(2) less [OF _ that] by (auto simp: entry_count_def count_up_def split: option.splits)
  then show "\<exists>ht' evs. CFBagAddValue env ht key = Inr (ht', evs) \<and> table_ok env K ht' \<and>
      (\<forall>k' \<in> K. \<exists>c. CFBagGetCountOfValue env ht k' = Inr c \<and>
         CFBagGetCountOfValue env ht' k' = Inr (if CFBasicHashTestEqualKey env ht key k' then c + 1 else c))"
    using add(1,2) bag_count [OF ok] bag_count [OF add(2)] by (simp add: CFBagAddValue_def forget_def)
  obtain n h2 e2 where rem: "CFBasicHashRemoveValue env ht key = Inr (n, h2, e2)" "table_ok env K h2"
      "\<forall>k' \<in> K. found_entry env h2 k' =
       (if CFBasicHashTestEqualKey env ht key k'
        then (case found_entry env ht k' of None \<Rightarrow> None | Some e \<Rightarrow> if snd (snd e) = 1 then None else Some (count_down e))
        else found_entry env ht k')"
    using search_after_remove_value [OF ok mut key] by blast
  have "entry_count (found_entry env h2 k') =
      (if CFBasicHashTestEqualKey env ht key k' then entry_count (found_entry env ht k') - 1 else entry_count (found_entry env ht k'))"
    if "k' \<in> K" for k'
    using bspec [OF rem(3) that] less [OF _ that] by (auto simp: entry_count_def count_down_def split: option.splits)
  then show "\<exists>ht' evs. CFBagRemoveValue env ht key = Inr (ht', evs) \<and> table_ok env K ht' \<and>
      (\<forall>k' \<in> K. \<exists>c. CFBagGetCountOfValue env ht k' = Inr c \<and>
         CFBagGetCountOfValue env ht' k' = Inr (if CFBasicHashTestEqualKey env ht key k' then c - 1 else c))"
    using rem(1,2) bag_count [OF ok] bag_count [OF rem(2)] by (simp add: CFBagRemoveValue_def forget_def)
qed

theorem bag_counts_after_change_witness:
  "\<exists>ht' evs c. CFBagAddValue plain_env sample_bag 7 = Inr (ht', evs) \<and> table_ok plain_env pointers ht' \<and>
    CFBagGetCountOfValue plain_env sample_bag 7 = Inr c \<and> CFBagGetCountOfValue plain_env ht' 7 = Inr (c + 1)"
proof -
  have "bh_mutable sample_bag" "bh_keys sample_bag = None" "bh_counts sample_bag \<noteq> None" by (simp_all add: sample_def)
  moreover have "\<forall>k v c. (k, v, c) \<in># entries sample_bag \<longrightarrow> c < LONG_MAX" by (simp add: sample_entries LONG_MAX_def)
  ultimately have "\<exists>ht' evs. CFBagAddValue plain_env sample_bag 7 = Inr (ht', evs) \<and> table_ok plain_env pointers ht' \<and>
      (\<forall>k' \<in> pointers. \<exists>c. CFBagGetCountOfValue plain_env sample_bag k' = Inr c \<and>
         CFBagGetCountOfValue plain_env ht' k' = Inr (if CFBasicHashTestEqualKey plain_env sample_bag 7 k' then c + 1 else c))"
    by (rule bag_counts_after_change [OF sample_bag_ok _ sample_in_place _ _ sample_codes(1) sample_room, THEN conjunct1])
  then show ?thesis using sample_codes(1) by (fastforce simp: sample_same)
qed

end
