(* ===== verification/Spec2Isabelle.thy ===== *)
theory Spec2Isabelle
  imports CF_Prelude CF_UTF8Spec CF_ConverterSpec CF_UUIDSpec CF_ScannerSpec CF_BinaryHeap CF_BigNumber CF_Number CF_Sort CF_Array CF_BitVector CF_Tree CF_Date CF_Data CF_Dictionary CF_Set CF_Bag
begin

text \<open>
  A model of the self-contained parts of CoreFoundation, the C library kept under \<open>base course/CF-1153.18\<close>: its
  collections, the sorting they share, its dates, byte blocks, wide integers, identifiers, number scanner and built-in string encodings, as compiled for 64-bit Mac OS X.

  \<^bold>\<open>The program and the model.\<close> The library is a set of objects, each with one C file. A collection is a structure on the heap that holds pointers,
  and it calls back, through addresses its creator gave it, to retain, release, compare and hash what they point to.
  In the model an object is a record with the fields of the structure, a C function is a function on records with the
  name it has in the source, and the code behind an address is a field of an environment record (\<open>heap_env\<close>,
  \<open>array_env\<close>, \<open>hash_env\<close> and so on) that every function takes. The calls to retain and release that a function makes are returned as a list
  of events in their order. A function that can stop the process, or step outside a block of memory, or do what C leaves undefined returns a sum
  (\<open>cf\<close> in \<open>CF_Prelude\<close>): \<open>Inl\<close> the failure, or \<open>Inr\<close> the result. Machine integers are words where their width
  matters, and \<open>int\<close> or \<open>nat\<close> with the range in the invariant elsewhere. A loop is a recursion on the number of its rounds where the code bounds them;
  loops that may not end (the walks of \<open>CFTree.c\<close>, on links that form a cycle, the loops of \<open>CFDate.c\<close> that carry days into months, and the rounds
  of the encoding conversions) are \<open>partial_function (option)\<close>,
  so that their ending is part of what is proved.

  \<^bold>\<open>Theories and sources.\<close>
  \<^item> \<open>CF_Prelude\<close>: results, blocks of memory, pointers, constants of \<open>CFBase.h\<close>, shared facts on lists.
  \<^item> \<open>CF_BinaryHeap\<close>, \<open>CFBinaryHeap.c\<close>: the priority queue; \<open>hp_buckets\<close> holds the first \<open>hp_count\<close> slots in heap order.
    \<open>heap_wf\<close> is kept by every operation, adding and removing do to the multiset of values what they should, the minimum is first.
  \<^item> \<open>CF_BigNumber\<close>, \<open>CFBigNumber.c\<close>: nine-digit limbs; addition, subtraction, comparison and the conversions
    are related to the integer a number stands for, with the cases where the code loses a carry or the sign of zero stated as lemmas.
  \<^item> \<open>CF_Number\<close>, the integer part of \<open>CFNumber.c\<close>, and the two functions of \<open>CFBigNumber.c\<close> that make a number object and read one: an object is its type and its bytes.
    Creation is modelled with the cache of small numbers, which gives them one type, and with the other threads that fill it; reading an object as an integer type and comparing two
    objects are related to the integers they stand for, and so is the way of a big number into an object and back, which exchanges the halves of 128-bit values.
  \<^item> \<open>CF_Sort\<close>, \<open>CFSortFunctions.c\<close>: merge sort of index lists, sequential and in sections merged from both ends; the result is the stable sorted permutation.
  \<^item> \<open>CF_Array\<close>, \<open>CFArray.c\<close>: immutable arrays and the deque of the mutable ones; \<open>ar_values\<close> is the list an array stands for, and replacing, inserting,
    removing, exchanging, sorting and searching are related to the list operations.
  \<^item> \<open>CF_BitVector\<close>, \<open>CFBitVector.c\<close>: bits in bytes, most significant first, with partial bytes at both ends of a range; related to lists of bits.
  \<^item> \<open>CF_Tree\<close>, \<open>CFTree.c\<close>: nodes linked by parent, sibling and two child pointers in a store; \<open>links_ok\<close> relates each node to the list of its children, which linking,
    unlinking and sorting change as they should; removing all children ends.
  \<^item> \<open>CF_Date\<close>, \<open>CFDate.c\<close>: absolute time and the Gregorian calendar. The count of days that \<open>__CFAbsoluteFromYMD\<close> accumulates in a \<open>double\<close> is rounded at every step
    (\<open>double_of\<close>); the conversions between days and dates are inverse where that changes nothing, for days up to \<open>2 ^ 53 - 366\<close> and years up to \<open>2 ^ 44\<close>. Times of day are real numbers. Adding
    units agrees with the calendar for years up to \<open>2 ^ 27\<close> and units up to \<open>2 ^ 28\<close>, within which no C integer of the code overflows.
  \<^item> \<open>CF_Data\<close>, \<open>CFData.c\<close>: byte blocks, immutable, of fixed capacity or growing; replacing bytes is the list operation or stops the process.
  \<^item> \<open>CF_BasicHash\<close>, \<open>CFBasicHash.c\<close> with \<open>CFBasicHashFindBucket.m\<close>: the open-addressing table under sets, bags and dictionaries, with its size tables, its three
    ways of probing, counts of growing width and cached hashes. The search is a recursion on the number of buckets, which is the bound the code uses.
    \<open>CF_HashCells\<close> states the contents of a table (\<open>entries\<close>, a multiset of key, value and count) and the invariant of its cells (\<open>hash_wf\<close>), and proves what the search
    finds. \<open>CF_HashOps\<close> proves that rehashing, adding, replacing, counting, vacating, draining and copying keep both. \<open>CF_HashSpec\<close> has the specifications, and
    the locale \<open>keyed_table\<close> with what a search finds after each kind of change.
  \<^item> \<open>CF_HashTemplate\<close>, \<open>CF_Dictionary\<close>, \<open>CF_Set\<close>, \<open>CF_Bag\<close>: \<open>CFDictionary.c\<close>, \<open>CFSet.c\<close> and \<open>CFBag.c\<close>, which are generated from one template; maps from keys to values,
    sets and multisets of values over the table.
  \<^item> \<open>CF_UTF8\<close> and \<open>CF_UTF8Spec\<close>, the UTF-8 part of \<open>CFBuiltinConverters.c\<close>: conversion between UTF-16 and UTF-8 in bounded buffers with its strict and lenient
    variants and lengths. \<open>utf16_scan\<close> and \<open>utf8s\<close> state what text and bytes stand for; encoding, decoding, inversion and bounds are proved against them.
  \<^item> \<open>CF_EightBit\<close> and \<open>CF_EightBitSpec\<close>, the rest of \<open>CFBuiltinConverters.c\<close> with \<open>__CFSearchCharTable\<close> of \<open>CFStringEncodingConverterPriv.h\<close>: ASCII, ISO Latin 1, Mac Roman,
    Windows Latin 1 and NEXTSTEP, with their tables, and the wrappers that convert a buffer character by character; every byte converts to a character and back.
  \<^item> \<open>CF_Converter\<close> and \<open>CF_ConverterSpec\<close>, \<open>CFStringEncodingConverter.c\<close>: the choice of a converter, conversion of whole strings in both directions with fallbacks, lossy bytes,
    and accents that are composed, skipped or reordered, and lengths. Exact and lossy conversions are specified, and three ways in which lossy conversion goes wrong are theorems:
    it may not end, it may write before its buffer, and it may drop a character.
  \<^item> \<open>CF_UUID\<close> and \<open>CF_UUIDSpec\<close>, \<open>CFUUID.c\<close> with \<open>CFHashBytes\<close> of \<open>CFUtilities.c\<close>: sixteen-byte identifiers, kept unique in a dictionary that is made on the first use; creation from
    bytes and from text, printing, equality and hashing. Two creations of one identifier give the same object, and printing and parsing are inverse.
  \<^item> \<open>CF_Scanner\<close> and \<open>CF_ScannerSpec\<close>, \<open>CFStringScanner.c\<close> with the inline buffer of \<open>CFString.h\<close> and the two functions of \<open>CFString.c\<close> that call it: white space, decimal numbers of 32
    and 64 bits that are clamped when they do not fit, hexadecimal numbers, and the copy of a real number into the buffer that \<open>strtod_l\<close> reads.
    The buffer, which holds 64 characters of the string at a time, never changes what is read.

  \<^bold>\<open>How they interact.\<close> Arrays call the sort (\<open>CFArraySortValues\<close> through \<open>CF_Sort\<close>) and trees sort their children with it; the containers are fronts of the hash table and rely on it only through
  its specification. The encoding conversions call the UTF-8 and eight-bit converters through the record a converter is, as the code does through function pointers. The table of unique identifiers is a dictionary whose
  callbacks compare and hash the objects in the store of identifiers. The contracts are locales, interpreted on the model's own definitions where they are provided: the comparison a heap or a
  sort needs, the contract of hash and equality callbacks (\<open>hashed_keys\<close>), and the search of a table (\<open>keyed_table\<close>).

  \<^bold>\<open>What is assumed.\<close> The theorems take as hypotheses what the documentation asks of callbacks (comparison is a preorder, equality is an equivalence
  that hashing respects), that allocation succeeds where the code stops the process otherwise, and that an object is well-formed, which creation establishes and
  every operation keeps. For hash tables: linear probing, which the containers use; keys other than the two numbers that mark cells; and at most
  3241355160 entries (the largest size the table of sizes has room for). For encodings: the tables of \<open>CFUniChar.c\<close>, which are built from Unicode data, are fields of \<open>uni_env\<close>,
  \<open>latin_env\<close> and \<open>convert_env\<close>. For identifiers (\<open>uuid_laws\<close>): the allocator gives addresses that are not in use. For the scanner: the allocator succeeds, \<open>strtod_l\<close> is a parameter that does not use more than it
  is given, and the string is shorter than \<open>2 ^ 31\<close> units, or 256 less where the code rounds its buffer up; every step of a 32-bit index, count or capacity is checked in the model. For number objects:
  other threads put into the cache what this code puts there. The reference counts themselves are not modelled, only the calls.

  \<^bold>\<open>Not modelled.\<close> In the files above: description texts, floating-point conversions of number objects, type registration, assertions (which are off in the build), tracing and statistics, collectable memory, and the
  hand-over to Objective-C objects; of the encodings, canonical decomposition (\<open>CFUniCharDecompose\<close>), the converters of ICU and of the platform, and the cache of
  converters. Other files of the library: strings and character sets (which rest on generated tables and ICU), property lists, URLs, the
  storage tree, run loops, ports, sockets, streams, bundles, plug-ins, preferences, locales, formatters and the runtime; they are listed in the
  manifest with the reason. The other directories of the repository hold sample applications in Swift and Objective-C, and the sources of dyld and
  objc4 in C++ and assembly.
\<close>

end
